(* ===== verification/Prelude.thy ===== *)
theory Prelude
  imports Main "HOL-Library.Monad_Syntax"
begin

text \<open>
  Shared vocabulary of the development: how a panic, a checked read and a saturating
  machine counter of the Rust code are written, the standard-library slice operations the
  code uses (\<^verbatim>\<open>get\<close>, \<^verbatim>\<open>chunks\<close>, \<^verbatim>\<open>partition_point\<close>), and the lemmas on lists that the
  components share.

  Conventions used by every theory:
  \<^item> an operation that can panic (a failed \<^verbatim>\<open>assert!\<close>, \<^verbatim>\<open>unreachable!\<close>, a checked
    addition that overflows, an index out of range) or that may not return has the result
    type \<open>'a option\<close>, with \<open>None\<close> for the panic; such operations are composed in the
    option monad;
  \<^item> \<^verbatim>\<open>usize\<close> and \<^verbatim>\<open>u64\<close> counters are \<open>nat\<close>; where the code checks or saturates, the bound
    is written out;
  \<^item> \<^verbatim>\<open>Arc\<close> pointers are values: the structures are immutable, so sharing is not observable
    but through the node identities that the code itself stores.
\<close>

named_theorems list_refine
  \<open>equations that push an abstraction to lists through an operation\<close>

section \<open>Machine bounds\<close>

definition usize_max :: nat where
  "usize_max = 2 ^ 64 - 1"

definition isize_max :: nat where
  "isize_max = 2 ^ 63 - 1"

text \<open>\<^verbatim>\<open>u8::saturating_add\<close> and \<^verbatim>\<open>u16::saturating_add\<close>.\<close>

definition sat_add_u8 :: "nat \<Rightarrow> nat \<Rightarrow> nat" where
  "sat_add_u8 a b = min 255 (a + b)"

definition sat_add_u16 :: "nat \<Rightarrow> nat \<Rightarrow> nat" where
  "sat_add_u16 a b = min 65535 (a + b)"

text \<open>\<^verbatim>\<open>u64::checked_add(..).expect(..)\<close>: a panic beyond the width.\<close>

definition checked_add_u64 :: "nat \<Rightarrow> nat \<Rightarrow> nat option" where
  "checked_add_u64 a b = (if a + b \<le> usize_max then Some (a + b) else None)"

lemma checked_add_u64_Some [simp]: "a + b \<le> usize_max \<Longrightarrow> checked_add_u64 a b = Some (a + b)"
  by (simp add: checked_add_u64_def)

text \<open>\<^verbatim>\<open>as u32\<close>, \<^verbatim>\<open>as u16\<close>: casts that keep the low bits; \<^verbatim>\<open>u32\<close> subtraction, which panics below 0.\<close>

definition as_u32 :: "nat \<Rightarrow> nat" where
  "as_u32 n = n mod 2 ^ 32"

definition as_u16 :: "nat \<Rightarrow> nat" where
  "as_u16 n = n mod 2 ^ 16"

definition checked_sub :: "nat \<Rightarrow> nat \<Rightarrow> nat option" where
  "checked_sub a b = (if b \<le> a then Some (a - b) else None)"

lemma as_u32_id [simp]: "n < 2 ^ 32 \<Longrightarrow> as_u32 n = n"
  by (simp add: as_u32_def)

lemma as_u16_id [simp]: "n < 2 ^ 16 \<Longrightarrow> as_u16 n = n"
  by (simp add: as_u16_def)

section \<open>Slices\<close>

text \<open>\<^verbatim>\<open>slice.get(i)\<close>.\<close>

definition nth_opt :: "'a list \<Rightarrow> nat \<Rightarrow> 'a option" where
  "nth_opt xs i = (if i < length xs then Some (xs ! i) else None)"

lemma nth_opt_append [simp]:
  "nth_opt (xs @ ys) i = (if i < length xs then nth_opt xs i else nth_opt ys (i - length xs))"
  by (auto simp: nth_opt_def nth_append)

lemma nth_opt_Nil [simp]: "nth_opt [] i = None"
  by (simp add: nth_opt_def)

lemma nth_opt_in_range [simp]: "i < length xs \<Longrightarrow> nth_opt xs i = Some (xs ! i)"
  by (simp add: nth_opt_def)

lemma nth_opt_out_of_range [simp]: "length xs \<le> i \<Longrightarrow> nth_opt xs i = None"
  by (simp add: nth_opt_def)

lemma nth_opt_None_iff: "nth_opt xs i = None \<longleftrightarrow> length xs \<le> i"
  and nth_opt_Some_iff: "nth_opt xs i = Some x \<longleftrightarrow> i < length xs \<and> x = xs ! i"
  by (auto simp: nth_opt_def)

lemma drop_eq_Cons_if_nth_opt: "nth_opt xs i = Some x \<Longrightarrow> drop i xs = x # drop (Suc i) xs"
  by (simp add: nth_opt_Some_iff Cons_nth_drop_Suc)

text \<open>\<^verbatim>\<open>slice.chunks(n)\<close> for a positive \<open>n\<close>; the code only uses constants.\<close>

function chunks :: "nat \<Rightarrow> 'a list \<Rightarrow> 'a list list" where
  "chunks n xs = (if xs = [] \<or> n = 0 then [] else take n xs # chunks n (drop n xs))"
  by pat_completeness auto
termination
  by (relation "measure (\<lambda>(n, xs). length xs)") (auto simp: length_greater_0_conv [symmetric] simp del: length_greater_0_conv)

declare chunks.simps [simp del]

lemma concat_chunks [simp]: "0 < n \<Longrightarrow> concat (chunks n xs) = xs"
  by (induction n xs rule: chunks.induct) (subst chunks.simps, auto)

lemma chunks_Nil_iff [simp]: "0 < n \<Longrightarrow> chunks n xs = [] \<longleftrightarrow> xs = []"
  by (subst chunks.simps) auto

lemma chunks_bounds: "c \<in> set (chunks n xs) \<Longrightarrow> c \<noteq> [] \<and> length c \<le> n"
proof (induction n xs rule: chunks.induct)
  case (1 n xs)
  show ?case
  proof (cases "xs = [] \<or> n = 0")
    case True
    with "1.prems" show ?thesis by (subst (asm) chunks.simps) simp
  next
    case False
    with "1.prems" have "c = take n xs \<or> c \<in> set (chunks n (drop n xs))"
      by (subst (asm) chunks.simps) simp
    with False "1.IH" show ?thesis by auto
  qed
qed

text \<open>\<^verbatim>\<open>usize::div_ceil\<close>, for a positive divisor.\<close>

definition div_ceil :: "nat \<Rightarrow> nat \<Rightarrow> nat" where
  "div_ceil a b = (a + b - 1) div b"

lemma length_chunks: "0 < n \<Longrightarrow> length (chunks n xs) = div_ceil (length xs) n"
proof (induction n xs rule: chunks.induct)
  case (1 n xs)
  show ?case
  proof (cases "xs = []")
    case True
    then show ?thesis using 1(2) by (simp add: chunks.simps div_ceil_def)
  next
    case False
    then have "length (chunks n xs) = Suc (div_ceil (length xs - n) n)"
      using 1 by (subst chunks.simps) simp
    also have "\<dots> = div_ceil (length xs) n"
    proof (cases "n \<le> length xs")
      case True
      then obtain d where "length xs = n + d" by (metis le_add_diff_inverse)
      moreover obtain e where "d + n - 1 = e" "n + d + n - 1 = n + e" using 1(2) by simp
      moreover have "(n + e) div n = Suc (e div n)"
        using div_add_self1 [of n e] 1(2) by (simp only: Suc_eq_plus1)
      ultimately show ?thesis using 1(2) by (simp add: div_ceil_def)
    next
      case less: False
      obtain k where "length xs = Suc k" using False by (cases xs) auto
      then have "(length xs + n - 1) div n = 1" using less by (intro div_nat_eqI) auto
      then show ?thesis using less 1(2) by (simp add: div_ceil_def)
    qed
    finally show ?thesis .
  qed
qed

text \<open>\<^verbatim>\<open>slice.partition_point(p)\<close> on a partitioned slice: the length of the true prefix.\<close>

definition partition_point :: "('a \<Rightarrow> bool) \<Rightarrow> 'a list \<Rightarrow> nat" where
  "partition_point p xs = length (takeWhile p xs)"

section \<open>Lists\<close>

lemma length_concat_map: "length (concat (map f xs)) = sum_list (map (length \<circ> f) xs)"
  by (induction xs) auto

lemma take_append_le [simp]: "n \<le> length xs \<Longrightarrow> take n (xs @ ys) = take n xs"
  by simp

lemma butlast_last_split: "xs \<noteq> [] \<Longrightarrow> \<exists>ys y. xs = ys @ [y]"
  by (metis append_butlast_last_id)

lemma upt_split: "i \<le> k \<Longrightarrow> k \<le> j \<Longrightarrow> [i..<j] = [i..<k] @ [k..<j]"
  by (metis le_add_diff_inverse upt_add_eq_append)

lemma upt_shift: "[k..<k + n] = map ((+) k) [0..<n]"
  by (induction n) auto

lemma filter_upt_shift: "filter p [k..<k + n] = map ((+) k) (filter (\<lambda>i. p (k + i)) [0..<n])"
  by (simp add: upt_shift filter_map comp_def del: upt_Suc)

lemma list_eq_iff_zip_all:
  "xs = ys \<longleftrightarrow> length xs = length ys \<and> list_all (\<lambda>(a, b). a = b) (zip xs ys)"
proof -
  have "length xs = length ys \<Longrightarrow> list_all (\<lambda>(a, b). a = b) (zip xs ys) \<Longrightarrow> xs = ys"
    by (induction xs ys rule: list_induct2) auto
  moreover have "list_all (\<lambda>(a, b). a = b) (zip ys ys)" for ys :: "'a list"
    by (induction ys) auto
  ultimately show ?thesis by blast
qed

lemma sum_list_take_le: "sum_list (take n (xs :: nat list)) \<le> sum_list xs"
  by (metis append_take_drop_id le_add1 sum_list_append)

lemma sum_list_take_mono:
  "m \<le> n \<Longrightarrow> sum_list (take m (xs :: nat list)) \<le> sum_list (take n xs)"
  by (metis min.absorb1 sum_list_take_le take_take)

section \<open>Positions, ranges and options\<close>

text \<open>\<^verbatim>\<open>iter().position(p)\<close> and the slice \<^verbatim>\<open>xs[a..b]\<close>, which panics out of range.\<close>

fun position :: "('a \<Rightarrow> bool) \<Rightarrow> 'a list \<Rightarrow> nat option" where
  "position P [] = None"
| "position P (x # xs) = (if P x then Some 0 else map_option Suc (position P xs))"

definition slice :: "'a list \<Rightarrow> nat \<Rightarrow> nat \<Rightarrow> 'a list option" where
  "slice xs a b = (if a \<le> b \<and> b \<le> length xs then Some (take (b - a) (drop a xs)) else None)"

lemma position_None_iff: "position P xs = None \<longleftrightarrow> (\<forall>x \<in> set xs. \<not> P x)"
  by (induction xs) auto

lemma position_Some: "position P xs = Some i \<Longrightarrow> i < length xs \<and> P (xs ! i) \<and> (\<forall>j < i. \<not> P (xs ! j))"
  by (induction xs arbitrary: i) (auto split: if_splits simp: nth_Cons split: nat.splits)

lemma slice_append: "slice xs a b = Some ys \<Longrightarrow> slice (xs @ zs) a b = Some ys"
  by (auto simp: slice_def split: if_splits)

lemma slice_at_end [simp]: "slice (xs @ ys) (length xs) (length xs + length ys) = Some ys"
  by (simp add: slice_def)

lemma map_of_rev_distinct: "distinct (map fst kvs) \<Longrightarrow> map_of (rev kvs) = map_of kvs"
  by (rule map_of_eqI) (auto simp: rev_map [symmetric] map_of_eq_Some_iff)

text \<open>A fold whose step may panic.\<close>

fun fold_opt :: "('a \<Rightarrow> 's \<Rightarrow> 's option) \<Rightarrow> 'a list \<Rightarrow> 's \<Rightarrow> 's option" where
  "fold_opt f [] s = Some s"
| "fold_opt f (x # xs) s = Option.bind (f x s) (fold_opt f xs)"

lemma fold_opt_append [simp]: "fold_opt f (xs @ ys) s = Option.bind (fold_opt f xs s) (fold_opt f ys)"
  by (induction xs arbitrary: s) (auto split: Option.bind_split)

lemma fold_opt_total:
  assumes "\<And>x s. x \<in> set xs \<Longrightarrow> I s \<Longrightarrow> \<exists>s'. f x s = Some s' \<and> I s'" "I s"
  shows "\<exists>s'. fold_opt f xs s = Some s' \<and> I s'"
  using assms
proof (induction xs arbitrary: s)
  case (Cons x xs)
  obtain t where "f x s = Some t" "I t" using Cons.prems by (meson list.set_intros(1))
  then show ?case using Cons.IH [of t] Cons.prems(1) by auto
qed simp

text \<open>A fold whose steps each contribute a set, related by a transitive relation of states.\<close>

lemma fold_opt_accumulate:
  assumes step: "\<And>x s. x \<in> set xs \<Longrightarrow> I s \<Longrightarrow> \<exists>s'. f x s = Some s' \<and> R s s' (A x) \<and> I s'"
    and refl: "\<And>s. R s s {}" and trans: "\<And>s t u A B. R s t A \<Longrightarrow> R t u B \<Longrightarrow> R s u (A \<union> B)" and "I s"
  shows "\<exists>s'. fold_opt f xs s = Some s' \<and> R s s' (\<Union>x \<in> set xs. A x) \<and> I s'"
  using step assms(4)
proof (induction xs arbitrary: s)
  case (Cons x xs)
  obtain t where t: "f x s = Some t" "R s t (A x)" "I t" using Cons.prems by (meson list.set_intros(1))
  obtain u where "fold_opt f xs t = Some u" "R t u (\<Union>x \<in> set xs. A x)" "I u"
    using Cons.IH [of t] Cons.prems(1) t(3) by (metis list.set_intros(2))
  then show ?case using t trans [OF t(2)] by auto
qed (simp add: refl)

end
