(* ===== verification/Sequence_Spec.thy ===== *)
theory Sequence_Spec
  imports Prelude
begin

text \<open>
  The contract shared by the two persistent sequences of the code
  (\<^verbatim>\<open>src/utils/persistent_seq.rs\<close> and \<^verbatim>\<open>src/framework/tape.rs\<close>): an abstraction \<open>abs\<close>
  to lists, an invariant \<open>ok\<close> relative to a threaded state \<open>'s\<close> (the node allocator of a
  tape; \<open>unit\<close> for the sequence that needs none), and operations that may panic
  (\<open>None\<close>). Facts that follow from the contract alone are proved here once, and both
  implementations obtain them by interpretation.
\<close>

locale sequence =
  fixes ok :: "'s \<Rightarrow> 'q \<Rightarrow> bool"
    and abs :: "'q \<Rightarrow> 'a list"
    and len :: "'q \<Rightarrow> nat"
    and get :: "'q \<Rightarrow> nat \<Rightarrow> 'a option"
    and to_vec :: "'q \<Rightarrow> 'a list"
  assumes len_abs: "ok s q \<Longrightarrow> len q = length (abs q)"
    and get_abs: "ok s q \<Longrightarrow> get q i = nth_opt (abs q) i"
    and to_vec_abs: "ok s q \<Longrightarrow> to_vec q = abs q"
begin

lemma get_None_iff: "ok s q \<Longrightarrow> get q i = None \<longleftrightarrow> len q \<le> i"
  by (simp add: len_abs get_abs nth_opt_def)

lemma get_to_vec: "ok s q \<Longrightarrow> i < len q \<Longrightarrow> get q i = Some (to_vec q ! i)"
  by (simp add: len_abs get_abs to_vec_abs)

text \<open>Two sequences with equal reads are equal as lists.\<close>

lemma abs_eqI:
  assumes "ok s q" "ok s' q'" "len q = len q'" "\<And>i. i < len q \<Longrightarrow> get q i = get q' i"
  shows "abs q = abs q'"
proof (rule nth_equalityI)
  show "length (abs q) = length (abs q')" using assms by (metis len_abs)
  fix i assume "i < length (abs q)"
  then show "abs q ! i = abs q' ! i"
    using assms(3) assms(4) [of i] len_abs [OF assms(1)] len_abs [OF assms(2)]
      get_abs [OF assms(1), of i] get_abs [OF assms(2), of i]
    by simp
qed

end

text \<open>
  Sequences that can be cut and joined. \<open>fits\<close> is the resource bound of the machine on a
  list of entries (a length in \<^verbatim>\<open>usize\<close>, byte totals in \<^verbatim>\<open>u64\<close>). The state is charged:
  \<open>spends s n s'\<close> says that \<open>s'\<close> is reached from \<open>s\<close> by at most \<open>n\<close> allocations, and
  \<open>room s n\<close> that \<open>n\<close> allocations are left; what was well formed stays so in a later
  state. A sequence that allocates nothing takes the trivial relations and the costs 0.
\<close>

locale cuttable_sequence = sequence ok abs len get to_vec
  for ok :: "'s \<Rightarrow> 'q \<Rightarrow> bool" and abs :: "'q \<Rightarrow> 'a list" and len get to_vec +
  fixes fits :: "'a list \<Rightarrow> bool"
    and spends :: "'s \<Rightarrow> nat \<Rightarrow> 's \<Rightarrow> bool"
    and room :: "'s \<Rightarrow> nat \<Rightarrow> bool"
    and split_cost :: "'a list \<Rightarrow> nat"
    and join_cost :: "'a list \<Rightarrow> 'a list \<Rightarrow> nat"
    and split_at :: "'q \<Rightarrow> nat \<Rightarrow> 's \<Rightarrow> (('q \<times> 'q) \<times> 's) option"
    and join :: "'q \<Rightarrow> 'q \<Rightarrow> 's \<Rightarrow> ('q \<times> 's) option"
  assumes spends_trans: "spends s m s' \<Longrightarrow> spends s' n s'' \<Longrightarrow> spends s (m + n) s''"
    and room_spends: "room s (m + n) \<Longrightarrow> spends s m s' \<Longrightarrow> room s' n"
    and room_less: "room s (m + n) \<Longrightarrow> room s m"
    and ok_mono: "ok s q \<Longrightarrow> spends s n s' \<Longrightarrow> ok s' q"
    and ok_fits: "ok s q \<Longrightarrow> fits (abs q)"
    and split_at_abs: "ok s q \<Longrightarrow> i \<le> length (abs q) \<Longrightarrow> room s (split_cost (abs q)) \<Longrightarrow>
      \<exists>l r s'. split_at q i s = Some ((l, r), s') \<and> ok s' l \<and> ok s' r \<and> spends s (split_cost (abs q)) s' \<and>
        abs l = take i (abs q) \<and> abs r = drop i (abs q)"
    and join_abs: "ok s q \<Longrightarrow> ok s r \<Longrightarrow> fits (abs q @ abs r) \<Longrightarrow> 
      room s (join_cost (abs q) (abs r)) \<Longrightarrow>
      \<exists>t s'. join q r s = Some (t, s') \<and> ok s' t \<and> spends s (join_cost (abs q) (abs r)) s' \<and> abs t = abs q @ abs r"
begin

text \<open>Cutting a sequence and joining the two sides again gives the same entries.\<close>

lemma split_join:
  assumes "ok s q" "i \<le> length (abs q)" "room s (split_cost (abs q) + join_cost (take i (abs q)) (drop i (abs q)))"
  shows "\<exists>l r s' t s''. split_at q i s = Some ((l, r), s') \<and> join l r s' = Some (t, s'') \<and>
    ok s'' t \<and> abs t = abs q"
proof -
  from split_at_abs [OF assms(1,2) room_less [OF assms(3)]] obtain l r s' where
    split: "split_at q i s = Some ((l, r), s')" "ok s' l" "ok s' r" "spends s (split_cost (abs q)) s'"
      "abs l = take i (abs q)" "abs r = drop i (abs q)" by auto
  have "fits (abs l @ abs r)" using split(5,6) ok_fits [OF assms(1)] by simp
  moreover have "room s' (join_cost (abs l) (abs r))" unfolding split(5,6) by (rule room_spends [OF assms(3) split(4)])
  ultimately obtain t s'' where "join l r s' = Some (t, s'')" "ok s'' t" "abs t = abs q"
    using join_abs [OF split(2,3)] split(5,6) by auto
  then show ?thesis using split(1) by blast
qed

text \<open>
  Replacing a range: cut at both ends of the range and join prefix, replacement and
  suffix. The bound must hold for the joined prefix as well as for the whole.
\<close>

lemma splice_by_cuts:
  assumes "ok s q" "ok s r" "i \<le> j" "j \<le> length (abs q)"
    and "fits (take i (abs q) @ abs r)" "fits (take i (abs q) @ abs r @ drop j (abs q))"
    and room: "room s (split_cost (abs q) + split_cost (drop i (abs q)) + join_cost (take i (abs q)) (abs r) +
      join_cost (take i (abs q) @ abs r) (drop j (abs q)))"
  shows "\<exists>pre tail s1 mid suf s2 t1 s3 t s4.
      split_at q i s = Some ((pre, tail), s1) \<and> split_at tail (j - i) s1 = Some ((mid, suf), s2) \<and>
      join pre r s2 = Some (t1, s3) \<and> join t1 suf s3 = Some (t, s4) \<and>
      ok s4 t \<and> abs t = take i (abs q) @ abs r @ drop j (abs q)"
proof -
  let ?c1 = "split_cost (abs q)" and ?c2 = "split_cost (drop i (abs q))"
  let ?jr = "join_cost (take i (abs q)) (abs r)"
  have rooms: "room s ?c1" "room s (?c1 + ?c2)" "room s (?c1 + ?c2 + ?jr)"
    using room room_less by blast+
  have "i \<le> length (abs q)" using assms(3,4) by simp
  from split_at_abs [OF assms(1) this rooms(1)] obtain pre tail s1 where
    c1: "split_at q i s = Some ((pre, tail), s1)" "ok s1 pre" "ok s1 tail" "spends s ?c1 s1"
      "abs pre = take i (abs q)" "abs tail = drop i (abs q)" by auto
  have "j - i \<le> length (abs tail)" using assms(4) c1(6) by simp
  moreover have "room s1 (split_cost (abs tail))" unfolding c1(6) by (rule room_spends [OF rooms(2) c1(4)])
  ultimately obtain mid suf s2 where
    c2: "split_at tail (j - i) s1 = Some ((mid, suf), s2)" "ok s2 suf" "spends s1 ?c2 s2"
      "abs suf = drop j (abs q)" using split_at_abs [OF c1(3)] assms(3) c1(6) by fastforce
  note s2 = spends_trans [OF c1(4) c2(3)]
  have pr: "ok s2 pre" "ok s2 r" by (rule ok_mono [OF c1(2) c2(3)], rule ok_mono [OF assms(2) s2])
  have "fits (abs pre @ abs r)" using assms(5) c1(5) by simp
  moreover have "room s2 (join_cost (abs pre) (abs r))" unfolding c1(5) by (rule room_spends [OF rooms(3) s2])
  ultimately obtain t1 s3 where
    j1: "join pre r s2 = Some (t1, s3)" "ok s3 t1" "spends s2 ?jr s3" "abs t1 = take i (abs q) @ abs r"
    using join_abs [OF pr] c1(5) by auto
  have "ok s3 suf" by (rule ok_mono [OF c2(2) j1(3)])
  moreover have "room s3 (join_cost (abs t1) (abs suf))"
    unfolding c2(4) j1(4) by (rule room_spends [OF room spends_trans [OF s2 j1(3)]])
  ultimately obtain t s4 where
    j2: "join t1 suf s3 = Some (t, s4)" "ok s4 t" "abs t = take i (abs q) @ abs r @ drop j (abs q)"
    using join_abs [OF j1(2), of suf] assms(6) j1(4) c2(4) by auto
  show ?thesis using c1(1) c2(1) j1(1) j2 by (intro exI conjI)
qed

end

end
