(* ===== verification/Persistent_Seq.thy ===== *)
theory Persistent_Seq
  imports Sequence_Spec
begin

text \<open>
  The clone-cheap persistent sequence of \<^verbatim>\<open>src/utils/persistent_seq.rs\<close>: a binary rope of
  leaves of at most 32 values, every node of which carries its length, a saturating height
  and a measure. \<open>snode\<close> is \<^verbatim>\<open>Node<T, M>\<close>, \<open>pseq\<close> is \<^verbatim>\<open>PersistentSeq<T, M>\<close>, and the
  trait \<^verbatim>\<open>SeqMeasure\<close> is the record \<open>measure_ops\<close> every operation takes. The lemmas show
  that the operations compute the list operations on \<open>seq_list\<close>, that the stored lengths,
  heights and measures stay exact, how deep the rope gets, and what
  \<^verbatim>\<open>measure_after_items\<close> really returns.
\<close>

section \<open>Nodes and measures\<close>

definition LEAF_CAP :: nat where
  "LEAF_CAP = 32"

record ('a, 'm) measure_ops =
  measure_leaf :: "'a list \<Rightarrow> 'm"
  combine :: "'m \<Rightarrow> 'm \<Rightarrow> 'm"

text \<open>\<^verbatim>\<open>CountMeasure\<close> and its \<^verbatim>\<open>SeqMeasureWeight\<close>.\<close>

datatype count_measure = CountMeasure (count_value: nat)

definition count_ops :: "('a, count_measure) measure_ops" where
  "count_ops = \<lparr> measure_leaf = (\<lambda>values. CountMeasure (length values)),
                 combine = (\<lambda>l r. CountMeasure (count_value l + count_value r)) \<rparr>"

definition count_weight :: "count_measure \<Rightarrow> nat" where
  "count_weight m = count_value m"

datatype ('a, 'm) snode =
    SLeaf (leaf_values: "'a list") (leaf_measure: 'm)
  | SBranch (branch_left: "('a, 'm) snode") (branch_right: "('a, 'm) snode")
      (branch_len: nat) (branch_height: nat) (branch_measure: 'm)

fun snode_len :: "('a, 'm) snode \<Rightarrow> nat" where
  "snode_len (SLeaf vs _) = length vs"
| "snode_len (SBranch _ _ n _ _) = n"

fun snode_height :: "('a, 'm) snode \<Rightarrow> nat" where
  "snode_height (SLeaf _ _) = 0"
| "snode_height (SBranch _ _ _ h _) = h"

fun snode_measure :: "('a, 'm) snode \<Rightarrow> 'm" where
  "snode_measure (SLeaf _ m) = m"
| "snode_measure (SBranch _ _ _ _ m) = m"

definition leaf :: "('a, 'm) measure_ops \<Rightarrow> 'a list \<Rightarrow> ('a, 'm) snode" where
  "leaf M vs = SLeaf vs (measure_leaf M vs)"

definition branch :: "('a, 'm) measure_ops \<Rightarrow> ('a, 'm) snode \<Rightarrow> ('a, 'm) snode \<Rightarrow> ('a, 'm) snode" where
  "branch M l r = SBranch l r (snode_len l + snode_len r)
     (sat_add_u8 (max (snode_height l) (snode_height r)) 1)
     (combine M (snode_measure l) (snode_measure r))"

fun snode_get :: "('a, 'm) snode \<Rightarrow> nat \<Rightarrow> 'a option" where
  "snode_get (SLeaf vs _) i = nth_opt vs i"
| "snode_get (SBranch l r _ _ _) i =
     (if i < snode_len l then snode_get l i else snode_get r (i - snode_len l))"

section \<open>Building, joining and splitting nodes\<close>

text \<open>\<^verbatim>\<open>build_balanced\<close>; on an empty slice the Rust function does not return.\<close>

function build_balanced :: "('a, 'm) measure_ops \<Rightarrow> ('a, 'm) snode list \<Rightarrow> ('a, 'm) snode option" where
  "build_balanced M ns =
     (if ns = [] then None
      else if length ns = 1 then Some (ns ! 0)
      else do {
        l \<leftarrow> build_balanced M (take (length ns div 2) ns);
        r \<leftarrow> build_balanced M (drop (length ns div 2) ns);
        Some (branch M l r)
      })"
  by pat_completeness auto
termination
proof (relation "measure (\<lambda>(M, ns). length ns)", simp, goal_cases)
  case (1 M ns)
  then have "2 \<le> length ns" by (cases ns) (auto simp: Suc_le_eq)
  then show ?case by simp
next
  case (2 M ns)
  then have "2 \<le> length ns" by (cases ns) (auto simp: Suc_le_eq)
  then show ?case by simp
qed

declare build_balanced.simps [simp del]

function join :: "('a, 'm) measure_ops \<Rightarrow> ('a, 'm) snode \<Rightarrow> ('a, 'm) snode \<Rightarrow> ('a, 'm) snode" where
  "join M left right =
     (if sat_add_u8 (snode_height right) 1 < snode_height left then
        (case left of
           SLeaf _ _ \<Rightarrow> branch M left right
         | SBranch left_left left_right _ _ _ \<Rightarrow> branch M left_left (join M left_right right))
      else if sat_add_u8 (snode_height left) 1 < snode_height right then
        (case right of
           SLeaf _ _ \<Rightarrow> branch M left right
         | SBranch right_left right_right _ _ _ \<Rightarrow> branch M (join M left right_left) right_right)
      else branch M left right)"
  by pat_completeness auto
termination by (relation "measure (\<lambda>(M, l, r). size l + size r)") auto

declare join.simps [simp del]

fun join_options :: "('a, 'm) measure_ops \<Rightarrow> ('a, 'm) snode option \<Rightarrow> ('a, 'm) snode option \<Rightarrow>
    ('a, 'm) snode option" where
  "join_options M None None = None"
| "join_options M (Some n) None = Some n"
| "join_options M None (Some n) = Some n"
| "join_options M (Some l) (Some r) = Some (join M l r)"

fun append_node :: "('a, 'm) measure_ops \<Rightarrow> ('a, 'm) snode \<Rightarrow> ('a, 'm) snode \<Rightarrow> ('a, 'm) snode" where
  "append_node M (SLeaf vs m) lf =
     (if length vs < LEAF_CAP
      then leaf M (vs @ (case lf of SLeaf added _ \<Rightarrow> added | SBranch _ _ _ _ _ \<Rightarrow> []))
      else branch M (SLeaf vs m) lf)"
| "append_node M (SBranch l r _ _ _) lf = join M l (append_node M r lf)"

fun replace_node :: "('a, 'm) measure_ops \<Rightarrow> ('a, 'm) snode \<Rightarrow> nat \<Rightarrow> 'a \<Rightarrow> ('a, 'm) snode" where
  "replace_node M (SLeaf vs _) i v = leaf M (vs[i := v])"
| "replace_node M (SBranch l r _ _ _) i v =
     (if i < snode_len l then branch M (replace_node M l i v) r
      else branch M l (replace_node M r (i - snode_len l) v))"

fun split_node :: "('a, 'm) measure_ops \<Rightarrow> ('a, 'm) snode \<Rightarrow> nat \<Rightarrow>
    ('a, 'm) snode option \<times> ('a, 'm) snode option" where
  "split_node M (SLeaf vs _) i = (Some (leaf M (take i vs)), Some (leaf M (drop i vs)))"
| "split_node M (SBranch l r _ _ _) i =
     (if i < snode_len l then
        (let (prefix, split_left) = split_node M l i
         in (prefix, join_options M split_left (Some r)))
      else if i = snode_len l then (Some l, Some r)
      else
        (let (split_right, suffix) = split_node M r (i - snode_len l)
         in (join_options M (Some l) split_right, suffix)))"

text \<open>\<^verbatim>\<open>weighted_get_node\<close>: the scan of a leaf is the \<^verbatim>\<open>for\<close> loop of the code.\<close>

fun weighted_scan :: "('a, 'm) measure_ops \<Rightarrow> ('m \<Rightarrow> nat) \<Rightarrow> 'a list \<Rightarrow> nat \<Rightarrow> nat \<Rightarrow>
    (nat \<times> nat \<times> 'a) option" where
  "weighted_scan M weight [] offset index = None"
| "weighted_scan M weight (v # vs) offset index =
     (let w = weight (measure_leaf M [v])
      in if offset < w then Some (index, offset, v)
         else weighted_scan M weight vs (offset - w) (index + 1))"

fun weighted_get_node :: "('a, 'm) measure_ops \<Rightarrow> ('m \<Rightarrow> nat) \<Rightarrow> ('a, 'm) snode \<Rightarrow> nat \<Rightarrow> nat \<Rightarrow>
    (nat \<times> nat \<times> 'a) option" where
  "weighted_get_node M weight (SLeaf vs _) offset base = weighted_scan M weight vs offset base"
| "weighted_get_node M weight (SBranch l r _ _ _) offset base =
     (let left_weight = weight (snode_measure l)
      in if offset < left_weight then weighted_get_node M weight l offset base
         else weighted_get_node M weight r (offset - left_weight) (base + snode_len l))"

fun measure_after_node :: "('a, 'm) measure_ops \<Rightarrow> ('a, 'm) snode \<Rightarrow> nat \<Rightarrow> 'm" where
  "measure_after_node M (SLeaf vs m) i = (if i = 0 then m else measure_leaf M (drop i vs))"
| "measure_after_node M (SBranch l r n h m) i =
     (if i = 0 then m
      else if i < snode_len l then measure_after_node M l i
      else if i = snode_len l then snode_measure r
      else measure_after_node M r (i - snode_len l))"

section \<open>The sequence\<close>

datatype ('a, 'm) pseq = PersistentSeq (root: "('a, 'm) snode option")

definition seq_new :: "('a, 'm) pseq" where
  "seq_new = PersistentSeq None"

text \<open>\<open>None\<close> would be the non-terminating \<open>build_balanced []\<close>; it never happens.\<close>

definition seq_from_iter :: "('a, 'm) measure_ops \<Rightarrow> 'a list \<Rightarrow> ('a, 'm) pseq option" where
  "seq_from_iter M values =
     (if values = [] then Some seq_new
      else map_option (\<lambda>n. PersistentSeq (Some n)) (build_balanced M (map (leaf M) (chunks LEAF_CAP values))))"

definition seq_len :: "('a, 'm) pseq \<Rightarrow> nat" where
  "seq_len s = (case root s of None \<Rightarrow> 0 | Some n \<Rightarrow> snode_len n)"

definition seq_is_empty :: "('a, 'm) pseq \<Rightarrow> bool" where
  "seq_is_empty s = (root s = None)"

definition seq_measure_of :: "('a, 'm) pseq \<Rightarrow> 'm option" where
  "seq_measure_of s = map_option snode_measure (root s)"

definition seq_push :: "('a, 'm) measure_ops \<Rightarrow> ('a, 'm) pseq \<Rightarrow> 'a \<Rightarrow> ('a, 'm) pseq" where
  "seq_push M s v = PersistentSeq (Some (case root s of
       None \<Rightarrow> leaf M [v]
     | Some n \<Rightarrow> append_node M n (leaf M [v])))"

definition seq_get :: "('a, 'm) pseq \<Rightarrow> nat \<Rightarrow> 'a option" where
  "seq_get s i = (case root s of
       None \<Rightarrow> None
     | Some n \<Rightarrow> (if i < snode_len n then snode_get n i else None))"

definition seq_weighted_get :: "('a, 'm) measure_ops \<Rightarrow> ('m \<Rightarrow> nat) \<Rightarrow> ('a, 'm) pseq \<Rightarrow> nat \<Rightarrow>
    (nat \<times> nat \<times> 'a) option" where
  "seq_weighted_get M weight s offset = (case root s of
       None \<Rightarrow> None
     | Some n \<Rightarrow> (if weight (snode_measure n) \<le> offset then None
                else weighted_get_node M weight n offset 0))"

definition seq_measure_after_items :: "('a, 'm) measure_ops \<Rightarrow> ('a, 'm) pseq \<Rightarrow> nat \<Rightarrow> 'm option" where
  "seq_measure_after_items M s i = (case root s of
       None \<Rightarrow> None
     | Some n \<Rightarrow> (if snode_len n \<le> i then None else Some (measure_after_node M n i)))"

definition seq_concat :: "('a, 'm) measure_ops \<Rightarrow> ('a, 'm) pseq \<Rightarrow> ('a, 'm) pseq \<Rightarrow> ('a, 'm) pseq" where
  "seq_concat M s t = PersistentSeq (join_options M (root s) (root t))"

text \<open>\<open>None\<close> is the failed \<^verbatim>\<open>assert!\<close> of an index out of bounds.\<close>

definition seq_split_at :: "('a, 'm) measure_ops \<Rightarrow> ('a, 'm) pseq \<Rightarrow> nat \<Rightarrow>
    (('a, 'm) pseq \<times> ('a, 'm) pseq) option" where
  "seq_split_at M s i =
     (if seq_len s < i then None
      else Some (case root s of
          None \<Rightarrow> (seq_new, seq_new)
        | Some n \<Rightarrow>
            (if i = 0 then (seq_new, s)
             else if i = snode_len n then (s, seq_new)
             else (let (l, r) = split_node M n i in (PersistentSeq l, PersistentSeq r)))))"

definition seq_replace :: "('a, 'm) measure_ops \<Rightarrow> ('a, 'm) pseq \<Rightarrow> nat \<Rightarrow> 'a \<Rightarrow> ('a, 'm) pseq option" where
  "seq_replace M s i v =
     (if i < seq_len s
      then map_option (\<lambda>n. PersistentSeq (Some (replace_node M n i v))) (root s)
      else None)"

definition seq_splice :: "('a, 'm) measure_ops \<Rightarrow> ('a, 'm) pseq \<Rightarrow> nat \<Rightarrow> nat \<Rightarrow> 'a list \<Rightarrow>
    ('a, 'm) pseq option" where
  "seq_splice M s start stop replacement =
     (if start \<le> stop \<and> stop \<le> seq_len s
      then do {
        (prefix, tail) \<leftarrow> seq_split_at M s start;
        (_, suffix) \<leftarrow> seq_split_at M tail (stop - start);
        middle \<leftarrow> seq_from_iter M replacement;
        Some (seq_concat M (seq_concat M prefix middle) suffix)
      }
      else None)"

subsection \<open>The borrowing iterator\<close>

datatype ('a, 'm) frame = FNode "('a, 'm) snode" | FLeaf "'a list" nat

definition iter_frames :: "('a, 'm) pseq \<Rightarrow> ('a, 'm) frame list" where
  "iter_frames s = (case root s of None \<Rightarrow> [] | Some n \<Rightarrow> [FNode n])"

text \<open>\<^verbatim>\<open>Iterator::next\<close>: the frames are a stack, its top first.\<close>

fun frame_steps :: "('a, 'm) frame \<Rightarrow> nat" where
  "frame_steps (FNode n) = 2 * size n"
| "frame_steps (FLeaf _ _) = 1"

function iter_next :: "('a, 'm) frame list \<Rightarrow> ('a \<times> ('a, 'm) frame list) option" where
  "iter_next [] = None"
| "iter_next (FNode (SLeaf vs _) # fs) = iter_next (FLeaf vs 0 # fs)"
| "iter_next (FNode (SBranch l r _ _ _) # fs) = iter_next (FNode l # FNode r # fs)"
| "iter_next (FLeaf vs i # fs) =
     (case nth_opt vs i of
        None \<Rightarrow> iter_next fs
      | Some v \<Rightarrow> Some (v, FLeaf vs (i + 1) # fs))"
  by pat_completeness auto
termination
  by (relation "measure (\<lambda>fs. sum_list (map frame_steps fs))") auto

section \<open>What the operations compute\<close>

fun snode_list :: "('a, 'm) snode \<Rightarrow> 'a list" where
  "snode_list (SLeaf vs _) = vs"
| "snode_list (SBranch l r _ _ _) = snode_list l @ snode_list r"

definition seq_list :: "('a, 'm) pseq \<Rightarrow> 'a list" where
  "seq_list s = (case root s of None \<Rightarrow> [] | Some n \<Rightarrow> snode_list n)"

fun snode_ok :: "('a, 'm) measure_ops \<Rightarrow> ('a, 'm) snode \<Rightarrow> bool" where
  "snode_ok M (SLeaf vs m) \<longleftrightarrow> vs \<noteq> [] \<and> length vs \<le> LEAF_CAP \<and> m = measure_leaf M vs"
| "snode_ok M (SBranch l r n h m) \<longleftrightarrow> snode_ok M l \<and> snode_ok M r \<and>
     n = snode_len l + snode_len r \<and>
     h = sat_add_u8 (max (snode_height l) (snode_height r)) 1 \<and>
     m = combine M (snode_measure l) (snode_measure r)"

definition seq_ok :: "('a, 'm) measure_ops \<Rightarrow> ('a, 'm) pseq \<Rightarrow> bool" where
  "seq_ok M s = (case root s of None \<Rightarrow> True | Some n \<Rightarrow> snode_ok M n)"

lemma snode_len_list: "snode_ok M n \<Longrightarrow> snode_len n = length (snode_list n)"
  by (induction n) auto

lemma snode_list_nonempty: "snode_ok M n \<Longrightarrow> snode_list n \<noteq> []"
  by (induction n) auto

lemma snode_len_pos: "snode_ok M n \<Longrightarrow> 0 < snode_len n"
  by (simp add: snode_len_list snode_list_nonempty)

lemma snode_list_leaf [list_refine, simp]: "snode_list (leaf M vs) = vs"
  by (simp add: leaf_def)

lemma snode_list_branch [list_refine, simp]: "snode_list (branch M l r) = snode_list l @ snode_list r"
  by (simp add: branch_def)

lemma snode_ok_leaf [simp]: "snode_ok M (leaf M vs) \<longleftrightarrow> vs \<noteq> [] \<and> length vs \<le> LEAF_CAP"
  by (simp add: leaf_def)

lemma snode_ok_branch [simp]: "snode_ok M (branch M l r) \<longleftrightarrow> snode_ok M l \<and> snode_ok M r"
  by (simp add: branch_def)

lemma snode_get_list: "snode_ok M n \<Longrightarrow> snode_get n i = nth_opt (snode_list n) i"
  by (induction n arbitrary: i) (auto simp: snode_len_list)

lemma snode_list_join [list_refine, simp]: "snode_list (join M l r) = snode_list l @ snode_list r"
proof (induction M l r rule: join.induct)
  case (1 M l r)
  then show ?case by (subst join.simps) (auto split: snode.splits)
qed

lemma snode_ok_join [simp]: "snode_ok M l \<Longrightarrow> snode_ok M r \<Longrightarrow> snode_ok M (join M l r)"
proof (induction M l r rule: join.induct)
  case (1 M l r)
  then show ?case by (subst join.simps) (auto split: snode.splits)
qed

text \<open>The optional root as a list and its invariant.\<close>

definition root_list :: "('a, 'm) snode option \<Rightarrow> 'a list" where
  "root_list n = (case n of None \<Rightarrow> [] | Some n \<Rightarrow> snode_list n)"

definition root_ok :: "('a, 'm) measure_ops \<Rightarrow> ('a, 'm) snode option \<Rightarrow> bool" where
  "root_ok M n = (case n of None \<Rightarrow> True | Some n \<Rightarrow> snode_ok M n)"

lemma root_list_simps [simp]: "root_list None = []" "root_list (Some n) = snode_list n"
  and root_ok_simps [simp]: "root_ok M None" "root_ok M (Some n) = snode_ok M n"
  by (simp_all add: root_list_def root_ok_def)

lemma seq_list_root: "seq_list s = root_list (root s)"
  and seq_ok_root: "seq_ok M s = root_ok M (root s)"
  by (simp_all add: seq_list_def root_list_def seq_ok_def root_ok_def)

lemma root_list_join_options [list_refine, simp]:
  "root_list (join_options M a b) = root_list a @ root_list b"
  by (cases "(M, a, b)" rule: join_options.cases) auto

lemma root_ok_join_options [simp]:
  "root_ok M a \<Longrightarrow> root_ok M b \<Longrightarrow> root_ok M (join_options M a b)"
  by (cases "(M, a, b)" rule: join_options.cases) auto

lemma split_node_correct:
  assumes "snode_ok M n" "0 < i" "i < snode_len n" "split_node M n i = (a, b)"
  shows "root_list a = take i (snode_list n) \<and> root_list b = drop i (snode_list n) \<and>
    root_ok M a \<and> root_ok M b"
  using assms
proof (induction n arbitrary: i a b)
  case (SLeaf vs m)
  then show ?case by auto
next
  case (SBranch l r n h m)
  have len: "snode_len l = length (snode_list l)" "snode_len r = length (snode_list r)"
    using SBranch.prems(1) by (auto simp: snode_len_list)
  consider "i < snode_len l" | "i = snode_len l" | "snode_len l < i" by linarith
  then show ?case
  proof cases
    case 1
    with SBranch.prems SBranch.IH(1) [of i] show ?thesis
      by (auto simp: len split: prod.splits)
  next
    case 2
    with SBranch.prems show ?thesis by (auto simp: len)
  next
    case 3
    with SBranch.prems SBranch.IH(2) [of "i - snode_len l"] show ?thesis
      by (auto simp: len split: prod.splits)
  qed
qed

lemma append_node_list [list_refine]:
  "snode_list (append_node M n (leaf M [v])) = snode_list n @ [v]"
  by (induction M n "leaf M [v]" rule: append_node.induct) (auto simp: leaf_def)

lemma append_node_ok: "snode_ok M n \<Longrightarrow> snode_ok M (append_node M n (leaf M [v]))"
  by (induction M n "leaf M [v]" rule: append_node.induct)
    (auto simp: leaf_def LEAF_CAP_def)

lemma replace_node_list [list_refine]:
  "snode_ok M n \<Longrightarrow> snode_list (replace_node M n i v) = (snode_list n)[i := v]"
  by (induction n arbitrary: i) (auto simp: snode_len_list list_update_append)

lemma replace_node_ok: "snode_ok M n \<Longrightarrow> snode_ok M (replace_node M n i v)"
  by (induction n arbitrary: i) auto

lemma build_balanced_correct:
  "ns \<noteq> [] \<Longrightarrow> \<forall>n \<in> set ns. snode_ok M n \<Longrightarrow>
    \<exists>t. build_balanced M ns = Some t \<and> snode_ok M t \<and> snode_list t = concat (map snode_list ns)"
proof (induction M ns rule: build_balanced.induct)
  case (1 M ns)
  show ?case
  proof (cases "length ns = 1")
    case True
    then obtain n where "ns = [n]" by (auto simp: length_Suc_conv)
    with "1.prems" show ?thesis by (subst build_balanced.simps) simp
  next
    case False
    let ?k = "length ns div 2"
    have k: "0 < ?k" "?k < length ns" using False "1.prems"(1) by (cases ns, auto)+
    have ne: "take ?k ns \<noteq> []" "drop ?k ns \<noteq> []" using k by auto
    obtain l where l: "build_balanced M (take ?k ns) = Some l" "snode_ok M l"
        "snode_list l = concat (map snode_list (take ?k ns))"
      using "1.IH"(1) [OF "1.prems"(1) False ne(1)] "1.prems"(2) by (auto dest: in_set_takeD)
    obtain r where r: "build_balanced M (drop ?k ns) = Some r" "snode_ok M r"
        "snode_list r = concat (map snode_list (drop ?k ns))"
      using "1.IH"(2) [OF "1.prems"(1) False l(1) ne(2)] "1.prems"(2) by (auto dest: in_set_dropD)
    have "concat (map snode_list ns) = snode_list l @ snode_list r"
      unfolding l(3) r(3) by (metis append_take_drop_id concat_append map_append)
    then show ?thesis using l r False "1.prems"(1) by (subst build_balanced.simps) simp
  qed
qed

lemma seq_from_iter_correct:
  "\<exists>s. seq_from_iter M values = Some s \<and> seq_ok M s \<and> seq_list s = values"
proof (cases "values = []")
  case True
  then show ?thesis by (simp add: seq_from_iter_def seq_new_def seq_ok_def seq_list_def)
next
  case False
  let ?ns = "map (leaf M) (chunks LEAF_CAP values)"
  have cap: "0 < LEAF_CAP" by (simp add: LEAF_CAP_def)
  have "?ns \<noteq> []" using False cap by simp
  moreover have "\<forall>n \<in> set ?ns. snode_ok M n" using chunks_bounds by fastforce
  ultimately obtain t where "build_balanced M ?ns = Some t" "snode_ok M t"
      "snode_list t = concat (map snode_list ?ns)"
    using build_balanced_correct by blast
  moreover have "concat (map snode_list ?ns) = values" using cap by (simp add: comp_def)
  ultimately show ?thesis using False by (simp add: seq_from_iter_def seq_ok_def seq_list_def)
qed

section \<open>The iterator\<close>

fun frame_list :: "('a, 'm) frame \<Rightarrow> 'a list" where
  "frame_list (FNode n) = snode_list n"
| "frame_list (FLeaf vs i) = drop i vs"

abbreviation frames_list :: "('a, 'm) frame list \<Rightarrow> 'a list" where
  "frames_list fs \<equiv> concat (map frame_list fs)"

lemma iter_next_None: "iter_next fs = None \<Longrightarrow> frames_list fs = []"
proof (induction fs rule: iter_next.induct)
  case (4 vs i fs)
  then show ?case by (cases "nth_opt vs i") (simp_all add: nth_opt_None_iff)
qed simp_all

lemma iter_next_Some: "iter_next fs = Some (v, fs') \<Longrightarrow> frames_list fs = v # frames_list fs'"
proof (induction fs rule: iter_next.induct)
  case (4 vs i fs)
  show ?case
  proof (cases "nth_opt vs i")
    case None
    with 4 show ?thesis by (simp add: nth_opt_None_iff)
  next
    case (Some x)
    with "4.prems" show ?thesis by (auto simp: drop_eq_Cons_if_nth_opt)
  qed
qed simp_all

text \<open>\<^verbatim>\<open>iter().collect()\<close>: the loop that calls \<^verbatim>\<open>next\<close> until it returns \<^verbatim>\<open>None\<close>.\<close>

function iter_collect :: "('a, 'm) frame list \<Rightarrow> 'a list" where
  "iter_collect fs = (case iter_next fs of None \<Rightarrow> [] | Some (v, fs') \<Rightarrow> v # iter_collect fs')"
  by pat_completeness auto
termination
  by (relation "measure (\<lambda>fs. length (frames_list fs))") (auto dest: iter_next_Some)

declare iter_collect.simps [simp del]

lemma iter_collect_list: "iter_collect fs = frames_list fs"
proof (induction fs rule: iter_collect.induct)
  case (1 fs)
  then show ?case
    by (subst iter_collect.simps)
      (auto split: option.splits dest: iter_next_None iter_next_Some)
qed

definition seq_to_vec :: "('a, 'm) pseq \<Rightarrow> 'a list" where
  "seq_to_vec s = iter_collect (iter_frames s)"

lemma seq_to_vec_list: "seq_to_vec s = seq_list s"
  by (simp add: seq_to_vec_def iter_frames_def iter_collect_list seq_list_def split: option.split)

text \<open>\<^verbatim>\<open>PartialEq\<close> compares lengths, then zips the iterators; \<^verbatim>\<open>Hash\<close> feeds the length and
  then every value to the hasher.\<close>

definition seq_eq :: "('a, 'm) pseq \<Rightarrow> ('a, 'm) pseq \<Rightarrow> bool" where
  "seq_eq s t \<longleftrightarrow> seq_len s = seq_len t \<and>
     list_all (\<lambda>(a, b). a = b) (zip (seq_to_vec s) (seq_to_vec t))"

definition seq_hash :: "(nat \<Rightarrow> 'h \<Rightarrow> 'h) \<Rightarrow> ('a \<Rightarrow> 'h \<Rightarrow> 'h) \<Rightarrow> ('a, 'm) pseq \<Rightarrow> 'h \<Rightarrow> 'h" where
  "seq_hash hash_len hash_value s h = fold hash_value (seq_to_vec s) (hash_len (seq_len s) h)"

section \<open>The sequence contract\<close>

lemma seq_len_list: "seq_ok M s \<Longrightarrow> seq_len s = length (seq_list s)"
  by (auto simp: seq_len_def seq_ok_def seq_list_def snode_len_list split: option.splits)

lemma seq_get_list: "seq_ok M s \<Longrightarrow> seq_get s i = nth_opt (seq_list s) i"
  by (auto simp: seq_get_def seq_ok_def seq_list_def snode_len_list snode_get_list
      split: option.splits)

lemma seq_concat_list: "seq_list (seq_concat M s t) = seq_list s @ seq_list t"
  by (simp add: seq_concat_def seq_list_root)

lemma seq_concat_ok: "seq_ok M s \<Longrightarrow> seq_ok M t \<Longrightarrow> seq_ok M (seq_concat M s t)"
  by (simp add: seq_concat_def seq_ok_root)

lemma seq_split_at_list:
  assumes "seq_ok M s" "i \<le> length (seq_list s)"
  shows "\<exists>l r. seq_split_at M s i = Some (l, r) \<and> seq_ok M l \<and> seq_ok M r \<and>
    seq_list l = take i (seq_list s) \<and> seq_list r = drop i (seq_list s)"
proof (cases "root s")
  case None
  then show ?thesis using assms
    by (simp add: seq_split_at_def seq_len_def seq_ok_def seq_list_def seq_new_def)
next
  case (Some n)
  then have n: "snode_ok M n" "snode_len n = length (seq_list s)" "seq_list s = snode_list n"
    using assms(1) by (auto simp: seq_ok_def seq_list_def snode_len_list)
  show ?thesis
  proof (cases "0 < i \<and> i < snode_len n")
    case True
    obtain a b where "split_node M n i = (a, b)" by force
    with split_node_correct [OF n(1) _ _ this] True Some assms(2) n show ?thesis
      by (simp add: seq_split_at_def seq_len_def seq_ok_root seq_list_root)
  next
    case False
    with Some n assms show ?thesis
      by (auto simp: seq_split_at_def seq_len_def seq_ok_root seq_list_root seq_new_def)
  qed
qed

lemma seq_push_list: "seq_list (seq_push M s v) = seq_list s @ [v]"
  by (simp add: seq_push_def seq_list_def append_node_list split: option.split)

lemma seq_push_ok: "seq_ok M s \<Longrightarrow> seq_ok M (seq_push M s v)"
  by (simp add: seq_push_def seq_ok_def append_node_ok LEAF_CAP_def split: option.splits)

interpretation pseq: cuttable_sequence "\<lambda>(_ :: unit) s. seq_ok M s" seq_list seq_len seq_get seq_to_vec
    "\<lambda>_. True" "\<lambda>_ _ _. True" "\<lambda>_ _. True" "\<lambda>_. 0" "\<lambda>_ _. 0"
    "\<lambda>s i u. map_option (\<lambda>lr. (lr, u)) (seq_split_at M s i)"
    "\<lambda>s t u. Some (seq_concat M s t, u)"
  for M :: "('a, 'm) measure_ops"
proof (unfold_locales, goal_cases)
  case (9 u s i)
  then show ?case using seq_split_at_list by fastforce
qed (simp_all add: seq_len_list seq_get_list seq_to_vec_list seq_concat_list seq_concat_ok)

section \<open>Measures\<close>

text \<open>
  What \<^verbatim>\<open>SeqMeasure\<close> promises: the measure of a concatenation is the combination of the
  measures. \<^verbatim>\<open>SeqMeasureWeight\<close> adds that weights add up.
\<close>

locale measure_laws =
  fixes M :: "('a, 'm) measure_ops"
  assumes measure_append:
    "xs \<noteq> [] \<Longrightarrow> ys \<noteq> [] \<Longrightarrow> measure_leaf M (xs @ ys) = combine M (measure_leaf M xs) (measure_leaf M ys)"
begin

lemma snode_measure_list: "snode_ok M n \<Longrightarrow> snode_measure n = measure_leaf M (snode_list n)"
proof (induction n)
  case (SBranch l r n h m)
  moreover have "snode_list l \<noteq> []" "snode_list r \<noteq> []"
    using SBranch.prems snode_list_nonempty by auto
  ultimately show ?case by (simp add: measure_append)
qed simp

lemma seq_measure_list:
  "seq_ok M s \<Longrightarrow> seq_measure_of s =
    (if seq_list s = [] then None else Some (measure_leaf M (seq_list s)))"
  by (auto simp: seq_measure_of_def seq_ok_def seq_list_def snode_measure_list
      snode_list_nonempty split: option.splits)

end

locale weighted_measure_laws = measure_laws M
  for M :: "('a, 'm) measure_ops" +
  fixes weight :: "'m \<Rightarrow> nat"
  assumes weight_combine: "weight (combine M a b) = weight a + weight b"
begin

lemma weight_list:
  "xs \<noteq> [] \<Longrightarrow> weight (measure_leaf M xs) = (\<Sum>v\<leftarrow>xs. weight (measure_leaf M [v]))"
proof (induction xs)
  case (Cons x xs)
  then show ?case
    using measure_append [of "[x]" xs] weight_combine by (cases "xs = []") auto
qed simp

lemma weighted_scan_correct:
  "offset < (\<Sum>v\<leftarrow>vs. weight (measure_leaf M [v])) \<Longrightarrow>
    \<exists>k rest. weighted_scan M weight vs offset base = Some (base + k, rest, vs ! k) \<and> k < length vs \<and>
      rest < weight (measure_leaf M [vs ! k]) \<and>
      (\<Sum>v\<leftarrow>take k vs. weight (measure_leaf M [v])) + rest = offset"
proof (induction vs arbitrary: offset base)
  case (Cons v vs)
  let ?w = "weight (measure_leaf M [v])"
  show ?case
  proof (cases "offset < ?w")
    case True
    then show ?thesis by (intro exI [of _ 0] exI [of _ offset]) simp
  next
    case False
    with Cons.prems have "offset - ?w < (\<Sum>v\<leftarrow>vs. weight (measure_leaf M [v]))" by simp
    from Cons.IH [OF this, of "base + 1"] obtain k rest where
      "weighted_scan M weight vs (offset - ?w) (base + 1) = Some (base + 1 + k, rest, vs ! k)"
      "k < length vs" "rest < weight (measure_leaf M [vs ! k])"
      "(\<Sum>v\<leftarrow>take k vs. weight (measure_leaf M [v])) + rest = offset - ?w" by blast
    with False show ?thesis by (intro exI [of _ "Suc k"] exI [of _ rest]) simp
  qed
qed simp

lemma weighted_get_node_correct:
  "snode_ok M n \<Longrightarrow> offset < (\<Sum>v\<leftarrow>snode_list n. weight (measure_leaf M [v])) \<Longrightarrow>
    \<exists>k rest. weighted_get_node M weight n offset base = Some (base + k, rest, snode_list n ! k) \<and>
      k < length (snode_list n) \<and> rest < weight (measure_leaf M [snode_list n ! k]) \<and>
      (\<Sum>v\<leftarrow>take k (snode_list n). weight (measure_leaf M [v])) + rest = offset"
proof (induction n arbitrary: offset base)
  case (SLeaf vs m)
  then show ?case using weighted_scan_correct by simp
next
  case (SBranch l r n h m)
  let ?w = "\<lambda>xs. \<Sum>v\<leftarrow>xs. weight (measure_leaf M [v])"
  have l: "snode_ok M l" "snode_ok M r" using SBranch.prems(1) by simp_all
  have left: "weight (snode_measure l) = ?w (snode_list l)" "snode_len l = length (snode_list l)"
    using l snode_measure_list weight_list snode_list_nonempty snode_len_list by metis+
  show ?case
  proof (cases "offset < ?w (snode_list l)")
    case True
    from SBranch.IH(1) [OF l(1) this, of base] obtain k rest where
      "weighted_get_node M weight l offset base = Some (base + k, rest, snode_list l ! k)"
      "k < length (snode_list l)" "rest < weight (measure_leaf M [snode_list l ! k])"
      "?w (take k (snode_list l)) + rest = offset" by blast
    with True show ?thesis
      by (intro exI [of _ k] exI [of _ rest]) (simp add: left nth_append)
  next
    case False
    with SBranch.prems(2) have "offset - ?w (snode_list l) < ?w (snode_list r)" by simp
    from SBranch.IH(2) [OF l(2) this, of "base + snode_len l"] obtain k rest where
      "weighted_get_node M weight r (offset - ?w (snode_list l)) (base + snode_len l)
        = Some (base + snode_len l + k, rest, snode_list r ! k)"
      "k < length (snode_list r)" "rest < weight (measure_leaf M [snode_list r ! k])"
      "?w (take k (snode_list r)) + rest = offset - ?w (snode_list l)" by blast
    with False show ?thesis
      by (intro exI [of _ "length (snode_list l) + k"] exI [of _ rest])
        (simp add: left nth_append)
  qed
qed

lemma weighted_get_correct:
  assumes ok: "seq_ok M s" and off: "offset < (\<Sum>v\<leftarrow>seq_list s. weight (measure_leaf M [v]))"
  shows "\<exists>k rest. seq_weighted_get M weight s offset = Some (k, rest, seq_list s ! k) \<and>
      k < length (seq_list s) \<and> rest < weight (measure_leaf M [seq_list s ! k]) \<and>
      (\<Sum>v\<leftarrow>take k (seq_list s). weight (measure_leaf M [v])) + rest = offset"
proof (cases "root s")
  case None
  then show ?thesis using off by (simp add: seq_list_def)
next
  case (Some n)
  then have n: "snode_ok M n" "seq_list s = snode_list n"
    using ok by (simp_all add: seq_ok_def seq_list_def)
  have w: "weight (snode_measure n) = (\<Sum>v\<leftarrow>snode_list n. weight (measure_leaf M [v]))"
    by (metis n(1) snode_list_nonempty snode_measure_list weight_list)
  then show ?thesis using weighted_get_node_correct [OF n(1), of offset 0] off
    by (simp add: seq_weighted_get_def Some n(2))
qed

end

interpretation count: weighted_measure_laws count_ops count_weight
  by unfold_locales (simp_all add: count_ops_def count_weight_def)

section \<open>How deep the rope gets\<close>

fun snode_depth :: "('a, 'm) snode \<Rightarrow> nat" where
  "snode_depth (SLeaf _ _) = 0"
| "snode_depth (SBranch l r _ _ _) = Suc (max (snode_depth l) (snode_depth r))"

lemma snode_depth_leaf [simp]: "snode_depth (leaf M vs) = 0"
  and snode_depth_branch [simp]: "snode_depth (branch M l r) = Suc (max (snode_depth l) (snode_depth r))"
  by (simp_all add: leaf_def branch_def)

lemma build_balanced_depth:
  "build_balanced M ns = Some t \<Longrightarrow> \<forall>n \<in> set ns. snode_depth n = 0 \<Longrightarrow> length ns \<le> 2 ^ k \<Longrightarrow>
    snode_depth t \<le> k"
proof (induction M ns arbitrary: t k rule: build_balanced.induct)
  case (1 M ns)
  show ?case
  proof (cases "length ns = 1")
    case True
    with "1.prems" show ?thesis by (subst (asm) build_balanced.simps) (auto split: if_splits)
  next
    case False
    have ne: "ns \<noteq> []" using "1.prems"(1) by (subst (asm) build_balanced.simps) (auto split: if_splits)
    from "1.prems"(1) False ne obtain l r where
      l: "build_balanced M (take (length ns div 2) ns) = Some l" and
      r: "build_balanced M (drop (length ns div 2) ns) = Some r" and t: "t = branch M l r"
      by (subst (asm) build_balanced.simps) (auto split: Option.bind_splits)
    have "2 \<le> length ns" using ne False by (cases ns) (auto simp: Suc_le_eq)
    then have "k \<noteq> 0" using "1.prems"(3) by (intro notI) simp
    then obtain k' where k: "k = Suc k'" by (cases k) auto
    have len: "length (take (length ns div 2) ns) \<le> 2 ^ k'" "length (drop (length ns div 2) ns) \<le> 2 ^ k'"
      using "1.prems"(3) by (simp_all add: k)
    have "snode_depth l \<le> k'"
      using "1.IH"(1) [OF ne False l _ len(1)] "1.prems"(2) by (auto dest: in_set_takeD)
    moreover have "snode_depth r \<le> k'"
      using "1.IH"(2) [OF ne False l r _ len(2)] "1.prems"(2) by (auto dest: in_set_dropD)
    ultimately show ?thesis by (simp add: t k)
  qed
qed

lemma length_chunks_le: "0 < n \<Longrightarrow> length xs \<le> n * k \<Longrightarrow> length (chunks n xs) \<le> k"
proof (induction n xs arbitrary: k rule: chunks.induct)
  case (1 n xs)
  show ?case
  proof (cases "xs = []")
    case True
    then show ?thesis by (subst chunks.simps) simp
  next
    case False
    with "1.prems" have "k \<noteq> 0" by (intro notI) simp
    then obtain k' where k: "k = Suc k'" by (cases k) auto
    have "length (chunks n (drop n xs)) \<le> k'"
      using "1.IH" [of k'] False "1.prems" by (simp add: k)
    with False "1.prems"(1) show ?thesis by (subst chunks.simps) (simp add: k)
  qed
qed

text \<open>
  A sequence built by concatenating one-value sequences, as the segment metadata of the
  parser is. \<open>vine k\<close> is the shape it takes: the rope leans to the right, one level for
  every two values.
\<close>

definition concat_values :: "('a, 'm) measure_ops \<Rightarrow> 'a list \<Rightarrow> ('a, 'm) pseq" where
  "concat_values M vs = fold (\<lambda>v s. seq_concat M s (PersistentSeq (Some (leaf M [v])))) vs seq_new"

fun vine :: "nat \<Rightarrow> ('a, 'm) snode \<Rightarrow> bool" where
  "vine k (SLeaf vs m) \<longleftrightarrow> k = 0"
| "vine k (SBranch l r n h m) \<longleftrightarrow>
     (k = 1 \<and> h = 1 \<and> vine 0 l \<and> vine 0 r) \<or> (2 \<le> k \<and> 2 \<le> h \<and> vine 1 l \<and> vine (k - 2) r)"

lemma vine_cases:
  assumes "vine k n"
  obtains vs m where "k = 0" "n = SLeaf vs m"
  | l r c m where "k = 1" "n = SBranch l r c 1 m" "vine 0 l" "vine 0 r"
  | l r c h m where "2 \<le> k" "n = SBranch l r c h m" "2 \<le> h" "vine 1 l" "vine (k - 2) r"
  using assms by (cases n) auto

lemma vine_height: "vine k n \<Longrightarrow> (k = 0 \<longrightarrow> snode_height n = 0) \<and> (k = 1 \<longrightarrow> snode_height n = 1)
    \<and> (2 \<le> k \<longrightarrow> 2 \<le> snode_height n)"
  by (erule vine_cases) auto

lemma vine_join_leaf: "vine k n \<Longrightarrow> vine (Suc k) (join M n (SLeaf vs m))"
proof (induction k arbitrary: n rule: less_induct)
  case (less k)
  from less.prems show ?case
  proof (cases rule: vine_cases)
    case 1
    then show ?thesis by (subst join.simps) (simp add: branch_def sat_add_u8_def)
  next
    case (2 l r c m')
    then show ?thesis using vine_height
      by (subst join.simps) (auto simp: branch_def sat_add_u8_def)
  next
    case (3 l r c h m')
    have IH: "vine (Suc (k - 2)) (join M r (SLeaf vs m))"
      using less.IH [of "k - 2" r] 3 by simp
    have "join M n (SLeaf vs m) = branch M l (join M r (SLeaf vs m))"
      using 3 by (subst join.simps) (simp add: sat_add_u8_def)
    moreover have "snode_height l = 1" using vine_height [OF 3(4)] by simp
    moreover have "1 \<le> snode_height (join M r (SLeaf vs m))"
      using vine_height [OF IH] by (cases "k - 2") auto
    moreover have "Suc (k - 2) = Suc k - 2" using 3(1) by simp
    ultimately show ?thesis using IH 3(1,4)
      by (simp add: branch_def sat_add_u8_def)
  qed
qed

lemma vine_depth: "vine k n \<Longrightarrow> snode_depth n = (if k = 0 then 0 else Suc (k div 2))"
proof (induction k arbitrary: n rule: less_induct)
  case (less k)
  from less.prems show ?case
  proof (cases rule: vine_cases)
    case (2 l r c m')
    then show ?thesis using less.IH [of 0] by simp
  next
    case (3 l r c h m')
    obtain j where k: "k = Suc (Suc j)" using 3(1) by (cases k; cases "k - 1") auto
    have "snode_depth l = 1" using less.IH [of 1 l] 3 k by simp
    moreover have "snode_depth r = (if j = 0 then 0 else Suc (j div 2))"
      using less.IH [of j r] 3 k by simp
    ultimately show ?thesis using 3(2) k by auto
  qed simp
qed

lemma concat_values_vine:
  "vs \<noteq> [] \<Longrightarrow> \<exists>n. root (concat_values M vs) = Some n \<and> vine (length vs - 1) n"
proof (induction vs rule: rev_induct)
  case (snoc v vs)
  show ?case
  proof (cases "vs = []")
    case True
    then show ?thesis by (simp add: concat_values_def seq_concat_def seq_new_def leaf_def)
  next
    case False
    with snoc.IH obtain n where n: "root (concat_values M vs) = Some n" "vine (length vs - 1) n" by auto
    have "root (concat_values M (vs @ [v])) = Some (join M n (leaf M [v]))"
      using n(1) by (simp add: concat_values_def seq_concat_def)
    moreover have "vine (length (vs @ [v]) - 1) (join M n (leaf M [v]))"
      using vine_join_leaf [OF n(2)] False by (simp add: leaf_def)
    ultimately show ?thesis by blast
  qed
qed simp

lemma concat_values_Nil [simp]: "concat_values M [] = seq_new"
  and concat_values_snoc [simp]:
    "concat_values M (vs @ [v]) = seq_concat M (concat_values M vs) (PersistentSeq (Some (leaf M [v])))"
  by (simp_all add: concat_values_def)

lemma concat_values_list: "seq_list (concat_values M vs) = vs"
  by (induction vs rule: rev_induct) (simp_all add: seq_concat_list, simp_all add: seq_list_def seq_new_def)

lemma concat_values_ok: "seq_ok M (concat_values M vs)"
proof (induction vs rule: rev_induct)
  case (snoc v vs)
  have "seq_ok M (PersistentSeq (Some (leaf M [v])))" by (simp add: seq_ok_def LEAF_CAP_def)
  with snoc show ?case by (simp add: seq_concat_ok)
qed (simp add: seq_new_def seq_ok_def)

lemma concat_values_len: "seq_len (concat_values M vs) = length vs"
  by (simp add: seq_len_list [OF concat_values_ok] concat_values_list)

section \<open>The part of the sequence that measure\_after\_items covers\<close>

text \<open>
  The descent of \<^verbatim>\<open>measure_after_node\<close> forgets the right sibling each time it turns left
  below the root of the range: \<open>measure_after_end\<close> is where the measured range stops.
\<close>

fun measure_after_end :: "('a, 'm) snode \<Rightarrow> nat \<Rightarrow> nat" where
  "measure_after_end (SLeaf vs _) i = length vs"
| "measure_after_end (SBranch l r _ _ _) i =
     (if i = 0 \<or> i = snode_len l then snode_len l + snode_len r
      else if i < snode_len l then measure_after_end l i
      else snode_len l + measure_after_end r (i - snode_len l))"

lemma measure_after_end_le: "snode_ok M n \<Longrightarrow> measure_after_end n i \<le> snode_len n"
  by (induction n arbitrary: i) (auto intro: le_trans [OF _ le_add1])

context measure_laws
begin

lemma measure_after_node_range:
  "snode_ok M n \<Longrightarrow> i < snode_len n \<Longrightarrow>
    measure_after_node M n i = measure_leaf M (drop i (take (measure_after_end n i) (snode_list n)))"
proof (induction n arbitrary: i)
  case (SBranch l r c h m)
  have ok: "snode_ok M l" "snode_ok M r" using SBranch.prems(1) by simp_all
  have len: "snode_len l = length (snode_list l)" "snode_len r = length (snode_list r)"
    using ok by (auto simp: snode_len_list)
  have end_l: "measure_after_end l i \<le> length (snode_list l)" for i
    using measure_after_end_le [OF ok(1)] len by metis
  consider "i = 0" | "0 < i" "i < snode_len l" | "0 < i" "i = snode_len l" | "0 < i" "snode_len l < i"
    by linarith
  then show ?case
  proof cases
    case 1
    then show ?thesis using snode_measure_list [OF SBranch.prems(1)] by (simp add: len)
  next
    case 2
    then show ?thesis using SBranch.IH(1) [OF ok(1), of i] end_l [of i] by (simp add: len)
  next
    case 3
    then show ?thesis using snode_measure_list [OF ok(2)] by (simp add: len)
  next
    case 4
    then show ?thesis using SBranch.IH(2) [OF ok(2), of "i - snode_len l"] SBranch.prems by (simp add: len)
  qed
qed auto

end

section \<open>Properties\<close>



text \<open>
  the measure cached at the root is the measure of the values, for every lawful
  measure and every well-formed sequence, whatever edits built it.
\<close>

theorem seq_measure_exact:
  assumes "measure_laws M" "seq_ok M s"
  shows "seq_measure_of s = (if seq_list s = [] then None else Some (measure_leaf M (seq_list s)))"
  by (rule measure_laws.seq_measure_list [OF assms])

theorem seq_measure_exact_witness:
  "seq_measure_of (concat_values count_ops [True, False, True]) = Some (CountMeasure 3)"
  using seq_measure_exact [OF count.measure_laws_axioms concat_values_ok, of "[True, False, True]"]
  by (simp add: concat_values_list count_ops_def)

text \<open>
  \<^verbatim>\<open>weighted_get\<close> finds the item that contains a logical offset and the offset inside
  that item, for every lawful weight and every offset below the total weight.
\<close>

theorem seq_weighted_get_correct:
  assumes "weighted_measure_laws M weight" "seq_ok M s"
    and "offset < (\<Sum>v\<leftarrow>seq_list s. weight (measure_leaf M [v]))"
  shows "\<exists>k rest. seq_weighted_get M weight s offset = Some (k, rest, seq_list s ! k) \<and>
      k < length (seq_list s) \<and> rest < weight (measure_leaf M [seq_list s ! k]) \<and>
      (\<Sum>v\<leftarrow>take k (seq_list s). weight (measure_leaf M [v])) + rest = offset"
  by (rule weighted_measure_laws.weighted_get_correct [OF assms])

theorem seq_weighted_get_correct_witness:
  "\<exists>k rest. seq_weighted_get count_ops count_weight (concat_values count_ops [5 :: nat, 6, 7]) 2
      = Some (k, rest, [5, 6, 7] ! k) \<and> k + rest = 2 \<and> rest < 1"
proof -
  have w: "count_weight (measure_leaf count_ops [v]) = 1" for v :: nat
    by (simp add: count_weight_def count_ops_def)
  have "(2::nat) < (\<Sum>v\<leftarrow>seq_list (concat_values count_ops [5 :: nat, 6, 7]). count_weight (measure_leaf count_ops [v]))"
    by (simp add: concat_values_list w)
  from seq_weighted_get_correct [OF count.weighted_measure_laws_axioms concat_values_ok this]
  obtain k rest where "seq_weighted_get count_ops count_weight (concat_values count_ops [5 :: nat, 6, 7]) 2
      = Some (k, rest, [5, 6, 7] ! k)" "k < 3" "rest < 1" "(\<Sum>v\<leftarrow>take k [5 :: nat, 6, 7]. 1) + rest = (2 :: nat)"
    by (auto simp: concat_values_list w)
  then show ?thesis by (intro exI [of _ k] exI [of _ rest]) (simp add: sum_list_triv)
qed

text \<open>
  equality and hashing see the values only: two well-formed sequences, however they
  were built, are equal exactly when their values are, and equal sequences feed the same
  data to a hasher.
\<close>

theorem seq_eq_hash_by_values:
  assumes "seq_ok M s" "seq_ok M t"
  shows "(seq_eq s t \<longleftrightarrow> seq_list s = seq_list t) \<and>
    (seq_eq s t \<longrightarrow> seq_hash hl hv s h = seq_hash hl hv t h)"
proof -
  have "seq_eq s t \<longleftrightarrow> seq_list s = seq_list t"
    using assms by (simp add: seq_eq_def seq_len_list seq_to_vec_list list_eq_iff_zip_all)
  then show ?thesis using assms by (simp add: seq_hash_def seq_len_list seq_to_vec_list)
qed

theorem seq_eq_hash_by_values_witness:
  "seq_eq (concat_values count_ops [1 :: nat, 2]) (seq_push count_ops (concat_values count_ops [1]) 2)"
  using seq_eq_hash_by_values [OF concat_values_ok seq_push_ok [OF concat_values_ok],
      of count_ops "[1 :: nat, 2]" "[1]" "2" "\<lambda>_. id" "\<lambda>_. id" "()"]
  by (simp add: concat_values_list seq_push_list)

text \<open>
  a sequence of \<open>n + 1\<close> values built by concatenating one-value sequences has depth
  \<open>n div 2 + 1\<close>: \<^verbatim>\<open>join\<close> does not rotate, so the rope is not balanced and its depth (and
  the path work of an edit) grows linearly, although the comment on \<^verbatim>\<open>join\<close> calls its
  operands AVL-balanced and the type promises logarithmic path work.
\<close>

theorem seq_concat_depth_linear:
  "\<exists>n. root (concat_values M (v # vs)) = Some n \<and> snode_list n = v # vs \<and>
    snode_depth n = (if vs = [] then 0 else Suc (length vs div 2))"
proof -
  obtain n where n: "root (concat_values M (v # vs)) = Some n" "vine (length (v # vs) - 1) n"
    using concat_values_vine by blast
  moreover have "snode_list n = v # vs"
    using concat_values_list [of M "v # vs"] n(1) by (simp add: seq_list_def)
  ultimately show ?thesis using vine_depth by fastforce
qed

text \<open>
  C40: a sequence built at once by \<^verbatim>\<open>from_iter\<close> is balanced: with at most \<open>32 * 2 ^ k\<close>
  values its depth is at most \<open>k\<close>, and it holds exactly the given values.
\<close>

theorem seq_from_iter_depth_log:
  assumes "length values \<le> 32 * 2 ^ k"
  shows "\<exists>s. seq_from_iter M values = Some s \<and> seq_list s = values \<and>
    (case root s of None \<Rightarrow> values = [] | Some n \<Rightarrow> snode_depth n \<le> k)"
proof (cases "values = []")
  case True
  then show ?thesis by (simp add: seq_from_iter_def seq_new_def seq_list_def)
next
  case False
  obtain s where s: "seq_from_iter M values = Some s" "seq_list s = values"
    using seq_from_iter_correct by blast
  with False obtain n where n: "root s = Some n"
      "build_balanced M (map (leaf M) (chunks LEAF_CAP values)) = Some n"
    by (auto simp: seq_from_iter_def)
  have "length (map (leaf M) (chunks LEAF_CAP values)) \<le> 2 ^ k"
    using assms length_chunks_le [of LEAF_CAP "values" "2 ^ k"] by (simp add: LEAF_CAP_def)
  from build_balanced_depth [OF n(2) _ this] s n show ?thesis by simp
qed

theorem seq_from_iter_depth_log_witness:
  "\<exists>s. seq_from_iter count_ops [0..<100] = Some s \<and> seq_list s = [0..<100] \<and>
    (case root s of None \<Rightarrow> [0..<100] = [] | Some n \<Rightarrow> snode_depth n \<le> 2)"
  by (rule seq_from_iter_depth_log) simp

text \<open>
  what \<^verbatim>\<open>measure_after_items\<close> returns: the measure of the values from the index up to
  \<open>measure_after_end\<close>, which stops short of the end of the sequence whenever the descent
  turns left below the root of the range. The comment promises all items; the witness is a
  three-value sequence where two values remain at index 1 and one is counted.
\<close>

theorem seq_measure_after_items_range:
  assumes "measure_laws M" "seq_ok M s" "root s = Some n" "i < seq_len s"
  shows "seq_measure_after_items M s i
      = Some (measure_leaf M (drop i (take (measure_after_end n i) (seq_list s))))"
  using assms measure_laws.measure_after_node_range [OF assms(1), of n i]
  by (simp add: seq_measure_after_items_def seq_ok_def seq_list_def seq_len_def)

theorem seq_measure_after_items_range_witness:
  "seq_measure_after_items count_ops (concat_values count_ops [5 :: nat, 6, 7]) 1 = Some (CountMeasure 1)
    \<and> measure_leaf count_ops (drop 1 [5 :: nat, 6, 7]) = CountMeasure 2"
proof -
  let ?s = "concat_values count_ops [5 :: nat, 6, 7]"
  obtain n where n: "root ?s = Some n" "measure_after_end n 1 = 2"
    by (simp add: concat_values_def seq_concat_def seq_new_def join.simps leaf_def branch_def sat_add_u8_def)
  have "1 < seq_len ?s" by (simp add: concat_values_len)
  from seq_measure_after_items_range [OF count.measure_laws_axioms concat_values_ok n(1) this] n(2)
  show ?thesis by (simp add: concat_values_list count_ops_def)
qed

end
