(* ===== verification/Radix_Map.thy ===== *)
theory Radix_Map
  imports Prelude "HOL-Library.Word"
begin

unbundle bit_operations_syntax

text \<open>
  The persistent radix map of \<^verbatim>\<open>src/reactive/store.rs\<close> (\<^verbatim>\<open>RadixMap\<close>): an eight-level trie
  over the bytes of a \<^verbatim>\<open>u64\<close> key, most significant first, whose branches hold a 256-bit
  bitmap (four words) and the children of the set bits in ascending order. A leaf may sit
  above the last level (its path is compressed). The model leaves out the \<^verbatim>\<open>pathwork\<close>
  counters, which only count visits. The lemmas show that lookup, insertion, removal and
  iteration are those of a finite map with keys in ascending order, and that none of the
  \<^verbatim>\<open>unreachable!\<close> branches is reached.
\<close>

section \<open>Bytes of a key and bitmaps\<close>

type_synonym u64 = "64 word"

definition RADIX_DEPTH :: nat where
  "RADIX_DEPTH = 8"

definition nibble :: "u64 \<Rightarrow> nat \<Rightarrow> nat" where
  "nibble key depth = unat (drop_bit (56 - 8 * depth) key AND 0xFF)"

definition bitmap_index :: "nat \<Rightarrow> nat \<times> u64" where
  "bitmap_index n = (n div 64, push_bit (n mod 64) 1)"

text \<open>\<^verbatim>\<open>u64::count_ones\<close>.\<close>

definition count_ones :: "u64 \<Rightarrow> nat" where
  "count_ones w = length (filter (bit w) [0..<64])"

definition bitmap_rank :: "u64 list \<Rightarrow> nat \<Rightarrow> u64 \<Rightarrow> nat" where
  "bitmap_rank bitmap word b =
     sum_list (map count_ones (take word bitmap)) + count_ones ((bitmap ! word) AND (b - 1))"

definition empty_bitmap :: "u64 list" where
  "empty_bitmap = [0, 0, 0, 0]"

section \<open>The trie\<close>

datatype 'v rnode =
    RBranch (rbitmap: "u64 list") (rchildren: "'v rnode list")
  | is_RLeaf: RLeaf (leaf_key: u64) (leaf_value: 'v)

record 'v radix_map =
  rm_root :: "'v rnode option"
  rm_len :: nat

definition radix_empty :: "'v radix_map" where
  "radix_empty = \<lparr> rm_root = None, rm_len = 0 \<rparr>"

lemma nth_opt_size [termination_simp]:
  "nth_opt cs i = Some c \<Longrightarrow> size c < Suc (size_list size cs)"
  by (auto simp: nth_opt_Some_iff less_Suc_eq_le intro!: size_list_estimation' [OF nth_mem])

text \<open>The lookup loop; the outer \<open>None\<close> is an index out of range.\<close>

function radix_get_at :: "'v rnode \<Rightarrow> u64 \<Rightarrow> nat \<Rightarrow> 'v option option" where
  "radix_get_at (RLeaf k v) key depth = Some (if k = key then Some v else None)"
| "radix_get_at (RBranch bm cs) key depth =
     (if depth = RADIX_DEPTH then Some None
      else (let (word, b) = bitmap_index (nibble key depth)
            in if (bm ! word) AND b = 0 then Some None
               else (case nth_opt cs (bitmap_rank bm word b) of
                       None \<Rightarrow> None
                     | Some c \<Rightarrow> radix_get_at c key (depth + 1))))"
  by pat_completeness auto
termination by (relation "measure (\<lambda>(n, _, _). size n)") (auto dest: nth_opt_size)

definition radix_get :: "'v radix_map \<Rightarrow> u64 \<Rightarrow> 'v option option" where
  "radix_get m key = (case rm_root m of None \<Rightarrow> Some None | Some n \<Rightarrow> radix_get_at n key 0)"

text \<open>
  \<^verbatim>\<open>split_leaf\<close>: \<open>None\<close> is one of its two \<^verbatim>\<open>unreachable!\<close> branches. The two-element loop
  of the code inserts each of the two nodes at its rank among the bits set so far.
\<close>

fun split_place :: "nat \<Rightarrow> u64 list \<times> 'v rnode list \<Rightarrow> u64 \<times> 'v rnode \<Rightarrow> u64 list \<times> 'v rnode list" where
  "split_place depth (bm, cs) (key, node) =
     (let (word, b) = bitmap_index (nibble key depth); rank = bitmap_rank bm word b
      in if (bm ! word) AND b = 0
         then (bm[word := (bm ! word) OR b], take rank cs @ node # drop rank cs)
         else (bm, cs))"

function split_leaf :: "'v rnode \<Rightarrow> 'v rnode \<Rightarrow> u64 \<Rightarrow> nat \<Rightarrow> 'v rnode option" where
  "split_leaf existing new_leaf new_key depth =
     (case existing of
        RBranch _ _ \<Rightarrow> None
      | RLeaf existing_key _ \<Rightarrow>
          (if nibble existing_key depth = nibble new_key depth then
             (if RADIX_DEPTH \<le> depth + 1 then None
              else do {
                deeper \<leftarrow> split_leaf existing new_leaf new_key (depth + 1);
                let (word, b) = bitmap_index (nibble new_key depth); bm = empty_bitmap
                 in Some (RBranch (bm[word := (bm ! word) OR b]) [deeper])
              })
           else
             (let (bm, cs) = fold (\<lambda>kn acc. split_place depth acc kn)
                    [(existing_key, existing), (new_key, new_leaf)] (empty_bitmap, [])
              in Some (RBranch bm cs))))"
  by pat_completeness auto
termination by (relation "measure (\<lambda>(_, _, _, depth). RADIX_DEPTH - depth)") auto

declare split_leaf.simps [simp del]

text \<open>
  \<^verbatim>\<open>insert_at\<close>: \<open>None\<close> is a panic (of \<^verbatim>\<open>split_leaf\<close>, of the shift by \<^verbatim>\<open>56 - 8 * depth\<close>
  below the last level, or of an index out of range).
\<close>

function radix_insert_at :: "'v rnode \<Rightarrow> 'v rnode \<Rightarrow> u64 \<Rightarrow> nat \<Rightarrow> 'v rnode option" where
  "radix_insert_at (RLeaf k v) new_leaf key depth =
     (if depth = RADIX_DEPTH then Some new_leaf
      else if k = key then Some new_leaf
      else split_leaf (RLeaf k v) new_leaf key depth)"
| "radix_insert_at (RBranch bm cs) new_leaf key depth =
     (if RADIX_DEPTH \<le> depth then None
      else (let (word, b) = bitmap_index (nibble key depth); rank = bitmap_rank bm word b
            in if (bm ! word) AND b \<noteq> 0
               then (case nth_opt cs rank of
                       None \<Rightarrow> None
                     | Some c \<Rightarrow> map_option (\<lambda>c'. RBranch (bm[word := (bm ! word) OR b]) (cs[rank := c']))
                         (radix_insert_at c new_leaf key (depth + 1)))
               else if rank \<le> length cs
               then Some (RBranch (bm[word := (bm ! word) OR b]) (take rank cs @ new_leaf # drop rank cs))
               else None))"
  by pat_completeness auto
termination by (relation "measure (\<lambda>(n, _, _, _). size n)") (auto dest: nth_opt_size)

definition radix_insert :: "'v radix_map \<Rightarrow> u64 \<Rightarrow> 'v \<Rightarrow> 'v radix_map option" where
  "radix_insert m key v = do {
     found \<leftarrow> radix_get m key;
     root' \<leftarrow> (case rm_root m of
                None \<Rightarrow> Some (RLeaf key v)
              | Some n \<Rightarrow> radix_insert_at n (RLeaf key v) key 0);
     Some \<lparr> rm_root = Some root',
            rm_len = (if found = None then rm_len m + 1 else rm_len m) \<rparr>
   }"

datatype 'v remove_result = Removed "'v rnode option" | Missing

text \<open>\<^verbatim>\<open>remove_at\<close>; the outer \<open>None\<close> is an index out of range.\<close>

function radix_remove_at :: "'v rnode \<Rightarrow> u64 \<Rightarrow> nat \<Rightarrow> 'v remove_result option" where
  "radix_remove_at (RLeaf k v) key depth = Some (if k = key then Removed None else Missing)"
| "radix_remove_at (RBranch bm cs) key depth =
     (if depth = RADIX_DEPTH then Some Missing
      else (let (word, b) = bitmap_index (nibble key depth); rank = bitmap_rank bm word b
            in if (bm ! word) AND b = 0 then Some Missing
               else (case nth_opt cs rank of
                       None \<Rightarrow> None
                     | Some c \<Rightarrow> (case radix_remove_at c key (depth + 1) of
                           None \<Rightarrow> None
                         | Some Missing \<Rightarrow> Some Missing
                         | Some (Removed replacement) \<Rightarrow>
                             (let (bm', cs') = (case replacement of
                                    Some c' \<Rightarrow> (bm, cs[rank := c'])
                                  | None \<Rightarrow> (bm[word := (bm ! word) AND NOT b],
                                             take rank cs @ drop (rank + 1) cs))
                              in if cs' = [] then Some (Removed None)
                                 else if length cs' = 1 \<and> is_RLeaf (cs' ! 0) \<and> 0 < depth
                                 then Some (Removed (Some (cs' ! 0)))
                                 else Some (Removed (Some (RBranch bm' cs'))))))))"
  by pat_completeness auto
termination by (relation "measure (\<lambda>(n, _, _). size n)") (auto dest: nth_opt_size)

definition radix_remove :: "'v radix_map \<Rightarrow> u64 \<Rightarrow> (bool \<times> 'v radix_map) option" where
  "radix_remove m key = (case rm_root m of
       None \<Rightarrow> Some (False, m)
     | Some n \<Rightarrow> (case radix_remove_at n key 0 of
           None \<Rightarrow> None
         | Some Missing \<Rightarrow> Some (False, m)
         | Some (Removed replacement) \<Rightarrow>
             Some (True, \<lparr> rm_root = replacement, rm_len = rm_len m - 1 \<rparr>)))"

text \<open>The iterator's stack machine, top of the stack first.\<close>

function radix_iter :: "'v rnode list \<Rightarrow> (u64 \<times> 'v) list" where
  "radix_iter [] = []"
| "radix_iter (RLeaf k v # stack) = (k, v) # radix_iter stack"
| "radix_iter (RBranch bm cs # stack) = radix_iter (cs @ stack)"
  by pat_completeness auto
termination by (relation "measure (\<lambda>stack. sum_list (map size stack) + length stack)")
  (auto simp: size_list_conv_sum_list)

definition radix_entries :: "'v radix_map \<Rightarrow> (u64 \<times> 'v) list" where
  "radix_entries m = radix_iter (case rm_root m of None \<Rightarrow> [] | Some n \<Rightarrow> [n])"

section \<open>Bytes\<close>

lemma nibble_div: "nibble key depth = unat key div 2 ^ (56 - 8 * depth) mod 256"
proof -
  have "x AND 0xFF = take_bit 8 x" for x :: u64
    by (simp add: take_bit_eq_mask mask_eq_exp_minus_1)
  moreover have "unat (take_bit 8 (drop_bit n key)) = unat key div 2 ^ n mod 256" for n
    unfolding unsigned_take_bit_eq unat_drop_bit_eq by (simp add: take_bit_eq_mod drop_bit_eq_div)
  ultimately show ?thesis by (simp only: nibble_def)
qed

lemma nibble_less [simp]: "nibble key depth < 256"
  by (simp add: nibble_div)

lemma nibble_word_less [simp]: "nibble key depth div 64 < 4"
  by (rule less_mult_imp_div_less) simp

text \<open>Two keys agree on their first \<open>d\<close> bytes.\<close>

definition agree :: "nat \<Rightarrow> u64 \<Rightarrow> u64 \<Rightarrow> bool" where
  "agree d a b \<longleftrightarrow> (\<forall>j<d. nibble a j = nibble b j)"

lemma agree_0 [simp]: "agree 0 a b"
  and agree_refl [simp]: "agree d a a"
  and agree_Suc: "agree (Suc d) a b \<longleftrightarrow> agree d a b \<and> nibble a d = nibble b d"
  by (auto simp: agree_def less_Suc_eq)

lemma agree_sym: "agree d a b \<Longrightarrow> agree d b a"
  by (simp add: agree_def)

lemma agree_trans: "agree d a b \<Longrightarrow> agree d b c \<Longrightarrow> agree d a c"
  by (simp add: agree_def)

lemma agree_div: "d \<le> 8 \<Longrightarrow> agree d a b \<longleftrightarrow> unat a div 2 ^ (64 - 8 * d) = unat b div 2 ^ (64 - 8 * d)"
proof (induction d)
  case 0
  have "unat a < 2 ^ 64" "unat b < 2 ^ 64" using unsigned_less [of a, where ?'a = nat] unsigned_less [of b, where ?'a = nat] by simp_all
  then show ?case by simp
next
  case (Suc d)
  let ?p = "2 ^ (56 - 8 * d) :: nat"
  have e: "(2 :: nat) ^ (64 - 8 * d) = ?p * 256"
  proof -
    have "64 - 8 * d = (56 - 8 * d) + 8" using Suc.prems by simp
    then show ?thesis by (simp only: power_add) simp
  qed
  have split: "unat x div ?p = unat y div ?p \<longleftrightarrow>
      unat x div ?p div 256 = unat y div ?p div 256 \<and> unat x div ?p mod 256 = unat y div ?p mod 256" for x y :: u64
    by (metis div_mult_mod_eq)
  have "agree (Suc d) a b \<longleftrightarrow> unat a div ?p = unat b div ?p"
    using Suc by (simp add: agree_Suc nibble_div e div_mult2_eq split [of a b])
  moreover have "64 - 8 * Suc d = 56 - 8 * d" by simp
  ultimately show ?case by (simp only:)
qed

lemma agree_8: "agree 8 a b \<longleftrightarrow> a = b"
  by (simp add: agree_div word_unat_eq_iff)

lemma agree_nibble_less:
  assumes "d < 8" "agree d a b" "nibble a d < nibble b d"
  shows "a < b"
proof -
  let ?p = "2 ^ (56 - 8 * d) :: nat"
  have "64 - 8 * d = (56 - 8 * d) + 8" using assms(1) by simp
  then have e: "(2 :: nat) ^ (64 - 8 * d) = ?p * 256" by (simp only: power_add) simp
  have "unat a div ?p div 256 = unat b div ?p div 256"
    using assms(1,2) agree_div [of d a b] by (simp add: e div_mult2_eq)
  with assms(3) have "unat a div ?p < unat b div ?p"
    unfolding nibble_div by (metis div_mult_mod_eq nat_add_left_cancel_less)
  then have "unat a < unat b" by (meson div_le_mono leD leI)
  then show ?thesis by (simp add: word_less_nat_alt)
qed

section \<open>Bitmaps and ranks\<close>

definition slot :: "u64 list \<Rightarrow> nat \<Rightarrow> bool" where
  "slot bm n \<longleftrightarrow> bit (bm ! (n div 64)) (n mod 64)"

definition slots_below :: "u64 list \<Rightarrow> nat \<Rightarrow> nat list" where
  "slots_below bm n = filter (slot bm) [0..<n]"

definition slots_above :: "u64 list \<Rightarrow> nat \<Rightarrow> nat list" where
  "slots_above bm n = filter (slot bm) [Suc n..<256]"

definition slots :: "u64 list \<Rightarrow> nat list" where
  "slots bm = filter (slot bm) [0..<256]"

lemma slots_split:
  assumes "n < 256"
  shows "slots bm = slots_below bm n @ (if slot bm n then [n] else []) @ slots_above bm n"
proof -
  have "[0..<256] = [0..<n] @ n # [Suc n..<256]"
    using assms by (metis less_imp_le_nat upt_conv_Cons upt_split zero_le)
  then show ?thesis by (simp add: slots_def slots_below_def slots_above_def)
qed

lemma bit_two_power: "k < 64 \<Longrightarrow> bit (2 ^ k :: u64) j \<longleftrightarrow> j = k"
  by (auto simp: bit_exp_iff)

lemma bit_and_exp_eq_0: "k < 64 \<Longrightarrow> (w AND push_bit k 1 = 0) \<longleftrightarrow> \<not> bit w k" for w :: u64
  by (auto simp: bit_and_iff bit_two_power dest: arg_cong [where f = "\<lambda>v. bit v k"] intro!: bit_word_eqI)

lemma count_ones_below: "k < 64 \<Longrightarrow> count_ones (w AND (push_bit k 1 - 1)) = length (filter (bit w) [0..<k])"
proof -
  assume k: "k < 64"
  have "push_bit k 1 - 1 = (mask k :: u64)" by (simp add: mask_eq_exp_minus_1 push_bit_eq_mult)
  then have "bit (w AND (push_bit k 1 - 1)) j \<longleftrightarrow> bit w j \<and> j < k" for j
    using k by (auto simp: bit_simps)
  then have "filter (bit (w AND (push_bit k 1 - 1))) [0..<64] = filter (\<lambda>j. bit w j \<and> j < k) ([0..<k] @ [k..<64])"
    using k by (simp add: upt_split [of 0 k 64] less_imp_le del: upt_conv_Cons_Cons cong: filter_cong)
  also have "\<dots> = filter (bit w) [0..<k]" by (auto intro: filter_cong)
  finally show ?thesis by (simp add: count_ones_def)
qed

lemma filter_slot_shift:
  "k \<le> 64 \<Longrightarrow> filter (slot bm) [64 * w..<64 * w + k] = map ((+) (64 * w)) (filter (bit (bm ! w)) [0..<k])"
  by (auto simp: filter_upt_shift slot_def simp del: upt_Suc intro!: arg_cong [where f = "map _"] filter_cong)

lemma count_ones_words:
  "w \<le> length bm \<Longrightarrow> sum_list (map count_ones (take w bm)) = length (slots_below bm (64 * w))"
proof (induction w)
  case (Suc w)
  have "filter (slot bm) [64 * w..<64 * w + 64] = map ((+) (64 * w)) (filter (bit (bm ! w)) [0..<64])"
    by (rule filter_slot_shift) simp
  moreover have "[0..<64 * Suc w] = [0..<64 * w] @ [64 * w..<64 * w + 64]"
    using upt_add_eq_append [of 0 "64 * w" 64] by (simp add: algebra_simps)
  ultimately have "length (slots_below bm (64 * Suc w)) = length (slots_below bm (64 * w)) + count_ones (bm ! w)"
    by (simp add: slots_below_def count_ones_def)
  with Suc show ?case by (simp add: take_Suc_conv_app_nth)
qed (simp add: slots_below_def)

lemma bitmap_rank_slots:
  assumes "length bm = 4" "n < 256" "bitmap_index n = (word, b)"
  shows "bitmap_rank bm word b = length (slots_below bm n)"
proof -
  let ?w = "n div 64" and ?k = "n mod 64"
  have wb: "word = ?w" "b = push_bit ?k 1" using assms(3) by (auto simp: bitmap_index_def)
  have w: "?w < 4" using assms(2) by simp
  have "filter (slot bm) [64 * ?w..<n] = map ((+) (64 * ?w)) (filter (bit (bm ! ?w)) [0..<?k])"
    using filter_slot_shift [of ?k bm ?w] by simp
  moreover have "[0..<n] = [0..<64 * ?w] @ [64 * ?w..<n]"
    by (rule upt_split) simp_all
  ultimately have "length (slots_below bm n) = length (slots_below bm (64 * ?w)) + length (filter (bit (bm ! ?w)) [0..<?k])"
    by (simp add: slots_below_def)
  then show ?thesis
    using count_ones_words [of ?w bm] count_ones_below [of ?k "bm ! ?w"] w assms(1)
    by (simp add: bitmap_rank_def wb)
qed

lemma slot_test:
  assumes "bitmap_index n = (word, b)"
  shows "(bm ! word) AND b = 0 \<longleftrightarrow> \<not> slot bm n"
  using assms bit_and_exp_eq_0 by (auto simp: bitmap_index_def slot_def)

lemma div_mod_inj: "m div 64 = n div 64 \<Longrightarrow> m mod 64 = n mod (64 :: nat) \<Longrightarrow> m = n"
  by (metis div_mult_mod_eq)

lemma slot_set:
  assumes "length bm = 4" "n < 256" "bitmap_index n = (word, b)"
  shows "slot (bm[word := (bm ! word) OR b]) m \<longleftrightarrow> slot bm m \<or> m = n"
proof -
  have wb: "word = n div 64" "b = 2 ^ (n mod 64)" and "n div 64 < length bm"
    using assms by (auto simp: bitmap_index_def)
  then show ?thesis using div_mod_inj [of m n]
    by (cases "m div 64 = n div 64") (auto simp: slot_def bit_or_iff bit_two_power)
qed

lemma slot_clear:
  assumes "length bm = 4" "n < 256" "bitmap_index n = (word, b)"
  shows "slot (bm[word := (bm ! word) AND NOT b]) m \<longleftrightarrow> slot bm m \<and> m \<noteq> n"
proof -
  have wb: "word = n div 64" "b = 2 ^ (n mod 64)" and "n div 64 < length bm"
    using assms by (auto simp: bitmap_index_def)
  then show ?thesis using div_mod_inj [of m n]
    by (cases "m div 64 = n div 64") (auto simp: slot_def bit_and_iff bit_not_iff_eq bit_two_power)
qed

section \<open>Well-formed tries\<close>

fun rentries :: "'v rnode \<Rightarrow> (u64 \<times> 'v) list" where
  "rentries (RLeaf k v) = [(k, v)]"
| "rentries (RBranch _ cs) = concat (map rentries cs)"

abbreviation rkeys :: "'v rnode \<Rightarrow> u64 set" where
  "rkeys n \<equiv> fst ` set (rentries n)"

text \<open>The keys below a child have the byte its slot stands for.\<close>

definition in_slots :: "nat \<Rightarrow> nat list \<Rightarrow> 'v rnode list \<Rightarrow> bool" where
  "in_slots d = list_all2 (\<lambda>s c. \<forall>k \<in> rkeys c. nibble k d = s)"

fun rnode_ok :: "nat \<Rightarrow> 'v rnode \<Rightarrow> bool" where
  "rnode_ok d (RLeaf k v) \<longleftrightarrow> True"
| "rnode_ok d (RBranch bm cs) \<longleftrightarrow> d < RADIX_DEPTH \<and> length bm = 4 \<and> cs \<noteq> [] \<and>
     in_slots d (slots bm) cs \<and> (\<forall>c \<in> set cs. rnode_ok (Suc d) c)"

text \<open>A node reached with a key: every key below agrees with it on the bytes consumed.\<close>

definition on_path :: "nat \<Rightarrow> u64 \<Rightarrow> 'v rnode \<Rightarrow> bool" where
  "on_path d key n \<longleftrightarrow> (\<forall>k \<in> rkeys n. agree d k key)"

lemma in_slots_append: "length as = length cs \<Longrightarrow>
    in_slots d (as @ bs) (cs @ ds) \<longleftrightarrow> in_slots d as cs \<and> in_slots d bs ds"
  by (simp add: in_slots_def list_all2_append)

lemma in_slots_Cons: "in_slots d (a # as) (c # cs) \<longleftrightarrow> (\<forall>k \<in> rkeys c. nibble k d = a) \<and> in_slots d as cs"
  and in_slots_Nil: "in_slots d [] []"
  by (simp_all add: in_slots_def)

lemma in_slots_length: "in_slots d as cs \<Longrightarrow> length as = length cs"
  by (simp add: in_slots_def list_all2_lengthD)

lemma in_slots_keys: "in_slots d as cs \<Longrightarrow> c \<in> set cs \<Longrightarrow> k \<in> rkeys c \<Longrightarrow> nibble k d \<in> set as"
  by (force simp: in_slots_def list_all2_conv_all_nth in_set_conv_nth)

text \<open>
  The children of a branch around the slot of a byte: those below, the child of the slot
  if it is set, and those above. All facts about a branch go through this decomposition.
\<close>

lemma branch_split:
  assumes "length bm = 4" "in_slots d (slots bm) cs" "n < 256" "bitmap_index n = (word, b)"
  obtains lows highs where
    "bitmap_rank bm word b = length lows" "in_slots d (slots_below bm n) lows"
    "in_slots d (slots_above bm n) highs"
    "slot bm n \<Longrightarrow> \<exists>c. cs = lows @ c # highs \<and> (\<forall>k \<in> rkeys c. nibble k d = n)"
    "\<not> slot bm n \<Longrightarrow> cs = lows @ highs"
proof -
  let ?B = "slots_below bm n" and ?A = "slots_above bm n"
  let ?m = "if slot bm n then [n] else []"
  have sl: "in_slots d (?B @ ?m @ ?A) cs"
    using assms(2) slots_split [OF assms(3), of bm] by simp
  define lows where "lows = take (length ?B) cs"
  define rest where "rest = drop (length ?B) cs"
  have cs: "cs = lows @ rest" by (simp add: lows_def rest_def)
  have len: "length lows = length ?B" using in_slots_length [OF sl] by (simp add: lows_def)
  then have b: "in_slots d ?B lows" and r: "in_slots d (?m @ ?A) rest"
    using sl in_slots_append [of ?B lows d "?m @ ?A" rest] by (simp_all add: cs)
  have rank: "bitmap_rank bm word b = length lows"
    using bitmap_rank_slots [OF assms(1,3,4)] len by simp
  show thesis
  proof (cases "slot bm n")
    case True
    with r obtain c highs where "rest = c # highs" "\<forall>k \<in> rkeys c. nibble k d = n" "in_slots d ?A highs"
      by (auto simp: in_slots_def list_all2_Cons1)
    with True b rank cs that [of lows highs] show thesis by simp
  next
    case False
    with b r rank cs that [of lows rest] show thesis by simp
  qed
qed

lemma slots_below_less: "m \<in> set (slots_below bm n) \<Longrightarrow> m < n"
  and slots_above_less: "m \<in> set (slots_above bm n) \<Longrightarrow> n < m"
  by (auto simp: slots_below_def slots_above_def)

lemma map_of_concat_None: "\<forall>c \<in> set cs. key \<notin> rkeys c \<Longrightarrow> map_of (concat (map rentries cs)) key = None"
  by (auto simp: map_of_eq_None_iff)

lemma keys_off_slots:
  assumes "in_slots d as cs" "nibble key d \<notin> set as"
  shows "\<forall>c \<in> set cs. key \<notin> rkeys c"
  using assms in_slots_keys by blast

lemma below_off: "in_slots d (slots_below bm (nibble key d)) cs \<Longrightarrow> \<forall>c \<in> set cs. key \<notin> rkeys c"
  by (rule keys_off_slots) (auto dest: slots_below_less)

lemma above_off: "in_slots d (slots_above bm (nibble key d)) cs \<Longrightarrow> \<forall>c \<in> set cs. key \<notin> rkeys c"
  by (rule keys_off_slots) (auto dest: slots_above_less)

text \<open>What the entries of a branch say about the key whose byte is the slot.\<close>

lemma map_of_around:
  assumes "in_slots d (slots_below bm (nibble key d)) lows" "in_slots d (slots_above bm (nibble key d)) highs"
  shows "map_of (concat (map rentries (lows @ mid @ highs))) key = map_of (concat (map rentries mid)) key"
  using map_of_concat_None [OF below_off [OF assms(1)]] map_of_concat_None [OF above_off [OF assms(2)]]
  by (simp add: map_add_def split: option.split)

section \<open>Lookup\<close>

lemma radix_get_at_correct:
  "rnode_ok d n \<Longrightarrow> on_path d key n \<Longrightarrow> radix_get_at n key d = Some (map_of (rentries n) key)"
proof (induction n arbitrary: d)
  case (RBranch bm cs)
  obtain word b where idx: "bitmap_index (nibble key d) = (word, b)" by force
  obtain lows highs where sp: "bitmap_rank bm word b = length lows"
      "in_slots d (slots_below bm (nibble key d)) lows" "in_slots d (slots_above bm (nibble key d)) highs"
      "slot bm (nibble key d) \<Longrightarrow> \<exists>c. cs = lows @ c # highs \<and> (\<forall>k \<in> rkeys c. nibble k d = nibble key d)"
      "\<not> slot bm (nibble key d) \<Longrightarrow> cs = lows @ highs"
    using RBranch.prems(1) branch_split [OF _ _ nibble_less idx] by (metis rnode_ok.simps(2))
  have d: "d \<noteq> RADIX_DEPTH" using RBranch.prems(1) by simp
  show ?case
  proof (cases "slot bm (nibble key d)")
    case True
    then obtain c where c: "cs = lows @ c # highs" "\<forall>k \<in> rkeys c. nibble k d = nibble key d"
      using sp(4) by blast
    have "rnode_ok (Suc d) c" "on_path (Suc d) key c"
      using RBranch.prems c by (auto simp: on_path_def agree_Suc)
    then have "radix_get_at c key (Suc d) = Some (map_of (rentries c) key)"
      using RBranch.IH c(1) by simp
    moreover have "map_of (rentries (RBranch bm cs)) key = map_of (rentries c) key"
      using map_of_around [OF sp(2,3), of "[c]"] c(1) by simp
    ultimately show ?thesis using idx d c(1) sp(1) True by (simp add: slot_test [OF idx])
  next
    case False
    with sp have "map_of (rentries (RBranch bm cs)) key = None"
      using map_of_around [OF sp(2,3), of "[]"] by simp
    with False idx d show ?thesis by (simp add: slot_test [OF idx])
  qed
qed simp

section \<open>Insertion\<close>

lemma slots_below_cong: "(\<And>m. m \<noteq> n \<Longrightarrow> slot bm' m = slot bm m) \<Longrightarrow> slots_below bm' n = slots_below bm n"
  and slots_above_cong: "(\<And>m. m \<noteq> n \<Longrightarrow> slot bm' m = slot bm m) \<Longrightarrow> slots_above bm' n = slots_above bm n"
  by (auto simp: slots_below_def slots_above_def intro!: filter_cong)

lemma slots_set:
  assumes "length bm = 4" "n < 256" "bitmap_index n = (word, b)"
  shows "slots (bm[word := (bm ! word) OR b]) = slots_below bm n @ [n] @ slots_above bm n"
  using slots_split [OF assms(2), of "bm[word := (bm ! word) OR b]"] slot_set [OF assms]
    slots_below_cong [of n "bm[word := (bm ! word) OR b]" bm] slots_above_cong [of n "bm[word := (bm ! word) OR b]" bm]
  by simp

lemma slots_clear:
  assumes "length bm = 4" "n < 256" "bitmap_index n = (word, b)"
  shows "slots (bm[word := (bm ! word) AND NOT b]) = slots_below bm n @ slots_above bm n"
  using slots_split [OF assms(2), of "bm[word := (bm ! word) AND NOT b]"] slot_clear [OF assms]
    slots_below_cong [of n "bm[word := (bm ! word) AND NOT b]" bm]
    slots_above_cong [of n "bm[word := (bm ! word) AND NOT b]" bm]
  by simp

lemma in_slots_around:
  assumes "in_slots d (slots_below bm n) lows" "in_slots d (slots_above bm n) highs"
    and "\<forall>k \<in> rkeys c. nibble k d = n"
  shows "in_slots d (slots_below bm n @ [n] @ slots_above bm n) (lows @ c # highs)"
  using assms in_slots_length [OF assms(1)] by (simp add: in_slots_append in_slots_Cons)

lemma place_slot:
  assumes "length bm = 4" "in_slots d (slots bm) cs" "n < 256" "bitmap_index n = (word, b)"
    and "\<not> slot bm n" "\<forall>k \<in> rkeys node. nibble k d = n"
  shows "bitmap_rank bm word b \<le> length cs \<and> in_slots d (slots (bm[word := (bm ! word) OR b]))
      (take (bitmap_rank bm word b) cs @ node # drop (bitmap_rank bm word b) cs)"
proof -
  obtain lows highs where sp: "bitmap_rank bm word b = length lows" "in_slots d (slots_below bm n) lows"
      "in_slots d (slots_above bm n) highs" "cs = lows @ highs"
    using branch_split [OF assms(1-4)] assms(5) by metis
  then show ?thesis
    using in_slots_around [OF sp(2,3) assms(6)] by (simp add: slots_set [OF assms(1,3,4)])
qed

lemma length_empty_bitmap [simp]: "length empty_bitmap = 4"
  by (simp add: empty_bitmap_def)

lemma slot_empty: "n < 256 \<Longrightarrow> \<not> slot empty_bitmap n"
proof -
  have "empty_bitmap = replicate 4 0" by (simp add: empty_bitmap_def numeral_eq_Suc)
  moreover assume "n < 256"
  then have "n div 64 < 4" by (simp add: less_mult_imp_div_less)
  ultimately have "empty_bitmap ! (n div 64) = 0" by (metis nth_replicate)
  then show "\<not> slot empty_bitmap n" by (simp add: slot_def)
qed

lemma slots_empty: "slots empty_bitmap = []"
  by (auto simp: slots_def slot_empty filter_empty_conv)

lemma place_first:
  assumes "bitmap_index n = (word, b)" "n < 256" "\<forall>k \<in> rkeys node. nibble k d = n"
  shows "bitmap_rank empty_bitmap word b = 0 \<and>
    in_slots d (slots (empty_bitmap[word := (empty_bitmap ! word) OR b])) [node]"
  using place_slot [OF length_empty_bitmap, of d "[]" n word b node] assms slot_empty [OF assms(2)]
  by (simp add: slots_empty in_slots_Nil)

lemma split_leaf_correct:
  assumes "k \<noteq> key" "agree d k key" "d < 8"
  shows "\<exists>n. split_leaf (RLeaf k w) (RLeaf key v) key d = Some n \<and> rnode_ok d n \<and>
    set (rentries n) = {(k, w), (key, v)}"
  using assms(2,3)
proof (induction "8 - d" arbitrary: d rule: less_induct)
  case less
  let ?z = empty_bitmap
  obtain word b where idx: "bitmap_index (nibble key d) = (word, b)" by force
  show ?case
  proof (cases "nibble k d = nibble key d")
    case True
    with less.prems(1) have ag: "agree (Suc d) k key" by (simp add: agree_Suc)
    with assms(1) have "Suc d \<noteq> 8" using agree_8 by metis
    with less.prems(2) have d: "Suc d < 8" by simp
    obtain n where n: "split_leaf (RLeaf k w) (RLeaf key v) key (Suc d) = Some n" "rnode_ok (Suc d) n"
        "set (rentries n) = {(k, w), (key, v)}"
      using less.hyps [of "Suc d", OF _ ag d] less.prems(2) by (metis diff_less_mono2 lessI)
    have "\<forall>x \<in> rkeys n. nibble x d = nibble key d" using n(3) True by auto
    then have "in_slots d (slots (?z[word := (?z ! word) OR b])) [n]"
      using place_first [OF idx nibble_less] by blast
    then have "rnode_ok d (RBranch (?z[word := (?z ! word) OR b]) [n])"
      using n(2) less.prems(2) by (simp add: RADIX_DEPTH_def)
    then show ?thesis using True d n idx
      by (subst split_leaf.simps) (simp add: RADIX_DEPTH_def Let_def)
  next
    case False
    obtain word' b' where idx': "bitmap_index (nibble k d) = (word', b')" by force
    let ?b1 = "?z[word' := (?z ! word') OR b']"
    have s1: "in_slots d (slots ?b1) [RLeaf k w]" and r0: "bitmap_rank ?z word' b' = 0"
      using place_first [OF idx' nibble_less, of "RLeaf k w" d] by simp_all
    have len: "length ?b1 = 4" by simp
    have ns: "\<not> slot ?b1 (nibble key d)"
      using slot_set [OF length_empty_bitmap nibble_less idx'] slot_empty [OF nibble_less] False by metis
    let ?r = "bitmap_rank ?b1 word b"
    have s2: "in_slots d (slots (?b1[word := (?b1 ! word) OR b]))
        (take ?r [RLeaf k w] @ RLeaf key v # drop ?r [RLeaf k w])" and r: "?r \<le> 1"
      using place_slot [OF len s1 nibble_less idx ns, of "RLeaf key v"] by simp_all
    let ?n = "RBranch (?b1[word := (?b1 ! word) OR b]) (take ?r [RLeaf k w] @ RLeaf key v # drop ?r [RLeaf k w])"
    have "rnode_ok d ?n" using s2 less.prems(2) r by (cases ?r) (simp_all add: RADIX_DEPTH_def)
    moreover have "set (rentries ?n) = {(k, w), (key, v)}" using r by (cases ?r) auto
    moreover have "split_leaf (RLeaf k w) (RLeaf key v) key d = Some ?n"
      using False idx idx' ns r0 slot_empty [OF nibble_less]
      by (subst split_leaf.simps) (simp add: slot_test [OF idx] slot_test [OF idx'] Let_def)
    ultimately show ?thesis by blast
  qed
qed

text \<open>The entries of a node but for one key.\<close>

definition entries_but :: "u64 \<Rightarrow> (u64 \<times> 'v) list \<Rightarrow> (u64 \<times> 'v) set" where
  "entries_but key xs = {kv \<in> set xs. fst kv \<noteq> key}"

lemma entries_but_append [simp]: "entries_but key (xs @ ys) = entries_but key xs \<union> entries_but key ys"
  and entries_but_Nil [simp]: "entries_but key [] = {}"
  and entries_but_single [simp]: "entries_but key [(k, v)] = (if k = key then {} else {(k, v)})"
  by (auto simp: entries_but_def)

lemma entries_but_off:
  "\<forall>c \<in> set cs. key \<notin> rkeys c \<Longrightarrow> entries_but key (concat (map rentries cs)) = set (concat (map rentries cs))"
  by (force simp: entries_but_def)

lemma radix_insert_at_correct:
  "rnode_ok d n \<Longrightarrow> on_path d key n \<Longrightarrow> d \<le> 8 \<Longrightarrow>
    \<exists>n'. radix_insert_at n (RLeaf key v) key d = Some n' \<and> rnode_ok d n' \<and>
      set (rentries n') = insert (key, v) (entries_but key (rentries n))"
proof (induction n arbitrary: d)
  case (RLeaf k w)
  show ?case
  proof (cases "d = 8 \<or> k = key")
    case True
    with RLeaf.prems have "k = key" using agree_8 by (auto simp: on_path_def)
    then show ?thesis by (auto simp: RADIX_DEPTH_def)
  next
    case False
    with RLeaf.prems split_leaf_correct [of k key d w v] show ?thesis
      by (auto simp: on_path_def RADIX_DEPTH_def)
  qed
next
  case (RBranch bm cs)
  have ok: "length bm = 4" "in_slots d (slots bm) cs" "d < 8" "\<forall>c \<in> set cs. rnode_ok (Suc d) c"
    using RBranch.prems(1) by (simp_all add: RADIX_DEPTH_def)
  obtain word b where idx: "bitmap_index (nibble key d) = (word, b)" by force
  obtain lows highs where sp: "bitmap_rank bm word b = length lows"
      "in_slots d (slots_below bm (nibble key d)) lows" "in_slots d (slots_above bm (nibble key d)) highs"
      "slot bm (nibble key d) \<Longrightarrow> \<exists>c. cs = lows @ c # highs \<and> (\<forall>k \<in> rkeys c. nibble k d = nibble key d)"
      "\<not> slot bm (nibble key d) \<Longrightarrow> cs = lows @ highs"
    using branch_split [OF ok(1,2) nibble_less idx] by metis
  note off = entries_but_off [OF below_off [OF sp(2)]] entries_but_off [OF above_off [OF sp(3)]]
  let ?bm = "bm[word := (bm ! word) OR b]"
  have len: "length ?bm = 4" using ok(1) by simp
  show ?case
  proof (cases "slot bm (nibble key d)")
    case True
    then obtain c where c: "cs = lows @ c # highs" "\<forall>k \<in> rkeys c. nibble k d = nibble key d"
      using sp(4) by blast
    have "rnode_ok (Suc d) c" "on_path (Suc d) key c" "Suc d \<le> 8"
      using RBranch.prems ok c by (auto simp: on_path_def agree_Suc)
    then obtain c' where c': "radix_insert_at c (RLeaf key v) key (Suc d) = Some c'" "rnode_ok (Suc d) c'"
        "set (rentries c') = insert (key, v) (entries_but key (rentries c))"
      using RBranch.IH [of c "Suc d"] c(1) by auto
    have "\<forall>k \<in> rkeys c'. nibble k d = nibble key d" using c(2) c'(3) by (auto simp: entries_but_def)
    then have "in_slots d (slots ?bm) (lows @ c' # highs)"
      unfolding slots_set [OF ok(1) nibble_less idx] by (rule in_slots_around [OF sp(2,3)])
    then have "rnode_ok d (RBranch ?bm (lows @ c' # highs))"
      using ok c(1) c'(2) len by (auto simp: RADIX_DEPTH_def)
    moreover have "set (rentries (RBranch ?bm (lows @ c' # highs)))
        = insert (key, v) (entries_but key (rentries (RBranch bm cs)))"
      by (simp add: c(1) c'(3) off Un_assoc Un_left_commute)
    moreover have "radix_insert_at (RBranch bm cs) (RLeaf key v) key d = Some (RBranch ?bm (lows @ c' # highs))"
      using ok idx sp(1) c(1) c'(1) True by (simp add: slot_test [OF idx] RADIX_DEPTH_def)
    ultimately show ?thesis by blast
  next
    case False
    have cs: "cs = lows @ highs" using sp(5) False by blast
    have "in_slots d (slots ?bm) (lows @ RLeaf key v # highs)"
      using place_slot [OF ok(1,2) nibble_less idx False, of "RLeaf key v"] sp(1) cs by simp
    then have "rnode_ok d (RBranch ?bm (lows @ RLeaf key v # highs))"
      using ok cs len by (auto simp: RADIX_DEPTH_def)
    moreover have "set (rentries (RBranch ?bm (lows @ RLeaf key v # highs)))
        = insert (key, v) (entries_but key (rentries (RBranch bm cs)))"
      by (simp add: cs off Un_assoc Un_left_commute)
    moreover have "radix_insert_at (RBranch bm cs) (RLeaf key v) key d
        = Some (RBranch ?bm (lows @ RLeaf key v # highs))"
      using ok idx sp(1) cs False by (simp add: slot_test [OF idx] RADIX_DEPTH_def)
    ultimately show ?thesis by blast
  qed
qed

section \<open>Removal\<close>

text \<open>What a removal may leave of a node: nothing, or a well-formed node.\<close>

definition replacement_ok :: "nat \<Rightarrow> (u64 \<times> 'v) set \<Rightarrow> 'v rnode option \<Rightarrow> bool" where
  "replacement_ok d E r = (case r of None \<Rightarrow> E = {} | Some n \<Rightarrow> rnode_ok d n \<and> set (rentries n) = E)"

lemma replacement_ok_simps [simp]:
  "replacement_ok d E None \<longleftrightarrow> E = {}"
  "replacement_ok d E (Some n) \<longleftrightarrow> rnode_ok d n \<and> set (rentries n) = E"
  by (simp_all add: replacement_ok_def)

text \<open>The last step of \<^verbatim>\<open>remove_at\<close>: drop an empty branch, collapse a single leaf.\<close>

lemma collapse_ok:
  assumes "d < 8" "length bm = 4" "in_slots d (slots bm) cs" "\<forall>c \<in> set cs. rnode_ok (Suc d) c"
  shows "\<exists>r. (if cs = [] then Some (Removed None)
      else if length cs = 1 \<and> is_RLeaf (cs ! 0) \<and> 0 < d then Some (Removed (Some (cs ! 0)))
      else Some (Removed (Some (RBranch bm cs)))) = Some (Removed r) \<and>
    replacement_ok d (set (concat (map rentries cs))) r"
proof (cases "length cs = 1 \<and> is_RLeaf (cs ! 0) \<and> 0 < d")
  case True
  then obtain k v where "cs = [RLeaf k v]" by (cases cs; cases "cs ! 0") auto
  with True show ?thesis by simp
next
  case False
  then show ?thesis using assms by (cases "cs = []") (auto simp: RADIX_DEPTH_def)
qed

lemma radix_remove_at_correct:
  "rnode_ok d n \<Longrightarrow> on_path d key n \<Longrightarrow>
    (if key \<in> rkeys n
     then \<exists>r. radix_remove_at n key d = Some (Removed r) \<and> replacement_ok d (entries_but key (rentries n)) r
     else radix_remove_at n key d = Some Missing)"
proof (induction n arbitrary: d)
  case (RBranch bm cs)
  have ok: "length bm = 4" "in_slots d (slots bm) cs" "d < 8" "\<forall>c \<in> set cs. rnode_ok (Suc d) c"
    using RBranch.prems(1) by (simp_all add: RADIX_DEPTH_def)
  obtain word b where idx: "bitmap_index (nibble key d) = (word, b)" by force
  obtain lows highs where sp: "bitmap_rank bm word b = length lows"
      "in_slots d (slots_below bm (nibble key d)) lows" "in_slots d (slots_above bm (nibble key d)) highs"
      "slot bm (nibble key d) \<Longrightarrow> \<exists>c. cs = lows @ c # highs \<and> (\<forall>k \<in> rkeys c. nibble k d = nibble key d)"
      "\<not> slot bm (nibble key d) \<Longrightarrow> cs = lows @ highs"
    using branch_split [OF ok(1,2) nibble_less idx] by metis
  note off = below_off [OF sp(2)] above_off [OF sp(3)]
  note but = entries_but_off [OF off(1)] entries_but_off [OF off(2)]
  show ?case
  proof (cases "slot bm (nibble key d)")
    case False
    then have "key \<notin> rkeys (RBranch bm cs)" using sp(5) off by auto
    then show ?thesis using False idx by (simp add: slot_test [OF idx])
  next
    case True
    then obtain c where c: "cs = lows @ c # highs" "\<forall>k \<in> rkeys c. nibble k d = nibble key d"
      using sp(4) by blast
    have keys: "key \<in> rkeys (RBranch bm cs) \<longleftrightarrow> key \<in> rkeys c" using off c(1) by auto
    have oc: "rnode_ok (Suc d) c" "on_path (Suc d) key c"
      using RBranch.prems ok c by (auto simp: on_path_def agree_Suc)
    note IH = RBranch.IH [of c "Suc d", OF _ oc]
    have unfold: "radix_remove_at (RBranch bm cs) key d = (case radix_remove_at c key (Suc d) of
        None \<Rightarrow> None
      | Some Missing \<Rightarrow> Some Missing
      | Some (Removed replacement) \<Rightarrow>
          (let (bm', cs') = (case replacement of
                 Some c' \<Rightarrow> (bm, lows @ c' # highs)
               | None \<Rightarrow> (bm[word := (bm ! word) AND NOT b], lows @ highs))
           in if cs' = [] then Some (Removed None)
              else if length cs' = 1 \<and> is_RLeaf (cs' ! 0) \<and> 0 < d then Some (Removed (Some (cs' ! 0)))
              else Some (Removed (Some (RBranch bm' cs')))))"
      using ok(3) idx sp(1) c(1) True
      by (simp add: slot_test [OF idx] RADIX_DEPTH_def Let_def split: option.split remove_result.split)
    show ?thesis
    proof (cases "key \<in> rkeys c")
      case False
      then show ?thesis using IH keys c(1) unfold by simp
    next
      case True
      with IH c(1) obtain r where r: "radix_remove_at c key (Suc d) = Some (Removed r)"
          "replacement_ok (Suc d) (entries_but key (rentries c)) r" by auto
      show ?thesis
      proof (cases r)
        case None
        let ?bm = "bm[word := (bm ! word) AND NOT b]"
        have "in_slots d (slots ?bm) (lows @ highs)"
          unfolding slots_clear [OF ok(1) nibble_less idx]
          using sp(2,3) in_slots_length [OF sp(2)] by (simp add: in_slots_append)
        then obtain r' where r': "(if lows @ highs = [] then Some (Removed None)
            else if length (lows @ highs) = 1 \<and> is_RLeaf ((lows @ highs) ! 0) \<and> 0 < d
              then Some (Removed (Some ((lows @ highs) ! 0)))
            else Some (Removed (Some (RBranch ?bm (lows @ highs))))) = Some (Removed r')"
            "replacement_ok d (set (concat (map rentries (lows @ highs)))) r'"
          using collapse_ok [OF ok(3), of ?bm "lows @ highs"] ok c(1) by auto
        have "entries_but key (rentries (RBranch bm cs)) = set (concat (map rentries (lows @ highs)))"
          using r(2) None by (simp add: c(1) but)
        with r' True keys show ?thesis unfolding unfold r(1) None by auto
      next
        case (Some c')
        have c'ok: "rnode_ok (Suc d) c'" "set (rentries c') = entries_but key (rentries c)"
          using r(2) Some by simp_all
        then have "\<forall>k \<in> rkeys c'. nibble k d = nibble key d" using c(2) by (auto simp: entries_but_def)
        then have "in_slots d (slots bm) (lows @ c' # highs)"
          using in_slots_around [OF sp(2,3), of c'] slots_split [OF nibble_less, of bm key d] \<open>slot bm (nibble key d)\<close>
          by simp
        then obtain r' where r': "(if lows @ c' # highs = [] then Some (Removed None)
            else if length (lows @ c' # highs) = 1 \<and> is_RLeaf ((lows @ c' # highs) ! 0) \<and> 0 < d
              then Some (Removed (Some ((lows @ c' # highs) ! 0)))
            else Some (Removed (Some (RBranch bm (lows @ c' # highs))))) = Some (Removed r')"
            "replacement_ok d (set (concat (map rentries (lows @ c' # highs)))) r'"
          using collapse_ok [OF ok(3,1), of "lows @ c' # highs"] ok(4) c(1) c'ok(1) by auto
        have "entries_but key (rentries (RBranch bm cs)) = set (concat (map rentries (lows @ c' # highs)))"
          using c'ok(2) by (simp add: c(1) but Un_assoc)
        with r' True keys show ?thesis unfolding unfold r(1) Some by auto
      qed
    qed
  qed
qed (auto simp: entries_but_def)

section \<open>Iteration\<close>

lemma radix_iter_entries: "radix_iter stack = concat (map rentries stack)"
  by (induction stack rule: radix_iter.induct) auto

lemma concat_sorted:
  assumes "in_slots d as cs" "sorted_wrt (<) as" "d < 8"
    and "\<forall>c \<in> set cs. sorted_wrt (<) (map fst (rentries c))"
    and "\<forall>c \<in> set cs. \<forall>c' \<in> set cs. \<forall>a \<in> rkeys c. \<forall>b \<in> rkeys c'. agree d a b"
  shows "sorted_wrt (<) (map fst (concat (map rentries cs)))"
  using assms
proof (induction as arbitrary: cs)
  case (Cons a as)
  then obtain c cs' where cs: "cs = c # cs'" "\<forall>k \<in> rkeys c. nibble k d = a" "in_slots d as cs'"
    by (auto simp: in_slots_def list_all2_Cons1)
  have "sorted_wrt (<) (map fst (concat (map rentries cs')))"
    using Cons.IH [OF cs(3)] Cons.prems cs(1) by simp
  moreover have "x < y" if "x \<in> rkeys c" "c' \<in> set cs'" "y \<in> rkeys c'" for x y c'
  proof (rule agree_nibble_less [OF assms(3)])
    have "c \<in> set cs" "c' \<in> set cs" using cs(1) that(2) by simp_all
    then show "agree d x y" using Cons.prems(5) that(1,3) by blast
    have "nibble y d \<in> set as" by (rule in_slots_keys [OF cs(3) that(2,3)])
    then show "nibble x d < nibble y d" using Cons.prems(2) cs(2) that(1) by auto
  qed
  ultimately show ?case using Cons.prems(4) cs(1) by (auto simp: sorted_wrt_append)
qed (simp add: in_slots_def)

lemma rentries_sorted:
  "rnode_ok d n \<Longrightarrow> \<forall>a \<in> rkeys n. \<forall>b \<in> rkeys n. agree d a b \<Longrightarrow> sorted_wrt (<) (map fst (rentries n))"
proof (induction n arbitrary: d)
  case (RBranch bm cs)
  have ok: "in_slots d (slots bm) cs" "d < 8" "\<forall>c \<in> set cs. rnode_ok (Suc d) c"
    using RBranch.prems(1) by (simp_all add: RADIX_DEPTH_def)
  have "sorted_wrt (<) (map fst (rentries c))" if "c \<in> set cs" for c
  proof (rule RBranch.IH [OF that])
    show "rnode_ok (Suc d) c" using ok(3) that by blast
    from that obtain i where "i < length cs" "c = cs ! i" by (auto simp: in_set_conv_nth)
    then have "\<forall>k \<in> rkeys c. nibble k d = slots bm ! i"
      using ok(1) by (simp add: in_slots_def list_all2_conv_all_nth)
    then show "\<forall>a \<in> rkeys c. \<forall>b \<in> rkeys c. agree (Suc d) a b"
      using RBranch.prems(2) that by (auto simp: agree_Suc)
  qed
  moreover have "sorted_wrt (<) (slots bm)" by (simp add: slots_def sorted_wrt_filter)
  ultimately show ?case
    using concat_sorted [OF ok(1) _ ok(2)] RBranch.prems(2) by auto
qed simp

section \<open>The map\<close>

definition radix_list :: "'v radix_map \<Rightarrow> (u64 \<times> 'v) list" where
  "radix_list m = (case rm_root m of None \<Rightarrow> [] | Some n \<Rightarrow> rentries n)"

definition radix_map_of :: "'v radix_map \<Rightarrow> u64 \<rightharpoonup> 'v" where
  "radix_map_of m = map_of (radix_list m)"

definition radix_ok :: "'v radix_map \<Rightarrow> bool" where
  "radix_ok m \<longleftrightarrow> (case rm_root m of None \<Rightarrow> True | Some n \<Rightarrow> rnode_ok 0 n) \<and>
     rm_len m = length (radix_list m)"

lemma radix_list_sorted: "radix_ok m \<Longrightarrow> sorted_wrt (<) (map fst (radix_list m))"
  by (auto simp: radix_ok_def radix_list_def rentries_sorted split: option.splits)

lemma sorted_wrt_less_distinct: "sorted_wrt (<) (xs :: 'a :: linorder list) \<Longrightarrow> distinct xs"
  by (simp add: strict_sorted_iff)

lemma radix_list_distinct: "radix_ok m \<Longrightarrow> distinct (map fst (radix_list m))"
  by (rule sorted_wrt_less_distinct [OF radix_list_sorted])

text \<open>The invariant is that of the root, and its length is determined by the entries.\<close>

lemma card_dom_map_of: "distinct (map fst xs) \<Longrightarrow> card (dom (map_of xs)) = length xs"
  by (simp add: dom_map_of_conv_image_fst distinct_card flip: set_map)

lemma radix_len_card: "radix_ok m \<Longrightarrow> rm_len m = card (dom (radix_map_of m))"
  using card_dom_map_of [OF radix_list_distinct, of m] by (simp add: radix_map_of_def radix_ok_def)

lemma map_of_setI:
  assumes "distinct (map fst xs)" "\<And>k v. (k, v) \<in> set xs \<longleftrightarrow> m k = Some v"
  shows "map_of xs = m"
proof
  fix k
  show "map_of xs k = m k"
    using assms map_of_eq_None_iff [of xs k] by (cases "m k") (force, auto)
qed

lemma root_sorted: "rnode_ok 0 n \<Longrightarrow> distinct (map fst (rentries n))"
  by (rule sorted_wrt_less_distinct [OF rentries_sorted [where d = 0]]) simp_all

lemma radix_get_map: "radix_ok m \<Longrightarrow> radix_get m key = Some (radix_map_of m key)"
  by (auto simp: radix_get_def radix_ok_def radix_map_of_def radix_list_def on_path_def
      radix_get_at_correct split: option.splits)

lemma radix_insert_map:
  assumes "radix_ok m"
  shows "\<exists>m'. radix_insert m key v = Some m' \<and> radix_ok m' \<and> radix_map_of m' = (radix_map_of m)(key \<mapsto> v)"
proof -
  obtain n' where n': "(case rm_root m of None \<Rightarrow> Some (RLeaf key v)
      | Some n \<Rightarrow> radix_insert_at n (RLeaf key v) key 0) = Some n'" "rnode_ok 0 n'"
      "set (rentries n') = insert (key, v) (entries_but key (radix_list m))"
  proof (cases "rm_root m")
    case None
    then show thesis using that by (simp add: radix_list_def)
  next
    case (Some n)
    then show thesis using that radix_insert_at_correct [of 0 n key v] assms
      by (auto simp: radix_ok_def radix_list_def on_path_def)
  qed
  let ?m = "\<lparr> rm_root = Some n', rm_len = (if radix_map_of m key = None then rm_len m + 1 else rm_len m) \<rparr>"
  have map: "map_of (rentries n') = (radix_map_of m)(key \<mapsto> v)"
  proof (rule map_of_setI [OF root_sorted [OF n'(2)]])
    fix k w
    show "(k, w) \<in> set (rentries n') \<longleftrightarrow> ((radix_map_of m)(key \<mapsto> v)) k = Some w"
      using radix_list_distinct [OF assms] by (auto simp: n'(3) entries_but_def radix_map_of_def)
  qed
  have "length (rentries n') = card (insert key (dom (radix_map_of m)))"
    using card_dom_map_of [OF root_sorted [OF n'(2)]] map by simp
  also have "\<dots> = rm_len ?m"
    using radix_len_card [OF assms] by (auto simp: card_insert_if radix_map_of_def finite_dom_map_of)
  finally have "radix_ok ?m" using n'(2) by (simp add: radix_ok_def radix_list_def)
  moreover have "radix_insert m key v = Some ?m"
    using n'(1) radix_get_map [OF assms] by (simp add: radix_insert_def)
  moreover have "radix_map_of ?m = (radix_map_of m)(key \<mapsto> v)"
    using map by (simp add: radix_map_of_def radix_list_def)
  ultimately show ?thesis by blast
qed

lemma radix_remove_map:
  assumes "radix_ok m"
  shows "\<exists>m'. radix_remove m key = Some (radix_map_of m key \<noteq> None, m') \<and> radix_ok m' \<and>
    radix_map_of m' = (radix_map_of m)(key := None)"
proof (cases "rm_root m")
  case None
  then show ?thesis using assms by (simp add: radix_remove_def radix_map_of_def radix_list_def)
next
  case (Some n)
  have n: "rnode_ok 0 n" "radix_list m = rentries n" "on_path 0 key n" "rm_len m = length (rentries n)"
    using assms Some by (simp_all add: radix_ok_def radix_list_def on_path_def)
  note rem = radix_remove_at_correct [OF n(1,3)]
  have mem: "key \<in> rkeys n \<longleftrightarrow> radix_map_of m key \<noteq> None"
    by (simp add: radix_map_of_def n(2) map_of_eq_None_iff)
  show ?thesis
  proof (cases "key \<in> rkeys n")
    case False
    then have "radix_remove m key = Some (False, m)" using rem Some by (simp add: radix_remove_def)
    then show ?thesis using False mem assms by (auto simp: fun_upd_idem)
  next
    case True
    with rem obtain r where r: "radix_remove_at n key 0 = Some (Removed r)"
        "replacement_ok 0 (entries_but key (rentries n)) r" by auto
    define m' where "m' = \<lparr> rm_root = r, rm_len = rm_len m - 1 \<rparr>"
    have set: "set (radix_list m') = entries_but key (rentries n)"
      and dist: "distinct (map fst (radix_list m'))"
      using r(2) root_sorted by (auto simp: m'_def radix_list_def replacement_ok_def split: option.splits)
    have map: "radix_map_of m' = (radix_map_of m)(key := None)"
      unfolding radix_map_of_def
    proof (rule map_of_setI [OF dist])
      fix k w
      show "(k, w) \<in> set (radix_list m') \<longleftrightarrow> ((map_of (radix_list m))(key := None)) k = Some w"
        using root_sorted [OF n(1)] by (auto simp: set entries_but_def n(2))
    qed
    have "length (radix_list m') = card (dom (radix_map_of m) - {key})"
      using card_dom_map_of [OF dist] map by (simp add: radix_map_of_def)
    also have "\<dots> = rm_len m - 1"
      using radix_len_card [OF assms] True mem by (simp add: card_Diff_singleton domIff)
    finally have "radix_ok m'" using r(2) by (auto simp: m'_def radix_ok_def replacement_ok_def split: option.splits)
    moreover have "radix_remove m key = Some (True, m')" using r(1) Some by (simp add: radix_remove_def m'_def)
    ultimately show ?thesis using True mem map by auto
  qed
qed

lemma radix_entries_list: "radix_entries m = radix_list m"
  by (simp add: radix_entries_def radix_list_def radix_iter_entries split: option.split)

lemma radix_empty_map: "radix_ok radix_empty" "radix_map_of radix_empty = Map.empty"
  by (simp_all add: radix_ok_def radix_empty_def radix_map_of_def radix_list_def)

section \<open>The contract of a persistent index\<close>

text \<open>
  What the clients of the map rely on: the occurrence index of a tape inserts and removes
  a run of keys and looks keys up. Both folds are proved from the contract alone.
\<close>

locale persistent_index =
  fixes ok :: "'m \<Rightarrow> bool"
    and abs :: "'m \<Rightarrow> 'k \<rightharpoonup> 'v"
    and lookup :: "'m \<Rightarrow> 'k \<Rightarrow> 'v option option"
    and insert_key :: "'m \<Rightarrow> 'k \<Rightarrow> 'v \<Rightarrow> 'm option"
    and remove_key :: "'m \<Rightarrow> 'k \<Rightarrow> (bool \<times> 'm) option"
  assumes lookup_abs: "ok m \<Longrightarrow> lookup m k = Some (abs m k)"
    and insert_abs: "ok m \<Longrightarrow> \<exists>m'. insert_key m k v = Some m' \<and> ok m' \<and> abs m' = (abs m)(k \<mapsto> v)"
    and remove_abs: "ok m \<Longrightarrow> \<exists>m'. remove_key m k = Some (abs m k \<noteq> None, m') \<and> ok m' \<and>
      abs m' = (abs m)(k := None)"
begin

lemma insert_all:
  "ok m \<Longrightarrow> \<exists>m'. fold (\<lambda>(k, v) acc. Option.bind acc (\<lambda>m. insert_key m k v)) kvs (Some m) = Some m' \<and>
    ok m' \<and> abs m' = abs m ++ map_of (rev kvs)"
proof (induction kvs arbitrary: m)
  case (Cons kv kvs)
  obtain k v where kv: "kv = (k, v)" by force
  from insert_abs [OF Cons.prems] obtain m1 where
    m1: "insert_key m k v = Some m1" "ok m1" "abs m1 = (abs m)(k \<mapsto> v)" by blast
  from Cons.IH [OF m1(2)] obtain m' where
    m': "fold (\<lambda>(k, v) acc. Option.bind acc (\<lambda>m. insert_key m k v)) kvs (Some m1) = Some m'"
      "ok m'" "abs m' = abs m1 ++ map_of (rev kvs)" by blast
  have "abs m' = abs m ++ map_of (rev (kv # kvs))"
    by (rule ext) (simp add: m'(3) m1(3) kv map_add_def split: option.split)
  with m' m1(1) show ?case by (simp add: kv)
qed simp

lemma remove_all:
  "ok m \<Longrightarrow> \<exists>m'. fold (\<lambda>k acc. Option.bind acc (\<lambda>m. map_option snd (remove_key m k))) ks (Some m) = Some m' \<and>
    ok m' \<and> abs m' = abs m |` (- set ks)"
proof (induction ks arbitrary: m)
  case Nil
  then show ?case by simp
next
  case (Cons k ks)
  from remove_abs [OF Cons.prems] obtain m1 where
    m1: "remove_key m k = Some (abs m k \<noteq> None, m1)" "ok m1" "abs m1 = (abs m)(k := None)" by blast
  from Cons.IH [OF m1(2)] m1 show ?case by (auto simp: restrict_map_def fun_eq_iff)
qed

end

interpretation radix: persistent_index radix_ok radix_map_of radix_get radix_insert radix_remove
proof (unfold_locales, goal_cases)
  case (3 m k)
  then show ?case by (rule radix_remove_map)
qed (simp_all add: radix_get_map radix_insert_map)

section \<open>Properties\<close>

text \<open>A history of the map: what a caller does to it, and what that does to a finite map.\<close>

datatype 'v radix_op = Insert u64 'v | Remove u64

fun radix_step :: "'v radix_op \<Rightarrow> 'v radix_map \<Rightarrow> 'v radix_map option" where
  "radix_step (Insert k v) m = radix_insert m k v"
| "radix_step (Remove k) m = map_option snd (radix_remove m k)"

fun map_step :: "'v radix_op \<Rightarrow> (u64 \<rightharpoonup> 'v) \<Rightarrow> (u64 \<rightharpoonup> 'v)" where
  "map_step (Insert k v) f = f(k \<mapsto> v)"
| "map_step (Remove k) f = f(k := None)"

definition radix_run :: "'v radix_op list \<Rightarrow> 'v radix_map option" where
  "radix_run ops = fold (\<lambda>op acc. Option.bind acc (radix_step op)) ops (Some radix_empty)"

lemma radix_step_refines:
  "radix_ok m \<Longrightarrow> \<exists>m'. radix_step op m = Some m' \<and> radix_ok m' \<and> radix_map_of m' = map_step op (radix_map_of m)"
proof (cases op)
  case (Insert k v)
  then show "radix_ok m \<Longrightarrow> ?thesis" using radix.insert_abs [of m k v] by simp
next
  case (Remove k)
  then show "radix_ok m \<Longrightarrow> ?thesis" using radix.remove_abs [of m k] by auto
qed

lemma radix_run_refines:
  "\<exists>m. radix_run ops = Some m \<and> radix_ok m \<and> radix_map_of m = fold map_step ops Map.empty"
proof (induction ops rule: rev_induct)
  case Nil
  then show ?case by (simp add: radix_run_def radix_empty_map)
next
  case (snoc op ops)
  then obtain m where "radix_run ops = Some m" "radix_ok m" "radix_map_of m = fold map_step ops Map.empty" by blast
  with radix_step_refines [of m op] show ?case by (auto simp: radix_run_def)
qed

text \<open>
  C18: after any sequence of insertions and removals from the empty map, none of which
  panics, every lookup answers as the finite map does, the stored length is the number of
  keys, and iteration lists the map's entries in strictly ascending key order.
\<close>

theorem radix_run_correct:
  "\<exists>m. radix_run ops = Some m \<and>
    (\<forall>k. radix_get m k = Some (fold map_step ops Map.empty k)) \<and>
    rm_len m = card (dom (fold map_step ops Map.empty)) \<and>
    sorted_wrt (<) (map fst (radix_entries m)) \<and>
    map_of (radix_entries m) = fold map_step ops Map.empty"
proof -
  obtain m where "radix_run ops = Some m" "radix_ok m" "radix_map_of m = fold map_step ops Map.empty"
    using radix_run_refines by blast
  then show ?thesis
    using radix_list_sorted [of m] radix_len_card [of m]
    by (simp add: radix_get_map radix_entries_list flip: radix_map_of_def)
qed

text \<open>
  on a well-formed map, \<^verbatim>\<open>insert\<close> and \<^verbatim>\<open>remove\<close> reach none of their \<^verbatim>\<open>unreachable!\<close>
  branches, keep the trie well formed (children aligned with the bitmap, one byte per level,
  no empty branch) and change the map at the given key only; \<^verbatim>\<open>remove\<close> reports whether the
  key was present.
\<close>

theorem radix_ops_preserve:
  assumes "radix_ok m"
  shows "\<exists>m1 m2. radix_insert m key v = Some m1 \<and> radix_ok m1 \<and> radix_map_of m1 = (radix_map_of m)(key \<mapsto> v) \<and>
    radix_remove m key = Some (radix_map_of m key \<noteq> None, m2) \<and> radix_ok m2 \<and>
    radix_map_of m2 = (radix_map_of m)(key := None)"
  using radix_insert_map [OF assms] radix_remove_map [OF assms] by blast

theorem radix_ops_preserve_witness:
  "\<exists>m1. radix_insert radix_empty 0x0102030405060708 True = Some m1 \<and> radix_ok m1 \<and>
    radix_map_of m1 = [0x0102030405060708 \<mapsto> True]"
  using radix_ops_preserve [OF radix_empty_map(1), of "0x0102030405060708" True]
  by (auto simp: radix_empty_map)

end
