(* ===== verification/Leaf_Order.thy ===== *)
theory Leaf_Order
  imports Prelude
begin

text \<open>
  The fractional order labels of tape leaves (\<^verbatim>\<open>LeafOrderKey\<close> in
  \<^verbatim>\<open>src/framework/tape.rs\<close>): a label is a finite binary fraction, its bits after the point,
  kept without trailing zeros. The type \<open>leaf_order_key\<close> is the set of such canonical bit
  lists; every constructor of the code goes through \<open>canonical\<close>, so that the derived
  equality agrees with the order. The lemmas show that the order is linear, that
  \<open>key_between\<close> returns a label strictly between its bounds (in particular that its
  search loop stops), and that \<open>key_initial\<close> yields ascending labels.
\<close>

section \<open>Labels\<close>

definition strip_zeros :: "bool list \<Rightarrow> bool list" where
  "strip_zeros bits = rev (dropWhile Not (rev bits))"

lemma strip_zeros_last: "strip_zeros bits = [] \<or> last (strip_zeros bits)"
proof (cases "dropWhile Not (rev bits) = []")
  case False
  then have "hd (dropWhile Not (rev bits))" using hd_dropWhile [OF False] by simp
  with False show ?thesis unfolding strip_zeros_def by (simp only: last_rev simp_thms)
next
  case True
  then show ?thesis unfolding strip_zeros_def by (simp only: rev.simps simp_thms)
qed

typedef leaf_order_key = "{bits :: bool list. bits = [] \<or> last bits}"
  morphisms order_bits LeafOrderKey
  by (rule exI [of _ "[]"]) simp

setup_lifting type_definition_leaf_order_key

lift_definition canonical :: "bool list \<Rightarrow> leaf_order_key" is strip_zeros
  by (rule strip_zeros_last)

instantiation leaf_order_key :: equal
begin

definition equal_leaf_order_key :: "leaf_order_key \<Rightarrow> leaf_order_key \<Rightarrow> bool" where
  "equal_leaf_order_key a b \<longleftrightarrow> order_bits a = order_bits b"

instance
  by standard (simp add: equal_leaf_order_key_def order_bits_inject)

end

text \<open>\<^verbatim>\<open>self.0.get(index).copied().unwrap_or(0)\<close>.\<close>

definition bit_at :: "leaf_order_key \<Rightarrow> nat \<Rightarrow> bool" where
  "bit_at k i = (case nth_opt (order_bits k) i of None \<Rightarrow> False | Some b \<Rightarrow> b)"

datatype ordering = Less | Equal | Greater

text \<open>\<^verbatim>\<open>Ord::cmp\<close>: the first position at which the two labels differ decides.\<close>

definition key_cmp :: "leaf_order_key \<Rightarrow> leaf_order_key \<Rightarrow> ordering" where
  "key_cmp a b =
     (case filter (\<lambda>i. bit_at a i \<noteq> bit_at b i) [0..<max (length (order_bits a)) (length (order_bits b))] of
        [] \<Rightarrow> Equal
      | i # _ \<Rightarrow> (if bit_at b i then Less else Greater))"

definition key_half :: leaf_order_key where
  "key_half = canonical [True]"

text \<open>
  \<^verbatim>\<open>initial\<close>: the width loop, with the saturating product of the code; \<open>None\<close> would be a
  loop that does not stop.
\<close>

partial_function (option) width_loop :: "nat \<Rightarrow> nat \<Rightarrow> nat \<Rightarrow> nat option" where
  "width_loop width capacity n =
     (if capacity \<le> n then width_loop (width + 1) (min usize_max (capacity * 2)) n
      else Some width)"

declare width_loop.simps [code]

definition key_initial :: "nat \<Rightarrow> nat \<Rightarrow> leaf_order_key option" where
  "key_initial ordinal n = do {
     width \<leftarrow> width_loop 0 1 n;
     Some (canonical (map (\<lambda>shift. odd ((ordinal + 1) div 2 ^ shift)) (rev [0..<width])))
   }"

text \<open>\<^verbatim>\<open>Vec::resize(n, 0)\<close>.\<close>

definition resize_bits :: "nat \<Rightarrow> bool list \<Rightarrow> bool list" where
  "resize_bits n bits = take n bits @ replicate (n - length bits) False"

definition with_increment_at :: "leaf_order_key \<Rightarrow> nat \<Rightarrow> leaf_order_key" where
  "with_increment_at k precision = canonical (resize_bits (precision - 1) (order_bits k) @ [True])"

definition key_before :: "leaf_order_key \<Rightarrow> leaf_order_key" where
  "key_before k = canonical (False # order_bits k)"

definition key_after :: "leaf_order_key \<Rightarrow> leaf_order_key" where
  "key_after k = with_increment_at k (length (order_bits k) + 1)"


text \<open>
  \<^verbatim>\<open>between\<close>: the loop that lengthens the left label until it is below the right one.
\<close>

partial_function (option) between_loop :: "leaf_order_key \<Rightarrow> leaf_order_key \<Rightarrow> nat \<Rightarrow> leaf_order_key option" where
  "between_loop l r precision =
     (let candidate = with_increment_at l precision in
      if key_cmp candidate r = Less then Some candidate else between_loop l r (precision + 1))"

declare between_loop.simps [code]

fun key_between :: "leaf_order_key option \<Rightarrow> leaf_order_key option \<Rightarrow> leaf_order_key option" where
  "key_between None None = Some key_half"
| "key_between None (Some r) = Some (key_before r)"
| "key_between (Some l) None = Some (key_after l)"
| "key_between (Some l) (Some r) = between_loop l r (length (order_bits l) + 1)"

section \<open>The order\<close>

definition bitf :: "bool list \<Rightarrow> nat \<Rightarrow> bool" where
  "bitf bits i \<longleftrightarrow> i < length bits \<and> bits ! i"

lemma bitf_append: "bitf (xs @ ys) i = (if i < length xs then bitf xs i else bitf ys (i - length xs))"
  by (auto simp: bitf_def nth_append)

lemma bitf_replicate [simp]: "\<not> bitf (replicate n False) i"
  by (simp add: bitf_def)

lemma bit_at_bitf: "bit_at k i = bitf (order_bits k) i"
  by (cases "i < length (order_bits k)") (auto simp: bit_at_def bitf_def)

lemma strip_zeros_snoc [simp]:
  "strip_zeros (bits @ [True]) = bits @ [True]" "strip_zeros (bits @ [False]) = strip_zeros bits"
  by (simp_all add: strip_zeros_def)

lemma strip_zeros_split: "\<exists>n. bits = strip_zeros bits @ replicate n False"
proof (induction bits rule: rev_induct)
  case (snoc b bits)
  then obtain n where "bits = strip_zeros bits @ replicate n False" by blast
  then show ?case
    by (cases b) (auto simp flip: replicate_append_same intro: exI [of _ 0] intro!: exI [of _ "Suc n"])
qed (simp add: strip_zeros_def)

lemma bitf_strip_zeros [simp]: "bitf (strip_zeros bits) i = bitf bits i"
proof -
  obtain n where "bits = strip_zeros bits @ replicate n False" using strip_zeros_split by blast
  then have "bitf bits i = bitf (strip_zeros bits @ replicate n False) i" by metis
  then show ?thesis by (simp add: bitf_append) (simp add: bitf_def)
qed

lemma bit_at_canonical: "bit_at (canonical bits) i = bitf bits i"
  by (simp add: bit_at_bitf canonical.rep_eq)

lemma order_bits_canonical: "order_bits k = [] \<or> last (order_bits k)"
  using order_bits [of k] by simp

lemma bitf_eq_length_le:
  assumes "xs = [] \<or> last xs" "\<And>i. bitf xs i = bitf ys i"
  shows "length xs \<le> length ys"
proof (rule ccontr)
  assume "\<not> length xs \<le> length ys"
  then have "xs \<noteq> []" "length ys \<le> length xs - 1" by auto
  then have "bitf xs (length xs - 1)" "\<not> bitf ys (length xs - 1)"
    using assms(1) by (auto simp: bitf_def last_conv_nth)
  with assms(2) show False by blast
qed

lemma key_eqI:
  assumes "\<And>i. bit_at a i = bit_at b i"
  shows "a = b"
proof -
  have eq: "bitf (order_bits a) i = bitf (order_bits b) i" for i using assms by (simp add: bit_at_bitf)
  have "length (order_bits a) = length (order_bits b)"
    using bitf_eq_length_le [OF order_bits_canonical eq]
      bitf_eq_length_le [OF order_bits_canonical eq [symmetric]] by (rule antisym)
  then have "order_bits a = order_bits b"
    using eq by (auto simp: list_eq_iff_nth_eq bitf_def)
  then show ?thesis by (simp add: order_bits_inject)
qed

text \<open>The first difference of two labels, which is what the comparison loop finds.\<close>

definition key_lt_at :: "leaf_order_key \<Rightarrow> leaf_order_key \<Rightarrow> nat \<Rightarrow> bool" where
  "key_lt_at a b i \<longleftrightarrow> (\<forall>j<i. bit_at a j = bit_at b j) \<and> \<not> bit_at a i \<and> bit_at b i"

lemma bit_at_out [simp]: "length (order_bits k) \<le> i \<Longrightarrow> \<not> bit_at k i"
  by (simp add: bit_at_def)

lemma key_first_diff: "a \<noteq> b \<Longrightarrow> \<exists>i. key_lt_at a b i \<or> key_lt_at b a i"
proof -
  assume "a \<noteq> b"
  then obtain k where "bit_at a k \<noteq> bit_at b k" using key_eqI by blast
  then have "\<exists>i. bit_at a i \<noteq> bit_at b i \<and> (\<forall>j<i. bit_at a j = bit_at b j)"
    using exists_least_iff [of "\<lambda>i. bit_at a i \<noteq> bit_at b i"] by blast
  then show ?thesis unfolding key_lt_at_def by metis
qed

lemma key_lt_at_unique:
  "key_lt_at a b i \<Longrightarrow> \<not> key_lt_at b a j" "key_lt_at a b i \<Longrightarrow> key_lt_at a b j \<Longrightarrow> i = j"
  unfolding key_lt_at_def by (metis linorder_neqE_nat)+

lemma filter_first:
  assumes "i < n" "p i" "\<forall>j<i. \<not> p j"
  shows "\<exists>is. filter p [0..<n] = i # is"
proof -
  have "[0..<n] = [0..<i] @ i # [Suc i..<n]"
    using assms(1) by (metis upt_conv_Cons upt_split less_imp_le zero_le)
  moreover have "filter p [0..<i] = []" using assms(3) by (auto simp: filter_empty_conv)
  ultimately show ?thesis using assms(2) by simp
qed

lemma key_cmp_lt_at:
  assumes "key_lt_at a b i"
  shows "key_cmp a b = Less" "key_cmp b a = Greater"
proof -
  have i: "i < max (length (order_bits a)) (length (order_bits b))"
    using assms bit_at_out [of b i] unfolding key_lt_at_def by (metis not_le less_max_iff_disj)
  obtain js where "filter (\<lambda>i. bit_at a i \<noteq> bit_at b i)
      [0..<max (length (order_bits a)) (length (order_bits b))] = i # js"
    using filter_first [OF i, of "\<lambda>i. bit_at a i \<noteq> bit_at b i"] assms by (auto simp: key_lt_at_def)
  then show "key_cmp a b = Less" using assms by (simp add: key_cmp_def key_lt_at_def)
  obtain js where "filter (\<lambda>i. bit_at b i \<noteq> bit_at a i)
      [0..<max (length (order_bits b)) (length (order_bits a))] = i # js"
    using filter_first [OF i, of "\<lambda>i. bit_at b i \<noteq> bit_at a i"] assms
    by (auto simp: key_lt_at_def max.commute)
  then show "key_cmp b a = Greater" using assms by (simp add: key_cmp_def key_lt_at_def)
qed

lemma key_cmp_refl: "key_cmp a a = Equal"
  by (simp add: key_cmp_def)

lemma key_cmp_less: "key_cmp a b = Less \<longleftrightarrow> (\<exists>i. key_lt_at a b i)"
  and key_cmp_equal: "key_cmp a b = Equal \<longleftrightarrow> a = b"
  and key_cmp_greater: "key_cmp a b = Greater \<longleftrightarrow> (\<exists>i. key_lt_at b a i)"
proof -
  consider "a = b" | i where "key_lt_at a b i" | i where "key_lt_at b a i"
    using key_first_diff by blast
  then have "(key_cmp a b = Less \<longleftrightarrow> (\<exists>i. key_lt_at a b i)) \<and> (key_cmp a b = Equal \<longleftrightarrow> a = b) \<and>
      (key_cmp a b = Greater \<longleftrightarrow> (\<exists>i. key_lt_at b a i))"
  proof cases
    case 1
    then show ?thesis by (simp add: key_cmp_refl key_lt_at_def)
  next
    case 2
    then show ?thesis using key_cmp_lt_at [OF 2] key_lt_at_unique(1) [OF 2] key_cmp_refl by force
  next
    case 3
    then show ?thesis using key_cmp_lt_at [OF 3] key_lt_at_unique(1) [OF 3] key_cmp_refl by force
  qed
  then show "key_cmp a b = Less \<longleftrightarrow> (\<exists>i. key_lt_at a b i)" "key_cmp a b = Equal \<longleftrightarrow> a = b"
    "key_cmp a b = Greater \<longleftrightarrow> (\<exists>i. key_lt_at b a i)" by blast+
qed

lemma key_lt_at_trans:
  assumes "key_lt_at a b i" "key_lt_at b c j"
  shows "key_lt_at a c (min i j)"
  using assms unfolding key_lt_at_def min_def by (auto split: if_splits) (metis linorder_neqE_nat not_le)+

instantiation leaf_order_key :: linorder
begin

definition less_leaf_order_key :: "leaf_order_key \<Rightarrow> leaf_order_key \<Rightarrow> bool" where
  "less_leaf_order_key a b \<longleftrightarrow> key_cmp a b = Less"

definition less_eq_leaf_order_key :: "leaf_order_key \<Rightarrow> leaf_order_key \<Rightarrow> bool" where
  "less_eq_leaf_order_key a b \<longleftrightarrow> key_cmp a b \<noteq> Greater"

instance
proof
  fix a b c :: leaf_order_key
  have le: "x \<le> y \<longleftrightarrow> x < y \<or> x = y" for x y :: leaf_order_key
    unfolding less_leaf_order_key_def less_eq_leaf_order_key_def
    using key_cmp_equal [of x y] by (cases "key_cmp x y") auto
  have lt: "x < y \<longleftrightarrow> (\<exists>i. key_lt_at x y i)" for x y :: leaf_order_key
    by (simp add: less_leaf_order_key_def key_cmp_less)
  have asym: "x < y \<Longrightarrow> \<not> y < x" for x y :: leaf_order_key
    using key_lt_at_unique(1) unfolding lt by blast
  have trans: "x < y \<Longrightarrow> y < z \<Longrightarrow> x < z" for x y z :: leaf_order_key
    using key_lt_at_trans unfolding lt by blast
  show "(a < b) = (a \<le> b \<and> \<not> b \<le> a)" unfolding le by (metis asym)
  show "a \<le> a" by (simp add: le)
  show "a \<le> b \<Longrightarrow> b \<le> c \<Longrightarrow> a \<le> c" using trans by (auto simp: le)
  show "a \<le> b \<Longrightarrow> b \<le> a \<Longrightarrow> a = b" using asym unfolding le by blast
  show "a \<le> b \<or> b \<le> a" using key_first_diff [of a b] by (auto simp: le lt)
qed

end

lemma key_less_iff: "a < b \<longleftrightarrow> (\<exists>i. key_lt_at a b i)" for a b :: leaf_order_key
  by (simp add: less_leaf_order_key_def key_cmp_less)

lemma key_cmp_less_iff [simp]: "key_cmp a b = Less \<longleftrightarrow> a < b"
  by (simp add: less_leaf_order_key_def)

section \<open>Constructors\<close>

lemma bit_at_increment:
  assumes "length (order_bits k) < p"
  shows "bit_at (with_increment_at k p) i \<longleftrightarrow> bit_at k i \<or> i = p - 1"
proof -
  have "length (resize_bits (p - 1) (order_bits k)) = p - 1"
    "bitf (resize_bits (p - 1) (order_bits k)) i = bitf (order_bits k) i"
    using assms by (auto simp: resize_bits_def bitf_def nth_append)
  then show ?thesis using assms
    unfolding with_increment_at_def bit_at_canonical bitf_append unfolding bit_at_bitf
    by (auto simp: bitf_def)
qed

lemma increment_greater:
  assumes "length (order_bits k) < p"
  shows "k < with_increment_at k p"
  unfolding key_less_iff
  by (rule exI [of _ "p - 1"]) (use assms in \<open>auto simp: key_lt_at_def bit_at_increment\<close>)

lemma increment_less:
  assumes "length (order_bits l) < p" "key_lt_at l r d" "Suc d < p"
  shows "with_increment_at l p < r"
  unfolding key_less_iff
  by (rule exI [of _ d]) (use assms in \<open>auto simp: key_lt_at_def bit_at_increment\<close>)

text \<open>The search loop stops, at a label between the two.\<close>

lemma between_loop_returns:
  assumes "length (order_bits l) < p" "l < r"
  shows "\<exists>k. between_loop l r p = Some k \<and> l < k \<and> k < r"
proof -
  obtain d where d: "key_lt_at l r d" using assms(2) by (auto simp: key_less_iff)
  from assms(1) show ?thesis
  proof (induction "d + 2 - p" arbitrary: p)
    case 0
    then have "with_increment_at l p < r" using increment_less [OF _ d] by simp
    with increment_greater [OF 0(2)] show ?case by (subst between_loop.simps) (simp add: Let_def)
  next
    case (Suc m)
    then have ih: "\<exists>k. between_loop l r (p + 1) = Some k \<and> l < k \<and> k < r" by simp
    with increment_greater [OF Suc.prems] show ?case by (subst between_loop.simps) (simp add: Let_def)
  qed
qed

lemma bit_at_before: "bit_at (key_before k) i \<longleftrightarrow> 0 < i \<and> bit_at k (i - 1)"
  unfolding key_before_def bit_at_canonical unfolding bit_at_bitf by (cases i) (auto simp: bitf_def)

lemma key_nonzero: "order_bits k \<noteq> [] \<Longrightarrow> \<exists>i. bit_at k i"
  using order_bits_canonical [of k] by (auto simp: bit_at_bitf bitf_def last_conv_nth intro!: exI [of _ "length (order_bits k) - 1"])

lemma key_positive: "bit_at k i \<Longrightarrow> order_bits k \<noteq> []"
  by (auto simp: bit_at_def)

lemma before_less:
  assumes "order_bits k \<noteq> []"
  shows "key_before k < k" "order_bits (key_before k) \<noteq> []"
proof -
  obtain i where i: "bit_at k i" "\<forall>j<i. \<not> bit_at k j"
    using key_nonzero [OF assms] exists_least_iff [of "bit_at k"] by blast
  then have "key_lt_at (key_before k) k i" by (auto simp: key_lt_at_def bit_at_before)
  then show "key_before k < k" by (auto simp: key_less_iff)
  have "bit_at (key_before k) (Suc i)" using i by (simp add: bit_at_before)
  then show "order_bits (key_before k) \<noteq> []" by (rule key_positive)
qed

lemma after_greater: "k < key_after k"
  by (simp add: key_after_def increment_greater)

lemma greater_positive: "a < b \<Longrightarrow> order_bits b \<noteq> []"
  by (auto simp: key_less_iff key_lt_at_def dest: key_positive)

text \<open>
  \<open>key_between\<close> as its callers use it: total on ordered positive bounds, strictly between
  them, and positive again.
\<close>

lemma key_between_returns:
  assumes "\<And>l r. lo = Some l \<Longrightarrow> hi = Some r \<Longrightarrow> l < r"
    and "\<And>r. hi = Some r \<Longrightarrow> order_bits r \<noteq> []"
  shows "\<exists>k. key_between lo hi = Some k \<and> order_bits k \<noteq> [] \<and>
    (\<forall>l. lo = Some l \<longrightarrow> l < k) \<and> (\<forall>r. hi = Some r \<longrightarrow> k < r)"
proof (cases lo; cases hi)
  assume "lo = None" "hi = None"
  then show ?thesis by (simp add: key_half_def canonical.rep_eq strip_zeros_def)
next
  fix r assume "lo = None" "hi = Some r"
  then show ?thesis using before_less assms(2) by simp
next
  fix l assume "lo = Some l" "hi = None"
  then show ?thesis using after_greater greater_positive by auto
next
  fix l r assume "lo = Some l" "hi = Some r"
  then show ?thesis using between_loop_returns [of l "length (order_bits l) + 1" r] assms(1) greater_positive
    by fastforce
qed

section \<open>Initial labels\<close>

lemma width_loop_returns:
  assumes "n < usize_max" "c = min usize_max (2 ^ w)" "w \<le> 64"
  shows "\<exists>w'. width_loop w c n = Some w' \<and> n < 2 ^ w' \<and> w \<le> w'"
  using assms
proof (induction "64 - w" arbitrary: w c)
  case 0
  then have "w = 64" by simp
  with 0 show ?case by (subst width_loop.simps) (simp add: usize_max_def)
next
  case (Suc d)
  then have w: "w < 64" by simp
  show ?case
  proof (cases "c \<le> n")
    case True
    have "min usize_max (c * 2) = min usize_max (2 ^ Suc w)"
      using Suc.prems(2) by (auto simp: min_def)
    moreover have "d = 64 - Suc w" "Suc w \<le> 64" using w Suc.hyps(2) by simp_all
    ultimately obtain w' where "width_loop (Suc w) (min usize_max (c * 2)) n = Some w'" "n < 2 ^ w'" "Suc w \<le> w'"
      using Suc.hyps(1) [of "Suc w" "min usize_max (c * 2)"] Suc.prems(1) by blast
    with True show ?thesis by (subst width_loop.simps) auto
  next
    case False
    with Suc.prems show ?thesis by (subst width_loop.simps) auto
  qed
qed

lemma highest_difference:
  fixes a b :: nat
  assumes "a < b" "b < 2 ^ w"
  shows "\<exists>k<w. even (a div 2 ^ k) \<and> odd (b div 2 ^ k) \<and> (\<forall>j>k. a div 2 ^ j = b div 2 ^ j)"
proof -
  let ?P = "\<lambda>k. a div 2 ^ k \<noteq> b div 2 ^ k"
  have out: "\<not> ?P k" if "w \<le> k" for k
  proof -
    have "b < 2 ^ k" using assms(2) power_increasing [OF that, of "2 :: nat"] by linarith
    then show ?thesis using assms(1) by simp
  qed
  define k where "k = (GREATEST k. ?P k)"
  have P: "?P k" unfolding k_def
    by (rule GreatestI_nat [of _ 0 w]) (use assms(1) out in \<open>auto simp: not_less_eq_eq intro: nat_le_linear [THEN disjE]\<close>)
  have above: "a div 2 ^ j = b div 2 ^ j" if "k < j" for j
    using that Greatest_le_nat [of ?P j w] out unfolding k_def by (metis nat_le_linear not_le)
  have "k < w" using P out by (metis not_le)
  have half: "a div 2 ^ k div 2 = b div 2 ^ k div 2" using above [of "Suc k"] unfolding power_Suc2 div_mult2_eq by simp
  moreover have "a div 2 ^ k \<le> b div 2 ^ k" using assms(1) by (simp add: div_le_mono)
  moreover have "x div 2 = y div 2 \<Longrightarrow> x \<le> y \<Longrightarrow> x \<noteq> y \<Longrightarrow> even x \<and> odd y" for x y :: nat
    by presburger
  ultimately have "even (a div 2 ^ k) \<and> odd (b div 2 ^ k)" using P by blast
  with \<open>k < w\<close> above show ?thesis by blast
qed

lemma key_initial_bits:
  "width_loop 0 1 n = Some w \<Longrightarrow> \<exists>k. key_initial ordinal n = Some k \<and>
     (\<forall>i. bit_at k i \<longleftrightarrow> i < w \<and> odd ((ordinal + 1) div 2 ^ (w - 1 - i)))"
  by (auto simp: key_initial_def bit_at_canonical bitf_def rev_map [symmetric] rev_nth)

lemma key_initial_ascending:
  assumes "n < usize_max"
  shows "\<exists>key. (\<forall>i<n. key_initial i n = Some (key i) \<and> order_bits (key i) \<noteq> []) \<and>
    (\<forall>j<n. \<forall>i<j. key i < key j)"
proof -
  obtain w where w: "width_loop 0 1 n = Some w" "n < 2 ^ w"
    using width_loop_returns [OF assms, of 1 0] by (auto simp: usize_max_def)
  define key where "key i = the (key_initial i n)" for i
  have key: "key_initial i n = Some (key i)"
    "bit_at (key i) j \<longleftrightarrow> j < w \<and> odd ((i + 1) div 2 ^ (w - 1 - j))" for i j
  proof -
    obtain k where "key_initial i n = Some k" "\<forall>j. bit_at k j \<longleftrightarrow> j < w \<and> odd ((i + 1) div 2 ^ (w - 1 - j))"
      using key_initial_bits [OF w(1), of i] by blast
    then show "key_initial i n = Some (key i)" "bit_at (key i) j \<longleftrightarrow> j < w \<and> odd ((i + 1) div 2 ^ (w - 1 - j))"
      by (simp_all only: key_def option.sel)
  qed
  have lt: "\<exists>d. (\<forall>e<d. odd (a div 2 ^ (w - 1 - e)) = odd (b div 2 ^ (w - 1 - e))) \<and> d < w \<and>
      even (a div 2 ^ (w - 1 - d)) \<and> odd (b div 2 ^ (w - 1 - d))"
    if "a < b" "b \<le> n" for a b
  proof -
    have "b < 2 ^ w" using that w(2) by simp
    from highest_difference [OF that(1) this] obtain k where
      k: "k < w" "even (a div 2 ^ k)" "odd (b div 2 ^ k)" "\<forall>j>k. a div 2 ^ j = b div 2 ^ j"
      by blast
    have "k < w - 1 - e" if "e < w - 1 - k" for e using that by simp
    moreover have "w - 1 - (w - 1 - k) = k" using k(1) by simp
    ultimately show ?thesis using k by (intro exI [of _ "w - 1 - k"]) auto
  qed
  have "order_bits (key i) \<noteq> []" if "i < n" for i
  proof -
    from lt [of 0 "i + 1"] that obtain d where "d < w" "odd ((i + 1) div 2 ^ (w - 1 - d))" by auto
    then have "bit_at (key i) d" unfolding key(2) by blast
    then show ?thesis by (rule key_positive)
  qed
  moreover have "key i < key j" if "j < n" "i < j" for i j
  proof -
    from lt [of "i + 1" "j + 1"] that obtain d where "(\<forall>e<d. odd ((i + 1) div 2 ^ (w - 1 - e)) = odd ((j + 1) div 2 ^ (w - 1 - e)))" "d < w"
        "even ((i + 1) div 2 ^ (w - 1 - d))" "odd ((j + 1) div 2 ^ (w - 1 - d))"
      by auto
    then have "key_lt_at (key i) (key j) d" unfolding key_lt_at_def key(2) by blast
    then show ?thesis by (auto simp: key_less_iff)
  qed
  ultimately show ?thesis using key(1) by blast
qed

end
