(* ===== verification/Tape_Node.thy ===== *)
theory Tape_Node
  imports Leaf_Order Radix_Map Sequence_Spec
begin

text \<open>
  The nodes of \<^verbatim>\<open>StableTape\<close> (\<^verbatim>\<open>src/framework/tape.rs\<close>): the metric carried by every
  subtree, the checked node-id allocator, leaves and branches with everything they cache,
  and the two constructors \<open>make_leaf\<close> and \<open>make_branch\<close>.

  The allocator is threaded explicitly and an operation that panics is \<open>None\<close>: the
  checked additions of the metric, of the lengths and of the allocator are all modelled,
  and so are the debug assertions, so that an operation shown to return never trips one.
  \<open>runs a n r Q\<close> says that \<open>r\<close>, started in allocator state \<open>a\<close>, returns and satisfies
  \<open>Q\<close> provided that \<open>n\<close> ids are left, and that it takes at most \<open>n\<close>.
\<close>

section \<open>Metrics\<close>

type_synonym exact_hash = "64 word"

definition hash_combine :: "exact_hash \<Rightarrow> exact_hash \<Rightarrow> nat \<Rightarrow> exact_hash" where
  "hash_combine l r left_len =
     (let v0 = xor (xor l (word_rotl 23 r)) (word_rotl 41 (word_of_nat left_len));
          v1 = xor v0 (drop_bit 30 v0);
          v2 = v1 * 0xbf58476d1ce4e5b9;
          v3 = xor v2 (drop_bit 27 v2);
          v4 = v3 * 0x94d049bb133111eb
      in xor v4 (drop_bit 31 v4))"

record sequence_metric =
  lexical_count :: nat
  semantic_count :: nat
  source_bytes :: nat
  structural_hash :: exact_hash

definition metric_default :: sequence_metric where
  "metric_default = \<lparr>lexical_count = 0, semantic_count = 0, source_bytes = 0, structural_hash = 0\<rparr>"

definition metric_lexical :: "nat \<Rightarrow> exact_hash \<Rightarrow> sequence_metric" where
  "metric_lexical bytes h =
     \<lparr>lexical_count = 1, semantic_count = 0, source_bytes = bytes, structural_hash = h\<rparr>"

definition metric_semantic :: "nat \<Rightarrow> exact_hash \<Rightarrow> sequence_metric" where
  "metric_semantic bytes h =
     \<lparr>lexical_count = 1, semantic_count = 1, source_bytes = bytes, structural_hash = h\<rparr>"

definition metric_add :: "sequence_metric \<Rightarrow> sequence_metric \<Rightarrow> sequence_metric option" where
  "metric_add l r = do {
     lex \<leftarrow> checked_add_u64 (lexical_count l) (lexical_count r);
     sem \<leftarrow> checked_add_u64 (semantic_count l) (semantic_count r);
     byt \<leftarrow> checked_add_u64 (source_bytes l) (source_bytes r);
     Some \<lparr>lexical_count = lex, semantic_count = sem, source_bytes = byt,
           structural_hash = hash_combine (structural_hash l) (structural_hash r) (lexical_count l)\<rparr>
   }"

text \<open>The trait \<^verbatim>\<open>TapeEntry\<close>, and its implementation for \<^verbatim>\<open>usize\<close>.\<close>

record 'e entry_ops =
  stable_id :: "'e \<Rightarrow> u64"
  entry_metric :: "'e \<Rightarrow> sequence_metric"

definition usize_entry_ops :: "nat entry_ops" where
  "usize_entry_ops = \<lparr>stable_id = word_of_nat, entry_metric = (\<lambda>v. metric_lexical 1 (word_of_nat v))\<rparr>"

text \<open>\<^verbatim>\<open>fold(default, |metric, entry| metric.add(&entry.metric()))\<close>, from a given start.\<close>

fun fold_metric :: "'e entry_ops \<Rightarrow> sequence_metric \<Rightarrow> 'e list \<Rightarrow> sequence_metric option" where
  "fold_metric ops m [] = Some m"
| "fold_metric ops m (e # es) = do { m' \<leftarrow> metric_add m (entry_metric ops e); fold_metric ops m' es }"

section \<open>The allocator\<close>

record tape_id_allocator =
  next_id :: nat
  created :: nat

definition allocator_new :: tape_id_allocator where
  "allocator_new = \<lparr>next_id = 1, created = 0\<rparr>"

definition next_serial :: "tape_id_allocator \<Rightarrow> nat" where
  "next_serial a = next_id a"

definition created_since :: "tape_id_allocator \<Rightarrow> nat \<Rightarrow> nat" where
  "created_since a checkpoint = created a - checkpoint"

definition allocator_checkpoint :: "tape_id_allocator \<Rightarrow> nat" where
  "allocator_checkpoint a = created a"

definition allocate :: "tape_id_allocator \<Rightarrow> (nat \<times> tape_id_allocator) option" where
  "allocate a = do {
     n \<leftarrow> checked_add_u64 (next_id a) 1;
     c \<leftarrow> checked_add_u64 (created a) 1;
     Some (next_id a, a\<lparr>next_id := n, created := c\<rparr>)
   }"

section \<open>Nodes\<close>

record 'e tape_leaf =
  leaf_id :: nat
  leaf_order :: leaf_order_key
  leaf_entries :: "'e list"
  leaf_metric :: sequence_metric

text \<open>
  A branch has the fields \<open>id\<close>, \<open>left\<close>, \<open>right\<close>, \<open>len\<close>, \<open>height\<close>, \<open>metric\<close>,
  \<open>first_order\<close> and \<open>last_order\<close>, in the order of the source.
\<close>

datatype 'e tape_node =
    TLeaf "'e tape_leaf"
  | TBranch nat "'e tape_node" "'e tape_node" nat nat sequence_metric leaf_order_key leaf_order_key

definition LEAF_MAX :: nat where
  "LEAF_MAX = 64"

fun node_id :: "'e tape_node \<Rightarrow> nat" where
  "node_id (TLeaf x) = leaf_id x"
| "node_id (TBranch i _ _ _ _ _ _ _) = i"

fun node_len :: "'e tape_node \<Rightarrow> nat" where
  "node_len (TLeaf x) = length (leaf_entries x)"
| "node_len (TBranch _ _ _ n _ _ _ _) = n"

fun node_height :: "'e tape_node \<Rightarrow> nat" where
  "node_height (TLeaf _) = 1"
| "node_height (TBranch _ _ _ _ h _ _ _) = h"

fun node_metric :: "'e tape_node \<Rightarrow> sequence_metric" where
  "node_metric (TLeaf x) = leaf_metric x"
| "node_metric (TBranch _ _ _ _ _ m _ _) = m"

fun first_order :: "'e tape_node \<Rightarrow> leaf_order_key" where
  "first_order (TLeaf x) = leaf_order x"
| "first_order (TBranch _ _ _ _ _ _ f _) = f"

fun last_order :: "'e tape_node \<Rightarrow> leaf_order_key" where
  "last_order (TLeaf x) = leaf_order x"
| "last_order (TBranch _ _ _ _ _ _ _ g) = g"

definition make_leaf :: "'e entry_ops \<Rightarrow> 'e list \<Rightarrow> leaf_order_key \<Rightarrow> tape_id_allocator \<Rightarrow>
    ('e tape_node \<times> tape_id_allocator) option" where
  "make_leaf ops es order a =
     (if es = [] \<or> LEAF_MAX < length es then None else do {
        metric \<leftarrow> fold_metric ops metric_default es;
        (i, a) \<leftarrow> allocate a;
        Some (TLeaf \<lparr>leaf_id = i, leaf_order = order, leaf_entries = es, leaf_metric = metric\<rparr>, a)
      })"

definition make_branch :: "'e tape_node \<Rightarrow> 'e tape_node \<Rightarrow> tape_id_allocator \<Rightarrow>
    ('e tape_node \<times> tape_id_allocator) option" where
  "make_branch l r a =
     (if \<not> last_order l < first_order r then None else do {
        (i, a) \<leftarrow> allocate a;
        n \<leftarrow> checked_add_u64 (node_len l) (node_len r);
        metric \<leftarrow> metric_add (node_metric l) (node_metric r);
        Some (TBranch i l r n (sat_add_u16 (max (node_height l) (node_height r)) 1) metric
                (first_order l) (last_order r), a)
      })"

section \<open>Running with an allocator\<close>

definition id_room :: "tape_id_allocator \<Rightarrow> nat \<Rightarrow> bool" where
  "id_room a n \<longleftrightarrow> next_id a + n \<le> usize_max \<and> created a + n \<le> usize_max"

definition id_spends :: "tape_id_allocator \<Rightarrow> nat \<Rightarrow> tape_id_allocator \<Rightarrow> bool" where
  "id_spends a n a' \<longleftrightarrow> (\<exists>k\<le>n. next_id a' = next_id a + k \<and> created a' = created a + k)"

definition runs :: "tape_id_allocator \<Rightarrow> nat \<Rightarrow> ('x \<times> tape_id_allocator) option \<Rightarrow>
    ('x \<Rightarrow> tape_id_allocator \<Rightarrow> bool) \<Rightarrow> bool" where
  "runs a n r Q \<longleftrightarrow> (id_room a n \<longrightarrow> (\<exists>x a'. r = Some (x, a') \<and> id_spends a n a' \<and> Q x a'))"

lemma id_spends_trans: "id_spends a m a' \<Longrightarrow> id_spends a' n a'' \<Longrightarrow> id_spends a (m + n) a''"
  unfolding id_spends_def by (metis add.assoc add_mono)

lemma id_spends_mono: "id_spends a m a' \<Longrightarrow> m \<le> n \<Longrightarrow> id_spends a n a'"
  unfolding id_spends_def by (meson le_trans)

lemma id_spends_refl [simp]: "id_spends a n a"
  by (auto simp: id_spends_def)

lemma id_spends_le [dest]: "id_spends a n a' \<Longrightarrow> next_id a \<le> next_id a'"
  by (auto simp: id_spends_def)

lemma id_room_spends: "id_room a (m + n) \<Longrightarrow> id_spends a m a' \<Longrightarrow> id_room a' n"
  by (auto simp: id_room_def id_spends_def)

lemma id_room_less: "id_room a n \<Longrightarrow> m \<le> n \<Longrightarrow> id_room a m"
  by (simp add: id_room_def)

lemma runs_return: "Q x a \<Longrightarrow> runs a n (Some (x, a)) Q"
  by (simp add: runs_def)

lemma runs_bind:
  assumes "runs a m r Q"
    and "\<And>x a'. Q x a' \<Longrightarrow> next_id a \<le> next_id a' \<Longrightarrow> runs a' k (f (x, a')) R"
    and "m + k \<le> n"
  shows "runs a n (Option.bind r f) R"
  unfolding runs_def
proof
  assume room: "id_room a n"
  then have "id_room a m" "id_room a (m + k)" using assms(3) id_room_less by auto
  then obtain x a1 where 1: "r = Some (x, a1)" "id_spends a m a1" "Q x a1"
    using assms(1) unfolding runs_def by blast
  then obtain y a2 where 2: "f (x, a1) = Some (y, a2)" "id_spends a1 k a2" "R y a2"
    using assms(2) id_room_spends [OF \<open>id_room a (m + k)\<close>] unfolding runs_def by blast
  from 1 2 show "\<exists>x a'. Option.bind r f = Some (x, a') \<and> id_spends a n a' \<and> R x a'"
    using id_spends_mono [OF id_spends_trans [OF 1(2) 2(2)] assms(3)] by auto
qed

lemma runs_post:
  assumes "runs a m r Q" "m \<le> n" "\<And>x a'. Q x a' \<Longrightarrow> next_id a \<le> next_id a' \<Longrightarrow> R x a'"
  shows "runs a n r R"
  unfolding runs_def
proof
  assume "id_room a n"
  then obtain x a' where "r = Some (x, a')" "id_spends a m a'" "Q x a'"
    using assms(1,2) id_room_less unfolding runs_def by blast
  then show "\<exists>x a'. r = Some (x, a') \<and> id_spends a n a' \<and> R x a'"
    using assms(2,3) id_spends_mono id_spends_le by blast
qed

lemma runsD: "runs a n r Q \<Longrightarrow> id_room a n \<Longrightarrow> \<exists>x a'. r = Some (x, a') \<and> id_spends a n a' \<and> Q x a'"
  by (simp add: runs_def)

lemma allocate_runs: "runs a 1 (allocate a) (\<lambda>i a'. i = next_id a \<and> next_id a' = Suc (next_id a))"
  by (auto simp: runs_def allocate_def id_room_def id_spends_def)

section \<open>Well-formed nodes\<close>

text \<open>The leaves of a node from left to right, and its entries.\<close>

fun node_leaves :: "'e tape_node \<Rightarrow> 'e tape_leaf list" where
  "node_leaves (TLeaf x) = [x]"
| "node_leaves (TBranch _ l r _ _ _ _ _) = node_leaves l @ node_leaves r"

definition entries_of :: "'e tape_leaf list \<Rightarrow> 'e list" where
  "entries_of L = concat (map leaf_entries L)"

abbreviation node_entries :: "'e tape_node \<Rightarrow> 'e list" where
  "node_entries n \<equiv> entries_of (node_leaves n)"

lemma entries_of_simps [simp]:
  "entries_of [] = []" "entries_of (x # L) = leaf_entries x @ entries_of L"
  "entries_of (L @ M) = entries_of L @ entries_of M"
  by (simp_all add: entries_of_def)

text \<open>The bounds of the machine on a list of entries.\<close>

abbreviation entry_sum :: "'e entry_ops \<Rightarrow> (sequence_metric \<Rightarrow> nat) \<Rightarrow> 'e list \<Rightarrow> nat" where
  "entry_sum ops f es \<equiv> sum_list (map (\<lambda>e. f (entry_metric ops e)) es)"

definition fits :: "'e entry_ops \<Rightarrow> 'e list \<Rightarrow> bool" where
  "fits ops es \<longleftrightarrow> length es \<le> usize_max \<and> entry_sum ops lexical_count es \<le> usize_max \<and>
     entry_sum ops semantic_count es \<le> usize_max \<and> entry_sum ops source_bytes es \<le> usize_max"

lemma fits_append: "fits ops (xs @ ys) \<Longrightarrow> fits ops xs" "fits ops (xs @ ys) \<Longrightarrow> fits ops ys"
  by (auto simp: fits_def)

lemma fits_Nil [simp]: "fits ops []"
  by (simp add: fits_def)

text \<open>Leaves that can stand in one tree: ascending labels, and totals within the bounds.\<close>

definition span_ok :: "'e entry_ops \<Rightarrow> 'e tape_leaf list \<Rightarrow> bool" where
  "span_ok ops L \<longleftrightarrow> sorted_wrt (<) (map leaf_order L) \<and> fits ops (entries_of L)"

lemma span_ok_append: "span_ok ops (L @ M) \<Longrightarrow> span_ok ops L" "span_ok ops (L @ M) \<Longrightarrow> span_ok ops M"
  unfolding span_ok_def by (auto simp: sorted_wrt_append dest: fits_append)

lemma span_ok_outer: "span_ok ops (L @ M @ N) \<Longrightarrow> span_ok ops (L @ N)"
  unfolding span_ok_def by (auto simp: sorted_wrt_append fits_def)

lemma span_ok_less: "span_ok ops (L @ M) \<Longrightarrow> x \<in> set L \<Longrightarrow> y \<in> set M \<Longrightarrow> leaf_order x < leaf_order y"
  unfolding span_ok_def by (auto simp: sorted_wrt_append)

text \<open>The counts of a metric (the hash depends on the shape of the tree and is not one).\<close>

definition counts_are :: "'e entry_ops \<Rightarrow> 'e list \<Rightarrow> sequence_metric \<Rightarrow> bool" where
  "counts_are ops es m \<longleftrightarrow> lexical_count m = entry_sum ops lexical_count es \<and>
     semantic_count m = entry_sum ops semantic_count es \<and> source_bytes m = entry_sum ops source_bytes es"

fun node_ok :: "'e entry_ops \<Rightarrow> nat \<Rightarrow> 'e tape_node \<Rightarrow> bool" where
  "node_ok ops k (TLeaf x) \<longleftrightarrow> leaf_id x < k \<and> leaf_entries x \<noteq> [] \<and> length (leaf_entries x) \<le> LEAF_MAX \<and>
     order_bits (leaf_order x) \<noteq> [] \<and> fold_metric ops metric_default (leaf_entries x) = Some (leaf_metric x)"
| "node_ok ops k (TBranch i l r n h m f g) \<longleftrightarrow> i < k \<and> node_ok ops k l \<and> node_ok ops k r \<and>
     n = node_len l + node_len r \<and> h = sat_add_u16 (max (node_height l) (node_height r)) 1 \<and>
     metric_add (node_metric l) (node_metric r) = Some m \<and>
     f = first_order l \<and> g = last_order r \<and> last_order l < first_order r"

text \<open>
  The balance of the rope is a property of its own: the operations preserve it, but the
  initial construction does not establish it.
\<close>

fun node_balanced :: "'e tape_node \<Rightarrow> bool" where
  "node_balanced (TLeaf x) \<longleftrightarrow> True"
| "node_balanced (TBranch i l r n h m f g) \<longleftrightarrow> node_balanced l \<and> node_balanced r \<and>
     node_height l \<le> node_height r + 1 \<and> node_height r \<le> node_height l + 1"

lemma node_ok_mono: "node_ok ops k n \<Longrightarrow> k \<le> k' \<Longrightarrow> node_ok ops k' n"
  by (induction n) auto

lemma node_height_pos [simp]: "node_ok ops k n \<Longrightarrow> Suc 0 \<le> node_height n"
  by (cases n) (auto simp: sat_add_u16_def)

lemma node_height_branch:
  "node_ok ops k (TBranch i l r n h m f g) \<Longrightarrow> 2 \<le> h"
  using node_height_pos [of ops k l] by (auto simp: sat_add_u16_def)

lemma node_len_entries: "node_ok ops k n \<Longrightarrow> node_len n = length (node_entries n)"
  by (induction n) auto

lemma node_leaves_nonempty [simp]: "node_leaves n \<noteq> []"
  by (induction n) auto

lemma node_entries_nonempty: "node_ok ops k n \<Longrightarrow> node_entries n \<noteq> []"
  by (induction n) auto

lemma first_order_hd: "node_ok ops k n \<Longrightarrow> first_order n = leaf_order (hd (node_leaves n))"
  by (induction n) auto

lemma last_order_last: "node_ok ops k n \<Longrightarrow> last_order n = leaf_order (last (node_leaves n))"
  by (induction n) auto

lemma node_first_last: "node_ok ops k n \<Longrightarrow>
    \<exists>x \<in> set (node_leaves n). first_order n = leaf_order x"
  "node_ok ops k n \<Longrightarrow> \<exists>x \<in> set (node_leaves n). last_order n = leaf_order x"
  by (force simp: first_order_hd, force simp: last_order_last)

lemma fold_metric_counts:
  "fold_metric ops m es = Some m' \<Longrightarrow>
     lexical_count m' = lexical_count m + entry_sum ops lexical_count es \<and>
     semantic_count m' = semantic_count m + entry_sum ops semantic_count es \<and>
     source_bytes m' = source_bytes m + entry_sum ops source_bytes es"
proof (induction es arbitrary: m)
  case (Cons e es)
  then obtain m1 where m1: "metric_add m (entry_metric ops e) = Some m1" "fold_metric ops m1 es = Some m'"
    by (auto split: Option.bind_splits)
  from m1(1) have "lexical_count m1 = lexical_count m + lexical_count (entry_metric ops e)"
    "semantic_count m1 = semantic_count m + semantic_count (entry_metric ops e)"
    "source_bytes m1 = source_bytes m + source_bytes (entry_metric ops e)"
    by (auto simp: metric_add_def checked_add_u64_def split: Option.bind_splits if_splits)
  with Cons.IH [OF m1(2)] show ?case by simp
qed simp

lemma fold_metric_returns:
  "lexical_count m + entry_sum ops lexical_count es \<le> usize_max \<Longrightarrow>
   semantic_count m + entry_sum ops semantic_count es \<le> usize_max \<Longrightarrow>
   source_bytes m + entry_sum ops source_bytes es \<le> usize_max \<Longrightarrow>
   \<exists>m'. fold_metric ops m es = Some m'"
proof (induction es arbitrary: m)
  case (Cons e es)
  then obtain m1 where m1: "metric_add m (entry_metric ops e) = Some m1"
    "lexical_count m1 = lexical_count m + lexical_count (entry_metric ops e)"
    "semantic_count m1 = semantic_count m + semantic_count (entry_metric ops e)"
    "source_bytes m1 = source_bytes m + source_bytes (entry_metric ops e)"
    by (simp add: metric_add_def)
  then show ?case using Cons.IH [of m1] Cons.prems by simp
qed simp

lemma node_metric_counts: "node_ok ops k n \<Longrightarrow> counts_are ops (node_entries n) (node_metric n)"
proof (induction n)
  case (TLeaf x)
  then show ?case using fold_metric_counts [of ops metric_default "leaf_entries x" "leaf_metric x"]
    by (simp add: counts_are_def metric_default_def)
next
  case (TBranch i l r n h m f g)
  then have "counts_are ops (node_entries l) (node_metric l)" "counts_are ops (node_entries r) (node_metric r)"
    "metric_add (node_metric l) (node_metric r) = Some m" by auto
  then show ?case
    by (auto simp: counts_are_def metric_add_def checked_add_u64_def split: Option.bind_splits if_splits)
qed

text \<open>The labels of a well-formed node ascend.\<close>

lemma sorted_first_last:
  "sorted_wrt (<) (xs :: 'a :: linorder list) \<Longrightarrow> x \<in> set xs \<Longrightarrow> hd xs \<le> x \<and> x \<le> last xs"
  by (induction xs) (auto intro: less_imp_le)

lemma node_leaves_sorted: "node_ok ops k n \<Longrightarrow> sorted_wrt (<) (map leaf_order (node_leaves n))"
proof (induction n)
  case (TBranch i l r n h m f g)
  then have s: "sorted_wrt (<) (map leaf_order (node_leaves l))" "sorted_wrt (<) (map leaf_order (node_leaves r))"
    and b: "last (map leaf_order (node_leaves l)) < hd (map leaf_order (node_leaves r))"
    by (auto simp: first_order_hd last_order_last hd_map last_map)
  have "leaf_order x < leaf_order y" if "x \<in> set (node_leaves l)" "y \<in> set (node_leaves r)" for x y
    using sorted_first_last [OF s(1), of "leaf_order x"] sorted_first_last [OF s(2), of "leaf_order y"] b that
    by fastforce
  then show ?case using s by (simp add: sorted_wrt_append)
qed simp

lemma node_span_ok: "node_ok ops k n \<Longrightarrow> fits ops (node_entries n) \<Longrightarrow> span_ok ops (node_leaves n)"
  by (simp add: span_ok_def node_leaves_sorted)

text \<open>
  In a balanced node the height is logarithmic in the number of entries, hence at most 128
  on the machine, where the saturating addition is exact.
\<close>

lemma node_height_entries:
  "node_ok ops k n \<Longrightarrow> node_balanced n \<Longrightarrow> 2 ^ ((node_height n - 1) div 2) \<le> length (node_entries n)"
proof (induction n)
  case (TLeaf x)
  then show ?case by (simp add: Suc_leI)
next
  case (TBranch i l r n h m f g)
  then have len: "2 ^ ((node_height l - 1) div 2) \<le> length (node_entries l)"
    "2 ^ ((node_height r - 1) div 2) \<le> length (node_entries r)"
    and hs: "h \<le> max (node_height l) (node_height r) + 1" "node_height l \<le> node_height r + 1"
      "node_height r \<le> node_height l + 1" "Suc 0 \<le> node_height l" "Suc 0 \<le> node_height r"
    by (auto simp: sat_add_u16_def)
  have pos: "length (node_entries l) \<ge> 1" "length (node_entries r) \<ge> 1"
    using TBranch.prems by (auto dest: node_entries_nonempty simp: Suc_le_eq)
  show ?case
  proof (cases "h \<le> 2")
    case True
    then have "(h - 1) div 2 = 0" by simp
    then show ?thesis using pos by simp
  next
    case False
    then obtain d where d: "(h - 1) div 2 = Suc d" by (cases "(h - 1) div 2") auto
    have "d \<le> (node_height l - 1) div 2" "d \<le> (node_height r - 1) div 2" using d hs by linarith+
    then have "2 ^ d \<le> length (node_entries l)" "2 ^ d \<le> length (node_entries r)"
      using len by (meson le_trans one_le_numeral power_increasing)+
    then show ?thesis using d by simp
  qed
qed

lemma node_height_le:
  assumes "node_ok ops k n" "node_balanced n" "fits ops (node_entries n)"
  shows "node_height n \<le> 128"
proof (rule ccontr)
  assume "\<not> ?thesis"
  then have "64 \<le> (node_height n - 1) div 2" by simp
  then have "(2 :: nat) ^ 64 \<le> 2 ^ ((node_height n - 1) div 2)" by (rule power_increasing) simp
  also have "\<dots> \<le> usize_max" using node_height_entries [OF assms(1,2)] assms(3) by (simp add: fits_def)
  finally show False by (simp add: usize_max_def)
qed

section \<open>The constructors\<close>

lemma make_leaf_runs:
  assumes "es \<noteq> []" "length es \<le> LEAF_MAX" "fits ops es" "order_bits order \<noteq> []"
  shows "runs a 1 (make_leaf ops es order a) (\<lambda>t a'. node_ok ops (next_id a') t \<and> node_height t = 1 \<and>
    node_balanced t \<and> (\<exists>x. node_leaves t = [x] \<and> leaf_order x = order \<and> leaf_entries x = es))"
proof -
  obtain m where "fold_metric ops metric_default es = Some m"
    using fold_metric_returns [of metric_default ops es] assms(3) by (auto simp: metric_default_def fits_def)
  then show ?thesis using assms unfolding make_leaf_def
    by (auto intro!: runs_bind [OF allocate_runs] runs_return)
qed

text \<open>
  In this lemma and those of the operations built on it, \<open>b\<close> stands for the balance of the
  arguments, so that one proof covers both what holds of any tape and what holds of a
  balanced one.
\<close>

lemma make_branch_runs:
  assumes "node_ok ops k l" "node_ok ops k r" "k \<le> next_id a" "span_ok ops (node_leaves l @ node_leaves r)"
    and b: "b \<Longrightarrow> node_balanced l \<and> node_balanced r \<and>
      node_height l \<le> node_height r + 1 \<and> node_height r \<le> node_height l + 1"
  shows "runs a 1 (make_branch l r a) (\<lambda>t a'. node_ok ops (next_id a') t \<and>
    node_leaves t = node_leaves l @ node_leaves r \<and>
    (b \<longrightarrow> node_balanced t \<and> node_height t = max (node_height l) (node_height r) + 1))"
proof -
  have fit: "fits ops (node_entries l @ node_entries r)" using assms(4) by (simp add: span_ok_def)
  have h: "sat_add_u16 (max (node_height l) (node_height r)) 1 = max (node_height l) (node_height r) + 1" if b
  proof -
    have "node_height l \<le> 128" "node_height r \<le> 128"
      using node_height_le assms(1,2) b [OF that] fits_append [OF fit] by blast+
    then show ?thesis by (simp add: sat_add_u16_def)
  qed
  have o: "last_order l < first_order r"
    using assms(1,2,4) node_first_last by (metis span_ok_less)
  have n: "checked_add_u64 (node_len l) (node_len r) = Some (node_len l + node_len r)"
    using fit node_len_entries [OF assms(1)] node_len_entries [OF assms(2)] by (simp add: fits_def)
  obtain m where m: "metric_add (node_metric l) (node_metric r) = Some m"
    using fit node_metric_counts [OF assms(1)] node_metric_counts [OF assms(2)]
    by (simp add: fits_def counts_are_def metric_add_def)
  show ?thesis unfolding make_branch_def using assms o n m h
    by (auto intro!: runs_bind [OF allocate_runs] runs_return elim!: node_ok_mono)
qed

end
