(* ===== verification/Tape_Reads.thy ===== *)
theory Tape_Reads
  imports Tape_Node
begin

text \<open>
  The reads of \<^verbatim>\<open>StableTape\<close> (\<^verbatim>\<open>src/framework/tape.rs\<close>): lookup by rank, metrics of a
  prefix, byte-to-rank search, exact equality, the lazy iterators and the cursor. The
  lemmas state each of them on the list of entries of a well-formed node.
  A stack is a list with its top first. Pointer identity is a parameter \<open>ptr_eq\<close>, of which
  the lemmas only use that identical pointers lead to identical nodes.
\<close>

section \<open>The tape\<close>

record 'e stable_tape =
  tape_root :: "'e tape_node option"

definition tape_new :: "'e stable_tape" where
  "tape_new = \<lparr>tape_root = None\<rparr>"

definition tape_len :: "'e stable_tape \<Rightarrow> nat" where
  "tape_len t = (case tape_root t of None \<Rightarrow> 0 | Some n \<Rightarrow> node_len n)"

definition tape_is_empty :: "'e stable_tape \<Rightarrow> bool" where
  "tape_is_empty t \<longleftrightarrow> tape_root t = None"

definition tape_metric :: "'e stable_tape \<Rightarrow> sequence_metric" where
  "tape_metric t = (case tape_root t of None \<Rightarrow> metric_default | Some n \<Rightarrow> node_metric n)"

definition tape_root_id :: "'e stable_tape \<Rightarrow> nat option" where
  "tape_root_id t = map_option node_id (tape_root t)"

fun prefix_metric :: "'e entry_ops \<Rightarrow> 'e tape_node \<Rightarrow> nat \<Rightarrow> sequence_metric option" where
  "prefix_metric ops (TLeaf x) rank =
     fold_metric ops metric_default (take (min rank (length (leaf_entries x))) (leaf_entries x))"
| "prefix_metric ops (TBranch _ l r _ _ _ _ _) rank =
     (if rank \<le> node_len l then prefix_metric ops l rank
      else do { m \<leftarrow> prefix_metric ops r (rank - node_len l); metric_add (node_metric l) m })"

definition metric_before :: "'e entry_ops \<Rightarrow> 'e stable_tape \<Rightarrow> nat \<Rightarrow> sequence_metric option" where
  "metric_before ops t rank =
     (case tape_root t of None \<Rightarrow> Some metric_default | Some n \<Rightarrow> prefix_metric ops n (min rank (node_len n)))"

fun node_get :: "'e tape_node \<Rightarrow> nat \<Rightarrow> 'e option" where
  "node_get (TLeaf x) rank = nth_opt (leaf_entries x) rank"
| "node_get (TBranch _ l r _ _ _ _ _) rank =
     (if rank < node_len l then node_get l rank else node_get r (rank - node_len l))"

definition tape_get :: "'e stable_tape \<Rightarrow> nat \<Rightarrow> 'e option" where
  "tape_get t rank =
     (if tape_len t \<le> rank then None
      else case tape_root t of None \<Rightarrow> None | Some n \<Rightarrow> node_get n rank)"

section \<open>Byte to rank\<close>

text \<open>The loop over the entries of a leaf, and the descent; the result is \<open>(rank, depth)\<close>.\<close>

fun rank_in_leaf :: "'e entry_ops \<Rightarrow> 'e list \<Rightarrow> nat \<Rightarrow> nat \<Rightarrow> nat" where
  "rank_in_leaf ops [] remaining rank = rank"
| "rank_in_leaf ops (e # es) remaining rank =
     (let width = source_bytes (entry_metric ops e) in
      if remaining < width then rank else rank_in_leaf ops es (remaining - width) (rank + 1))"

fun rank_at_byte :: "'e entry_ops \<Rightarrow> 'e tape_node \<Rightarrow> nat \<Rightarrow> nat \<Rightarrow> nat \<Rightarrow> nat \<times> nat" where
  "rank_at_byte ops (TLeaf x) remaining rank depth = (rank_in_leaf ops (leaf_entries x) remaining rank, depth + 1)"
| "rank_at_byte ops (TBranch _ l r _ _ _ _ _) remaining rank depth =
     (let left_bytes = source_bytes (node_metric l) in
      if remaining < left_bytes then rank_at_byte ops l remaining rank (depth + 1)
      else rank_at_byte ops r (remaining - left_bytes) (rank + node_len l) (depth + 1))"

definition lexical_rank_at_byte_detailed :: "'e entry_ops \<Rightarrow> 'e stable_tape \<Rightarrow> nat \<Rightarrow> nat \<times> nat" where
  "lexical_rank_at_byte_detailed ops t byte_offset =
     (case tape_root t of None \<Rightarrow> (0, 0) | Some n \<Rightarrow> rank_at_byte ops n byte_offset 0 0)"

definition lexical_rank_at_byte :: "'e entry_ops \<Rightarrow> 'e stable_tape \<Rightarrow> nat \<Rightarrow> nat" where
  "lexical_rank_at_byte ops t byte_offset = fst (lexical_rank_at_byte_detailed ops t byte_offset)"

section \<open>The iterators\<close>

datatype 'e iter_frame = INode "'e tape_node" | ILeaf "'e list" nat

definition tape_iter :: "'e tape_node option \<Rightarrow> 'e iter_frame list" where
  "tape_iter r = (case r of None \<Rightarrow> [] | Some n \<Rightarrow> [INode n])"

fun iter_frame_steps :: "'e iter_frame \<Rightarrow> nat" where
  "iter_frame_steps (INode n) = 2 * size n"
| "iter_frame_steps (ILeaf _ _) = 1"

function tape_iter_next :: "'e iter_frame list \<Rightarrow> ('e \<times> 'e iter_frame list) option" where
  "tape_iter_next [] = None"
| "tape_iter_next (INode (TLeaf x) # fs) = tape_iter_next (ILeaf (leaf_entries x) 0 # fs)"
| "tape_iter_next (INode (TBranch _ l r _ _ _ _ _) # fs) = tape_iter_next (INode l # INode r # fs)"
| "tape_iter_next (ILeaf es i # fs) =
     (case nth_opt es i of
        None \<Rightarrow> None
      | Some v \<Rightarrow> Some (v, if i + 1 < length es then ILeaf es (i + 1) # fs else fs))"
  by pat_completeness auto
termination
proof (relation "measure (\<lambda>fs. sum_list (map iter_frame_steps fs))")
  have "0 < size n" for n :: "'e tape_node" by (cases n) simp_all
  then show "(ILeaf (leaf_entries x) 0 # fs, INode (TLeaf x) # fs) \<in> measure (\<lambda>fs. sum_list (map iter_frame_steps fs))"
    for x :: "'e tape_leaf" and fs by (cases x) simp
qed simp_all

fun iter_frame_list :: "'e iter_frame \<Rightarrow> 'e list" where
  "iter_frame_list (INode n) = node_entries n"
| "iter_frame_list (ILeaf es i) = drop i es"

abbreviation iter_list :: "'e iter_frame list \<Rightarrow> 'e list" where
  "iter_list fs \<equiv> concat (map iter_frame_list fs)"

lemma tape_iter_next_Some: "tape_iter_next fs = Some (v, fs') \<Longrightarrow> iter_list fs = v # iter_list fs'"
proof (induction fs rule: tape_iter_next.induct)
  case (4 es i fs)
  then show ?case by (auto simp: drop_eq_Cons_if_nth_opt split: option.splits if_splits)
qed simp_all

text \<open>\<^verbatim>\<open>iter().cloned().collect()\<close>.\<close>

function tape_iter_collect :: "'e iter_frame list \<Rightarrow> 'e list" where
  "tape_iter_collect fs = (case tape_iter_next fs of None \<Rightarrow> [] | Some (v, fs') \<Rightarrow> v # tape_iter_collect fs')"
  by pat_completeness auto
termination
  by (relation "measure (\<lambda>fs. length (iter_list fs))") (auto dest: tape_iter_next_Some)

declare tape_iter_collect.simps [simp del]

definition tape_to_vec :: "'e stable_tape \<Rightarrow> 'e list" where
  "tape_to_vec t = tape_iter_collect (tape_iter (tape_root t))"

text \<open>
  The range iterator expands the intersecting leaves when it is made; its frames are
  \<open>(entries, index, end)\<close>. \<^verbatim>\<open>push_intersection\<close> pushes the right child first.
\<close>

fun push_intersection :: "'e tape_node \<Rightarrow> nat \<Rightarrow> nat \<Rightarrow> nat \<Rightarrow> ('e list \<times> nat \<times> nat) list \<Rightarrow> ('e list \<times> nat \<times> nat) list" where
  "push_intersection (TLeaf x) base start stop stack =
     (if base + node_len (TLeaf x) \<le> start \<or> stop \<le> base then stack
      else let local_start = start - base; local_end = min (stop - base) (length (leaf_entries x)) in
        if local_start < local_end then (leaf_entries x, local_start, local_end) # stack else stack)"
| "push_intersection (TBranch i l r n h m f g) base start stop stack =
     (if base + n \<le> start \<or> stop \<le> base then stack
      else push_intersection l base start stop (push_intersection r (base + node_len l) start stop stack))"

definition tape_iter_range :: "'e stable_tape \<Rightarrow> nat \<Rightarrow> nat \<Rightarrow> ('e list \<times> nat \<times> nat) list" where
  "tape_iter_range t range_start range_end =
     (let start = min range_start (tape_len t);
          stop = max (min range_end (tape_len t)) start
      in if start < stop
         then (case tape_root t of None \<Rightarrow> [] | Some n \<Rightarrow> push_intersection n 0 start stop [])
         else [])"

fun range_next :: "('e list \<times> nat \<times> nat) list \<Rightarrow> ('e \<times> ('e list \<times> nat \<times> nat) list) option" where
  "range_next [] = None"
| "range_next ((es, i, stop) # fs) =
     (case nth_opt es i of
        None \<Rightarrow> None
      | Some v \<Rightarrow> Some (v, if i + 1 < stop then (es, i + 1, stop) # fs else fs))"

fun range_frame_ok :: "'e list \<times> nat \<times> nat \<Rightarrow> bool" where
  "range_frame_ok (es, i, stop) \<longleftrightarrow> i < stop \<and> stop \<le> length es"

definition range_frame_list :: "'e list \<times> nat \<times> nat \<Rightarrow> 'e list" where
  "range_frame_list f = (case f of (es, i, stop) \<Rightarrow> drop i (take stop es))"

function range_collect :: "('e list \<times> nat \<times> nat) list \<Rightarrow> 'e list" where
  "range_collect fs = (case range_next fs of None \<Rightarrow> [] | Some (v, fs') \<Rightarrow> v # range_collect fs')"
  by pat_completeness auto
termination
  by (relation "measures [\<lambda>fs. length fs, \<lambda>fs. case fs of [] \<Rightarrow> 0 | (es, i, stop) # _ \<Rightarrow> length es - i]")
    (auto elim!: range_next.elims split: option.splits if_splits simp: nth_opt_def)

declare range_collect.simps [simp del]

section \<open>Equality\<close>

fun nodes_equal :: "('e tape_node \<Rightarrow> 'e tape_node \<Rightarrow> bool) \<Rightarrow> 'e tape_node \<Rightarrow> 'e tape_node \<Rightarrow> bool" where
  "nodes_equal ptr_eq (TLeaf x) (TLeaf y) \<longleftrightarrow>
     (if ptr_eq (TLeaf x) (TLeaf y) then True
      else if length (leaf_entries x) \<noteq> length (leaf_entries y) \<or> leaf_metric x \<noteq> leaf_metric y then False
      else leaf_entries x = leaf_entries y)"
| "nodes_equal ptr_eq (TBranch i l r n h m f g) (TBranch i' l' r' n' h' m' f' g') \<longleftrightarrow>
     (if ptr_eq (TBranch i l r n h m f g) (TBranch i' l' r' n' h' m' f' g') then True
      else if n \<noteq> n' \<or> m \<noteq> m' then False
      else nodes_equal ptr_eq l l' \<and> nodes_equal ptr_eq r r')"
| "nodes_equal ptr_eq a b \<longleftrightarrow>
     (if ptr_eq a b then True
      else if node_len a \<noteq> node_len b \<or> node_metric a \<noteq> node_metric b then False
      else tape_iter_collect (tape_iter (Some a)) = tape_iter_collect (tape_iter (Some b)))"

definition exact_eq :: "('e tape_node \<Rightarrow> 'e tape_node \<Rightarrow> bool) \<Rightarrow> 'e stable_tape \<Rightarrow> 'e stable_tape \<Rightarrow> bool" where
  "exact_eq ptr_eq s t \<longleftrightarrow>
     (case (tape_root s, tape_root t) of
        (None, None) \<Rightarrow> True
      | (Some a, Some b) \<Rightarrow> nodes_equal ptr_eq a b
      | _ \<Rightarrow> False)"

definition root_ptr_eq :: "('e tape_node \<Rightarrow> 'e tape_node \<Rightarrow> bool) \<Rightarrow> 'e stable_tape \<Rightarrow> 'e stable_tape \<Rightarrow> bool" where
  "root_ptr_eq ptr_eq s t \<longleftrightarrow>
     (case (tape_root s, tape_root t) of
        (None, None) \<Rightarrow> True
      | (Some a, Some b) \<Rightarrow> ptr_eq a b
      | _ \<Rightarrow> False)"

function node_shares :: "('e tape_node \<Rightarrow> 'e tape_node \<Rightarrow> bool) \<Rightarrow> 'e tape_node \<Rightarrow> 'e tape_node \<Rightarrow> bool" where
  "node_shares ptr_eq a b \<longleftrightarrow> ptr_eq a b \<or>
     (case (a, b) of
        (TBranch _ al ar _ _ _ _ _, TBranch _ bl br _ _ _ _ _) \<Rightarrow>
          node_shares ptr_eq al bl \<or> node_shares ptr_eq al br \<or> node_shares ptr_eq ar bl \<or> node_shares ptr_eq ar br
      | (TBranch _ al ar _ _ _ _ _, TLeaf _) \<Rightarrow> node_shares ptr_eq al b \<or> node_shares ptr_eq ar b
      | (TLeaf _, TBranch _ bl br _ _ _ _ _) \<Rightarrow> node_shares ptr_eq a bl \<or> node_shares ptr_eq a br
      | (TLeaf _, TLeaf _) \<Rightarrow> False)"
  by pat_completeness auto
termination
  by (relation "measure (\<lambda>(p, a, b). size a + size b)") auto

definition shares_subtree :: "('e tape_node \<Rightarrow> 'e tape_node \<Rightarrow> bool) \<Rightarrow> 'e stable_tape \<Rightarrow> 'e stable_tape \<Rightarrow> bool" where
  "shares_subtree ptr_eq s t \<longleftrightarrow>
     (case (tape_root s, tape_root t) of (Some a, Some b) \<Rightarrow> node_shares ptr_eq a b | _ \<Rightarrow> False)"

section \<open>Well-formed tapes\<close>

text \<open>The leaves and the entries of a tape; its invariant relative to the allocator.\<close>

definition leaves_opt :: "'e tape_node option \<Rightarrow> 'e tape_leaf list" where
  "leaves_opt t = (case t of None \<Rightarrow> [] | Some n \<Rightarrow> node_leaves n)"

lemma leaves_opt_simps [simp]: "leaves_opt None = []" "leaves_opt (Some n) = node_leaves n"
  by (simp_all add: leaves_opt_def)

definition opt_ok :: "'e entry_ops \<Rightarrow> nat \<Rightarrow> 'e tape_node option \<Rightarrow> bool" where
  "opt_ok ops k t \<longleftrightarrow> (\<forall>n. t = Some n \<longrightarrow> node_ok ops k n)"

lemma opt_ok_simps [simp]: "opt_ok ops k None" "opt_ok ops k (Some n) \<longleftrightarrow> node_ok ops k n"
  by (simp_all add: opt_ok_def)

lemma opt_ok_mono: "opt_ok ops k t \<Longrightarrow> k \<le> k' \<Longrightarrow> opt_ok ops k' t"
  by (auto simp: opt_ok_def intro: node_ok_mono)

definition tape_leaves :: "'e stable_tape \<Rightarrow> 'e tape_leaf list" where
  "tape_leaves t = leaves_opt (tape_root t)"

definition tape_list :: "'e stable_tape \<Rightarrow> 'e list" where
  "tape_list t = entries_of (tape_leaves t)"

definition tape_ok :: "'e entry_ops \<Rightarrow> tape_id_allocator \<Rightarrow> 'e stable_tape \<Rightarrow> bool" where
  "tape_ok ops a t \<longleftrightarrow> opt_ok ops (next_id a) (tape_root t) \<and> fits ops (tape_list t)"

lemma tape_leaves_simps [simp]:
  "tape_leaves \<lparr>tape_root = r\<rparr> = leaves_opt r" "tape_leaves tape_new = []"
  by (simp_all add: tape_leaves_def tape_new_def)

lemma tape_list_simps [simp]:
  "tape_list \<lparr>tape_root = r\<rparr> = entries_of (leaves_opt r)" "tape_list tape_new = []"
  by (simp_all add: tape_list_def)

lemma tape_ok_mono: "tape_ok ops a t \<Longrightarrow> next_id a \<le> next_id a' \<Longrightarrow> tape_ok ops a' t"
  by (auto simp: tape_ok_def intro: opt_ok_mono)

lemma tape_len_list: "tape_ok ops a t \<Longrightarrow> tape_len t = length (tape_list t)"
  by (auto simp: tape_ok_def tape_len_def tape_list_def tape_leaves_def node_len_entries split: option.splits)

lemma tape_empty_iff: "tape_ok ops a t \<Longrightarrow> tape_root t = None \<longleftrightarrow> tape_list t = []"
  by (cases "tape_root t") (auto simp: tape_ok_def tape_list_def tape_leaves_def node_entries_nonempty)

lemma tape_span_ok: "tape_ok ops a t \<Longrightarrow> span_ok ops (tape_leaves t)"
  by (cases "tape_root t") (auto simp: tape_ok_def tape_list_def tape_leaves_def span_ok_def intro: node_leaves_sorted)

lemma leaf_entries_count: "node_ok ops k n \<Longrightarrow> length (node_leaves n) \<le> length (node_entries n)"
  by (induction n) (auto simp: Suc_le_eq)

lemma tape_leaves_count: "tape_ok ops a t \<Longrightarrow> length (tape_leaves t) \<le> length (tape_list t)"
  by (cases "tape_root t") (auto simp: tape_ok_def tape_list_def tape_leaves_def leaf_entries_count)

section \<open>What the reads return\<close>

text \<open>The frames that the iterator leaves behind are well formed again.\<close>

definition iter_ok :: "'e entry_ops \<Rightarrow> nat \<Rightarrow> 'e iter_frame list \<Rightarrow> bool" where
  "iter_ok ops k fs \<longleftrightarrow> (\<forall>f \<in> set fs. case f of INode n \<Rightarrow> node_ok ops k n | ILeaf es i \<Rightarrow> i < length es)"

lemma tape_iter_next_None: "tape_iter_next fs = None \<Longrightarrow> iter_ok ops k fs \<Longrightarrow> fs = []"
  by (induction fs rule: tape_iter_next.induct) (auto simp: iter_ok_def nth_opt_def split: option.splits if_splits)

lemma tape_iter_next_ok: "tape_iter_next fs = Some (v, fs') \<Longrightarrow> iter_ok ops k fs \<Longrightarrow> iter_ok ops k fs'"
  by (induction fs rule: tape_iter_next.induct) (auto simp: iter_ok_def split: option.splits if_splits)

lemma tape_iter_collect_list: "iter_ok ops k fs \<Longrightarrow> tape_iter_collect fs = iter_list fs"
proof (induction fs rule: tape_iter_collect.induct)
  case (1 fs)
  show ?case
  proof (cases "tape_iter_next fs")
    case None
    then have "fs = []" by (rule tape_iter_next_None [OF _ "1.prems"])
    then show ?thesis by (subst tape_iter_collect.simps) simp
  next
    case (Some vf)
    then obtain v fs' where vf: "tape_iter_next fs = Some (v, fs')" by (cases vf) auto
    with 1 tape_iter_next_ok [OF vf "1.prems"] have "tape_iter_collect fs' = iter_list fs'" by auto
    then show ?thesis using vf tape_iter_next_Some [OF vf] by (subst tape_iter_collect.simps) simp
  qed
qed

lemma tape_to_vec_list: "tape_ok ops a t \<Longrightarrow> tape_to_vec t = tape_list t"
  using tape_iter_collect_list [of ops "next_id a" "tape_iter (tape_root t)"]
  by (cases "tape_root t") (auto simp: tape_ok_def tape_to_vec_def tape_iter_def iter_ok_def tape_list_def tape_leaves_def)

lemma node_get_list: "node_ok ops k n \<Longrightarrow> node_get n i = nth_opt (node_entries n) i"
  by (induction n arbitrary: i) (auto simp: node_len_entries)

lemma tape_get_list: "tape_ok ops a t \<Longrightarrow> tape_get t i = nth_opt (tape_list t) i"
  using tape_len_list [of ops a t]
  by (cases "tape_root t") (auto simp: tape_get_def tape_ok_def tape_list_def tape_leaves_def tape_len_def node_get_list)

text \<open>Byte search: the rank is that of the first entry that ends after the offset.\<close>

definition bytes_of :: "'e entry_ops \<Rightarrow> 'e list \<Rightarrow> nat" where
  "bytes_of ops es = entry_sum ops source_bytes es"

definition rank_spec :: "'e entry_ops \<Rightarrow> 'e list \<Rightarrow> nat \<Rightarrow> nat \<Rightarrow> bool" where
  "rank_spec ops es offset rank \<longleftrightarrow> rank \<le> length es \<and> bytes_of ops (take rank es) \<le> offset \<and>
     (rank < length es \<longrightarrow> offset < bytes_of ops (take (Suc rank) es))"

lemma bytes_of_simps [simp]:
  "bytes_of ops [] = 0" "bytes_of ops (e # es) = source_bytes (entry_metric ops e) + bytes_of ops es"
  "bytes_of ops (es @ fs) = bytes_of ops es + bytes_of ops fs"
  by (simp_all add: bytes_of_def)

lemma rank_in_leaf_spec: "\<exists>j. rank_in_leaf ops es remaining rank = rank + j \<and> rank_spec ops es remaining j"
proof (induction es arbitrary: remaining rank)
  case Nil
  then show ?case by (simp add: rank_spec_def)
next
  case (Cons e es)
  let ?w = "source_bytes (entry_metric ops e)"
  show ?case
  proof (cases "remaining < ?w")
    case True
    then show ?thesis by (intro exI [of _ 0]) (simp add: rank_spec_def Let_def)
  next
    case False
    then obtain j where "rank_in_leaf ops es (remaining - ?w) (rank + 1) = rank + 1 + j"
      "rank_spec ops es (remaining - ?w) j" using Cons.IH by blast
    then show ?thesis using False by (intro exI [of _ "Suc j"]) (auto simp: rank_spec_def Let_def)
  qed
qed

lemma rank_spec_append_left: "rank_spec ops es offset j \<Longrightarrow> offset < bytes_of ops es \<Longrightarrow> rank_spec ops (es @ fs) offset j"
  by (cases "j = length es") (auto simp: rank_spec_def)

lemma rank_spec_append_right:
  "rank_spec ops fs (offset - bytes_of ops es) j \<Longrightarrow> bytes_of ops es \<le> offset \<Longrightarrow>
    rank_spec ops (es @ fs) offset (length es + j)"
  by (auto simp: rank_spec_def Suc_diff_le)

lemma rank_at_byte_spec:
  "node_ok ops k n \<Longrightarrow> \<exists>j d. rank_at_byte ops n remaining rank depth = (rank + j, depth + d) \<and>
    rank_spec ops (node_entries n) remaining j \<and> 1 \<le> d"
proof (induction n arbitrary: remaining rank depth)
  case (TLeaf x)
  obtain j where "rank_in_leaf ops (leaf_entries x) remaining rank = rank + j" "rank_spec ops (leaf_entries x) remaining j"
    using rank_in_leaf_spec by blast
  then show ?case by auto
next
  case (TBranch i l r n h m f g)
  have l: "node_ok ops k l" "node_ok ops k r" using TBranch.prems by auto
  have b: "source_bytes (node_metric l) = bytes_of ops (node_entries l)"
    using node_metric_counts [OF l(1)] by (simp add: counts_are_def bytes_of_def)
  show ?case
  proof (cases "remaining < bytes_of ops (node_entries l)")
    case True
    then show ?thesis
      using TBranch.IH(1) [OF l(1), of remaining rank "depth + 1"] b
      by (auto simp: Let_def intro: rank_spec_append_left)
  next
    case False
    obtain j d where "rank_at_byte ops r (remaining - bytes_of ops (node_entries l)) (rank + node_len l) (depth + 1) =
        (rank + node_len l + j, depth + 1 + d)"
      "rank_spec ops (node_entries r) (remaining - bytes_of ops (node_entries l)) j"
      using TBranch.IH(2) [OF l(2)] by blast
    then show ?thesis using False b node_len_entries [OF l(1)] rank_spec_append_right [of ops "node_entries r" remaining "node_entries l" j]
      by (intro exI [of _ "node_len l + j"] exI [of _ "Suc d"]) (auto simp: Let_def)
  qed
qed

text \<open>The range iterator yields the entries of its interval.\<close>

abbreviation range_list :: "('e list \<times> nat \<times> nat) list \<Rightarrow> 'e list" where
  "range_list fs \<equiv> concat (map range_frame_list fs)"

lemma range_next_ok:
  assumes "range_next fs = Some (v, fs')" "\<forall>f \<in> set fs. range_frame_ok f"
  shows "range_list fs = v # range_list fs' \<and> (\<forall>f \<in> set fs'. range_frame_ok f)"
proof (cases fs)
  case (Cons f gs)
  obtain es i stop where f: "f = (es, i, stop)" by (cases f)
  have i: "i < stop" "stop \<le> length es" using assms(2) Cons f by auto
  then have "drop i (take stop es) = es ! i # drop (Suc i) (take stop es)"
    by (subst Cons_nth_drop_Suc [symmetric]) auto
  then show ?thesis using assms Cons f i by (cases "Suc i < stop") (auto simp: range_frame_list_def)
qed (use assms in simp)

lemma range_collect_list: "\<forall>f \<in> set fs. range_frame_ok f \<Longrightarrow> range_collect fs = range_list fs"
proof (induction fs rule: range_collect.induct)
  case (1 fs)
  show ?case
  proof (cases "range_next fs")
    case None
    then have "fs = []" using "1.prems" by (cases fs rule: range_next.cases) (auto split: option.splits)
    then show ?thesis by (subst range_collect.simps) simp
  next
    case (Some vf)
    then obtain v fs' where vf: "range_next fs = Some (v, fs')" by (cases vf) auto
    with 1 range_next_ok [OF vf "1.prems"] have "range_collect fs' = range_list fs'" by auto
    then show ?thesis using vf range_next_ok [OF vf "1.prems"] by (subst range_collect.simps) simp
  qed
qed

lemma push_intersection_list:
  assumes "node_ok ops k n" "start \<le> stop" "\<forall>f \<in> set stack. range_frame_ok f"
  shows "range_list (push_intersection n base start stop stack) =
      drop (start - base) (take (stop - base) (node_entries n)) @ range_list stack \<and>
    (\<forall>f \<in> set (push_intersection n base start stop stack). range_frame_ok f)"
  using assms
proof (induction n arbitrary: base stack)
  case (TLeaf x)
  then show ?case
    by (auto simp: Let_def range_frame_list_def min_def not_less not_le)
next
  case (TBranch i l r n h m f g)
  have l: "node_ok ops k l" "node_ok ops k r" "n = length (node_entries l) + length (node_entries r)"
    "node_len l = length (node_entries l)"
    using TBranch.prems(1) by (auto simp: node_len_entries)
  show ?case
  proof (cases "base + n \<le> start \<or> stop \<le> base")
    case True
    then show ?thesis using l(3) TBranch.prems(2,3) by auto
  next
    case False
    let ?right = "push_intersection r (base + node_len l) start stop stack"
    have R: "range_list ?right = drop (start - (base + node_len l)) (take (stop - (base + node_len l)) (node_entries r)) @ range_list stack"
      "\<forall>f \<in> set ?right. range_frame_ok f"
      using TBranch.IH(2) [OF l(2) TBranch.prems(2,3)] by blast+
    from TBranch.IH(1) [OF l(1) TBranch.prems(2) R(2)] show ?thesis
      using False R(1) l(4) by (cases "length (node_entries l) \<le> stop - base") (auto simp: diff_diff_add)
  qed
qed

lemma tape_iter_range_list:
  assumes "tape_ok ops a t"
  shows "range_collect (tape_iter_range t start stop) = drop start (take stop (tape_list t))"
proof (cases "tape_root t")
  case None
  then show ?thesis by (simp add: tape_iter_range_def tape_len_def tape_list_def tape_leaves_def range_collect.simps)
next
  case (Some n)
  let ?start = "min start (tape_len t)" and ?stop = "max (min stop (tape_len t)) (min start (tape_len t))"
  have n: "node_ok ops (next_id a) n" "tape_list t = node_entries n" "tape_len t = length (node_entries n)"
    using assms Some tape_len_list [OF assms] by (auto simp: tape_ok_def tape_list_def tape_leaves_def)
  have "range_collect (push_intersection n 0 ?start ?stop []) = drop ?start (take ?stop (node_entries n))"
    using push_intersection_list [OF n(1), of ?start ?stop "[]" 0] by (simp add: range_collect_list)
  moreover have "drop ?start (take ?stop (node_entries n)) = drop start (take stop (node_entries n))"
    unfolding n(3) by (auto simp: min_def max_def)
  moreover have "drop ?start (take ?stop (node_entries n)) = []" if "\<not> ?start < ?stop"
    using that unfolding n(3) by (simp add: min_def max_def split: if_splits)
  ultimately show ?thesis using Some n(2)
    by (cases "?start < ?stop") (simp_all only: tape_iter_range_def Let_def if_True if_False option.case, simp_all add: range_collect.simps [of "[]"])
qed

text \<open>Metrics of a prefix.\<close>

lemma metric_add_counts:
  assumes "counts_are ops es m" "counts_are ops fs m'" "fits ops (es @ fs)"
  shows "\<exists>m''. metric_add m m' = Some m'' \<and> counts_are ops (es @ fs) m''"
  using assms by (auto simp: counts_are_def metric_add_def fits_def)

lemma prefix_metric_counts:
  "node_ok ops k n \<Longrightarrow> fits ops (node_entries n) \<Longrightarrow>
    \<exists>m. prefix_metric ops n rank = Some m \<and> counts_are ops (take rank (node_entries n)) m"
proof (induction n arbitrary: rank)
  case (TLeaf x)
  let ?es = "take (min rank (length (leaf_entries x))) (leaf_entries x)"
  have fit: "fits ops ?es" using TLeaf.prems(2) fits_append(1) [of ops ?es "drop (min rank (length (leaf_entries x))) (leaf_entries x)"] by simp
  then obtain m where m: "fold_metric ops metric_default ?es = Some m"
    using fold_metric_returns [of metric_default ops ?es] by (auto simp: metric_default_def fits_def)
  then have "counts_are ops ?es m" using fold_metric_counts [OF m] by (simp add: counts_are_def metric_default_def)
  moreover have "?es = take rank (leaf_entries x)" by (simp add: min_def)
  ultimately show ?case using m by simp
next
  case (TBranch i l r n h m f g)
  have l: "node_ok ops k l" "node_ok ops k r" "node_len l = length (node_entries l)"
    using TBranch.prems(1) by (auto simp: node_len_entries)
  have fit: "fits ops (node_entries l)" "fits ops (node_entries r)"
    using TBranch.prems(2) by (auto dest: fits_append)
  show ?case
  proof (cases "rank \<le> node_len l")
    case True
    then show ?thesis using TBranch.IH(1) [OF l(1) fit(1)] l(3) by simp
  next
    case False
    obtain m' where m': "prefix_metric ops r (rank - node_len l) = Some m'"
      "counts_are ops (take (rank - node_len l) (node_entries r)) m'" using TBranch.IH(2) [OF l(2) fit(2)] by blast
    have "fits ops ((node_entries l @ take (rank - node_len l) (node_entries r)) @ drop (rank - node_len l) (node_entries r))"
      using TBranch.prems(2) by simp
    then have "fits ops (node_entries l @ take (rank - node_len l) (node_entries r))" by (rule fits_append)
    from metric_add_counts [OF node_metric_counts [OF l(1)] m'(2) this] show ?thesis
      using False m'(1) l(3) by auto
  qed
qed

lemma metric_before_counts:
  assumes "tape_ok ops a t"
  shows "\<exists>m. metric_before ops t rank = Some m \<and> counts_are ops (take rank (tape_list t)) m"
proof (cases "tape_root t")
  case (Some n)
  then have n: "node_ok ops (next_id a) n" "fits ops (node_entries n)" "tape_list t = node_entries n"
    using assms by (auto simp: tape_ok_def tape_list_def tape_leaves_def)
  have "take (min rank (node_len n)) (node_entries n) = take rank (node_entries n)"
    using node_len_entries [OF n(1)] by (simp add: min_def)
  then show ?thesis using prefix_metric_counts [OF n(1,2), of "min rank (node_len n)"] Some n(3)
    by (simp add: metric_before_def)
qed (simp add: metric_before_def tape_list_def tape_leaves_def counts_are_def metric_default_def)

text \<open>Equality: what it accepts is equal; what has another shape it rejects.\<close>

lemma nodes_equal_sound:
  "\<forall>x y. ptr_eq x y \<longrightarrow> x = y \<Longrightarrow> nodes_equal ptr_eq a b \<Longrightarrow> node_ok ops k a \<Longrightarrow> node_ok ops k' b \<Longrightarrow> node_entries a = node_entries b"
proof (induction ptr_eq a b rule: nodes_equal.induct)
  case (1 p x y)
  then show ?case by (auto split: if_splits)
next
  case (2 p i l r n h m f g i' l' r' n' h' m' f' g')
  show ?case
  proof (cases "p (TBranch i l r n h m f g) (TBranch i' l' r' n' h' m' f' g')")
    case True
    then show ?thesis using "2.prems"(1) by blast
  next
    case False
    then show ?thesis using 2 by (simp split: if_splits)
  qed
qed (use tape_iter_collect_list [of ops k] tape_iter_collect_list [of ops k'] in
    \<open>fastforce simp: tape_iter_def iter_ok_def split: if_splits\<close>)+

end
