(* ===== verification/Tape_Ops.thy ===== *)
theory Tape_Ops
  imports Tape_Reads
begin

text \<open>
  The structural operations of \<^verbatim>\<open>StableTape\<close> (\<^verbatim>\<open>src/framework/tape.rs\<close>): building a tape,
  concatenating, splitting and splicing tapes, with the re-labelling of a replacement. The
  lemmas follow the leaves: which leaves an operation keeps, in which order, and the at
  most one leaf it replaces at a junction. They do not need the rope to be balanced; the
  implications with \<open>b\<close> add that balance is preserved.
\<close>

section \<open>Operations on nodes\<close>

fun pair_level :: "'e tape_node list \<Rightarrow> tape_id_allocator \<Rightarrow> ('e tape_node list \<times> tape_id_allocator) option" where
  "pair_level [] a = Some ([], a)"
| "pair_level [n] a = Some ([n], a)"
| "pair_level (l # r # ns) a = do {
     (n, a) \<leftarrow> make_branch l r a;
     (ns, a) \<leftarrow> pair_level ns a;
     Some (n # ns, a)
   }"

lemma pair_level_length: "pair_level ns a = Some (ns', a') \<Longrightarrow> length ns' = (length ns + 1) div 2"
proof (induction ns a arbitrary: ns' a' rule: pair_level.induct)
  case (3 l r ns a)
  then obtain n a1 ms a2 where "make_branch l r a = Some (n, a1)" "pair_level ns a1 = Some (ms, a2)" "ns' = n # ms"
    by (auto simp: bind_eq_Some_conv)
  with 3 show ?case by auto
qed simp_all

function tape_build_balanced :: "'e tape_node list \<Rightarrow> tape_id_allocator \<Rightarrow> ('e tape_node \<times> tape_id_allocator) option" where
  "tape_build_balanced nodes a =
     (case nodes of
        [] \<Rightarrow> None
      | [n] \<Rightarrow> Some (n, a)
      | _ \<Rightarrow> (case pair_level nodes a of
               None \<Rightarrow> None
             | Some (next, a) \<Rightarrow> tape_build_balanced next a))"
  by pat_completeness auto
termination
  by (relation "measure (\<lambda>(nodes, a). length nodes)") (auto dest!: pair_level_length simp del: pair_level.simps)

declare tape_build_balanced.simps [simp del]

text \<open>The node that \<^verbatim>\<open>concat_nodes\<close> builds from two leaves that fit one: its entries and label.\<close>

fun merged_leaf :: "'e tape_node \<Rightarrow> 'e tape_node \<Rightarrow> ('e list \<times> leaf_order_key) option" where
  "merged_leaf (TLeaf x) (TLeaf y) =
     (if length (leaf_entries x) + length (leaf_entries y) \<le> LEAF_MAX
      then Some (leaf_entries x @ leaf_entries y, leaf_order x) else None)"
| "merged_leaf _ _ = None"

definition rebalance :: "'e tape_node \<Rightarrow> 'e tape_node \<Rightarrow> tape_id_allocator \<Rightarrow>
    ('e tape_node \<times> tape_id_allocator) option" where
  "rebalance l r a =
     (if node_height l > sat_add_u16 (node_height r) 1 then
        (case l of
           TLeaf _ \<Rightarrow> None
         | TBranch _ ll lr _ _ _ _ _ \<Rightarrow>
             if node_height ll \<ge> node_height lr then do {
               (branch, a) \<leftarrow> make_branch lr r a;
               make_branch ll branch a
             } else (case lr of
                 TLeaf _ \<Rightarrow> None
               | TBranch _ pl pr _ _ _ _ _ \<Rightarrow> do {
                   (left_branch, a) \<leftarrow> make_branch ll pl a;
                   (right_branch, a) \<leftarrow> make_branch pr r a;
                   make_branch left_branch right_branch a
                 }))
      else if node_height r > sat_add_u16 (node_height l) 1 then
        (case r of
           TLeaf _ \<Rightarrow> None
         | TBranch _ rl rr _ _ _ _ _ \<Rightarrow>
             if node_height rr \<ge> node_height rl then do {
               (branch, a) \<leftarrow> make_branch l rl a;
               make_branch branch rr a
             } else (case rl of
                 TLeaf _ \<Rightarrow> None
               | TBranch _ pl pr _ _ _ _ _ \<Rightarrow> do {
                   (left_branch, a) \<leftarrow> make_branch l pl a;
                   (right_branch, a) \<leftarrow> make_branch pr rr a;
                   make_branch left_branch right_branch a
                 }))
      else make_branch l r a)"

function concat_nodes :: "'e entry_ops \<Rightarrow> 'e tape_node option \<Rightarrow> 'e tape_node option \<Rightarrow> tape_id_allocator \<Rightarrow>
    ('e tape_node option \<times> tape_id_allocator) option" where
  "concat_nodes ops None r a = Some (r, a)"
| "concat_nodes ops (Some l) None a = Some (Some l, a)"
| "concat_nodes ops (Some l) (Some r) a =
     (case merged_leaf l r of
        Some (es, order) \<Rightarrow> do { (t, a) \<leftarrow> make_leaf ops es order a; Some (Some t, a) }
      | None \<Rightarrow>
          if node_height l > sat_add_u16 (node_height r) 1 then
            (case l of
               TLeaf _ \<Rightarrow> None
             | TBranch _ ll lr _ _ _ _ _ \<Rightarrow> do {
                 (joined, a) \<leftarrow> concat_nodes ops (Some lr) (Some r) a;
                 joined \<leftarrow> joined;
                 (t, a) \<leftarrow> rebalance ll joined a;
                 Some (Some t, a)
               })
          else if node_height r > sat_add_u16 (node_height l) 1 then
            (case r of
               TLeaf _ \<Rightarrow> None
             | TBranch _ rl rr _ _ _ _ _ \<Rightarrow> do {
                 (joined, a) \<leftarrow> concat_nodes ops (Some l) (Some rl) a;
                 joined \<leftarrow> joined;
                 (t, a) \<leftarrow> rebalance joined rr a;
                 Some (Some t, a)
               })
          else do { (t, a) \<leftarrow> make_branch l r a; Some (Some t, a) })"
  by pat_completeness auto
termination
  by (relation "measure (\<lambda>(ops, l, r, a). size_option size l + size_option size r)") auto

declare concat_nodes.simps(3) [simp del]

fun tape_split_node :: "'e entry_ops \<Rightarrow> 'e tape_node \<Rightarrow> nat \<Rightarrow> leaf_order_key option \<Rightarrow> tape_id_allocator \<Rightarrow>
    (('e tape_node option \<times> 'e tape_node option) \<times> tape_id_allocator) option" where
  "tape_split_node ops (TLeaf x) rank upper a =
     (if rank = 0 then Some ((None, Some (TLeaf x)), a)
      else if node_len (TLeaf x) \<le> rank then Some ((Some (TLeaf x), None), a)
      else do {
        (l, a) \<leftarrow> make_leaf ops (take rank (leaf_entries x)) (leaf_order x) a;
        right_order \<leftarrow> key_between (Some (leaf_order x)) upper;
        (r, a) \<leftarrow> make_leaf ops (drop rank (leaf_entries x)) right_order a;
        Some ((Some l, Some r), a)
      })"
| "tape_split_node ops (TBranch i l r n h m f g) rank upper a =
     (if rank = 0 then Some ((None, Some (TBranch i l r n h m f g)), a)
      else if n \<le> rank then Some ((Some (TBranch i l r n h m f g), None), a)
      else if rank < node_len l then do {
        ((prefix, middle), a) \<leftarrow> tape_split_node ops l rank (Some (first_order r)) a;
        (suffix, a) \<leftarrow> concat_nodes ops middle (Some r) a;
        Some ((prefix, suffix), a)
      } else do {
        ((middle, suffix), a) \<leftarrow> tape_split_node ops r (rank - node_len l) upper a;
        (prefix, a) \<leftarrow> concat_nodes ops (Some l) middle a;
        Some ((prefix, suffix), a)
      })"

section \<open>Tapes\<close>

fun make_initial_leaves :: "'e entry_ops \<Rightarrow> nat \<Rightarrow> nat \<Rightarrow> 'e list list \<Rightarrow> tape_id_allocator \<Rightarrow>
    ('e tape_node list \<times> tape_id_allocator) option" where
  "make_initial_leaves ops leaf_count ordinal [] a = Some ([], a)"
| "make_initial_leaves ops leaf_count ordinal (chunk # cs) a = do {
     order \<leftarrow> key_initial ordinal leaf_count;
     (n, a) \<leftarrow> make_leaf ops chunk order a;
     (ns, a) \<leftarrow> make_initial_leaves ops leaf_count (ordinal + 1) cs a;
     Some (n # ns, a)
   }"

definition from_entries :: "'e entry_ops \<Rightarrow> 'e list \<Rightarrow> tape_id_allocator \<Rightarrow>
    ('e stable_tape \<times> tape_id_allocator) option" where
  "from_entries ops es a =
     (if es = [] then Some (tape_new, a) else do {
        (leaves, a) \<leftarrow> make_initial_leaves ops (div_ceil (length es) LEAF_MAX) 0 (chunks LEAF_MAX es) a;
        (n, a) \<leftarrow> tape_build_balanced leaves a;
        Some (\<lparr>tape_root = Some n\<rparr>, a)
      })"

definition tape_split_at :: "'e entry_ops \<Rightarrow> 'e stable_tape \<Rightarrow> nat \<Rightarrow> tape_id_allocator \<Rightarrow>
    (('e stable_tape \<times> 'e stable_tape) \<times> tape_id_allocator) option" where
  "tape_split_at ops t rank a =
     (case tape_root t of
        None \<Rightarrow> Some ((tape_new, tape_new), a)
      | Some n \<Rightarrow> do {
          ((l, r), a) \<leftarrow> tape_split_node ops n (min rank (tape_len t)) None a;
          Some ((\<lparr>tape_root = l\<rparr>, \<lparr>tape_root = r\<rparr>), a)
        })"

definition first_order_key :: "'e stable_tape \<Rightarrow> leaf_order_key option" where
  "first_order_key t = map_option first_order (tape_root t)"

definition last_order_key :: "'e stable_tape \<Rightarrow> leaf_order_key option" where
  "last_order_key t = map_option last_order (tape_root t)"

definition fits_between :: "'e stable_tape \<Rightarrow> leaf_order_key option \<Rightarrow> leaf_order_key option \<Rightarrow> bool" where
  "fits_between t lower upper \<longleftrightarrow>
     (case tape_root t of
        None \<Rightarrow> True
      | Some n \<Rightarrow> (case lower of None \<Rightarrow> True | Some k \<Rightarrow> k < first_order n) \<and>
                  (case upper of None \<Rightarrow> True | Some k \<Rightarrow> last_order n < k))"

fun make_fitted_leaves :: "'e entry_ops \<Rightarrow> leaf_order_key option \<Rightarrow> leaf_order_key option \<Rightarrow> 'e list list \<Rightarrow>
    tape_id_allocator \<Rightarrow> ('e tape_node list \<times> tape_id_allocator) option" where
  "make_fitted_leaves ops previous upper [] a = Some ([], a)"
| "make_fitted_leaves ops previous upper (chunk # cs) a = do {
     order \<leftarrow> key_between previous upper;
     (n, a) \<leftarrow> make_leaf ops chunk order a;
     (ns, a) \<leftarrow> make_fitted_leaves ops (Some order) upper cs a;
     Some (n # ns, a)
   }"

definition rekey_between :: "'e entry_ops \<Rightarrow> 'e stable_tape \<Rightarrow> leaf_order_key option \<Rightarrow> leaf_order_key option \<Rightarrow>
    tape_id_allocator \<Rightarrow> ('e stable_tape \<times> tape_id_allocator) option" where
  "rekey_between ops t lower upper a =
     (if fits_between t lower upper then Some (t, a) else
        (let es = tape_to_vec t in
         if es = [] then Some (tape_new, a) else do {
           (leaves, a) \<leftarrow> make_fitted_leaves ops lower upper (chunks LEAF_MAX es) a;
           (n, a) \<leftarrow> tape_build_balanced leaves a;
           Some (\<lparr>tape_root = Some n\<rparr>, a)
         }))"

definition tape_concat :: "'e entry_ops \<Rightarrow> 'e stable_tape \<Rightarrow> 'e stable_tape \<Rightarrow> tape_id_allocator \<Rightarrow>
    ('e stable_tape \<times> tape_id_allocator) option" where
  "tape_concat ops l r a = do {
     (fitted, a) \<leftarrow> rekey_between ops r (last_order_key l) None a;
     (n, a) \<leftarrow> concat_nodes ops (tape_root l) (tape_root fitted) a;
     Some (\<lparr>tape_root = n\<rparr>, a)
   }"

definition tape_splice :: "'e entry_ops \<Rightarrow> 'e stable_tape \<Rightarrow> nat \<Rightarrow> nat \<Rightarrow> 'e stable_tape \<Rightarrow>
    tape_id_allocator \<Rightarrow> ('e stable_tape \<times> tape_id_allocator) option" where
  "tape_splice ops t range_start range_end replacement a =
     (let start = min range_start (tape_len t);
          stop = max (min range_end (tape_len t)) start
      in do {
        ((prefix, remainder), a) \<leftarrow> tape_split_at ops t start a;
        ((_, suffix), a) \<leftarrow> tape_split_at ops remainder (stop - start) a;
        (fitted, a) \<leftarrow> rekey_between ops replacement (last_order_key prefix) (first_order_key suffix) a;
        (joined, a) \<leftarrow> tape_concat ops prefix fitted a;
        tape_concat ops joined suffix a
      })"

definition tape_push :: "'e entry_ops \<Rightarrow> 'e stable_tape \<Rightarrow> 'e \<Rightarrow> tape_id_allocator \<Rightarrow>
    ('e stable_tape \<times> tape_id_allocator) option" where
  "tape_push ops t v a = do {
     (one, a) \<leftarrow> from_entries ops [v] a;
     tape_concat ops t one a
   }"

section \<open>Joining\<close>

lemma sat_add_u16_less: "Suc 0 \<le> h \<Longrightarrow> sat_add_u16 h 1 < k \<Longrightarrow> 2 < k"
  by (auto simp: sat_add_u16_def min_def split: if_splits)

lemma sat_add_u16_exact: "h \<le> 128 \<Longrightarrow> sat_add_u16 h 1 = h + 1"
  by (simp add: sat_add_u16_def)

lemma node_is_branch:
  assumes "node_ok ops k n" "1 < node_height n"
  obtains i l r m h q f g where "n = TBranch i l r m h q f g" "node_ok ops k l" "node_ok ops k r"
    "node_leaves n = node_leaves l @ node_leaves r" "node_height n = h"
    "h = sat_add_u16 (max (node_height l) (node_height r)) 1"
    "node_balanced n \<longrightarrow> node_balanced l \<and> node_balanced r \<and>
       node_height l \<le> node_height r + 1 \<and> node_height r \<le> node_height l + 1"
  using assms by (cases n) auto

lemma node_heights:
  assumes "node_ok ops k l" "node_balanced l" "fits ops (node_entries l)"
  shows "sat_add_u16 (node_height l) 1 = node_height l + 1"
  by (rule sat_add_u16_exact [OF node_height_le [OF assms]])

lemma balanced_child_heights:
  assumes "node_ok ops k n" "n = TBranch i l r m h q f g" "node_balanced n" "fits ops (node_entries n)"
  shows "h = max (node_height l) (node_height r) + 1"
proof -
  have "fits ops (node_entries l)" "fits ops (node_entries r)"
    using assms(2,4) by (auto dest: fits_append)
  then have "node_height l \<le> 128" "node_height r \<le> 128"
    using assms(1-3) node_height_le by (metis node_balanced.simps(2) node_ok.simps(2))+
  then show ?thesis using assms(1,2) by (simp add: sat_add_u16_def)
qed

text \<open>The outcome of rebuilding over adjacent nodes.\<close>

definition rebuilt :: "'e entry_ops \<Rightarrow> 'e tape_leaf list \<Rightarrow> bool \<Rightarrow> (nat \<Rightarrow> bool) \<Rightarrow>
    'e tape_node \<Rightarrow> tape_id_allocator \<Rightarrow> bool" where
  "rebuilt ops L b H t a \<longleftrightarrow> node_ok ops (next_id a) t \<and> node_leaves t = L \<and>
     (b \<longrightarrow> node_balanced t \<and> H (node_height t))"

lemma rebuilt_branch:
  assumes "node_ok ops k l" "k \<le> next_id a" "node_ok ops k' r" "k' \<le> next_id a"
    and "span_ok ops L" "L = node_leaves l @ node_leaves r"
    and "b \<Longrightarrow> node_balanced l \<and> node_balanced r \<and>
      node_height l \<le> node_height r + 1 \<and> node_height r \<le> node_height l + 1 \<and>
      H (max (node_height l) (node_height r) + 1)"
  shows "runs a 1 (make_branch l r a) (rebuilt ops L b H)"
proof -
  have "node_ok ops (next_id a) l" "node_ok ops (next_id a) r"
    using assms(1-4) node_ok_mono by blast+
  then show ?thesis
    by (rule runs_post [OF make_branch_runs [where b = b, OF _ _ order.refl]])
      (use assms in \<open>auto simp: rebuilt_def\<close>)
qed

lemma rebuiltD:
  assumes "rebuilt ops L b H t a"
  shows "node_ok ops (next_id a) t" "node_leaves t = L" "b \<Longrightarrow> node_balanced t" "b \<Longrightarrow> H (node_height t)"
  using assms by (simp_all add: rebuilt_def)

text \<open>The two rotations to the right, on a node whose left child is too tall.\<close>

lemma rotate_right_runs:
  assumes ok: "node_ok ops k ll" "node_ok ops k lr" "node_ok ops k r" "k \<le> next_id a"
    and sp: "span_ok ops (node_leaves ll @ node_leaves lr @ node_leaves r)"
    and b: "b \<Longrightarrow> node_balanced ll \<and> node_balanced lr \<and> node_balanced r \<and>
      node_height ll = node_height r + 1 \<and> node_height lr \<le> node_height ll \<and> node_height ll \<le> node_height lr + 1"
  shows "runs a 3 (do { (branch, a) \<leftarrow> make_branch lr r a; make_branch ll branch a })
    (rebuilt ops (node_leaves ll @ node_leaves lr @ node_leaves r) b (\<lambda>h. node_height ll < h \<and> h \<le> node_height ll + 2))"
proof (rule runs_bind)
  let ?H = "\<lambda>h. h = max (node_height lr) (node_height r) + 1"
  show "runs a 1 (make_branch lr r a) (rebuilt ops (node_leaves lr @ node_leaves r) b ?H)"
    by (rule rebuilt_branch [OF ok(2,4) ok(3,4) span_ok_append(2) [OF sp] refl]) (use b in auto)
  fix t a' assume t: "rebuilt ops (node_leaves lr @ node_leaves r) b ?H t a'" "next_id a \<le> next_id a'"
  have "k \<le> next_id a'" using ok(4) t(2) by simp
  note branch = rebuilt_branch [OF ok(1) this rebuiltD(1) [OF t(1)] order.refl sp]
  show "runs a' 1 ((\<lambda>(branch, a). make_branch ll branch a) (t, a'))
    (rebuilt ops (node_leaves ll @ node_leaves lr @ node_leaves r) b (\<lambda>h. node_height ll < h \<and> h \<le> node_height ll + 2))"
    unfolding prod.case by (rule branch) (use rebuiltD(2-) [OF t(1)] b in auto)
qed simp

lemma rotate_double_runs:
  assumes ok: "node_ok ops k l1" "node_ok ops k l2" "node_ok ops k r1" "node_ok ops k r2" "k \<le> next_id a"
    and sp: "span_ok ops (node_leaves l1 @ node_leaves l2 @ node_leaves r1 @ node_leaves r2)"
    and b: "b \<Longrightarrow> node_balanced l1 \<and> node_balanced l2 \<and> node_balanced r1 \<and> node_balanced r2 \<and>
      node_height l1 = h \<and> node_height r2 = h \<and> max (node_height l2) (node_height r1) = h \<and>
      node_height l2 \<le> node_height r1 + 1 \<and> node_height r1 \<le> node_height l2 + 1"
  shows "runs a 3 (do { (left_branch, a) \<leftarrow> make_branch l1 l2 a; (right_branch, a) \<leftarrow> make_branch r1 r2 a;
      make_branch left_branch right_branch a })
    (rebuilt ops (node_leaves l1 @ node_leaves l2 @ node_leaves r1 @ node_leaves r2) b (\<lambda>k. k = h + 2))"
proof (rule runs_bind)
  let ?L = "node_leaves l1 @ node_leaves l2 @ node_leaves r1 @ node_leaves r2"
  let ?H = "\<lambda>k. k = h + 1"
  have sp2: "span_ok ops ((node_leaves l1 @ node_leaves l2) @ node_leaves r1 @ node_leaves r2)"
    using sp by simp
  show "runs a 1 (make_branch l1 l2 a) (rebuilt ops (node_leaves l1 @ node_leaves l2) b ?H)"
    by (rule rebuilt_branch [OF ok(1,5) ok(2,5) span_ok_append(1) [OF sp2] refl]) (use b in auto)
  fix t a' assume t: "rebuilt ops (node_leaves l1 @ node_leaves l2) b ?H t a'" "next_id a \<le> next_id a'"
  have k: "k \<le> next_id a'" using ok(5) t(2) by simp
  have "runs a' 2 (do { (right_branch, a) \<leftarrow> make_branch r1 r2 a'; make_branch t right_branch a })
    (rebuilt ops ?L b (\<lambda>k. k = h + 2))"
  proof (rule runs_bind)
    show "runs a' 1 (make_branch r1 r2 a') (rebuilt ops (node_leaves r1 @ node_leaves r2) b ?H)"
      by (rule rebuilt_branch [OF ok(3) k ok(4) k span_ok_append(2) [OF sp2] refl]) (use b in auto)
    fix u a'' assume u: "rebuilt ops (node_leaves r1 @ node_leaves r2) b ?H u a''" "next_id a' \<le> next_id a''"
    note branch = rebuilt_branch [OF rebuiltD(1) [OF t(1)] u(2) rebuiltD(1) [OF u(1)] order.refl sp]
    show "runs a'' 1 ((\<lambda>(right_branch, a). make_branch t right_branch a) (u, a'')) (rebuilt ops ?L b (\<lambda>k. k = h + 2))"
      unfolding prod.case by (rule branch) (use rebuiltD(2-) [OF t(1)] rebuiltD(2-) [OF u(1)] in auto)
  qed simp
  then show "runs a' 2 ((\<lambda>(left_branch, a). do { (right_branch, a) \<leftarrow> make_branch r1 r2 a;
      make_branch left_branch right_branch a }) (t, a')) (rebuilt ops ?L b (\<lambda>k. k = h + 2))"
    unfolding prod.case .
qed simp

lemma rotate_left_runs:
  assumes ok: "node_ok ops k l" "node_ok ops k rl" "node_ok ops k rr" "k \<le> next_id a"
    and sp: "span_ok ops (node_leaves l @ node_leaves rl @ node_leaves rr)"
    and b: "b \<Longrightarrow> node_balanced l \<and> node_balanced rl \<and> node_balanced rr \<and>
      node_height rr = node_height l + 1 \<and> node_height rl \<le> node_height rr \<and> node_height rr \<le> node_height rl + 1"
  shows "runs a 3 (do { (branch, a) \<leftarrow> make_branch l rl a; make_branch branch rr a })
    (rebuilt ops (node_leaves l @ node_leaves rl @ node_leaves rr) b (\<lambda>h. node_height rr < h \<and> h \<le> node_height rr + 2))"
proof (rule runs_bind)
  let ?H = "\<lambda>h. h = max (node_height l) (node_height rl) + 1"
  have sp2: "span_ok ops ((node_leaves l @ node_leaves rl) @ node_leaves rr)" using sp by simp
  show "runs a 1 (make_branch l rl a) (rebuilt ops (node_leaves l @ node_leaves rl) b ?H)"
    by (rule rebuilt_branch [OF ok(1,4) ok(2,4) span_ok_append(1) [OF sp2] refl]) (use b in auto)
  fix t a' assume t: "rebuilt ops (node_leaves l @ node_leaves rl) b ?H t a'" "next_id a \<le> next_id a'"
  have "k \<le> next_id a'" using ok(4) t(2) by simp
  note branch = rebuilt_branch [OF rebuiltD(1) [OF t(1)] order.refl ok(3) this sp]
  show "runs a' 1 ((\<lambda>(branch, a). make_branch branch rr a) (t, a'))
    (rebuilt ops (node_leaves l @ node_leaves rl @ node_leaves rr) b (\<lambda>h. node_height rr < h \<and> h \<le> node_height rr + 2))"
    unfolding prod.case by (rule branch) (use rebuiltD(2-) [OF t(1)] b in auto)
qed simp

lemma rebalance_runs:
  assumes ok: "node_ok ops k l" "node_ok ops k r" "k \<le> next_id a" "span_ok ops (node_leaves l @ node_leaves r)"
    and b: "b \<Longrightarrow> node_balanced l \<and> node_balanced r \<and>
      node_height l \<le> node_height r + 2 \<and> node_height r \<le> node_height l + 2"
  shows "runs a 3 (rebalance l r a) (rebuilt ops (node_leaves l @ node_leaves r) b
    (\<lambda>h. max (node_height l) (node_height r) \<le> h \<and> h \<le> max (node_height l) (node_height r) + 1 \<and>
      (node_height l \<le> node_height r + 1 \<and> node_height r \<le> node_height l + 1 \<longrightarrow>
        h = max (node_height l) (node_height r) + 1)))" (is "runs a 3 _ ?Q")
proof -
  let ?L = "node_leaves l @ node_leaves r"
  have fit: "fits ops (node_entries l)" "fits ops (node_entries r)"
    using span_ok_append [OF ok(4)] by (simp_all add: span_ok_def)
  have sat: "sat_add_u16 (node_height l) 1 = node_height l + 1" "sat_add_u16 (node_height r) 1 = node_height r + 1" if b
    using node_heights ok(1,2) fit b [OF that] by blast+
  have weaken: "runs a 3 m ?Q" if "runs a n m (rebuilt ops ?L b H)" "n \<le> 3"
    "\<And>h. b \<Longrightarrow> H h \<Longrightarrow> max (node_height l) (node_height r) \<le> h \<and> h \<le> max (node_height l) (node_height r) + 1 \<and>
      (node_height l \<le> node_height r + 1 \<and> node_height r \<le> node_height l + 1 \<longrightarrow>
        h = max (node_height l) (node_height r) + 1)" for m n H
    by (rule runs_post [OF that(1,2)]) (use that(3) in \<open>auto simp: rebuilt_def\<close>)
  consider (left) "sat_add_u16 (node_height r) 1 < node_height l"
    | (right) "\<not> sat_add_u16 (node_height r) 1 < node_height l" "sat_add_u16 (node_height l) 1 < node_height r"
    | (level) "\<not> sat_add_u16 (node_height r) 1 < node_height l" "\<not> sat_add_u16 (node_height l) 1 < node_height r"
    by blast
  then show ?thesis
  proof cases
    case left
    then have "1 < node_height l" using sat_add_u16_less [OF node_height_pos [OF ok(2)]] by fastforce
    then obtain i ll lr m h q f g where n: "l = TBranch i ll lr m h q f g" "node_ok ops k ll" "node_ok ops k lr"
        "node_leaves l = node_leaves ll @ node_leaves lr" "node_height l = h"
      by (auto intro: node_is_branch [OF ok(1)])
    have sp: "span_ok ops (node_leaves ll @ node_leaves lr @ node_leaves r)" using ok(4) n(4) by simp
    have hb: "h = max (node_height ll) (node_height lr) + 1" "node_balanced ll" "node_balanced lr"
        "node_height ll \<le> node_height lr + 1" "node_height lr \<le> node_height ll + 1"
        "h = node_height r + 2" "node_balanced r" if b
      using balanced_child_heights [OF ok(1) n(1) _ fit(1)] b [OF that] n(1,5) left sat [OF that] by auto
    show ?thesis
    proof (cases "node_height lr \<le> node_height ll")
      case True
      have "runs a 3 (do { (branch, a) \<leftarrow> make_branch lr r a; make_branch ll branch a }) ?Q"
        by (rule weaken [OF rotate_right_runs [OF n(2,3) ok(2,3) sp, folded append_assoc n(4)] order.refl])
          (use hb n(5) True in auto)
      then show ?thesis using True left n(1) by (simp add: rebalance_def)
    next
      case False
      then have "1 < node_height lr" using node_height_pos [OF n(2)] by simp
      then obtain j pl pr m' h' q' f' g' where p: "lr = TBranch j pl pr m' h' q' f' g'" "node_ok ops k pl"
          "node_ok ops k pr" "node_leaves lr = node_leaves pl @ node_leaves pr" "node_height lr = h'"
        by (auto intro: node_is_branch [OF n(3)])
      have sp': "span_ok ops (node_leaves ll @ node_leaves pl @ node_leaves pr @ node_leaves r)"
        using sp p(4) by simp
      have eq: "node_leaves ll @ node_leaves pl @ node_leaves pr @ node_leaves r = ?L" using n(4) p(4) by simp
      have "fits ops (node_entries lr)" using fit(1) n(4) by (auto dest: fits_append)
      then have pb: "h' = max (node_height pl) (node_height pr) + 1" "node_balanced pl" "node_balanced pr"
        "node_height pl \<le> node_height pr + 1" "node_height pr \<le> node_height pl + 1" if b
        using balanced_child_heights [OF n(3) p(1)] hb(3) [OF that] p(1) by auto
      have "runs a 3 (do { (left_branch, a) \<leftarrow> make_branch ll pl a; (right_branch, a) \<leftarrow> make_branch pr r a;
          make_branch left_branch right_branch a }) ?Q"
        by (rule weaken [OF rotate_double_runs [OF n(2) p(2,3) ok(2,3) sp', where h = "node_height r", unfolded eq] order.refl])
          (use hb pb n(5) p(5) False in auto)
      then show ?thesis using False left n(1) p(1) by (simp add: rebalance_def)
    qed
  next
    case right
    then have "1 < node_height r" using sat_add_u16_less [OF node_height_pos [OF ok(1)]] by fastforce
    then obtain i rl rr m h q f g where n: "r = TBranch i rl rr m h q f g" "node_ok ops k rl" "node_ok ops k rr"
        "node_leaves r = node_leaves rl @ node_leaves rr" "node_height r = h"
      by (auto intro: node_is_branch [OF ok(2)])
    have sp: "span_ok ops (node_leaves l @ node_leaves rl @ node_leaves rr)" using ok(4) n(4) by simp
    have hb: "h = max (node_height rl) (node_height rr) + 1" "node_balanced rl" "node_balanced rr"
        "node_height rl \<le> node_height rr + 1" "node_height rr \<le> node_height rl + 1"
        "h = node_height l + 2" "node_balanced l" if b
      using balanced_child_heights [OF ok(2) n(1) _ fit(2)] b [OF that] n(1,5) right sat [OF that] by auto
    show ?thesis
    proof (cases "node_height rl \<le> node_height rr")
      case True
      have "runs a 3 (do { (branch, a) \<leftarrow> make_branch l rl a; make_branch branch rr a }) ?Q"
        by (rule weaken [OF rotate_left_runs [OF ok(1) n(2,3) ok(3) sp, folded n(4)] order.refl])
          (use hb n(5) True in auto)
      then show ?thesis using True right n(1) by (simp add: rebalance_def)
    next
      case False
      then have "1 < node_height rl" using node_height_pos [OF n(3)] by simp
      then obtain j pl pr m' h' q' f' g' where p: "rl = TBranch j pl pr m' h' q' f' g'" "node_ok ops k pl"
          "node_ok ops k pr" "node_leaves rl = node_leaves pl @ node_leaves pr" "node_height rl = h'"
        by (auto intro: node_is_branch [OF n(2)])
      have sp': "span_ok ops (node_leaves l @ node_leaves pl @ node_leaves pr @ node_leaves rr)"
        using sp p(4) by simp
      have eq: "node_leaves l @ node_leaves pl @ node_leaves pr @ node_leaves rr = ?L" using n(4) p(4) by simp
      have "fits ops (node_entries rl)" using fit(2) n(4) by (auto dest: fits_append)
      then have pb: "h' = max (node_height pl) (node_height pr) + 1" "node_balanced pl" "node_balanced pr"
        "node_height pl \<le> node_height pr + 1" "node_height pr \<le> node_height pl + 1" if b
        using balanced_child_heights [OF n(2) p(1)] hb(2) [OF that] p(1) by auto
      have "runs a 3 (do { (left_branch, a) \<leftarrow> make_branch l pl a; (right_branch, a) \<leftarrow> make_branch pr rr a;
          make_branch left_branch right_branch a }) ?Q"
        by (rule weaken [OF rotate_double_runs [OF ok(1) p(2,3) n(3) ok(3) sp', where h = "node_height l", unfolded eq] order.refl])
          (use hb pb n(5) p(5) False in auto)
      then show ?thesis using False right n(1) p(1) by (simp add: rebalance_def)
    qed
  next
    case level
    have "runs a 1 (make_branch l r a) (rebuilt ops ?L b (\<lambda>h. h = max (node_height l) (node_height r) + 1))"
      by (rule rebuilt_branch [OF ok(1,3) ok(2,3) ok(4) refl]) (use b sat level in auto)
    then have "runs a 3 (make_branch l r a) ?Q" by (rule weaken) auto
    then show ?thesis using level by (simp add: rebalance_def)
  qed
qed

text \<open>
  Joining adjacent leaf sequences: they are appended, or the two leaves that meet become
  one, which keeps the label of the left one.
\<close>

definition merges :: "'e tape_leaf \<Rightarrow> 'e tape_leaf \<Rightarrow> 'e tape_leaf \<Rightarrow> bool" where
  "merges x y z \<longleftrightarrow> leaf_order z = leaf_order x \<and> leaf_entries z = leaf_entries x @ leaf_entries y"

definition joined_leaves :: "'e tape_leaf list \<Rightarrow> 'e tape_leaf list \<Rightarrow> 'e tape_leaf list \<Rightarrow> bool" where
  "joined_leaves L R M \<longleftrightarrow> M = L @ R \<or>
     (\<exists>A x y B z. L = A @ [x] \<and> R = y # B \<and> M = A @ z # B \<and> merges x y z)"

lemma joined_leaves_append: "joined_leaves L R M \<Longrightarrow> joined_leaves (K @ L) R (K @ M)"
  and joined_leaves_append2: "joined_leaves L R M \<Longrightarrow> joined_leaves L (R @ K) (M @ K)"
  unfolding joined_leaves_def by (metis append.assoc, metis append.assoc append_Cons)

lemma joined_leaves_entries: "joined_leaves L R M \<Longrightarrow> entries_of M = entries_of L @ entries_of R"
  by (auto simp: joined_leaves_def merges_def)

lemma joined_leaves_length: "joined_leaves L R M \<Longrightarrow> length M \<le> length L + length R"
  by (auto simp: joined_leaves_def)

lemma joined_leaves_span: "joined_leaves L R M \<Longrightarrow> span_ok ops (L @ R) \<Longrightarrow> span_ok ops M"
  by (auto simp: joined_leaves_def merges_def span_ok_def sorted_wrt_append)

definition joins :: "'e entry_ops \<Rightarrow> 'e tape_node \<Rightarrow> 'e tape_node \<Rightarrow> bool \<Rightarrow> 'e tape_node option \<Rightarrow>
    tape_id_allocator \<Rightarrow> bool" where
  "joins ops l r b t a \<longleftrightarrow> (\<exists>n. t = Some n \<and> node_ok ops (next_id a) n \<and>
     joined_leaves (node_leaves l) (node_leaves r) (node_leaves n) \<and>
     (b \<longrightarrow> node_balanced n \<and> max (node_height l) (node_height r) \<le> node_height n \<and>
        node_height n \<le> max (node_height l) (node_height r) + 1 \<and>
        (node_leaves n = node_leaves l @ node_leaves r \<or>
          (node_height l = 1 \<or> node_height r = 1) \<and> node_height l \<noteq> 2 \<and> node_height r \<noteq> 2)))"

lemma merged_leaf_Some:
  assumes "merged_leaf l r = Some (es, order)"
  obtains x y where "l = TLeaf x" "r = TLeaf y" "es = leaf_entries x @ leaf_entries y" "order = leaf_order x"
    "length es \<le> LEAF_MAX"
  using assms by (cases "(l, r)" rule: merged_leaf.cases) (auto split: if_splits)

text \<open>The two descents: the taller side is opened and the joined child is rebalanced in.\<close>

lemma descend_left_runs:
  assumes ok: "node_ok ops k l" "node_ok ops k r" "k \<le> next_id a" "span_ok ops (node_leaves l @ node_leaves r)"
    and b: "b \<Longrightarrow> node_balanced l \<and> node_balanced r"
    and l: "l = TBranch i ll lr m h q f g" and tall: "sat_add_u16 (node_height r) 1 < node_height l"
    and rec: "runs a n (concat_nodes ops (Some lr) (Some r) a) (joins ops lr r b)"
  shows "runs a (n + 3) (do { (joined, a) \<leftarrow> concat_nodes ops (Some lr) (Some r) a; joined \<leftarrow> joined;
    (t, a) \<leftarrow> rebalance ll joined a; Some (Some t, a) }) (joins ops l r b)"
proof (rule runs_bind [OF rec])
  fix t a' assume t: "joins ops lr r b t a'" "next_id a \<le> next_id a'"
  then obtain j where j: "t = Some j" "node_ok ops (next_id a') j"
    "joined_leaves (node_leaves lr) (node_leaves r) (node_leaves j)"
    "b \<longrightarrow> node_balanced j \<and> max (node_height lr) (node_height r) \<le> node_height j \<and>
        node_height j \<le> max (node_height lr) (node_height r) + 1 \<and>
        (node_leaves j = node_leaves lr @ node_leaves r \<or>
          (node_height lr = 1 \<or> node_height r = 1) \<and> node_height lr \<noteq> 2 \<and> node_height r \<noteq> 2)"
    unfolding joins_def by blast
  have J: "joined_leaves (node_leaves l) (node_leaves r) (node_leaves ll @ node_leaves j)"
    using joined_leaves_append [OF j(3)] l by simp
  have ll: "node_ok ops (next_id a') ll" "node_ok ops k lr"
    using ok(1,3) t(2) l node_ok_mono by (fastforce, fastforce)
  have fit: "fits ops (node_entries l)" "fits ops (node_entries r)"
    using span_ok_append [OF ok(4)] by (simp_all add: span_ok_def)
  have hb: "node_height l = max (node_height ll) (node_height lr) + 1" "node_balanced ll" "node_balanced lr"
      "node_height ll \<le> node_height lr + 1" "node_height lr \<le> node_height ll + 1"
      "node_height r + 1 < node_height l" "1 \<le> node_height ll" "1 \<le> node_height lr" "1 \<le> node_height r" if b
    using balanced_child_heights [OF ok(1) l _ fit(1)] b [OF that] l tall
      node_heights [OF ok(2) _ fit(2)] node_height_pos [OF ll(1)] node_height_pos [OF ll(2)] node_height_pos [OF ok(2)]
    by auto
  have "runs a' 3 (do { (t, a) \<leftarrow> rebalance ll j a'; Some (Some t, a) }) (joins ops l r b)"
  proof (rule runs_bind [where k = 0, OF rebalance_runs [OF ll(1) j(2) order.refl joined_leaves_span [OF J ok(4)], where b = b]], goal_cases)
    case 1
    then show ?case using hb j(4) by auto
  next
    case (2 u a'')
    then show ?case unfolding prod.case
      by (intro runs_return) (use J hb j(3,4) l in \<open>auto simp: joins_def rebuilt_def\<close>)
  qed simp
  then show "runs a' 3 ((\<lambda>(joined, a). do { joined \<leftarrow> joined; (t, a) \<leftarrow> rebalance ll joined a; Some (Some t, a) }) (t, a'))
    (joins ops l r b)" by (simp add: j(1))
qed simp

lemma descend_right_runs:
  assumes ok: "node_ok ops k l" "node_ok ops k r" "k \<le> next_id a" "span_ok ops (node_leaves l @ node_leaves r)"
    and b: "b \<Longrightarrow> node_balanced l \<and> node_balanced r"
    and r: "r = TBranch i rl rr m h q f g" and tall: "sat_add_u16 (node_height l) 1 < node_height r"
    and rec: "runs a n (concat_nodes ops (Some l) (Some rl) a) (joins ops l rl b)"
  shows "runs a (n + 3) (do { (joined, a) \<leftarrow> concat_nodes ops (Some l) (Some rl) a; joined \<leftarrow> joined;
    (t, a) \<leftarrow> rebalance joined rr a; Some (Some t, a) }) (joins ops l r b)"
proof (rule runs_bind [OF rec])
  fix t a' assume t: "joins ops l rl b t a'" "next_id a \<le> next_id a'"
  then obtain j where j: "t = Some j" "node_ok ops (next_id a') j"
    "joined_leaves (node_leaves l) (node_leaves rl) (node_leaves j)"
    "b \<longrightarrow> node_balanced j \<and> max (node_height l) (node_height rl) \<le> node_height j \<and>
        node_height j \<le> max (node_height l) (node_height rl) + 1 \<and>
        (node_leaves j = node_leaves l @ node_leaves rl \<or>
          (node_height l = 1 \<or> node_height rl = 1) \<and> node_height l \<noteq> 2 \<and> node_height rl \<noteq> 2)"
    unfolding joins_def by blast
  have J: "joined_leaves (node_leaves l) (node_leaves r) (node_leaves j @ node_leaves rr)"
    using joined_leaves_append2 [OF j(3)] r by simp
  have rr: "node_ok ops (next_id a') rr" "node_ok ops k rl"
    using ok(2,3) t(2) r node_ok_mono by (fastforce, fastforce)
  have fit: "fits ops (node_entries l)" "fits ops (node_entries r)"
    using span_ok_append [OF ok(4)] by (simp_all add: span_ok_def)
  have hb: "node_height r = max (node_height rl) (node_height rr) + 1" "node_balanced rl" "node_balanced rr"
      "node_height rl \<le> node_height rr + 1" "node_height rr \<le> node_height rl + 1"
      "node_height l + 1 < node_height r" "1 \<le> node_height rl" "1 \<le> node_height rr" "1 \<le> node_height l" if b
    using balanced_child_heights [OF ok(2) r _ fit(2)] b [OF that] r tall
      node_heights [OF ok(1) _ fit(1)] node_height_pos [OF rr(1)] node_height_pos [OF rr(2)] node_height_pos [OF ok(1)]
    by auto
  have "runs a' 3 (do { (t, a) \<leftarrow> rebalance j rr a'; Some (Some t, a) }) (joins ops l r b)"
  proof (rule runs_bind [where k = 0, OF rebalance_runs [OF j(2) rr(1) order.refl joined_leaves_span [OF J ok(4)], where b = b]], goal_cases)
    case 1
    then show ?case using hb j(4) by auto
  next
    case (2 u a'')
    then show ?case unfolding prod.case
      by (intro runs_return) (use J hb j(3,4) r in \<open>auto simp: joins_def rebuilt_def\<close>)
  qed simp
  then show "runs a' 3 ((\<lambda>(joined, a). do { joined \<leftarrow> joined; (t, a) \<leftarrow> rebalance joined rr a; Some (Some t, a) }) (t, a'))
    (joins ops l r b)" by (simp add: j(1))
qed simp

definition leaf_count :: "'e tape_node \<Rightarrow> nat" where
  "leaf_count n = length (node_leaves n)"

lemma leaf_count_simps [simp]:
  "leaf_count (TLeaf x) = 1" "leaf_count (TBranch i l r n h m f g) = leaf_count l + leaf_count r"
  by (simp_all add: leaf_count_def)

lemma leaf_count_pos [simp]: "0 < leaf_count n"
  by (simp add: leaf_count_def)

lemma concat_nodes_runs:
  assumes "node_ok ops k l" "node_ok ops k r" "k \<le> next_id a" "span_ok ops (node_leaves l @ node_leaves r)"
    and "b \<Longrightarrow> node_balanced l \<and> node_balanced r"
  shows "runs a (3 * (leaf_count l + leaf_count r)) (concat_nodes ops (Some l) (Some r) a) (joins ops l r b)"
  using assms
proof (induction "size l + size r" arbitrary: l r a rule: less_induct)
  case less
  note ok = less.prems
  have fit: "fits ops (node_entries l @ node_entries r)" using ok(4) by (simp add: span_ok_def)
  have sat: "sat_add_u16 (node_height l) 1 = node_height l + 1" "sat_add_u16 (node_height r) 1 = node_height r + 1" if b
    using node_heights ok(1,2) fits_append [OF fit] ok(5) [OF that] by blast+
  show ?case
  proof (cases "merged_leaf l r")
    case (Some eo)
    then obtain es order where eo: "merged_leaf l r = Some (es, order)" by (cases eo) auto
    then obtain x y where m: "l = TLeaf x" "r = TLeaf y" "es = leaf_entries x @ leaf_entries y" "order = leaf_order x"
      "length es \<le> LEAF_MAX" by (rule merged_leaf_Some)
    have "runs a 1 (make_leaf ops es order a) (\<lambda>t a'. node_ok ops (next_id a') t \<and> node_height t = 1 \<and>
        node_balanced t \<and> (\<exists>z. node_leaves t = [z] \<and> leaf_order z = order \<and> leaf_entries z = es))"
      by (rule make_leaf_runs) (use ok m fit in auto)
    then have "runs a (3 * (leaf_count l + leaf_count r)) (do { (t, a) \<leftarrow> make_leaf ops es order a; Some (Some t, a) })
        (joins ops l r b)"
      by (rule runs_bind [where k = 0])
        (use m in \<open>auto intro!: runs_return simp: joins_def joined_leaves_def merges_def\<close>)
    then show ?thesis by (simp add: concat_nodes.simps(3) eo)
  next
    case None
    consider (left) "sat_add_u16 (node_height r) 1 < node_height l"
      | (right) "\<not> sat_add_u16 (node_height r) 1 < node_height l" "sat_add_u16 (node_height l) 1 < node_height r"
      | (level) "\<not> sat_add_u16 (node_height r) 1 < node_height l" "\<not> sat_add_u16 (node_height l) 1 < node_height r"
      by blast
    then show ?thesis
    proof cases
      case left
      then have "1 < node_height l" using sat_add_u16_less [OF node_height_pos [OF ok(2)]] by fastforce
      then obtain i ll lr m h q f g where n: "l = TBranch i ll lr m h q f g" "node_ok ops k ll" "node_ok ops k lr"
        by (auto intro: node_is_branch [OF ok(1)])
      have "span_ok ops (node_leaves ll @ node_leaves lr @ node_leaves r)" using ok(4) n(1) by simp
      then have "span_ok ops (node_leaves lr @ node_leaves r)" by (rule span_ok_append)
      then have "runs a (3 * (leaf_count lr + leaf_count r)) (concat_nodes ops (Some lr) (Some r) a) (joins ops lr r b)"
        using less.hyps [of lr r a] n ok(2,3,5) by auto
      from descend_left_runs [OF ok(1-5) n(1) left this]
      have "runs a (3 * (leaf_count l + leaf_count r)) (do { (joined, a) \<leftarrow> concat_nodes ops (Some lr) (Some r) a;
          joined \<leftarrow> joined; (t, a) \<leftarrow> rebalance ll joined a; Some (Some t, a) }) (joins ops l r b)"
        by (rule runs_post) (use n(1) in \<open>auto simp: Suc_le_eq\<close>)
      then show ?thesis using None left n(1) by (simp add: concat_nodes.simps(3))
    next
      case right
      then have "1 < node_height r" using sat_add_u16_less [OF node_height_pos [OF ok(1)]] by fastforce
      then obtain i rl rr m h q f g where n: "r = TBranch i rl rr m h q f g" "node_ok ops k rl" "node_ok ops k rr"
        by (auto intro: node_is_branch [OF ok(2)])
      have "span_ok ops ((node_leaves l @ node_leaves rl) @ node_leaves rr)" using ok(4) n(1) by simp
      then have "span_ok ops (node_leaves l @ node_leaves rl)" by (rule span_ok_append)
      then have "runs a (3 * (leaf_count l + leaf_count rl)) (concat_nodes ops (Some l) (Some rl) a) (joins ops l rl b)"
        using less.hyps [of l rl a] n ok(1,3,5) by auto
      from descend_right_runs [OF ok(1-5) n(1) right(2) this]
      have "runs a (3 * (leaf_count l + leaf_count r)) (do { (joined, a) \<leftarrow> concat_nodes ops (Some l) (Some rl) a;
          joined \<leftarrow> joined; (t, a) \<leftarrow> rebalance joined rr a; Some (Some t, a) }) (joins ops l r b)"
        by (rule runs_post) (use n(1) in \<open>auto simp: Suc_le_eq\<close>)
      then show ?thesis using None right n(1) by (simp add: concat_nodes.simps(3))
    next
      case level
      have "runs a 1 (make_branch l r a) (rebuilt ops (node_leaves l @ node_leaves r) b
          (\<lambda>h. h = max (node_height l) (node_height r) + 1))"
        by (rule rebuilt_branch [OF ok(1,3) ok(2,3) ok(4) refl]) (use ok(5) sat level in auto)
      then have "runs a (3 * (leaf_count l + leaf_count r)) (do { (t, a) \<leftarrow> make_branch l r a; Some (Some t, a) })
          (joins ops l r b)"
        by (rule runs_bind [where k = 0])
          (use leaf_count_pos [of l] in \<open>auto intro!: runs_return simp: joins_def joined_leaves_def rebuilt_def simp del: leaf_count_pos\<close>)
      then show ?thesis using None level by (simp add: concat_nodes.simps(3))
    qed
  qed
qed

section \<open>Splitting\<close>

definition height_opt :: "'e tape_node option \<Rightarrow> nat" where
  "height_opt t = (case t of None \<Rightarrow> 0 | Some n \<Rightarrow> node_height n)"

lemma height_opt_simps [simp]: "height_opt None = 0" "height_opt (Some n) = node_height n"
  by (simp_all add: height_opt_def)

definition opt_balanced :: "'e tape_node option \<Rightarrow> bool" where
  "opt_balanced t \<longleftrightarrow> (\<forall>n. t = Some n \<longrightarrow> node_balanced n)"

lemma opt_balanced_simps [simp]: "opt_balanced None" "opt_balanced (Some n) \<longleftrightarrow> node_balanced n"
  by (simp_all add: opt_balanced_def)

lemma concat_nodes_opt_runs:
  assumes "opt_ok ops k l" "opt_ok ops k r" "k \<le> next_id a" "span_ok ops (leaves_opt l @ leaves_opt r)"
    and "b \<Longrightarrow> opt_balanced l \<and> opt_balanced r"
    and n: "3 * (length (leaves_opt l) + length (leaves_opt r)) \<le> n"
  shows "runs a n (concat_nodes ops l r a) (\<lambda>t a'. opt_ok ops (next_id a') t \<and>
    (t = None \<longleftrightarrow> l = None \<and> r = None) \<and>
    joined_leaves (leaves_opt l) (leaves_opt r) (leaves_opt t) \<and>
    (b \<longrightarrow> opt_balanced t \<and> max (height_opt l) (height_opt r) \<le> height_opt t \<and>
       height_opt t \<le> max (height_opt l) (height_opt r) + 1 \<and>
       (l = None \<longrightarrow> t = r) \<and> (r = None \<longrightarrow> t = l) \<and>
       (leaves_opt t = leaves_opt l @ leaves_opt r \<or>
         (height_opt l = 1 \<or> height_opt r = 1) \<and> height_opt l \<noteq> 2 \<and> height_opt r \<noteq> 2)))"
proof (cases l; cases r)
  fix x y assume "l = Some x" "r = Some y"
  then show ?thesis
    using assms by (auto intro!: runs_post [OF concat_nodes_runs [of ops k x y a b]] simp: leaf_count_def joins_def)
qed (use assms in \<open>auto intro!: runs_return simp: joined_leaves_def intro: opt_ok_mono node_ok_mono\<close>)

lemma joined_leaves_orders: "joined_leaves L R M \<Longrightarrow> leaf_order ` set M \<subseteq> leaf_order ` (set L \<union> set R)"
  by (auto simp: joined_leaves_def merges_def)

text \<open>
  What a split at \<open>rank\<close> of the leaves \<open>L\<close> yields: the entries are cut, the labels stay
  between the first one of \<open>L\<close> and the upper bound, and in a balanced tape each side keeps
  all of its leaves but at most one.
\<close>

definition order_below :: "leaf_order_key option \<Rightarrow> 'e tape_leaf list \<Rightarrow> bool" where
  "order_below upper L \<longleftrightarrow> (\<forall>u. upper = Some u \<longrightarrow> (\<forall>x \<in> set L. leaf_order x < u))"

definition order_from :: "leaf_order_key \<Rightarrow> 'e tape_leaf list \<Rightarrow> bool" where
  "order_from k L \<longleftrightarrow> (\<forall>x \<in> set L. k \<le> leaf_order x)"

lemma order_bounds_simps [simp]:
  "order_below None L" "order_below upper []" "order_from k []"
  "order_below upper (x # L) \<longleftrightarrow> (\<forall>u. upper = Some u \<longrightarrow> leaf_order x < u) \<and> order_below upper L"
  "order_from k (x # L) \<longleftrightarrow> k \<le> leaf_order x \<and> order_from k L"
  "order_below upper (L @ M) \<longleftrightarrow> order_below upper L \<and> order_below upper M"
  "order_from k (L @ M) \<longleftrightarrow> order_from k L \<and> order_from k M"
  by (auto simp: order_below_def order_from_def)

lemma joined_leaves_bounds:
  "joined_leaves L R M \<Longrightarrow> order_below u (L @ R) \<Longrightarrow> order_below u M"
  "joined_leaves L R M \<Longrightarrow> order_from k (L @ R) \<Longrightarrow> order_from k M"
  by (auto simp: joined_leaves_def merges_def)

definition cut_near :: "'e tape_leaf list \<Rightarrow> 'e tape_leaf list \<Rightarrow> 'e tape_leaf list \<Rightarrow> bool" where
  "cut_near L A B \<longleftrightarrow> (\<exists>P X Z. L = P @ Z \<and> A = P @ X \<and> length X \<le> 1) \<and>
     (\<exists>Y S Z. L = Z @ S \<and> B = Y @ S \<and> length Y \<le> 1)"

lemma cut_near_trivial [simp]: "cut_near L [] L" "cut_near L L []"
  unfolding cut_near_def
  by (intro conjI exI [of _ "[]"] exI [of _ L]; simp)+

lemma cut_near_leaf [simp]: "cut_near [x] [y] [z]"
  unfolding cut_near_def
  by (rule conjI, (rule exI [of _ "[]"], rule exI [of _ "[y]"], simp), (rule exI [of _ "[z]"], rule exI [of _ "[]"], simp))

definition splits :: "'e entry_ops \<Rightarrow> 'e tape_node \<Rightarrow> nat \<Rightarrow> leaf_order_key option \<Rightarrow> bool \<Rightarrow>
    'e tape_node option \<times> 'e tape_node option \<Rightarrow> tape_id_allocator \<Rightarrow> bool" where
  "splits ops n rank upper b lr a \<longleftrightarrow> (case lr of (l, r) \<Rightarrow>
     opt_ok ops (next_id a) l \<and> opt_ok ops (next_id a) r \<and>
     (l = None \<longleftrightarrow> rank = 0) \<and> (r = None \<longleftrightarrow> node_len n \<le> rank) \<and>
     entries_of (leaves_opt l) = take rank (node_entries n) \<and>
     entries_of (leaves_opt r) = drop rank (node_entries n) \<and>
     sorted_wrt (<) (map leaf_order (leaves_opt l @ leaves_opt r)) \<and>
     order_from (first_order n) (leaves_opt l @ leaves_opt r) \<and>
     order_below upper (leaves_opt l @ leaves_opt r) \<and>
     length (leaves_opt l) \<le> leaf_count n \<and> length (leaves_opt r) \<le> leaf_count n \<and>
     (b \<longrightarrow> opt_balanced l \<and> opt_balanced r \<and> height_opt l \<le> node_height n \<and> height_opt r \<le> node_height n \<and>
        cut_near (node_leaves n) (leaves_opt l) (leaves_opt r)))"

lemma node_orders_from: "node_ok ops k n \<Longrightarrow> order_from (first_order n) (node_leaves n)"
  using sorted_first_last [OF node_leaves_sorted, of ops k n]
  by (fastforce simp: order_from_def first_order_hd hd_map)

lemma node_orders_below:
  "node_ok ops k n \<Longrightarrow> (\<And>u. upper = Some u \<Longrightarrow> last_order n < u) \<Longrightarrow> order_below upper (node_leaves n)"
  using sorted_first_last [OF node_leaves_sorted, of ops k n]
  by (fastforce simp: order_below_def last_order_last last_map)

lemma splits_trivial:
  assumes "node_ok ops k n" "k \<le> next_id a" "\<And>u. upper = Some u \<Longrightarrow> last_order n < u" "b \<Longrightarrow> node_balanced n"
  shows "rank = 0 \<Longrightarrow> splits ops n rank upper b (None, Some n) a"
    "node_len n \<le> rank \<Longrightarrow> splits ops n rank upper b (Some n, None) a"
  using assms node_leaves_sorted [OF assms(1)] node_orders_from [OF assms(1)]
    node_orders_below [OF assms(1), of upper] node_len_entries [OF assms(1)]
    node_entries_nonempty [OF assms(1), folded length_greater_0_conv]
  by (auto simp: splits_def leaf_count_def intro: node_ok_mono simp del: length_greater_0_conv)

lemma split_leaf_runs:
  assumes "node_ok ops k (TLeaf x)" "k \<le> next_id a" "fits ops (leaf_entries x)"
    and u: "\<And>u. upper = Some u \<Longrightarrow> leaf_order x < u" and rank: "0 < rank" "rank < length (leaf_entries x)"
  shows "runs a 2 (tape_split_node ops (TLeaf x) rank upper a) (splits ops (TLeaf x) rank upper b)"
proof -
  let ?es = "leaf_entries x"
  have fit: "fits ops (take rank ?es)" "fits ops (drop rank ?es)"
    using assms(3) fits_append [of ops "take rank ?es" "drop rank ?es"] by simp_all
  have pos: "order_bits u \<noteq> []" if "upper = Some u" for u using u [OF that] by (rule greater_positive)
  obtain o2 where o2: "key_between (Some (leaf_order x)) upper = Some o2" "order_bits o2 \<noteq> []" "leaf_order x < o2"
      "\<forall>u. upper = Some u \<longrightarrow> o2 < u"
    using key_between_returns [of "Some (leaf_order x)" upper] u pos by auto
  have "runs a 2 (do {
      (l, a) \<leftarrow> make_leaf ops (take rank ?es) (leaf_order x) a;
      right_order \<leftarrow> key_between (Some (leaf_order x)) upper;
      (r, a) \<leftarrow> make_leaf ops (drop rank ?es) right_order a;
      Some ((Some l, Some r), a) }) (splits ops (TLeaf x) rank upper b)"
  proof (rule runs_bind [OF make_leaf_runs])
    fix l :: "'a tape_node" and a' :: tape_id_allocator
    assume l: "node_ok ops (next_id a') l \<and> node_height l = 1 \<and> node_balanced l \<and>
      (\<exists>y. node_leaves l = [y] \<and> leaf_order y = leaf_order x \<and> leaf_entries y = take rank ?es)"
    have "runs a' 1 (do { (r, a) \<leftarrow> make_leaf ops (drop rank ?es) o2 a'; Some ((Some l, Some r), a) })
      (splits ops (TLeaf x) rank upper b)"
    proof (rule runs_bind [where k = 0, OF make_leaf_runs])
      fix r :: "'a tape_node" and a'' :: tape_id_allocator
      assume r: "node_ok ops (next_id a'') r \<and> node_height r = 1 \<and> node_balanced r \<and>
        (\<exists>y. node_leaves r = [y] \<and> leaf_order y = o2 \<and> leaf_entries y = drop rank ?es)"
        and a'': "next_id a' \<le> next_id a''"
      have "node_ok ops (next_id a'') l" using l a'' node_ok_mono by blast
      then show "runs a'' 0 ((\<lambda>(r, a). Some ((Some l, Some r), a)) (r, a'')) (splits ops (TLeaf x) rank upper b)"
        unfolding prod.case using l r o2 u rank
        by (intro runs_return) (auto simp: splits_def order.strict_implies_order)
    qed (use assms o2 fit rank in auto)
    then show "runs a' 1 ((\<lambda>(l, a). do { right_order \<leftarrow> key_between (Some (leaf_order x)) upper;
        (r, a) \<leftarrow> make_leaf ops (drop rank ?es) right_order a; Some ((Some l, Some r), a) }) (l, a'))
      (splits ops (TLeaf x) rank upper b)" by (simp add: o2(1))
  qed (use assms fit rank in auto)
  then show ?thesis using rank by simp
qed

text \<open>
  How a cut of one child extends to the branch: the joined side keeps the leaves away from
  the cut. In a balanced branch the leaf that may be merged is next to the cut.
\<close>

lemma single_leaf: "node_ok ops k n \<Longrightarrow> node_height n = 1 \<Longrightarrow> \<exists>x. node_leaves n = [x]"
  by (cases n) (auto simp: sat_add_u16_def dest: node_height_pos)

lemma single_leaf_opt: "opt_ok ops k t \<Longrightarrow> height_opt t = 1 \<Longrightarrow> \<exists>x. leaves_opt t = [x]"
  by (cases t) (auto dest: single_leaf)

lemma cut_near_left:
  assumes "cut_near L A B" "joined_leaves B R M"
    and "M = B @ R \<or> (\<exists>x. B = [x])"
  shows "cut_near (L @ R) A M"
proof -
  obtain P X Z where a: "L = P @ Z" "A = P @ X" "length X \<le> 1" using assms(1) by (auto simp: cut_near_def)
  obtain Y S W where b: "L = W @ S" "B = Y @ S" "length Y \<le> 1" using assms(1) by (auto simp: cut_near_def)
  have "\<exists>Y S Z. L @ R = Z @ S \<and> M = Y @ S \<and> length Y \<le> 1"
  proof (cases "M = B @ R")
    case True
    then show ?thesis using b by (intro exI [of _ Y] exI [of _ "S @ R"] exI [of _ W]) auto
  next
    case False
    then obtain x y R' z where "B = [x]" "R = y # R'" "M = z # R'"
      using assms(2,3) by (auto simp: joined_leaves_def)
    then show ?thesis by (intro exI [of _ "[z]"] exI [of _ R'] exI [of _ "L @ [y]"]) auto
  qed
  moreover have "\<exists>P X Z. L @ R = P @ Z \<and> A = P @ X \<and> length X \<le> 1"
    using a by (intro exI [of _ P] exI [of _ X] exI [of _ "Z @ R"]) auto
  ultimately show ?thesis by (simp add: cut_near_def)
qed

lemma cut_near_right:
  assumes "cut_near R A B" "joined_leaves L A M"
    and "M = L @ A \<or> (\<exists>x. A = [x])"
  shows "cut_near (L @ R) M B"
proof -
  obtain P X Z where a: "R = P @ Z" "A = P @ X" "length X \<le> 1" using assms(1) by (auto simp: cut_near_def)
  obtain Y S W where b: "R = W @ S" "B = Y @ S" "length Y \<le> 1" using assms(1) by (auto simp: cut_near_def)
  have "\<exists>P X Z. L @ R = P @ Z \<and> M = P @ X \<and> length X \<le> 1"
  proof (cases "M = L @ A")
    case True
    then show ?thesis using a by (intro exI [of _ "L @ P"] exI [of _ X] exI [of _ Z]) auto
  next
    case False
    then obtain x y L' z where "A = [x]" "L = L' @ [y]" "M = L' @ [z]"
      using assms(2,3) by (auto simp: joined_leaves_def)
    then show ?thesis by (intro exI [of _ L'] exI [of _ "[z]"] exI [of _ "y # R"]) auto
  qed
  moreover have "\<exists>Y S Z. L @ R = Z @ S \<and> B = Y @ S \<and> length Y \<le> 1"
    using b by (intro exI [of _ Y] exI [of _ S] exI [of _ "L @ W"]) auto
  ultimately show ?thesis by (simp add: cut_near_def)
qed

lemma split_cost_step:
  assumes "x < y"
  shows "3 * x ^ 2 + 3 * y \<le> 3 * (y :: nat) ^ 2"
proof -
  obtain m where m: "y = Suc m" "x \<le> m" using assms by (cases y) auto
  then have "x * x \<le> m * m" by (simp add: mult_le_mono)
  then show ?thesis using m(1) by (simp add: power2_eq_square)
qed

lemma order_from_trans: "order_from k L \<Longrightarrow> j \<le> k \<Longrightarrow> order_from j L"
  by (auto simp: order_from_def)

lemma order_below_trans: "order_below (Some k) L \<Longrightarrow> (\<And>u. upper = Some u \<Longrightarrow> k < u) \<Longrightarrow> order_below upper L"
  by (auto simp: order_below_def dest: less_trans)

lemma order_below_from: "order_below (Some k) L \<Longrightarrow> order_from k M \<Longrightarrow> x \<in> set L \<Longrightarrow> y \<in> set M \<Longrightarrow>
    leaf_order x < leaf_order y"
  unfolding order_below_def order_from_def by (metis less_le_trans)

lemma first_le_last: "node_ok ops k n \<Longrightarrow> first_order n \<le> last_order n"
  using sorted_first_last [OF node_leaves_sorted, of ops k n "leaf_order (hd (node_leaves n))"]
  by (simp add: first_order_hd last_order_last last_map)

lemma sorted_joined:
  assumes "joined_leaves B R M" "span_ok ops (B @ R)" "sorted_wrt (<) (map leaf_order A)"
    and "\<forall>x \<in> set A. \<forall>y \<in> set (B @ R). leaf_order x < leaf_order y"
  shows "sorted_wrt (<) (map leaf_order (A @ M))"
proof -
  have "leaf_order x < leaf_order y" if "x \<in> set A" "y \<in> set M" for x y
  proof -
    have "leaf_order y \<in> leaf_order ` (set B \<union> set R)" using joined_leaves_orders [OF assms(1)] that(2) by blast
    then show ?thesis using assms(4) that(1) by auto
  qed
  moreover have "sorted_wrt (<) (map leaf_order M)"
    using joined_leaves_span [OF assms(1,2)] by (simp add: span_ok_def)
  ultimately show ?thesis using assms(3) by (auto simp: sorted_wrt_append)
qed

lemma sorted_joined2:
  assumes "joined_leaves L A M" "span_ok ops (L @ A)" "sorted_wrt (<) (map leaf_order B)"
    and "\<forall>x \<in> set (L @ A). \<forall>y \<in> set B. leaf_order x < leaf_order y"
  shows "sorted_wrt (<) (map leaf_order (M @ B))"
proof -
  have "leaf_order x < leaf_order y" if "x \<in> set M" "y \<in> set B" for x y
  proof -
    have "leaf_order x \<in> leaf_order ` (set L \<union> set A)" using joined_leaves_orders [OF assms(1)] that(1) by blast
    then show ?thesis using assms(4) that(2) by auto
  qed
  moreover have "sorted_wrt (<) (map leaf_order M)"
    using joined_leaves_span [OF assms(1,2)] by (simp add: span_ok_def)
  ultimately show ?thesis using assms(3) by (auto simp: sorted_wrt_append)
qed

text \<open>A cut in the left child, whose right part is joined with the right child.\<close>

lemma splits_left:
  assumes n: "node_ok ops k n" "n = TBranch i l r m h q f g" "fits ops (node_entries n)"
    and s: "splits ops l rank (Some (first_order r)) b (p, mid) a" and rank: "0 < rank" "rank < node_len l"
  shows "span_ok ops (leaves_opt mid @ node_leaves r)"
    and "opt_ok ops k2 p \<Longrightarrow> opt_ok ops k2 t \<Longrightarrow> t \<noteq> None \<Longrightarrow> k2 = next_id a2 \<Longrightarrow>
      (\<And>u. upper = Some u \<Longrightarrow> last_order n < u) \<Longrightarrow>
      joined_leaves (leaves_opt mid) (node_leaves r) (leaves_opt t) \<Longrightarrow>
      (b \<longrightarrow> node_balanced n \<and> opt_balanced t \<and> height_opt t \<le> max (height_opt mid) (node_height r) + 1 \<and>
        (leaves_opt t = leaves_opt mid @ node_leaves r \<or>
         (height_opt mid = 1 \<or> node_height r = 1) \<and> height_opt mid \<noteq> 2 \<and> node_height r \<noteq> 2)) \<Longrightarrow>
      splits ops n rank upper b (p, t) a2"
proof -
  let ?A = "leaves_opt p" and ?B = "leaves_opt mid" and ?R = "node_leaves r"
  have c: "node_ok ops k l" "node_ok ops k r" "last_order l < first_order r" "f = first_order l" "g = last_order r"
    using n(1,2) by auto
  have S: "opt_ok ops (next_id a) mid" "p \<noteq> None" "mid \<noteq> None"
    "entries_of ?A = take rank (node_entries l)" "entries_of ?B = drop rank (node_entries l)"
    "sorted_wrt (<) (map leaf_order (?A @ ?B))" "order_from (first_order l) (?A @ ?B)"
    "order_below (Some (first_order r)) (?A @ ?B)" "length ?A \<le> leaf_count l" "length ?B \<le> leaf_count l"
    "b \<longrightarrow> opt_balanced p \<and> height_opt p \<le> node_height l \<and> height_opt mid \<le> node_height l \<and>
      cut_near (node_leaves l) ?A ?B"
    using s rank by (auto simp: splits_def)
  have R: "order_from (first_order r) ?R" "sorted_wrt (<) (map leaf_order ?R)"
    using node_orders_from [OF c(2)] node_leaves_sorted [OF c(2)] .
  have less: "leaf_order x < leaf_order y" if "x \<in> set (?A @ ?B)" "y \<in> set ?R" for x y
    using order_below_from [OF S(8) R(1) that] .
  have "node_entries n = take rank (node_entries l) @ entries_of (?B @ ?R)" using n(2) S(5) by simp
  then have "fits ops (entries_of (?B @ ?R))" using n(3) fits_append(2) by metis
  then show span: "span_ok ops (?B @ ?R)"
    using S(6) R(2) less by (auto simp: span_ok_def sorted_wrt_append)
  assume t: "opt_ok ops k2 p" "opt_ok ops k2 t" "t \<noteq> None" "k2 = next_id a2"
    "\<And>u. upper = Some u \<Longrightarrow> last_order n < u" "joined_leaves ?B ?R (leaves_opt t)"
    and b: "b \<longrightarrow> node_balanced n \<and> opt_balanced t \<and> height_opt t \<le> max (height_opt mid) (node_height r) + 1 \<and>
        (leaves_opt t = ?B @ ?R \<or>
         (height_opt mid = 1 \<or> node_height r = 1) \<and> height_opt mid \<noteq> 2 \<and> node_height r \<noteq> 2)"
  have sorted: "sorted_wrt (<) (map leaf_order (?A @ leaves_opt t))"
    by (rule sorted_joined [OF t(6) span]) (use S(6) less in \<open>auto simp: sorted_wrt_append\<close>)
  have first: "first_order l \<le> first_order r" using first_le_last [OF c(1)] c(3) by simp
  have "order_from (first_order l) (?B @ ?R)" "order_from (first_order l) ?A"
    using S(7) order_from_trans [OF R(1) first] by simp_all
  then have from_: "order_from (first_order n) (?A @ leaves_opt t)"
    using joined_leaves_bounds(2) [OF t(6)] n(2) c(4) by simp
  have "first_order r < u" if "upper = Some u" for u
    using t(5) [OF that] first_le_last [OF c(2)] n(2) c(5) by simp
  then have "order_below upper (?A @ ?B)" using order_below_trans [OF S(8)] by blast
  moreover have "order_below upper ?R" using t(5) n(2) c(5) by (intro node_orders_below [OF c(2)]) simp
  ultimately have below: "order_below upper (?A @ leaves_opt t)"
    using joined_leaves_bounds(1) [OF t(6)] by simp
  have count: "length (leaves_opt t) \<le> leaf_count n"
    using joined_leaves_length [OF t(6)] S(10) n(2) by (simp add: leaf_count_def)
  have bal: "opt_balanced p \<and> opt_balanced t \<and> height_opt p \<le> node_height n \<and> height_opt t \<le> node_height n \<and>
        cut_near (node_leaves n) ?A (leaves_opt t)" if b
  proof -
    have h: "h = max (node_height l) (node_height r) + 1" using balanced_child_heights [OF n(1,2) _ n(3)] b that by auto
    have near: "cut_near (node_leaves l) ?A ?B" using S(11) that by blast
    have "leaves_opt t = ?B @ ?R \<or> (\<exists>x. ?B = [x])"
    proof (rule disjCI)
      assume "\<nexists>x. ?B = [x]"
      then have "height_opt mid \<noteq> 1" using single_leaf_opt [OF S(1)] by blast
      moreover have "1 \<le> height_opt mid" using S(1,3) by (auto simp: dest: node_height_pos)
      moreover have "node_height l \<le> node_height r + 1" "height_opt mid \<le> node_height l" using b that n(2) S(11) by auto
      ultimately show "leaves_opt t = ?B @ ?R" using b that by auto
    qed
    from cut_near_left [OF near t(6) this] show ?thesis using S(11) b that h n(2) by auto
  qed
  show "splits ops n rank upper b (p, t) a2"
    using t(1-4) S rank n(2) c joined_leaves_entries [OF t(6)] sorted from_ below count bal
      node_len_entries [OF c(1)] node_len_entries [OF c(2)] node_len_entries [OF n(1)]
    by (auto simp: splits_def)
qed

text \<open>A cut in the right child, whose left part is joined with the left child.\<close>

lemma splits_right:
  assumes n: "node_ok ops k n" "n = TBranch i l r m h q f g" "fits ops (node_entries n)"
    and s: "splits ops r (rank - node_len l) upper b (mid, p) a" and rank: "node_len l \<le> rank" "rank < node_len n"
  shows "span_ok ops (node_leaves l @ leaves_opt mid)"
    and "opt_ok ops k2 p \<Longrightarrow> opt_ok ops k2 t \<Longrightarrow> t \<noteq> None \<Longrightarrow> k2 = next_id a2 \<Longrightarrow>
      (\<And>u. upper = Some u \<Longrightarrow> last_order n < u) \<Longrightarrow>
      joined_leaves (node_leaves l) (leaves_opt mid) (leaves_opt t) \<Longrightarrow>
      (b \<longrightarrow> node_balanced n \<and> opt_balanced t \<and> height_opt t \<le> max (node_height l) (height_opt mid) + 1 \<and>
        (mid = None \<longrightarrow> t = Some l) \<and>
        (leaves_opt t = node_leaves l @ leaves_opt mid \<or>
         (node_height l = 1 \<or> height_opt mid = 1) \<and> node_height l \<noteq> 2 \<and> height_opt mid \<noteq> 2)) \<Longrightarrow>
      splits ops n rank upper b (t, p) a2"
proof -
  let ?A = "leaves_opt mid" and ?B = "leaves_opt p" and ?L = "node_leaves l"
  have c: "node_ok ops k l" "node_ok ops k r" "last_order l < first_order r" "f = first_order l" "g = last_order r"
      "node_len n = node_len l + node_len r"
    using n(1,2) by auto
  have S: "opt_ok ops (next_id a) mid" "p \<noteq> None" "mid = None \<longleftrightarrow> rank = node_len l"
    "entries_of ?A = take (rank - node_len l) (node_entries r)" "entries_of ?B = drop (rank - node_len l) (node_entries r)"
    "sorted_wrt (<) (map leaf_order (?A @ ?B))" "order_from (first_order r) (?A @ ?B)"
    "order_below upper (?A @ ?B)" "length ?A \<le> leaf_count r" "length ?B \<le> leaf_count r"
    "b \<longrightarrow> opt_balanced p \<and> height_opt mid \<le> node_height r \<and> height_opt p \<le> node_height r \<and>
      cut_near (node_leaves r) ?A ?B"
    using s rank c(6) by (auto simp: splits_def)
  have L: "order_below (Some (first_order r)) ?L" "sorted_wrt (<) (map leaf_order ?L)"
    using node_orders_below [OF c(1), of "Some (first_order r)"] c(3) node_leaves_sorted [OF c(1)] by simp_all
  have less: "leaf_order x < leaf_order y" if "x \<in> set ?L" "y \<in> set (?A @ ?B)" for x y
    using order_below_from [OF L(1) S(7) that] .
  have "node_entries n = entries_of (?L @ ?A) @ drop (rank - node_len l) (node_entries r)" using n(2) S(4) by simp
  then have "fits ops (entries_of (?L @ ?A))" using n(3) fits_append(1) by metis
  then show span: "span_ok ops (?L @ ?A)"
    using S(6) L(2) less by (auto simp: span_ok_def sorted_wrt_append)
  assume t: "opt_ok ops k2 p" "opt_ok ops k2 t" "t \<noteq> None" "k2 = next_id a2"
    "\<And>u. upper = Some u \<Longrightarrow> last_order n < u" "joined_leaves ?L ?A (leaves_opt t)"
    and b: "b \<longrightarrow> node_balanced n \<and> opt_balanced t \<and> height_opt t \<le> max (node_height l) (height_opt mid) + 1 \<and>
        (mid = None \<longrightarrow> t = Some l) \<and>
        (leaves_opt t = ?L @ ?A \<or>
         (node_height l = 1 \<or> height_opt mid = 1) \<and> node_height l \<noteq> 2 \<and> height_opt mid \<noteq> 2)"
  have sorted: "sorted_wrt (<) (map leaf_order (leaves_opt t @ ?B))"
    by (rule sorted_joined2 [OF t(6) span]) (use S(6) less in \<open>auto simp: sorted_wrt_append\<close>)
  have first: "first_order l \<le> first_order r" using first_le_last [OF c(1)] c(3) by simp
  have "order_from (first_order l) (?L @ ?A)" "order_from (first_order l) ?B"
    using node_orders_from [OF c(1)] order_from_trans [OF S(7) first] by simp_all
  then have from_: "order_from (first_order n) (leaves_opt t @ ?B)"
    using joined_leaves_bounds(2) [OF t(6)] n(2) c(4) by simp
  have "first_order r < u" if "upper = Some u" for u
    using t(5) [OF that] first_le_last [OF c(2)] n(2) c(5) by simp
  then have "order_below upper ?L" using order_below_trans [OF L(1)] by blast
  then have below: "order_below upper (leaves_opt t @ ?B)"
    using joined_leaves_bounds(1) [OF t(6)] S(8) by simp
  have count: "length (leaves_opt t) \<le> leaf_count n"
    using joined_leaves_length [OF t(6)] S(9) n(2) by (simp add: leaf_count_def)
  have bal: "opt_balanced p \<and> opt_balanced t \<and> height_opt p \<le> node_height n \<and> height_opt t \<le> node_height n \<and>
        cut_near (node_leaves n) (leaves_opt t) ?B" if b
  proof -
    have h: "h = max (node_height l) (node_height r) + 1" using balanced_child_heights [OF n(1,2) _ n(3)] b that by auto
    have near: "cut_near (node_leaves r) ?A ?B" using S(11) that by blast
    have "leaves_opt t = ?L @ ?A \<or> (\<exists>x. ?A = [x])"
    proof (rule disjCI)
      assume no: "\<nexists>x. ?A = [x]"
      show "leaves_opt t = ?L @ ?A"
      proof (cases "mid = None")
        case True
        then show ?thesis using b that by simp
      next
        case False
        have "height_opt mid \<noteq> 1" using no single_leaf_opt [OF S(1)] by blast
        moreover have "1 \<le> height_opt mid" using S(1) False by (auto simp: dest: node_height_pos)
        moreover have "node_height r \<le> node_height l + 1" "height_opt mid \<le> node_height r" using b that n(2) S(11) by auto
        ultimately show ?thesis using b that by auto
      qed
    qed
    from cut_near_right [OF near t(6) this] show ?thesis using S(11) b that h n(2) by auto
  qed
  show "splits ops n rank upper b (t, p) a2"
    using t(1-4) S rank n(2) c joined_leaves_entries [OF t(6)] sorted from_ below count bal
      node_len_entries [OF c(1)] node_len_entries [OF c(2)] node_len_entries [OF n(1)] node_entries_nonempty [OF c(1)]
    by (auto simp: splits_def)
qed

lemma tape_split_node_runs:
  assumes "node_ok ops k n" "k \<le> next_id a" "fits ops (node_entries n)"
    and "\<And>u. upper = Some u \<Longrightarrow> last_order n < u" and "b \<Longrightarrow> node_balanced n"
  shows "runs a (3 * (leaf_count n)\<^sup>2) (tape_split_node ops n rank upper a) (splits ops n rank upper b)"
  using assms
proof (induction n arbitrary: rank upper a)
  case (TLeaf x)
  note trivial = splits_trivial [OF TLeaf.prems(1,2,4,5)]
  consider "rank = 0" | "length (leaf_entries x) \<le> rank" | "0 < rank" "rank < length (leaf_entries x)" by linarith
  then show ?case
  proof cases
    case 3
    have "runs a 2 (tape_split_node ops (TLeaf x) rank upper a) (splits ops (TLeaf x) rank upper b)"
      by (rule split_leaf_runs [OF TLeaf.prems(1,2)]) (use TLeaf.prems 3 in auto)
    then show ?thesis by (rule runs_post) auto
  qed (use trivial in \<open>auto intro!: runs_return\<close>)
next
  case (TBranch i l r m h q f g)
  let ?n = "TBranch i l r m h q f g"
  note trivial = splits_trivial [OF TBranch.prems(1,2,4,5)]
  have c: "node_ok ops k l" "node_ok ops k r" "last_order l < first_order r" "m = node_len l + node_len r"
      "g = last_order r"
    using TBranch.prems(1) by auto
  have fit: "fits ops (node_entries l)" "fits ops (node_entries r)"
    using TBranch.prems(3) by (auto dest: fits_append)
  have lc: "leaf_count l < leaf_count ?n" "leaf_count r < leaf_count ?n"
    using leaf_count_pos [of l] leaf_count_pos [of r] by auto
  consider "rank = 0" | "m \<le> rank" | (left) "0 < rank" "rank < node_len l" "rank < m"
    | (right) "0 < rank" "node_len l \<le> rank" "rank < m" using c(4) by linarith
  then show ?case
  proof cases
    case left
    have rec: "runs a (3 * (leaf_count l)\<^sup>2) (tape_split_node ops l rank (Some (first_order r)) a)
        (splits ops l rank (Some (first_order r)) b)"
      by (rule TBranch.IH(1) [OF c(1) TBranch.prems(2) fit(1)]) (use c TBranch.prems(5) in auto)
    have "runs a (3 * (leaf_count ?n)\<^sup>2) (do {
        ((prefix, middle), a) \<leftarrow> tape_split_node ops l rank (Some (first_order r)) a;
        (suffix, a) \<leftarrow> concat_nodes ops middle (Some r) a;
        Some ((prefix, suffix), a) }) (splits ops ?n rank upper b)"
    proof (rule runs_bind [where k = "3 * leaf_count ?n", OF rec])
      fix pm a' assume s: "splits ops l rank (Some (first_order r)) b pm a'" "next_id a \<le> next_id a'"
      obtain p mid where pm: "pm = (p, mid)" by (cases pm)
      note S = s(1) [unfolded pm]
      have ok: "opt_ok ops (next_id a') mid" "opt_ok ops (next_id a') p" "opt_ok ops (next_id a') (Some r)"
        "length (leaves_opt mid) \<le> leaf_count l" "b \<Longrightarrow> opt_balanced mid \<and> opt_balanced (Some r)"
        using S c(2) TBranch.prems(2,5) s(2) by (auto simp: splits_def intro: node_ok_mono)
      note span = splits_left(1) [OF TBranch.prems(1) refl TBranch.prems(3) S left(1,2)]
      have "runs a' (3 * leaf_count ?n) (do { (suffix, a) \<leftarrow> concat_nodes ops mid (Some r) a'; Some ((p, suffix), a) })
        (splits ops ?n rank upper b)"
      proof (rule runs_bind [where k = 0, OF concat_nodes_opt_runs [where n = "3 * leaf_count ?n" and b = b, OF ok(1,3) order.refl _ ok(5)]], goal_cases)
        case (4 t a'')
        then show ?case unfolding prod.case
          by (intro runs_return splits_left(2) [OF TBranch.prems(1) refl TBranch.prems(3) S left(1,2)
                opt_ok_mono [OF ok(2)] _ _ refl TBranch.prems(4)])
            (use TBranch.prems(5) in auto)
      qed (use span ok(4) in \<open>auto simp: leaf_count_def\<close>)
      then show "runs a' (3 * leaf_count ?n) ((\<lambda>((prefix, middle), a). do {
          (suffix, a) \<leftarrow> concat_nodes ops middle (Some r) a; Some ((prefix, suffix), a) }) (pm, a'))
        (splits ops ?n rank upper b)" by (simp add: pm)
    qed (rule split_cost_step [OF lc(1)])
    then show ?thesis using left by simp
  next
    case right
    have rec: "runs a (3 * (leaf_count r)\<^sup>2) (tape_split_node ops r (rank - node_len l) upper a)
        (splits ops r (rank - node_len l) upper b)"
      by (rule TBranch.IH(2) [OF c(2) TBranch.prems(2) fit(2)]) (use c TBranch.prems(4,5) in auto)
    have "runs a (3 * (leaf_count ?n)\<^sup>2) (do {
        ((middle, suffix), a) \<leftarrow> tape_split_node ops r (rank - node_len l) upper a;
        (prefix, a) \<leftarrow> concat_nodes ops (Some l) middle a;
        Some ((prefix, suffix), a) }) (splits ops ?n rank upper b)"
    proof (rule runs_bind [where k = "3 * leaf_count ?n", OF rec])
      fix pm a' assume s: "splits ops r (rank - node_len l) upper b pm a'" "next_id a \<le> next_id a'"
      obtain mid p where pm: "pm = (mid, p)" by (cases pm)
      note S = s(1) [unfolded pm]
      have rank: "rank < node_len ?n" using right(3) by simp
      have ok: "opt_ok ops (next_id a') (Some l)" "opt_ok ops (next_id a') mid" "opt_ok ops (next_id a') p"
        "length (leaves_opt mid) \<le> leaf_count r" "b \<Longrightarrow> opt_balanced (Some l) \<and> opt_balanced mid"
        using S c(1) TBranch.prems(2,5) s(2) by (auto simp: splits_def intro: node_ok_mono)
      note span = splits_right(1) [OF TBranch.prems(1) refl TBranch.prems(3) S right(2) rank]
      have "runs a' (3 * leaf_count ?n) (do { (prefix, a) \<leftarrow> concat_nodes ops (Some l) mid a'; Some ((prefix, p), a) })
        (splits ops ?n rank upper b)"
      proof (rule runs_bind [where k = 0, OF concat_nodes_opt_runs [where n = "3 * leaf_count ?n" and b = b, OF ok(1,2) order.refl _ ok(5)]], goal_cases)
        case (4 t a'')
        then show ?case unfolding prod.case
          by (intro runs_return splits_right(2) [OF TBranch.prems(1) refl TBranch.prems(3) S right(2) rank
                opt_ok_mono [OF ok(3)] _ _ refl TBranch.prems(4)])
            (use TBranch.prems(5) in auto)
      qed (use span ok(4) in \<open>auto simp: leaf_count_def\<close>)
      then show "runs a' (3 * leaf_count ?n) ((\<lambda>((middle, suffix), a). do {
          (prefix, a) \<leftarrow> concat_nodes ops (Some l) middle a; Some ((prefix, suffix), a) }) (pm, a'))
        (splits ops ?n rank upper b)" by (simp add: pm)
    qed (rule split_cost_step [OF lc(2)])
    then show ?thesis using right by simp
  qed (use trivial in \<open>auto intro!: runs_return\<close>)
qed

end
