(* ===== verification/Tape_Splice.thy ===== *)
theory Tape_Splice
  imports Tape_Ops
begin

text \<open>
  Correctness of the tape operations (\<^verbatim>\<open>src/framework/tape.rs\<close>): every operation returns
  on well-formed tapes within the bounds of the machine, and computes what its list
  counterpart computes. \<open>tape_leaves\<close> is followed through \<open>splice\<close> so that the index of
  the next theory knows which leaves survive.
\<close>

section \<open>Well-formed tapes\<close>

definition tape_balanced :: "'e stable_tape \<Rightarrow> bool" where
  "tape_balanced t \<longleftrightarrow> opt_balanced (tape_root t)"

lemma tape_new_ok [simp]: "tape_ok ops a tape_new" "tape_balanced tape_new"
  by (simp_all add: tape_ok_def tape_balanced_def tape_new_def)

section \<open>Building\<close>

text \<open>
  \<open>few b ns\<close>: at most four nodes, low enough to be paired without losing the balance. From
  five leaves on, the last one can meet a much taller node.
\<close>

definition few :: "bool \<Rightarrow> 'e tape_node list \<Rightarrow> bool" where
  "few b ns \<longleftrightarrow> (b \<longrightarrow> (\<forall>n \<in> set ns. node_balanced n) \<and>
     (length ns \<le> 1 \<or> length ns = 2 \<and> (\<forall>n \<in> set ns. node_height n \<in> {1, 2}) \<or>
      length ns \<le> 4 \<and> (\<forall>n \<in> set ns. node_height n = 1)))"

definition nodes_over :: "'e entry_ops \<Rightarrow> nat \<Rightarrow> 'e tape_leaf list \<Rightarrow> 'e tape_node list \<Rightarrow> bool" where
  "nodes_over ops k L ns \<longleftrightarrow> (\<forall>n \<in> set ns. node_ok ops k n) \<and> concat (map node_leaves ns) = L"

lemma nodes_over_simps [simp]:
  "nodes_over ops k L [] \<longleftrightarrow> L = []"
  "nodes_over ops k L (n # ns) \<longleftrightarrow> node_ok ops k n \<and> (\<exists>M. nodes_over ops k M ns \<and> L = node_leaves n @ M)"
  by (auto simp: nodes_over_def)

lemma nodes_over_mono: "nodes_over ops k L ns \<Longrightarrow> k \<le> k' \<Longrightarrow> nodes_over ops k' L ns"
  by (auto simp: nodes_over_def intro: node_ok_mono)

lemma pair_level_runs:
  assumes "nodes_over ops k L ns" "k \<le> next_id a" "span_ok ops L"
    and "b \<Longrightarrow> \<forall>n \<in> set ns. node_balanced n \<and> node_height n \<in> {1, 2}"
  shows "runs a (length ns div 2) (pair_level ns a) (\<lambda>ns' a'. nodes_over ops (next_id a') L ns' \<and>
    length ns' = (length ns + 1) div 2 \<and>
    (b \<longrightarrow> (\<forall>n \<in> set ns'. node_balanced n \<and>
      ((\<forall>n \<in> set ns. node_height n = 1) \<longrightarrow> node_height n \<in> {1, 2}))))"
  using assms
proof (induction ns arbitrary: a L k rule: induct_list012)
  case (2 n)
  then show ?case by (auto intro!: runs_return intro: node_ok_mono)
next
  case (3 l r ns)
  then obtain M where M: "node_ok ops k l" "node_ok ops k r" "nodes_over ops k M ns"
      "L = node_leaves l @ node_leaves r @ M" by auto
  have sp: "span_ok ops (node_leaves l @ node_leaves r)" "span_ok ops M"
    using "3.prems"(3) M(4) span_ok_append [of ops "node_leaves l @ node_leaves r" M] by simp_all
  have "runs a 1 (make_branch l r a) (rebuilt ops (node_leaves l @ node_leaves r) b
      (\<lambda>h. h = max (node_height l) (node_height r) + 1))"
    by (rule rebuilt_branch [OF M(1) "3.prems"(2) M(2) "3.prems"(2) sp(1) refl]) (use "3.prems"(4) in auto)
  then show ?case unfolding pair_level.simps
  proof (rule runs_bind [where k = "length ns div 2"])
    fix n a' assume n: "rebuilt ops (node_leaves l @ node_leaves r) b
      (\<lambda>h. h = max (node_height l) (node_height r) + 1) n a'" "next_id a \<le> next_id a'"
    have "runs a' (length ns div 2) (pair_level ns a') (\<lambda>ns' a'. nodes_over ops (next_id a') M ns' \<and>
        length ns' = (length ns + 1) div 2 \<and>
        (b \<longrightarrow> (\<forall>n \<in> set ns'. node_balanced n \<and>
          ((\<forall>n \<in> set ns. node_height n = 1) \<longrightarrow> node_height n \<in> {1, 2}))))"
      by (rule "3.IH"(1) [OF M(3) _ sp(2)]) (use "3.prems"(2,4) n(2) in auto)
    then show "runs a' (length ns div 2) ((\<lambda>(n, a). do { (ns, a) \<leftarrow> pair_level ns a; Some (n # ns, a) }) (n, a'))
      (\<lambda>ns' a'. nodes_over ops (next_id a') L ns' \<and> length ns' = (length (l # r # ns) + 1) div 2 \<and>
        (b \<longrightarrow> (\<forall>n \<in> set ns'. node_balanced n \<and>
          ((\<forall>n \<in> set (l # r # ns). node_height n = 1) \<longrightarrow> node_height n \<in> {1, 2}))))"
      unfolding prod.case
    proof (rule runs_bind [where k = 0], goal_cases)
      case (1 ms a'')
      then have ms: "nodes_over ops (next_id a'') M ms" "length ms = (length ns + 1) div 2" "next_id a' \<le> next_id a''"
        "\<And>m. b \<Longrightarrow> m \<in> set ms \<Longrightarrow> node_balanced m"
        "\<And>m. b \<Longrightarrow> m \<in> set ms \<Longrightarrow> (\<forall>n \<in> set ns. node_height n = 1) \<Longrightarrow> node_height m \<in> {1, 2}"
        by blast+
      have n': "b \<Longrightarrow> node_balanced n" "b \<Longrightarrow> node_height n = max (node_height l) (node_height r) + 1"
        using rebuiltD(3,4) [OF n(1)] by blast+
      have "nodes_over ops (next_id a'') L (n # ms)"
        using rebuiltD(1,2) [OF n(1)] M(4) ms(1,3) by (auto intro: node_ok_mono)
      moreover have "length (n # ms) = (length (l # r # ns) + 1) div 2" using ms(2) by simp
      moreover have "\<forall>m \<in> set (n # ms). node_balanced m \<and>
          ((\<forall>n \<in> set (l # r # ns). node_height n = 1) \<longrightarrow> node_height m \<in> {1, 2})" if b
      proof
        fix m assume "m \<in> set (n # ms)"
        then show "node_balanced m \<and> ((\<forall>n \<in> set (l # r # ns). node_height n = 1) \<longrightarrow> node_height m \<in> {1, 2})"
          using n' [OF that] ms(4,5) [OF that, of m] by (cases "m = n") auto
      qed
      ultimately show ?case unfolding prod.case by (intro runs_return conjI impI)
    qed simp
  qed simp
qed (auto intro!: runs_return)

lemma tape_build_balanced_runs:
  assumes "nodes_over ops k L ns" "ns \<noteq> []" "k \<le> next_id a" "span_ok ops L" "few b ns"
  shows "runs a (length ns) (tape_build_balanced ns a) (rebuilt ops L b (\<lambda>_. True))"
  using assms
proof (induction "length ns" arbitrary: ns a k rule: less_induct)
  case less
  show ?case
  proof (cases "length ns = 1")
    case True
    then obtain n where "ns = [n]" by (auto simp: length_Suc_conv)
    then show ?thesis using less.prems
      by (subst tape_build_balanced.simps) (auto simp: rebuilt_def few_def intro!: runs_return intro: node_ok_mono)
  next
    case False
    then have long: "2 \<le> length ns" using less.prems(2) by (cases ns) (auto simp: Suc_le_eq)
    then obtain x y ms where ns: "ns = x # y # ms" by (cases ns; cases "tl ns") auto
    have unfold: "tape_build_balanced ns a = Option.bind (pair_level ns a) (\<lambda>(ns, a). tape_build_balanced ns a)"
      by (subst tape_build_balanced.simps) (simp add: ns split: option.split del: pair_level.simps)
    have b: "b \<Longrightarrow> \<forall>n \<in> set ns. node_balanced n \<and> node_height n \<in> {1, 2}"
      using less.prems(5) long by (auto simp: few_def)
    show ?thesis unfolding unfold
    proof (rule runs_bind [OF pair_level_runs [where b = b, OF less.prems(1,3,4)], where k = "(length ns + 1) div 2"], goal_cases)
      case 1
      then show ?case using b by blast
    next
      case (2 ms a')
      then have ms: "nodes_over ops (next_id a') L ms" "length ms = (length ns + 1) div 2"
        "b \<longrightarrow> (\<forall>n \<in> set ms. node_balanced n \<and> ((\<forall>n \<in> set ns. node_height n = 1) \<longrightarrow> node_height n \<in> {1, 2}))"
        by blast+
      have "few b ms"
      proof (cases "length ns \<le> 2")
        case True
        then have "length ms \<le> 1" using ms(2) by simp
        then show ?thesis using ms(3) by (simp add: few_def)
      next
        case False
        then have "b \<longrightarrow> length ms \<le> 2 \<and> (\<forall>n \<in> set ns. node_height n = 1)"
          using less.prems(5) ms(2) by (auto simp: few_def)
        then show ?thesis using ms(3) by (auto simp: few_def)
      qed
      moreover have "length ms < length ns" "ms \<noteq> []" using ms(2) long by auto
      ultimately have "runs a' (length ms) (tape_build_balanced ms a') (rebuilt ops L b (\<lambda>_. True))"
        using less.hyps [OF _ ms(1) _ order.refl less.prems(4)] by blast
      then show ?case using ms(2) by simp
    next
      case 3
      then show ?case by linarith
    qed
  qed
qed

text \<open>The leaves made from chunks: one per chunk, each a balanced node of height 1.\<close>

definition fresh_leaves :: "'e entry_ops \<Rightarrow> nat \<Rightarrow> leaf_order_key list \<Rightarrow> 'e list list \<Rightarrow> 'e tape_node list \<Rightarrow> bool" where
  "fresh_leaves ops k orders cs ns \<longleftrightarrow> (\<forall>n \<in> set ns. node_ok ops k n \<and> node_height n = 1 \<and> node_balanced n) \<and>
     map leaf_order (concat (map node_leaves ns)) = orders \<and>
     map leaf_entries (concat (map node_leaves ns)) = cs \<and> length ns = length cs"

definition chunk_ok :: "'e list \<Rightarrow> bool" where
  "chunk_ok c \<longleftrightarrow> c \<noteq> [] \<and> length c \<le> LEAF_MAX"

lemma chunks_chunk_ok: "c \<in> set (chunks LEAF_MAX es) \<Longrightarrow> chunk_ok c"
  using chunks_bounds by (auto simp: chunk_ok_def)

lemma concat_chunks_LEAF_MAX [simp]: "concat (chunks LEAF_MAX es) = es"
  by (simp add: LEAF_MAX_def)

lemma fresh_leaves_Cons:
  assumes "node_ok ops k n \<and> node_height n = 1 \<and> node_balanced n \<and>
      (\<exists>x. node_leaves n = [x] \<and> leaf_order x = order \<and> leaf_entries x = c)"
    and "k \<le> k'" "fresh_leaves ops k' orders cs ns"
  shows "fresh_leaves ops k' (order # orders) (c # cs) (n # ns)"
  using assms by (auto simp: fresh_leaves_def intro: node_ok_mono)

lemma make_initial_leaves_runs:
  assumes "\<And>i. i < count \<Longrightarrow> key_initial i count = Some (key i) \<and> order_bits (key i) \<noteq> []"
    and "ordinal + length cs \<le> count" "\<forall>c \<in> set cs. chunk_ok c" "fits ops (concat cs)"
  shows "runs a (length cs) (make_initial_leaves ops count ordinal cs a)
    (\<lambda>ns a'. fresh_leaves ops (next_id a') (map key [ordinal..<ordinal + length cs]) cs ns)"
  using assms(2-)
proof (induction cs arbitrary: ordinal a)
  case Nil
  then show ?case by (auto intro!: runs_return simp: fresh_leaves_def)
next
  case (Cons c cs)
  have key: "key_initial ordinal count = Some (key ordinal)" "order_bits (key ordinal) \<noteq> []"
    using assms(1) Cons.prems by auto
  have fit: "fits ops c" "fits ops (concat cs)" using Cons.prems(3) by (auto dest: fits_append)
  have upt: "[ordinal..<ordinal + length (c # cs)] = ordinal # [ordinal + 1..<(ordinal + 1) + length cs]"
    by (simp add: upt_conv_Cons del: upt_Suc)
  have "runs a (length (c # cs)) (do { (n, a) \<leftarrow> make_leaf ops c (key ordinal) a;
      (ns, a) \<leftarrow> make_initial_leaves ops count (ordinal + 1) cs a; Some (n # ns, a) })
    (\<lambda>ns a'. fresh_leaves ops (next_id a') (map key [ordinal..<ordinal + length (c # cs)]) (c # cs) ns)"
  proof (rule runs_bind [where k = "length cs", OF make_leaf_runs])
    fix n :: "'a tape_node" and a' :: tape_id_allocator
    assume n: "node_ok ops (next_id a') n \<and> node_height n = 1 \<and> node_balanced n \<and>
      (\<exists>x. node_leaves n = [x] \<and> leaf_order x = key ordinal \<and> leaf_entries x = c)"
    show "runs a' (length cs) ((\<lambda>(n, a). do {
        (ns, a) \<leftarrow> make_initial_leaves ops count (ordinal + 1) cs a; Some (n # ns, a) }) (n, a'))
      (\<lambda>ns a'. fresh_leaves ops (next_id a') (map key [ordinal..<ordinal + length (c # cs)]) (c # cs) ns)"
      unfolding prod.case
    proof (rule runs_bind [where k = 0, OF Cons.IH], goal_cases)
      case (4 ns a'')
      from fresh_leaves_Cons [OF n 4(2,1)] show ?case unfolding prod.case upt by (intro runs_return) simp
    qed (use Cons.prems fit in auto)
  qed (use key fit Cons.prems in \<open>auto simp: chunk_ok_def\<close>)
  then show ?case by (simp add: key(1))
qed

lemma make_fitted_leaves_runs:
  assumes "\<And>l u. previous = Some l \<Longrightarrow> upper = Some u \<Longrightarrow> l < u" "\<And>u. upper = Some u \<Longrightarrow> order_bits u \<noteq> []"
    and "\<forall>c \<in> set cs. chunk_ok c" "fits ops (concat cs)"
  shows "runs a (length cs) (make_fitted_leaves ops previous upper cs a)
    (\<lambda>ns a'. \<exists>orders. fresh_leaves ops (next_id a') orders cs ns \<and> sorted_wrt (<) orders \<and>
      (\<forall>k \<in> set orders. (\<forall>l. previous = Some l \<longrightarrow> l < k) \<and> (\<forall>u. upper = Some u \<longrightarrow> k < u)))"
  using assms(1,3-)
proof (induction cs arbitrary: previous a)
  case Nil
  then show ?case by (auto intro!: runs_return simp: fresh_leaves_def)
next
  case (Cons c cs)
  obtain k where key: "key_between previous upper = Some k" "order_bits k \<noteq> []"
      "\<And>l. previous = Some l \<Longrightarrow> l < k" "\<And>u. upper = Some u \<Longrightarrow> k < u"
    using key_between_returns [of previous upper] Cons.prems(1) assms(2) by auto
  have fit: "fits ops c" "fits ops (concat cs)" using Cons.prems(3) by (auto dest: fits_append)
  have "runs a (length (c # cs)) (do { (n, a) \<leftarrow> make_leaf ops c k a;
      (ns, a) \<leftarrow> make_fitted_leaves ops (Some k) upper cs a; Some (n # ns, a) })
    (\<lambda>ns a'. \<exists>orders. fresh_leaves ops (next_id a') orders (c # cs) ns \<and> sorted_wrt (<) orders \<and>
      (\<forall>k \<in> set orders. (\<forall>l. previous = Some l \<longrightarrow> l < k) \<and> (\<forall>u. upper = Some u \<longrightarrow> k < u)))" (is "runs a _ _ ?Q")
  proof (rule runs_bind [where k = "length cs", OF make_leaf_runs])
    fix n :: "'a tape_node" and a' :: tape_id_allocator
    assume n: "node_ok ops (next_id a') n \<and> node_height n = 1 \<and> node_balanced n \<and>
      (\<exists>x. node_leaves n = [x] \<and> leaf_order x = k \<and> leaf_entries x = c)"
    show "runs a' (length cs) ((\<lambda>(n, a). do {
        (ns, a) \<leftarrow> make_fitted_leaves ops (Some k) upper cs a; Some (n # ns, a) }) (n, a')) ?Q"
      unfolding prod.case
    proof (rule runs_bind [where k = 0, OF Cons.IH], goal_cases)
      case (4 ns a'')
      then obtain orders where o: "fresh_leaves ops (next_id a'') orders cs ns" "sorted_wrt (<) orders"
        "\<forall>j \<in> set orders. k < j \<and> (\<forall>u. upper = Some u \<longrightarrow> j < u)" by auto
      have "sorted_wrt (<) (k # orders)" using o(2,3) by auto
      moreover have "\<forall>j \<in> set (k # orders). (\<forall>l. previous = Some l \<longrightarrow> l < j) \<and> (\<forall>u. upper = Some u \<longrightarrow> j < u)"
        using o(3) key(3,4) by (auto dest: less_trans)
      ultimately show ?case
        using fresh_leaves_Cons [OF n 4(2) o(1)] unfolding prod.case by (intro runs_return) blast
    qed (use Cons.prems fit key in auto)
  qed (use key fit Cons.prems in \<open>auto simp: chunk_ok_def\<close>)
  then show ?case by (simp add: key(1))
qed

lemma fresh_leaves_over:
  assumes "fresh_leaves ops k orders cs ns" "sorted_wrt (<) orders" "fits ops (concat cs)"
  shows "nodes_over ops k (concat (map node_leaves ns)) ns" "span_ok ops (concat (map node_leaves ns))"
    "entries_of (concat (map node_leaves ns)) = concat cs" "length cs \<le> 4 \<Longrightarrow> few b ns"
  using assms by (auto simp: fresh_leaves_def nodes_over_def span_ok_def entries_of_def few_def simp del: map_concat)

lemma balanced_few: "length (chunks LEAF_MAX es) \<le> 4 \<longleftrightarrow> length es \<le> 256"
proof -
  have "(n + 64 - 1) div 64 \<le> 4 \<longleftrightarrow> n \<le> (256 :: nat)" for n by (rule iffI; linarith)
  then show ?thesis by (simp add: length_chunks LEAF_MAX_def div_ceil_def)
qed

lemma chunk_count_le: "length (chunks LEAF_MAX es) \<le> length es"
proof -
  have "(n + 64 - 1) div 64 \<le> n" for n :: nat by (cases n) simp_all
  then show ?thesis by (simp add: length_chunks LEAF_MAX_def div_ceil_def)
qed

text \<open>A tape built over fresh leaves.\<close>

definition built :: "'e entry_ops \<Rightarrow> 'e list \<Rightarrow> 'e stable_tape \<Rightarrow> tape_id_allocator \<Rightarrow> bool" where
  "built ops es t a \<longleftrightarrow> tape_ok ops a t \<and> tape_list t = es \<and> (length es \<le> 256 \<longrightarrow> tape_balanced t)"

lemma build_fresh_runs:
  assumes "fresh_leaves ops k orders (chunks LEAF_MAX es) ns" "sorted_wrt (<) orders" "fits ops es" "es \<noteq> []"
    and "k \<le> next_id a"
  shows "runs a (length es) (do { (n, a) \<leftarrow> tape_build_balanced ns a; Some (\<lparr>tape_root = Some n\<rparr>, a) })
    (\<lambda>t a'. built ops es t a' \<and> map leaf_order (tape_leaves t) = orders)"
proof -
  let ?L = "concat (map node_leaves ns)"
  have len: "length ns = length (chunks LEAF_MAX es)" and ord: "map leaf_order ?L = orders"
    using assms(1) by (auto simp: fresh_leaves_def)
  have ns: "ns \<noteq> []" using len assms(4) by (auto simp: LEAF_MAX_def)
  have fit: "fits ops (concat (chunks LEAF_MAX es))" using assms(3) by simp
  note over = fresh_leaves_over [OF assms(1,2) fit]
  have few: "few (length es \<le> 256) ns" using over(4) balanced_few [of es] by (simp add: few_def)
  from tape_build_balanced_runs [OF over(1) ns assms(5) over(2) few]
  have b: "runs a (length es) (tape_build_balanced ns a) (rebuilt ops ?L (length es \<le> 256) (\<lambda>_. True))"
    by (rule runs_post) (use len chunk_count_le [of es] in auto)
  show ?thesis
    by (rule runs_bind [OF b, where k = 0])
      (use over(3) ord assms(3) in \<open>auto intro!: runs_return simp: rebuilt_def built_def tape_ok_def tape_balanced_def simp del: map_concat\<close>)
qed

lemma from_entries_runs:
  assumes "fits ops es"
  shows "runs a (2 * length es) (from_entries ops es a) (built ops es)"
proof (cases "es = []")
  case True
  then show ?thesis by (auto simp: from_entries_def built_def tape_new_def tape_ok_def tape_balanced_def intro!: runs_return)
next
  case False
  let ?count = "div_ceil (length es) LEAF_MAX"
  have "(n + 64 - 1) div 64 < usize_max" if "n \<le> usize_max" for n :: nat
  proof -
    have "(n + 64 - 1) div 64 \<le> (usize_max + 64 - 1) div 64" using that by (intro div_le_mono) simp
    then show ?thesis by (simp add: usize_max_def)
  qed
  then have "?count < usize_max" using assms by (simp add: fits_def LEAF_MAX_def div_ceil_def)
  from key_initial_ascending [OF this] obtain key where key:
    "\<And>i. i < ?count \<Longrightarrow> key_initial i ?count = Some (key i) \<and> order_bits (key i) \<noteq> []"
    "\<And>i j. j < ?count \<Longrightarrow> i < j \<Longrightarrow> key i < key j" by blast
  have len: "length (chunks LEAF_MAX es) = ?count" by (simp add: length_chunks LEAF_MAX_def)
  have sorted: "sorted_wrt (<) (map key [0..<0 + length (chunks LEAF_MAX es)])"
    using key(2) len by (auto simp: sorted_wrt_iff_nth_less)
  have "runs a (2 * length es) (do { (leaves, a) \<leftarrow> make_initial_leaves ops ?count 0 (chunks LEAF_MAX es) a;
      (n, a) \<leftarrow> tape_build_balanced leaves a; Some (\<lparr>tape_root = Some n\<rparr>, a) }) (built ops es)"
  proof (rule runs_bind [where k = "length es", OF make_initial_leaves_runs [OF key(1)]], goal_cases)
    case (5 ns a')
    show ?case unfolding prod.case
      by (rule runs_post [OF build_fresh_runs [OF 5(1) sorted assms False order.refl] order.refl]) simp
  qed (use len assms chunk_count_le [of es] in \<open>auto simp: chunks_chunk_ok\<close>)
  then show ?thesis using False by (simp add: from_entries_def)
qed

section \<open>Labels between neighbours\<close>

lemma fits_between_iff:
  assumes "tape_ok ops a t"
  shows "fits_between t lower upper \<longleftrightarrow>
    (\<forall>x \<in> set (tape_leaves t). (\<forall>l. lower = Some l \<longrightarrow> l < leaf_order x) \<and> (\<forall>u. upper = Some u \<longrightarrow> leaf_order x < u))"
proof (cases "tape_root t")
  case (Some n)
  then have ok: "node_ok ops (next_id a) n" using assms by (simp add: tape_ok_def)
  have "first_order n \<le> leaf_order x \<and> leaf_order x \<le> last_order n" if "x \<in> set (node_leaves n)" for x
    using sorted_first_last [OF node_leaves_sorted [OF ok], of "leaf_order x"] that
    by (simp add: first_order_hd [OF ok] last_order_last [OF ok] hd_map last_map)
  then show ?thesis using Some node_first_last [OF ok]
    by (auto simp: fits_between_def tape_leaves_def split: option.splits) (meson less_le_trans le_less_trans)+
qed (simp add: fits_between_def tape_leaves_def)

lemma rekey_between_runs:
  assumes "tape_ok ops a0 t" "next_id a0 \<le> next_id a"
    and "\<And>l u. lower = Some l \<Longrightarrow> upper = Some u \<Longrightarrow> l < u" "\<And>u. upper = Some u \<Longrightarrow> order_bits u \<noteq> []"
  shows "runs a (2 * length (tape_list t)) (rekey_between ops t lower upper a) (\<lambda>t' a'. tape_ok ops a' t' \<and>
    tape_list t' = tape_list t \<and> fits_between t' lower upper \<and> (fits_between t lower upper \<longrightarrow> t' = t) \<and>
    (tape_balanced t \<and> (length (tape_list t) \<le> 256 \<or> fits_between t lower upper) \<longrightarrow> tape_balanced t'))"
    (is "runs a _ _ ?Q")
proof -
  have ok: "tape_ok ops a t" by (rule tape_ok_mono [OF assms(1,2)])
  consider (fits) "fits_between t lower upper" | (empty) "\<not> fits_between t lower upper" "tape_list t = []"
    | (rekey) "\<not> fits_between t lower upper" "tape_list t \<noteq> []" by blast
  then show ?thesis
  proof cases
    case fits
    then show ?thesis using ok by (auto simp: rekey_between_def intro!: runs_return)
  next
    case empty
    then have "tape_root t = None" using tape_empty_iff [OF ok] by simp
    with empty(1) show ?thesis by (simp add: fits_between_def)
  next
    case rekey
    have es: "tape_to_vec t = tape_list t" by (rule tape_to_vec_list [OF ok])
    have fit: "fits ops (tape_list t)" using ok by (simp add: tape_ok_def)
    have "runs a (2 * length (tape_list t)) (do {
        (leaves, a) \<leftarrow> make_fitted_leaves ops lower upper (chunks LEAF_MAX (tape_list t)) a;
        (n, a) \<leftarrow> tape_build_balanced leaves a; Some (\<lparr>tape_root = Some n\<rparr>, a) }) ?Q"
    proof (rule runs_bind [where k = "length (tape_list t)",
            OF make_fitted_leaves_runs [where previous = lower and upper = upper and cs = "chunks LEAF_MAX (tape_list t)"]], goal_cases)
      case (5 ns a')
      then obtain orders where o: "fresh_leaves ops (next_id a') orders (chunks LEAF_MAX (tape_list t)) ns"
        "sorted_wrt (<) orders"
        "\<forall>k \<in> set orders. (\<forall>l. lower = Some l \<longrightarrow> l < k) \<and> (\<forall>u. upper = Some u \<longrightarrow> k < u)" by auto
      show ?case unfolding prod.case
      proof (rule runs_post [OF build_fresh_runs [OF o(1,2) fit rekey(2) order.refl] order.refl])
        fix t' a'' assume t': "built ops (tape_list t) t' a'' \<and> map leaf_order (tape_leaves t') = orders"
        have "\<forall>x \<in> set (tape_leaves t'). leaf_order x \<in> set orders" using t' by force
        then have "fits_between t' lower upper"
          using t' o(3) fits_between_iff [of ops a'' t'] by (auto simp: built_def)
        then show "?Q t' a''" using t' rekey(1) by (auto simp: built_def)
      qed
    qed (use assms(3,4) fit chunk_count_le [of "tape_list t"] in \<open>auto simp: chunks_chunk_ok\<close>)
    then show ?thesis using rekey es by (simp add: rekey_between_def)
  qed
qed

section \<open>Concatenation and splitting\<close>

lemma last_order_key_leaves:
  "tape_ok ops a t \<Longrightarrow> last_order_key t = (if tape_leaves t = [] then None else Some (leaf_order (last (tape_leaves t))))"
  by (auto simp: tape_ok_def last_order_key_def tape_leaves_def leaves_opt_def last_order_last split: option.splits)

lemma first_order_key_leaves:
  "tape_ok ops a t \<Longrightarrow> first_order_key t = (if tape_leaves t = [] then None else Some (leaf_order (hd (tape_leaves t))))"
  by (auto simp: tape_ok_def first_order_key_def tape_leaves_def leaves_opt_def first_order_hd split: option.splits)

lemma last_order_key_max:
  assumes "tape_ok ops a t" "x \<in> set (tape_leaves t)"
  shows "\<exists>k. last_order_key t = Some k \<and> leaf_order x \<le> k"
proof -
  have "sorted_wrt (<) (map leaf_order (tape_leaves t))" using tape_span_ok [OF assms(1)] by (simp add: span_ok_def)
  from sorted_first_last [OF this, of "leaf_order x"] assms(2) show ?thesis
    by (auto simp: last_order_key_leaves [OF assms(1)] last_map)
qed

lemma span_between:
  assumes "tape_ok ops a l" "tape_ok ops a r" "fits_between r (last_order_key l) None" "fits ops (tape_list l @ tape_list r)"
  shows "span_ok ops (tape_leaves l @ tape_leaves r)"
proof -
  have "leaf_order x < leaf_order y" if "x \<in> set (tape_leaves l)" "y \<in> set (tape_leaves r)" for x y
    using last_order_key_max [OF assms(1) that(1)] assms(3) fits_between_iff [OF assms(2)] that(2)
    by (auto dest: le_less_trans)
  then show ?thesis
    using tape_span_ok [OF assms(1)] tape_span_ok [OF assms(2)] assms(4)
    by (auto simp: span_ok_def sorted_wrt_append tape_list_def)
qed

definition tape_concat_cost :: "nat \<Rightarrow> nat \<Rightarrow> nat" where
  "tape_concat_cost n m = 2 * m + 3 * (n + m)"

definition concats :: "'e entry_ops \<Rightarrow> 'e stable_tape \<Rightarrow> 'e stable_tape \<Rightarrow> 'e stable_tape \<Rightarrow> tape_id_allocator \<Rightarrow> bool" where
  "concats ops l r t a \<longleftrightarrow> tape_ok ops a t \<and> tape_list t = tape_list l @ tape_list r \<and>
     (\<exists>R. joined_leaves (tape_leaves l) R (tape_leaves t) \<and> entries_of R = tape_list r \<and>
        (fits_between r (last_order_key l) None \<longrightarrow> R = tape_leaves r)) \<and>
     (tape_balanced l \<and> tape_balanced r \<and>
        (length (tape_list r) \<le> 256 \<or> fits_between r (last_order_key l) None) \<longrightarrow> tape_balanced t)"

lemma tape_concat_runs:
  assumes ok: "tape_ok ops a l" "tape_ok ops a r" "fits ops (tape_list l @ tape_list r)"
  shows "runs a (tape_concat_cost (length (tape_list l)) (length (tape_list r))) (tape_concat ops l r a) (concats ops l r)"
  unfolding tape_concat_def
proof (rule runs_bind [where k = "3 * (length (tape_list l) + length (tape_list r))",
        OF rekey_between_runs [OF ok(2) order.refl, where upper = None and lower = "last_order_key l"]], goal_cases)
  case (3 f a')
  let ?c = "3 * (length (tape_list l) + length (tape_list r))"
  let ?b = "tape_balanced l \<and> tape_balanced f"
  have l: "tape_ok ops a' l" using ok(1) 3(2) by (rule tape_ok_mono)
  have f: "tape_ok ops a' f" "tape_list f = tape_list r" "fits_between f (last_order_key l) None" using 3(1) by auto
  have span: "span_ok ops (leaves_opt (tape_root l) @ leaves_opt (tape_root f))"
    using span_between [OF l f(1,3)] f(2) ok(3) by (simp add: tape_leaves_def)
  have cost: "3 * (length (leaves_opt (tape_root l)) + length (leaves_opt (tape_root f))) \<le> ?c"
    using tape_leaves_count [OF l] tape_leaves_count [OF f(1)] f(2) by (simp add: tape_leaves_def)
  have roots: "opt_ok ops (next_id a') (tape_root l)" "opt_ok ops (next_id a') (tape_root f)"
    using l f(1) by (simp_all add: tape_ok_def)
  have "runs a' ?c (do { (n, a) \<leftarrow> concat_nodes ops (tape_root l) (tape_root f) a'; Some (\<lparr>tape_root = n\<rparr>, a) })
    (concats ops l r)"
  proof (rule runs_bind [where k = 0, OF concat_nodes_opt_runs [where b = ?b, OF roots order.refl span _ cost]], goal_cases)
    case (2 n a'')
    let ?t = "\<lparr>tape_root = n\<rparr>"
    have J: "joined_leaves (tape_leaves l) (tape_leaves f) (tape_leaves ?t)" using 2(1) by (simp add: tape_leaves_def)
    have list: "tape_list ?t = tape_list l @ tape_list r"
      using joined_leaves_entries [OF J] f(2) by (simp add: tape_list_def)
    have "tape_ok ops a'' ?t" using 2(1) list ok(3) by (simp add: tape_ok_def)
    moreover have "tape_balanced ?t" if "tape_balanced l" "tape_balanced r"
        "length (tape_list r) \<le> 256 \<or> fits_between r (last_order_key l) None"
      using 2(1) 3(1) that by (simp add: tape_balanced_def)
    moreover have "\<exists>R. joined_leaves (tape_leaves l) R (tape_leaves ?t) \<and> entries_of R = tape_list r \<and>
        (fits_between r (last_order_key l) None \<longrightarrow> R = tape_leaves r)"
      using J 3(1) f(2) by (intro exI [of _ "tape_leaves f"]) (auto simp: tape_list_def)
    ultimately show ?case unfolding prod.case
      by (intro runs_return, unfold concats_def list) blast
  qed (auto simp: tape_balanced_def)
  then show ?case by simp
qed (simp_all add: tape_concat_cost_def)

definition tape_splits :: "'e entry_ops \<Rightarrow> 'e stable_tape \<Rightarrow> nat \<Rightarrow> 'e stable_tape \<times> 'e stable_tape \<Rightarrow>
    tape_id_allocator \<Rightarrow> bool" where
  "tape_splits ops t rank lr a \<longleftrightarrow> (case lr of (l, r) \<Rightarrow> tape_ok ops a l \<and> tape_ok ops a r \<and>
     tape_list l = take rank (tape_list t) \<and> tape_list r = drop rank (tape_list t) \<and>
     sorted_wrt (<) (map leaf_order (tape_leaves l @ tape_leaves r)) \<and>
     (\<forall>y \<in> set (tape_leaves l @ tape_leaves r). \<exists>x \<in> set (tape_leaves t). leaf_order x \<le> leaf_order y) \<and>
     (tape_balanced t \<longrightarrow> tape_balanced l \<and> tape_balanced r \<and>
        cut_near (tape_leaves t) (tape_leaves l) (tape_leaves r)))"

lemma square_mono: "m \<le> n \<Longrightarrow> 3 * m\<^sup>2 \<le> 3 * (n :: nat)\<^sup>2"
  by (simp add: power_mono)

lemma tape_split_at_runs:
  assumes ok: "tape_ok ops a t"
  shows "runs a (3 * (length (tape_list t))\<^sup>2) (tape_split_at ops t rank a) (tape_splits ops t rank)"
proof (cases "tape_root t")
  case None
  then show ?thesis
    by (auto simp: tape_split_at_def tape_splits_def tape_list_def tape_leaves_def tape_balanced_def intro!: runs_return)
      (simp_all add: tape_new_def)
next
  case (Some n)
  let ?k = "min rank (tape_len t)"
  have n: "node_ok ops (next_id a) n" "fits ops (node_entries n)" "tape_list t = node_entries n" "tape_leaves t = node_leaves n"
    using ok Some by (simp_all add: tape_ok_def tape_list_def tape_leaves_def)
  have cost: "3 * (leaf_count n)\<^sup>2 \<le> 3 * (length (tape_list t))\<^sup>2"
    using leaf_entries_count [OF n(1)] n(3) by (intro square_mono) (simp add: leaf_count_def)
  have len: "tape_len t = length (node_entries n)" using tape_len_list [OF ok] n(3) by simp
  have "runs a (3 * (length (tape_list t))\<^sup>2) (do { ((l, r), a) \<leftarrow> tape_split_node ops n ?k None a;
      Some ((\<lparr>tape_root = l\<rparr>, \<lparr>tape_root = r\<rparr>), a) }) (tape_splits ops t rank)"
  proof (rule runs_bind [where k = 0, OF tape_split_node_runs [where b = "node_balanced n", OF n(1) order.refl n(2)]], goal_cases)
    case (3 lr a')
    obtain l r where lr: "lr = (l, r)" by (cases lr)
    have "fits ops (take rank (node_entries n))" "fits ops (drop rank (node_entries n))"
      using n(2) fits_append [of ops "take rank (node_entries n)" "drop rank (node_entries n)"] by simp_all
    moreover have "\<forall>y \<in> set (leaves_opt l @ leaves_opt r). \<exists>x \<in> set (node_leaves n). leaf_order x \<le> leaf_order y"
    proof -
      have "order_from (first_order n) (leaves_opt l @ leaves_opt r)"
        using 3(1) unfolding lr splits_def prod.case by blast
      then show ?thesis using node_first_last(1) [OF n(1)] unfolding order_from_def by fastforce
    qed
    ultimately have "tape_splits ops t rank (\<lparr>tape_root = l\<rparr>, \<lparr>tape_root = r\<rparr>) a'"
      using 3(1) n(3,4) Some len unfolding lr splits_def tape_splits_def
      by (auto simp: tape_ok_def tape_balanced_def min_def)
    then show ?case by (auto simp: lr intro!: runs_return)
  qed (use cost in auto)
  then show ?thesis by (simp add: tape_split_at_def Some)
qed

section \<open>Splicing\<close>

text \<open>Joining keeps the leaves away from the junction.\<close>

lemma joined_keep:
  assumes "joined_leaves (P @ X) (Y @ S) M" "X \<noteq> [] \<or> P = []" "Y \<noteq> [] \<or> S = []"
  shows "\<exists>N. M = P @ N @ S \<and> (X \<noteq> [] \<longrightarrow> N \<noteq> [])"
proof (cases "M = (P @ X) @ (Y @ S)")
  case True
  then show ?thesis by (intro exI [of _ "X @ Y"]) auto
next
  case False
  then obtain A x y B z where m: "P @ X = A @ [x]" "Y @ S = y # B" "M = A @ z # B"
    using assms(1) unfolding joined_leaves_def by blast
  obtain A' where A: "A = P @ A'"
    using m(1) assms(2) by (cases X rule: rev_cases) auto
  obtain B' where B: "B = B' @ S"
    using m(2) assms(3) by (cases Y) auto
  show ?thesis using m(3) A B by (intro exI [of _ "A' @ z # B'"]) auto
qed

lemma keep_last: "L = P @ X \<Longrightarrow> length X \<le> 1 \<Longrightarrow>
    \<exists>P' X'. L = P' @ X' \<and> length X' \<le> 1 \<and> (X' \<noteq> [] \<or> P' = []) \<and> (\<exists>Q. P = P' @ Q)"
proof (cases "X = []")
  case True
  assume L: "L = P @ X"
  show ?thesis
  proof (cases L rule: rev_cases)
    case (snoc A x)
    then show ?thesis using L True by (intro exI [of _ A] exI [of _ "[x]"]) auto
  qed (use L True in auto)
qed blast

lemma keep_first: "L = Y @ S \<Longrightarrow> length Y \<le> 1 \<Longrightarrow>
    \<exists>Y' S'. L = Y' @ S' \<and> length Y' \<le> 1 \<and> (Y' \<noteq> [] \<or> S' = []) \<and> (\<exists>Q. S = Q @ S')"
proof (cases "Y = []")
  case True
  assume L: "L = Y @ S"
  show ?thesis
  proof (cases L)
    case (Cons x B)
    then show ?thesis using L True by (intro exI [of _ "[x]"] exI [of _ B]) auto
  qed (use L True in auto)
qed blast

lemma small_entries:
  assumes "\<forall>x \<in> set L. length (leaf_entries x) \<le> LEAF_MAX" "length L \<le> 1"
  shows "length (entries_of L) \<le> LEAF_MAX"
  using assms by (cases L) (auto simp: LEAF_MAX_def)

lemma node_leaves_sizes: "node_ok ops k n \<Longrightarrow> x \<in> set (node_leaves n) \<Longrightarrow>
    leaf_entries x \<noteq> [] \<and> length (leaf_entries x) \<le> LEAF_MAX \<and> leaf_id x < k"
  by (induction n) auto

lemma tape_leaves_sizes: "tape_ok ops a t \<Longrightarrow> x \<in> set (tape_leaves t) \<Longrightarrow>
    leaf_entries x \<noteq> [] \<and> length (leaf_entries x) \<le> LEAF_MAX"
  by (cases "tape_root t") (auto simp: tape_ok_def tape_leaves_def dest: node_leaves_sizes)

lemma entries_of_nonempty: "(\<And>x. x \<in> set L \<Longrightarrow> leaf_entries x \<noteq> []) \<Longrightarrow> entries_of L = [] \<longleftrightarrow> L = []"
  by (cases L) auto

text \<open>Two cuts of one leaf sequence leave a prefix and a suffix that do not overlap.\<close>

lemma prefix_suffix_split:
  assumes "L = P @ Z" "L = W @ S" "\<And>x. x \<in> set L \<Longrightarrow> leaf_entries x \<noteq> []"
    and "length (entries_of P) + length (entries_of S) \<le> length (entries_of L)"
  shows "\<exists>X. L = P @ X @ S"
proof -
  obtain U where U: "P = W @ U \<and> U @ Z = S \<or> P @ U = W \<and> Z = U @ S"
    using assms(1,2) by (auto simp: append_eq_append_conv2)
  show ?thesis
  proof (cases "Z = U @ S")
    case True
    then show ?thesis using assms(1) by blast
  next
    case False
    then have S: "S = U @ Z" using U by simp
    then have "entries_of U = []" using assms(1,4) by simp
    moreover have "set U \<subseteq> set L" using assms(2) S by auto
    ultimately have "U = []" using entries_of_nonempty [of U] assms(3) by blast
    then show ?thesis using S assms(1) by (intro exI [of _ "[]"]) simp
  qed
qed

definition tape_splice_cost :: "nat \<Rightarrow> nat \<Rightarrow> nat" where
  "tape_splice_cost n m = 6 * n\<^sup>2 + 10 * m + 8 * n"

text \<open>
  The leaves that a splice replaces: at most one leaf's worth of entries on either side of
  the range, in a balanced tape with a replacement of at most four leaves.
\<close>

definition window_only :: "'e tape_leaf list \<Rightarrow> 'e tape_leaf list \<Rightarrow> nat \<Rightarrow> nat \<Rightarrow> bool" where
  "window_only L M start after \<longleftrightarrow> (\<exists>P X N S. L = P @ X @ S \<and> M = P @ N @ S \<and>
     start \<le> length (entries_of P) + LEAF_MAX \<and> after \<le> length (entries_of S) + LEAF_MAX)"

lemma suffix_after_cuts:
  assumes "cut_near T P0 Q0" "cut_near Q0 W U0" "\<And>x. x \<in> set U0 \<Longrightarrow> leaf_entries x \<noteq> []"
    and "length (entries_of U0) \<le> length (entries_of Q0)"
  shows "\<exists>V S Z. U0 = V @ S \<and> length V \<le> 1 \<and> T = Z @ S"
proof -
  obtain Y S1 Z1 where 1: "T = Z1 @ S1" "Q0 = Y @ S1" "length Y \<le> 1" using assms(1) by (auto simp: cut_near_def)
  obtain V S2 Z2 where 2: "Q0 = Z2 @ S2" "U0 = V @ S2" "length V \<le> 1" using assms(2) by (auto simp: cut_near_def)
  obtain us where us: "Z2 = Y @ us \<and> us @ S2 = S1 \<or> Z2 @ us = Y \<and> S2 = us @ S1"
    using 1(2) 2(1) by (auto simp: append_eq_append_conv2)
  show ?thesis
  proof (cases "us @ S2 = S1")
    case True
    then show ?thesis using 1(1) 2(2,3) by (intro exI [of _ V] exI [of _ S2] exI [of _ "Z1 @ us"]) auto
  next
    case False
    then have S2: "S2 = us @ S1" "Z2 @ us = Y" using us by auto
    have "V = [] \<or> us = []"
    proof (rule ccontr)
      assume no: "\<not> ?thesis"
      then have "Z2 = []" using S2(2) 1(3) by (cases Z2; cases us) auto
      then have "entries_of V = []" using assms(4) 2 by simp
      moreover have "\<And>x. x \<in> set V \<Longrightarrow> leaf_entries x \<noteq> []" using assms(3) 2(2) by simp
      ultimately show False using entries_of_nonempty [of V] no by blast
    qed
    then have "length (V @ us) \<le> 1" using 2(3) S2(2) 1(3) by auto
    then show ?thesis using 2(2) S2(1) 1(1) by (intro exI [of _ "V @ us"] exI [of _ S1] exI [of _ Z1]) auto
  qed
qed

lemma window_from_cuts:
  assumes cut: "cut_near T P0 Q0" "cut_near Q0 W U0" and join: "joined_leaves P0 F J" "joined_leaves J U0 T'"
    and sizes: "\<And>x. x \<in> set T \<union> set P0 \<union> set U0 \<Longrightarrow> leaf_entries x \<noteq> [] \<and> length (leaf_entries x) \<le> LEAF_MAX"
    and lists: "entries_of P0 = take start (entries_of T)" "entries_of Q0 = drop start (entries_of T)"
      "entries_of U0 = drop stop (entries_of T)" "start \<le> stop" "stop \<le> length (entries_of T)"
  shows "window_only T T' start (length (entries_of T) - stop)"
proof -
  obtain P X Z where P: "T = P @ Z" "P0 = P @ X" "length X \<le> 1" using cut(1) by (auto simp: cut_near_def)
  have "length (entries_of U0) \<le> length (entries_of Q0)" using lists by simp
  then obtain V S Z' where S: "U0 = V @ S" "length V \<le> 1" "T = Z' @ S"
    using suffix_after_cuts [OF cut] sizes by blast
  obtain P' X' Q where P': "P0 = P' @ X'" "length X' \<le> 1" "X' \<noteq> [] \<or> P' = []" "P = P' @ Q"
    using keep_last [OF P(2,3)] by blast
  obtain V' S' Q' where S': "U0 = V' @ S'" "length V' \<le> 1" "V' \<noteq> [] \<or> S' = []" "S = Q' @ S'"
    using keep_first [OF S(1,2)] by blast
  obtain N where N: "J = P' @ N" "X' \<noteq> [] \<longrightarrow> N \<noteq> []"
    using joined_keep [of P' X' F "[]" J] join(1) P'(1,3) by auto
  have "N \<noteq> [] \<or> P' = []" using N(2) P'(3) by blast
  then obtain M where M: "T' = P' @ M @ S'"
    using joined_keep [of P' N V' S' T'] join(2) N(1) S'(1,3) by auto
  have len: "length (entries_of P') + length (entries_of X') = start"
    "length (entries_of V') + length (entries_of S') = length (entries_of T) - stop"
    using arg_cong [OF lists(1), of length] arg_cong [OF lists(3), of length] lists(4,5) P'(1) S'(1) by simp_all
  have "length (entries_of X') \<le> LEAF_MAX" "length (entries_of V') \<le> LEAF_MAX"
    using small_entries [of X'] small_entries [of V'] sizes P'(1,2) S'(1,2) by auto
  then have "start \<le> length (entries_of P') + LEAF_MAX"
    "length (entries_of T) - stop \<le> length (entries_of S') + LEAF_MAX" using len by linarith+
  moreover have "\<exists>X. T = P' @ X @ S'"
    by (rule prefix_suffix_split [of T P' "Q @ Z" "Z' @ Q'"])
      (use P(1) P'(4) S(3) S'(4) sizes len lists(4,5) in auto)
  ultimately show ?thesis unfolding window_only_def using M by blast
qed

definition splices :: "'e entry_ops \<Rightarrow> 'e stable_tape \<Rightarrow> 'e stable_tape \<Rightarrow> nat \<Rightarrow> nat \<Rightarrow> 'e stable_tape \<Rightarrow>
    tape_id_allocator \<Rightarrow> bool" where
  "splices ops t replacement start stop t' a \<longleftrightarrow> tape_ok ops a t' \<and>
     tape_list t' = take start (tape_list t) @ tape_list replacement @ drop stop (tape_list t) \<and>
     (tape_balanced t \<and> tape_balanced replacement \<and> length (tape_list replacement) \<le> 256 \<longrightarrow>
        tape_balanced t' \<and> window_only (tape_leaves t) (tape_leaves t') start (length (tape_list t) - stop))"

text \<open>
  The outcome of the last four steps of a splice, from the two cuts: prefix \<open>p\<close>, tail
  \<open>q\<close>, suffix \<open>u\<close>, the fitted replacement \<open>f\<close>, and the two concatenations.
\<close>

lemma splices_by_steps:
  assumes t: "tape_ok ops a0 t" and cut: "tape_splits ops t start (p, q) a1" "tape_splits ops q (stop - start) (w, u) a2"
    and le: "start \<le> stop" "stop \<le> length (tape_list t)"
    and f: "tape_list f = tape_list replacement" and j: "concats ops p f j a4" "concats ops j u t' a5"
    and fit: "fits_between f (last_order_key p) (first_order_key u)" "fits_between u (last_order_key j) None"
    and bal: "tape_balanced replacement \<and> length (tape_list replacement) \<le> 256 \<longrightarrow> tape_balanced f"
  shows "splices ops t replacement start stop t' a5"
proof -
  have lists: "tape_list p = take start (tape_list t)" "tape_list u = drop stop (tape_list t)"
    using cut le by (auto simp: tape_splits_def)
  have list: "tape_list t' = take start (tape_list t) @ tape_list replacement @ drop stop (tape_list t)"
    using j f lists by (simp add: concats_def)
  have win: "tape_balanced t' \<and> window_only (tape_leaves t) (tape_leaves t') start (length (tape_list t) - stop)"
    if b: "tape_balanced t" "tape_balanced replacement" "length (tape_list replacement) \<le> 256"
  proof
    have pq: "tape_balanced p" "tape_balanced q" "cut_near (tape_leaves t) (tape_leaves p) (tape_leaves q)"
      using cut(1) b(1) by (auto simp: tape_splits_def)
    have u: "tape_balanced u" "cut_near (tape_leaves q) (tape_leaves w) (tape_leaves u)"
      using cut(2) pq(2) by (auto simp: tape_splits_def)
    have fj: "tape_balanced f" "tape_balanced j" using bal b j(1) pq(1) f by (auto simp: concats_def)
    then show "tape_balanced t'" using j(2) u(1) fit(2) by (auto simp: concats_def)
    have len: "length (tape_list t) = length (entries_of (tape_leaves t))" by (simp add: tape_list_def)
    have sizes: "leaf_entries x \<noteq> [] \<and> length (leaf_entries x) \<le> LEAF_MAX"
      if "x \<in> set (tape_leaves t) \<union> set (tape_leaves p) \<union> set (tape_leaves u)" for x
      using that tape_leaves_sizes t cut by (fastforce simp: tape_splits_def)
    obtain R where R: "joined_leaves (tape_leaves p) R (tape_leaves j)" using j(1) by (auto simp: concats_def)
    have J: "joined_leaves (tape_leaves j) (tape_leaves u) (tape_leaves t')" using j(2) fit(2) by (auto simp: concats_def)
    show "window_only (tape_leaves t) (tape_leaves t') start (length (tape_list t) - stop)"
      unfolding len by (rule window_from_cuts [OF pq(3) u(2) R J sizes])
        (use cut le in \<open>auto simp: tape_splits_def tape_list_def\<close>)
  qed
  show ?thesis using j(2) list win by (auto simp: splices_def concats_def)
qed

lemma first_order_key_positive: "tape_ok ops a t \<Longrightarrow> first_order_key t = Some u \<Longrightarrow> order_bits u \<noteq> []"
proof -
  have "node_ok ops k n \<Longrightarrow> order_bits (first_order n) \<noteq> []" for k n by (induction n) auto
  then show "tape_ok ops a t \<Longrightarrow> first_order_key t = Some u \<Longrightarrow> order_bits u \<noteq> []"
    by (cases "tape_root t") (auto simp: tape_ok_def first_order_key_def)
qed

lemma last_order_key_in: "tape_ok ops a t \<Longrightarrow> last_order_key t = Some k \<Longrightarrow> \<exists>x \<in> set (tape_leaves t). k = leaf_order x"
  by (auto simp: last_order_key_leaves split: if_splits)

lemma first_order_key_min:
  assumes "tape_ok ops a t" "x \<in> set (tape_leaves t)"
  shows "\<exists>k. first_order_key t = Some k \<and> k \<le> leaf_order x"
proof -
  have "sorted_wrt (<) (map leaf_order (tape_leaves t))" using tape_span_ok [OF assms(1)] by (simp add: span_ok_def)
  from sorted_first_last [OF this, of "leaf_order x"] assms(2) show ?thesis
    by (auto simp: first_order_key_leaves [OF assms(1)] hd_map)
qed

lemma first_order_key_in: "tape_ok ops a t \<Longrightarrow> first_order_key t = Some k \<Longrightarrow> \<exists>x \<in> set (tape_leaves t). k = leaf_order x"
  by (auto simp: first_order_key_leaves split: if_splits)

text \<open>After the two cuts, the labels of the prefix are below those of the suffix.\<close>

lemma cut_orders:
  assumes "tape_splits ops t start (p, q) a1" "tape_splits ops q m (w, u) a2"
    and "x \<in> set (tape_leaves p)" "y \<in> set (tape_leaves u)"
  shows "leaf_order x < leaf_order y"
proof -
  have "\<exists>z \<in> set (tape_leaves q). leaf_order z \<le> leaf_order y"
    using assms(2,4) unfolding tape_splits_def by simp
  then obtain z where "z \<in> set (tape_leaves q)" "leaf_order z \<le> leaf_order y" by blast
  moreover have "leaf_order x < leaf_order z" if "z \<in> set (tape_leaves q)" for z
    using assms(1,3) that by (auto simp: tape_splits_def sorted_wrt_append)
  ultimately show ?thesis by fastforce
qed

lemma suffix_fits:
  assumes p: "tape_splits ops t start (p, q) a1" "tape_splits ops q m (w, u) a2" "tape_ok ops a u" "tape_ok ops a f"
    and f: "fits_between f (last_order_key p) (first_order_key u)" and j: "concats ops p f j a"
  shows "fits_between u (last_order_key j) None"
proof -
  have J: "tape_ok ops a j" using j by (simp add: concats_def)
  have "fits_between f (last_order_key p) None"
    using f by (auto simp: fits_between_def split: option.splits)
  then have "joined_leaves (tape_leaves p) (tape_leaves f) (tape_leaves j)" using j by (auto simp: concats_def)
  then have orders: "leaf_order ` set (tape_leaves j) \<subseteq> leaf_order ` (set (tape_leaves p) \<union> set (tape_leaves f))"
    by (rule joined_leaves_orders)
  have "k < leaf_order y" if k: "last_order_key j = Some k" and y: "y \<in> set (tape_leaves u)" for k y
  proof -
    obtain x where "x \<in> set (tape_leaves p) \<union> set (tape_leaves f)" "k = leaf_order x"
      using last_order_key_in [OF J k] orders by auto
    moreover have "leaf_order x < leaf_order y" if "x \<in> set (tape_leaves p)" for x
      by (rule cut_orders [OF p(1,2) that y])
    moreover have "leaf_order x < leaf_order y" if "x \<in> set (tape_leaves f)" for x
      using first_order_key_min [OF p(3) y] fits_between_iff [OF p(4)] f that by (auto dest: less_le_trans)
    ultimately show ?thesis by blast
  qed
  then show ?thesis using fits_between_iff [OF p(3)] by auto
qed

lemma tape_splice_runs:
  assumes ok: "tape_ok ops a t" "tape_ok ops a replacement"
    and fit: "fits ops (take start (tape_list t) @ tape_list replacement @ drop stop (tape_list t))"
    and le: "start \<le> stop" "stop \<le> tape_len t"
  shows "runs a (tape_splice_cost (length (tape_list t)) (length (tape_list replacement)))
    (tape_splice ops t start stop replacement a) (splices ops t replacement start stop)"
proof -
  let ?n = "length (tape_list t)" and ?m = "length (tape_list replacement)"
  have len: "tape_len t = ?n" by (rule tape_len_list [OF ok(1)])
  have clip: "min start (tape_len t) = start" "max (min stop (tape_len t)) start = stop" using le by auto
  define k1 where "k1 = 10 * ?m + 8 * ?n"
  define k2 where "k2 = 8 * ?m + 8 * ?n"
  define k3 where "k3 = 3 * ?m + 5 * ?n"
  have "runs a (tape_splice_cost ?n ?m) (do {
      ((prefix, remainder), a) \<leftarrow> tape_split_at ops t start a;
      ((_, suffix), a) \<leftarrow> tape_split_at ops remainder (stop - start) a;
      (fitted, a) \<leftarrow> rekey_between ops replacement (last_order_key prefix) (first_order_key suffix) a;
      (joined, a) \<leftarrow> tape_concat ops prefix fitted a;
      tape_concat ops joined suffix a }) (splices ops t replacement start stop)" (is "runs a _ _ ?Q")
  proof (rule runs_bind [where k = "3 * ?n\<^sup>2 + k1", OF tape_split_at_runs [OF ok(1)]])
    fix pq a1 assume s1: "tape_splits ops t start pq a1" "next_id a \<le> next_id a1"
    obtain p q where pq: "pq = (p, q)" by (cases pq)
    note c1 = s1(1) [unfolded pq]
    have q: "tape_ok ops a1 q" "length (tape_list q) \<le> ?n" using c1 by (auto simp: tape_splits_def)
    have "runs a1 (3 * ?n\<^sup>2 + k1) (do {
        ((_, suffix), a) \<leftarrow> tape_split_at ops q (stop - start) a1;
        (fitted, a) \<leftarrow> rekey_between ops replacement (last_order_key p) (first_order_key suffix) a;
        (joined, a) \<leftarrow> tape_concat ops p fitted a; tape_concat ops joined suffix a }) ?Q"
    proof (rule runs_bind [where k = k1, OF tape_split_at_runs [OF q(1)]])
      fix wu a2 assume s2: "tape_splits ops q (stop - start) wu a2" "next_id a1 \<le> next_id a2"
      obtain w u where wu: "wu = (w, u)" by (cases wu)
      note c2 = s2(1) [unfolded wu]
      have p: "tape_ok ops a2 p" "tape_ok ops a2 u" "tape_list p = take start (tape_list t)"
        "tape_list u = drop stop (tape_list t)"
        using c1 c2 s2(2) le by (auto simp: tape_splits_def intro: tape_ok_mono)
      have r: "tape_ok ops a2 replacement" using ok(2) s1(2) s2(2) by (auto intro: tape_ok_mono)
      have lo: "l < h" if "last_order_key p = Some l" "first_order_key u = Some h" for l h
        using last_order_key_in [OF p(1) that(1)] first_order_key_in [OF p(2) that(2)] cut_orders [OF c1 c2] by blast
      have "runs a2 k1 (do {
          (fitted, a) \<leftarrow> rekey_between ops replacement (last_order_key p) (first_order_key u) a2;
          (joined, a) \<leftarrow> tape_concat ops p fitted a; tape_concat ops joined u a }) ?Q"
      proof (rule runs_bind [where k = k2, OF rekey_between_runs [OF r order.refl lo first_order_key_positive [OF p(2)]]])
        fix f a3 assume s3: "tape_ok ops a3 f \<and> tape_list f = tape_list replacement \<and>
          fits_between f (last_order_key p) (first_order_key u) \<and>
          (fits_between replacement (last_order_key p) (first_order_key u) \<longrightarrow> f = replacement) \<and>
          (tape_balanced replacement \<and> (length (tape_list replacement) \<le> 256 \<or>
            fits_between replacement (last_order_key p) (first_order_key u)) \<longrightarrow> tape_balanced f)"
          and le3: "next_id a2 \<le> next_id a3"
        have p3: "tape_ok ops a3 p" "tape_ok ops a3 u" using p(1,2) le3 by (auto intro: tape_ok_mono)
        have "fits ops (tape_list p @ tape_list f)"
          using fit s3 p(3) fits_append(1) [of ops "take start (tape_list t) @ tape_list replacement"] by simp
        from tape_concat_runs [OF p3(1) _ this] s3
        have cat1: "runs a3 (5 * ?m + 3 * ?n) (tape_concat ops p f a3) (concats ops p f)"
          by (auto intro: runs_post simp: tape_concat_cost_def p(3))
        have "runs a3 k2 (do { (joined, a) \<leftarrow> tape_concat ops p f a3; tape_concat ops joined u a }) ?Q"
        proof (rule runs_bind [where k = k3, OF cat1])
          fix j a4 assume s4: "concats ops p f j a4" "next_id a3 \<le> next_id a4"
          have u4: "tape_ok ops a4 u" "tape_ok ops a4 f" using p3(2) s3 s4(2) by (auto intro: tape_ok_mono)
          have j: "tape_ok ops a4 j" "tape_list j = take start (tape_list t) @ tape_list replacement"
            using s4(1) s3 p(3) by (auto simp: concats_def)
          have fits_u: "fits_between u (last_order_key j) None"
            by (rule suffix_fits [OF c1 c2 u4 _ s4(1)]) (use s3 in blast)
          have "fits ops (tape_list j @ tape_list u)" using fit j(2) p(4) by simp
          from tape_concat_runs [OF j(1) u4(1) this]
          have "runs a4 k3 (tape_concat ops j u a4) (concats ops j u)"
            by (rule runs_post) (use le len in \<open>auto simp: tape_concat_cost_def j(2) p(4) k3_def\<close>)
          then have "runs a4 k3 (tape_concat ops j u a4) ?Q"
          proof (rule runs_post [OF _ order.refl])
            fix t' a5 assume "concats ops j u t' a5"
            then show "?Q t' a5"
              using splices_by_steps [OF ok(1) c1 c2 le(1) _ _ s4(1) _ _ fits_u] le(2) len s3 by auto
          qed
          then show "runs a4 k3 ((\<lambda>(joined, a). tape_concat ops joined u a) (j, a4)) ?Q" by simp
        qed (simp add: k2_def k3_def)
        then show "runs a3 k2 ((\<lambda>(fitted, a). do { (joined, a) \<leftarrow> tape_concat ops p fitted a;
            tape_concat ops joined u a }) (f, a3)) ?Q" by simp
      qed (simp_all add: k1_def k2_def)
      then show "runs a2 k1 ((\<lambda>((_, suffix), a). do {
          (fitted, a) \<leftarrow> rekey_between ops replacement (last_order_key p) (first_order_key suffix) a;
          (joined, a) \<leftarrow> tape_concat ops p fitted a; tape_concat ops joined suffix a }) (wu, a2)) ?Q" by (simp add: wu)
    qed (use square_mono [OF q(2)] in simp)
    then show "runs a1 (3 * ?n\<^sup>2 + k1) ((\<lambda>((prefix, remainder), a). do {
        ((_, suffix), a) \<leftarrow> tape_split_at ops remainder (stop - start) a;
        (fitted, a) \<leftarrow> rekey_between ops replacement (last_order_key prefix) (first_order_key suffix) a;
        (joined, a) \<leftarrow> tape_concat ops prefix fitted a; tape_concat ops joined suffix a }) (pq, a1)) ?Q"
      by (simp add: pq)
  qed (simp add: tape_splice_cost_def k1_def)
  then show ?thesis unfolding tape_splice_def clip Let_def .
qed

section \<open>The sequence contract\<close>

lemma id_room_add: "id_room a (m + n) \<Longrightarrow> id_room a m"
  by (rule id_room_less) auto

interpretation tape: cuttable_sequence "tape_ok ops" tape_list tape_len tape_get tape_to_vec "fits ops"
    id_spends id_room "\<lambda>es. 3 * (length es)\<^sup>2" "\<lambda>es fs. tape_concat_cost (length es) (length fs)"
    "tape_split_at ops" "tape_concat ops"
  for ops :: "'e entry_ops"
proof (unfold_locales, goal_cases)
  case (7 a t n b)
  then show ?case using id_spends_le tape_ok_mono by blast
next
  case (9 a t i)
  from runsD [OF tape_split_at_runs [OF 9(1)] 9(3), of i] show ?case
    by (auto simp: tape_splits_def)
next
  case (10 a l r)
  from runsD [OF tape_concat_runs [OF 10(1-3)] 10(4)] show ?case by (auto simp: concats_def)
qed (auto simp: tape_len_list tape_get_list tape_to_vec_list tape_ok_def
    intro: id_spends_trans id_room_spends id_room_add)

end
