(* ===== verification/Tape_Cursor.thy ===== *)
theory Tape_Cursor
  imports Tape_Reads
begin

text \<open>
  The persistent cursor of \<^verbatim>\<open>StableTape\<close> (\<^verbatim>\<open>src/framework/tape.rs\<close>, \<^verbatim>\<open>TapeCursor\<close>): a root,
  the path of branches from it with the side taken, a leaf, a slot and a rank. The path is
  a stack with its top first. \<open>cursor_at_rank\<close> says that the fields agree with each other;
  seeking establishes it, advancing and retreating keep it until they run off an end, and
  running off the end empties the path, so that the cursor cannot come back from there.
\<close>

record 'e tape_cursor =
  cur_root :: "'e tape_node"
  cur_path :: "('e tape_node \<times> bool) list"
  cur_leaf :: "'e tape_node"
  cur_slot :: nat
  cur_rank :: nat

fun descend_to_rank :: "'e tape_node \<Rightarrow> nat \<Rightarrow> 'e tape_cursor \<Rightarrow> 'e tape_cursor" where
  "descend_to_rank (TLeaf x) rank c = c\<lparr>cur_leaf := TLeaf x, cur_slot := rank\<rparr>"
| "descend_to_rank (TBranch i l r n h m f g) rank c =
     (if rank < node_len l
      then descend_to_rank l rank (c\<lparr>cur_path := (TBranch i l r n h m f g, False) # cur_path c\<rparr>)
      else descend_to_rank r (rank - node_len l) (c\<lparr>cur_path := (TBranch i l r n h m f g, True) # cur_path c\<rparr>))"

fun descend_left :: "'e tape_node \<Rightarrow> 'e tape_cursor \<Rightarrow> 'e tape_cursor" where
  "descend_left (TLeaf x) c = c\<lparr>cur_leaf := TLeaf x, cur_slot := 0\<rparr>"
| "descend_left (TBranch i l r n h m f g) c =
     descend_left l (c\<lparr>cur_path := (TBranch i l r n h m f g, False) # cur_path c\<rparr>)"

fun descend_right :: "'e tape_node \<Rightarrow> 'e tape_cursor \<Rightarrow> 'e tape_cursor" where
  "descend_right (TLeaf x) c = c\<lparr>cur_leaf := TLeaf x, cur_slot := length (leaf_entries x) - 1\<rparr>"
| "descend_right (TBranch i l r n h m f g) c =
     descend_right r (c\<lparr>cur_path := (TBranch i l r n h m f g, True) # cur_path c\<rparr>)"

definition cursor_new :: "'e tape_node \<Rightarrow> nat \<Rightarrow> 'e tape_cursor" where
  "cursor_new root rank =
     descend_to_rank root rank
       \<lparr>cur_root = root, cur_path = [], cur_leaf = root, cur_slot = 0, cur_rank = rank\<rparr>"

definition tape_cursor_at :: "'e stable_tape \<Rightarrow> nat \<Rightarrow> 'e tape_cursor option" where
  "tape_cursor_at t rank =
     (case tape_root t of
        None \<Rightarrow> None
      | Some n \<Rightarrow> if rank < node_len n then Some (cursor_new n rank) else None)"

text \<open>\<open>None\<close> is the \<^verbatim>\<open>unreachable!\<close> of a cursor that is not at a leaf, or a slot out of range.\<close>

definition cursor_current :: "'e tape_cursor \<Rightarrow> 'e option" where
  "cursor_current c = (case cur_leaf c of TBranch _ _ _ _ _ _ _ _ \<Rightarrow> None | TLeaf x \<Rightarrow> nth_opt (leaf_entries x) (cur_slot c))"

definition cursor_current_id :: "'e entry_ops \<Rightarrow> 'e tape_cursor \<Rightarrow> u64 option" where
  "cursor_current_id ops c = map_option (stable_id ops) (cursor_current c)"

fun advance_path :: "('e tape_node \<times> bool) list \<Rightarrow> 'e tape_cursor \<Rightarrow> (bool \<times> 'e tape_cursor) option" where
  "advance_path [] c = Some (False, c\<lparr>cur_path := []\<rparr>)"
| "advance_path ((TLeaf x, went_right) # p) c = None"
| "advance_path ((TBranch i l r n h m f g, went_right) # p) c =
     (if \<not> went_right
      then let c = descend_left r (c\<lparr>cur_path := (TBranch i l r n h m f g, True) # p\<rparr>)
           in Some (True, c\<lparr>cur_rank := cur_rank c + 1\<rparr>)
      else advance_path p c)"

definition cursor_advance :: "'e tape_cursor \<Rightarrow> (bool \<times> 'e tape_cursor) option" where
  "cursor_advance c =
     (case cur_leaf c of
        TBranch _ _ _ _ _ _ _ _ \<Rightarrow> None
      | TLeaf x \<Rightarrow>
          if cur_slot c + 1 < length (leaf_entries x)
          then Some (True, c\<lparr>cur_slot := cur_slot c + 1, cur_rank := cur_rank c + 1\<rparr>)
          else advance_path (cur_path c) c)"

fun retreat_path :: "('e tape_node \<times> bool) list \<Rightarrow> 'e tape_cursor \<Rightarrow> (bool \<times> 'e tape_cursor) option" where
  "retreat_path [] c = Some (False, c\<lparr>cur_path := []\<rparr>)"
| "retreat_path ((TLeaf x, went_right) # p) c = None"
| "retreat_path ((TBranch i l r n h m f g, went_right) # p) c =
     (if went_right
      then let c = descend_right l (c\<lparr>cur_path := (TBranch i l r n h m f g, False) # p\<rparr>)
           in Some (True, c\<lparr>cur_rank := cur_rank c - 1\<rparr>)
      else retreat_path p c)"

definition cursor_retreat :: "'e tape_cursor \<Rightarrow> (bool \<times> 'e tape_cursor) option" where
  "cursor_retreat c =
     (if 0 < cur_slot c
      then Some (True, c\<lparr>cur_slot := cur_slot c - 1, cur_rank := cur_rank c - 1\<rparr>)
      else retreat_path (cur_path c) c)"

section \<open>Positions\<close>

text \<open>
  \<open>leads_to root path n before\<close>: the path goes from the root to \<open>n\<close>, and \<open>before\<close> entries
  of the root are to the left of \<open>n\<close>.
\<close>

fun leads_to :: "'e tape_node \<Rightarrow> ('e tape_node \<times> bool) list \<Rightarrow> 'e tape_node \<Rightarrow> nat \<Rightarrow> bool" where
  "leads_to root [] n before \<longleftrightarrow> n = root \<and> before = 0"
| "leads_to root ((TLeaf x, right) # p) n before \<longleftrightarrow> False"
| "leads_to root ((TBranch i l r m h q f g, right) # p) n before \<longleftrightarrow>
     (if right then n = r \<and> node_len l \<le> before \<and> leads_to root p (TBranch i l r m h q f g) (before - node_len l)
      else n = l \<and> leads_to root p (TBranch i l r m h q f g) before)"

lemma leads_to_node:
  "leads_to root p n before \<Longrightarrow> node_ok ops k root \<Longrightarrow> node_ok ops k n \<and>
    (\<exists>A B. node_entries root = A @ node_entries n @ B \<and> length A = before)"
proof (induction p arbitrary: n before)
  case (Cons fr p)
  obtain i l r m h q f g right where fr: "fr = (TBranch i l r m h q f g, right)"
    using Cons.prems(1) by (cases fr; cases "fst fr") auto
  let ?b = "TBranch i l r m h q f g"
  show ?case
  proof (cases right)
    case True
    then have n: "n = r" "node_len l \<le> before" "leads_to root p ?b (before - node_len l)" using Cons.prems(1) fr by auto
    from Cons.IH [OF n(3) Cons.prems(2)] obtain A B where
      A: "node_ok ops k ?b" "node_entries root = A @ node_entries ?b @ B" "length A = before - node_len l" by blast
    then have "length (A @ node_entries l) = before" using n(2) node_len_entries [of ops k l] by simp
    then show ?thesis using A n(1) by (intro conjI exI [of _ "A @ node_entries l"] exI [of _ B]) auto
  next
    case False
    then have n: "n = l" "leads_to root p ?b before" using Cons.prems(1) fr by auto
    from Cons.IH [OF n(2) Cons.prems(2)] obtain A B where
      A: "node_ok ops k ?b" "node_entries root = A @ node_entries ?b @ B" "length A = before" by blast
    then show ?thesis using n(1) by (intro conjI exI [of _ A] exI [of _ "node_entries r @ B"]) auto
  qed
qed auto

definition cursor_at_rank :: "'e tape_node \<Rightarrow> 'e tape_cursor \<Rightarrow> nat \<Rightarrow> bool" where
  "cursor_at_rank root c rank \<longleftrightarrow> cur_root c = root \<and> cur_rank c = rank \<and>
     (\<exists>x before. cur_leaf c = TLeaf x \<and> leads_to root (cur_path c) (TLeaf x) before \<and>
        cur_slot c < length (leaf_entries x) \<and> rank = before + cur_slot c)"

lemma cursor_current_entry:
  assumes "cursor_at_rank root c rank" "node_ok ops k root"
  shows "rank < length (node_entries root) \<and> cursor_current c = Some (node_entries root ! rank)"
proof -
  obtain x before where x: "cur_leaf c = TLeaf x" "leads_to root (cur_path c) (TLeaf x) before"
    "cur_slot c < length (leaf_entries x)" "rank = before + cur_slot c"
    using assms(1) by (auto simp: cursor_at_rank_def)
  from leads_to_node [OF x(2) assms(2)] obtain A B where
    "node_entries root = A @ leaf_entries x @ B" "length A = before" by auto
  then show ?thesis using x by (auto simp: cursor_current_def nth_append)
qed

text \<open>The three descents, from a cursor whose path leads to the node they start in.\<close>

lemma descend_to_rank_at:
  "leads_to root (cur_path c) n before \<Longrightarrow> node_ok ops k n \<Longrightarrow> i < node_len n \<Longrightarrow>
    cur_root c = root \<Longrightarrow> cur_rank c = before + i \<Longrightarrow> cursor_at_rank root (descend_to_rank n i c) (before + i)"
proof (induction n arbitrary: c before i)
  case (TLeaf x)
  then show ?case by (auto simp: cursor_at_rank_def)
next
  case (TBranch j l r m h q f g)
  have l: "node_ok ops k l" "node_ok ops k r" "m = node_len l + node_len r" using TBranch.prems(2) by auto
  show ?case
  proof (cases "i < node_len l")
    case True
    then show ?thesis using TBranch.prems TBranch.IH(1) [OF _ l(1) True] by simp
  next
    case False
    then have "i - node_len l < node_len r" using TBranch.prems(3) l(3) by simp
    from TBranch.IH(2) [OF _ l(2) this, of "c\<lparr>cur_path := (TBranch j l r m h q f g, True) # cur_path c\<rparr>" "before + node_len l"]
    show ?thesis using TBranch.prems False by simp
  qed
qed

lemma descend_left_at:
  "leads_to root (cur_path c) n before \<Longrightarrow> node_ok ops k n \<Longrightarrow> cur_root c = root \<Longrightarrow>
    cursor_at_rank root (descend_left n c\<lparr>cur_rank := before\<rparr>) before"
proof (induction n arbitrary: c)
  case (TLeaf x)
  then show ?case by (auto simp: cursor_at_rank_def)
next
  case (TBranch j l r m h q f g)
  then show ?case using TBranch.IH(1) [of "c\<lparr>cur_path := (TBranch j l r m h q f g, False) # cur_path c\<rparr>"] by simp
qed

lemma descend_right_at:
  "leads_to root (cur_path c) n before \<Longrightarrow> node_ok ops k n \<Longrightarrow> cur_root c = root \<Longrightarrow>
    cursor_at_rank root (descend_right n c\<lparr>cur_rank := before + node_len n - 1\<rparr>) (before + node_len n - 1)"
proof (induction n arbitrary: c before)
  case (TLeaf x)
  obtain m where "length (leaf_entries x) = Suc m" using TLeaf.prems(2) by (cases "leaf_entries x") auto
  then show ?case using TLeaf.prems by (auto simp: cursor_at_rank_def)
next
  case (TBranch j l r m h q f g)
  have l: "node_ok ops k r" "m = node_len l + node_len r" using TBranch.prems(2) by auto
  from TBranch.IH(2) [OF _ l(1), of "c\<lparr>cur_path := (TBranch j l r m h q f g, True) # cur_path c\<rparr>" "before + node_len l"]
  show ?case using TBranch.prems l(2) by (simp add: add.assoc)
qed

lemma cursor_new_at:
  assumes "node_ok ops k root" "rank < node_len root"
  shows "cursor_at_rank root (cursor_new root rank) rank"
  unfolding cursor_new_def using descend_to_rank_at [OF _ assms, of root _ 0] by simp

lemma descend_left_rank [simp]: "cur_rank (descend_left n c) = cur_rank c"
  and descend_right_rank [simp]: "cur_rank (descend_right n c) = cur_rank c"
  by (induction n arbitrary: c, simp_all)

section \<open>Moving\<close>

lemma node_len_pos: "node_ok ops k n \<Longrightarrow> 0 < node_len n"
  using node_len_entries [of ops k n] node_entries_nonempty [of ops k n] by simp

lemma leads_to_len:
  assumes "leads_to root p n before" "node_ok ops k root"
  shows "before + node_len n \<le> node_len root" "node_ok ops k n"
  using leads_to_node [OF assms] node_len_entries [OF assms(2)] node_len_entries [of ops k n] by auto

text \<open>Past the last entry of a subtree: the next entry of the root, or the end.\<close>

lemma advance_path_at:
  "leads_to root p n before \<Longrightarrow> node_ok ops k root \<Longrightarrow> cur_root c = root \<Longrightarrow> Suc (cur_rank c) = before + node_len n \<Longrightarrow>
    (if before + node_len n < node_len root
     then \<exists>c'. advance_path p c = Some (True, c') \<and> cursor_at_rank root c' (before + node_len n)
     else advance_path p c = Some (False, c\<lparr>cur_path := []\<rparr>))"
proof (induction p arbitrary: n before)
  case (Cons fr p)
  obtain i l r m h q f g right where fr: "fr = (TBranch i l r m h q f g, right)"
    using Cons.prems(1) by (cases fr; cases "fst fr") auto
  let ?b = "TBranch i l r m h q f g"
  show ?case
  proof (cases right)
    case True
    then have n: "n = r" "node_len l \<le> before" "leads_to root p ?b (before - node_len l)" using Cons.prems(1) fr by auto
    have "m = node_len l + node_len r" using leads_to_len(2) [OF n(3) Cons.prems(2)] by simp
    then show ?thesis using Cons.IH [OF n(3) Cons.prems(2,3)] Cons.prems(4) n(1,2) True fr by auto
  next
    case False
    then have n: "n = l" "leads_to root p ?b before" using Cons.prems(1) fr by auto
    have b: "node_ok ops k ?b" "before + m \<le> node_len root" using leads_to_len [OF n(2) Cons.prems(2)] by simp_all
    let ?c = "c\<lparr>cur_path := (?b, True) # p\<rparr>"
    have to: "leads_to root (cur_path ?c) r (before + node_len l)" using n(2) by simp
    have r: "node_ok ops k r" using b(1) by simp
    have "cursor_at_rank root (descend_left r ?c\<lparr>cur_rank := before + node_len l\<rparr>) (before + node_len l)"
      by (rule descend_left_at [OF to r]) (use Cons.prems(3) in simp)
    moreover have "before + node_len l < node_len root" using b node_len_pos [OF r] by auto
    ultimately show ?thesis using False fr n(1) Cons.prems(4) by (simp add: Let_def)
  qed
qed (auto)

lemma retreat_path_at:
  "leads_to root p n before \<Longrightarrow> node_ok ops k root \<Longrightarrow> cur_root c = root \<Longrightarrow> cur_rank c = before \<Longrightarrow>
    (if 0 < before
     then \<exists>c'. retreat_path p c = Some (True, c') \<and> cursor_at_rank root c' (before - 1)
     else retreat_path p c = Some (False, c\<lparr>cur_path := []\<rparr>))"
proof (induction p arbitrary: n before)
  case (Cons fr p)
  obtain i l r m h q f g right where fr: "fr = (TBranch i l r m h q f g, right)"
    using Cons.prems(1) by (cases fr; cases "fst fr") auto
  let ?b = "TBranch i l r m h q f g"
  show ?case
  proof (cases right)
    case False
    then have n: "n = l" "leads_to root p ?b before" using Cons.prems(1) fr by auto
    then show ?thesis using Cons.IH [OF n(2) Cons.prems(2-)] False fr by auto
  next
    case True
    then have n: "n = r" "node_len l \<le> before" "leads_to root p ?b (before - node_len l)" using Cons.prems(1) fr by auto
    have b: "node_ok ops k ?b" using leads_to_len(2) [OF n(3) Cons.prems(2)] .
    let ?c = "c\<lparr>cur_path := (?b, False) # p\<rparr>"
    have to: "leads_to root (cur_path ?c) l (before - node_len l)" using n(3) by simp
    have l: "node_ok ops k l" using b by simp
    have "before - node_len l + node_len l - 1 = before - 1" using n(2) by simp
    then have "cursor_at_rank root (descend_right l ?c\<lparr>cur_rank := before - 1\<rparr>) (before - 1)"
      using descend_right_at [OF to l] Cons.prems(3) by simp
    moreover have "0 < before" using n(2) node_len_pos [OF l] by simp
    ultimately show ?thesis using True fr Cons.prems(4) by (simp add: Let_def)
  qed
qed auto

lemma cursor_advance_at:
  assumes "cursor_at_rank root c rank" "node_ok ops k root"
  shows "if Suc rank < node_len root
    then \<exists>c'. cursor_advance c = Some (True, c') \<and> cursor_at_rank root c' (Suc rank)
    else cursor_advance c = Some (False, c\<lparr>cur_path := []\<rparr>)"
proof -
  obtain x before where x: "cur_leaf c = TLeaf x" "leads_to root (cur_path c) (TLeaf x) before"
    "cur_slot c < length (leaf_entries x)" "rank = before + cur_slot c" "cur_root c = root" "cur_rank c = rank"
    using assms(1) by (auto simp: cursor_at_rank_def)
  show ?thesis
  proof (cases "Suc (cur_slot c) < length (leaf_entries x)")
    case True
    then have "Suc rank < node_len root" using leads_to_len(1) [OF x(2) assms(2)] x(4) by simp
    then show ?thesis using True x by (auto simp: cursor_advance_def cursor_at_rank_def)
  next
    case False
    then have "Suc rank = before + node_len (TLeaf x)" using x(3,4) by simp
    then show ?thesis using advance_path_at [OF x(2) assms(2) x(5)] x(1,6) False
      by (simp add: cursor_advance_def split: if_splits)
  qed
qed

lemma cursor_retreat_at:
  assumes "cursor_at_rank root c rank" "node_ok ops k root"
  shows "if 0 < rank
    then \<exists>c'. cursor_retreat c = Some (True, c') \<and> cursor_at_rank root c' (rank - 1)
    else cursor_retreat c = Some (False, c\<lparr>cur_path := []\<rparr>)"
proof -
  obtain x before where x: "cur_leaf c = TLeaf x" "leads_to root (cur_path c) (TLeaf x) before"
    "cur_slot c < length (leaf_entries x)" "rank = before + cur_slot c" "cur_root c = root" "cur_rank c = rank"
    using assms(1) by (auto simp: cursor_at_rank_def)
  show ?thesis
  proof (cases "0 < cur_slot c")
    case True
    then show ?thesis using x by (auto simp: cursor_retreat_def cursor_at_rank_def)
  next
    case False
    then show ?thesis using retreat_path_at [OF x(2) assms(2) x(5)] x(4,6) by (simp add: cursor_retreat_def split: if_splits)
  qed
qed

end
