(* ===== verification/Tape_Index.thy ===== *)
theory Tape_Index
  imports Tape_Splice Tape_Cursor
begin

text \<open>
  The persistent occurrence index beside a tape (\<^verbatim>\<open>src/framework/tape.rs\<close>:
  \<^verbatim>\<open>OccurrenceLocation\<close>, \<^verbatim>\<open>PersistentOccurrenceIndex\<close>, \<^verbatim>\<open>splice_with_index\<close> and the
  lookups by stable id). The index maps the id of an entry to its leaf, slot and leaf label;
  it is the radix map of \<^verbatim>\<open>src/reactive/store.rs\<close>, of which only the laws of
  \<open>persistent_index\<close> are used. \<open>splice_with_index\<close> re-indexes a window of one leaf around
  the spliced range: this is enough in a balanced tape and not in general.
\<close>

section \<open>Locations\<close>

record occurrence_location =
  loc_leaf :: nat
  loc_slot :: nat
  loc_order :: leaf_order_key

record occurrence_index =
  index_entries :: "occurrence_location radix_map"

definition index_default :: occurrence_index where
  "index_default = \<lparr>index_entries = radix_empty\<rparr>"

definition index_get :: "occurrence_index \<Rightarrow> u64 \<Rightarrow> occurrence_location option option" where
  "index_get ix k = radix_get (index_entries ix) k"

definition index_insert :: "occurrence_index \<Rightarrow> u64 \<Rightarrow> occurrence_location \<Rightarrow> occurrence_index option" where
  "index_insert ix k loc = map_option (\<lambda>m. \<lparr>index_entries = m\<rparr>) (radix_insert (index_entries ix) k loc)"

definition index_remove :: "occurrence_index \<Rightarrow> u64 \<Rightarrow> (bool \<times> occurrence_index) option" where
  "index_remove ix k = map_option (\<lambda>(b, m). (b, \<lparr>index_entries = m\<rparr>)) (radix_remove (index_entries ix) k)"

definition index_len :: "occurrence_index \<Rightarrow> nat" where
  "index_len ix = rm_len (index_entries ix)"

definition leaf_location :: "'e entry_ops \<Rightarrow> 'e tape_leaf \<Rightarrow> nat \<Rightarrow> u64 \<times> occurrence_location" where
  "leaf_location ops x j = (stable_id ops (leaf_entries x ! j),
     \<lparr>loc_leaf = leaf_id x, loc_slot = j, loc_order = leaf_order x\<rparr>)"

text \<open>
  A slice whose start is after its end and a slot that does not fit a byte are panics.
\<close>

fun collect_locations :: "'e entry_ops \<Rightarrow> 'e tape_node \<Rightarrow> nat \<Rightarrow> nat \<Rightarrow> nat \<Rightarrow>
    (u64 \<times> occurrence_location) list \<Rightarrow> (u64 \<times> occurrence_location) list option" where
  "collect_locations ops (TLeaf x) base range_start range_end out =
     (if base + node_len (TLeaf x) \<le> range_start \<or> range_end \<le> base then Some out
      else let start = range_start - base; stop = min (range_end - base) (length (leaf_entries x)) in
        if stop < start \<or> (\<exists>slot \<in> set [start..<stop]. 255 < slot) then None
        else Some (out @ map (leaf_location ops x) [start..<stop]))"
| "collect_locations ops (TBranch i l r n h m f g) base range_start range_end out =
     (if base + n \<le> range_start \<or> range_end \<le> base then Some out
      else do {
        out \<leftarrow> collect_locations ops l base range_start range_end out;
        collect_locations ops r (base + node_len l) range_start range_end out
      })"

definition locations_in_range :: "'e entry_ops \<Rightarrow> 'e stable_tape \<Rightarrow> nat \<Rightarrow> nat \<Rightarrow>
    (u64 \<times> occurrence_location) list option" where
  "locations_in_range ops t range_start range_end =
     (case tape_root t of None \<Rightarrow> Some [] | Some n \<Rightarrow> collect_locations ops n 0 range_start range_end [])"

definition index_insert_all :: "(u64 \<times> occurrence_location) list \<Rightarrow> occurrence_index \<Rightarrow> occurrence_index option" where
  "index_insert_all kvs ix = fold (\<lambda>(k, v) acc. Option.bind acc (\<lambda>ix. index_insert ix k v)) kvs (Some ix)"

definition index_remove_all :: "u64 list \<Rightarrow> occurrence_index \<Rightarrow> occurrence_index option" where
  "index_remove_all ks ix = fold (\<lambda>k acc. Option.bind acc (\<lambda>ix. map_option snd (index_remove ix k))) ks (Some ix)"

definition occurrence_index_of :: "'e entry_ops \<Rightarrow> 'e stable_tape \<Rightarrow> occurrence_index option" where
  "occurrence_index_of ops t = do {
     locations \<leftarrow> locations_in_range ops t 0 (tape_len t);
     index_insert_all locations index_default
   }"

definition splice_with_index :: "'e entry_ops \<Rightarrow> 'e stable_tape \<Rightarrow> occurrence_index \<Rightarrow> nat \<Rightarrow> nat \<Rightarrow>
    'e stable_tape \<Rightarrow> tape_id_allocator \<Rightarrow> (('e stable_tape \<times> occurrence_index) \<times> tape_id_allocator) option" where
  "splice_with_index ops t ix range_start range_end replacement a =
     (let start = min range_start (tape_len t);
          stop = max (min range_end (tape_len t)) start
      in do {
        old_locations \<leftarrow> locations_in_range ops t (start - LEAF_MAX) (min (stop + LEAF_MAX) (tape_len t));
        (next, a) \<leftarrow> tape_splice ops t start stop replacement a;
        replacement_end \<leftarrow> checked_add_u64 start (tape_len replacement);
        new_locations \<leftarrow> locations_in_range ops next (start - LEAF_MAX) (min (replacement_end + LEAF_MAX) (tape_len next));
        ix \<leftarrow> index_remove_all (map fst old_locations) ix;
        ix \<leftarrow> index_insert_all new_locations ix;
        Some ((next, ix), a)
      })"

section \<open>Lookups\<close>

fun rank_of_order :: "'e tape_node \<Rightarrow> leaf_order_key \<Rightarrow> nat \<Rightarrow> nat option" where
  "rank_of_order (TLeaf x) order base = (if leaf_order x = order then Some base else None)"
| "rank_of_order (TBranch i l r n h m f g) order base =
     (if order \<le> last_order l then rank_of_order l order base
      else rank_of_order r order (base + node_len l))"

fun leaf_at_order :: "'e tape_node \<Rightarrow> leaf_order_key \<Rightarrow> 'e tape_leaf option" where
  "leaf_at_order (TLeaf x) order = (if leaf_order x = order then Some x else None)"
| "leaf_at_order (TBranch i l r n h m f g) order =
     (if order \<le> last_order l then leaf_at_order l order else leaf_at_order r order)"

text \<open>The outer option of the lookups is the panic of the radix map.\<close>

definition rank_of_id :: "'e stable_tape \<Rightarrow> u64 \<Rightarrow> occurrence_index \<Rightarrow> nat option option" where
  "rank_of_id t k ix = map_option (\<lambda>found. do {
     location \<leftarrow> found;
     n \<leftarrow> tape_root t;
     rank \<leftarrow> rank_of_order n (loc_order location) 0;
     leaf \<leftarrow> leaf_at_order n (loc_order location);
     if leaf_id leaf = loc_leaf location \<and> loc_slot location < length (leaf_entries leaf)
     then Some (rank + loc_slot location) else None
   }) (index_get ix k)"

definition cursor_at_id :: "'e stable_tape \<Rightarrow> u64 \<Rightarrow> occurrence_index \<Rightarrow> 'e tape_cursor option option" where
  "cursor_at_id t k ix = map_option (\<lambda>found. do { rank \<leftarrow> found; tape_cursor_at t rank }) (rank_of_id t k ix)"

definition predecessor_id :: "'e entry_ops \<Rightarrow> 'e stable_tape \<Rightarrow> u64 \<Rightarrow> occurrence_index \<Rightarrow> u64 option option" where
  "predecessor_id ops t k ix = map_option (\<lambda>found. do {
     rank \<leftarrow> found;
     rank \<leftarrow> (if rank = 0 then None else Some (rank - 1));
     v \<leftarrow> tape_get t rank;
     Some (stable_id ops v)
   }) (rank_of_id t k ix)"

definition successor_id :: "'e entry_ops \<Rightarrow> 'e stable_tape \<Rightarrow> u64 \<Rightarrow> occurrence_index \<Rightarrow> u64 option option" where
  "successor_id ops t k ix = map_option (\<lambda>found. do {
     rank \<leftarrow> found;
     rank \<leftarrow> checked_add_u64 rank 1;
     rank \<leftarrow> (if rank < tape_len t then Some rank else None);
     v \<leftarrow> tape_get t rank;
     Some (stable_id ops v)
   }) (rank_of_id t k ix)"

section \<open>The locations of a tape\<close>

definition locations_of :: "'e entry_ops \<Rightarrow> 'e tape_leaf list \<Rightarrow> (u64 \<times> occurrence_location) list" where
  "locations_of ops L = concat (map (\<lambda>x. map (leaf_location ops x) [0..<length (leaf_entries x)]) L)"

lemma locations_of_simps [simp]:
  "locations_of ops [] = []"
  "locations_of ops (x # L) = map (leaf_location ops x) [0..<length (leaf_entries x)] @ locations_of ops L"
  "locations_of ops (L @ M) = locations_of ops L @ locations_of ops M"
  by (simp_all add: locations_of_def)

lemma length_locations_of [simp]: "length (locations_of ops L) = length (entries_of L)"
  by (induction L) auto

lemma locations_of_ids: "map fst (locations_of ops L) = map (stable_id ops) (entries_of L)"
proof (induction L)
  case (Cons x L)
  have "map (\<lambda>slot. stable_id ops (leaf_entries x ! slot)) [0..<length (leaf_entries x)] = map (stable_id ops) (leaf_entries x)"
    by (rule nth_equalityI) auto
  then show ?case using Cons.IH by (simp add: leaf_location_def comp_def)
qed simp

lemma collect_locations_list:
  "node_ok ops k n \<Longrightarrow> range_start \<le> range_end \<Longrightarrow>
    collect_locations ops n base range_start range_end out =
      Some (out @ drop (range_start - base) (take (range_end - base) (locations_of ops (node_leaves n))))"
proof (induction n arbitrary: base out)
  case (TLeaf x)
  let ?n = "length (leaf_entries x)"
  have n: "?n \<le> 64" using TLeaf.prems(1) by (simp add: LEAF_MAX_def)
  show ?case
  proof (cases "base + ?n \<le> range_start \<or> range_end \<le> base")
    case True
    then show ?thesis by auto
  next
    case False
    let ?start = "range_start - base" and ?stop = "min (range_end - base) ?n"
    have "?start \<le> ?stop" using False TLeaf.prems(2) by auto
    moreover have "\<not> (\<exists>slot \<in> set [?start..<?stop]. 255 < slot)" using n by auto
    moreover have "map (leaf_location ops x) [?start..<?stop] =
        drop ?start (take (range_end - base) (map (leaf_location ops x) [0..<?n]))"
      by (simp add: take_map drop_map min_def)
    ultimately show ?thesis using False by (simp add: Let_def not_less del: upt_Suc)
  qed
next
  case (TBranch i l r n h m f g)
  have l: "node_ok ops k l" "node_ok ops k r" "node_len l = length (node_entries l)"
    "n = length (node_entries l) + length (node_entries r)"
    using TBranch.prems(1) by (auto simp: node_len_entries)
  show ?case
  proof (cases "base + n \<le> range_start \<or> range_end \<le> base")
    case True
    then show ?thesis using l(4) by auto
  next
    case False
    then show ?thesis
      using TBranch.IH(1) [OF l(1) TBranch.prems(2)] TBranch.IH(2) [OF l(2) TBranch.prems(2)] l(3)
      by (cases "length (node_entries l) \<le> range_end - base") (auto simp: diff_diff_add)
  qed
qed

definition tape_locations :: "'e entry_ops \<Rightarrow> 'e stable_tape \<Rightarrow> (u64 \<times> occurrence_location) list" where
  "tape_locations ops t = locations_of ops (tape_leaves t)"

lemma locations_in_range_list:
  assumes "tape_ok ops a t" "range_start \<le> range_end"
  shows "locations_in_range ops t range_start range_end = Some (drop range_start (take range_end (tape_locations ops t)))"
  using assms collect_locations_list [of ops "next_id a" _ range_start range_end 0 "[]"]
  by (cases "tape_root t") (auto simp: locations_in_range_def tape_locations_def tape_leaves_def tape_ok_def)

section \<open>The index of a tape\<close>

text \<open>
  The index through the contract of a persistent map: only the three laws of
  \<open>persistent_index\<close> are used from here on.
\<close>

definition index_ok :: "occurrence_index \<Rightarrow> bool" where
  "index_ok ix \<longleftrightarrow> radix_ok (index_entries ix)"

definition index_map :: "occurrence_index \<Rightarrow> u64 \<rightharpoonup> occurrence_location" where
  "index_map ix = radix_map_of (index_entries ix)"

interpretation occ: persistent_index index_ok index_map index_get index_insert index_remove
proof
  fix m k v assume m: "index_ok m"
  then show "index_get m k = Some (index_map m k)"
    using radix.lookup_abs by (simp add: index_ok_def index_get_def index_map_def)
  show "\<exists>m'. index_insert m k v = Some m' \<and> index_ok m' \<and> index_map m' = (index_map m)(k \<mapsto> v)"
    using radix.insert_abs [of "index_entries m" k v] m by (auto simp: index_ok_def index_insert_def index_map_def)
  show "\<exists>m'. index_remove m k = Some (index_map m k \<noteq> None, m') \<and> index_ok m' \<and> index_map m' = (index_map m)(k := None)"
    using radix.remove_abs [of "index_entries m" k] m by (auto simp: index_ok_def index_remove_def index_map_def)
qed

lemma index_default_ok: "index_ok index_default" "index_map index_default = Map.empty"
  by (simp_all add: index_ok_def index_default_def index_map_def radix_empty_map)

definition indexes :: "'e entry_ops \<Rightarrow> occurrence_index \<Rightarrow> 'e stable_tape \<Rightarrow> bool" where
  "indexes ops ix t \<longleftrightarrow> index_ok ix \<and> index_map ix = map_of (tape_locations ops t)"

definition ids_distinct :: "'e entry_ops \<Rightarrow> 'e list \<Rightarrow> bool" where
  "ids_distinct ops es \<longleftrightarrow> distinct (map (stable_id ops) es)"

lemma tape_locations_ids: "map fst (tape_locations ops t) = map (stable_id ops) (tape_list t)"
  by (simp add: tape_locations_def locations_of_ids tape_list_def)

lemma occurrence_index_of_indexes:
  assumes "tape_ok ops a t" "ids_distinct ops (tape_list t)"
  shows "\<exists>ix. occurrence_index_of ops t = Some ix \<and> indexes ops ix t"
proof -
  let ?locs = "tape_locations ops t"
  have len: "length ?locs = tape_len t"
    using tape_len_list [OF assms(1)] by (simp add: tape_locations_def tape_list_def)
  then have locs: "locations_in_range ops t 0 (tape_len t) = Some ?locs"
    using locations_in_range_list [OF assms(1), of 0 "tape_len t"] by simp
  obtain ix where ix: "index_insert_all ?locs index_default = Some ix" "index_ok ix"
      "index_map ix = map_of (rev ?locs)"
    using occ.insert_all [OF index_default_ok(1), of ?locs] by (auto simp: index_insert_all_def index_default_ok(2))
  have "distinct (map fst ?locs)" using assms(2) by (simp add: tape_locations_ids ids_distinct_def)
  then show ?thesis using locs ix by (simp add: occurrence_index_of_def indexes_def map_of_rev_distinct)
qed

text \<open>Re-indexing a window of an association list.\<close>

lemma reindex_window:
  assumes "distinct (map fst (A @ W @ B))" "distinct (map fst (A @ W' @ B))"
  shows "map_of (A @ W @ B) |` (- set (map fst W)) ++ map_of (rev W') = map_of (A @ W' @ B)"
proof (rule ext)
  fix k
  have w: "map_of (rev W') = map_of W'" using assms(2) by (intro map_of_rev_distinct) simp
  show "(map_of (A @ W @ B) |` (- set (map fst W)) ++ map_of (rev W')) k = map_of (A @ W' @ B) k"
  proof (cases "map_of W' k")
    case None
    then have "map_of (A @ W' @ B) k = map_of (A @ B) k" by (simp add: map_add_def split: option.split)
    moreover have "(map_of (A @ W @ B) |` (- set (map fst W))) k = map_of (A @ B) k"
    proof (cases "k \<in> fst ` set W")
      case True
      then have "k \<notin> fst ` set (A @ B)" using assms(1) by auto
      then have "map_of (A @ B) k = None" unfolding map_of_eq_None_iff .
      then show ?thesis using True by (simp only: restrict_map_def) simp
    next
      case False
      then have "map_of W k = None" unfolding map_of_eq_None_iff .
      then show ?thesis using False by (simp add: restrict_map_def map_add_def split: option.split)
    qed
    ultimately show ?thesis using None w by (simp add: map_add_def)
  next
    case (Some v)
    then have "k \<in> fst ` set W'" by (metis domI dom_map_of_conv_image_fst)
    then have "k \<notin> fst ` set A" using assms(2) by auto
    then have "map_of A k = None" unfolding map_of_eq_None_iff .
    then show ?thesis using Some w by (simp add: map_add_def)
  qed
qed

text \<open>The locations outside the window are the same before and after a splice.\<close>

lemma window_locations:
  assumes "window_only L M start after" "length (entries_of L) = stop + after" "start \<le> stop"
    and "length (entries_of M) = start + m + after"
  shows "\<exists>A B. locations_of ops L = A @ drop (start - LEAF_MAX) (take (stop + LEAF_MAX) (locations_of ops L)) @ B \<and>
    locations_of ops M = A @ drop (start - LEAF_MAX) (take (start + m + LEAF_MAX) (locations_of ops M)) @ B"
proof -
  obtain P X N S where w: "L = P @ X @ S" "M = P @ N @ S" "start \<le> length (entries_of P) + LEAF_MAX"
      "after \<le> length (entries_of S) + LEAF_MAX"
    using assms(1) by (auto simp: window_only_def)
  let ?A = "take (start - LEAF_MAX) (locations_of ops P)"
  let ?B = "drop (length (entries_of S) + LEAF_MAX - after) (locations_of ops S)"
  have split: "K = take i K @ drop i (take j K) @ drop j K" if "i \<le> j" for i j and K :: "'b list"
    using that by (metis append_take_drop_id drop_take le_add_diff_inverse take_add append.assoc)
  have A: "take (start - LEAF_MAX) (locations_of ops L) = ?A" "take (start - LEAF_MAX) (locations_of ops M) = ?A"
    using w by simp_all
  have L: "drop (stop + LEAF_MAX) (locations_of ops L) = ?B"
  proof -
    have e: "length (entries_of P) + length (entries_of X) + length (entries_of S) = stop + after" using assms(2) w(1) by simp
    then have "stop + LEAF_MAX - length (entries_of P) - length (entries_of X) = length (entries_of S) + LEAF_MAX - after"
      "length (entries_of P) + length (entries_of X) \<le> stop + LEAF_MAX" using w(4) by linarith+
    then show ?thesis unfolding w(1) by simp
  qed
  have M: "drop (start + m + LEAF_MAX) (locations_of ops M) = ?B"
  proof -
    have e: "length (entries_of P) + length (entries_of N) + length (entries_of S) = start + m + after" using assms(4) w(2) by simp
    then have "start + m + LEAF_MAX - length (entries_of P) - length (entries_of N) = length (entries_of S) + LEAF_MAX - after"
      "length (entries_of P) + length (entries_of N) \<le> start + m + LEAF_MAX" using w(4) by linarith+
    then show ?thesis unfolding w(2) by simp
  qed
  have le: "start - LEAF_MAX \<le> stop + LEAF_MAX" "start - LEAF_MAX \<le> start + m + LEAF_MAX" using assms(3) by auto
  show ?thesis
    using split [OF le(1), of "locations_of ops L", unfolded A L] split [OF le(2), of "locations_of ops M", unfolded A M]
    by blast
qed

lemma splice_with_index_correct:
  assumes t: "tape_ok ops a t" "tape_ok ops a replacement" "tape_balanced t" "tape_balanced replacement"
      "length (tape_list replacement) \<le> 256"
    and le: "start \<le> stop" "stop \<le> tape_len t"
    and fit: "fits ops (take start (tape_list t) @ tape_list replacement @ drop stop (tape_list t))"
    and ix: "indexes ops ix t" "ids_distinct ops (tape_list t)"
      "ids_distinct ops (take start (tape_list t) @ tape_list replacement @ drop stop (tape_list t))"
    and room: "id_room a (tape_splice_cost (length (tape_list t)) (length (tape_list replacement)))"
  shows "\<exists>t' ix' a'. splice_with_index ops t ix start stop replacement a = Some ((t', ix'), a') \<and>
    tape_ok ops a' t' \<and> tape_balanced t' \<and> indexes ops ix' t' \<and>
    tape_list t' = take start (tape_list t) @ tape_list replacement @ drop stop (tape_list t)"
proof -
  let ?m = "length (tape_list replacement)"
  have len: "tape_len t = length (tape_list t)" "tape_len replacement = ?m"
    using tape_len_list t by blast+
  have clip: "min start (tape_len t) = start" "max (min stop (tape_len t)) start = stop" using le by auto
  obtain t' a' where s: "tape_splice ops t start stop replacement a = Some (t', a')" "splices ops t replacement start stop t' a'"
    using runsD [OF tape_splice_runs [OF t(1,2) fit le] room] by blast
  then have t': "tape_ok ops a' t'" "tape_balanced t'"
      "tape_list t' = take start (tape_list t) @ tape_list replacement @ drop stop (tape_list t)"
      "window_only (tape_leaves t) (tape_leaves t') start (length (tape_list t) - stop)"
    using t(3-5) by (auto simp: splices_def)
  have len': "tape_len t' = length (tape_list t')" "length (tape_list t') = start + ?m + (length (tape_list t) - stop)"
    using tape_len_list [OF t'(1)] t'(3) le len by auto
  have add: "checked_add_u64 start (tape_len replacement) = Some (start + ?m)"
  proof -
    have "fits ops (take start (tape_list t) @ tape_list replacement)"
      using fit fits_append(1) [of ops "take start (tape_list t) @ tape_list replacement"] by simp
    then have "start + ?m \<le> usize_max" using le len by (auto simp: fits_def)
    then show ?thesis using len(2) by simp
  qed
  let ?W = "drop (start - LEAF_MAX) (take (stop + LEAF_MAX) (tape_locations ops t))"
  let ?W' = "drop (start - LEAF_MAX) (take (start + ?m + LEAF_MAX) (tape_locations ops t'))"
  obtain A B where AB: "tape_locations ops t = A @ ?W @ B" "tape_locations ops t' = A @ ?W' @ B"
    using window_locations [OF t'(4), of stop ?m ops] le len len' by (auto simp: tape_locations_def tape_list_def)
  have clip_take: "take (min i (length (tape_list u))) (tape_locations ops u) = take i (tape_locations ops u)" for i u
    by (simp add: tape_locations_def tape_list_def min_def)
  have old: "locations_in_range ops t (start - LEAF_MAX) (min (stop + LEAF_MAX) (tape_len t)) = Some ?W"
  proof -
    have "start - LEAF_MAX \<le> min (stop + LEAF_MAX) (tape_len t)" using le by linarith
    then show ?thesis using locations_in_range_list [OF t(1)] len clip_take by simp
  qed
  have new: "locations_in_range ops t' (start - LEAF_MAX) (min (start + ?m + LEAF_MAX) (tape_len t')) = Some ?W'"
  proof -
    have "start - LEAF_MAX \<le> min (start + ?m + LEAF_MAX) (tape_len t')" using len' by linarith
    then show ?thesis unfolding len'(1) using locations_in_range_list [OF t'(1)] clip_take by simp
  qed
  obtain i1 where i1: "index_remove_all (map fst ?W) ix = Some i1" "index_ok i1"
      "index_map i1 = index_map ix |` (- set (map fst ?W))"
    using occ.remove_all [of ix "map fst ?W"] ix(1) by (auto simp: index_remove_all_def indexes_def)
  obtain i2 where i2: "index_insert_all ?W' i1 = Some i2" "index_ok i2" "index_map i2 = index_map i1 ++ map_of (rev ?W')"
    using occ.insert_all [OF i1(2), of ?W'] by (auto simp: index_insert_all_def)
  have "distinct (map fst (A @ ?W @ B))" "distinct (map fst (A @ ?W' @ B))"
    unfolding AB [symmetric] using ix(2,3) t'(3) by (simp_all add: tape_locations_ids ids_distinct_def)
  from reindex_window [OF this] have "index_map i2 = map_of (tape_locations ops t')"
    using i2(3) i1(3) ix(1) AB by (simp add: indexes_def)
  then have "indexes ops i2 t'" using i2(2) by (simp add: indexes_def)
  then show ?thesis using s(1) t' old new add i1(1) i2(1) by (simp add: splice_with_index_def clip Let_def)
qed

section \<open>Looking up ids\<close>

lemma order_lookup:
  assumes "node_ok ops k n" "node_leaves n = A @ x # B"
  shows "rank_of_order n (leaf_order x) base = Some (base + length (entries_of A)) \<and> leaf_at_order n (leaf_order x) = Some x"
  using assms
proof (induction n arbitrary: A B base)
  case (TLeaf y)
  then show ?case by (cases A) auto
next
  case (TBranch i l r m h q f g)
  have ok: "node_ok ops k l" "node_ok ops k r" "last_order l < first_order r" using TBranch.prems(1) by auto
  have low: "leaf_order y \<le> last_order l" if "y \<in> set (node_leaves l)" for y
    using sorted_first_last [OF node_leaves_sorted [OF ok(1)], of "leaf_order y"] that
    by (simp add: last_order_last [OF ok(1)] last_map)
  have high: "last_order l < leaf_order y" if "y \<in> set (node_leaves r)" for y
    using sorted_first_last [OF node_leaves_sorted [OF ok(2)], of "leaf_order y"] that ok(3)
    by (auto simp: first_order_hd [OF ok(2)] hd_map dest: less_le_trans)
  obtain U where U: "node_leaves l = A @ U \<and> U @ node_leaves r = x # B \<or> node_leaves l @ U = A \<and> node_leaves r = U @ x # B"
    using TBranch.prems(2) by (auto simp: append_eq_append_conv2)
  show ?case
  proof (cases "node_leaves r = U @ x # B \<and> node_leaves l @ U = A")
    case True
    then have "last_order l < leaf_order x" using high by simp
    then have not_le: "\<not> leaf_order x \<le> last_order l" by simp
    have "entries_of A = node_entries l @ entries_of U" using True by (metis entries_of_simps(3))
    then show ?thesis using True TBranch.IH(2) [OF ok(2), of U B "base + node_len l"] not_le node_len_entries [OF ok(1)]
      by simp
  next
    case False
    then have c: "node_leaves l = A @ U" "U @ node_leaves r = x # B" using U by auto
    have "U \<noteq> []"
    proof
      assume "U = []"
      then have "node_leaves r = [] @ x # B \<and> node_leaves l @ [] = A" using c by simp
      then show False using False \<open>U = []\<close> by simp
    qed
    then obtain U' where "U = x # U'" using c(2) by (cases U) auto
    then have "node_leaves l = A @ x # U'" using c(1) by simp
    then show ?thesis using TBranch.IH(1) [OF ok(1), of A U' base] low [of x] by simp
  qed
qed

text \<open>The leaf and the slot of an entry.\<close>

lemma locations_nth:
  "r < length (entries_of L) \<Longrightarrow> \<exists>A x B j. L = A @ x # B \<and> j < length (leaf_entries x) \<and>
    r = length (entries_of A) + j \<and> locations_of ops L ! r = leaf_location ops x j"
proof (induction L arbitrary: r)
  case (Cons y L)
  show ?case
  proof (cases "r < length (leaf_entries y)")
    case True
    then show ?thesis by (intro exI [of _ "[]"] exI [of _ y] exI [of _ L] exI [of _ r]) (simp add: nth_append)
  next
    case False
    then have "r - length (leaf_entries y) < length (entries_of L)" using Cons.prems by simp
    from Cons.IH [OF this] obtain A x B j where ih: "L = A @ x # B" "j < length (leaf_entries x)"
      "r - length (leaf_entries y) = length (entries_of A) + j"
      "locations_of ops L ! (r - length (leaf_entries y)) = leaf_location ops x j"
      by blast
    then show ?thesis using False
      by (intro exI [of _ "y # A"] exI [of _ x] exI [of _ B] exI [of _ j]) (simp add: nth_append)
  qed
qed simp

lemma rank_of_id_present:
  assumes "tape_ok ops a t" "indexes ops ix t" "ids_distinct ops (tape_list t)" "r < tape_len t"
  shows "rank_of_id t (stable_id ops (tape_list t ! r)) ix = Some (Some r)"
proof -
  have r: "r < length (tape_list t)" using assms(1,4) tape_len_list by metis
  then obtain A x B j where x: "tape_leaves t = A @ x # B" "j < length (leaf_entries x)"
    "r = length (entries_of A) + j" "tape_locations ops t ! r = leaf_location ops x j"
    using locations_nth [of r "tape_leaves t" ops] by (auto simp: tape_list_def tape_locations_def)
  let ?k = "stable_id ops (tape_list t ! r)"
  have lr: "r < length (tape_locations ops t)" using r by (simp add: tape_list_def tape_locations_def)
  have k: "fst (tape_locations ops t ! r) = ?k"
  proof -
    have "fst (tape_locations ops t ! r) = map fst (tape_locations ops t) ! r" using lr by simp
    then show ?thesis using r by (simp add: tape_locations_ids)
  qed
  have "tape_locations ops t ! r \<in> set (tape_locations ops t)" using lr by simp
  then have "(?k, snd (leaf_location ops x j)) \<in> set (tape_locations ops t)"
    using k x(4) by (metis prod.collapse)
  moreover have "distinct (map fst (tape_locations ops t))" using assms(3) by (simp add: tape_locations_ids ids_distinct_def)
  ultimately have "index_map ix ?k = Some (snd (leaf_location ops x j))"
    using assms(2) by (simp add: indexes_def)
  then have "index_get ix ?k = Some (Some \<lparr>loc_leaf = leaf_id x, loc_slot = j, loc_order = leaf_order x\<rparr>)"
    using occ.lookup_abs [of ix ?k] assms(2) by (simp add: indexes_def leaf_location_def)
  moreover obtain n where n: "tape_root t = Some n" "node_ok ops (next_id a) n" "node_leaves n = A @ x # B"
    using assms(1) x(1) by (cases "tape_root t") (auto simp: tape_ok_def tape_leaves_def)
  ultimately show ?thesis using order_lookup [OF n(2,3), of 0] n(1) x(2,3)
    by (simp add: rank_of_id_def)
qed

lemma rank_of_id_absent:
  assumes "indexes ops ix t" "k \<notin> stable_id ops ` set (tape_list t)"
  shows "rank_of_id t k ix = Some None"
proof -
  have "k \<notin> fst ` set (tape_locations ops t)"
    using assms(2) arg_cong [OF tape_locations_ids [of ops t], of set] by simp
  then have "index_map ix k = None" using assms(1) by (simp add: indexes_def map_of_eq_None_iff)
  then show ?thesis using occ.lookup_abs [of ix k] assms(1) by (simp add: indexes_def rank_of_id_def)
qed

end
