(* ===== verification/Tape_Properties.thy ===== *)
theory Tape_Properties
  imports Tape_Index
begin

text \<open>
  The properties of the stable tape (\<^verbatim>\<open>src/framework/tape.rs\<close>), each with a witness on
  concrete tapes of numbers (\<^verbatim>\<open>impl TapeEntry for usize\<close>).
\<close>

section \<open>Concrete tapes\<close>

definition numbers :: "nat list" where
  "numbers = [10, 20, 30]"

lemma fits_usize: "fits usize_entry_ops es \<longleftrightarrow> length es \<le> usize_max"
proof -
  have "entry_sum usize_entry_ops lexical_count es = length es" "entry_sum usize_entry_ops semantic_count es = 0"
    "entry_sum usize_entry_ops source_bytes es = length es"
    by (induction es) (simp_all add: usize_entry_ops_def metric_lexical_def)
  then show ?thesis unfolding fits_def by (metis le0)
qed

lemma from_entries_example:
  assumes "2 * length es \<le> 2 ^ 60"
  shows "\<exists>t a. from_entries usize_entry_ops es allocator_new = Some (t, a) \<and> tape_ok usize_entry_ops a t \<and>
    tape_list t = es \<and> (length es \<le> 256 \<longrightarrow> tape_balanced t) \<and> id_spends allocator_new (2 * length es) a"
proof -
  have "fits usize_entry_ops es" using assms by (simp add: fits_usize usize_max_def)
  moreover have "id_room allocator_new (2 * length es)"
    using assms by (simp add: id_room_def allocator_new_def usize_max_def)
  ultimately show ?thesis using runsD [OF from_entries_runs, of usize_entry_ops es allocator_new]
    by (auto simp: built_def)
qed

lemma room_after: "id_spends allocator_new m a \<Longrightarrow> m \<le> 2 ^ 60 \<Longrightarrow> n \<le> 2 ^ 60 \<Longrightarrow> id_room a n"
  by (auto simp: id_spends_def id_room_def allocator_new_def usize_max_def)

section \<open>The sequence\<close>

text \<open>
  \<^verbatim>\<open>from_entries\<close> of any entries within the machine bounds returns (its label loop stops
  and no assertion fails) a well-formed tape with exactly these entries: leaves of 1 to 64
  entries, ascending leaf labels, exact lengths and metrics, ids that the allocator has
  handed out; reading it by rank or through the iterator gives the entries back.
\<close>

theorem from_entries_correct:
  assumes "fits ops es" "id_room a (2 * length es)"
  shows "\<exists>t a'. from_entries ops es a = Some (t, a') \<and> tape_ok ops a' t \<and> tape_list t = es \<and>
    tape_to_vec t = es \<and> (\<forall>i. tape_get t i = nth_opt es i)"
  using runsD [OF from_entries_runs [OF assms(1)] assms(2)]
  by (auto simp: built_def tape_to_vec_list tape_get_list)

theorem from_entries_correct_witness:
  "\<exists>t a. from_entries usize_entry_ops numbers allocator_new = Some (t, a) \<and> tape_to_vec t = [10, 20, 30]"
proof -
  have "fits usize_entry_ops numbers" "id_room allocator_new (2 * length numbers)"
    by (simp_all add: fits_usize numbers_def usize_max_def id_room_def allocator_new_def)
  from from_entries_correct [OF this] show ?thesis by (auto simp: numbers_def)
qed

text \<open>
  C4: \<^verbatim>\<open>splice\<close> of an in-range interval of any well-formed tape returns without a panic (all
  checked additions, label searches and debug assertions included) a well-formed tape that
  holds prefix, replacement and suffix in order; the fresh node ids it takes are bounded.
\<close>

theorem tape_splice_refines:
  assumes "tape_ok ops a t" "tape_ok ops a replacement" "start \<le> stop" "stop \<le> tape_len t"
    and "fits ops (take start (tape_list t) @ tape_list replacement @ drop stop (tape_list t))"
    and "id_room a (tape_splice_cost (length (tape_list t)) (length (tape_list replacement)))"
  shows "\<exists>t' a'. tape_splice ops t start stop replacement a = Some (t', a') \<and> tape_ok ops a' t' \<and>
    tape_list t' = take start (tape_list t) @ tape_list replacement @ drop stop (tape_list t) \<and>
    (\<forall>i. tape_get t' i = nth_opt (take start (tape_list t) @ tape_list replacement @ drop stop (tape_list t)) i) \<and>
    next_id a' \<le> next_id a + tape_splice_cost (length (tape_list t)) (length (tape_list replacement))"
  using runsD [OF tape_splice_runs [OF assms(1,2,5,3,4)] assms(6)]
  by (auto simp: splices_def tape_get_list id_spends_def)

theorem tape_splice_refines_witness:
  "\<exists>t a t' a'. from_entries usize_entry_ops numbers allocator_new = Some (t, a) \<and>
    tape_splice usize_entry_ops t 1 2 tape_new a = Some (t', a') \<and> tape_list t' = [10, 30]"
proof -
  obtain t a where t: "from_entries usize_entry_ops numbers allocator_new = Some (t, a)" "tape_ok usize_entry_ops a t"
      "tape_list t = [10, 20, 30]" "id_spends allocator_new 6 a"
    using from_entries_example [of numbers] by (auto simp: numbers_def)
  have room: "id_room a (tape_splice_cost (length (tape_list t)) (length (tape_list tape_new)))"
    by (rule room_after [OF t(4)]) (simp_all add: t(3) tape_splice_cost_def power2_eq_square)
  have "stop \<le> tape_len t" if "stop \<le> 3" for stop using tape_len_list [OF t(2)] t(3) that by simp
  then show ?thesis
    using tape_splice_refines [OF t(2) _ _ _ _ room, of 1 2] t(1,3) by (auto simp: fits_usize usize_max_def)
qed

text \<open>
  C34: cutting a tape anywhere and concatenating the two sides gives a tape with the same
  entries, whatever leaves the cut and the join rebuilt.
\<close>

theorem tape_split_concat:
  assumes "tape_ok ops a t" "i \<le> tape_len t"
    and "id_room a (3 * (length (tape_list t))\<^sup>2 + tape_concat_cost i (length (tape_list t) - i))"
  shows "\<exists>l r a1 t' a2. tape_split_at ops t i a = Some ((l, r), a1) \<and> tape_concat ops l r a1 = Some (t', a2) \<and>
    tape_ok ops a2 t' \<and> tape_to_vec t' = tape_to_vec t"
proof -
  have i: "i \<le> length (tape_list t)" using assms(1,2) tape_len_list by metis
  have "id_room a (3 * (length (tape_list t))\<^sup>2 + tape_concat_cost (length (take i (tape_list t))) (length (drop i (tape_list t))))"
    using assms(3) i by (simp add: min.absorb2)
  from tape.split_join [OF assms(1) i this] show ?thesis
    using assms(1) by (metis tape_to_vec_list)
qed

theorem tape_split_concat_witness:
  "\<exists>t a l r a1 t' a2. from_entries usize_entry_ops numbers allocator_new = Some (t, a) \<and>
    tape_split_at usize_entry_ops t 1 a = Some ((l, r), a1) \<and> tape_concat usize_entry_ops l r a1 = Some (t', a2) \<and>
    tape_to_vec t' = [10, 20, 30]"
proof -
  obtain t a where t: "from_entries usize_entry_ops numbers allocator_new = Some (t, a)" "tape_ok usize_entry_ops a t"
      "tape_list t = [10, 20, 30]" "id_spends allocator_new 6 a"
    using from_entries_example [of numbers] by (auto simp: numbers_def)
  have room: "id_room a (3 * (length (tape_list t))\<^sup>2 + tape_concat_cost 1 (length (tape_list t) - 1))"
    by (rule room_after [OF t(4)]) (simp_all add: t(3) tape_concat_cost_def power2_eq_square)
  have "1 \<le> tape_len t" using tape_len_list [OF t(2)] t(3) by simp
  from tape_split_concat [OF t(2) this room] show ?thesis
    using t(1,3) tape_to_vec_list [OF t(2)] by auto
qed

text \<open>
  C33: the balance of the rope is kept by \<^verbatim>\<open>splice\<close> for replacements of at most four leaves, and
  a balanced rope of \<open>n\<close> entries is at most \<open>2 log2 n + 2\<close> levels high.
\<close>

theorem tape_splice_balanced:
  assumes "tape_ok ops a t" "tape_ok ops a replacement" "tape_balanced t" "tape_balanced replacement"
    and "length (tape_list replacement) \<le> 256" "start \<le> stop" "stop \<le> tape_len t"
    and "tape_splice ops t start stop replacement a = Some (t', a')"
    and "fits ops (take start (tape_list t) @ tape_list replacement @ drop stop (tape_list t))"
    and "id_room a (tape_splice_cost (length (tape_list t)) (length (tape_list replacement)))"
    and "tape_root t' = Some n"
  shows "node_balanced n \<and> 2 ^ ((node_height n - 1) div 2) \<le> tape_len t'"
proof -
  have "splices ops t replacement start stop t' a'"
    using runsD [OF tape_splice_runs [OF assms(1,2,9,6,7)] assms(10)] assms(8) by auto
  then have t': "tape_ok ops a' t'" "tape_balanced t'" using assms(3-5) by (auto simp: splices_def)
  then have "node_ok ops (next_id a') n" "node_balanced n"
    using assms(11) by (auto simp: tape_ok_def tape_balanced_def)
  then show ?thesis using node_height_entries [of ops "next_id a'" n] tape_len_list [OF t'(1)] assms(11)
    by (simp add: tape_list_def tape_leaves_def)
qed

theorem tape_splice_balanced_witness:
  "\<exists>t a t' a' n. from_entries usize_entry_ops numbers allocator_new = Some (t, a) \<and>
    tape_splice usize_entry_ops t 1 2 tape_new a = Some (t', a') \<and> tape_root t' = Some n \<and> node_balanced n"
proof -
  obtain t a where t: "from_entries usize_entry_ops numbers allocator_new = Some (t, a)" "tape_ok usize_entry_ops a t"
      "tape_list t = [10, 20, 30]" "id_spends allocator_new 6 a" "tape_balanced t"
    using from_entries_example [of numbers] by (auto simp: numbers_def)
  have room: "id_room a (tape_splice_cost (length (tape_list t)) (length (tape_list tape_new)))"
    by (rule room_after [OF t(4)]) (simp_all add: t(3) tape_splice_cost_def power2_eq_square)
  have stop: "2 \<le> tape_len t" using tape_len_list [OF t(2)] t(3) by simp
  have fit: "fits usize_entry_ops (take 1 (tape_list t) @ tape_list tape_new @ drop 2 (tape_list t))"
    by (simp add: t(3) fits_usize usize_max_def)
  obtain t' a' where s: "tape_splice usize_entry_ops t 1 2 tape_new a = Some (t', a')"
      "splices usize_entry_ops t tape_new 1 2 t' a'"
    using runsD [OF tape_splice_runs [OF t(2) tape_new_ok(1) fit _ stop] room] by auto
  then obtain n where n: "tape_root t' = Some n"
    using tape_empty_iff [of usize_entry_ops a' t'] t(3) by (auto simp: splices_def)
  from tape_splice_balanced [OF t(2) tape_new_ok(1) t(5) tape_new_ok(2) _ _ stop s(1) fit room n]
  show ?thesis using t(1) s(1) n by auto
qed

section \<open>The occurrence index\<close>

lemma indexed_example:
  "\<exists>t a ix. from_entries usize_entry_ops numbers allocator_new = Some (t, a) \<and> tape_ok usize_entry_ops a t \<and>
    tape_list t = [10, 20, 30] \<and> tape_balanced t \<and> tape_len t = 3 \<and>
    (\<forall>n. n \<le> 2 ^ 60 \<longrightarrow> id_room a n) \<and> ids_distinct usize_entry_ops (tape_list t) \<and>
    occurrence_index_of usize_entry_ops t = Some ix \<and> indexes usize_entry_ops ix t"
proof -
  obtain t a where t: "from_entries usize_entry_ops numbers allocator_new = Some (t, a)" "tape_ok usize_entry_ops a t"
      "tape_list t = [10, 20, 30]" "id_spends allocator_new 6 a" "tape_balanced t"
    using from_entries_example [of numbers] by (auto simp: numbers_def)
  have d: "ids_distinct usize_entry_ops (tape_list t)" by (simp add: t(3) ids_distinct_def usize_entry_ops_def)
  have room: "id_room a n" if "n \<le> 2 ^ 60" for n by (rule room_after [OF t(4) _ that]) simp
  show ?thesis
    using t d room occurrence_index_of_indexes [OF t(2) d] tape_len_list [OF t(2)] by auto
qed



text \<open>
  C35: lookup by stable id. On a tape with its index, \<^verbatim>\<open>rank_of_id\<close> finds the rank of every
  entry and nothing else, and the neighbours are the entries before and after it.
\<close>

theorem rank_of_id_correct:
  assumes "tape_ok ops a t" "indexes ops ix t" "ids_distinct ops (tape_list t)"
  shows "(\<forall>r < tape_len t. rank_of_id t (stable_id ops (tape_list t ! r)) ix = Some (Some r) \<and>
      predecessor_id ops t (stable_id ops (tape_list t ! r)) ix =
        Some (if r = 0 then None else Some (stable_id ops (tape_list t ! (r - 1)))) \<and>
      successor_id ops t (stable_id ops (tape_list t ! r)) ix =
        Some (if r + 1 < tape_len t then Some (stable_id ops (tape_list t ! (r + 1))) else None)) \<and>
    (\<forall>k. k \<notin> stable_id ops ` set (tape_list t) \<longrightarrow> rank_of_id t k ix = Some None)"
proof (intro conjI allI impI)
  fix r assume r: "r < tape_len t"
  let ?k = "stable_id ops (tape_list t ! r)"
  show k: "rank_of_id t ?k ix = Some (Some r)" by (rule rank_of_id_present [OF assms r])
  have len: "tape_len t = length (tape_list t)" by (rule tape_len_list [OF assms(1)])
  have get: "tape_get t i = nth_opt (tape_list t) i" for i by (rule tape_get_list [OF assms(1)])
  show "predecessor_id ops t ?k ix = Some (if r = 0 then None else Some (stable_id ops (tape_list t ! (r - 1))))"
    using k r len get by (auto simp: predecessor_id_def)
  have "length (tape_list t) \<le> usize_max" using assms(1) by (simp add: tape_ok_def fits_def)
  then show "successor_id ops t ?k ix = Some (if r + 1 < tape_len t then Some (stable_id ops (tape_list t ! (r + 1))) else None)"
    using k r len get by (auto simp: successor_id_def)
qed (rule rank_of_id_absent [OF assms(2)])

theorem rank_of_id_correct_witness:
  "\<exists>t ix. occurrence_index_of usize_entry_ops t = Some ix \<and> tape_list t = [10, 20, 30] \<and>
    rank_of_id t 20 ix = Some (Some 1) \<and> predecessor_id usize_entry_ops t 20 ix = Some (Some 10) \<and>
    successor_id usize_entry_ops t 30 ix = Some None \<and> rank_of_id t 25 ix = Some None"
proof -
  obtain t a ix where t: "tape_ok usize_entry_ops a t" "tape_list t = [10, 20, 30]" "tape_len t = 3"
      "ids_distinct usize_entry_ops (tape_list t)"
      "occurrence_index_of usize_entry_ops t = Some ix" "indexes usize_entry_ops ix t"
    using indexed_example by blast
  note c = rank_of_id_correct [OF t(1,6,4)]
  have "(1 :: nat) < tape_len t" "(2 :: nat) < tape_len t" using t(3) by simp_all
  with conjunct1 [OF c] have "rank_of_id t 20 ix = Some (Some 1)" "predecessor_id usize_entry_ops t 20 ix = Some (Some 10)"
    "successor_id usize_entry_ops t 30 ix = Some None"
    by (fastforce simp: t(2,3) usize_entry_ops_def)+
  moreover have "(25 :: u64) \<notin> stable_id usize_entry_ops ` set (tape_list t)"
    by (simp add: t(2) usize_entry_ops_def)
  ultimately show ?thesis using conjunct2 [OF c] t(2,5) by blast
qed

section \<open>Reads\<close>

text \<open>
  C36: the cursor. Seeking to a rank gives a cursor at that rank; its current entry is the
  entry of that rank; advancing and retreating move it by one entry, across leaf
  boundaries, and report the two ends.
\<close>

theorem cursor_walks:
  assumes "tape_ok ops a t" "tape_root t = Some root" "rank < tape_len t"
  shows "(\<exists>c. tape_cursor_at t rank = Some c \<and> cursor_at_rank root c rank) \<and>
    (\<forall>c. cursor_at_rank root c rank \<longrightarrow> cursor_current c = Some (tape_list t ! rank) \<and>
      (if Suc rank < tape_len t
       then \<exists>c'. cursor_advance c = Some (True, c') \<and> cursor_at_rank root c' (Suc rank)
       else \<exists>c'. cursor_advance c = Some (False, c')) \<and>
      (if 0 < rank
       then \<exists>c'. cursor_retreat c = Some (True, c') \<and> cursor_at_rank root c' (rank - 1)
       else \<exists>c'. cursor_retreat c = Some (False, c')))"
proof -
  have n: "node_ok ops (next_id a) root" "tape_list t = node_entries root" "tape_len t = node_len root"
    using assms(1,2) by (auto simp: tape_ok_def tape_list_def tape_leaves_def tape_len_def)
  have "tape_cursor_at t rank = Some (cursor_new root rank)" using assms(2,3) n(3) by (simp add: tape_cursor_at_def)
  moreover have "cursor_at_rank root (cursor_new root rank) rank" using cursor_new_at [OF n(1)] assms(3) n(3) by simp
  moreover have "cursor_current c = Some (tape_list t ! rank)" if "cursor_at_rank root c rank" for c
    using cursor_current_entry [OF that n(1)] n(2) by simp
  moreover have "if Suc rank < tape_len t
       then \<exists>c'. cursor_advance c = Some (True, c') \<and> cursor_at_rank root c' (Suc rank)
       else \<exists>c'. cursor_advance c = Some (False, c')" if "cursor_at_rank root c rank" for c
    using cursor_advance_at [OF that n(1)] n(3) by (auto split: if_splits)
  moreover have "if 0 < rank
       then \<exists>c'. cursor_retreat c = Some (True, c') \<and> cursor_at_rank root c' (rank - 1)
       else \<exists>c'. cursor_retreat c = Some (False, c')" if "cursor_at_rank root c rank" for c
    using cursor_retreat_at [OF that n(1)] by (auto split: if_splits)
  ultimately show ?thesis by blast
qed

theorem cursor_walks_witness:
  "\<exists>t a c c'. from_entries usize_entry_ops numbers allocator_new = Some (t, a) \<and> tape_cursor_at t 1 = Some c \<and>
    cursor_current c = Some 20 \<and> cursor_advance c = Some (True, c')"
proof -
  obtain t a where t: "from_entries usize_entry_ops numbers allocator_new = Some (t, a)" "tape_ok usize_entry_ops a t"
      "tape_list t = [10, 20, 30]" "tape_len t = 3"
    using indexed_example by blast
  obtain root where "tape_root t = Some root" using tape_empty_iff [OF t(2)] t(3) by auto
  from cursor_walks [OF t(2) this, of 1] show ?thesis using t by fastforce
qed

text \<open>
  \<^verbatim>\<open>lexical_rank_at_byte\<close> returns the rank of the first entry that ends after the byte
  offset: the entries before it hold at most \<open>offset\<close> bytes, and with it they hold more; past
  the last byte it returns the number of entries.
\<close>

theorem lexical_rank_correct:
  assumes "tape_ok ops a t"
  shows "let rank = lexical_rank_at_byte ops t offset in rank \<le> tape_len t \<and>
    entry_sum ops source_bytes (take rank (tape_list t)) \<le> offset \<and>
    (rank = tape_len t \<or> offset < entry_sum ops source_bytes (take (Suc rank) (tape_list t)))"
proof (cases "tape_root t")
  case None
  then show ?thesis
    by (simp add: lexical_rank_at_byte_def lexical_rank_at_byte_detailed_def tape_len_def tape_list_def tape_leaves_def)
next
  case (Some n)
  then have n: "node_ok ops (next_id a) n" "tape_list t = node_entries n" "tape_len t = length (node_entries n)"
    using assms tape_len_list [OF assms] by (auto simp: tape_ok_def tape_list_def tape_leaves_def)
  obtain j d where "rank_at_byte ops n offset 0 0 = (j, d)" "rank_spec ops (node_entries n) offset j"
    using rank_at_byte_spec [OF n(1), of offset 0 0] by auto
  then show ?thesis using n Some
    by (auto simp: lexical_rank_at_byte_def lexical_rank_at_byte_detailed_def rank_spec_def bytes_of_def Let_def)
qed

theorem lexical_rank_correct_witness:
  "\<exists>t a. from_entries usize_entry_ops numbers allocator_new = Some (t, a) \<and> lexical_rank_at_byte usize_entry_ops t 3 = 3"
proof -
  obtain t a where t: "from_entries usize_entry_ops numbers allocator_new = Some (t, a)" "tape_ok usize_entry_ops a t"
      "tape_list t = [10, 20, 30]" "tape_len t = 3"
    using indexed_example by blast
  have "source_bytes (entry_metric usize_entry_ops e) = 1" for e by (simp add: usize_entry_ops_def metric_lexical_def)
  then have sum: "entry_sum usize_entry_ops source_bytes es = length es" for es by (induction es) auto
  have "lexical_rank_at_byte usize_entry_ops t 3 = 3"
    using lexical_rank_correct [OF t(2), of 3] unfolding Let_def sum t(3,4) by simp
  then show ?thesis using t(1) by blast
qed

text \<open>
  \<^verbatim>\<open>iter_range\<close> yields exactly the entries of the clipped interval, in order, and
  \<^verbatim>\<open>metric_before\<close> returns, without overflow, a metric whose counts are those of the prefix.
\<close>

theorem range_and_prefix_correct:
  assumes "tape_ok ops a t"
  shows "range_collect (tape_iter_range t start stop) = drop start (take stop (tape_list t)) \<and>
    (\<exists>m. metric_before ops t stop = Some m \<and>
      lexical_count m = entry_sum ops lexical_count (take stop (tape_list t)) \<and>
      semantic_count m = entry_sum ops semantic_count (take stop (tape_list t)) \<and>
      source_bytes m = entry_sum ops source_bytes (take stop (tape_list t)))"
  using tape_iter_range_list [OF assms] metric_before_counts [OF assms, of stop] by (auto simp: counts_are_def)

theorem range_and_prefix_correct_witness:
  "\<exists>t a m. from_entries usize_entry_ops numbers allocator_new = Some (t, a) \<and>
    range_collect (tape_iter_range t 1 9) = [20, 30] \<and> metric_before usize_entry_ops t 2 = Some m \<and> lexical_count m = 2"
proof -
  obtain t a where t: "from_entries usize_entry_ops numbers allocator_new = Some (t, a)" "tape_ok usize_entry_ops a t"
      "tape_list t = [10, 20, 30]"
    using indexed_example by blast
  from range_and_prefix_correct [OF t(2), of 1 9] range_and_prefix_correct [OF t(2), of 0 2]
  show ?thesis using t(1,3) by (auto simp: usize_entry_ops_def metric_lexical_def)
qed

text \<open>
  what \<^verbatim>\<open>exact_eq\<close> accepts has equal entries, given that identical pointers lead to
  identical nodes.
\<close>

theorem exact_eq_sound:
  assumes "\<forall>x y. ptr_eq x y \<longrightarrow> x = y" "tape_ok ops a s" "tape_ok ops a' t" "exact_eq ptr_eq s t"
  shows "tape_list s = tape_list t"
  using assms nodes_equal_sound [OF assms(1), of _ _ ops "next_id a" "next_id a'"]
  by (auto simp: exact_eq_def tape_ok_def tape_list_def tape_leaves_def split: option.splits)

theorem exact_eq_sound_witness:
  "\<exists>t a. from_entries usize_entry_ops numbers allocator_new = Some (t, a) \<and> exact_eq (\<lambda>_ _. False) t t \<and>
    tape_list t = tape_list t"
proof -
  obtain t a where t: "from_entries usize_entry_ops numbers allocator_new = Some (t, a)" "tape_ok usize_entry_ops a t"
    using indexed_example by blast
  have "nodes_equal (\<lambda>_ _. False) n n" for n :: "nat tape_node" by (induction n) auto
  then have "exact_eq (\<lambda>_ _. False) t t" by (simp add: exact_eq_def split: option.split)
  then show ?thesis using exact_eq_sound [OF _ t(2,2), of "\<lambda>_ _. False"] t(1) by blast
qed

end
