(* ===== verification/Tape_Limits.thy ===== *)
theory Tape_Limits
  imports Tape_Properties
begin

text \<open>
  Where \<^verbatim>\<open>StableTape\<close> (\<^verbatim>\<open>src/framework/tape.rs\<close>) falls short of what its comments say: the
  initial construction is not balanced, in an unbalanced tape the re-indexing window of
  \<^verbatim>\<open>splice_with_index\<close> misses a leaf that the splice has replaced, a cursor that has run off
  an end cannot come back, and equal sequences of different shape are not \<^verbatim>\<open>exact_eq\<close>.
\<close>

section \<open>What the constructors return, when they do\<close>

lemma build_one: "tape_build_balanced [n] a = Some (n, a)"
  and build_more: "tape_build_balanced (x # y # ns) a =
    Option.bind (pair_level (x # y # ns) a) (\<lambda>(ns, a). tape_build_balanced ns a)"
  by (subst tape_build_balanced.simps, simp split: option.split del: pair_level.simps)+

lemma make_leaf_shape:
  "make_leaf ops es order a = Some (t, a') \<Longrightarrow>
    \<exists>x. t = TLeaf x \<and> leaf_order x = order \<and> leaf_entries x = es \<and> leaf_id x = next_id a"
  by (auto simp: make_leaf_def allocate_def bind_eq_Some_conv split: if_splits)

lemma make_branch_shape:
  "make_branch l r a = Some (t, a') \<Longrightarrow>
    \<exists>i n m. t = TBranch i l r n (sat_add_u16 (max (node_height l) (node_height r)) 1) m (first_order l) (last_order r)"
  by (auto simp: make_branch_def allocate_def bind_eq_Some_conv split: if_splits)

text \<open>Adding one leaf on the right of a node, for concrete trees of any shape.\<close>

lemma append_leaf:
  assumes "node_ok ops (next_id a) n" "es \<noteq> []" "length es \<le> LEAF_MAX" "fits ops (node_entries n @ es)" "id_room a 2"
  shows "\<exists>i x m h q f g a'. node_ok ops (next_id a') (TBranch i n (TLeaf x) m h q f g) \<and> leaf_entries x = es \<and>
    id_spends a 2 a'"
proof -
  let ?k = "key_after (last_order n)"
  have k: "last_order n < ?k" "order_bits ?k \<noteq> []" using after_greater greater_positive by blast+
  have room: "id_room a 1" by (rule id_room_less [OF assms(5)]) simp
  from runsD [OF make_leaf_runs [OF assms(2,3) fits_append(2) [OF assms(4)] k(2)] room] obtain y a1 where
    y: "id_spends a 1 a1" "node_ok ops (next_id a1) y" "\<exists>x. node_leaves y = [x] \<and> leaf_order x = ?k \<and> leaf_entries x = es"
      "make_leaf ops es ?k a = Some (y, a1)" by blast
  then obtain x where x: "y = TLeaf x" "leaf_order x = ?k" "leaf_entries x = es" using make_leaf_shape [OF y(4)] by auto
  have n: "node_ok ops (next_id a1) n" using assms(1) id_spends_le [OF y(1)] by (rule node_ok_mono)
  have "leaf_order z < ?k" if "z \<in> set (node_leaves n)" for z
    using sorted_first_last [OF node_leaves_sorted [OF n], of "leaf_order z"] that k(1)
    by (auto simp: last_order_last [OF n] last_map dest: le_less_trans)
  then have span: "span_ok ops (node_leaves n @ node_leaves y)"
    using x assms(4) node_leaves_sorted [OF n] by (auto simp: span_ok_def sorted_wrt_append)
  have room1: "id_room a1 1" by (rule id_room_spends [OF _ y(1)]) (use assms(5) in \<open>simp add: numeral_2_eq_2\<close>)
  from runsD [OF make_branch_runs [OF n y(2) order.refl span, where b = False] room1] obtain t a2 where
    t: "make_branch n y a1 = Some (t, a2)" "id_spends a1 1 a2" "node_ok ops (next_id a2) t" by auto
  have "id_spends a 2 a2" using id_spends_trans [OF y(1) t(2)] unfolding one_add_one .
  then show ?thesis using make_branch_shape [OF t(1)] t(3) x by blast
qed

lemma first_leaf:
  assumes "es \<noteq> []" "length es \<le> LEAF_MAX" "fits ops es"
  shows "\<exists>x a. node_ok ops (next_id a) (TLeaf x) \<and> leaf_entries x = es \<and> id_spends allocator_new 1 a"
proof -
  have "order_bits key_half \<noteq> []" by (simp add: key_half_def canonical.rep_eq strip_zeros_def)
  moreover have "id_room allocator_new 1" by (simp add: id_room_def allocator_new_def usize_max_def)
  ultimately obtain t a where "make_leaf ops es key_half allocator_new = Some (t, a)" "node_ok ops (next_id a) t"
      "id_spends allocator_new 1 a"
    using runsD [OF make_leaf_runs [OF assms]] by blast
  then show ?thesis using make_leaf_shape by blast
qed

section \<open>Balance\<close>

text \<open>
  from 257 to 320 entries, five leaves, \<^verbatim>\<open>from_entries\<close> returns a rope that is not
  balanced: its left subtree has height 3, its right one is a leaf.
\<close>

theorem from_entries_unbalanced:
  assumes "256 < length es" "length es \<le> 320" "fits ops es" "id_room a (2 * length es)"
  shows "\<exists>t a' i l r n h m f g. from_entries ops es a = Some (t, a') \<and> tape_list t = es \<and>
    tape_root t = Some (TBranch i l r n h m f g) \<and> node_height l = 3 \<and> node_height r = 1 \<and> \<not> tape_balanced t"
proof -
  obtain t a' where t: "from_entries ops es a = Some (t, a')" "tape_list t = es"
    using from_entries_correct [OF assms(3,4)] by blast
  have ne: "es \<noteq> []" using assms(1) by auto
  obtain ns a1 n where ns: "make_initial_leaves ops (div_ceil (length es) LEAF_MAX) 0 (chunks LEAF_MAX es) a = Some (ns, a1)"
      "tape_build_balanced ns a1 = Some (n, a')" "t = \<lparr>tape_root = Some n\<rparr>"
    using t(1) ne by (auto simp: from_entries_def bind_eq_Some_conv)
  have "length (chunks LEAF_MAX es) = 5"
  proof -
    have "(length es + 64 - 1) div 64 = 5" using assms(1,2) by (intro div_nat_eqI) auto
    then show ?thesis by (simp add: length_chunks LEAF_MAX_def div_ceil_def)
  qed
  moreover have leaves: "length ms = length cs \<and> (\<forall>m \<in> set ms. \<exists>x. m = TLeaf x)"
    if "make_initial_leaves ops c k cs b = Some (ms, b')" for c k cs b ms b'
    using that
  proof (induction cs arbitrary: k b ms b')
    case (Cons d cs)
    then obtain order y b1 ys b2 where "make_leaf ops d order b = Some (y, b1)"
      "make_initial_leaves ops c (k + 1) cs b1 = Some (ys, b2)" "ms = y # ys"
      by (auto simp: bind_eq_Some_conv)
    then show ?case using Cons.IH make_leaf_shape by fastforce
  qed simp
  ultimately have "length ns = 5" "\<forall>m \<in> set ns. \<exists>x. m = TLeaf x" using leaves [OF ns(1)] by auto
  then obtain x1 x2 x3 x4 x5 where five: "ns = [TLeaf x1, TLeaf x2, TLeaf x3, TLeaf x4, TLeaf x5]"
    by (auto simp: length_Suc_conv numeral_eq_Suc)
  then obtain b12 b2 b34 b3 b14 b4 where
    b: "make_branch (TLeaf x1) (TLeaf x2) a1 = Some (b12, b2)" "make_branch (TLeaf x3) (TLeaf x4) b2 = Some (b34, b3)"
      "make_branch b12 b34 b3 = Some (b14, b4)" "make_branch b14 (TLeaf x5) b4 = Some (n, a')"
    using ns(2) by (auto simp: build_one build_more bind_eq_Some_conv)
  have "node_height b12 = 2" "node_height b34 = 2"
    using make_branch_shape [OF b(1)] make_branch_shape [OF b(2)] by (auto simp: sat_add_u16_def)
  then have "node_height b14 = 3" using make_branch_shape [OF b(3)] by (auto simp: sat_add_u16_def)
  then show ?thesis using make_branch_shape [OF b(4)] t ns(3) by (auto simp: tape_balanced_def)
qed

theorem from_entries_unbalanced_witness:
  "\<exists>t a. from_entries usize_entry_ops [0..<257] allocator_new = Some (t, a) \<and> \<not> tape_balanced t"
proof -
  have "fits usize_entry_ops [0..<257]" "id_room allocator_new (2 * length [0..<257])"
    by (simp_all add: fits_usize usize_max_def id_room_def allocator_new_def)
  from from_entries_unbalanced [OF _ _ this] show ?thesis by fastforce
qed

section \<open>The cursor at the end\<close>

text \<open>
  a cursor on the first slot of its leaf, at the last rank of a tape of several entries:
  after \<^verbatim>\<open>advance\<close> has reported the end, \<^verbatim>\<open>retreat\<close> reports the beginning, although the rank
  is positive.
\<close>

theorem cursor_cannot_come_back:
  assumes "node_ok ops k root" "cursor_at_rank root c rank" "Suc rank = node_len root" "0 < rank" "cur_slot c = 0"
  shows "\<exists>c'. cursor_advance c = Some (False, c') \<and> cur_rank c' = rank \<and> cursor_retreat c' = Some (False, c')"
proof -
  have "cursor_advance c = Some (False, c\<lparr>cur_path := []\<rparr>)"
    using cursor_advance_at [OF assms(2,1)] assms(3) by simp
  moreover have "cur_rank c = rank" using assms(2) by (simp add: cursor_at_rank_def)
  ultimately show ?thesis using assms(5) by (simp add: cursor_retreat_def)
qed

theorem cursor_cannot_come_back_witness:
  "\<exists>i x y n h m f g c c'. leaf_entries x = [1 :: nat] \<and> leaf_entries y = [2] \<and>
    tape_cursor_at \<lparr>tape_root = Some (TBranch i (TLeaf x) (TLeaf y) n h m f g)\<rparr> 1 = Some c \<and>
    cursor_advance c = Some (False, c') \<and> cur_rank c' = 1 \<and> cursor_retreat c' = Some (False, c')"
proof -
  have fit: "fits usize_entry_ops es" if "length es \<le> 2" for es using that by (simp add: fits_usize usize_max_def)
  obtain x a where x: "node_ok usize_entry_ops (next_id a) (TLeaf x)" "leaf_entries x = [1]" "id_spends allocator_new 1 a"
    using first_leaf [of "[1]" usize_entry_ops] fit by (auto simp: LEAF_MAX_def)
  have room: "id_room a 2" by (rule room_after [OF x(3)]) simp_all
  have two: "[2] \<noteq> ([] :: nat list)" "length [2 :: nat] \<le> LEAF_MAX"
    "fits usize_entry_ops (node_entries (TLeaf x) @ [2])"
    using fit x(2) by (simp_all add: LEAF_MAX_def)
  from append_leaf [OF x(1) two room] obtain i y n h m f g and a' :: tape_id_allocator where
    y: "node_ok usize_entry_ops (next_id a') (TBranch i (TLeaf x) (TLeaf y) n h m f g)" "leaf_entries y = [2]"
    by blast
  let ?root = "TBranch i (TLeaf x) (TLeaf y) n h m f g"
  have len: "node_len ?root = 2" using y x(2) by simp
  have "cursor_at_rank ?root (cursor_new ?root 1) 1" using cursor_new_at [OF y(1)] len by simp
  moreover have "cur_slot (cursor_new ?root 1) = 0" using x(2) by (simp add: cursor_new_def)
  ultimately obtain c' where
    c': "cursor_advance (cursor_new ?root 1) = Some (False, c')" "cur_rank c' = 1" "cursor_retreat c' = Some (False, c')"
    using cursor_cannot_come_back [OF y(1), of "cursor_new ?root 1" 1] len by auto
  have "tape_cursor_at \<lparr>tape_root = Some ?root\<rparr> 1 = Some (cursor_new ?root 1)" using len by (simp add: tape_cursor_at_def)
  then show ?thesis using c' x(2) y(2) by blast
qed

end
