(* ===== verification/Sealed_Arena.thy ===== *)
theory Sealed_Arena
  imports Prelude
begin

text \<open>
  The append-only arenas of \<^verbatim>\<open>src/framework/parse/data\<close>: frozen chunks with a directory of their
  start offsets, and a mutable tail that \<^verbatim>\<open>seal_generation\<close> turns into a chunk. \<^verbatim>\<open>ProductArena\<close>,
  \<^verbatim>\<open>TreeArena\<close>, \<^verbatim>\<open>AstArena\<close> and both halves of \<^verbatim>\<open>GssArena\<close> share this layout; the locale \<open>arena\<close> is what
  their clients rely on, ids that read the same value for ever.
\<close>

section \<open>Chunks and their directory\<close>

definition sat_add_usize :: "nat \<Rightarrow> nat \<Rightarrow> nat" where
  "sat_add_usize a b = min usize_max (a + b)"

text \<open>The common body of \<^verbatim>\<open>get\<close>. An index outside the directory, which the invariant excludes, reads nothing.\<close>

definition sealed_get :: "'a list list \<Rightarrow> nat list \<Rightarrow> 'a list \<Rightarrow> nat \<Rightarrow> nat \<Rightarrow> 'a option" where
  "sealed_get frozen starts tail total_len i =
     (let sealed_len = total_len - length tail in
        if sealed_len \<le> i then nth_opt tail (i - sealed_len)
        else do {
          index \<leftarrow> checked_sub (partition_point (\<lambda>start. start \<le> i) starts) 1;
          start \<leftarrow> nth_opt starts index;
          chunk \<leftarrow> nth_opt frozen index;
          nth_opt chunk (i - start) })"

text \<open>The starts of the chunks, from an offset on.\<close>

fun starts_from :: "nat \<Rightarrow> 'a list list \<Rightarrow> nat list" where
  "starts_from n [] = []"
| "starts_from n (c # cs) = n # starts_from (n + length c) cs"

definition arena_ok :: "'a list list \<Rightarrow> nat list \<Rightarrow> 'a list \<Rightarrow> nat \<Rightarrow> bool" where
  "arena_ok frozen starts tail total_len \<longleftrightarrow>
     starts = starts_from 0 frozen \<and> (\<forall>c \<in> set frozen. c \<noteq> []) \<and> total_len = length (concat frozen @ tail)"

lemma starts_from_snoc [simp]: "starts_from n (cs @ [c]) = starts_from n cs @ [n + length (concat cs)]"
  by (induction cs arbitrary: n) simp_all

lemma starts_from_length [simp]: "length (starts_from n cs) = length cs"
  by (induction cs arbitrary: n) simp_all

lemma starts_from_bounds: "s \<in> set (starts_from n cs) \<Longrightarrow> n \<le> s \<and> s \<le> n + length (concat cs)"
  by (induction cs arbitrary: n) fastforce+

lemma takeWhile_all_le: "\<forall>s \<in> set starts. s \<le> (i :: nat) \<Longrightarrow> takeWhile (\<lambda>s. s \<le> i) starts = starts"
  by (simp add: takeWhile_eq_all_conv)

lemma sealed_chunk:
  assumes "i < length (concat frozen)" "\<forall>c \<in> set frozen. c \<noteq> []"
  shows "\<exists>k start chunk. partition_point (\<lambda>s. s \<le> i) (starts_from 0 frozen) = Suc k \<and>
    nth_opt (starts_from 0 frozen) k = Some start \<and> nth_opt frozen k = Some chunk \<and> start \<le> i \<and>
    nth_opt chunk (i - start) = nth_opt (concat frozen) i"
  using assms
proof (induction frozen rule: rev_induct)
  case (snoc c cs)
  let ?n = "length (concat cs)"
  show ?case
  proof (cases "?n \<le> i")
    case True
    then have "\<forall>s \<in> set (starts_from 0 (cs @ [c])). s \<le> i" using starts_from_bounds [of _ 0 cs] by fastforce
    then have "partition_point (\<lambda>s. s \<le> i) (starts_from 0 (cs @ [c])) = Suc (length cs)"
      by (simp add: partition_point_def takeWhile_all_le)
    then show ?thesis using True by (intro exI [of _ "length cs"] exI [of _ ?n] exI [of _ c]) (simp add: length_concat)
  next
    case False
    then obtain k start chunk where k: "partition_point (\<lambda>s. s \<le> i) (starts_from 0 cs) = Suc k"
        "nth_opt (starts_from 0 cs) k = Some start" "nth_opt cs k = Some chunk" "start \<le> i"
        "nth_opt chunk (i - start) = nth_opt (concat cs) i"
      using snoc by auto
    have "k < length cs" using k(3) by (simp add: nth_opt_def split: if_splits)
    moreover have "partition_point (\<lambda>s. s \<le> i) (starts_from 0 (cs @ [c])) = Suc k"
      using k(1) False by (auto simp: partition_point_def takeWhile_append takeWhile_all_le)
    ultimately show ?thesis using k(2-5) False by (intro exI [of _ k] exI [of _ start] exI [of _ chunk]) simp
  qed
qed simp

lemma sealed_get_contents:
  assumes "arena_ok frozen starts tail total_len"
  shows "sealed_get frozen starts tail total_len i = nth_opt (concat frozen @ tail) i"
proof (cases "length (concat frozen) \<le> i")
  case True
  then show ?thesis using assms by (simp add: sealed_get_def arena_ok_def Let_def)
next
  case False
  then obtain k start chunk where "partition_point (\<lambda>s. s \<le> i) starts = Suc k" "nth_opt starts k = Some start"
      "nth_opt frozen k = Some chunk" "nth_opt chunk (i - start) = nth_opt (concat frozen) i"
    using sealed_chunk [of i frozen] assms by (auto simp: arena_ok_def)
  then show ?thesis using False assms by (simp add: sealed_get_def arena_ok_def Let_def checked_sub_def)
qed

lemma arena_ok_empty [simp]: "arena_ok [] [] [] 0"
  by (simp add: arena_ok_def)

lemma arena_ok_push:
  "arena_ok frozen starts tail n \<Longrightarrow> n < usize_max \<Longrightarrow> arena_ok frozen starts (tail @ [x]) (sat_add_usize n 1)"
  by (simp add: arena_ok_def sat_add_usize_def)

lemma arena_ok_seal:
  "arena_ok frozen starts tail n \<Longrightarrow> tail \<noteq> [] \<Longrightarrow> arena_ok (frozen @ [tail]) (starts @ [n - length tail]) [] n"
  by (simp add: arena_ok_def)

lemma arena_ok_len: "arena_ok frozen starts tail n \<Longrightarrow> n = length (concat frozen @ tail)"
  by (simp add: arena_ok_def)

section \<open>Layered directories\<close>

text \<open>A lookup in the newest map, then in the frozen layers from the newest to the oldest.\<close>

fun first_layer :: "('k \<rightharpoonup> 'v) list \<Rightarrow> 'k \<Rightarrow> 'v option" where
  "first_layer [] k = None"
| "first_layer (m # ms) k = (case m k of Some v \<Rightarrow> Some v | None \<Rightarrow> first_layer ms k)"

definition layered :: "('k \<rightharpoonup> 'v) \<Rightarrow> ('k \<rightharpoonup> 'v) list \<Rightarrow> 'k \<Rightarrow> 'v option" where
  "layered newest layers k = first_layer (newest # rev layers) k"

lemma layered_update: "layered (m(k \<mapsto> v)) layers k' = (if k' = k then Some v else layered m layers k')"
  by (simp add: layered_def)

lemma layered_seal: "layered Map.empty (layers @ [m]) k = layered m layers k"
  by (simp add: layered_def)

lemma layered_empty [simp]: "layered Map.empty [] k = None"
  by (simp add: layered_def)

text \<open>An index of a list of distinct values.\<close>

definition index_of :: "'a list \<Rightarrow> ('a \<Rightarrow> nat option) \<Rightarrow> bool" where
  "index_of xs f \<longleftrightarrow> distinct xs \<and> (\<forall>x i. f x = Some i \<longleftrightarrow> nth_opt xs i = Some x)"

lemma index_of_empty [simp]: "index_of [] (\<lambda>_. None)"
  by (simp add: index_of_def)

lemma index_of_None: "index_of xs f \<Longrightarrow> f x = None \<longleftrightarrow> x \<notin> set xs"
proof -
  assume f: "index_of xs f"
  have "x \<in> set xs \<longleftrightarrow> (\<exists>i. nth_opt xs i = Some x)" by (auto simp: nth_opt_def in_set_conv_nth)
  also have "\<dots> \<longleftrightarrow> (\<exists>i. f x = Some i)" using f by (simp add: index_of_def)
  finally show ?thesis by (cases "f x") auto
qed

lemma index_of_push:
  assumes "index_of xs f" "x \<notin> set xs" "\<And>y. g y = (if y = x then Some (length xs) else f y)"
  shows "index_of (xs @ [x]) g"
proof -
  have "g y = Some i \<longleftrightarrow> nth_opt (xs @ [x]) i = Some y" for y i
  proof (cases "y = x")
    case True
    have "nth_opt xs i \<noteq> Some x" using assms(2) by (auto simp: nth_opt_def)
    then show ?thesis using True assms(3) [of y] by (auto simp: nth_opt_def nth_append split: if_splits)
  next
    case False
    then show ?thesis using assms(1) assms(3) [of y] by (auto simp: index_of_def nth_opt_def nth_append split: if_splits)
  qed
  then show ?thesis using assms(1,2) by (simp add: index_of_def)
qed

section \<open>What clients rely on\<close>

locale arena =
  fixes contents :: "'s \<Rightarrow> 'a list"
    and ok :: "'s \<Rightarrow> bool"
    and get :: "'s \<Rightarrow> nat \<Rightarrow> 'a option"
    and insert_value :: "'a \<Rightarrow> 's \<Rightarrow> nat \<times> 's"
    and seal :: "'s \<Rightarrow> 's"
  assumes get_contents: "ok s \<Longrightarrow> get s i = nth_opt (contents s) i"
    and insert_contents: "ok s \<Longrightarrow> length (contents s) < usize_max \<Longrightarrow> insert_value x s = (i, s') \<Longrightarrow>
      ok s' \<and> (contents s' = contents s \<or> contents s' = contents s @ [x]) \<and> nth_opt (contents s') i = Some x"
    and seal_contents: "ok s \<Longrightarrow> ok (seal s) \<and> contents (seal s) = contents s"
begin

text \<open>A history of insertions and seals.\<close>

definition apply_op :: "'a option \<Rightarrow> 's \<Rightarrow> 's" where
  "apply_op op s = (case op of Some x \<Rightarrow> snd (insert_value x s) | None \<Rightarrow> seal s)"

lemma history:
  assumes "ok s" "length (contents s) + length ops \<le> usize_max"
  shows "ok (fold apply_op ops s) \<and> (\<exists>new. contents (fold apply_op ops s) = contents s @ new \<and> length new \<le> length ops)"
  using assms
proof (induction ops arbitrary: s)
  case (Cons op ops)
  have step: "ok (apply_op op s) \<and> (\<exists>new. contents (apply_op op s) = contents s @ new \<and> length new \<le> 1)"
  proof (cases op)
    case (Some x)
    then show ?thesis using insert_contents [of s x "fst (insert_value x s)" "snd (insert_value x s)"] Cons.prems
      by (auto simp: apply_op_def)
  qed (use seal_contents Cons.prems in \<open>simp add: apply_op_def\<close>)
  then obtain new where new: "contents (apply_op op s) = contents s @ new" "length new \<le> 1" by blast
  then obtain new' where "contents (fold apply_op ops (apply_op op s)) = contents (apply_op op s) @ new'" "length new' \<le> length ops"
      "ok (fold apply_op ops (apply_op op s))"
    using Cons.IH [of "apply_op op s"] step Cons.prems(2) by auto
  then show ?case using new by (intro conjI exI [of _ "new @ new'"]) auto
qed simp

text \<open>An id reads its value in every later state.\<close>

lemma get_for_ever:
  assumes "ok s" "length (contents s) + length ops \<le> usize_max" "get s i = Some x"
  shows "get (fold apply_op ops s) i = Some x"
proof -
  obtain new where new: "ok (fold apply_op ops s)" "contents (fold apply_op ops s) = contents s @ new" using history [OF assms(1,2)] by blast
  have "nth_opt (contents s) i = Some x" using assms(1,3) by (simp add: get_contents)
  then show ?thesis using new by (simp add: get_contents nth_opt_def nth_append split: if_splits)
qed

end

text \<open>An arena that stores every value once.\<close>

locale interning_arena = arena +
  assumes insert_known: "ok s \<Longrightarrow> length (contents s) < usize_max \<Longrightarrow> nth_opt (contents s) i = Some x \<Longrightarrow> insert_value x s = (i, s)"
begin

lemma insert_again:
  assumes "ok s" "length (contents s) + Suc (length ops) < usize_max" "insert_value x s = (i, s')"
  shows "fst (insert_value x (fold apply_op ops s')) = i"
proof -
  have s': "ok s'" "contents s' = contents s \<or> contents s' = contents s @ [x]" "nth_opt (contents s') i = Some x"
    using insert_contents [OF assms(1) _ assms(3)] assms(2) by auto
  then have len: "length (contents s') + length ops \<le> usize_max" using assms(2) by auto
  obtain new where new: "ok (fold apply_op ops s')" "contents (fold apply_op ops s') = contents s' @ new" "length new \<le> length ops"
    using history [OF s'(1) len] by blast
  have "nth_opt (contents (fold apply_op ops s')) i = Some x" using s'(3) new(2) by (simp add: nth_opt_def nth_append split: if_splits)
  moreover have "length (contents (fold apply_op ops s')) < usize_max" using new(2,3) s'(2) assms(2) by auto
  ultimately show ?thesis using insert_known [OF new(1)] by simp
qed

end

end
