(* ===== verification/Grammar.thy ===== *)
theory Grammar
  imports Prelude "HOL-Library.Char_ord" "HOL-Library.List_Lexorder" "HOL-Library.Product_Lexorder"
begin

text \<open>
  The grammar model of \<^verbatim>\<open>src/framework/parse/grammar.rs\<close>: symbols, productions whose right-hand
  sides are slices of one symbol array, and \<^verbatim>\<open>GrammarBuilder\<close>, which the generated code calls to
  register terminals, nonterminals and rules. A build function is a name: the two functions of
  the file, or one of the generated code. The casts of lengths to \<^verbatim>\<open>u32\<close> and \<^verbatim>\<open>u16\<close> are kept.
\<close>

section \<open>Symbols\<close>

datatype terminal_id = TerminalId (state_key: string) (token_id: nat)

datatype symbol = T terminal_id | N nat | Epsilon

definition EOF_TERMINAL :: terminal_id where
  "EOF_TERMINAL = TerminalId [] (2 ^ 32 - 1)"

definition ERROR_TERMINAL :: terminal_id where
  "ERROR_TERMINAL = TerminalId [] (2 ^ 32 - 2)"

lemma eof_not_error [simp]: "EOF_TERMINAL \<noteq> ERROR_TERMINAL" "ERROR_TERMINAL \<noteq> EOF_TERMINAL"
  by (simp_all add: EOF_TERMINAL_def ERROR_TERMINAL_def)

text \<open>The derived orders: lexicographic, constructors in the order of their declaration.\<close>

fun terminal_key :: "terminal_id \<Rightarrow> string \<times> nat" where
  "terminal_key (TerminalId k i) = (k, i)"

lemma terminal_key_inject [simp]: "terminal_key a = terminal_key b \<longleftrightarrow> a = b"
  by (cases a; cases b) simp

instantiation terminal_id :: linorder
begin
definition less_eq_terminal_id :: "terminal_id \<Rightarrow> terminal_id \<Rightarrow> bool" where
  "a \<le> b \<longleftrightarrow> terminal_key a \<le> terminal_key b"
definition less_terminal_id :: "terminal_id \<Rightarrow> terminal_id \<Rightarrow> bool" where
  "a < b \<longleftrightarrow> terminal_key a < terminal_key b"
instance
  by standard (auto simp: less_eq_terminal_id_def less_terminal_id_def less_le dest: antisym)
end

fun symbol_key :: "symbol \<Rightarrow> nat \<times> terminal_id \<times> nat" where
  "symbol_key (T t) = (0, t, 0)"
| "symbol_key (N n) = (1, EOF_TERMINAL, n)"
| "symbol_key Epsilon = (2, EOF_TERMINAL, 0)"

lemma symbol_key_inject [simp]: "symbol_key a = symbol_key b \<longleftrightarrow> a = b"
  by (cases a; cases b) simp_all

instantiation symbol :: linorder
begin
definition less_eq_symbol :: "symbol \<Rightarrow> symbol \<Rightarrow> bool" where
  "a \<le> b \<longleftrightarrow> symbol_key a \<le> symbol_key b"
definition less_symbol :: "symbol \<Rightarrow> symbol \<Rightarrow> bool" where
  "a < b \<longleftrightarrow> symbol_key a < symbol_key b"
instance
  by standard (auto simp: less_eq_symbol_def less_symbol_def less_le dest: antisym)
end

section \<open>Grammar data\<close>

datatype associativity = AssocLeft | AssocRight

record precedence =
  prec_level :: nat
  prec_assoc :: associativity

record non_terminal =
  nt_label :: string
  nt_named :: bool

record terminal =
  term_id :: terminal_id
  term_label :: string
  term_precedence :: "precedence option"

text \<open>\<^verbatim>\<open>default_build\<close>, \<^verbatim>\<open>augmented_build\<close>, or a function of the generated code.\<close>

datatype 'b build_fn = DefaultBuild | AugmentedBuild | UserBuild 'b

record 'b production =
  prod_id :: nat
  prod_label :: string
  prod_lhs :: nat
  rhs_start :: nat
  rhs_len :: nat
  prod_precedence :: "precedence option"
  prod_build :: "'b build_fn"

record 'b grammar =
  g_terminals :: "terminal list"
  g_non_terminals :: "non_terminal list"
  g_productions :: "'b production list"
  g_rhs_symbols :: "symbol list"
  augmented_start :: nat
  productions_for_lhs :: "(nat \<times> nat) list"
  production_ids_by_lhs :: "nat list"
  g_eof :: terminal_id
  g_error_terminal :: terminal_id
  g_error_non_terminal :: nat
  terminal_indices :: "terminal_id \<rightharpoonup> nat"
  is_nullable :: "bool list"
  is_at_first :: "bool list list"

definition terminal_index :: "'b grammar \<Rightarrow> terminal_id \<Rightarrow> nat option" where
  "terminal_index g t = terminal_indices g t"

definition terminal_count :: "'b grammar \<Rightarrow> nat" where
  "terminal_count g = length (g_terminals g)"

definition terminal_at :: "'b grammar \<Rightarrow> nat \<Rightarrow> terminal_id option" where
  "terminal_at g i = map_option term_id (nth_opt (g_terminals g) i)"

definition action_index :: "'b grammar \<Rightarrow> nat \<Rightarrow> terminal_id \<Rightarrow> nat option" where
  "action_index g state t = map_option (\<lambda>i. state * terminal_count g + i) (terminal_index g t)"

definition goto_index :: "'b grammar \<Rightarrow> nat \<Rightarrow> nat \<Rightarrow> nat" where
  "goto_index g state n = state * length (g_non_terminals g) + n"

section \<open>The builder\<close>

record 'b grammar_builder =
  gb_terminals :: "terminal list"
  gb_terminal_indices :: "terminal_id \<rightharpoonup> terminal_id"
  gb_non_terminals :: "non_terminal list"
  gb_open :: "bool list"
  gb_productions :: "'b production list"
  gb_rhs :: "symbol list"

definition builder_new :: "'b grammar_builder" where
  "builder_new =
     \<lparr>gb_terminals =
        [\<lparr>term_id = EOF_TERMINAL, term_label = ''EOF'', term_precedence = None\<rparr>,
         \<lparr>term_id = ERROR_TERMINAL, term_label = ''error'', term_precedence = None\<rparr>],
      gb_terminal_indices = [EOF_TERMINAL \<mapsto> EOF_TERMINAL, ERROR_TERMINAL \<mapsto> ERROR_TERMINAL],
      gb_non_terminals =
        [\<lparr>nt_label = [CHR ''S'', CHR 0x27], nt_named = False\<rparr>, \<lparr>nt_label = ''Err'', nt_named = False\<rparr>],
      gb_open = [False, False],
      gb_productions =
        [\<lparr>prod_id = 0, prod_label = [CHR ''S'', CHR 0x27], prod_lhs = 0, rhs_start = 0, rhs_len = 0,
          prod_precedence = None, prod_build = AugmentedBuild\<rparr>],
      gb_rhs = []\<rparr>"

definition begin_non_terminal :: "string \<Rightarrow> 'b grammar_builder \<Rightarrow> ((symbol \<times> bool) \<times> 'b grammar_builder) option" where
  "begin_non_terminal label b =
     (let (i, b) = (case position (\<lambda>n. nt_label n = label) (gb_non_terminals b) of
           Some i \<Rightarrow> (as_u32 i, b)
         | None \<Rightarrow> (as_u32 (length (gb_non_terminals b)),
             b\<lparr>gb_non_terminals := gb_non_terminals b @ [\<lparr>nt_label = label, nt_named = True\<rparr>],
               gb_open := gb_open b @ [False]\<rparr>))
      in case nth_opt (gb_open b) i of
           None \<Rightarrow> None
         | Some True \<Rightarrow> Some ((N i, False), b)
         | Some False \<Rightarrow> Some ((N i, True), b\<lparr>gb_open := (gb_open b)[i := True]\<rparr>))"

definition terminal_symbol :: "string \<Rightarrow> terminal_id \<Rightarrow> precedence option \<Rightarrow> 'b grammar_builder \<Rightarrow> symbol \<times> 'b grammar_builder" where
  "terminal_symbol label i prec b =
     (case gb_terminal_indices b i of
        Some i \<Rightarrow> (T i, b)
      | None \<Rightarrow> (T i,
          b\<lparr>gb_terminals := gb_terminals b @ [\<lparr>term_id = i, term_label = label, term_precedence = prec\<rparr>],
            gb_terminal_indices := (gb_terminal_indices b)(i \<mapsto> i)\<rparr>))"

definition begin_internal_non_terminal :: "string \<Rightarrow> 'b grammar_builder \<Rightarrow> symbol \<times> 'b grammar_builder" where
  "begin_internal_non_terminal label b =
     (case position (\<lambda>n. nt_label n = label) (gb_non_terminals b) of
        Some i \<Rightarrow> (N (as_u32 i), b)
      | None \<Rightarrow> (N (as_u32 (length (gb_non_terminals b))),
          b\<lparr>gb_non_terminals := gb_non_terminals b @ [\<lparr>nt_label = label, nt_named = False\<rparr>],
            gb_open := gb_open b @ [True]\<rparr>))"

text \<open>\<^verbatim>\<open>unwrap_or(default_build)\<close>.\<close>

definition build_or_default :: "'b option \<Rightarrow> 'b build_fn" where
  "build_or_default f = (case f of None \<Rightarrow> DefaultBuild | Some f \<Rightarrow> UserBuild f)"

definition rule :: "string \<Rightarrow> symbol \<Rightarrow> symbol list \<Rightarrow> precedence option \<Rightarrow> 'b option \<Rightarrow> 'b grammar_builder \<Rightarrow> 'b grammar_builder option" where
  "rule label lhs rhs prec bld b =
     (case lhs of
        N lhs \<Rightarrow>
          (let start = as_u32 (length (gb_rhs b)); symbols = gb_rhs b @ rhs in
             case checked_sub (as_u32 (length symbols)) start of
               None \<Rightarrow> None
             | Some n \<Rightarrow> Some (b\<lparr>gb_rhs := symbols, gb_productions := gb_productions b @
                 [\<lparr>prod_id = as_u32 (length (gb_productions b)), prod_label = label, prod_lhs = lhs, rhs_start = start,
                   rhs_len = as_u16 n, prod_precedence = prec, prod_build = build_or_default bld\<rparr>]\<rparr>))
      | _ \<Rightarrow> None)"

definition error_rule :: "string \<Rightarrow> nat \<Rightarrow> 'b option \<Rightarrow> 'b grammar_builder \<Rightarrow> 'b grammar_builder" where
  "error_rule label lhs bld b =
     b\<lparr>gb_rhs := gb_rhs b @ [T ERROR_TERMINAL], gb_productions := gb_productions b @
       [\<lparr>prod_id = as_u32 (length (gb_productions b)), prod_label = label, prod_lhs = lhs,
         rhs_start = as_u32 (length (gb_rhs b)), rhs_len = 1, prod_precedence = None,
         prod_build = build_or_default bld\<rparr>]\<rparr>"

definition finish :: "nat \<Rightarrow> 'b grammar_builder \<Rightarrow> 'b grammar option" where
  "finish start b =
     (case gb_productions b of
        [] \<Rightarrow> None
      | p # ps \<Rightarrow> Some
          \<lparr>g_terminals = gb_terminals b, g_non_terminals = gb_non_terminals b,
           g_productions = p\<lparr>rhs_start := as_u32 (length (gb_rhs b)), rhs_len := 2\<rparr> # ps,
           g_rhs_symbols = gb_rhs b @ [N start, T EOF_TERMINAL],
           augmented_start = 0, productions_for_lhs = [], production_ids_by_lhs = [],
           g_eof = EOF_TERMINAL, g_error_terminal = ERROR_TERMINAL, g_error_non_terminal = 1,
           terminal_indices = Map.empty, is_nullable = [], is_at_first = []\<rparr>)"

section \<open>Reading productions\<close>

definition production_rhs_of :: "'b grammar \<Rightarrow> 'b production \<Rightarrow> symbol list option" where
  "production_rhs_of g p = slice (g_rhs_symbols g) (rhs_start p) (rhs_start p + rhs_len p)"

definition production_rhs :: "'b grammar \<Rightarrow> nat \<Rightarrow> symbol list option" where
  "production_rhs g i = Option.bind (nth_opt (g_productions g) i) (production_rhs_of g)"

definition production_rhs_len :: "'b grammar \<Rightarrow> nat \<Rightarrow> nat option" where
  "production_rhs_len g i = map_option rhs_len (nth_opt (g_productions g) i)"

definition production_lhs :: "'b grammar \<Rightarrow> nat \<Rightarrow> nat option" where
  "production_lhs g i = map_option prod_lhs (nth_opt (g_productions g) i)"

section \<open>Well-formed grammars\<close>

fun symbol_known :: "terminal_id set \<Rightarrow> nat \<Rightarrow> symbol \<Rightarrow> bool" where
  "symbol_known ts n (T t) = (t \<in> ts)"
| "symbol_known ts n (N k) = (k < n)"
| "symbol_known ts n Epsilon = True"

lemma symbol_known_mono: "symbol_known ts n X \<Longrightarrow> ts \<subseteq> us \<Longrightarrow> n \<le> m \<Longrightarrow> symbol_known us m X"
  by (cases X) auto

type_synonym rules = "(nat \<times> symbol list) list"

definition g_terminal_ids :: "'b grammar \<Rightarrow> terminal_id set" where
  "g_terminal_ids g = term_id ` set (g_terminals g)"

definition rule_of :: "symbol list \<Rightarrow> 'b production \<Rightarrow> nat \<times> symbol list" where
  "rule_of symbols p = (prod_lhs p, the (slice symbols (rhs_start p) (rhs_start p + rhs_len p)))"

definition grammar_rules :: "'b grammar \<Rightarrow> rules" where
  "grammar_rules g = map (rule_of (g_rhs_symbols g)) (g_productions g)"

definition production_ok :: "symbol list \<Rightarrow> terminal_id set \<Rightarrow> nat \<Rightarrow> 'b production \<Rightarrow> bool" where
  "production_ok symbols ts n p \<longleftrightarrow> prod_lhs p < n \<and>
     (\<exists>rhs. slice symbols (rhs_start p) (rhs_start p + rhs_len p) = Some rhs \<and> (\<forall>X \<in> set rhs. symbol_known ts n X))"

text \<open>
  The productions are numbered, each reads its right-hand side from the array, and production
  0 is the augmented one, alone on its left-hand side.
\<close>

definition productions_ok :: "symbol list \<Rightarrow> terminal_id set \<Rightarrow> nat \<Rightarrow> 'b production list \<Rightarrow> bool" where
  "productions_ok symbols ts n ps \<longleftrightarrow>
     (\<forall>i < length ps. prod_id (ps ! i) = i) \<and> (\<forall>p \<in> set ps. production_ok symbols ts n p) \<and>
     ps \<noteq> [] \<and> prod_lhs (hd ps) = 0 \<and> (\<forall>p \<in> set (tl ps). prod_lhs p \<noteq> 0)"

definition grammar_ok :: "'b grammar \<Rightarrow> bool" where
  "grammar_ok g \<longleftrightarrow> distinct (map term_id (g_terminals g)) \<and> EOF_TERMINAL \<in> g_terminal_ids g \<and>
     productions_ok (g_rhs_symbols g) (g_terminal_ids g) (length (g_non_terminals g)) (g_productions g) \<and>
     length (g_rhs_symbols g) < 2 ^ 32 \<and> length (g_productions g) < 2 ^ 32"

text \<open>The start symbol, and where the end marker may stand.\<close>

definition augmented :: "rules \<Rightarrow> nat \<Rightarrow> bool" where
  "augmented rs start \<longleftrightarrow> rs \<noteq> [] \<and> hd rs = (0, [N start, T EOF_TERMINAL]) \<and> 0 < start \<and>
     (\<forall>(l, r) \<in> set (tl rs). l \<noteq> 0 \<and> N 0 \<notin> set r \<and> T EOF_TERMINAL \<notin> set r)"

lemma production_ok_rhs:
  "production_ok symbols ts n p \<Longrightarrow> slice symbols (rhs_start p) (rhs_start p + rhs_len p) = Some (snd (rule_of symbols p))"
  by (auto simp: production_ok_def rule_of_def)

lemma grammar_rhs_of:
  "grammar_ok g \<Longrightarrow> p \<in> set (g_productions g) \<Longrightarrow> production_rhs_of g p = Some (snd (rule_of (g_rhs_symbols g) p))"
  by (auto simp: grammar_ok_def productions_ok_def production_rhs_of_def intro!: production_ok_rhs)

lemma grammar_rhs_nth:
  "grammar_ok g \<Longrightarrow> i < length (grammar_rules g) \<Longrightarrow> production_rhs g i = Some (snd (grammar_rules g ! i))"
  by (simp add: production_rhs_def grammar_rules_def grammar_rhs_of)

lemma grammar_rules_known:
  assumes "grammar_ok g" "(l, r) \<in> set (grammar_rules g)"
  shows "l < length (g_non_terminals g)" "\<forall>X \<in> set r. symbol_known (g_terminal_ids g) (length (g_non_terminals g)) X"
  using assms by (fastforce simp: grammar_ok_def productions_ok_def grammar_rules_def rule_of_def production_ok_def)+

section \<open>Building a grammar\<close>

text \<open>A script of builder calls, as the generated registration functions issue them.\<close>

datatype 'b builder_op =
    BeginNonTerminal string
  | TerminalSymbol string terminal_id "precedence option"
  | BeginInternal string
  | Rule string symbol "symbol list" "precedence option" "'b option"
  | ErrorRule string nat "'b option"

fun builder_step :: "'b builder_op \<Rightarrow> 'b grammar_builder \<Rightarrow> 'b grammar_builder option" where
  "builder_step (BeginNonTerminal l) b = map_option snd (begin_non_terminal l b)"
| "builder_step (TerminalSymbol l t p) b = Some (snd (terminal_symbol l t p b))"
| "builder_step (BeginInternal l) b = Some (snd (begin_internal_non_terminal l b))"
| "builder_step (Rule l lhs rhs p f) b = rule l lhs rhs p f b"
| "builder_step (ErrorRule l lhs f) b = Some (error_rule l lhs f b)"

definition builder_ids :: "'b grammar_builder \<Rightarrow> terminal_id set" where
  "builder_ids b = term_id ` set (gb_terminals b)"

definition builder_rules :: "'b grammar_builder \<Rightarrow> rules" where
  "builder_rules b = map (rule_of (gb_rhs b)) (tl (gb_productions b))"

definition rule_known :: "'b grammar_builder \<Rightarrow> nat \<times> symbol list \<Rightarrow> bool" where
  "rule_known b = (\<lambda>(l, r). 0 < l \<and> l < length (gb_non_terminals b) \<and> N 0 \<notin> set r \<and> T EOF_TERMINAL \<notin> set r \<and>
     (\<forall>X \<in> set r. symbol_known (builder_ids b) (length (gb_non_terminals b)) X))"

text \<open>
  What the calls rely on: symbols that earlier calls returned, other than the augmented start
  and the end marker, and lengths within the casts.
\<close>

definition builder_room :: "'b grammar_builder \<Rightarrow> bool" where
  "builder_room b \<longleftrightarrow> length (gb_rhs b) + 2 < 2 ^ 32 \<and> length (gb_productions b) < 2 ^ 32 \<and>
     length (gb_non_terminals b) < 2 ^ 32"

fun op_ok :: "'b builder_op \<Rightarrow> 'b grammar_builder \<Rightarrow> bool" where
  "op_ok (BeginNonTerminal l) b = True"
| "op_ok (TerminalSymbol l t p) b = True"
| "op_ok (BeginInternal l) b = True"
| "op_ok (Rule l lhs rhs p f) b =
     ((case lhs of N n \<Rightarrow> rule_known b (n, rhs) | _ \<Rightarrow> False) \<and> length rhs < 2 ^ 16 \<and> length (gb_rhs b) + length rhs < 2 ^ 32)"
| "op_ok (ErrorRule l lhs f) b = (rule_known b (lhs, [T ERROR_TERMINAL]) \<and> length (gb_rhs b) + 1 < 2 ^ 32)"

fun op_rules :: "'b builder_op \<Rightarrow> rules" where
  "op_rules (Rule l (N n) rhs p f) = [(n, rhs)]"
| "op_rules (ErrorRule l n f) = [(n, [T ERROR_TERMINAL])]"
| "op_rules _ = []"

definition builder_ok :: "'b grammar_builder \<Rightarrow> bool" where
  "builder_ok b \<longleftrightarrow> length (gb_open b) = length (gb_non_terminals b) \<and> distinct (map nt_label (gb_non_terminals b)) \<and>
     2 \<le> length (gb_non_terminals b) \<and> distinct (map term_id (gb_terminals b)) \<and> EOF_TERMINAL \<in> builder_ids b \<and>
     ERROR_TERMINAL \<in> builder_ids b \<and>
     (\<forall>t. gb_terminal_indices b t = (if t \<in> builder_ids b then Some t else None)) \<and>
     (\<forall>i < length (gb_productions b). prod_id (gb_productions b ! i) = i) \<and>
     gb_productions b \<noteq> [] \<and> prod_lhs (hd (gb_productions b)) = 0 \<and>
     (\<forall>p \<in> set (tl (gb_productions b)). production_ok (gb_rhs b) (builder_ids b) (length (gb_non_terminals b)) p) \<and>
     (\<forall>r \<in> set (builder_rules b). rule_known b r)"

lemma builder_new_ok: "builder_ok builder_new"
  by (simp add: builder_ok_def builder_new_def builder_ids_def builder_rules_def)

lemma production_ok_mono:
  assumes "production_ok symbols ts n p" "ts \<subseteq> us" "n \<le> m"
  shows "production_ok (symbols @ ys) us m p" "rule_of (symbols @ ys) p = rule_of symbols p"
proof -
  have "slice (symbols @ ys) (rhs_start p) (rhs_start p + rhs_len p) = slice symbols (rhs_start p) (rhs_start p + rhs_len p)"
    using assms(1) slice_append by (fastforce simp: production_ok_def)
  then show "production_ok (symbols @ ys) us m p" "rule_of (symbols @ ys) p = rule_of symbols p"
    using assms by (auto simp: production_ok_def rule_of_def intro: symbol_known_mono)
qed

lemma rule_known_mono:
  "rule_known b r \<Longrightarrow> builder_ids b \<subseteq> builder_ids b' \<Longrightarrow> length (gb_non_terminals b) \<le> length (gb_non_terminals b') \<Longrightarrow> rule_known b' r"
  by (fastforce simp: rule_known_def intro: symbol_known_mono split: prod.splits)

text \<open>One call that adds symbols to the registry, and one that adds a production.\<close>

lemma builder_ok_register:
  assumes "builder_ok b" "gb_rhs b' = gb_rhs b" "gb_productions b' = gb_productions b"
    and more: "builder_ids b \<subseteq> builder_ids b'" "length (gb_non_terminals b) \<le> length (gb_non_terminals b')"
    and new: "length (gb_open b') = length (gb_non_terminals b')" "distinct (map nt_label (gb_non_terminals b'))"
      "distinct (map term_id (gb_terminals b'))" "\<forall>t. gb_terminal_indices b' t = (if t \<in> builder_ids b' then Some t else None)"
  shows "builder_ok b' \<and> builder_rules b' = builder_rules b"
proof -
  have "builder_rules b' = builder_rules b" using assms(2,3) by (simp add: builder_rules_def)
  moreover have "production_ok (gb_rhs b) (builder_ids b') (length (gb_non_terminals b')) p"
    if "p \<in> set (tl (gb_productions b))" for p
    using that assms(1) production_ok_mono(1) [OF _ more, of "gb_rhs b" p "[]"] by (simp add: builder_ok_def)
  ultimately show ?thesis
    using assms rule_known_mono [OF _ more] by (auto simp: builder_ok_def)
qed

lemma builder_ok_produce:
  assumes "builder_ok b" "rule_known b (l, rhs)" "length rhs < 2 ^ 16"
    and p: "prod_id p = length (gb_productions b)" "prod_lhs p = l" "rhs_start p = length (gb_rhs b)" "rhs_len p = length rhs"
  defines "b' \<equiv> b\<lparr>gb_rhs := gb_rhs b @ rhs, gb_productions := gb_productions b @ [p]\<rparr>"
  shows "builder_ok b' \<and> builder_rules b' = builder_rules b @ [(l, rhs)]"
proof -
  let ?n = "length (gb_non_terminals b)"
  have same: "builder_ids b' = builder_ids b" "gb_non_terminals b' = gb_non_terminals b"
    by (simp_all add: b'_def builder_ids_def)
  have new: "production_ok (gb_rhs b @ rhs) (builder_ids b) ?n p" "rule_of (gb_rhs b @ rhs) p = (l, rhs)"
    using assms(2) p by (auto simp: production_ok_def rule_of_def rule_known_def)
  have old: "production_ok (gb_rhs b @ rhs) (builder_ids b) ?n q" "rule_of (gb_rhs b @ rhs) q = rule_of (gb_rhs b) q"
    if "q \<in> set (tl (gb_productions b))" for q
    using that assms(1) production_ok_mono [of "gb_rhs b" "builder_ids b" ?n q "builder_ids b" ?n rhs]
    by (auto simp: builder_ok_def)
  have ne: "gb_productions b \<noteq> []" using assms(1) by (simp add: builder_ok_def)
  then have rules: "builder_rules b' = builder_rules b @ [(l, rhs)]"
    using new(2) old(2) by (simp add: builder_rules_def b'_def)
  have ids: "\<forall>i < length (gb_productions b @ [p]). prod_id ((gb_productions b @ [p]) ! i) = i"
    using assms(1) p(1) by (auto simp: builder_ok_def nth_append less_Suc_eq)
  have "rule_known b' r" if "r \<in> set (builder_rules b')" for r
    using that rules assms(1,2) by (auto simp: builder_ok_def rule_known_def same)
  then show ?thesis
    using rules assms(1) ne ids old(1) new(1) same by (auto simp: builder_ok_def b'_def)
qed

lemma builder_step_correct:
  assumes "builder_ok b" "op_ok op b" "builder_room b"
  shows "\<exists>b'. builder_step op b = Some b' \<and> builder_ok b' \<and> builder_rules b' = builder_rules b @ op_rules op"
proof (cases op)
  case (BeginNonTerminal l)
  show ?thesis
  proof (cases "position (\<lambda>n. nt_label n = l) (gb_non_terminals b)")
    case None
    let ?c = "b\<lparr>gb_non_terminals := gb_non_terminals b @ [\<lparr>nt_label = l, nt_named = True\<rparr>], gb_open := gb_open b @ [True]\<rparr>"
    have "builder_step op b = Some ?c"
      using assms None BeginNonTerminal
      by (simp add: begin_non_terminal_def builder_room_def builder_ok_def list_update_append)
    moreover have "builder_ok ?c \<and> builder_rules ?c = builder_rules b"
      by (rule builder_ok_register) (use assms None in \<open>auto simp: builder_ok_def builder_ids_def position_None_iff\<close>)
    ultimately show ?thesis by (intro exI [of _ ?c]) (simp add: BeginNonTerminal)
  next
    case (Some i)
    then have i: "i < length (gb_open b)" "as_u32 i = i"
      using assms(1,3) position_Some [OF Some] by (auto simp: builder_ok_def builder_room_def)
    let ?c = "if gb_open b ! i then b else b\<lparr>gb_open := (gb_open b)[i := True]\<rparr>"
    have "builder_step op b = Some ?c" using Some i BeginNonTerminal by (auto simp: begin_non_terminal_def)
    moreover have "builder_ok ?c \<and> builder_rules ?c = builder_rules b"
      by (rule builder_ok_register) (use assms(1) in \<open>auto simp: builder_ok_def builder_ids_def\<close>)
    ultimately show ?thesis by (intro exI [of _ ?c]) (simp add: BeginNonTerminal)
  qed
next
  case (TerminalSymbol l t prec)
  let ?c = "snd (terminal_symbol l t prec b)"
  have "builder_ok ?c \<and> builder_rules ?c = builder_rules b"
    by (rule builder_ok_register) (use assms(1) in \<open>auto simp: builder_ok_def builder_ids_def terminal_symbol_def\<close>)
  then show ?thesis using TerminalSymbol by simp
next
  case (BeginInternal l)
  let ?c = "snd (begin_internal_non_terminal l b)"
  have "builder_ok ?c \<and> builder_rules ?c = builder_rules b"
    by (rule builder_ok_register)
      (use assms(1) in \<open>auto simp: builder_ok_def builder_ids_def begin_internal_non_terminal_def position_None_iff split: option.split\<close>)
  then show ?thesis using BeginInternal by simp
next
  case (Rule l lhs rhs prec f)
  then obtain n where lhs: "lhs = N n" "rule_known b (n, rhs)" "length rhs < 2 ^ 16" "length (gb_rhs b) + length rhs < 2 ^ 32"
    using assms(2) by (auto split: symbol.splits)
  then show ?thesis
    using builder_ok_produce [OF assms(1) lhs(2,3)] assms(3) Rule
    by (simp add: rule_def checked_sub_def builder_room_def)
next
  case (ErrorRule l n f)
  then show ?thesis
    using builder_ok_produce [OF assms(1), of n "[T ERROR_TERMINAL]"] assms(2,3)
    by (simp add: error_rule_def builder_room_def)
qed

fun script_ok :: "'b builder_op list \<Rightarrow> 'b grammar_builder \<Rightarrow> bool" where
  "script_ok [] b = builder_room b"
| "script_ok (op # ops) b = (op_ok op b \<and> builder_room b \<and>
     (case builder_step op b of None \<Rightarrow> True | Some b' \<Rightarrow> script_ok ops b'))"

lemma builder_run_correct:
  assumes "builder_ok b" "script_ok ops b"
  shows "\<exists>b'. fold_opt builder_step ops b = Some b' \<and> builder_ok b' \<and> builder_room b' \<and>
    builder_rules b' = builder_rules b @ concat (map op_rules ops)"
  using assms
proof (induction ops arbitrary: b)
  case (Cons op ops)
  obtain c where "builder_step op b = Some c" "builder_ok c" "builder_rules c = builder_rules b @ op_rules op"
    using builder_step_correct [of b op] Cons.prems by auto
  then show ?case using Cons.IH [of c] Cons.prems(2) by auto
qed simp

lemma finish_correct:
  assumes "builder_ok b" "builder_room b" "0 < start" "start < length (gb_non_terminals b)"
  shows "\<exists>g. finish start b = Some g \<and> grammar_ok g \<and> augmented (grammar_rules g) start \<and>
    grammar_rules g = (0, [N start, T EOF_TERMINAL]) # builder_rules b"
proof -
  obtain p ps where ps: "gb_productions b = p # ps" using assms(1) by (cases "gb_productions b") (auto simp: builder_ok_def)
  let ?p = "p\<lparr>rhs_start := length (gb_rhs b), rhs_len := 2\<rparr>" and ?x = "[N start, T EOF_TERMINAL]"
  let ?n = "length (gb_non_terminals b)"
  obtain g where g: "finish start b = Some g" "g_productions g = ?p # ps" "g_rhs_symbols g = gb_rhs b @ ?x"
      "g_terminals g = gb_terminals b" "g_non_terminals g = gb_non_terminals b"
    using assms(2) by (simp add: finish_def ps builder_room_def)
  have ids: "g_terminal_ids g = builder_ids b" by (simp add: g_terminal_ids_def builder_ids_def g)
  have first: "production_ok (gb_rhs b @ ?x) (builder_ids b) ?n ?p" "rule_of (gb_rhs b @ ?x) ?p = (0, ?x)"
    using assms slice_at_end [of "gb_rhs b" ?x] by (auto simp: production_ok_def rule_of_def builder_ok_def ps)
  have rest: "production_ok (gb_rhs b @ ?x) (builder_ids b) ?n q" "rule_of (gb_rhs b @ ?x) q = rule_of (gb_rhs b) q"
    if "q \<in> set ps" for q
    using that assms(1) production_ok_mono [of "gb_rhs b" "builder_ids b" ?n q "builder_ids b" ?n ?x]
    by (auto simp: builder_ok_def ps)
  have rules: "grammar_rules g = (0, ?x) # builder_rules b"
    using first(2) rest(2) by (simp add: grammar_rules_def g builder_rules_def ps)
  have known: "rule_known b r" if "r \<in> set (builder_rules b)" for r using that assms(1) by (simp add: builder_ok_def)
  have "prod_lhs q \<noteq> 0" if "q \<in> set ps" for q
    using that known [of "rule_of (gb_rhs b) q"] by (auto simp: builder_rules_def ps rule_known_def rule_of_def)
  moreover have "\<forall>i < length (?p # ps). prod_id ((?p # ps) ! i) = i"
    using assms(1) by (auto simp: builder_ok_def ps nth_Cons split: nat.splits)
  ultimately have "grammar_ok g"
    using assms(1,2) first(1) rest(1) by (auto simp: grammar_ok_def productions_ok_def g ids builder_ok_def ps builder_room_def)
  moreover have "augmented (grammar_rules g) start"
    using rules known assms(3) by (auto simp: augmented_def rule_known_def)
  ultimately show ?thesis using g(1) rules by blast
qed

end
