(* ===== verification/Parse_Arenas.thy ===== *)
theory Parse_Arenas
  imports Sealed_Arena Grammar Radix_Map
begin

text \<open>
  The arenas of syntax data, \<^verbatim>\<open>src/framework/parse/data\<close>: \<^verbatim>\<open>ProductArena\<close> (\<^verbatim>\<open>product.rs\<close>), the
  hash-consing \<^verbatim>\<open>TreeArena\<close> (\<^verbatim>\<open>green.rs\<close>) and \<^verbatim>\<open>AstArena\<close> (\<^verbatim>\<open>ast.rs\<close>), whose sparse parent and
  product bindings live in a radix map. A type-erased AST value is a value of a type parameter, a
  \<^verbatim>\<open>TypeId\<close> a number.
\<close>

section \<open>Extents\<close>

record anchored_span =
  span_start :: nat
  span_end :: nat
  end_at_token_end :: bool

definition span_token :: "nat \<Rightarrow> anchored_span" where
  "span_token occurrence = \<lparr>span_start = occurrence, span_end = occurrence, end_at_token_end = True\<rparr>"

definition span_point :: "nat \<Rightarrow> anchored_span" where
  "span_point occurrence = \<lparr>span_start = occurrence, span_end = occurrence, end_at_token_end = False\<rparr>"

definition span_cover :: "anchored_span list \<Rightarrow> nat \<Rightarrow> anchored_span" where
  "span_cover children fallback = (case children of
     [] \<Rightarrow> span_point fallback
   | first # rest \<Rightarrow> fold (\<lambda>child extent.
       \<lparr>span_start = min (span_start extent) (span_start child), span_end = max (span_end extent) (span_end child),
        end_at_token_end = (if span_end extent \<le> span_end child then end_at_token_end child else end_at_token_end extent)\<rparr>)
       rest first)"

section \<open>Products\<close>

datatype product_data =
    ErrorProduct (error_children: "nat list")
  | TokenProduct (token_entry: nat) (token_ast: "nat option") (token_ty: nat)
  | NodeProduct (node_ast: nat) (node_ty: nat) (node_children: "nat list")

record product =
  prod_green :: nat
  prod_data :: product_data
  prod_extent :: anchored_span
  prod_ast_ids :: "nat list"

definition product_new :: "nat \<Rightarrow> product_data \<Rightarrow> product" where
  "product_new green d = \<lparr>prod_green = green, prod_data = d, prod_extent = span_point 0, prod_ast_ids = []\<rparr>"

definition with_metadata :: "anchored_span \<Rightarrow> nat list \<Rightarrow> product \<Rightarrow> product" where
  "with_metadata extent ids p = p\<lparr>prod_extent := extent, prod_ast_ids := ids\<rparr>"

definition product_error :: "nat \<Rightarrow> product" where
  "product_error green = product_new green (ErrorProduct [])"

definition product_error_with_children :: "nat \<Rightarrow> nat list \<Rightarrow> product" where
  "product_error_with_children green children = product_new green (ErrorProduct children)"

text \<open>The \<^verbatim>\<open>TypeId\<close> of the unit type is 0.\<close>

definition product_token :: "nat \<Rightarrow> nat \<Rightarrow> product" where
  "product_token green entry = product_new green (TokenProduct entry None 0)"

definition product_typed_token :: "nat \<Rightarrow> nat \<Rightarrow> nat \<Rightarrow> nat \<Rightarrow> product" where
  "product_typed_token green entry ast ty = product_new green (TokenProduct entry (Some ast) ty)"

definition product_node :: "nat \<Rightarrow> nat \<Rightarrow> nat \<Rightarrow> nat list \<Rightarrow> product" where
  "product_node green ast ty children = product_new green (NodeProduct ast ty children)"

record product_arena =
  pa_chunks :: "product list list"
  pa_starts :: "nat list"
  pa_tail :: "product list"
  pa_len :: nat

definition products_new :: product_arena where
  "products_new = \<lparr>pa_chunks = [], pa_starts = [], pa_tail = [], pa_len = 0\<rparr>"

definition products_insert :: "product \<Rightarrow> product_arena \<Rightarrow> nat \<times> product_arena" where
  "products_insert p a = (pa_len a, a\<lparr>pa_tail := pa_tail a @ [p], pa_len := sat_add_usize (pa_len a) 1\<rparr>)"

definition products_get :: "product_arena \<Rightarrow> nat \<Rightarrow> product option" where
  "products_get a i = sealed_get (pa_chunks a) (pa_starts a) (pa_tail a) (pa_len a) i"

definition products_seal :: "product_arena \<Rightarrow> product_arena" where
  "products_seal a =
     (if pa_tail a = [] then a
      else a\<lparr>pa_chunks := pa_chunks a @ [pa_tail a], pa_starts := pa_starts a @ [pa_len a - length (pa_tail a)], pa_tail := []\<rparr>)"

definition products_ok :: "product_arena \<Rightarrow> bool" where
  "products_ok a \<longleftrightarrow> arena_ok (pa_chunks a) (pa_starts a) (pa_tail a) (pa_len a)"

definition products_contents :: "product_arena \<Rightarrow> product list" where
  "products_contents a = concat (pa_chunks a) @ pa_tail a"

interpretation products: arena products_contents products_ok products_get products_insert products_seal
proof (unfold_locales, goal_cases)
  case (1 s i)
  then show ?case by (simp add: products_get_def products_ok_def products_contents_def sealed_get_contents)
next
  case (2 s x i s')
  then have "pa_len s = length (products_contents s)" by (auto simp: products_ok_def products_contents_def dest: arena_ok_len)
  then show ?case using 2 arena_ok_push [of "pa_chunks s" "pa_starts s" "pa_tail s" "pa_len s" x]
    by (auto simp: products_insert_def products_ok_def products_contents_def)
next
  case (3 s)
  then show ?case using arena_ok_seal [of "pa_chunks s" "pa_starts s" "pa_tail s" "pa_len s"]
    by (cases "pa_tail s = []") (auto simp: products_seal_def products_ok_def products_contents_def)
qed

section \<open>Green trees\<close>

datatype error_kind = MissingToken | UnexpectedToken | UnexpectedEndOfInput | Recovered

datatype tree_data =
    GreenNode nat "nat list"
  | GreenLeaf terminal_id
  | GreenError error_kind nat "nat list" "symbol option" symbol bool "nat option"

record green_tree =
  tree_length :: nat
  tree_data :: tree_data

record tree_arena =
  ta_chunks :: "green_tree list list"
  ta_starts :: "nat list"
  ta_indexes :: "(green_tree \<rightharpoonup> nat) list"
  ta_tail :: "green_tree list"
  ta_tail_index :: "green_tree \<rightharpoonup> nat"
  ta_len :: nat

definition trees_new :: tree_arena where
  "trees_new = \<lparr>ta_chunks = [], ta_starts = [], ta_indexes = [], ta_tail = [], ta_tail_index = Map.empty, ta_len = 0\<rparr>"

definition trees_insert :: "green_tree \<Rightarrow> tree_arena \<Rightarrow> nat \<times> tree_arena" where
  "trees_insert t a = (case layered (ta_tail_index a) (ta_indexes a) t of
     Some i \<Rightarrow> (i, a)
   | None \<Rightarrow> (ta_len a, a\<lparr>ta_tail_index := (ta_tail_index a)(t \<mapsto> ta_len a), ta_tail := ta_tail a @ [t],
       ta_len := sat_add_usize (ta_len a) 1\<rparr>))"

definition trees_get :: "tree_arena \<Rightarrow> nat \<Rightarrow> green_tree option" where
  "trees_get a i = sealed_get (ta_chunks a) (ta_starts a) (ta_tail a) (ta_len a) i"

text \<open>\<^verbatim>\<open>seal_generation\<close>: the extended list of directories is built and dropped, \<^verbatim>\<open>self.indexes\<close> stays.\<close>

definition trees_seal :: "tree_arena \<Rightarrow> tree_arena" where
  "trees_seal a =
     (if ta_tail a = [] then a
      else a\<lparr>ta_chunks := ta_chunks a @ [ta_tail a], ta_starts := ta_starts a @ [ta_len a - length (ta_tail a)],
             ta_tail := [], ta_tail_index := Map.empty\<rparr>)"

definition children_len :: "tree_arena \<Rightarrow> nat list \<Rightarrow> nat" where
  "children_len a children = sum_list (map (\<lambda>c. case trees_get a c of None \<Rightarrow> 0 | Some t \<Rightarrow> tree_length t) children)"

definition trees_node :: "nat \<Rightarrow> nat list \<Rightarrow> tree_arena \<Rightarrow> nat \<times> tree_arena" where
  "trees_node n children a = trees_insert \<lparr>tree_length = children_len a children, tree_data = GreenNode n children\<rparr> a"

definition trees_leaf :: "nat \<Rightarrow> terminal_id \<Rightarrow> tree_arena \<Rightarrow> nat \<times> tree_arena" where
  "trees_leaf n t a = trees_insert \<lparr>tree_length = n, tree_data = GreenLeaf t\<rparr> a"

definition trees_error :: "nat \<Rightarrow> error_kind \<Rightarrow> nat \<Rightarrow> nat list \<Rightarrow> symbol option \<Rightarrow> symbol \<Rightarrow> bool \<Rightarrow> nat option \<Rightarrow>
    tree_arena \<Rightarrow> nat \<times> tree_arena" where
  "trees_error n kind node children unexpected expected recovered location a =
     trees_insert \<lparr>tree_length = n, tree_data = GreenError kind node children unexpected expected recovered location\<rparr> a"

definition trees_contents :: "tree_arena \<Rightarrow> green_tree list" where
  "trees_contents a = concat (ta_chunks a) @ ta_tail a"

text \<open>The tail is indexed; the frozen layers are never filled.\<close>

definition trees_ok :: "tree_arena \<Rightarrow> bool" where
  "trees_ok a \<longleftrightarrow> arena_ok (ta_chunks a) (ta_starts a) (ta_tail a) (ta_len a) \<and> ta_indexes a = [] \<and> distinct (ta_tail a) \<and>
     (\<forall>t i. ta_tail_index a t = Some i \<longleftrightarrow> length (concat (ta_chunks a)) \<le> i \<and> nth_opt (trees_contents a) i = Some t)"

lemma tail_known: "trees_ok a \<Longrightarrow> t \<in> set (ta_tail a) \<longleftrightarrow> ta_tail_index a t \<noteq> None"
proof -
  assume a: "trees_ok a"
  have "t \<in> set (ta_tail a) \<longleftrightarrow> (\<exists>j. nth_opt (ta_tail a) j = Some t)" by (auto simp: nth_opt_def in_set_conv_nth)
  also have "\<dots> \<longleftrightarrow> (\<exists>i. length (concat (ta_chunks a)) \<le> i \<and> nth_opt (trees_contents a) i = Some t)"
  proof
    assume "\<exists>j. nth_opt (ta_tail a) j = Some t"
    then obtain j where "nth_opt (ta_tail a) j = Some t" ..
    then have "nth_opt (trees_contents a) (length (concat (ta_chunks a)) + j) = Some t" by (simp add: trees_contents_def)
    then show "\<exists>i. length (concat (ta_chunks a)) \<le> i \<and> nth_opt (trees_contents a) i = Some t" using le_add1 by blast
  next
    assume "\<exists>i. length (concat (ta_chunks a)) \<le> i \<and> nth_opt (trees_contents a) i = Some t"
    then show "\<exists>j. nth_opt (ta_tail a) j = Some t" by (auto simp: trees_contents_def)
  qed
  also have "\<dots> \<longleftrightarrow> (\<exists>i. ta_tail_index a t = Some i)" using a by (simp add: trees_ok_def)
  finally show ?thesis by (cases "ta_tail_index a t") auto
qed

lemma trees_insert_ok:
  assumes "trees_ok a" "length (trees_contents a) < usize_max" "trees_insert t a = (i, a')"
  shows "trees_ok a' \<and> (trees_contents a' = trees_contents a \<or> trees_contents a' = trees_contents a @ [t]) \<and>
    nth_opt (trees_contents a') i = Some t"
proof (cases "ta_tail_index a t")
  case (Some k)
  then have "nth_opt (trees_contents a) k = Some t" using assms(1) by (simp add: trees_ok_def)
  moreover have "layered (ta_tail_index a) (ta_indexes a) t = Some k" using Some by (simp add: layered_def)
  ultimately show ?thesis using assms by (simp add: trees_insert_def)
next
  case None
  have new: "layered (ta_tail_index a) (ta_indexes a) t = None" using None assms(1) by (simp add: layered_def trees_ok_def)
  have len: "ta_len a = length (trees_contents a)" using assms(1) by (auto simp: trees_ok_def trees_contents_def dest: arena_ok_len)
  then have a': "i = length (trees_contents a)" "a' = a\<lparr>ta_tail_index := (ta_tail_index a)(t \<mapsto> length (trees_contents a)),
      ta_tail := ta_tail a @ [t], ta_len := sat_add_usize (ta_len a) 1\<rparr>"
    using assms(3) new by (auto simp: trees_insert_def)
  have c: "trees_contents a' = trees_contents a @ [t]" by (simp add: a' trees_contents_def)
  have fresh: "t \<notin> set (ta_tail a)" using tail_known [OF assms(1), of t] None by simp
  have "ta_tail_index a' u = Some j \<longleftrightarrow> length (concat (ta_chunks a')) \<le> j \<and> nth_opt (trees_contents a') j = Some u" for u j
  proof (cases "u = t")
    case True
    have "length (concat (ta_chunks a)) \<le> j \<Longrightarrow> nth_opt (trees_contents a) j \<noteq> Some t"
      using assms(1) None by (metis (no_types, lifting) option.distinct(1) trees_ok_def)
    then have "length (concat (ta_chunks a)) \<le> j \<and> nth_opt (trees_contents a @ [t]) j = Some t \<longleftrightarrow> j = length (trees_contents a)"
      by (auto simp: nth_opt_def nth_append) (simp_all add: trees_contents_def)
    then show ?thesis unfolding c using True by (auto simp: a'(2))
  next
    case False
    then show ?thesis unfolding c using assms(1) by (auto simp: a'(2) trees_ok_def nth_opt_def nth_append split: if_splits)
  qed
  moreover have "arena_ok (ta_chunks a') (ta_starts a') (ta_tail a') (ta_len a')"
    using arena_ok_push [of "ta_chunks a" "ta_starts a" "ta_tail a" "ta_len a" t] assms(1,2) len by (simp add: a'(2) trees_ok_def)
  ultimately show ?thesis using assms(1) fresh c by (simp add: trees_ok_def a')
qed

lemma trees_seal_ok: "trees_ok a \<Longrightarrow> trees_ok (trees_seal a) \<and> trees_contents (trees_seal a) = trees_contents a"
  using arena_ok_seal [of "ta_chunks a" "ta_starts a" "ta_tail a" "ta_len a"]
  by (auto simp: trees_seal_def trees_ok_def trees_contents_def nth_opt_def)

interpretation trees: arena trees_contents trees_ok trees_get trees_insert trees_seal
proof (unfold_locales, goal_cases)
  case (1 s i)
  then show ?case by (simp add: trees_get_def trees_ok_def trees_contents_def sealed_get_contents)
next
  case (2 s x i s')
  then show ?case using trees_insert_ok [OF 2] by blast
qed (simp add: trees_seal_ok)

section \<open>AST records\<close>

record 'v ast_record =
  rec_value :: 'v
  rec_owner :: "nat option"
  rec_parent :: "nat option"
  rec_extent :: anchored_span

record ast_metadata =
  meta_owner :: "nat option"
  meta_parent :: "nat option"

record 'v ast_arena =
  aa_chunks :: "'v ast_record list list"
  aa_starts :: "nat list"
  aa_tail :: "'v ast_record list"
  aa_len :: nat
  aa_metadata :: "ast_metadata radix_map"
  aa_document :: nat

definition ast_with_document :: "nat \<Rightarrow> 'v ast_arena" where
  "ast_with_document d = \<lparr>aa_chunks = [], aa_starts = [], aa_tail = [], aa_len = 0, aa_metadata = radix_empty, aa_document = d\<rparr>"

definition base_record :: "'v ast_arena \<Rightarrow> nat \<Rightarrow> 'v ast_record option" where
  "base_record a i = sealed_get (aa_chunks a) (aa_starts a) (aa_tail a) (aa_len a) i"

text \<open>A panic of the radix map is the outer \<open>None\<close>.\<close>

definition ast_metadata_of :: "'v ast_arena \<Rightarrow> nat \<Rightarrow> ast_metadata option option" where
  "ast_metadata_of a i = (case base_record a i of
     None \<Rightarrow> Some None
   | Some r \<Rightarrow> map_option (\<lambda>m. Some (case m of Some m \<Rightarrow> m | None \<Rightarrow> \<lparr>meta_owner = rec_owner r, meta_parent = rec_parent r\<rparr>))
       (radix_get (aa_metadata a) (of_nat i)))"

definition ast_insert :: "'v \<Rightarrow> anchored_span \<Rightarrow> 'v ast_arena \<Rightarrow> nat \<times> 'v ast_arena" where
  "ast_insert v extent a = (aa_len a,
     a\<lparr>aa_tail := aa_tail a @ [\<lparr>rec_value = v, rec_owner = None, rec_parent = None, rec_extent = extent\<rparr>],
       aa_len := sat_add_usize (aa_len a) 1\<rparr>)"

definition extent_of_id :: "'v ast_arena \<Rightarrow> nat \<Rightarrow> anchored_span option" where
  "extent_of_id a i = map_option rec_extent (base_record a i)"

definition ast_erased :: "'v ast_arena \<Rightarrow> nat \<Rightarrow> 'v option" where
  "ast_erased a i = map_option rec_value (base_record a i)"

definition contains_id :: "'v ast_arena \<Rightarrow> nat \<Rightarrow> bool" where
  "contains_id a i = (base_record a i \<noteq> None)"

definition bind_product :: "nat \<Rightarrow> nat \<Rightarrow> 'v ast_arena \<Rightarrow> 'v ast_arena option" where
  "bind_product i product a = do {
     m \<leftarrow> ast_metadata_of a i;
     case m of
       None \<Rightarrow> Some a
     | Some m \<Rightarrow> map_option (\<lambda>r. a\<lparr>aa_metadata := r\<rparr>) (radix_insert (aa_metadata a) (of_nat i) (m\<lparr>meta_owner := Some product\<rparr>)) }"

definition set_parent :: "nat \<Rightarrow> nat option \<Rightarrow> 'v ast_arena \<Rightarrow> 'v ast_arena option" where
  "set_parent i parent a = do {
     m \<leftarrow> ast_metadata_of a i;
     case m of
       None \<Rightarrow> Some a
     | Some m \<Rightarrow> map_option (\<lambda>r. a\<lparr>aa_metadata := r\<rparr>) (radix_insert (aa_metadata a) (of_nat i) (m\<lparr>meta_parent := parent\<rparr>)) }"

definition ast_seal :: "'v ast_arena \<Rightarrow> 'v ast_arena" where
  "ast_seal a =
     (if aa_tail a = [] then a
      else a\<lparr>aa_chunks := aa_chunks a @ [aa_tail a], aa_starts := aa_starts a @ [aa_len a - length (aa_tail a)], aa_tail := []\<rparr>)"

definition parent_of :: "'v ast_arena \<Rightarrow> nat \<Rightarrow> nat option option" where
  "parent_of a i = map_option (\<lambda>m. Option.bind m meta_parent) (ast_metadata_of a i)"

definition product_of :: "'v ast_arena \<Rightarrow> nat \<Rightarrow> nat option option" where
  "product_of a i = map_option (\<lambda>m. Option.bind m meta_owner) (ast_metadata_of a i)"

definition ast_contents :: "'v ast_arena \<Rightarrow> 'v ast_record list" where
  "ast_contents a = concat (aa_chunks a) @ aa_tail a"

definition ast_ok :: "'v ast_arena \<Rightarrow> bool" where
  "ast_ok a \<longleftrightarrow> arena_ok (aa_chunks a) (aa_starts a) (aa_tail a) (aa_len a) \<and> radix_ok (aa_metadata a)"

definition ast_insert_record :: "'v ast_record \<Rightarrow> 'v ast_arena \<Rightarrow> nat \<times> 'v ast_arena" where
  "ast_insert_record r a = (aa_len a, a\<lparr>aa_tail := aa_tail a @ [r], aa_len := sat_add_usize (aa_len a) 1\<rparr>)"

lemma ast_insert_as_record:
  "ast_insert v extent a = ast_insert_record \<lparr>rec_value = v, rec_owner = None, rec_parent = None, rec_extent = extent\<rparr> a"
  by (simp add: ast_insert_def ast_insert_record_def)

interpretation ast: arena ast_contents ast_ok base_record ast_insert_record ast_seal
proof (unfold_locales, goal_cases)
  case (1 s i)
  then show ?case by (simp add: base_record_def ast_ok_def ast_contents_def sealed_get_contents)
next
  case (2 s x i s')
  then have "aa_len s = length (ast_contents s)" by (auto simp: ast_ok_def ast_contents_def dest: arena_ok_len)
  then show ?case using 2 arena_ok_push [of "aa_chunks s" "aa_starts s" "aa_tail s" "aa_len s" x]
    by (auto simp: ast_insert_record_def ast_ok_def ast_contents_def)
next
  case (3 s)
  then show ?case using arena_ok_seal [of "aa_chunks s" "aa_starts s" "aa_tail s" "aa_len s"]
    by (cases "aa_tail s = []") (auto simp: ast_seal_def ast_ok_def ast_contents_def)
qed

text \<open>The bindings of a record: those of the radix map, or the initial ones.\<close>

definition bindings :: "'v ast_arena \<Rightarrow> nat \<Rightarrow> ast_metadata option" where
  "bindings a i = map_option (\<lambda>r. case radix_map_of (aa_metadata a) (of_nat i) of
     Some m \<Rightarrow> m | None \<Rightarrow> \<lparr>meta_owner = rec_owner r, meta_parent = rec_parent r\<rparr>) (nth_opt (ast_contents a) i)"

lemma ast_metadata_bindings: "ast_ok a \<Longrightarrow> ast_metadata_of a i = Some (bindings a i)"
proof -
  assume a: "ast_ok a"
  then have "radix_get (aa_metadata a) k = Some (radix_map_of (aa_metadata a) k)" for k
    by (intro radix.lookup_abs) (simp add: ast_ok_def)
  then show ?thesis using ast.get_contents [OF a, of i]
    by (simp add: ast_metadata_of_def bindings_def split: option.split)
qed

lemma of_nat_u64_inject:
  assumes "i < 2 ^ 64" "j < 2 ^ 64" "(of_nat i :: u64) = of_nat j" shows "i = j"
proof -
  have "unat (of_nat i :: u64) = unat (of_nat j :: u64)" using assms(3) by simp
  then show ?thesis using assms(1,2) by (simp add: unat_of_nat)
qed

lemma update_bindings:
  assumes "ast_ok a" "length (ast_contents a) \<le> 2 ^ 64" "bindings a i = Some m"
  shows "\<exists>a'. map_option (\<lambda>r. a\<lparr>aa_metadata := r\<rparr>) (radix_insert (aa_metadata a) (of_nat i) (f m)) = Some a' \<and> ast_ok a' \<and>
    ast_contents a' = ast_contents a \<and> (\<forall>j. bindings a' j = (if j = i then Some (f m) else bindings a j))"
proof -
  obtain r where r: "radix_insert (aa_metadata a) (of_nat i) (f m) = Some r" "radix_ok r"
      "radix_map_of r = (radix_map_of (aa_metadata a))(of_nat i \<mapsto> f m)"
    using radix.insert_abs [of "aa_metadata a" "of_nat i" "f m"] assms(1) unfolding ast_ok_def by blast
  let ?a = "a\<lparr>aa_metadata := r\<rparr>"
  have same: "ast_contents ?a = ast_contents a" by (simp add: ast_contents_def)
  have in_range: "j < length (ast_contents a)" if "nth_opt (ast_contents a) j = Some x" for j x
    using that by (simp add: nth_opt_def split: if_splits)
  have i: "i < length (ast_contents a)" using assms(3) in_range by (auto simp: bindings_def)
  have "bindings ?a j = (if j = i then Some (f m) else bindings a j)" for j
  proof (cases "nth_opt (ast_contents a) j")
    case (Some x)
    then have "j < 2 ^ 64" "i < 2 ^ 64" using in_range [OF Some] i assms(2) by simp_all
    then have "(of_nat j :: u64) = of_nat i \<longleftrightarrow> j = i" using of_nat_u64_inject by blast
    then show ?thesis using Some by (simp add: bindings_def r(3) same)
  next
    case None
    then have "j \<noteq> i" using i by (auto simp: nth_opt_def)
    then show ?thesis using None by (simp add: bindings_def same)
  qed
  then show ?thesis using r(1,2) assms(1) same by (intro exI [of _ ?a]) (simp add: ast_ok_def)
qed

section \<open>Properties\<close>

text \<open>
  an AST record keeps its value, and its bindings are what was last bound: \<^verbatim>\<open>bind_product\<close> and
  \<^verbatim>\<open>set_parent\<close> change one field of one record, never panic, and sealing a generation changes nothing
  that can be read.
\<close>

theorem ast_bindings_exact:
  assumes "ast_ok a" "length (ast_contents a) \<le> 2 ^ 64" "i < length (ast_contents a)"
  shows "\<exists>a1 a2. bind_product i q a = Some a1 \<and> ast_ok a1 \<and> product_of a1 i = Some (Some q) \<and> parent_of a1 i = parent_of a i \<and>
      set_parent i up a = Some a2 \<and> ast_ok a2 \<and> parent_of a2 i = Some up \<and> product_of a2 i = product_of a i \<and>
      (\<forall>j. j \<noteq> i \<longrightarrow> product_of a1 j = product_of a j \<and> parent_of a1 j = parent_of a j \<and>
        product_of a2 j = product_of a j \<and> parent_of a2 j = parent_of a j) \<and>
      (\<forall>j. base_record a1 j = base_record a j \<and> base_record a2 j = base_record a j \<and>
        base_record (ast_seal a) j = base_record a j \<and> parent_of (ast_seal a) j = parent_of a j)"
proof -
  obtain m where m: "bindings a i = Some m" using assms(3) by (simp add: bindings_def)
  obtain a1 where a1: "bind_product i q a = Some a1" "ast_ok a1" "ast_contents a1 = ast_contents a"
      "\<And>j. bindings a1 j = (if j = i then Some (m\<lparr>meta_owner := Some q\<rparr>) else bindings a j)"
    using update_bindings [OF assms(1,2) m, of "meta_owner_update (\<lambda>_. Some q)"] m
    by (auto simp: bind_product_def ast_metadata_bindings [OF assms(1)])
  obtain a2 where a2: "set_parent i up a = Some a2" "ast_ok a2" "ast_contents a2 = ast_contents a"
      "\<And>j. bindings a2 j = (if j = i then Some (m\<lparr>meta_parent := up\<rparr>) else bindings a j)"
    using update_bindings [OF assms(1,2) m, of "meta_parent_update (\<lambda>_. up)"] m
    by (auto simp: set_parent_def ast_metadata_bindings [OF assms(1)])
  have seal: "ast_ok (ast_seal a)" "ast_contents (ast_seal a) = ast_contents a" using ast.seal_contents [OF assms(1)] by simp_all
  have "bindings (ast_seal a) j = bindings a j" for j by (simp add: bindings_def seal(2)) (simp add: ast_seal_def)
  moreover have "base_record b j = base_record a j" if "ast_ok b" "ast_contents b = ast_contents a" for b j
    using ast.get_contents [OF that(1)] ast.get_contents [OF assms(1)] that(2) by simp
  moreover note fields = parent_of_def product_of_def ast_metadata_bindings
  ultimately show ?thesis
  proof (rule_tac exI [of _ a1], rule_tac exI [of _ a2], intro conjI allI impI)
    show "product_of a1 i = Some (Some q)" "parent_of a1 i = parent_of a i" using a1(2,4) m assms(1) by (simp_all add: fields)
    show "parent_of a2 i = Some up" "product_of a2 i = product_of a i" using a2(2,4) m assms(1) by (simp_all add: fields)
    show "product_of a1 j = product_of a j" "parent_of a1 j = parent_of a j" if "j \<noteq> i" for j
      using a1(2,4) assms(1) that by (simp_all add: fields)
    show "product_of a2 j = product_of a j" "parent_of a2 j = parent_of a j" if "j \<noteq> i" for j
      using a2(2,4) assms(1) that by (simp_all add: fields)
    show "parent_of (ast_seal a) j = parent_of a j" for j
      using \<open>\<And>j. bindings (ast_seal a) j = bindings a j\<close> seal(1) assms(1) by (simp add: fields)
  qed (use a1 a2 seal in simp_all)
qed

definition green_leaf :: green_tree where
  "green_leaf = \<lparr>tree_length = 1, tree_data = GreenLeaf EOF_TERMINAL\<rparr>"

text \<open>An arena with two records.\<close>

definition two_records :: "nat ast_arena" where
  "two_records = snd (ast_insert 8 (span_token 1) (snd (ast_insert 7 (span_token 0) (ast_with_document 1))))"

lemma two_records_ok: "ast_ok two_records" "length (ast_contents two_records) = 2"
  by (simp_all add: two_records_def ast_insert_def ast_with_document_def ast_ok_def ast_contents_def arena_ok_def sat_add_usize_def
      usize_max_def radix_ok_def radix_empty_def radix_list_def)

theorem ast_bindings_exact_witness:
  "\<exists>a1. bind_product 0 9 two_records = Some a1 \<and> product_of a1 0 = Some (Some 9) \<and> base_record a1 1 = base_record two_records 1"
  using ast_bindings_exact [OF two_records_ok(1), of 0 9 None] by (auto simp: two_records_ok(2))

text \<open>
  ids of products, green trees and AST records are stable: after any further insertions and
  generation seals an id still reads the value it was given.
\<close>

theorem arena_ids_stable:
  assumes "products_ok a" "length (products_contents a) + length pops \<le> usize_max" "products_get a i = Some p"
    and "trees_ok b" "length (trees_contents b) + length tops \<le> usize_max" "trees_get b j = Some t"
    and "ast_ok c" "length (ast_contents c) + length rops \<le> usize_max" "base_record c k = Some r"
  shows "products_get (fold products.apply_op pops a) i = Some p \<and> trees_get (fold trees.apply_op tops b) j = Some t \<and>
    base_record (fold ast.apply_op rops c) k = Some r"
  using products.get_for_ever [OF assms(1-3)] trees.get_for_ever [OF assms(4-6)] ast.get_for_ever [OF assms(7-9)] by blast

theorem arena_ids_stable_witness:
  "products_get (fold products.apply_op [None, Some (product_error 1), None] (snd (products_insert (product_error 0) products_new))) 0 =
     Some (product_error 0)"
proof -
  let ?a = "snd (products_insert (product_error 0) products_new)"
  let ?b = "snd (trees_insert green_leaf trees_new)"
  have "products_ok ?a" "products_contents ?a = [product_error 0]" "products_get ?a 0 = Some (product_error 0)"
    by (simp_all add: products_ok_def products_insert_def products_new_def products_contents_def arena_ok_def products_get_def
        sealed_get_def sat_add_usize_def usize_max_def)
  moreover have "trees_ok ?b" "trees_contents ?b = [green_leaf]" "trees_get ?b 0 = Some green_leaf"
    by (auto simp: trees_ok_def trees_insert_def trees_new_def trees_contents_def arena_ok_def trees_get_def layered_def
        sealed_get_def sat_add_usize_def usize_max_def nth_opt_def)
  moreover have "base_record two_records 0 = Some \<lparr>rec_value = 7, rec_owner = None, rec_parent = None, rec_extent = span_token 0\<rparr>"
    by (simp add: base_record_def sealed_get_def two_records_def ast_insert_def ast_with_document_def sat_add_usize_def usize_max_def)
  ultimately show ?thesis
    using arena_ids_stable [of ?a "[None, Some (product_error 1), None]" 0 "product_error 0" ?b "[]" 0 green_leaf two_records "[]" 0]
    by (simp add: two_records_ok usize_max_def)
qed

text \<open>
  the green arena does not share trees across generations. Within a generation inserting a tree
  again gives the same id, but \<^verbatim>\<open>seal_generation\<close> drops the directory it has extended, so after it the
  same tree gets a second id.
\<close>

theorem sealed_trees_forgotten:
  assumes "trees_ok a" "length (trees_contents a) + 1 < usize_max" "trees_insert t a = (i, a1)" "ta_tail a1 \<noteq> []"
  shows "trees_insert t a1 = (i, a1) \<and> trees_get (trees_seal a1) i = Some t \<and>
    (\<exists>j a2. trees_insert t (trees_seal a1) = (j, a2) \<and> j \<noteq> i \<and> trees_get a2 j = Some t \<and> trees_get a2 i = Some t)"
proof -
  have a1: "trees_ok a1" "nth_opt (trees_contents a1) i = Some t" "length (trees_contents a1) < usize_max"
    using trees_insert_ok [OF assms(1) _ assms(3)] assms(2) by auto
  have "ta_tail_index a1 t = Some i"
    using assms(1,3) by (auto simp: trees_insert_def layered_def trees_ok_def split: option.splits)
  then have again: "trees_insert t a1 = (i, a1)" by (simp add: trees_insert_def layered_def)
  let ?s = "trees_seal a1"
  have s: "trees_ok ?s" "trees_contents ?s = trees_contents a1" "ta_indexes ?s = []" "ta_tail_index ?s = Map.empty"
    using trees_seal_ok [OF a1(1)] by (simp_all add: trees_ok_def) (simp add: trees_seal_def assms(4))
  obtain j a2 where ins: "trees_insert t ?s = (j, a2)" by fastforce
  have "j = length (trees_contents a1)"
    using ins s(1,2) by (auto simp: trees_insert_def layered_def s(3,4) trees_ok_def trees_contents_def dest: arena_ok_len)
  moreover have "i < length (trees_contents a1)" using a1(2) by (simp add: nth_opt_def split: if_splits)
  moreover have "trees_ok a2" "nth_opt (trees_contents a2) j = Some t" "trees_contents a2 = trees_contents a1 \<or> trees_contents a2 = trees_contents a1 @ [t]"
    using trees_insert_ok [OF s(1) _ ins] a1(3) s(2) by auto
  ultimately show ?thesis using again ins a1(1,2) s(1,2) trees.get_contents
    by (auto simp: nth_opt_append intro!: exI [of _ j] exI [of _ a2])
qed

theorem sealed_trees_forgotten_witness:
  "\<exists>a1. trees_insert green_leaf trees_new = (0, a1) \<and> fst (trees_insert green_leaf a1) = 0 \<and>
    fst (trees_insert green_leaf (trees_seal a1)) \<noteq> 0"
proof -
  have new: "trees_ok trees_new" "trees_contents trees_new = []"
    by (simp_all add: trees_ok_def trees_new_def trees_contents_def)
  obtain a1 where a1: "trees_insert green_leaf trees_new = (0, a1)" "ta_tail a1 \<noteq> []"
    by (simp add: trees_insert_def trees_new_def layered_def)
  show ?thesis using sealed_trees_forgotten [OF new(1) _ a1] a1 new(2) by (auto simp: usize_max_def)
qed

end
