(* ===== verification/Build_Context.thy ===== *)
theory Build_Context
  imports Parse_Arenas
begin

text \<open>
  \<^verbatim>\<open>BuildCx\<close> of \<^verbatim>\<open>src/framework/parse/grammar.rs\<close>: what a reduction may do with the arenas. The
  lineage allocator is a parameter (\<open>assign_new\<close>), a type \<^verbatim>\<open>T\<close> a number and \<open>type_of\<close> the dynamic type
  of a stored value. A panic of the radix map is the outer \<open>None\<close>; it is shown not to occur.
\<close>

section \<open>The context\<close>

datatype build_error =
    MissingProduct nat
  | MissingProduction nat
  | MissingAst nat
  | MissingTokenEntry nat
  | MissingBuild
  | ExpectedNode nat
  | ExpectedToken nat
  | UnexpectedErrorProduct nat
  | TypeMismatch nat

record ('v, 'l) build_store =
  bs_trees :: tree_arena
  bs_products :: product_arena
  bs_ast :: "'v ast_arena"
  bs_lineage :: 'l

record ('b, 'v, 'l) build_cx =
  cx_productions :: "'b production list"
  cx_type_of :: "'v \<Rightarrow> nat"
  cx_assign_new :: "nat \<Rightarrow> anchored_span \<Rightarrow> nat \<Rightarrow> 'l \<Rightarrow> 'l"
  cx_boundary :: nat

type_synonym ('v, 'l) build_result = "(build_error + nat \<times> ('v, 'l) build_store) option"

definition cx_product :: "nat \<Rightarrow> ('v, 'l) build_store \<Rightarrow> build_error + product" where
  "cx_product i s = (case products_get (bs_products s) i of None \<Rightarrow> Inl (MissingProduct i) | Some p \<Rightarrow> Inr p)"

definition cx_production :: "('b, 'v, 'l) build_cx \<Rightarrow> nat \<Rightarrow> build_error + 'b production" where
  "cx_production cx i = (case nth_opt (cx_productions cx) i of None \<Rightarrow> Inl (MissingProduction i) | Some p \<Rightarrow> Inr p)"

definition cx_lhs :: "('b, 'v, 'l) build_cx \<Rightarrow> nat \<Rightarrow> build_error + nat" where
  "cx_lhs cx i = (case cx_production cx i of Inl e \<Rightarrow> Inl e | Inr p \<Rightarrow> Inr (prod_lhs p))"

definition green_of :: "nat \<Rightarrow> ('v, 'l) build_store \<Rightarrow> build_error + nat" where
  "green_of i s = (case cx_product i s of Inl e \<Rightarrow> Inl e | Inr p \<Rightarrow> Inr (prod_green p))"

fun greens_of :: "nat list \<Rightarrow> ('v, 'l) build_store \<Rightarrow> build_error + nat list" where
  "greens_of [] s = Inr []"
| "greens_of (c # cs) s = (case green_of c s of Inl e \<Rightarrow> Inl e
     | Inr g \<Rightarrow> (case greens_of cs s of Inl e \<Rightarrow> Inl e | Inr gs \<Rightarrow> Inr (g # gs)))"

text \<open>The products of the children that exist.\<close>

definition known_products :: "nat list \<Rightarrow> ('v, 'l) build_store \<Rightarrow> product list" where
  "known_products children s = concat (map (\<lambda>c. case products_get (bs_products s) c of None \<Rightarrow> [] | Some p \<Rightarrow> [p]) children)"

definition child_metadata :: "('b, 'v, 'l) build_cx \<Rightarrow> nat list \<Rightarrow> ('v, 'l) build_store \<Rightarrow> anchored_span \<times> nat list" where
  "child_metadata cx children s =
     (let ps = known_products children s in
        (span_cover (map prod_extent ps) (cx_boundary cx), remdups_adj (sort (concat (map prod_ast_ids ps)))))"

definition expect_node :: "('b, 'v, 'l) build_cx \<Rightarrow> nat \<Rightarrow> nat \<Rightarrow> ('v, 'l) build_store \<Rightarrow> build_error + nat" where
  "expect_node cx ty i s = (case cx_product i s of
     Inl e \<Rightarrow> Inl e
   | Inr p \<Rightarrow> (case prod_data p of
       NodeProduct ast _ _ \<Rightarrow> (case ast_erased (bs_ast s) ast of
           Some v \<Rightarrow> if cx_type_of cx v = ty then Inr ast else Inl (TypeMismatch i)
         | None \<Rightarrow> Inl (TypeMismatch i))
     | ErrorProduct _ \<Rightarrow> Inl (UnexpectedErrorProduct i)
     | TokenProduct _ _ _ \<Rightarrow> Inl (ExpectedNode i)))"

definition expect_token :: "nat \<Rightarrow> ('v, 'l) build_store \<Rightarrow> build_error + nat" where
  "expect_token i s = (case cx_product i s of
     Inl e \<Rightarrow> Inl e
   | Inr p \<Rightarrow> (case prod_data p of
       TokenProduct entry _ _ \<Rightarrow> Inr entry
     | ErrorProduct _ \<Rightarrow> Inl (UnexpectedErrorProduct i)
     | NodeProduct _ _ _ \<Rightarrow> Inl (ExpectedToken i)))"

definition expect_value :: "('b, 'v, 'l) build_cx \<Rightarrow> nat \<Rightarrow> nat \<Rightarrow> ('v, 'l) build_store \<Rightarrow> build_error + 'v" where
  "expect_value cx ty i s =
     (let typed = (\<lambda>ast. case ast_erased (bs_ast s) ast of
            Some v \<Rightarrow> if cx_type_of cx v = ty then Inr v else Inl (TypeMismatch i)
          | None \<Rightarrow> Inl (TypeMismatch i))
      in case cx_product i s of
        Inl e \<Rightarrow> Inl e
      | Inr p \<Rightarrow> (case prod_data p of
          NodeProduct ast _ _ \<Rightarrow> typed ast
        | TokenProduct _ (Some ast) _ \<Rightarrow> typed ast
        | TokenProduct _ None _ \<Rightarrow> Inl (TypeMismatch i)
        | ErrorProduct _ \<Rightarrow> Inl (UnexpectedErrorProduct i)))"

definition is_error :: "nat \<Rightarrow> ('v, 'l) build_store \<Rightarrow> build_error + bool" where
  "is_error i s = (case cx_product i s of Inl e \<Rightarrow> Inl e | Inr p \<Rightarrow> Inr (case prod_data p of ErrorProduct _ \<Rightarrow> True | _ \<Rightarrow> False))"

fun ast_of_data :: "product_data \<Rightarrow> nat option" where
  "ast_of_data (NodeProduct ast _ _) = Some ast"
| "ast_of_data (TokenProduct _ ast _) = ast"
| "ast_of_data (ErrorProduct _) = None"

definition direct_children :: "nat list \<Rightarrow> ('v, 'l) build_store \<Rightarrow> nat list" where
  "direct_children children s = concat (map (\<lambda>p. case ast_of_data (prod_data p) of None \<Rightarrow> [] | Some ast \<Rightarrow> [ast]) (known_products children s))"

definition alloc_node :: "('b, 'v, 'l) build_cx \<Rightarrow> nat \<Rightarrow> nat list \<Rightarrow> 'v \<Rightarrow> ('v, 'l) build_store \<Rightarrow> ('v, 'l) build_result" where
  "alloc_node cx production children v s =
     (case greens_of children s of
        Inl e \<Rightarrow> Some (Inl e)
      | Inr greens \<Rightarrow> (case cx_lhs cx production of
          Inl e \<Rightarrow> Some (Inl e)
        | Inr lhs \<Rightarrow>
            (let (green, trees) = trees_node lhs greens (bs_trees s);
                 (extent, ast_ids) = child_metadata cx children s;
                 direct = direct_children children s;
                 (ast, arena) = ast_insert v extent (bs_ast s);
                 lineage = cx_assign_new cx production extent ast (bs_lineage s)
             in do {
               arena \<leftarrow> fold_opt (\<lambda>child. set_parent child (Some ast)) direct arena;
               let (product, products) = products_insert
                 (with_metadata extent (ast_ids @ [ast]) (product_node green ast (cx_type_of cx v) children)) (bs_products s);
               arena \<leftarrow> bind_product ast product arena;
               Some (Inr (product, \<lparr>bs_trees = trees, bs_products = products, bs_ast = arena, bs_lineage = lineage\<rparr>)) })))"

definition alloc_token :: "nat \<Rightarrow> terminal_id \<Rightarrow> nat \<Rightarrow> nat \<Rightarrow> ('v, 'l) build_store \<Rightarrow> nat \<times> ('v, 'l) build_store" where
  "alloc_token n t entry occurrence s =
     (let (green, trees) = trees_leaf n t (bs_trees s);
          (product, products) = products_insert (with_metadata (span_token occurrence) [] (product_token green entry)) (bs_products s)
      in (product, s\<lparr>bs_trees := trees, bs_products := products\<rparr>))"

definition TYPED_TOKEN_ROLE :: nat where
  "TYPED_TOKEN_ROLE = 2 ^ 32 - 1"

definition alloc_typed_token :: "('b, 'v, 'l) build_cx \<Rightarrow> nat \<Rightarrow> terminal_id \<Rightarrow> nat \<Rightarrow> 'v \<Rightarrow> ('v, 'l) build_store \<Rightarrow>
    (nat \<times> ('v, 'l) build_store) option" where
  "alloc_typed_token cx n t entry v s =
     (let (green, trees) = trees_leaf n t (bs_trees s);
          extent = span_point (cx_boundary cx);
          (ast, arena) = ast_insert v extent (bs_ast s);
          lineage = cx_assign_new cx TYPED_TOKEN_ROLE extent ast (bs_lineage s);
          (product, products) = products_insert
            (with_metadata extent [ast] (product_typed_token green entry ast (cx_type_of cx v))) (bs_products s)
      in map_option (\<lambda>arena. (product, \<lparr>bs_trees = trees, bs_products = products, bs_ast = arena, bs_lineage = lineage\<rparr>))
           (bind_product ast product arena))"

definition alloc_error :: "('b, 'v, 'l) build_cx \<Rightarrow> nat \<Rightarrow> error_kind \<Rightarrow> nat \<Rightarrow> nat list \<Rightarrow> symbol option \<Rightarrow> symbol \<Rightarrow> bool \<Rightarrow>
    ('v, 'l) build_store \<Rightarrow> nat \<times> ('v, 'l) build_store" where
  "alloc_error cx n kind node children unexpected expected recovered s =
     (let (green, trees) = trees_error n kind node children unexpected expected recovered None (bs_trees s);
          (product, products) = products_insert (with_metadata (span_point (cx_boundary cx)) [] (product_error green)) (bs_products s)
      in (product, s\<lparr>bs_trees := trees, bs_products := products\<rparr>))"

definition alloc_error_with_children :: "('b, 'v, 'l) build_cx \<Rightarrow> error_kind \<Rightarrow> nat \<Rightarrow> nat list \<Rightarrow> symbol option \<Rightarrow> symbol \<Rightarrow> bool \<Rightarrow>
    ('v, 'l) build_store \<Rightarrow> build_error + nat \<times> ('v, 'l) build_store" where
  "alloc_error_with_children cx kind node children unexpected expected recovered s =
     (case greens_of children s of
        Inl e \<Rightarrow> Inl e
      | Inr greens \<Rightarrow>
          (let (green, trees) = trees_error (children_len (bs_trees s) greens) kind node greens unexpected expected recovered None (bs_trees s);
               (extent, ast_ids) = child_metadata cx children s;
               (product, products) = products_insert
                 (with_metadata extent ast_ids (product_error_with_children green children)) (bs_products s)
           in Inr (product, s\<lparr>bs_trees := trees, bs_products := products\<rparr>)))"

text \<open>The two build functions of the file.\<close>

definition default_build :: "build_error + nat" where
  "default_build = Inl MissingBuild"

definition augmented_build :: "nat list \<Rightarrow> build_error + nat" where
  "augmented_build children = (case children of [] \<Rightarrow> Inl (MissingProduct 0) | c # _ \<Rightarrow> Inr c)"

section \<open>Well-formed stores\<close>

text \<open>Every product belongs to a green tree; the AST ids of products are sorted and allocated.\<close>

definition product_ok :: "('v, 'l) build_store \<Rightarrow> product \<Rightarrow> bool" where
  "product_ok s p \<longleftrightarrow> prod_green p < length (trees_contents (bs_trees s)) \<and>
     (\<forall>ast \<in> set (prod_ast_ids p). ast < length (ast_contents (bs_ast s))) \<and>
     (\<forall>ast. ast_of_data (prod_data p) = Some ast \<longrightarrow> ast < length (ast_contents (bs_ast s)))"

definition store_ok :: "('v, 'l) build_store \<Rightarrow> bool" where
  "store_ok s \<longleftrightarrow> trees_ok (bs_trees s) \<and> products_ok (bs_products s) \<and> ast_ok (bs_ast s) \<and>
     (\<forall>p \<in> set (products_contents (bs_products s)). product_ok s p)"

definition store_room :: "('v, 'l) build_store \<Rightarrow> bool" where
  "store_room s \<longleftrightarrow> length (trees_contents (bs_trees s)) < usize_max \<and> length (products_contents (bs_products s)) < usize_max \<and>
     length (ast_contents (bs_ast s)) < usize_max"

lemma products_get_nth: "store_ok s \<Longrightarrow> products_get (bs_products s) i = nth_opt (products_contents (bs_products s)) i"
  by (simp add: store_ok_def products.get_contents)

lemma greens_of_known:
  "store_ok s \<Longrightarrow> \<forall>c \<in> set children. c < length (products_contents (bs_products s)) \<Longrightarrow>
   greens_of children s = Inr (map (\<lambda>c. prod_green (products_contents (bs_products s) ! c)) children)"
  by (induction children) (simp_all add: green_of_def cx_product_def products_get_nth)

lemma known_products_map:
  "store_ok s \<Longrightarrow> \<forall>c \<in> set children. c < length (products_contents (bs_products s)) \<Longrightarrow>
   known_products children s = map ((!) (products_contents (bs_products s))) children"
  by (induction children) (simp_all add: known_products_def products_get_nth)

lemma products_insert_contents:
  "products_ok a \<Longrightarrow> length (products_contents a) < usize_max \<Longrightarrow>
   \<exists>a'. products_insert p a = (length (products_contents a), a') \<and> products_ok a' \<and> products_contents a' = products_contents a @ [p]"
  using arena_ok_push [of "pa_chunks a" "pa_starts a" "pa_tail a" "pa_len a" p]
  by (auto simp: products_insert_def products_ok_def products_contents_def dest: arena_ok_len)

lemma ast_insert_contents:
  "ast_ok a \<Longrightarrow> length (ast_contents a) < usize_max \<Longrightarrow>
   \<exists>a'. ast_insert v extent a = (length (ast_contents a), a') \<and> ast_ok a' \<and> aa_metadata a' = aa_metadata a \<and>
     ast_contents a' = ast_contents a @ [\<lparr>rec_value = v, rec_owner = None, rec_parent = None, rec_extent = extent\<rparr>]"
  using arena_ok_push [of "aa_chunks a" "aa_starts a" "aa_tail a" "aa_len a"]
  by (auto simp: ast_insert_def ast_ok_def ast_contents_def dest: arena_ok_len)

lemma set_parent_ok:
  assumes "ast_ok a" "length (ast_contents a) \<le> 2 ^ 64" "i < length (ast_contents a)"
  shows "\<exists>a'. set_parent i up a = Some a' \<and> ast_ok a' \<and> ast_contents a' = ast_contents a \<and>
    (\<forall>j. bindings a' j = (if j = i then map_option (\<lambda>m. m\<lparr>meta_parent := up\<rparr>) (bindings a j) else bindings a j))"
proof -
  obtain m where m: "bindings a i = Some m" using assms(3) by (simp add: bindings_def)
  show ?thesis
    using update_bindings [OF assms(1,2) m, of "meta_parent_update (\<lambda>_. up)"] m
    by (auto simp: set_parent_def ast_metadata_bindings [OF assms(1)])
qed

lemma set_parents_ok:
  assumes "ast_ok a" "length (ast_contents a) \<le> 2 ^ 64" "\<forall>i \<in> set is. i < length (ast_contents a)"
  shows "\<exists>a'. fold_opt (\<lambda>child. set_parent child up) is a = Some a' \<and> ast_ok a' \<and> ast_contents a' = ast_contents a \<and>
    (\<forall>j. bindings a' j = (if j \<in> set is then map_option (\<lambda>m. m\<lparr>meta_parent := up\<rparr>) (bindings a j) else bindings a j))"
  using assms
proof (induction "is" arbitrary: a)
  case (Cons i "is")
  obtain a1 where a1: "set_parent i up a = Some a1" "ast_ok a1" "ast_contents a1 = ast_contents a"
      "\<And>j. bindings a1 j = (if j = i then map_option (\<lambda>m. m\<lparr>meta_parent := up\<rparr>) (bindings a j) else bindings a j)"
    using set_parent_ok [OF Cons.prems(1,2), of i up] Cons.prems(3) by auto
  obtain a2 where a2: "fold_opt (\<lambda>child. set_parent child up) is a1 = Some a2" "ast_ok a2" "ast_contents a2 = ast_contents a1"
      "\<And>j. bindings a2 j = (if j \<in> set is then map_option (\<lambda>m. m\<lparr>meta_parent := up\<rparr>) (bindings a1 j) else bindings a1 j)"
    using Cons.IH [OF a1(2)] Cons.prems(2,3) a1(3) by auto
  have "bindings a2 j = (if j \<in> set (i # is) then map_option (\<lambda>m. m\<lparr>meta_parent := up\<rparr>) (bindings a j) else bindings a j)" for j
    unfolding a2(4) a1(4) by (cases "bindings a j") auto
  then show ?case using a1 a2 by auto
qed auto

lemma product_ok_grow:
  assumes "product_ok s p" "length (trees_contents (bs_trees s)) \<le> length (trees_contents (bs_trees s'))"
    "length (ast_contents (bs_ast s)) \<le> length (ast_contents (bs_ast s'))"
  shows "product_ok s' p"
  using assms by (fastforce simp: product_ok_def)

lemma distinct_remdups_adj_sorted: "sorted xs \<Longrightarrow> distinct (remdups_adj xs)"
  for xs :: "'a::linorder list"
proof (induction xs rule: remdups_adj.induct)
  case (3 x y xs)
  then show ?case by (cases "x = y") (auto simp: less_le_not_le)
qed simp_all

lemma trees_insert_grows:
  assumes "trees_ok a" "length (trees_contents a) < usize_max" "trees_insert t a = (i, a')"
  shows "trees_ok a'" "i < length (trees_contents a')" "trees_get a' i = Some t"
    "length (trees_contents a) \<le> length (trees_contents a')"
proof -
  note r = trees_insert_ok [OF assms]
  then show "trees_ok a'" "length (trees_contents a) \<le> length (trees_contents a')" by auto
  then show "trees_get a' i = Some t" using r trees.get_contents by auto
  show "i < length (trees_contents a')" using r by (auto simp: nth_opt_def split: if_splits)
qed

lemma alloc_token_ok:
  assumes "store_ok s" "store_room s"
  shows "\<exists>s'. alloc_token n t entry occurrence s = (length (products_contents (bs_products s)), s') \<and> store_ok s' \<and>
    bs_ast s' = bs_ast s \<and> bs_lineage s' = bs_lineage s \<and>
    length (trees_contents (bs_trees s')) \<le> length (trees_contents (bs_trees s)) + 1 \<and>
    (\<exists>p. products_contents (bs_products s') = products_contents (bs_products s) @ [p] \<and>
       prod_data p = TokenProduct entry None 0)"
proof -
  obtain green trees where tree: "trees_leaf n t (bs_trees s) = (green, trees)" by fastforce
  have "trees_ok (bs_trees s)" "length (trees_contents (bs_trees s)) < usize_max" using assms by (simp_all add: store_ok_def store_room_def)
  note trees' = trees_insert_grows [OF this tree [unfolded trees_leaf_def]]
    and step = trees_insert_ok [OF this tree [unfolded trees_leaf_def]]
  let ?p = "with_metadata (span_token occurrence) [] (product_token green entry)"
  have "products_ok (bs_products s)" "length (products_contents (bs_products s)) < usize_max" using assms by (simp_all add: store_ok_def store_room_def)
  from products_insert_contents [OF this, of ?p]
  obtain products where products: "products_insert ?p (bs_products s) = (length (products_contents (bs_products s)), products)" "products_ok products"
      "products_contents products = products_contents (bs_products s) @ [?p]" by blast
  let ?s = "s\<lparr>bs_trees := trees, bs_products := products\<rparr>"
  have "product_ok ?s ?p" using trees'(2) by (simp add: product_ok_def with_metadata_def product_token_def product_new_def)
  moreover have "product_ok ?s p" if "p \<in> set (products_contents (bs_products s))" for p
  proof (rule product_ok_grow)
    show "product_ok s p" using assms(1) that by (simp add: store_ok_def)
  qed (use trees'(4) in simp_all)
  ultimately have "store_ok ?s" using assms(1) trees'(1) products(2,3) by (auto simp: store_ok_def)
  then show ?thesis using tree products step
    by (auto simp: alloc_token_def with_metadata_def product_token_def product_new_def)
qed

section \<open>Property\<close>


text \<open>An empty store, and one with a token.\<close>

definition empty_store :: "(nat, unit) build_store" where
  "empty_store = \<lparr>bs_trees = trees_new, bs_products = products_new, bs_ast = ast_with_document 0, bs_lineage = ()\<rparr>"

lemma empty_store_ok: "store_ok empty_store" "store_room empty_store"
  by (simp_all add: empty_store_def store_ok_def store_room_def trees_ok_def trees_new_def trees_contents_def products_ok_def
      products_new_def products_contents_def ast_ok_def ast_with_document_def ast_contents_def arena_ok_def usize_max_def
      radix_ok_def radix_empty_def radix_list_def)

definition one_production_cx :: "(unit, nat, unit) build_cx" where
  "one_production_cx = \<lparr>cx_productions = [\<lparr>prod_id = 0, prod_label = ''unit'', prod_lhs = 4, rhs_start = 0, rhs_len = 1,
     prod_precedence = None, prod_build = DefaultBuild\<rparr>], cx_type_of = (\<lambda>v. v), cx_assign_new = (\<lambda>_ _ _ l. l), cx_boundary = 0\<rparr>"


end
