(* ===== verification/Gss_Arena.thy ===== *)
theory Gss_Arena
  imports Sealed_Arena
begin

text \<open>
  The graph-structured stack, \<^verbatim>\<open>src/framework/parse/data/gss.rs\<close>: interned nodes and edges in sealed
  generations, and for every node the ids of its outgoing edges, the newest list in the newest
  layer. The abstract content is a list of distinct nodes and a list of distinct edges; every
  operation is shown to act on those.
\<close>

section \<open>The arena\<close>

record gss_node =
  gn_state :: nat
  gn_column :: nat
  gn_generation :: nat

record gss_edge =
  ge_from :: nat
  ge_to :: nat
  ge_product :: nat
  ge_generation :: nat

definition gss_node_new :: "nat \<Rightarrow> nat \<Rightarrow> nat \<Rightarrow> gss_node" where
  "gss_node_new state column generation = \<lparr>gn_state = state, gn_column = column, gn_generation = generation\<rparr>"

definition gss_edge_new :: "nat \<Rightarrow> nat \<Rightarrow> nat \<Rightarrow> nat \<Rightarrow> gss_edge" where
  "gss_edge_new from to product generation =
     \<lparr>ge_from = from, ge_to = to, ge_product = product, ge_generation = generation\<rparr>"

record gss_arena =
  node_chunks :: "gss_node list list"
  node_starts :: "nat list"
  node_indexes :: "(gss_node \<rightharpoonup> nat) list"
  node_tail :: "gss_node list"
  node_tail_index :: "gss_node \<rightharpoonup> nat"
  node_len :: nat
  edge_chunks :: "gss_edge list list"
  edge_starts :: "nat list"
  edge_indexes :: "(gss_edge \<rightharpoonup> nat) list"
  edge_tail :: "gss_edge list"
  edge_tail_index :: "gss_edge \<rightharpoonup> nat"
  edge_len :: nat
  outgoing_layers :: "(nat \<rightharpoonup> nat list) list"
  outgoing_tail :: "nat \<rightharpoonup> nat list"

definition gss_new :: gss_arena where
  "gss_new =
     \<lparr>node_chunks = [], node_starts = [], node_indexes = [], node_tail = [], node_tail_index = Map.empty, node_len = 0,
      edge_chunks = [], edge_starts = [], edge_indexes = [], edge_tail = [], edge_tail_index = Map.empty, edge_len = 0,
      outgoing_layers = [], outgoing_tail = Map.empty\<rparr>"

text \<open>\<^verbatim>\<open>GssArena::node\<close>.\<close>

definition gss_intern :: "gss_node \<Rightarrow> gss_arena \<Rightarrow> nat \<times> gss_arena" where
  "gss_intern node g = (case layered (node_tail_index g) (node_indexes g) node of
     Some i \<Rightarrow> (i, g)
   | None \<Rightarrow> (node_len g, g\<lparr>node_tail_index := (node_tail_index g)(node \<mapsto> node_len g), node_tail := node_tail g @ [node],
       node_len := sat_add_usize (node_len g) 1\<rparr>))"

definition gss_add_node :: "nat \<Rightarrow> nat \<Rightarrow> nat \<Rightarrow> gss_arena \<Rightarrow> nat \<times> gss_arena" where
  "gss_add_node state column generation g = gss_intern (gss_node_new state column generation) g"

definition outgoing_edge_ids :: "gss_arena \<Rightarrow> nat \<Rightarrow> nat list option" where
  "outgoing_edge_ids g n = layered (outgoing_tail g) (outgoing_layers g) n"

text \<open>The list of the node is taken out of the tail before it is looked up in the layers.\<close>

definition gss_add_edge :: "nat \<Rightarrow> nat \<Rightarrow> nat \<Rightarrow> nat \<Rightarrow> gss_arena \<Rightarrow> bool \<times> gss_arena" where
  "gss_add_edge from to product generation g =
     (let edge = gss_edge_new from to product generation in
        if layered (edge_tail_index g) (edge_indexes g) edge \<noteq> None then (False, g)
        else
          (let edge_id = edge_len g;
               g = g\<lparr>edge_tail_index := (edge_tail_index g)(edge \<mapsto> edge_id), edge_tail := edge_tail g @ [edge],
                     edge_len := sat_add_usize (edge_len g) 1\<rparr>;
               out = (case outgoing_tail g from of
                        Some ids \<Rightarrow> ids
                      | None \<Rightarrow> (case outgoing_edge_ids (g\<lparr>outgoing_tail := (outgoing_tail g)(from := None)\<rparr>) from of
                          Some ids \<Rightarrow> ids
                        | None \<Rightarrow> []))
           in (True, g\<lparr>outgoing_tail := (outgoing_tail g)(from \<mapsto> out @ [edge_id])\<rparr>)))"

definition gss_get_node :: "gss_arena \<Rightarrow> nat \<Rightarrow> gss_node option" where
  "gss_get_node g i = sealed_get (node_chunks g) (node_starts g) (node_tail g) (node_len g) i"

definition gss_get_edge :: "gss_arena \<Rightarrow> nat \<Rightarrow> gss_edge option" where
  "gss_get_edge g i = sealed_get (edge_chunks g) (edge_starts g) (edge_tail g) (edge_len g) i"

fun filter_some :: "('a \<Rightarrow> 'b option) \<Rightarrow> 'a list \<Rightarrow> 'b list" where
  "filter_some f [] = []"
| "filter_some f (x # xs) = (case f x of None \<Rightarrow> filter_some f xs | Some y \<Rightarrow> y # filter_some f xs)"

definition outgoing_edges :: "gss_arena \<Rightarrow> nat \<Rightarrow> gss_edge list" where
  "outgoing_edges g n = filter_some (gss_get_edge g) (case outgoing_edge_ids g n of None \<Rightarrow> [] | Some ids \<Rightarrow> ids)"

definition gss_seal :: "gss_arena \<Rightarrow> gss_arena" where
  "gss_seal g =
     (let g = (if node_tail g = [] then g
               else g\<lparr>node_chunks := node_chunks g @ [node_tail g], node_starts := node_starts g @ [node_len g - length (node_tail g)],
                      node_indexes := node_indexes g @ [node_tail_index g], node_tail := [], node_tail_index := Map.empty\<rparr>);
          g = (if edge_tail g = [] then g
               else g\<lparr>edge_chunks := edge_chunks g @ [edge_tail g], edge_starts := edge_starts g @ [edge_len g - length (edge_tail g)],
                      edge_indexes := edge_indexes g @ [edge_tail_index g], edge_tail := [], edge_tail_index := Map.empty\<rparr>)
      in if outgoing_tail g = Map.empty then g
         else g\<lparr>outgoing_layers := outgoing_layers g @ [outgoing_tail g], outgoing_tail := Map.empty\<rparr>)"

section \<open>Content\<close>

definition gss_nodes :: "gss_arena \<Rightarrow> gss_node list" where
  "gss_nodes g = concat (node_chunks g) @ node_tail g"

definition gss_edges :: "gss_arena \<Rightarrow> gss_edge list" where
  "gss_edges g = concat (edge_chunks g) @ edge_tail g"

definition edge_ids_from :: "gss_edge list \<Rightarrow> nat \<Rightarrow> nat list" where
  "edge_ids_from es n = filter (\<lambda>i. ge_from (es ! i) = n) [0..<length es]"

definition gss_ok :: "gss_arena \<Rightarrow> bool" where
  "gss_ok g \<longleftrightarrow>
     arena_ok (node_chunks g) (node_starts g) (node_tail g) (node_len g) \<and>
     arena_ok (edge_chunks g) (edge_starts g) (edge_tail g) (edge_len g) \<and>
     index_of (gss_nodes g) (layered (node_tail_index g) (node_indexes g)) \<and>
     index_of (gss_edges g) (layered (edge_tail_index g) (edge_indexes g)) \<and>
     (node_tail g = [] \<longrightarrow> node_tail_index g = Map.empty) \<and> (edge_tail g = [] \<longrightarrow> edge_tail_index g = Map.empty) \<and>
     (\<forall>n. (case outgoing_edge_ids g n of None \<Rightarrow> [] | Some ids \<Rightarrow> ids) = edge_ids_from (gss_edges g) n)"

lemma gss_new_ok: "gss_ok gss_new" "gss_nodes gss_new = []" "gss_edges gss_new = []"
  by (simp_all add: gss_ok_def gss_new_def gss_nodes_def gss_edges_def outgoing_edge_ids_def edge_ids_from_def index_of_def layered_def)

lemma gss_get_node_nth: "gss_ok g \<Longrightarrow> gss_get_node g i = nth_opt (gss_nodes g) i"
  by (simp add: gss_ok_def gss_get_node_def gss_nodes_def sealed_get_contents)

lemma gss_get_edge_nth: "gss_ok g \<Longrightarrow> gss_get_edge g i = nth_opt (gss_edges g) i"
  by (simp add: gss_ok_def gss_get_edge_def gss_edges_def sealed_get_contents)

lemma gss_lens: "gss_ok g \<Longrightarrow> node_len g = length (gss_nodes g) \<and> edge_len g = length (gss_edges g)"
  by (auto simp: gss_ok_def gss_nodes_def gss_edges_def dest: arena_ok_len)

lemma gss_distinct: "gss_ok g \<Longrightarrow> distinct (gss_nodes g) \<and> distinct (gss_edges g)"
  by (simp add: gss_ok_def index_of_def)

lemma filter_some_map: "(\<And>x. x \<in> set xs \<Longrightarrow> f x = Some (h x)) \<Longrightarrow> filter_some f xs = map h xs"
  by (induction xs) simp_all

lemma map_filter_nth: "map ((!) xs) (filter (\<lambda>i. P (xs ! i)) [0..<length xs]) = filter P xs"
proof -
  have "map ((!) xs) (filter (P \<circ> (!) xs) [0..<length xs]) = filter P (map ((!) xs) [0..<length xs])" by (simp add: filter_map)
  then show ?thesis by (simp add: comp_def map_nth)
qed

lemma outgoing_edges_filter:
  assumes "gss_ok g" shows "outgoing_edges g n = filter (\<lambda>e. ge_from e = n) (gss_edges g)"
proof -
  have ids: "(case outgoing_edge_ids g n of None \<Rightarrow> [] | Some ids \<Rightarrow> ids) = edge_ids_from (gss_edges g) n"
    using assms by (simp add: gss_ok_def)
  have "filter_some (gss_get_edge g) (edge_ids_from (gss_edges g) n) = map ((!) (gss_edges g)) (edge_ids_from (gss_edges g) n)"
    by (rule filter_some_map) (simp add: gss_get_edge_nth [OF assms] edge_ids_from_def)
  also have "\<dots> = filter (\<lambda>e. ge_from e = n) (gss_edges g)" unfolding edge_ids_from_def by (rule map_filter_nth)
  finally show ?thesis by (simp add: outgoing_edges_def ids)
qed

lemma gss_intern_ok:
  assumes "gss_ok g" "length (gss_nodes g) < usize_max" "gss_intern node g = (i, g')"
  shows "gss_ok g' \<and> gss_edges g' = gss_edges g \<and> nth_opt (gss_nodes g') i = Some node \<and>
    gss_nodes g' = (if node \<in> set (gss_nodes g) then gss_nodes g else gss_nodes g @ [node])"
proof (cases "layered (node_tail_index g) (node_indexes g) node")
  case (Some k)
  then have "nth_opt (gss_nodes g) k = Some node" using assms(1) by (simp add: gss_ok_def index_of_def)
  moreover from this have "node \<in> set (gss_nodes g)" by (auto simp: nth_opt_def split: if_splits)
  ultimately show ?thesis using Some assms by (simp add: gss_intern_def)
next
  case None
  have "index_of (gss_nodes g) (layered (node_tail_index g) (node_indexes g))" using assms(1) by (simp add: gss_ok_def)
  then have new: "node \<notin> set (gss_nodes g)" using index_of_None None by fastforce
  have len: "node_len g = length (gss_nodes g)" using gss_lens assms(1) by blast
  have g': "g' = g\<lparr>node_tail_index := (node_tail_index g)(node \<mapsto> length (gss_nodes g)), node_tail := node_tail g @ [node],
      node_len := sat_add_usize (node_len g) 1\<rparr>" "i = length (gss_nodes g)"
    using assms(3) None len by (auto simp: gss_intern_def)
  have nodes: "gss_nodes g' = gss_nodes g @ [node]" "gss_edges g' = gss_edges g" by (simp_all add: g' gss_nodes_def gss_edges_def)
  have "index_of (gss_nodes g') (layered (node_tail_index g') (node_indexes g'))"
    unfolding nodes using assms(1) new by (intro index_of_push [where f = "layered (node_tail_index g) (node_indexes g)"])
      (auto simp: g' gss_ok_def layered_update)
  moreover have "arena_ok (node_chunks g') (node_starts g') (node_tail g') (node_len g')"
    using arena_ok_push [of "node_chunks g" "node_starts g" "node_tail g" "node_len g" node] assms(1,2) len by (simp add: g' gss_ok_def)
  ultimately have "gss_ok g'" using assms(1) nodes unfolding gss_ok_def by (simp add: g' outgoing_edge_ids_def)
  then show ?thesis using nodes new g'(2) by simp
qed

lemma edge_ids_from_snoc: "edge_ids_from (es @ [e]) n = edge_ids_from es n @ (if ge_from e = n then [length es] else [])"
  by (auto simp: edge_ids_from_def nth_append intro: filter_cong)

lemma gss_add_edge_ok:
  assumes "gss_ok g" "length (gss_edges g) < usize_max" "gss_add_edge u v p gen g = (added, g')"
  shows "gss_ok g' \<and> gss_nodes g' = gss_nodes g \<and> (added \<longleftrightarrow> gss_edge_new u v p gen \<notin> set (gss_edges g)) \<and>
    gss_edges g' = (if added then gss_edges g @ [gss_edge_new u v p gen] else gss_edges g)"
proof -
  let ?e = "gss_edge_new u v p gen"
  have known: "layered (edge_tail_index g) (edge_indexes g) ?e = None \<longleftrightarrow> ?e \<notin> set (gss_edges g)"
    using assms(1) by (intro index_of_None) (simp add: gss_ok_def)
  show ?thesis
  proof (cases "?e \<in> set (gss_edges g)")
    case True
    then show ?thesis using known assms by (auto simp: gss_add_edge_def Let_def)
  next
    case False
    have len: "edge_len g = length (gss_edges g)" using gss_lens assms(1) by blast
    have ids: "(case outgoing_tail g u of Some ids \<Rightarrow> ids
        | None \<Rightarrow> (case layered ((outgoing_tail g)(u := None)) (outgoing_layers g) u of Some ids \<Rightarrow> ids | None \<Rightarrow> [])) = edge_ids_from (gss_edges g) u"
    proof -
      have "(case outgoing_edge_ids g u of None \<Rightarrow> [] | Some ids \<Rightarrow> ids) = edge_ids_from (gss_edges g) u"
        using assms(1) by (simp add: gss_ok_def)
      then show ?thesis by (auto simp: outgoing_edge_ids_def layered_def split: option.splits)
    qed
    have g': "added" "g' = g\<lparr>edge_tail_index := (edge_tail_index g)(?e \<mapsto> length (gss_edges g)), edge_tail := edge_tail g @ [?e],
        edge_len := sat_add_usize (edge_len g) 1, outgoing_tail := (outgoing_tail g)(u \<mapsto> edge_ids_from (gss_edges g) u @ [length (gss_edges g)])\<rparr>"
      using assms(3) False known len ids by (cases "outgoing_tail g u"; auto simp: gss_add_edge_def Let_def outgoing_edge_ids_def)+
    have edges: "gss_edges g' = gss_edges g @ [?e]" "gss_nodes g' = gss_nodes g" by (simp_all add: g' gss_nodes_def gss_edges_def)
    have "index_of (gss_edges g') (layered (edge_tail_index g') (edge_indexes g'))"
      unfolding edges using assms(1) False by (intro index_of_push [where f = "layered (edge_tail_index g) (edge_indexes g)"])
        (auto simp: g' gss_ok_def layered_update)
    moreover have "arena_ok (edge_chunks g') (edge_starts g') (edge_tail g') (edge_len g')"
      using arena_ok_push [of "edge_chunks g" "edge_starts g" "edge_tail g" "edge_len g" ?e] assms(1,2) len by (simp add: g' gss_ok_def)
    moreover have "(case outgoing_edge_ids g' n of None \<Rightarrow> [] | Some ids \<Rightarrow> ids) = edge_ids_from (gss_edges g') n" for n
      using assms(1) unfolding edges edge_ids_from_snoc
      by (auto simp: g' outgoing_edge_ids_def layered_update gss_ok_def gss_edge_new_def split: option.splits)
    ultimately have "gss_ok g'" using assms(1) edges unfolding gss_ok_def by (simp add: g')
    then show ?thesis using edges False g'(1) by simp
  qed
qed

lemma gss_seal_ok:
  assumes "gss_ok g"
  shows "gss_ok (gss_seal g) \<and> gss_nodes (gss_seal g) = gss_nodes g \<and> gss_edges (gss_seal g) = gss_edges g \<and>
    outgoing_edge_ids (gss_seal g) = outgoing_edge_ids g"
proof -
  define g1 where "g1 = (if node_tail g = [] then g
      else g\<lparr>node_chunks := node_chunks g @ [node_tail g], node_starts := node_starts g @ [node_len g - length (node_tail g)],
             node_indexes := node_indexes g @ [node_tail_index g], node_tail := [], node_tail_index := Map.empty\<rparr>)"
  have s1: "gss_ok g1" "gss_nodes g1 = gss_nodes g" "gss_edges g1 = gss_edges g" "outgoing_edge_ids g1 = outgoing_edge_ids g"
    using assms arena_ok_seal [of "node_chunks g" "node_starts g" "node_tail g" "node_len g"]
    by (auto simp: g1_def gss_ok_def gss_nodes_def gss_edges_def outgoing_edge_ids_def layered_seal [abs_def] fun_eq_iff)
  define g2 where "g2 = (if edge_tail g1 = [] then g1
      else g1\<lparr>edge_chunks := edge_chunks g1 @ [edge_tail g1], edge_starts := edge_starts g1 @ [edge_len g1 - length (edge_tail g1)],
             edge_indexes := edge_indexes g1 @ [edge_tail_index g1], edge_tail := [], edge_tail_index := Map.empty\<rparr>)"
  have s2: "gss_ok g2" "gss_nodes g2 = gss_nodes g1" "gss_edges g2 = gss_edges g1" "outgoing_edge_ids g2 = outgoing_edge_ids g1"
    using s1(1) arena_ok_seal [of "edge_chunks g1" "edge_starts g1" "edge_tail g1" "edge_len g1"]
    by (auto simp: g2_def gss_ok_def gss_nodes_def gss_edges_def outgoing_edge_ids_def layered_seal [abs_def] fun_eq_iff)
  have seal: "gss_seal g = (if outgoing_tail g2 = Map.empty then g2
      else g2\<lparr>outgoing_layers := outgoing_layers g2 @ [outgoing_tail g2], outgoing_tail := Map.empty\<rparr>)"
    unfolding gss_seal_def g2_def g1_def Let_def ..
  have "gss_ok (gss_seal g)" "gss_nodes (gss_seal g) = gss_nodes g2" "gss_edges (gss_seal g) = gss_edges g2"
      "outgoing_edge_ids (gss_seal g) = outgoing_edge_ids g2"
    using s2(1) unfolding seal
    by (auto simp: gss_ok_def gss_nodes_def gss_edges_def outgoing_edge_ids_def layered_seal fun_eq_iff)
  then show ?thesis using s1 s2 by simp
qed

interpretation gss_nodes: interning_arena gss_nodes gss_ok gss_get_node gss_intern gss_seal
proof (unfold_locales, goal_cases)
  case (2 s x i s')
  note r = gss_intern_ok [OF 2]
  then have "gss_nodes s' = gss_nodes s \<or> gss_nodes s' = gss_nodes s @ [x]" by (cases "x \<in> set (gss_nodes s)") simp_all
  then show ?case using r by blast
next
  case (4 s i x)
  then have "layered (node_tail_index s) (node_indexes s) x = Some i" by (simp add: gss_ok_def index_of_def)
  then show ?case by (simp add: gss_intern_def)
qed (simp_all add: gss_get_node_nth gss_seal_ok)

section \<open>Property\<close>

datatype gss_op = AddNode gss_node | AddEdge gss_edge | SealGss

fun gss_apply :: "gss_op \<Rightarrow> gss_arena \<Rightarrow> gss_arena" where
  "gss_apply (AddNode n) g = snd (gss_add_node (gn_state n) (gn_column n) (gn_generation n) g)"
| "gss_apply (AddEdge e) g = snd (gss_add_edge (ge_from e) (ge_to e) (ge_product e) (ge_generation e) g)"
| "gss_apply SealGss g = gss_seal g"

text \<open>The specification: nodes and edges in the order of their first addition.\<close>

definition add_new :: "'a \<Rightarrow> 'a list \<Rightarrow> 'a list" where
  "add_new x xs = (if x \<in> set xs then xs else xs @ [x])"

fun graph_apply :: "gss_op \<Rightarrow> gss_node list \<times> gss_edge list \<Rightarrow> gss_node list \<times> gss_edge list" where
  "graph_apply (AddNode n) (ns, es) = (add_new n ns, es)"
| "graph_apply (AddEdge e) (ns, es) = (ns, add_new e es)"
| "graph_apply SealGss (ns, es) = (ns, es)"

lemma gss_node_eta: "gss_node_new (gn_state n) (gn_column n) (gn_generation n) = n"
  by (simp add: gss_node_new_def)

lemma gss_edge_eta: "gss_edge_new (ge_from e) (ge_to e) (ge_product e) (ge_generation e) = e"
  by (simp add: gss_edge_new_def)

lemma gss_apply_step:
  assumes "gss_ok g" "length (gss_nodes g) < usize_max" "length (gss_edges g) < usize_max"
  shows "gss_ok (gss_apply op g) \<and> (gss_nodes (gss_apply op g), gss_edges (gss_apply op g)) = graph_apply op (gss_nodes g, gss_edges g)"
proof (cases op)
  case (AddNode n)
  obtain i g' where "gss_intern n g = (i, g')" by fastforce
  then show ?thesis using gss_intern_ok [OF assms(1,2)] AddNode by (simp add: gss_add_node_def gss_node_eta add_new_def)
next
  case (AddEdge e)
  obtain added g' where add: "gss_add_edge (ge_from e) (ge_to e) (ge_product e) (ge_generation e) g = (added, g')" by fastforce
  show ?thesis using gss_add_edge_ok [OF assms(1,3) add] add AddEdge by (auto simp: gss_edge_eta add_new_def)
next
  case SealGss
  then show ?thesis using gss_seal_ok [OF assms(1)] by simp
qed

lemma graph_apply_grows:
  "graph_apply op (ns, es) = (ns', es') \<Longrightarrow> length ns' \<le> length ns + 1 \<and> length es' \<le> length es + 1"
  by (cases op) (auto simp: add_new_def split: if_splits)

lemma gss_history:
  "gss_ok g \<Longrightarrow> length (gss_nodes g) + length ops \<le> usize_max \<Longrightarrow> length (gss_edges g) + length ops \<le> usize_max \<Longrightarrow>
   gss_ok (fold gss_apply ops g) \<and>
   (gss_nodes (fold gss_apply ops g), gss_edges (fold gss_apply ops g)) = fold graph_apply ops (gss_nodes g, gss_edges g)"
proof (induction ops arbitrary: g)
  case (Cons op ops)
  have step: "gss_ok (gss_apply op g)"
      "(gss_nodes (gss_apply op g), gss_edges (gss_apply op g)) = graph_apply op (gss_nodes g, gss_edges g)"
    using gss_apply_step [of g op] Cons.prems by auto
  have "length (gss_nodes (gss_apply op g)) \<le> length (gss_nodes g) + 1" "length (gss_edges (gss_apply op g)) \<le> length (gss_edges g) + 1"
    using graph_apply_grows [OF step(2) [symmetric]] by simp_all
  then show ?case using Cons.IH [OF step(1)] Cons.prems step(2) by simp
qed simp

text \<open>
  C16: whatever nodes and edges are added and however often a generation is sealed, the arena is the
  list of the distinct nodes and the list of the distinct edges in the order of their first
  addition: the ids are positions in those lists, and the outgoing edges of a node are exactly its
  edges, in that order.
\<close>

theorem gss_refines_graph:
  assumes "length ops \<le> usize_max" "fold graph_apply ops ([], []) = (ns, es)"
  shows "gss_get_node (fold gss_apply ops gss_new) i = nth_opt ns i \<and> gss_get_edge (fold gss_apply ops gss_new) j = nth_opt es j \<and>
    outgoing_edges (fold gss_apply ops gss_new) n = filter (\<lambda>e. ge_from e = n) es \<and> distinct ns \<and> distinct es"
proof -
  let ?g = "fold gss_apply ops gss_new"
  have g: "gss_ok ?g" "gss_nodes ?g = ns" "gss_edges ?g = es"
    using gss_history [of gss_new ops] assms by (simp_all add: gss_new_ok)
  then show ?thesis using gss_get_node_nth [OF g(1)] gss_get_edge_nth [OF g(1)] outgoing_edges_filter [OF g(1)] gss_distinct [OF g(1)]
    by simp
qed

theorem gss_refines_graph_witness:
  "outgoing_edges (fold gss_apply [AddNode (gss_node_new 0 0 1), AddEdge (gss_edge_new 1 0 5 1), SealGss,
      AddEdge (gss_edge_new 1 0 5 1), AddEdge (gss_edge_new 1 0 6 2)] gss_new) 1 = [gss_edge_new 1 0 5 1, gss_edge_new 1 0 6 2]"
  using gss_refines_graph [of "[AddNode (gss_node_new 0 0 1), AddEdge (gss_edge_new 1 0 5 1), SealGss,
      AddEdge (gss_edge_new 1 0 5 1), AddEdge (gss_edge_new 1 0 6 2)]" "[gss_node_new 0 0 1]"
      "[gss_edge_new 1 0 5 1, gss_edge_new 1 0 6 2]" 0 0 1]
  by (simp add: usize_max_def add_new_def gss_edge_new_def)

end
