(* ===== verification/Derivation.thy ===== *)
theory Derivation
  imports Grammar
begin

text \<open>
  What a grammar means: derivation of symbol strings, and the inductive characterisations of
  nullable symbols and of FIRST that the fixpoint loops of \<^verbatim>\<open>src/framework/parse/analyze.rs\<close> are
  compared with. An \<^verbatim>\<open>Epsilon\<close> symbol derives the empty string.
\<close>

inductive derive :: "rules \<Rightarrow> symbol list \<Rightarrow> symbol list \<Rightarrow> bool" for rs where
  expand: "(n, rhs) \<in> set rs \<Longrightarrow> derive rs (u @ N n # v) (u @ rhs @ v)"
| erase: "derive rs (u @ Epsilon # v) (u @ v)"

abbreviation derives :: "rules \<Rightarrow> symbol list \<Rightarrow> symbol list \<Rightarrow> bool" where
  "derives rs \<equiv> (derive rs)\<^sup>*\<^sup>*"

inductive nullable :: "rules \<Rightarrow> symbol \<Rightarrow> bool" for rs where
  nullable_Epsilon: "nullable rs Epsilon"
| nullable_N: "(n, rhs) \<in> set rs \<Longrightarrow> \<forall>X \<in> set rhs. nullable rs X \<Longrightarrow> nullable rs (N n)"

inductive_simps nullable_simps [simp]: "nullable rs (T t)" "nullable rs Epsilon"
inductive_simps nullable_N_iff: "nullable rs (N n)"

inductive first :: "rules \<Rightarrow> terminal_id \<Rightarrow> symbol \<Rightarrow> bool" for rs t where
  first_T: "first rs t (T t)"
| first_N: "(n, u @ X # v) \<in> set rs \<Longrightarrow> \<forall>Y \<in> set u. nullable rs Y \<Longrightarrow> first rs t X \<Longrightarrow> first rs t (N n)"

inductive_simps first_simps [simp]: "first rs t (T s)" "first rs t Epsilon"
inductive_simps first_N_iff: "first rs t (N n)"

fun first_seq :: "rules \<Rightarrow> terminal_id \<Rightarrow> symbol list \<Rightarrow> bool" where
  "first_seq rs t [] = False"
| "first_seq rs t (X # w) = (first rs t X \<or> nullable rs X \<and> first_seq rs t w)"

section \<open>Derivations in context\<close>

lemma derive_context: "derive rs u v \<Longrightarrow> derive rs (x @ u @ y) (x @ v @ y)"
proof (induction rule: derive.induct)
  case (expand n rhs u v)
  then show ?case using derive.expand [of n rhs rs "x @ u" "v @ y"] by simp
next
  case (erase u v)
  then show ?case using derive.erase [of rs "x @ u" "v @ y"] by simp
qed

lemma derives_context: "derives rs u v \<Longrightarrow> derives rs (x @ u @ y) (x @ v @ y)"
proof (induction rule: rtranclp_induct)
  case (step v w)
  then show ?case by (meson derive_context rtranclp.rtrancl_into_rtrancl)
qed simp

lemma derives_append: "derives rs u u' \<Longrightarrow> derives rs v v' \<Longrightarrow> derives rs (u @ v) (u' @ v')"
  using derives_context [of rs u u' "[]" v] derives_context [of rs v v' u' "[]"]
  by (simp add: rtranclp_trans)

lemma derives_rule: "(n, rhs) \<in> set rs \<Longrightarrow> derives rs [N n] rhs"
  using derive.expand [of n rhs rs "[]" "[]"] by auto

lemma derives_Epsilon: "derives rs [Epsilon] []"
  using derive.erase [of rs "[]" "[]"] by auto

lemma derives_empty: "\<forall>X \<in> set w. derives rs [X] [] \<Longrightarrow> derives rs w []"
proof (induction w)
  case (Cons X w)
  then show ?case using derives_append [of rs "[X]" "[]" w "[]"] by simp
qed simp

section \<open>Nullable symbols derive the empty string\<close>

lemma nullable_derives: "nullable rs X \<Longrightarrow> derives rs [X] []"
proof (induction rule: nullable.induct)
  case (nullable_N n rhs)
  then show ?case using derives_rule [of n rhs rs] derives_empty [of rhs rs] by (meson rtranclp_trans)
qed (simp add: derives_Epsilon)

lemma derives_nullable: "derives rs w [] \<Longrightarrow> \<forall>X \<in> set w. nullable rs X"
proof (induction rule: converse_rtranclp_induct)
  case (step w w')
  then show ?case by (induction rule: derive.induct) (auto intro: nullable_N)
qed simp

lemma nullable_iff: "nullable rs X \<longleftrightarrow> derives rs [X] []"
  using nullable_derives derives_nullable by fastforce

section \<open>FIRST\<close>

lemma first_seq_append: "first_seq rs t (u @ v) \<longleftrightarrow> first_seq rs t u \<or> (\<forall>X \<in> set u. nullable rs X) \<and> first_seq rs t v"
  by (induction u) auto

lemma first_seq_split: "first_seq rs t w \<longleftrightarrow> (\<exists>u X v. w = u @ X # v \<and> (\<forall>Y \<in> set u. nullable rs Y) \<and> first rs t X)"
proof
  assume "first_seq rs t w"
  then show "\<exists>u X v. w = u @ X # v \<and> (\<forall>Y \<in> set u. nullable rs Y) \<and> first rs t X"
  proof (induction w)
    case (Cons Z w)
    show ?case
    proof (cases "first rs t Z")
      case True
      then show ?thesis by (intro exI [of _ "[]"]) simp
    next
      case False
      then obtain u X v where "nullable rs Z" "w = u @ X # v" "\<forall>Y \<in> set u. nullable rs Y" "first rs t X"
        using Cons by auto
      then show ?thesis by (intro exI [of _ "Z # u"]) simp
    qed
  qed simp
qed (auto simp: first_seq_append)

lemma first_N_rule: "first rs t (N n) \<longleftrightarrow> (\<exists>rhs. (n, rhs) \<in> set rs \<and> first_seq rs t rhs)"
  by (auto simp: first_N_iff first_seq_split)

lemma first_derives: "first rs t X \<Longrightarrow> \<exists>v. derives rs [X] (T t # v)"
proof (induction rule: first.induct)
  case (first_N n u X v)
  then obtain x where x: "derives rs [X] (T t # x)" by blast
  have "derives rs u []" using first_N.hyps(2) by (simp add: derives_empty nullable_derives)
  then have "derives rs (u @ [X] @ v) ([] @ (T t # x) @ v)" using x by (intro derives_append) auto
  then show ?case using derives_rule [OF first_N.hyps(1)] rtranclp_trans [of "derive rs" "[N n]"] by fastforce
qed blast

lemma first_seq_derives:
  assumes "first_seq rs t w" shows "\<exists>v. derives rs w (T t # v)"
proof -
  obtain u X v where w: "w = u @ X # v" "\<forall>Y \<in> set u. nullable rs Y" "first rs t X"
    using assms by (auto simp: first_seq_split)
  obtain x where "derives rs [X] (T t # x)" using first_derives [OF w(3)] by blast
  moreover have "derives rs u []" using w(2) by (simp add: derives_empty nullable_derives)
  ultimately have "derives rs (u @ [X] @ v) ([] @ (T t # x) @ v)" by (intro derives_append) auto
  then show ?thesis using w(1) by auto
qed

lemma derive_first_seq: "derive rs w w' \<Longrightarrow> first_seq rs t w' \<Longrightarrow> first_seq rs t w"
proof (induction rule: derive.induct)
  case (expand n rhs u v)
  then show ?case by (auto simp: first_seq_append first_N_rule intro: nullable_N)
qed (auto simp: first_seq_append)

lemma derives_first_seq: "derives rs w w' \<Longrightarrow> first_seq rs t w' \<Longrightarrow> first_seq rs t w"
  by (induction rule: converse_rtranclp_induct) (auto intro: derive_first_seq)

lemma first_seq_iff: "first_seq rs t w \<longleftrightarrow> (\<exists>v. derives rs w (T t # v))"
  using first_seq_derives derives_first_seq [of rs w _ t] by fastforce

lemma first_iff: "first rs t X \<longleftrightarrow> (\<exists>v. derives rs [X] (T t # v))"
  using first_seq_iff [of rs t "[X]"] by simp

end
