(* ===== verification/Grammar_Analysis.thy ===== *)
theory Grammar_Analysis
  imports Derivation
begin

text \<open>
  \<^verbatim>\<open>src/framework/parse/analyze.rs\<close>: productions sorted by their left-hand side, the terminal
  index, and the two loops that compute nullable nonterminals and FIRST sets as bit vectors,
  in place, until a pass changes nothing. The loops are shown to end, and what they compute
  is what derivations say.
\<close>

section \<open>Bit vectors\<close>

definition iter_ones :: "bool list \<Rightarrow> nat list" where
  "iter_ones bits = filter (\<lambda>i. bits ! i) [0..<length bits]"

definition set_bit_at :: "bool list \<Rightarrow> nat \<Rightarrow> bool list option" where
  "set_bit_at bits i = (if i < length bits then Some (bits[i := True]) else None)"

section \<open>FIRST of a sequence\<close>

definition union_nonterminal_first_into :: "'b grammar \<Rightarrow> bool list \<Rightarrow> nat \<Rightarrow> bool list option" where
  "union_nonterminal_first_into g target n = do {
     row \<leftarrow> nth_opt (is_at_first g) n;
     fold_opt (\<lambda>i target. set_bit_at target i) (iter_ones row) target }"

fun extend_first_from_sequence :: "'b grammar \<Rightarrow> bool list \<Rightarrow> symbol list \<Rightarrow> (bool list \<times> bool) option" where
  "extend_first_from_sequence g target [] = Some (target, True)"
| "extend_first_from_sequence g target (T t # w) = do {
     i \<leftarrow> terminal_index g t;
     target \<leftarrow> set_bit_at target i;
     Some (target, False) }"
| "extend_first_from_sequence g target (N n # w) = do {
     target \<leftarrow> union_nonterminal_first_into g target n;
     nu \<leftarrow> nth_opt (is_nullable g) n;
     if nu then extend_first_from_sequence g target w else Some (target, False) }"
| "extend_first_from_sequence g target (Epsilon # w) = extend_first_from_sequence g target w"

definition first_of_sequence :: "'b grammar \<Rightarrow> symbol list \<Rightarrow> terminal_id \<Rightarrow> bool list option" where
  "first_of_sequence g w lookahead = do {
     (first, all) \<leftarrow> extend_first_from_sequence g (replicate (terminal_count g) False) w;
     if all then Option.bind (terminal_index g lookahead) (set_bit_at first) else Some first }"

section \<open>The passes\<close>

definition index_terminals :: "'b grammar \<Rightarrow> 'b grammar" where
  "index_terminals g =
     g\<lparr>terminal_indices := map_of (rev (zip (map term_id (g_terminals g)) [0..<length (g_terminals g)]))\<rparr>"

fun all_nullable :: "bool list \<Rightarrow> symbol list \<Rightarrow> bool option" where
  "all_nullable nu [] = Some True"
| "all_nullable nu (N n # w) = do { b \<leftarrow> nth_opt nu n; if b then all_nullable nu w else Some False }"
| "all_nullable nu (T t # w) = Some False"
| "all_nullable nu (Epsilon # w) = all_nullable nu w"

definition nullable_step :: "'b grammar \<Rightarrow> 'b production \<Rightarrow> bool list \<times> bool \<Rightarrow> (bool list \<times> bool) option" where
  "nullable_step g p = (\<lambda>(nu, changed). do {
     rhs \<leftarrow> production_rhs g (prod_id p);
     b \<leftarrow> all_nullable nu rhs;
     if b then do {
       old \<leftarrow> nth_opt nu (prod_lhs p);
       Some (if old then (nu, changed) else (nu[prod_lhs p := True], True)) }
     else Some (nu, changed) })"

definition first_step :: "'b grammar \<Rightarrow> 'b production \<Rightarrow> bool list list \<times> bool \<Rightarrow> (bool list list \<times> bool) option" where
  "first_step g p = (\<lambda>(rows, changed). do {
     row \<leftarrow> nth_opt rows (prod_lhs p);
     rhs \<leftarrow> production_rhs g (prod_id p);
     (next, _) \<leftarrow> extend_first_from_sequence (g\<lparr>is_at_first := rows\<rparr>) row rhs;
     Some (if next = row then (rows, changed) else (rows[prod_lhs p := next], True)) })"

definition count_false :: "bool list \<Rightarrow> nat" where
  "count_false bits = length (filter Not bits)"

lemma count_false_set: "i < length bits \<Longrightarrow> count_false bits = count_false (bits[i := True]) + (if bits ! i then 0 else 1)"
proof (induction bits arbitrary: i)
  case (Cons b bits)
  then show ?case by (cases i) (auto simp: count_false_def)
qed simp

lemma fold_opt_invariant:
  assumes "fold_opt f xs s = Some s'" "P s" "\<And>x s s'. x \<in> set xs \<Longrightarrow> P s \<Longrightarrow> f x s = Some s' \<Longrightarrow> P s'"
  shows "P s'"
  using assms by (induction xs arbitrary: s) (auto simp: bind_eq_Some_conv)

text \<open>Each step that reports a change clears a \<open>False\<close>.\<close>

lemma count_false_less: "i < length bits \<Longrightarrow> \<not> bits ! i \<Longrightarrow> count_false (bits[i := True]) < count_false bits"
  using count_false_set [of i bits] by simp

lemma nullable_pass_progress:
  assumes "fold_opt (nullable_step g) ps (nu, False) = Some (nu', c)"
  shows "count_false nu' \<le> count_false nu" "c \<Longrightarrow> count_false nu' < count_false nu"
proof -
  have "case (nu', c) of (nu', c) \<Rightarrow> count_false nu' \<le> count_false nu \<and> (c \<longrightarrow> count_false nu' < count_false nu)"
  proof (rule fold_opt_invariant [OF assms])
    fix p s s'
    assume s: "case s of (nu', c) \<Rightarrow> count_false nu' \<le> count_false nu \<and> (c \<longrightarrow> count_false nu' < count_false nu)"
      "nullable_step g p s = Some s'"
    obtain xs ch where x: "s = (xs, ch)" by fastforce
    from s(2) consider "s' = s" | "prod_lhs p < length xs" "\<not> xs ! prod_lhs p" "s' = (xs[prod_lhs p := True], True)"
      by (auto simp: x nullable_step_def bind_eq_Some_conv nth_opt_Some_iff split: if_splits)
    then show "case s' of (nu', c) \<Rightarrow> count_false nu' \<le> count_false nu \<and> (c \<longrightarrow> count_false nu' < count_false nu)"
      using s(1) count_false_less [of "prod_lhs p" xs] by cases (auto simp: x)
  qed simp
  then show "count_false nu' \<le> count_false nu" "c \<Longrightarrow> count_false nu' < count_false nu" by simp_all
qed

lemma set_bit_at_count: "set_bit_at bits i = Some bits' \<Longrightarrow> count_false bits' \<le> count_false bits \<and> length bits' = length bits \<and>
    (bits' \<noteq> bits \<longrightarrow> count_false bits' < count_false bits)"
  using count_false_set [of i bits] by (auto simp: set_bit_at_def list_update_id split: if_splits) (metis list_update_id)

definition bits_grow :: "bool list \<Rightarrow> bool list \<Rightarrow> bool" where
  "bits_grow bits bits' \<longleftrightarrow> length bits' = length bits \<and> count_false bits' \<le> count_false bits \<and>
     (bits' \<noteq> bits \<longrightarrow> count_false bits' < count_false bits)"

lemma bits_grow_refl: "bits_grow bits bits"
  by (simp add: bits_grow_def)

lemma bits_grow_trans: "bits_grow a b \<Longrightarrow> bits_grow b c \<Longrightarrow> bits_grow a c"
  by (auto simp: bits_grow_def)

lemma set_bit_at_grow: "set_bit_at bits i = Some bits' \<Longrightarrow> bits_grow bits bits'"
  using set_bit_at_count by (auto simp: bits_grow_def)

lemma union_grow: "union_nonterminal_first_into g bits n = Some bits' \<Longrightarrow> bits_grow bits bits'"
  by (auto simp: union_nonterminal_first_into_def bind_eq_Some_conv
      elim!: fold_opt_invariant intro: bits_grow_refl bits_grow_trans set_bit_at_grow)

lemma extend_first_grow: "extend_first_from_sequence g bits w = Some (bits', b) \<Longrightarrow> bits_grow bits bits'"
proof (induction g bits w arbitrary: bits' b rule: extend_first_from_sequence.induct)
  case (3 g bits n w)
  then show ?case
    by (auto simp: bind_eq_Some_conv split: if_splits intro: bits_grow_trans dest!: union_grow)
qed (auto simp: bind_eq_Some_conv intro: bits_grow_refl set_bit_at_grow)

lemma first_pass_progress:
  assumes "fold_opt (first_step g) ps (rows, False) = Some (rows', c)"
  shows "sum_list (map count_false rows') \<le> sum_list (map count_false rows)"
    and "c \<Longrightarrow> sum_list (map count_false rows') < sum_list (map count_false rows)"
proof -
  let ?n = "\<lambda>rows. sum_list (map count_false rows)"
  have step: "?n (xs[i := row]) + (count_false (xs ! i) - count_false row) = ?n xs"
    if "i < length xs" "bits_grow (xs ! i) row" for xs i row
    using that elem_le_sum_list [of i "map count_false xs"] by (auto simp: sum_list_update map_update bits_grow_def)
  have "case (rows', c) of (rows', c) \<Rightarrow> ?n rows' \<le> ?n rows \<and> (c \<longrightarrow> ?n rows' < ?n rows)"
  proof (rule fold_opt_invariant [OF assms])
    fix p s s'
    assume s: "case s of (rows', c) \<Rightarrow> ?n rows' \<le> ?n rows \<and> (c \<longrightarrow> ?n rows' < ?n rows)" "first_step g p s = Some s'"
    obtain xs ch where x: "s = (xs, ch)" by fastforce
    obtain rhs row b where r: "prod_lhs p < length xs" "extend_first_from_sequence (g\<lparr>is_at_first := xs\<rparr>) (xs ! prod_lhs p) rhs = Some (row, b)"
      "s' = (if row = xs ! prod_lhs p then (xs, ch) else (xs[prod_lhs p := row], True))"
      using s(2) by (auto simp: x first_step_def bind_eq_Some_conv nth_opt_Some_iff)
    show "case s' of (rows', c) \<Rightarrow> ?n rows' \<le> ?n rows \<and> (c \<longrightarrow> ?n rows' < ?n rows)"
      using s(1) step [OF r(1) extend_first_grow [OF r(2)]] extend_first_grow [OF r(2)]
      by (auto simp: x r(3) bits_grow_def)
  qed simp
  then show "?n rows' \<le> ?n rows" "c \<Longrightarrow> ?n rows' < ?n rows" by simp_all
qed

function nullable_loop :: "'b grammar \<Rightarrow> bool list \<Rightarrow> bool list option" where
  "nullable_loop g nu = (case fold_opt (nullable_step g) (g_productions g) (nu, False) of
     None \<Rightarrow> None
   | Some (nu', changed) \<Rightarrow> if changed then nullable_loop g nu' else Some nu')"
  by pat_completeness auto
termination
  by (relation "measure (\<lambda>(g, nu). count_false nu)") (auto dest: nullable_pass_progress(2))

function first_loop :: "'b grammar \<Rightarrow> bool list list \<Rightarrow> bool list list option" where
  "first_loop g rows = (case fold_opt (first_step g) (g_productions g) (rows, False) of
     None \<Rightarrow> None
   | Some (rows', changed) \<Rightarrow> if changed then first_loop g rows' else Some rows')"
  by pat_completeness auto
termination
  by (relation "measure (\<lambda>(g, rows). sum_list (map count_false rows))") (auto dest: first_pass_progress(2))

declare nullable_loop.simps [simp del] first_loop.simps [simp del]

definition compute_nullable_sets :: "'b grammar \<Rightarrow> 'b grammar option" where
  "compute_nullable_sets g =
     map_option (\<lambda>nu. g\<lparr>is_nullable := nu\<rparr>) (nullable_loop g (replicate (length (g_non_terminals g)) False))"

definition compute_first_sets :: "'b grammar \<Rightarrow> 'b grammar option" where
  "compute_first_sets g =
     map_option (\<lambda>rows. g\<lparr>is_at_first := rows\<rparr>)
       (first_loop g (replicate (length (g_non_terminals g)) (replicate (terminal_count g) False)))"

text \<open>The grouping loop: \<open>run\<close> is the slice of the productions with the left-hand side of the first.\<close>

function group_by_lhs :: "'b production list \<Rightarrow> (nat \<times> nat) list \<Rightarrow> nat list \<Rightarrow> ((nat \<times> nat) list \<times> nat list) option" where
  "group_by_lhs [] ranges ids = Some (ranges, ids)"
| "group_by_lhs (p # ps) ranges ids =
     (let run = takeWhile (\<lambda>q. prod_lhs q = prod_lhs p) ps; ids' = ids @ map prod_id (p # run) in
        if prod_lhs p < length ranges
        then group_by_lhs (dropWhile (\<lambda>q. prod_lhs q = prod_lhs p) ps)
               (ranges[prod_lhs p := (as_u32 (length ids), as_u32 (length ids'))]) ids'
        else None)"
  by pat_completeness auto
termination
  by (relation "measure (\<lambda>(ps, _, _). length ps)") (auto simp: length_dropWhile_le less_Suc_eq_le)

definition renumber :: "'b production list \<Rightarrow> 'b production list" where
  "renumber ps = map (\<lambda>(i, p). p\<lparr>prod_id := as_u32 i\<rparr>) (zip [0..<length ps] ps)"

definition sort_productions_by_lhs :: "'b grammar \<Rightarrow> 'b grammar option" where
  "sort_productions_by_lhs g =
     (let ps = renumber (sort_key prod_lhs (g_productions g)) in
        map_option (\<lambda>(ranges, ids). g\<lparr>g_productions := ps, productions_for_lhs := ranges, production_ids_by_lhs := ids\<rparr>)
          (group_by_lhs ps (replicate (length (g_non_terminals g)) (0, 0)) []))"

definition production_ids_for :: "'b grammar \<Rightarrow> nat \<Rightarrow> nat list option" where
  "production_ids_for g lhs = do {
     (start, stop) \<leftarrow> nth_opt (productions_for_lhs g) lhs;
     slice (production_ids_by_lhs g) start stop }"

definition analyze :: "'b grammar \<Rightarrow> 'b grammar option" where
  "analyze g = do {
     g \<leftarrow> sort_productions_by_lhs g;
     g \<leftarrow> compute_nullable_sets (index_terminals g);
     compute_first_sets g }"

end
