(* ===== verification/Analysis_Correct.thy ===== *)
theory Analysis_Correct
  imports Grammar_Analysis
begin

text \<open>
  \<^verbatim>\<open>Grammar::analyze\<close> on a well-formed grammar returns, and its bit vectors are the nullable and
  FIRST sets of the grammar's derivations. Sorting keeps the rules up to a stable reordering,
  and \<^verbatim>\<open>production_ids_by_lhs\<close> lists the productions of each nonterminal.
\<close>

section \<open>Sorting by left-hand side\<close>

lemma renumber_nth: "i < length ps \<Longrightarrow> renumber ps ! i = (ps ! i)\<lparr>prod_id := as_u32 i\<rparr>"
  by (simp add: renumber_def)

lemma renumber_map:
  assumes "\<And>p i. f (p\<lparr>prod_id := i\<rparr>) = f p" shows "map f (renumber ps) = map f ps"
  by (rule nth_equalityI) (simp_all add: renumber_nth assms renumber_def)

lemma length_renumber [simp]: "length (renumber ps) = length ps"
  by (simp add: renumber_def)

lemma set_renumber: "q \<in> set (renumber ps) \<longleftrightarrow> (\<exists>i < length ps. q = (ps ! i)\<lparr>prod_id := as_u32 i\<rparr>)"
  by (auto simp: in_set_conv_nth renumber_nth)

definition ranges_ok :: "'b production list \<Rightarrow> (nat \<times> nat) list \<Rightarrow> nat list \<Rightarrow> bool" where
  "ranges_ok ps ranges ids \<longleftrightarrow> ids = map prod_id ps \<and>
     (\<forall>n < length ranges. slice ids (fst (ranges ! n)) (snd (ranges ! n)) = Some (map prod_id (filter (\<lambda>p. prod_lhs p = n) ps)))"

lemma sorted_rest:
  assumes "sorted (map f (p # ps))" "q \<in> set (dropWhile (\<lambda>q. f q = f p) ps)"
  shows "f p < (f q :: nat)"
  using assms
proof (induction ps)
  case (Cons r ps)
  then show ?case by (cases "f r = f p") fastforce+
qed simp

lemma group_by_lhs_correct:
  assumes "ranges_ok done ranges ids" "sorted (map prod_lhs ps)" "\<forall>p \<in> set done. \<forall>q \<in> set ps. prod_lhs p < prod_lhs q"
    and "\<forall>p \<in> set ps. prod_lhs p < length ranges" "length (done @ ps) < 2 ^ 32"
  shows "\<exists>ranges' ids'. group_by_lhs ps ranges ids = Some (ranges', ids') \<and> ranges_ok (done @ ps) ranges' ids' \<and>
    length ranges' = length ranges"
  using assms
proof (induction ps ranges ids arbitrary: "done" rule: group_by_lhs.induct)
  case (2 p ps ranges ids)
  define more where "more = takeWhile (\<lambda>q. prod_lhs q = prod_lhs p) ps"
  define rest where "rest = dropWhile (\<lambda>q. prod_lhs q = prod_lhs p) ps"
  define ids' where "ids' = ids @ map prod_id (p # more)"
  let ?r = "ranges[prod_lhs p := (as_u32 (length ids), as_u32 (length ids'))]"
  have split: "ps = more @ rest" by (simp add: more_def rest_def)
  have run: "prod_lhs q = prod_lhs p" if "q \<in> set (p # more)" for q
    using that set_takeWhileD [of q _ ps] by (auto simp: more_def)
  have later: "prod_lhs p < prod_lhs q" if "q \<in> set rest" for q
    using sorted_rest [of prod_lhs p ps q] "2.prems"(2) that by (simp add: rest_def)
  have len: "as_u32 (length ids) = length ids" "as_u32 (length ids') = length ids'"
    using "2.prems"(1,5) by (auto simp: ranges_ok_def ids'_def split)
  have "slice ids' (fst (?r ! n)) (snd (?r ! n)) = Some (map prod_id (filter (\<lambda>p. prod_lhs p = n) (done @ p # more)))"
    if n: "n < length ranges" for n
  proof (cases "n = prod_lhs p")
    case True
    have "filter (\<lambda>p. prod_lhs p = n) done = []" using "2.prems"(3) True by (fastforce simp: filter_empty_conv)
    moreover have "filter (\<lambda>p. prod_lhs p = n) (p # more) = p # more"
      unfolding True by (rule filter_True) (use run in blast)
    ultimately show ?thesis using True n len slice_at_end [of ids "map prod_id (p # more)"] by (simp add: ids'_def)
  next
    case False
    have "filter (\<lambda>p. prod_lhs p = n) (p # more) = []"
      unfolding filter_empty_conv using run False by blast
    moreover have "slice ids (fst (ranges ! n)) (snd (ranges ! n)) = Some (map prod_id (filter (\<lambda>p. prod_lhs p = n) done))"
      using "2.prems"(1) n unfolding ranges_ok_def by blast
    moreover from slice_append [OF this, of "map prod_id (p # more)"] have
      "slice ids' (fst (ranges ! n)) (snd (ranges ! n)) = Some (map prod_id (filter (\<lambda>p. prod_lhs p = n) done))"
      by (simp add: ids'_def)
    ultimately show ?thesis using False by simp
  qed
  then have "ranges_ok (done @ p # more) ?r ids'" using "2.prems"(1) by (simp add: ranges_ok_def ids'_def)
  moreover have "sorted (map prod_lhs rest)" using "2.prems"(2) by (simp add: split sorted_append)
  moreover have "\<forall>a \<in> set (done @ p # more). \<forall>q \<in> set rest. prod_lhs a < prod_lhs q"
  proof (intro ballI)
    fix a q assume "a \<in> set (done @ p # more)" "q \<in> set rest"
    then show "prod_lhs a < prod_lhs q" using run [of a] later [of q] "2.prems"(3) by (cases "a \<in> set done") (auto simp: split)
  qed
  moreover have "length ((done @ p # more) @ rest) < 2 ^ 32" "\<forall>q \<in> set rest. prod_lhs q < length ?r" "prod_lhs p < length ranges"
    using "2.prems"(4,5) by (auto simp: split)
  ultimately obtain ranges' ids'' where "group_by_lhs rest ?r ids' = Some (ranges', ids'')"
      "ranges_ok ((done @ p # more) @ rest) ranges' ids''" "length ranges' = length ?r"
    using "2.IH" [OF refl refl, folded more_def rest_def, folded ids'_def, of "done @ p # more"] by blast
  then show ?case using \<open>prod_lhs p < length ranges\<close>
    unfolding group_by_lhs.simps Let_def more_def [symmetric] rest_def [symmetric] ids'_def [symmetric]
    by (simp add: split)
qed auto

lemma rule_of_renumbered: "rule_of symbols (p\<lparr>prod_id := i\<rparr>) = rule_of symbols p"
  by (simp add: rule_of_def)

lemma production_ok_renumbered: "production_ok symbols ts n (p\<lparr>prod_id := i\<rparr>) = production_ok symbols ts n p"
  by (simp add: production_ok_def)

text \<open>The augmented production stays in front.\<close>

lemma sort_key_head:
  assumes "\<forall>q \<in> set ps. f p < (f q :: 'k :: linorder)"
  shows "sort_key f (p # ps) = p # sort_key f ps"
proof -
  have "insort_key f p xs = p # xs" if "\<forall>q \<in> set xs. f p < f q" for xs using that by (cases xs) auto
  then show ?thesis using assms by simp
qed

lemma sort_key_map: "sort_key f (map h ps) = map h (sort_key (f \<circ> h) ps)"
proof (induction ps)
  case (Cons p ps)
  have "insort_key f (h p) (map h xs) = map h (insort_key (\<lambda>a. f (h a)) p xs)" for xs by (induction xs) auto
  then show ?case using Cons by (simp add: comp_def)
qed simp

definition productions_listed :: "'b grammar \<Rightarrow> bool" where
  "productions_listed g \<longleftrightarrow> (\<forall>n < length (g_non_terminals g). production_ids_for g n =
     Some (filter (\<lambda>i. fst (grammar_rules g ! i) = n) [0..<length (grammar_rules g)]))"

lemma ids_of_lhs:
  assumes "\<forall>i < length ps. prod_id (ps ! i) = i"
  shows "map prod_id (filter (\<lambda>p. prod_lhs p = n) ps) = filter (\<lambda>i. prod_lhs (ps ! i) = n) [0..<length ps]"
proof -
  have "filter (\<lambda>p. prod_lhs p = n) (map (\<lambda>i. ps ! i) [0..<length ps]) =
      map (\<lambda>i. ps ! i) (filter (\<lambda>i. prod_lhs (ps ! i) = n) [0..<length ps])"
    by (simp add: filter_map comp_def)
  then have "map prod_id (filter (\<lambda>p. prod_lhs p = n) ps) =
      map (\<lambda>i. prod_id (ps ! i)) (filter (\<lambda>i. prod_lhs (ps ! i) = n) [0..<length ps])"
    by (simp add: map_nth comp_def)
  also have "\<dots> = filter (\<lambda>i. prod_lhs (ps ! i) = n) [0..<length ps]"
    using assms by (intro map_idI) auto
  finally show ?thesis .
qed

lemma sort_productions_correct:
  assumes "grammar_ok g"
  shows "\<exists>g'. sort_productions_by_lhs g = Some g' \<and> grammar_ok g' \<and> productions_listed g' \<and>
    grammar_rules g' = sort_key fst (grammar_rules g) \<and> g_terminals g' = g_terminals g \<and> g_eof g' = g_eof g \<and>
    g_non_terminals g' = g_non_terminals g"
proof -
  let ?n = "length (g_non_terminals g)" and ?ts = "g_terminal_ids g" and ?xs = "g_rhs_symbols g"
  have small: "length (g_productions g) < 2 ^ 32" using assms by (simp add: grammar_ok_def)
  let ?qs = "sort_key prod_lhs (g_productions g)"
  define ps where "ps = renumber ?qs"
  have ok: "\<forall>p \<in> set (g_productions g). production_ok ?xs ?ts ?n p"
    using assms(1) by (simp add: grammar_ok_def productions_ok_def)
  obtain p rest where p: "g_productions g = p # rest" "prod_lhs p = 0" "\<forall>q \<in> set rest. prod_lhs q \<noteq> 0"
    using assms(1) by (cases "g_productions g") (auto simp: grammar_ok_def productions_ok_def)
  have qs: "?qs = p # sort_key prod_lhs rest" unfolding p(1) by (rule sort_key_head) (use p in auto)
  have len: "length ps = length (g_productions g)" by (simp add: ps_def)
  have ids: "\<forall>i < length ps. prod_id (ps ! i) = i" using small by (simp add: ps_def renumber_nth)
  have lhs: "map prod_lhs ps = map prod_lhs ?qs" by (simp add: ps_def renumber_map)
  have each: "\<forall>q \<in> set ps. production_ok ?xs ?ts ?n q"
    using ok by (auto simp: ps_def set_renumber production_ok_renumbered) (metis length_sort nth_mem set_sort)
  have "\<exists>ranges ids. group_by_lhs ps (replicate ?n (0, 0)) [] = Some (ranges, ids) \<and> ranges_ok ([] @ ps) ranges ids \<and>
      length ranges = length (replicate ?n (0, 0) :: (nat \<times> nat) list)"
    by (rule group_by_lhs_correct)
      (use each len small in \<open>auto simp: ranges_ok_def slice_def lhs production_ok_def\<close>)
  then obtain ranges ids' where r: "group_by_lhs ps (replicate ?n (0, 0)) [] = Some (ranges, ids')" "ranges_ok ps ranges ids'"
    "length ranges = ?n" by auto
  let ?g = "g\<lparr>g_productions := ps, productions_for_lhs := ranges, production_ids_by_lhs := ids'\<rparr>"
  have rules: "grammar_rules ?g = sort_key fst (grammar_rules g)"
    by (simp add: grammar_rules_def ps_def renumber_map rule_of_renumbered sort_key_map comp_def) (simp add: rule_of_def)
  have hd: "prod_lhs (hd ps) = 0" "\<forall>q \<in> set (tl ps). prod_lhs q \<noteq> 0"
  proof -
    have "map prod_lhs ps = 0 # map prod_lhs (sort_key prod_lhs rest)" using lhs qs p(2) by simp
    then show "prod_lhs (hd ps) = 0" by (cases ps) auto
    have "map prod_lhs (tl ps) = map prod_lhs (sort_key prod_lhs rest)" using lhs qs by (simp add: map_tl)
    then have "prod_lhs ` set (tl ps) = prod_lhs ` set rest" by (metis set_map set_sort)
    then show "\<forall>q \<in> set (tl ps). prod_lhs q \<noteq> 0" using p(3) by (metis image_iff)
  qed
  have "ps \<noteq> []" using len p(1) by auto
  then have ok': "grammar_ok ?g"
    using assms(1) ids each hd len by (simp add: grammar_ok_def productions_ok_def g_terminal_ids_def)
  have "production_ids_for ?g n = Some (filter (\<lambda>i. fst (grammar_rules ?g ! i) = n) [0..<length (grammar_rules ?g)])"
    if n: "n < ?n" for n
  proof -
    have "slice ids' (fst (ranges ! n)) (snd (ranges ! n)) = Some (map prod_id (filter (\<lambda>p. prod_lhs p = n) ps))"
      using r(2,3) n unfolding ranges_ok_def by metis
    moreover have "fst (grammar_rules ?g ! i) = prod_lhs (ps ! i)" if "i < length ps" for i
      using that by (simp add: grammar_rules_def rule_of_def)
    ultimately show ?thesis
      using n r(3) by (simp add: production_ids_for_def case_prod_beta ids_of_lhs [OF ids] grammar_rules_def cong: filter_cong)
        (rule filter_cong; simp)
  qed
  then have "productions_listed ?g" unfolding productions_listed_def by simp
  then show ?thesis
    using ok' rules r(1) by (intro exI [of _ ?g]) (simp add: sort_productions_by_lhs_def Let_def ps_def)
qed

section \<open>Passes that report whether they changed anything\<close>

definition flags_change :: "('x \<Rightarrow> 's \<times> bool \<Rightarrow> ('s \<times> bool) option) \<Rightarrow> 'x \<Rightarrow> bool" where
  "flags_change f x \<longleftrightarrow> (\<forall>s s' c. (f x (s, True) = Some (s', c) \<longrightarrow> c) \<and> (f x (s, False) = Some (s', False) \<longrightarrow> s' = s))"

lemma fold_flag_stays:
  "\<forall>x \<in> set xs. flags_change f x \<Longrightarrow> fold_opt f xs (s, True) = Some (s', c) \<Longrightarrow> c"
proof (induction xs arbitrary: s)
  case (Cons x xs)
  obtain t d where "f x (s, True) = Some (t, d)" "fold_opt f xs (t, d) = Some (s', c)"
    using Cons.prems(2) by (auto simp: bind_eq_Some_conv)
  moreover from this Cons.prems(1) have d unfolding flags_change_def by auto
  ultimately show ?case using Cons.IH [of t] Cons.prems(1) by simp
qed simp

lemma fold_unchanged:
  "\<forall>x \<in> set xs. flags_change f x \<Longrightarrow> fold_opt f xs (s, False) = Some (s', False) \<Longrightarrow>
    s' = s \<and> (\<forall>x \<in> set xs. f x (s, False) = Some (s, False))"
proof (induction xs arbitrary: s)
  case (Cons x xs)
  obtain t c where t: "f x (s, False) = Some (t, c)" "fold_opt f xs (t, c) = Some (s', False)"
    using Cons.prems(2) by (auto simp: bind_eq_Some_conv)
  have "\<not> c" using fold_flag_stays [of xs f t s' False] Cons.prems(1) t(2) by (cases c) auto
  then have "t = s" using Cons.prems(1) t(1) unfolding flags_change_def by auto
  then show ?case using Cons.IH [of t] Cons.prems(1) t \<open>\<not> c\<close> by auto
qed simp

section \<open>Nullable nonterminals\<close>

abbreviation nts :: "'b grammar \<Rightarrow> nat" where
  "nts g \<equiv> length (g_non_terminals g)"

abbreviation known :: "'b grammar \<Rightarrow> symbol \<Rightarrow> bool" where
  "known g \<equiv> symbol_known (g_terminal_ids g) (nts g)"

fun nu_sat :: "bool list \<Rightarrow> symbol \<Rightarrow> bool" where
  "nu_sat nu (T t) = False"
| "nu_sat nu (N n) = nu ! n"
| "nu_sat nu Epsilon = True"

lemma all_nullable_eq: "\<forall>X \<in> set w. symbol_known ts (length nu) X \<Longrightarrow> all_nullable nu w = Some (\<forall>X \<in> set w. nu_sat nu X)"
  by (induction nu w rule: all_nullable.induct) auto

text \<open>What a production contributes, by its place in the sorted list.\<close>

lemma production_facts:
  assumes "grammar_ok g" "p \<in> set (g_productions g)"
  obtains rhs where "production_rhs g (prod_id p) = Some rhs" "(prod_lhs p, rhs) \<in> set (grammar_rules g)"
    "prod_lhs p < nts g" "\<forall>X \<in> set rhs. known g X"
proof -
  obtain i where i: "i < length (g_productions g)" "p = g_productions g ! i" using assms(2) by (metis in_set_conv_nth)
  then have id: "prod_id p = i" using assms(1) by (simp add: grammar_ok_def productions_ok_def)
  let ?r = "rule_of (g_rhs_symbols g) p"
  have "?r = (prod_lhs p, snd ?r)" "?r \<in> set (grammar_rules g)" using assms(2) by (auto simp: grammar_rules_def rule_of_def)
  then have r: "(prod_lhs p, snd ?r) \<in> set (grammar_rules g)" by metis
  have "production_rhs g i = Some (snd ?r)" using grammar_rhs_of [OF assms] i by (simp add: production_rhs_def)
  then show thesis
    using that [of "snd ?r"] r grammar_rules_known [OF assms(1) r] id by simp
qed

lemma rule_production:
  assumes "grammar_ok g" "(l, rhs) \<in> set (grammar_rules g)"
  obtains p where "p \<in> set (g_productions g)" "prod_lhs p = l" "production_rhs g (prod_id p) = Some rhs"
proof -
  obtain i where i: "i < length (g_productions g)" "rule_of (g_rhs_symbols g) (g_productions g ! i) = (l, rhs)"
    using assms(2) by (auto simp: grammar_rules_def in_set_conv_nth)
  then have "prod_id (g_productions g ! i) = i" using assms(1) by (simp add: grammar_ok_def productions_ok_def)
  moreover have "production_rhs g i = Some rhs"
    using grammar_rhs_nth [OF assms(1), of i] i by (simp add: grammar_rules_def)
  ultimately show thesis using that [of "g_productions g ! i"] i by (auto simp: rule_of_def)
qed

lemma nullable_step_eq:
  assumes "grammar_ok g" "p \<in> set (g_productions g)" "production_rhs g (prod_id p) = Some rhs" "length nu = nts g"
  shows "nullable_step g p (nu, c) =
    Some (if (\<forall>X \<in> set rhs. nu_sat nu X) \<and> \<not> nu ! prod_lhs p then (nu[prod_lhs p := True], True) else (nu, c))"
proof -
  have "prod_lhs p < nts g" "\<forall>X \<in> set rhs. known g X" using production_facts [OF assms(1,2)] assms(3) by auto
  then show ?thesis using assms(3,4) all_nullable_eq [of rhs "g_terminal_ids g" nu] by (simp add: nullable_step_def)
qed

definition nu_sound :: "'b grammar \<Rightarrow> bool list \<Rightarrow> bool" where
  "nu_sound g nu \<longleftrightarrow> length nu = nts g \<and> (\<forall>n < nts g. nu ! n \<longrightarrow> nullable (grammar_rules g) (N n))"

lemma nu_sat_sound: "nu_sound g nu \<Longrightarrow> known g X \<Longrightarrow> nu_sat nu X \<Longrightarrow> nullable (grammar_rules g) X"
  by (cases X) (auto simp: nu_sound_def)

lemma nullable_step_sound:
  assumes "grammar_ok g" "p \<in> set (g_productions g)" "nu_sound g (fst s)"
  shows "\<exists>s'. nullable_step g p s = Some s' \<and> nu_sound g (fst s')"
proof -
  obtain rhs where p: "production_rhs g (prod_id p) = Some rhs" "(prod_lhs p, rhs) \<in> set (grammar_rules g)"
      "prod_lhs p < nts g" "\<forall>X \<in> set rhs. known g X"
    using production_facts [OF assms(1,2)] by blast
  have "nullable (grammar_rules g) (N (prod_lhs p))" if "\<forall>X \<in> set rhs. nu_sat (fst s) X"
    using p(2,4) that nu_sat_sound [OF assms(3)] by (blast intro: nullable_N)
  then show ?thesis
    using nullable_step_eq [OF assms(1,2) p(1), of "fst s" "snd s"] assms(3) p(3)
    by (auto simp: nu_sound_def nth_list_update)
qed

lemma nullable_loop_correct:
  assumes "grammar_ok g" "nu_sound g nu"
  shows "\<exists>nu'. nullable_loop g nu = Some nu' \<and> nu_sound g nu' \<and>
    (\<forall>n < nts g. nullable (grammar_rules g) (N n) \<longrightarrow> nu' ! n)"
  using assms
proof (induction g nu rule: nullable_loop.induct)
  case (1 g nu)
  let ?pass = "fold_opt (nullable_step g) (g_productions g) (nu, False)"
  obtain nu' c where pass: "?pass = Some (nu', c)" "nu_sound g nu'"
    using fold_opt_total [of "g_productions g" "\<lambda>s. nu_sound g (fst s)" "nullable_step g" "(nu, False)"]
      nullable_step_sound [OF "1.prems"(1)] "1.prems"(2) by auto
  show ?case
  proof (cases c)
    case True
    then show ?thesis using "1.IH" [OF pass(1) refl] pass "1.prems"(1) by (subst nullable_loop.simps) simp
  next
    case False
    have "\<forall>p \<in> set (g_productions g). flags_change (nullable_step g) p"
      by (auto simp: flags_change_def nullable_step_def bind_eq_Some_conv split: if_splits)
    then have same: "nu' = nu" "\<And>p. p \<in> set (g_productions g) \<Longrightarrow> nullable_step g p (nu, False) = Some (nu, False)"
      using fold_unchanged [of "g_productions g" "nullable_step g" nu nu'] pass(1) False by auto
    have "nu_sat nu X" if "nullable (grammar_rules g) X" for X
      using that
    proof (induction rule: nullable.induct)
      case (nullable_N n rhs)
      obtain p where p: "p \<in> set (g_productions g)" "prod_lhs p = n" "production_rhs g (prod_id p) = Some rhs"
        using rule_production [OF "1.prems"(1) nullable_N(1)] .
      then show ?case
        using nullable_step_eq [OF "1.prems"(1) p(1,3), of nu False] same(2) [OF p(1)] "1.prems"(2) nullable_N(2)
        by (auto simp: nu_sound_def split: if_splits)
    qed simp
    then show ?thesis using pass False same(1) by (subst nullable_loop.simps) fastforce
  qed
qed

section \<open>FIRST sets\<close>

definition indexed :: "'b grammar \<Rightarrow> bool" where
  "indexed g \<longleftrightarrow> (\<forall>t i. terminal_indices g t = Some i \<longleftrightarrow> i < terminal_count g \<and> t = term_id (g_terminals g ! i))"

lemma indexed_known: "indexed g \<Longrightarrow> t \<in> g_terminal_ids g \<Longrightarrow> \<exists>i < terminal_count g. terminal_indices g t = Some i"
  by (auto simp: indexed_def g_terminal_ids_def in_set_conv_nth terminal_count_def)

lemma index_terminals_indexed:
  assumes "distinct (map term_id (g_terminals g))" shows "indexed (index_terminals g)"
proof -
  let ?ids = "map term_id (g_terminals g)"
  have "map_of (rev (zip ?ids [0..<length ?ids])) = map_of (zip ?ids [0..<length ?ids])"
    using assms by (intro map_of_rev_distinct) simp
  moreover have "map_of (zip ?ids [0..<length ?ids]) t = Some i \<longleftrightarrow> (t, i) \<in> set (zip ?ids [0..<length ?ids])" for t i
    using assms by (intro map_of_eq_Some_iff) simp
  moreover have "(t, i) \<in> set (zip ?ids [0..<length ?ids]) \<longleftrightarrow> i < length ?ids \<and> t = ?ids ! i" for t i
    by (auto simp: in_set_zip intro!: exI [of _ i])
  ultimately show ?thesis
    by (auto simp: indexed_def index_terminals_def terminal_count_def)
qed

lemma fold_set_bits:
  "\<forall>i \<in> set is. i < length bits \<Longrightarrow> \<exists>bits'. fold_opt (\<lambda>i target. set_bit_at target i) is bits = Some bits' \<and>
    length bits' = length bits \<and> (\<forall>j < length bits. bits' ! j \<longleftrightarrow> bits ! j \<or> j \<in> set is)"
proof (induction "is" arbitrary: bits)
  case (Cons i "is")
  have "\<forall>i \<in> set is. i < length (bits[i := True])" using Cons.prems by simp
  then show ?case using Cons.IH [of "bits[i := True]"] Cons.prems by (auto simp: set_bit_at_def nth_list_update)
qed simp

definition rows_ok :: "'b grammar \<Rightarrow> bool list list \<Rightarrow> bool" where
  "rows_ok g rows \<longleftrightarrow> length rows = nts g \<and> (\<forall>row \<in> set rows. length row = terminal_count g)"

fun bits_first :: "'b grammar \<Rightarrow> bool list list \<Rightarrow> symbol list \<Rightarrow> nat \<Rightarrow> bool" where
  "bits_first g rows [] i = False"
| "bits_first g rows (T t # w) i = (terminal_indices g t = Some i)"
| "bits_first g rows (N n # w) i = (rows ! n ! i \<or> is_nullable g ! n \<and> bits_first g rows w i)"
| "bits_first g rows (Epsilon # w) i = bits_first g rows w i"

lemma extend_first_spec:
  assumes "indexed g" "rows_ok g rows" "length (is_nullable g) = nts g" "\<forall>X \<in> set w. known g X" "length bits = terminal_count g"
  shows "\<exists>bits'. extend_first_from_sequence (g\<lparr>is_at_first := rows\<rparr>) bits w =
      Some (bits', \<forall>X \<in> set w. nu_sat (is_nullable g) X) \<and> length bits' = terminal_count g \<and>
    (\<forall>i < terminal_count g. bits' ! i \<longleftrightarrow> bits ! i \<or> bits_first g rows w i)"
  using assms(4,5)
proof (induction w arbitrary: bits)
  case (Cons X w)
  show ?case
  proof (cases X)
    case (T t)
    then obtain i where "i < terminal_count g" "terminal_indices g t = Some i"
      using indexed_known [OF assms(1)] Cons.prems(1) by auto
    then show ?thesis using T Cons.prems(2) by (auto simp: terminal_index_def set_bit_at_def nth_list_update)
  next
    case (N n)
    have n: "n < length rows" "length (rows ! n) = terminal_count g"
      using N Cons.prems(1) assms(2) by (auto simp: rows_ok_def)
    have "\<forall>i \<in> set (iter_ones (rows ! n)). i < length bits" using n Cons.prems(2) by (simp add: iter_ones_def)
    from fold_set_bits [OF this] obtain mid where mid:
      "union_nonterminal_first_into (g\<lparr>is_at_first := rows\<rparr>) bits n = Some mid" "length mid = terminal_count g"
      "\<forall>j < terminal_count g. mid ! j \<longleftrightarrow> bits ! j \<or> rows ! n ! j"
      using n Cons.prems(2) by (auto simp: union_nonterminal_first_into_def iter_ones_def)
    then show ?thesis
      using Cons.IH [of mid] N n Cons.prems assms(2,3) by (cases "is_nullable g ! n") (auto simp: rows_ok_def)
  next
    case Epsilon
    then show ?thesis using Cons by simp
  qed
qed simp

definition nu_exact :: "'b grammar \<Rightarrow> bool" where
  "nu_exact g \<longleftrightarrow> length (is_nullable g) = nts g \<and> (\<forall>n < nts g. is_nullable g ! n \<longleftrightarrow> nullable (grammar_rules g) (N n))"

lemma nu_exact_sat: "nu_exact g \<Longrightarrow> known g X \<Longrightarrow> nu_sat (is_nullable g) X \<longleftrightarrow> nullable (grammar_rules g) X"
  by (cases X) (auto simp: nu_exact_def)

abbreviation tid :: "'b grammar \<Rightarrow> nat \<Rightarrow> terminal_id" where
  "tid g i \<equiv> term_id (g_terminals g ! i)"

definition rows_sound :: "'b grammar \<Rightarrow> bool list list \<Rightarrow> bool" where
  "rows_sound g rows \<longleftrightarrow> rows_ok g rows \<and>
     (\<forall>n < nts g. \<forall>i < terminal_count g. rows ! n ! i \<longrightarrow> first (grammar_rules g) (tid g i) (N n))"

lemma bits_first_sound:
  assumes "indexed g" "nu_exact g" "rows_sound g rows" "\<forall>X \<in> set w. known g X" "i < terminal_count g" "bits_first g rows w i"
  shows "first_seq (grammar_rules g) (tid g i) w"
  using assms(4,6)
proof (induction w)
  case (Cons X w)
  then show ?case using assms(1-3,5) by (cases X) (auto simp: indexed_def nu_exact_def rows_sound_def)
qed simp

lemma bits_first_complete:
  assumes "indexed g" "nu_exact g" "\<forall>X \<in> set w. known g X" "i < terminal_count g" "first_seq (grammar_rules g) (tid g i) w"
    and "\<And>n. n < nts g \<Longrightarrow> first (grammar_rules g) (tid g i) (N n) \<Longrightarrow> rows ! n ! i"
  shows "bits_first g rows w i"
  using assms(3,5)
proof (induction w)
  case (Cons X w)
  then show ?case using assms(1,2,4,6) by (cases X) (auto simp: indexed_def nu_exact_def)
qed simp

lemma bits_first_skip:
  "nu_exact g \<Longrightarrow> known g X \<Longrightarrow> nullable (grammar_rules g) X \<Longrightarrow> bits_first g rows w i \<Longrightarrow> bits_first g rows (X # w) i"
  by (cases X) (auto simp: nu_exact_def)

definition nu_done :: "'b grammar \<Rightarrow> bool" where
  "nu_done g \<longleftrightarrow> grammar_ok g \<and> indexed g \<and> nu_exact g"

lemma first_step_eq:
  assumes "nu_done g" "p \<in> set (g_productions g)" "production_rhs g (prod_id p) = Some rhs" "rows_ok g rows"
  shows "\<exists>row. first_step g p (rows, c) = Some (if row = rows ! prod_lhs p then (rows, c) else (rows[prod_lhs p := row], True)) \<and>
    length row = terminal_count g \<and>
    (\<forall>i < terminal_count g. row ! i \<longleftrightarrow> rows ! prod_lhs p ! i \<or> bits_first g rows rhs i)"
proof -
  have p: "prod_lhs p < nts g" "\<forall>X \<in> set rhs. known g X"
    using production_facts [of g p] assms(1-3) by (auto simp: nu_done_def)
  then have "prod_lhs p < length rows" "length (rows ! prod_lhs p) = terminal_count g" using assms(4) by (auto simp: rows_ok_def)
  with extend_first_spec [of g rows rhs "rows ! prod_lhs p"] assms p show ?thesis
    by (auto simp: first_step_def nu_done_def nu_exact_def)
qed

lemma first_step_sound:
  assumes "nu_done g" "p \<in> set (g_productions g)" "rows_sound g (fst s)"
  shows "\<exists>s'. first_step g p s = Some s' \<and> rows_sound g (fst s')"
proof -
  have ok: "grammar_ok g" "indexed g" "nu_exact g" using assms(1) by (simp_all add: nu_done_def)
  obtain rhs where p: "production_rhs g (prod_id p) = Some rhs" "(prod_lhs p, rhs) \<in> set (grammar_rules g)"
      "prod_lhs p < nts g" "\<forall>X \<in> set rhs. known g X"
    using production_facts [OF ok(1) assms(2)] by blast
  have rows: "rows_ok g (fst s)" using assms(3) by (simp add: rows_sound_def)
  obtain row where row: "first_step g p (fst s, snd s) =
        Some (if row = fst s ! prod_lhs p then (fst s, snd s) else ((fst s)[prod_lhs p := row], True))"
      "length row = terminal_count g" "\<forall>i < terminal_count g. row ! i \<longleftrightarrow> fst s ! prod_lhs p ! i \<or> bits_first g (fst s) rhs i"
    using first_step_eq [OF assms(1,2) p(1) rows, of "snd s"] by blast
  have "first (grammar_rules g) (tid g i) (N (prod_lhs p))" if "i < terminal_count g" "row ! i" for i
  proof (cases "fst s ! prod_lhs p ! i")
    case True
    then show ?thesis using assms(3) p(3) that(1) by (simp add: rows_sound_def)
  next
    case False
    then have "first_seq (grammar_rules g) (tid g i) rhs"
      using bits_first_sound [OF ok(2,3) assms(3) p(4) that(1)] row(3) that by blast
    then show ?thesis using p(2) by (auto simp: first_N_rule)
  qed
  then have "first (grammar_rules g) (tid g i) (N n)"
    if "n < nts g" "i < terminal_count g" "(fst s)[prod_lhs p := row] ! n ! i" for n i
    using that assms(3) by (cases "n = prod_lhs p") (auto simp: rows_sound_def rows_ok_def)
  moreover have "rows_ok g ((fst s)[prod_lhs p := row])"
    using rows row(2) by (auto simp: rows_ok_def dest!: set_update_subset_insert [THEN subsetD])
  ultimately have "rows_sound g ((fst s)[prod_lhs p := row])" by (simp add: rows_sound_def)
  then show ?thesis using row(1) assms(3) by auto
qed

definition rows_exact :: "'b grammar \<Rightarrow> bool list list \<Rightarrow> bool" where
  "rows_exact g rows \<longleftrightarrow> rows_ok g rows \<and>
     (\<forall>n < nts g. \<forall>i < terminal_count g. rows ! n ! i \<longleftrightarrow> first (grammar_rules g) (tid g i) (N n))"

lemma known_terminal_index: "nu_done g \<Longrightarrow> t \<in> g_terminal_ids g \<Longrightarrow> \<exists>i < terminal_count g. t = tid g i"
  using indexed_known by (fastforce simp: nu_done_def indexed_def)

lemma first_loop_correct:
  assumes "nu_done g" "rows_sound g rows"
  shows "\<exists>rows'. first_loop g rows = Some rows' \<and> rows_exact g rows'"
  using assms
proof (induction g rows rule: first_loop.induct)
  case (1 g rows)
  let ?pass = "fold_opt (first_step g) (g_productions g) (rows, False)"
  obtain rows' c where pass: "?pass = Some (rows', c)" "rows_sound g rows'"
    using fold_opt_total [of "g_productions g" "\<lambda>s. rows_sound g (fst s)" "first_step g" "(rows, False)"]
      first_step_sound [OF "1.prems"(1)] "1.prems"(2) by auto
  show ?case
  proof (cases c)
    case True
    then show ?thesis using "1.IH" [OF pass(1) refl] pass "1.prems"(1) by (subst first_loop.simps) simp
  next
    case False
    have ok: "grammar_ok g" "indexed g" "nu_exact g" using "1.prems"(1) by (simp_all add: nu_done_def)
    have rows: "rows_ok g rows" using "1.prems"(2) by (simp add: rows_sound_def)
    have "\<forall>p \<in> set (g_productions g). flags_change (first_step g) p"
      by (auto simp: flags_change_def first_step_def bind_eq_Some_conv split: if_splits)
    then have same: "rows' = rows" "\<And>p. p \<in> set (g_productions g) \<Longrightarrow> first_step g p (rows, False) = Some (rows, False)"
      using fold_unchanged [of "g_productions g" "first_step g" rows rows'] pass(1) False by auto
    have closed: "rows ! l ! i" if r: "(l, rhs) \<in> set (grammar_rules g)" "i < terminal_count g" "bits_first g rows rhs i" for l rhs i
    proof -
      obtain p where p: "p \<in> set (g_productions g)" "prod_lhs p = l" "production_rhs g (prod_id p) = Some rhs"
        using rule_production [OF ok(1) r(1)] .
      show ?thesis
        using first_step_eq [OF "1.prems"(1) p(1,3) rows, of False] same(2) [OF p(1)] r p(2) by (auto split: if_splits)
    qed
    have "rows ! n ! i" if i: "i < terminal_count g" and f: "first (grammar_rules g) (tid g i) (N n)" for n i
    proof -
      have "case X of N n \<Rightarrow> rows ! n ! i | _ \<Rightarrow> True" if "first (grammar_rules g) (tid g i) X" for X
        using that
      proof (induction rule: first.induct)
        case (first_N n u X v)
        have u: "\<forall>Y \<in> set (u @ X # v). known g Y" using grammar_rules_known [OF ok(1) first_N(1)] by simp
        have "bits_first g rows (X # v) i"
        proof (cases X)
          case (T t)
          then have "t = tid g i" using first_N(3) by simp
          then show ?thesis using T ok(2) i by (simp add: indexed_def)
        qed (use first_N in auto)
        moreover have "bits_first g rows (u @ w) i" if "bits_first g rows w i" for w
          using first_N(2) u that by (induction u) (auto intro: bits_first_skip [OF ok(3)])
        ultimately have "bits_first g rows (u @ X # v) i" by blast
        then show ?case using closed [OF first_N(1) i] by simp
      qed simp
      then show ?thesis using f by fastforce
    qed
    then have "rows_exact g rows" using "1.prems"(2) by (auto simp: rows_exact_def rows_sound_def)
    then show ?thesis using pass False same(1) by (subst first_loop.simps) simp
  qed
qed

section \<open>The analysis\<close>

definition analyzed :: "'b grammar \<Rightarrow> bool" where
  "analyzed g \<longleftrightarrow> nu_done g \<and> rows_exact g (is_at_first g) \<and> productions_listed g"

lemma analyze_returns:
  assumes "grammar_ok g"
  shows "\<exists>g'. analyze g = Some g' \<and> analyzed g' \<and> grammar_rules g' = sort_key fst (grammar_rules g) \<and>
    g_terminals g' = g_terminals g \<and> g_non_terminals g' = g_non_terminals g \<and> g_eof g' = g_eof g"
proof -
  obtain g1 where g1: "sort_productions_by_lhs g = Some g1" "grammar_ok g1" "productions_listed g1"
      "grammar_rules g1 = sort_key fst (grammar_rules g)" "g_terminals g1 = g_terminals g" "g_eof g1 = g_eof g"
      "g_non_terminals g1 = g_non_terminals g"
    using sort_productions_correct [OF assms] by blast
  let ?g2 = "index_terminals g1"
  have ok2: "grammar_ok ?g2" using g1(2) by (simp add: grammar_ok_def index_terminals_def g_terminal_ids_def)
  have "nu_sound ?g2 (replicate (nts ?g2) False)" by (simp add: nu_sound_def)
  from nullable_loop_correct [OF ok2 this] obtain nu where nu: "nullable_loop ?g2 (replicate (nts ?g2) False) = Some nu"
      "nu_sound ?g2 nu" "\<forall>n < nts ?g2. nullable (grammar_rules ?g2) (N n) \<longrightarrow> nu ! n" by blast
  let ?g3 = "?g2\<lparr>is_nullable := nu\<rparr>"
  have "indexed ?g2" using g1(2) by (intro index_terminals_indexed) (simp add: grammar_ok_def)
  then have done3: "nu_done ?g3"
    using ok2 nu(2,3)
    by (auto simp: nu_done_def grammar_ok_def g_terminal_ids_def indexed_def terminal_count_def nu_exact_def nu_sound_def grammar_rules_def)
  have "rows_sound ?g3 (replicate (nts ?g3) (replicate (terminal_count ?g3) False))"
    by (auto simp: rows_sound_def rows_ok_def)
  from first_loop_correct [OF done3 this] obtain rows where rows:
    "first_loop ?g3 (replicate (nts ?g3) (replicate (terminal_count ?g3) False)) = Some rows" "rows_exact ?g3 rows" by blast
  let ?g4 = "?g3\<lparr>is_at_first := rows\<rparr>"
  have "analyze g = Some ?g4"
    using g1(1) nu(1) rows(1) by (simp add: analyze_def compute_nullable_sets_def compute_first_sets_def)
  moreover have "analyzed ?g4"
    using done3 rows(2) g1(3)
    by (auto simp: analyzed_def nu_done_def grammar_ok_def g_terminal_ids_def indexed_def terminal_count_def nu_exact_def
        grammar_rules_def rows_exact_def rows_ok_def productions_listed_def production_ids_for_def index_terminals_def)
  ultimately show ?thesis using g1(4-7) by (auto simp: grammar_rules_def index_terminals_def)
qed

lemma first_of_sequence_correct:
  assumes "analyzed g" "\<forall>X \<in> set w. known g X" "la \<in> g_terminal_ids g"
  shows "\<exists>bits. first_of_sequence g w la = Some bits \<and> length bits = terminal_count g \<and>
    (\<forall>i < terminal_count g. bits ! i \<longleftrightarrow> first_seq (grammar_rules g) (tid g i) (w @ [T la]))"
proof -
  have ok: "indexed g" "nu_exact g" "rows_exact g (is_at_first g)"
    using assms(1) by (simp_all add: analyzed_def nu_done_def)
  let ?rs = "grammar_rules g" and ?zero = "replicate (terminal_count g) False"
  have rows: "rows_ok g (is_at_first g)" "rows_sound g (is_at_first g)"
    using ok(3) by (auto simp: rows_exact_def rows_sound_def)
  have g: "g\<lparr>is_at_first := is_at_first g\<rparr> = g" by simp
  from extend_first_spec [OF ok(1) rows(1) _ assms(2), of ?zero] ok(2) obtain bits where
    bits: "extend_first_from_sequence g ?zero w = Some (bits, \<forall>X \<in> set w. nu_sat (is_nullable g) X)"
      "length bits = terminal_count g" "\<forall>i < terminal_count g. bits ! i \<longleftrightarrow> bits_first g (is_at_first g) w i"
    by (auto simp: g nu_exact_def)
  have first: "bits_first g (is_at_first g) w i \<longleftrightarrow> first_seq ?rs (tid g i) w" if i: "i < terminal_count g" for i
    using bits_first_sound [OF ok(1,2) rows(2) assms(2) i]
      bits_first_complete [OF ok(1,2) assms(2) i, of "is_at_first g"] ok(3) i by (auto simp: rows_exact_def)
  have nu: "(\<forall>X \<in> set w. nu_sat (is_nullable g) X) \<longleftrightarrow> (\<forall>X \<in> set w. nullable ?rs X)"
    using nu_exact_sat [OF ok(2)] assms(2) by blast
  obtain k where k: "k < terminal_count g" "terminal_indices g la = Some k" using indexed_known [OF ok(1) assms(3)] by blast
  then have "i = k \<longleftrightarrow> tid g i = la" if "i < terminal_count g" for i
    using ok(1) that unfolding indexed_def by (metis option.inject)
  then show ?thesis
    using bits first nu k
    by (auto simp: first_of_sequence_def terminal_index_def set_bit_at_def first_seq_append nth_list_update)
qed

end
