(* ===== verification/LR_Build.thy ===== *)
theory LR_Build
  imports Analysis_Correct
begin

text \<open>
  \<^verbatim>\<open>src/framework/parse/build.rs\<close>: canonical LR(1) items, closure and goto, the breadth-first
  construction of the states, the action and goto tables and the report of conflicts. An
  \<^verbatim>\<open>IndexSet\<close> or \<^verbatim>\<open>IndexMap\<close> is a list in insertion order.
\<close>

section \<open>Items\<close>

datatype lr1_item = LR1Item (item_production: nat) (item_dot: nat) (item_lookahead: terminal_id)

fun item_key :: "lr1_item \<Rightarrow> nat \<times> nat \<times> terminal_id" where
  "item_key (LR1Item p d a) = (p, d, a)"

lemma item_key_inject [simp]: "item_key a = item_key b \<longleftrightarrow> a = b"
  by (cases a; cases b) simp

instantiation lr1_item :: linorder
begin
definition less_eq_lr1_item :: "lr1_item \<Rightarrow> lr1_item \<Rightarrow> bool" where
  "a \<le> b \<longleftrightarrow> item_key a \<le> item_key b"
definition less_lr1_item :: "lr1_item \<Rightarrow> lr1_item \<Rightarrow> bool" where
  "a < b \<longleftrightarrow> item_key a < item_key b"
instance
  by standard (auto simp: less_eq_lr1_item_def less_lr1_item_def less_le dest: antisym)
end

text \<open>The offset is added as \<^verbatim>\<open>isize\<close> and cast back.\<close>

definition move_dot :: "lr1_item \<Rightarrow> int \<Rightarrow> lr1_item" where
  "move_dot item offset =
     LR1Item (item_production item) (nat ((int (item_dot item) + offset) mod 2 ^ 64)) (item_lookahead item)"

definition symbol_after_dot :: "'b grammar \<Rightarrow> lr1_item \<Rightarrow> symbol option option" where
  "symbol_after_dot g item = map_option (\<lambda>rhs. nth_opt rhs (item_dot item)) (production_rhs g (item_production item))"

definition suffix_after_dot :: "'b grammar \<Rightarrow> lr1_item \<Rightarrow> symbol list option" where
  "suffix_after_dot g item = map_option (drop (item_dot item + 1)) (production_rhs g (item_production item))"

section \<open>Closure and goto\<close>

definition iset_insert :: "'a \<Rightarrow> 'a list \<Rightarrow> 'a list" where
  "iset_insert x xs = (if x \<in> set xs then xs else xs @ [x])"

text \<open>The two inner loops: every production of the nonterminal with every lookahead.\<close>

definition closure_items :: "'b grammar \<Rightarrow> bool list \<Rightarrow> nat list \<Rightarrow> lr1_item list \<Rightarrow> lr1_item list option" where
  "closure_items g lookaheads prods result =
     fold_opt (\<lambda>prod. fold_opt (\<lambda>lookahead result.
         map_option (\<lambda>t. iset_insert (LR1Item prod 0 t) result) (terminal_at g lookahead)) (iter_ones lookaheads))
       prods result"

definition closure_step :: "'b grammar \<Rightarrow> lr1_item \<Rightarrow> lr1_item list \<Rightarrow> lr1_item list option" where
  "closure_step g item result = do {
     s \<leftarrow> symbol_after_dot g item;
     case s of
       Some (N b) \<Rightarrow> do {
         beta \<leftarrow> suffix_after_dot g item;
         lookaheads \<leftarrow> first_of_sequence g beta (item_lookahead item);
         prods \<leftarrow> production_ids_for g b;
         closure_items g lookaheads prods result }
     | _ \<Rightarrow> Some result }"

text \<open>The items that a closure can add, and why its loop ends.\<close>

definition addable :: "'b grammar \<Rightarrow> lr1_item set" where
  "addable g = (\<lambda>(p, t). LR1Item p 0 t) ` (set (production_ids_by_lhs g) \<times> g_terminal_ids g)"

lemma addable_finite: "finite (addable g)"
  by (simp add: addable_def g_terminal_ids_def)

definition work :: "'b grammar \<Rightarrow> lr1_item list \<Rightarrow> nat" where
  "work g result = card (addable g - set result) + length result"

lemma work_insert: "x \<in> addable g \<Longrightarrow> work g (iset_insert x result) = work g result"
proof -
  assume x: "x \<in> addable g"
  have "card (addable g - set result) = Suc (card (addable g - insert x (set result)))" if "x \<notin> set result"
  proof -
    have "addable g - insert x (set result) = (addable g - set result) - {x}" by auto
    then show ?thesis using card.remove [of "addable g - set result" x] that x addable_finite [of g] by simp
  qed
  then show ?thesis by (auto simp: work_def iset_insert_def)
qed

lemma production_ids_for_sub: "production_ids_for g n = Some ids \<Longrightarrow> set ids \<subseteq> set (production_ids_by_lhs g)"
  by (auto simp: production_ids_for_def bind_eq_Some_conv slice_def split: if_splits dest!: in_set_takeD in_set_dropD)

lemma closure_items_work:
  assumes "closure_items g las prods result = Some result'" "set prods \<subseteq> set (production_ids_by_lhs g)"
  shows "work g result' = work g result" "length result \<le> length result'"
proof -
  have inner: "work g r' = work g r \<and> length r \<le> length r'"
    if "p \<in> set prods" "fold_opt (\<lambda>l r. map_option (\<lambda>t. iset_insert (LR1Item p 0 t) r) (terminal_at g l)) is r = Some r'" for p r r' "is"
    using that(2)
  proof (rule fold_opt_invariant)
    fix l s s' assume s: "work g s = work g r \<and> length r \<le> length s"
      "map_option (\<lambda>t. iset_insert (LR1Item p 0 t) s) (terminal_at g l) = Some s'"
    then obtain t where "terminal_at g l = Some t" "s' = iset_insert (LR1Item p 0 t) s" by auto
    moreover from this have "LR1Item p 0 t \<in> addable g"
      using that(1) assms(2) by (force simp: addable_def terminal_at_def nth_opt_Some_iff g_terminal_ids_def)
    ultimately show "work g s' = work g r \<and> length r \<le> length s'"
      using s(1) by (auto simp: work_insert) (simp add: iset_insert_def)
  qed simp
  have "work g result' = work g result \<and> length result \<le> length result'"
    using assms(1) unfolding closure_items_def by (rule fold_opt_invariant) (auto dest: inner)
  then show "work g result' = work g result" "length result \<le> length result'" by simp_all
qed

lemma closure_step_cases:
  assumes "closure_step g item result = Some result'"
  obtains "result' = result"
  | b beta las prods where "symbol_after_dot g item = Some (Some (N b))" "suffix_after_dot g item = Some beta"
      "first_of_sequence g beta (item_lookahead item) = Some las" "production_ids_for g b = Some prods"
      "closure_items g las prods result = Some result'"
proof -
  obtain s where "symbol_after_dot g item = Some s" using assms by (auto simp: closure_step_def bind_eq_Some_conv)
  then show thesis
    using assms that by (cases s; cases "the s") (auto simp: closure_step_def bind_eq_Some_conv)
qed

lemma closure_step_work:
  assumes "closure_step g item result = Some result'"
  shows "work g result' = work g result \<and> length result \<le> length result'"
  using assms
proof (rule closure_step_cases)
  fix b beta las prods assume "production_ids_for g b = Some prods" "closure_items g las prods result = Some result'"
  then show ?thesis using closure_items_work production_ids_for_sub by blast
qed simp

function closure_loop :: "'b grammar \<Rightarrow> nat \<Rightarrow> lr1_item list \<Rightarrow> lr1_item list option" where
  "closure_loop g i result =
     (if i < length result
      then (case closure_step g (result ! i) result of None \<Rightarrow> None | Some result \<Rightarrow> closure_loop g (i + 1) result)
      else Some result)"
  by pat_completeness auto
termination
proof (relation "measure (\<lambda>(g, i, result). work g result - i)", simp, clarsimp)
  fix g :: "'b grammar" and i result result'
  assume "i < length result" "closure_step g (result ! i) result = Some result'"
  then show "work g result' - Suc i < work g result - i"
    using closure_step_work [of g "result ! i" result result'] by (simp add: work_def)
qed

declare closure_loop.simps [simp del]

definition closure :: "'b grammar \<Rightarrow> lr1_item list \<Rightarrow> lr1_item list option" where
  "closure g seed = map_option sort (closure_loop g 0 (fold iset_insert seed []))"

text \<open>\<^verbatim>\<open>filter_map\<close> with a closure that may panic.\<close>

fun filter_map_opt :: "('a \<Rightarrow> 'c option option) \<Rightarrow> 'a list \<Rightarrow> 'c list option" where
  "filter_map_opt f [] = Some []"
| "filter_map_opt f (x # xs) = do {
     y \<leftarrow> f x;
     ys \<leftarrow> filter_map_opt f xs;
     Some (case y of None \<Rightarrow> ys | Some y \<Rightarrow> y # ys) }"

definition goto :: "'b grammar \<Rightarrow> lr1_item list \<Rightarrow> symbol \<Rightarrow> lr1_item list option" where
  "goto g from symbol = do {
     moved \<leftarrow> filter_map_opt (\<lambda>item. map_option (\<lambda>s. if s = Some symbol then Some (move_dot item 1) else None)
       (symbol_after_dot g item)) from;
     closure g moved }"

definition transition_symbols :: "'b grammar \<Rightarrow> lr1_item list \<Rightarrow> symbol list option" where
  "transition_symbols g items = map_option (\<lambda>xs. sort (remdups xs)) (filter_map_opt (symbol_after_dot g) items)"

section \<open>States\<close>

record lr1_state =
  lr_id :: nat
  lr_items :: "lr1_item list"

definition intern_state :: "lr1_item list \<Rightarrow> lr1_state list \<times> lr1_item list list \<Rightarrow> (nat \<times> bool) \<times> lr1_state list \<times> lr1_item list list" where
  "intern_state items = (\<lambda>(states, keys).
     case position (\<lambda>k. k = items) keys of
       Some i \<Rightarrow> ((i, False), states, keys)
     | None \<Rightarrow> ((length states, True), states @ [\<lparr>lr_id = length states, lr_items = items\<rparr>], keys @ [items]))"

record lr1_work =
  w_states :: "lr1_state list"
  w_keys :: "lr1_item list list"
  w_queue :: "nat list"
  w_transitions :: "((nat \<times> symbol) \<times> nat) list"

text \<open>\<^verbatim>\<open>IndexMap::insert\<close>: the value of a key that is present is replaced in place.\<close>

fun imap_insert :: "'k \<Rightarrow> 'v \<Rightarrow> ('k \<times> 'v) list \<Rightarrow> ('k \<times> 'v) list" where
  "imap_insert k v [] = [(k, v)]"
| "imap_insert k v ((k', v') # kvs) = (if k' = k then (k, v) # kvs else (k', v') # imap_insert k v kvs)"

definition expand_symbol :: "'b grammar \<Rightarrow> nat \<Rightarrow> symbol \<Rightarrow> lr1_work \<Rightarrow> lr1_work option" where
  "expand_symbol g state symbol w = do {
     st \<leftarrow> nth_opt (w_states w) state;
     next_items \<leftarrow> goto g (lr_items st) symbol;
     if next_items = [] then Some w
     else
       (let ((next_id, is_new), states, keys) = intern_state next_items (w_states w, w_keys w) in
          Some (w\<lparr>w_states := states, w_keys := keys,
                  w_queue := (if is_new then w_queue w @ [next_id] else w_queue w),
                  w_transitions := imap_insert (state, symbol) next_id (w_transitions w)\<rparr>)) }"

definition expand_state :: "'b grammar \<Rightarrow> nat \<Rightarrow> lr1_work \<Rightarrow> lr1_work option" where
  "expand_state g state w = do {
     st \<leftarrow> nth_opt (w_states w) state;
     symbols \<leftarrow> transition_symbols g (lr_items st);
     fold_opt (expand_symbol g state) symbols w }"

partial_function (option) build_states :: "'b grammar \<Rightarrow> lr1_work \<Rightarrow> lr1_work option" where
  "build_states g w = (case w_queue w of
     [] \<Rightarrow> Some w
   | state # queue \<Rightarrow> Option.bind (expand_state g state (w\<lparr>w_queue := queue\<rparr>)) (build_states g))"

section \<open>Tables\<close>

datatype action = Shift nat | Reduce nat | Accept | ErrorAction

datatype conflict =
    ShiftReduce nat terminal_id nat nat
  | ReduceReduce nat terminal_id "nat list"

type_synonym action_set = "action list"

definition action_push :: "action \<Rightarrow> action_set \<Rightarrow> action_set" where
  "action_push a as = (if a \<in> set as then as else as @ [a])"

definition has_shift :: "action_set \<Rightarrow> bool" where
  "has_shift as \<longleftrightarrow> (\<exists>a \<in> set as. case a of Shift _ \<Rightarrow> True | _ \<Rightarrow> False)"

record 'b parser =
  p_grammar :: "'b grammar"
  p_states :: "lr1_state list"
  p_transitions :: "((nat \<times> symbol) \<times> nat) list"
  p_conflicts :: "conflict list"
  p_actions :: "action_set list"
  p_gotos :: "nat option list"

definition action_set :: "'b parser \<Rightarrow> nat \<Rightarrow> terminal_id \<Rightarrow> action_set option" where
  "action_set p state t = Option.bind (action_index (p_grammar p) state t) (nth_opt (p_actions p))"

definition goto_state :: "'b parser \<Rightarrow> nat \<Rightarrow> nat \<Rightarrow> nat option option" where
  "goto_state p state n = nth_opt (p_gotos p) (goto_index (p_grammar p) state n)"

definition push_action :: "nat \<Rightarrow> terminal_id \<Rightarrow> action \<Rightarrow> 'b parser \<Rightarrow> 'b parser option" where
  "push_action state t a p = do {
     i \<leftarrow> action_index (p_grammar p) state t;
     as \<leftarrow> nth_opt (p_actions p) i;
     Some (p\<lparr>p_actions := (p_actions p)[i := action_push a as]\<rparr>) }"

definition set_goto :: "nat \<Rightarrow> nat \<Rightarrow> nat \<Rightarrow> 'b parser \<Rightarrow> 'b parser option" where
  "set_goto state n next p =
     (let i = goto_index (p_grammar p) state n in
        if i < length (p_gotos p) then Some (p\<lparr>p_gotos := (p_gotos p)[i := Some next]\<rparr>) else None)"

fun shift_terminals :: "'b parser \<Rightarrow> nat \<Rightarrow> nat list \<Rightarrow> terminal_id list option" where
  "shift_terminals p state [] = Some []"
| "shift_terminals p state (ti # tis) = do {
     t \<leftarrow> terminal_at (p_grammar p) ti;
     as \<leftarrow> action_set p state t;
     ts \<leftarrow> shift_terminals p state tis;
     Some (if has_shift as then t # ts else ts) }"

definition shift_terminals_for_state :: "'b parser \<Rightarrow> nat \<Rightarrow> terminal_id list option" where
  "shift_terminals_for_state p state = shift_terminals p state [0..<terminal_count (p_grammar p)]"

fun fill_transition :: "(nat \<times> symbol) \<times> nat \<Rightarrow> 'b parser \<Rightarrow> 'b parser option" where
  "fill_transition ((from, T t), to) p = push_action from t (Shift to) p"
| "fill_transition ((from, N n), to) p = set_goto from n to p"
| "fill_transition ((from, Epsilon), to) p = Some p"

definition fill_item :: "'b grammar \<Rightarrow> nat \<Rightarrow> lr1_item \<Rightarrow> 'b parser \<Rightarrow> 'b parser option" where
  "fill_item g state item p = do {
     s \<leftarrow> symbol_after_dot g item;
     if s \<noteq> None then Some p
     else if item_production item = 0 then push_action state (g_eof g) Accept p
     else push_action state (item_lookahead item) (Reduce (item_production item)) p }"

fun last_shift :: "action list \<Rightarrow> nat option \<Rightarrow> nat option" where
  "last_shift [] s = s"
| "last_shift (Shift t # as) s = last_shift as (Some t)"
| "last_shift (_ # as) s = last_shift as s"

fun reduces_of :: "action list \<Rightarrow> nat list" where
  "reduces_of [] = []"
| "reduces_of (Reduce p # as) = p # reduces_of as"
| "reduces_of (_ # as) = reduces_of as"

definition cell_conflicts :: "nat \<Rightarrow> terminal_id \<Rightarrow> action_set \<Rightarrow> conflict list" where
  "cell_conflicts state t as =
     (if length as \<le> 1 then []
      else
        (case last_shift as None of
           Some s \<Rightarrow> map (ShiftReduce state t s) (reduces_of as)
         | None \<Rightarrow> []) @
        (if 1 < length (reduces_of as) then [ReduceReduce state t (reduces_of as)] else []))"

definition collect_cell :: "nat \<Rightarrow> nat \<Rightarrow> 'b parser \<Rightarrow> 'b parser option" where
  "collect_cell state terminal p = do {
     t \<leftarrow> terminal_at (p_grammar p) terminal;
     as \<leftarrow> action_set p state t;
     Some (p\<lparr>p_conflicts := p_conflicts p @ cell_conflicts state t as\<rparr>) }"

definition collect_conflicts :: "'b parser \<Rightarrow> 'b parser option" where
  "collect_conflicts p =
     fold_opt (\<lambda>state. fold_opt (collect_cell state) [0..<terminal_count (p_grammar p)]) [0..<length (p_states p)]
       (p\<lparr>p_conflicts := []\<rparr>)"

definition fill_tables :: "'b grammar \<Rightarrow> 'b parser \<Rightarrow> 'b parser option" where
  "fill_tables g p = do {
     p \<leftarrow> fold_opt fill_transition (p_transitions p) p;
     p \<leftarrow> fold_opt (\<lambda>st. fold_opt (fill_item g (lr_id st)) (lr_items st)) (p_states p) p;
     collect_conflicts p }"

definition build_lr1 :: "'b grammar \<Rightarrow> 'b parser option" where
  "build_lr1 g = do {
     start \<leftarrow> closure g [LR1Item 0 0 (g_eof g)];
     let ((start_id, _), states, keys) = intern_state start ([], []);
     w \<leftarrow> build_states g \<lparr>w_states = states, w_keys = keys, w_queue = [start_id], w_transitions = []\<rparr>;
     fill_tables g
       \<lparr>p_grammar = g, p_states = w_states w, p_transitions = w_transitions w, p_conflicts = [],
        p_actions = replicate (length (w_states w) * terminal_count g) [],
        p_gotos = replicate (length (w_states w) * length (g_non_terminals g)) None\<rparr> }"

end
