(* ===== verification/Parse_Session.thy ===== *)
theory Parse_Session
  imports Build_Context Gss_Arena LR_Build
begin

text \<open>
  The parser session, \<^verbatim>\<open>src/framework/parse/parsing\<close>: reductions over the graph-structured stack
  until nothing changes (\<^verbatim>\<open>session.rs\<close>), shifting and deleting tokens, and the replay loop of a cold
  parse without recovery search (\<^verbatim>\<open>parse_delta_batch\<close> of \<^verbatim>\<open>incremental.rs\<close> with no previous root and
  \<^verbatim>\<open>error_recovery\<close> off, where nothing is retained and no journal is replayed).

  A session step returns a value or a reason to stop, together with the state it leaves. \<open>Panicked\<close>
  is a panic: an index out of range, a failed \<^verbatim>\<open>expect\<close>, or a vector that outgrows
  \<^verbatim>\<open>isize::MAX\<close>. The loop of \<^verbatim>\<open>reduce_until_stable\<close> need not end, so what calls it returns an option.
  The persistent tries of the reduction cache are maps here; a column's boundary and its checkpoint
  cache, which only the reuse of an old parse reads, are left out.
\<close>

section \<open>Errors and session steps\<close>

datatype parse_error =
    MissingGoto nat nat
  | NoActiveStacks "nat option"
  | MissingGssNode nat
  | BuildFailed build_error
  | Recovered nat
  | InvalidReachability string nat nat int

datatype parse_stop = Failed parse_error | Panicked

type_synonym ('x, 's) step_result = "(parse_stop + 'x) \<times> 's"

definition return_step :: "'x \<Rightarrow> 's \<Rightarrow> ('x, 's) step_result" where
  "return_step x s = (Inr x, s)"

definition stop_step :: "parse_stop \<Rightarrow> 's \<Rightarrow> ('x, 's) step_result" where
  "stop_step e s = (Inl e, s)"

text \<open>The question mark operator.\<close>

definition and_then :: "('s \<Rightarrow> ('x, 's) step_result) \<Rightarrow> ('x \<Rightarrow> 's \<Rightarrow> ('y, 's) step_result) \<Rightarrow> 's \<Rightarrow> ('y, 's) step_result" where
  "and_then f k s = (case f s of (Inl e, s) \<Rightarrow> (Inl e, s) | (Inr x, s) \<Rightarrow> k x s)"

text \<open>A \<^verbatim>\<open>for\<close> loop over a mutable accumulator.\<close>

fun for_each :: "('x \<Rightarrow> 'a \<Rightarrow> 's \<Rightarrow> ('a, 's) step_result) \<Rightarrow> 'x list \<Rightarrow> 'a \<Rightarrow> 's \<Rightarrow> ('a, 's) step_result" where
  "for_each f [] acc s = (Inr acc, s)"
| "for_each f (x # xs) acc s = (case f x acc s of (Inl e, s) \<Rightarrow> (Inl e, s) | (Inr acc, s) \<Rightarrow> for_each f xs acc s)"

text \<open>\<^verbatim>\<open>changed = changed || b\<close>.\<close>

definition note_change :: "('s \<Rightarrow> (bool, 's) step_result) \<Rightarrow> bool \<Rightarrow> 's \<Rightarrow> (bool, 's) step_result" where
  "note_change f changed = and_then f (\<lambda>b. return_step (changed \<or> b))"

definition or_panic :: "'x option \<Rightarrow> 's \<Rightarrow> ('x, 's) step_result" where
  "or_panic x s = (case x of None \<Rightarrow> (Inl Panicked, s) | Some x \<Rightarrow> (Inr x, s))"

section \<open>State\<close>

record parse_token =
  tok_entry :: nat
  tok_column :: nat
  tok_start :: nat
  tok_terminal :: terminal_id
  tok_length :: nat
  tok_merge :: "terminal_id option"

type_synonym reduction_key = "nat \<times> nat list \<times> nat option"

record parse_column =
  pc_token :: "nat option"
  pc_base_active :: "nat list"
  pc_active :: "nat list"
  pc_accepted :: "nat list"
  pc_products :: "nat list"
  pc_error_derived :: bool

record parse_error_info =
  info_kind :: error_kind
  info_node :: nat
  info_length :: nat
  info_unexpected :: "symbol option"
  info_expected :: symbol
  info_recovered :: bool
  info_location :: "nat option"

record ('v, 'l) session =
  ps_store :: "('v, 'l) build_store"
  ps_gss :: gss_arena
  ps_columns :: "parse_column list"
  ps_generation :: nat
  ps_diagnostics :: "parse_error_info list"
  ps_token_columns :: "nat \<rightharpoonup> nat"
  ps_token_products :: "nat \<rightharpoonup> nat"
  ps_reduced :: "reduction_key \<rightharpoonup> nat"
  ps_origins :: "nat \<rightharpoonup> reduction_key"

text \<open>What the generated build functions do: they may change the arenas, and fail.\<close>

type_synonym ('b, 'v, 'l) user_build =
  "'b \<Rightarrow> nat \<Rightarrow> nat \<Rightarrow> nat list \<Rightarrow> ('v, 'l) build_store \<Rightarrow> (build_error + nat) \<times> ('v, 'l) build_store"

definition column_new :: "nat option \<Rightarrow> nat list \<Rightarrow> parse_column" where
  "column_new token active = \<lparr>pc_token = token, pc_base_active = active, pc_active = active, pc_accepted = [],
     pc_products = [], pc_error_derived = False\<rparr>"

definition push_product :: "nat \<Rightarrow> parse_column \<Rightarrow> bool \<times> parse_column" where
  "push_product product c = (if product \<in> set (pc_products c) then (False, c)
     else (True, c\<lparr>pc_products := pc_products c @ [product]\<rparr>))"

definition push_accepted :: "nat \<Rightarrow> parse_column \<Rightarrow> bool \<times> parse_column" where
  "push_accepted product c = (if product \<in> set (pc_accepted c) then (False, c)
     else (True, c\<lparr>pc_accepted := pc_accepted c @ [product]\<rparr>))"

definition insert_active :: "nat \<Rightarrow> parse_column \<Rightarrow> bool \<times> parse_column" where
  "insert_active node c = (if node \<in> set (pc_active c) then (False, c)
     else (True, c\<lparr>pc_active := pc_active c @ [node]\<rparr>))"

definition set_error_derived :: "parse_column \<Rightarrow> bool \<times> parse_column" where
  "set_error_derived c = (if pc_error_derived c then (False, c) else (True, c\<lparr>pc_error_derived := True\<rparr>))"

text \<open>\<^verbatim>\<open>self.state.columns[column]\<close>, read and changed.\<close>

definition column_at :: "nat \<Rightarrow> ('v, 'l) session \<Rightarrow> parse_column option" where
  "column_at i s = nth_opt (ps_columns s) i"

definition on_column :: "nat \<Rightarrow> (parse_column \<Rightarrow> bool \<times> parse_column) \<Rightarrow> ('v, 'l) session \<Rightarrow> (bool, ('v, 'l) session) step_result" where
  "on_column i f s = (case column_at i s of
     None \<Rightarrow> (Inl Panicked, s)
   | Some c \<Rightarrow> (let (b, c) = f c in (Inr b, s\<lparr>ps_columns := (ps_columns s)[i := c]\<rparr>)))"

definition current_column :: "('v, 'l) session \<Rightarrow> nat" where
  "current_column s = length (ps_columns s) - 1"

definition session_accepted :: "('v, 'l) session \<Rightarrow> nat list" where
  "session_accepted s = (case ps_columns s of [] \<Rightarrow> [] | _ \<Rightarrow> pc_accepted (last (ps_columns s)))"

text \<open>\<^verbatim>\<open>gss.node\<close> and \<^verbatim>\<open>gss.add_edge\<close>: a vector holds at most \<^verbatim>\<open>isize::MAX\<close> elements.\<close>

definition session_node :: "nat \<Rightarrow> nat \<Rightarrow> ('v, 'l) session \<Rightarrow> (nat, ('v, 'l) session) step_result" where
  "session_node state column s =
     (let (i, g) = gss_add_node state column (ps_generation s) (ps_gss s) in
        if length (node_tail g) > isize_max then (Inl Panicked, s) else (Inr i, s\<lparr>ps_gss := g\<rparr>))"

definition session_edge :: "nat \<Rightarrow> nat \<Rightarrow> nat \<Rightarrow> ('v, 'l) session \<Rightarrow> (bool, ('v, 'l) session) step_result" where
  "session_edge from to product s =
     (let (added, g) = gss_add_edge from to product (ps_generation s) (ps_gss s) in
        if length (edge_tail g) > isize_max then (Inl Panicked, s) else (Inr added, s\<lparr>ps_gss := g\<rparr>))"

definition known_node :: "nat \<Rightarrow> ('v, 'l) session \<Rightarrow> (gss_node, ('v, 'l) session) step_result" where
  "known_node i s = (case gss_get_node (ps_gss s) i of None \<Rightarrow> (Inl (Failed (MissingGssNode i)), s) | Some n \<Rightarrow> (Inr n, s))"

definition goto_or_fail :: "'b parser \<Rightarrow> nat \<Rightarrow> nat \<Rightarrow> ('v, 'l) session \<Rightarrow> (nat, ('v, 'l) session) step_result" where
  "goto_or_fail p state lhs s = (case goto_state p state lhs of
     None \<Rightarrow> (Inl Panicked, s)
   | Some None \<Rightarrow> (Inl (Failed (MissingGoto state lhs)), s)
   | Some (Some to) \<Rightarrow> (Inr to, s))"

section \<open>Reductions\<close>

definition call_build :: "('b, 'v, 'l) user_build \<Rightarrow> 'b build_fn \<Rightarrow> nat \<Rightarrow> nat \<Rightarrow> nat list \<Rightarrow> ('v, 'l) build_store \<Rightarrow>
    (build_error + nat) \<times> ('v, 'l) build_store" where
  "call_build user f boundary production children st = (case f of
     DefaultBuild \<Rightarrow> (default_build, st)
   | AugmentedBuild \<Rightarrow> (augmented_build children, st)
   | UserBuild b \<Rightarrow> user b boundary production children st)"

definition reduce_cached :: "'b parser \<Rightarrow> ('b, 'v, 'l) user_build \<Rightarrow> nat \<Rightarrow> nat list \<Rightarrow> nat \<Rightarrow> ('v, 'l) session \<Rightarrow>
    (nat, ('v, 'l) session) step_result" where
  "reduce_cached p user production children boundary s =
     (let key = (production, children, if children = [] then Some boundary else None) in
      case ps_reduced s key of
        Some product \<Rightarrow> (Inr product, s)
      | None \<Rightarrow> (case nth_opt (g_productions (p_grammar p)) production of
          None \<Rightarrow> (Inl Panicked, s)
        | Some prd \<Rightarrow> (case call_build user (prod_build prd) boundary production children (ps_store s) of
            (Inl e, st) \<Rightarrow> (Inl (Failed (BuildFailed e)), s\<lparr>ps_store := st\<rparr>)
          | (Inr product, st) \<Rightarrow> (Inr product, s\<lparr>ps_store := st, ps_reduced := (ps_reduced s)(key \<mapsto> product),
              ps_origins := (if product \<in> set children then ps_origins s else (ps_origins s)(product \<mapsto> key))\<rparr>))))"

text \<open>
  \<^verbatim>\<open>reduce_paths\<close>: the ways down the graph, with their products from left to right. At the bottom of
  the stack a production that begins with the error terminal may take the error products of the column.
\<close>

definition starts_with_error :: "'b grammar \<Rightarrow> nat \<Rightarrow> bool" where
  "starts_with_error g production = (case nth_opt (g_productions g) production of
     None \<Rightarrow> False
   | Some prd \<Rightarrow> (case nth_opt (g_rhs_symbols g) (rhs_start prd) of None \<Rightarrow> False | Some X \<Rightarrow> X = T (g_error_terminal g)))"

definition error_products :: "nat \<Rightarrow> ('v, 'l) session \<Rightarrow> nat list" where
  "error_products column s = (case column_at column s of
     None \<Rightarrow> []
   | Some c \<Rightarrow> filter (\<lambda>q. case products_get (bs_products (ps_store s)) q of
       Some prd \<Rightarrow> (case prod_data prd of ErrorProduct _ \<Rightarrow> True | _ \<Rightarrow> False) | None \<Rightarrow> False) (pc_products c))"

fun reduce_paths :: "'b parser \<Rightarrow> ('v, 'l) session \<Rightarrow> nat \<Rightarrow> nat \<Rightarrow> nat \<Rightarrow> nat \<Rightarrow> (nat \<times> nat list) list" where
  "reduce_paths p s column production node 0 = [(node, [])]"
| "reduce_paths p s column production node (Suc d) =
     (let paths = concat (map (\<lambda>e. map (\<lambda>(predecessor, products). (predecessor, products @ [ge_product e]))
            (reduce_paths p s column production (ge_to e) d)) (outgoing_edges (ps_gss s) node)) in
      if paths = [] \<and> d = 0 \<and> starts_with_error (p_grammar p) production
      then map (\<lambda>product. (node, [product])) (error_products column s) else paths)"

text \<open>The bodies of the loops of \<^verbatim>\<open>reduce_until_stable\<close>, from the inside out.\<close>

definition reduce_path :: "'b parser \<Rightarrow> ('b, 'v, 'l) user_build \<Rightarrow> nat \<Rightarrow> nat \<Rightarrow> nat \<Rightarrow> nat \<Rightarrow> nat \<times> nat list \<Rightarrow> ('v, 'l) session \<Rightarrow>
    (bool, ('v, 'l) session) step_result" where
  "reduce_path p user column boundary production lhs path =
     and_then (known_node (fst path)) (\<lambda>node.
     and_then (goto_or_fail p (gn_state node) lhs) (\<lambda>to.
     and_then (reduce_cached p user production (snd path) boundary) (\<lambda>product.
     and_then (on_column column (push_product product)) (\<lambda>pushed.
     and_then (session_node to column) (\<lambda>goto_node.
     and_then (on_column column (insert_active goto_node)) (\<lambda>inserted.
     and_then (session_edge goto_node (fst path) product) (\<lambda>added.
     return_step (pushed \<or> inserted \<or> added))))))))"

definition accept_path :: "'b parser \<Rightarrow> ('b, 'v, 'l) user_build \<Rightarrow> nat \<Rightarrow> nat \<Rightarrow> nat \<times> nat list \<Rightarrow> ('v, 'l) session \<Rightarrow>
    (bool, ('v, 'l) session) step_result" where
  "accept_path p user column boundary path =
     and_then (reduce_cached p user 0 (snd path) boundary) (\<lambda>product.
     and_then (on_column column (push_product product)) (\<lambda>pushed.
     and_then (on_column column (push_accepted product)) (\<lambda>accepted.
     return_step (pushed \<or> accepted))))"

definition reduce_action :: "'b parser \<Rightarrow> ('b, 'v, 'l) user_build \<Rightarrow> nat \<Rightarrow> nat \<Rightarrow> nat \<Rightarrow> action \<Rightarrow> bool \<Rightarrow> ('v, 'l) session \<Rightarrow>
    (bool, ('v, 'l) session) step_result" where
  "reduce_action p user column boundary node act changed = (case act of
     Reduce production \<Rightarrow>
       and_then (or_panic (production_rhs_len (p_grammar p) production)) (\<lambda>n.
       and_then (or_panic (production_lhs (p_grammar p) production)) (\<lambda>lhs s.
         for_each (\<lambda>path. note_change (reduce_path p user column boundary production lhs path))
           (reduce_paths p s column production node n) changed s))
   | Accept \<Rightarrow>
       and_then (or_panic (production_rhs_len (p_grammar p) 0)) (\<lambda>n s.
         for_each (\<lambda>path. note_change (accept_path p user column boundary path))
           (reduce_paths p s column 0 node n) changed s)
   | _ \<Rightarrow> return_step changed)"

definition reduce_node :: "'b parser \<Rightarrow> ('b, 'v, 'l) user_build \<Rightarrow> nat \<Rightarrow> terminal_id \<Rightarrow> nat \<Rightarrow> nat \<Rightarrow> bool \<Rightarrow> ('v, 'l) session \<Rightarrow>
    (bool, ('v, 'l) session) step_result" where
  "reduce_node p user column la boundary node changed =
     and_then (known_node node) (\<lambda>n.
     and_then (or_panic (action_set p (gn_state n) la)) (\<lambda>as.
       for_each (reduce_action p user column boundary node) as changed))"

definition reduce_pass :: "'b parser \<Rightarrow> ('b, 'v, 'l) user_build \<Rightarrow> nat \<Rightarrow> terminal_id \<Rightarrow> nat \<Rightarrow> ('v, 'l) session \<Rightarrow>
    (bool, ('v, 'l) session) step_result" where
  "reduce_pass p user column la boundary s =
     and_then (or_panic (column_at column s)) (\<lambda>c. for_each (reduce_node p user column la boundary) (pc_active c) False) s"

partial_function (option) reduce_until_stable :: "'b parser \<Rightarrow> ('b, 'v, 'l) user_build \<Rightarrow> nat \<Rightarrow> terminal_id \<Rightarrow> nat \<Rightarrow>
    ('v, 'l) session \<Rightarrow> (unit, ('v, 'l) session) step_result option" where
  "reduce_until_stable p user column la boundary s =
     (case reduce_pass p user column la boundary s of
        (Inl e, s) \<Rightarrow> Some (Inl e, s)
      | (Inr changed, s) \<Rightarrow> if changed then reduce_until_stable p user column la boundary s else Some (Inr (), s))"

section \<open>Shifting and deleting tokens\<close>

definition session_error_node :: "'b parser \<Rightarrow> nat \<Rightarrow> error_kind \<Rightarrow> symbol option \<Rightarrow> symbol \<Rightarrow> nat option \<Rightarrow> nat \<Rightarrow>
    ('v, 'l) session \<Rightarrow> nat \<times> ('v, 'l) session" where
  "session_error_node p n kind unexpected expected location anchor s =
     (let st = ps_store s;
          (green, trees) = trees_error n kind (g_error_non_terminal (p_grammar p)) [] unexpected expected True location (bs_trees st);
          extent = (if n = 0 then span_point anchor else span_token anchor);
          (product, products) = products_insert (with_metadata extent [] (product_error green)) (bs_products st)
      in (product, s\<lparr>ps_store := st\<lparr>bs_trees := trees, bs_products := products\<rparr>\<rparr>))"

definition error_info :: "'b parser \<Rightarrow> nat \<Rightarrow> error_kind \<Rightarrow> symbol option \<Rightarrow> symbol \<Rightarrow> nat option \<Rightarrow> parse_error_info" where
  "error_info p n kind unexpected expected location =
     \<lparr>info_kind = kind, info_node = g_error_non_terminal (p_grammar p), info_length = n, info_unexpected = unexpected,
      info_expected = expected, info_recovered = True, info_location = location\<rparr>"

definition record_diagnostic :: "parse_error_info \<Rightarrow> ('v, 'l) session \<Rightarrow> ('v, 'l) session" where
  "record_diagnostic info s = (if info \<in> set (ps_diagnostics s) then s else s\<lparr>ps_diagnostics := ps_diagnostics s @ [info]\<rparr>)"

text \<open>The product of a source token, allocated by the first stack that shifts it.\<close>

definition shared_token_product :: "parse_token \<Rightarrow> ('v, 'l) session \<Rightarrow> nat \<times> ('v, 'l) session" where
  "shared_token_product token s = (case ps_token_products s (tok_column token) of
     Some product \<Rightarrow> (product, s)
   | None \<Rightarrow> (let (product, st) = alloc_token (tok_length token) (tok_terminal token) (tok_entry token) (tok_column token) (ps_store s)
       in (product, s\<lparr>ps_store := st, ps_token_products := (ps_token_products s)(tok_column token \<mapsto> product)\<rparr>)))"

definition shift_action :: "parse_token \<Rightarrow> nat option \<Rightarrow> nat \<Rightarrow> nat \<Rightarrow> action \<Rightarrow> nat list \<Rightarrow> ('v, 'l) session \<Rightarrow>
    (nat list, ('v, 'l) session) step_result" where
  "shift_action token error_product next_column node act next_active s = (case act of
     Shift next_state \<Rightarrow>
       (let (product, s) = (case error_product of Some product \<Rightarrow> (product, s) | None \<Rightarrow> shared_token_product token s) in
        and_then (session_node next_state next_column) (\<lambda>next_node.
        and_then (session_edge next_node node product) (\<lambda>added.
        return_step (if added then add_new next_node next_active else next_active))) s)
   | _ \<Rightarrow> (Inr next_active, s))"

definition shift_node :: "'b parser \<Rightarrow> parse_token \<Rightarrow> nat option \<Rightarrow> nat \<Rightarrow> nat \<Rightarrow> nat list \<Rightarrow> ('v, 'l) session \<Rightarrow>
    (nat list, ('v, 'l) session) step_result" where
  "shift_node p token error_product next_column node next_active =
     and_then (known_node node) (\<lambda>n.
     and_then (or_panic (action_set p (gn_state n) (tok_terminal token))) (\<lambda>as.
       for_each (shift_action token error_product next_column node) as next_active))"

text \<open>The new column with its first product.\<close>

definition open_column :: "parse_token \<Rightarrow> nat list \<Rightarrow> nat \<Rightarrow> ('v, 'l) session \<Rightarrow> ('v, 'l) session" where
  "open_column token active product s = s\<lparr>ps_columns := ps_columns s @ [snd (push_product product (column_new (Some (tok_column token)) active))]\<rparr>"

definition mark_error_column :: "nat \<Rightarrow> ('v, 'l) session \<Rightarrow> ('v, 'l) session" where
  "mark_error_column i s = snd (on_column i set_error_derived s)"

definition shift_parse_token :: "'b parser \<Rightarrow> ('b, 'v, 'l) user_build \<Rightarrow> nat \<Rightarrow> parse_token \<Rightarrow> ('v, 'l) session \<Rightarrow>
    (nat, ('v, 'l) session) step_result option" where
  "shift_parse_token p user from_column token s =
     (let next_column = from_column + 1;
          err = g_error_terminal (p_grammar p);
          is_error = (tok_terminal token = err)
      in case column_at from_column s of
        None \<Rightarrow> Some (Inl Panicked, s)
      | Some c \<Rightarrow>
        (let (error_product, s) = (if is_error
               then (let (q, s) = session_error_node p (tok_length token) UnexpectedToken (map_option T (tok_merge token)) (T err)
                           (Some next_column) (tok_column token) s in (Some q, s))
               else (None, s))
         in case for_each (shift_node p token error_product next_column) (pc_active c) [] s of
           (Inl e, s) \<Rightarrow> Some (Inl e, s)
         | (Inr next_active, s) \<Rightarrow>
             if next_active = [] then Some (Inl (Failed (NoActiveStacks (Some (tok_column token)))), s)
             else (case error_product of
               Some q \<Rightarrow>
                 (let s = open_column token next_active q s;
                      s = record_diagnostic (error_info p (tok_length token) UnexpectedToken (map_option T (tok_merge token)) (T err)
                            (Some next_column)) s;
                      s = s\<lparr>ps_token_columns := (ps_token_columns s)(tok_column token \<mapsto> next_column)\<rparr>;
                      s = mark_error_column next_column s
                  in map_option (\<lambda>(r, s). (case r of Inl e \<Rightarrow> Inl e | Inr _ \<Rightarrow> Inr next_column, s))
                       (reduce_until_stable p user next_column err (tok_column token) s))
             | None \<Rightarrow> (case ps_token_products s (tok_column token) of
                 None \<Rightarrow> Some (Inl Panicked, s)
               | Some q \<Rightarrow>
                   (let s = open_column token next_active q s
                    in Some (Inr next_column, s\<lparr>ps_token_columns := (ps_token_columns s)(tok_column token \<mapsto> next_column)\<rparr>))))))"

definition delete_parse_token :: "'b parser \<Rightarrow> ('b, 'v, 'l) user_build \<Rightarrow> nat \<Rightarrow> parse_token \<Rightarrow> ('v, 'l) session \<Rightarrow>
    (nat, ('v, 'l) session) step_result option" where
  "delete_parse_token p user from_column token s =
     (let next_column = from_column + 1; err = g_error_terminal (p_grammar p);
          (q, s) = session_error_node p (tok_length token) UnexpectedToken (Some (T (tok_terminal token))) (T err)
             (Some next_column) (tok_column token) s
      in case column_at from_column s of
        None \<Rightarrow> Some (Inl Panicked, s)
      | Some c \<Rightarrow>
        (let s = open_column token (pc_active c) q s;
             s = record_diagnostic (error_info p (tok_length token) UnexpectedToken (Some (T (tok_terminal token))) (T err)
                   (Some next_column)) s;
             s = mark_error_column next_column s;
             s = s\<lparr>ps_token_columns := (ps_token_columns s)(tok_column token \<mapsto> next_column)\<rparr>
         in map_option (\<lambda>(r, s). (case r of Inl e \<Rightarrow> Inl e | Inr _ \<Rightarrow> Inr next_column, s))
              (reduce_until_stable p user next_column err (tok_column token) s)))"

section \<open>A cold parse\<close>

text \<open>
  The replay loop. A shift that finds no stack deletes the token; any other error of a shift is
  dropped by the code, which only matches on \<^verbatim>\<open>NoActiveStacks\<close>.
\<close>

definition after_shift :: "'b parser \<Rightarrow> ('b, 'v, 'l) user_build \<Rightarrow> parse_token \<Rightarrow> ('v, 'l) session \<Rightarrow>
    (unit, ('v, 'l) session) step_result option" where
  "after_shift p user token s =
     (if tok_terminal token = g_eof (p_grammar p)
      then reduce_until_stable p user (current_column s) (tok_terminal token) (tok_column token) s
      else Some (Inr (), s))"

definition replay_token :: "'b parser \<Rightarrow> ('b, 'v, 'l) user_build \<Rightarrow> parse_token \<Rightarrow> ('v, 'l) session \<Rightarrow>
    (bool, ('v, 'l) session) step_result option" where
  "replay_token p user token s =
     (let column = current_column s in
      case reduce_until_stable p user column (tok_terminal token) (tok_column token) s of
        None \<Rightarrow> None
      | Some (Inl e, s) \<Rightarrow> Some (Inl e, s)
      | Some (Inr _, s) \<Rightarrow>
          if tok_terminal token = g_eof (p_grammar p) \<and> session_accepted s \<noteq> [] then Some (Inr True, s)
          else (case shift_parse_token p user column token s of
              None \<Rightarrow> None
            | Some (Inl (Failed (NoActiveStacks _)), s) \<Rightarrow>
                map_option (\<lambda>(r, s). (case r of Inl e \<Rightarrow> Inl e | Inr _ \<Rightarrow> Inr False, s)) (delete_parse_token p user column token s)
            | Some (Inl Panicked, s) \<Rightarrow> Some (Inl Panicked, s)
            | Some (_, s) \<Rightarrow>
                map_option (\<lambda>(r, s). (case r of Inl e \<Rightarrow> Inl e | Inr _ \<Rightarrow> Inr False, s)) (after_shift p user token s)))"

fun replay :: "'b parser \<Rightarrow> ('b, 'v, 'l) user_build \<Rightarrow> parse_token list \<Rightarrow> ('v, 'l) session \<Rightarrow>
    (unit, ('v, 'l) session) step_result option" where
  "replay p user [] s = Some (Inr (), s)"
| "replay p user (token # tokens) s = (case replay_token p user token s of
     None \<Rightarrow> None
   | Some (Inl e, s) \<Rightarrow> Some (Inl e, s)
   | Some (Inr True, s) \<Rightarrow> Some (Inr (), s)
   | Some (Inr False, s) \<Rightarrow> replay p user tokens s)"

text \<open>The session of a new document: one column with the start node; the truncation to it opens generation 1.\<close>

definition cold_session :: "('v, 'l) build_store \<Rightarrow> ('v, 'l) session" where
  "cold_session st =
     (let (start, g) = gss_add_node 0 0 0 gss_new in
      \<lparr>ps_store = st, ps_gss = g, ps_columns = [column_new None [start]], ps_generation = 1, ps_diagnostics = [],
       ps_token_columns = Map.empty, ps_token_products = Map.empty, ps_reduced = Map.empty, ps_origins = Map.empty\<rparr>)"

definition cold_parse :: "'b parser \<Rightarrow> ('b, 'v, 'l) user_build \<Rightarrow> ('v, 'l) build_store \<Rightarrow> parse_token list \<Rightarrow>
    (unit, ('v, 'l) session) step_result option" where
  "cold_parse p user st tokens = replay p user tokens (cold_session st)"

end
