(* ===== verification/LR_Closure.thy ===== *)
theory LR_Closure
  imports LR_Build
begin

text \<open>
  The closure and goto loops of \<^verbatim>\<open>src/framework/parse/build.rs\<close> compute the textbook closure and
  goto of canonical LR(1) items, over the FIRST relation of the grammar's derivations.
\<close>

section \<open>The specification\<close>

abbreviation rule_lhs :: "'b grammar \<Rightarrow> nat \<Rightarrow> nat" where
  "rule_lhs g p \<equiv> fst (grammar_rules g ! p)"

abbreviation rule_rhs :: "'b grammar \<Rightarrow> nat \<Rightarrow> symbol list" where
  "rule_rhs g p \<equiv> snd (grammar_rules g ! p)"

fun item_ok :: "'b grammar \<Rightarrow> lr1_item \<Rightarrow> bool" where
  "item_ok g (LR1Item p d a) \<longleftrightarrow> p < length (grammar_rules g) \<and> d \<le> length (rule_rhs g p) \<and> a \<in> g_terminal_ids g"

fun after_dot :: "'b grammar \<Rightarrow> lr1_item \<Rightarrow> symbol option" where
  "after_dot g (LR1Item p d a) = nth_opt (rule_rhs g p) d"

fun successors :: "'b grammar \<Rightarrow> lr1_item \<Rightarrow> lr1_item set" where
  "successors g (LR1Item p d a) =
     {LR1Item q 0 t | q t. after_dot g (LR1Item p d a) = Some (N (rule_lhs g q)) \<and> q < length (grammar_rules g) \<and>
        first_seq (grammar_rules g) t (drop (d + 1) (rule_rhs g p) @ [T a])}"

inductive_set closed :: "'b grammar \<Rightarrow> lr1_item set \<Rightarrow> lr1_item set" for g S where
  closed_seed: "i \<in> S \<Longrightarrow> i \<in> closed g S"
| closed_step: "i \<in> closed g S \<Longrightarrow> j \<in> successors g i \<Longrightarrow> j \<in> closed g S"

definition moved :: "'b grammar \<Rightarrow> lr1_item set \<Rightarrow> symbol \<Rightarrow> lr1_item set" where
  "moved g I X = {LR1Item p (Suc d) a | p d a. LR1Item p d a \<in> I \<and> after_dot g (LR1Item p d a) = Some X}"

definition goto_set :: "'b grammar \<Rightarrow> lr1_item set \<Rightarrow> symbol \<Rightarrow> lr1_item set" where
  "goto_set g I X = closed g (moved g I X)"

section \<open>Terminals stay known\<close>

lemma first_known:
  "first rs t X \<Longrightarrow> (\<And>l r. (l, r) \<in> set rs \<Longrightarrow> \<forall>Y \<in> set r. symbol_known ts n Y) \<Longrightarrow> symbol_known ts n X \<Longrightarrow> t \<in> ts"
proof (induction rule: first.induct)
  case (first_N m u X v)
  have "symbol_known ts n X" using first_N.prems(1) [OF first_N.hyps(1)] by simp
  then show ?case using first_N.IH first_N.prems(1) by blast
qed simp

lemma first_seq_known:
  "first_seq rs t w \<Longrightarrow> (\<And>l r. (l, r) \<in> set rs \<Longrightarrow> \<forall>Y \<in> set r. symbol_known ts n Y) \<Longrightarrow> \<forall>X \<in> set w. symbol_known ts n X \<Longrightarrow> t \<in> ts"
  by (induction w) (auto intro: first_known)

lemma analyzed_ok: "analyzed g \<Longrightarrow> grammar_ok g" "analyzed g \<Longrightarrow> indexed g"
  by (simp_all add: analyzed_def nu_done_def)

lemma rule_known_symbols:
  "grammar_ok g \<Longrightarrow> p < length (grammar_rules g) \<Longrightarrow> \<forall>X \<in> set (rule_rhs g p). known g X"
  by (metis grammar_rules_known(2) nth_mem prod.collapse)

lemma rule_lhs_bound: "grammar_ok g \<Longrightarrow> p < length (grammar_rules g) \<Longrightarrow> rule_lhs g p < nts g"
  by (metis grammar_rules_known(1) nth_mem prod.collapse)

lemma rule_rhs_short:
  assumes "grammar_ok g" "p < length (grammar_rules g)" shows "length (rule_rhs g p) < 2 ^ 32"
proof -
  have "production_rhs g p = Some (rule_rhs g p)" using grammar_rhs_nth [OF assms] .
  then obtain n k where "take n (drop k (g_rhs_symbols g)) = rule_rhs g p"
    by (auto simp: production_rhs_def production_rhs_of_def slice_def bind_eq_Some_conv split: if_splits)
  from this [symmetric] have "length (rule_rhs g p) \<le> length (g_rhs_symbols g)" by simp
  then show ?thesis using assms(1) by (simp add: grammar_ok_def)
qed

lemma successors_ok:
  assumes "analyzed g" "item_ok g i" "j \<in> successors g i" shows "item_ok g j"
proof -
  obtain p d a where i: "i = LR1Item p d a" by (cases i)
  obtain q t where j: "j = LR1Item q 0 t" "q < length (grammar_rules g)"
      "first_seq (grammar_rules g) t (drop (d + 1) (rule_rhs g p) @ [T a])"
    using assms(3) by (auto simp: i)
  have "\<forall>X \<in> set (drop (d + 1) (rule_rhs g p) @ [T a]). known g X"
    using rule_known_symbols [OF analyzed_ok(1) [OF assms(1)], of p] assms(2) by (auto simp: i dest: in_set_dropD)
  then have "t \<in> g_terminal_ids g"
    using first_seq_known [OF j(3), of "g_terminal_ids g" "nts g"] grammar_rules_known(2) [OF analyzed_ok(1) [OF assms(1)]] by blast
  then show ?thesis using j by simp
qed

lemma closed_ok: "i \<in> closed g S \<Longrightarrow> analyzed g \<Longrightarrow> \<forall>j \<in> S. item_ok g j \<Longrightarrow> item_ok g i"
  by (induction rule: closed.induct) (auto intro: successors_ok)

section \<open>The closure loop\<close>

lemma symbol_after_dot_eq: "grammar_ok g \<Longrightarrow> item_ok g i \<Longrightarrow> symbol_after_dot g i = Some (after_dot g i)"
  by (cases i) (simp add: symbol_after_dot_def grammar_rhs_nth)

lemma iset_insert_set [simp]: "set (iset_insert x xs) = insert x (set xs)" "distinct (iset_insert x xs) = distinct xs"
  by (auto simp: iset_insert_def)

lemma fold_iset_insert: "set (fold iset_insert ys xs) = set ys \<union> set xs" "distinct (fold iset_insert ys xs) = distinct xs"
  by (induction ys arbitrary: xs) auto

definition extends :: "'a list \<Rightarrow> 'a list \<Rightarrow> 'a set \<Rightarrow> bool" where
  "extends xs ys A \<longleftrightarrow> set ys = set xs \<union> A \<and> (distinct xs \<longrightarrow> distinct ys) \<and> (\<exists>zs. ys = xs @ zs)"

lemma extends_insert: "extends xs (iset_insert x xs) {x}"
  by (auto simp: extends_def iset_insert_def)

lemma extends_trans: "extends xs ys A \<Longrightarrow> extends ys zs B \<Longrightarrow> extends xs zs (A \<union> B)"
  by (auto simp: extends_def)

lemma fold_extends:
  assumes "\<And>x xs. x \<in> set ks \<Longrightarrow> \<exists>ys. f x xs = Some ys \<and> extends xs ys (A x)"
  shows "\<exists>ys. fold_opt f ks xs = Some ys \<and> extends xs ys (\<Union>x \<in> set ks. A x)"
  using assms
proof (induction ks arbitrary: xs)
  case (Cons k ks)
  obtain ys where ys: "f k xs = Some ys" "extends xs ys (A k)" using Cons.prems [of k xs] by auto
  obtain zs where "fold_opt f ks ys = Some zs" "extends ys zs (\<Union>x \<in> set ks. A x)"
    using Cons.IH [of ys] Cons.prems by auto
  then show ?case using ys extends_trans by fastforce
qed (simp add: extends_def)

lemma closure_items_extends:
  assumes "length las = terminal_count g"
  shows "\<exists>r. closure_items g las prods result = Some r \<and>
    extends result r {LR1Item p 0 (tid g l) | p l. p \<in> set prods \<and> l < terminal_count g \<and> las ! l}"
proof -
  have inner: "\<exists>ys. fold_opt (\<lambda>l r. map_option (\<lambda>t. iset_insert (LR1Item p 0 t) r) (terminal_at g l)) (iter_ones las) xs = Some ys \<and>
      extends xs ys (\<Union>l \<in> set (iter_ones las). {LR1Item p 0 (tid g l)})" for p xs
    by (rule fold_extends) (use assms in \<open>auto simp: iter_ones_def terminal_at_def terminal_count_def intro!: extends_insert\<close>)
  have "\<exists>ys. closure_items g las prods result = Some ys \<and>
      extends result ys (\<Union>p \<in> set prods. \<Union>l \<in> set (iter_ones las). {LR1Item p 0 (tid g l)})"
    unfolding closure_items_def by (rule fold_extends) (rule inner)
  moreover have "(\<Union>p \<in> set prods. \<Union>l \<in> set (iter_ones las). {LR1Item p 0 (tid g l)}) =
      {LR1Item p 0 (tid g l) | p l. p \<in> set prods \<and> l < terminal_count g \<and> las ! l}"
    using assms by (auto simp: iter_ones_def)
  ultimately show ?thesis by simp
qed

lemma closure_step_extends:
  assumes "analyzed g" "item_ok g i"
  shows "\<exists>r. closure_step g i result = Some r \<and> extends result r (successors g i)"
proof -
  have ok: "grammar_ok g" using assms(1) by (rule analyzed_ok)
  obtain p d a where i: "i = LR1Item p d a" "p < length (grammar_rules g)" "a \<in> g_terminal_ids g"
    using assms(2) by (cases i) auto
  have sym: "symbol_after_dot g i = Some (after_dot g i)" by (rule symbol_after_dot_eq [OF ok assms(2)])
  show ?thesis
  proof (cases "\<exists>b. after_dot g i = Some (N b)")
    case False
    then have "successors g i = {}" by (auto simp: i)
    then show ?thesis
      using False sym by (cases "after_dot g i"; cases "the (after_dot g i)") (auto simp: closure_step_def extends_def)
  next
    case True
    then obtain b where b: "after_dot g i = Some (N b)" by blast
    let ?beta = "drop (d + 1) (rule_rhs g p)"
    have all: "\<forall>X \<in> set (rule_rhs g p). known g X" by (rule rule_known_symbols [OF ok i(2)])
    then have "\<forall>X \<in> set ?beta. known g X" by (auto dest: in_set_dropD)
    from first_of_sequence_correct [OF assms(1) this i(3)] obtain las where las:
      "first_of_sequence g ?beta a = Some las" "length las = terminal_count g"
      "\<forall>l < terminal_count g. las ! l \<longleftrightarrow> first_seq (grammar_rules g) (tid g l) (?beta @ [T a])" by blast
    have "N b \<in> set (rule_rhs g p)" using b by (auto simp: i nth_opt_Some_iff)
    then have "b < nts g" using all by force
    then have prods: "production_ids_for g b = Some (filter (\<lambda>q. rule_lhs g q = b) [0..<length (grammar_rules g)])"
      using assms(1) by (simp add: analyzed_def productions_listed_def)
    let ?A = "{LR1Item q 0 (tid g l) | q l. q \<in> set (filter (\<lambda>q. rule_lhs g q = b) [0..<length (grammar_rules g)]) \<and>
        l < terminal_count g \<and> las ! l}"
    have "t \<in> tid g ` {..<terminal_count g}" if "first_seq (grammar_rules g) t (?beta @ [T a])" for t
    proof -
      have "t \<in> g_terminal_ids g"
        using successors_ok [OF assms] first_seq_known [OF that, of "g_terminal_ids g" "nts g"] all i(3) grammar_rules_known(2) [OF ok]
        by (fastforce dest: in_set_dropD)
      then show ?thesis by (auto simp: g_terminal_ids_def in_set_conv_nth terminal_count_def)
    qed
    then have "t \<in> tid g ` {l. l < terminal_count g \<and> las ! l} \<longleftrightarrow> first_seq (grammar_rules g) t (?beta @ [T a])" for t
      using las(3) by blast
    moreover have "?A = {LR1Item q 0 t | q t. rule_lhs g q = b \<and> q < length (grammar_rules g) \<and>
        t \<in> tid g ` {l. l < terminal_count g \<and> las ! l}}" by auto
    moreover have "successors g i = {LR1Item q 0 t | q t. rule_lhs g q = b \<and> q < length (grammar_rules g) \<and>
        first_seq (grammar_rules g) t (?beta @ [T a])}"
      using b by (auto simp: i)
    ultimately have "successors g i = ?A" by simp
    moreover have "closure_step g i result = closure_items g las (filter (\<lambda>q. rule_lhs g q = b) [0..<length (grammar_rules g)]) result"
      using sym b las(1) prods by (simp add: closure_step_def suffix_after_dot_def grammar_rhs_nth [OF ok] i)
    ultimately show ?thesis
      using closure_items_extends [OF las(2), of "filter (\<lambda>q. rule_lhs g q = b) [0..<length (grammar_rules g)]" result] by simp
  qed
qed

lemma closure_loop_correct:
  assumes "analyzed g" "\<forall>i \<in> set result. item_ok g i" "set result \<subseteq> closed g S" "S \<subseteq> set result" "distinct result"
    and "\<forall>j < i. successors g (result ! j) \<subseteq> set result" "i \<le> length result"
  shows "\<exists>r. closure_loop g i result = Some r \<and> distinct r \<and> set r = closed g S"
  using assms
proof (induction g i result rule: closure_loop.induct)
  case (1 g i result)
  show ?case
  proof (cases "i < length result")
    case True
    let ?x = "result ! i"
    have x: "?x \<in> set result" using True by simp
    obtain r where r: "closure_step g ?x result = Some r" "extends result r (successors g ?x)"
      using closure_step_extends [OF "1.prems"(1), of ?x result] "1.prems"(2) x by blast
    obtain zs where zs: "r = result @ zs" using r(2) by (auto simp: extends_def)
    have "set r = set result \<union> successors g ?x" "distinct r" using r(2) "1.prems"(5) by (auto simp: extends_def)
    moreover have "\<forall>i \<in> set r. item_ok g i"
      using calculation(1) "1.prems"(1,2) x successors_ok by blast
    moreover have "set r \<subseteq> closed g S"
      using calculation(1) "1.prems"(3) x closed_step by blast
    moreover have "S \<subseteq> set r" using calculation(1) "1.prems"(4) by blast
    moreover have "\<forall>j < i + 1. successors g (r ! j) \<subseteq> set r"
      using "1.prems"(6) calculation(1) True by (auto simp: zs nth_append less_Suc_eq)
    ultimately have "\<exists>r'. closure_loop g (i + 1) r = Some r' \<and> distinct r' \<and> set r' = closed g S"
      using "1.IH" [OF True r(1)] "1.prems"(1) True zs by simp
    then show ?thesis using True r(1) by (subst closure_loop.simps) simp
  next
    case False
    have "j \<in> set result" if "j \<in> closed g S" for j
      using that
    proof induction
      case (closed_step i j)
      then show ?case using "1.prems"(6,7) False by (metis in_set_conv_nth le_antisym not_le subsetD)
    qed (use "1.prems"(4) in blast)
    then show ?thesis using False "1.prems"(3,5) by (subst closure_loop.simps) auto
  qed
qed

lemma closure_correct:
  assumes "analyzed g" "\<forall>i \<in> set seed. item_ok g i"
  shows "\<exists>r. closure g seed = Some r \<and> sorted r \<and> distinct r \<and> set r = closed g (set seed)"
proof -
  have "\<exists>r. closure_loop g 0 (fold iset_insert seed []) = Some r \<and> distinct r \<and> set r = closed g (set seed)"
    by (rule closure_loop_correct) (use assms in \<open>auto simp: fold_iset_insert intro: closed_seed\<close>)
  then show ?thesis by (auto simp: closure_def)
qed

section \<open>Goto\<close>

lemma filter_map_opt_eq:
  "(\<And>x. x \<in> set xs \<Longrightarrow> f x = Some (h x)) \<Longrightarrow> filter_map_opt f xs = Some (List.map_filter h xs)"
  by (induction xs) (auto simp: List.map_filter_def split: option.split)

lemma map_filter_set: "y \<in> set (List.map_filter h xs) \<longleftrightarrow> (\<exists>x \<in> set xs. h x = Some y)"
  by (force simp: List.map_filter_def)

lemma move_dot_one: "grammar_ok g \<Longrightarrow> item_ok g (LR1Item p d a) \<Longrightarrow> move_dot (LR1Item p d a) 1 = LR1Item p (Suc d) a"
proof -
  assume "grammar_ok g" "item_ok g (LR1Item p d a)"
  then have "d < 2 ^ 32" using rule_rhs_short [of g p] by simp
  then have "(int d + 1) mod 2 ^ 64 = int d + 1" by (intro mod_pos_pos_trivial) auto
  then show ?thesis by (simp add: move_dot_def)
qed

lemma moved_ok: "\<forall>i \<in> I. item_ok g i \<Longrightarrow> i \<in> moved g I X \<Longrightarrow> item_ok g i"
  by (fastforce simp: moved_def nth_opt_Some_iff)

lemma goto_correct:
  assumes "analyzed g" "\<forall>i \<in> set items. item_ok g i"
  shows "\<exists>r. goto g items X = Some r \<and> sorted r \<and> distinct r \<and> set r = goto_set g (set items) X"
proof -
  have ok: "grammar_ok g" using assms(1) by (rule analyzed_ok)
  let ?h = "\<lambda>i. if after_dot g i = Some X then Some (move_dot i 1) else None"
  have "filter_map_opt (\<lambda>i. map_option (\<lambda>s. if s = Some X then Some (move_dot i 1) else None) (symbol_after_dot g i)) items =
      Some (List.map_filter ?h items)"
    by (rule filter_map_opt_eq) (use assms(2) in \<open>simp add: symbol_after_dot_eq [OF ok]\<close>)
  moreover have set: "set (List.map_filter ?h items) = moved g (set items) X"
  proof (intro set_eqI iffI)
    fix j assume "j \<in> set (List.map_filter ?h items)"
    then obtain i where i: "i \<in> set items" "after_dot g i = Some X" "j = move_dot i 1" by (auto simp: map_filter_set split: if_splits)
    obtain p d a where p: "i = LR1Item p d a" by (cases i)
    then have "item_ok g (LR1Item p d a)" using assms(2) i(1) by blast
    then have "j = LR1Item p (Suc d) a" using move_dot_one [OF ok, of p d a] i(3) p by simp
    then show "j \<in> moved g (set items) X" using i p by (auto simp: moved_def)
  next
    fix j assume "j \<in> moved g (set items) X"
    then obtain p d a where i: "j = LR1Item p (Suc d) a" "LR1Item p d a \<in> set items" "after_dot g (LR1Item p d a) = Some X"
      by (auto simp: moved_def)
    then have "?h (LR1Item p d a) = Some j" using move_dot_one [OF ok, of p d a] assms(2) by auto
    then show "j \<in> set (List.map_filter ?h items)" using i(2) unfolding map_filter_set by blast
  qed
  moreover have "\<forall>i \<in> set (List.map_filter ?h items). item_ok g i" using moved_ok assms(2) set by blast
  ultimately show ?thesis
    using closure_correct [OF assms(1), of "List.map_filter ?h items"] by (simp add: goto_def goto_set_def)
qed

lemma goto_set_ok: "analyzed g \<Longrightarrow> \<forall>i \<in> I. item_ok g i \<Longrightarrow> j \<in> goto_set g I X \<Longrightarrow> item_ok g j"
  unfolding goto_set_def using closed_ok [of j g "moved g I X"] moved_ok [of I g] by blast

lemma transition_symbols_correct:
  assumes "grammar_ok g" "\<forall>i \<in> set items. item_ok g i"
  shows "\<exists>xs. transition_symbols g items = Some xs \<and> sorted xs \<and> distinct xs \<and>
    set xs = {X. \<exists>i \<in> set items. after_dot g i = Some X}"
proof -
  have "filter_map_opt (symbol_after_dot g) items = Some (List.map_filter (after_dot g) items)"
    by (rule filter_map_opt_eq) (use assms in \<open>simp add: symbol_after_dot_eq\<close>)
  then show ?thesis by (auto simp: transition_symbols_def map_filter_set)
qed

lemma goto_set_nonempty: "i \<in> I \<Longrightarrow> after_dot g i = Some X \<Longrightarrow> goto_set g I X \<noteq> {}"
proof -
  assume i: "i \<in> I" "after_dot g i = Some X"
  obtain p d a where "i = LR1Item p d a" by (cases i)
  then have "LR1Item p (Suc d) a \<in> moved g I X" using i by (auto simp: moved_def)
  then show ?thesis unfolding goto_set_def using closed_seed by blast
qed

end
