(* ===== verification/LR_States.thy ===== *)
theory LR_States
  imports LR_Closure
begin

text \<open>
  The breadth-first construction of \<^verbatim>\<open>build_lr1_with_config\<close>: it ends, its states are the
  canonical collection (the item sets reachable from the start state by goto, each once), and
  its transitions are goto on them.
\<close>

section \<open>The canonical collection\<close>

definition start_set :: "'b grammar \<Rightarrow> lr1_item set" where
  "start_set g = closed g {LR1Item 0 0 (g_eof g)}"

inductive_set canonical_sets :: "'b grammar \<Rightarrow> lr1_item set set" for g where
  canonical_start: "start_set g \<in> canonical_sets g"
| canonical_goto: "I \<in> canonical_sets g \<Longrightarrow> i \<in> I \<Longrightarrow> after_dot g i = Some X \<Longrightarrow> goto_set g I X \<in> canonical_sets g"

definition items_of :: "lr1_state list \<Rightarrow> nat \<Rightarrow> lr1_item set" where
  "items_of states s = set (lr_items (states ! s))"

definition has_symbol :: "'b grammar \<Rightarrow> lr1_item set \<Rightarrow> symbol \<Rightarrow> bool" where
  "has_symbol g I X \<longleftrightarrow> (\<exists>i \<in> I. after_dot g i = Some X)"

lemma map_of_imap_insert [simp]: "map_of (imap_insert k v kvs) = (map_of kvs)(k \<mapsto> v)"
  by (induction k v kvs rule: imap_insert.induct) auto

lemma distinct_imap_insert: "distinct (map fst kvs) \<Longrightarrow> distinct (map fst (imap_insert k v kvs))"
proof (induction k v kvs rule: imap_insert.induct)
  case (2 k v k' v' kvs)
  have "fst ` set (imap_insert k v kvs) = insert k (fst ` set kvs)" for k :: 'a and v :: 'b and kvs
    by (induction k v kvs rule: imap_insert.induct) auto
  then show ?case using 2 by auto
qed simp

section \<open>The invariant of the loop\<close>

definition state_list_ok :: "'b grammar \<Rightarrow> lr1_state list \<Rightarrow> bool" where
  "state_list_ok g states \<longleftrightarrow> (\<forall>s < length states. lr_id (states ! s) = s) \<and> distinct (map lr_items states) \<and>
     (\<forall>st \<in> set states. sorted (lr_items st) \<and> distinct (lr_items st) \<and> (\<forall>i \<in> set (lr_items st). item_ok g i) \<and>
        set (lr_items st) \<in> canonical_sets g) \<and>
     states \<noteq> [] \<and> items_of states 0 = start_set g"

definition transitions_ok :: "'b grammar \<Rightarrow> lr1_state list \<Rightarrow> ((nat \<times> symbol) \<times> nat) list \<Rightarrow> bool" where
  "transitions_ok g states ts \<longleftrightarrow> distinct (map fst ts) \<and>
     (\<forall>s X t. map_of ts (s, X) = Some t \<longrightarrow> s < length states \<and> t < length states \<and> has_symbol g (items_of states s) X \<and>
        items_of states t = goto_set g (items_of states s) X)"

text \<open>\<open>todo\<close>: the symbols of the state being expanded that are still to come.\<close>

definition build_inv :: "'b grammar \<Rightarrow> (nat \<times> symbol) set \<Rightarrow> lr1_work \<Rightarrow> bool" where
  "build_inv g todo w \<longleftrightarrow> w_keys w = map lr_items (w_states w) \<and> state_list_ok g (w_states w) \<and>
     transitions_ok g (w_states w) (w_transitions w) \<and> (\<forall>s \<in> set (w_queue w). s < length (w_states w)) \<and> distinct (w_queue w) \<and>
     (\<forall>s < length (w_states w). \<forall>X. s \<notin> set (w_queue w) \<longrightarrow> has_symbol g (items_of (w_states w) s) X \<longrightarrow>
        (s, X) \<in> todo \<or> map_of (w_transitions w) (s, X) \<noteq> None)"

definition item_space :: "'b grammar \<Rightarrow> lr1_item set" where
  "item_space g = {i. item_ok g i}"

lemma item_space_finite: "finite (item_space g)"
proof -
  let ?m = "Max (insert 0 (length ` snd ` set (grammar_rules g)))"
  have "length (rule_rhs g p) \<le> ?m" if "p < length (grammar_rules g)" for p
    using that by (intro Max_ge) auto
  then have "item_space g \<subseteq> (\<lambda>(p, d, a). LR1Item p d a) ` ({..<length (grammar_rules g)} \<times> {..?m} \<times> g_terminal_ids g)"
    unfolding item_space_def by (clarify, case_tac x) (force intro: order.trans)
  then show ?thesis by (rule finite_subset) (simp add: g_terminal_ids_def)
qed

definition key_space :: "'b grammar \<Rightarrow> lr1_item list set" where
  "key_space g = {k. distinct k \<and> set k \<subseteq> item_space g}"

lemma key_space_finite: "finite (key_space g)"
proof -
  have "length k \<le> card (item_space g)" if "distinct k" "set k \<subseteq> item_space g" for k
    using that card_mono [OF item_space_finite] by (metis distinct_card)
  then have "key_space g \<subseteq> {k. set k \<subseteq> item_space g \<and> length k \<le> card (item_space g)}" by (auto simp: key_space_def)
  then show ?thesis by (rule finite_subset) (rule finite_lists_length_le [OF item_space_finite])
qed

definition states_left :: "'b grammar \<Rightarrow> lr1_work \<Rightarrow> nat" where
  "states_left g w = card (key_space g - set (w_keys w)) + length (w_queue w)"

section \<open>One transition\<close>

lemma items_of_append: "s < length states \<Longrightarrow> items_of (states @ extra) s = items_of states s"
  by (simp add: items_of_def nth_append)

lemma state_set_eq:
  "state_list_ok g states \<Longrightarrow> s < length states \<Longrightarrow> sorted k \<Longrightarrow> distinct k \<Longrightarrow> set k = items_of states s \<Longrightarrow> lr_items (states ! s) = k"
  by (auto simp: state_list_ok_def items_of_def intro: sorted_distinct_set_unique)

lemma state_facts:
  assumes "state_list_ok g states" "s < length states"
  shows "\<forall>i \<in> items_of states s. item_ok g i" "items_of states s \<in> canonical_sets g"
proof -
  have "states ! s \<in> set states" using assms(2) by simp
  then show "\<forall>i \<in> items_of states s. item_ok g i" "items_of states s \<in> canonical_sets g"
    using assms(1) unfolding state_list_ok_def items_of_def by blast+
qed

lemma expand_symbol_correct:
  assumes "analyzed g" "build_inv g todo w" "s < length (w_states w)" "has_symbol g (items_of (w_states w) s) X"
    and "s \<notin> set (w_queue w)"
  shows "\<exists>w'. expand_symbol g s X w = Some w' \<and> build_inv g (todo - {(s, X)}) w' \<and> states_left g w' = states_left g w \<and>
    s < length (w_states w') \<and> items_of (w_states w') s = items_of (w_states w) s \<and> s \<notin> set (w_queue w')"
proof -
  let ?st = "w_states w" and ?ts = "w_transitions w"
  let ?I = "items_of ?st s"
  have inv: "w_keys w = map lr_items ?st" "state_list_ok g ?st" "transitions_ok g ?st ?ts"
    "\<forall>q \<in> set (w_queue w). q < length ?st" "distinct (w_queue w)" using assms(2) by (simp_all add: build_inv_def)
  have covered: "(q, Y) \<in> todo \<or> map_of ?ts (q, Y) \<noteq> None"
    if "q < length ?st" "q \<notin> set (w_queue w)" "has_symbol g (items_of ?st q) Y" for q Y
    using that assms(2) by (simp add: build_inv_def)
  have I: "\<forall>i \<in> ?I. item_ok g i" "?I \<in> canonical_sets g"
    using state_facts [OF inv(2) assms(3)] .
  obtain items where items: "goto g (lr_items (?st ! s)) X = Some items" "sorted items" "distinct items"
      "set items = goto_set g ?I X"
    using goto_correct [OF assms(1), of "lr_items (?st ! s)" X] I(1) by (auto simp: items_of_def)
  obtain i where i: "i \<in> ?I" "after_dot g i = Some X" using assms(4) by (auto simp: has_symbol_def)
  then have ne: "items \<noteq> []" using goto_set_nonempty [OF i] items(4) by auto
  have ok: "\<forall>i \<in> set items. item_ok g i" "set items \<in> canonical_sets g"
    using goto_set_ok [OF assms(1) I(1)] items(4) canonical_goto [OF I(2) i] by auto
  show ?thesis
  proof (cases "position (\<lambda>k. k = items) (w_keys w)")
    case (Some t)
    then have t: "t < length ?st" "lr_items (?st ! t) = items" using position_Some [OF Some] inv(1) by auto
    let ?w = "w\<lparr>w_transitions := imap_insert (s, X) t ?ts\<rparr>"
    have "expand_symbol g s X w = Some ?w"
      using assms(3) items(1) ne Some by (simp add: expand_symbol_def intern_state_def)
    moreover have "transitions_ok g ?st (w_transitions ?w)"
      using inv(3) t items(4) assms(3,4) by (auto simp: transitions_ok_def distinct_imap_insert items_of_def)
    ultimately show ?thesis using inv covered assms(3,5) by (auto simp: build_inv_def states_left_def)
  next
    case None
    then have new: "items \<notin> set (w_keys w)" by (auto simp: position_None_iff)
    let ?t = "length ?st" and ?st' = "?st @ [\<lparr>lr_id = length ?st, lr_items = items\<rparr>]"
    let ?w = "w\<lparr>w_states := ?st', w_keys := w_keys w @ [items], w_queue := w_queue w @ [?t],
      w_transitions := imap_insert (s, X) ?t ?ts\<rparr>"
    have step: "expand_symbol g s X w = Some ?w"
      using assms(3) items(1) ne None by (simp add: expand_symbol_def intern_state_def)
    have "state_list_ok g ?st'"
      using inv(1,2) new ok items(2,3)
      by (auto simp: state_list_ok_def nth_append less_Suc_eq items_of_append)
    moreover have "transitions_ok g ?st' (w_transitions ?w)"
      using inv(3) items(4) assms(3,4)
      by (auto simp: transitions_ok_def distinct_imap_insert items_of_append less_Suc_eq) (simp add: items_of_def)+
    moreover have "states_left g ?w = states_left g w"
    proof -
      have "items \<in> key_space g - set (w_keys w)" using new items(3) ok(1) by (auto simp: key_space_def item_space_def)
      moreover have "key_space g - set (w_keys ?w) = (key_space g - set (w_keys w)) - {items}" by auto
      ultimately show ?thesis
        using card.remove [of "key_space g - set (w_keys w)" items] key_space_finite [of g] by (simp add: states_left_def)
    qed
    moreover have "(q, Y) \<in> todo - {(s, X)} \<or> map_of (w_transitions ?w) (q, Y) \<noteq> None"
      if "q < length ?st'" "q \<notin> set (w_queue ?w)" "has_symbol g (items_of ?st' q) Y" for q Y
      using that covered [of q Y] by (auto simp: items_of_append less_Suc_eq)
    ultimately show ?thesis
      using step inv(1,4,5) assms(3,5) by (auto simp: build_inv_def items_of_append)
  qed
qed

lemma expand_symbols_correct:
  assumes "analyzed g" "build_inv g (todo \<union> {s} \<times> set Xs) w" "s < length (w_states w)" "\<forall>X \<in> set Xs. has_symbol g (items_of (w_states w) s) X"
    and "s \<notin> set (w_queue w)"
  shows "\<exists>w'. fold_opt (expand_symbol g s) Xs w = Some w' \<and> build_inv g todo w' \<and> states_left g w' = states_left g w"
  using assms(2-5)
proof (induction Xs arbitrary: w)
  case (Cons X Xs)
  have X: "has_symbol g (items_of (w_states w) s) X" using Cons.prems(3) by simp
  from expand_symbol_correct [OF assms(1) Cons.prems(1,2) X Cons.prems(4)] obtain w1 where w1:
    "expand_symbol g s X w = Some w1" "build_inv g ((todo \<union> {s} \<times> set (X # Xs)) - {(s, X)}) w1" "states_left g w1 = states_left g w"
    "s < length (w_states w1)" "items_of (w_states w1) s = items_of (w_states w) s" "s \<notin> set (w_queue w1)" by blast
  have "build_inv g (todo \<union> {s} \<times> set Xs) w1"
    using w1(2) by (auto simp: build_inv_def)
  from Cons.IH [OF this w1(4) _ w1(6)] Cons.prems(3) w1 show ?case by auto
qed simp

lemma build_states_correct:
  assumes "analyzed g" "build_inv g {} w"
  shows "\<exists>w'. build_states g w = Some w' \<and> build_inv g {} w' \<and> w_queue w' = []"
  using assms(2)
proof (induction "states_left g w" arbitrary: w rule: less_induct)
  case less
  show ?case
  proof (cases "w_queue w")
    case Nil
    then show ?thesis using less.prems by (subst build_states.simps) simp
  next
    case (Cons s queue)
    let ?w = "w\<lparr>w_queue := queue\<rparr>" and ?items = "lr_items (w_states w ! s)"
    have s: "s < length (w_states w)" using less.prems Cons by (simp add: build_inv_def)
    have ok: "\<forall>i \<in> set ?items. item_ok g i" using state_facts(1) [of g "w_states w" s] less.prems s
      by (simp add: build_inv_def items_of_def)
    obtain Xs where Xs: "transition_symbols g ?items = Some Xs" "set Xs = {X. has_symbol g (items_of (w_states w) s) X}"
      using transition_symbols_correct [OF analyzed_ok(1) [OF assms(1)] ok] by (auto simp: has_symbol_def items_of_def)
    have left: "states_left g ?w < states_left g w" using Cons by (simp add: states_left_def)
    have q: "s \<notin> set queue" using less.prems Cons by (simp add: build_inv_def)
    have "build_inv g ({} \<union> {s} \<times> set Xs) ?w" using less.prems Cons Xs(2) by (auto simp: build_inv_def)
    from expand_symbols_correct [OF assms(1) this] obtain w1 where
      "fold_opt (expand_symbol g s) Xs ?w = Some w1" "build_inv g {} w1" "states_left g w1 = states_left g ?w"
      using s Xs(2) q by auto
    then show ?thesis using less.hyps [of w1] left Cons s Xs(1) by (subst build_states.simps) (simp add: expand_state_def)
  qed
qed

section \<open>The automaton\<close>

text \<open>What the construction leaves: the states, numbered in order, and their transitions.\<close>

definition automaton_ok :: "'b grammar \<Rightarrow> lr1_state list \<Rightarrow> ((nat \<times> symbol) \<times> nat) list \<Rightarrow> bool" where
  "automaton_ok g states ts \<longleftrightarrow> state_list_ok g states \<and> transitions_ok g states ts \<and>
     (\<forall>s < length states. \<forall>X. has_symbol g (items_of states s) X \<longrightarrow> map_of ts (s, X) \<noteq> None)"

lemma automaton_canonical:
  assumes "automaton_ok g states ts"
  shows "items_of states ` {..<length states} = canonical_sets g" "inj_on (items_of states) {..<length states}"
proof -
  have ok: "state_list_ok g states" "transitions_ok g states ts" using assms by (simp_all add: automaton_ok_def)
  have "\<exists>s < length states. items_of states s = I" if "I \<in> canonical_sets g" for I
    using that
  proof induction
    case canonical_start
    then show ?case using ok(1) by (auto simp: state_list_ok_def)
  next
    case (canonical_goto I i X)
    then obtain s where s: "s < length states" "items_of states s = I" by blast
    then obtain t where "map_of ts (s, X) = Some t"
      using canonical_goto assms by (fastforce simp: automaton_ok_def has_symbol_def)
    then show ?case using ok(2) s(2) unfolding transitions_ok_def by blast
  qed
  then show "items_of states ` {..<length states} = canonical_sets g"
    using state_facts(2) [OF ok(1)] by auto
  show "inj_on (items_of states) {..<length states}"
  proof (rule inj_onI)
    fix s t assume st: "s \<in> {..<length states}" "t \<in> {..<length states}" "items_of states s = items_of states t"
    then have "states ! s \<in> set states" "states ! t \<in> set states" by simp_all
    then have "lr_items (states ! s) = lr_items (states ! t)"
      using ok(1) st(3) unfolding state_list_ok_def items_of_def by (metis sorted_distinct_set_unique)
    moreover have "distinct (map lr_items states)" using ok(1) by (simp add: state_list_ok_def)
    ultimately show "s = t" using st by (metis length_map lessThan_iff nth_eq_iff_index_eq nth_map)
  qed
qed

lemma automaton_built:
  assumes "analyzed g" "g_eof g \<in> g_terminal_ids g"
  shows "\<exists>start w. closure g [LR1Item 0 0 (g_eof g)] = Some start \<and>
    build_states g \<lparr>w_states = [\<lparr>lr_id = 0, lr_items = start\<rparr>], w_keys = [start], w_queue = [0], w_transitions = []\<rparr> = Some w \<and>
    automaton_ok g (w_states w) (w_transitions w)"
proof -
  have "grammar_rules g \<noteq> []"
    using analyzed_ok(1) [OF assms(1)] by (simp add: grammar_ok_def productions_ok_def grammar_rules_def)
  then have "\<forall>i \<in> set [LR1Item 0 0 (g_eof g)]. item_ok g i" using assms(2) by simp
  from closure_correct [OF assms(1) this] obtain start where start: "closure g [LR1Item 0 0 (g_eof g)] = Some start"
    "sorted start" "distinct start" "set start = start_set g" by (auto simp: start_set_def)
  have "\<forall>i \<in> set start. item_ok g i"
    using closed_ok [OF _ assms(1)] start(4) \<open>\<forall>i \<in> set [LR1Item 0 0 (g_eof g)]. item_ok g i\<close> by (fastforce simp: start_set_def)
  then have "build_inv g {} \<lparr>w_states = [\<lparr>lr_id = 0, lr_items = start\<rparr>], w_keys = [start], w_queue = [0], w_transitions = []\<rparr>"
    using start canonical_start [of g] by (auto simp: build_inv_def state_list_ok_def transitions_ok_def items_of_def)
  from build_states_correct [OF assms(1) this] obtain w where
    "build_states g \<lparr>w_states = [\<lparr>lr_id = 0, lr_items = start\<rparr>], w_keys = [start], w_queue = [0], w_transitions = []\<rparr> = Some w"
    "build_inv g {} w" "w_queue w = []" by blast
  then show ?thesis using start(1) by (auto simp: automaton_ok_def build_inv_def)
qed

end
