(* ===== verification/LR_Tables.thy ===== *)
theory LR_Tables
  imports LR_States
begin

text \<open>
  \<^verbatim>\<open>fill_tables\<close> and \<^verbatim>\<open>collect_conflicts\<close> of \<^verbatim>\<open>src/framework/parse/build.rs\<close>: each cell of the
  action table holds exactly the shifts, reductions and accepts that the automaton prescribes,
  the goto table is the transitions on nonterminals, and the conflicts are those of the cells.
\<close>

definition cell :: "'b parser \<Rightarrow> nat \<Rightarrow> nat \<Rightarrow> action_set" where
  "cell p s k = p_actions p ! (s * terminal_count (p_grammar p) + k)"

definition cells_ok :: "'b grammar \<Rightarrow> nat \<Rightarrow> 'b parser \<Rightarrow> bool" where
  "cells_ok g n p \<longleftrightarrow> p_grammar p = g \<and> length (p_actions p) = n * terminal_count g \<and>
     length (p_gotos p) = n * length (g_non_terminals g) \<and>
     (\<forall>s < n. \<forall>k < terminal_count g. distinct (cell p s k))"

text \<open>Row-major indices: different cells have different places.\<close>

lemma row_index_inject: "k < n \<Longrightarrow> k' < n \<Longrightarrow> s * n + k = s' * n + k' \<longleftrightarrow> s = s' \<and> k = (k' :: nat)"
proof
  assume "k < n" "k' < n" "s * n + k = s' * n + k'"
  then have "(s * n + k) div n = (s' * n + k') div n" "(s * n + k) mod n = (s' * n + k') mod n" by simp_all
  then show "s = s' \<and> k = k'" using \<open>k < n\<close> \<open>k' < n\<close> by simp
qed simp

lemma row_index_bound: "s < m \<Longrightarrow> k < n \<Longrightarrow> s * n + k < m * (n :: nat)"
proof -
  assume "s < m" "k < n"
  then have "s * n + k < Suc s * n" by simp
  also have "\<dots> \<le> m * n" using \<open>s < m\<close> by (intro mult_le_mono1) simp
  finally show ?thesis .
qed

lemma known_index:
  assumes "analyzed g" "t \<in> g_terminal_ids g"
  obtains k where "k < terminal_count g" "t = tid g k" "terminal_index g t = Some k"
  using indexed_known [OF analyzed_ok(2) [OF assms(1)] assms(2)] analyzed_ok(2) [OF assms(1)]
  by (metis indexed_def terminal_index_def)

lemma tid_known: "k < terminal_count g \<Longrightarrow> tid g k \<in> g_terminal_ids g"
  by (simp add: g_terminal_ids_def terminal_count_def)

lemma tid_index: "analyzed g \<Longrightarrow> k < terminal_count g \<Longrightarrow> terminal_index g (tid g k) = Some k"
  using analyzed_ok(2) [of g] by (simp add: indexed_def terminal_index_def)

lemma tid_inject: "analyzed g \<Longrightarrow> j < terminal_count g \<Longrightarrow> k < terminal_count g \<Longrightarrow> tid g j = tid g k \<longleftrightarrow> j = k"
  by (metis option.inject tid_index)

lemma action_set_cell:
  "analyzed g \<Longrightarrow> cells_ok g n p \<Longrightarrow> s < n \<Longrightarrow> k < terminal_count g \<Longrightarrow> action_set p s (tid g k) = Some (cell p s k)"
  by (simp add: action_set_def action_index_def tid_index cells_ok_def cell_def row_index_bound)

section \<open>Adding actions\<close>

text \<open>\<open>C\<close>: the actions added, by state and terminal.\<close>

definition adds :: "'b grammar \<Rightarrow> nat \<Rightarrow> 'b parser \<Rightarrow> 'b parser \<Rightarrow> (nat \<times> terminal_id \<times> action) set \<Rightarrow> bool" where
  "adds g n p p' C \<longleftrightarrow>
     (\<forall>s < n. \<forall>k < terminal_count g. set (cell p' s k) = set (cell p s k) \<union> {a. (s, tid g k, a) \<in> C}) \<and>
     p_states p' = p_states p \<and> p_transitions p' = p_transitions p"

lemma adds_refl: "adds g n p p {}"
  by (simp add: adds_def)

lemma adds_trans: "adds g n p q C \<Longrightarrow> adds g n q r D \<Longrightarrow> adds g n p r (C \<union> D)"
  by (auto simp: adds_def)

lemma push_action_adds:
  assumes "analyzed g" "cells_ok g n p" "s < n" "t \<in> g_terminal_ids g"
  shows "\<exists>p'. push_action s t a p = Some p' \<and> adds g n p p' {(s, t, a)} \<and> cells_ok g n p' \<and> p_gotos p' = p_gotos p"
proof -
  obtain k where k: "k < terminal_count g" "t = tid g k" "terminal_index g t = Some k" using known_index [OF assms(1,4)] .
  have g: "p_grammar p = g" using assms(2) by (simp add: cells_ok_def)
  let ?i = "s * terminal_count g + k"
  have i: "?i < length (p_actions p)" using assms(2,3) k(1) row_index_bound by (simp add: cells_ok_def)
  let ?p = "p\<lparr>p_actions := (p_actions p)[?i := action_push a (cell p s k)]\<rparr>"
  have step: "push_action s t a p = Some ?p" using i k(3) by (simp add: push_action_def action_index_def g cell_def)
  have cell: "cell ?p s' k' = (if s' = s \<and> k' = k then action_push a (cell p s k) else cell p s' k')"
    if "k' < terminal_count g" for s' k'
    using i that k(1) row_index_inject [of k' "terminal_count g" k s' s] by (auto simp: cell_def g nth_list_update)
  have "adds g n p ?p {(s, t, a)}"
    using cell tid_inject [OF assms(1)] k by (auto simp: adds_def action_push_def)
  moreover have "cells_ok g n ?p" using assms(2,3) k(1) cell by (auto simp: cells_ok_def action_push_def)
  ultimately show ?thesis using step by simp
qed

section \<open>Transitions\<close>

fun transition_actions :: "(nat \<times> symbol) \<times> nat \<Rightarrow> (nat \<times> terminal_id \<times> action) set" where
  "transition_actions ((s, T t), to) = {(s, t, Shift to)}"
| "transition_actions _ = {}"

lemma automaton_transition:
  assumes "analyzed g" "automaton_ok g states ts" "((s, X), to) \<in> set ts"
  shows "s < length states" "to < length states" "known g X" "has_symbol g (items_of states s) X"
    "items_of states to = goto_set g (items_of states s) X"
proof -
  have ok: "state_list_ok g states" "transitions_ok g states ts" using assms(2) by (simp_all add: automaton_ok_def)
  then have "map_of ts (s, X) = Some to" using assms(3) by (simp add: transitions_ok_def)
  then show s: "s < length states" "to < length states" "has_symbol g (items_of states s) X"
      "items_of states to = goto_set g (items_of states s) X"
    using ok(2) by (auto simp: transitions_ok_def)
  then obtain p d a where i: "LR1Item p d a \<in> items_of states s" "after_dot g (LR1Item p d a) = Some X"
    by (metis has_symbol_def lr1_item.exhaust)
  then have "p < length (grammar_rules g)" "X \<in> set (rule_rhs g p)"
    using state_facts(1) [OF ok(1) s(1)] by (auto simp: nth_opt_Some_iff)
  then show "known g X" using rule_known_symbols [OF analyzed_ok(1) [OF assms(1)]] by blast
qed

lemma set_goto_ok:
  assumes "cells_ok g n p" "s < n" "m < nts g"
  shows "\<exists>p'. set_goto s m to p = Some p' \<and> adds g n p p' {} \<and> cells_ok g n p' \<and>
    p_gotos p' = (p_gotos p)[goto_index g s m := Some to]"
  using assms row_index_bound [OF assms(2,3)]
  by (auto simp: set_goto_def cells_ok_def adds_def goto_index_def cell_def Let_def)

lemma fill_transition_adds:
  assumes "analyzed g" "automaton_ok g states ts" "x \<in> set ts" "cells_ok g (length states) p"
  shows "\<exists>p'. fill_transition x p = Some p' \<and> adds g (length states) p p' (transition_actions x) \<and> cells_ok g (length states) p'"
proof -
  obtain s X to where x: "x = ((s, X), to)" by (metis surj_pair)
  note tr = automaton_transition [OF assms(1,2) assms(3) [unfolded x]]
  show ?thesis
  proof (cases X)
    case (T t)
    then show ?thesis using push_action_adds [OF assms(1,4) tr(1), of t "Shift to"] tr(3) x by auto
  next
    case (N m)
    then show ?thesis using set_goto_ok [OF assms(4) tr(1), of m to] tr(3) x by auto
  qed (use x assms(4) in \<open>simp add: adds_refl\<close>)
qed

lemma fill_transitions_gotos:
  assumes "analyzed g" "automaton_ok g states all" "set ts \<subseteq> set all" "distinct (map fst ts)" "cells_ok g (length states) p"
    and "fold_opt fill_transition ts p = Some p'" "s < length states" "m < nts g"
  shows "p_gotos p' ! goto_index g s m = (case map_of ts (s, N m) of Some to \<Rightarrow> Some to | None \<Rightarrow> p_gotos p ! goto_index g s m)"
  using assms(3-6)
proof (induction ts arbitrary: p)
  case (Cons x ts)
  obtain r X to where x: "x = ((r, X), to)" by (metis surj_pair)
  have in_all: "((r, X), to) \<in> set all" using Cons.prems(1) x by simp
  note tr = automaton_transition [OF assms(1,2) in_all]
  obtain q where q: "fill_transition x p = Some q" "fold_opt fill_transition ts q = Some p'"
    using Cons.prems(4) by (auto simp: bind_eq_Some_conv)
  have ok: "cells_ok g (length states) q"
    using fill_transition_adds [OF assms(1,2) _ Cons.prems(3), of x] in_all q(1) x by auto
  have IH: "p_gotos p' ! goto_index g s m = (case map_of ts (s, N m) of Some to \<Rightarrow> Some to | None \<Rightarrow> p_gotos q ! goto_index g s m)"
    using Cons.IH [OF _ _ ok q(2)] Cons.prems(1,2) by simp
  show ?case
  proof (cases X)
    case (T t)
    have "p_gotos q = p_gotos p" using q(1) x T by (auto simp: push_action_def bind_eq_Some_conv)
    then show ?thesis using IH x T by (simp split: option.split)
  next
    case (N b)
    have b: "b < nts g" using tr(3) N by simp
    have "p_gotos q = (p_gotos p)[goto_index g r b := Some to]"
      using set_goto_ok [OF Cons.prems(3) tr(1) b, of to] q(1) x N by auto
    moreover have "goto_index g r b < length (p_gotos p)"
      using Cons.prems(3) row_index_bound [OF tr(1) b] by (simp add: cells_ok_def goto_index_def)
    moreover have "goto_index g r b = goto_index g s m \<longleftrightarrow> (r, N b) = (s, N m)"
      using row_index_inject [OF b assms(8)] by (auto simp: goto_index_def)
    moreover have "map_of ts (r, N b) = None" using Cons.prems(2) x N by (simp add: map_of_eq_None_iff)
    ultimately show ?thesis using IH x N by (auto simp: nth_list_update split: option.splits)
  next
    case Epsilon
    then show ?thesis using IH x q(1) by (simp split: option.split)
  qed
qed simp

section \<open>Completed items\<close>

definition item_actions :: "'b grammar \<Rightarrow> nat \<Rightarrow> lr1_item \<Rightarrow> (nat \<times> terminal_id \<times> action) set" where
  "item_actions g s i =
     (if after_dot g i \<noteq> None then {}
      else if item_production i = 0 then {(s, g_eof g, Accept)}
      else {(s, item_lookahead i, Reduce (item_production i))})"

lemma fill_item_adds:
  assumes "analyzed g" "g_eof g \<in> g_terminal_ids g" "item_ok g i" "s < n" "cells_ok g n p"
  shows "\<exists>p'. fill_item g s i p = Some p' \<and> adds g n p p' (item_actions g s i) \<and> cells_ok g n p' \<and> p_gotos p' = p_gotos p"
proof -
  have sym: "symbol_after_dot g i = Some (after_dot g i)"
    by (rule symbol_after_dot_eq [OF analyzed_ok(1) [OF assms(1)] assms(3)])
  have la: "item_lookahead i \<in> g_terminal_ids g" using assms(3) by (cases i) simp
  show ?thesis
  proof (cases "after_dot g i = None")
    case True
    show ?thesis
    proof (cases "item_production i = 0")
      case True
      with \<open>after_dot g i = None\<close> show ?thesis
        using sym push_action_adds [OF assms(1,5,4,2), of Accept] by (simp add: fill_item_def item_actions_def)
    next
      case False
      with \<open>after_dot g i = None\<close> show ?thesis
        using sym push_action_adds [OF assms(1,5,4) la, of "Reduce (item_production i)"]
        by (simp add: fill_item_def item_actions_def)
    qed
  qed (use sym assms(5) in \<open>auto simp: fill_item_def item_actions_def adds_refl\<close>)
qed

definition state_actions :: "'b grammar \<Rightarrow> lr1_state \<Rightarrow> (nat \<times> terminal_id \<times> action) set" where
  "state_actions g st = (\<Union>i \<in> set (lr_items st). item_actions g (lr_id st) i)"

lemma fill_states_adds:
  assumes "analyzed g" "g_eof g \<in> g_terminal_ids g" "state_list_ok g states" "cells_ok g (length states) p"
  shows "\<exists>p'. fold_opt (\<lambda>st. fold_opt (fill_item g (lr_id st)) (lr_items st)) states p = Some p' \<and>
    adds g (length states) p p' (\<Union>st \<in> set states. state_actions g st) \<and> cells_ok g (length states) p' \<and> p_gotos p' = p_gotos p"
proof -
  let ?n = "length states" and ?gotos = "p_gotos p"
  let ?I = "\<lambda>q. cells_ok g ?n q \<and> p_gotos q = ?gotos"
  have "\<exists>p'. fold_opt (\<lambda>st. fold_opt (fill_item g (lr_id st)) (lr_items st)) states p = Some p' \<and>
      adds g ?n p p' (\<Union>st \<in> set states. state_actions g st) \<and> ?I p'"
  proof (rule fold_opt_accumulate [where R = "adds g ?n"])
    fix st q assume st: "st \<in> set states" "?I q"
    then have id: "lr_id st < ?n" using assms(3) by (metis in_set_conv_nth state_list_ok_def)
    have items: "\<forall>i \<in> set (lr_items st). item_ok g i" using assms(3) st(1) by (simp add: state_list_ok_def)
    show "\<exists>q'. fold_opt (fill_item g (lr_id st)) (lr_items st) q = Some q' \<and> adds g ?n q q' (state_actions g st) \<and> ?I q'"
      unfolding state_actions_def
    proof (rule fold_opt_accumulate [where R = "adds g ?n"])
      fix i r assume "i \<in> set (lr_items st)" "?I r"
      then show "\<exists>r'. fill_item g (lr_id st) i r = Some r' \<and> adds g ?n r r' (item_actions g (lr_id st) i) \<and> ?I r'"
        using fill_item_adds [OF assms(1,2) _ id, of i r] items by auto
    qed (use st in \<open>auto intro: adds_refl adds_trans\<close>)
  qed (use assms(4) in \<open>auto intro: adds_refl adds_trans\<close>)
  then show ?thesis by blast
qed

section \<open>Conflicts\<close>

lemma last_shift_append: "last_shift as s = (if \<exists>t. Shift t \<in> set as then last_shift as None else s)"
  by (induction as s rule: last_shift.induct) (auto split: if_splits)

lemma last_shift_in: "last_shift as None = Some t \<Longrightarrow> Shift t \<in> set as"
proof (induction as arbitrary: t)
  case (Cons a as)
  then show ?case by (cases a) (auto simp: last_shift_append [of as "Some _"] split: if_splits)
qed simp

lemma last_shift_None: "last_shift as None = None \<longleftrightarrow> (\<forall>t. Shift t \<notin> set as)"
proof (induction as)
  case (Cons a as)
  then show ?case by (cases a) (auto simp: last_shift_append [of as "Some _"])
qed simp

lemma reduces_of_set [simp]: "r \<in> set (reduces_of as) \<longleftrightarrow> Reduce r \<in> set as"
  by (induction as rule: reduces_of.induct) auto

lemma distinct_reduces_of: "distinct as \<Longrightarrow> distinct (reduces_of as)"
  by (induction as rule: reduces_of.induct) auto

lemma collect_conflicts_correct:
  assumes "analyzed g" "cells_ok g (length (p_states p)) p"
  shows "collect_conflicts p = Some (p\<lparr>p_conflicts :=
    concat (map (\<lambda>s. concat (map (\<lambda>k. cell_conflicts s (tid g k) (cell p s k)) [0..<terminal_count g])) [0..<length (p_states p)])\<rparr>)"
proof -
  have g: "p_grammar p = g" using assms(2) by (simp add: cells_ok_def)
  have inner: "fold_opt (collect_cell s) ks (p\<lparr>p_conflicts := cs\<rparr>) =
      Some (p\<lparr>p_conflicts := cs @ concat (map (\<lambda>k. cell_conflicts s (tid g k) (cell p s k)) ks)\<rparr>)"
    if "s < length (p_states p)" "set ks \<subseteq> {..<terminal_count g}" for s ks cs
    using that(2)
  proof (induction ks arbitrary: cs)
    case (Cons k ks)
    have "action_set (p\<lparr>p_conflicts := cs\<rparr>) s (tid g k) = Some (cell p s k)"
      using action_set_cell [OF assms(1,2) that(1), of k] Cons.prems by (simp add: action_set_def)
    then show ?case
      using Cons by (simp add: collect_cell_def g terminal_at_def terminal_count_def)
  qed simp
  have "fold_opt (\<lambda>s. fold_opt (collect_cell s) [0..<terminal_count g]) ss (p\<lparr>p_conflicts := cs\<rparr>) =
      Some (p\<lparr>p_conflicts := cs @ concat (map (\<lambda>s. concat (map (\<lambda>k. cell_conflicts s (tid g k) (cell p s k)) [0..<terminal_count g])) ss)\<rparr>)"
    if "set ss \<subseteq> {..<length (p_states p)}" for ss cs
    using that by (induction ss arbitrary: cs) (auto simp: inner atLeast0LessThan)
  from this [of "[0..<length (p_states p)]" "[]"] show ?thesis by (simp add: collect_conflicts_def g atLeast0LessThan)
qed

section \<open>The tables\<close>

definition prescribed :: "'b grammar \<Rightarrow> lr1_item set \<Rightarrow> (symbol \<Rightarrow> nat option) \<Rightarrow> terminal_id \<Rightarrow> action set" where
  "prescribed g I next t =
     {Shift to | to. next (T t) = Some to} \<union>
     {Reduce q | q. q \<noteq> 0 \<and> LR1Item q (length (rule_rhs g q)) t \<in> I} \<union>
     {Accept | a. t = g_eof g \<and> LR1Item 0 (length (rule_rhs g 0)) a \<in> I}"

definition tables_ok :: "'b parser \<Rightarrow> bool" where
  "tables_ok p \<longleftrightarrow> (let g = p_grammar p; states = p_states p; next = (\<lambda>s X. map_of (p_transitions p) (s, X)) in
     automaton_ok g states (p_transitions p) \<and>
     (\<forall>s < length states. \<forall>t \<in> g_terminal_ids g. \<exists>as. action_set p s t = Some as \<and> distinct as \<and>
        set as = prescribed g (items_of states s) (next s) t) \<and>
     (\<forall>s < length states. \<forall>m < nts g. goto_state p s m = Some (next s (N m))) \<and>
     p_conflicts p = concat (map (\<lambda>s. concat (map (\<lambda>k. cell_conflicts s (tid g k) (cell p s k))
       [0..<terminal_count g])) [0..<length states]))"

lemma completed_item:
  "item_ok g (LR1Item q d a) \<Longrightarrow> after_dot g (LR1Item q d a) = None \<longleftrightarrow> d = length (rule_rhs g q)"
  by (auto simp: nth_opt_def)

lemma prescribed_eq:
  assumes "analyzed g" "automaton_ok g states ts" "s < length states"
  shows "{a. (s, t, a) \<in> (\<Union>x \<in> set ts. transition_actions x) \<union> (\<Union>st \<in> set states. state_actions g st)} =
    prescribed g (items_of states s) (\<lambda>X. map_of ts (s, X)) t"
proof -
  have ok: "state_list_ok g states" "distinct (map fst ts)" using assms(2) by (simp_all add: automaton_ok_def transitions_ok_def)
  have shift: "(s, t, a) \<in> (\<Union>x \<in> set ts. transition_actions x) \<longleftrightarrow> (\<exists>to. a = Shift to \<and> map_of ts (s, T t) = Some to)" for a
  proof
    assume "(s, t, a) \<in> (\<Union>x \<in> set ts. transition_actions x)"
    then obtain x where "x \<in> set ts" "(s, t, a) \<in> transition_actions x" by blast
    then obtain to where "((s, T t), to) \<in> set ts" "a = Shift to" by (cases x rule: transition_actions.cases) auto
    then show "\<exists>to. a = Shift to \<and> map_of ts (s, T t) = Some to" using ok(2) by simp
  next
    assume "\<exists>to. a = Shift to \<and> map_of ts (s, T t) = Some to"
    then obtain to where "a = Shift to" "((s, T t), to) \<in> set ts" using map_of_SomeD by fastforce
    then show "(s, t, a) \<in> (\<Union>x \<in> set ts. transition_actions x)" by force
  qed
  have item: "(s, t, a) \<in> (\<Union>st \<in> set states. state_actions g st) \<longleftrightarrow> (\<exists>i \<in> items_of states s. (s, t, a) \<in> item_actions g s i)" for a
  proof
    assume "(s, t, a) \<in> (\<Union>st \<in> set states. state_actions g st)"
    then obtain st i where i: "st \<in> set states" "i \<in> set (lr_items st)" "(s, t, a) \<in> item_actions g (lr_id st) i"
      by (auto simp: state_actions_def)
    then have "lr_id st = s" by (auto simp: item_actions_def split: if_splits)
    moreover obtain r where "r < length states" "st = states ! r" using i(1) by (metis in_set_conv_nth)
    ultimately show "\<exists>i \<in> items_of states s. (s, t, a) \<in> item_actions g s i"
      using i ok(1) by (auto simp: items_of_def state_list_ok_def)
  next
    assume "\<exists>i \<in> items_of states s. (s, t, a) \<in> item_actions g s i"
    then show "(s, t, a) \<in> (\<Union>st \<in> set states. state_actions g st)"
      using ok(1) assms(3) by (force simp: state_actions_def items_of_def state_list_ok_def)
  qed
  have "(\<exists>i \<in> items_of states s. (s, t, a) \<in> item_actions g s i) \<longleftrightarrow>
      (\<exists>q. a = Reduce q \<and> q \<noteq> 0 \<and> LR1Item q (length (rule_rhs g q)) t \<in> items_of states s) \<or>
      (\<exists>b. a = Accept \<and> t = g_eof g \<and> LR1Item 0 (length (rule_rhs g 0)) b \<in> items_of states s)" for a
  proof
    assume "\<exists>i \<in> items_of states s. (s, t, a) \<in> item_actions g s i"
    then obtain q d b where i: "LR1Item q d b \<in> items_of states s" "(s, t, a) \<in> item_actions g s (LR1Item q d b)"
      by (metis lr1_item.exhaust)
    then have "after_dot g (LR1Item q d b) = None" by (auto simp: item_actions_def split: if_splits)
    then have "d = length (rule_rhs g q)" using completed_item state_facts(1) [OF ok(1) assms(3)] i(1) by blast
    then show "(\<exists>q. a = Reduce q \<and> q \<noteq> 0 \<and> LR1Item q (length (rule_rhs g q)) t \<in> items_of states s) \<or>
      (\<exists>b. a = Accept \<and> t = g_eof g \<and> LR1Item 0 (length (rule_rhs g 0)) b \<in> items_of states s)"
      using i by (auto simp: item_actions_def split: if_splits)
  next
    assume "(\<exists>q. a = Reduce q \<and> q \<noteq> 0 \<and> LR1Item q (length (rule_rhs g q)) t \<in> items_of states s) \<or>
      (\<exists>b. a = Accept \<and> t = g_eof g \<and> LR1Item 0 (length (rule_rhs g 0)) b \<in> items_of states s)"
    then show "\<exists>i \<in> items_of states s. (s, t, a) \<in> item_actions g s i"
      by (elim disjE exE conjE) (erule bexI [rotated], simp add: item_actions_def nth_opt_def)+
  qed
  then show ?thesis using shift item by (auto simp: prescribed_def)
qed

lemma build_lr1_tables:
  assumes "analyzed g" "g_eof g \<in> g_terminal_ids g"
  shows "\<exists>p. build_lr1 g = Some p \<and> p_grammar p = g \<and> tables_ok p"
proof -
  obtain start w where w: "closure g [LR1Item 0 0 (g_eof g)] = Some start"
    "build_states g \<lparr>w_states = [\<lparr>lr_id = 0, lr_items = start\<rparr>], w_keys = [start], w_queue = [0], w_transitions = []\<rparr> = Some w"
    "automaton_ok g (w_states w) (w_transitions w)"
    using automaton_built [OF assms] by blast
  let ?st = "w_states w" and ?ts = "w_transitions w"
  let ?n = "length ?st"
  let ?p = "\<lparr>p_grammar = g, p_states = ?st, p_transitions = ?ts, p_conflicts = [],
    p_actions = replicate (?n * terminal_count g) [], p_gotos = replicate (?n * length (g_non_terminals g)) None\<rparr>"
  have ok: "state_list_ok g ?st" "distinct (map fst ?ts)" using w(3) by (simp_all add: automaton_ok_def transitions_ok_def)
  have empty: "cell ?p s k = []" if "s < ?n" "k < terminal_count g" for s k
    using row_index_bound [OF that] by (simp add: cell_def)
  then have p: "cells_ok g ?n ?p" by (simp add: cells_ok_def)
  have "\<exists>q. fold_opt fill_transition ?ts ?p = Some q \<and> adds g ?n ?p q (\<Union>x \<in> set ?ts. transition_actions x) \<and> cells_ok g ?n q"
    by (rule fold_opt_accumulate [where R = "adds g ?n"])
      (use p fill_transition_adds [OF assms(1) w(3)] in \<open>auto intro: adds_refl adds_trans\<close>)
  then obtain q where q: "fold_opt fill_transition ?ts ?p = Some q" "adds g ?n ?p q (\<Union>x \<in> set ?ts. transition_actions x)"
    "cells_ok g ?n q" by blast
  obtain r where r: "fold_opt (\<lambda>st. fold_opt (fill_item g (lr_id st)) (lr_items st)) ?st q = Some r"
    "adds g ?n q r (\<Union>st \<in> set ?st. state_actions g st)" "cells_ok g ?n r" "p_gotos r = p_gotos q"
    using fill_states_adds [OF assms ok(1) q(3)] by blast
  have both: "adds g ?n ?p r ((\<Union>x \<in> set ?ts. transition_actions x) \<union> (\<Union>st \<in> set ?st. state_actions g st))"
    by (rule adds_trans [OF q(2) r(2)])
  then have same: "p_states r = ?st" "p_transitions r = ?ts" "p_grammar r = g" using r(3) by (simp_all add: adds_def cells_ok_def)
  have "p_states q = ?st" using q(2) by (simp add: adds_def)
  define out where "out = r\<lparr>p_conflicts :=
    concat (map (\<lambda>s. concat (map (\<lambda>k. cell_conflicts s (tid g k) (cell r s k)) [0..<terminal_count g])) [0..<?n])\<rparr>"
  have out: "collect_conflicts r = Some out"
    using collect_conflicts_correct [OF assms(1), of r] r(3) same by (simp add: out_def)
  have built: "build_lr1 g = Some out"
    using w(1,2) q(1) r(1) out \<open>p_states q = ?st\<close> by (simp add: build_lr1_def intern_state_def fill_tables_def)
  have cells: "cell out = cell r" "cells_ok g ?n out" using r(3) by (auto simp: out_def cell_def cells_ok_def fun_eq_iff)
  have "\<exists>as. action_set out s t = Some as \<and> distinct as \<and> set as = prescribed g (items_of ?st s) (\<lambda>X. map_of ?ts (s, X)) t"
    if s: "s < ?n" and t: "t \<in> g_terminal_ids g" for s t
  proof -
    obtain k where k: "k < terminal_count g" "t = tid g k" using known_index [OF assms(1) t] by blast
    have "set (cell out s k) = {a. (s, t, a) \<in> (\<Union>x \<in> set ?ts. transition_actions x) \<union> (\<Union>st \<in> set ?st. state_actions g st)}"
      using both s k empty [OF s k(1)] by (simp add: adds_def cells(1))
    then show ?thesis
      using action_set_cell [OF assms(1) cells(2) s k(1)] prescribed_eq [OF assms(1) w(3) s] cells(2) s k by (simp add: cells_ok_def)
  qed
  moreover have "goto_state out s m = Some (map_of ?ts (s, N m))" if s: "s < ?n" and m: "m < nts g" for s m
  proof -
    have i: "goto_index g s m < ?n * length (g_non_terminals g)" using row_index_bound [OF s m] by (simp add: goto_index_def)
    have "p_gotos q ! goto_index g s m = (case map_of ?ts (s, N m) of Some to \<Rightarrow> Some to | None \<Rightarrow> p_gotos ?p ! goto_index g s m)"
      by (rule fill_transitions_gotos [OF assms(1) w(3) order.refl ok(2) p q(1) s m])
    then show ?thesis
      using i r(3,4) same by (auto simp: goto_state_def out_def cells_ok_def split: option.splits)
  qed
  ultimately have "tables_ok out"
    using w(3) same cells(1) by (simp add: tables_ok_def Let_def out_def)
  then show ?thesis using built same(3) by (auto simp: out_def)
qed

end
