(* ===== verification/LR_Language.thy ===== *)
theory LR_Language
  imports LR_Tables
begin

text \<open>
  What the tables of \<^verbatim>\<open>build_lr1\<close> accept. A stack machine that may take any action of a cell (the
  choice that the graph-structured stack of \<^verbatim>\<open>src/framework/parse/parsing\<close> explores in parallel)
  accepts exactly the sentences that the grammar derives, and it never misses a goto entry.
\<close>

section \<open>The machine\<close>

type_synonym lr_stack = "(symbol \<times> nat) list"

definition top_state :: "lr_stack \<Rightarrow> nat" where
  "top_state stk = (case stk of [] \<Rightarrow> 0 | (X, s) # _ \<Rightarrow> s)"

lemma top_state_simps [simp]: "top_state [] = 0" "top_state ((X, s) # stk) = s"
  by (simp_all add: top_state_def)

definition lookahead :: "terminal_id list \<Rightarrow> terminal_id" where
  "lookahead ts = (case ts of [] \<Rightarrow> EOF_TERMINAL | t # _ \<Rightarrow> t)"

inductive lr_step :: "'b parser \<Rightarrow> lr_stack \<times> terminal_id list \<Rightarrow> lr_stack \<times> terminal_id list \<Rightarrow> bool" for p where
  lr_shift: "action_set p (top_state stk) t = Some as \<Longrightarrow> Shift s \<in> set as \<Longrightarrow> lr_step p (stk, t # ts) ((T t, s) # stk, ts)"
| lr_reduce: "action_set p (top_state stk) (lookahead ts) = Some as \<Longrightarrow> Reduce q \<in> set as \<Longrightarrow>
    n = length (rule_rhs (p_grammar p) q) \<Longrightarrow> n \<le> length stk \<Longrightarrow>
    goto_state p (top_state (drop n stk)) (rule_lhs (p_grammar p) q) = Some (Some s) \<Longrightarrow>
    lr_step p (stk, ts) ((N (rule_lhs (p_grammar p) q), s) # drop n stk, ts)"

definition accepts :: "'b parser \<Rightarrow> terminal_id list \<Rightarrow> bool" where
  "accepts p ts \<longleftrightarrow> (\<exists>stk as. (lr_step p)\<^sup>*\<^sup>* ([], ts @ [EOF_TERMINAL]) (stk, []) \<and>
     action_set p (top_state stk) EOF_TERMINAL = Some as \<and> Accept \<in> set as)"

section \<open>Grammars as the builder leaves them\<close>

definition lr_grammar :: "'b grammar \<Rightarrow> nat \<Rightarrow> bool" where
  "lr_grammar g start \<longleftrightarrow> analyzed g \<and> augmented (grammar_rules g) start \<and> g_eof g = EOF_TERMINAL"

definition lr_ready :: "'b parser \<Rightarrow> 'b grammar \<Rightarrow> nat \<Rightarrow> bool" where
  "lr_ready p g start \<longleftrightarrow> lr_grammar g start \<and> p_grammar p = g \<and> tables_ok p"

abbreviation next_state :: "'b parser \<Rightarrow> nat \<Rightarrow> symbol \<Rightarrow> nat option" where
  "next_state p s X \<equiv> map_of (p_transitions p) (s, X)"

abbreviation state_items :: "'b parser \<Rightarrow> nat \<Rightarrow> lr1_item set" where
  "state_items p s \<equiv> items_of (p_states p) s"

lemma ready_facts:
  assumes "lr_ready p g start"
  shows "analyzed g" "grammar_ok g" "g_eof g = EOF_TERMINAL" "EOF_TERMINAL \<in> g_terminal_ids g" "p_grammar p = g"
    "automaton_ok g (p_states p) (p_transitions p)" "state_list_ok g (p_states p)" "transitions_ok g (p_states p) (p_transitions p)"
    "rule_lhs g 0 = 0" "rule_rhs g 0 = [N start, T EOF_TERMINAL]" "0 < length (grammar_rules g)" "0 < start"
proof -
  show f: "analyzed g" "grammar_ok g" "g_eof g = EOF_TERMINAL" "p_grammar p = g"
    using assms by (auto simp: lr_ready_def lr_grammar_def dest: analyzed_ok)
  show "EOF_TERMINAL \<in> g_terminal_ids g" using f(2) by (simp add: grammar_ok_def)
  show "automaton_ok g (p_states p) (p_transitions p)"
    using assms f(4) by (simp add: lr_ready_def tables_ok_def Let_def)
  then show "state_list_ok g (p_states p)" "transitions_ok g (p_states p) (p_transitions p)" by (simp_all add: automaton_ok_def)
  have "augmented (grammar_rules g) start" using assms by (simp add: lr_ready_def lr_grammar_def)
  then show "rule_lhs g 0 = 0" "rule_rhs g 0 = [N start, T EOF_TERMINAL]" "0 < length (grammar_rules g)" "0 < start"
    by (cases "grammar_rules g"; simp add: augmented_def)+
qed

lemma ready_cell:
  assumes "lr_ready p g start" "s < length (p_states p)" "t \<in> g_terminal_ids g"
  shows "\<exists>as. action_set p s t = Some as \<and> set as = prescribed g (state_items p s) (next_state p s) t"
  using assms ready_facts(5) [OF assms(1)] by (simp add: lr_ready_def tables_ok_def Let_def) blast

lemma action_known:
  assumes "lr_ready p g start" "action_set p s t = Some as" shows "t \<in> g_terminal_ids g"
proof -
  have "terminal_indices g t \<noteq> None"
    using assms(2) ready_facts(5) [OF assms(1)] by (auto simp: action_set_def action_index_def terminal_index_def bind_eq_Some_conv)
  then show ?thesis
    using analyzed_ok(2) [OF ready_facts(1) [OF assms(1)]] by (auto simp: indexed_def tid_known)
qed

lemma action_iff:
  assumes "lr_ready p g start" "s < length (p_states p)" "action_set p s t = Some as"
  shows "set as = prescribed g (state_items p s) (next_state p s) t"
  using ready_cell [OF assms(1,2) action_known [OF assms(1,3)]] assms(3) by simp

lemma ready_goto:
  assumes "lr_ready p g start" "s < length (p_states p)" "m < nts g"
  shows "goto_state p s m = Some (next_state p s (N m))"
  using assms ready_facts(5) [OF assms(1)] by (simp add: lr_ready_def tables_ok_def Let_def)

lemma augmented_unused:
  assumes "lr_ready p g start" "q < length (grammar_rules g)" shows "N 0 \<notin> set (rule_rhs g q)" "rule_lhs g q = 0 \<longleftrightarrow> q = 0"
proof -
  have aug: "augmented (grammar_rules g) start" using assms(1) by (simp add: lr_ready_def lr_grammar_def)
  note f = ready_facts [OF assms(1)]
  show "N 0 \<notin> set (rule_rhs g q)"
  proof (cases q)
    case (Suc k)
    then have "grammar_rules g ! q \<in> set (tl (grammar_rules g))" using assms(2) by (cases "grammar_rules g") auto
    then show ?thesis using aug by (auto simp: augmented_def)
  qed (use f in auto)
  show "rule_lhs g q = 0 \<longleftrightarrow> q = 0"
  proof (cases q)
    case (Suc k)
    then have "grammar_rules g ! q \<in> set (tl (grammar_rules g))" using assms(2) by (cases "grammar_rules g") auto
    then show ?thesis using aug Suc by (auto simp: augmented_def)
  qed (use f in auto)
qed

section \<open>Where items come from\<close>

lemma closed_dot: "LR1Item q (Suc d) a \<in> closed g S \<longleftrightarrow> LR1Item q (Suc d) a \<in> S"
proof
  assume "LR1Item q (Suc d) a \<in> closed g S"
  then show "LR1Item q (Suc d) a \<in> S"
  proof cases
    case (closed_step i)
    moreover obtain r e b where "i = LR1Item r e b" by (rule lr1_item.exhaust)
    ultimately show ?thesis by auto
  qed
qed (rule closed_seed)

lemma goto_item: "LR1Item q (Suc d) a \<in> goto_set g I X \<longleftrightarrow> LR1Item q d a \<in> I \<and> after_dot g (LR1Item q d a) = Some X"
  by (simp add: goto_set_def closed_dot moved_def)

lemma start_item: "LR1Item q (Suc d) a \<notin> start_set g"
  by (simp add: start_set_def closed_dot)

lemma canonical_closed: "I \<in> canonical_sets g \<Longrightarrow> i \<in> I \<Longrightarrow> j \<in> successors g i \<Longrightarrow> j \<in> I"
  by (erule canonical_sets.cases) (auto simp: start_set_def goto_set_def intro: closed_step)

lemma canonical_initial_item:
  assumes "I \<in> canonical_sets g" "LR1Item q 0 a \<in> I"
  shows "(q = 0 \<and> I = start_set g) \<or> (\<exists>i \<in> I. LR1Item q 0 a \<in> successors g i)"
  using assms
proof cases
  case canonical_start
  then have "LR1Item q 0 a \<in> closed g {LR1Item 0 0 (g_eof g)}" using assms(2) by (simp add: start_set_def)
  then show ?thesis by cases (use canonical_start in \<open>auto simp: start_set_def\<close>)
next
  case (canonical_goto J i X)
  then have "LR1Item q 0 a \<in> closed g (moved g J X)" using assms(2) by (simp add: goto_set_def)
  then show ?thesis by cases (use canonical_goto in \<open>auto simp: goto_set_def moved_def\<close>)
qed

section \<open>Stacks\<close>

fun valid_stack :: "'b parser \<Rightarrow> lr_stack \<Rightarrow> bool" where
  "valid_stack p [] = True"
| "valid_stack p ((X, s) # stk) = (next_state p (top_state stk) X = Some s \<and> valid_stack p stk)"

lemma valid_top:
  assumes "lr_ready p g start" "valid_stack p stk" shows "top_state stk < length (p_states p)"
proof (cases stk)
  case Nil
  then show ?thesis using ready_facts(7) [OF assms(1)] by (simp add: state_list_ok_def)
next
  case (Cons x stk')
  then show ?thesis using assms(2) ready_facts(8) [OF assms(1)] by (cases x) (auto simp: transitions_ok_def)
qed

lemma valid_drop: "valid_stack p stk \<Longrightarrow> valid_stack p (drop n stk)"
proof (induction p stk arbitrary: n rule: valid_stack.induct)
  case (2 p X s stk)
  then show ?case by (cases n) auto
qed simp

lemma next_items:
  assumes "lr_ready p g start" "next_state p s X = Some t"
  shows "state_items p t = goto_set g (state_items p s) X" "t < length (p_states p)" "t \<noteq> 0"
proof -
  note f = ready_facts [OF assms(1)]
  show t: "state_items p t = goto_set g (state_items p s) X" "t < length (p_states p)"
    using f(8) assms(2) by (auto simp: transitions_ok_def)
  have "has_symbol g (state_items p s) X" using f(8) assms(2) unfolding transitions_ok_def by blast
  then obtain q d a where "LR1Item q d a \<in> state_items p s" "after_dot g (LR1Item q d a) = Some X"
    by (metis has_symbol_def lr1_item.exhaust)
  then have "LR1Item q (Suc d) a \<in> state_items p t" by (simp add: t(1) goto_item)
  moreover have "state_items p 0 = start_set g" using f(7) by (simp add: state_list_ok_def)
  ultimately show "t \<noteq> 0" using start_item by metis
qed

text \<open>An item on top of the stack: its symbols before the dot are on the stack.\<close>

lemma stack_item:
  assumes "lr_ready p g start" "valid_stack p stk" "LR1Item q d a \<in> state_items p (top_state stk)"
  shows "d \<le> length stk \<and> map fst (take d stk) = rev (take d (rule_rhs g q)) \<and> LR1Item q 0 a \<in> state_items p (top_state (drop d stk))"
  using assms(2,3)
proof (induction d arbitrary: stk)
  case (Suc d)
  note f = ready_facts [OF assms(1)]
  show ?case
  proof (cases stk)
    case Nil
    then show ?thesis using Suc.prems(2) f(7) start_item by (auto simp: state_list_ok_def)
  next
    case (Cons x stk')
    obtain X s where x: "x = (X, s)" by (cases x)
    have s: "next_state p (top_state stk') X = Some s" "valid_stack p stk'" using Suc.prems(1) Cons x by simp_all
    have i: "LR1Item q d a \<in> state_items p (top_state stk')" "nth_opt (rule_rhs g q) d = Some X"
      using Suc.prems(2) Cons x next_items(1) [OF assms(1) s(1)] by (simp_all add: goto_item)
    then show ?thesis
      using Suc.IH [OF s(2) i(1)] Cons x by (auto simp: nth_opt_Some_iff take_Suc_conv_app_nth)
  qed
qed simp

lemma top_zero: "lr_ready p g start \<Longrightarrow> valid_stack p stk \<Longrightarrow> top_state stk = 0 \<Longrightarrow> stk = []"
proof (cases stk)
  case (Cons x stk')
  moreover assume "lr_ready p g start" "valid_stack p stk" "top_state stk = 0"
  ultimately show ?thesis using next_items(3) [of p g start "top_state stk'" "fst x" 0] by (cases x) simp
qed simp

lemma has_symbol_next:
  assumes "lr_ready p g start" "s < length (p_states p)" "i \<in> state_items p s" "after_dot g i = Some X"
  shows "\<exists>t. next_state p s X = Some t"
  using ready_facts(6) [OF assms(1)] assms(2-4) unfolding automaton_ok_def has_symbol_def by blast

text \<open>A reduction that a cell prescribes can always be carried out.\<close>

lemma reduce_possible:
  assumes "lr_ready p g start" "valid_stack p stk" "action_set p (top_state stk) t = Some as" "Reduce q \<in> set as"
  defines "n \<equiv> length (rule_rhs g q)"
  shows "n \<le> length stk" "map fst (take n stk) = rev (rule_rhs g q)" "q < length (grammar_rules g)"
    "\<exists>s. goto_state p (top_state (drop n stk)) (rule_lhs g q) = Some (Some s) \<and>
      next_state p (top_state (drop n stk)) (N (rule_lhs g q)) = Some s"
proof -
  note f = ready_facts [OF assms(1)]
  have top: "top_state stk < length (p_states p)" by (rule valid_top [OF assms(1,2)])
  have item: "q \<noteq> 0" "LR1Item q n t \<in> state_items p (top_state stk)"
    using action_iff [OF assms(1) top assms(3)] assms(4) by (auto simp: prescribed_def n_def)
  then have "item_ok g (LR1Item q n t)" using state_facts(1) [OF f(7) top] by blast
  then show q: "q < length (grammar_rules g)" by simp
  show n: "n \<le> length stk" "map fst (take n stk) = rev (rule_rhs g q)"
    using stack_item [OF assms(1,2) item(2)] by (auto simp: n_def)
  let ?s = "top_state (drop n stk)"
  have s: "?s < length (p_states p)" by (rule valid_top [OF assms(1) valid_drop [OF assms(2)]])
  have "LR1Item q 0 t \<in> state_items p ?s" using stack_item [OF assms(1,2) item(2)] by simp
  then obtain i where i: "i \<in> state_items p ?s" "LR1Item q 0 t \<in> successors g i"
    using canonical_initial_item [OF state_facts(2) [OF f(7) s]] item(1) by blast
  then have "after_dot g i = Some (N (rule_lhs g q))" by (cases i) auto
  then show "\<exists>s. goto_state p ?s (rule_lhs g q) = Some (Some s) \<and> next_state p ?s (N (rule_lhs g q)) = Some s"
    using has_symbol_next [OF assms(1) s i(1)] ready_goto [OF assms(1) s rule_lhs_bound [OF f(2) q]] by auto
qed

section \<open>Soundness\<close>

lemma step_valid:
  assumes "lr_ready p g start" "lr_step p (stk, ts) (stk', ts')" "valid_stack p stk"
  shows "valid_stack p stk' \<and> derives (grammar_rules g) (rev (map fst stk') @ map T ts') (rev (map fst stk) @ map T ts)"
  using assms(2)
proof cases
  case (lr_shift t as s)
  then have "next_state p (top_state stk) (T t) = Some s"
    using action_iff [OF assms(1) valid_top [OF assms(1,3)]] by (auto simp: prescribed_def)
  then show ?thesis using lr_shift assms(3) by simp
next
  case (lr_reduce as q n s)
  have g: "p_grammar p = g" using ready_facts(5) [OF assms(1)] .
  have n: "n = length (rule_rhs g q)" using lr_reduce g by simp
  note r = reduce_possible [OF assms(1,3) lr_reduce(3,4)]
  have "rev (map fst stk) = rev (map fst (drop n stk)) @ rule_rhs g q"
    using r(2) n by (metis append_take_drop_id map_append rev_append rev_rev_ident)
  moreover have "(rule_lhs g q, rule_rhs g q) \<in> set (grammar_rules g)" using r(3) by (metis nth_mem prod.collapse)
  then have "derive (grammar_rules g) (rev (map fst (drop n stk)) @ N (rule_lhs g q) # map T ts)
      (rev (map fst (drop n stk)) @ rule_rhs g q @ map T ts)" by (rule expand)
  ultimately show ?thesis
    using lr_reduce r(4) n g valid_drop [OF assms(3), of n] by (auto simp: n)
qed

lemma steps_valid:
  assumes "lr_ready p g start" "(lr_step p)\<^sup>*\<^sup>* (stk, ts) (stk', ts')" "valid_stack p stk"
  shows "valid_stack p stk' \<and> derives (grammar_rules g) (rev (map fst stk') @ map T ts') (rev (map fst stk) @ map T ts)"
  using assms(2)
proof (induction "(stk', ts')" arbitrary: stk' ts' rule: rtranclp_induct)
  case base
  then show ?case using assms(3) by simp
next
  case (step y)
  obtain stk1 ts1 where y: "y = (stk1, ts1)" by (cases y)
  then show ?case using step step_valid [OF assms(1), of stk1 ts1 stk' ts'] by (auto intro: rtranclp_trans)
qed

lemma derives_snoc_terminal:
  "derives rs u w \<Longrightarrow> u = v @ [T t] \<Longrightarrow> \<exists>w'. w = w' @ [T t] \<and> derives rs v w'"
proof (induction arbitrary: v rule: converse_rtranclp_induct)
  case (step u u')
  have "\<exists>v'. u' = v' @ [T t] \<and> derive rs v v'"
    using step.hyps(1)
  proof cases
    case (expand n rhs x y)
    then have "v @ [T t] = x @ N n # y" using step.prems by simp
    then obtain y' where "y = y' @ [T t]" "v = x @ N n # y'" by (cases y rule: rev_cases) auto
    then show ?thesis using expand derive.expand [of n rhs rs x y'] by auto
  next
    case (erase x y)
    then have "v @ [T t] = x @ Epsilon # y" using step.prems by simp
    then obtain y' where "y = y' @ [T t]" "v = x @ Epsilon # y'" by (cases y rule: rev_cases) auto
    then show ?thesis using erase derive.erase [of rs x y'] by auto
  qed
  then obtain v' where "u' = v' @ [T t]" "derive rs v v'" by blast
  moreover from step.IH [OF this(1)] obtain w' where "w = w' @ [T t]" "derives rs v' w'" by blast
  ultimately show ?case using converse_rtranclp_into_rtranclp [of "derive rs" v v' w'] by blast
qed auto

lemma accepts_sound:
  assumes "lr_ready p g start" "accepts p ts" shows "derives (grammar_rules g) [N start] (map T ts)"
proof -
  note f = ready_facts [OF assms(1)]
  obtain stk as where run: "(lr_step p)\<^sup>*\<^sup>* ([], ts @ [EOF_TERMINAL]) (stk, [])"
    "action_set p (top_state stk) EOF_TERMINAL = Some as" "Accept \<in> set as" using assms(2) by (auto simp: accepts_def)
  have valid: "valid_stack p stk" "derives (grammar_rules g) (rev (map fst stk)) (map T (ts @ [EOF_TERMINAL]))"
    using steps_valid [OF assms(1) run(1)] by simp_all
  have top: "top_state stk < length (p_states p)" by (rule valid_top [OF assms(1) valid(1)])
  obtain a where item: "LR1Item 0 2 a \<in> state_items p (top_state stk)"
    using action_iff [OF assms(1) top run(2)] run(3) f(10) by (auto simp: prescribed_def numeral_2_eq_2)
  note st = stack_item [OF assms(1) valid(1) item]
  let ?s = "top_state (drop 2 stk)"
  have s: "?s < length (p_states p)" by (rule valid_top [OF assms(1) valid_drop [OF valid(1)]])
  have "state_items p ?s = start_set g"
  proof (rule ccontr)
    assume "state_items p ?s \<noteq> start_set g"
    then obtain i where i: "i \<in> state_items p ?s" "LR1Item 0 0 a \<in> successors g i"
      using canonical_initial_item [OF state_facts(2) [OF f(7) s], of 0 a] st by blast
    obtain q d b where q: "i = LR1Item q d b" by (cases i)
    then have "N 0 \<in> set (rule_rhs g q)" using i(2) f(9) by (auto simp: nth_opt_Some_iff)
    moreover have "q < length (grammar_rules g)" using state_facts(1) [OF f(7) s] i(1) q by auto
    ultimately show False using augmented_unused(1) [OF assms(1)] by blast
  qed
  moreover have "state_items p 0 = start_set g" "0 < length (p_states p)" using f(7) by (auto simp: state_list_ok_def)
  ultimately have "?s = 0"
    using automaton_canonical(2) [OF f(6)] s unfolding inj_on_def by (metis lessThan_iff)
  then have "drop 2 stk = []" by (rule top_zero [OF assms(1) valid_drop [OF valid(1)]])
  then have "map fst stk = rev [N start, T EOF_TERMINAL]" using st f(10) by simp
  then have "derives (grammar_rules g) ([N start] @ [T EOF_TERMINAL]) (map T ts @ [T EOF_TERMINAL])" using valid(2) by simp
  from derives_snoc_terminal [OF this refl] show ?thesis by auto
qed

end
