(* ===== verification/LR_Complete.thy ===== *)
theory LR_Complete
  imports LR_Language
begin

text \<open>
  Every sentence has an accepting run of the tables: the parse tree of the sentence guides the
  machine, and the lookahead that each reduction needs is the one FIRST predicted when the
  item was added to the closure.
\<close>

section \<open>Parse trees\<close>

inductive yields :: "rules \<Rightarrow> symbol \<Rightarrow> terminal_id list \<Rightarrow> bool"
  and yields_seq :: "rules \<Rightarrow> symbol list \<Rightarrow> terminal_id list \<Rightarrow> bool" for rs where
  yields_T: "yields rs (T t) [t]"
| yields_Epsilon: "yields rs Epsilon []"
| yields_N: "(n, rhs) \<in> set rs \<Longrightarrow> yields_seq rs rhs ts \<Longrightarrow> yields rs (N n) ts"
| yields_Nil: "yields_seq rs [] []"
| yields_Cons: "yields rs X xs \<Longrightarrow> yields_seq rs w ys \<Longrightarrow> yields_seq rs (X # w) (xs @ ys)"

inductive_simps yields_seq_simps: "yields_seq rs [] ts" "yields_seq rs (X # w) ts"

lemma yields_seq_append: "yields_seq rs (u @ v) ts \<longleftrightarrow> (\<exists>xs ys. ts = xs @ ys \<and> yields_seq rs u xs \<and> yields_seq rs v ys)"
proof (induction u arbitrary: ts)
  case (Cons X u)
  show ?case
  proof
    assume "yields_seq rs ((X # u) @ v) ts"
    then obtain a b where "ts = a @ b" "yields rs X a" "yields_seq rs (u @ v) b" by (auto simp: yields_seq_simps)
    moreover from this obtain c d where "b = c @ d" "yields_seq rs u c" "yields_seq rs v d" using Cons by blast
    ultimately show "\<exists>xs ys. ts = xs @ ys \<and> yields_seq rs (X # u) xs \<and> yields_seq rs v ys"
      using yields_Cons by (intro exI [of _ "a @ c"] exI [of _ d]) auto
  next
    assume "\<exists>xs ys. ts = xs @ ys \<and> yields_seq rs (X # u) xs \<and> yields_seq rs v ys"
    then obtain a c d where "ts = (a @ c) @ d" "yields rs X a" "yields_seq rs u c" "yields_seq rs v d"
      by (auto simp: yields_seq_simps)
    moreover from this have "yields_seq rs (u @ v) (c @ d)" using Cons by blast
    ultimately show "yields_seq rs ((X # u) @ v) ts" using yields_Cons by fastforce
  qed
qed (simp add: yields_seq_simps)

lemma derive_yields: "derive rs w w' \<Longrightarrow> yields_seq rs w' ts \<Longrightarrow> yields_seq rs w ts"
proof (induction rule: derive.induct)
  case (expand n rhs u v)
  then obtain a b c where s: "ts = a @ b @ c" "yields_seq rs u a" "yields_seq rs rhs b" "yields_seq rs v c"
    by (auto simp: yields_seq_append)
  then have "yields_seq rs (N n # v) (b @ c)" using expand.hyps by (intro yields_Cons yields_N)
  then show ?case using s(1,2) by (auto simp: yields_seq_append)
next
  case (erase u v)
  then obtain a b where s: "ts = a @ b" "yields_seq rs u a" "yields_seq rs v b" by (auto simp: yields_seq_append)
  then have "yields_seq rs (Epsilon # v) ([] @ b)" by (intro yields_Cons yields_Epsilon)
  then show ?case using s(1,2) by (auto simp: yields_seq_append)
qed

lemma yields_terminals: "yields_seq rs (map T ts) ts"
  using yields_Cons [OF yields_T] by (induction ts) (auto intro: yields_Nil)

lemma derives_yields: "derives rs w (map T ts) \<Longrightarrow> yields_seq rs w ts"
  by (induction rule: converse_rtranclp_induct) (auto intro: derive_yields yields_terminals)

lemma yields_derives: "yields rs X ts \<Longrightarrow> derives rs [X] (map T ts)"
  and yields_seq_derives: "yields_seq rs w ts \<Longrightarrow> derives rs w (map T ts)"
proof (induction rule: yields_yields_seq.inducts)
  case (yields_N n rhs ts)
  then show ?case using derives_rule rtranclp_trans by metis
next
  case (yields_Cons X xs w ys)
  then show ?case using derives_append [of rs "[X]" "map T xs" w "map T ys"] by simp
qed (auto intro: derives_Epsilon)

text \<open>The first terminal of what follows is in FIRST of the symbols that yield it.\<close>

lemma yields_lookahead:
  assumes "yields_seq rs w ys" shows "first_seq rs (lookahead (ys @ rest)) (w @ [T (lookahead rest)])"
proof -
  have "derives rs (w @ [T (lookahead rest)]) (map T ys @ [T (lookahead rest)])"
    using yields_seq_derives [OF assms] by (intro derives_append) auto
  then show ?thesis by (cases ys) (auto simp: first_seq_iff lookahead_def)
qed

section \<open>Following a parse tree\<close>

definition no_epsilon :: "rules \<Rightarrow> bool" where
  "no_epsilon rs \<longleftrightarrow> (\<forall>(l, r) \<in> set rs. Epsilon \<notin> set r)"

lemma lookahead_append [simp]: "lookahead ((t # ts) @ us) = t" "lookahead ([] @ us) = lookahead us"
  by (simp_all add: lookahead_def)

lemma item_lookahead_known:
  assumes "lr_ready p g start" "s < length (p_states p)" "LR1Item q d a \<in> state_items p s"
  shows "a \<in> g_terminal_ids g" "q < length (grammar_rules g)"
  using state_facts(1) [OF ready_facts(7) [OF assms(1)] assms(2)] assms(3) by auto

text \<open>What a cell holds, one kind of action at a time.\<close>

lemma cell_actions:
  assumes "lr_ready p g start" "s < length (p_states p)" "t \<in> g_terminal_ids g"
  obtains as where "action_set p s t = Some as" "\<And>r. next_state p s (T t) = Some r \<Longrightarrow> Shift r \<in> set as"
    "\<And>q. q \<noteq> 0 \<Longrightarrow> LR1Item q (length (rule_rhs g q)) t \<in> state_items p s \<Longrightarrow> Reduce q \<in> set as"
    "\<And>a. t = g_eof g \<Longrightarrow> LR1Item 0 (length (rule_rhs g 0)) a \<in> state_items p s \<Longrightarrow> Accept \<in> set as"
proof -
  obtain as where as: "action_set p s t = Some as" "set as = prescribed g (state_items p s) (next_state p s) t"
    using ready_cell [OF assms] by blast
  show thesis by (rule that [OF as(1)]) (auto simp: as(2) prescribed_def)
qed

lemma machine_follows:
  assumes ready: "lr_ready p g start" and eps: "no_epsilon (grammar_rules g)"
  shows "yields (grammar_rules g) X xs \<Longrightarrow> valid_stack p stk \<Longrightarrow> LR1Item q d a \<in> state_items p (top_state stk) \<Longrightarrow>
      after_dot g (LR1Item q d a) = Some X \<Longrightarrow>
      first_seq (grammar_rules g) (lookahead rest) (drop (d + 1) (rule_rhs g q) @ [T a]) \<Longrightarrow>
      \<exists>s. (lr_step p)\<^sup>*\<^sup>* (stk, xs @ rest) ((X, s) # stk, rest) \<and> next_state p (top_state stk) X = Some s"
    and "yields_seq (grammar_rules g) w xs \<Longrightarrow> valid_stack p stk \<Longrightarrow> LR1Item q d a \<in> state_items p (top_state stk) \<Longrightarrow>
      drop d (rule_rhs g q) = w \<Longrightarrow> a = lookahead rest \<Longrightarrow>
      \<exists>top. (lr_step p)\<^sup>*\<^sup>* (stk, xs @ rest) (top @ stk, rest) \<and> length top = length w \<and> valid_stack p (top @ stk) \<and>
        LR1Item q (d + length w) a \<in> state_items p (top_state (top @ stk))"
proof (induction arbitrary: stk q d a rest and stk q d a rest rule: yields_yields_seq.inducts)
  case (yields_T t)
  note f = ready_facts [OF ready]
  have top: "top_state stk < length (p_states p)" by (rule valid_top [OF ready yields_T(1)])
  obtain s where s: "next_state p (top_state stk) (T t) = Some s"
    using has_symbol_next [OF ready top yields_T(2,3)] by blast
  have "t \<in> g_terminal_ids g"
    using automaton_transition(3) [OF f(1,6) map_of_SomeD [OF s]] by simp
  then obtain as where "action_set p (top_state stk) t = Some as" "Shift s \<in> set as"
    using cell_actions [OF ready top] s by metis
  then have "lr_step p (stk, t # rest) ((T t, s) # stk, rest)" by (rule lr_shift)
  then show ?case using s by (intro exI [of _ s]) (simp add: r_into_rtranclp)
next
  case yields_Epsilon
  have "Epsilon \<in> set (rule_rhs g q)" using yields_Epsilon(3) nth_mem by (fastforce simp: nth_opt_Some_iff)
  moreover have "q < length (grammar_rules g)"
    using item_lookahead_known [OF ready valid_top [OF ready yields_Epsilon(1)] yields_Epsilon(2)] by simp
  ultimately show ?case using eps unfolding no_epsilon_def by (metis case_prodD nth_mem prod.collapse)
next
  case (yields_N n rhs ts)
  note f = ready_facts [OF ready]
  let ?t = "lookahead rest"
  have top: "top_state stk < length (p_states p)" by (rule valid_top [OF ready yields_N.prems(1)])
  note q = item_lookahead_known [OF ready top yields_N.prems(2)]
  obtain k where k: "k < length (grammar_rules g)" "grammar_rules g ! k = (n, rhs)"
    using yields_N(1) by (auto simp: in_set_conv_nth)
  have "LR1Item k 0 ?t \<in> successors g (LR1Item q d a)" using k yields_N.prems(3,4) by auto
  then have item: "LR1Item k 0 ?t \<in> state_items p (top_state stk)"
    using canonical_closed [OF state_facts(2) [OF f(7) top] yields_N.prems(2)] by blast
  have "drop 0 (rule_rhs g k) = rhs" using k(2) by simp
  from yields_N(3) [OF yields_N.prems(1) item this refl] obtain tp where tp: "(lr_step p)\<^sup>*\<^sup>* (stk, ts @ rest) (tp @ stk, rest)"
    "length tp = length rhs" "valid_stack p (tp @ stk)" "LR1Item k (0 + length rhs) ?t \<in> state_items p (top_state (tp @ stk))"
    by blast
  have top': "top_state (tp @ stk) < length (p_states p)" by (rule valid_top [OF ready tp(3)])
  have "N n \<in> set (rule_rhs g q)" using yields_N.prems(3) by (auto simp: nth_opt_Some_iff)
  then have "n \<noteq> 0" using augmented_unused(1) [OF ready q(2)] by metis
  then have "k \<noteq> 0" using augmented_unused(2) [OF ready k(1)] k(2) by simp
  have "?t \<in> g_terminal_ids g" using item_lookahead_known [OF ready top item] by simp
  then obtain as where as: "action_set p (top_state (tp @ stk)) ?t = Some as" "Reduce k \<in> set as"
    using cell_actions [OF ready top'] tp(4) k(2) \<open>k \<noteq> 0\<close> by (metis add_0 snd_conv)
  obtain s where s: "next_state p (top_state stk) (N n) = Some s"
    using has_symbol_next [OF ready top yields_N.prems(2,3)] by blast
  have "n < nts g" using rule_lhs_bound [OF f(2) k(1)] k(2) by simp
  then have "goto_state p (top_state (drop (length rhs) (tp @ stk))) (rule_lhs (p_grammar p) k) = Some (Some s)"
    using ready_goto [OF ready top] s tp(2) k(2) f(5) by simp
  then have "lr_step p (tp @ stk, rest) ((N (rule_lhs (p_grammar p) k), s) # drop (length rhs) (tp @ stk), rest)"
    using lr_reduce [OF as] tp(2) k(2) f(5) by simp
  then have "lr_step p (tp @ stk, rest) ((N n, s) # stk, rest)" using tp(2) k(2) f(5) by simp
  then show ?case using tp(1) s by (meson rtranclp.rtrancl_into_rtrancl)
next
  case yields_Nil
  then show ?case by (intro exI [of _ "[]"]) simp
next
  case (yields_Cons X xs w ys)
  note f = ready_facts [OF ready]
  have sym: "after_dot g (LR1Item q d a) = Some X" "drop (d + 1) (rule_rhs g q) = w"
  proof -
    have "d < length (rule_rhs g q)" using yields_Cons.prems(3) by (cases "d < length (rule_rhs g q)") auto
    then have "X # w = rule_rhs g q ! d # drop (Suc d) (rule_rhs g q)"
      using yields_Cons.prems(3) by (simp add: Cons_nth_drop_Suc)
    then show "after_dot g (LR1Item q d a) = Some X" "drop (d + 1) (rule_rhs g q) = w"
      using \<open>d < length (rule_rhs g q)\<close> by (simp_all add: nth_opt_def)
  qed
  have "first_seq (grammar_rules g) (lookahead (ys @ rest)) (drop (d + 1) (rule_rhs g q) @ [T a])"
    using yields_lookahead [OF yields_Cons(3)] sym(2) yields_Cons.prems(4) by simp
  from yields_Cons(2) [OF yields_Cons.prems(1,2) sym(1) this] obtain s where
    s: "(lr_step p)\<^sup>*\<^sup>* (stk, xs @ ys @ rest) ((X, s) # stk, ys @ rest)" "next_state p (top_state stk) X = Some s" by blast
  have "LR1Item q (Suc d) a \<in> state_items p (top_state ((X, s) # stk))"
    using next_items(1) [OF ready s(2)] yields_Cons.prems(2) sym(1) by (simp add: goto_item del: after_dot.simps)
  moreover have "valid_stack p ((X, s) # stk)" using yields_Cons.prems(1) s(2) by simp
  moreover have "drop (Suc d) (rule_rhs g q) = w" using sym(2) by simp
  ultimately obtain tp where tp: "(lr_step p)\<^sup>*\<^sup>* ((X, s) # stk, ys @ rest) (tp @ (X, s) # stk, rest)"
    "length tp = length w" "valid_stack p (tp @ (X, s) # stk)"
    "LR1Item q (Suc d + length w) a \<in> state_items p (top_state (tp @ (X, s) # stk))"
    using yields_Cons(4) [of "(X, s) # stk" q "Suc d" a rest] yields_Cons.prems(4) by blast
  show ?case
    using s(1) tp by (intro exI [of _ "tp @ [(X, s)]"]) (auto intro: rtranclp_trans)
qed

lemma accepts_complete:
  assumes "lr_ready p g start" "no_epsilon (grammar_rules g)" "derives (grammar_rules g) [N start] (map T ts)"
  shows "accepts p ts"
proof -
  note f = ready_facts [OF assms(1)]
  let ?rest = "[EOF_TERMINAL]"
  have zero: "state_items p 0 = start_set g" "0 < length (p_states p)" using f(7) by (auto simp: state_list_ok_def)
  have item: "LR1Item 0 0 EOF_TERMINAL \<in> state_items p (top_state [])"
    using closed_seed [of "LR1Item 0 0 (g_eof g)" "{LR1Item 0 0 (g_eof g)}" g] f(3) zero by (simp add: start_set_def)
  have "yields_seq (grammar_rules g) [N start] ts" by (rule derives_yields [OF assms(3)])
  then have tree: "yields (grammar_rules g) (N start) ts" by (auto simp: yields_seq_simps)
  have "after_dot g (LR1Item 0 0 EOF_TERMINAL) = Some (N start)" using f(10) by simp
  moreover have "first_seq (grammar_rules g) (lookahead ?rest) (drop (0 + 1) (rule_rhs g 0) @ [T EOF_TERMINAL])"
    using f(10) by (simp add: lookahead_def)
  ultimately obtain s where s: "(lr_step p)\<^sup>*\<^sup>* ([], ts @ ?rest) ([(N start, s)], ?rest)" "next_state p 0 (N start) = Some s"
    using machine_follows(1) [OF assms(1,2) tree _ item] by auto
  have s': "s < length (p_states p)" "state_items p s = goto_set g (state_items p 0) (N start)"
    using next_items [OF assms(1) s(2)] by simp_all
  have item1: "LR1Item 0 1 EOF_TERMINAL \<in> state_items p s" using item f(10) s'(2) by (simp add: goto_item)
  moreover have sym1: "after_dot g (LR1Item 0 1 EOF_TERMINAL) = Some (T EOF_TERMINAL)" using f(10) by simp
  ultimately obtain r where r: "next_state p s (T EOF_TERMINAL) = Some r" using has_symbol_next [OF assms(1) s'(1)] by blast
  obtain as where as: "action_set p s EOF_TERMINAL = Some as" "Shift r \<in> set as"
    using cell_actions [OF assms(1) s'(1) f(4)] r by metis
  have "lr_step p ([(N start, s)], ?rest) ([(T EOF_TERMINAL, r), (N start, s)], [])"
    by (rule lr_shift [where as = as]) (use as in simp_all)
  then have run: "(lr_step p)\<^sup>*\<^sup>* ([], ts @ ?rest) ([(T EOF_TERMINAL, r), (N start, s)], [])"
    using s(1) by (rule rtranclp.rtrancl_into_rtrancl [rotated])
  have r': "r < length (p_states p)" "state_items p r = goto_set g (state_items p s) (T EOF_TERMINAL)"
    using next_items [OF assms(1) r] by simp_all
  have "LR1Item 0 2 EOF_TERMINAL \<in> state_items p r"
    using item1 sym1 r'(2) by (simp add: goto_item numeral_2_eq_2 del: after_dot.simps)
  moreover have "length (rule_rhs g 0) = 2" using f(10) by simp
  ultimately obtain bs where "action_set p r EOF_TERMINAL = Some bs" "Accept \<in> set bs"
    using cell_actions [OF assms(1) r'(1) f(4)] f(3) by metis
  then show ?thesis using run unfolding accepts_def by (metis top_state_simps(2))
qed

end
