(* ===== verification/Session_Graph.thy ===== *)
theory Session_Graph
  imports Parse_Session LR_Complete
begin

text \<open>
  Tools for the session: outcomes of session steps, ways down the graph, and the invariant of the
  graph, from which a reduction that the tables prescribe finds its right-hand side below every node.
\<close>

section \<open>Outcomes of steps\<close>

definition outcome :: "('x, 's) step_result \<Rightarrow> (parse_stop \<Rightarrow> 's \<Rightarrow> bool) \<Rightarrow> ('x \<Rightarrow> 's \<Rightarrow> bool) \<Rightarrow> bool" where
  "outcome r E Q = (case r of (Inl e, s) \<Rightarrow> E e s | (Inr x, s) \<Rightarrow> Q x s)"

lemma outcome_simps [simp]: "outcome (Inl e, s) E Q = E e s" "outcome (Inr x, s) E Q = Q x s"
  by (simp_all add: outcome_def)

lemma outcome_return [simp]: "outcome (return_step x s) E Q = Q x s"
  by (simp add: return_step_def)

lemma outcome_and_then [simp]: "outcome (and_then f k s) E Q = outcome (f s) E (\<lambda>x s'. outcome (k x s') E Q)"
  by (simp add: outcome_def and_then_def split: prod.split sum.split)

lemma outcome_mono: "outcome r E Q \<Longrightarrow> (\<And>e s. E e s \<Longrightarrow> E' e s) \<Longrightarrow> (\<And>x s. Q x s \<Longrightarrow> Q' x s) \<Longrightarrow> outcome r E' Q'"
  by (auto simp: outcome_def split: prod.splits sum.splits)

lemma outcome_panic [simp]: "outcome (or_panic (Some x) s) E Q = Q x s"
  by (simp add: or_panic_def)

text \<open>A loop: what holds of the elements past so far.\<close>

lemma for_each_outcome:
  assumes "I [] acc s"
    and "\<And>past x rest acc s. xs = past @ x # rest \<Longrightarrow> I past acc s \<Longrightarrow> outcome (f x acc s) E (I (past @ [x]))"
  shows "outcome (for_each f xs acc s) E (I xs)"
proof -
  have "outcome (for_each f ys acc s) E (I (past @ ys))" if "xs = past @ ys" "I past acc s" for past ys acc s
    using that
  proof (induction ys arbitrary: past acc s)
    case (Cons y ys)
    have out: "outcome (f y acc s) E (I (past @ [y]))" using assms(2) [OF Cons.prems] .
    obtain r s1 where r: "f y acc s = (r, s1)" by fastforce
    show ?case
    proof (cases r)
      case (Inr acc1)
      then show ?thesis using out r Cons.IH [of "past @ [y]" acc1 s1] Cons.prems(1) by simp
    qed (use out r in simp)
  qed simp
  from this [of "[]" xs acc s] show ?thesis using assms(1) by simp
qed

section \<open>The graph\<close>

abbreviation ps_nodes :: "('v, 'l) session \<Rightarrow> gss_node list" where
  "ps_nodes s \<equiv> gss_nodes (ps_gss s)"

abbreviation ps_edges :: "('v, 'l) session \<Rightarrow> gss_edge list" where
  "ps_edges s \<equiv> gss_edges (ps_gss s)"

abbreviation node_state :: "gss_node list \<Rightarrow> nat \<Rightarrow> nat" where
  "node_state ns i \<equiv> gn_state (ns ! i)"

abbreviation node_column :: "gss_node list \<Rightarrow> nat \<Rightarrow> nat" where
  "node_column ns i \<equiv> gn_column (ns ! i)"

text \<open>A way down: edges from the top.\<close>

fun edge_path :: "gss_edge list \<Rightarrow> nat \<Rightarrow> gss_edge list \<Rightarrow> nat \<Rightarrow> bool" where
  "edge_path es v [] w = (v = w)"
| "edge_path es v (e # xs) w = (e \<in> set es \<and> ge_from e = v \<and> edge_path es (ge_to e) xs w)"

abbreviation path_products :: "gss_edge list \<Rightarrow> nat list" where
  "path_products xs \<equiv> rev (map ge_product xs)"

lemma edge_path_mono: "edge_path es v xs w \<Longrightarrow> set es \<subseteq> set es' \<Longrightarrow> edge_path es' v xs w"
  by (induction es v xs w rule: edge_path.induct) auto

lemma edge_path_append: "edge_path es v (xs @ ys) w \<longleftrightarrow> (\<exists>u. edge_path es v xs u \<and> edge_path es u ys w)"
  by (induction es v xs w rule: edge_path.induct) auto

lemma edge_path_edges: "edge_path es v xs w \<Longrightarrow> set xs \<subseteq> set es"
  by (induction es v xs w rule: edge_path.induct) auto

text \<open>
  An edge follows a transition of the automaton; it leads to an earlier column, or to the same
  column under a nullable nonterminal.
\<close>

definition edge_ok :: "'b parser \<Rightarrow> gss_node list \<Rightarrow> gss_edge \<Rightarrow> bool" where
  "edge_ok p ns e \<longleftrightarrow> ge_from e < length ns \<and> ge_to e < length ns \<and> node_column ns (ge_to e) \<le> node_column ns (ge_from e) \<and>
     (\<exists>X. map_of (p_transitions p) (node_state ns (ge_to e), X) = Some (node_state ns (ge_from e)) \<and>
        (node_column ns (ge_to e) = node_column ns (ge_from e) \<longrightarrow> nullable (grammar_rules (p_grammar p)) X))"

definition graph_ok :: "'b parser \<Rightarrow> gss_node list \<Rightarrow> gss_edge list \<Rightarrow> bool" where
  "graph_ok p ns es \<longleftrightarrow> (\<forall>n \<in> set ns. gn_state n < length (p_states p)) \<and> (\<forall>e \<in> set es. edge_ok p ns e) \<and>
     (\<forall>i < length ns. node_state ns i \<noteq> 0 \<longrightarrow> (\<exists>e \<in> set es. ge_from e = i))"

lemma edge_ok_mono: "edge_ok p ns e \<Longrightarrow> edge_ok p (ns @ extra) e"
  by (auto simp: edge_ok_def nth_append)

lemma edge_transition:
  assumes "graph_ok p ns es" "e \<in> set es"
  obtains X where "next_state p (node_state ns (ge_to e)) X = Some (node_state ns (ge_from e))"
    "node_column ns (ge_to e) = node_column ns (ge_from e) \<longrightarrow> nullable (grammar_rules (p_grammar p)) X"
    "ge_from e < length ns" "ge_to e < length ns" "node_column ns (ge_to e) \<le> node_column ns (ge_from e)"
  using assms by (auto simp: graph_ok_def edge_ok_def)

lemma node_known: "graph_ok p ns es \<Longrightarrow> i < length ns \<Longrightarrow> node_state ns i < length (p_states p)"
  by (simp add: graph_ok_def)

text \<open>One edge moves the dot of an item back.\<close>

lemma edge_item:
  assumes "lr_ready p g start" "graph_ok p ns es" "e \<in> set es" "LR1Item q (Suc d) a \<in> state_items p (node_state ns (ge_from e))"
    and "next_state p (node_state ns (ge_to e)) X = Some (node_state ns (ge_from e))"
  shows "LR1Item q d a \<in> state_items p (node_state ns (ge_to e))" "nth_opt (rule_rhs g q) d = Some X"
proof -
  have "LR1Item q d a \<in> state_items p (node_state ns (ge_to e)) \<and> after_dot g (LR1Item q d a) = Some X"
    using assms(4) next_items(1) [OF assms(1,5)] by (simp add: goto_item)
  then show "LR1Item q d a \<in> state_items p (node_state ns (ge_to e))" "nth_opt (rule_rhs g q) d = Some X" by simp_all
qed

lemma path_item:
  assumes "lr_ready p g start" "graph_ok p ns es"
  shows "edge_path es v xs w \<Longrightarrow> v < length ns \<Longrightarrow> LR1Item q (length xs + d) a \<in> state_items p (node_state ns v) \<Longrightarrow>
    w < length ns \<and> node_column ns w \<le> node_column ns v \<and> LR1Item q d a \<in> state_items p (node_state ns w)"
proof (induction xs arbitrary: v)
  case (Cons e xs)
  have e: "e \<in> set es" "ge_from e = v" "edge_path es (ge_to e) xs w" using Cons.prems(1) by simp_all
  obtain X where X: "next_state p (node_state ns (ge_to e)) X = Some (node_state ns (ge_from e))" "ge_to e < length ns"
      "node_column ns (ge_to e) \<le> node_column ns (ge_from e)" using edge_transition [OF assms(2) e(1)] .
  have "LR1Item q (Suc (length xs + d)) a \<in> state_items p (node_state ns (ge_from e))" using Cons.prems(3) e(2) by simp
  from edge_item(1) [OF assms e(1) this X(1)] Cons.IH [OF e(3) X(2)] X(3) e(2) show ?case by auto
qed simp

text \<open>\<^verbatim>\<open>reduce_paths\<close> finds exactly the ways down: the error products of the column are never used.\<close>

lemma edge_path_Suc:
  "edge_path es v xs w \<and> length xs = Suc d \<longleftrightarrow> (\<exists>e ys. xs = e # ys \<and> e \<in> set es \<and> ge_from e = v \<and> edge_path es (ge_to e) ys w \<and> length ys = d)"
  by (cases xs) auto

lemma reduce_paths_exact:
  assumes "lr_ready p g start" "graph_ok p (ps_nodes s) (ps_edges s)" "gss_ok (ps_gss s)"
  shows "v < length (ps_nodes s) \<Longrightarrow> LR1Item q d a \<in> state_items p (node_state (ps_nodes s) v) \<Longrightarrow>
    set (reduce_paths p s column q v d) = {(w, path_products xs) | xs w. edge_path (ps_edges s) v xs w \<and> length xs = d}"
proof (induction d arbitrary: v)
  case (Suc d)
  let ?es = "ps_edges s" and ?ns = "ps_nodes s"
  let ?down = "concat (map (\<lambda>e. map (\<lambda>(w, ps). (w, ps @ [ge_product e])) (reduce_paths p s column q (ge_to e) d)) (outgoing_edges (ps_gss s) v))"
  have out: "set (outgoing_edges (ps_gss s) v) = {e \<in> set ?es. ge_from e = v}" by (auto simp: outgoing_edges_filter [OF assms(3)])
  have step: "set (reduce_paths p s column q (ge_to e) d) = {(w, path_products xs) | xs w. edge_path ?es (ge_to e) xs w \<and> length xs = d}"
    if e: "e \<in> set ?es" "ge_from e = v" for e
  proof -
    obtain X where X: "next_state p (node_state ?ns (ge_to e)) X = Some (node_state ?ns (ge_from e))" "ge_to e < length ?ns"
      using edge_transition [OF assms(2) e(1)] .
    show ?thesis using Suc.IH [OF X(2)] edge_item(1) [OF assms(1,2) e(1) _ X(1)] Suc.prems(2) e(2) by auto
  qed
  have "\<exists>e \<in> set ?es. ge_from e = v"
  proof -
    note f = ready_facts [OF assms(1)]
    have "node_state ?ns v \<noteq> 0"
    proof
      assume "node_state ?ns v = 0"
      then show False using Suc.prems(2) f(7) start_item by (auto simp: state_list_ok_def)
    qed
    then show ?thesis using assms(2) Suc.prems(1) unfolding graph_ok_def by blast
  qed
  then obtain e where e: "e \<in> set ?es" "ge_from e = v" by blast
  have "?down \<noteq> []" if "d = 0"
  proof -
    have "e \<in> set (outgoing_edges (ps_gss s) v)" using e out by simp
    then show ?thesis using that by auto
  qed
  then have "reduce_paths p s column q v (Suc d) = ?down" by (auto simp: Let_def simp del: concat_eq_Nil_conv)
  then have "set (reduce_paths p s column q v (Suc d)) =
      (\<Union>e \<in> {e \<in> set ?es. ge_from e = v}. (\<lambda>(w, ps). (w, ps @ [ge_product e])) ` set (reduce_paths p s column q (ge_to e) d))"
    using out by auto
  also have "\<dots> = (\<Union>e \<in> {e \<in> set ?es. ge_from e = v}. (\<lambda>(w, ps). (w, ps @ [ge_product e])) `
      {(w, path_products xs) | xs w. edge_path ?es (ge_to e) xs w \<and> length xs = d})"
    using step by auto
  also have "\<dots> = {(w, path_products xs) | xs w. edge_path ?es v xs w \<and> length xs = Suc d}"
  proof (intro set_eqI iffI)
    fix x
    assume "x \<in> (\<Union>e \<in> {e \<in> set ?es. ge_from e = v}. (\<lambda>(w, ps). (w, ps @ [ge_product e])) `
      {(w, path_products xs) | xs w. edge_path ?es (ge_to e) xs w \<and> length xs = d})"
    then obtain e ys w where "e \<in> set ?es" "ge_from e = v" "edge_path ?es (ge_to e) ys w" "length ys = d"
        "x = (w, path_products (e # ys))" by auto
    then show "x \<in> {(w, path_products xs) | xs w. edge_path ?es v xs w \<and> length xs = Suc d}"
      by (intro CollectI exI [of _ "e # ys"] exI [of _ w]) simp
  next
    fix x
    assume "x \<in> {(w, path_products xs) | xs w. edge_path ?es v xs w \<and> length xs = Suc d}"
    then obtain xs w where xs: "edge_path ?es v xs w \<and> length xs = Suc d" "x = (w, path_products xs)" by blast
    from xs(1) [unfolded edge_path_Suc] xs(2) obtain e ys where "e \<in> set ?es" "ge_from e = v" "edge_path ?es (ge_to e) ys w" "length ys = d"
        "x = (w, path_products (e # ys))" by blast
    then show "x \<in> (\<Union>e \<in> {e \<in> set ?es. ge_from e = v}. (\<lambda>(w, ps). (w, ps @ [ge_product e])) `
        {(w, path_products xs) | xs w. edge_path ?es (ge_to e) xs w \<and> length xs = d})"
      by (intro UN_I [of e] image_eqI [of _ _ "(w, path_products ys)"]) auto
  qed
  finally show ?case .
qed auto

end
