(* ===== verification/Session_Steps.thy ===== *)
theory Session_Steps
  imports Session_Graph
begin

text \<open>
  A pass of \<^verbatim>\<open>reduce_until_stable\<close> as steps of a relation: one reduction along one way down, or one
  acceptance. The pass refines sequences of steps, never misses a node or a goto entry, and when it
  reports no change every active node is settled: all its reductions are already in the graph.
\<close>

section \<open>Sessions\<close>

definition arena_fine :: "gss_arena \<Rightarrow> bool" where
  "arena_fine g \<longleftrightarrow> gss_ok g \<and> node_chunks g = [] \<and> edge_chunks g = [] \<and>
     length (gss_nodes g) \<le> isize_max \<and> length (gss_edges g) \<le> isize_max"

definition session_ok :: "'b parser \<Rightarrow> ('v, 'l) session \<Rightarrow> bool" where
  "session_ok p s \<longleftrightarrow> arena_fine (ps_gss s) \<and> graph_ok p (ps_nodes s) (ps_edges s) \<and> ps_columns s \<noteq> [] \<and>
     (\<forall>c \<in> set (ps_columns s). (\<forall>v \<in> set (pc_active c). v < length (ps_nodes s)) \<and>
        distinct (pc_active c) \<and> distinct (pc_products c) \<and> distinct (pc_accepted c)) \<and>
     (\<forall>n \<in> set (ps_nodes s). gn_column n \<le> current_column s)"

definition gss_full :: "('v, 'l) session \<Rightarrow> bool" where
  "gss_full s \<longleftrightarrow> length (node_tail (ps_gss s)) = isize_max \<or> length (edge_tail (ps_gss s)) = isize_max"

text \<open>What may stop a reduction: a build function that fails, or a full vector.\<close>

definition stop_ok :: "parse_stop \<Rightarrow> ('v, 'l) session \<Rightarrow> bool" where
  "stop_ok e s = (case e of Panicked \<Rightarrow> gss_full s | Failed f \<Rightarrow> (case f of BuildFailed _ \<Rightarrow> True | _ \<Rightarrow> False))"

lemma stop_ok_simps [simp]: "stop_ok Panicked s = gss_full s" "stop_ok (Failed (BuildFailed e)) s"
    "\<not> stop_ok (Failed (MissingGoto a b)) s" "\<not> stop_ok (Failed (NoActiveStacks c)) s" "\<not> stop_ok (Failed (MissingGssNode d)) s"
  by (simp_all add: stop_ok_def)

text \<open>Only the arenas of syntax and the reduction cache differ.\<close>

definition quiet :: "('v, 'l) session \<Rightarrow> ('v, 'l) session \<Rightarrow> bool" where
  "quiet s s' \<longleftrightarrow> ps_gss s' = ps_gss s \<and> ps_columns s' = ps_columns s \<and> ps_generation s' = ps_generation s"

definition same_frame :: "('v, 'l) session \<Rightarrow> ('v, 'l) session \<Rightarrow> bool" where
  "same_frame s s' \<longleftrightarrow> ps_generation s' = ps_generation s \<and> ps_diagnostics s' = ps_diagnostics s \<and>
     ps_token_columns s' = ps_token_columns s \<and> ps_token_products s' = ps_token_products s"

definition cache_key :: "nat \<Rightarrow> nat list \<Rightarrow> nat \<Rightarrow> reduction_key" where
  "cache_key q children boundary = (q, children, if children = [] then Some boundary else None)"

text \<open>One step in column \<open>i\<close> under a lookahead.\<close>

inductive session_step :: "'b parser \<Rightarrow> nat \<Rightarrow> terminal_id \<Rightarrow> nat \<Rightarrow> ('v, 'l) session \<Rightarrow> ('v, 'l) session \<Rightarrow> bool"
  for p i la boundary where
  step_reduce: "column_at i s = Some c \<Longrightarrow> v \<in> set (pc_active c) \<Longrightarrow>
    action_set p (node_state (ps_nodes s) v) la = Some as \<Longrightarrow> Reduce q \<in> set as \<Longrightarrow>
    edge_path (ps_edges s) v xs w \<Longrightarrow> length xs = length (rule_rhs (p_grammar p) q) \<Longrightarrow>
    next_state p (node_state (ps_nodes s) w) (N (rule_lhs (p_grammar p) q)) = Some to \<Longrightarrow>
    ps_reduced s' (cache_key q (path_products xs) boundary) = Some product \<Longrightarrow> ps_reduced s \<subseteq>\<^sub>m ps_reduced s' \<Longrightarrow>
    nth_opt (ps_nodes s') u = Some (gss_node_new to i (ps_generation s)) \<Longrightarrow>
    ps_nodes s' = add_new (gss_node_new to i (ps_generation s)) (ps_nodes s) \<Longrightarrow>
    ps_edges s' = add_new (gss_edge_new u w product (ps_generation s)) (ps_edges s) \<Longrightarrow>
    ps_columns s' = (ps_columns s)[i := c\<lparr>pc_active := add_new u (pc_active c), pc_products := add_new product (pc_products c)\<rparr>] \<Longrightarrow>
    same_frame s s' \<Longrightarrow> arena_fine (ps_gss s') \<Longrightarrow> session_step p i la boundary s s'"
| step_accept: "column_at i s = Some c \<Longrightarrow> v \<in> set (pc_active c) \<Longrightarrow>
    action_set p (node_state (ps_nodes s) v) la = Some as \<Longrightarrow> Accept \<in> set as \<Longrightarrow>
    edge_path (ps_edges s) v xs w \<Longrightarrow> length xs = length (rule_rhs (p_grammar p) 0) \<Longrightarrow>
    ps_reduced s' (cache_key 0 (path_products xs) boundary) = Some product \<Longrightarrow> ps_reduced s \<subseteq>\<^sub>m ps_reduced s' \<Longrightarrow>
    ps_gss s' = ps_gss s \<Longrightarrow>
    ps_columns s' = (ps_columns s)[i := c\<lparr>pc_products := add_new product (pc_products c), pc_accepted := add_new product (pc_accepted c)\<rparr>] \<Longrightarrow>
    same_frame s s' \<Longrightarrow> session_step p i la boundary s s'"

abbreviation session_steps :: "'b parser \<Rightarrow> nat \<Rightarrow> terminal_id \<Rightarrow> nat \<Rightarrow> ('v, 'l) session \<Rightarrow> ('v, 'l) session \<Rightarrow> bool" where
  "session_steps p i la boundary \<equiv> (session_step p i la boundary)\<^sup>*\<^sup>*"

section \<open>Steps keep sessions well formed\<close>

definition grows :: "('v, 'l) session \<Rightarrow> ('v, 'l) session \<Rightarrow> bool" where
  "grows s s' \<longleftrightarrow> (\<exists>ns. ps_nodes s' = ps_nodes s @ ns) \<and> set (ps_edges s) \<subseteq> set (ps_edges s') \<and>
     length (ps_columns s') = length (ps_columns s) \<and> ps_reduced s \<subseteq>\<^sub>m ps_reduced s' \<and> same_frame s s' \<and>
     (\<forall>j < length (ps_columns s). set (pc_active (ps_columns s ! j)) \<subseteq> set (pc_active (ps_columns s' ! j)) \<and>
        set (pc_accepted (ps_columns s ! j)) \<subseteq> set (pc_accepted (ps_columns s' ! j)))"

lemma set_add_new [simp]: "set (add_new x xs) = insert x (set xs)"
  by (auto simp: add_new_def)

lemma distinct_add_new [simp]: "distinct (add_new x xs) \<longleftrightarrow> distinct xs"
  by (auto simp: add_new_def)

lemma add_new_grows: "\<exists>ys. add_new x xs = xs @ ys"
  by (auto simp: add_new_def)

lemma same_frame_refl [simp]: "same_frame s s"
  by (simp add: same_frame_def)

lemma same_frame_trans: "same_frame s t \<Longrightarrow> same_frame t u \<Longrightarrow> same_frame s u"
  by (simp add: same_frame_def)

lemma grows_refl [simp]: "grows s s"
  by (simp add: grows_def)

lemma grows_trans: "grows s t \<Longrightarrow> grows t u \<Longrightarrow> grows s u"
  unfolding grows_def by (auto intro: same_frame_trans map_le_trans) (blast | force)+

lemma column_at_Some: "column_at i s = Some c \<longleftrightarrow> i < length (ps_columns s) \<and> c = ps_columns s ! i"
  by (simp add: column_at_def nth_opt_Some_iff)

lemma step_grows: "session_step p i la boundary s s' \<Longrightarrow> grows s s'"
proof (induction rule: session_step.induct)
  case (step_reduce s c v as q xs w to s' product u)
  then show ?case using add_new_grows by (auto simp: grows_def column_at_Some nth_list_update)
next
  case (step_accept s c v as xs w s' product)
  then show ?case by (auto simp: grows_def column_at_Some nth_list_update)
qed

lemma steps_grow: "session_steps p i la boundary s s' \<Longrightarrow> grows s s'"
  by (induction rule: rtranclp_induct) (auto intro: grows_trans step_grows)

lemma step_columns: "session_step p i la boundary s s' \<Longrightarrow> current_column s' = current_column s"
  using step_grows [of p i la boundary s s'] by (simp add: grows_def current_column_def)

lemma production_known:
  assumes "lr_ready p g start" "q < length (grammar_rules g)"
  shows "production_rhs_len g q = Some (length (rule_rhs g q))" "production_lhs g q = Some (rule_lhs g q)"
    "nth_opt (g_productions g) q \<noteq> None"
proof -
  have g: "grammar_ok g" using ready_facts [OF assms(1)] by simp
  have q: "q < length (g_productions g)" using assms(2) by (simp add: grammar_rules_def)
  then have "production_ok (g_rhs_symbols g) (g_terminal_ids g) (length (g_non_terminals g)) (g_productions g ! q)"
    using g by (simp add: grammar_ok_def productions_ok_def)
  then show "production_rhs_len g q = Some (length (rule_rhs g q))"
    using q by (auto simp: production_rhs_len_def grammar_rules_def rule_of_def production_ok_def Prelude.slice_def split: if_splits)
  show "production_lhs g q = Some (rule_lhs g q)" "nth_opt (g_productions g) q \<noteq> None"
    using q by (simp_all add: production_lhs_def grammar_rules_def rule_of_def)
qed

text \<open>The items behind the actions of a node.\<close>

lemma action_items:
  assumes "lr_ready p g start" "graph_ok p ns es" "v < length ns" "action_set p (node_state ns v) la = Some as"
  shows "Reduce q \<in> set as \<Longrightarrow> q \<noteq> 0 \<and> q < length (grammar_rules g) \<and>
      LR1Item q (length (rule_rhs g q)) la \<in> state_items p (node_state ns v)"
    "Accept \<in> set as \<Longrightarrow> la = EOF_TERMINAL \<and> (\<exists>a. LR1Item 0 (length (rule_rhs g 0)) a \<in> state_items p (node_state ns v))"
proof -
  have v: "node_state ns v < length (p_states p)" using node_known [OF assms(2,3)] .
  note act = action_iff [OF assms(1) v assms(4)]
  show "q \<noteq> 0 \<and> q < length (grammar_rules g) \<and> LR1Item q (length (rule_rhs g q)) la \<in> state_items p (node_state ns v)"
    if "Reduce q \<in> set as"
    using that item_lookahead_known(2) [OF assms(1) v] by (auto simp: act prescribed_def)
  show "la = EOF_TERMINAL \<and> (\<exists>a. LR1Item 0 (length (rule_rhs g 0)) a \<in> state_items p (node_state ns v))" if "Accept \<in> set as"
    using that ready_facts(3) [OF assms(1)] by (auto simp: act prescribed_def)
qed

text \<open>Below a completed item the goto entry of its left-hand side exists.\<close>

lemma goto_exists:
  assumes "lr_ready p g start" "graph_ok p ns es" "w < length ns" "LR1Item q 0 a \<in> state_items p (node_state ns w)" "q \<noteq> 0"
    "q < length (grammar_rules g)"
  shows "\<exists>to. goto_state p (node_state ns w) (rule_lhs g q) = Some (Some to) \<and> next_state p (node_state ns w) (N (rule_lhs g q)) = Some to"
proof -
  note f = ready_facts [OF assms(1)]
  have w: "node_state ns w < length (p_states p)" using node_known [OF assms(2,3)] .
  obtain j where j: "j \<in> state_items p (node_state ns w)" "LR1Item q 0 a \<in> successors g j"
    using canonical_initial_item [OF state_facts(2) [OF f(7) w] assms(4)] assms(5) by blast
  then have "after_dot g j = Some (N (rule_lhs g q))" by (cases j) auto
  then show ?thesis
    using has_symbol_next [OF assms(1) w j(1)] ready_goto [OF assms(1) w rule_lhs_bound [OF f(2) assms(6)]] by auto
qed

text \<open>A reduction keeps the graph well formed: a zero-width edge carries a nullable nonterminal.\<close>

lemma path_nullable:
  assumes "lr_ready p g start" "graph_ok p ns es"
  shows "edge_path es v xs w \<Longrightarrow> v < length ns \<Longrightarrow> LR1Item q (d + length xs) a \<in> state_items p (node_state ns v) \<Longrightarrow>
    node_column ns w = node_column ns v \<Longrightarrow> \<forall>X \<in> set (take (length xs) (drop d (rule_rhs g q))). nullable (grammar_rules g) X"
proof (induction xs arbitrary: v)
  case (Cons e xs)
  note f = ready_facts [OF assms(1)]
  have e: "e \<in> set es" "ge_from e = v" "edge_path es (ge_to e) xs w" using Cons.prems(1) by simp_all
  obtain X where X: "next_state p (node_state ns (ge_to e)) X = Some (node_state ns (ge_from e))"
      "node_column ns (ge_to e) = node_column ns (ge_from e) \<longrightarrow> nullable (grammar_rules (p_grammar p)) X"
      "ge_to e < length ns" "node_column ns (ge_to e) \<le> node_column ns (ge_from e)" using edge_transition [OF assms(2) e(1)] .
  have "LR1Item q (Suc (d + length xs)) a \<in> state_items p (node_state ns (ge_from e))" using Cons.prems(3) e(2) by simp
  note item = edge_item [OF assms e(1) this X(1)]
  have "node_column ns w \<le> node_column ns (ge_to e)" using path_item [OF assms e(3) X(3), of q d a] item(1) by (simp add: add.commute)
  then have same: "node_column ns (ge_to e) = node_column ns v" "node_column ns w = node_column ns (ge_to e)"
    using Cons.prems(4) X(4) e(2) by auto
  have "nullable (grammar_rules g) X" using X(2) same(1) e(2) f(5) by simp
  moreover have "take (Suc (length xs)) (drop d (rule_rhs g q)) = take (length xs) (drop d (rule_rhs g q)) @ [X]"
    using item(2) take_Suc_conv_app_nth [of "length xs" "drop d (rule_rhs g q)"] by (simp add: nth_opt_Some_iff less_diff_conv add.commute)
  moreover note Cons.IH [OF e(3) X(3) item(1) same(2)]
  ultimately show ?case by simp
qed simp

lemma reduce_edge_ok:
  assumes "lr_ready p g start" "graph_ok p ns es" "edge_path es v xs w" "v < length ns" "length xs = length (rule_rhs g q)"
    and "LR1Item q (length (rule_rhs g q)) a \<in> state_items p (node_state ns v)" "q < length (grammar_rules g)"
    and "next_state p (node_state ns w) (N (rule_lhs g q)) = Some to" "node_column ns v \<le> i"
    and "nth_opt (add_new (gss_node_new to i gen) ns) u = Some (gss_node_new to i gen)"
  shows "edge_ok p (add_new (gss_node_new to i gen) ns) (gss_edge_new u w product gen)"
proof -
  let ?n = "gss_node_new to i gen"
  note f = ready_facts [OF assms(1)]
  have w: "w < length ns" "node_column ns w \<le> node_column ns v"
    using path_item [OF assms(1-4), of q 0 a] assms(5,6) by simp_all
  have u: "u < length (add_new ?n ns)" "add_new ?n ns ! u = ?n" using assms(10) by (auto simp: nth_opt_Some_iff)
  have old: "add_new ?n ns ! w = ns ! w" "w < length (add_new ?n ns)" using w(1) by (auto simp: add_new_def nth_append)
  have "nullable (grammar_rules g) (N (rule_lhs g q))" if "node_column ns w = i"
  proof -
    have "node_column ns w = node_column ns v" using that w(2) assms(9) by simp
    from path_nullable [OF assms(1-4) _ this, of q 0 a] have "\<forall>X \<in> set (rule_rhs g q). nullable (grammar_rules g) X"
      using assms(5,6) by simp
    then show ?thesis using assms(7) by (intro nullable_N [of _ "rule_rhs g q"]) auto
  qed
  then show ?thesis using u old assms(8,9) w f(5)
    by (auto simp: edge_ok_def gss_edge_new_def gss_node_new_def intro!: exI [of _ "N (rule_lhs g q)"])
qed

lemma step_ok:
  assumes "lr_ready p g start" "session_ok p s" "i = current_column s" "session_step p i la boundary s s'"
  shows "session_ok p s'"
  using assms(4)
proof cases
  case (step_reduce c v as q xs w to product u)
  note g = ready_facts(5) [OF assms(1)]
  let ?n = "gss_node_new to i (ps_generation s)"
  have graph: "graph_ok p (ps_nodes s) (ps_edges s)" "\<forall>n \<in> set (ps_nodes s). gn_column n \<le> i" using assms(2,3) by (auto simp: session_ok_def)
  have c: "c \<in> set (ps_columns s)" "i < length (ps_columns s)" using step_reduce(1) by (auto simp: column_at_Some)
  have v: "v < length (ps_nodes s)" using assms(2) c(1) step_reduce(2) by (auto simp: session_ok_def)
  note items = action_items(1) [OF assms(1) graph(1) v step_reduce(3,4)]
  have len: "length xs = length (rule_rhs g q)" using step_reduce(6) g by simp
  have "edge_ok p (ps_nodes s') (gss_edge_new u w product (ps_generation s))"
    unfolding step_reduce(11)
    by (rule reduce_edge_ok [OF assms(1) graph(1) step_reduce(5) v len])
      (use items step_reduce(7,10,11) g graph(2) v in auto)
  moreover have u: "u < length (ps_nodes s')" "ps_nodes s' ! u = ?n" using step_reduce(10) by (auto simp: nth_opt_Some_iff)
  moreover have "edge_ok p (ps_nodes s') e" if "e \<in> set (ps_edges s)" for e
    using that graph(1) by (auto simp: step_reduce(11) add_new_def graph_ok_def intro: edge_ok_mono)
  moreover have "to < length (p_states p)" using next_items(2) [OF assms(1) step_reduce(7)] .
  moreover have "\<exists>e \<in> set (ps_edges s'). ge_from e = j" if j: "j < length (ps_nodes s')" "node_state (ps_nodes s') j \<noteq> 0" for j
  proof (cases "j = u")
    case True
    then show ?thesis by (auto simp: step_reduce(12) gss_edge_new_def)
  next
    case False
    have "j < length (ps_nodes s)"
    proof (rule ccontr)
      assume "\<not> j < length (ps_nodes s)"
      then have "j = length (ps_nodes s)" "ps_nodes s' = ps_nodes s @ [?n]" using j(1) by (auto simp: step_reduce(11) add_new_def split: if_splits)
      then have "ps_nodes s' ! j = ?n" "distinct (ps_nodes s')"
        using gss_distinct [of "ps_gss s'"] step_reduce(15) unfolding arena_fine_def by (metis nth_append_length, blast)
      then show False using False u j(1) nth_eq_iff_index_eq [of "ps_nodes s'" j u] by simp
    qed
    moreover from this have "ps_nodes s' ! j = ps_nodes s ! j" by (auto simp: step_reduce(11) add_new_def nth_append)
    ultimately show ?thesis using graph(1) j(2) by (auto simp: graph_ok_def step_reduce(12))
  qed
  ultimately have new: "graph_ok p (ps_nodes s') (ps_edges s')"
    using graph(1) by (auto simp: graph_ok_def step_reduce(11,12) gss_node_new_def)
  have longer: "length (ps_nodes s) \<le> length (ps_nodes s')" by (auto simp: step_reduce(11) add_new_def)
  have "(\<forall>w \<in> set (pc_active d). w < length (ps_nodes s')) \<and> distinct (pc_active d) \<and> distinct (pc_products d) \<and> distinct (pc_accepted d)"
    if "d \<in> set (ps_columns s')" for d
  proof -
    have "d \<in> set (ps_columns s) \<or> d = c\<lparr>pc_active := add_new u (pc_active c), pc_products := add_new product (pc_products c)\<rparr>"
      using that set_update_subset_insert unfolding step_reduce(13) by fastforce
    moreover have "(\<forall>w \<in> set (pc_active e). w < length (ps_nodes s')) \<and> distinct (pc_active e) \<and> distinct (pc_products e) \<and> distinct (pc_accepted e)"
      if "e \<in> set (ps_columns s)" for e using assms(2) that longer by (fastforce simp: session_ok_def)
    ultimately show ?thesis using c(1) u(1) by auto
  qed
  moreover have "\<forall>n \<in> set (ps_nodes s'). gn_column n \<le> i" using graph(2) by (auto simp: step_reduce(11) gss_node_new_def)
  ultimately show ?thesis using new step_reduce(15) step_columns [OF assms(4)] assms(2,3)
    by (auto simp: session_ok_def step_reduce(13))
next
  case (step_accept c v as xs w product)
  have c: "c \<in> set (ps_columns s)" "i < length (ps_columns s)" using step_accept(1) by (auto simp: column_at_Some)
  have "(\<forall>v \<in> set (pc_active d). v < length (ps_nodes s)) \<and> distinct (pc_active d) \<and> distinct (pc_products d) \<and> distinct (pc_accepted d)"
    if "d \<in> set (ps_columns s')" for d
  proof -
    have "d \<in> set (ps_columns s) \<or> d = c\<lparr>pc_products := add_new product (pc_products c), pc_accepted := add_new product (pc_accepted c)\<rparr>"
      using that set_update_subset_insert unfolding step_accept(10) by fastforce
    then show ?thesis using assms(2) c(1) by (auto simp: session_ok_def)
  qed
  then show ?thesis using assms(2) step_accept(9) step_columns [OF assms(4)] by (auto simp: session_ok_def step_accept(10))
qed

lemma steps_ok:
  assumes "lr_ready p g start" "session_ok p s" "i = current_column s" "session_steps p i la boundary s s'"
  shows "session_ok p s' \<and> current_column s' = current_column s"
  using assms(4)
proof (induction rule: rtranclp_induct)
  case (step s1 s2)
  then show ?case using step_ok [OF assms(1), of s1 i la boundary s2] step_columns [OF step.hyps(2)] assms(3) by simp
qed (use assms(2) in simp)

section \<open>The primitive operations\<close>

lemma gss_intern_known: "gss_ok g \<Longrightarrow> n \<in> set (gss_nodes g) \<Longrightarrow> snd (gss_intern n g) = g"
proof -
  assume "gss_ok g" "n \<in> set (gss_nodes g)"
  then have "layered (node_tail_index g) (node_indexes g) n \<noteq> None"
    using index_of_None [of "gss_nodes g" "layered (node_tail_index g) (node_indexes g)" n] by (simp add: gss_ok_def)
  then show ?thesis by (auto simp: gss_intern_def)
qed

lemma fine_tails: "arena_fine g \<Longrightarrow> length (node_tail g) = length (gss_nodes g) \<and> length (edge_tail g) = length (gss_edges g)"
  by (simp add: arena_fine_def gss_nodes_def gss_edges_def)

lemma gss_intern_chunks: "node_chunks (snd (gss_intern n g)) = node_chunks g \<and> edge_chunks (snd (gss_intern n g)) = edge_chunks g"
  by (simp add: gss_intern_def split: option.split)

lemma gss_add_edge_chunks:
  "node_chunks (snd (gss_add_edge u w q gen g)) = node_chunks g \<and> edge_chunks (snd (gss_add_edge u w q gen g)) = edge_chunks g"
  by (simp add: gss_add_edge_def Let_def)

lemma session_node_outcome:
  fixes to i :: nat
  assumes "arena_fine (ps_gss s)"
  defines "n \<equiv> gss_node_new to i (ps_generation s)"
  shows "outcome (session_node to i s) stop_ok (\<lambda>u s1. (\<exists>g. s1 = s\<lparr>ps_gss := g\<rparr> \<and> arena_fine g \<and> gss_edges g = ps_edges s \<and>
    gss_nodes g = add_new n (ps_nodes s) \<and> nth_opt (gss_nodes g) u = Some n \<and> (n \<in> set (ps_nodes s) \<longrightarrow> g = ps_gss s)))"
proof -
  obtain u g where add: "gss_intern n (ps_gss s) = (u, g)" by fastforce
  have ok: "gss_ok (ps_gss s)" "length (ps_nodes s) \<le> isize_max" using assms(1) by (simp_all add: arena_fine_def)
  then have "length (ps_nodes s) < usize_max" by (simp add: isize_max_def usize_max_def)
  note r = gss_intern_ok [OF ok(1) this add]
  then have r': "gss_ok g" "gss_edges g = ps_edges s" "nth_opt (gss_nodes g) u = Some n" "gss_nodes g = add_new n (ps_nodes s)"
    unfolding add_new_def by blast+
  have chunks: "node_chunks g = []" "edge_chunks g = []" using gss_intern_chunks [of n "ps_gss s"] add assms(1) by (auto simp: arena_fine_def)
  then have tail: "length (node_tail g) = length (gss_nodes g)" by (simp add: gss_nodes_def)
  have known: "n \<in> set (ps_nodes s) \<Longrightarrow> g = ps_gss s" using gss_intern_known [OF ok(1)] add by force
  show ?thesis
  proof (cases "length (node_tail g) > isize_max")
    case True
    then have "length (ps_nodes s) = isize_max" using tail ok(2) r'(4) by (simp add: add_new_def split: if_splits)
    then show ?thesis using True add fine_tails [OF assms(1)] by (simp add: session_node_def gss_add_node_def n_def gss_full_def)
  next
    case False
    then have "arena_fine g" using assms(1) r' chunks tail by (simp add: arena_fine_def)
    moreover have "session_node to i s = (Inr u, s\<lparr>ps_gss := g\<rparr>)" using False add by (simp add: session_node_def gss_add_node_def n_def)
    ultimately show ?thesis using r' known by (intro outcome_simps(2) [THEN iffD2] exI [of _ g] | simp)+
  qed
qed

lemma session_edge_outcome:
  fixes u w q :: nat
  assumes "arena_fine (ps_gss s)"
  defines "e \<equiv> gss_edge_new u w q (ps_generation s)"
  shows "outcome (session_edge u w q s) stop_ok (\<lambda>b s1. (\<exists>g. s1 = s\<lparr>ps_gss := g\<rparr> \<and> arena_fine g \<and> gss_nodes g = ps_nodes s \<and>
    gss_edges g = add_new e (ps_edges s) \<and> (b \<longleftrightarrow> e \<notin> set (ps_edges s)) \<and> (\<not> b \<longrightarrow> g = ps_gss s)))"
proof -
  obtain b g where add: "gss_add_edge u w q (ps_generation s) (ps_gss s) = (b, g)" by fastforce
  have ok: "gss_ok (ps_gss s)" "length (ps_edges s) \<le> isize_max" using assms(1) by (simp_all add: arena_fine_def)
  then have "length (ps_edges s) < usize_max" by (simp add: isize_max_def usize_max_def)
  note r = gss_add_edge_ok [OF ok(1) this add]
  then have r': "gss_ok g" "gss_nodes g = ps_nodes s" "b \<longleftrightarrow> e \<notin> set (ps_edges s)" "gss_edges g = add_new e (ps_edges s)"
    by (auto simp: add_new_def e_def)
  have chunks: "node_chunks g = []" "edge_chunks g = []"
    using gss_add_edge_chunks [of u w q "ps_generation s" "ps_gss s"] add assms(1) by (auto simp: arena_fine_def)
  then have tail: "length (edge_tail g) = length (gss_edges g)" by (simp add: gss_edges_def)
  have same: "g = ps_gss s" if "\<not> b" using that add by (auto simp: gss_add_edge_def Let_def split: if_splits)
  show ?thesis
  proof (cases "length (edge_tail g) > isize_max")
    case True
    then have "length (ps_edges s) = isize_max" using tail ok(2) r'(4) by (simp add: add_new_def split: if_splits)
    then show ?thesis using True add fine_tails [OF assms(1)] by (simp add: session_edge_def gss_full_def)
  next
    case False
    then have "arena_fine g" using assms(1) r' chunks tail by (simp add: arena_fine_def)
    moreover have "session_edge u w q s = (Inr b, s\<lparr>ps_gss := g\<rparr>)" using False add by (simp add: session_edge_def)
    ultimately show ?thesis using r' same by (intro outcome_simps(2) [THEN iffD2] exI [of _ g] | simp)+
  qed
qed

lemma reduce_cached_outcome:
  assumes "lr_ready p g start" "q < length (grammar_rules g)"
  shows "outcome (reduce_cached p user q children boundary s) stop_ok (\<lambda>product s1. quiet s s1 \<and> same_frame s s1 \<and>
    ps_reduced s1 (cache_key q children boundary) = Some product \<and> ps_reduced s \<subseteq>\<^sub>m ps_reduced s1)"
proof (cases "ps_reduced s (cache_key q children boundary)")
  case None
  obtain prd where prd: "nth_opt (g_productions (p_grammar p)) q = Some prd"
    using production_known(3) [OF assms] ready_facts(5) [OF assms(1)] by auto
  obtain r st where r: "call_build user (prod_build prd) boundary q children (ps_store s) = (r, st)" by fastforce
  show ?thesis
  proof (cases r)
    case (Inr product)
    let ?key = "cache_key q children boundary"
    have run: "reduce_cached p user q children boundary s = (Inr product, s\<lparr>ps_store := st, ps_reduced := (ps_reduced s)(?key \<mapsto> product),
              ps_origins := (if product \<in> set children then ps_origins s else (ps_origins s)(product \<mapsto> ?key))\<rparr>)"
      using None prd r Inr by (simp add: reduce_cached_def cache_key_def Let_def)
    have "ps_reduced s \<subseteq>\<^sub>m (ps_reduced s)(?key \<mapsto> product)" using None by (auto simp: map_le_def dom_def)
    then show ?thesis unfolding run by (simp add: quiet_def same_frame_def)
  next
    case (Inl e)
    then show ?thesis using None prd r by (simp add: reduce_cached_def cache_key_def Let_def)
  qed
next
  case (Some product)
  then show ?thesis by (simp add: reduce_cached_def cache_key_def Let_def quiet_def)
qed

lemma on_column_outcome:
  "column_at i s = Some c \<Longrightarrow> outcome (on_column i f s) E Q = Q (fst (f c)) (s\<lparr>ps_columns := (ps_columns s)[i := snd (f c)]\<rparr>)"
  by (simp add: on_column_def split: prod.split)

section \<open>A pass refines steps\<close>

text \<open>What a settled node has: the results of all its reductions are in the graph.\<close>

definition present :: "'b parser \<Rightarrow> nat \<Rightarrow> ('v, 'l) session \<Rightarrow> nat \<Rightarrow> nat \<Rightarrow> bool" where
  "present p i s q w \<longleftrightarrow> (\<exists>u to product. next_state p (node_state (ps_nodes s) w) (N (rule_lhs (p_grammar p) q)) = Some to \<and>
     nth_opt (ps_nodes s) u = Some (gss_node_new to i (ps_generation s)) \<and> u \<in> set (pc_active (ps_columns s ! i)) \<and>
     gss_edge_new u w product (ps_generation s) \<in> set (ps_edges s))"

definition settled_action :: "'b parser \<Rightarrow> nat \<Rightarrow> ('v, 'l) session \<Rightarrow> nat \<Rightarrow> action \<Rightarrow> bool" where
  "settled_action p i s v act \<longleftrightarrow> (case act of
     Reduce q \<Rightarrow> (\<forall>xs w. edge_path (ps_edges s) v xs w \<and> length xs = length (rule_rhs (p_grammar p) q) \<longrightarrow>
       present p i s q w)
   | Accept \<Rightarrow> (\<forall>xs w. edge_path (ps_edges s) v xs w \<and> length xs = length (rule_rhs (p_grammar p) 0) \<longrightarrow>
       pc_accepted (ps_columns s ! i) \<noteq> [])
   | _ \<Rightarrow> True)"

definition settled_node :: "'b parser \<Rightarrow> nat \<Rightarrow> terminal_id \<Rightarrow> ('v, 'l) session \<Rightarrow> nat \<Rightarrow> bool" where
  "settled_node p i la s v \<longleftrightarrow> (\<forall>as. action_set p (node_state (ps_nodes s) v) la = Some as \<longrightarrow> (\<forall>act \<in> set as. settled_action p i s v act))"

definition stable :: "'b parser \<Rightarrow> nat \<Rightarrow> terminal_id \<Rightarrow> ('v, 'l) session \<Rightarrow> bool" where
  "stable p i la s \<longleftrightarrow> (\<forall>c. column_at i s = Some c \<longrightarrow> (\<forall>v \<in> set (pc_active c). settled_node p i la s v))"

lemma quiet_refl [simp]: "quiet s s"
  by (simp add: quiet_def)

lemma quiet_trans: "quiet s t \<Longrightarrow> quiet t u \<Longrightarrow> quiet s u"
  by (simp add: quiet_def)

lemma present_quiet: "quiet s s' \<Longrightarrow> present p i s' q w \<longleftrightarrow> present p i s q w"
  by (simp add: quiet_def present_def)

lemma settled_action_quiet: "quiet s s' \<Longrightarrow> settled_action p i s' v act \<longleftrightarrow> settled_action p i s v act"
  by (cases act) (simp_all add: settled_action_def present_quiet, simp_all add: quiet_def)

lemma settled_node_quiet: "quiet s s' \<Longrightarrow> settled_node p i la s' v \<longleftrightarrow> settled_node p i la s v"
  by (simp add: settled_node_def settled_action_quiet) (simp add: quiet_def)

text \<open>
  A loop body that takes steps, raises the flag if anything changed, and otherwise establishes a fact.
\<close>

definition session_size :: "nat \<Rightarrow> ('v, 'l) session \<Rightarrow> nat" where
  "session_size i s = length (ps_edges s) + length (pc_active (ps_columns s ! i)) + length (pc_products (ps_columns s ! i)) +
     length (pc_accepted (ps_columns s ! i))"

lemma step_size: "session_step p i la boundary s s' \<Longrightarrow> session_size i s \<le> session_size i s'"
  by (induction rule: session_step.induct) (auto simp: session_size_def column_at_Some add_new_def)

lemma steps_size: "session_steps p i la boundary s s' \<Longrightarrow> session_size i s \<le> session_size i s'"
  by (induction rule: rtranclp_induct) (auto dest: step_size)

definition advances :: "'b parser \<Rightarrow> nat \<Rightarrow> terminal_id \<Rightarrow> nat \<Rightarrow> ('v, 'l) session \<Rightarrow> bool \<Rightarrow> (('v, 'l) session \<Rightarrow> bool) \<Rightarrow>
    (bool, ('v, 'l) session) step_result \<Rightarrow> bool" where
  "advances p i la boundary s b P r \<longleftrightarrow> outcome r stop_ok (\<lambda>b' s'. session_steps p i la boundary s s' \<and> (b \<longrightarrow> b') \<and>
     (\<not> b \<and> b' \<longrightarrow> session_size i s < session_size i s') \<and> (\<not> b' \<longrightarrow> quiet s s' \<and> P s'))"

lemma for_each_advances:
  assumes "\<And>x b s1. x \<in> set xs \<Longrightarrow> session_steps p i la boundary s s1 \<Longrightarrow> advances p i la boundary s1 b (P x) (f x b s1)"
    and "\<And>x s1 s2. quiet s1 s2 \<Longrightarrow> P x s1 \<Longrightarrow> P x s2"
  shows "advances p i la boundary s b (\<lambda>s'. \<forall>x \<in> set xs. P x s') (for_each f xs b s)"
  unfolding advances_def
proof (rule for_each_outcome [where I = "\<lambda>past b' s'. session_steps p i la boundary s s' \<and> (b \<longrightarrow> b') \<and>
      (\<not> b \<and> b' \<longrightarrow> session_size i s < session_size i s') \<and> (\<not> b' \<longrightarrow> quiet s s' \<and> (\<forall>x \<in> set past. P x s'))"], goal_cases)
  case (2 past x rest b1 s1)
  then have x: "x \<in> set xs" "session_steps p i la boundary s s1" by auto
  show ?case using assms(1) [OF x, of b1, unfolded advances_def]
  proof (rule outcome_mono)
    fix b2 s2
    assume step: "session_steps p i la boundary s1 s2 \<and> (b1 \<longrightarrow> b2) \<and>
      (\<not> b1 \<and> b2 \<longrightarrow> session_size i s1 < session_size i s2) \<and> (\<not> b2 \<longrightarrow> quiet s1 s2 \<and> P x s2)"
    then have "session_steps p i la boundary s s2" using x(2) by (meson rtranclp_trans)
    moreover have "session_size i s \<le> session_size i s1" "session_size i s1 \<le> session_size i s2"
      using x(2) step steps_size [of p i la boundary] by blast+
    then have "\<not> b \<and> b2 \<longrightarrow> session_size i s < session_size i s2" using step 2(2) by (cases b1) auto
    moreover have "quiet s s2 \<and> (\<forall>y \<in> set (past @ [x]). P y s2)" if "\<not> b2"
      using that step 2(2) assms(2) [of s1 s2] by (auto intro: quiet_trans)
    ultimately show "session_steps p i la boundary s s2 \<and> (b \<longrightarrow> b2) \<and> (\<not> b \<and> b2 \<longrightarrow> session_size i s < session_size i s2) \<and>
        (\<not> b2 \<longrightarrow> quiet s s2 \<and> (\<forall>x \<in> set (past @ [x]). P x s2))"
      using step 2(2) by blast
  qed simp
qed simp

lemma note_change_advances:
  "advances p i la boundary s False P (f s) \<Longrightarrow> advances p i la boundary s b P (note_change f b s)"
  unfolding advances_def note_change_def by (auto elim!: outcome_mono)

lemma quiet_steps_node:
  assumes "session_ok p s" "grows s s1" "v < length (ps_nodes s)"
  shows "v < length (ps_nodes s1)" "ps_nodes s1 ! v = ps_nodes s ! v"
  using assms(2,3) by (auto simp: grows_def nth_append)

lemma reduce_path_advances:
  assumes "lr_ready p g start" "session_ok p s" "column_at i s = Some c" "v \<in> set (pc_active c)"
    and "action_set p (node_state (ps_nodes s) v) la = Some as" "Reduce q \<in> set as"
    and path: "edge_path (ps_edges s) v xs w" "length xs = length (rule_rhs g q)"
  shows "advances p i la boundary s False (\<lambda>s'. present p i s' q w) (reduce_path p user i boundary q (rule_lhs g q) (w, path_products xs) s)"
proof -
  note g = ready_facts(5) [OF assms(1)]
  have ok: "arena_fine (ps_gss s)" "graph_ok p (ps_nodes s) (ps_edges s)" "gss_ok (ps_gss s)" using assms(2) by (simp_all add: session_ok_def arena_fine_def)
  have c: "i < length (ps_columns s)" "c = ps_columns s ! i" "c \<in> set (ps_columns s)" using assms(3) by (auto simp: column_at_Some)
  have v: "v < length (ps_nodes s)" using assms(2,4) c(3) by (auto simp: session_ok_def)
  note items = action_items(1) [OF assms(1) ok(2) v assms(5,6)]
  have w: "w < length (ps_nodes s)" "LR1Item q 0 la \<in> state_items p (node_state (ps_nodes s) w)"
    using path_item [OF assms(1) ok(2) path(1) v, of q 0 la] items path(2) by simp_all
  obtain to where to: "goto_state p (node_state (ps_nodes s) w) (rule_lhs g q) = Some (Some to)"
      "next_state p (node_state (ps_nodes s) w) (N (rule_lhs g q)) = Some to"
    using goto_exists [OF assms(1) ok(2) w] items by blast
  have known: "known_node w s = (Inr (ps_nodes s ! w), s)" using gss_get_node_nth [OF ok(3)] w(1) by (simp add: known_node_def)
  let ?n = "gss_node_new to i (ps_generation s)"
  have "outcome (reduce_cached p user q (path_products xs) boundary s) stop_ok (\<lambda>product s'.
      outcome (on_column i (push_product product) s') stop_ok
        (\<lambda>pushed s'. outcome (session_node to i s') stop_ok (\<lambda>u s'. outcome (on_column i (insert_active u) s') stop_ok
          (\<lambda>inserted s'. outcome (session_edge u w product s') stop_ok
            (\<lambda>added s'. session_steps p i la boundary s s' \<and> (pushed \<or> inserted \<or> added \<longrightarrow> session_size i s < session_size i s') \<and>
               (\<not> pushed \<and> \<not> inserted \<and> \<not> added \<longrightarrow> quiet s s' \<and> present p i s' q w))))))"
  proof (rule outcome_mono [OF reduce_cached_outcome [OF assms(1), of q user "path_products xs" boundary s]])
    show "q < length (grammar_rules g)" using items by simp
  next
    fix product s1
    assume s1: "quiet s s1 \<and> same_frame s s1 \<and> ps_reduced s1 (cache_key q (path_products xs) boundary) = Some product \<and>
      ps_reduced s \<subseteq>\<^sub>m ps_reduced s1"
    then have q1: "ps_gss s1 = ps_gss s" "ps_columns s1 = ps_columns s" "ps_generation s1 = ps_generation s" by (auto simp: quiet_def)
    have c1: "column_at i s1 = Some c" using assms(3) q1(2) by (simp add: column_at_def)
    let ?pushed = "push_product product c"
    let ?s2 = "s1\<lparr>ps_columns := (ps_columns s)[i := snd ?pushed]\<rparr>"
    show "outcome (on_column i (push_product product) s1) stop_ok
        (\<lambda>pushed s'. outcome (session_node to i s') stop_ok (\<lambda>u s'. outcome (on_column i (insert_active u) s') stop_ok
          (\<lambda>inserted s'. outcome (session_edge u w product s') stop_ok
            (\<lambda>added s'. session_steps p i la boundary s s' \<and> (pushed \<or> inserted \<or> added \<longrightarrow> session_size i s < session_size i s') \<and>
               (\<not> pushed \<and> \<not> inserted \<and> \<not> added \<longrightarrow> quiet s s' \<and> present p i s' q w)))))"
      unfolding on_column_outcome [OF c1] q1(2)
    proof (rule outcome_mono [OF session_node_outcome [of ?s2 to i]])
      show "arena_fine (ps_gss ?s2)" using ok(1) q1(1) by simp
    next
      fix u s3
      assume "\<exists>gn. s3 = ?s2\<lparr>ps_gss := gn\<rparr> \<and> arena_fine gn \<and> gss_edges gn = ps_edges ?s2 \<and>
        gss_nodes gn = add_new (gss_node_new to i (ps_generation ?s2)) (ps_nodes ?s2) \<and>
        nth_opt (gss_nodes gn) u = Some (gss_node_new to i (ps_generation ?s2)) \<and>
        (gss_node_new to i (ps_generation ?s2) \<in> set (ps_nodes ?s2) \<longrightarrow> gn = ps_gss ?s2)"
      then obtain gn where gn: "s3 = ?s2\<lparr>ps_gss := gn\<rparr>" "arena_fine gn" "gss_edges gn = ps_edges s"
          "gss_nodes gn = add_new ?n (ps_nodes s)" "nth_opt (gss_nodes gn) u = Some ?n" "?n \<in> set (ps_nodes s) \<longrightarrow> gn = ps_gss s"
        using q1 by auto
      let ?c2 = "snd ?pushed"
      have c3: "column_at i s3 = Some ?c2" using c(1) by (simp add: gn(1) column_at_def)
      let ?s4 = "s3\<lparr>ps_columns := (ps_columns s3)[i := snd (insert_active u ?c2)]\<rparr>"
      show "outcome (on_column i (insert_active u) s3) stop_ok
          (\<lambda>inserted s'. outcome (session_edge u w product s') stop_ok
            (\<lambda>added s'. session_steps p i la boundary s s' \<and>
               (fst ?pushed \<or> inserted \<or> added \<longrightarrow> session_size i s < session_size i s') \<and>
               (\<not> fst ?pushed \<and> \<not> inserted \<and> \<not> added \<longrightarrow> quiet s s' \<and> present p i s' q w)))"
        unfolding on_column_outcome [OF c3]
      proof (rule outcome_mono [OF session_edge_outcome [of ?s4 u w product]])
        show "arena_fine (ps_gss ?s4)" using gn(1,2) by simp
      next
        fix added s5
        assume "\<exists>ge. s5 = ?s4\<lparr>ps_gss := ge\<rparr> \<and> arena_fine ge \<and> gss_nodes ge = ps_nodes ?s4 \<and>
          gss_edges ge = add_new (gss_edge_new u w product (ps_generation ?s4)) (ps_edges ?s4) \<and>
          added = (gss_edge_new u w product (ps_generation ?s4) \<notin> set (ps_edges ?s4)) \<and> (\<not> added \<longrightarrow> ge = ps_gss ?s4)"
        then obtain ge where ge: "s5 = ?s4\<lparr>ps_gss := ge\<rparr>" "arena_fine ge" "gss_nodes ge = gss_nodes gn"
            "gss_edges ge = add_new (gss_edge_new u w product (ps_generation s)) (ps_edges s)"
            "added \<longleftrightarrow> gss_edge_new u w product (ps_generation s) \<notin> set (ps_edges s)" "\<not> added \<longrightarrow> ge = gn"
          using q1(3) by (auto simp: gn(1,3))
        let ?c5 = "c\<lparr>pc_active := add_new u (pc_active c), pc_products := add_new product (pc_products c)\<rparr>"
        have c5: "snd (insert_active u ?c2) = ?c5" by (simp add: insert_active_def push_product_def add_new_def)
        have s5: "ps_nodes s5 = add_new ?n (ps_nodes s)" "ps_edges s5 = add_new (gss_edge_new u w product (ps_generation s)) (ps_edges s)"
            "ps_columns s5 = (ps_columns s)[i := ?c5]" "arena_fine (ps_gss s5)" "ps_reduced s5 = ps_reduced s1" "same_frame s s5"
            "nth_opt (ps_nodes s5) u = Some ?n"
          using ge gn s1 c5 by (simp_all add: same_frame_def del: nth_opt_append)
        have "session_step p i la boundary s s5"
          by (rule step_reduce [OF assms(3,4,5,6) path(1) _ _ _ _ s5(7,1,2,3,6,4)])
            (use path(2) g to(2) s1 s5(5) in simp_all)
        moreover have "quiet s s5 \<and> present p i s5 q w" if "\<not> fst ?pushed \<and> \<not> fst (insert_active u ?c2) \<and> \<not> added"
        proof -
          have in_c: "product \<in> set (pc_products c)" "u \<in> set (pc_active c)"
            using that by (auto simp: push_product_def insert_active_def split: if_splits)
          have "u < length (ps_nodes s)" using assms(2) c(3) in_c(2) by (auto simp: session_ok_def)
          then have "?n \<in> set (ps_nodes s)" using gn(4,5) nth_mem [of u "ps_nodes s"] by (cases "?n \<in> set (ps_nodes s)") (auto simp: add_new_def nth_opt_Some_iff nth_append)
          then have "gn = ps_gss s" "ge = gn" using gn(6) ge(6) that by blast+
          moreover have "?c5 = c" using in_c by (simp add: add_new_def)
          ultimately have "quiet s s5" using ge(1) s5(3) c(1,2) s5(6) by (simp add: quiet_def same_frame_def)
          moreover have "nth_opt (ps_nodes s) u = Some ?n" using s5(7,1) \<open>?n \<in> set (ps_nodes s)\<close> by (simp add: add_new_def)
          then have "present p i s q w" using to(2) in_c(2) ge(5) that unfolding present_def g c(2) by blast
          ultimately show ?thesis by (simp add: present_quiet)
        qed
        moreover have "session_size i s < session_size i s5" if "fst ?pushed \<or> fst (insert_active u ?c2) \<or> added"
          using that ge(5) c(1,2) by (auto simp: session_size_def s5(2,3) push_product_def insert_active_def add_new_def split: if_splits)
        ultimately show "session_steps p i la boundary s s5 \<and>
            (fst ?pushed \<or> fst (insert_active u ?c2) \<or> added \<longrightarrow> session_size i s < session_size i s5) \<and>
            (\<not> fst ?pushed \<and> \<not> fst (insert_active u ?c2) \<and> \<not> added \<longrightarrow> quiet s s5 \<and> present p i s5 q w)" by blast
      qed simp
    qed simp
  qed simp
  then show ?thesis by (simp add: advances_def reduce_path_def known goto_or_fail_def to(1))
qed

lemma accept_path_advances:
  assumes "lr_ready p g start" "session_ok p s" "column_at i s = Some c" "v \<in> set (pc_active c)"
    and "action_set p (node_state (ps_nodes s) v) la = Some as" "Accept \<in> set as"
    and path: "edge_path (ps_edges s) v xs w" "length xs = length (rule_rhs g 0)"
  shows "advances p i la boundary s False (\<lambda>s'. pc_accepted (ps_columns s' ! i) \<noteq> []) (accept_path p user i boundary (w, path_products xs) s)"
proof -
  note f = ready_facts [OF assms(1)]
  have c: "i < length (ps_columns s)" "c = ps_columns s ! i" using assms(3) by (auto simp: column_at_Some)
  have "outcome (reduce_cached p user 0 (path_products xs) boundary s) stop_ok (\<lambda>product s'.
      outcome (on_column i (push_product product) s') stop_ok (\<lambda>pushed s'.
        outcome (on_column i (push_accepted product) s') stop_ok (\<lambda>accepted s'.
          session_steps p i la boundary s s' \<and> (pushed \<or> accepted \<longrightarrow> session_size i s < session_size i s') \<and>
            (\<not> pushed \<and> \<not> accepted \<longrightarrow> quiet s s' \<and> pc_accepted (ps_columns s' ! i) \<noteq> []))))"
  proof (rule outcome_mono [OF reduce_cached_outcome [OF assms(1), of 0 user "path_products xs" boundary s]])
    fix product s1
    assume s1: "quiet s s1 \<and> same_frame s s1 \<and> ps_reduced s1 (cache_key 0 (path_products xs) boundary) = Some product \<and>
      ps_reduced s \<subseteq>\<^sub>m ps_reduced s1"
    then have q1: "ps_gss s1 = ps_gss s" "ps_columns s1 = ps_columns s" by (auto simp: quiet_def)
    have c1: "column_at i s1 = Some c" using assms(3) q1(2) by (simp add: column_at_def)
    let ?pushed = "push_product product c"
    let ?s2 = "s1\<lparr>ps_columns := (ps_columns s)[i := snd ?pushed]\<rparr>"
    have c2: "column_at i ?s2 = Some (snd ?pushed)" using c(1) by (simp add: column_at_def)
    let ?accepted = "push_accepted product (snd ?pushed)"
    let ?s3 = "?s2\<lparr>ps_columns := (ps_columns s)[i := snd ?accepted]\<rparr>"
    let ?c3 = "c\<lparr>pc_products := add_new product (pc_products c), pc_accepted := add_new product (pc_accepted c)\<rparr>"
    have c3: "snd ?accepted = ?c3" by (simp add: push_accepted_def push_product_def add_new_def)
    have "session_step p i la boundary s ?s3"
      by (rule step_accept [OF assms(3-6) path(1)]) (use path(2) s1 q1 c3 f(5) in \<open>simp_all add: same_frame_def\<close>)
    moreover have "quiet s ?s3" if "\<not> fst ?pushed" "\<not> fst ?accepted"
    proof -
      have "?c3 = c" using that by (auto simp: push_product_def push_accepted_def add_new_def split: if_splits)
      then show ?thesis using s1 c c3 by (simp add: quiet_def)
    qed
    moreover have "pc_accepted (ps_columns ?s3 ! i) \<noteq> []" using c(1) c3 by (auto simp: add_new_def)
    moreover have "session_size i s < session_size i ?s3" if "fst ?pushed \<or> fst ?accepted"
      using that c q1(1) by (auto simp: session_size_def c3 push_product_def push_accepted_def add_new_def split: if_splits)
    ultimately show "outcome (on_column i (push_product product) s1) stop_ok (\<lambda>pushed s'.
        outcome (on_column i (push_accepted product) s') stop_ok (\<lambda>accepted s'.
          session_steps p i la boundary s s' \<and> (pushed \<or> accepted \<longrightarrow> session_size i s < session_size i s') \<and> (\<not> pushed \<and> \<not> accepted \<longrightarrow> quiet s s' \<and> pc_accepted (ps_columns s' ! i) \<noteq> [])))"
      unfolding on_column_outcome [OF c1] q1(2) on_column_outcome [OF c2] by auto
  qed (use f in simp_all)
  then show ?thesis by (simp add: advances_def accept_path_def)
qed

lemma grown_column:
  assumes "grows s s1" "column_at i s = Some c"
  shows "\<exists>c1. column_at i s1 = Some c1 \<and> set (pc_active c) \<subseteq> set (pc_active c1)"
  using assms by (auto simp: grows_def column_at_Some)

lemma reduce_action_advances:
  assumes "lr_ready p g start" "session_ok p s" "i = current_column s" "column_at i s = Some c" "v \<in> set (pc_active c)"
    and "action_set p (node_state (ps_nodes s) v) la = Some as" "act \<in> set as"
  shows "advances p i la boundary s b (\<lambda>s'. settled_action p i s' v act) (reduce_action p user i boundary v act b s)"
proof -
  note f = ready_facts [OF assms(1)]
  have ok: "graph_ok p (ps_nodes s) (ps_edges s)" "gss_ok (ps_gss s)" using assms(2) by (simp_all add: session_ok_def arena_fine_def)
  have v: "v < length (ps_nodes s)" using assms(2,4,5) by (auto simp: session_ok_def column_at_Some)
  text \<open>A way down stays a way down while the loop runs.\<close>
  have later: "session_ok p s1 \<and> (\<exists>c1. column_at i s1 = Some c1 \<and> v \<in> set (pc_active c1)) \<and>
      action_set p (node_state (ps_nodes s1) v) la = Some as \<and> set (ps_edges s) \<subseteq> set (ps_edges s1)"
    if "session_steps p i la boundary s s1" for s1
  proof -
    have "grows s s1" using steps_grow [OF that] .
    then have "\<exists>c1. column_at i s1 = Some c1 \<and> v \<in> set (pc_active c1)" using grown_column assms(4,5) by blast
    moreover have "ps_nodes s1 ! v = ps_nodes s ! v" using quiet_steps_node [OF assms(2) \<open>grows s s1\<close> v] by simp
    ultimately show ?thesis using steps_ok [OF assms(1-3) that] assms(6) \<open>grows s s1\<close> by (auto simp: grows_def)
  qed
  show ?thesis
  proof (cases act)
    case (Reduce q)
    note items = action_items(1) [OF assms(1) ok(1) v assms(6), of q] and red = assms(7) [unfolded Reduce]
    have prod: "production_rhs_len (p_grammar p) q = Some (length (rule_rhs g q))" "production_lhs (p_grammar p) q = Some (rule_lhs g q)"
      using production_known [OF assms(1), of q] items red f(5) by simp_all
    let ?paths = "reduce_paths p s i q v (length (rule_rhs g q))"
    have paths: "set ?paths = {(w, path_products xs) | xs w. edge_path (ps_edges s) v xs w \<and> length xs = length (rule_rhs g q)}"
      using reduce_paths_exact [OF assms(1) ok v] items red by blast
    have "advances p i la boundary s b (\<lambda>s'. \<forall>path \<in> set ?paths. present p i s' q (fst path))
        (for_each (\<lambda>path. note_change (reduce_path p user i boundary q (rule_lhs g q) path)) ?paths b s)"
    proof (rule for_each_advances)
      fix path b1 s1
      assume "path \<in> set ?paths" and steps: "session_steps p i la boundary s s1"
      then obtain xs w where xs: "path = (w, path_products xs)" "edge_path (ps_edges s) v xs w" "length xs = length (rule_rhs g q)"
        using paths by blast
      obtain c1 where c1: "session_ok p s1" "column_at i s1 = Some c1" "v \<in> set (pc_active c1)"
          "action_set p (node_state (ps_nodes s1) v) la = Some as" "edge_path (ps_edges s1) v xs w"
        using later [OF steps] edge_path_mono [OF xs(2)] by blast
      show "advances p i la boundary s1 b1 (\<lambda>s'. present p i s' q (fst path)) (note_change (reduce_path p user i boundary q (rule_lhs g q) path) b1 s1)"
        unfolding xs(1) fst_conv
        by (rule note_change_advances, rule reduce_path_advances [OF assms(1) c1(1-4) red c1(5) xs(3)])
    qed (simp add: present_quiet)
    then have "advances p i la boundary s b (\<lambda>s'. settled_action p i s' v act)
        (for_each (\<lambda>path. note_change (reduce_path p user i boundary q (rule_lhs g q) path)) ?paths b s)"
      unfolding advances_def
    proof (rule outcome_mono)
      fix b' s'
      assume r: "session_steps p i la boundary s s' \<and> (b \<longrightarrow> b') \<and> (\<not> b \<and> b' \<longrightarrow> session_size i s < session_size i s') \<and>
        (\<not> b' \<longrightarrow> quiet s s' \<and> (\<forall>path \<in> set ?paths. present p i s' q (fst path)))"
      have "settled_action p i s' v act" if "quiet s s'" "\<forall>path \<in> set ?paths. present p i s' q (fst path)"
        using that paths f(5) by (fastforce simp: settled_action_def Reduce quiet_def)
      then show "session_steps p i la boundary s s' \<and> (b \<longrightarrow> b') \<and> (\<not> b \<and> b' \<longrightarrow> session_size i s < session_size i s') \<and>
        (\<not> b' \<longrightarrow> quiet s s' \<and> settled_action p i s' v act)" using r by blast
    qed simp
    then show ?thesis by (simp add: reduce_action_def Reduce prod advances_def)
  next
    case Accept
    obtain a where item: "LR1Item 0 (length (rule_rhs g 0)) a \<in> state_items p (node_state (ps_nodes s) v)"
      using action_items(2) [OF assms(1) ok(1) v assms(6)] assms(7) Accept by blast
    note acc = assms(7) [unfolded Accept]
    have prod: "production_rhs_len (p_grammar p) 0 = Some (length (rule_rhs g 0))"
      using production_known(1) [OF assms(1) f(11)] f(5) by simp
    let ?paths = "reduce_paths p s i 0 v (length (rule_rhs g 0))"
    have paths: "set ?paths = {(w, path_products xs) | xs w. edge_path (ps_edges s) v xs w \<and> length xs = length (rule_rhs g 0)}"
      using reduce_paths_exact [OF assms(1) ok v item] .
    have "advances p i la boundary s b (\<lambda>s'. \<forall>path \<in> set ?paths. pc_accepted (ps_columns s' ! i) \<noteq> [])
        (for_each (\<lambda>path. note_change (accept_path p user i boundary path)) ?paths b s)"
    proof (rule for_each_advances)
      fix path b1 s1
      assume "path \<in> set ?paths" and steps: "session_steps p i la boundary s s1"
      then obtain xs w where xs: "path = (w, path_products xs)" "edge_path (ps_edges s) v xs w" "length xs = length (rule_rhs g 0)"
        using paths by blast
      obtain c1 where c1: "session_ok p s1" "column_at i s1 = Some c1" "v \<in> set (pc_active c1)"
          "action_set p (node_state (ps_nodes s1) v) la = Some as" "edge_path (ps_edges s1) v xs w"
        using later [OF steps] edge_path_mono [OF xs(2)] by blast
      show "advances p i la boundary s1 b1 (\<lambda>s'. pc_accepted (ps_columns s' ! i) \<noteq> []) (note_change (accept_path p user i boundary path) b1 s1)"
        unfolding xs(1)
        by (rule note_change_advances, rule accept_path_advances [OF assms(1) c1(1-4) acc c1(5) xs(3)])
    qed (simp add: quiet_def)
    then have "advances p i la boundary s b (\<lambda>s'. settled_action p i s' v act)
        (for_each (\<lambda>path. note_change (accept_path p user i boundary path)) ?paths b s)"
      unfolding advances_def
    proof (rule outcome_mono)
      fix b' s'
      assume r: "session_steps p i la boundary s s' \<and> (b \<longrightarrow> b') \<and> (\<not> b \<and> b' \<longrightarrow> session_size i s < session_size i s') \<and>
        (\<not> b' \<longrightarrow> quiet s s' \<and> (\<forall>path \<in> set ?paths. pc_accepted (ps_columns s' ! i) \<noteq> []))"
      have "settled_action p i s' v act" if "quiet s s'" "\<forall>path \<in> set ?paths. pc_accepted (ps_columns s' ! i) \<noteq> []"
        using that paths f(5) by (fastforce simp: settled_action_def Accept quiet_def)
      then show "session_steps p i la boundary s s' \<and> (b \<longrightarrow> b') \<and> (\<not> b \<and> b' \<longrightarrow> session_size i s < session_size i s') \<and>
        (\<not> b' \<longrightarrow> quiet s s' \<and> settled_action p i s' v act)" using r by blast
    qed simp
    then show ?thesis by (simp add: reduce_action_def Accept prod advances_def)
  qed (simp_all add: reduce_action_def advances_def settled_action_def)
qed

lemma reduce_node_advances:
  assumes "lr_ready p g start" "session_ok p s" "i = current_column s" "column_at i s = Some c" "v \<in> set (pc_active c)"
    and "la \<in> g_terminal_ids g"
  shows "advances p i la boundary s b (\<lambda>s'. settled_node p i la s' v) (reduce_node p user i la boundary v b s)"
proof -
  have ok: "graph_ok p (ps_nodes s) (ps_edges s)" "gss_ok (ps_gss s)" using assms(2) by (simp_all add: session_ok_def arena_fine_def)
  have v: "v < length (ps_nodes s)" using assms(2,4,5) by (auto simp: session_ok_def column_at_Some)
  have known: "known_node v s = (Inr (ps_nodes s ! v), s)" using gss_get_node_nth [OF ok(2)] v by (simp add: known_node_def)
  obtain as where as: "action_set p (node_state (ps_nodes s) v) la = Some as"
    using ready_cell [OF assms(1) node_known [OF ok(1) v] assms(6)] by blast
  have "advances p i la boundary s b (\<lambda>s'. \<forall>act \<in> set as. settled_action p i s' v act) (for_each (reduce_action p user i boundary v) as b s)"
  proof (rule for_each_advances)
    fix act b1 s1
    assume act: "act \<in> set as" and steps: "session_steps p i la boundary s s1"
    have grow: "grows s s1" using steps_grow [OF steps] .
    then obtain c1 where c1: "column_at i s1 = Some c1" "v \<in> set (pc_active c1)" using grown_column [OF grow assms(4)] assms(5) by blast
    have "ps_nodes s1 ! v = ps_nodes s ! v" using quiet_steps_node [OF assms(2) grow v] by simp
    then have "action_set p (node_state (ps_nodes s1) v) la = Some as" using as by simp
    moreover have "session_ok p s1 \<and> current_column s1 = current_column s" using steps_ok [OF assms(1-3) steps] .
    ultimately show "advances p i la boundary s1 b1 (\<lambda>s'. settled_action p i s' v act) (reduce_action p user i boundary v act b1 s1)"
      using reduce_action_advances [OF assms(1) _ _ c1 _ act] assms(3) by simp
  qed (simp add: settled_action_quiet)
  then have "advances p i la boundary s b (\<lambda>s'. settled_node p i la s' v) (for_each (reduce_action p user i boundary v) as b s)"
    unfolding advances_def
    by (rule outcome_mono) (use as in \<open>auto simp: settled_node_def quiet_def\<close>)
  then show ?thesis by (simp add: reduce_node_def known as advances_def)
qed

lemma reduce_pass_advances:
  assumes "lr_ready p g start" "session_ok p s" "i = current_column s" "la \<in> g_terminal_ids g"
  shows "advances p i la boundary s False (\<lambda>s'. stable p i la s') (reduce_pass p user i la boundary s)"
proof -
  have "i < length (ps_columns s)" using assms(2,3) by (simp add: session_ok_def current_column_def)
  then obtain c where c: "column_at i s = Some c" by (simp add: column_at_def)
  have "advances p i la boundary s False (\<lambda>s'. \<forall>v \<in> set (pc_active c). settled_node p i la s' v)
      (for_each (reduce_node p user i la boundary) (pc_active c) False s)"
  proof (rule for_each_advances)
    fix v b1 s1
    assume v: "v \<in> set (pc_active c)" and steps: "session_steps p i la boundary s s1"
    obtain c1 where c1: "column_at i s1 = Some c1" "v \<in> set (pc_active c1)" using grown_column [OF steps_grow [OF steps] c] v by blast
    have "session_ok p s1 \<and> current_column s1 = current_column s" using steps_ok [OF assms(1-3) steps] .
    then show "advances p i la boundary s1 b1 (\<lambda>s'. settled_node p i la s' v) (reduce_node p user i la boundary v b1 s1)"
      using reduce_node_advances [OF assms(1) _ _ c1 assms(4)] assms(3) by simp
  qed (simp add: settled_node_quiet)
  then have "advances p i la boundary s False (\<lambda>s'. stable p i la s') (for_each (reduce_node p user i la boundary) (pc_active c) False s)"
    unfolding advances_def by (rule outcome_mono) (use c in \<open>auto simp: stable_def quiet_def column_at_def\<close>)
  then show ?thesis by (simp add: reduce_pass_def c advances_def)
qed

section \<open>The loop\<close>

text \<open>The loop cut off after a number of passes.\<close>

fun passes :: "'b parser \<Rightarrow> ('b, 'v, 'l) user_build \<Rightarrow> nat \<Rightarrow> terminal_id \<Rightarrow> nat \<Rightarrow> nat \<Rightarrow> ('v, 'l) session \<Rightarrow>
    (bool, ('v, 'l) session) step_result" where
  "passes p user i la boundary 0 s = (Inr True, s)"
| "passes p user i la boundary (Suc n) s = (case reduce_pass p user i la boundary s of
     (Inl e, s) \<Rightarrow> (Inl e, s)
   | (Inr changed, s) \<Rightarrow> if changed then passes p user i la boundary n s else (Inr False, s))"

declare reduce_until_stable.simps [simp del]

lemma loop_passes:
  "reduce_until_stable p user i la boundary s = Some r \<Longrightarrow>
   \<exists>n. (case r of (Inl e, s') \<Rightarrow> passes p user i la boundary n s = (Inl e, s') | (Inr _, s') \<Rightarrow> passes p user i la boundary n s = (Inr False, s'))"
proof (induction rule: reduce_until_stable.raw_induct [rotated, consumes 1, case_names step])
  case (step loop p user i la boundary s r)
  obtain q s1 where q: "reduce_pass p user i la boundary s = (q, s1)" by fastforce
  show ?case
  proof (cases q)
    case (Inl e)
    then show ?thesis using step(2) q by (auto intro!: exI [of _ "Suc 0"])
  next
    case (Inr changed)
    show ?thesis
    proof (cases changed)
      case True
      then have "loop p user i la boundary s1 = Some r" using step(2) q Inr by simp
      from step(1) [OF this] obtain n where "case r of (Inl e, s') \<Rightarrow> passes p user i la boundary n s1 = (Inl e, s')
        | (Inr _, s') \<Rightarrow> passes p user i la boundary n s1 = (Inr False, s')" by blast
      then show ?thesis using q Inr True by (intro exI [of _ "Suc n"]) (simp split: prod.splits sum.splits)
    next
      case False
      then show ?thesis using step(2) q Inr by (auto intro!: exI [of _ "Suc 0"])
    qed
  qed
qed

lemma passes_loop:
  "passes p user i la boundary n s = (q, s') \<Longrightarrow> q \<noteq> Inr True \<Longrightarrow>
   reduce_until_stable p user i la boundary s = Some (case q of Inl e \<Rightarrow> Inl e | Inr _ \<Rightarrow> Inr (), s')"
proof (induction n arbitrary: s)
  case (Suc n)
  then show ?case
    by (subst reduce_until_stable.simps) (auto split: prod.splits sum.splits if_splits)
qed auto

lemma passes_outcome:
  assumes "lr_ready p g start" "la \<in> g_terminal_ids g"
  shows "session_ok p s \<Longrightarrow> i = current_column s \<Longrightarrow>
    outcome (passes p user i la boundary n s) stop_ok (\<lambda>b s'. session_steps p i la boundary s s' \<and> (\<not> b \<longrightarrow> stable p i la s') \<and> (b \<longrightarrow> session_size i s + n \<le> session_size i s'))"
proof (induction n arbitrary: s)
  case (Suc n)
  obtain q s1 where q: "reduce_pass p user i la boundary s = (q, s1)" by fastforce
  note adv = reduce_pass_advances [OF assms(1) Suc.prems assms(2), of boundary user, unfolded advances_def q]
  show ?case
  proof (cases q)
    case (Inr changed)
    then have steps: "session_steps p i la boundary s s1" "\<not> changed \<longrightarrow> stable p i la s1"
        "changed \<longrightarrow> session_size i s < session_size i s1" using adv by simp_all
    then have ok: "session_ok p s1" "i = current_column s1" using steps_ok [OF assms(1) Suc.prems steps(1)] Suc.prems(2) by auto
    show ?thesis
    proof (cases changed)
      case True
      have "outcome (passes p user i la boundary n s1) stop_ok (\<lambda>b s'. session_steps p i la boundary s s' \<and>
          (\<not> b \<longrightarrow> stable p i la s') \<and> (b \<longrightarrow> session_size i s + Suc n \<le> session_size i s'))"
        by (rule outcome_mono [OF Suc.IH [OF ok]]) (use steps(1,3) True in \<open>auto intro: rtranclp_trans\<close>)
      then show ?thesis using q Inr True by simp
    qed (use q Inr steps in simp)
  qed (use q adv in simp)
qed simp

text \<open>What the loop has done when it returns.\<close>

lemma loop_result:
  assumes "lr_ready p g start" "la \<in> g_terminal_ids g" "session_ok p s" "i = current_column s"
    "reduce_until_stable p user i la boundary s = Some r"
  shows "outcome r stop_ok (\<lambda>_ s'. session_steps p i la boundary s s' \<and> stable p i la s')"
proof -
  obtain q s' where r: "r = (q, s')" by fastforce
  obtain n where "case r of (Inl e, s') \<Rightarrow> passes p user i la boundary n s = (Inl e, s') | (Inr _, s') \<Rightarrow> passes p user i la boundary n s = (Inr False, s')"
    using loop_passes [OF assms(5)] by blast
  then show ?thesis using passes_outcome [OF assms(1-4), of user boundary n] by (cases q) (auto simp: r)
qed

end
