(* ===== verification/Session_Returns.thy ===== *)
theory Session_Returns
  imports Session_Steps
begin

text \<open>
  \<^verbatim>\<open>reduce_until_stable\<close> returns when no nonterminal can stand below itself with only nullable
  neighbours. A new edge of a column is built from edges of older columns and from edges that are
  smaller: they start in a later column, or in the same one under a nonterminal further down. So a
  run that went on for ever would use finitely many products, nodes and edges, and every pass adds one.
\<close>

section \<open>Grammars without cycles\<close>

definition inner :: "rules \<Rightarrow> nat \<Rightarrow> nat \<Rightarrow> bool" where
  "inner rs a b \<longleftrightarrow> (\<exists>u v. (a, u @ N b # v) \<in> set rs \<and> (\<forall>X \<in> set u \<union> set v. nullable rs X))"

definition noncyclic :: "rules \<Rightarrow> bool" where
  "noncyclic rs \<longleftrightarrow> (\<forall>a. \<not> (inner rs)\<^sup>+\<^sup>+ a a)"

text \<open>A cycle is a derivation of a nonterminal from itself.\<close>

lemma inner_derives: "inner rs a b \<Longrightarrow> (derive rs)\<^sup>+\<^sup>+ [N a] [N b]"
proof -
  assume "inner rs a b"
  then obtain u v where r: "(a, u @ N b # v) \<in> set rs" "\<forall>X \<in> set u. nullable rs X" "\<forall>X \<in> set v. nullable rs X"
    by (auto simp: inner_def)
  have "derives rs u []" "derives rs v []" using r(2,3) nullable_derives derives_empty by blast+
  then have "derives rs (u @ [N b] @ v) ([] @ [N b] @ [])" by (intro derives_append) auto
  moreover have "derive rs [N a] (u @ [N b] @ v)" using derive.expand [OF r(1), of "[]" "[]"] by simp
  ultimately show ?thesis by (simp add: rtranclp_into_tranclp2)
qed

lemma cyclic_derives: "(inner rs)\<^sup>+\<^sup>+ a b \<Longrightarrow> (derive rs)\<^sup>+\<^sup>+ [N a] [N b]"
  by (induction rule: tranclp_induct) (auto intro: inner_derives tranclp_trans)

lemma inner_wf:
  assumes "noncyclic rs" shows "wf {(b, a). inner rs a b}"
proof (rule finite_acyclic_wf)
  have "{(b, a). inner rs a b} \<subseteq> (\<lambda>(X, a). (case X of N b \<Rightarrow> b | _ \<Rightarrow> 0, a)) ` ((\<Union>(l, r) \<in> set rs. set r) \<times> fst ` set rs)"
    by (force simp: inner_def image_iff)
  then show "finite {(b, a). inner rs a b}" by (rule finite_subset) (intro finite_imageI finite_cartesian_product finite_UN_I, auto)
  have "(b, a) \<in> {(b, a). inner rs a b}\<^sup>+ \<Longrightarrow> (inner rs)\<^sup>+\<^sup>+ a b" for a b
  proof (induction rule: trancl_induct)
    case (step y z)
    then show ?case by (simp add: tranclp_into_tranclp2)
  qed auto
  then show "acyclic {(b, a). inner rs a b}" using assms by (auto simp: acyclic_def noncyclic_def)
qed

section \<open>The size of an edge\<close>

text \<open>The width of an edge, counted from the column at its foot to column \<open>i\<close>, and its nonterminal.\<close>

definition edge_size :: "'b parser \<Rightarrow> gss_node list \<Rightarrow> nat \<Rightarrow> gss_edge \<Rightarrow> nat \<times> nat \<Rightarrow> bool" where
  "edge_size p ns i e k \<longleftrightarrow> node_column ns (ge_from e) = i \<and> node_column ns (ge_to e) + fst k = i \<and>
     next_state p (node_state ns (ge_to e)) (N (snd k)) = Some (node_state ns (ge_from e))"

definition size_order :: "rules \<Rightarrow> ((nat \<times> nat) \<times> (nat \<times> nat)) set" where
  "size_order rs = less_than <*lex*> {(b, a). inner rs a b}"

lemma size_order_wf: "noncyclic rs \<Longrightarrow> wf (size_order rs)"
  unfolding size_order_def using inner_wf by blast

lemma next_symbol_unique:
  assumes "lr_ready p g start" "next_state p s X = Some t" "next_state p s Y = Some t"
  shows "X = Y"
proof -
  have "has_symbol g (state_items p s) X" using ready_facts(8) [OF assms(1)] assms(2) by (auto simp: transitions_ok_def)
  then obtain q d a where i: "LR1Item q d a \<in> state_items p s" "after_dot g (LR1Item q d a) = Some X"
    by (metis has_symbol_def lr1_item.exhaust)
  then have "LR1Item q (Suc d) a \<in> state_items p t" using next_items(1) [OF assms(1,2)] by (simp add: goto_item)
  then have "after_dot g (LR1Item q d a) = Some Y" using next_items(1) [OF assms(1,3)] by (simp add: goto_item)
  then show ?thesis using i(2) by simp
qed

text \<open>The edges of a right-hand side are smaller than the edge of the left-hand side.\<close>

lemma below_in_path:
  assumes "lr_ready p g start" "graph_ok p ns es"
  shows "edge_path es v (xs @ e # ys) w \<Longrightarrow> v < length ns \<Longrightarrow> LR1Item q (length (xs @ e # ys)) a \<in> state_items p (node_state ns v) \<Longrightarrow>
    \<exists>X. next_state p (node_state ns (ge_to e)) X = Some (node_state ns (ge_from e)) \<and> nth_opt (rule_rhs g q) (length ys) = Some X \<and>
      ge_from e < length ns \<and> LR1Item q (Suc (length ys)) a \<in> state_items p (node_state ns (ge_from e)) \<and>
      ge_to e < length ns \<and> LR1Item q (length ys) a \<in> state_items p (node_state ns (ge_to e))"
proof -
  assume path: "edge_path es v (xs @ e # ys) w" and v: "v < length ns"
    and item: "LR1Item q (length (xs @ e # ys)) a \<in> state_items p (node_state ns v)"
  obtain u where u: "edge_path es v xs u" "edge_path es u (e # ys) w" using path by (auto simp: edge_path_append)
  have fr: "ge_from e < length ns" "LR1Item q (Suc (length ys)) a \<in> state_items p (node_state ns (ge_from e))" "e \<in> set es"
    using path_item [OF assms u(1) v, of q "Suc (length ys)" a] item u(2) by auto
  obtain X where X: "next_state p (node_state ns (ge_to e)) X = Some (node_state ns (ge_from e))" "ge_to e < length ns"
    using edge_transition [OF assms(2) fr(3)] .
  show ?thesis using edge_item [OF assms fr(3,2) X(1)] X fr by blast
qed

lemma path_edge_smaller:
  assumes ready: "lr_ready p g start" and graph: "graph_ok p ns es" and path: "edge_path es v (xs @ e # ys) w" and v: "v < length ns"
    and item: "LR1Item q (length (xs @ e # ys)) a \<in> state_items p (node_state ns v)" "length (xs @ e # ys) = length (rule_rhs g q)"
    and q: "q < length (grammar_rules g)" and cols: "node_column ns v \<le> i" and e: "edge_size p ns i e k"
  shows "(k, (i - node_column ns w, rule_lhs g q)) \<in> size_order (grammar_rules g)"
proof -
  note f = ready_facts [OF ready]
  obtain u where u: "edge_path es v xs u" "edge_path es u (e # ys) w" using path by (auto simp: edge_path_append)
  obtain X where X: "next_state p (node_state ns (ge_to e)) X = Some (node_state ns (ge_from e))" "nth_opt (rule_rhs g q) (length ys) = Some X"
      "ge_from e < length ns" "LR1Item q (Suc (length ys)) a \<in> state_items p (node_state ns (ge_from e))"
      "ge_to e < length ns" "LR1Item q (length ys) a \<in> state_items p (node_state ns (ge_to e))"
    using below_in_path [OF ready graph path v item(1)] by blast
  have k: "X = N (snd k)" using next_symbol_unique [OF ready X(1)] e by (auto simp: edge_size_def)
  have ufrom: "u = ge_from e" "edge_path es (ge_to e) ys w" using u(2) by simp_all
  have top: "node_column ns (ge_from e) \<le> node_column ns v"
    using path_item [OF ready graph u(1) v, of q "Suc (length ys)" a] item(1) ufrom(1) by simp
  have foot: "node_column ns w \<le> node_column ns (ge_to e)"
    using path_item [OF ready graph ufrom(2) X(5), of q 0 a] X(6) by simp
  have cols': "node_column ns (ge_from e) = i" "node_column ns v = i" "node_column ns (ge_to e) + fst k = i"
    using e top cols by (auto simp: edge_size_def)
  show ?thesis
  proof (cases "node_column ns w = node_column ns (ge_to e)")
    case False
    then have "fst k < i - node_column ns w" using foot cols' by simp
    then show ?thesis by (cases k) (simp add: size_order_def)
  next
    case True
    have below: "\<forall>Y \<in> set (take (length ys) (rule_rhs g q)). nullable (grammar_rules g) Y"
      using path_nullable [OF ready graph ufrom(2) X(5) _ True, of q 0 a] X(6) by simp
    have above: "\<forall>Y \<in> set (drop (Suc (length ys)) (rule_rhs g q)). nullable (grammar_rules g) Y"
    proof -
      have len: "Suc (length ys) + length xs = length (rule_rhs g q)" using item(2) by simp
      have "LR1Item q (Suc (length ys) + length xs) a \<in> state_items p (node_state ns v)" unfolding len using item by simp
      moreover have "node_column ns u = node_column ns v" using ufrom(1) cols' by simp
      ultimately have "\<forall>Y \<in> set (take (length xs) (drop (Suc (length ys)) (rule_rhs g q))). nullable (grammar_rules g) Y"
        by (rule path_nullable [OF ready graph u(1) v])
      then show ?thesis using len by simp
    qed
    have "rule_rhs g q = take (length ys) (rule_rhs g q) @ X # drop (Suc (length ys)) (rule_rhs g q)"
      using X(2) by (simp add: nth_opt_Some_iff id_take_nth_drop)
    moreover have "(rule_lhs g q, rule_rhs g q) \<in> set (grammar_rules g)" using q by simp
    ultimately have "inner (grammar_rules g) (rule_lhs g q) (snd k)" using below above k unfolding inner_def by (metis Un_iff)
    moreover have "fst k = i - node_column ns w" using True cols' by simp
    ultimately show ?thesis by (cases k) (simp add: size_order_def)
  qed
qed

section \<open>Where edges and products come from\<close>

definition justified :: "'b parser \<Rightarrow> nat \<Rightarrow> nat \<Rightarrow> gss_edge set \<Rightarrow> ('v, 'l) session \<Rightarrow> gss_edge \<Rightarrow> bool" where
  "justified p i boundary old s e \<longleftrightarrow> ge_generation e = ps_generation s \<and> (\<exists>q xs k. q < length (grammar_rules (p_grammar p)) \<and>
     length xs = length (rule_rhs (p_grammar p) q) \<and> set xs \<subseteq> set (ps_edges s) \<and>
     ps_reduced s (cache_key q (path_products xs) boundary) = Some (ge_product e) \<and>
     edge_size p (ps_nodes s) i e k \<and> snd k = rule_lhs (p_grammar p) q \<and>
     (\<forall>d \<in> set xs. d \<in> old \<or> (\<exists>j. edge_size p (ps_nodes s) i d j \<and> (j, k) \<in> size_order (grammar_rules (p_grammar p)))))"

definition accept_made :: "'b parser \<Rightarrow> nat \<Rightarrow> ('v, 'l) session \<Rightarrow> nat \<Rightarrow> bool" where
  "accept_made p boundary s product \<longleftrightarrow> (\<exists>xs. set xs \<subseteq> set (ps_edges s) \<and> length xs = length (rule_rhs (p_grammar p) 0) \<and>
     ps_reduced s (cache_key 0 (path_products xs) boundary) = Some product)"

definition run_inv :: "'b parser \<Rightarrow> nat \<Rightarrow> nat \<Rightarrow> ('v, 'l) session \<Rightarrow> ('v, 'l) session \<Rightarrow> bool" where
  "run_inv p i boundary s0 s \<longleftrightarrow>
     (\<forall>e \<in> set (ps_edges s). e \<in> set (ps_edges s0) \<or> justified p i boundary (set (ps_edges s0)) s e) \<and>
     (\<forall>n \<in> set (ps_nodes s). n \<in> set (ps_nodes s0) \<or> (gn_column n = i \<and> gn_generation n = ps_generation s0)) \<and>
     (\<forall>q \<in> set (pc_products (ps_columns s ! i)). q \<in> set (pc_products (ps_columns s0 ! i)) \<or> q \<in> ge_product ` set (ps_edges s) \<or>
        accept_made p boundary s q) \<and>
     (\<forall>q \<in> set (pc_accepted (ps_columns s ! i)). q \<in> set (pc_accepted (ps_columns s0 ! i)) \<or> accept_made p boundary s q)"

lemma map_le_Some: "m \<subseteq>\<^sub>m m' \<Longrightarrow> m k = Some v \<Longrightarrow> m' k = Some v"
  unfolding map_le_def by (metis domI)

lemma edge_size_grows:
  assumes "edge_size p (ps_nodes s) i e k" "grows s s'" "ge_from e < length (ps_nodes s)" "ge_to e < length (ps_nodes s)"
  shows "edge_size p (ps_nodes s') i e k"
  using assms by (auto simp: edge_size_def grows_def nth_append)

lemma justified_grows:
  assumes "justified p i boundary old s e" "grows s s'" "session_ok p s" "e \<in> set (ps_edges s)"
  shows "justified p i boundary old s' e"
proof -
  obtain q xs k where j: "q < length (grammar_rules (p_grammar p))" "length xs = length (rule_rhs (p_grammar p) q)" "set xs \<subseteq> set (ps_edges s)"
      "ps_reduced s (cache_key q (path_products xs) boundary) = Some (ge_product e)" "edge_size p (ps_nodes s) i e k"
      "snd k = rule_lhs (p_grammar p) q"
      "\<forall>d \<in> set xs. d \<in> old \<or> (\<exists>j. edge_size p (ps_nodes s) i d j \<and> (j, k) \<in> size_order (grammar_rules (p_grammar p)))"
    and gen: "ge_generation e = ps_generation s"
    using assms(1) unfolding justified_def by blast
  have range: "ge_from d < length (ps_nodes s) \<and> ge_to d < length (ps_nodes s)" if "d \<in> set (ps_edges s)" for d
    using assms(3) that by (auto simp: session_ok_def graph_ok_def edge_ok_def)
  have "\<forall>d \<in> set xs. d \<in> old \<or> (\<exists>j. edge_size p (ps_nodes s') i d j \<and> (j, k) \<in> size_order (grammar_rules (p_grammar p)))"
    using j(3,7) range edge_size_grows [OF _ assms(2)] by blast
  moreover have "edge_size p (ps_nodes s') i e k" using edge_size_grows [OF j(5) assms(2)] range assms(4) by blast
  moreover have "ps_reduced s' (cache_key q (path_products xs) boundary) = Some (ge_product e)" "set xs \<subseteq> set (ps_edges s')"
    "ps_generation s' = ps_generation s"
    using assms(2) j(3,4) map_le_Some by (auto simp: grows_def same_frame_def)
  ultimately show ?thesis using j(1,2,6) gen unfolding justified_def by metis
qed

lemma accept_made_grows: "accept_made p boundary s q \<Longrightarrow> grows s s' \<Longrightarrow> accept_made p boundary s' q"
  unfolding accept_made_def grows_def map_le_def by (metis domI subset_trans)

lemma run_inv_step:
  assumes "lr_ready p g start" "session_ok p s" "i = current_column s" "session_step p i la boundary s s'"
    and "run_inv p i boundary s0 s" "ps_generation s = ps_generation s0"
  shows "run_inv p i boundary s0 s'"
proof -
  let ?old = "set (ps_edges s0)"
  note f = ready_facts [OF assms(1)]
  have grow: "grows s s'" by (rule step_grows [OF assms(4)])
  have old_edges: "e \<in> ?old \<or> justified p i boundary ?old s' e" if "e \<in> set (ps_edges s)" for e
    using that assms(5) justified_grows [OF _ grow assms(2) that] by (auto simp: run_inv_def)
  have old_accept: "accept_made p boundary s q \<Longrightarrow> accept_made p boundary s' q" for q using accept_made_grows grow by blast
  have sub: "set (ps_edges s) \<subseteq> set (ps_edges s')" "ps_reduced s \<subseteq>\<^sub>m ps_reduced s'" using grow by (auto simp: grows_def)
  from assms(4) show ?thesis
  proof cases
    case (step_reduce c v as q xs w to product u)
    let ?n = "gss_node_new to i (ps_generation s)" and ?e = "gss_edge_new u w product (ps_generation s)"
    let ?k = "(i - node_column (ps_nodes s) w, rule_lhs g q)"
    have graph: "graph_ok p (ps_nodes s) (ps_edges s)" "\<forall>n \<in> set (ps_nodes s). gn_column n \<le> i" using assms(2,3) by (auto simp: session_ok_def)
    have c: "c \<in> set (ps_columns s)" "i < length (ps_columns s)" "c = ps_columns s ! i" using step_reduce(1) by (auto simp: column_at_Some)
    have v: "v < length (ps_nodes s)" using assms(2) c(1) step_reduce(2) by (auto simp: session_ok_def)
    note items = action_items(1) [OF assms(1) graph(1) v step_reduce(3,4)]
    have len: "length xs = length (rule_rhs g q)" using step_reduce(6) f(5) by simp
    have item: "LR1Item q (length xs) la \<in> state_items p (node_state (ps_nodes s) v)" using items len by simp
    have w: "w < length (ps_nodes s)" "node_column (ps_nodes s) w \<le> node_column (ps_nodes s) v"
      using path_item [OF assms(1) graph(1) step_reduce(5) v, of q 0 la] item by simp_all
    have vi: "node_column (ps_nodes s) v \<le> i" using graph(2) v by simp
    have u: "ps_nodes s' ! u = ?n" using step_reduce(10) by (simp add: nth_opt_Some_iff del: nth_opt_append)
    have w': "ps_nodes s' ! w = ps_nodes s ! w" using grow w(1) by (auto simp: grows_def nth_append)
    have size: "edge_size p (ps_nodes s') i ?e ?k"
      using u w' w(2) vi step_reduce(7) f(5) by (simp add: edge_size_def gss_edge_new_def gss_node_new_def)
    have parts: "d \<in> ?old \<or> (\<exists>j. edge_size p (ps_nodes s') i d j \<and> (j, ?k) \<in> size_order (grammar_rules g))" if d: "d \<in> set xs" for d
    proof (cases "d \<in> ?old")
      case False
      have dE: "d \<in> set (ps_edges s)" using edge_path_edges [OF step_reduce(5)] d by blast
      then obtain j where j: "edge_size p (ps_nodes s) i d j"
        using assms(5) False unfolding run_inv_def justified_def by blast
      obtain ys zs where split: "xs = ys @ d # zs" using split_list [OF d] by blast
      have "(j, ?k) \<in> size_order (grammar_rules g)"
        using path_edge_smaller [OF assms(1) graph(1) step_reduce(5) [unfolded split] v item [unfolded split] len [unfolded split]]
          items vi j by blast
      moreover have "edge_size p (ps_nodes s') i d j"
        using edge_size_grows [OF j grow] dE graph(1) by (auto simp: graph_ok_def edge_ok_def)
      ultimately show ?thesis by blast
    qed simp
    have gen: "ps_generation s' = ps_generation s" using step_reduce(14) by (simp add: same_frame_def)
    have xsE: "set xs \<subseteq> set (ps_edges s')" using edge_path_edges [OF step_reduce(5)] sub(1) by blast
    have "justified p i boundary ?old s' ?e"
      unfolding justified_def f(5)
      by (intro conjI exI [of _ q] exI [of _ xs] exI [of _ ?k])
        (use gen items len xsE step_reduce(8) size parts in \<open>simp_all add: gss_edge_new_def\<close>)
    then have edges: "\<forall>e \<in> set (ps_edges s'). e \<in> ?old \<or> justified p i boundary ?old s' e"
      using old_edges by (auto simp: step_reduce(12))
    have "\<forall>n \<in> set (ps_nodes s'). n \<in> set (ps_nodes s0) \<or> (gn_column n = i \<and> gn_generation n = ps_generation s0)"
      using assms(5,6) by (auto simp: step_reduce(11) gss_node_new_def run_inv_def)
    moreover have "ps_columns s' ! i = c\<lparr>pc_active := add_new u (pc_active c), pc_products := add_new product (pc_products c)\<rparr>"
      using c(2) by (simp add: step_reduce(13))
    moreover have "product = ge_product ?e" "?e \<in> set (ps_edges s')" by (simp_all add: gss_edge_new_def step_reduce(12))
    moreover have "\<forall>q \<in> set (pc_products c). q \<in> set (pc_products (ps_columns s0 ! i)) \<or> q \<in> ge_product ` set (ps_edges s') \<or> accept_made p boundary s' q"
      "\<forall>q \<in> set (pc_accepted c). q \<in> set (pc_accepted (ps_columns s0 ! i)) \<or> accept_made p boundary s' q"
      using assms(5) old_accept sub(1) unfolding run_inv_def c(3) by blast+
    ultimately show ?thesis using edges unfolding run_inv_def by auto
  next
    case (step_accept c v as xs w product)
    have c: "i < length (ps_columns s)" "c = ps_columns s ! i" using step_accept(1) by (auto simp: column_at_Some)
    have "set xs \<subseteq> set (ps_edges s')" using edge_path_edges [OF step_accept(5)] step_accept(9) by simp
    then have made: "accept_made p boundary s' product" using step_accept(6,7) unfolding accept_made_def by blast
    have "\<forall>q \<in> set (pc_products c). q \<in> set (pc_products (ps_columns s0 ! i)) \<or> q \<in> ge_product ` set (ps_edges s') \<or> accept_made p boundary s' q"
      "\<forall>q \<in> set (pc_accepted c). q \<in> set (pc_accepted (ps_columns s0 ! i)) \<or> accept_made p boundary s' q"
      using assms(5) old_accept sub(1) unfolding run_inv_def c(2) by blast+
    moreover have "ps_columns s' ! i = c\<lparr>pc_products := add_new product (pc_products c), pc_accepted := add_new product (pc_accepted c)\<rparr>"
      using c(1) by (simp add: step_accept(10))
    moreover have "\<forall>e \<in> set (ps_edges s'). e \<in> ?old \<or> justified p i boundary ?old s' e" using old_edges step_accept(9) by simp
    moreover have "\<forall>n \<in> set (ps_nodes s'). n \<in> set (ps_nodes s0) \<or> (gn_column n = i \<and> gn_generation n = ps_generation s0)"
      using assms(5) step_accept(9) by (simp add: run_inv_def)
    ultimately show ?thesis using made unfolding run_inv_def by auto
  qed
qed

lemma run_inv_steps:
  assumes "lr_ready p g start" "session_ok p s0" "i = current_column s0" "session_steps p i la boundary s0 s"
  shows "run_inv p i boundary s0 s"
  using assms(4)
proof (induction rule: rtranclp_induct)
  case (step s1 s2)
  have "session_ok p s1 \<and> current_column s1 = current_column s0" using steps_ok [OF assms(1-3) step.hyps(1)] .
  moreover have "ps_generation s1 = ps_generation s0" using steps_grow [OF step.hyps(1)] by (simp add: grows_def same_frame_def)
  ultimately show ?case using run_inv_step [OF assms(1) _ _ step.hyps(2) step.IH] assms(3) by simp
qed (simp add: run_inv_def)

section \<open>The loop returns\<close>

text \<open>An endless run of passes, for a contradiction: what it uses is finite.\<close>

definition later_product :: "(nat \<Rightarrow> ('v, 'l) session) \<Rightarrow> nat \<times> nat list \<Rightarrow> nat \<Rightarrow> nat option" where
  "later_product S key boundary = (if \<exists>n x. ps_reduced (S n) (cache_key (fst key) (snd key) boundary) = Some x
     then ps_reduced (S (LEAST n. \<exists>x. ps_reduced (S n) (cache_key (fst key) (snd key) boundary) = Some x))
       (cache_key (fst key) (snd key) boundary) else None)"

lemma later_product_Some:
  assumes "\<And>m n. m \<le> n \<Longrightarrow> ps_reduced (S m) \<subseteq>\<^sub>m ps_reduced (S n)" "ps_reduced (S n) (cache_key q ch boundary) = Some x"
  shows "later_product S (q, ch) boundary = Some x"
proof -
  let ?P = "\<lambda>n. \<exists>x. ps_reduced (S n) (cache_key q ch boundary) = Some x"
  have ex: "?P n" using assms(2) by blast
  have least: "?P (LEAST n. ?P n)" "(LEAST n. ?P n) \<le> n" using LeastI [of ?P, OF ex] Least_le [of ?P, OF ex] by blast+
  then obtain y where y: "ps_reduced (S (LEAST n. ?P n)) (cache_key q ch boundary) = Some y" by blast
  have "ps_reduced (S n) (cache_key q ch boundary) = Some y" using map_le_Some [OF assms(1) [OF least(2)] y] .
  then have "y = x" using assms(2) by simp
  then show ?thesis using y ex by (auto simp: later_product_def)
qed

definition keys_over :: "nat \<Rightarrow> nat \<Rightarrow> nat set \<Rightarrow> (nat \<times> nat list) set" where
  "keys_over rules width B = {..<rules} \<times> {ch. set ch \<subseteq> B \<and> length ch \<le> width}"

lemma keys_over_finite: "finite B \<Longrightarrow> finite (keys_over r w B)"
  unfolding keys_over_def by (intro finite_cartesian_product finite_lists_length_le) auto

lemma rhs_width: "q < length rs \<Longrightarrow> length (snd (rs ! q)) \<le> Max (insert 0 ((length \<circ> snd) ` set rs))"
  by (intro Max_ge) auto

lemma endless_products_finite:
  fixes S :: "nat \<Rightarrow> ('v, 'l) session"
  assumes ready: "lr_ready p g start" and cyc: "noncyclic (grammar_rules g)"
    and ok: "\<And>n. session_ok p (S n)" and col: "\<And>n. i = current_column (S n)"
    and inv: "\<And>n. run_inv p i boundary (S 0) (S n)" and grow: "\<And>m n. m \<le> n \<Longrightarrow> grows (S m) (S n)"
  shows "finite (\<Union>n. ge_product ` set (ps_edges (S n)))"
proof -
  note f = ready_facts [OF ready]
  let ?old = "set (ps_edges (S 0))"
  let ?w = "Max (insert 0 ((length \<circ> snd) ` set (grammar_rules g)))" and ?r = "length (grammar_rules g)"
  let ?K = "{..i} \<times> fst ` set (grammar_rules g)"
  define fresh where "fresh k = {ge_product e | e n. e \<in> set (ps_edges (S n)) - ?old \<and> edge_size p (ps_nodes (S n)) i e k}" for k
  have mono: "ps_reduced (S m) \<subseteq>\<^sub>m ps_reduced (S n)" if "m \<le> n" for m n using grow [OF that] by (simp add: grows_def)
  have just: "\<exists>k. k \<in> ?K \<and> edge_size p (ps_nodes (S n)) i e k \<and>
      (\<exists>key \<in> keys_over ?r ?w (ge_product ` ?old \<union> (\<Union>j \<in> {j \<in> ?K. (j, k) \<in> size_order (grammar_rules g)}. fresh j)).
         later_product S key boundary = Some (ge_product e))"
    if e: "e \<in> set (ps_edges (S n)) - ?old" for e n
  proof -
    obtain q xs k where j: "q < ?r" "length xs = length (rule_rhs g q)" "set xs \<subseteq> set (ps_edges (S n))"
      "ps_reduced (S n) (cache_key q (path_products xs) boundary) = Some (ge_product e)" "edge_size p (ps_nodes (S n)) i e k"
      "snd k = rule_lhs g q"
      "\<forall>d \<in> set xs. d \<in> ?old \<or> (\<exists>j. edge_size p (ps_nodes (S n)) i d j \<and> (j, k) \<in> size_order (grammar_rules g))"
      using inv [of n] e unfolding run_inv_def justified_def f(5) by blast
    have inK: "j \<in> ?K" if size: "edge_size p (ps_nodes (S n)) i d j" and d: "d \<in> set (ps_edges (S n)) - ?old" for d j
    proof -
      obtain q' k' where q': "q' < ?r" "edge_size p (ps_nodes (S n)) i d k'" "snd k' = rule_lhs g q'"
        using inv [of n] d unfolding run_inv_def justified_def f(5) by blast
      have "N (snd j) = N (snd k')" using next_symbol_unique [OF ready] q'(2) size unfolding edge_size_def by blast
      then have "snd j \<in> fst ` set (grammar_rules g)" using q'(1,3) by auto
      then show ?thesis using size by (cases j) (auto simp: edge_size_def)
    qed
    let ?B = "ge_product ` ?old \<union> (\<Union>j \<in> {j \<in> ?K. (j, k) \<in> size_order (grammar_rules g)}. fresh j)"
    have "ge_product d \<in> ?B" if dx: "d \<in> set xs" for d
    proof (cases "d \<in> ?old")
      case False
      then obtain j' where j': "edge_size p (ps_nodes (S n)) i d j'" "(j', k) \<in> size_order (grammar_rules g)" using j(7) dx by blast
      have d: "d \<in> set (ps_edges (S n)) - ?old" using dx j(3) False by blast
      then have "ge_product d \<in> fresh j'" using j'(1) unfolding fresh_def by blast
      then show ?thesis using inK [OF j'(1) d] j'(2) by blast
    qed simp
    then have "set (path_products xs) \<subseteq> ?B" by (simp only: set_rev set_map image_subset_iff) blast
    then have "(q, path_products xs) \<in> keys_over ?r ?w ?B" using j(1,2) rhs_width [of q "grammar_rules g"] by (simp add: keys_over_def)
    moreover have "later_product S (q, path_products xs) boundary = Some (ge_product e)" using later_product_Some [of S, OF mono j(4)] by simp
    ultimately show ?thesis using inK [OF j(5) e] j(5) by blast
  qed
  have unique: "j = k" if "edge_size p ns i e j" "edge_size p ns i e k" for ns e j k
    using that next_symbol_unique [OF ready] by (cases j, cases k) (fastforce simp: edge_size_def)
  have "finite (fresh k)" for k
  proof (induction k rule: wf_induct_rule [OF size_order_wf [OF cyc]])
    case (1 k)
    let ?B = "ge_product ` ?old \<union> (\<Union>j \<in> {j \<in> ?K. (j, k) \<in> size_order (grammar_rules g)}. fresh j)"
    have "finite ?K" by simp
    then have "finite {j \<in> ?K. (j, k) \<in> size_order (grammar_rules g)}" by (rule finite_subset [rotated]) auto
    then have "finite ?B" using 1 by auto
    moreover have "fresh k \<subseteq> (\<lambda>key. the (later_product S key boundary)) ` keys_over ?r ?w ?B"
    proof
      fix x assume "x \<in> fresh k"
      then obtain e n where e: "e \<in> set (ps_edges (S n)) - ?old" "edge_size p (ps_nodes (S n)) i e k" "x = ge_product e"
        unfolding fresh_def by blast
      obtain k' where k': "edge_size p (ps_nodes (S n)) i e k'"
          "\<exists>key \<in> keys_over ?r ?w (ge_product ` ?old \<union> (\<Union>j \<in> {j \<in> ?K. (j, k') \<in> size_order (grammar_rules g)}. fresh j)).
             later_product S key boundary = Some (ge_product e)"
        using just [OF e(1)] by blast
      have "k' = k" by (rule unique [OF k'(1) e(2)])
      then obtain key where "key \<in> keys_over ?r ?w ?B" "later_product S key boundary = Some x" using k'(2) e(3) by blast
      then show "x \<in> (\<lambda>key. the (later_product S key boundary)) ` keys_over ?r ?w ?B" by (intro image_eqI [of _ _ key]) simp_all
    qed
    ultimately show ?case using finite_subset [OF _ finite_imageI [OF keys_over_finite]] by blast
  qed
  then have "finite (ge_product ` ?old \<union> (\<Union>k \<in> ?K. fresh k))" by simp
  moreover have "(\<Union>n. ge_product ` set (ps_edges (S n))) \<subseteq> ge_product ` ?old \<union> (\<Union>k \<in> ?K. fresh k)"
  proof
    fix x assume "x \<in> (\<Union>n. ge_product ` set (ps_edges (S n)))"
    then obtain e n where e: "e \<in> set (ps_edges (S n))" "x = ge_product e" by blast
    show "x \<in> ge_product ` ?old \<union> (\<Union>k \<in> ?K. fresh k)"
    proof (cases "e \<in> ?old")
      case False
      then obtain k where "k \<in> ?K" "edge_size p (ps_nodes (S n)) i e k" using just [of e n] e(1) by blast
      then have "x \<in> fresh k" using e False unfolding fresh_def by blast
      then show ?thesis using \<open>k \<in> ?K\<close> by blast
    qed (use e in simp)
  qed
  ultimately show ?thesis by (rule finite_subset [rotated])
qed

lemma endless_size_bounded:
  fixes S :: "nat \<Rightarrow> ('v, 'l) session"
  assumes ready: "lr_ready p g start" and cyc: "noncyclic (grammar_rules g)"
    and ok: "\<And>n. session_ok p (S n)" and col: "\<And>n. i = current_column (S n)"
    and inv: "\<And>n. run_inv p i boundary (S 0) (S n)" and grow: "\<And>m n. m \<le> n \<Longrightarrow> grows (S m) (S n)"
  shows "\<exists>B. \<forall>n. session_size i (S n) \<le> B"
proof -
  note f = ready_facts [OF ready]
  define P where "P = (\<Union>n. ge_product ` set (ps_edges (S n)))"
  have P: "finite P" unfolding P_def
    by (rule endless_products_finite [of p g start S i boundary]) (rule ready cyc ok col inv grow, assumption?)+
  let ?w = "Max (insert 0 ((length \<circ> snd) ` set (grammar_rules g)))" and ?r = "length (grammar_rules g)"
  define A where "A = (\<lambda>key. the (later_product S key boundary)) ` keys_over ?r ?w P"
  have A: "finite A" unfolding A_def by (intro finite_imageI keys_over_finite P)
  have mono: "ps_reduced (S m) \<subseteq>\<^sub>m ps_reduced (S n)" if "m \<le> n" for m n using grow [OF that] by (simp add: grows_def)
  have made: "q \<in> A" if "accept_made p boundary (S n) q" for n q
  proof -
    obtain xs where xs: "set xs \<subseteq> set (ps_edges (S n))" "length xs = length (rule_rhs g 0)"
        "ps_reduced (S n) (cache_key 0 (path_products xs) boundary) = Some q" using \<open>accept_made p boundary (S n) q\<close> f(5) by (auto simp: accept_made_def)
    have "(0, path_products xs) \<in> keys_over ?r ?w P"
      using xs(1,2) rhs_width [OF f(11)] f(11) by (auto simp: keys_over_def P_def)
    moreover have "later_product S (0, path_products xs) boundary = Some q" using later_product_Some [of S, OF mono xs(3)] by simp
    ultimately show ?thesis unfolding A_def by (intro image_eqI [of _ _ "(0, path_products xs)"]) simp_all
  qed
  let ?gen = "ps_generation (S 0)"
  define Ns where "Ns = set (ps_nodes (S 0)) \<union> (\<lambda>st. gss_node_new st i ?gen) ` {..<length (p_states p)}"
  have gen: "ps_generation (S n) = ?gen" for n using grow [of 0 n] by (simp add: grows_def same_frame_def)
  have "ps_nodes (S n) \<in> {ns. set ns \<subseteq> Ns \<and> distinct ns}" for n
  proof -
    have "x \<in> Ns" if x: "x \<in> set (ps_nodes (S n))" for x
    proof -
      have "x \<in> set (ps_nodes (S 0)) \<or> (gn_column x = i \<and> gn_generation x = ?gen)" using inv [of n] x by (auto simp: run_inv_def)
      moreover have "gn_state x < length (p_states p)" using ok [of n] x by (auto simp: session_ok_def graph_ok_def)
      moreover have "x = gss_node_new (gn_state x) (gn_column x) (gn_generation x)" by (simp add: gss_node_new_def)
      ultimately show ?thesis unfolding Ns_def by auto
    qed
    moreover have "distinct (ps_nodes (S n))" using ok [of n] gss_distinct by (auto simp: session_ok_def arena_fine_def)
    ultimately show ?thesis by blast
  qed
  moreover have finN: "finite Ns" by (simp add: Ns_def)
  ultimately have N: "length (ps_nodes (S n)) \<le> card Ns" for n by (metis (mono_tags, lifting) card_mono distinct_card mem_Collect_eq)
  let ?N = "card Ns"
  define E where "E = set (ps_edges (S 0)) \<union> (\<lambda>(u, w, q). gss_edge_new u w q ?gen) ` ({..<?N} \<times> {..<?N} \<times> P)"
  have E: "finite E" unfolding E_def using P by simp
  have edges: "length (ps_edges (S n)) \<le> card E" for n
  proof -
    have "e \<in> E" if e: "e \<in> set (ps_edges (S n))" for e
    proof (cases "e \<in> set (ps_edges (S 0))")
      case False
      then have "ge_generation e = ?gen" using inv [of n] e gen unfolding run_inv_def justified_def by auto
      moreover have "ge_from e < ?N" "ge_to e < ?N"
        using ok [of n] e N [of n] by (auto simp: session_ok_def graph_ok_def edge_ok_def)
      moreover have "ge_product e \<in> P" using e unfolding P_def by blast
      moreover have "e = gss_edge_new (ge_from e) (ge_to e) (ge_product e) (ge_generation e)" by (simp add: gss_edge_new_def)
      ultimately show ?thesis unfolding E_def by (intro UnI2 image_eqI [of _ _ "(ge_from e, ge_to e, ge_product e)"]) auto
    qed (simp add: E_def)
    moreover have "distinct (ps_edges (S n))" using ok [of n] gss_distinct by (auto simp: session_ok_def arena_fine_def)
    ultimately show ?thesis using card_mono [OF E] by (metis distinct_card subsetI)
  qed
  let ?Q = "set (pc_products (ps_columns (S 0) ! i)) \<union> P \<union> A" and ?C = "set (pc_accepted (ps_columns (S 0) ! i)) \<union> A"
  have column: "ps_columns (S n) ! i \<in> set (ps_columns (S n))" for n
    using ok [of n] col [of n] by (simp add: session_ok_def current_column_def)
  have active: "length (pc_active (ps_columns (S n) ! i)) \<le> ?N" for n
  proof -
    have "distinct (pc_active (ps_columns (S n) ! i))" "set (pc_active (ps_columns (S n) ! i)) \<subseteq> {..<?N}"
      using ok [of n] column [of n] N [of n] unfolding session_ok_def by (blast, fastforce)
    then show ?thesis using card_mono [of "{..<?N}"] by (metis card_lessThan distinct_card finite_lessThan)
  qed
  have products: "length (pc_products (ps_columns (S n) ! i)) \<le> card ?Q" for n
  proof -
    have "distinct (pc_products (ps_columns (S n) ! i))" using ok [of n] column [of n] by (auto simp: session_ok_def)
    moreover have "set (pc_products (ps_columns (S n) ! i)) \<subseteq> ?Q" using inv [of n] made unfolding run_inv_def P_def by blast
    moreover have "finite ?Q" using P A by simp
    ultimately show ?thesis using card_mono by (metis distinct_card)
  qed
  have accepted: "length (pc_accepted (ps_columns (S n) ! i)) \<le> card ?C" for n
  proof -
    have "distinct (pc_accepted (ps_columns (S n) ! i))" using ok [of n] column [of n] by (auto simp: session_ok_def)
    moreover have "set (pc_accepted (ps_columns (S n) ! i)) \<subseteq> ?C" using inv [of n] made unfolding run_inv_def by blast
    moreover have "finite ?C" using A by simp
    ultimately show ?thesis using card_mono by (metis distinct_card)
  qed
  have "session_size i (S n) \<le> card E + ?N + card ?Q + card ?C" for n
    using edges [of n] active [of n] products [of n] accepted [of n] by (simp add: session_size_def)
  then show ?thesis by blast
qed

lemma passes_add:
  "passes p user i la boundary n s = (Inr True, t) \<Longrightarrow> passes p user i la boundary (n + m) s = passes p user i la boundary m t"
proof (induction n arbitrary: s)
  case (Suc n)
  obtain q s1 where q: "reduce_pass p user i la boundary s = (q, s1)" by fastforce
  show ?case
  proof (cases q)
    case (Inr changed)
    then have "changed" "passes p user i la boundary n s1 = (Inr True, t)" using Suc.prems q by (simp_all split: if_splits)
    then show ?thesis using Suc.IH q Inr by simp
  qed (use Suc.prems q in simp)
qed simp

lemma loop_returns:
  assumes "lr_ready p g start" "noncyclic (grammar_rules g)" "la \<in> g_terminal_ids g" "session_ok p s" "i = current_column s"
  shows "\<exists>r. reduce_until_stable p user i la boundary s = Some r"
proof (rule ccontr)
  assume none: "\<nexists>r. reduce_until_stable p user i la boundary s = Some r"
  have going: "fst (passes p user i la boundary n s) = Inr True" for n
  proof (rule ccontr)
    assume "fst (passes p user i la boundary n s) \<noteq> Inr True"
    moreover obtain q s' where "passes p user i la boundary n s = (q, s')" by fastforce
    ultimately show False using passes_loop [of p user i la boundary n s q s'] none by auto
  qed
  define S where "S n = snd (passes p user i la boundary n s)" for n
  have run: "passes p user i la boundary n s = (Inr True, S n)" for n using going [of n] by (metis S_def prod.collapse)
  have steps: "session_steps p i la boundary s (S n) \<and> session_size i s + n \<le> session_size i (S n)" for n
    using passes_outcome [OF assms(1,3-5), of user boundary n] by (simp add: run)
  have more: "session_steps p i la boundary (S n) (S (Suc n))" for n
  proof -
    have ok: "session_ok p (S n) \<and> i = current_column (S n)"
      using steps_ok [OF assms(1,4,5) conjunct1 [OF steps [of n]]] by (simp add: assms(5))
    have "passes p user i la boundary 1 (S n) = (Inr True, S (Suc n))"
      using passes_add [OF run [of n], of 1] run [of "Suc n"] by (simp del: passes.simps)
    then show ?thesis using passes_outcome [OF assms(1,3), of "S n" i user boundary 1] ok by (simp del: passes.simps)
  qed
  have chain: "session_steps p i la boundary (S m) (S n)" if "m \<le> n" for m n
    using that by (induction rule: dec_induct) (auto intro: rtranclp_trans more)
  have S0: "S 0 = s" by (simp add: S_def)
  have "session_ok p (S n)" "i = current_column (S n)" for n
    using steps_ok [OF assms(1,4,5) conjunct1 [OF steps [of n]]] by (simp_all add: assms(5))
  moreover have "run_inv p i boundary (S 0) (S n)" for n
    using run_inv_steps [OF assms(1,4,5) conjunct1 [OF steps [of n]]] unfolding S0 .
  moreover have "grows (S m) (S n)" if "m \<le> n" for m n using steps_grow [OF chain [OF that]] .
  ultimately obtain B where "\<forall>n. session_size i (S n) \<le> B" using endless_size_bounded [OF assms(1,2), of S i boundary] by blast
  then show False using steps [of "Suc B"] by (metis Suc_n_not_le_n add_leD2 le_trans)
qed

end
