(* ===== verification/Session_Shift.thy ===== *)
theory Session_Shift
  imports Session_Returns
begin

text \<open>
  Shifting a source token: it opens a column whose nodes are exactly the shifts of the active nodes,
  or fails with \<^verbatim>\<open>NoActiveStacks\<close> when no active node can shift. Deleting a token repeats the column.
\<close>

section \<open>The shift loop\<close>

definition can_shift :: "'b parser \<Rightarrow> nat \<Rightarrow> terminal_id \<Rightarrow> nat \<Rightarrow> bool" where
  "can_shift p state t to \<longleftrightarrow> (\<exists>as. action_set p state t = Some as \<and> Shift to \<in> set as)"

text \<open>The state of the loop: new nodes and edges, all of them shifts of active nodes.\<close>

definition shifting :: "'b parser \<Rightarrow> parse_token \<Rightarrow> nat \<Rightarrow> nat list \<Rightarrow> ('v, 'l) session \<Rightarrow> nat list \<Rightarrow> ('v, 'l) session \<Rightarrow> bool" where
  "shifting p token i active s0 next s \<longleftrightarrow> arena_fine (ps_gss s) \<and> graph_ok p (ps_nodes s) (ps_edges s) \<and>
     ps_columns s = ps_columns s0 \<and> ps_generation s = ps_generation s0 \<and> ps_diagnostics s = ps_diagnostics s0 \<and>
     (\<exists>ns. ps_nodes s = ps_nodes s0 @ ns \<and> (\<forall>n \<in> set ns. gn_column n = i + 1)) \<and>
     set next = {length (ps_nodes s0)..<length (ps_nodes s)} \<and> distinct next \<and> set (ps_edges s0) \<subseteq> set (ps_edges s) \<and>
     (\<forall>e \<in> set (ps_edges s). e \<in> set (ps_edges s0) \<or> (ge_to e \<in> set active \<and> ge_from e \<in> set next \<and>
        can_shift p (node_state (ps_nodes s) (ge_to e)) (tok_terminal token) (node_state (ps_nodes s) (ge_from e)))) \<and>
     (\<forall>u \<in> set next. \<exists>e \<in> set (ps_edges s). ge_from e = u \<and> ge_to e \<in> set active) \<and>
     (next \<noteq> [] \<longrightarrow> ps_token_products s (tok_column token) \<noteq> None)"

definition shifted_from :: "('v, 'l) session \<Rightarrow> nat list \<Rightarrow> nat \<Rightarrow> nat \<Rightarrow> bool" where
  "shifted_from s next v to \<longleftrightarrow> (\<exists>u \<in> set next. node_state (ps_nodes s) u = to \<and> (\<exists>e \<in> set (ps_edges s). ge_from e = u \<and> ge_to e = v))"

lemma shared_token_product_frame:
  assumes "shared_token_product token s = (product, s1)"
  shows "ps_gss s1 = ps_gss s" "ps_columns s1 = ps_columns s" "ps_generation s1 = ps_generation s" "ps_diagnostics s1 = ps_diagnostics s"
    "ps_token_products s1 (tok_column token) \<noteq> None"
  using assms by (auto simp: shared_token_product_def split: option.splits prod.splits)

text \<open>How the graph grows by one node and one edge of the next column.\<close>

lemma graph_ok_shift:
  assumes "graph_ok p ns es" "v < length ns" "node_column ns v \<le> i" "next_state p (node_state ns v) X = Some to" "to < length (p_states p)"
    and "ns' = add_new n ns" "n = gss_node_new to (i + 1) gen" "distinct ns'" "nth_opt ns' u = Some n"
    and "set es' = insert (gss_edge_new u v product gen) (set es)"
  shows "graph_ok p ns' es'"
proof -
  have u: "u < length ns'" "ns' ! u = n" using assms(9) by (auto simp: nth_opt_Some_iff)
  have v': "v < length ns'" "ns' ! v = ns ! v" using assms(2,6) by (auto simp: add_new_def nth_append)
  have "edge_ok p ns' (gss_edge_new u v product gen)"
    using u v' assms(3,4,7) by (auto simp: edge_ok_def gss_edge_new_def gss_node_new_def)
  moreover have "edge_ok p ns' e" if "e \<in> set es" for e
    using that assms(1,6) by (auto simp: graph_ok_def add_new_def intro: edge_ok_mono)
  moreover have "\<exists>e \<in> set es'. ge_from e = j" if "j < length ns'" "node_state ns' j \<noteq> 0" for j
  proof (cases "j = u")
    case True
    then show ?thesis using assms(10) by (auto simp: gss_edge_new_def)
  next
    case False
    have "j < length ns"
    proof (rule ccontr)
      assume "\<not> j < length ns"
      then have "j = length ns" "ns' = ns @ [n]" using that(1) assms(6) by (auto simp: add_new_def split: if_splits)
      then have "ns' ! j = n" by simp
      then show False using u that(1) False nth_eq_iff_index_eq [OF assms(8), of j u] by simp
    qed
    moreover from this have "ns' ! j = ns ! j" using assms(6) by (auto simp: add_new_def nth_append)
    ultimately show ?thesis using assms(1,10) that(2) by (auto simp: graph_ok_def)
  qed
  moreover have "\<forall>m \<in> set ns'. gn_state m < length (p_states p)" using assms(1,5,6,7) by (auto simp: graph_ok_def gss_node_new_def)
  ultimately show ?thesis using assms(10) by (auto simp: graph_ok_def)
qed

lemma shift_action_outcome:
  assumes ready: "lr_ready p g start" and ok: "session_ok p s0" "i = current_column s0" "column_at i s0 = Some c"
    and v: "v \<in> set (pc_active c)" and inv: "shifting p token i (pc_active c) s0 next s"
    and act: "action_set p (node_state (ps_nodes s0) v) (tok_terminal token) = Some as" "act \<in> set as"
  shows "outcome (shift_action token None (i + 1) v act next s) stop_ok (\<lambda>next' s'. shifting p token i (pc_active c) s0 next' s' \<and>
    set next \<subseteq> set next' \<and> (\<exists>ns. ps_nodes s' = ps_nodes s @ ns) \<and> set (ps_edges s) \<subseteq> set (ps_edges s') \<and>
    (\<forall>to. act = Shift to \<longrightarrow> shifted_from s' next' v to))"
proof (cases act)
  case (Shift to)
  obtain product s1 where s1: "shared_token_product token s = (product, s1)" by fastforce
  note fr = shared_token_product_frame [OF s1]
  let ?n = "gss_node_new to (i + 1) (ps_generation s)"
  have fine: "arena_fine (ps_gss s1)" using inv fr(1) by (simp add: shifting_def)
  obtain ns where ns: "ps_nodes s = ps_nodes s0 @ ns" "\<forall>n \<in> set ns. gn_column n = i + 1" using inv by (auto simp: shifting_def)
  have old: "\<forall>n \<in> set (ps_nodes s0). gn_column n \<le> i" using ok(1,2) by (simp add: session_ok_def)
  have vlen: "v < length (ps_nodes s0)" using ok(1,3) v by (auto simp: session_ok_def column_at_Some)
  have vs: "v < length (ps_nodes s)" "ps_nodes s ! v = ps_nodes s0 ! v" using vlen ns(1) by (simp_all add: nth_append)
  have graph: "graph_ok p (ps_nodes s) (ps_edges s)" "graph_ok p (ps_nodes s0) (ps_edges s0)" using inv ok(1) by (simp_all add: shifting_def session_ok_def)
  have tr: "next_state p (node_state (ps_nodes s) v) (T (tok_terminal token)) = Some to"
    using action_iff [OF ready node_known [OF graph(2) vlen] act(1)] act(2) vs(2) by (auto simp: Shift prescribed_def)
  have bound: "to < length (p_states p)" using next_items(2) [OF ready tr] .
  have col: "node_column (ps_nodes s) v \<le> i" using old vlen vs(2) by simp
  have run: "shift_action token None (i + 1) v act next s = and_then (session_node to (i + 1)) (\<lambda>next_node.
        and_then (session_edge next_node v product) (\<lambda>added.
        return_step (if added then add_new next_node next else next))) s1"
    by (simp add: shift_action_def Shift s1)
  show ?thesis
    unfolding run outcome_and_then
  proof (rule outcome_mono [OF session_node_outcome [OF fine, of to "i + 1"]])
    fix u s2
    assume "\<exists>gn. s2 = s1\<lparr>ps_gss := gn\<rparr> \<and> arena_fine gn \<and> gss_edges gn = ps_edges s1 \<and>
      gss_nodes gn = add_new (gss_node_new to (i + 1) (ps_generation s1)) (ps_nodes s1) \<and>
      nth_opt (gss_nodes gn) u = Some (gss_node_new to (i + 1) (ps_generation s1)) \<and>
      (gss_node_new to (i + 1) (ps_generation s1) \<in> set (ps_nodes s1) \<longrightarrow> gn = ps_gss s1)"
    then obtain gn where gn: "s2 = s1\<lparr>ps_gss := gn\<rparr>" "arena_fine gn" "gss_edges gn = ps_edges s" "gss_nodes gn = add_new ?n (ps_nodes s)"
        "nth_opt (gss_nodes gn) u = Some ?n" using fr by auto
    show "outcome (session_edge u v product s2) stop_ok (\<lambda>added s'. outcome (return_step (if added then add_new u next else next) s') stop_ok
      (\<lambda>next' s'. shifting p token i (pc_active c) s0 next' s' \<and> set next \<subseteq> set next' \<and> (\<exists>ns. ps_nodes s' = ps_nodes s @ ns) \<and>
         set (ps_edges s) \<subseteq> set (ps_edges s') \<and> (\<forall>to. act = Shift to \<longrightarrow> shifted_from s' next' v to)))"
    proof (rule outcome_mono [OF session_edge_outcome [of s2 u v product]])
      show "arena_fine (ps_gss s2)" using gn(1,2) by simp
    next
      fix added s3
      assume "\<exists>ge. s3 = s2\<lparr>ps_gss := ge\<rparr> \<and> arena_fine ge \<and> gss_nodes ge = ps_nodes s2 \<and>
        gss_edges ge = add_new (gss_edge_new u v product (ps_generation s2)) (ps_edges s2) \<and>
        added = (gss_edge_new u v product (ps_generation s2) \<notin> set (ps_edges s2)) \<and> (\<not> added \<longrightarrow> ge = ps_gss s2)"
      then obtain ge where ge: "s3 = s2\<lparr>ps_gss := ge\<rparr>" "arena_fine ge" "gss_nodes ge = add_new ?n (ps_nodes s)"
          "gss_edges ge = add_new (gss_edge_new u v product (ps_generation s)) (ps_edges s)"
          "added \<longleftrightarrow> gss_edge_new u v product (ps_generation s) \<notin> set (ps_edges s)" using gn fr by auto
      let ?next = "if added then add_new u next else next"
      have s3: "ps_nodes s3 = add_new ?n (ps_nodes s)" "set (ps_edges s3) = insert (gss_edge_new u v product (ps_generation s)) (set (ps_edges s))"
        by (simp_all add: ge(1,3,4))
      have u: "u < length (ps_nodes s3)" "ps_nodes s3 ! u = ?n" using gn(5) unfolding s3(1) gn(4) by (simp_all add: nth_opt_Some_iff del: nth_opt_append)
      have dist: "distinct (ps_nodes s3)" using gss_distinct [of ge] ge(1,2) by (simp add: arena_fine_def)
      have g3: "graph_ok p (ps_nodes s3) (ps_edges s3)"
        by (rule graph_ok_shift [OF graph(1) vs(1) col tr bound s3(1) refl dist _ s3(2)]) (use u in \<open>simp add: nth_opt_Some_iff\<close>)
      have grow: "\<exists>ms. ps_nodes s3 = ps_nodes s @ ms" unfolding s3(1) by (rule add_new_grows)
      have unew: "length (ps_nodes s0) \<le> u"
      proof (rule ccontr)
        assume "\<not> length (ps_nodes s0) \<le> u"
        then have "ps_nodes s3 ! u \<in> set (ps_nodes s0)" using s3(1) ns(1) by (auto simp: add_new_def nth_append)
        then show False using old u(2) by (auto simp: gss_node_new_def)
      qed
      have next_old: "set next = {length (ps_nodes s0)..<length (ps_nodes s)}" "distinct next" using inv by (simp_all add: shifting_def)
      have next_new: "set ?next = {length (ps_nodes s0)..<length (ps_nodes s3)}"
      proof (cases "?n \<in> set (ps_nodes s)")
        case True
        then have same: "ps_nodes s3 = ps_nodes s" by (simp add: s3(1) add_new_def)
        have "u \<in> set next" unfolding next_old(1) using unew u(1) same by simp
        then have "set ?next = set next" by (simp add: insert_absorb)
        then show ?thesis unfolding same next_old(1) .
      next
        case False
        have len: "ps_nodes s3 = ps_nodes s @ [?n]" using False by (simp add: s3(1) add_new_def)
        have "u = length (ps_nodes s)"
        proof (rule ccontr)
          assume "u \<noteq> length (ps_nodes s)"
          then have "u < length (ps_nodes s)" using u(1) len by simp
          then have "ps_nodes s ! u = ?n" using u(2) len by (simp add: nth_append)
          then show False using False nth_mem [OF \<open>u < length (ps_nodes s)\<close>] by simp
        qed
        moreover from this have added
          using graph(1) ge(5) by (auto simp: graph_ok_def edge_ok_def gss_edge_new_def)
        ultimately show ?thesis using next_old unew len by auto
      qed
      have sub: "set next \<subseteq> set ?next" by auto
      have in_next: "u \<in> set ?next" using next_new unew u(1) by simp
      have shift: "can_shift p (node_state (ps_nodes s3) v) (tok_terminal token) (node_state (ps_nodes s3) u)"
      proof -
        have "ps_nodes s3 ! v = ps_nodes s0 ! v" using grow vs by (auto simp: nth_append)
        then show ?thesis using act u(2) by (auto simp: can_shift_def Shift gss_node_new_def)
      qed
      have "e \<in> set (ps_edges s0) \<or> (ge_to e \<in> set (pc_active c) \<and> ge_from e \<in> set ?next \<and>
          can_shift p (node_state (ps_nodes s3) (ge_to e)) (tok_terminal token) (node_state (ps_nodes s3) (ge_from e)))"
        if e: "e \<in> set (ps_edges s3)" for e
      proof (cases "e = gss_edge_new u v product (ps_generation s)")
        case True
        then show ?thesis using v in_next shift by (simp add: gss_edge_new_def)
      next
        case False
        then have e': "e \<in> set (ps_edges s)" using e s3(2) by simp
        have "ps_nodes s3 ! ge_to e = ps_nodes s ! ge_to e" "ps_nodes s3 ! ge_from e = ps_nodes s ! ge_from e"
          using graph(1) e' grow by (auto simp: graph_ok_def edge_ok_def nth_append)
        then show ?thesis using inv e' sub by (auto simp: shifting_def)
      qed
      moreover have "\<exists>ms. ps_nodes s3 = ps_nodes s0 @ ms \<and> (\<forall>n \<in> set ms. gn_column n = i + 1)"
        using ns s3(1) by (auto simp: add_new_def gss_node_new_def)
      moreover have "distinct ?next" using next_old(2) by simp
      moreover have "\<forall>x \<in> set ?next. \<exists>e \<in> set (ps_edges s3). ge_from e = x \<and> ge_to e \<in> set (pc_active c)"
      proof
        fix x
        assume "x \<in> set ?next"
        then consider "x = u" | "x \<in> set next" by (auto split: if_splits)
        then show "\<exists>e \<in> set (ps_edges s3). ge_from e = x \<and> ge_to e \<in> set (pc_active c)"
        proof cases
          case 1
          then show ?thesis using s3(2) v by (auto simp: gss_edge_new_def)
        next
          case 2
          then show ?thesis using inv s3(2) unfolding shifting_def by blast
        qed
      qed
      moreover have "ps_token_products s3 (tok_column token) \<noteq> None" using fr(5) by (simp add: ge(1) gn(1))
      ultimately have "shifting p token i (pc_active c) s0 ?next s3"
        using inv fr(2,3,4) g3 ge(1,2) gn(1) next_new s3(2) unfolding shifting_def by auto
      moreover have "shifted_from s3 ?next v to" unfolding shifted_from_def
        by (intro bexI [of _ u] conjI bexI [of _ "gss_edge_new u v product (ps_generation s)"])
          (use in_next u(2) s3(2) in \<open>simp_all add: gss_node_new_def gss_edge_new_def\<close>)
      ultimately show "outcome (return_step ?next s3) stop_ok (\<lambda>next' s'. shifting p token i (pc_active c) s0 next' s' \<and> set next \<subseteq> set next' \<and>
          (\<exists>ns. ps_nodes s' = ps_nodes s @ ns) \<and> set (ps_edges s) \<subseteq> set (ps_edges s') \<and> (\<forall>to. act = Shift to \<longrightarrow> shifted_from s' next' v to))"
        using sub grow s3(2) Shift by auto
    qed simp
  qed simp
qed (use inv in \<open>simp_all add: shift_action_def\<close>)

lemma shifted_from_mono:
  assumes "shifted_from s next v to" "set next \<subseteq> set next'" "ps_nodes s' = ps_nodes s @ ns" "set (ps_edges s) \<subseteq> set (ps_edges s')"
    and "graph_ok p (ps_nodes s) (ps_edges s)"
  shows "shifted_from s' next' v to"
proof -
  obtain u e where u: "u \<in> set next" "node_state (ps_nodes s) u = to" "e \<in> set (ps_edges s)" "ge_from e = u" "ge_to e = v"
    using assms(1) by (auto simp: shifted_from_def)
  then have "u < length (ps_nodes s)" using assms(5) by (auto simp: graph_ok_def edge_ok_def)
  then have "node_state (ps_nodes s') u = to" using u(2) assms(3) by (simp add: nth_append)
  then show ?thesis using u assms(2,4) unfolding shifted_from_def by blast
qed

text \<open>All shifts of the nodes handled so far are there.\<close>

definition shifts_done :: "'b parser \<Rightarrow> parse_token \<Rightarrow> ('v, 'l) session \<Rightarrow> ('v, 'l) session \<Rightarrow> nat list \<Rightarrow> nat list \<Rightarrow> bool" where
  "shifts_done p token s0 s next vs \<longleftrightarrow>
     (\<forall>v \<in> set vs. \<forall>to. can_shift p (node_state (ps_nodes s0) v) (tok_terminal token) to \<longrightarrow> shifted_from s next v to)"

lemma shift_node_outcome:
  assumes ready: "lr_ready p g start" and ok: "session_ok p s0" "i = current_column s0" "column_at i s0 = Some c"
    and v: "v \<in> set (pc_active c)" and inv: "shifting p token i (pc_active c) s0 next s" and t: "tok_terminal token \<in> g_terminal_ids g"
  shows "outcome (shift_node p token None (i + 1) v next s) stop_ok (\<lambda>next' s'. shifting p token i (pc_active c) s0 next' s' \<and>
    set next \<subseteq> set next' \<and> (\<exists>ns. ps_nodes s' = ps_nodes s @ ns) \<and> set (ps_edges s) \<subseteq> set (ps_edges s') \<and> shifts_done p token s0 s' next' [v])"
proof -
  have vlen: "v < length (ps_nodes s0)" using ok(1,3) v by (auto simp: session_ok_def column_at_Some)
  obtain ns where ns: "ps_nodes s = ps_nodes s0 @ ns" using inv by (auto simp: shifting_def)
  have vs: "v < length (ps_nodes s)" "ps_nodes s ! v = ps_nodes s0 ! v" using vlen ns by (simp_all add: nth_append)
  have "gss_ok (ps_gss s)" "graph_ok p (ps_nodes s0) (ps_edges s0)" using inv ok(1) by (simp_all add: shifting_def arena_fine_def session_ok_def)
  then have known: "known_node v s = (Inr (ps_nodes s0 ! v), s)" using gss_get_node_nth vs by (simp add: known_node_def)
  obtain as where as: "action_set p (node_state (ps_nodes s0) v) (tok_terminal token) = Some as"
    using ready_cell [OF ready node_known [OF \<open>graph_ok p (ps_nodes s0) (ps_edges s0)\<close> vlen] t] by blast
  let ?I = "\<lambda>past next' s'. shifting p token i (pc_active c) s0 next' s' \<and>
    set next \<subseteq> set next' \<and> (\<exists>ns. ps_nodes s' = ps_nodes s @ ns) \<and> set (ps_edges s) \<subseteq> set (ps_edges s') \<and>
    (\<forall>to. Shift to \<in> set past \<longrightarrow> shifted_from s' next' v to)"
  have "outcome (for_each (shift_action token None (i + 1) v) as next s) stop_ok (?I as)"
  proof (rule for_each_outcome [where I = ?I], goal_cases)
    case (2 past act rest next1 s1)
    have act: "act \<in> set as" using 2 by simp
    obtain ms where ms: "ps_nodes s1 = ps_nodes s @ ms" using 2(2) by blast
    show ?case
    proof (rule outcome_mono [OF shift_action_outcome [OF ready ok v conjunct1 [OF 2(2)] as act]])
      fix next2 s2
      assume r: "shifting p token i (pc_active c) s0 next2 s2 \<and> set next1 \<subseteq> set next2 \<and> (\<exists>ns. ps_nodes s2 = ps_nodes s1 @ ns) \<and>
        set (ps_edges s1) \<subseteq> set (ps_edges s2) \<and> (\<forall>to. act = Shift to \<longrightarrow> shifted_from s2 next2 v to)"
      then obtain ks where ks: "ps_nodes s2 = ps_nodes s1 @ ks" by blast
      have "graph_ok p (ps_nodes s1) (ps_edges s1)" using 2(2) by (simp add: shifting_def)
      then have "shifted_from s2 next2 v to" if "Shift to \<in> set past" for to
        using shifted_from_mono [of s1 next1 v to next2 s2 ks p] 2(2) r ks that by blast
      then show "?I (past @ [act]) next2 s2" using r 2(2) ms ks by auto
    qed simp
  qed (use inv in auto)
  then show ?thesis
    by (simp add: shift_node_def known as) (erule outcome_mono, auto simp: shifts_done_def can_shift_def as)
qed

lemma shift_loop_outcome:
  assumes ready: "lr_ready p g start" and ok: "session_ok p s0" "i = current_column s0" "column_at i s0 = Some c"
    and t: "tok_terminal token \<in> g_terminal_ids g"
  shows "outcome (for_each (shift_node p token None (i + 1)) (pc_active c) [] s0) stop_ok
    (\<lambda>next s. shifting p token i (pc_active c) s0 next s \<and> shifts_done p token s0 s next (pc_active c))"
proof (rule for_each_outcome [where I = "\<lambda>past next s. shifting p token i (pc_active c) s0 next s \<and> shifts_done p token s0 s next past"], goal_cases)
  case 1
  then show ?case using ok(1) by (simp add: shifting_def shifts_done_def session_ok_def)
next
  case (2 past v rest next1 s1)
  have v: "v \<in> set (pc_active c)" using 2 by simp
  show ?case
  proof (rule outcome_mono [OF shift_node_outcome [OF ready ok v conjunct1 [OF 2(2)] t]])
    fix next2 s2
    assume r: "shifting p token i (pc_active c) s0 next2 s2 \<and> set next1 \<subseteq> set next2 \<and> (\<exists>ns. ps_nodes s2 = ps_nodes s1 @ ns) \<and>
      set (ps_edges s1) \<subseteq> set (ps_edges s2) \<and> shifts_done p token s0 s2 next2 [v]"
    then obtain ks where ks: "ps_nodes s2 = ps_nodes s1 @ ks" by blast
    have "graph_ok p (ps_nodes s1) (ps_edges s1)" using 2(2) by (simp add: shifting_def)
    then have "shifted_from s2 next2 w to" if "shifted_from s1 next1 w to" for w to
      using shifted_from_mono [of s1 next1 w to next2 s2 ks p] r ks that by blast
    then show "shifting p token i (pc_active c) s0 next2 s2 \<and> shifts_done p token s0 s2 next2 (past @ [v])"
      using r 2(2) by (auto simp: shifts_done_def)
  qed simp
qed

end
