(* ===== verification/Session_Tokens.thy ===== *)
theory Session_Tokens
  imports Session_Shift
begin

text \<open>
  One token of the replay loop: the whole of \<^verbatim>\<open>shift_parse_token\<close> and \<^verbatim>\<open>delete_parse_token\<close> on a well-formed
  session. A shift of a source token succeeds, or finds no stack and leaves the graph as it was, or
  fills a vector; a deletion always leaves a diagnostic.
\<close>

section \<open>Shifting\<close>

text \<open>Shifting calls no build function.\<close>

definition no_build :: "parse_stop \<Rightarrow> 's \<Rightarrow> bool" where
  "no_build e s \<longleftrightarrow> (\<forall>b. e \<noteq> Failed (BuildFailed b))"

lemma no_build_simps [simp]: "no_build Panicked s" "no_build (Failed (MissingGssNode i)) s"
  by (simp_all add: no_build_def)

lemma shift_never_builds:
  "outcome (for_each (shift_node p token None (i + 1)) vs next s) no_build (\<lambda>_ _. True)"
proof (rule for_each_outcome [where I = "\<lambda>_ _ _. True"], simp_all)
  fix v next1 and s1 :: "('v, 'l) session"
  have node: "outcome (session_node to j t) no_build (\<lambda>_ _. True)" for to j and t :: "('v, 'l) session"
    by (simp add: session_node_def split: prod.split)
  have edge: "outcome (session_edge to j q t) no_build (\<lambda>_ _. True)" for to j q and t :: "('v, 'l) session"
    by (simp add: session_edge_def split: prod.split)
  have act: "outcome (shift_action token None (i + 1) v act n t) no_build (\<lambda>_ _. True)" for act n and t :: "('v, 'l) session"
  proof (cases act)
    case (Shift to)
    show ?thesis
      by (simp add: shift_action_def Shift split: prod.split) (intro allI impI outcome_mono [OF node] outcome_mono [OF edge] | simp)+
  qed (simp_all add: shift_action_def)
  have loop: "outcome (for_each (shift_action token None (i + 1) v) as n t) no_build (\<lambda>_ _. True)" for as n and t :: "('v, 'l) session"
    by (rule for_each_outcome [where I = "\<lambda>_ _ _. True"]) (use act in simp_all)
  have "outcome (or_panic x t) no_build (\<lambda>_ _. True)" for x :: "'x option" and t :: "('v, 'l) session"
    by (simp add: or_panic_def split: option.split)
  then show "outcome (shift_node p token None (Suc i) v next1 s1) no_build (\<lambda>_ _. True)"
    using loop by (auto simp: shift_node_def known_node_def or_panic_def split: option.split)
qed

lemma outcome_conj: "outcome r E Q \<Longrightarrow> outcome r F R \<Longrightarrow> outcome r (\<lambda>e s. E e s \<and> F e s) (\<lambda>x s. Q x s \<and> R x s)"
  by (auto simp: outcome_def split: prod.splits sum.splits)

lemma columns_after_push [simp]:
  "ps_columns (open_column token active q s) = ps_columns s @ [(column_new (Some (tok_column token)) active)\<lparr>pc_products := [q]\<rparr>]"
  "ps_gss (open_column token active q s) = ps_gss s" "ps_diagnostics (open_column token active q s) = ps_diagnostics s"
  "ps_generation (open_column token active q s) = ps_generation s" "ps_token_columns (open_column token active q s) = ps_token_columns s"
  by (simp_all add: open_column_def push_product_def column_new_def)

text \<open>The session after a shift.\<close>

definition shifted :: "'b parser \<Rightarrow> parse_token \<Rightarrow> nat \<Rightarrow> ('v, 'l) session \<Rightarrow> ('v, 'l) session \<Rightarrow> bool" where
  "shifted p token i s s' \<longleftrightarrow> (\<exists>c next q s1. column_at i s = Some c \<and> shifting p token i (pc_active c) s next s1 \<and>
     shifts_done p token s s1 next (pc_active c) \<and> next \<noteq> [] \<and>
     s' = (open_column token next q s1)\<lparr>ps_token_columns := (ps_token_columns s1)(tok_column token \<mapsto> i + 1)\<rparr>)"

text \<open>The session after a shift that found no stack.\<close>

definition stuck :: "'b parser \<Rightarrow> parse_token \<Rightarrow> nat \<Rightarrow> ('v, 'l) session \<Rightarrow> ('v, 'l) session \<Rightarrow> bool" where
  "stuck p token i s s' \<longleftrightarrow> session_ok p s' \<and> ps_columns s' = ps_columns s \<and> ps_diagnostics s' = ps_diagnostics s \<and>
     (\<exists>c. column_at i s = Some c \<and> (\<forall>v \<in> set (pc_active c). \<forall>to. \<not> can_shift p (node_state (ps_nodes s) v) (tok_terminal token) to))"

definition shift_stop :: "'b parser \<Rightarrow> parse_token \<Rightarrow> nat \<Rightarrow> ('v, 'l) session \<Rightarrow> parse_stop \<Rightarrow> ('v, 'l) session \<Rightarrow> bool" where
  "shift_stop p token i s e s' \<longleftrightarrow> (e = Panicked \<and> gss_full s') \<or> (e = Failed (NoActiveStacks (Some (tok_column token))) \<and> stuck p token i s s')"

lemma no_shift_stuck:
  assumes "session_ok p s0" "i = current_column s0" "column_at i s0 = Some c" "shifting p token i (pc_active c) s0 [] s"
    and "shifts_done p token s0 s [] (pc_active c)"
  shows "stuck p token i s0 s"
proof -
  obtain ns where ns: "ps_nodes s = ps_nodes s0 @ ns" "length (ps_nodes s) \<le> length (ps_nodes s0)"
    using assms(4) by (auto simp: shifting_def)
  then have "ps_nodes s = ps_nodes s0" by simp
  then have "session_ok p s" using assms(1,4) by (simp add: session_ok_def shifting_def current_column_def)
  then show ?thesis using assms(3-5) by (auto simp: stuck_def shifting_def shifts_done_def shifted_from_def)
qed

lemma shift_token_outcome:
  assumes ready: "lr_ready p g start" and ok: "session_ok p s" "i = current_column s"
    and t: "tok_terminal token \<in> g_terminal_ids g" "tok_terminal token \<noteq> g_error_terminal g"
  shows "\<exists>r. shift_parse_token p user i token s = Some r \<and> outcome r (shift_stop p token i s) (\<lambda>to s'. to = i + 1 \<and> shifted p token i s s')"
proof -
  have "i < length (ps_columns s)" using ok by (simp add: session_ok_def current_column_def)
  then obtain c where c: "column_at i s = Some c" by (simp add: column_at_def)
  obtain q s1 where r: "for_each (shift_node p token None (i + 1)) (pc_active c) [] s = (q, s1)" by fastforce
  have out: "outcome (q, s1) (\<lambda>e s'. stop_ok e s' \<and> no_build e s')
      (\<lambda>next s'. (shifting p token i (pc_active c) s next s' \<and> shifts_done p token s s' next (pc_active c)) \<and> True)"
    unfolding r [symmetric] by (rule outcome_conj [OF shift_loop_outcome [OF ready ok c t(1)] shift_never_builds])
  note err = ready_facts(5) [OF ready]
  show ?thesis
  proof (cases q)
    case (Inl e)
    then have "e = Panicked \<and> gss_full s1" using out by (auto simp: stop_ok_def no_build_def split: parse_stop.splits parse_error.splits)
    then show ?thesis using c r Inl t(2) err by (simp add: shift_parse_token_def Let_def shift_stop_def)
  next
    case (Inr nx)
    then have did: "shifting p token i (pc_active c) s nx s1" "shifts_done p token s s1 nx (pc_active c)" using out by simp_all
    show ?thesis
    proof (cases "nx = []")
      case True
      then show ?thesis using c r Inr t(2) err no_shift_stuck [OF ok c] did
        by (simp add: shift_parse_token_def Let_def shift_stop_def)
    next
      case False
      then obtain product where "ps_token_products s1 (tok_column token) = Some product" using did(1) by (auto simp: shifting_def)
      then show ?thesis using c r Inr t(2) err False did by (auto simp: shift_parse_token_def Let_def shifted_def)
    qed
  qed
qed

section \<open>Deleting\<close>

text \<open>A session with one more column, whose nodes are known.\<close>

lemma session_ok_column:
  assumes "session_ok p s" "ps_columns s' = ps_columns s @ [c]" "ps_gss s' = ps_gss s"
    and "set (pc_active c) \<subseteq> {..<length (ps_nodes s)}" "distinct (pc_active c)" "distinct (pc_products c)" "distinct (pc_accepted c)"
  shows "session_ok p s'" "current_column s' = Suc (current_column s)"
proof -
  have "ps_columns s \<noteq> []" using assms(1) by (simp add: session_ok_def)
  then show "current_column s' = Suc (current_column s)" by (simp add: current_column_def assms(2))
  then show "session_ok p s'" using assms by (auto simp: session_ok_def intro: le_SucI)
qed

lemma shifted_ok:
  assumes "lr_ready p g start" "session_ok p s" "i = current_column s" "shifted p token i s s'"
  shows "session_ok p s'" "current_column s' = i + 1" "ps_diagnostics s' = ps_diagnostics s"
proof -
  obtain c nx q s1 where sh: "column_at i s = Some c" "shifting p token i (pc_active c) s nx s1"
      "s' = (open_column token nx q s1)\<lparr>ps_token_columns := (ps_token_columns s1)(tok_column token \<mapsto> i + 1)\<rparr>"
    using assms(4) by (auto simp: shifted_def)
  have cols: "ps_columns s' = ps_columns s @ [(column_new (Some (tok_column token)) nx)\<lparr>pc_products := [q]\<rparr>]" "ps_gss s' = ps_gss s1"
    using sh(2) by (simp_all add: sh(3) shifting_def)
  have "ps_columns s \<noteq> []" using assms(2) by (simp add: session_ok_def)
  then show cur: "current_column s' = i + 1" using assms(3) by (simp add: current_column_def cols(1))
  show "ps_diagnostics s' = ps_diagnostics s" using sh(2) by (simp add: sh(3) shifting_def)
  obtain ns where ns: "ps_nodes s1 = ps_nodes s @ ns" "\<forall>n \<in> set ns. gn_column n = i + 1" using sh(2) by (auto simp: shifting_def)
  show "session_ok p s'" using assms(2,3) sh(2) ns cur
    by (fastforce simp: session_ok_def cols shifting_def column_new_def)
qed

lemma delete_token_outcome:
  assumes ready: "lr_ready p g start" "noncyclic (grammar_rules g)" "g_error_terminal g \<in> g_terminal_ids g"
    and ok: "session_ok p s" "i = current_column s"
  shows "\<exists>r. delete_parse_token p user i token s = Some r \<and>
    outcome r stop_ok (\<lambda>_ s'. session_ok p s' \<and> current_column s' = i + 1 \<and> ps_diagnostics s' \<noteq> [])"
proof -
  let ?err = "g_error_terminal (p_grammar p)"
  obtain q s1 where q: "session_error_node p (tok_length token) UnexpectedToken (Some (T (tok_terminal token))) (T ?err)
             (Some (i + 1)) (tok_column token) s = (q, s1)" by fastforce
  have s1: "ps_gss s1 = ps_gss s" "ps_columns s1 = ps_columns s" "ps_generation s1 = ps_generation s"
    using q by (auto simp: session_error_node_def Let_def split: prod.splits)
  have "i < length (ps_columns s)" using ok by (simp add: session_ok_def current_column_def)
  then obtain c where c: "column_at i s = Some c" "c \<in> set (ps_columns s)" by (simp add: column_at_def)
  then have c1: "column_at i s1 = Some c" by (simp add: column_at_def s1)
  define info where "info = error_info p (tok_length token) UnexpectedToken (Some (T (tok_terminal token))) (T ?err) (Some (i + 1))"
  define s2 where "s2 = mark_error_column (i + 1) (record_diagnostic info (open_column token (pc_active c) q s1))"
  define s3 where "s3 = s2\<lparr>ps_token_columns := (ps_token_columns s2)(tok_column token \<mapsto> i + 1)\<rparr>"
  have len: "length (ps_columns s) = i + 1" using ok by (auto simp: session_ok_def current_column_def)
  have cols: "ps_columns s3 = ps_columns s @ [(column_new (Some (tok_column token)) (pc_active c))\<lparr>pc_products := [q]\<rparr>\<lparr>pc_error_derived := True\<rparr>]"
      "ps_gss s3 = ps_gss s" "ps_diagnostics s3 \<noteq> []"
  proof -
    let ?s = "record_diagnostic info (open_column token (pc_active c) q s1)"
    let ?c = "(column_new (Some (tok_column token)) (pc_active c))\<lparr>pc_products := [q]\<rparr>"
    have s: "ps_columns ?s = ps_columns s @ [?c]" "ps_gss ?s = ps_gss s" "ps_diagnostics ?s \<noteq> []"
      by (simp_all add: record_diagnostic_def s1) auto
    have "column_at (i + 1) ?s = Some ?c" using nth_append_length [of "ps_columns s" ?c "[]"] by (simp add: column_at_def s(1) nth_opt_def len)
    then have "s2 = ?s\<lparr>ps_columns := ps_columns s @ [?c\<lparr>pc_error_derived := True\<rparr>]\<rparr>"
      using list_update_length [of "ps_columns s" ?c "[]" "?c\<lparr>pc_error_derived := True\<rparr>"]
      by (simp add: s2_def mark_error_column_def on_column_def set_error_derived_def column_new_def s(1) len)
    then show "ps_columns s3 = ps_columns s @ [?c\<lparr>pc_error_derived := True\<rparr>]" "ps_gss s3 = ps_gss s" "ps_diagnostics s3 \<noteq> []"
      using s by (simp_all add: s3_def)
  qed
  have ok3: "session_ok p s3" "i + 1 = current_column s3"
  proof -
    have "set (pc_active c) \<subseteq> {..<length (ps_nodes s)} \<and> distinct (pc_active c)" using ok(1) c(2) by (auto simp: session_ok_def)
    then show "session_ok p s3" "i + 1 = current_column s3"
      using session_ok_column [OF ok(1) cols(1,2)] ok(2) by (simp_all add: column_new_def)
  qed
  obtain r where r: "reduce_until_stable p user (i + 1) ?err (tok_column token) s3 = Some r"
    using loop_returns [OF ready(1,2) _ ok3] ready(3) ready_facts(5) [OF ready(1)] by metis
  have run: "delete_parse_token p user i token s = Some (case r of (r, s) \<Rightarrow> (case r of Inl e \<Rightarrow> Inl e | Inr _ \<Rightarrow> Inr (i + 1), s))"
    using q c1 r by (cases r) (simp add: delete_parse_token_def Let_def s3_def s2_def info_def split: sum.split)
  have "outcome r stop_ok (\<lambda>_ s'. session_steps p (i + 1) ?err (tok_column token) s3 s' \<and> stable p (i + 1) ?err s')"
    using loop_result [OF ready(1) _ ok3 r] ready(3) ready_facts(5) [OF ready(1)] by simp
  then have "outcome r stop_ok (\<lambda>_ s'. session_ok p s' \<and> current_column s' = i + 1 \<and> ps_diagnostics s' \<noteq> [])"
  proof (rule outcome_mono)
    fix s'
    assume "session_steps p (i + 1) ?err (tok_column token) s3 s' \<and> stable p (i + 1) ?err s'"
    then have steps: "session_steps p (i + 1) ?err (tok_column token) s3 s'" ..
    have "ps_diagnostics s' = ps_diagnostics s3" using steps_grow [OF steps] by (simp add: grows_def same_frame_def)
    then show "session_ok p s' \<and> current_column s' = i + 1 \<and> ps_diagnostics s' \<noteq> []"
      using steps_ok [OF ready(1) ok3 steps] ok3(2) cols(3) by simp
  qed
  then show ?thesis unfolding run by (cases r) (auto simp: outcome_def split: sum.splits)
qed

section \<open>The first session\<close>

lemma cold_session_nodes [simp]: "ps_nodes (cold_session st) = [gss_node_new 0 0 0]" "ps_edges (cold_session st) = []"
    "ps_columns (cold_session st) = [column_new None [0]]" "ps_diagnostics (cold_session st) = []" "ps_generation (cold_session st) = 1"
  by (simp_all add: cold_session_def gss_add_node_def gss_intern_def gss_new_def gss_nodes_def gss_edges_def split: prod.split)

lemma cold_session_ok: "lr_ready p h start \<Longrightarrow> session_ok p (cold_session st)" "current_column (cold_session st) = 0"
proof -
  obtain i g where add: "gss_intern (gss_node_new 0 0 0) gss_new = (i, g)" by fastforce
  have fresh: "length (gss_nodes gss_new) < usize_max" by (simp add: gss_new_ok usize_max_def)
  have gss: "ps_gss (cold_session st) = g" by (simp add: cold_session_def gss_add_node_def add)
  have "arena_fine g" using gss_intern_ok [OF gss_new_ok(1) fresh add] gss_intern_chunks [of "gss_node_new 0 0 0" gss_new] add
    by (simp add: arena_fine_def gss_new_ok isize_max_def) (simp add: gss_new_def)
  then show "session_ok p (cold_session st)" if "lr_ready p h start"
    using ready_facts(7) [OF that] gss
    by (auto simp: session_ok_def graph_ok_def gss_node_new_def state_list_ok_def column_new_def current_column_def)
qed (simp add: current_column_def)

end
