(* ===== verification/Session_Sound.thy ===== *)
theory Session_Sound
  imports Session_Tokens
begin

text \<open>
  What the nodes and edges of a clean session stand for: every node is the top of a stack that the
  machine of the tables reaches on the input read so far, and every edge is a run of the machine from
  any stack with the lower state on top. An accepted product therefore means an accepting run.
\<close>

section \<open>Runs behind the graph\<close>

definition edge_run :: "'b parser \<Rightarrow> terminal_id list \<Rightarrow> gss_node list \<Rightarrow> gss_edge \<Rightarrow> bool" where
  "edge_run p inp ns e \<longleftrightarrow> (\<exists>X. \<forall>stk. top_state stk = node_state ns (ge_to e) \<longrightarrow>
     (lr_step p)\<^sup>*\<^sup>* (stk, drop (node_column ns (ge_to e)) inp) ((X, node_state ns (ge_from e)) # stk, drop (node_column ns (ge_from e)) inp))"

definition reached :: "'b parser \<Rightarrow> terminal_id list \<Rightarrow> gss_node list \<Rightarrow> nat \<Rightarrow> bool" where
  "reached p inp ns v \<longleftrightarrow> (\<exists>stk. top_state stk = node_state ns v \<and> (lr_step p)\<^sup>*\<^sup>* ([], inp) (stk, drop (node_column ns v) inp))"

definition runs :: "'b parser \<Rightarrow> terminal_id list \<Rightarrow> gss_node list \<Rightarrow> gss_edge list \<Rightarrow> bool" where
  "runs p inp ns es \<longleftrightarrow> (\<forall>e \<in> set es. edge_run p inp ns e) \<and> (\<forall>v < length ns. reached p inp ns v)"

lemma reached_edge:
  assumes "edge_run p inp ns e" "reached p inp ns (ge_to e)" shows "reached p inp ns (ge_from e)"
proof -
  obtain stk where "top_state stk = node_state ns (ge_to e)" "(lr_step p)\<^sup>*\<^sup>* ([], inp) (stk, drop (node_column ns (ge_to e)) inp)"
    using assms(2) by (auto simp: reached_def)
  moreover from this(1) assms(1) obtain X where "(lr_step p)\<^sup>*\<^sup>* (stk, drop (node_column ns (ge_to e)) inp)
      ((X, node_state ns (ge_from e)) # stk, drop (node_column ns (ge_from e)) inp)" by (auto simp: edge_run_def)
  ultimately show ?thesis unfolding reached_def by (intro exI [of _ "(X, node_state ns (ge_from e)) # stk"]) (auto intro: rtranclp_trans)
qed

lemma runs_mono:
  assumes "runs p inp ns es" "graph_ok p ns es"
  shows "e \<in> set es \<Longrightarrow> edge_run p inp (ns @ ms) e" "v < length ns \<Longrightarrow> reached p inp (ns @ ms) v"
proof -
  assume "e \<in> set es"
  moreover from this have "ge_from e < length ns" "ge_to e < length ns" using assms(2) by (auto simp: graph_ok_def edge_ok_def)
  ultimately show "edge_run p inp (ns @ ms) e" using assms(1) by (auto simp: runs_def edge_run_def nth_append)
qed (use assms(1) in \<open>auto simp: runs_def reached_def nth_append\<close>)

text \<open>New nodes with an edge to an old node.\<close>

lemma runs_extend:
  assumes "runs p inp ns es" "graph_ok p ns es" "ns' = ns @ ms"
    and "\<And>e. e \<in> set es' \<Longrightarrow> e \<notin> set es \<Longrightarrow> edge_run p inp ns' e"
    and "\<And>v. length ns \<le> v \<Longrightarrow> v < length ns' \<Longrightarrow> \<exists>e. edge_run p inp ns' e \<and> ge_from e = v \<and> ge_to e < length ns"
  shows "runs p inp ns' es'"
  unfolding runs_def
proof (intro conjI ballI allI impI)
  fix e
  assume "e \<in> set es'"
  then show "edge_run p inp ns' e" using assms(4) runs_mono(1) [OF assms(1,2)] assms(3) by blast
next
  fix v
  assume v: "v < length ns'"
  show "reached p inp ns' v"
  proof (cases "v < length ns")
    case True
    then show ?thesis using runs_mono(2) [OF assms(1,2)] assms(3) by simp
  next
    case False
    then obtain e where "edge_run p inp ns' e" "ge_from e = v" "ge_to e < length ns" using assms(5) [of v] v by (auto simp: not_less)
    then show ?thesis using reached_edge runs_mono(2) [OF assms(1,2)] assms(3) by blast
  qed
qed

lemma path_run:
  assumes "\<forall>e \<in> set es. edge_run p inp ns e"
  shows "edge_path es v xs w \<Longrightarrow> top_state stk = node_state ns w \<Longrightarrow>
    \<exists>top. length top = length xs \<and> top_state (top @ stk) = node_state ns v \<and>
      (lr_step p)\<^sup>*\<^sup>* (stk, drop (node_column ns w) inp) (top @ stk, drop (node_column ns v) inp)"
proof (induction xs arbitrary: v)
  case (Cons e xs)
  have e: "e \<in> set es" "ge_from e = v" "edge_path es (ge_to e) xs w" using Cons.prems(1) by simp_all
  obtain top where top: "length top = length xs" "top_state (top @ stk) = node_state ns (ge_to e)"
      "(lr_step p)\<^sup>*\<^sup>* (stk, drop (node_column ns w) inp) (top @ stk, drop (node_column ns (ge_to e)) inp)"
    using Cons.IH [OF e(3) Cons.prems(2)] by blast
  obtain X where "(lr_step p)\<^sup>*\<^sup>* (top @ stk, drop (node_column ns (ge_to e)) inp)
      ((X, node_state ns v) # top @ stk, drop (node_column ns v) inp)"
    using assms e(1,2) top(2) by (fastforce simp: edge_run_def)
  then show ?case using top(1,3) by (intro exI [of _ "(X, node_state ns v) # top"]) (auto intro: rtranclp_trans)
qed auto

section \<open>Clean sessions\<close>

definition clean :: "'b parser \<Rightarrow> terminal_id list \<Rightarrow> nat \<Rightarrow> ('v, 'l) session \<Rightarrow> bool" where
  "clean p inp i s \<longleftrightarrow> runs p inp (ps_nodes s) (ps_edges s) \<and> i < length (ps_columns s) \<and>
     (\<forall>v \<in> set (pc_active (ps_columns s ! i)). node_column (ps_nodes s) v = i)"

text \<open>A stack that accepts.\<close>

definition accepting :: "'b parser \<Rightarrow> terminal_id list \<Rightarrow> nat \<Rightarrow> terminal_id \<Rightarrow> bool" where
  "accepting p inp i la \<longleftrightarrow> (\<exists>stk as. (lr_step p)\<^sup>*\<^sup>* ([], inp) (stk, drop i inp) \<and> action_set p (top_state stk) la = Some as \<and> Accept \<in> set as)"

lemma step_clean:
  assumes ready: "lr_ready p g start" and ok: "session_ok p s" "i = current_column s" and cl: "clean p inp i s"
    and step: "session_step p i (lookahead (drop i inp)) boundary s s'"
  shows "clean p inp i s' \<and> (pc_accepted (ps_columns s' ! i) \<noteq> [] \<longrightarrow> pc_accepted (ps_columns s ! i) \<noteq> [] \<or> accepting p inp i (lookahead (drop i inp)))"
  using step
proof cases
  case (step_reduce c v as q xs w to product u)
  let ?n = "gss_node_new to i (ps_generation s)" and ?e = "gss_edge_new u w product (ps_generation s)"
  have c: "i < length (ps_columns s)" "c = ps_columns s ! i" using step_reduce(1) by (simp_all add: column_at_Some)
  have graph: "graph_ok p (ps_nodes s) (ps_edges s)" using ok(1) by (simp add: session_ok_def)
  have v: "v < length (ps_nodes s)" "node_column (ps_nodes s) v = i" using ok(1) c step_reduce(2) cl by (auto simp: session_ok_def clean_def)
  note items = action_items(1) [OF ready graph v(1) step_reduce(3,4)]
  have g: "p_grammar p = g" using ready_facts(5) [OF ready] .
  have item: "LR1Item q (length xs + 0) (lookahead (drop i inp)) \<in> state_items p (node_state (ps_nodes s) v)"
    using items step_reduce(6) g by simp
  have w: "w < length (ps_nodes s)" "node_column (ps_nodes s) w \<le> i" using path_item [OF ready graph step_reduce(5) v(1) item] v(2) by simp_all
  obtain ms where ms: "ps_nodes s' = ps_nodes s @ ms" using add_new_grows step_reduce(11) by metis
  have u: "u < length (ps_nodes s')" "ps_nodes s' ! u = ?n" using step_reduce(10) by (auto simp: nth_opt_Some_iff)
  have goto: "goto_state p (node_state (ps_nodes s) w) (rule_lhs g q) = Some (Some to)"
    using ready_goto [OF ready node_known [OF graph w(1)] rule_lhs_bound [OF ready_facts(2) [OF ready] conjunct1 [OF conjunct2 [OF items]]]]
      step_reduce(7) g by simp
  have run: "edge_run p inp (ps_nodes s') ?e"
    unfolding edge_run_def
  proof (intro exI [of _ "N (rule_lhs g q)"] allI impI)
    fix stk
    assume "top_state stk = node_state (ps_nodes s') (ge_to ?e)"
    then have top: "top_state stk = node_state (ps_nodes s) w" using w(1) ms by (simp add: gss_edge_new_def nth_append)
    obtain stk' where stk': "length stk' = length xs" "top_state (stk' @ stk) = node_state (ps_nodes s) v"
        "(lr_step p)\<^sup>*\<^sup>* (stk, drop (node_column (ps_nodes s) w) inp) (stk' @ stk, drop i inp)"
      using path_run [of "ps_edges s" p inp "ps_nodes s", OF _ step_reduce(5) top] cl v(2) by (auto simp: clean_def runs_def)
    have "lr_step p (stk' @ stk, drop i inp) ((N (rule_lhs (p_grammar p) q), to) # drop (length xs) (stk' @ stk), drop i inp)"
      by (rule lr_reduce [OF _ step_reduce(4)]) (use stk' step_reduce(3,6) top goto g in simp_all)
    then show "(lr_step p)\<^sup>*\<^sup>* (stk, drop (node_column (ps_nodes s') (ge_to ?e)) inp)
        ((N (rule_lhs g q), node_state (ps_nodes s') (ge_from ?e)) # stk, drop (node_column (ps_nodes s') (ge_from ?e)) inp)"
      using stk' u w(1) ms g by (simp add: gss_edge_new_def gss_node_new_def nth_append rtranclp.rtrancl_into_rtrancl)
  qed
  have "runs p inp (ps_nodes s') (ps_edges s')"
  proof (rule runs_extend [OF _ graph ms])
    show "runs p inp (ps_nodes s) (ps_edges s)" using cl by (simp add: clean_def)
    show "edge_run p inp (ps_nodes s') e" if "e \<in> set (ps_edges s')" "e \<notin> set (ps_edges s)" for e
      using that run by (simp add: step_reduce(12))
    show "\<exists>e. edge_run p inp (ps_nodes s') e \<and> ge_from e = x \<and> ge_to e < length (ps_nodes s)"
      if x: "length (ps_nodes s) \<le> x" "x < length (ps_nodes s')" for x
    proof -
      have new: "x = length (ps_nodes s)" "ps_nodes s' = ps_nodes s @ [?n]" using x unfolding step_reduce(11) by (auto simp: add_new_def split: if_splits)
      have "?n \<notin> set (ps_nodes s)" using new(2) unfolding step_reduce(11) by (auto simp: add_new_def split: if_splits)
      then have "\<not> u < length (ps_nodes s)" using u(2) new(2) by (metis nth_append_left nth_mem)
      then have "u = x" using u(1) new by simp
      then show ?thesis using run w(1) by (intro exI [of _ ?e]) (simp add: gss_edge_new_def)
    qed
  qed
  moreover have "node_column (ps_nodes s') x = i" if "x \<in> set (pc_active c)" for x
  proof -
    have "x < length (ps_nodes s)" "node_column (ps_nodes s) x = i" using that ok(1) c cl by (auto simp: session_ok_def clean_def)
    then show ?thesis using ms by (simp add: nth_append)
  qed
  ultimately show ?thesis using c u by (auto simp: clean_def step_reduce(13) gss_node_new_def)
next
  case (step_accept c v as xs w product)
  have c: "i < length (ps_columns s)" "c = ps_columns s ! i" using step_accept(1) by (simp_all add: column_at_Some)
  have v: "v < length (ps_nodes s)" "node_column (ps_nodes s) v = i" using ok(1) c step_accept(2) cl by (auto simp: session_ok_def clean_def)
  then have "reached p inp (ps_nodes s) v" using cl by (simp add: clean_def runs_def)
  then have "accepting p inp i (lookahead (drop i inp))" using step_accept(3,4) v(2) by (force simp: reached_def accepting_def)
  then show ?thesis using cl c by (auto simp: clean_def step_accept(9,10))
qed

lemma steps_clean:
  assumes ready: "lr_ready p g start" and ok: "session_ok p s" "i = current_column s" and cl: "clean p inp i s" "pc_accepted (ps_columns s ! i) = []"
    and steps: "session_steps p i (lookahead (drop i inp)) boundary s s'"
  shows "clean p inp i s' \<and> (pc_accepted (ps_columns s' ! i) \<noteq> [] \<longrightarrow> accepting p inp i (lookahead (drop i inp)))"
  using steps
proof (induction rule: rtranclp_induct)
  case (step s1 s2)
  then show ?case using step_clean [OF ready _ _ _ step.hyps(2), of] steps_ok [OF ready ok step.hyps(1)] ok(2) by auto
qed (use cl in simp)

text \<open>Only the whole input is accepted.\<close>

lemma accepting_end:
  assumes ready: "lr_ready p g start" and eof: "EOF_TERMINAL \<notin> set ts" and i: "i \<le> Suc (length ts)"
    and acc: "accepting p (ts @ [EOF_TERMINAL]) i (lookahead (drop i (ts @ [EOF_TERMINAL])))"
  shows "i = Suc (length ts) \<and> accepts p ts"
proof -
  let ?inp = "ts @ [EOF_TERMINAL]"
  note f = ready_facts [OF ready]
  obtain stk as where run: "(lr_step p)\<^sup>*\<^sup>* ([], ?inp) (stk, drop i ?inp)" "action_set p (top_state stk) (lookahead (drop i ?inp)) = Some as"
      "Accept \<in> set as" using acc by (auto simp: accepting_def)
  have valid: "valid_stack p stk" "derives (grammar_rules g) (rev (map fst stk) @ map T (drop i ?inp)) (map T ?inp)"
    using steps_valid [OF ready run(1)] by simp_all
  have act: "lookahead (drop i ?inp) = EOF_TERMINAL" "\<exists>a. LR1Item 0 (length (rule_rhs g 0)) a \<in> state_items p (top_state stk)"
    using action_iff [OF ready valid_top [OF ready valid(1)] run(2)] run(3) f(3) by (auto simp: prescribed_def)
  show ?thesis
  proof (cases "i = Suc (length ts)")
    case True
    then show ?thesis using run by (auto simp: accepts_def lookahead_def)
  next
    case False
    show ?thesis
    proof (cases "i < length ts")
      case True
      then have "drop i ?inp = ts ! i # drop (Suc i) ?inp" using Cons_nth_drop_Suc [of i ?inp] by (simp add: nth_append)
      then have "ts ! i = EOF_TERMINAL" using act(1) by (simp add: lookahead_def)
      then show ?thesis using eof nth_mem [OF True] by simp
    next
      assume "\<not> i < length ts"
      then have end_: "drop i ?inp = [EOF_TERMINAL]" using i False by simp
      obtain a where "LR1Item 0 2 a \<in> state_items p (top_state stk)" using act(2) f(10) by (auto simp: numeral_2_eq_2)
      from stack_item [OF ready valid(1) this] have "2 \<le> length stk" "map fst (take 2 stk) = [T EOF_TERMINAL, N start]" by (simp_all add: f(10))
      then have "map fst stk = T EOF_TERMINAL # N start # map fst (drop 2 stk)"
        by (metis append_Cons append_Nil append_take_drop_id map_append)
      then have "rev (map fst stk) = (rev (map fst (drop 2 stk)) @ [N start]) @ [T EOF_TERMINAL]" by simp
      then obtain w where "derives (grammar_rules g) ((w @ [T EOF_TERMINAL]) @ [T EOF_TERMINAL]) (map T ts @ [T EOF_TERMINAL])"
        using valid(2) unfolding end_ by (metis append_assoc list.map(1) list.map(2) map_append)
      then obtain w' where w': "map T ts @ [T EOF_TERMINAL] = w' @ [T EOF_TERMINAL]" "derives (grammar_rules g) (w @ [T EOF_TERMINAL]) w'"
        using derives_snoc_terminal by blast
      then obtain w'' where "map T ts = w'' @ [T EOF_TERMINAL]" using derives_snoc_terminal [OF w'(2) refl] by auto
      then have "T EOF_TERMINAL \<in> set (map T ts)" by simp
      then show ?thesis using eof by auto
    qed
  qed
qed

section \<open>A shift stays clean\<close>

lemma shifted_clean:
  assumes ready: "lr_ready p g start" and ok: "session_ok p s" "i = current_column s" and cl: "clean p inp i s"
    and sh: "shifted p token i s s'" and tok: "i < length inp" "tok_terminal token = inp ! i"
  shows "clean p inp (i + 1) s'" "pc_accepted (ps_columns s' ! (i + 1)) = []"
proof -
  obtain c nx q s1 where c: "column_at i s = Some c" and sh1: "shifting p token i (pc_active c) s nx s1"
      and s': "s' = (open_column token nx q s1)\<lparr>ps_token_columns := (ps_token_columns s1)(tok_column token \<mapsto> i + 1)\<rparr>"
    using sh by (auto simp: shifted_def)
  have len: "length (ps_columns s) = i + 1" using ok by (auto simp: session_ok_def current_column_def)
  have cols: "ps_columns s' ! (i + 1) = (column_new (Some (tok_column token)) nx)\<lparr>pc_products := [q]\<rparr>"
      "length (ps_columns s') = i + 2" "ps_gss s' = ps_gss s1"
    using sh1 len nth_append_length [of "ps_columns s" _ "[]"] by (simp_all add: s' shifting_def)
  then show "pc_accepted (ps_columns s' ! (i + 1)) = []" by (simp add: column_new_def)
  have graph: "graph_ok p (ps_nodes s) (ps_edges s)" using ok(1) by (simp add: session_ok_def)
  obtain ms where ms: "ps_nodes s1 = ps_nodes s @ ms" "\<forall>n \<in> set ms. gn_column n = i + 1" using sh1 by (auto simp: shifting_def)
  have new_col: "node_column (ps_nodes s1) u = i + 1" if "u \<in> set nx" for u
  proof -
    have "length (ps_nodes s) \<le> u" "u < length (ps_nodes s1)" using that sh1 by (auto simp: shifting_def)
    then show ?thesis using ms by (auto simp: nth_append)
  qed
  have active: "v < length (ps_nodes s)" "node_column (ps_nodes s1) v = i" if "v \<in> set (pc_active c)" for v
  proof -
    show v: "v < length (ps_nodes s)" using that ok(1) c by (auto simp: session_ok_def column_at_Some)
    have "node_column (ps_nodes s) v = i" using that cl c by (simp add: clean_def column_at_Some)
    then show "node_column (ps_nodes s1) v = i" using v ms(1) by (simp add: nth_append)
  qed
  have shift: "edge_run p inp (ps_nodes s1) e" if e: "e \<in> set (ps_edges s1)" "ge_to e \<in> set (pc_active c)" "ge_from e \<in> set nx" for e
  proof -
    have "ge_from e \<ge> length (ps_nodes s)" using e(3) sh1 by (auto simp: shifting_def)
    then have "e \<notin> set (ps_edges s)" using graph by (auto simp: graph_ok_def edge_ok_def)
    then have "can_shift p (node_state (ps_nodes s1) (ge_to e)) (inp ! i) (node_state (ps_nodes s1) (ge_from e))"
      using sh1 e(1) tok(2) by (auto simp: shifting_def)
    then obtain as where as: "action_set p (node_state (ps_nodes s1) (ge_to e)) (inp ! i) = Some as" "Shift (node_state (ps_nodes s1) (ge_from e)) \<in> set as"
      by (auto simp: can_shift_def)
    have "lr_step p (stk, drop i inp) ((T (inp ! i), node_state (ps_nodes s1) (ge_from e)) # stk, drop (i + 1) inp)"
      if "top_state stk = node_state (ps_nodes s1) (ge_to e)" for stk
      using lr_shift [of p stk "inp ! i" as _ "drop (Suc i) inp"] as that Cons_nth_drop_Suc [OF tok(1)] by simp
    then show ?thesis using active(2) [OF e(2)] new_col [OF e(3)] by (auto simp: edge_run_def)
  qed
  have "runs p inp (ps_nodes s1) (ps_edges s1)"
  proof (rule runs_extend [OF _ graph ms(1)])
    show "runs p inp (ps_nodes s) (ps_edges s)" using cl by (simp add: clean_def)
    show "edge_run p inp (ps_nodes s1) e" if "e \<in> set (ps_edges s1)" "e \<notin> set (ps_edges s)" for e
      using that shift [OF that(1)] sh1 by (auto simp: shifting_def)
    show "\<exists>e. edge_run p inp (ps_nodes s1) e \<and> ge_from e = x \<and> ge_to e < length (ps_nodes s)"
      if "length (ps_nodes s) \<le> x" "x < length (ps_nodes s1)" for x
    proof -
      have x: "x \<in> set nx" using that sh1 by (simp add: shifting_def)
      then obtain e where "e \<in> set (ps_edges s1)" "ge_from e = x" "ge_to e \<in> set (pc_active c)" using sh1 unfolding shifting_def by blast
      then show ?thesis using shift [of e] x active(1) by blast
    qed
  qed
  then show "clean p inp (i + 1) s'" using cols new_col by (simp add: clean_def column_new_def)
qed

end
