(* ===== verification/Session_Language.thy ===== *)
theory Session_Language
  imports Session_Sound
begin

text \<open>
  The graph represents every stack of the machine: a stable column holds all stacks that the machine
  reaches on the input read so far, and a shift carries them over. With the soundness of the graph, a
  cold parse accepts without diagnostics exactly the strings that the tables accept.
\<close>

section \<open>Stacks in the graph\<close>

fun spells :: "gss_node list \<Rightarrow> gss_edge list \<Rightarrow> nat \<Rightarrow> lr_stack \<Rightarrow> bool" where
  "spells ns es v [] = (node_state ns v = 0)"
| "spells ns es v ((X, s) # stk) = (node_state ns v = s \<and> (\<exists>e \<in> set es. ge_from e = v \<and> spells ns es (ge_to e) stk))"

lemma spells_top: "spells ns es v stk \<Longrightarrow> top_state stk = node_state ns v"
  by (cases stk) auto

lemma spells_path: "spells ns es v stk \<Longrightarrow> n \<le> length stk \<Longrightarrow> \<exists>xs w. edge_path es v xs w \<and> length xs = n \<and> spells ns es w (drop n stk)"
proof (induction stk arbitrary: v n)
  case (Cons x stk)
  show ?case
  proof (cases n)
    case 0
    then show ?thesis using Cons.prems(1) by (intro exI [of _ "[]"] exI [of _ v]) simp
  next
    case (Suc m)
    obtain e where e: "e \<in> set es" "ge_from e = v" "spells ns es (ge_to e) stk" using Cons.prems(1) by (cases x) auto
    obtain xs w where "edge_path es (ge_to e) xs w" "length xs = m" "spells ns es w (drop m stk)" using Cons.IH [OF e(3), of m] Cons.prems(2) Suc by auto
    then show ?thesis using e(1,2) Suc by (intro exI [of _ "e # xs"] exI [of _ w]) simp
  qed
qed auto

lemma spells_mono:
  "spells ns es v stk \<Longrightarrow> v < length ns \<Longrightarrow> graph_ok p ns es \<Longrightarrow> set es \<subseteq> set es' \<Longrightarrow> spells (ns @ ms) es' v stk"
proof (induction stk arbitrary: v)
  case (Cons x stk)
  obtain e where e: "e \<in> set es" "ge_from e = v" "spells ns es (ge_to e) stk" "node_state ns v = snd x" using Cons.prems(1) by (cases x) auto
  then have "ge_to e < length ns" using Cons.prems(3) by (auto simp: graph_ok_def edge_ok_def)
  from Cons.IH [OF e(3) this Cons.prems(3,4)] show ?case using e Cons.prems(2,4) by (cases x) (auto simp: nth_append)
qed (simp add: nth_append)

definition represented :: "('v, 'l) session \<Rightarrow> nat \<Rightarrow> lr_stack \<Rightarrow> bool" where
  "represented s i stk \<longleftrightarrow> (\<exists>v \<in> set (pc_active (ps_columns s ! i)). spells (ps_nodes s) (ps_edges s) v stk)"

text \<open>The stacks that open a column.\<close>

fun seeds :: "'b parser \<Rightarrow> terminal_id list \<Rightarrow> nat \<Rightarrow> lr_stack set" where
  "seeds p inp 0 = {[]}"
| "seeds p inp (Suc i) = {(T (inp ! i), to) # stk | stk to. (lr_step p)\<^sup>*\<^sup>* ([], inp) (stk, drop i inp) \<and> can_shift p (top_state stk) (inp ! i) to}"

abbreviation seeded :: "'b parser \<Rightarrow> terminal_id list \<Rightarrow> nat \<Rightarrow> ('v, 'l) session \<Rightarrow> bool" where
  "seeded p inp i s \<equiv> \<forall>stk \<in> seeds p inp i. represented s i stk"

section \<open>Runs and their shifts\<close>

lemma drop_Cons_facts: "drop k xs = x # rest \<Longrightarrow> k < length xs \<and> x = xs ! k \<and> rest = drop (Suc k) xs"
  by (metis Cons_nth_drop_Suc drop_all list.distinct(1) list.inject not_less)

lemma drop_same: "drop i xs = drop j xs \<Longrightarrow> i \<le> length xs \<Longrightarrow> j \<le> length xs \<Longrightarrow> i = j"
  by (metis diff_diff_cancel length_drop)

lemma run_suffix: "(lr_step p)\<^sup>*\<^sup>* ([], inp) (stk, rest) \<Longrightarrow> \<exists>k \<le> length inp. rest = drop k inp"
proof (induction "(stk, rest)" arbitrary: stk rest rule: rtranclp_induct)
  case base
  then show ?case by (intro exI [of _ 0]) simp
next
  case (step y)
  obtain stk1 r1 where y: "y = (stk1, r1)" by fastforce
  obtain k where k: "k \<le> length inp" "r1 = drop k inp" using step.hyps(3) [OF y] by blast
  from step.hyps(2) [unfolded y] show ?case
  proof cases
    case (lr_shift t as s)
    have "drop k inp = t # rest" using lr_shift(1) k(2) by simp
    then have "k < length inp \<and> rest = drop (Suc k) inp" using drop_Cons_facts [of k inp t rest] by simp
    then show ?thesis by (intro exI [of _ "Suc k"]) simp
  next
    case (lr_reduce as q n s)
    then show ?thesis using k by blast
  qed
qed

lemma run_shifts:
  "(lr_step p)\<^sup>*\<^sup>* ([], inp) (stk, rest) \<Longrightarrow> i + length rest < length inp \<Longrightarrow>
   \<exists>stk' to. (lr_step p)\<^sup>*\<^sup>* ([], inp) (stk', drop i inp) \<and> can_shift p (top_state stk') (inp ! i) to"
proof (induction "(stk, rest)" arbitrary: stk rest rule: rtranclp_induct)
  case (step y)
  obtain stk1 r1 where y: "y = (stk1, r1)" by fastforce
  from step.hyps(2) [unfolded y] show ?case
  proof cases
    case (lr_shift t as s)
    show ?thesis
    proof (cases "i + length r1 < length inp")
      case False
      obtain k where k: "k \<le> length inp" "r1 = drop k inp" using run_suffix step.hyps(1) y by blast
      have t: "k < length inp" "t = inp ! k" "rest = drop (Suc k) inp" using lr_shift(1) k(2) drop_Cons_facts [of k inp t rest] by simp_all
      then have "i = k" using False step.prems k by simp
      moreover from this t have "i < length inp" "t = inp ! i" by simp_all
      ultimately show ?thesis using step.hyps(1) y k(2) lr_shift(3,4) by (auto simp: can_shift_def)
    qed (use step.hyps(3) [OF y] in blast)
  next
    case (lr_reduce as q n s)
    then show ?thesis using step.hyps(3) [OF y] step.prems by blast
  qed
qed simp

section \<open>A stable column holds every stack\<close>

lemma stable_represents:
  assumes ready: "lr_ready p g start" and ok: "session_ok p s" "i < length (ps_columns s)"
    and st: "stable p i (lookahead (drop i inp)) s" and seed: "seeded p inp i s" and i: "i \<le> length inp"
  shows "(lr_step p)\<^sup>*\<^sup>* ([], inp) (stk, drop i inp) \<Longrightarrow> represented s i stk"
proof (induction "(stk, drop i inp)" arbitrary: stk rule: rtranclp_induct)
  case base
  have "drop i inp = drop 0 inp" using base by (metis drop_0)
  then have "i = 0" using drop_same i by blast
  then show ?case using seed by simp
next
  case (step y)
  obtain stk1 r1 where y: "y = (stk1, r1)" by fastforce
  obtain c where c: "column_at i s = Some c" "c = ps_columns s ! i" using ok(2) by (simp add: column_at_def)
  have graph: "graph_ok p (ps_nodes s) (ps_edges s)" using ok(1) by (simp add: session_ok_def)
  note g = ready_facts(5) [OF ready]
  from step.hyps(2) [unfolded y] show ?case
  proof cases
    case (lr_shift t as to)
    obtain k where k: "k \<le> length inp" "r1 = drop k inp" using run_suffix step.hyps(1) y by blast
    have t: "k < length inp" "t = inp ! k" "drop i inp = drop (Suc k) inp" using lr_shift(1) k(2) drop_Cons_facts [of k inp t "drop i inp"] by simp_all
    then have "i = Suc k" using drop_same [of i inp "Suc k"] i by simp
    moreover note t(2)
    ultimately have "stk \<in> seeds p inp i" using step.hyps(1) y k(2) lr_shift(2-4) by (auto simp: can_shift_def)
    then show ?thesis using seed by blast
  next
    case (lr_reduce as q n to)
    have r1: "r1 = drop i inp" using lr_reduce(2) by simp
    have rep: "represented s i stk1" using step.hyps(3) y r1 by simp
    then obtain v where v: "v \<in> set (pc_active c)" "spells (ps_nodes s) (ps_edges s) v stk1" by (auto simp: represented_def c(2))
    obtain xs w where path: "edge_path (ps_edges s) v xs w" "length xs = n" "spells (ps_nodes s) (ps_edges s) w (drop n stk1)"
      using spells_path [OF v(2) lr_reduce(6)] by blast
    have top: "top_state stk1 = node_state (ps_nodes s) v" "top_state (drop n stk1) = node_state (ps_nodes s) w"
      using spells_top v(2) path(3) by blast+
    have vlen: "v < length (ps_nodes s)" using ok(1) c v(1) ok(2) by (auto simp: session_ok_def)
    have item: "LR1Item q (length (rule_rhs g q)) (lookahead (drop i inp)) \<in> state_items p (node_state (ps_nodes s) v)" "q < length (grammar_rules g)"
      using action_items(1) [OF ready graph vlen] lr_reduce(3,4) top(1) unfolding r1 by auto
    have wlen: "w < length (ps_nodes s)" using path_item [OF ready graph path(1) vlen, of q 0] item path(2) lr_reduce(5) g by auto
    have "settled_action p i s v (Reduce q)" using st c v(1) lr_reduce(3,4) top(1) unfolding r1 stable_def settled_node_def by metis
    then have "present p i s q w" using path(1,2) lr_reduce(5) by (auto simp: settled_action_def)
    then obtain u to' product where u: "next_state p (node_state (ps_nodes s) w) (N (rule_lhs g q)) = Some to'"
        "nth_opt (ps_nodes s) u = Some (gss_node_new to' i (ps_generation s))" "u \<in> set (pc_active c)"
        "gss_edge_new u w product (ps_generation s) \<in> set (ps_edges s)" using c(2) g by (auto simp: present_def)
    have "goto_state p (node_state (ps_nodes s) w) (rule_lhs g q) = Some (Some to')"
      using ready_goto [OF ready node_known [OF graph wlen] rule_lhs_bound [OF ready_facts(2) [OF ready] item(2)]] u(1) by simp
    then have "to' = to" using lr_reduce(7) top(2) g by simp
    then have "node_state (ps_nodes s) u = to" using u(2) by (simp add: nth_opt_Some_iff gss_node_new_def) (metis gss_node.select_convs(1))
    then have "spells (ps_nodes s) (ps_edges s) u stk"
      using lr_reduce(1) u(4) path(3) by (auto simp: gss_edge_new_def intro!: bexI [of _ "gss_edge_new u w product (ps_generation s)"])
    then show ?thesis using u(3) c(2) by (auto simp: represented_def)
  qed
qed

lemma shifted_seeds:
  assumes ok: "session_ok p s" "i = current_column s" and sh: "shifted p token i s s'" "tok_terminal token = inp ! i"
    and rep: "\<And>stk. (lr_step p)\<^sup>*\<^sup>* ([], inp) (stk, drop i inp) \<Longrightarrow> represented s i stk"
  shows "seeded p inp (i + 1) s'"
proof
  fix stk
  assume "stk \<in> seeds p inp (i + 1)"
  then obtain stk1 to where stk: "stk = (T (inp ! i), to) # stk1" "(lr_step p)\<^sup>*\<^sup>* ([], inp) (stk1, drop i inp)"
      "can_shift p (top_state stk1) (inp ! i) to" by auto
  obtain c nx q s1 where c: "column_at i s = Some c" and sh1: "shifting p token i (pc_active c) s nx s1"
      "shifts_done p token s s1 nx (pc_active c)"
      and s': "s' = (open_column token nx q s1)\<lparr>ps_token_columns := (ps_token_columns s1)(tok_column token \<mapsto> i + 1)\<rparr>"
    using sh by (auto simp: shifted_def)
  obtain v where v: "v \<in> set (pc_active c)" "spells (ps_nodes s) (ps_edges s) v stk1"
    using rep [OF stk(2)] c by (auto simp: represented_def column_at_Some)
  have "shifted_from s1 nx v to"
    using sh1(2) v(1) stk(3) sh(2) spells_top [OF v(2)] by (auto simp: shifts_done_def)
  then obtain u e where u: "u \<in> set nx" "node_state (ps_nodes s1) u = to" "e \<in> set (ps_edges s1)" "ge_from e = u" "ge_to e = v"
    by (auto simp: shifted_from_def)
  obtain ms where ms: "ps_nodes s1 = ps_nodes s @ ms" "set (ps_edges s) \<subseteq> set (ps_edges s1)" using sh1(1) by (auto simp: shifting_def)
  have vlen: "v < length (ps_nodes s)" using ok(1) c v(1) by (auto simp: session_ok_def column_at_Some)
  have "graph_ok p (ps_nodes s) (ps_edges s)" using ok(1) by (simp add: session_ok_def)
  from spells_mono [OF v(2) vlen this ms(2)] have "spells (ps_nodes s1) (ps_edges s1) v stk1" by (simp add: ms(1))
  then have spell: "spells (ps_nodes s1) (ps_edges s1) u stk" using u by (auto simp: stk(1))
  have len: "length (ps_columns s) = i + 1" using ok by (auto simp: session_ok_def current_column_def)
  have "pc_active (ps_columns s' ! (i + 1)) = nx" "ps_gss s' = ps_gss s1"
    using sh1(1) len nth_append_length [of "ps_columns s" _ "[]"] by (simp_all add: s' shifting_def column_new_def)
  then show "represented s' (i + 1) stk" using spell u(1) by (auto simp: represented_def)
qed

section \<open>The parse\<close>

text \<open>The loop under a lookahead returns; it stops for a legitimate reason or leaves a stable column.\<close>

lemma loop_outcome:
  assumes "lr_ready p g start" "noncyclic (grammar_rules g)" "la \<in> g_terminal_ids g" "session_ok p s" "i = current_column s"
  shows "\<exists>r. reduce_until_stable p user i la boundary s = Some r \<and> outcome r stop_ok (\<lambda>_ s'. session_steps p i la boundary s s' \<and>
    stable p i la s' \<and> session_ok p s' \<and> current_column s' = i \<and> ps_diagnostics s' = ps_diagnostics s)"
proof -
  obtain r where r: "reduce_until_stable p user i la boundary s = Some r" using loop_returns [OF assms] by blast
  have "outcome r stop_ok (\<lambda>_ s'. session_steps p i la boundary s s' \<and>
    stable p i la s' \<and> session_ok p s' \<and> current_column s' = i \<and> ps_diagnostics s' = ps_diagnostics s)"
  proof (rule outcome_mono [OF loop_result [OF assms(1,3,4,5) r]])
    fix s'
    assume st: "session_steps p i la boundary s s' \<and> stable p i la s'"
    then have "session_steps p i la boundary s s'" ..
    from steps_ok [OF assms(1,4,5) this] steps_grow [OF this] show "session_steps p i la boundary s s' \<and>
        stable p i la s' \<and> session_ok p s' \<and> current_column s' = i \<and> ps_diagnostics s' = ps_diagnostics s"
      using st assms(5) by (simp add: grows_def same_frame_def)
  qed
  then show ?thesis using r by blast
qed

text \<open>Between tokens. A session with a diagnostic has lost; one without holds every stack.\<close>

definition in_step :: "'b parser \<Rightarrow> terminal_id list \<Rightarrow> nat \<Rightarrow> ('v, 'l) session \<Rightarrow> bool" where
  "in_step p ts i s \<longleftrightarrow> session_ok p s \<and> current_column s = i \<and> (if ps_diagnostics s = []
     then clean p (ts @ [EOF_TERMINAL]) i s \<and> seeded p (ts @ [EOF_TERMINAL]) i s \<and> pc_accepted (ps_columns s ! i) = []
     else \<not> accepts p ts)"

definition verdict :: "'b parser \<Rightarrow> terminal_id list \<Rightarrow> ('v, 'l) session \<Rightarrow> bool" where
  "verdict p ts s \<longleftrightarrow> ((session_accepted s \<noteq> [] \<and> ps_diagnostics s = []) \<longleftrightarrow> accepts p ts)"

lemma session_accepted_nth: "session_ok p s \<Longrightarrow> session_accepted s = pc_accepted (ps_columns s ! current_column s)"
  by (auto simp: session_ok_def session_accepted_def current_column_def last_conv_nth split: list.split)

lemma lookahead_drop: "i < length inp \<Longrightarrow> lookahead (drop i inp) = inp ! i"
  by (simp add: lookahead_def Cons_nth_drop_Suc [symmetric])

lemma steps_seeded:
  assumes ok: "session_ok p s" "i = current_column s" and seed: "seeded p inp i s" and steps: "session_steps p i la boundary s s'"
  shows "seeded p inp i s'"
proof
  fix stk
  assume "stk \<in> seeds p inp i"
  then obtain v where v: "v \<in> set (pc_active (ps_columns s ! i))" "spells (ps_nodes s) (ps_edges s) v stk" using seed by (auto simp: represented_def)
  have len: "i < length (ps_columns s)" using ok by (simp add: session_ok_def current_column_def)
  have "v < length (ps_nodes s)" "graph_ok p (ps_nodes s) (ps_edges s)" using ok(1) v(1) len by (auto simp: session_ok_def)
  note known = this
  have grow: "grows s s'" by (rule steps_grow [OF steps])
  then obtain ns where ns: "ps_nodes s' = ps_nodes s @ ns" by (auto simp: grows_def)
  have "spells (ps_nodes s') (ps_edges s') v stk" unfolding ns by (rule spells_mono [OF v(2) known]) (use grow in \<open>simp add: grows_def\<close>)
  moreover have "v \<in> set (pc_active (ps_columns s' ! i))" using grow v(1) len by (auto simp: grows_def)
  ultimately show "represented s' i stk" by (auto simp: represented_def)
qed

text \<open>After the end of the input.\<close>

lemma last_column_verdict:
  assumes ready: "lr_ready p g start" and eof: "EOF_TERMINAL \<notin> set ts" and n: "n = Suc (length ts)"
    and ok: "session_ok p s" "n = current_column s" and cl: "clean p (ts @ [EOF_TERMINAL]) n s" "seeded p (ts @ [EOF_TERMINAL]) n s"
    "pc_accepted (ps_columns s ! n) = []"
    and steps: "session_steps p n EOF_TERMINAL boundary s s'" and st: "stable p n EOF_TERMINAL s'"
  shows "pc_accepted (ps_columns s' ! n) \<noteq> [] \<longleftrightarrow> accepts p ts"
proof
  let ?inp = "ts @ [EOF_TERMINAL]"
  have rest: "drop n ?inp = []" "lookahead (drop n ?inp) = EOF_TERMINAL" using n by (simp_all add: lookahead_def)
  assume "pc_accepted (ps_columns s' ! n) \<noteq> []"
  then show "accepts p ts" using steps_clean [OF ready ok cl(1,3)] steps accepting_end [OF ready eof, of n] n unfolding rest(2) by auto
next
  let ?inp = "ts @ [EOF_TERMINAL]"
  have rest: "drop n ?inp = []" "lookahead (drop n ?inp) = EOF_TERMINAL" using n by (simp_all add: lookahead_def)
  assume "accepts p ts"
  then obtain stk as where acc: "(lr_step p)\<^sup>*\<^sup>* ([], ?inp) (stk, [])" "action_set p (top_state stk) EOF_TERMINAL = Some as" "Accept \<in> set as"
    by (auto simp: accepts_def)
  have ok': "session_ok p s'" "n = current_column s'" using steps_ok [OF ready ok steps] ok(2) by simp_all
  then have len: "n < length (ps_columns s')" by (simp add: session_ok_def current_column_def)
  have "represented s' n stk"
    by (rule stable_represents [OF ready ok'(1) len _ steps_seeded [OF ok cl(2) steps]]) (use st rest n acc(1) in simp_all)
  then obtain v where v: "v \<in> set (pc_active (ps_columns s' ! n))" "spells (ps_nodes s') (ps_edges s') v stk" by (auto simp: represented_def)
  have vlen: "v < length (ps_nodes s')" "graph_ok p (ps_nodes s') (ps_edges s')" using ok'(1) v(1) len by (auto simp: session_ok_def)
  have top: "top_state stk = node_state (ps_nodes s') v" by (rule spells_top [OF v(2)])
  obtain a where "LR1Item 0 (length (rule_rhs g 0)) a \<in> state_items p (top_state stk)"
    using action_items(2) [OF ready vlen(2,1)] acc(2,3) unfolding top by blast
  then have "length (rule_rhs g 0) \<le> length stk" using stack_item [OF ready] steps_valid [OF ready acc(1)] by simp
  then obtain xs w where "edge_path (ps_edges s') v xs w" "length xs = length (rule_rhs g 0)" using spells_path [OF v(2)] by blast
  moreover have "settled_action p n s' v Accept"
    using st v(1) len acc(2,3) unfolding top stable_def settled_node_def by (simp add: column_at_Some)
  ultimately show "pc_accepted (ps_columns s' ! n) \<noteq> []" using ready_facts(5) [OF ready] by (auto simp: settled_action_def)
qed

lemma steps_in_step:
  assumes ready: "lr_ready p g start" and eof: "EOF_TERMINAL \<notin> set ts" and i: "i \<le> length ts"
    and inv: "in_step p ts i s" and la: "la = lookahead (drop i (ts @ [EOF_TERMINAL]))"
    and steps: "session_steps p i la boundary s s'" "ps_diagnostics s' = ps_diagnostics s" "session_ok p s'" "current_column s' = i"
  shows "in_step p ts i s'"
proof (cases "ps_diagnostics s = []")
  case True
  let ?inp = "ts @ [EOF_TERMINAL]"
  have s: "session_ok p s" "i = current_column s" "clean p ?inp i s" "seeded p ?inp i s" "pc_accepted (ps_columns s ! i) = []"
    using inv True by (simp_all add: in_step_def)
  have cl: "clean p ?inp i s'" "pc_accepted (ps_columns s' ! i) \<noteq> [] \<longrightarrow> accepting p ?inp i la"
    using steps_clean [OF ready s(1-3,5)] steps(1) la by simp_all
  have "pc_accepted (ps_columns s' ! i) = []" using cl(2) accepting_end [OF ready eof, of i] i unfolding la by auto
  moreover have "seeded p ?inp i s'" by (rule steps_seeded [OF s(1,2,4) steps(1)])
  ultimately show ?thesis using cl(1) True steps by (simp add: in_step_def)
qed (use inv steps in \<open>simp add: in_step_def\<close>)

text \<open>A stuck shift loses the input.\<close>

lemma stuck_rejects:
  assumes ready: "lr_ready p g start" and ok: "session_ok p s" "i = current_column s" and tok: "tok_terminal token = (ts @ [EOF_TERMINAL]) ! i"
    and i: "i \<le> length ts" and rep: "\<And>stk. (lr_step p)\<^sup>*\<^sup>* ([], ts @ [EOF_TERMINAL]) (stk, drop i (ts @ [EOF_TERMINAL])) \<Longrightarrow> represented s i stk"
    and st: "stuck p token i s s'"
  shows "\<not> accepts p ts"
proof
  assume "accepts p ts"
  then obtain stk where "(lr_step p)\<^sup>*\<^sup>* ([], ts @ [EOF_TERMINAL]) (stk, [])" by (auto simp: accepts_def)
  from run_shifts [OF this, of i] i obtain stk' to where run: "(lr_step p)\<^sup>*\<^sup>* ([], ts @ [EOF_TERMINAL]) (stk', drop i (ts @ [EOF_TERMINAL]))"
      "can_shift p (top_state stk') ((ts @ [EOF_TERMINAL]) ! i) to" by auto
  obtain v where "v \<in> set (pc_active (ps_columns s ! i))" "spells (ps_nodes s) (ps_edges s) v stk'" using rep [OF run(1)] by (auto simp: represented_def)
  then show False using st run(2) tok spells_top by (fastforce simp: stuck_def column_at_Some)
qed

lemma replay_token_outcome:
  assumes ready: "lr_ready p g start" "noncyclic (grammar_rules g)" "g_error_terminal g \<in> g_terminal_ids g"
    and eof: "EOF_TERMINAL \<notin> set ts" and i: "i \<le> length ts" and tok: "tok_terminal token = (ts @ [EOF_TERMINAL]) ! i"
    and t: "tok_terminal token \<in> g_terminal_ids g" "tok_terminal token \<noteq> g_error_terminal g" and inv: "in_step p ts i s"
  shows "\<exists>r. replay_token p user token s = Some r \<and>
    outcome r stop_ok (\<lambda>b s'. if b \<or> i = length ts then verdict p ts s' else in_step p ts (Suc i) s')"
proof -
  let ?inp = "ts @ [EOF_TERMINAL]" and ?la = "tok_terminal token" and ?b = "tok_column token"
  let ?Q = "\<lambda>b s'. if b \<or> i = length ts then verdict p ts s' else in_step p ts (Suc i) s'"
  have g: "p_grammar p = g" "g_eof g = EOF_TERMINAL" using ready_facts [OF ready(1)] by simp_all
  have la: "?la = lookahead (drop i ?inp)" using lookahead_drop [of i ?inp] tok i by (simp del: drop_append)
  have "i < length ts \<Longrightarrow> ts ! i \<noteq> EOF_TERMINAL" using eof nth_mem by metis
  then have eof_iff: "?la = EOF_TERMINAL \<longleftrightarrow> i = length ts" using tok i by (cases "i = length ts") (simp_all add: nth_append)
  have s: "session_ok p s" "i = current_column s" using inv by (simp_all add: in_step_def)
  obtain r1 s1 where loop: "reduce_until_stable p user i ?la ?b s = Some (r1, s1)" and
      out: "outcome (r1, s1) stop_ok (\<lambda>_ s'. session_steps p i ?la ?b s s' \<and> stable p i ?la s' \<and> session_ok p s' \<and>
        current_column s' = i \<and> ps_diagnostics s' = ps_diagnostics s)"
    using loop_outcome [OF ready(1,2) t(1) s, of user ?b, unfolded split_paired_Ex] by blast
  show ?thesis
  proof (cases r1)
    case (Inl e)
    then show ?thesis using loop out s(2) by (simp add: replay_token_def Let_def)
  next
    case (Inr unit)
    then have s1: "session_steps p i ?la ?b s s1" "stable p i ?la s1" "session_ok p s1" "i = current_column s1" "ps_diagnostics s1 = ps_diagnostics s"
      using out by simp_all
    have inv1: "in_step p ts i s1" by (rule steps_in_step [OF ready(1) eof i inv la s1(1,5,3)]) (use s1(4) in simp)
    have rep: "represented s1 i stk" if "ps_diagnostics s1 = []" "(lr_step p)\<^sup>*\<^sup>* ([], ?inp) (stk, drop i ?inp)" for stk
      by (rule stable_represents [OF ready(1) s1(3) _ _ _ _ that(2)]) (use inv1 that(1) s1(2) la i in \<open>simp_all add: in_step_def clean_def\<close>)
    show ?thesis
    proof (cases "?la = g_eof (p_grammar p) \<and> session_accepted s1 \<noteq> []")
      case True
      then have "ps_diagnostics s1 \<noteq> []" using inv1 session_accepted_nth [OF s1(3)] s1(4) by (auto simp: in_step_def)
      then have "verdict p ts s1" using inv1 by (auto simp: verdict_def in_step_def)
      then show ?thesis using loop True Inr s(2) by (simp add: replay_token_def Let_def)
    next
      case False
      obtain r2 s2 where shift: "shift_parse_token p user i token s1 = Some (r2, s2)"
          and out2: "outcome (r2, s2) (shift_stop p token i s1) (\<lambda>to s'. to = i + 1 \<and> shifted p token i s1 s')"
        using shift_token_outcome [OF ready(1) s1(3,4) t, unfolded split_paired_Ex] by blast
      show ?thesis
      proof (cases r2)
        case (Inl e)
        consider "e = Panicked" "gss_full s2" | "e = Failed (NoActiveStacks (Some ?b))" "stuck p token i s1 s2"
          using out2 Inl by (auto simp: shift_stop_def)
        then show ?thesis
        proof cases
          case 1
          then show ?thesis using loop False \<open>r1 = Inr unit\<close> s(2) shift Inl by (auto simp: replay_token_def Let_def)
        next
          case 2
          have s2: "session_ok p s2" "i = current_column s2" using 2(2) s1(4) by (simp_all add: stuck_def current_column_def)
          have lost: "\<not> accepts p ts"
          proof (cases "ps_diagnostics s1 = []")
            case True
            show ?thesis by (rule stuck_rejects [OF ready(1) s1(3,4) tok i rep [OF True] 2(2)])
          qed (use inv1 in \<open>simp add: in_step_def\<close>)
          obtain r3 s3 where del: "delete_parse_token p user i token s2 = Some (r3, s3)"
              and out3: "outcome (r3, s3) stop_ok (\<lambda>_ s'. session_ok p s' \<and> current_column s' = i + 1 \<and> ps_diagnostics s' \<noteq> [])"
            using delete_token_outcome [OF ready s2, unfolded split_paired_Ex] by blast
          have "replay_token p user token s = Some (case r3 of Inl e \<Rightarrow> Inl e | Inr _ \<Rightarrow> Inr False, s3)"
            using loop False \<open>r1 = Inr unit\<close> s(2) shift Inl 2(1) del by (auto simp: replay_token_def Let_def)
          moreover have "outcome (case r3 of Inl e \<Rightarrow> Inl e | Inr _ \<Rightarrow> Inr False, s3) stop_ok ?Q"
            using out3 lost by (cases r3) (auto simp: verdict_def in_step_def)
          ultimately show ?thesis by blast
        qed
      next
        case (Inr to)
        then have sh: "shifted p token i s1 s2" using out2 by simp
        note sok = shifted_ok [OF ready(1) s1(3,4) sh]
        have inv2: "in_step p ts i s1 \<and> session_ok p s2 \<and> current_column s2 = Suc i \<and> (if ps_diagnostics s2 = []
            then clean p ?inp (Suc i) s2 \<and> seeded p ?inp (Suc i) s2 \<and> pc_accepted (ps_columns s2 ! Suc i) = [] else \<not> accepts p ts)"
        proof (cases "ps_diagnostics s2 = []")
          case True
          then have d: "ps_diagnostics s1 = []" using sok(3) by simp
          then have "clean p ?inp i s1" using inv1 by (simp add: in_step_def)
          from shifted_clean [OF ready(1) s1(3,4) this sh, of] shifted_seeds [OF s1(3,4) sh tok rep [OF d]]
          show ?thesis using inv1 sok True i tok by simp
        next
          case False
          then show ?thesis using inv1 sok by (simp add: in_step_def)
        qed
        show ?thesis
        proof (cases "i = length ts")
          case True
          then have la_eof: "?la = g_eof (p_grammar p)" using eof_iff g by simp
          obtain r3 s3 where loop3: "reduce_until_stable p user (Suc i) ?la ?b s2 = Some (r3, s3)" and
              out3: "outcome (r3, s3) stop_ok (\<lambda>_ s'. session_steps p (Suc i) ?la ?b s2 s' \<and> stable p (Suc i) ?la s' \<and> session_ok p s' \<and>
                current_column s' = Suc i \<and> ps_diagnostics s' = ps_diagnostics s2)"
            using loop_outcome [OF ready(1,2) t(1) conjunct1 [OF conjunct2 [OF inv2]] sok(2) [symmetric], of user ?b, unfolded split_paired_Ex] by (simp, blast)
          have "verdict p ts s3" if s3: "session_steps p (Suc i) ?la ?b s2 s3" "stable p (Suc i) ?la s3" "session_ok p s3"
              "current_column s3 = Suc i" "ps_diagnostics s3 = ps_diagnostics s2"
          proof (cases "ps_diagnostics s2 = []")
            case clean2: True
            have "pc_accepted (ps_columns s3 ! Suc i) \<noteq> [] \<longleftrightarrow> accepts p ts"
              by (rule last_column_verdict [OF ready(1) eof, of "Suc i" s2 ?b]) (use inv2 clean2 True s3 la_eof g in simp_all)
            then show ?thesis using session_accepted_nth [OF s3(3)] s3(4,5) clean2 by (simp add: verdict_def)
          next
            case False
            then show ?thesis using inv2 s3(5) by (simp add: verdict_def)
          qed
          moreover have "replay_token p user token s = Some (case r3 of Inl e \<Rightarrow> Inl e | Inr _ \<Rightarrow> Inr False, s3)"
            using loop False \<open>r1 = Inr unit\<close> s(2) shift Inr la_eof loop3 inv2 by (auto simp: replay_token_def after_shift_def Let_def)
          ultimately show ?thesis using out3 True by (cases r3) auto
        next
          case False
          then have "?la \<noteq> g_eof (p_grammar p)" using eof_iff g by simp
          then have "replay_token p user token s = Some (Inr False, s2)"
            using loop \<open>r1 = Inr unit\<close> s(2) shift Inr by (auto simp: replay_token_def after_shift_def Let_def)
          then show ?thesis using inv2 False by (simp add: in_step_def)
        qed
      qed
    qed
  qed
qed

lemma replay_outcome:
  assumes ready: "lr_ready p g start" "noncyclic (grammar_rules g)" "g_error_terminal g \<in> g_terminal_ids g"
    and eof: "EOF_TERMINAL \<notin> set ts" and t: "set (ts @ [EOF_TERMINAL]) \<subseteq> g_terminal_ids g - {g_error_terminal g}"
  shows "i \<le> length ts \<Longrightarrow> map tok_terminal tokens = drop i (ts @ [EOF_TERMINAL]) \<Longrightarrow> in_step p ts i s \<Longrightarrow>
    \<exists>r. replay p user tokens s = Some r \<and> outcome r stop_ok (\<lambda>_ s'. verdict p ts s')"
proof (induction tokens arbitrary: i s)
  case (Cons token tokens)
  let ?inp = "ts @ [EOF_TERMINAL]"
  have "drop i ?inp = tok_terminal token # map tok_terminal tokens" using Cons.prems(2) by simp
  then have tok: "tok_terminal token = ?inp ! i" "map tok_terminal tokens = drop (Suc i) ?inp" "i < length ?inp"
    using drop_Cons_facts [of i ?inp] by simp_all
  have "?inp ! i \<in> set ?inp" using tok(3) by (rule nth_mem)
  then have known: "tok_terminal token \<in> g_terminal_ids g" "tok_terminal token \<noteq> g_error_terminal g" using t tok(1) by auto
  obtain q s1 where r: "replay_token p user token s = Some (q, s1)"
      and out: "outcome (q, s1) stop_ok (\<lambda>b s'. if b \<or> i = length ts then verdict p ts s' else in_step p ts (Suc i) s')"
    using replay_token_outcome [OF ready eof Cons.prems(1) tok(1) known Cons.prems(3), unfolded split_paired_Ex] by blast
  show ?case
  proof (cases "q = Inr False")
    case more: True
    show ?thesis
    proof (cases "i = length ts")
      case True
      then have "tokens = []" using tok(2) by simp
      then show ?thesis using r more out True by simp
    next
      case False
      then have "in_step p ts (Suc i) s1" "Suc i \<le> length ts" using out more Cons.prems(1) by simp_all
      then show ?thesis using Cons.IH [OF _ tok(2)] r more by simp
    qed
  next
    case stops: False
    show ?thesis
    proof (cases q)
      case (Inr b)
      then have b using stops by simp
      then show ?thesis using r out Inr by simp
    qed (use r out in simp)
  qed
qed simp

lemma cold_in_step:
  assumes "lr_ready p g start" shows "in_step p ts 0 (cold_session st)"
proof -
  have "reached p inp [gss_node_new 0 0 0] 0" for inp
    by (auto simp: reached_def gss_node_new_def intro!: exI [of _ "[]"])
  then show ?thesis using cold_session_ok(1) [OF assms]
    by (simp add: in_step_def clean_def runs_def column_new_def represented_def cold_session_ok(2)) (simp add: gss_node_new_def)
qed

lemma cold_parse_outcome:
  assumes ready: "lr_ready p g start" "noncyclic (grammar_rules g)" "g_error_terminal g \<in> g_terminal_ids g"
    and eof: "EOF_TERMINAL \<notin> set ts" and t: "set (ts @ [EOF_TERMINAL]) \<subseteq> g_terminal_ids g - {g_error_terminal g}"
    and tokens: "map tok_terminal tokens = ts @ [EOF_TERMINAL]"
  shows "\<exists>r. cold_parse p user st tokens = Some r \<and> outcome r stop_ok (\<lambda>_ s. verdict p ts s)"
  using replay_outcome [OF ready eof t _ _ cold_in_step [OF ready(1)], of tokens user st] tokens by (simp add: cold_parse_def)

end
