(* ===== verification/Grammar_Properties.thy ===== *)
theory Grammar_Properties
  imports LR_Complete
begin

text \<open>
  What the grammar half of \<^verbatim>\<open>src/framework/parse\<close> promises: the builder yields the rules it was
  told, the analysis computes derivability facts, and the LR(1) tables accept exactly the
  language of the rules.
\<close>

section \<open>From a script of builder calls to tables\<close>

text \<open>\<^verbatim>\<open>Grammar::from_spec\<close>: the generated \<^verbatim>\<open>register\<close> function is its script of builder calls.\<close>

definition from_spec :: "'b builder_op list \<Rightarrow> nat \<Rightarrow> 'b grammar option" where
  "from_spec ops start = do {
     b \<leftarrow> fold_opt builder_step ops builder_new;
     g \<leftarrow> finish start b;
     analyze g }"

definition script_rules :: "'b builder_op list \<Rightarrow> rules" where
  "script_rules ops = concat (map op_rules ops)"

lemma script_built:
  assumes "script_ok ops builder_new" "start \<in> fst ` set (script_rules ops)"
  shows "\<exists>b g. fold_opt builder_step ops builder_new = Some b \<and> finish start b = Some g \<and> grammar_ok g \<and>
    augmented (grammar_rules g) start \<and> grammar_rules g = (0, [N start, T EOF_TERMINAL]) # script_rules ops \<and> g_eof g = EOF_TERMINAL"
proof -
  obtain b where b: "fold_opt builder_step ops builder_new = Some b" "builder_ok b" "builder_room b"
      "builder_rules b = script_rules ops"
    using builder_run_correct [OF builder_new_ok assms(1)] by (auto simp: script_rules_def builder_rules_def builder_new_def)
  obtain r where "r \<in> set (builder_rules b)" "fst r = start" using assms(2) b(4) by auto
  then have "rule_known b r" using b(2) by (simp add: builder_ok_def)
  then have "0 < start" "start < length (gb_non_terminals b)" using \<open>fst r = start\<close> by (auto simp: rule_known_def)
  from finish_correct [OF b(2,3) this] show ?thesis using b by (auto simp: finish_def split: list.splits)
qed

lemma augmented_sort:
  assumes "augmented rs start" shows "augmented (sort_key fst rs) start" "sort_key fst rs = hd rs # sort_key fst (tl rs)"
proof -
  obtain r rest where r: "rs = r # rest" "fst r = 0" "\<forall>q \<in> set rest. fst q \<noteq> 0"
    using assms by (cases rs) (fastforce simp: augmented_def)+
  show s: "sort_key fst rs = hd rs # sort_key fst (tl rs)" unfolding r(1) using r(2,3) by (simp add: sort_key_head del: sort_key_simps)
  show "augmented (sort_key fst rs) start" using assms s by (auto simp: augmented_def r(1))
qed

lemma from_spec_returns:
  assumes "script_ok ops builder_new" "start \<in> fst ` set (script_rules ops)"
  shows "\<exists>g. from_spec ops start = Some g \<and> lr_grammar g start \<and>
    set (grammar_rules g) = insert (0, [N start, T EOF_TERMINAL]) (set (script_rules ops))"
proof -
  obtain b g where g: "fold_opt builder_step ops builder_new = Some b" "finish start b = Some g" "grammar_ok g"
    "augmented (grammar_rules g) start" "grammar_rules g = (0, [N start, T EOF_TERMINAL]) # script_rules ops" "g_eof g = EOF_TERMINAL"
    using script_built [OF assms] by blast
  obtain g' where "analyze g = Some g'" "analyzed g'" "grammar_rules g' = sort_key fst (grammar_rules g)" "g_eof g' = g_eof g"
    using analyze_returns [OF g(3)] by blast
  moreover from this have "set (grammar_rules g') = set (grammar_rules g)" by simp
  moreover from calculation(3) have "augmented (grammar_rules g') start" using augmented_sort(1) [OF g(4)] by simp
  ultimately show ?thesis using g(1,2,5,6) by (simp add: from_spec_def lr_grammar_def)
qed

lemma build_ready:
  assumes "lr_grammar g start" shows "\<exists>p. build_lr1 g = Some p \<and> lr_ready p g start"
proof -
  have "EOF_TERMINAL \<in> g_terminal_ids g"
    using assms by (auto simp: lr_grammar_def grammar_ok_def dest: analyzed_ok(1))
  then show ?thesis using build_lr1_tables [of g] assms by (auto simp: lr_grammar_def lr_ready_def)
qed

text \<open>The augmented rule is of no use below the start symbol.\<close>

lemma derives_unused:
  assumes "set rs' = insert (0, r) (set rs)" "\<forall>(l, r) \<in> set rs. N 0 \<notin> set r" "N 0 \<notin> set w"
  shows "derives rs' w v \<longleftrightarrow> derives rs w v"
proof
  assume "derives rs' w v"
  then have "derives rs w v \<and> N 0 \<notin> set v"
  proof (induction rule: rtranclp_induct)
    case (step u v)
    from step.hyps(2) have "derive rs u v \<and> N 0 \<notin> set v"
    proof cases
      case (expand n rhs x y)
      moreover have "(n, rhs) \<in> set rs" using expand step.IH assms(1) by auto
      ultimately show ?thesis using assms(2) step.IH derive.expand by auto
    next
      case (erase x y)
      then show ?thesis using step.IH derive.erase by auto
    qed
    then show ?case using step.IH by auto
  qed (use assms(3) in simp)
  then show "derives rs w v" by simp
next
  have "derive rs u v \<Longrightarrow> derive rs' u v" for u v
    using assms(1) by (auto elim!: derive.cases intro: derive.intros)
  then show "derives rs w v \<Longrightarrow> derives rs' w v" using rtranclp_mono [of "derive rs" "derive rs'"] by blast
qed

text \<open>Every cell of the tables, and what the report says of it.\<close>

lemma ready_cells:
  assumes "lr_ready p g start" "s < length (p_states p)" "t \<in> g_terminal_ids g"
  shows "\<exists>as k. action_set p s t = Some as \<and> set as = prescribed g (state_items p s) (next_state p s) t \<and>
    k < terminal_count g \<and> t = tid g k \<and> as = cell p s k"
proof -
  note f = ready_facts [OF assms(1)]
  have tables: "tables_ok p" using assms(1) by (simp add: lr_ready_def)
  obtain as where as: "action_set p s t = Some as" "set as = prescribed g (state_items p s) (next_state p s) t"
    using tables f(5) assms(2,3) unfolding tables_ok_def Let_def by blast
  obtain k where k: "k < terminal_count g" "t = tid g k" "terminal_index g t = Some k" using known_index [OF f(1) assms(3)] .
  have "as = cell p s k"
    using as(1) f(5) k(3) unfolding action_set_def action_index_def cell_def by (simp add: nth_opt_Some_iff)
  then show ?thesis using as k by blast
qed

lemma mem_concat_map: "x \<in> set (concat (map f xs)) \<longleftrightarrow> (\<exists>y \<in> set xs. x \<in> set (f y))"
  by simp

lemma conflict_members:
  assumes "lr_ready p g start"
  shows "c \<in> set (p_conflicts p) \<longleftrightarrow>
    (\<exists>s t as. s < length (p_states p) \<and> t \<in> g_terminal_ids g \<and> action_set p s t = Some as \<and> c \<in> set (cell_conflicts s t as))"
    (is "_ \<longleftrightarrow> ?cells")
proof
  note f = ready_facts [OF assms]
  have con: "p_conflicts p = concat (map (\<lambda>s. concat (map (\<lambda>k. cell_conflicts s (tid g k) (cell p s k))
      [0..<terminal_count g])) [0..<length (p_states p)])"
    using assms f(5) by (simp add: lr_ready_def tables_ok_def Let_def)
  {
    assume "c \<in> set (p_conflicts p)"
    then obtain s k where s: "s < length (p_states p)" "k < terminal_count g" "c \<in> set (cell_conflicts s (tid g k) (cell p s k))"
      by (auto simp: con)
    have t: "tid g k \<in> g_terminal_ids g" using tid_known [OF s(2)] .
    obtain as k' where as: "action_set p s (tid g k) = Some as" "k' < terminal_count g" "tid g k = tid g k'" "as = cell p s k'"
      using ready_cells [OF assms s(1) t] by blast
    have "k' = k" using tid_inject [OF f(1)] as(2,3) s(2) by metis
    then show ?cells using s(1,3) t as(1,4) by blast
  next
    assume ?cells
    then obtain s t as where s: "s < length (p_states p)" "t \<in> g_terminal_ids g" "action_set p s t = Some as" "c \<in> set (cell_conflicts s t as)" by blast
    then obtain k where "k < terminal_count g" "t = tid g k" "as = cell p s k" using ready_cells [OF assms s(1,2)] by auto
    then have "s \<in> set [0..<length (p_states p)]" "k \<in> set [0..<terminal_count g]" "c \<in> set (cell_conflicts s (tid g k) (cell p s k))"
      using s by simp_all
    then show "c \<in> set (p_conflicts p)" unfolding con mem_concat_map by (intro bexI)
  }
qed

lemma cell_conflicts_iff:
  assumes "\<And>a b. Shift a \<in> set as \<Longrightarrow> Shift b \<in> set as \<Longrightarrow> a = b"
  shows "c \<in> set (cell_conflicts s t as) \<longleftrightarrow> (\<exists>r q. c = ShiftReduce s t r q \<and> Shift r \<in> set as \<and> Reduce q \<in> set as) \<or>
    c = ReduceReduce s t (reduces_of as) \<and> 2 \<le> length (reduces_of as)"
proof -
  have shift: "last_shift as None = Some r \<longleftrightarrow> Shift r \<in> set as" for r
    using assms last_shift_in last_shift_None by (metis not_None_eq)
  have reduces: "q \<in> set (reduces_of as) \<longleftrightarrow> Reduce q \<in> set as" for q by (induction as rule: reduces_of.induct) auto
  have two: "1 < length as" if "Shift r \<in> set as" "Reduce q \<in> set as" for r q using that by (cases as; cases "tl as") auto
  have room: "length (reduces_of as) \<le> length as" by (induction as rule: reduces_of.induct) auto
  show ?thesis
  proof (cases "1 < length as")
    case True
    show ?thesis using True by (auto simp: cell_conflicts_def shift [symmetric] reduces split: option.splits)
  next
    case False
    then show ?thesis using two room by (auto simp: cell_conflicts_def)
  qed
qed

section \<open>Properties\<close>

text \<open>
  C1: from a script of registrations to the tables and back to the language. \<^verbatim>\<open>from_spec\<close> and
  \<^verbatim>\<open>build_lr1\<close> return, and the tables, read nondeterministically, accept a token string exactly
  when the start symbol derives it with the registered rules; conflicts lose nothing.
\<close>

theorem tables_accept_language:
  fixes ops :: "'b builder_op list"
  assumes "script_ok ops builder_new" "start \<in> fst ` set (script_rules ops)" "no_epsilon (script_rules ops)"
  shows "\<exists>g p. from_spec ops start = Some g \<and> build_lr1 g = Some p \<and>
    (\<forall>ts. accepts p ts \<longleftrightarrow> derives (script_rules ops) [N start] (map T ts))"
proof -
  obtain g where g: "from_spec ops start = Some g" "lr_grammar g start"
    "set (grammar_rules g) = insert (0, [N start, T EOF_TERMINAL]) (set (script_rules ops))"
    using from_spec_returns [OF assms(1,2)] by blast
  obtain p where p: "build_lr1 g = Some p" "lr_ready p g start" using build_ready [OF g(2)] by blast
  have unused: "0 < start" "\<forall>(l, r) \<in> set (script_rules ops). N 0 \<notin> set r"
  proof -
    obtain h :: "'b grammar" where "augmented (grammar_rules h) start" "grammar_rules h = (0, [N start, T EOF_TERMINAL]) # script_rules ops"
      using script_built [OF assms(1,2)] by blast
    then show "0 < start" "\<forall>(l, r) \<in> set (script_rules ops). N 0 \<notin> set r" by (auto simp: augmented_def)
  qed
  have "no_epsilon (grammar_rules g)" using g(3) assms(3) by (auto simp: no_epsilon_def)
  then have "accepts p ts \<longleftrightarrow> derives (grammar_rules g) [N start] (map T ts)" for ts
    using accepts_sound [OF p(2)] accepts_complete [OF p(2)] by blast
  also have "\<dots> ts \<longleftrightarrow> derives (script_rules ops) [N start] (map T ts)" for ts
    using unused by (intro derives_unused [OF g(3)]) auto
  finally show ?thesis using g(1) p(1) by blast
qed

abbreviation letter_a :: terminal_id where
  "letter_a \<equiv> TerminalId ''m'' 0"

definition list_script :: "unit builder_op list" where
  "list_script = [TerminalSymbol ''a'' letter_a None, BeginNonTerminal ''List'',
     Rule ''cons'' (N 2) [T letter_a, N 2] None None, Rule ''nil'' (N 2) [] None (Some ())]"

lemma list_script_ok:
  "script_ok list_script builder_new" "2 \<in> fst ` set (script_rules list_script)" "no_epsilon (script_rules list_script)"
  by (simp_all add: list_script_def builder_new_def builder_room_def begin_non_terminal_def terminal_symbol_def
      rule_known_def builder_ids_def rule_def checked_sub_def EOF_TERMINAL_def ERROR_TERMINAL_def script_rules_def no_epsilon_def)

theorem tables_accept_language_witness:
  "\<exists>g p. from_spec list_script 2 = Some g \<and> build_lr1 g = Some p \<and> accepts p [letter_a, letter_a]"
proof -
  let ?rs = "script_rules list_script" and ?a = "T letter_a"
  have "derive ?rs [N 2] [?a, N 2]" "derive ?rs [?a, N 2] [?a, ?a, N 2]" "derive ?rs [?a, ?a, N 2] [?a, ?a]"
    using derive.expand [of 2 "[?a, N 2]" ?rs "[]" "[]"] derive.expand [of 2 "[?a, N 2]" ?rs "[?a]" "[]"]
      derive.expand [of 2 "[]" ?rs "[?a, ?a]" "[]"] by (simp_all add: script_rules_def list_script_def)
  then have "derives ?rs [N 2] (map T [letter_a, letter_a])" by (simp add: converse_rtranclp_into_rtranclp)
  then show ?thesis using tables_accept_language [OF list_script_ok] by blast
qed

text \<open>
  the builder. A script of registrations, each using symbols registered before, never
  panics, and \<^verbatim>\<open>finish\<close> returns a well-formed grammar: terminals are distinct, every production
  is numbered by its place and reads exactly its right-hand side from the shared symbol array,
  and the rules are the augmented one followed by the registered ones in order.
\<close>

theorem builder_keeps_rules:
  assumes "script_ok ops builder_new" "start \<in> fst ` set (script_rules ops)"
  shows "\<exists>b g. fold_opt builder_step ops builder_new = Some b \<and> finish start b = Some g \<and> grammar_ok g \<and>
    grammar_rules g = (0, [N start, T EOF_TERMINAL]) # script_rules ops \<and>
    (\<forall>i < length (grammar_rules g). production_rhs g i = Some (rule_rhs g i) \<and> production_lhs g i = Some (rule_lhs g i))"
proof -
  obtain b g where g: "fold_opt builder_step ops builder_new = Some b" "finish start b = Some g" "grammar_ok g"
    "grammar_rules g = (0, [N start, T EOF_TERMINAL]) # script_rules ops"
    using script_built [OF assms] by blast
  have "production_rhs g i = Some (rule_rhs g i) \<and> production_lhs g i = Some (rule_lhs g i)" if "i < length (grammar_rules g)" for i
    using grammar_rhs_nth [OF g(3) that] that by (simp add: production_lhs_def grammar_rules_def rule_of_def)
  then show ?thesis using g by blast
qed

theorem builder_keeps_rules_witness:
  "\<exists>b g. fold_opt builder_step list_script builder_new = Some b \<and> finish 2 b = Some g \<and>
    grammar_rules g = [(0, [N 2, T EOF_TERMINAL]), (2, [T letter_a, N 2]), (2, [])]"
  using builder_keeps_rules [OF list_script_ok(1,2)] by (auto simp: script_rules_def list_script_def)

text \<open>
  C14: the analysis. \<^verbatim>\<open>analyze\<close> returns (both loops end); it reorders the rules stably by their
  left-hand side and lists each nonterminal's productions; a nonterminal's nullable bit is set
  exactly if it derives the empty string, and bit \<open>i\<close> of its FIRST row exactly if it derives a
  string that begins with terminal \<open>i\<close>.
\<close>

theorem analysis_exact:
  assumes "grammar_ok g"
  shows "\<exists>g'. analyze g = Some g' \<and> grammar_rules g' = sort_key fst (grammar_rules g) \<and>
    (\<forall>n < nts g'. production_ids_for g' n = Some (filter (\<lambda>i. rule_lhs g' i = n) [0..<length (grammar_rules g')])) \<and>
    (\<forall>n < nts g'. is_nullable g' ! n \<longleftrightarrow> derives (grammar_rules g') [N n] []) \<and>
    (\<forall>n < nts g'. \<forall>i < terminal_count g'. is_at_first g' ! n ! i \<longleftrightarrow> (\<exists>w. derives (grammar_rules g') [N n] (T (tid g' i) # w)))"
proof -
  obtain g' where "analyze g = Some g'" "analyzed g'" "grammar_rules g' = sort_key fst (grammar_rules g)"
    using analyze_returns [OF assms] by blast
  then show ?thesis
    by (auto simp: analyzed_def nu_done_def nu_exact_def rows_exact_def productions_listed_def nullable_iff first_iff)
qed

theorem analysis_exact_witness:
  "\<exists>g (g' :: unit grammar). analyze g = Some g' \<and> set (grammar_rules g') = {(0, [N 2, T EOF_TERMINAL]), (2, [T letter_a, N 2]), (2, [])} \<and>
    (\<forall>n < nts g'. is_nullable g' ! n \<longleftrightarrow> derives (grammar_rules g') [N n] [])"
proof -
  obtain g :: "unit grammar" where g: "grammar_ok g" "grammar_rules g = (0, [N 2, T EOF_TERMINAL]) # script_rules list_script"
    using script_built [OF list_script_ok(1,2)] by blast
  obtain g' where g': "analyze g = Some g'" "grammar_rules g' = sort_key fst (grammar_rules g)"
      "\<forall>n < nts g'. is_nullable g' ! n \<longleftrightarrow> derives (grammar_rules g') [N n] []"
    using analysis_exact [OF g(1)] by blast
  have "script_rules list_script = [(2, [T letter_a, N 2]), (2, [])]" by (simp add: script_rules_def list_script_def)
  then have "set (grammar_rules g') = {(0, [N 2, T EOF_TERMINAL]), (2, [T letter_a, N 2]), (2, [])}"
    using g(2) unfolding g'(2) by (simp only: set_sort list.set)
  then show ?thesis using g'(1,3) by blast
qed



text \<open>
  C37: the conflict report. A shift/reduce entry names exactly a cell that holds that shift and
  that reduction, a reduce/reduce entry a cell with two or more reductions, all of them; so an
  empty report means that no cell holds two actions other than \<^verbatim>\<open>Accept\<close>.
\<close>

theorem conflicts_exact:
  assumes "lr_grammar g start" "build_lr1 g = Some p"
  shows "c \<in> set (p_conflicts p) \<longleftrightarrow> (\<exists>s t as. s < length (p_states p) \<and> t \<in> g_terminal_ids g \<and> action_set p s t = Some as \<and>
    ((\<exists>r q. c = ShiftReduce s t r q \<and> Shift r \<in> set as \<and> Reduce q \<in> set as) \<or>
     c = ReduceReduce s t (reduces_of as) \<and> 2 \<le> length (reduces_of as)))"
proof -
  have ready: "lr_ready p g start" using build_ready [OF assms(1)] assms(2) by auto
  have "c \<in> set (cell_conflicts s t as) \<longleftrightarrow> (\<exists>r q. c = ShiftReduce s t r q \<and> Shift r \<in> set as \<and> Reduce q \<in> set as) \<or>
      c = ReduceReduce s t (reduces_of as) \<and> 2 \<le> length (reduces_of as)"
    if "s < length (p_states p)" "t \<in> g_terminal_ids g" "action_set p s t = Some as" for s t as
  proof -
    have "set as = prescribed g (state_items p s) (next_state p s) t" using ready_cells [OF ready that(1,2)] that(3) by auto
    then show ?thesis by (intro cell_conflicts_iff) (auto simp: prescribed_def)
  qed
  then show ?thesis unfolding conflict_members [OF ready] by blast
qed

theorem conflicts_exact_witness:
  "\<exists>g p. from_spec list_script 2 = Some g \<and> build_lr1 g = Some p \<and>
    (\<forall>s t r q. ShiftReduce s t r q \<in> set (p_conflicts p) \<longrightarrow> s < length (p_states p))"
proof -
  obtain g where g: "from_spec list_script 2 = Some g" "lr_grammar g 2" using from_spec_returns [OF list_script_ok(1,2)] by blast
  obtain p where "build_lr1 g = Some p" using build_ready [OF g(2)] by blast
  then show ?thesis using g conflicts_exact [OF g(2)] by blast
qed

text \<open>
  along every run of the tables, whatever its choices, each reduction of the current cell
  finds its right-hand side on the stack and a goto entry below it: the error
  \<^verbatim>\<open>ParseError::MissingGoto\<close> of the parser does not arise.
\<close>

theorem goto_never_missing:
  assumes "lr_grammar g start" "build_lr1 g = Some p" "(lr_step p)\<^sup>*\<^sup>* ([], ts) (stk, rest)"
    and "action_set p (top_state stk) t = Some as" "Reduce q \<in> set as"
  shows "map fst (take (length (rule_rhs g q)) stk) = rev (rule_rhs g q) \<and>
    (\<exists>s. goto_state p (top_state (drop (length (rule_rhs g q)) stk)) (rule_lhs g q) = Some (Some s))"
proof -
  have ready: "lr_ready p g start" using build_ready [OF assms(1)] assms(2) by auto
  have "valid_stack p stk" using steps_valid [OF ready assms(3)] by simp
  from reduce_possible [OF ready this assms(4,5)] show ?thesis by blast
qed

theorem goto_never_missing_witness:
  "\<exists>g p. from_spec list_script 2 = Some g \<and> build_lr1 g = Some p \<and>
    (\<forall>t as q. action_set p 0 t = Some as \<and> Reduce q \<in> set as \<longrightarrow>
      rule_rhs g q = [] \<and> (\<exists>s. goto_state p 0 (rule_lhs g q) = Some (Some s)))"
proof -
  obtain g where g: "from_spec list_script 2 = Some g" "lr_grammar g 2" using from_spec_returns [OF list_script_ok(1,2)] by blast
  obtain p where p: "build_lr1 g = Some p" using build_ready [OF g(2)] by blast
  have "rule_rhs g q = [] \<and> (\<exists>s. goto_state p 0 (rule_lhs g q) = Some (Some s))"
    if "action_set p 0 t = Some as" "Reduce q \<in> set as" for t as q
    using goto_never_missing [OF g(2) p, of "[]" "[]" "[]" t as q] that by (simp add: top_state_def)
  then show ?thesis using g(1) p by blast
qed

end
