(* ===== verification/Session_Properties.thy ===== *)
theory Session_Properties
  imports Session_Language Grammar_Properties
begin

text \<open>
  What the parser session promises: reductions settle, a shift finds every stack that can take the
  token, and a cold parse decides the language of the registered rules.
\<close>

section \<open>Grammars of scripts\<close>

lemma from_spec_error:
  assumes "from_spec ops start = Some g" "script_ok ops builder_new"
  shows "g_error_terminal g = ERROR_TERMINAL" "ERROR_TERMINAL \<in> g_terminal_ids g"
proof -
  obtain b h where b: "fold_opt builder_step ops builder_new = Some b" "finish start b = Some h" "analyze h = Some g"
    using assms(1) by (auto simp: from_spec_def bind_eq_Some_conv)
  have "builder_ok b" using builder_run_correct [OF builder_new_ok assms(2)] b(1) by auto
  then have "ERROR_TERMINAL \<in> builder_ids b" by (simp add: builder_ok_def)
  moreover have "g_terminals h = gb_terminals b" "g_error_terminal h = ERROR_TERMINAL"
    using b(2) by (auto simp: finish_def split: list.splits)
  moreover have "g_terminals g = g_terminals h" "g_error_terminal g = g_error_terminal h"
    using b(3) by (auto simp: analyze_def sort_productions_by_lhs_def index_terminals_def compute_nullable_sets_def compute_first_sets_def
        Let_def bind_eq_Some_conv)
  ultimately show "g_error_terminal g = ERROR_TERMINAL" "ERROR_TERMINAL \<in> g_terminal_ids g"
    by (simp_all add: g_terminal_ids_def builder_ids_def)
qed

lemma script_parser:
  fixes ops :: "'b builder_op list"
  assumes "script_ok ops builder_new" "start \<in> fst ` set (script_rules ops)"
  shows "\<exists>g p. from_spec ops start = Some g \<and> build_lr1 g = Some p \<and> lr_ready p g start \<and>
    g_error_terminal g = ERROR_TERMINAL \<and> ERROR_TERMINAL \<in> g_terminal_ids g \<and>
    (noncyclic (script_rules ops) \<longrightarrow> noncyclic (grammar_rules g)) \<and>
    (no_epsilon (script_rules ops) \<longrightarrow> (\<forall>ts. accepts p ts \<longleftrightarrow> derives (script_rules ops) [N start] (map T ts)))"
proof -
  let ?rs = "script_rules ops"
  obtain g where g: "from_spec ops start = Some g" "lr_grammar g start"
    "set (grammar_rules g) = insert (0, [N start, T EOF_TERMINAL]) (set ?rs)"
    using from_spec_returns [OF assms(1,2)] by blast
  obtain p where p: "build_lr1 g = Some p" "lr_ready p g start" using build_ready [OF g(2)] by blast
  have unused: "0 < start" "\<forall>(l, r) \<in> set ?rs. N 0 \<notin> set r \<and> l \<noteq> 0"
  proof -
    obtain h :: "'b grammar" where "augmented (grammar_rules h) start" "grammar_rules h = (0, [N start, T EOF_TERMINAL]) # ?rs"
      using script_built [OF assms(1,2)] by blast
    then show "0 < start" "\<forall>(l, r) \<in> set ?rs. N 0 \<notin> set r \<and> l \<noteq> 0" by (auto simp: augmented_def)
  qed
  have nul: "nullable ?rs X" if "nullable (grammar_rules g) X" for X
    using that
  proof induction
    case (nullable_N n rhs)
    then have "(n, rhs) \<in> set ?rs" using g(3) by auto
    then show ?case using nullable_N.IH nullable.nullable_N by blast
  qed (rule nullable_Epsilon)
  have "inner ?rs a b" if inn: "inner (grammar_rules g) a b" for a b
  proof -
    obtain u v where uv: "(a, u @ N b # v) \<in> set (grammar_rules g)" "\<forall>X \<in> set u \<union> set v. nullable (grammar_rules g) X"
      using inn unfolding inner_def by blast
    have "(a, u @ N b # v) \<in> set ?rs"
    proof (rule ccontr)
      assume "\<not> ?thesis"
      then have "u @ N b # v = [N start, T EOF_TERMINAL]" using uv(1) g(3) by auto
      then have "v = [T EOF_TERMINAL]" by (auto simp: append_eq_Cons_conv)
      then show False using uv(2) by simp
    qed
    then show ?thesis using uv(2) nul by (auto simp: inner_def)
  qed
  note inn = this
  have "(inner ?rs)\<^sup>+\<^sup>+ a b" if "(inner (grammar_rules g))\<^sup>+\<^sup>+ a b" for a b
    using that by induction (blast intro: inn tranclp.trancl_into_trancl)+
  then have "noncyclic ?rs \<longrightarrow> noncyclic (grammar_rules g)" unfolding noncyclic_def by blast
  moreover have "accepts p ts \<longleftrightarrow> derives ?rs [N start] (map T ts)" if "no_epsilon ?rs" for ts
  proof -
    have "no_epsilon (grammar_rules g)" using g(3) that by (auto simp: no_epsilon_def)
    then have "accepts p ts \<longleftrightarrow> derives (grammar_rules g) [N start] (map T ts)"
      using accepts_sound [OF p(2)] accepts_complete [OF p(2)] by blast
    also have "\<dots> \<longleftrightarrow> derives ?rs [N start] (map T ts)" using unused by (intro derives_unused [OF g(3)]) auto
    finally show ?thesis .
  qed
  ultimately show ?thesis using g(1) p from_spec_error [OF g(1) assms(1)] by blast
qed

text \<open>The states of a new column.\<close>

lemma shifted_targets:
  assumes ok: "session_ok p s" and sh: "shifted p token (current_column s) s s'"
  shows "node_state (ps_nodes s') ` set (pc_active (last (ps_columns s'))) =
      {to. \<exists>v \<in> set (pc_active (last (ps_columns s))). can_shift p (node_state (ps_nodes s) v) (tok_terminal token) to} \<and>
    {to. \<exists>v \<in> set (pc_active (last (ps_columns s))). can_shift p (node_state (ps_nodes s) v) (tok_terminal token) to} \<noteq> {}"
    (is "?new = ?targets \<and> _")
proof -
  let ?i = "current_column s" and ?c = "last (ps_columns s)"
  have "ps_columns s \<noteq> []" using ok by (simp add: session_ok_def)
  then have last_: "column_at ?i s = Some ?c" "?c \<in> set (ps_columns s)" by (simp_all add: column_at_Some current_column_def last_conv_nth)
  obtain nx q s1 where sh1: "shifting p token ?i (pc_active ?c) s nx s1" "shifts_done p token s s1 nx (pc_active ?c)" "nx \<noteq> []"
      and s': "s' = (open_column token nx q s1)\<lparr>ps_token_columns := (ps_token_columns s1)(tok_column token \<mapsto> ?i + 1)\<rparr>"
    using sh last_(1) by (auto simp: shifted_def)
  have new: "?new = node_state (ps_nodes s1) ` set nx" by (simp add: s' column_new_def)
  have same: "node_state (ps_nodes s1) v = node_state (ps_nodes s) v" if "v \<in> set (pc_active ?c)" for v
  proof -
    have "\<forall>v \<in> set (pc_active ?c). v < length (ps_nodes s)" using ok last_(2) unfolding session_ok_def by blast
    then have "v < length (ps_nodes s)" using that by blast
    moreover obtain ns where "ps_nodes s1 = ps_nodes s @ ns" using sh1(1) by (auto simp: shifting_def)
    ultimately show ?thesis by (simp add: nth_append)
  qed
  have "?targets \<subseteq> ?new" unfolding new using sh1(2) by (fastforce simp: shifts_done_def shifted_from_def)
  moreover have "?new \<subseteq> ?targets"
  proof
    fix to
    assume "to \<in> ?new"
    then obtain u where u: "u \<in> set nx" "node_state (ps_nodes s1) u = to" unfolding new by blast
    then obtain e where e: "e \<in> set (ps_edges s1)" "ge_from e = u" "ge_to e \<in> set (pc_active ?c)" using sh1(1) unfolding shifting_def by blast
    have "length (ps_nodes s) \<le> u" using u(1) sh1(1) by (auto simp: shifting_def)
    then have "e \<notin> set (ps_edges s)" using ok e(2) by (auto simp: session_ok_def graph_ok_def edge_ok_def)
    then have "can_shift p (node_state (ps_nodes s1) (ge_to e)) (tok_terminal token) to" using sh1(1) e(1,2) u(2) by (auto simp: shifting_def)
    then show "to \<in> ?targets" using same [OF e(3)] e(3) by auto
  qed
  ultimately have "?new = ?targets" by blast
  moreover have "?new \<noteq> {}" using sh1(3) by (simp add: new)
  ultimately show ?thesis by simp
qed

section \<open>The cold parse\<close>

text \<open>
  C2: a cold parse decides the language of the registered rules. For a grammar without cycles
  (no nonterminal derives itself), over a token list that ends with the end-of-file token,
  \<^verbatim>\<open>parse_delta_batch\<close> without recovery search returns; only a build function that fails or a full
  graph vector stops it, never a missing goto entry, a missing node or an index out of range. When it
  finishes, it has accepted products and no diagnostics exactly if the rules derive the tokens:
  the graph-structured stack follows every conflict of the tables and loses no derivation.
\<close>

theorem cold_parse_decides:
  fixes ops :: "'b builder_op list"
  assumes "script_ok ops builder_new" "start \<in> fst ` set (script_rules ops)" "no_epsilon (script_rules ops)" "noncyclic (script_rules ops)"
  shows "\<exists>g p. from_spec ops start = Some g \<and> build_lr1 g = Some p \<and>
    (\<forall>ts tokens (user :: ('b, 'v, 'l) user_build) st.
      set ts \<subseteq> g_terminal_ids g - {EOF_TERMINAL, ERROR_TERMINAL} \<and> map tok_terminal tokens = ts @ [EOF_TERMINAL] \<longrightarrow>
      (\<exists>r. cold_parse p user st tokens = Some r \<and> outcome r stop_ok (\<lambda>_ s.
        session_accepted s \<noteq> [] \<and> ps_diagnostics s = [] \<longleftrightarrow> derives (script_rules ops) [N start] (map T ts))))"
proof -
  obtain g p where p: "from_spec ops start = Some g" "build_lr1 g = Some p" "lr_ready p g start"
      "g_error_terminal g = ERROR_TERMINAL" "ERROR_TERMINAL \<in> g_terminal_ids g" "noncyclic (grammar_rules g)"
      "\<And>ts. accepts p ts \<longleftrightarrow> derives (script_rules ops) [N start] (map T ts)"
    using script_parser [OF assms(1,2)] assms(3,4) by blast
  have eof: "EOF_TERMINAL \<in> g_terminal_ids g" using ready_facts [OF p(3)] by simp
  have "\<exists>r. cold_parse p user st tokens = Some r \<and> outcome r stop_ok (\<lambda>_ s.
        session_accepted s \<noteq> [] \<and> ps_diagnostics s = [] \<longleftrightarrow> derives (script_rules ops) [N start] (map T ts))"
    if "set ts \<subseteq> g_terminal_ids g - {EOF_TERMINAL, ERROR_TERMINAL}" "map tok_terminal tokens = ts @ [EOF_TERMINAL]"
    for ts tokens and user :: "('b, 'v, 'l) user_build" and st
  proof -
    have "EOF_TERMINAL \<notin> set ts" "set (ts @ [EOF_TERMINAL]) \<subseteq> g_terminal_ids g - {g_error_terminal g}"
      using that(1) eof by (auto simp: p(4))
    from cold_parse_outcome [OF p(3,6) _ this that(2), of user st] show ?thesis using p(4,5) by (simp add: verdict_def p(7))
  qed
  then show ?thesis using p(1,2) by blast
qed

definition list_tokens :: "parse_token list" where
  "list_tokens = [\<lparr>tok_entry = 0, tok_column = 0, tok_start = 0, tok_terminal = letter_a, tok_length = 1, tok_merge = None\<rparr>,
     \<lparr>tok_entry = 1, tok_column = 1, tok_start = 1, tok_terminal = letter_a, tok_length = 1, tok_merge = None\<rparr>,
     \<lparr>tok_entry = 2, tok_column = 2, tok_start = 2, tok_terminal = EOF_TERMINAL, tok_length = 0, tok_merge = None\<rparr>]"

lemma list_noncyclic: "noncyclic (script_rules list_script)"
proof -
  have "\<not> inner (script_rules list_script) a b" for a b
    by (auto simp: inner_def script_rules_def list_script_def append_eq_Cons_conv)
  then show ?thesis unfolding noncyclic_def by (meson tranclpD)
qed

lemma letter_a_known: "from_spec list_script 2 = Some g \<Longrightarrow> letter_a \<in> g_terminal_ids g"
proof -
  assume g: "from_spec list_script 2 = Some g"
  obtain h where h: "from_spec list_script 2 = Some h" "lr_grammar h 2" 
      "set (grammar_rules h) = insert (0, [N 2, T EOF_TERMINAL]) (set (script_rules list_script))"
    using from_spec_returns [OF list_script_ok(1,2)] by blast
  then have "(2, [T letter_a, N 2]) \<in> set (grammar_rules g)" using g by (simp add: script_rules_def list_script_def)
  moreover have "grammar_ok g" using h(1,2) g by (auto simp: lr_grammar_def dest: analyzed_ok(1))
  ultimately show "letter_a \<in> g_terminal_ids g" using grammar_rules_known(2) [of g 2 "[T letter_a, N 2]"] by simp
qed

lemma list_derives: "derives (script_rules list_script) [N 2] (map T [letter_a, letter_a])"
proof -
  let ?rs = "script_rules list_script" and ?a = "T letter_a"
  have "derive ?rs [N 2] [?a, N 2]" "derive ?rs [?a, N 2] [?a, ?a, N 2]" "derive ?rs [?a, ?a, N 2] [?a, ?a]"
    using derive.expand [of 2 "[?a, N 2]" ?rs "[]" "[]"] derive.expand [of 2 "[?a, N 2]" ?rs "[?a]" "[]"]
      derive.expand [of 2 "[]" ?rs "[?a, ?a]" "[]"] by (simp_all add: script_rules_def list_script_def)
  then show ?thesis by (simp add: converse_rtranclp_into_rtranclp)
qed

theorem cold_parse_decides_witness:
  "\<exists>g p r. from_spec list_script 2 = Some g \<and> build_lr1 g = Some p \<and>
    cold_parse p (\<lambda>b boundary q children st. (Inr 7, st)) empty_store list_tokens = Some r \<and>
    outcome r stop_ok (\<lambda>_ s. session_accepted s \<noteq> [] \<and> ps_diagnostics s = [])"
proof -
  have set_: "set [letter_a, letter_a] \<subseteq> g_terminal_ids g - {EOF_TERMINAL, ERROR_TERMINAL}" if "from_spec list_script 2 = Some g" for g
    using letter_a_known [OF that] by (simp add: EOF_TERMINAL_def ERROR_TERMINAL_def)
  have map_: "map tok_terminal list_tokens = [letter_a, letter_a] @ [EOF_TERMINAL]" by (simp add: list_tokens_def)
  obtain g and p :: "unit parser" where p: "from_spec list_script 2 = Some g" "build_lr1 g = Some p" and
      all_: "\<And>ts tokens (user :: (unit, nat, unit) user_build) st.
      set ts \<subseteq> g_terminal_ids g - {EOF_TERMINAL, ERROR_TERMINAL} \<and> map tok_terminal tokens = ts @ [EOF_TERMINAL] \<longrightarrow>
      (\<exists>r. cold_parse p user st tokens = Some r \<and> outcome r stop_ok (\<lambda>_ s.
        session_accepted s \<noteq> [] \<and> ps_diagnostics s = [] \<longleftrightarrow> derives (script_rules list_script) [N 2] (map T ts)))"
    using cold_parse_decides [OF list_script_ok list_noncyclic, where ?'v = nat and ?'l = unit] by blast
  obtain r where "cold_parse p (\<lambda>b boundary q children st. (Inr 7, st)) empty_store list_tokens = Some r"
      "outcome r stop_ok (\<lambda>_ s. session_accepted s \<noteq> [] \<and> ps_diagnostics s = [] \<longleftrightarrow> derives (script_rules list_script) [N 2] (map T [letter_a, letter_a]))"
    using all_ set_ [OF p(1)] map_ by blast
  then show ?thesis using p list_derives by (intro exI [of _ g] exI [of _ p] exI [of _ r] conjI) simp_all
qed

section \<open>Reductions and shifts\<close>

text \<open>
  C15: \<^verbatim>\<open>reduce_until_stable\<close> returns on a well-formed session of a grammar without cycles, although
  every reduction may add nodes, edges and products that open further ones. What it does is a
  sequence of single reductions and acceptances, and when it finishes, every active node is settled:
  each reduction along each way down the graph is already there. It stops early only for a build
  function that fails or a full vector.
\<close>

theorem reductions_settle:
  assumes "lr_ready p g start" "noncyclic (grammar_rules g)" "la \<in> g_terminal_ids g" "session_ok p s"
  shows "\<exists>r. reduce_until_stable p user (current_column s) la boundary s = Some r \<and> outcome r stop_ok (\<lambda>_ s'.
    session_steps p (current_column s) la boundary s s' \<and> stable p (current_column s) la s' \<and> session_ok p s' \<and>
    current_column s' = current_column s)"
proof -
  obtain r where "reduce_until_stable p user (current_column s) la boundary s = Some r" "outcome r stop_ok (\<lambda>_ s'.
      session_steps p (current_column s) la boundary s s' \<and> stable p (current_column s) la s' \<and> session_ok p s' \<and>
      current_column s' = current_column s \<and> ps_diagnostics s' = ps_diagnostics s)" using loop_outcome [OF assms refl, of user boundary] by blast
  then show ?thesis by (intro exI [of _ r] conjI) (auto intro: outcome_mono)
qed

theorem reductions_settle_witness:
  "\<exists>g p r. from_spec list_script 2 = Some g \<and> build_lr1 g = Some p \<and>
    reduce_until_stable p (\<lambda>b boundary q children st. (Inr 7, st)) 0 EOF_TERMINAL 0 (cold_session empty_store) = Some r"
proof -
  obtain g p where p: "from_spec list_script 2 = Some g" "build_lr1 g = Some p" "lr_ready p g 2" "noncyclic (grammar_rules g)"
    using script_parser [OF list_script_ok(1,2)] list_noncyclic by blast
  have "EOF_TERMINAL \<in> g_terminal_ids g" using ready_facts(4) [OF p(3)] .
  from reductions_settle [where user = "\<lambda>b boundary q children st. (Inr 7, st)" and boundary = 0 and s = "cold_session empty_store",
      OF p(3,4) this cold_session_ok(1) [OF p(3)]]
  show ?thesis using p(1,2) by (auto simp: cold_session_ok(2))
qed

text \<open>
  C23: \<^verbatim>\<open>shift_parse_token\<close> on a source token. It fails with \<^verbatim>\<open>NoActiveStacks\<close> exactly when no active node
  has a shift of the token, and then the columns are as before; otherwise it opens the next column,
  whose nodes have exactly the states that the shifts of the active nodes lead to. It never panics
  for want of a product or an action cell.
\<close>

theorem shift_finds_stacks:
  assumes "lr_ready p g start" "session_ok p s" "tok_terminal token \<in> g_terminal_ids g" "tok_terminal token \<noteq> g_error_terminal g"
  defines "targets \<equiv> {to. \<exists>v \<in> set (pc_active (last (ps_columns s))). can_shift p (node_state (ps_nodes s) v) (tok_terminal token) to}"
  shows "\<exists>r. shift_parse_token p user (current_column s) token s = Some r \<and> outcome r
    (\<lambda>e s'. (e = Panicked \<and> gss_full s') \<or>
       (e = Failed (NoActiveStacks (Some (tok_column token))) \<and> targets = {} \<and> session_ok p s' \<and> ps_columns s' = ps_columns s))
    (\<lambda>to s'. to = current_column s + 1 \<and> session_ok p s' \<and> current_column s' = to \<and> targets \<noteq> {} \<and>
       node_state (ps_nodes s') ` set (pc_active (last (ps_columns s'))) = targets)"
proof -
  let ?i = "current_column s"
  obtain r where r: "shift_parse_token p user ?i token s = Some r"
      "outcome r (shift_stop p token ?i s) (\<lambda>to s'. to = ?i + 1 \<and> shifted p token ?i s s')"
    using shift_token_outcome [OF assms(1,2) refl assms(3,4)] by blast
  have cols: "ps_columns s \<noteq> []" using assms(2) by (simp add: session_ok_def)
  then have last_: "column_at ?i s = Some (last (ps_columns s))" by (simp add: column_at_Some current_column_def last_conv_nth)
  have "node_state (ps_nodes s') ` set (pc_active (last (ps_columns s'))) = targets \<and> targets \<noteq> {}" if sh: "shifted p token ?i s s'" for s'
    by (rule shifted_targets [OF assms(2) sh, folded targets_def])
  note new = this
  have "targets = {}" if "stuck p token ?i s s'" for s' using that by (auto simp: stuck_def last_ targets_def)
  then have "outcome r (\<lambda>e s'. (e = Panicked \<and> gss_full s') \<or>
       (e = Failed (NoActiveStacks (Some (tok_column token))) \<and> targets = {} \<and> session_ok p s' \<and> ps_columns s' = ps_columns s))
    (\<lambda>to s'. to = current_column s + 1 \<and> session_ok p s' \<and> current_column s' = to \<and> targets \<noteq> {} \<and>
       node_state (ps_nodes s') ` set (pc_active (last (ps_columns s'))) = targets)"
    by (intro outcome_mono [OF r(2)]) (use new shifted_ok [OF assms(1,2) refl] in \<open>auto simp: shift_stop_def stuck_def\<close>)
  then show ?thesis using r(1) by blast
qed

theorem shift_finds_stacks_witness:
  "\<exists>g p r. from_spec list_script 2 = Some g \<and> build_lr1 g = Some p \<and>
    shift_parse_token p (\<lambda>b boundary q children st. (Inr 7, st)) 0 (hd list_tokens) (cold_session empty_store) = Some r"
proof -
  obtain g p where p: "from_spec list_script 2 = Some g" "build_lr1 g = Some p" "lr_ready p g 2" "g_error_terminal g = ERROR_TERMINAL"
    using script_parser [OF list_script_ok(1,2)] by blast
  have "tok_terminal (hd list_tokens) \<in> g_terminal_ids g" "tok_terminal (hd list_tokens) \<noteq> g_error_terminal g"
    using letter_a_known [OF p(1)] p(4) by (simp_all add: list_tokens_def ERROR_TERMINAL_def)
  from shift_finds_stacks [OF p(3) cold_session_ok(1) [OF p(3)] this, of "\<lambda>b boundary q children st. (Inr 7, st)" empty_store]
  show ?thesis using p(1,2) by (auto simp: cold_session_ok(2))
qed

end
