(* ===== verification/Scope_Path.thy ===== *)
theory Scope_Path
  imports Prelude
begin

text \<open>
  The path expressions of \<^verbatim>\<open>src/framework/scope.rs\<close>: regular expressions over edge labels with the
  simplifying constructors \<^verbatim>\<open>or\<close>, \<^verbatim>\<open>then\<close> and \<^verbatim>\<open>star\<close>, nullability, Brzozowski derivatives and the
  labels in first-appearance order; and \<^verbatim>\<open>PathOrder\<close>, the preferences between labels that are kept
  transitively closed, with the comparison of paths that they induce.
\<close>

section \<open>Path expressions\<close>

datatype 'l path_expr =
    PathEmpty
  | PathEpsilon
  | PathLabel 'l
  | PathOr "'l path_expr" "'l path_expr"
  | PathThen "'l path_expr" "'l path_expr"
  | PathStar "'l path_expr"

fun path_or :: "'l path_expr \<Rightarrow> 'l path_expr \<Rightarrow> 'l path_expr" where
  "path_or PathEmpty right = right"
| "path_or left PathEmpty = left"
| "path_or left right = (if left = right then left else PathOr left right)"

fun path_then :: "'l path_expr \<Rightarrow> 'l path_expr \<Rightarrow> 'l path_expr" where
  "path_then PathEmpty right = PathEmpty"
| "path_then left PathEmpty = PathEmpty"
| "path_then PathEpsilon right = right"
| "path_then left PathEpsilon = left"
| "path_then left right = PathThen left right"

fun path_star :: "'l path_expr \<Rightarrow> 'l path_expr" where
  "path_star PathEmpty = PathEpsilon"
| "path_star PathEpsilon = PathEpsilon"
| "path_star (PathStar inner) = PathStar inner"
| "path_star e = PathStar e"

definition zero_or_more :: "'l \<Rightarrow> 'l path_expr" where
  "zero_or_more l = path_star (PathLabel l)"

fun path_nullable :: "'l path_expr \<Rightarrow> bool" where
  "path_nullable PathEmpty = False"
| "path_nullable (PathLabel l) = False"
| "path_nullable PathEpsilon = True"
| "path_nullable (PathStar e) = True"
| "path_nullable (PathOr left right) = (path_nullable left \<or> path_nullable right)"
| "path_nullable (PathThen left right) = (path_nullable left \<and> path_nullable right)"

fun derivative :: "'l path_expr \<Rightarrow> 'l \<Rightarrow> 'l path_expr" where
  "derivative PathEmpty l = PathEmpty"
| "derivative PathEpsilon l = PathEmpty"
| "derivative (PathLabel expected) l = (if expected = l then PathEpsilon else PathEmpty)"
| "derivative (PathOr left right) l = path_or (derivative left l) (derivative right l)"
| "derivative (PathThen left right) l =
     (let first = path_then (derivative left l) right in
        if path_nullable left then path_or first (derivative right l) else first)"
| "derivative (PathStar inner) l = path_then (derivative inner l) (PathStar inner)"

fun walk_labels :: "'l path_expr \<Rightarrow> 'l list \<Rightarrow> 'l list" where
  "walk_labels PathEmpty out = out"
| "walk_labels PathEpsilon out = out"
| "walk_labels (PathLabel l) out = (if l \<in> set out then out else out @ [l])"
| "walk_labels (PathOr a b) out = walk_labels b (walk_labels a out)"
| "walk_labels (PathThen a b) out = walk_labels b (walk_labels a out)"
| "walk_labels (PathStar inner) out = walk_labels inner out"

definition path_labels :: "'l path_expr \<Rightarrow> 'l list" where
  "path_labels e = walk_labels e []"

section \<open>The language of an expression\<close>

inductive_set words_star :: "'l list set \<Rightarrow> 'l list set" for A where
  star_nil: "[] \<in> words_star A"
| star_cons: "u \<in> A \<Longrightarrow> v \<in> words_star A \<Longrightarrow> u @ v \<in> words_star A"

definition words_then :: "'l list set \<Rightarrow> 'l list set \<Rightarrow> 'l list set" where
  "words_then A B = {u @ v | u v. u \<in> A \<and> v \<in> B}"

fun words :: "'l path_expr \<Rightarrow> 'l list set" where
  "words PathEmpty = {}"
| "words PathEpsilon = {[]}"
| "words (PathLabel l) = {[l]}"
| "words (PathOr a b) = words a \<union> words b"
| "words (PathThen a b) = words_then (words a) (words b)"
| "words (PathStar e) = words_star (words e)"

lemma words_then_simps [simp]:
  "words_then {} B = {}" "words_then A {} = {}" "words_then {[]} B = B" "words_then A {[]} = A"
  by (auto simp: words_then_def)

lemma words_star_simps [simp]: "words_star {} = {[]}" "words_star {[]} = {[]}"
  by (auto intro: words_star.intros elim: words_star.cases elim!: words_star.induct)

lemma words_star_append: "u \<in> words_star A \<Longrightarrow> v \<in> words_star A \<Longrightarrow> u @ v \<in> words_star A"
  by (induction rule: words_star.induct) (auto intro: words_star.intros)

lemma words_star_idem [simp]: "words_star (words_star A) = words_star A"
proof
  show "words_star (words_star A) \<subseteq> words_star A"
  proof
    fix w assume "w \<in> words_star (words_star A)"
    then show "w \<in> words_star A" by induction (auto intro: words_star.intros words_star_append)
  qed
  show "words_star A \<subseteq> words_star (words_star A)"
    using words_star.star_cons [of _ "words_star A" "[]"] words_star.star_nil by fastforce
qed

text \<open>The simplifications keep the language.\<close>

lemma words_path_or [simp]: "words (path_or a b) = words a \<union> words b"
  by (cases "(a, b)" rule: path_or.cases) auto

lemma words_path_then [simp]: "words (path_then a b) = words_then (words a) (words b)"
  by (cases "(a, b)" rule: path_then.cases) auto

lemma words_path_star [simp]: "words (path_star e) = words_star (words e)"
  by (cases e rule: path_star.cases) auto

lemma nullable_words: "path_nullable e \<longleftrightarrow> [] \<in> words e"
  by (induction e) (auto simp: words_then_def intro: words_star.intros)

lemma words_then_Cons:
  "l # w \<in> words_then A B \<longleftrightarrow> w \<in> words_then {u. l # u \<in> A} B \<or> ([] \<in> A \<and> l # w \<in> B)"
proof
  assume "l # w \<in> words_then A B"
  then obtain u v where uv: "l # w = u @ v" "u \<in> A" "v \<in> B" by (auto simp: words_then_def)
  then show "w \<in> words_then {u. l # u \<in> A} B \<or> ([] \<in> A \<and> l # w \<in> B)"
    by (cases u) (auto simp: words_then_def)
next
  assume "w \<in> words_then {u. l # u \<in> A} B \<or> ([] \<in> A \<and> l # w \<in> B)"
  then show "l # w \<in> words_then A B"
  proof
    assume "w \<in> words_then {u. l # u \<in> A} B"
    then obtain u v where "w = u @ v" "l # u \<in> A" "v \<in> B" by (auto simp: words_then_def)
    then have "l # w = (l # u) @ v" "l # u \<in> A" "v \<in> B" by simp_all
    then show ?thesis unfolding words_then_def by blast
  next
    assume "[] \<in> A \<and> l # w \<in> B"
    then have "l # w = [] @ (l # w)" "[] \<in> A" "l # w \<in> B" by simp_all
    then show ?thesis unfolding words_then_def by blast
  qed
qed

lemma words_star_Cons: "l # w \<in> words_star A \<longleftrightarrow> w \<in> words_then {u. l # u \<in> A} (words_star A)"
proof
  have "v \<in> words_star A \<Longrightarrow> v = l # w \<Longrightarrow> w \<in> words_then {u. l # u \<in> A} (words_star A)" for v
  proof (induction rule: words_star.induct)
    case (star_cons u v)
    then show ?case by (cases u) (auto simp: words_then_def)
  qed simp
  then show "l # w \<in> words_star A \<Longrightarrow> w \<in> words_then {u. l # u \<in> A} (words_star A)" by blast
next
  assume "w \<in> words_then {u. l # u \<in> A} (words_star A)"
  then obtain u v where "w = u @ v" "l # u \<in> A" "v \<in> words_star A" by (auto simp: words_then_def)
  then show "l # w \<in> words_star A" using words_star.star_cons [of "l # u" A v] by simp
qed

lemma derivative_words: "words (derivative e l) = {w. l # w \<in> words e}"
proof (induction e)
  case (PathThen a b)
  then show ?case by (auto simp: Let_def nullable_words words_then_Cons)
next
  case (PathStar e)
  then show ?case by (auto simp: words_star_Cons)
qed auto

section \<open>Dead paths\<close>

text \<open>Expressions made by the constructors have \<^verbatim>\<open>Empty\<close> only at the top, so a dead residual is \<^verbatim>\<open>Empty\<close>.\<close>

fun alive :: "'l path_expr \<Rightarrow> bool" where
  "alive PathEmpty = False"
| "alive PathEpsilon = True"
| "alive (PathLabel l) = True"
| "alive (PathOr a b) = (alive a \<and> alive b)"
| "alive (PathThen a b) = (alive a \<and> alive b)"
| "alive (PathStar e) = alive e"

definition trim :: "'l path_expr \<Rightarrow> bool" where
  "trim e \<longleftrightarrow> e = PathEmpty \<or> alive e"

lemma trim_intros [simp, intro]: "trim PathEmpty" "trim PathEpsilon" "trim (PathLabel l)" "alive e \<Longrightarrow> trim e"
  by (simp_all add: trim_def)

lemma trim_or: "trim a \<Longrightarrow> trim b \<Longrightarrow> trim (path_or a b)"
  by (cases "(a, b)" rule: path_or.cases) (auto simp: trim_def)

lemma trim_then: "trim a \<Longrightarrow> trim b \<Longrightarrow> trim (path_then a b)"
  by (cases "(a, b)" rule: path_then.cases) (auto simp: trim_def)

lemma trim_star: "trim e \<Longrightarrow> trim (path_star e)"
  by (cases e rule: path_star.cases) (auto simp: trim_def)

lemma trim_derivative: "trim e \<Longrightarrow> trim (derivative e l)"
proof (induction e)
  case (PathOr a b)
  then show ?case by (auto simp: trim_def [of "PathOr a b"] intro: trim_or)
next
  case (PathThen a b)
  then show ?case by (auto simp: Let_def trim_def [of "PathThen a b"] intro!: trim_or trim_then)
next
  case (PathStar e)
  then have e: "alive e" by (simp add: trim_def)
  then have "alive (PathStar e)" by simp
  with PathStar.IH e show ?case by (auto intro!: trim_then)
qed auto

lemma alive_words: "alive e \<Longrightarrow> words e \<noteq> {}"
  by (induction e) (auto simp: words_then_def intro: words_star.intros)

lemma dead_iff: "trim e \<Longrightarrow> words e = {} \<longleftrightarrow> e = PathEmpty"
  using alive_words [of e] by (auto simp: trim_def)

section \<open>Labels\<close>

lemma walk_labels_props:
  "set (walk_labels e out) = set out \<union> set_path_expr e" "distinct out \<Longrightarrow> distinct (walk_labels e out)"
proof -
  show s: "set (walk_labels e out) = set out \<union> set_path_expr e" for out :: "'a list"
    by (induction e arbitrary: out) auto
  show "distinct out \<Longrightarrow> distinct (walk_labels e out)" by (induction e arbitrary: out) auto
qed

lemma path_labels_set [simp]: "set (path_labels e) = set_path_expr e"
  by (simp add: path_labels_def walk_labels_props)

lemma path_labels_distinct [simp]: "distinct (path_labels e)"
  by (simp add: path_labels_def walk_labels_props)

lemma set_path_or: "set_path_expr (path_or a b) \<subseteq> set_path_expr a \<union> set_path_expr b"
  by (cases "(a, b)" rule: path_or.cases) auto

lemma set_path_then: "set_path_expr (path_then a b) \<subseteq> set_path_expr a \<union> set_path_expr b"
  by (cases "(a, b)" rule: path_then.cases) auto

lemma derivative_labels: "set_path_expr (derivative e l) \<subseteq> set_path_expr e"
proof (induction e)
  case (PathOr a b)
  then show ?case using set_path_or [of "derivative a l" "derivative b l"] by auto
next
  case (PathThen a b)
  have "set_path_expr (path_then (derivative a l) b) \<subseteq> set_path_expr a \<union> set_path_expr b"
    using set_path_then [of "derivative a l" b] PathThen by blast
  then have "set_path_expr (path_or (path_then (derivative a l) b) (derivative b l)) \<subseteq> set_path_expr a \<union> set_path_expr b"
    using set_path_or [of "path_then (derivative a l) b" "derivative b l"] PathThen by blast
  with \<open>set_path_expr (path_then (derivative a l) b) \<subseteq> _\<close> show ?case by (simp add: Let_def)
next
  case (PathStar e)
  then show ?case using set_path_then [of "derivative e l" "PathStar e"] by auto
qed auto

lemma derivative_other: "l \<notin> set_path_expr e \<Longrightarrow> words (derivative e l) = {}"
proof -
  have "w \<in> words e \<Longrightarrow> set w \<subseteq> set_path_expr e" for w
  proof (induction e arbitrary: w)
    case (PathThen a b)
    then show ?case by (fastforce simp: words_then_def)
  next
    case (PathStar e)
    from PathStar.prems have "w \<in> words_star (words e)" by simp
    then show ?case by induction (use PathStar.IH in auto)
  qed auto
  then show "l \<notin> set_path_expr e \<Longrightarrow> words (derivative e l) = {}" by (fastforce simp: derivative_words)
qed

section \<open>Property\<close>

text \<open>
  C21: the constructors, nullability, derivatives and labels of path expressions mean what they
  should: simplification keeps the language, a nullable expression accepts the empty path, the
  derivative by a label accepts what may follow it, and \<^verbatim>\<open>labels\<close> lists every label once.
\<close>

theorem path_expr_language:
  "words (path_or a b) = words a \<union> words b \<and> words (path_then a b) = {u @ v | u v. u \<in> words a \<and> v \<in> words b} \<and>
   words (path_star a) = words_star (words a) \<and> (path_nullable a \<longleftrightarrow> [] \<in> words a) \<and>
   words (derivative a l) = {w. l # w \<in> words a} \<and> set (path_labels a) = set_path_expr a \<and> distinct (path_labels a)"
  using words_then_def [of "words a" "words b"] by (simp add: nullable_words derivative_words)

end
