(* ===== verification/Path_Order.thy ===== *)
theory Path_Order
  imports Prelude
begin

text \<open>
  \<^verbatim>\<open>PathOrder\<close> of \<^verbatim>\<open>src/framework/scope.rs\<close>: preferences between labels, closed transitively after
  every \<^verbatim>\<open>prefer\<close>, the comparison of resolved paths, and \<^verbatim>\<open>partition_visible\<close>, which splits the
  answers of a resolution into visible and shadowed ones.
\<close>

section \<open>Preferences\<close>

record 'l path_order =
  preferred :: "('l \<times> 'l) list"

definition order_new :: "'l path_order" where
  "order_new = \<lparr>preferred = []\<rparr>"

text \<open>The body of the two inner loops, and one pass over a snapshot of the relations.\<close>

definition close_pair :: "'l \<times> 'l \<Rightarrow> 'l \<times> 'l \<Rightarrow> ('l \<times> 'l) list \<times> bool \<Rightarrow> ('l \<times> 'l) list \<times> bool" where
  "close_pair = (\<lambda>(left, middle) (candidate, right) (relations, changed).
     if middle = candidate \<and> left \<noteq> right \<and> (left, right) \<notin> set relations
     then (relations @ [(left, right)], True) else (relations, changed))"

definition close_pass :: "('l \<times> 'l) list \<Rightarrow> ('l \<times> 'l) list \<times> bool" where
  "close_pass snapshot = fold (\<lambda>lm. fold (close_pair lm) snapshot) snapshot (snapshot, False)"

definition composed :: "('l \<times> 'l) set \<Rightarrow> ('l \<times> 'l) set" where
  "composed R = {(a, c). a \<noteq> c \<and> (\<exists>b. (a, b) \<in> R \<and> (b, c) \<in> R)}"

lemma close_row:
  "\<exists>new. fold (close_pair (a, b)) rs (rel, ch) = (rel @ new, ch \<or> new \<noteq> []) \<and> distinct new \<and>
     set new = {(a, c) | c. (b, c) \<in> set rs \<and> a \<noteq> c} - set rel"
proof (induction rs arbitrary: rel ch)
  case (Cons x rs)
  obtain b' c where x: "x = (b', c)" by (cases x)
  show ?case
  proof (cases "b = b' \<and> a \<noteq> c \<and> (a, c) \<notin> set rel")
    case True
    obtain new where new: "fold (close_pair (a, b)) rs (rel @ [(a, c)], True) = ((rel @ [(a, c)]) @ new, True \<or> new \<noteq> [])"
        "distinct new" "set new = {(a, d) | d. (b, d) \<in> set rs \<and> a \<noteq> d} - set (rel @ [(a, c)])"
      using Cons.IH [of "rel @ [(a, c)]" True] by blast
    have "set ((a, c) # new) = {(a, d) | d. (b, d) \<in> set (x # rs) \<and> a \<noteq> d} - set rel" using new(3) True x by auto
    moreover have "distinct ((a, c) # new)" using new(2,3) by auto
    ultimately show ?thesis using new(1) True x by (intro exI [of _ "(a, c) # new"]) (simp add: close_pair_def)
  next
    case False
    obtain new where new: "fold (close_pair (a, b)) rs (rel, ch) = (rel @ new, ch \<or> new \<noteq> [])"
        "distinct new" "set new = {(a, d) | d. (b, d) \<in> set rs \<and> a \<noteq> d} - set rel"
      using Cons.IH [of rel ch] by blast
    moreover have "{(a, d) | d. (b, d) \<in> set rs \<and> a \<noteq> d} - set rel = {(a, d) | d. (b, d) \<in> set (x # rs) \<and> a \<noteq> d} - set rel"
      using False x by auto
    ultimately show ?thesis using False x by (intro exI [of _ new]) (auto simp: close_pair_def)
  qed
qed auto

lemma close_rows:
  "\<exists>new. fold (\<lambda>lm. fold (close_pair lm) rs) ls (rel, ch) = (rel @ new, ch \<or> new \<noteq> []) \<and> distinct new \<and>
     set new = {(a, c). a \<noteq> c \<and> (\<exists>b. (a, b) \<in> set ls \<and> (b, c) \<in> set rs)} - set rel"
proof (induction ls arbitrary: rel ch)
  case (Cons x ls)
  obtain a b where x: "x = (a, b)" by (cases x)
  obtain n1 where n1: "fold (close_pair (a, b)) rs (rel, ch) = (rel @ n1, ch \<or> n1 \<noteq> [])" "distinct n1"
      "set n1 = {(a, c) | c. (b, c) \<in> set rs \<and> a \<noteq> c} - set rel"
    using close_row [of a b rs rel ch] by blast
  obtain n2 where n2: "fold (\<lambda>lm. fold (close_pair lm) rs) ls (rel @ n1, ch \<or> n1 \<noteq> []) = ((rel @ n1) @ n2, (ch \<or> n1 \<noteq> []) \<or> n2 \<noteq> [])"
      "distinct n2" "set n2 = {(a, c). a \<noteq> c \<and> (\<exists>b. (a, b) \<in> set ls \<and> (b, c) \<in> set rs)} - set (rel @ n1)"
    using Cons.IH [of "rel @ n1" "ch \<or> n1 \<noteq> []"] by blast
  have "set (n1 @ n2) = {(a, c). a \<noteq> c \<and> (\<exists>b. (a, b) \<in> set (x # ls) \<and> (b, c) \<in> set rs)} - set rel"
    using n1(3) n2(3) x by auto
  moreover have "distinct (n1 @ n2)" using n1(2) n2(2,3) by auto
  ultimately show ?case using n1(1) n2(1) x by (intro exI [of _ "n1 @ n2"]) auto
qed auto

lemma close_pass_result:
  obtains new where "close_pass rel = (rel @ new, new \<noteq> [])" "distinct new" "set new = composed (set rel) - set rel"
  using close_rows [of rel rel rel False] by (auto simp: close_pass_def composed_def)

lemma composed_labels: "composed R \<subseteq> Field R \<times> Field R"
  by (auto simp: composed_def intro: FieldI1 FieldI2)

lemma Field_between: "R \<subseteq> S \<Longrightarrow> S \<subseteq> Field R \<times> Field R \<Longrightarrow> Field S = Field R"
  using mono_Field [of R S] by (auto simp: Field_def)

lemma close_pass_grows:
  assumes "close_pass rel = (rel', True)"
  shows "card (Field (set rel') \<times> Field (set rel') - set rel') < card (Field (set rel) \<times> Field (set rel) - set rel)"
proof -
  let ?L = "Field (set rel)"
  obtain new where r: "close_pass rel = (rel @ new, new \<noteq> [])" "distinct new" "set new = composed (set rel) - set rel"
    by (rule close_pass_result)
  then have new: "rel' = rel @ new" "new \<noteq> []" "set new = composed (set rel) - set rel" using assms by simp_all
  have "a \<in> ?L \<and> b \<in> ?L" if "(a, b) \<in> set rel" for a b using FieldI1 [OF that] FieldI2 [OF that] by simp
  then have base: "set rel \<subseteq> ?L \<times> ?L" by (simp add: subset_iff)
  have "set rel' \<subseteq> ?L \<times> ?L" using base new(1,3) composed_labels [of "set rel"] by (simp add: subset_iff)
  then have same: "Field (set rel') = ?L" using new(1) by (intro Field_between) auto
  obtain x where "x \<in> set new" using new(2) by (cases new) auto
  then have "x \<in> ?L \<times> ?L - set rel" "x \<in> set rel'" using new(1,3) composed_labels [of "set rel"] by auto
  then have "?L \<times> ?L - set rel' \<subset> ?L \<times> ?L - set rel" using new(1) by auto
  moreover have "finite (?L \<times> ?L - set rel)" by (simp add: finite_Field)
  ultimately show ?thesis unfolding same by (rule psubset_card_mono [rotated])
qed

function close_relations :: "('l \<times> 'l) list \<Rightarrow> ('l \<times> 'l) list" where
  "close_relations rel = (case close_pass rel of (rel', changed) \<Rightarrow> if changed then close_relations rel' else rel')"
  by pat_completeness auto
termination
  by (relation "measure (\<lambda>rel. card (Field (set rel) \<times> Field (set rel) - set rel))")
    (auto dest: close_pass_grows [OF sym])

declare close_relations.simps [simp del]

definition prefer_label :: "'l \<Rightarrow> 'l \<Rightarrow> 'l path_order \<Rightarrow> 'l path_order" where
  "prefer_label pref weaker order =
     (let relations = preferred order;
          relations = (if pref \<noteq> weaker \<and> (pref, weaker) \<notin> set relations then relations @ [(pref, weaker)] else relations)
      in order\<lparr>preferred := close_relations relations\<rparr>)"

lemma close_relations_spec:
  assumes "(\<And>a. (a, a) \<notin> set rel)"
  shows "set (close_relations rel) = (set rel)\<^sup>+ - Id" "distinct rel \<Longrightarrow> distinct (close_relations rel)"
proof -
  have "set (close_relations rel) = (set rel)\<^sup>+ - Id \<and> (distinct rel \<longrightarrow> distinct (close_relations rel))"
    using assms
  proof (induction rel rule: close_relations.induct)
    case (1 rel)
    obtain new where new: "close_pass rel = (rel @ new, new \<noteq> [])" "distinct new" "set new = composed (set rel) - set rel"
      by (rule close_pass_result)
    have d: "distinct rel \<longrightarrow> distinct (rel @ new)" using new(2,3) by auto
    have pos: "composed (set rel) \<subseteq> (set rel)\<^sup>+" by (auto simp: composed_def)
    have both: "(set rel)\<^sup>+ = (set (rel @ new))\<^sup>+"
    proof
      show "(set rel)\<^sup>+ \<subseteq> (set (rel @ new))\<^sup>+" by (rule trancl_mono_subset) auto
      have "set (rel @ new) \<subseteq> (set rel)\<^sup>+" using pos new(3) by auto
      then show "(set (rel @ new))\<^sup>+ \<subseteq> (set rel)\<^sup>+" using trancl_mono_subset [of "set (rel @ new)" "(set rel)\<^sup>+"] by simp
    qed
    show ?case
    proof (cases "new = []")
      case True
      then have closed: "composed (set rel) \<subseteq> set rel" using new(3) by auto
      have "(a, c) \<in> (set rel)\<^sup>+ \<Longrightarrow> a = c \<or> (a, c) \<in> set rel" for a c
      proof (induction rule: trancl_induct)
        case (step b c)
        then show ?case using closed by (auto simp: composed_def)
      qed simp
      then have "(set rel)\<^sup>+ - Id = set rel" using "1.prems" by auto
      then show ?thesis using True new(1) by (simp add: close_relations.simps [of rel])
    next
      case False
      have "(a, a) \<notin> set (rel @ new)" for a using "1.prems" new(3) by (auto simp: composed_def)
      then have "set (close_relations (rel @ new)) = (set (rel @ new))\<^sup>+ - Id \<and>
          (distinct (rel @ new) \<longrightarrow> distinct (close_relations (rel @ new)))"
        using "1.IH" [OF new(1) [symmetric]] False by blast
      then show ?thesis using False new(1) d both by (simp add: close_relations.simps [of rel])
    qed
  qed
  then show "set (close_relations rel) = (set rel)\<^sup>+ - Id" "distinct rel \<Longrightarrow> distinct (close_relations rel)" by auto
qed

text \<open>What a script of preferences builds: its transitive closure without the diagonal.\<close>

definition order_of :: "('l \<times> 'l) list \<Rightarrow> 'l path_order" where
  "order_of ps = fold (\<lambda>(a, b). prefer_label a b) ps order_new"

lemma trancl_off_diagonal: "((R\<^sup>+ - Id) \<union> S)\<^sup>+ - Id = (R \<union> S)\<^sup>+ - Id"
proof -
  have "((R\<^sup>+ - Id) \<union> S)\<^sup>+ \<subseteq> (R \<union> S)\<^sup>+"
  proof -
    have "(R\<^sup>+ - Id) \<union> S \<subseteq> (R \<union> S)\<^sup>+" using trancl_mono_subset [of R "R \<union> S"] by auto
    from trancl_mono_subset [OF this] show ?thesis by simp
  qed
  moreover have "(a, b) \<in> (R \<union> S)\<^sup>+ \<Longrightarrow> a = b \<or> (a, b) \<in> ((R\<^sup>+ - Id) \<union> S)\<^sup>+" for a b
  proof (induction rule: trancl_induct)
    case (base b)
    then show ?case by (cases "a = b") (auto intro!: r_into_trancl)
  next
    case (step b c)
    then have "b = c \<or> (b, c) \<in> (R\<^sup>+ - Id) \<union> S" by auto
    then show ?case using step.IH by (auto intro: trancl_into_trancl r_into_trancl)
  qed
  ultimately show ?thesis by auto
qed

lemma order_of_preferred: "set (preferred (order_of ps)) = (set ps)\<^sup>+ - Id"
proof (induction ps rule: rev_induct)
  case (snoc p ps)
  obtain a b where p: "p = (a, b)" by (cases p)
  let ?R = "preferred (order_of ps)"
  let ?R' = "if a \<noteq> b \<and> (a, b) \<notin> set ?R then ?R @ [(a, b)] else ?R"
  have irr: "(c, c) \<notin> set ?R'" for c using snoc by auto
  have "set (preferred (order_of (ps @ [p]))) = set (close_relations ?R')"
    by (simp add: order_of_def p prefer_label_def Let_def)
  also have "\<dots> = (set ?R')\<^sup>+ - Id" by (rule close_relations_spec(1)) (rule irr)
  also have "set ?R' = (set ps)\<^sup>+ - Id \<union> ({(a, b)} - Id)" unfolding snoc [symmetric] by auto
  also have "(\<dots>)\<^sup>+ - Id = (set ps \<union> ({(a, b)} - Id))\<^sup>+ - Id" by (rule trancl_off_diagonal)
  also have "\<dots> = (set (ps @ [p]))\<^sup>+ - Id"
  proof (cases "a = b")
    case True
    have "(x, y) \<in> (insert (a, a) (set ps))\<^sup>+ \<Longrightarrow> x = y \<or> (x, y) \<in> (set ps)\<^sup>+" for x y
      by (induction rule: trancl_induct) (auto intro: trancl_into_trancl)
    moreover have "(set ps)\<^sup>+ \<subseteq> (insert (a, a) (set ps))\<^sup>+" by (rule trancl_mono_subset) auto
    ultimately show ?thesis using True p by (auto simp: subset_iff)
  next
    case False
    then have "set ps \<union> ({(a, b)} - Id) = set (ps @ [p])" using p by auto
    then show ?thesis by (simp only:)
  qed
  finally show ?case .
qed (simp add: order_of_def order_new_def)

section \<open>Comparing paths\<close>

datatype ordering = OrdLess | OrdEqual | OrdGreater

fun ord_reverse :: "ordering \<Rightarrow> ordering" where
  "ord_reverse OrdLess = OrdGreater"
| "ord_reverse OrdEqual = OrdEqual"
| "ord_reverse OrdGreater = OrdLess"

definition ord_cmp :: "nat \<Rightarrow> nat \<Rightarrow> ordering" where
  "ord_cmp m n = (if m < n then OrdLess else if m = n then OrdEqual else OrdGreater)"

text \<open>A scope is a graph node of type \<open>'n\<close>.\<close>

record ('n, 'l, 'd) resolution_path =
  rp_scopes :: "'n list"
  rp_labels :: "'l list"
  rp_data :: 'd

fun compare_zipped :: "'l path_order \<Rightarrow> ('l \<times> 'l) list \<Rightarrow> ordering option \<Rightarrow> ordering option" where
  "compare_zipped order [] rest = rest"
| "compare_zipped order ((l, r) # ps) rest =
     (if l = r then compare_zipped order ps rest
      else if (l, r) \<in> set (preferred order) then Some OrdGreater
      else if (r, l) \<in> set (preferred order) then Some OrdLess
      else None)"

definition path_compare :: "'l path_order \<Rightarrow> ('n, 'l, 'd) resolution_path \<Rightarrow> ('n, 'l, 'd) resolution_path \<Rightarrow> ordering option" where
  "path_compare order left right =
     compare_zipped order (zip (rp_labels left) (rp_labels right))
       (Some (ord_reverse (ord_cmp (length (rp_labels left)) (length (rp_labels right)))))"

text \<open>The winner: a label preferred at the first difference, or a proper prefix.\<close>

fun beats :: "('l \<times> 'l) set \<Rightarrow> 'l list \<Rightarrow> 'l list \<Rightarrow> bool" where
  "beats R [] [] = False"
| "beats R [] (r # rs) = True"
| "beats R (l # ls) [] = False"
| "beats R (l # ls) (r # rs) = (if l = r then beats R ls rs else (l, r) \<in> R)"

lemma compare_greater:
  "path_compare order p q = Some OrdGreater \<longleftrightarrow> beats (set (preferred order)) (rp_labels p) (rp_labels q)"
proof -
  have "compare_zipped order (zip ls rs) (Some (ord_reverse (ord_cmp (length ls) (length rs)))) = Some OrdGreater \<longleftrightarrow>
      beats (set (preferred order)) ls rs" for ls rs
    by (induction "set (preferred order)" ls rs rule: beats.induct) (auto simp: ord_cmp_def)
  then show ?thesis by (simp add: path_compare_def)
qed

lemma beats_irrefl: "\<not> beats R p p"
  by (induction p) simp_all

lemma beats_trans: "trans R \<Longrightarrow> antisym R \<Longrightarrow> beats R p q \<Longrightarrow> beats R q r \<Longrightarrow> beats R p r"
proof (induction R p q arbitrary: r rule: beats.induct)
  case (2 R c cs)
  then show ?case by (cases r) auto
next
  case (4 R a as b bs)
  obtain c cs where c: "r = c # cs" using 4(5) by (cases r) (auto split: if_splits)
  show ?case
  proof (cases "a = b")
    case True
    then show ?thesis using 4 c by auto
  next
    case False
    then have ab: "(a, b) \<in> R" using 4(4) by simp
    show ?thesis
    proof (cases "b = c")
      case True
      then show ?thesis using ab False c by simp
    next
      case bc: False
      then have "(b, c) \<in> R" using 4(5) c by simp
      then have "(a, c) \<in> R" "a \<noteq> c" using ab 4(2,3) False by (auto dest: transD antisymD)
      then show ?thesis using c by simp
    qed
  qed
qed simp_all

lemma beats_asym: "trans R \<Longrightarrow> antisym R \<Longrightarrow> beats R p q \<Longrightarrow> \<not> beats R q p"
  using beats_trans beats_irrefl by blast

text \<open>Preferences without a cycle give a strict partial order of labels.\<close>

lemma order_of_strict:
  assumes "acyclic (set ps)"
  shows "set (preferred (order_of ps)) = (set ps)\<^sup>+" "trans (set (preferred (order_of ps)))" "antisym (set (preferred (order_of ps)))"
proof -
  show s: "set (preferred (order_of ps)) = (set ps)\<^sup>+"
    using assms by (auto simp: order_of_preferred acyclic_def)
  show "trans (set (preferred (order_of ps)))" unfolding s by (rule trans_trancl)
  show "antisym (set (preferred (order_of ps)))" unfolding s
    using assms trancl_trans by (fastforce simp: acyclic_def antisym_def)
qed

section \<open>Visible and shadowed paths\<close>

text \<open>\<open>paths\<close> lists a hash set: the order is arbitrary, the members distinct.\<close>

definition dominated_by_any :: "'l path_order \<Rightarrow> ('n, 'l, 'd) resolution_path list \<Rightarrow> nat \<Rightarrow> ('n, 'l, 'd) resolution_path \<Rightarrow> bool" where
  "dominated_by_any order paths i path =
     list_ex (\<lambda>(j, other). j \<noteq> i \<and> path_compare order other path = Some OrdGreater) (List.enumerate 0 paths)"

definition partition_visible :: "'l path_order \<Rightarrow> ('n, 'l, 'd) resolution_path list \<Rightarrow>
    ('n, 'l, 'd) resolution_path list \<times> (('n, 'l, 'd) resolution_path \<times> ('n, 'l, 'd) resolution_path list) list" where
  "partition_visible order paths =
     (let visible = map snd (filter (\<lambda>(i, path). \<not> dominated_by_any order paths i path) (List.enumerate 0 paths));
          dominated = map snd (filter (\<lambda>(i, path). dominated_by_any order paths i path) (List.enumerate 0 paths))
      in (visible, map (\<lambda>path. (path, filter (\<lambda>c. path_compare order c path = Some OrdGreater) visible)) dominated))"

abbreviation path_beats :: "'l path_order \<Rightarrow> ('n, 'l, 'd) resolution_path \<Rightarrow> ('n, 'l, 'd) resolution_path \<Rightarrow> bool" where
  "path_beats order p q \<equiv> path_compare order p q = Some OrdGreater"

lemma path_beats_irrefl: "\<not> path_beats order p p"
  by (simp add: compare_greater beats_irrefl)

lemma filter_enumerate:
  "(\<And>i. i < length xs \<Longrightarrow> Q (n + i) (xs ! i) \<longleftrightarrow> P (xs ! i)) \<Longrightarrow>
   map snd (filter (\<lambda>(i, x). Q i x) (List.enumerate n xs)) = filter P xs"
proof (induction xs arbitrary: n)
  case (Cons x xs)
  have "Q n x \<longleftrightarrow> P x" using Cons.prems [of 0] by simp
  moreover have "map snd (filter (\<lambda>(i, x). Q i x) (List.enumerate (Suc n) xs)) = filter P xs"
    using Cons.prems [of "Suc _"] by (intro Cons.IH) simp
  ultimately show ?case by simp
qed simp

lemma dominated_iff:
  "i < length paths \<Longrightarrow> dominated_by_any order paths i (paths ! i) \<longleftrightarrow> (\<exists>q \<in> set paths. path_beats order q (paths ! i))"
proof -
  assume "i < length paths"
  have "(j, q) \<in> set (List.enumerate 0 paths) \<longleftrightarrow> j < length paths \<and> paths ! j = q" for j q
    by (auto simp: in_set_enumerate_eq)
  then have "dominated_by_any order paths i (paths ! i) \<longleftrightarrow>
      (\<exists>j < length paths. j \<noteq> i \<and> path_beats order (paths ! j) (paths ! i))"
    unfolding dominated_by_any_def list_ex_iff by fastforce
  also have "\<dots> \<longleftrightarrow> (\<exists>j < length paths. path_beats order (paths ! j) (paths ! i))"
    using path_beats_irrefl by blast
  also have "\<dots> \<longleftrightarrow> (\<exists>q \<in> set paths. path_beats order q (paths ! i))" by (metis in_set_conv_nth)
  finally show ?thesis .
qed

lemma partition_visible_eq:
  "partition_visible order paths =
     (let visible = filter (\<lambda>p. \<not> (\<exists>q \<in> set paths. path_beats order q p)) paths in
        (visible, map (\<lambda>p. (p, filter (\<lambda>c. path_beats order c p) visible))
          (filter (\<lambda>p. \<exists>q \<in> set paths. path_beats order q p) paths)))"
proof -
  have v: "map snd (filter (\<lambda>(i, p). \<not> dominated_by_any order paths i p) (List.enumerate 0 paths)) =
      filter (\<lambda>p. \<not> (\<exists>q \<in> set paths. path_beats order q p)) paths"
    by (rule filter_enumerate) (simp add: dominated_iff)
  have d: "map snd (filter (\<lambda>(i, p). dominated_by_any order paths i p) (List.enumerate 0 paths)) =
      filter (\<lambda>p. \<exists>q \<in> set paths. path_beats order q p) paths"
    by (rule filter_enumerate) (simp add: dominated_iff)
  show ?thesis unfolding partition_visible_def Let_def v d ..
qed

lemma best_beats:
  assumes "acyclic (set ps)" "p \<in> set paths" "q \<in> set paths" "path_beats (order_of ps) q p"
  shows "\<exists>c \<in> set paths. path_beats (order_of ps) c p \<and> \<not> (\<exists>q \<in> set paths. path_beats (order_of ps) q c)"
  using assms(3,4)
proof (induction "card {r \<in> set paths. path_beats (order_of ps) r q}" arbitrary: q rule: less_induct)
  case less
  note strict = order_of_strict [OF assms(1)]
  show ?case
  proof (cases "\<exists>r \<in> set paths. path_beats (order_of ps) r q")
    case True
    then obtain r where r: "r \<in> set paths" "path_beats (order_of ps) r q" by blast
    let ?up = "\<lambda>q. {r \<in> set paths. path_beats (order_of ps) r q}"
    have "?up r \<subseteq> ?up q" using r(2) strict(2,3) by (auto simp: compare_greater intro: beats_trans)
    moreover have "r \<in> ?up q" "r \<notin> ?up r" using r path_beats_irrefl by auto
    ultimately have "card (?up r) < card (?up q)" by (intro psubset_card_mono) auto
    moreover have "path_beats (order_of ps) r p"
      using r(2) less.prems(2) strict(2,3) by (auto simp: compare_greater intro: beats_trans)
    ultimately show ?thesis using less.hyps [of r] r(1) by blast
  next
    case False
    then show ?thesis using less.prems by blast
  qed
qed

section \<open>Properties\<close>

text \<open>
  C22: \<^verbatim>\<open>prefer\<close> always returns, and after any script of preferences the relation is the transitive
  closure of the stated pairs without the diagonal; if the pairs have no cycle, comparing paths is a
  strict partial order.
\<close>

theorem path_order_exact:
  "set (preferred (order_of ps)) = (set ps)\<^sup>+ - Id \<and>
   (acyclic (set ps) \<longrightarrow>
     (\<forall>p q r. path_compare (order_of ps) p q = Some OrdGreater \<longrightarrow> path_compare (order_of ps) q r = Some OrdGreater \<longrightarrow>
        path_compare (order_of ps) p r = Some OrdGreater) \<and>
     (\<forall>p q. path_compare (order_of ps) p q = Some OrdGreater \<longrightarrow> path_compare (order_of ps) q p \<noteq> Some OrdGreater))"
proof (intro conjI impI)
  show "set (preferred (order_of ps)) = (set ps)\<^sup>+ - Id" by (rule order_of_preferred)
  assume "acyclic (set ps)"
  note strict = order_of_strict(2,3) [OF this]
  show "\<forall>p q r. path_compare (order_of ps) p q = Some OrdGreater \<longrightarrow> path_compare (order_of ps) q r = Some OrdGreater \<longrightarrow>
        path_compare (order_of ps) p r = Some OrdGreater"
    unfolding compare_greater using beats_trans [OF strict] by blast
  show "\<forall>p q. path_compare (order_of ps) p q = Some OrdGreater \<longrightarrow> path_compare (order_of ps) q p \<noteq> Some OrdGreater"
    unfolding compare_greater using beats_asym [OF strict] by blast
qed

text \<open>A path of one step.\<close>

definition one_step :: "nat \<Rightarrow> (nat, nat, nat) resolution_path" where
  "one_step l = \<lparr>rp_scopes = [0, l], rp_labels = [l], rp_data = l\<rparr>"

lemmas run_order = order_of_def order_new_def prefer_label_def close_relations.simps close_pass_def close_pair_def
  path_compare_def one_step_def ord_cmp_def Let_def

lemma ascending_acyclic: "(\<And>a b. (a, b) \<in> set ps \<Longrightarrow> (a :: nat) < b) \<Longrightarrow> acyclic (set ps)"
  by (rule acyclic_subset [OF wf_acyclic [OF wf_less_than]]) auto

theorem path_order_exact_witness:
  "(1, 3) \<in> set (preferred (order_of [(1 :: nat, 2), (2, 3)])) \<and>
   path_compare (order_of [(1, 2), (2, 3)]) (one_step 1) (one_step 3) = Some OrdGreater"
proof
  have "(1 :: nat, 2) \<in> (set [(1, 2), (2, 3)])\<^sup>+" "(2 :: nat, 3) \<in> (set [(1, 2), (2, 3)])\<^sup>+" by auto
  then have "(1, 3) \<in> (set [(1 :: nat, 2), (2, 3)])\<^sup>+ - Id" using trancl_trans by fastforce
  then show "(1, 3) \<in> set (preferred (order_of [(1 :: nat, 2), (2, 3)]))"
    using path_order_exact [of "[(1 :: nat, 2), (2, 3)]"] by blast
  have "path_compare (order_of [(1, 2), (2, 3)]) (one_step 1) (one_step 2) = Some OrdGreater"
    "path_compare (order_of [(1, 2), (2, 3)]) (one_step 2) (one_step 3) = Some OrdGreater"
    by (simp_all add: run_order)
  moreover have "acyclic (set [(1 :: nat, 2), (2, 3)])" by (rule ascending_acyclic) auto
  ultimately show "path_compare (order_of [(1, 2), (2, 3)]) (one_step 1) (one_step 3) = Some OrdGreater"
    using path_order_exact [of "[(1 :: nat, 2), (2, 3)]"] by blast
qed

text \<open>
  under preferences without a cycle, \<^verbatim>\<open>partition_visible\<close> keeps exactly the paths that no other
  path beats, and every other path is shadowed with a nonempty list of visible paths that beat it;
  of a nonempty set of paths at least one is visible.
\<close>

theorem partition_visible_correct:
  assumes "acyclic (set ps)" "partition_visible (order_of ps) paths = (visible, shadowed)"
  shows "set visible = {p \<in> set paths. \<forall>q \<in> set paths. path_compare (order_of ps) q p \<noteq> Some OrdGreater} \<and>
    fst ` set shadowed = set paths - set visible \<and>
    (\<forall>(p, by) \<in> set shadowed. by \<noteq> [] \<and> set by = {q \<in> set visible. path_compare (order_of ps) q p = Some OrdGreater}) \<and>
    (paths \<noteq> [] \<longrightarrow> visible \<noteq> [])"
proof -
  let ?beaten = "\<lambda>p. \<exists>q \<in> set paths. path_beats (order_of ps) q p"
  note split = assms(2) [unfolded partition_visible_eq Let_def prod.inject]
  have v: "visible = filter (\<lambda>p. \<not> ?beaten p) paths" by (rule conjunct1 [OF split, symmetric])
  have s: "shadowed = map (\<lambda>p. (p, filter (\<lambda>c. path_beats (order_of ps) c p) visible)) (filter ?beaten paths)"
    using conjunct2 [OF split] v by simp
  have best: "\<exists>c \<in> set visible. path_beats (order_of ps) c p" if "p \<in> set paths" "?beaten p" for p
    using best_beats [OF assms(1) that(1)] that(2) by (auto simp: v)
  have "visible \<noteq> []" if nonempty: "paths \<noteq> []"
  proof -
    obtain p where "p \<in> set paths" using last_in_set [OF nonempty] by blast
    then show ?thesis using best [of p] by (cases "?beaten p") (auto simp: v filter_empty_conv)
  qed
  moreover have "filter (\<lambda>c. path_beats (order_of ps) c p) visible \<noteq> []" if "p \<in> set paths" "?beaten p" for p
    using best [OF that] by (simp add: filter_empty_conv)
  ultimately show ?thesis unfolding s by (simp add: v image_image) (auto simp: v)
qed

theorem partition_visible_correct_witness:
  "partition_visible (order_of [(1, 2)]) [one_step 1, one_step 2] = ([one_step 1], [(one_step 2, [one_step 1])]) \<and>
   fst ` set [(one_step 2, [one_step 1])] = set [one_step 1, one_step 2] - set [one_step 1]"
proof -
  have run: "partition_visible (order_of [(1, 2)]) [one_step 1, one_step 2] = ([one_step 1], [(one_step 2, [one_step 1])])"
    by (simp add: partition_visible_eq run_order)
  have "acyclic (set [(1 :: nat, 2 :: nat)])" by (rule ascending_acyclic) auto
  from partition_visible_correct [OF this run] run show ?thesis by blast
qed

text \<open>
  contradictory preferences are accepted. \<^verbatim>\<open>prefer(a, b)\<close> followed by \<^verbatim>\<open>prefer(b, a)\<close> keeps both pairs,
  so each of two paths is greater than the other and neither is visible: the order is not strict.
\<close>

theorem contradictory_preferences:
  "path_compare (order_of [(1, 2), (2, 1)]) (one_step 1) (one_step 2) = Some OrdGreater \<and>
   path_compare (order_of [(1, 2), (2, 1)]) (one_step 2) (one_step 1) = Some OrdGreater \<and>
   partition_visible (order_of [(1, 2), (2, 1)]) [one_step 1, one_step 2] = ([], [(one_step 1, []), (one_step 2, [])])"
  by (simp add: partition_visible_eq run_order)

end
