(* ===== verification/Scope_Resolve.thy ===== *)
theory Scope_Resolve
  imports Scope_Path Path_Order
begin

text \<open>
  Reading and resolving scope graphs, \<^verbatim>\<open>src/framework/scope.rs\<close>. A component sees the graph through
  two kinds of facts, node payloads and labelled edge buckets; reading a fact may fail, and the
  failure is returned. \<^verbatim>\<open>resolve\<close> searches the graph along a path expression with an explicit stack,
  each search remembering the states it has been in. What it answers is characterised by routes of
  the graph; that it returns needs a finite set of states, and without one it may not.
\<close>

section \<open>The view of a graph\<close>

datatype 'd scope_node =
    ScopePayload 'd
  | DeclarationPayload 'd
  | ReferencePayload 'd

record ('e, 'n, 'l, 'd) graph_view =
  node_fact :: "'n \<Rightarrow> 'e + 'd scope_node option"
  bucket_fact :: "'n \<Rightarrow> 'l \<Rightarrow> 'e + 'n list"

definition observe_node :: "('e, 'n, 'l, 'd) graph_view \<Rightarrow> 'n \<Rightarrow> 'e + 'd scope_node option" where
  "observe_node g n = node_fact g n"

definition observe_scope :: "('e, 'n, 'l, 'd) graph_view \<Rightarrow> 'n \<Rightarrow> 'e + 'd option" where
  "observe_scope g n = (case node_fact g n of
     Inl e \<Rightarrow> Inl e
   | Inr (Some (ScopePayload d)) \<Rightarrow> Inr (Some d)
   | Inr _ \<Rightarrow> Inr None)"

definition outgoing :: "('e, 'n, 'l, 'd) graph_view \<Rightarrow> 'n \<Rightarrow> 'l \<Rightarrow> 'e + 'n list" where
  "outgoing g source label = bucket_fact g source label"

fun keep_declarations :: "('e, 'n, 'l, 'd) graph_view \<Rightarrow> 'n list \<Rightarrow> 'e + 'n list" where
  "keep_declarations g [] = Inr []"
| "keep_declarations g (n # ns) = (case observe_node g n of
     Inl e \<Rightarrow> Inl e
   | Inr node \<Rightarrow> (case keep_declarations g ns of
       Inl e \<Rightarrow> Inl e
     | Inr rest \<Rightarrow> Inr (case node of Some (DeclarationPayload d) \<Rightarrow> n # rest | _ \<Rightarrow> rest)))"

definition declarations :: "('e, 'n, 'l, 'd) graph_view \<Rightarrow> 'n \<Rightarrow> 'l \<Rightarrow> 'e + 'n list" where
  "declarations g source label = (case outgoing g source label of Inl e \<Rightarrow> Inl e | Inr ns \<Rightarrow> keep_declarations g ns)"

fun declaration_data :: "('e, 'n, 'l, 'd) graph_view \<Rightarrow> 'n list \<Rightarrow> 'e + 'd list" where
  "declaration_data g [] = Inr []"
| "declaration_data g (n # ns) = (case observe_node g n of
     Inl e \<Rightarrow> Inl e
   | Inr node \<Rightarrow> (case declaration_data g ns of
       Inl e \<Rightarrow> Inl e
     | Inr rest \<Rightarrow> Inr (case node of Some (DeclarationPayload d) \<Rightarrow> d # rest | _ \<Rightarrow> rest)))"

definition resolve_name :: "('e, 'n, 'l, 'd) graph_view \<Rightarrow> 'n \<Rightarrow> 'l \<Rightarrow> 'e + 'd list" where
  "resolve_name g source label = (case declarations g source label of Inl e \<Rightarrow> Inl e | Inr ns \<Rightarrow> declaration_data g ns)"

text \<open>Committed facts: a snapshot is read without failures.\<close>

datatype ('n, 'l) graph_key = NodeKey 'n | BucketKey 'n 'l

record ('n, 'l, 'd) graph_snapshot =
  snap_inputs :: "('n, 'l) graph_key list"
  snap_node :: "'n \<Rightarrow> 'd scope_node option"
  snap_outgoing :: "'n \<Rightarrow> 'l \<Rightarrow> 'n list"

definition snapshot_nodes :: "('n, 'l, 'd) graph_snapshot \<Rightarrow> 'n list" where
  "snapshot_nodes s = concat (map (\<lambda>k. case k of NodeKey n \<Rightarrow> [n] | BucketKey n l \<Rightarrow> []) (snap_inputs s))"

definition snapshot_node :: "('n, 'l, 'd) graph_snapshot \<Rightarrow> 'n \<Rightarrow> 'd scope_node option" where
  "snapshot_node s n = snap_node s n"

definition snapshot_scope :: "('n, 'l, 'd) graph_snapshot \<Rightarrow> 'n \<Rightarrow> 'd option" where
  "snapshot_scope s n = Option.bind (snapshot_node s n) (\<lambda>p. case p of
     ScopePayload d \<Rightarrow> Some d | DeclarationPayload d \<Rightarrow> None | ReferencePayload d \<Rightarrow> None)"

definition snapshot_outgoing :: "('n, 'l, 'd) graph_snapshot \<Rightarrow> 'n \<Rightarrow> 'l \<Rightarrow> 'n list" where
  "snapshot_outgoing s n l = snap_outgoing s n l"

definition snapshot_declarations :: "('n, 'l, 'd) graph_snapshot \<Rightarrow> 'n \<Rightarrow> 'l \<Rightarrow> 'n list" where
  "snapshot_declarations s n l =
     filter (\<lambda>m. case snapshot_node s m of Some (DeclarationPayload d) \<Rightarrow> True | _ \<Rightarrow> False) (snapshot_outgoing s n l)"

text \<open>A component that reads committed facts sees what the snapshot functions return.\<close>

definition committed_view :: "('n, 'l, 'd) graph_snapshot \<Rightarrow> ('e, 'n, 'l, 'd) graph_view" where
  "committed_view s = \<lparr>node_fact = (\<lambda>n. Inr (snap_node s n)), bucket_fact = (\<lambda>n l. Inr (snap_outgoing s n l))\<rparr>"

lemma committed_reads:
  "observe_node (committed_view s) n = Inr (snapshot_node s n)"
  "observe_scope (committed_view s) n = Inr (snapshot_scope s n)"
  "outgoing (committed_view s) n l = Inr (snapshot_outgoing s n l)"
  "declarations (committed_view s) n l = Inr (snapshot_declarations s n l)"
proof -
  show reads: "observe_node (committed_view s) n = Inr (snapshot_node s n)" for n
    by (simp add: observe_node_def committed_view_def snapshot_node_def)
  show "observe_scope (committed_view s) n = Inr (snapshot_scope s n)"
    by (simp add: observe_scope_def committed_view_def snapshot_node_def snapshot_scope_def split: option.split scope_node.split)
  show out: "outgoing (committed_view s) n l = Inr (snapshot_outgoing s n l)"
    by (simp add: outgoing_def committed_view_def snapshot_outgoing_def)
  have "keep_declarations (committed_view s) ns =
      Inr (filter (\<lambda>m. case snapshot_node s m of Some (DeclarationPayload d) \<Rightarrow> True | _ \<Rightarrow> False) ns)" for ns
    by (induction ns) (simp_all add: reads split: option.split scope_node.split)
  then show "declarations (committed_view s) n l = Inr (snapshot_declarations s n l)"
    by (simp add: declarations_def out snapshot_declarations_def)
qed

section \<open>The search\<close>

record ('n, 'l) search =
  at_scope :: 'n
  at_expr :: "'l path_expr"
  via_scopes :: "'n list"
  via_labels :: "'l list"
  been :: "('n \<times> 'l path_expr) set"

definition search_start :: "'n \<Rightarrow> 'l path_expr \<Rightarrow> ('n, 'l) search" where
  "search_start n e = \<lparr>at_scope = n, at_expr = e, via_scopes = [n], via_labels = [], been = {(n, e)}\<rparr>"

definition search_next :: "('n, 'l) search \<Rightarrow> 'l \<Rightarrow> 'l path_expr \<Rightarrow> 'n \<Rightarrow> ('n, 'l) search" where
  "search_next s label residual target =
     s\<lparr>at_scope := target, at_expr := residual, via_scopes := via_scopes s @ [target],
       via_labels := via_labels s @ [label], been := insert (target, residual) (been s)\<rparr>"

definition answer_of :: "('n, 'l) search \<Rightarrow> 'd \<Rightarrow> ('n, 'l, 'd) resolution_path" where
  "answer_of s d = \<lparr>rp_scopes = via_scopes s, rp_labels = via_labels s, rp_data = d\<rparr>"

text \<open>The answer of the current state, if it is one. The stack is a list with its top first.\<close>

definition search_answer :: "('e, 'n, 'l, 'd) graph_view \<Rightarrow> ('d scope_node \<Rightarrow> bool) \<Rightarrow> ('n, 'l) search \<Rightarrow>
    'e + ('n, 'l, 'd) resolution_path set" where
  "search_answer g accepts s =
     (if path_nullable (at_expr s) then
        (case observe_node g (at_scope s) of
           Inl e \<Rightarrow> Inl e
         | Inr None \<Rightarrow> Inr {}
         | Inr (Some node) \<Rightarrow>
             (if accepts node then (case node of ScopePayload d \<Rightarrow> Inr {answer_of s d} | _ \<Rightarrow> Inr {}) else Inr {}))
      else Inr {})"

definition push_targets :: "('n, 'l) search \<Rightarrow> 'l \<Rightarrow> 'l path_expr \<Rightarrow> 'n list \<Rightarrow> ('n, 'l) search list \<Rightarrow> ('n, 'l) search list" where
  "push_targets s label residual targets pending =
     fold (\<lambda>target pending. if (target, residual) \<in> been s then pending else search_next s label residual target # pending)
       targets pending"

fun push_labels :: "('e, 'n, 'l, 'd) graph_view \<Rightarrow> ('n, 'l) search \<Rightarrow> 'l list \<Rightarrow> ('n, 'l) search list \<Rightarrow> 'e + ('n, 'l) search list" where
  "push_labels g s [] pending = Inr pending"
| "push_labels g s (label # labels) pending =
     (let residual = derivative (at_expr s) label in
        if residual = PathEmpty then push_labels g s labels pending
        else (case outgoing g (at_scope s) label of
          Inl e \<Rightarrow> Inl e
        | Inr targets \<Rightarrow> push_labels g s labels (push_targets s label residual targets pending)))"

partial_function (option) resolve_loop :: "('e, 'n, 'l, 'd) graph_view \<Rightarrow> ('d scope_node \<Rightarrow> bool) \<Rightarrow>
    ('n, 'l) search list \<Rightarrow> ('n, 'l, 'd) resolution_path set \<Rightarrow> ('e + ('n, 'l, 'd) resolution_path set) option" where
  "resolve_loop g accepts pending answers = (case pending of
     [] \<Rightarrow> Some (Inr answers)
   | s # pending \<Rightarrow> (case search_answer g accepts s of
       Inl e \<Rightarrow> Some (Inl e)
     | Inr found \<Rightarrow> (case push_labels g s (path_labels (at_expr s)) pending of
         Inl e \<Rightarrow> Some (Inl e)
       | Inr pending \<Rightarrow> resolve_loop g accepts pending (answers \<union> found))))"

definition resolve :: "('e, 'n, 'l, 'd) graph_view \<Rightarrow> 'n \<Rightarrow> 'l path_expr \<Rightarrow> ('d scope_node \<Rightarrow> bool) \<Rightarrow>
    ('e + ('n, 'l, 'd) resolution_path set) option" where
  "resolve g start e accepts = resolve_loop g accepts [search_start start e] {}"

section \<open>Steps of a search\<close>

definition label_steps :: "('e, 'n, 'l, 'd) graph_view \<Rightarrow> ('n, 'l) search \<Rightarrow> 'l \<Rightarrow> ('n, 'l) search set" where
  "label_steps g s l = {search_next s l (derivative (at_expr s) l) m | m ms.
     derivative (at_expr s) l \<noteq> PathEmpty \<and> bucket_fact g (at_scope s) l = Inr ms \<and> m \<in> set ms \<and>
     (m, derivative (at_expr s) l) \<notin> been s}"

definition search_step :: "('e, 'n, 'l, 'd) graph_view \<Rightarrow> ('n, 'l) search \<Rightarrow> ('n, 'l) search \<Rightarrow> bool" where
  "search_step g s t \<longleftrightarrow> t \<in> (\<Union>l \<in> set_path_expr (at_expr s). label_steps g s l)"

lemma push_targets_result:
  "\<exists>new. push_targets s l r targets pending = new @ pending \<and>
     set new = {search_next s l r m | m. m \<in> set targets \<and> (m, r) \<notin> been s}"
proof (induction targets arbitrary: pending)
  case (Cons m targets)
  obtain new where "push_targets s l r targets (if (m, r) \<in> been s then pending else search_next s l r m # pending) =
      new @ (if (m, r) \<in> been s then pending else search_next s l r m # pending)"
      "set new = {search_next s l r k | k. k \<in> set targets \<and> (k, r) \<notin> been s}"
    using Cons.IH by blast
  then show ?case
    by (intro exI [of _ "if (m, r) \<in> been s then new else new @ [search_next s l r m]"]) (auto simp: push_targets_def)
qed (simp add: push_targets_def)

lemma push_labels_result:
  assumes "push_labels g s ls pending = Inr pending'"
  shows "\<exists>new. pending' = new @ pending \<and> set new = (\<Union>l \<in> set ls. label_steps g s l)"
  using assms
proof (induction ls arbitrary: pending)
  case (Cons l ls)
  let ?r = "derivative (at_expr s) l"
  show ?case
  proof (cases "?r = PathEmpty")
    case True
    then have "label_steps g s l = {}" by (simp add: label_steps_def)
    then show ?thesis using True Cons.IH [of pending] Cons.prems by (simp add: Let_def)
  next
    case False
    then obtain ts where ts: "bucket_fact g (at_scope s) l = Inr ts"
        "push_labels g s ls (push_targets s l ?r ts pending) = Inr pending'"
      using Cons.prems by (auto simp: Let_def outgoing_def split: sum.splits)
    obtain n1 where n1: "push_targets s l ?r ts pending = n1 @ pending"
        "set n1 = {search_next s l ?r m | m. m \<in> set ts \<and> (m, ?r) \<notin> been s}"
      using push_targets_result [of s l ?r ts pending] by (elim exE conjE)
    obtain n2 where n2: "pending' = n2 @ push_targets s l ?r ts pending" "set n2 = (\<Union>l \<in> set ls. label_steps g s l)"
      using Cons.IH [OF ts(2)] by blast
    have "label_steps g s l = set n1" using False ts(1) n1(2) by (auto simp: label_steps_def)
    then have "pending' = (n2 @ n1) @ pending" "set (n2 @ n1) = (\<Union>l \<in> set (l # ls). label_steps g s l)"
      using n1(1) n2 by (simp_all add: Un_commute)
    then show ?thesis by blast
  qed
qed simp

definition found_at :: "('e, 'n, 'l, 'd) graph_view \<Rightarrow> ('d scope_node \<Rightarrow> bool) \<Rightarrow> ('n, 'l) search \<Rightarrow>
    ('n, 'l, 'd) resolution_path set" where
  "found_at g accepts s = {answer_of s d | d. path_nullable (at_expr s) \<and>
     node_fact g (at_scope s) = Inr (Some (ScopePayload d)) \<and> accepts (ScopePayload d)}"

lemma search_answer_found: "search_answer g accepts s = Inr found \<Longrightarrow> found = found_at g accepts s"
  by (auto simp: search_answer_def found_at_def observe_node_def split: if_splits sum.splits option.splits scope_node.splits)

lemma reach_unfold: "{t. R\<^sup>*\<^sup>* s t} = insert s (\<Union>u \<in> {u. R s u}. {t. R\<^sup>*\<^sup>* u t})"
  by (auto intro: converse_rtranclp_into_rtranclp elim: converse_rtranclpE)

text \<open>If the loop returns answers, they are those of all states that the pending searches reach.\<close>

lemma resolve_loop_answers:
  assumes "resolve_loop g accepts pending answers = Some (Inr result)"
  shows "result = answers \<union> (\<Union>s \<in> set pending. \<Union>t \<in> {t. (search_step g)\<^sup>*\<^sup>* s t}. found_at g accepts t)"
proof -
  have "y = Inr result \<longrightarrow> result = answers \<union> (\<Union>s \<in> set pending. \<Union>t \<in> {t. (search_step g)\<^sup>*\<^sup>* s t}. found_at g accepts t)"
    if "resolve_loop g accepts pending answers = Some y" for y
    using that
  proof (induction rule: resolve_loop.raw_induct [rotated, consumes 1, case_names step])
    case (step loop g accepts pending answers y)
    show ?case
    proof (cases pending)
      case (Cons s rest)
      show ?thesis
      proof
        assume y: "y = Inr result"
        then obtain found pending' where f: "search_answer g accepts s = Inr found"
            "push_labels g s (path_labels (at_expr s)) rest = Inr pending'" "loop g accepts pending' (answers \<union> found) = Some y"
          using step(2) Cons by (auto split: sum.splits)
        obtain new where new: "pending' = new @ rest" "set new = (\<Union>l \<in> set_path_expr (at_expr s). label_steps g s l)"
          using push_labels_result [OF f(2)] by auto
        have "result = (answers \<union> found) \<union> (\<Union>s \<in> set pending'. \<Union>t \<in> {t. (search_step g)\<^sup>*\<^sup>* s t}. found_at g accepts t)"
          using step(1) [OF f(3)] y by blast
        moreover have "{t. (search_step g)\<^sup>*\<^sup>* s t} = insert s (\<Union>u \<in> set new. {t. (search_step g)\<^sup>*\<^sup>* u t})"
        proof -
          have "{u. search_step g s u} = set new" by (auto simp: search_step_def new(2))
          then show ?thesis using reach_unfold [of "search_step g" s] by (simp only:)
        qed
        ultimately show "result = answers \<union> (\<Union>s \<in> set pending. \<Union>t \<in> {t. (search_step g)\<^sup>*\<^sup>* s t}. found_at g accepts t)"
          using search_answer_found [OF f(1)] new(1) Cons by auto
      qed
    qed (use step(2) in auto)
  qed
  then show ?thesis using assms by blast
qed

section \<open>Routes\<close>

inductive route :: "('e, 'n, 'l, 'd) graph_view \<Rightarrow> 'n \<Rightarrow> 'n list \<Rightarrow> 'l list \<Rightarrow> bool" for g n where
  route_start: "route g n [n] []"
| route_next: "route g n ns ls \<Longrightarrow> bucket_fact g (last ns) l = Inr ms \<Longrightarrow> m \<in> set ms \<Longrightarrow> route g n (ns @ [m]) (ls @ [l])"

definition residuals :: "'l path_expr \<Rightarrow> 'l list \<Rightarrow> 'l path_expr list" where
  "residuals e ls = map (\<lambda>i. foldl derivative e (take i ls)) [0..<Suc (length ls)]"

lemma residuals_simps [simp]:
  "residuals e [] = [e]" "residuals e (ls @ [l]) = residuals e ls @ [foldl derivative e (ls @ [l])]"
  "length (residuals e ls) = Suc (length ls)"
  by (auto simp: residuals_def)

text \<open>The states that a route passes, and routes that pass no state twice.\<close>

definition states_of :: "'l path_expr \<Rightarrow> 'n list \<Rightarrow> 'l list \<Rightarrow> ('n \<times> 'l path_expr) list" where
  "states_of e ns ls = zip ns (residuals e ls)"

lemma route_length: "route g n ns ls \<Longrightarrow> length ns = Suc (length ls)"
  by (induction rule: route.induct) simp_all

lemma states_of_snoc [simp]:
  "length ns = Suc (length ls) \<Longrightarrow> states_of e (ns @ [m]) (ls @ [l]) = states_of e ns ls @ [(m, foldl derivative e (ls @ [l]))]"
  by (simp add: states_of_def)

lemma reached_route:
  assumes "(search_step g)\<^sup>*\<^sup>* (search_start n e) t"
  shows "route g n (via_scopes t) (via_labels t) \<and> at_scope t = last (via_scopes t) \<and>
    at_expr t = foldl derivative e (via_labels t) \<and> been t = set (states_of e (via_scopes t) (via_labels t)) \<and>
    distinct (states_of e (via_scopes t) (via_labels t))"
  using assms
proof (induction rule: rtranclp_induct)
  case base
  then show ?case by (simp add: search_start_def states_of_def route.intros)
next
  case (step t u)
  then obtain l m ms where u: "u = search_next t l (derivative (at_expr t) l) m" "bucket_fact g (at_scope t) l = Inr ms"
      "m \<in> set ms" "(m, derivative (at_expr t) l) \<notin> been t"
    by (auto simp: search_step_def label_steps_def)
  have len: "length (via_scopes t) = Suc (length (via_labels t))" using route_length [of g n "via_scopes t" "via_labels t"] step.IH by simp
  have "route g n (via_scopes t @ [m]) (via_labels t @ [l])" using step.IH u(2,3) by (auto intro: route.intros)
  then show ?case using step.IH u(4) len by (simp add: u(1) search_next_def)
qed

lemma route_reached:
  assumes "trim e" "route g n ns ls" "distinct (states_of e ns ls)" "foldl derivative e ls \<noteq> PathEmpty"
  shows "\<exists>t. (search_step g)\<^sup>*\<^sup>* (search_start n e) t \<and> via_scopes t = ns \<and> via_labels t = ls"
  using assms(2-)
proof (induction rule: route.induct)
  case route_start
  then show ?case by (intro exI [of _ "search_start n e"]) (simp add: search_start_def)
next
  case (route_next ns ls l ms m)
  have len: "length ns = Suc (length ls)" using route_next(1) by (rule route_length)
  have alive: "foldl derivative e ls \<noteq> PathEmpty" using route_next.prems(2) by auto
  obtain t where t: "(search_step g)\<^sup>*\<^sup>* (search_start n e) t" "via_scopes t = ns" "via_labels t = ls"
    using route_next.IH route_next.prems(1) alive len by auto
  note r = reached_route [OF t(1)]
  have "trim (foldl derivative e ls)"
    using assms(1) by (induction ls rule: rev_induct) (auto intro: trim_derivative)
  then have "trim (derivative (foldl derivative e ls) l)" by (rule trim_derivative)
  moreover have "derivative (foldl derivative e ls) l \<noteq> PathEmpty" using route_next.prems(2) by simp
  ultimately have "l \<in> set_path_expr (foldl derivative e ls)"
    using derivative_other [of l "foldl derivative e ls"] dead_iff by blast
  then have "search_step g t (search_next t l (derivative (at_expr t) l) m)"
    using route_next.hyps(2,3) route_next.prems r t(2,3) len
    unfolding search_step_def label_steps_def by (intro UN_I [of l]) auto
  then have "(search_step g)\<^sup>*\<^sup>* (search_start n e) (search_next t l (derivative (at_expr t) l) m)"
    using t(1) by (rule rtranclp.rtrancl_into_rtrancl [rotated])
  then show ?case using t(2,3) by (intro exI [of _ "search_next t l (derivative (at_expr t) l) m"]) (simp add: search_next_def)
qed

lemma foldl_derivative_words: "words (foldl derivative e ls) = {w. ls @ w \<in> words e}"
  by (induction ls arbitrary: e) (simp_all add: derivative_words)

lemma accepted_iff: "path_nullable (foldl derivative e ls) \<longleftrightarrow> ls \<in> words e"
  by (simp add: nullable_words foldl_derivative_words)

section \<open>Returning\<close>

text \<open>A set of states that the search does not leave.\<close>

definition closed_states :: "('e, 'n, 'l, 'd) graph_view \<Rightarrow> ('n \<times> 'l path_expr) set \<Rightarrow> bool" where
  "closed_states g S \<longleftrightarrow> (\<forall>(n, e) \<in> S. \<forall>l ms m. bucket_fact g n l = Inr ms \<longrightarrow> m \<in> set ms \<longrightarrow> derivative e l \<noteq> PathEmpty \<longrightarrow>
     (m, derivative e l) \<in> S)"

definition inside :: "('n \<times> 'l path_expr) set \<Rightarrow> ('n, 'l) search \<Rightarrow> bool" where
  "inside S s \<longleftrightarrow> (at_scope s, at_expr s) \<in> S \<and> been s \<subseteq> S"

lemma inside_step:
  assumes "closed_states g S" "finite S" "inside S s" "search_step g s t"
  shows "inside S t" "card (S - been t) < card (S - been s)"
proof -
  obtain l m ms where t: "t = search_next s l (derivative (at_expr s) l) m" "bucket_fact g (at_scope s) l = Inr ms"
      "m \<in> set ms" "(m, derivative (at_expr s) l) \<notin> been s" "derivative (at_expr s) l \<noteq> PathEmpty"
    using assms(4) by (auto simp: search_step_def label_steps_def)
  have new: "(m, derivative (at_expr s) l) \<in> S"
    using assms(1,3) t(2,3,5) unfolding closed_states_def inside_def by blast
  then show "inside S t" using assms(3) by (auto simp: inside_def t(1) search_next_def)
  have "S - been t \<subset> S - been s" using new t(4) by (auto simp: t(1) search_next_def)
  then show "card (S - been t) < card (S - been s)" using assms(2) by (intro psubset_card_mono) auto
qed

lemma resolve_loop_returns:
  assumes "closed_states g S" "finite S" "inside S s" "\<And>answers. resolve_loop g accepts rest answers \<noteq> None"
  shows "resolve_loop g accepts (s # rest) answers \<noteq> None"
  using assms(3,4)
proof (induction "card (S - been s)" arbitrary: s rest answers rule: less_induct)
  case less
  have returns: "resolve_loop g accepts (new @ rest) answers \<noteq> None"
    if "\<forall>t \<in> set new. search_step g s t" for new answers
    using that
  proof (induction new arbitrary: answers)
    case (Cons t new)
    then have "inside S t" "card (S - been t) < card (S - been s)" using inside_step [OF assms(1,2) less.prems(1)] by auto
    then show ?case using less.hyps [of t "new @ rest"] Cons by simp
  qed (use less.prems(2) in simp)
  show ?case
  proof (cases "search_answer g accepts s")
    case found: (Inr found)
    show ?thesis
    proof (cases "push_labels g s (path_labels (at_expr s)) rest")
      case (Inr pending)
      then obtain new where "pending = new @ rest" "set new = (\<Union>l \<in> set_path_expr (at_expr s). label_steps g s l)"
        using push_labels_result by fastforce
      then show ?thesis using found Inr returns [of new "answers \<union> found"] by (simp add: resolve_loop.simps search_step_def)
    qed (use found in \<open>simp add: resolve_loop.simps\<close>)
  qed (simp add: resolve_loop.simps)
qed

section \<open>Properties\<close>

text \<open>
  C12: when \<^verbatim>\<open>resolve\<close> returns answers they are exactly the routes of the graph from the start whose
  labels the path expression accepts, that pass no pair of scope and residual twice, and that end at
  a scope payload the caller accepts.
\<close>

theorem resolve_exact:
  assumes "trim e" "resolve g start e accepts = Some (Inr answers)"
  shows "r \<in> answers \<longleftrightarrow> route g start (rp_scopes r) (rp_labels r) \<and> rp_labels r \<in> words e \<and>
    distinct (states_of e (rp_scopes r) (rp_labels r)) \<and>
    node_fact g (last (rp_scopes r)) = Inr (Some (ScopePayload (rp_data r))) \<and> accepts (ScopePayload (rp_data r))"
proof
  have all: "answers = (\<Union>t \<in> {t. (search_step g)\<^sup>*\<^sup>* (search_start start e) t}. found_at g accepts t)"
    using resolve_loop_answers assms(2) unfolding resolve_def by fastforce
  {
    assume "r \<in> answers"
    then obtain t where t: "(search_step g)\<^sup>*\<^sup>* (search_start start e) t" "r \<in> found_at g accepts t" unfolding all by blast
    then obtain d where "r = answer_of t d" "path_nullable (at_expr t)" "node_fact g (at_scope t) = Inr (Some (ScopePayload d))"
        "accepts (ScopePayload d)" by (auto simp: found_at_def)
    then show "route g start (rp_scopes r) (rp_labels r) \<and> rp_labels r \<in> words e \<and> distinct (states_of e (rp_scopes r) (rp_labels r)) \<and>
        node_fact g (last (rp_scopes r)) = Inr (Some (ScopePayload (rp_data r))) \<and> accepts (ScopePayload (rp_data r))"
      using reached_route [OF t(1)] by (simp add: answer_of_def accepted_iff)
  next
    assume r: "route g start (rp_scopes r) (rp_labels r) \<and> rp_labels r \<in> words e \<and> distinct (states_of e (rp_scopes r) (rp_labels r)) \<and>
        node_fact g (last (rp_scopes r)) = Inr (Some (ScopePayload (rp_data r))) \<and> accepts (ScopePayload (rp_data r))"
    then have "path_nullable (foldl derivative e (rp_labels r))" by (simp add: accepted_iff)
    then have "foldl derivative e (rp_labels r) \<noteq> PathEmpty" by auto
    then obtain t where t: "(search_step g)\<^sup>*\<^sup>* (search_start start e) t" "via_scopes t = rp_scopes r" "via_labels t = rp_labels r"
      using route_reached [OF assms(1), of g start "rp_scopes r" "rp_labels r"] r by (elim conjE) (simp, elim exE conjE)
    have "r = answer_of t (rp_data r)" using t(2,3) by (simp add: answer_of_def)
    moreover have "path_nullable (at_expr t)" "at_scope t = last (rp_scopes r)" using reached_route [OF t(1)] t(2,3) r by (simp_all add: accepted_iff)
    ultimately have "r = answer_of t (rp_data r) \<and> path_nullable (at_expr t) \<and>
        node_fact g (at_scope t) = Inr (Some (ScopePayload (rp_data r))) \<and> accepts (ScopePayload (rp_data r))" using r by simp
    then have "r \<in> found_at g accepts t" unfolding found_at_def by blast
    then show "r \<in> answers" unfolding all using t(1) by blast
  }
qed

text \<open>One scope with an edge to itself.\<close>

definition loop_graph :: "(unit, nat, nat, nat) graph_view" where
  "loop_graph = \<lparr>node_fact = (\<lambda>n. Inr (Some (ScopePayload n))), bucket_fact = (\<lambda>n l. Inr [0])\<rparr>"

text \<open>Two scopes and an edge between them.\<close>

definition edge_graph :: "(unit, nat, nat, nat) graph_view" where
  "edge_graph = \<lparr>node_fact = (\<lambda>n. Inr (Some (ScopePayload n))), bucket_fact = (\<lambda>n l. if n = 0 then Inr [1] else Inr [])\<rparr>"

theorem resolve_exact_witness:
  "resolve edge_graph 0 (PathLabel 7) (\<lambda>_. True) = Some (Inr {\<lparr>rp_scopes = [0, 1], rp_labels = [7], rp_data = 1\<rparr>}) \<and>
   route edge_graph 0 [0, 1] [7] \<and> [7] \<in> words (PathLabel (7 :: nat))"
proof -
  have run: "resolve edge_graph 0 (PathLabel 7) (\<lambda>_. True) = Some (Inr {\<lparr>rp_scopes = [0, 1], rp_labels = [7], rp_data = 1\<rparr>})"
    by (simp add: resolve_def resolve_loop.simps search_start_def search_answer_def observe_node_def edge_graph_def answer_of_def
        path_labels_def Let_def outgoing_def push_targets_def search_next_def)
  from resolve_exact [OF _ run, of "\<lparr>rp_scopes = [0, 1], rp_labels = [7], rp_data = 1\<rparr>"]
  have "route edge_graph 0 [0, 1] [7]" "[7] \<in> words (PathLabel (7 :: nat))" by simp_all
  with run show ?thesis by blast
qed

text \<open>
  C38: \<^verbatim>\<open>resolve\<close> returns, with answers or with the error of a failed read, whenever finitely many
  scopes are closed under the edges and finitely many residuals under derivatives.
\<close>

theorem resolve_returns:
  assumes "finite scopes" "start \<in> scopes" "\<And>n l ms. n \<in> scopes \<Longrightarrow> bucket_fact g n l = Inr ms \<Longrightarrow> set ms \<subseteq> scopes"
    and "finite exprs" "e \<in> exprs" "\<And>x l. x \<in> exprs \<Longrightarrow> derivative x l \<in> exprs"
  shows "\<exists>result. resolve g start e accepts = Some result"
proof -
  have "closed_states g (scopes \<times> exprs)" using assms(3,6) unfolding closed_states_def by blast
  moreover have "finite (scopes \<times> exprs)" using assms(1,4) by simp
  moreover have "inside (scopes \<times> exprs) (search_start start e)" using assms(2,5) by (simp add: inside_def search_start_def)
  moreover have "resolve_loop g accepts [] answers \<noteq> None" for answers by (simp add: resolve_loop.simps)
  ultimately have "resolve g start e accepts \<noteq> None" unfolding resolve_def by (rule resolve_loop_returns)
  then show ?thesis by auto
qed

theorem resolve_returns_witness:
  "\<exists>result. resolve loop_graph 0 (PathStar (PathLabel 7)) (\<lambda>_. True) = Some result"
proof (rule resolve_returns)
  show "set ms \<subseteq> {0}" if "n \<in> {0}" "bucket_fact loop_graph n l = Inr ms" for n l ms using that by (auto simp: loop_graph_def)
  show "derivative x l \<in> {PathStar (PathLabel 7), PathEmpty}" if "x \<in> {PathStar (PathLabel 7), PathEmpty}" for x :: "nat path_expr" and l
    using that by (cases "l = 7") auto
qed simp_all

text \<open>
  C39: without that it may not. On a scope with an edge to itself the path expression \<^verbatim>\<open>l* l*\<close> has
  infinitely many residuals, because \<^verbatim>\<open>or\<close> merges only equal sides, and \<^verbatim>\<open>resolve\<close> does not return:
  the set of visited states does not cut the cycle.
\<close>

fun grown :: "'l \<Rightarrow> nat \<Rightarrow> 'l path_expr" where
  "grown l 0 = PathThen (PathStar (PathLabel l)) (PathStar (PathLabel l))"
| "grown l (Suc k) = PathOr (grown l k) (PathStar (PathLabel l))"

lemma derivative_grown: "derivative (grown l k) l = grown l (Suc k)"
  by (induction k) (auto simp: Let_def)

fun ors :: "'l path_expr \<Rightarrow> nat" where
  "ors (PathOr a b) = Suc (ors a)"
| "ors _ = 0"

lemma grown_inject: "grown l j = grown l k \<Longrightarrow> j = k"
proof -
  have "ors (grown l k) = k" for k by (induction k) simp_all
  then show "grown l j = grown l k \<Longrightarrow> j = k" by metis
qed

lemma grown_labels: "path_labels (grown l k) = [l]"
proof -
  have "walk_labels (grown l k) [l] = [l]" "walk_labels (grown l k) [] = [l]" by (induction k) simp_all
  then show ?thesis by (simp add: path_labels_def)
qed

definition stuck :: "(nat, nat) search \<Rightarrow> bool" where
  "stuck s \<longleftrightarrow> at_scope s = 0 \<and> (\<exists>k. at_expr s = grown 7 k \<and> been s \<subseteq> (\<lambda>j. (0, grown 7 j)) ` {..k})"

lemma stuck_pushes:
  assumes "stuck s"
  shows "\<exists>t. stuck t \<and> push_labels loop_graph s (path_labels (at_expr s)) pending = Inr (t # pending)"
proof -
  obtain k where k: "at_scope s = 0" "at_expr s = grown 7 k" "been s \<subseteq> (\<lambda>j. (0, grown 7 j)) ` {..k}" using assms by (auto simp: stuck_def)
  let ?t = "search_next s 7 (grown 7 (Suc k)) 0"
  have "(0, grown 7 (Suc k)) \<notin> (\<lambda>j. (0 :: nat, grown (7 :: nat) j)) ` {..k}"
    by (auto simp del: grown.simps dest!: grown_inject)
  then have fresh: "(0, grown 7 (Suc k)) \<notin> been s" using k(3) by (rule contra_subsetD [rotated])
  have "stuck ?t" unfolding stuck_def search_next_def
    using k(3) by (intro conjI exI [of _ "Suc k"]) (auto simp del: grown.simps)
  moreover have "push_labels loop_graph s (path_labels (at_expr s)) pending = Inr (?t # pending)"
    using fresh unfolding k(2) grown_labels
    by (simp add: derivative_grown k(1,2) outgoing_def loop_graph_def push_targets_def Let_def)
  ultimately show ?thesis by blast
qed

theorem resolve_diverges:
  "resolve loop_graph 0 (path_then (zero_or_more 7) (zero_or_more 7)) accepts = None"
proof -
  have "\<not> (g = loop_graph \<and> (\<exists>s rest. pending = s # rest \<and> stuck s))"
    if "resolve_loop g accepts pending answers = Some y" for g accepts pending answers y
    using that
  proof (induction rule: resolve_loop.raw_induct [rotated, consumes 1, case_names step])
    case (step loop g accepts pending answers y)
    show ?case
    proof
      assume "g = loop_graph \<and> (\<exists>s rest. pending = s # rest \<and> stuck s)"
      then obtain s rest where s: "g = loop_graph" "pending = s # rest" "stuck s" by blast
      have "\<exists>found. search_answer loop_graph accepts s = Inr found"
        by (simp add: search_answer_def observe_node_def loop_graph_def)
      then obtain found where "search_answer loop_graph accepts s = Inr found" ..
      moreover obtain t where "stuck t" "push_labels loop_graph s (path_labels (at_expr s)) rest = Inr (t # rest)"
        using stuck_pushes [OF s(3)] by blast
      ultimately have "loop loop_graph accepts (t # rest) (answers \<union> found) = Some y" using step(2) s(1,2) by simp
      then show False using step(1) \<open>stuck t\<close> by blast
    qed
  qed
  moreover have "stuck (search_start 0 (path_then (zero_or_more 7) (zero_or_more 7)))"
    unfolding stuck_def search_start_def by (intro conjI exI [of _ 0]) (simp_all add: zero_or_more_def)
  ultimately show ?thesis unfolding resolve_def by (metis option.exhaust)
qed

end
