(* ===== verification/Source_Text.thy ===== *)
theory Source_Text
  imports Prelude
begin

text \<open>
  Texts as Rust has them: a \<^verbatim>\<open>String\<close> is a list of Unicode scalar values, its length and offsets count
  UTF-8 bytes. The rope of the \<^verbatim>\<open>ropey\<close> crate, which is not part of the repository, is a parameter: a
  record of the operations that \<^verbatim>\<open>src/framework/source.rs\<close> calls. \<open>rope_contract\<close> is what its documentation
  says of them. Ropey counts characters in slices and edits, and \<^verbatim>\<open>byte_to_char\<close> of a byte inside a
  character is that character.
\<close>

section \<open>UTF-8\<close>

type_synonym utf8_text = "nat list"

definition utf8 :: "nat \<Rightarrow> nat list" where
  "utf8 c = (if c < 0x80 then [c]
     else if c < 0x800 then [0xC0 + c div 0x40, 0x80 + c mod 0x40]
     else if c < 0x10000 then [0xE0 + c div 0x1000, 0x80 + c div 0x40 mod 0x40, 0x80 + c mod 0x40]
     else [0xF0 + c div 0x40000, 0x80 + c div 0x1000 mod 0x40, 0x80 + c div 0x40 mod 0x40, 0x80 + c mod 0x40])"

definition text_bytes :: "utf8_text \<Rightarrow> nat list" where
  "text_bytes t = concat (map utf8 t)"

abbreviation text_len :: "utf8_text \<Rightarrow> nat" where
  "text_len t \<equiv> length (text_bytes t)"

lemma text_bytes_simps [simp]: "text_bytes [] = []" "text_bytes (c # t) = utf8 c @ text_bytes t" "text_bytes (t @ u) = text_bytes t @ text_bytes u"
  by (simp_all add: text_bytes_def)

lemma utf8_not_empty [simp]: "utf8 c \<noteq> []" "0 < length (utf8 c)"
  by (simp_all add: utf8_def)

definition ascii :: "utf8_text \<Rightarrow> bool" where
  "ascii t \<longleftrightarrow> (\<forall>c \<in> set t. c < 0x80)"

lemma ascii_append [simp]: "ascii (t @ u) \<longleftrightarrow> ascii t \<and> ascii u"
  by (auto simp: ascii_def)

lemma ascii_bytes: "ascii t \<Longrightarrow> text_bytes t = t"
  by (induction t) (simp_all add: ascii_def utf8_def)

text \<open>The character a byte belongs to.\<close>

fun char_at_byte :: "utf8_text \<Rightarrow> nat \<Rightarrow> nat" where
  "char_at_byte [] b = 0"
| "char_at_byte (c # t) b = (if b < length (utf8 c) then 0 else Suc (char_at_byte t (b - length (utf8 c))))"

text \<open>Byte offsets between two characters.\<close>

definition boundary :: "utf8_text \<Rightarrow> nat \<Rightarrow> bool" where
  "boundary t b \<longleftrightarrow> (\<exists>k \<le> length t. b = text_len (take k t))"

lemma char_at_byte_prefix: "char_at_byte (t @ u) (text_len t) = length t"
proof (induction t)
  case Nil
  then show ?case by (cases u) auto
qed simp

lemma boundary_cut:
  assumes "boundary t b"
  shows "char_at_byte t b \<le> length t" "text_bytes (take (char_at_byte t b) t) = take b (text_bytes t)"
    "text_bytes (drop (char_at_byte t b) t) = drop b (text_bytes t)" "b \<le> text_len t"
proof -
  obtain k where k: "k \<le> length t" "b = text_len (take k t)" using assms by (auto simp: boundary_def)
  have c: "char_at_byte t b = k" using char_at_byte_prefix [of "take k t" "drop k t"] k by simp
  have "text_bytes t = text_bytes (take k t) @ text_bytes (drop k t)" by (metis append_take_drop_id text_bytes_simps(3))
  then show "char_at_byte t b \<le> length t" "text_bytes (take (char_at_byte t b) t) = take b (text_bytes t)"
    "text_bytes (drop (char_at_byte t b) t) = drop b (text_bytes t)" "b \<le> text_len t" using k c by simp_all
qed

lemma boundary_ascii: "ascii t \<Longrightarrow> boundary t b \<longleftrightarrow> b \<le> text_len t"
proof -
  assume "ascii t"
  then have len: "text_len (take k t) = length (take k t)" for k by (metis ascii_append ascii_bytes append_take_drop_id)
  have "text_len t = length t" using len [of "length t"] by simp
  then show ?thesis by (auto simp: boundary_def len intro!: exI [of _ b])
qed

text \<open>A boundary in a prefix stays one whatever follows.\<close>

lemma boundary_append: "boundary t b \<Longrightarrow> boundary (t @ u) b \<and> char_at_byte (t @ u) b = char_at_byte t b"
proof -
  assume "boundary t b"
  then obtain k where k: "k \<le> length t" "b = text_len (take k t)" by (auto simp: boundary_def)
  have "char_at_byte (t @ u) b = k" using char_at_byte_prefix [of "take k t" "drop k t @ u"] k by (simp add: append_assoc [symmetric] del: append_assoc)
  moreover have "char_at_byte t b = k" using char_at_byte_prefix [of "take k t" "drop k t"] k by simp
  moreover have "boundary (t @ u) b" using k unfolding boundary_def by (intro exI [of _ k]) simp
  ultimately show ?thesis by simp
qed

lemma char_at_byte_mono: "a \<le> c \<Longrightarrow> char_at_byte t a \<le> char_at_byte t c"
proof (induction t arbitrary: a c)
  case (Cons x t)
  then show ?case using Cons.IH [of "a - length (utf8 x)" "c - length (utf8 x)"] by auto
qed simp

lemma boundary_prefix:
  assumes "boundary t a" "boundary t c" "a \<le> c" shows "boundary (take (char_at_byte t c) t) a"
proof -
  let ?k = "char_at_byte t a" and ?m = "char_at_byte t c"
  have "?k \<le> ?m" using char_at_byte_mono [OF assms(3)] .
  moreover have "a = text_len (take ?k t)" using boundary_cut(2,4) [OF assms(1)] by simp
  moreover have "?m \<le> length t" using boundary_cut(1) [OF assms(2)] .
  ultimately show ?thesis unfolding boundary_def by (intro exI [of _ ?k]) (simp add: min_absorb1)
qed

lemma boundary_slice:
  assumes "boundary t a" "boundary t c" "a \<le> c"
  shows "text_bytes (drop (char_at_byte t a) (take (char_at_byte t c) t)) = drop a (take c (text_bytes t))"
proof -
  let ?k = "char_at_byte t a" and ?m = "char_at_byte t c"
  have "take ?m t = take ?k t @ drop ?k (take ?m t)" using char_at_byte_mono [OF assms(3)] by (metis append_take_drop_id min.absorb1 take_take)
  then have "text_bytes (take ?m t) = text_bytes (take ?k t) @ text_bytes (drop ?k (take ?m t))" by (metis text_bytes_simps(3))
  then have "take c (text_bytes t) = take a (text_bytes t) @ text_bytes (drop ?k (take ?m t))"
    using boundary_cut(2) [OF assms(1)] boundary_cut(2) [OF assms(2)] by simp
  then show ?thesis using boundary_cut(4) [OF assms(1)] by simp
qed

section \<open>Ropes\<close>

record 'r rope_ops =
  rope_len_bytes :: "'r \<Rightarrow> nat"
  rope_byte_to_char :: "'r \<Rightarrow> nat \<Rightarrow> nat option"
  rope_slice :: "'r \<Rightarrow> nat \<Rightarrow> nat \<Rightarrow> utf8_text option"
  rope_remove :: "'r \<Rightarrow> nat \<Rightarrow> nat \<Rightarrow> 'r option"
  rope_insert :: "'r \<Rightarrow> nat \<Rightarrow> utf8_text \<Rightarrow> 'r option"
  rope_from_str :: "utf8_text \<Rightarrow> 'r"
  rope_eq :: "'r \<Rightarrow> 'r \<Rightarrow> bool"

text \<open>
  The documented behaviour, over the characters of a rope: offsets of slices, removals and insertions
  count characters and panic (\<open>None\<close>) out of range; \<^verbatim>\<open>try_byte_to_char\<close> fails past the last byte only.
\<close>

definition rope_contract :: "'r rope_ops \<Rightarrow> ('r \<Rightarrow> utf8_text) \<Rightarrow> bool" where
  "rope_contract R chars \<longleftrightarrow>
     (\<forall>r. rope_len_bytes R r = text_len (chars r)) \<and>
     (\<forall>r b. rope_byte_to_char R r b = (if b \<le> text_len (chars r) then Some (char_at_byte (chars r) b) else None)) \<and>
     (\<forall>r i j. rope_slice R r i j = (if i \<le> j \<and> j \<le> length (chars r) then Some (drop i (take j (chars r))) else None)) \<and>
     (\<forall>r i j. if i \<le> j \<and> j \<le> length (chars r)
        then \<exists>r'. rope_remove R r i j = Some r' \<and> chars r' = take i (chars r) @ drop j (chars r) else rope_remove R r i j = None) \<and>
     (\<forall>r i t. if i \<le> length (chars r)
        then \<exists>r'. rope_insert R r i t = Some r' \<and> chars r' = take i (chars r) @ t @ drop i (chars r) else rope_insert R r i t = None) \<and>
     (\<forall>t. chars (rope_from_str R t) = t) \<and>
     (\<forall>r s. rope_eq R r s \<longleftrightarrow> chars r = chars s)"

text \<open>A list of characters meets the contract.\<close>

definition list_rope :: "utf8_text rope_ops" where
  "list_rope = \<lparr>rope_len_bytes = (\<lambda>r. text_len r),
     rope_byte_to_char = (\<lambda>r b. if b \<le> text_len r then Some (char_at_byte r b) else None),
     rope_slice = (\<lambda>r i j. if i \<le> j \<and> j \<le> length r then Some (drop i (take j r)) else None),
     rope_remove = (\<lambda>r i j. if i \<le> j \<and> j \<le> length r then Some (take i r @ drop j r) else None),
     rope_insert = (\<lambda>r i t. if i \<le> length r then Some (take i r @ t @ drop i r) else None),
     rope_from_str = (\<lambda>t. t), rope_eq = (=)\<rparr>"

lemma list_rope_contract: "rope_contract list_rope (\<lambda>r. r)"
  by (simp add: rope_contract_def list_rope_def)

lemma rope_laws:
  assumes "rope_contract R chars"
  shows "rope_len_bytes R r = text_len (chars r)"
    "rope_byte_to_char R r b = (if b \<le> text_len (chars r) then Some (char_at_byte (chars r) b) else None)"
    "rope_slice R r i j = (if i \<le> j \<and> j \<le> length (chars r) then Some (drop i (take j (chars r))) else None)"
    "i \<le> j \<Longrightarrow> j \<le> length (chars r) \<Longrightarrow> \<exists>r'. rope_remove R r i j = Some r' \<and> chars r' = take i (chars r) @ drop j (chars r)"
    "i \<le> length (chars r) \<Longrightarrow> \<exists>r'. rope_insert R r i t = Some r' \<and> chars r' = take i (chars r) @ t @ drop i (chars r)"
    "chars (rope_from_str R t) = t" "rope_eq R r s \<longleftrightarrow> chars r = chars s"
proof -
  note c = assms [unfolded rope_contract_def]
  show "rope_len_bytes R r = text_len (chars r)"
    "rope_byte_to_char R r b = (if b \<le> text_len (chars r) then Some (char_at_byte (chars r) b) else None)"
    "rope_slice R r i j = (if i \<le> j \<and> j \<le> length (chars r) then Some (drop i (take j (chars r))) else None)"
    "chars (rope_from_str R t) = t" "rope_eq R r s \<longleftrightarrow> chars r = chars s" using c by blast+
  show "\<exists>r'. rope_remove R r i j = Some r' \<and> chars r' = take i (chars r) @ drop j (chars r)" if "i \<le> j" "j \<le> length (chars r)"
    using c that by presburger
  show "\<exists>r'. rope_insert R r i t = Some r' \<and> chars r' = take i (chars r) @ t @ drop i (chars r)" if "i \<le> length (chars r)"
    using c that by presburger
qed

end
