(* ===== verification/Source_Edits.thy ===== *)
theory Source_Edits
  imports Source_Text "HOL-Library.Product_Lexorder"
begin

text \<open>
  Spans (\<^verbatim>\<open>src/utils.rs\<close>) and the normalisation of a batch of editor operations
  (\<^verbatim>\<open>normalize_edits\<close>, \<^verbatim>\<open>apply_splices\<close> of \<^verbatim>\<open>src/framework/source.rs\<close>): validation against the current rope,
  stable sorting, grouping into replacements, rejection of overlaps, dropping of replacements that
  change nothing, merging of neighbours, and the application to the rope from the end.
  The counter of rope chunks visited is left out: it depends on how ropey lays out its chunks.
\<close>

section \<open>Spans\<close>

datatype range_or_point = SpanRange nat nat | SpanPoint nat

definition from_range :: "nat \<Rightarrow> nat \<Rightarrow> range_or_point" where
  "from_range start stop = (if start = stop then SpanPoint start else SpanRange start stop)"

fun range_start :: "range_or_point \<Rightarrow> nat" where
  "range_start (SpanRange start stop) = start"
| "range_start (SpanPoint offset) = offset"

fun range_end :: "range_or_point \<Rightarrow> nat" where
  "range_end (SpanRange start stop) = stop"
| "range_end (SpanPoint offset) = offset"

definition range_covers :: "range_or_point \<Rightarrow> range_or_point \<Rightarrow> bool" where
  "range_covers r s \<longleftrightarrow> range_start r \<le> range_start s \<and> range_end r \<ge> range_end s"

definition range_inside :: "range_or_point \<Rightarrow> range_or_point \<Rightarrow> bool" where
  "range_inside r s \<longleftrightarrow> range_start r \<ge> range_start s \<and> range_end r \<le> range_end s"

definition range_overlaps :: "range_or_point \<Rightarrow> range_or_point \<Rightarrow> bool" where
  "range_overlaps r s \<longleftrightarrow> range_start r < range_end s \<and> range_end r > range_start s"

definition range_union :: "range_or_point \<Rightarrow> range_or_point \<Rightarrow> range_or_point" where
  "range_union r s = from_range (min (range_start r) (range_start s)) (max (range_end r) (range_end s))"

definition range_intersection :: "range_or_point \<Rightarrow> range_or_point \<Rightarrow> range_or_point option" where
  "range_intersection r s =
     (let start = max (range_start r) (range_start s); stop = min (range_end r) (range_end s)
      in if start < stop then Some (from_range start stop) else None)"

definition range_trim :: "range_or_point \<Rightarrow> nat \<Rightarrow> range_or_point" where
  "range_trim r n = from_range (min (range_start r) n) (min (range_end r) n)"

record span =
  span_uri :: string
  span_range :: range_or_point

text \<open>\<^verbatim>\<open>Span::new_uri\<close>; \<open>None\<close> is \<^verbatim>\<open>SpanError::IllegalSpan\<close>.\<close>

definition span_new :: "string \<Rightarrow> nat \<Rightarrow> nat \<Rightarrow> span option" where
  "span_new uri start stop = (if start > stop then None else Some \<lparr>span_uri = uri, span_range = from_range start stop\<rparr>)"

definition span_covers :: "span \<Rightarrow> span \<Rightarrow> bool" where
  "span_covers s t \<longleftrightarrow> span_uri s = span_uri t \<and> range_covers (span_range s) (span_range t)"

definition span_inside :: "span \<Rightarrow> span \<Rightarrow> bool" where
  "span_inside s t \<longleftrightarrow> span_uri s = span_uri t \<and> range_inside (span_range s) (span_range t)"

definition span_overlaps :: "span \<Rightarrow> span \<Rightarrow> bool" where
  "span_overlaps s t \<longleftrightarrow> span_uri s = span_uri t \<and> range_overlaps (span_range s) (span_range t)"

definition span_union :: "span \<Rightarrow> span \<Rightarrow> span option" where
  "span_union s t = (if span_uri s \<noteq> span_uri t then None else Some \<lparr>span_uri = span_uri s, span_range = range_union (span_range s) (span_range t)\<rparr>)"

definition span_intersection :: "span \<Rightarrow> span \<Rightarrow> span option" where
  "span_intersection s t = (if span_uri s \<noteq> span_uri t then None
     else map_option (\<lambda>range. \<lparr>span_uri = span_uri s, span_range = range\<rparr>) (range_intersection (span_range s) (span_range t)))"

definition span_trim :: "'r rope_ops \<Rightarrow> span \<Rightarrow> 'r \<Rightarrow> span" where
  "span_trim R s rope = \<lparr>span_uri = span_uri s, span_range = range_trim (span_range s) (rope_len_bytes R rope)\<rparr>"

definition span_map_range :: "(range_or_point \<Rightarrow> range_or_point) \<Rightarrow> span \<Rightarrow> span" where
  "span_map_range f s = \<lparr>span_uri = span_uri s, span_range = f (span_range s)\<rparr>"

definition span_free_right :: "span \<Rightarrow> span" where
  "span_free_right = span_map_range (\<lambda>range. SpanRange (range_start range) usize_max)"

definition span_free_left :: "span \<Rightarrow> span" where
  "span_free_left = span_map_range (\<lambda>range. case range of
     SpanRange start stop \<Rightarrow> SpanRange 0 stop | SpanPoint offset \<Rightarrow> if offset \<noteq> 0 then SpanRange 0 offset else SpanPoint offset)"

definition span_extend_right :: "nat \<Rightarrow> span \<Rightarrow> span" where
  "span_extend_right amount = span_map_range (\<lambda>range. SpanRange (range_start range) (min (range_end range + amount) usize_max))"

section \<open>Attempts\<close>

text \<open>The errors stand for the messages of \<^verbatim>\<open>Error::Internal\<close>.\<close>

datatype source_error =
    UnopenedDocument
  | InsertOutOfBounds nat
  | DeleteInvalid nat nat
  | OverlappingEdits nat nat nat nat
  | BatchOverflow
  | SliceOffBoundary
  | StaleSourceRevision string
  | StageRefused

datatype 'a attempt = Finished 'a | Refused source_error | Panics

fun attempt_then :: "'a attempt \<Rightarrow> ('a \<Rightarrow> 'b attempt) \<Rightarrow> 'b attempt" where
  "attempt_then (Finished x) k = k x"
| "attempt_then (Refused e) k = Refused e"
| "attempt_then Panics k = Panics"

lemma attempt_then_Finished [simp]: "attempt_then a k = Finished x \<longleftrightarrow> (\<exists>y. a = Finished y \<and> k y = Finished x)"
  by (cases a) auto

definition expects :: "'a option \<Rightarrow> 'a attempt" where
  "expects x = (case x of None \<Rightarrow> Panics | Some x \<Rightarrow> Finished x)"

lemma expects_simps [simp]: "expects (Some x) = Finished x" "expects None = Panics"
  by (simp_all add: expects_def)

section \<open>Normalising a batch\<close>

datatype source_edit = InsertEdit span utf8_text | DeleteEdit span

fun edit_span :: "source_edit \<Rightarrow> span" where
  "edit_span (InsertEdit key value) = key"
| "edit_span (DeleteEdit key) = key"

record source_splice =
  old_start :: nat
  old_stop :: nat
  new_start :: nat
  new_stop :: nat

record normalized_batch =
  nb_inserted :: "utf8_text list"
  nb_splices :: "source_splice list"
  nb_validated :: nat
  nb_effective :: nat
  nb_removed_bytes :: nat
  nb_inserted_bytes :: nat

definition empty_batch :: normalized_batch where
  "empty_batch = \<lparr>nb_inserted = [], nb_splices = [], nb_validated = 0, nb_effective = 0, nb_removed_bytes = 0, nb_inserted_bytes = 0\<rparr>"

datatype edit_kind = InsertAt nat utf8_text | DeleteOver nat nat

type_synonym edit_op = "nat \<times> edit_kind"

fun kind_position :: "edit_kind \<Rightarrow> nat" where
  "kind_position (InsertAt at value) = at"
| "kind_position (DeleteOver start stop) = start"

fun kind_rank :: "edit_kind \<Rightarrow> nat" where
  "kind_rank (InsertAt at value) = 0"
| "kind_rank (DeleteOver start stop) = 1"

text \<open>\<^verbatim>\<open>try_byte_to_char(..).is_err()\<close>.\<close>

definition off_rope :: "'r rope_ops \<Rightarrow> 'r \<Rightarrow> nat \<Rightarrow> bool" where
  "off_rope R base b \<longleftrightarrow> rope_byte_to_char R base b = None"

fun validate_edit :: "'r rope_ops \<Rightarrow> 'r \<Rightarrow> source_edit \<Rightarrow> edit_kind attempt" where
  "validate_edit R base (InsertEdit key value) =
     (let at = range_start (span_range key) in
      if at > rope_len_bytes R base \<or> off_rope R base at then Refused (InsertOutOfBounds at) else Finished (InsertAt at value))"
| "validate_edit R base (DeleteEdit key) =
     (let start = range_start (span_range key); stop = range_end (span_range key) in
      if start > stop \<or> stop > rope_len_bytes R base \<or> off_rope R base start \<or> off_rope R base stop
      then Refused (DeleteInvalid start stop) else Finished (DeleteOver start stop))"

fun validate_edits :: "'r rope_ops \<Rightarrow> 'r \<Rightarrow> nat \<Rightarrow> source_edit list \<Rightarrow> edit_op list attempt" where
  "validate_edits R base ordinal [] = Finished []"
| "validate_edits R base ordinal (edit # edits) =
     attempt_then (validate_edit R base edit) (\<lambda>kind.
     attempt_then (validate_edits R base (Suc ordinal) edits) (\<lambda>ops. Finished ((ordinal, kind) # ops)))"

text \<open>The order of the sort: by position, insertions before deletions, then by ordinal.\<close>

definition op_key :: "edit_op \<Rightarrow> nat \<times> nat \<times> nat" where
  "op_key op = (kind_position (snd op), kind_rank (snd op), fst op)"

record replacement =
  rep_start :: nat
  rep_stop :: nat
  rep_text :: utf8_text

text \<open>The inserts at one point and a deletion that starts there; the rest is returned.\<close>

fun insert_run :: "nat \<Rightarrow> nat \<Rightarrow> bool \<Rightarrow> utf8_text \<Rightarrow> edit_kind list \<Rightarrow> replacement \<times> edit_kind list" where
  "insert_run at stop taken value [] = (\<lparr>rep_start = at, rep_stop = stop, rep_text = value\<rparr>, [])"
| "insert_run at stop taken value (InsertAt other part # ops) =
     (if other = at then insert_run at stop taken (value @ part) ops
      else (\<lparr>rep_start = at, rep_stop = stop, rep_text = value\<rparr>, InsertAt other part # ops))"
| "insert_run at stop taken value (DeleteOver start delete_stop # ops) =
     (if \<not> taken \<and> start = at then insert_run at delete_stop True value ops
      else (\<lparr>rep_start = at, rep_stop = stop, rep_text = value\<rparr>, DeleteOver start delete_stop # ops))"

text \<open>The inserts that follow a deletion at its start.\<close>

fun delete_run :: "nat \<Rightarrow> nat \<Rightarrow> utf8_text \<Rightarrow> edit_kind list \<Rightarrow> replacement \<times> edit_kind list" where
  "delete_run start stop value (InsertAt at part # ops) =
     (if at = start then delete_run start stop (value @ part) ops
      else (\<lparr>rep_start = start, rep_stop = stop, rep_text = value\<rparr>, InsertAt at part # ops))"
| "delete_run start stop value ops = (\<lparr>rep_start = start, rep_stop = stop, rep_text = value\<rparr>, ops)"

definition next_group :: "edit_kind \<Rightarrow> edit_kind list \<Rightarrow> replacement \<times> edit_kind list" where
  "next_group kind ops = (case kind of
     InsertAt at value \<Rightarrow> insert_run at at False [] (InsertAt at value # ops)
   | DeleteOver start stop \<Rightarrow> delete_run start stop [] ops)"

lemma insert_run_shorter: "length (snd (insert_run at stop taken value ops)) \<le> length ops"
  by (induction "at" stop taken "value" ops rule: insert_run.induct) auto

lemma delete_run_shorter: "length (snd (delete_run start stop value ops)) \<le> length ops"
  by (induction start stop "value" ops rule: delete_run.induct) auto

lemma next_group_shorter: "length (snd (next_group kind ops)) \<le> length ops"
  using insert_run_shorter delete_run_shorter by (simp add: next_group_def split: edit_kind.split)

function replacements :: "edit_kind list \<Rightarrow> replacement list" where
  "replacements [] = []"
| "replacements (kind # ops) = (let (rep, rest) = next_group kind ops in rep # replacements rest)"
  by pat_completeness auto
termination
proof (relation "measure length")
  show "(rest, kind # ops) \<in> measure length" if "p = next_group kind ops" "(rep, rest) = p" for kind ops p rep rest
    using next_group_shorter [of kind ops] that by (metis in_measure le_imp_less_Suc length_Cons snd_conv)
qed simp

text \<open>\<^verbatim>\<open>windows(2)\<close>: the first overlapping pair.\<close>

fun reject_overlaps :: "replacement list \<Rightarrow> unit attempt" where
  "reject_overlaps (a # b # reps) =
     (if rep_stop a > rep_start b then Refused (OverlappingEdits (rep_start a) (rep_stop a) (rep_start b) (rep_stop b))
      else reject_overlaps (b # reps))"
| "reject_overlaps reps = Finished ()"

text \<open>\<^verbatim>\<open>isize\<close> arithmetic, which panics out of range, and \<^verbatim>\<open>usize::checked_add_signed\<close>.\<close>

definition isize_in :: "int \<Rightarrow> int attempt" where
  "isize_in i = (if - (2 ^ 63) \<le> i \<and> i < 2 ^ 63 then Finished i else Panics)"

definition checked_add_signed :: "nat \<Rightarrow> int \<Rightarrow> nat option" where
  "checked_add_signed n i = (if 0 \<le> int n + i \<and> int n + i \<le> int usize_max then Some (nat (int n + i)) else None)"

text \<open>
  Exact equality of a replacement: the lengths in bytes, then the bytes against \<^verbatim>\<open>base.slice(..)\<close>,
  which is given the byte offsets although it counts characters. \<open>zip\<close> stops at the shorter side.
\<close>

definition unchanged :: "'r rope_ops \<Rightarrow> 'r \<Rightarrow> replacement \<Rightarrow> bool attempt" where
  "unchanged R base rep =
     (if text_len (rep_text rep) = rep_stop rep - rep_start rep
      then attempt_then (expects (rope_slice R base (rep_start rep) (rep_stop rep)))
        (\<lambda>old. Finished (\<forall>(a, b) \<in> set (zip (text_bytes (rep_text rep)) (text_bytes old)). a = b))
      else Finished False)"

fun place_splices :: "'r rope_ops \<Rightarrow> 'r \<Rightarrow> replacement list \<Rightarrow> int \<Rightarrow> normalized_batch \<Rightarrow> normalized_batch attempt" where
  "place_splices R base [] shift out = Finished out"
| "place_splices R base (rep # reps) shift out = (case checked_add_signed (rep_start rep) shift of
     None \<Rightarrow> Refused BatchOverflow
   | Some start \<Rightarrow>
       attempt_then (unchanged R base rep) (\<lambda>same.
       if same then place_splices R base reps shift out
       else attempt_then (expects (checked_add_u64 start (text_len (rep_text rep)))) (\<lambda>stop.
            attempt_then (isize_in (shift + (int (text_len (rep_text rep)) - int (rep_stop rep - rep_start rep)))) (\<lambda>shift.
            place_splices R base reps shift
              (out\<lparr>nb_inserted := nb_inserted out @ [rep_text rep],
                 nb_splices := nb_splices out @ [\<lparr>old_start = rep_start rep, old_stop = rep_stop rep, new_start = start, new_stop = stop\<rparr>],
                 nb_removed_bytes := nb_removed_bytes out + (rep_stop rep - rep_start rep),
                 nb_inserted_bytes := nb_inserted_bytes out + text_len (rep_text rep)\<rparr>)))))"

text \<open>Neighbours in both coordinate spaces become one splice.\<close>

fun merge_adjacent :: "(source_splice \<times> utf8_text) list \<Rightarrow> (source_splice \<times> utf8_text) list \<Rightarrow> (source_splice \<times> utf8_text) list" where
  "merge_adjacent merged [] = merged"
| "merge_adjacent merged ((sp, value) # rest) =
     (if merged \<noteq> [] \<and> old_stop (fst (last merged)) = old_start sp \<and> new_stop (fst (last merged)) = new_start sp
      then merge_adjacent (butlast merged @ [((fst (last merged))\<lparr>old_stop := old_stop sp, new_stop := new_stop sp\<rparr>,
             snd (last merged) @ value)]) rest
      else merge_adjacent (merged @ [(sp, value)]) rest)"

definition normalize_edits :: "'r rope_ops \<Rightarrow> 'r option \<Rightarrow> source_edit list \<Rightarrow> normalized_batch attempt" where
  "normalize_edits R base edits =
     (let out = empty_batch\<lparr>nb_validated := length edits\<rparr> in
      if edits = [] then Finished out
      else case base of None \<Rightarrow> Refused UnopenedDocument
      | Some base \<Rightarrow>
          attempt_then (validate_edits R base 0 edits) (\<lambda>ops.
          let reps = replacements (map snd (sort_key op_key ops)) in
          attempt_then (reject_overlaps reps) (\<lambda>_.
          attempt_then (place_splices R base reps 0 out) (\<lambda>out.
          let merged = merge_adjacent [] (zip (nb_splices out) (nb_inserted out)) in
          Finished (out\<lparr>nb_effective := length merged, nb_splices := map fst merged, nb_inserted := map snd merged\<rparr>)))))"

section \<open>Applying splices\<close>

fun apply_descending :: "'r rope_ops \<Rightarrow> (source_splice \<times> utf8_text) list \<Rightarrow> 'r \<Rightarrow> 'r attempt" where
  "apply_descending R [] rope = Finished rope"
| "apply_descending R ((sp, value) # rest) rope =
     attempt_then (expects (rope_byte_to_char R rope (old_start sp))) (\<lambda>start.
     attempt_then (expects (rope_byte_to_char R rope (old_stop sp))) (\<lambda>stop.
     attempt_then (expects (rope_remove R rope start stop)) (\<lambda>rope.
     attempt_then (if value = [] then Finished rope else expects (rope_insert R rope start value)) (\<lambda>rope.
     apply_descending R rest rope))))"

definition apply_splices :: "'r rope_ops \<Rightarrow> 'r \<Rightarrow> source_splice list \<Rightarrow> utf8_text list \<Rightarrow> 'r attempt" where
  "apply_splices R base splices inserted = apply_descending R (zip (rev splices) (rev inserted)) base"

text \<open>A checked byte slice of a snapshot: it, too, hands byte offsets to \<^verbatim>\<open>slice\<close>.\<close>

definition snapshot_byte_slice :: "'r rope_ops \<Rightarrow> 'r \<Rightarrow> nat \<Rightarrow> nat \<Rightarrow> utf8_text attempt" where
  "snapshot_byte_slice R rope start stop =
     (if off_rope R rope start \<or> off_rope R rope stop then Refused SliceOffBoundary else expects (rope_slice R rope start stop))"

end
