(* ===== verification/Source_Correct.thy ===== *)
theory Source_Correct
  imports Source_Edits
begin

text \<open>
  What a batch of edits means: at every byte position the inserts there in the caller's order, then
  the byte unless a deletion covers it. On an ASCII base the normalised splices, applied from the
  end, compute exactly that.
\<close>

section \<open>The meaning of a batch\<close>

fun edit_kind_of :: "source_edit \<Rightarrow> edit_kind" where
  "edit_kind_of (InsertEdit key value) = InsertAt (range_start (span_range key)) value"
| "edit_kind_of (DeleteEdit key) = DeleteOver (range_start (span_range key)) (range_end (span_range key))"

fun inserted_at :: "nat \<Rightarrow> edit_kind \<Rightarrow> bool" where
  "inserted_at i (InsertAt p v) = (p = i)"
| "inserted_at i (DeleteOver s e) = False"

fun kind_bytes :: "edit_kind \<Rightarrow> nat list" where
  "kind_bytes (InsertAt p v) = text_bytes v"
| "kind_bytes (DeleteOver s e) = []"

definition inserts_at :: "edit_kind list \<Rightarrow> nat \<Rightarrow> nat list" where
  "inserts_at ks i = concat (map kind_bytes (filter (inserted_at i) ks))"

definition deleted :: "edit_kind list \<Rightarrow> nat \<Rightarrow> bool" where
  "deleted ks i \<longleftrightarrow> (\<exists>s e. DeleteOver s e \<in> set ks \<and> s \<le> i \<and> i < e)"

definition edited_at :: "nat list \<Rightarrow> edit_kind list \<Rightarrow> nat \<Rightarrow> nat list" where
  "edited_at base ks i = inserts_at ks i @ (if i < length base \<and> \<not> deleted ks i then [base ! i] else [])"

definition edited :: "nat list \<Rightarrow> edit_kind list \<Rightarrow> nat list" where
  "edited base ks = concat (map (edited_at base ks) [0..<Suc (length base)])"

lemma inserts_at_simps [simp]: "inserts_at [] i = []" "inserts_at (k # ks) i = (if inserted_at i k then kind_bytes k else []) @ inserts_at ks i"
    "inserts_at (ks @ ls) i = inserts_at ks i @ inserts_at ls i"
  by (simp_all add: inserts_at_def)

lemma deleted_append [simp]: "deleted (ks @ ls) i \<longleftrightarrow> deleted ks i \<or> deleted ls i"
  by (auto simp: deleted_def)

lemma inserts_at_none: "(\<And>k. k \<in> set ks \<Longrightarrow> kind_position k \<noteq> i) \<Longrightarrow> inserts_at ks i = []"
proof (induction ks)
  case (Cons k ks)
  then have "\<not> inserted_at i k" by (cases k) fastforce+
  then show ?case using Cons by simp
qed simp

section \<open>Sorting\<close>

lemma enumerate_inserts_sorted: "sorted (map op_key (filter (\<lambda>x. inserted_at i (snd x)) (enumerate n ks)))"
proof (induction ks arbitrary: n)
  case (Cons k ks)
  have "op_key (n, k) \<le> op_key x" if "inserted_at i k" "x \<in> set (enumerate (Suc n) ks)" "inserted_at i (snd x)" for x
  proof -
    obtain m l where x: "x = (m, l)" by fastforce
    have "n \<le> m" using that(2) x by (auto simp: in_set_enumerate_eq)
    then show ?thesis using that(1,3) x by (cases k; cases l) (auto simp: op_key_def less_eq_prod_def)
  qed
  then show ?case using Cons.IH [of "Suc n"] by auto
qed simp

lemma sort_keeps_inserts: "inserts_at (map snd (sort_key op_key (enumerate n ks))) i = inserts_at ks i"
proof -
  let ?P = "\<lambda>x. inserted_at i (snd x)"
  have "filter ?P (sort_key op_key (enumerate n ks)) = sort_key op_key (filter ?P (enumerate n ks))" by (rule filter_sort)
  also have "\<dots> = filter ?P (enumerate n ks)" by (rule sort_key_id_if_sorted [OF enumerate_inserts_sorted])
  finally have "map snd (filter ?P (sort_key op_key (enumerate n ks))) = map snd (filter ?P (enumerate n ks))" by simp
  moreover have "map snd (filter ?P xs) = filter (inserted_at i) (map snd xs)" for xs :: "edit_op list"
    by (simp add: filter_map comp_def)
  ultimately have "filter (inserted_at i) (map snd (sort_key op_key (enumerate n ks))) = filter (inserted_at i) ks" by simp
  then show ?thesis by (simp only: inserts_at_def)
qed

lemma sort_keeps_edited: "edited base (map snd (sort_key op_key (enumerate n ks))) = edited base ks"
proof -
  have same: "set (map snd (sort_key op_key (enumerate n ks))) = set ks" by (simp only: set_map set_sort) (metis map_snd_enumerate set_map)
  have "edited_at base (map snd (sort_key op_key (enumerate n ks))) = edited_at base ks"
    by (rule ext) (simp only: edited_at_def deleted_def sort_keeps_inserts same)
  then show ?thesis by (simp only: edited_def)
qed

lemma validated:
  "validate_edits R base n edits = Finished ops \<Longrightarrow> ops = enumerate n (map edit_kind_of edits) \<and>
     (\<forall>edit \<in> set edits. validate_edit R base edit = Finished (edit_kind_of edit))"
proof (induction R base n edits arbitrary: ops rule: validate_edits.induct)
  case (2 R base n edit edits)
  obtain k rest where k: "validate_edit R base edit = Finished k" "validate_edits R base (Suc n) edits = Finished rest" "ops = (n, k) # rest"
    using 2(2) by auto
  have "k = edit_kind_of edit" using k(1) by (cases edit) (auto simp: Let_def split: if_splits)
  then show ?case using 2(1) [OF k(2)] k by simp
qed simp

text \<open>Sorted by position.\<close>

lemma sorted_firsts: "sorted xs \<Longrightarrow> sorted (map fst xs)"
  by (induction xs) (auto simp: less_eq_prod_def)

lemma sorted_positions: "sorted (map (kind_position \<circ> snd) (sort_key op_key ops))"
proof -
  have "sorted (map op_key (sort_key op_key ops))" by simp
  then have "sorted (map fst (map op_key (sort_key op_key ops)))"
    by (rule sorted_firsts)
  then show ?thesis by (simp add: op_key_def comp_def)
qed

section \<open>Grouping\<close>

fun is_delete :: "edit_kind \<Rightarrow> bool" where
  "is_delete (DeleteOver s e) = True"
| "is_delete (InsertAt p v) = False"

text \<open>What a group is made of.\<close>

definition grouped :: "edit_kind list \<Rightarrow> replacement \<Rightarrow> bool" where
  "grouped used rep \<longleftrightarrow> used \<noteq> [] \<and> (\<forall>k \<in> set used. kind_position k = rep_start rep) \<and>
     text_bytes (rep_text rep) = inserts_at used (rep_start rep) \<and>
     ((filter is_delete used = [] \<and> rep_stop rep = rep_start rep) \<or> filter is_delete used = [DeleteOver (rep_start rep) (rep_stop rep)])"

lemma insert_run_used:
  "insert_run p stop taken v ops = (rep, rest) \<Longrightarrow> \<exists>used. ops = used @ rest \<and> rep_start rep = p \<and> (\<forall>k \<in> set used. kind_position k = p) \<and>
     text_bytes (rep_text rep) = text_bytes v @ inserts_at used p \<and>
     ((filter is_delete used = [] \<and> rep_stop rep = stop) \<or> (\<not> taken \<and> filter is_delete used = [DeleteOver p (rep_stop rep)]))"
proof (induction p stop taken v ops rule: insert_run.induct)
  case (2 p stop taken v q part ops)
  show ?case
  proof (cases "q = p")
    case True
    then obtain used where "ops = used @ rest \<and> rep_start rep = p \<and> (\<forall>k \<in> set used. kind_position k = p) \<and>
       text_bytes (rep_text rep) = text_bytes (v @ part) @ inserts_at used p \<and>
       ((filter is_delete used = [] \<and> rep_stop rep = stop) \<or> (\<not> taken \<and> filter is_delete used = [DeleteOver p (rep_stop rep)]))"
      using 2 by auto
    then show ?thesis using True by (intro exI [of _ "InsertAt q part # used"]) simp
  qed (use 2 in auto)
next
  case (3 p stop taken v start delete_stop ops)
  show ?case
  proof (cases "\<not> taken \<and> start = p")
    case True
    then obtain used where "ops = used @ rest \<and> rep_start rep = p \<and> (\<forall>k \<in> set used. kind_position k = p) \<and>
       text_bytes (rep_text rep) = text_bytes v @ inserts_at used p \<and> filter is_delete used = [] \<and> rep_stop rep = delete_stop"
      using 3 by auto
    then show ?thesis using True by (intro exI [of _ "DeleteOver start delete_stop # used"]) simp
  qed (use 3 in auto)
qed auto

lemma delete_run_used:
  "delete_run p stop v ops = (rep, rest) \<Longrightarrow> \<exists>used. ops = used @ rest \<and> rep_start rep = p \<and> rep_stop rep = stop \<and> (\<forall>k \<in> set used. kind_position k = p) \<and>
     text_bytes (rep_text rep) = text_bytes v @ inserts_at used p \<and> filter is_delete used = []"
proof (induction p stop v ops rule: delete_run.induct)
  case (1 p stop v q part ops)
  show ?case
  proof (cases "q = p")
    case True
    then obtain used where "ops = used @ rest \<and> rep_start rep = p \<and> rep_stop rep = stop \<and> (\<forall>k \<in> set used. kind_position k = p) \<and>
       text_bytes (rep_text rep) = text_bytes (v @ part) @ inserts_at used p \<and> filter is_delete used = []"
      using 1 by auto
    then show ?thesis using True by (intro exI [of _ "InsertAt q part # used"]) simp
  qed (use 1 in auto)
qed auto

lemma next_group_used:
  assumes "next_group k ops = (rep, rest)"
  shows "\<exists>used. k # ops = used @ rest \<and> grouped used rep \<and> rep_start rep = kind_position k"
proof (cases k)
  case (InsertAt p v)
  then have "insert_run p p False [] (k # ops) = (rep, rest)" using assms by (simp add: next_group_def)
  from insert_run_used [OF this] obtain used where u: "k # ops = used @ rest" "rep_start rep = p" "\<forall>k \<in> set used. kind_position k = p"
      "text_bytes (rep_text rep) = inserts_at used p"
      "(filter is_delete used = [] \<and> rep_stop rep = p) \<or> filter is_delete used = [DeleteOver p (rep_stop rep)]" by auto
  have "used \<noteq> []"
  proof
    assume "used = []"
    then have "length (k # ops) = length rest" using u(1) by simp
    moreover have "length rest \<le> length ops" using next_group_shorter [of k ops] assms by simp
    ultimately show False by simp
  qed
  then show ?thesis using u InsertAt by (intro exI [of _ used]) (simp add: grouped_def)
next
  case (DeleteOver s e)
  then have "delete_run s e [] ops = (rep, rest)" using assms by (simp add: next_group_def)
  from delete_run_used [OF this] obtain used where "ops = used @ rest" "rep_start rep = s" "rep_stop rep = e" "\<forall>k \<in> set used. kind_position k = s"
      "text_bytes (rep_text rep) = inserts_at used s" "filter is_delete used = []" by auto
  then show ?thesis using DeleteOver by (intro exI [of _ "k # used"]) (simp add: grouped_def)
qed


section \<open>Rebuilding\<close>

fun rebuild :: "nat list \<Rightarrow> nat \<Rightarrow> replacement list \<Rightarrow> nat list" where
  "rebuild base p [] = drop p base"
| "rebuild base p (rep # reps) = drop p (take (rep_start rep) base) @ text_bytes (rep_text rep) @ rebuild base (rep_stop rep) reps"

text \<open>Replacements in order, without overlaps, between two positions.\<close>

fun chained :: "nat \<Rightarrow> replacement list \<Rightarrow> nat \<Rightarrow> bool" where
  "chained p [] n = (p \<le> n)"
| "chained p (rep # reps) n = (p \<le> rep_start rep \<and> rep_start rep \<le> rep_stop rep \<and> chained (rep_stop rep) reps n)"

lemma chained_end: "chained p reps n \<Longrightarrow> p \<le> n"
  by (induction p reps n rule: chained.induct) auto

lemma concat_upt_split: "a \<le> b \<Longrightarrow> b \<le> c \<Longrightarrow> concat (map f [a..<c]) = concat (map f [a..<b]) @ concat (map f [b..<c])"
  using upt_split [of a b c] by simp

lemma concat_plain: "b \<le> length base \<Longrightarrow> (\<And>i. a \<le> i \<Longrightarrow> i < b \<Longrightarrow> f i = [base ! i]) \<Longrightarrow> concat (map f [a..<b]) = drop a (take b base)"
proof (induction b)
  case (Suc b)
  show ?case
  proof (cases "a \<le> b")
    case True
    then have "concat (map f [a..<Suc b]) = drop a (take b base) @ [base ! b]" using Suc by simp
    also have "\<dots> = drop a (take (Suc b) base)" using True Suc.prems(1) by (simp add: take_Suc_conv_app_nth)
    finally show ?thesis .
  qed simp
qed simp

lemma replacements_nonempty: "replacements (k # ops) = rep # reps \<Longrightarrow> rep_start rep = kind_position k"
  using next_group_used [of k ops] by (auto split: prod.splits)

lemma grouped_rebuilds:
  "sorted (map kind_position ks) \<Longrightarrow> chained p (replacements ks) (length base) \<Longrightarrow>
   concat (map (edited_at base ks) [p..<Suc (length base)]) = rebuild base p (replacements ks)"
proof (induction ks arbitrary: p rule: replacements.induct)
  case 1
  let ?n = "length base"
  have "p \<le> ?n" using 1 by simp
  then have "concat (map (edited_at base []) [p..<Suc ?n]) = concat (map (edited_at base []) [p..<?n]) @ edited_at base [] ?n" by simp
  also have "concat (map (edited_at base []) [p..<?n]) = drop p (take ?n base)"
    by (rule concat_plain) (simp_all add: edited_at_def deleted_def)
  finally show ?case by (simp add: edited_at_def deleted_def)
next
  case (2 k ops)
  let ?n = "length base"
  obtain rep rest where g: "next_group k ops = (rep, rest)" by fastforce
  obtain used where u: "k # ops = used @ rest" "grouped used rep" "rep_start rep = kind_position k" using next_group_used [OF g] by blast
  let ?a = "rep_start rep" and ?e = "rep_stop rep"
  have reps: "replacements (k # ops) = rep # replacements rest" by (simp add: g)
  have ch: "p \<le> ?a" "?a \<le> ?e" "chained ?e (replacements rest) ?n" using 2(3) [unfolded reps] by simp_all
  have e: "?e \<le> ?n" using chained_end [OF ch(3)] .
  have srt: "sorted (map kind_position rest)" using 2(2) unfolding u(1) by (simp add: sorted_append)
  have IH: "concat (map (edited_at base rest) [?e..<Suc ?n]) = rebuild base ?e (replacements rest)"
    by (rule 2(1) [OF _ refl srt ch(3)]) (simp add: g)
  have later: "?e \<le> kind_position l" if "l \<in> set rest" for l
  proof (cases rest)
    case (Cons r rs)
    then obtain rep' reps' where r: "replacements rest = rep' # reps'" by (cases "replacements rest") (auto split: prod.splits)
    then have "?e \<le> kind_position r" using ch(3) replacements_nonempty [of r rs rep' reps'] Cons by simp
    then show ?thesis using that srt Cons by auto
  qed (use that in simp)
  have used_pos: "kind_position l = ?a" if "l \<in> set used" for l using u(2) that by (simp add: grouped_def)
  have used_del: "deleted used i \<longleftrightarrow> ?a \<le> i \<and> i < ?e" for i
  proof -
    have mem: "DeleteOver s t \<in> set used \<longleftrightarrow> DeleteOver s t \<in> set (filter is_delete used)" for s t by simp
    consider "filter is_delete used = []" "?e = ?a" | "filter is_delete used = [DeleteOver ?a ?e]" using u(2) by (auto simp: grouped_def)
    then show ?thesis
    proof cases
      case 1
      then have "DeleteOver s t \<notin> set used" for s t using mem [of s t] unfolding 1(1) by simp
      then show ?thesis using 1(2) by (simp add: deleted_def)
    next
      case 2
      then have "DeleteOver s t \<in> set used \<longleftrightarrow> s = ?a \<and> t = ?e" for s t using mem [of s t] unfolding 2 by simp
      then show ?thesis by (auto simp: deleted_def)
    qed
  qed
  have ins: "inserts_at used i = (if i = ?a then text_bytes (rep_text rep) else [])" for i
    using u(2) inserts_at_none [of used i] used_pos by (auto simp: grouped_def)
  have rest_ins: "i < ?e \<Longrightarrow> inserts_at rest i = []" for i using inserts_at_none [of rest i] later by fastforce
  have rest_del: "i < ?e \<Longrightarrow> \<not> deleted rest i" for i using later by (fastforce simp: deleted_def)
  have at_: "edited_at base (k # ops) i = (if i = ?a then text_bytes (rep_text rep) else []) @
      (if ?a \<le> i \<and> i < ?e then [] else edited_at base rest i)" for i
    using rest_ins [of i] unfolding u(1) edited_at_def by (auto simp: ins used_del)
  have plain: "concat (map (edited_at base (k # ops)) [p..<?a]) = drop p (take ?a base)"
  proof (rule concat_plain)
    show "?a \<le> ?n" using ch(2) e by simp
    show "edited_at base (k # ops) i = [base ! i]" if "p \<le> i" "i < ?a" for i
    proof -
      have "edited_at base rest i = [base ! i]" using that(2) rest_ins [of i] rest_del [of i] ch(2) e by (simp add: edited_at_def)
      then show ?thesis using that by (simp add: at_)
    qed
  qed
  have tail: "concat (map (edited_at base (k # ops)) [?a..<Suc ?n]) = text_bytes (rep_text rep) @ concat (map (edited_at base rest) [?e..<Suc ?n])"
  proof (cases "?a = ?e")
    case True
    have "[?a..<Suc ?n] = ?a # [Suc ?a..<Suc ?n]" using e True by (simp add: upt_conv_Cons)
    moreover have "map (edited_at base (k # ops)) [Suc ?a..<Suc ?n] = map (edited_at base rest) [Suc ?a..<Suc ?n]"
      by (rule map_cong) (use True in \<open>auto simp: at_\<close>)
    moreover have "edited_at base (k # ops) ?a = text_bytes (rep_text rep) @ edited_at base rest ?a" using True by (simp add: at_)
    ultimately show ?thesis by (simp only: True list.map concat.simps append_assoc)
  next
    case False
    have "concat (map (edited_at base (k # ops)) [?a..<Suc ?n]) =
        concat (map (edited_at base (k # ops)) [?a..<?e]) @ concat (map (edited_at base (k # ops)) [?e..<Suc ?n])"
      by (rule concat_upt_split) (use ch(2) e in simp_all)
    also have "concat (map (edited_at base (k # ops)) [?a..<?e]) = text_bytes (rep_text rep)"
    proof -
      have "[?a..<?e] = ?a # [Suc ?a..<?e]" using False ch(2) by (simp add: upt_conv_Cons)
      moreover have "concat (map (edited_at base (k # ops)) [Suc ?a..<?e]) = []" by (auto simp: at_)
      ultimately show ?thesis using False ch(2) by (simp add: at_)
    qed
    also have "map (edited_at base (k # ops)) [?e..<Suc ?n] = map (edited_at base rest) [?e..<Suc ?n]"
      by (rule map_cong) (use False ch(2) in \<open>auto simp: at_\<close>)
    finally show ?thesis .
  qed
  have "concat (map (edited_at base (k # ops)) [p..<Suc ?n]) =
      concat (map (edited_at base (k # ops)) [p..<?a]) @ concat (map (edited_at base (k # ops)) [?a..<Suc ?n])"
    by (rule concat_upt_split) (use ch e in simp_all)
  then show ?case unfolding plain tail IH reps by simp
qed

lemma no_overlap_chained:
  "reject_overlaps reps = Finished () \<Longrightarrow> (\<And>r. r \<in> set reps \<Longrightarrow> rep_start r \<le> rep_stop r \<and> rep_stop r \<le> n) \<Longrightarrow>
   (reps \<noteq> [] \<longrightarrow> p \<le> rep_start (hd reps)) \<Longrightarrow> p \<le> n \<Longrightarrow> chained p reps n"
proof (induction reps arbitrary: p)
  case (Cons r reps)
  have "chained (rep_stop r) reps n"
  proof (rule Cons.IH)
    show "reject_overlaps reps = Finished ()" using Cons.prems(1) by (cases reps) (auto split: if_splits)
    show "reps \<noteq> [] \<longrightarrow> rep_stop r \<le> rep_start (hd reps)" using Cons.prems(1) by (cases reps) (auto split: if_splits)
  qed (use Cons.prems(2) in auto)
  then show ?case using Cons.prems by simp
qed simp

lemma replacement_bounds:
  assumes "\<And>k. k \<in> set ks \<Longrightarrow> kind_position k \<le> n \<and> (\<forall>s e. k = DeleteOver s e \<longrightarrow> s \<le> e \<and> e \<le> n)"
  shows "r \<in> set (replacements ks) \<Longrightarrow> rep_start r \<le> rep_stop r \<and> rep_stop r \<le> n"
  using assms
proof (induction ks rule: replacements.induct)
  case (2 k ops)
  obtain rep rest where g: "next_group k ops = (rep, rest)" by fastforce
  obtain used where u: "k # ops = used @ rest" "grouped used rep" using next_group_used [OF g] by blast
  have known: "kind_position l \<le> n \<and> (\<forall>s e. l = DeleteOver s e \<longrightarrow> s \<le> e \<and> e \<le> n)" if "l \<in> set used \<union> set rest" for l
    using that u(1) 2(3) [of l] by (metis UnE set_append UnI1 UnI2)
  have "rep_start rep \<le> rep_stop rep \<and> rep_stop rep \<le> n"
  proof -
    obtain l where l: "l \<in> set used" "kind_position l = rep_start rep" using u(2) by (cases used) (auto simp: grouped_def)
    have "DeleteOver (rep_start rep) (rep_stop rep) \<in> set used" if "filter is_delete used = [DeleteOver (rep_start rep) (rep_stop rep)]"
      using that by (metis filter_is_subset list.set_intros(1) subset_code(1))
    then show ?thesis using u(2) known [of l] known [of "DeleteOver (rep_start rep) (rep_stop rep)"] l by (auto simp: grouped_def)
  qed
  moreover have "rep_start r \<le> rep_stop r \<and> rep_stop r \<le> n" if "r \<in> set (replacements rest)"
    by (rule 2(1) [OF _ refl that]) (use g known in auto)
  ultimately show ?case using 2(2) by (auto simp: g)
qed simp

end
