(* ===== verification/Source_Apply.thy ===== *)
theory Source_Apply
  imports Source_Correct
begin

text \<open>
  From replacements to splices and back to a text: placing the replacements in the new coordinates,
  dropping the ones that change nothing, merging neighbours, and applying the splices from the end
  all keep the text that the replacements rebuild.
\<close>

section \<open>Splices in place\<close>

definition rep_of :: "source_splice \<times> utf8_text \<Rightarrow> replacement" where
  "rep_of sv = \<lparr>rep_start = old_start (fst sv), rep_stop = old_stop (fst sv), rep_text = snd sv\<rparr>"

lemma rep_of_simps [simp]: "rep_start (rep_of (sp, v)) = old_start sp" "rep_stop (rep_of (sp, v)) = old_stop sp" "rep_text (rep_of (sp, v)) = v"
  by (simp_all add: rep_of_def)

text \<open>Splices with exact ranges: \<open>p\<close> and \<open>q\<close> are corresponding positions of the old and the new text.\<close>

fun placed :: "nat \<Rightarrow> nat \<Rightarrow> (source_splice \<times> utf8_text) list \<Rightarrow> bool" where
  "placed p q [] = True"
| "placed p q ((sp, v) # ps) = (p \<le> old_start sp \<and> old_start sp \<le> old_stop sp \<and> new_start sp = q + (old_start sp - p) \<and>
     new_stop sp = new_start sp + text_len v \<and> placed (old_stop sp) (new_stop sp) ps)"

abbreviation chained_splices :: "nat \<Rightarrow> (source_splice \<times> utf8_text) list \<Rightarrow> nat \<Rightarrow> bool" where
  "chained_splices p ps n \<equiv> chained p (map rep_of ps) n"

abbreviation spliced :: "nat list \<Rightarrow> nat \<Rightarrow> (source_splice \<times> utf8_text) list \<Rightarrow> nat list" where
  "spliced base p ps \<equiv> rebuild base p (map rep_of ps)"

lemma placed_earlier: "placed (p + k) (q + k) ps \<Longrightarrow> placed p q ps"
  by (cases ps) (auto split: prod.splits)

lemma chained_earlier: "chained p reps n \<Longrightarrow> p' \<le> p \<Longrightarrow> chained p' reps n"
  by (cases reps) auto

lemma slice_join: "p \<le> s \<Longrightarrow> s \<le> e \<Longrightarrow> drop p (take e xs) = drop p (take s xs) @ drop s (take e xs)"
proof -
  assume "p \<le> s" "s \<le> e"
  have "take e xs = take s xs @ drop s (take e xs)" using \<open>s \<le> e\<close> by (metis append_take_drop_id min.absorb1 take_take)
  moreover have "p \<le> length (take s xs) \<or> drop s (take e xs) = []" using \<open>p \<le> s\<close> by auto
  ultimately show ?thesis by (metis append_Nil2 drop_append diff_is_0_eq' drop0)
qed

lemma rebuild_earlier: "chained p reps n \<Longrightarrow> p' \<le> p \<Longrightarrow> rebuild base p' reps = drop p' (take p base) @ rebuild base p reps"
proof (cases reps)
  case Nil
  assume "chained p reps n" "p' \<le> p"
  then show ?thesis using Nil slice_join [of p' p "length base" base] by (cases "p \<le> length base") simp_all
next
  case (Cons rep rest)
  assume c: "chained p reps n" "p' \<le> p"
  then have "drop p' (take (rep_start rep) base) = drop p' (take p base) @ drop p (take (rep_start rep) base)"
    using slice_join [of p' p "rep_start rep" base] Cons by simp
  then show ?thesis by (simp add: Cons)
qed

section \<open>Placing\<close>

abbreviation added_bytes :: "replacement list \<Rightarrow> nat" where
  "added_bytes reps \<equiv> (\<Sum>rep \<leftarrow> reps. text_len (rep_text rep))"

lemma place_splices_correct:
  assumes "\<And>rep. rep \<in> set reps \<Longrightarrow> unchanged R base rep = Finished (text_bytes (rep_text rep) = drop (rep_start rep) (take (rep_stop rep) bytes))"
    and "chained p reps (length bytes)" "q + (length bytes - p) + added_bytes reps \<le> isize_max" "length bytes \<le> isize_max"
  shows "\<exists>out' ps. place_splices R base reps (int q - int p) out = Finished out' \<and> nb_splices out' = nb_splices out @ map fst ps \<and>
    nb_inserted out' = nb_inserted out @ map snd ps \<and> placed p q ps \<and> chained_splices p ps (length bytes) \<and>
    spliced bytes p ps = rebuild bytes p reps \<and> nb_validated out' = nb_validated out \<and>
    nb_removed_bytes out' = nb_removed_bytes out + sum_list (map (\<lambda>(sp, v). old_stop sp - old_start sp) ps) \<and>
    nb_inserted_bytes out' = nb_inserted_bytes out + sum_list (map (\<lambda>(sp, v). text_len v) ps)"
  using assms
proof (induction reps arbitrary: p q out)
  case Nil
  then show ?case by (intro exI [of _ out] exI [of _ "[]"]) simp
next
  case (Cons rep reps)
  let ?n = "length bytes" and ?s = "rep_start rep" and ?e = "rep_stop rep"
  have ch: "p \<le> ?s" "?s \<le> ?e" "chained ?e reps ?n" using Cons.prems(2) by simp_all
  have e: "?e \<le> ?n" using chained_end [OF ch(3)] .
  have start: "checked_add_signed ?s (int q - int p) = Some (q + (?s - p))"
  proof -
    have "int ?s + (int q - int p) = int (q + (?s - p))" using ch(1) by simp
    moreover have "q + (?s - p) \<le> usize_max"
    proof -
      have "q + (?s - p) \<le> q + (?n - p) + added_bytes (rep # reps)" using ch(2) e by simp
      then have "q + (?s - p) \<le> isize_max" using Cons.prems(3) by (rule order_trans)
      then show ?thesis by (simp add: isize_max_def usize_max_def)
    qed
    ultimately show ?thesis unfolding checked_add_signed_def by (simp only: nat_int of_nat_0_le_iff of_nat_le_iff simp_thms if_True)
  qed
  have same: "unchanged R base rep = Finished (text_bytes (rep_text rep) = drop ?s (take ?e bytes))" by (rule Cons.prems(1)) simp
  show ?case
  proof (cases "text_bytes (rep_text rep) = drop ?s (take ?e bytes)")
    case True
    let ?q = "q + (?e - p)"
    have shift: "int ?q - int ?e = int q - int p" using ch by simp
    have "\<exists>out' ps. place_splices R base reps (int ?q - int ?e) out = Finished out' \<and> nb_splices out' = nb_splices out @ map fst ps \<and>
        nb_inserted out' = nb_inserted out @ map snd ps \<and> placed ?e ?q ps \<and> chained_splices ?e ps ?n \<and>
        spliced bytes ?e ps = rebuild bytes ?e reps \<and> nb_validated out' = nb_validated out \<and>
        nb_removed_bytes out' = nb_removed_bytes out + sum_list (map (\<lambda>(sp, v). old_stop sp - old_start sp) ps) \<and>
        nb_inserted_bytes out' = nb_inserted_bytes out + sum_list (map (\<lambda>(sp, v). text_len v) ps)"
      by (rule Cons.IH) (use Cons.prems ch e in auto)
    then obtain out' ps where IH: "place_splices R base reps (int ?q - int ?e) out = Finished out'" "nb_splices out' = nb_splices out @ map fst ps"
        "nb_inserted out' = nb_inserted out @ map snd ps" "placed ?e ?q ps" "chained_splices ?e ps ?n"
        "spliced bytes ?e ps = rebuild bytes ?e reps" "nb_validated out' = nb_validated out"
        "nb_removed_bytes out' = nb_removed_bytes out + sum_list (map (\<lambda>(sp, v). old_stop sp - old_start sp) ps)"
        "nb_inserted_bytes out' = nb_inserted_bytes out + sum_list (map (\<lambda>(sp, v). text_len v) ps)" by blast
    have "placed p q ps" using placed_earlier [of p "?e - p" q ps] IH(4) ch by simp
    moreover have "chained_splices p ps ?n" using chained_earlier [OF IH(5)] ch by simp
    moreover have "spliced bytes p ps = rebuild bytes p (rep # reps)"
      using rebuild_earlier [OF IH(5), of p bytes] slice_join [of p ?s ?e bytes] ch True IH(6) by simp
    ultimately show ?thesis using start same True IH(1-3,7-9) shift by (intro exI [of _ out'] exI [of _ ps]) simp
  next
    case False
    let ?t = "q + (?s - p)" let ?u = "?t + text_len (rep_text rep)"
    let ?sp = "\<lparr>old_start = ?s, old_stop = ?e, new_start = ?t, new_stop = ?u\<rparr>"
    let ?out = "out\<lparr>nb_inserted := nb_inserted out @ [rep_text rep], nb_splices := nb_splices out @ [?sp],
        nb_removed_bytes := nb_removed_bytes out + (?e - ?s), nb_inserted_bytes := nb_inserted_bytes out + text_len (rep_text rep)\<rparr>"
    have room: "?u + (?n - ?e) + added_bytes reps \<le> isize_max"
    proof -
      have "(?s - p) + (?n - ?e) \<le> ?n - p" using ch e by arith
      moreover have "added_bytes (rep # reps) = text_len (rep_text rep) + added_bytes reps" by simp
      moreover note Cons.prems(3)
      ultimately show ?thesis by linarith
    qed
    have add: "checked_add_u64 ?t (text_len (rep_text rep)) = Some ?u" using room by (simp add: checked_add_u64_def isize_max_def usize_max_def)
    have shift: "int q - int p + (int (text_len (rep_text rep)) - int (?e - ?s)) = int ?u - int ?e" using ch by simp
    have "isize_in (int ?u - int ?e) = Finished (int ?u - int ?e)" using room e Cons.prems(4) by (simp add: isize_in_def isize_max_def)
    note ok = this [folded shift]
    have "\<exists>out' ps. place_splices R base reps (int ?u - int ?e) ?out = Finished out' \<and> nb_splices out' = nb_splices ?out @ map fst ps \<and>
        nb_inserted out' = nb_inserted ?out @ map snd ps \<and> placed ?e ?u ps \<and> chained_splices ?e ps ?n \<and>
        spliced bytes ?e ps = rebuild bytes ?e reps \<and> nb_validated out' = nb_validated ?out \<and>
        nb_removed_bytes out' = nb_removed_bytes ?out + sum_list (map (\<lambda>(sp, v). old_stop sp - old_start sp) ps) \<and>
        nb_inserted_bytes out' = nb_inserted_bytes ?out + sum_list (map (\<lambda>(sp, v). text_len v) ps)"
      by (rule Cons.IH [OF Cons.prems(1) ch(3) room Cons.prems(4)]) simp
    then obtain out' ps where IH: "place_splices R base reps (int ?u - int ?e) ?out = Finished out'" "nb_splices out' = nb_splices ?out @ map fst ps"
        "nb_inserted out' = nb_inserted ?out @ map snd ps" "placed ?e ?u ps" "chained_splices ?e ps ?n"
        "spliced bytes ?e ps = rebuild bytes ?e reps" "nb_validated out' = nb_validated ?out"
        "nb_removed_bytes out' = nb_removed_bytes ?out + sum_list (map (\<lambda>(sp, v). old_stop sp - old_start sp) ps)"
        "nb_inserted_bytes out' = nb_inserted_bytes ?out + sum_list (map (\<lambda>(sp, v). text_len v) ps)" by blast
    have "place_splices R base (rep # reps) (int q - int p) out = Finished out'"
      using IH(1) by (simp only: place_splices.simps option.case start same False simp_thms if_False attempt_then.simps add expects_simps shift ok [unfolded shift])
    then show ?thesis using IH ch by (intro exI [of _ out'] exI [of _ "(?sp, rep_text rep) # ps"]) simp
  qed
qed


section \<open>Merging\<close>

lemma placed_context:
  "(\<And>p q. placed p q xs \<Longrightarrow> placed p q ys) \<Longrightarrow> placed p q (ms @ xs) \<Longrightarrow> placed p q (ms @ ys)"
  by (induction ms arbitrary: p q) (auto split: prod.splits)

lemma chained_context:
  "(\<And>p. chained_splices p xs n \<Longrightarrow> chained_splices p ys n) \<Longrightarrow> chained_splices p (ms @ xs) n \<Longrightarrow> chained_splices p (ms @ ys) n"
  by (induction ms arbitrary: p) auto

lemma spliced_context:
  "(\<And>p. chained_splices p xs n \<Longrightarrow> spliced base p xs = spliced base p ys) \<Longrightarrow> chained_splices p (ms @ xs) n \<Longrightarrow>
   spliced base p (ms @ xs) = spliced base p (ms @ ys)"
  by (induction ms arbitrary: p) auto

lemma merge_adjacent_correct:
  "placed p q (merged @ rest) \<Longrightarrow> chained_splices p (merged @ rest) n \<Longrightarrow>
   placed p q (merge_adjacent merged rest) \<and> chained_splices p (merge_adjacent merged rest) n \<and>
   spliced base p (merge_adjacent merged rest) = spliced base p (merged @ rest)"
proof (induction merged rest rule: merge_adjacent.induct)
  case (2 merged sp v rest)
  show ?case
  proof (cases "merged \<noteq> [] \<and> old_stop (fst (last merged)) = old_start sp \<and> new_stop (fst (last merged)) = new_start sp")
    case True
    obtain sp0 v0 where l: "last merged = (sp0, v0)" by fastforce
    let ?m = "(sp0\<lparr>old_stop := old_stop sp, new_stop := new_stop sp\<rparr>, v0 @ v)"
    let ?xs = "(sp0, v0) # (sp, v) # rest" and ?ys = "?m # rest"
    have "merged = butlast merged @ [(sp0, v0)]" using True append_butlast_last_id [of merged] l by simp
    then have split: "merged @ (sp, v) # rest = butlast merged @ ?xs" by (metis append.assoc append_Cons append_Nil)
    have eq: "old_stop sp0 = old_start sp" "new_stop sp0 = new_start sp" using True l by simp_all
    have "placed p' q' ?xs \<Longrightarrow> placed p' q' ?ys" for p' q' using eq by auto
    note a = placed_context [of ?xs ?ys, OF this 2(3) [unfolded split]]
    have "chained_splices p' ?xs n \<Longrightarrow> chained_splices p' ?ys n" for p' using eq by auto
    note b = chained_context [of ?xs n ?ys, OF this 2(4) [unfolded split]]
    have "chained_splices p' ?xs n \<Longrightarrow> spliced base p' ?xs = spliced base p' ?ys" for p' using eq by simp
    note c = spliced_context [of ?xs n base ?ys, OF this 2(4) [unfolded split]]
    have step: "merge_adjacent merged ((sp, v) # rest) = merge_adjacent (butlast merged @ [?m]) rest" using True l by simp
    have flat: "(butlast merged @ [?m]) @ rest = butlast merged @ ?ys" by simp
    have "placed p q (merge_adjacent (butlast merged @ [?m]) rest) \<and> chained_splices p (merge_adjacent (butlast merged @ [?m]) rest) n \<and>
        spliced base p (merge_adjacent (butlast merged @ [?m]) rest) = spliced base p ((butlast merged @ [?m]) @ rest)"
      using 2(1) [OF True] unfolding l fst_conv snd_conv flat using a b by blast
    then show ?thesis unfolding step split flat using c by (simp only: simp_thms)
  next
    case False
    then have step: "merge_adjacent merged ((sp, v) # rest) = merge_adjacent (merged @ [(sp, v)]) rest" by auto
    show ?thesis unfolding step using 2(2) [OF False] 2(3,4) by simp
  qed
qed simp

section \<open>Applying\<close>

lemma apply_descending_append:
  "apply_descending R (xs @ ys) rope = attempt_then (apply_descending R xs rope) (apply_descending R ys)"
proof (induction xs arbitrary: rope)
  case (Cons x xs)
  have assoc: "attempt_then (attempt_then a f) h = attempt_then a (\<lambda>x. attempt_then (f x) h)" for a :: "'b attempt" and f :: "'b \<Rightarrow> 'c attempt" and h :: "'c \<Rightarrow> 'd attempt"
    by (cases a) auto
  obtain sp v where x: "x = (sp, v)" by fastforce
  show ?case unfolding x
    by (cases "rope_byte_to_char R rope (old_start sp)"; cases "rope_byte_to_char R rope (old_stop sp)") (auto simp: assoc Cons.IH expects_def split: option.splits)
qed simp

lemma apply_descending_correct:
  assumes "rope_contract R chars"
  shows "chained_splices p ps n \<Longrightarrow> n = text_len (chars base) \<Longrightarrow>
    (\<forall>(sp, v) \<in> set ps. boundary (chars base) (old_start sp) \<and> boundary (chars base) (old_stop sp)) \<Longrightarrow> boundary (chars base) p \<Longrightarrow>
    \<exists>r tail. apply_descending R (rev ps) base = Finished r \<and> chars r = take (char_at_byte (chars base) p) (chars base) @ tail \<and>
      text_bytes tail = spliced (text_bytes (chars base)) p ps"
proof (induction ps arbitrary: p)
  case Nil
  then show ?case using boundary_cut(3) by (intro exI [of _ base] exI [of _ "drop (char_at_byte (chars base) p) (chars base)"]) simp
next
  case (Cons x ps)
  obtain sp v where x: "x = (sp, v)" by fastforce
  let ?t = "chars base" and ?s = "old_start sp" and ?e = "old_stop sp"
  have b: "boundary ?t ?s" "boundary ?t ?e" using Cons.prems(3) x by auto
  have ch: "p \<le> ?s" "?s \<le> ?e" "chained_splices ?e ps n" using Cons.prems(1) x by simp_all
  obtain r tail where r: "apply_descending R (rev ps) base = Finished r" "chars r = take (char_at_byte ?t ?e) ?t @ tail"
      "text_bytes tail = spliced (text_bytes ?t) ?e ps" using Cons.IH [OF ch(3) Cons.prems(2) _ b(2)] Cons.prems(3) by auto
  let ?i = "char_at_byte ?t ?s" and ?j = "char_at_byte ?t ?e" and ?k = "char_at_byte ?t p"
  have mono: "char_at_byte ?t a \<le> char_at_byte ?t c" if "a \<le> c" for a c using char_at_byte_mono [OF that] .
  have ij: "?k \<le> ?i" "?i \<le> ?j" "?j \<le> length ?t" using mono ch b(2) boundary_cut(1) by auto
  have pre: "boundary (take ?j ?t) ?s" "boundary (take ?j ?t) ?e"
    using boundary_prefix [OF b(1) b(2) ch(2)] boundary_prefix [OF b(2) b(2)] by simp_all
  have idx: "char_at_byte (chars r) b = char_at_byte ?t b \<and> boundary (chars r) b" if "boundary (take ?j ?t) b" for b
    using boundary_append [OF that, of tail] boundary_append [OF that, of "drop ?j ?t"] r(2) by simp
  have e_len: "?e \<le> text_len (chars r)" using boundary_cut(4) idx [OF pre(2)] by blast
  have len: "length (chars r) \<ge> ?j" using r(2) ij(3) by simp
  obtain r1 where r1: "rope_remove R r ?i ?j = Some r1" "chars r1 = take ?i (chars r) @ drop ?j (chars r)"
    using rope_laws(4) [OF assms ij(2) len] by blast
  have r1_chars: "chars r1 = take ?i ?t @ tail" using r1(2) r(2) ij by (simp add: min_absorb1)
  obtain r2 where r2: "(if v = [] then Finished r1 else expects (rope_insert R r1 ?i v)) = Finished r2" "chars r2 = take ?i ?t @ v @ tail"
  proof (cases "v = []")
    case True
    then show ?thesis using that r1_chars by simp
  next
    case False
    have "?i \<le> length (chars r1)" using r1_chars ij by simp
    from rope_laws(5) [OF assms this, of v] obtain r2 where "rope_insert R r1 ?i v = Some r2" "chars r2 = take ?i (chars r1) @ v @ drop ?i (chars r1)" by blast
    then show ?thesis using that [of r2] False r1_chars ij by (simp add: min_absorb1)
  qed
  have run: "apply_descending R (rev (x # ps)) base = Finished r2"
    using r(1) r1(1) r2(1) idx [OF pre(1)] idx [OF pre(2)] e_len ch(2) by (simp add: apply_descending_append x rope_laws(2) [OF assms])
  have "take ?i ?t = take ?k ?t @ drop ?k (take ?i ?t)" using ij(1) by (metis append_take_drop_id min.absorb1 take_take)
  then have "chars r2 = take ?k ?t @ drop ?k (take ?i ?t) @ v @ tail" using r2(2) by (metis append_assoc)
  moreover have "text_bytes (drop ?k (take ?i ?t)) = drop p (take ?s (text_bytes ?t))"
    using boundary_slice [OF Cons.prems(4) b(1) ch(1)] .
  ultimately show ?case using run r(3) by (intro exI [of _ r2] exI [of _ "drop ?k (take ?i ?t) @ v @ tail"]) (simp add: x)
qed

end
