(* ===== verification/Multiset_Lists.thy ===== *)
theory Multiset_Lists
  imports Prelude "HOL-Library.Multiset"
begin

text \<open>Lists up to permutation: what a symmetric relation of all pairs and a mapping keep.\<close>

lemma sorted_wrt_permuted:
  "mset xs = mset ys \<Longrightarrow> (\<And>k l. R k l \<Longrightarrow> R l k) \<Longrightarrow> sorted_wrt R xs \<Longrightarrow> sorted_wrt R ys"
proof (induction ys arbitrary: xs)
  case (Cons y ys)
  obtain a b where xs: "xs = a @ y # b" using Cons.prems(1) by (metis list.set_intros(1) set_mset_mset split_list)
  then have "mset (a @ b) = mset ys" using Cons.prems(1) by simp
  moreover have "sorted_wrt R (a @ b)" "\<forall>x \<in> set (a @ b). R y x" using Cons.prems(2,3) xs by (auto simp: sorted_wrt_append)
  ultimately show ?case using Cons.IH [of "a @ b"] Cons.prems(2) by (metis mset_eq_setD sorted_wrt.simps(2))
qed simp

end
