(* ===== verification/Source_Normalize.thy ===== *)
theory Source_Normalize
  imports Source_Apply Multiset_Lists
begin

text \<open>
  The whole normalisation: on an ASCII base it never panics, what it accepts rebuilds the edited
  text with exact ranges on both sides, and it accepts every batch of edits that are in range and
  whose deletions are disjoint and contain no insertion.
\<close>

section \<open>Exact comparison\<close>

lemma bytes_equal_by_zip: "length xs = length ys \<Longrightarrow> (\<forall>(a, b) \<in> set (zip xs ys). a = b) \<longleftrightarrow> xs = ys"
  by (induction xs ys rule: list_induct2) auto

lemma ascii_sub: "ascii t \<Longrightarrow> ascii (drop i (take j t))"
  by (metis ascii_append append_take_drop_id)

lemma unchanged_exact:
  assumes "rope_contract R chars" "ascii (chars base)" "rep_start rep \<le> rep_stop rep" "rep_stop rep \<le> text_len (chars base)"
  shows "unchanged R base rep = Finished (text_bytes (rep_text rep) = drop (rep_start rep) (take (rep_stop rep) (text_bytes (chars base))))"
proof -
  let ?t = "chars base" and ?s = "rep_start rep" and ?e = "rep_stop rep"
  have plain: "text_bytes ?t = ?t" using ascii_bytes [OF assms(2)] .
  have sub: "text_bytes (drop ?s (take ?e ?t)) = drop ?s (take ?e ?t)" using ascii_bytes [OF ascii_sub [OF assms(2)]] .
  have len: "length (drop ?s (take ?e ?t)) = ?e - ?s" using assms(4) plain by simp
  have slice: "rope_slice R base ?s ?e = Some (drop ?s (take ?e ?t))" using rope_laws(3) [OF assms(1)] assms(3,4) plain by simp
  show ?thesis
  proof (cases "text_len (rep_text rep) = ?e - ?s")
    case True
    then show ?thesis
      using bytes_equal_by_zip [of "text_bytes (rep_text rep)" "drop ?s (take ?e ?t)"] len
      by (simp add: unchanged_def slice sub plain)
  next
    case False
    then have "text_bytes (rep_text rep) \<noteq> drop ?s (take ?e (text_bytes ?t))" using len plain by metis
    then show ?thesis using False by (simp add: unchanged_def)
  qed
qed

section \<open>Inserted bytes\<close>

fun inserted_len :: "edit_kind \<Rightarrow> nat" where
  "inserted_len (InsertAt p v) = text_len v"
| "inserted_len (DeleteOver s e) = 0"

abbreviation batch_bytes :: "edit_kind list \<Rightarrow> nat" where
  "batch_bytes ks \<equiv> sum_list (map inserted_len ks)"

lemma inserts_at_bound: "length (inserts_at ks i) \<le> batch_bytes ks"
proof (induction ks)
  case (Cons k ks)
  then show ?case by (cases k) auto
qed simp

lemma replacements_bytes: "added_bytes (replacements ks) \<le> batch_bytes ks"
proof (induction ks rule: replacements.induct)
  case (2 k ops)
  obtain rep rest where g: "next_group k ops = (rep, rest)" by fastforce
  obtain used where u: "k # ops = used @ rest" "grouped used rep" using next_group_used [OF g] by blast
  have "text_len (rep_text rep) \<le> batch_bytes used" using u(2) inserts_at_bound [of used "rep_start rep"] by (simp add: grouped_def)
  moreover have "added_bytes (replacements rest) \<le> batch_bytes rest" by (rule 2(1) [OF _ refl]) (simp add: g)
  moreover have "batch_bytes (k # ops) = batch_bytes used + batch_bytes rest" unfolding u(1) by simp
  ultimately show ?case by (simp add: g)
qed simp

lemma sorted_batch_bytes: "batch_bytes (map snd (sort_key op_key (enumerate n ks))) = batch_bytes ks"
proof -
  have "mset (map snd (sort_key op_key (enumerate n ks))) = mset ks"
    by (simp only: mset_map mset_sort) (metis map_snd_enumerate mset_map)
  then have "sum_mset (image_mset inserted_len (mset (map snd (sort_key op_key (enumerate n ks))))) = sum_mset (image_mset inserted_len (mset ks))"
    by (simp only:)
  then show ?thesis by (simp only: mset_map [symmetric] sum_mset_sum_list)
qed

section \<open>What validation accepts\<close>

definition edit_in_range :: "nat \<Rightarrow> edit_kind \<Rightarrow> bool" where
  "edit_in_range n k = (case k of InsertAt p v \<Rightarrow> p \<le> n | DeleteOver s e \<Rightarrow> s \<le> e \<and> e \<le> n)"

lemma validate_edit_range:
  assumes "rope_contract R chars"
  shows "validate_edit R base edit = (if edit_in_range (text_len (chars base)) (edit_kind_of edit) then Finished (edit_kind_of edit)
    else Refused (case edit_kind_of edit of InsertAt p v \<Rightarrow> InsertOutOfBounds p | DeleteOver s e \<Rightarrow> DeleteInvalid s e))"
  using rope_laws(1,2) [OF assms, of base] by (cases edit) (auto simp: edit_in_range_def off_rope_def Let_def)

lemma validate_edits_range:
  assumes "rope_contract R chars"
  shows "(\<forall>edit \<in> set edits. edit_in_range (text_len (chars base)) (edit_kind_of edit)) \<Longrightarrow>
    validate_edits R base n edits = Finished (enumerate n (map edit_kind_of edits))"
  by (induction edits arbitrary: n) (simp_all add: validate_edit_range [OF assms])

lemma validate_edits_total: "rope_contract R chars \<Longrightarrow> validate_edits R base n edits \<noteq> Panics \<and> validate_edits R base n edits \<noteq> Refused BatchOverflow"
proof (induction edits arbitrary: n)
  case (Cons edit edits)
  have "attempt_then (validate_edits R base (Suc n) edits) (\<lambda>ops. Finished ((n, k) # ops)) \<noteq> Panics"
      "attempt_then (validate_edits R base (Suc n) edits) (\<lambda>ops. Finished ((n, k) # ops)) \<noteq> Refused BatchOverflow" for k
    using Cons.IH [OF Cons.prems, of "Suc n"] by (cases "validate_edits R base (Suc n) edits"; auto)+
  then show ?case by (auto simp: validate_edit_range [OF Cons.prems] split: edit_kind.split)
qed simp

lemma reject_overlaps_total: "reject_overlaps reps \<noteq> Panics \<and> reject_overlaps reps \<noteq> Refused BatchOverflow"
  by (induction reps rule: reject_overlaps.induct) auto

section \<open>The batch\<close>

text \<open>The replacements of validated edits are in order and within the text.\<close>

lemma batch_replacements:
  assumes "ops = enumerate 0 (map edit_kind_of edits)" "ks = map snd (sort_key op_key ops)"
    and "\<forall>edit \<in> set edits. edit_in_range n (edit_kind_of edit)"
  shows "\<forall>k \<in> set ks. edit_in_range n k" "sorted (map kind_position ks)"
    "r \<in> set (replacements ks) \<Longrightarrow> rep_start r \<le> rep_stop r \<and> rep_stop r \<le> n"
proof -
  have "set ks = set (map edit_kind_of edits)" unfolding assms(1,2) by (simp only: set_map set_sort) (metis map_snd_enumerate set_map)
  then show known: "\<forall>k \<in> set ks. edit_in_range n k" using assms(3) by simp
  show "sorted (map kind_position ks)" using sorted_positions [of ops] by (simp add: assms(2) comp_def)
  have "kind_position k \<le> n \<and> (\<forall>s e. k = DeleteOver s e \<longrightarrow> s \<le> e \<and> e \<le> n)" if "k \<in> set ks" for k
    using known that by (cases k) (force simp: edit_in_range_def)+
  then show "r \<in> set (replacements ks) \<Longrightarrow> rep_start r \<le> rep_stop r \<and> rep_stop r \<le> n" by (rule replacement_bounds)
qed

definition exact_batch :: "utf8_text \<Rightarrow> source_edit list \<Rightarrow> normalized_batch \<Rightarrow> bool" where
  "exact_batch t edits b \<longleftrightarrow> (let ps = zip (nb_splices b) (nb_inserted b) in
     length (nb_splices b) = length (nb_inserted b) \<and> placed 0 0 ps \<and> chained_splices 0 ps (text_len t) \<and>
     spliced (text_bytes t) 0 ps = edited (text_bytes t) (map edit_kind_of edits) \<and>
     nb_validated b = length edits \<and> nb_effective b = length (nb_splices b))"

lemma zip_split: "zip (map fst ps) (map snd ps) = ps"
  by (induction ps) auto

lemma normalize_edits_exact:
  assumes R: "rope_contract R chars" and asc: "ascii (chars base)"
    and room: "text_len (chars base) + batch_bytes (map edit_kind_of edits) \<le> isize_max"
    and ops: "validate_edits R base 0 edits = Finished ops"
    and sep: "reject_overlaps (replacements (map snd (sort_key op_key ops))) = Finished ()"
    and some: "edits \<noteq> []"
  shows "\<exists>b. normalize_edits R (Some base) edits = Finished b \<and> exact_batch (chars base) edits b"
proof -
  let ?n = "text_len (chars base)" and ?bytes = "text_bytes (chars base)" and ?kinds = "map edit_kind_of edits"
  define ks where "ks = map snd (sort_key op_key ops)"
  let ?out = "empty_batch\<lparr>nb_validated := length edits\<rparr>"
  have o: "ops = enumerate 0 ?kinds" and v: "\<forall>edit \<in> set edits. validate_edit R base edit = Finished (edit_kind_of edit)"
    using validated [OF ops] by simp_all
  have rng: "\<forall>edit \<in> set edits. edit_in_range ?n (edit_kind_of edit)"
    using v by (auto simp: validate_edit_range [OF R] split: if_splits)
  note reps = batch_replacements [OF o ks_def rng]
  have ch: "chained 0 (replacements ks) ?n"
    by (rule no_overlap_chained [OF sep [folded ks_def] reps(3)]) simp_all
  have same: "unchanged R base rep = Finished (text_bytes (rep_text rep) = drop (rep_start rep) (take (rep_stop rep) ?bytes))"
    if "rep \<in> set (replacements ks)" for rep using unchanged_exact [OF R asc] reps(3) [OF that] by blast
  have "batch_bytes ks = batch_bytes ?kinds" unfolding ks_def o by (rule sorted_batch_bytes)
  then have fits: "0 + (?n - 0) + added_bytes (replacements ks) \<le> isize_max" "?n \<le> isize_max"
    using room replacements_bytes [of ks] by simp_all
  from place_splices_correct [OF same ch fits, of ?out] obtain out ps where out: "place_splices R base (replacements ks) 0 ?out = Finished out"
      "nb_splices out = map fst ps" "nb_inserted out = map snd ps" "placed 0 0 ps" "chained_splices 0 ps ?n"
      "spliced ?bytes 0 ps = rebuild ?bytes 0 (replacements ks)" "nb_validated out = length edits"
    by (auto simp: empty_batch_def)
  let ?m = "merge_adjacent [] ps"
  have m: "placed 0 0 ?m" "chained_splices 0 ?m ?n" "spliced ?bytes 0 ?m = spliced ?bytes 0 ps"
    using merge_adjacent_correct [of 0 0 "[]" ps ?n ?bytes] out(4,5) by simp_all
  have "rebuild ?bytes 0 (replacements ks) = edited ?bytes ks"
    using grouped_rebuilds [OF reps(2) ch] by (simp only: edited_def)
  also have "\<dots> = edited ?bytes ?kinds" unfolding ks_def o by (rule sort_keeps_edited)
  finally have final: "spliced ?bytes 0 ?m = edited ?bytes ?kinds" using m(3) out(6) by simp
  let ?b = "out\<lparr>nb_effective := length ?m, nb_splices := map fst ?m, nb_inserted := map snd ?m\<rparr>"
  have "normalize_edits R (Some base) edits = Finished ?b"
    using ops sep out(1) some by (simp add: normalize_edits_def Let_def out(2,3) zip_split ks_def)
  moreover have "exact_batch (chars base) edits ?b" using m(1,2) final out(7) by (simp add: exact_batch_def zip_split)
  ultimately show ?thesis by blast
qed

lemma normalize_edits_cases:
  assumes R: "rope_contract R chars" and asc: "ascii (chars base)"
    and room: "text_len (chars base) + batch_bytes (map edit_kind_of edits) \<le> isize_max"
    and some: "edits \<noteq> []"
  shows "(\<exists>b. normalize_edits R (Some base) edits = Finished b \<and> exact_batch (chars base) edits b) \<or>
    (\<exists>e. normalize_edits R (Some base) edits = Refused e \<and> e \<noteq> BatchOverflow)"
proof (cases "validate_edits R base 0 edits")
  case (Finished ops)
  show ?thesis
  proof (cases "reject_overlaps (replacements (map snd (sort_key op_key ops)))")
    case sep: (Finished u)
    then show ?thesis using normalize_edits_exact [OF R asc room Finished _ some] by simp
  next
    case (Refused e)
    then show ?thesis using Finished some reject_overlaps_total by (auto simp: normalize_edits_def)
  qed (use reject_overlaps_total in blast)
next
  case (Refused e)
  then show ?thesis using some validate_edits_total [OF R, of base 0 edits] by (simp add: normalize_edits_def)
qed (use validate_edits_total [OF R] in blast)

lemma exact_batch_applies:
  assumes R: "rope_contract R chars" and asc: "ascii (chars base)" and b: "exact_batch (chars base) edits b"
  shows "\<exists>r. apply_splices R base (nb_splices b) (nb_inserted b) = Finished r \<and> text_bytes (chars r) = edited (text_bytes (chars base)) (map edit_kind_of edits)"
proof -
  let ?ps = "zip (nb_splices b) (nb_inserted b)" and ?n = "text_len (chars base)"
  have len: "length (nb_splices b) = length (nb_inserted b)" and ch: "chained_splices 0 ?ps ?n"
    and final: "spliced (text_bytes (chars base)) 0 ?ps = edited (text_bytes (chars base)) (map edit_kind_of edits)"
    using b by (auto simp: exact_batch_def Let_def)
  have inside: "chained p (map rep_of qs) n \<Longrightarrow> (sp, v) \<in> set qs \<Longrightarrow> old_start sp \<le> n \<and> old_stop sp \<le> n" for p qs n sp v
  proof (induction qs arbitrary: p)
    case (Cons q qs)
    then show ?case using chained_end [of "old_stop (fst q)" "map rep_of qs" n] by (cases q) auto
  qed simp
  have bd: "\<forall>(sp, v) \<in> set ?ps. boundary (chars base) (old_start sp) \<and> boundary (chars base) (old_stop sp)"
    using inside [OF ch] by (auto simp: boundary_ascii [OF asc])
  from apply_descending_correct [OF R ch refl bd] obtain r tail where r: "apply_descending R (rev ?ps) base = Finished r"
      "chars r = take (char_at_byte (chars base) 0) (chars base) @ tail" "text_bytes tail = spliced (text_bytes (chars base)) 0 ?ps"
    by (auto simp: boundary_ascii [OF asc])
  have "char_at_byte (chars base) 0 = 0" by (cases "chars base") auto
  then have "text_bytes (chars r) = spliced (text_bytes (chars base)) 0 ?ps" using r(2,3) by simp
  moreover have "apply_splices R base (nb_splices b) (nb_inserted b) = Finished r"
    using r(1) len by (simp add: apply_splices_def zip_rev)
  ultimately show ?thesis using final by simp
qed

section \<open>Batches without conflicts\<close>

text \<open>Two operations that do not get in each other's way.\<close>

fun apart :: "edit_kind \<Rightarrow> edit_kind \<Rightarrow> bool" where
  "apart (InsertAt p v) (InsertAt q w) = True"
| "apart (InsertAt p v) (DeleteOver s e) = (p \<le> s \<or> e \<le> p)"
| "apart (DeleteOver s e) (InsertAt p v) = (p \<le> s \<or> e \<le> p)"
| "apart (DeleteOver s e) (DeleteOver s' e') = (s < e \<and> s' < e' \<and> (e \<le> s' \<or> e' \<le> s))"

lemma apart_symmetric: "apart k l \<longleftrightarrow> apart l k"
  by (cases k; cases l) auto

lemma insert_run_stops: "insert_run p stop taken v ops = (rep, InsertAt q w # rest) \<Longrightarrow> q \<noteq> rep_start rep"
  by (induction p stop taken v ops rule: insert_run.induct) (auto split: if_splits)

lemma delete_run_stops: "delete_run p stop v ops = (rep, InsertAt q w # rest) \<Longrightarrow> q \<noteq> rep_start rep"
  by (induction p stop v ops rule: delete_run.induct) (auto split: if_splits)

lemma next_group_stops: "next_group k ops = (rep, InsertAt q w # rest) \<Longrightarrow> q \<noteq> rep_start rep"
  by (auto simp: next_group_def dest: insert_run_stops delete_run_stops split: edit_kind.splits)

lemma apart_no_overlap:
  "sorted (map kind_position ks) \<Longrightarrow> sorted_wrt apart ks \<Longrightarrow> reject_overlaps (replacements ks) = Finished ()"
proof (induction ks rule: replacements.induct)
  case (2 k ops)
  obtain rep rest where g: "next_group k ops = (rep, rest)" by fastforce
  obtain used where u: "k # ops = used @ rest" "grouped used rep" using next_group_used [OF g] by blast
  have srt: "sorted (map kind_position rest)" "\<And>l r. l \<in> set used \<Longrightarrow> r \<in> set rest \<Longrightarrow> kind_position l \<le> kind_position r"
    using 2(2) unfolding u(1) by (auto simp: sorted_append)
  have apt: "sorted_wrt apart rest" "\<And>l r. l \<in> set used \<Longrightarrow> r \<in> set rest \<Longrightarrow> apart l r"
    using 2(3) unfolding u(1) by (auto simp: sorted_wrt_append)
  have IH: "reject_overlaps (replacements rest) = Finished ()" by (rule 2(1) [OF _ refl srt(1) apt(1)]) (simp add: g)
  show ?case
  proof (cases rest)
    case Nil
    then show ?thesis by (simp add: g)
  next
    case (Cons r rs)
    obtain rep' reps' where r: "replacements rest = rep' # reps'" using Cons by (cases "replacements rest") (auto split: prod.splits)
    have start: "rep_start rep' = kind_position r" using replacements_nonempty [of r rs] r Cons by simp
    obtain l where l: "l \<in> set used" "kind_position l = rep_start rep" using u(2) by (cases used) (auto simp: grouped_def)
    have le: "rep_start rep \<le> kind_position r" using srt(2) [OF l(1), of r] l(2) Cons by simp
    have "rep_stop rep \<le> kind_position r"
    proof (cases "filter is_delete used = []")
      case True
      then show ?thesis using u(2) le by (simp add: grouped_def)
    next
      case False
      then have "filter is_delete used = [DeleteOver (rep_start rep) (rep_stop rep)]" using u(2) by (auto simp: grouped_def)
      then have "DeleteOver (rep_start rep) (rep_stop rep) \<in> set used" by (metis filter_is_subset list.set_intros(1) subset_code(1))
      then have a: "apart (DeleteOver (rep_start rep) (rep_stop rep)) r" using apt(2) Cons by simp
      show ?thesis
      proof (cases r)
        case (InsertAt q w)
        then show ?thesis using a le next_group_stops [of k ops rep q w rs] g Cons by auto
      qed (use a le in auto)
    qed
    then show ?thesis using IH r start by (simp add: g)
  qed
qed simp

lemma clear_batch_accepted:
  assumes R: "rope_contract R chars" and asc: "ascii (chars base)"
    and room: "text_len (chars base) + batch_bytes (map edit_kind_of edits) \<le> isize_max"
    and rng: "\<forall>edit \<in> set edits. edit_in_range (text_len (chars base)) (edit_kind_of edit)"
    and apt: "sorted_wrt apart (map edit_kind_of edits)" and some: "edits \<noteq> []"
  shows "\<exists>b. normalize_edits R (Some base) edits = Finished b \<and> exact_batch (chars base) edits b"
proof -
  let ?ops = "enumerate 0 (map edit_kind_of edits)" let ?ks = "map snd (sort_key op_key ?ops)"
  have ops: "validate_edits R base 0 edits = Finished ?ops" by (rule validate_edits_range [OF R rng])
  have perm: "mset (map edit_kind_of edits) = mset ?ks" by (simp only: mset_map mset_sort) (metis map_snd_enumerate mset_map)
  have "sorted_wrt apart ?ks" by (rule sorted_wrt_permuted [OF perm _ apt]) (metis apart_symmetric)
  then have "reject_overlaps (replacements ?ks) = Finished ()"
    by (rule apart_no_overlap [OF batch_replacements(2) [OF refl refl rng]])
  then show ?thesis by (rule normalize_edits_exact [OF R asc room ops _ some])
qed

end
