(* ===== verification/Source_Coordinates.thy ===== *)
theory Source_Coordinates
  imports Source_Normalize
begin

text \<open>
  Coordinate maps of \<^verbatim>\<open>src/framework/source.rs\<close>: the unchanged islands between the splices of a
  revision, and the mapping of an old offset to the new text.
\<close>

section \<open>Building\<close>

record unchanged_island =
  isl_old_start :: nat
  isl_old_end :: nat
  isl_new_start :: nat
  isl_new_end :: nat
  isl_delta :: int

record coordinate_map =
  cm_islands :: "unchanged_island list"
  cm_old_starts :: "nat list"
  cm_new_starts :: "nat list"

definition signed_offset :: "nat \<Rightarrow> nat \<Rightarrow> int" where
  "signed_offset new old = (if new \<ge> old then int (min (new - old) isize_max) else - int (min (old - new) isize_max))"

text \<open>The \<^verbatim>\<open>debug_assert_eq!\<close>s on the length of the new text are panics.\<close>

fun build_islands :: "nat \<Rightarrow> nat \<Rightarrow> source_splice list \<Rightarrow> nat \<Rightarrow> nat \<Rightarrow> unchanged_island list option" where
  "build_islands old_len new_len [] old_cursor new_cursor =
     (if old_cursor < old_len then
        (if new_cursor + (old_len - old_cursor) = new_len \<and> new_len \<le> usize_max
         then Some [\<lparr>isl_old_start = old_cursor, isl_old_end = old_len, isl_new_start = new_cursor,
                isl_new_end = new_cursor + (old_len - old_cursor), isl_delta = signed_offset new_cursor old_cursor\<rparr>]
         else None)
      else if new_cursor = new_len then Some [] else None)"
| "build_islands old_len new_len (sp # splices) old_cursor new_cursor =
     (if old_start sp > old_cursor then do {
        new_end \<leftarrow> checked_add_u64 new_cursor (old_start sp - old_cursor);
        rest \<leftarrow> build_islands old_len new_len splices (old_stop sp) (new_stop sp);
        Some (\<lparr>isl_old_start = old_cursor, isl_old_end = old_start sp, isl_new_start = new_cursor, isl_new_end = new_end,
            isl_delta = signed_offset new_cursor old_cursor\<rparr> # rest) }
      else build_islands old_len new_len splices (old_stop sp) (new_stop sp))"

definition coordinate_map_build :: "nat \<Rightarrow> nat \<Rightarrow> source_splice list \<Rightarrow> coordinate_map option" where
  "coordinate_map_build old_len new_len splices = map_option
     (\<lambda>islands. \<lparr>cm_islands = islands, cm_old_starts = map isl_old_start islands, cm_new_starts = map isl_new_start islands\<rparr>)
     (build_islands old_len new_len splices 0 0)"

definition empty_coordinates :: coordinate_map where
  "empty_coordinates = \<lparr>cm_islands = [], cm_old_starts = [], cm_new_starts = []\<rparr>"

definition map_old_to_new :: "coordinate_map \<Rightarrow> nat \<Rightarrow> (nat \<times> nat) option" where
  "map_old_to_new m offset = (let index = partition_point (\<lambda>start. start \<le> offset) (cm_old_starts m) - 1 in do {
     island \<leftarrow> nth_opt (cm_islands m) index;
     if isl_old_start island \<le> offset \<and> offset < isl_old_end island
     then Some (isl_new_start island + (offset - isl_old_start island), index) else None })"

section \<open>The islands of exact splices\<close>

definition in_island :: "nat \<Rightarrow> unchanged_island \<Rightarrow> bool" where
  "in_island i land \<longleftrightarrow> isl_old_start land \<le> i \<and> i < isl_old_end land"

definition spliced_over :: "source_splice list \<Rightarrow> nat \<Rightarrow> bool" where
  "spliced_over splices i \<longleftrightarrow> (\<exists>sp \<in> set splices. old_start sp \<le> i \<and> i < old_stop sp)"

lemma spliced_over_simps [simp]: "\<not> spliced_over [] i"
    "spliced_over (sp # splices) i \<longleftrightarrow> old_start sp \<le> i \<and> i < old_stop sp \<or> spliced_over splices i"
  by (auto simp: spliced_over_def)

text \<open>What an island promises: its bytes are those of the new text, read from \<open>q\<close> on.\<close>

definition island_copies :: "nat list \<Rightarrow> nat \<Rightarrow> nat list \<Rightarrow> unchanged_island \<Rightarrow> bool" where
  "island_copies bytes q final land \<longleftrightarrow> q \<le> isl_new_start land \<and>
     (\<forall>i. in_island i land \<longrightarrow> (let k = isl_new_start land + (i - isl_old_start land) - q in k < length final \<and> final ! k = bytes ! i))"

lemma island_copies_later:
  assumes "island_copies bytes q final land" "q = q' + length pre" shows "island_copies bytes q' (pre @ final) land"
proof -
  have "\<exists>j. isl_new_start land + (i - isl_old_start land) - q' = length pre + j \<and> j = isl_new_start land + (i - isl_old_start land) - q" for i
    using assms by (simp add: island_copies_def)
  then show ?thesis using assms by (fastforce simp: island_copies_def Let_def nth_append)
qed

definition islands_in_order :: "nat \<Rightarrow> unchanged_island list \<Rightarrow> bool" where
  "islands_in_order p islands \<longleftrightarrow> (\<forall>land \<in> set islands. p \<le> isl_old_start land \<and> isl_old_start land < isl_old_end land) \<and>
     sorted_wrt (\<lambda>a b. isl_old_end a \<le> isl_old_start b) islands"

lemma build_islands_exact:
  "placed p q ps \<Longrightarrow> chained_splices p ps (length bytes) \<Longrightarrow> new_len = q + length (spliced bytes p ps) \<Longrightarrow> new_len \<le> usize_max \<Longrightarrow>
   \<exists>islands. build_islands (length bytes) new_len (map fst ps) p q = Some islands \<and> islands_in_order p islands \<and>
     (\<forall>i. (\<exists>land \<in> set islands. in_island i land) \<longleftrightarrow> p \<le> i \<and> i < length bytes \<and> \<not> spliced_over (map fst ps) i) \<and>
     (\<forall>land \<in> set islands. island_copies bytes q (spliced bytes p ps) land)"
proof (induction ps arbitrary: p q)
  case Nil
  then show ?case by (auto simp: islands_in_order_def in_island_def island_copies_def nth_append)
next
  case (Cons x ps)
  obtain sp v where x: "x = (sp, v)" by fastforce
  let ?n = "length bytes" and ?s = "old_start sp" and ?e = "old_stop sp"
  have pl: "p \<le> ?s" "?s \<le> ?e" "new_start sp = q + (?s - p)" "new_stop sp = new_start sp + text_len v" "placed ?e (new_stop sp) ps"
    using Cons.prems(1) x by auto
  have ch: "chained_splices ?e ps ?n" using Cons.prems(2) x by simp
  have e: "?e \<le> ?n" using chained_end [OF ch] .
  let ?pre = "drop p (take ?s bytes)" and ?final = "spliced bytes ?e ps"
  have pre: "length ?pre = ?s - p" using pl e by simp
  have final: "spliced bytes p (x # ps) = ?pre @ text_bytes v @ ?final" by (simp add: x)
  have q: "new_stop sp = q + length (?pre @ text_bytes v)" using pl(3,4) pre by simp
  have len: "new_len = new_stop sp + length ?final" using Cons.prems(3) unfolding final q by simp
  obtain rest where rest: "build_islands ?n new_len (map fst ps) ?e (new_stop sp) = Some rest" "islands_in_order ?e rest"
      "\<And>i. (\<exists>land \<in> set rest. in_island i land) \<longleftrightarrow> ?e \<le> i \<and> i < ?n \<and> \<not> spliced_over (map fst ps) i"
      "\<forall>land \<in> set rest. island_copies bytes (new_stop sp) ?final land"
    using Cons.IH [OF pl(5) ch len Cons.prems(4)] by blast
  have copies: "\<forall>land \<in> set rest. island_copies bytes q (spliced bytes p (x # ps)) land"
    using rest(4) island_copies_later [OF _ q, of bytes ?final] unfolding final by simp
  have later: "spliced_over (map fst ps) i \<Longrightarrow> ?e \<le> i" for i
  proof -
    have "chained r (map rep_of qs) n \<Longrightarrow> spliced_over (map fst qs) i \<Longrightarrow> r \<le> i" for r qs n
    proof (induction qs arbitrary: r)
      case (Cons y qs)
      then show ?case by (cases y) fastforce
    qed simp
    then show "spliced_over (map fst ps) i \<Longrightarrow> ?e \<le> i" using ch by blast
  qed
  show ?case
  proof (cases "?s > p")
    case False
    then have "build_islands ?n new_len (map fst (x # ps)) p q = Some rest" using rest(1) by (simp add: x)
    moreover have "islands_in_order p rest" using rest(2) pl by (auto simp: islands_in_order_def)
    moreover have "(\<exists>land \<in> set rest. in_island i land) \<longleftrightarrow> p \<le> i \<and> i < ?n \<and> \<not> spliced_over (map fst (x # ps)) i" for i
      using rest(3) [of i] False pl later [of i] by (auto simp: x)
    ultimately show ?thesis using copies by blast
  next
    case True
    let ?land = "\<lparr>isl_old_start = p, isl_old_end = ?s, isl_new_start = q, isl_new_end = q + (?s - p), isl_delta = signed_offset q p\<rparr>"
    have "q + (?s - p) \<le> usize_max" using len q pre Cons.prems(4) by simp
    then have b: "build_islands ?n new_len (map fst (x # ps)) p q = Some (?land # rest)"
      using rest(1) True by (simp add: x)
    have o: "islands_in_order p (?land # rest)" using rest(2) pl True by (auto simp: islands_in_order_def)
    have inside: "in_island i ?land \<longleftrightarrow> p \<le> i \<and> i < ?s" for i by (simp add: in_island_def)
    have c: "(\<exists>land \<in> set (?land # rest). in_island i land) \<longleftrightarrow> p \<le> i \<and> i < ?n \<and> \<not> spliced_over (map fst (x # ps)) i" for i
    proof -
      have "(\<exists>land \<in> set (?land # rest). in_island i land) \<longleftrightarrow> (p \<le> i \<and> i < ?s) \<or> (?e \<le> i \<and> i < ?n \<and> \<not> spliced_over (map fst ps) i)"
        using rest(3) [of i] inside [of i] by simp
      also have "\<dots> \<longleftrightarrow> p \<le> i \<and> i < ?n \<and> \<not> spliced_over (map fst (x # ps)) i" using pl e later [of i] by (auto simp: x)
      finally show ?thesis .
    qed
    have "island_copies bytes q (spliced bytes p (x # ps)) ?land"
      unfolding final using pre by (auto simp: island_copies_def inside nth_append less_diff_conv)
    then show ?thesis using b o c copies by (intro exI [of _ "?land # rest"]) simp
  qed
qed

lemma partition_point_found:
  assumes "islands_in_order p islands" "islands = a @ land # b" "in_island i land"
  shows "partition_point (\<lambda>start. start \<le> i) (map isl_old_start islands) = Suc (length a)"
proof -
  have before: "isl_old_start y \<le> i" if "y \<in> set a" for y
  proof -
    have "isl_old_end y \<le> isl_old_start land" "isl_old_start y < isl_old_end y" using that assms(1,2) by (auto simp: islands_in_order_def sorted_wrt_append)
    then show ?thesis using assms(3) by (simp add: in_island_def)
  qed
  have after: "\<not> isl_old_start y \<le> i" if "y \<in> set b" for y
    using that assms by (fastforce simp: islands_in_order_def sorted_wrt_append in_island_def)
  have "takeWhile (\<lambda>start. start \<le> i) (map isl_old_start islands) = map isl_old_start a @ [isl_old_start land]"
  proof -
    have "takeWhile (\<lambda>start. start \<le> i) (map isl_old_start b) = []" using after by (cases b) auto
    moreover have "\<forall>y \<in> set (map isl_old_start (a @ [land])). y \<le> i" using before assms(3) by (auto simp: in_island_def)
    moreover have "map isl_old_start islands = map isl_old_start (a @ [land]) @ map isl_old_start b" by (simp add: assms(2))
    ultimately show ?thesis using takeWhile_append2 [of "map isl_old_start (a @ [land])" "\<lambda>start. start \<le> i" "map isl_old_start b"]
      by (metis append_Nil2 list.map(1) list.map(2) map_append)
  qed
  then show ?thesis by (simp add: partition_point_def)
qed

lemma coordinates_of_splices:
  assumes "placed 0 0 ps" "chained_splices 0 ps (length bytes)" "length (spliced bytes 0 ps) \<le> usize_max"
  shows "\<exists>m. coordinate_map_build (length bytes) (length (spliced bytes 0 ps)) (map fst ps) = Some m \<and>
     (\<forall>i. case map_old_to_new m i of
        Some (j, index) \<Rightarrow> i < length bytes \<and> \<not> spliced_over (map fst ps) i \<and> j < length (spliced bytes 0 ps) \<and> spliced bytes 0 ps ! j = bytes ! i
      | None \<Rightarrow> i \<ge> length bytes \<or> spliced_over (map fst ps) i)"
proof -
  obtain islands where land: "build_islands (length bytes) (length (spliced bytes 0 ps)) (map fst ps) 0 0 = Some islands"
      "islands_in_order 0 islands"
      "\<And>i. (\<exists>land \<in> set islands. in_island i land) \<longleftrightarrow> i < length bytes \<and> \<not> spliced_over (map fst ps) i"
      "\<And>land. land \<in> set islands \<Longrightarrow> island_copies bytes 0 (spliced bytes 0 ps) land"
    using build_islands_exact [OF assms(1,2) _ assms(3)] by auto
  define m where "m = \<lparr>cm_islands = islands, cm_old_starts = map isl_old_start islands, cm_new_starts = map isl_new_start islands\<rparr>"
  have b: "coordinate_map_build (length bytes) (length (spliced bytes 0 ps)) (map fst ps) = Some m"
    by (simp add: coordinate_map_build_def land(1) m_def)
  have "case map_old_to_new m i of
        Some (j, index) \<Rightarrow> i < length bytes \<and> \<not> spliced_over (map fst ps) i \<and> j < length (spliced bytes 0 ps) \<and> spliced bytes 0 ps ! j = bytes ! i
      | None \<Rightarrow> i \<ge> length bytes \<or> spliced_over (map fst ps) i" for i
  proof (cases "\<exists>land \<in> set islands. in_island i land")
    case True
    then obtain land where "land \<in> set islands" and inside: "in_island i land" by blast
    then obtain a b where ab: "islands = a @ land # b" by (metis split_list)
    have "map_old_to_new m i = Some (isl_new_start land + (i - isl_old_start land), length a)"
      using partition_point_found [OF land(2) ab inside] inside ab by (simp add: map_old_to_new_def m_def in_island_def)
    then show ?thesis using land(3) [of i] True land(4) [OF \<open>land \<in> set islands\<close>] inside by (simp add: island_copies_def Let_def)
  next
    case False
    have "map_old_to_new m i = None"
    proof (rule ccontr)
      assume "map_old_to_new m i \<noteq> None"
      then obtain k where "k < length islands" "in_island i (islands ! k)"
        by (auto simp: map_old_to_new_def m_def Let_def in_island_def nth_opt_def split: Option.bind_splits if_splits)
      then show False using False by (meson nth_mem)
    qed
    then show ?thesis using land(3) [of i] False by auto
  qed
  then show ?thesis using b by blast
qed

end
