(* ===== verification/Source_Workspace.thy ===== *)
theory Source_Workspace
  imports Source_Coordinates "HOL-Library.Word" "HOL-Library.List_Lexorder" "HOL-Library.Char_ord"
begin

text \<open>
  The source fold of \<^verbatim>\<open>src/framework/source.rs\<close> and the commands \<^verbatim>\<open>open\<close>, \<^verbatim>\<open>edit\<close> and \<^verbatim>\<open>close\<close> of
  \<^verbatim>\<open>src/framework/workspace.rs\<close>, over an explicit state: the command channel, the committed revisions, the
  URIs ever opened and the process-wide command counter. A command of the engine writes entries of the
  channel, runs the fold of every written URI against the committed revisions and commits only if every
  fold, and the stages after it (the parameter \<open>stages\<close>), succeed; otherwise it rolls back. A URI
  is the text of a parsed \<^verbatim>\<open>Uri\<close>, so that parsing it again does not fail. Work counters and reports
  are left out.
\<close>

unbundle bit_operations_syntax

section \<open>Revisions and commands\<close>

datatype source_delta = LoadDelta nat | EditDelta "source_splice list"

record 'r source_revision =
  rev_document :: nat
  rev_uri :: string
  rev_id :: nat
  rev_previous :: "nat option"
  rev_text :: 'r
  rev_delta :: source_delta
  rev_coordinates :: coordinate_map

record 'r source_command =
  cmd_id :: nat
  cmd_fresh_document :: "nat option"
  cmd_base :: "(nat \<times> nat) option"
  cmd_delta :: source_delta
  cmd_next_text :: 'r

definition same_revision :: "'r source_revision \<Rightarrow> 'r source_revision \<Rightarrow> bool" where
  "same_revision a b \<longleftrightarrow> rev_document a = rev_document b \<and> rev_id a = rev_id b"

definition same_command :: "'r source_command \<Rightarrow> 'r source_command \<Rightarrow> bool" where
  "same_command a b \<longleftrightarrow> cmd_id a = cmd_id b"

definition fnv1a_uri :: "string \<Rightarrow> 64 word" where
  "fnv1a_uri uri = foldl (\<lambda>hash byte. (hash XOR of_nat (of_char byte)) * 0x00000100000001b3) 0xcbf29ce484222325 uri"

definition snapshot_len_bytes :: "'r rope_ops \<Rightarrow> 'r source_revision \<Rightarrow> nat" where
  "snapshot_len_bytes R revision = rope_len_bytes R (rev_text revision)"

definition snapshot_is_empty :: "'r rope_ops \<Rightarrow> 'r source_revision \<Rightarrow> bool" where
  "snapshot_is_empty R revision \<longleftrightarrow> rope_len_bytes R (rev_text revision) = 0"

section \<open>The fold\<close>

definition revision_key :: "'r source_revision \<Rightarrow> nat \<times> nat" where
  "revision_key revision = (rev_document revision, rev_id revision)"

definition document_identity :: "string \<Rightarrow> 'r source_revision option \<Rightarrow> 'r source_command \<Rightarrow> nat \<times> string" where
  "document_identity uri previous command = (case previous of
     Some revision \<Rightarrow> (rev_document revision, rev_uri revision)
   | None \<Rightarrow> (case cmd_fresh_document command of Some d \<Rightarrow> d | None \<Rightarrow> unat (fnv1a_uri uri), uri))"

definition next_revision_id :: "'r source_revision option \<Rightarrow> nat option" where
  "next_revision_id previous = (case previous of Some revision \<Rightarrow> checked_add_u64 (rev_id revision) 1 | None \<Rightarrow> Some 1)"

definition delta_coordinates :: "'r rope_ops \<Rightarrow> 'r source_revision option \<Rightarrow> 'r source_command \<Rightarrow> coordinate_map option" where
  "delta_coordinates R previous command = (case cmd_delta command of
     LoadDelta new_len \<Rightarrow> Some empty_coordinates
   | EditDelta splices \<Rightarrow> coordinate_map_build (case previous of Some revision \<Rightarrow> rope_len_bytes R (rev_text revision) | None \<Rightarrow> 0)
       (rope_len_bytes R (cmd_next_text command)) splices)"

text \<open>\<open>Finished None\<close> is the removal of the revision.\<close>

definition source_document ::
    "'r rope_ops \<Rightarrow> (string \<rightharpoonup> 'r source_command) \<Rightarrow> (string \<rightharpoonup> 'r source_revision) \<Rightarrow> string \<Rightarrow> 'r source_revision option attempt" where
  "source_document R commands committed uri = (case commands uri of
     None \<Rightarrow> Finished None
   | Some command \<Rightarrow>
       let previous = committed uri in
       if cmd_base command \<noteq> map_option revision_key previous then Refused (StaleSourceRevision uri)
       else let identity = document_identity uri previous command in
         attempt_then (expects (next_revision_id previous)) (\<lambda>id.
         attempt_then (expects (delta_coordinates R previous command)) (\<lambda>coordinates.
         Finished (Some \<lparr>rev_document = fst identity, rev_uri = snd identity, rev_id = id, rev_previous = map_option rev_id previous,
            rev_text = cmd_next_text command, rev_delta = cmd_delta command, rev_coordinates = coordinates\<rparr>))))"

section \<open>The workspace\<close>

record 'r workspace =
  ws_edits :: "string \<rightharpoonup> 'r source_command"
  ws_revisions :: "string \<rightharpoonup> 'r source_revision"
  ws_opened :: "string set"
  ws_next_command :: nat

definition empty_workspace :: "nat \<Rightarrow> 'r workspace" where
  "empty_workspace counter = \<lparr>ws_edits = Map.empty, ws_revisions = Map.empty, ws_opened = {}, ws_next_command = counter\<rparr>"

text \<open>\<^verbatim>\<open>AtomicU64::fetch_add\<close> wraps.\<close>

definition next_command_id :: "nat \<Rightarrow> nat" where
  "next_command_id counter = (counter + 1) mod 2 ^ 64"

fun write_entries :: "(string \<times> 'r source_command option) list \<Rightarrow> (string \<rightharpoonup> 'r source_command) \<Rightarrow> (string \<rightharpoonup> 'r source_command)" where
  "write_entries [] m = m"
| "write_entries ((uri, entry) # writes) m = write_entries writes (m(uri := entry))"

fun run_folds ::
    "'r rope_ops \<Rightarrow> (string \<rightharpoonup> 'r source_command) \<Rightarrow> (string \<rightharpoonup> 'r source_revision) \<Rightarrow> string list \<Rightarrow> (string \<rightharpoonup> 'r source_revision) attempt" where
  "run_folds R commands committed [] = Finished committed"
| "run_folds R commands committed (uri # uris) =
     attempt_then (source_document R commands committed uri) (\<lambda>revision.
     attempt_then (run_folds R commands committed uris) (\<lambda>revisions. Finished (revisions(uri := revision))))"

definition engine_command ::
    "'r rope_ops \<Rightarrow> ('r workspace \<Rightarrow> bool) \<Rightarrow> (string \<times> 'r source_command option) list \<Rightarrow> 'r workspace \<Rightarrow> 'r workspace \<times> unit attempt" where
  "engine_command R stages writes ws = (let commands = write_entries writes (ws_edits ws) in
     case run_folds R commands (ws_revisions ws) (map fst writes) of
       Finished revisions \<Rightarrow>
         let ws' = ws\<lparr>ws_edits := commands, ws_revisions := revisions\<rparr> in if stages ws' then (ws', Finished ()) else (ws, Refused StageRefused)
     | Refused e \<Rightarrow> (ws, Refused e)
     | Panics \<Rightarrow> (ws, Panics))"

definition workspace_open ::
    "'r rope_ops \<Rightarrow> ('r workspace \<Rightarrow> bool) \<Rightarrow> string \<Rightarrow> utf8_text \<Rightarrow> 'r workspace \<Rightarrow> 'r workspace \<times> unit attempt" where
  "workspace_open R stages uri body ws = (let existing = ws_revisions ws uri; next_text = rope_from_str R body in
     if (case existing of Some revision \<Rightarrow> rope_eq R (rev_text revision) next_text | None \<Rightarrow> False) then engine_command R stages [] ws
     else let
       base = map_option revision_key existing;
       delta = (case existing of
           Some revision \<Rightarrow> EditDelta [\<lparr>old_start = 0, old_stop = rope_len_bytes R (rev_text revision), new_start = 0, new_stop = text_len body\<rparr>]
         | None \<Rightarrow> LoadDelta (text_len body));
       command_id = ws_next_command ws;
       ws = ws\<lparr>ws_next_command := next_command_id command_id\<rparr>;
       fresh = (if existing = None \<and> uri \<in> ws_opened ws then Some command_id else None)
     in case engine_command R stages [(uri, Some \<lparr>cmd_id = command_id, cmd_fresh_document = fresh, cmd_base = base, cmd_delta = delta,
            cmd_next_text = next_text\<rparr>)] ws of
         (ws, Finished u) \<Rightarrow> (ws\<lparr>ws_opened := insert uri (ws_opened ws)\<rparr>, Finished u)
       | (ws, failed) \<Rightarrow> (ws, failed))"

text \<open>The commands of one batch, the documents in the order of a \<^verbatim>\<open>BTreeMap\<close>; the counter also advances when a later document is refused.\<close>

definition edits_of :: "source_edit list \<Rightarrow> string \<Rightarrow> source_edit list" where
  "edits_of edits uri = filter (\<lambda>edit. span_uri (edit_span edit) = uri) edits"

definition edited_uris :: "source_edit list \<Rightarrow> string list" where
  "edited_uris edits = sort (remdups (map (\<lambda>edit. span_uri (edit_span edit)) edits))"

fun prepare_edits ::
    "'r rope_ops \<Rightarrow> (string \<rightharpoonup> 'r source_revision) \<Rightarrow> source_edit list \<Rightarrow> string list \<Rightarrow> nat \<Rightarrow>
     nat \<times> (string \<times> 'r source_command option) list attempt" where
  "prepare_edits R revisions edits [] counter = (counter, Finished [])"
| "prepare_edits R revisions edits (uri # uris) counter =
     (case normalize_edits R (map_option rev_text (revisions uri)) (edits_of edits uri) of
        Refused e \<Rightarrow> (counter, Refused e)
      | Panics \<Rightarrow> (counter, Panics)
      | Finished b \<Rightarrow>
          if nb_splices b = [] then prepare_edits R revisions edits uris counter
          else case revisions uri of None \<Rightarrow> (counter, Panics) | Some previous \<Rightarrow>
            (case apply_splices R (rev_text previous) (nb_splices b) (nb_inserted b) of
               Refused e \<Rightarrow> (counter, Refused e)
             | Panics \<Rightarrow> (counter, Panics)
             | Finished next_rope \<Rightarrow>
                 let command = \<lparr>cmd_id = counter, cmd_fresh_document = None, cmd_base = Some (revision_key previous),
                       cmd_delta = EditDelta (nb_splices b), cmd_next_text = next_rope\<rparr>;
                   (counter, commands) = prepare_edits R revisions edits uris (next_command_id counter)
                 in (counter, attempt_then commands (\<lambda>commands. Finished ((uri, Some command) # commands)))))"

definition workspace_edit :: "'r rope_ops \<Rightarrow> ('r workspace \<Rightarrow> bool) \<Rightarrow> source_edit list \<Rightarrow> 'r workspace \<Rightarrow> 'r workspace \<times> unit attempt" where
  "workspace_edit R stages edits ws = (case prepare_edits R (ws_revisions ws) edits (edited_uris edits) (ws_next_command ws) of
     (counter, commands) \<Rightarrow> let ws = ws\<lparr>ws_next_command := counter\<rparr> in
       case commands of
         Finished commands \<Rightarrow> engine_command R stages commands ws
       | Refused e \<Rightarrow> (ws, Refused e)
       | Panics \<Rightarrow> (ws, Panics))"

definition workspace_close :: "'r rope_ops \<Rightarrow> ('r workspace \<Rightarrow> bool) \<Rightarrow> string \<Rightarrow> 'r workspace \<Rightarrow> 'r workspace \<times> unit attempt" where
  "workspace_close R stages uri ws = engine_command R stages [(uri, None)] ws"

datatype workspace_command = OpenDocument string utf8_text | EditDocuments "source_edit list" | CloseDocument string

fun workspace_run :: "'r rope_ops \<Rightarrow> ('r workspace \<Rightarrow> bool) \<Rightarrow> workspace_command \<Rightarrow> 'r workspace \<Rightarrow> 'r workspace \<times> unit attempt" where
  "workspace_run R stages (OpenDocument uri body) ws = workspace_open R stages uri body ws"
| "workspace_run R stages (EditDocuments edits) ws = workspace_edit R stages edits ws"
| "workspace_run R stages (CloseDocument uri) ws = workspace_close R stages uri ws"

end
