(* ===== verification/Source_Refines.thy ===== *)
theory Source_Refines
  imports Source_Workspace
begin

text \<open>
  The workspace as a map from URIs to bytes: opening replaces a document, closing removes it, a batch
  of edits edits every document it names. On ASCII documents the commands refine exactly this, no
  command is ever stale, and every revision leads to the next by one with a coordinate map that copies
  the bytes it maps.
\<close>

section \<open>The abstract workspace\<close>

type_synonym documents = "string \<rightharpoonup> nat list"

fun documents_run :: "workspace_command \<Rightarrow> documents \<Rightarrow> documents" where
  "documents_run (OpenDocument uri body) docs = docs(uri \<mapsto> text_bytes body)"
| "documents_run (EditDocuments edits) docs = (\<lambda>uri. map_option (\<lambda>bytes. edited bytes (map edit_kind_of (edits_of edits uri))) (docs uri))"
| "documents_run (CloseDocument uri) docs = docs(uri := None)"

definition revision_bytes :: "('r \<Rightarrow> utf8_text) \<Rightarrow> 'r source_revision \<Rightarrow> nat list" where
  "revision_bytes chars revision = text_bytes (chars (rev_text revision))"

definition ws_documents :: "('r \<Rightarrow> utf8_text) \<Rightarrow> 'r workspace \<Rightarrow> documents" where
  "ws_documents chars ws uri = map_option (revision_bytes chars) (ws_revisions ws uri)"

definition ws_ok :: "('r \<Rightarrow> utf8_text) \<Rightarrow> 'r workspace \<Rightarrow> bool" where
  "ws_ok chars ws \<longleftrightarrow> (\<forall>uri revision. ws_revisions ws uri = Some revision \<longrightarrow> ascii (chars (rev_text revision)) \<and> uri \<in> ws_opened ws) \<and>
     (\<forall>uri. ws_edits ws uri = None \<longleftrightarrow> ws_revisions ws uri = None)"

text \<open>ASCII texts, and room in the machine integers for the lengths and the revision counters.\<close>

fun ascii_edit :: "source_edit \<Rightarrow> bool" where
  "ascii_edit (InsertEdit key body) = ascii body"
| "ascii_edit (DeleteEdit key) = True"

fun command_fits :: "('r \<Rightarrow> utf8_text) \<Rightarrow> 'r workspace \<Rightarrow> workspace_command \<Rightarrow> bool" where
  "command_fits chars ws (OpenDocument uri body) = (ascii body \<and> text_len body \<le> isize_max)"
| "command_fits chars ws (EditDocuments edits) = ((\<forall>edit \<in> set edits. ascii_edit edit) \<and>
     (\<forall>uri revision. ws_revisions ws uri = Some revision \<longrightarrow>
        length (revision_bytes chars revision) + batch_bytes (map edit_kind_of (edits_of edits uri)) \<le> isize_max))"
| "command_fits chars ws (CloseDocument uri) = True"

definition revisions_fit :: "'r workspace \<Rightarrow> bool" where
  "revisions_fit ws \<longleftrightarrow> (\<forall>uri revision. ws_revisions ws uri = Some revision \<longrightarrow> rev_id revision < usize_max)"

definition copies_mapped :: "coordinate_map \<Rightarrow> nat list \<Rightarrow> nat list \<Rightarrow> bool" where
  "copies_mapped m old new \<longleftrightarrow> (\<forall>i j index. map_old_to_new m i = Some (j, index) \<longrightarrow> i < length old \<and> j < length new \<and> new ! j = old ! i)"

definition revision_step :: "('r \<Rightarrow> utf8_text) \<Rightarrow> 'r source_revision \<Rightarrow> 'r source_revision \<Rightarrow> bool" where
  "revision_step chars old new \<longleftrightarrow> rev_document new = rev_document old \<and> rev_uri new = rev_uri old \<and>
     rev_id new = Suc (rev_id old) \<and> rev_previous new = Some (rev_id old) \<and>
     copies_mapped (rev_coordinates new) (revision_bytes chars old) (revision_bytes chars new)"

section \<open>ASCII is kept\<close>

lemma utf8_ascii: "(\<forall>b \<in> set (utf8 c). b < 0x80) \<longleftrightarrow> c < 0x80"
  by (simp add: utf8_def)

lemma ascii_iff_bytes: "ascii t \<longleftrightarrow> (\<forall>b \<in> set (text_bytes t). b < 0x80)"
proof (induction t)
  case (Cons c t)
  then show ?case using utf8_ascii [of c] by (auto simp: ascii_def)
qed (simp add: ascii_def)

lemma edited_ascii:
  assumes "\<forall>b \<in> set base. b < 0x80" "\<forall>edit \<in> set edits. ascii_edit edit"
  shows "\<forall>b \<in> set (edited base (map edit_kind_of edits)). b < 0x80"
proof -
  have "\<forall>b \<in> set (kind_bytes (edit_kind_of edit)). b < 0x80" if "ascii_edit edit" for edit
    using that by (cases edit) (auto simp: ascii_iff_bytes)
  then have "\<forall>b \<in> set (inserts_at (map edit_kind_of edits) i). b < 0x80" for i
    using assms(2) by (auto simp: inserts_at_def)
  then show ?thesis using assms(1) by (auto simp: edited_def edited_at_def)
qed

lemma edited_nothing: "edited base [] = base"
proof -
  have "concat (map (edited_at base []) [0..<length base]) = drop 0 (take (length base) base)"
    by (rule concat_plain) (simp_all add: edited_at_def deleted_def)
  then show ?thesis by (simp add: edited_def) (simp add: edited_at_def)
qed

section \<open>Exact commands\<close>

definition exact_command :: "'r rope_ops \<Rightarrow> ('r \<Rightarrow> utf8_text) \<Rightarrow> 'r source_revision \<Rightarrow> 'r source_command \<Rightarrow> nat list \<Rightarrow> bool" where
  "exact_command R chars revision command final \<longleftrightarrow> cmd_base command = Some (revision_key revision) \<and>
     text_bytes (chars (cmd_next_text command)) = final \<and>
     (\<exists>splices m. cmd_delta command = EditDelta splices \<and>
        coordinate_map_build (length (revision_bytes chars revision)) (length final) splices = Some m \<and>
        copies_mapped m (revision_bytes chars revision) final)"

lemma isize_usize: "n \<le> isize_max \<Longrightarrow> n \<le> usize_max"
  by (simp add: isize_max_def usize_max_def)

lemma splices_copy:
  assumes "placed 0 0 ps" "chained_splices 0 ps (length bytes)" "length (spliced bytes 0 ps) \<le> isize_max"
  shows "\<exists>m. coordinate_map_build (length bytes) (length (spliced bytes 0 ps)) (map fst ps) = Some m \<and> copies_mapped m bytes (spliced bytes 0 ps)"
proof -
  obtain m where m: "coordinate_map_build (length bytes) (length (spliced bytes 0 ps)) (map fst ps) = Some m"
      "\<forall>i. case map_old_to_new m i of
        Some (j, index) \<Rightarrow> i < length bytes \<and> \<not> spliced_over (map fst ps) i \<and> j < length (spliced bytes 0 ps) \<and> spliced bytes 0 ps ! j = bytes ! i
      | None \<Rightarrow> i \<ge> length bytes \<or> spliced_over (map fst ps) i"
    using coordinates_of_splices [OF assms(1,2) isize_usize [OF assms(3)]] by blast
  have "i < length bytes \<and> j < length (spliced bytes 0 ps) \<and> spliced bytes 0 ps ! j = bytes ! i" if "map_old_to_new m i = Some (j, index)" for i j index
    using m(2) [rule_format, of i] unfolding that by simp
  then show ?thesis using m(1) unfolding copies_mapped_def by blast
qed

lemma edited_length:
  "length (edited base ks) \<le> length base + batch_bytes ks"
proof -
  have "length (concat (map (edited_at base ks) [0..<n])) \<le> min n (length base) + (\<Sum>i \<leftarrow> [0..<n]. length (inserts_at ks i))" for n
    by (induction n) (auto simp: edited_at_def)
  moreover have "(\<Sum>i \<leftarrow> [0..<n]. length (inserts_at ks i)) \<le> batch_bytes ks" for n
  proof (induction ks)
    case (Cons k ks)
    have one: "(\<Sum>i \<leftarrow> [0..<n]. length (if inserted_at i k then kind_bytes k else [])) \<le> inserted_len k"
    proof (cases k)
      case (InsertAt p v)
      have "(\<Sum>i \<leftarrow> [0..<n]. length (if p = i then text_bytes v else [])) = (if p < n then text_len v else 0)"
        by (induction n) auto
      then show ?thesis by (simp add: InsertAt cong: if_cong)
    qed simp
    have "(\<Sum>i \<leftarrow> [0..<n]. length (inserts_at (k # ks) i)) =
        (\<Sum>i \<leftarrow> [0..<n]. length (if inserted_at i k then kind_bytes k else [])) + (\<Sum>i \<leftarrow> [0..<n]. length (inserts_at ks i))"
      by (simp add: sum_list_addf [symmetric])
    then show ?case using one Cons.IH by simp
  qed (simp add: sum_list_0)
  ultimately show ?thesis unfolding edited_def by (metis (no_types, lifting) add_le_mono le_trans min.cobounded2)
qed

text \<open>A full replacement and a batch both give exact commands.\<close>

lemma replacement_exact:
  assumes "rope_contract R chars" "text_len body \<le> isize_max"
  shows "\<exists>m. coordinate_map_build (length (revision_bytes chars revision)) (text_len body)
      [\<lparr>old_start = 0, old_stop = rope_len_bytes R (rev_text revision), new_start = 0, new_stop = text_len body\<rparr>] = Some m \<and>
    copies_mapped m (revision_bytes chars revision) (text_bytes body)"
proof -
  let ?sp = "\<lparr>old_start = 0, old_stop = rope_len_bytes R (rev_text revision), new_start = 0, new_stop = text_len body\<rparr>"
  have "rope_len_bytes R (rev_text revision) = length (revision_bytes chars revision)" using rope_laws(1) [OF assms(1)] by (simp add: revision_bytes_def)
  then show ?thesis using splices_copy [of "[(?sp, body)]" "revision_bytes chars revision"] assms(2) by simp
qed

lemma batch_exact:
  assumes R: "rope_contract R chars" and asc: "ascii (chars (rev_text revision))" "\<forall>edit \<in> set edits. ascii_edit edit"
    and room: "length (revision_bytes chars revision) + batch_bytes (map edit_kind_of edits) \<le> isize_max"
    and b: "exact_batch (chars (rev_text revision)) edits b"
  shows "\<exists>r. apply_splices R (rev_text revision) (nb_splices b) (nb_inserted b) = Finished r \<and> ascii (chars r) \<and>
    exact_command R chars revision \<lparr>cmd_id = n, cmd_fresh_document = None, cmd_base = Some (revision_key revision),
      cmd_delta = EditDelta (nb_splices b), cmd_next_text = r\<rparr> (edited (revision_bytes chars revision) (map edit_kind_of edits))"
    "nb_splices b = [] \<Longrightarrow> edited (revision_bytes chars revision) (map edit_kind_of edits) = revision_bytes chars revision"
proof -
  let ?old = "revision_bytes chars revision" and ?final = "edited (revision_bytes chars revision) (map edit_kind_of edits)"
  let ?ps = "zip (nb_splices b) (nb_inserted b)"
  have ex: "length (nb_splices b) = length (nb_inserted b)" "placed 0 0 ?ps" "chained_splices 0 ?ps (length ?old)" "spliced ?old 0 ?ps = ?final"
    using b by (auto simp: exact_batch_def Let_def revision_bytes_def)
  obtain r where r: "apply_splices R (rev_text revision) (nb_splices b) (nb_inserted b) = Finished r" "text_bytes (chars r) = ?final"
    using exact_batch_applies [OF R asc(1) b] by (auto simp: revision_bytes_def)
  have "\<forall>c \<in> set ?final. c < 0x80" by (rule edited_ascii [OF _ asc(2)]) (use asc(1) in \<open>simp add: ascii_iff_bytes revision_bytes_def\<close>)
  then have "ascii (chars r)" by (simp add: ascii_iff_bytes r(2))
  moreover have "length ?final \<le> isize_max" using edited_length [of ?old] room by (rule le_trans)
  ultimately show "\<exists>r. apply_splices R (rev_text revision) (nb_splices b) (nb_inserted b) = Finished r \<and> ascii (chars r) \<and>
    exact_command R chars revision \<lparr>cmd_id = n, cmd_fresh_document = None, cmd_base = Some (revision_key revision),
      cmd_delta = EditDelta (nb_splices b), cmd_next_text = r\<rparr> ?final"
    using splices_copy [OF ex(2,3)] ex(1) r unfolding ex(4) by (intro exI [of _ r]) (simp add: exact_command_def)
  show "?final = ?old" if "nb_splices b = []" using ex(4) that by simp
qed

section \<open>The engine's command\<close>

lemma run_folds_entries:
  "distinct uris \<Longrightarrow> (\<forall>uri \<in> set uris. \<exists>x. source_document R commands committed uri = Finished x) \<Longrightarrow>
   \<exists>revisions. run_folds R commands committed uris = Finished revisions \<and>
     (\<forall>uri. if uri \<in> set uris then source_document R commands committed uri = Finished (revisions uri) else revisions uri = committed uri)"
proof (induction uris)
  case (Cons u uris)
  obtain x where x: "source_document R commands committed u = Finished x" using Cons.prems(2) by auto
  obtain revisions where r: "run_folds R commands committed uris = Finished revisions"
      "\<And>uri. if uri \<in> set uris then source_document R commands committed uri = Finished (revisions uri) else revisions uri = committed uri"
    using Cons by auto
  have "if uri \<in> set (u # uris) then source_document R commands committed uri = Finished ((revisions(u := x)) uri)
      else (revisions(u := x)) uri = committed uri" for uri using r(2) [of uri] x Cons.prems(1) by auto
  moreover have "run_folds R commands committed (u # uris) = Finished (revisions(u := x))" using r(1) x by simp
  ultimately show ?case by blast
qed simp

lemma write_entries_lookup: "distinct (map fst writes) \<Longrightarrow> write_entries writes m uri = (case map_of writes uri of Some entry \<Rightarrow> entry | None \<Rightarrow> m uri)"
proof (induction writes m rule: write_entries.induct)
  case (2 u entry writes m)
  have "map_of writes u = None" using 2(2) by (simp add: map_of_eq_None_iff)
  moreover have "write_entries writes (m(u := entry)) uri = (case map_of writes uri of Some entry \<Rightarrow> entry | None \<Rightarrow> (m(u := entry)) uri)"
    by (rule 2(1)) (use 2(2) in simp)
  ultimately show ?case by (cases "uri = u") (simp_all split: option.split)
qed simp

lemma source_document_exact:
  assumes R: "rope_contract R chars" and c: "commands uri = Some command" "committed uri = Some revision"
    and ex: "exact_command R chars revision command final" and fit: "rev_id revision < usize_max"
  shows "\<exists>new. source_document R commands committed uri = Finished (Some new) \<and> revision_step chars revision new \<and>
    rev_text new = cmd_next_text command \<and> revision_bytes chars new = final"
proof -
  obtain splices m where sp: "cmd_delta command = EditDelta splices"
      "coordinate_map_build (length (revision_bytes chars revision)) (length final) splices = Some m" "copies_mapped m (revision_bytes chars revision) final"
    using ex by (auto simp: exact_command_def)
  have len: "rope_len_bytes R (rev_text revision) = length (revision_bytes chars revision)" "rope_len_bytes R (cmd_next_text command) = length final"
    using rope_laws(1) [OF R] ex by (simp_all add: revision_bytes_def exact_command_def)
  let ?new = "\<lparr>rev_document = rev_document revision, rev_uri = rev_uri revision, rev_id = Suc (rev_id revision), rev_previous = Some (rev_id revision),
    rev_text = cmd_next_text command, rev_delta = cmd_delta command, rev_coordinates = m\<rparr>"
  have "source_document R commands committed uri = Finished (Some ?new)"
    using c ex fit sp(1,2) len
    by (simp add: source_document_def exact_command_def document_identity_def next_revision_id_def delta_coordinates_def Let_def checked_add_u64_def)
  moreover have "revision_step chars revision ?new \<and> revision_bytes chars ?new = final"
    using ex sp(3) by (simp add: revision_step_def revision_bytes_def exact_command_def)
  ultimately show ?thesis by auto
qed

text \<open>Every write is a removal, a first load or an exact command over the committed revision.\<close>

definition good_write :: "'r rope_ops \<Rightarrow> ('r \<Rightarrow> utf8_text) \<Rightarrow> (string \<rightharpoonup> 'r source_revision) \<Rightarrow> documents \<Rightarrow> string \<times> 'r source_command option \<Rightarrow> bool" where
  "good_write R chars revisions docs write = (case write of
     (uri, None) \<Rightarrow> docs uri = None
   | (uri, Some command) \<Rightarrow> ascii (chars (cmd_next_text command)) \<and> docs uri = Some (text_bytes (chars (cmd_next_text command))) \<and>
       (case revisions uri of
          None \<Rightarrow> cmd_base command = None \<and> (\<exists>n. cmd_delta command = LoadDelta n)
        | Some revision \<Rightarrow> exact_command R chars revision command (text_bytes (chars (cmd_next_text command)))))"

definition ws_advances :: "('r \<Rightarrow> utf8_text) \<Rightarrow> 'r workspace \<Rightarrow> 'r workspace \<Rightarrow> bool" where
  "ws_advances chars ws ws' \<longleftrightarrow> (\<forall>uri old new. ws_revisions ws uri = Some old \<longrightarrow> ws_revisions ws' uri = Some new \<longrightarrow> new = old \<or> revision_step chars old new)"

lemma good_write_folds:
  assumes R: "rope_contract R chars" and fit: "revisions_fit ws" and w: "good_write R chars (ws_revisions ws) docs (uri, entry)"
    and c: "commands uri = entry"
  shows "\<exists>x. source_document R commands (ws_revisions ws) uri = Finished x \<and> map_option (revision_bytes chars) x = docs uri \<and>
    (x = None \<longleftrightarrow> entry = None) \<and> (\<forall>new. x = Some new \<longrightarrow> ascii (chars (rev_text new)) \<and>
      (\<forall>old. ws_revisions ws uri = Some old \<longrightarrow> revision_step chars old new))"
proof (cases entry)
  case None
  then show ?thesis using w c by (simp add: good_write_def source_document_def)
next
  case entry: (Some command)
  show ?thesis
  proof (cases "ws_revisions ws uri")
    case None
    then show ?thesis using w c entry
      by (auto simp: good_write_def source_document_def next_revision_id_def delta_coordinates_def Let_def revision_bytes_def)
  next
    case (Some revision)
    have "rev_id revision < usize_max" using fit Some by (simp add: revisions_fit_def)
    then show ?thesis
      using source_document_exact [OF R, of commands uri command "ws_revisions ws" revision "text_bytes (chars (cmd_next_text command))"] w c entry Some
      by (fastforce simp: good_write_def)
  qed
qed

lemma engine_command_correct:
  assumes R: "rope_contract R chars" and ok: "ws_ok chars ws" and fit: "revisions_fit ws"
    and d: "distinct (map fst writes)" and w: "\<forall>write \<in> set writes. good_write R chars (ws_revisions ws) docs write"
    and opened: "\<forall>(uri, entry) \<in> set writes. entry \<noteq> None \<longrightarrow> uri \<in> opened"
    and same: "\<forall>uri. uri \<notin> set (map fst writes) \<longrightarrow> docs uri = ws_documents chars ws uri"
  shows "case engine_command R stages writes ws of
      (ws', Finished u) \<Rightarrow> ws_ok chars (ws'\<lparr>ws_opened := ws_opened ws' \<union> opened\<rparr>) \<and> ws_opened ws' = ws_opened ws \<and> ws_documents chars ws' = docs \<and> ws_advances chars ws ws'
    | (ws', Refused e) \<Rightarrow> ws' = ws \<and> e = StageRefused
    | (ws', Panics) \<Rightarrow> False"
proof -
  let ?commands = "write_entries writes (ws_edits ws)"
  have entry: "?commands uri = entry" "good_write R chars (ws_revisions ws) docs (uri, entry)" if "(uri, entry) \<in> set writes" for uri entry
    using that w write_entries_lookup [OF d, of "ws_edits ws" uri] map_of_is_SomeI [OF d that] by auto
  have folds: "\<exists>x. source_document R ?commands (ws_revisions ws) uri = Finished x" if "uri \<in> set (map fst writes)" for uri
  proof -
    obtain entry where "(uri, entry) \<in> set writes" using \<open>uri \<in> set (map fst writes)\<close> by auto
    then show ?thesis using good_write_folds [OF R fit, of docs uri entry ?commands] entry by blast
  qed
  obtain revisions where r: "run_folds R ?commands (ws_revisions ws) (map fst writes) = Finished revisions"
      "\<And>uri. if uri \<in> set (map fst writes) then source_document R ?commands (ws_revisions ws) uri = Finished (revisions uri) else revisions uri = ws_revisions ws uri"
    using run_folds_entries [OF d, of R ?commands "ws_revisions ws"] folds by blast
  let ?ws = "ws\<lparr>ws_edits := ?commands, ws_revisions := revisions\<rparr>"
  have known: "map_option (revision_bytes chars) (revisions uri) = docs uri \<and> (revisions uri = None \<longleftrightarrow> ?commands uri = None) \<and>
      (\<forall>new. revisions uri = Some new \<longrightarrow> ascii (chars (rev_text new)) \<and> uri \<in> ws_opened ws \<union> opened \<and>
        (\<forall>old. ws_revisions ws uri = Some old \<longrightarrow> new = old \<or> revision_step chars old new))" for uri
  proof (cases "uri \<in> set (map fst writes)")
    case True
    then obtain entry where e: "(uri, entry) \<in> set writes" by auto
    then have "source_document R ?commands (ws_revisions ws) uri = Finished (revisions uri)" using r(2) [of uri] True by simp
    then show ?thesis using good_write_folds [OF R fit entry(2) [OF e], of ?commands] entry(1) [OF e] opened e by fastforce
  next
    case False
    then have "revisions uri = ws_revisions ws uri" "?commands uri = ws_edits ws uri"
      using r(2) [of uri] write_entries_lookup [OF d, of "ws_edits ws" uri] by (auto simp: map_of_eq_None_iff [THEN iffD2])
    then show ?thesis using ok same False by (auto simp: ws_ok_def ws_documents_def)
  qed
  have "ws_ok chars (?ws\<lparr>ws_opened := ws_opened ?ws \<union> opened\<rparr>)" using known by (simp add: ws_ok_def)
  moreover have "ws_documents chars ?ws = docs" using known by (intro ext) (simp add: ws_documents_def)
  moreover have "ws_advances chars ws ?ws" using known by (simp add: ws_advances_def)
  ultimately show ?thesis using r(1) by (simp add: engine_command_def Let_def)
qed

section \<open>The commands\<close>

lemma edits_of_uri: "uri \<in> set (edited_uris edits) \<longleftrightarrow> edits_of edits uri \<noteq> []"
  by (auto simp: edited_uris_def edits_of_def filter_empty_conv)

lemma validate_edits_not_stale: "validate_edits R base n edits \<noteq> Refused (StaleSourceRevision uri)"
proof (induction edits arbitrary: n)
  case (Cons edit edits)
  have "validate_edit R base edit \<noteq> Refused (StaleSourceRevision uri)" by (cases edit) (simp_all add: Let_def)
  then show ?case using Cons.IH [of "Suc n"]
    by (cases "validate_edit R base edit"; cases "validate_edits R base (Suc n) edits") simp_all
qed simp

lemma reject_overlaps_not_stale: "reject_overlaps reps \<noteq> Refused (StaleSourceRevision uri)"
  by (induction reps rule: reject_overlaps.induct) auto

text \<open>What a refused batch can be refused for.\<close>

definition batch_error :: "source_error \<Rightarrow> bool" where
  "batch_error e \<longleftrightarrow> e \<noteq> BatchOverflow \<and> (\<forall>uri. e \<noteq> StaleSourceRevision uri)"

lemma normalize_edits_errors:
  assumes R: "rope_contract R chars" and asc: "ascii (chars base)"
    and room: "text_len (chars base) + batch_bytes (map edit_kind_of edits) \<le> isize_max" and some: "edits \<noteq> []"
  shows "case normalize_edits R (Some base) edits of Finished b \<Rightarrow> exact_batch (chars base) edits b | Refused e \<Rightarrow> batch_error e | Panics \<Rightarrow> False"
proof -
  have "e \<noteq> StaleSourceRevision uri" if "normalize_edits R (Some base) edits = Refused e" "\<nexists>b. normalize_edits R (Some base) edits = Finished b" for e uri
  proof (cases "validate_edits R base 0 edits")
    case (Finished ops)
    show ?thesis
    proof (cases "reject_overlaps (replacements (map snd (sort_key op_key ops)))")
      case sep: (Finished u)
      then show ?thesis using normalize_edits_exact [OF R asc room Finished _ some] that by simp
    qed (use that Finished some reject_overlaps_not_stale [of _ uri] in \<open>auto simp: normalize_edits_def\<close>)
  qed (use that some validate_edits_not_stale [of R base 0 edits uri] in \<open>auto simp: normalize_edits_def\<close>)
  then show ?thesis using normalize_edits_cases [OF R asc room some] by (fastforce simp: batch_error_def split: attempt.split)
qed

lemma prepare_edits_correct:
  assumes R: "rope_contract R chars" and ok: "ws_ok chars ws" and fits: "command_fits chars ws (EditDocuments edits)"
  defines "docs \<equiv> documents_run (EditDocuments edits) (ws_documents chars ws)"
  shows "distinct uris \<Longrightarrow> set uris \<subseteq> set (edited_uris edits) \<Longrightarrow>
    case snd (prepare_edits R (ws_revisions ws) edits uris counter) of
      Finished writes \<Rightarrow> distinct (map fst writes) \<and> set (map fst writes) \<subseteq> set uris \<and>
        (\<forall>write \<in> set writes. good_write R chars (ws_revisions ws) docs write \<and> fst write \<in> ws_opened ws) \<and>
        (\<forall>uri \<in> set uris - set (map fst writes). docs uri = ws_documents chars ws uri)
    | Refused e \<Rightarrow> batch_error e
    | Panics \<Rightarrow> False"
proof (induction uris arbitrary: counter)
  case (Cons uri uris)
  let ?edits = "edits_of edits uri"
  have some: "?edits \<noteq> []" using Cons.prems(2) edits_of_uri [of uri edits] by simp
  note IH = Cons.IH
  show ?case
  proof (cases "ws_revisions ws uri")
    case None
    then show ?thesis using some by (simp add: normalize_edits_def batch_error_def)
  next
    case rev: (Some revision)
    have asc: "ascii (chars (rev_text revision))" "\<forall>edit \<in> set ?edits. ascii_edit edit"
      using ok rev fits by (auto simp: ws_ok_def edits_of_def)
    have room: "length (revision_bytes chars revision) + batch_bytes (map edit_kind_of ?edits) \<le> isize_max" using fits rev by simp
    note norm = normalize_edits_errors [OF R asc(1) room [unfolded revision_bytes_def] some]
    show ?thesis
    proof (cases "normalize_edits R (Some (rev_text revision)) ?edits")
      case b: (Finished b)
      then have ex: "exact_batch (chars (rev_text revision)) ?edits b" using norm by simp
      have doc: "docs uri = Some (edited (revision_bytes chars revision) (map edit_kind_of ?edits))"
        using rev by (simp add: docs_def ws_documents_def)
      show ?thesis
      proof (cases "nb_splices b = []")
        case True
        have "docs uri = ws_documents chars ws uri" using batch_exact(2) [OF R asc room ex True] doc rev by (simp add: ws_documents_def)
        then show ?thesis using IH [of counter] Cons.prems b rev True by (auto split: attempt.splits)
      next
        case False
        obtain r where r: "apply_splices R (rev_text revision) (nb_splices b) (nb_inserted b) = Finished r" "ascii (chars r)"
            "exact_command R chars revision \<lparr>cmd_id = counter, cmd_fresh_document = None, cmd_base = Some (revision_key revision),
               cmd_delta = EditDelta (nb_splices b), cmd_next_text = r\<rparr> (edited (revision_bytes chars revision) (map edit_kind_of ?edits))"
          using batch_exact(1) [OF R asc room ex] by blast
        let ?command = "\<lparr>cmd_id = counter, cmd_fresh_document = None, cmd_base = Some (revision_key revision),
               cmd_delta = EditDelta (nb_splices b), cmd_next_text = r\<rparr>"
        have final: "text_bytes (chars r) = edited (revision_bytes chars revision) (map edit_kind_of ?edits)" using r(3) by (simp add: exact_command_def)
        have good: "good_write R chars (ws_revisions ws) docs (uri, Some ?command)" using r(2,3) doc rev by (simp add: good_write_def final)
        have op: "uri \<in> ws_opened ws" using ok rev by (simp add: ws_ok_def)
        obtain c' res where p: "prepare_edits R (ws_revisions ws) edits uris (next_command_id counter) = (c', res)" by fastforce
        have step: "snd (prepare_edits R (ws_revisions ws) edits (uri # uris) counter) = attempt_then res (\<lambda>commands. Finished ((uri, Some ?command) # commands))"
          using b rev False r(1) p by (simp add: Let_def)
        show ?thesis unfolding step using IH [of "next_command_id counter"] Cons.prems good op p by (cases res) auto
      qed
    qed (use norm rev in simp_all)
  qed
qed simp

lemma edited_uris_distinct: "distinct (edited_uris edits)"
  by (simp add: edited_uris_def)

lemma unedited: "uri \<notin> set (edited_uris edits) \<Longrightarrow> documents_run (EditDocuments edits) docs uri = docs uri"
  using edits_of_uri [of uri edits] by (cases "docs uri") (simp_all add: edited_nothing)

text \<open>What a command promises.\<close>

definition command_outcome :: "('r \<Rightarrow> utf8_text) \<Rightarrow> documents \<Rightarrow> 'r workspace \<Rightarrow> 'r workspace \<times> unit attempt \<Rightarrow> bool" where
  "command_outcome chars docs ws outcome = (case outcome of
     (ws', Finished u) \<Rightarrow> ws_ok chars ws' \<and> ws_documents chars ws' = docs \<and> ws_advances chars ws ws'
   | (ws', Refused e) \<Rightarrow> ws_ok chars ws' \<and> ws_revisions ws' = ws_revisions ws \<and> batch_error e
   | (ws', Panics) \<Rightarrow> False)"

lemma outcome_of_engine:
  assumes "rope_contract R chars" "ws_ok chars ws0" "revisions_fit ws0" "ws0 = ws\<lparr>ws_next_command := counter\<rparr>"
    and "distinct (map fst writes)" "\<forall>write \<in> set writes. good_write R chars (ws_revisions ws0) docs write"
    and "\<forall>(uri, entry) \<in> set writes. entry \<noteq> None \<longrightarrow> uri \<in> ws_opened ws0"
    and "\<forall>uri. uri \<notin> set (map fst writes) \<longrightarrow> docs uri = ws_documents chars ws0 uri"
  shows "command_outcome chars docs ws (engine_command R stages writes ws0)"
proof -
  have adv: "ws_advances chars ws0 = ws_advances chars ws" "ws_revisions ws0 = ws_revisions ws" using assms(4) by (auto simp: ws_advances_def)
  have "case engine_command R stages writes ws0 of
      (ws', Finished u) \<Rightarrow> ws_ok chars (ws'\<lparr>ws_opened := ws_opened ws' \<union> ws_opened ws0\<rparr>) \<and> ws_opened ws' = ws_opened ws0 \<and> ws_documents chars ws' = docs \<and> ws_advances chars ws0 ws'
    | (ws', Refused e) \<Rightarrow> ws' = ws0 \<and> e = StageRefused
    | (ws', Panics) \<Rightarrow> False" by (rule engine_command_correct [OF assms(1-3,5-8)])
  then show ?thesis using assms(2) adv
    by (auto simp: command_outcome_def batch_error_def split: prod.splits attempt.splits) (metis Un_absorb ws_ok_def workspace.select_convs(1,2,3) workspace.surjective workspace.update_convs(3))
qed

end
