(* ===== verification/Source_Properties.thy ===== *)
theory Source_Properties
  imports Source_Refines
begin

text \<open>The properties of source documents: normalisation of edits, coordinates and workspace commands.\<close>

section \<open>The commands of a workspace\<close>

lemma open_correct:
  assumes R: "rope_contract R chars" and ok: "ws_ok chars ws" and fit: "revisions_fit ws" and asc: "ascii body" "text_len body \<le> isize_max"
  shows "command_outcome chars (documents_run (OpenDocument uri body) (ws_documents chars ws)) ws (workspace_open R stages uri body ws)"
proof (cases "\<exists>revision. ws_revisions ws uri = Some revision \<and> chars (rev_text revision) = body")
  case True
  then obtain revision where r: "ws_revisions ws uri = Some revision" "chars (rev_text revision) = body" by blast
  have "workspace_open R stages uri body ws = engine_command R stages [] ws"
    using r rope_laws(6,7) [OF R] by (simp add: workspace_open_def Let_def)
  moreover have "command_outcome chars (documents_run (OpenDocument uri body) (ws_documents chars ws)) ws (engine_command R stages [] ws)"
    by (rule outcome_of_engine [OF R ok fit, where counter = "ws_next_command ws"])
      (use r in \<open>auto simp: ws_documents_def revision_bytes_def\<close>)
  ultimately show ?thesis by simp
next
  case False
  let ?docs = "documents_run (OpenDocument uri body) (ws_documents chars ws)"
  define existing where "existing = ws_revisions ws uri"
  define command where "command = \<lparr>cmd_id = ws_next_command ws,
      cmd_fresh_document = (if existing = None \<and> uri \<in> ws_opened ws then Some (ws_next_command ws) else None),
      cmd_base = map_option revision_key existing,
      cmd_delta = (case existing of
           Some revision \<Rightarrow> EditDelta [\<lparr>old_start = 0, old_stop = rope_len_bytes R (rev_text revision), new_start = 0, new_stop = text_len body\<rparr>]
         | None \<Rightarrow> LoadDelta (text_len body)),
      cmd_next_text = rope_from_str R body\<rparr>"
  let ?ws = "ws\<lparr>ws_next_command := next_command_id (ws_next_command ws)\<rparr>"
  have plain: "chars (rope_from_str R body) = body" using rope_laws(6) [OF R] .
  have run: "workspace_open R stages uri body ws = (case engine_command R stages [(uri, Some command)] ?ws of
         (ws, Finished u) \<Rightarrow> (ws\<lparr>ws_opened := insert uri (ws_opened ws)\<rparr>, Finished u) | (ws, failed) \<Rightarrow> (ws, failed))"
    using False rope_laws(6,7) [OF R]
    by (cases existing) (simp_all add: workspace_open_def Let_def command_def existing_def split: prod.split attempt.split)
  have ok': "ws_ok chars ?ws" "revisions_fit ?ws" using ok fit by (simp_all add: ws_ok_def revisions_fit_def)
  have good: "good_write R chars (ws_revisions ?ws) ?docs (uri, Some command)"
  proof (cases existing)
    case None
    then show ?thesis using asc plain by (simp add: good_write_def command_def existing_def)
  next
    case (Some revision)
    obtain m where "coordinate_map_build (length (revision_bytes chars revision)) (text_len body)
      [\<lparr>old_start = 0, old_stop = rope_len_bytes R (rev_text revision), new_start = 0, new_stop = text_len body\<rparr>] = Some m"
      "copies_mapped m (revision_bytes chars revision) (text_bytes body)" using replacement_exact [OF R asc(2), of revision] by blast
    then show ?thesis using asc plain Some by (simp add: good_write_def command_def existing_def exact_command_def)
  qed
  have same: "\<forall>u. u \<notin> set (map fst [(uri, Some command)]) \<longrightarrow> ?docs u = ws_documents chars ?ws u" by (simp add: ws_documents_def)
  have e: "case engine_command R stages [(uri, Some command)] ?ws of
      (ws', Finished u) \<Rightarrow> ws_ok chars (ws'\<lparr>ws_opened := ws_opened ws' \<union> {uri}\<rparr>) \<and> ws_opened ws' = ws_opened ?ws \<and> ws_documents chars ws' = ?docs \<and> ws_advances chars ?ws ws'
    | (ws', Refused e) \<Rightarrow> ws' = ?ws \<and> e = StageRefused
    | (ws', Panics) \<Rightarrow> False"
    by (rule engine_command_correct [OF R ok' _ _ _ same]) (use good in \<open>simp_all del: fun_upd_apply\<close>)
  obtain ws' res where w: "engine_command R stages [(uri, Some command)] ?ws = (ws', res)" by fastforce
  show ?thesis
  proof (cases res)
    case (Finished u)
    have docs: "ws_documents chars (ws'\<lparr>ws_opened := X\<rparr>) = ws_documents chars ws'" for X by (rule ext) (simp add: ws_documents_def)
    have "ws_ok chars (ws'\<lparr>ws_opened := insert uri (ws_opened ws)\<rparr>)" "ws_documents chars ws' = ?docs" "ws_advances chars ?ws ws'"
      using e w Finished by auto
    then show ?thesis using w Finished run e by (simp add: command_outcome_def docs ws_advances_def del: documents_run.simps)
  next
    case (Refused err)
    then show ?thesis using e w run ok' by (simp add: command_outcome_def batch_error_def)
  qed (use e w in simp)
qed

lemma edit_correct:
  assumes R: "rope_contract R chars" and ok: "ws_ok chars ws" and fit: "revisions_fit ws" and fits: "command_fits chars ws (EditDocuments edits)"
  shows "command_outcome chars (documents_run (EditDocuments edits) (ws_documents chars ws)) ws (workspace_edit R stages edits ws)"
proof -
  let ?docs = "documents_run (EditDocuments edits) (ws_documents chars ws)"
  obtain counter res where p: "prepare_edits R (ws_revisions ws) edits (edited_uris edits) (ws_next_command ws) = (counter, res)" by fastforce
  let ?ws = "ws\<lparr>ws_next_command := counter\<rparr>"
  have ok': "ws_ok chars ?ws" "revisions_fit ?ws" using ok fit by (simp_all add: ws_ok_def revisions_fit_def)
  note prep = prepare_edits_correct [OF R ok fits edited_uris_distinct order_refl, of "ws_next_command ws", unfolded p snd_conv]
  show ?thesis
  proof (cases res)
    case (Finished writes)
    then have w: "distinct (map fst writes)" "set (map fst writes) \<subseteq> set (edited_uris edits)"
        "\<forall>write \<in> set writes. good_write R chars (ws_revisions ws) ?docs write \<and> fst write \<in> ws_opened ws"
        "\<forall>uri \<in> set (edited_uris edits) - set (map fst writes). ?docs uri = ws_documents chars ws uri"
      using prep by simp_all
    have same: "\<forall>uri. uri \<notin> set (map fst writes) \<longrightarrow> ?docs uri = ws_documents chars ?ws uri"
    proof (intro allI impI)
      fix uri assume "uri \<notin> set (map fst writes)"
      then have "?docs uri = ws_documents chars ws uri" using w(4) unedited [of uri edits] by blast
      then show "?docs uri = ws_documents chars ?ws uri" by (simp add: ws_documents_def)
    qed
    have "command_outcome chars ?docs ws (engine_command R stages writes ?ws)"
      by (rule outcome_of_engine [OF R ok' refl w(1) _ _ same]) (use w(3) in fastforce)+
    then show ?thesis using p Finished by (simp add: workspace_edit_def Let_def)
  next
    case (Refused e)
    then show ?thesis using p prep ok' by (simp add: workspace_edit_def Let_def command_outcome_def)
  qed (use prep in simp)
qed

lemma close_correct:
  assumes R: "rope_contract R chars" and ok: "ws_ok chars ws" and fit: "revisions_fit ws"
  shows "command_outcome chars (documents_run (CloseDocument uri) (ws_documents chars ws)) ws (workspace_close R stages uri ws)"
  unfolding workspace_close_def
  by (rule outcome_of_engine [OF R ok fit, where counter = "ws_next_command ws"]) (auto simp: good_write_def)


definition sample_workspace :: "utf8_text workspace" where
  "sample_workspace = \<lparr>
     ws_edits = [''u'' \<mapsto> \<lparr>cmd_id = 1, cmd_fresh_document = None, cmd_base = None, cmd_delta = LoadDelta 2, cmd_next_text = [104, 105]\<rparr>],
     ws_revisions = [''u'' \<mapsto> \<lparr>rev_document = 7, rev_uri = ''u'', rev_id = 1, rev_previous = None, rev_text = [104, 105],
       rev_delta = LoadDelta 2, rev_coordinates = empty_coordinates\<rparr>],
     ws_opened = {''u''}, ws_next_command = 2\<rparr>"

definition sample_edit :: source_edit where
  "sample_edit = InsertEdit \<lparr>span_uri = ''u'', span_range = SpanPoint 1\<rparr> [97]"


section \<open>Edits\<close>

text \<open>
  C10: normalising a batch of edits and applying the result. On an ASCII text with room in the machine
  integers, what \<open>normalize_edits\<close> returns has splices in order, without overlaps, with the exact ranges of
  the replaced and the inserted bytes in the old and the new text, and \<open>apply_splices\<close> of them gives, byte for
  byte, the edited text: at every position the inserts there in the caller's order, then the old byte unless
  it is deleted.
\<close>

theorem normalized_edits_apply_exactly:
  assumes "rope_contract R chars" "ascii (chars base)" "text_len (chars base) + batch_bytes (map edit_kind_of edits) \<le> isize_max" "edits \<noteq> []"
    and "normalize_edits R (Some base) edits = Finished b"
  shows "placed 0 0 (zip (nb_splices b) (nb_inserted b)) \<and> chained_splices 0 (zip (nb_splices b) (nb_inserted b)) (text_len (chars base)) \<and>
    (\<exists>r. apply_splices R base (nb_splices b) (nb_inserted b) = Finished r \<and>
       text_bytes (chars r) = edited (text_bytes (chars base)) (map edit_kind_of edits))"
proof -
  have "exact_batch (chars base) edits b" using normalize_edits_cases [OF assms(1-4)] assms(5) by auto
  then show ?thesis using exact_batch_applies [OF assms(1,2)] by (auto simp: exact_batch_def Let_def)
qed

lemmas edit_eval = normalize_edits_def list_rope_def off_rope_def Let_def op_key_def less_eq_prod_def less_prod_def next_group_def unchanged_def isize_in_def
  checked_add_signed_def checked_add_u64_def usize_max_def utf8_def empty_batch_def apply_splices_def enumerate_Suc_eq

definition sample_edits :: "source_edit list" where
  "sample_edits = [DeleteEdit \<lparr>span_uri = ''u'', span_range = SpanRange 0 1\<rparr>, InsertEdit \<lparr>span_uri = ''u'', span_range = SpanPoint 2\<rparr> [100, 101]]"

definition sample_batch :: normalized_batch where
  "sample_batch = \<lparr>nb_inserted = [[], [100, 101]],
     nb_splices = [\<lparr>old_start = 0, old_stop = 1, new_start = 0, new_stop = 0\<rparr>, \<lparr>old_start = 2, old_stop = 2, new_start = 1, new_stop = 3\<rparr>],
     nb_validated = 2, nb_effective = 2, nb_removed_bytes = 1, nb_inserted_bytes = 2\<rparr>"

lemma sample_batch_normalized: "normalize_edits list_rope (Some [97, 98, 99]) sample_edits = Finished sample_batch"
  by (simp add: edit_eval sample_edits_def sample_batch_def)

theorem normalized_edits_apply_exactly_witness:
  "placed 0 0 (zip (nb_splices sample_batch) (nb_inserted sample_batch)) \<and>
    chained_splices 0 (zip (nb_splices sample_batch) (nb_inserted sample_batch)) (text_len [97, 98, 99]) \<and>
    (\<exists>r. apply_splices list_rope [97, 98, 99] (nb_splices sample_batch) (nb_inserted sample_batch) = Finished r \<and>
       text_bytes r = edited (text_bytes [97, 98, 99]) (map edit_kind_of sample_edits))"
  by (rule normalized_edits_apply_exactly [OF list_rope_contract _ _ _ sample_batch_normalized])
    (simp_all add: ascii_def sample_edits_def isize_max_def utf8_def)



text \<open>
  C24: the coordinate map of a revision. For splices with exact ranges, \<open>coordinate_map_build\<close> passes its assertions, and
  \<open>map_old_to_new\<close> maps exactly the old offsets that no splice replaces, each to an offset of the new text with the same byte.
\<close>

theorem coordinates_map_unchanged_bytes:
  assumes "placed 0 0 ps" "chained_splices 0 ps (length bytes)" "length (spliced bytes 0 ps) \<le> usize_max"
  shows "\<exists>m. coordinate_map_build (length bytes) (length (spliced bytes 0 ps)) (map fst ps) = Some m \<and>
     (\<forall>i. case map_old_to_new m i of
        Some (j, index) \<Rightarrow> i < length bytes \<and> \<not> spliced_over (map fst ps) i \<and> j < length (spliced bytes 0 ps) \<and> spliced bytes 0 ps ! j = bytes ! i
      | None \<Rightarrow> i \<ge> length bytes \<or> spliced_over (map fst ps) i)"
  by (rule coordinates_of_splices [OF assms])

theorem coordinates_map_unchanged_bytes_witness:
  "\<exists>m. coordinate_map_build (length [97, 98, 99 :: nat]) (length (spliced [97, 98, 99] 0 [(\<lparr>old_start = 1, old_stop = 2, new_start = 1, new_stop = 3\<rparr>, [100, 101])]))
       (map fst [(\<lparr>old_start = 1, old_stop = 2, new_start = 1, new_stop = 3\<rparr>, [100 :: nat, 101])]) = Some m \<and>
     (\<forall>i. case map_old_to_new m i of
        Some (j, index) \<Rightarrow> i < length [97, 98, 99 :: nat] \<and> \<not> spliced_over (map fst [(\<lparr>old_start = 1, old_stop = 2, new_start = 1, new_stop = 3\<rparr>, [100 :: nat, 101])]) i \<and>
          j < length (spliced [97, 98, 99] 0 [(\<lparr>old_start = 1, old_stop = 2, new_start = 1, new_stop = 3\<rparr>, [100, 101])]) \<and>
          spliced [97, 98, 99] 0 [(\<lparr>old_start = 1, old_stop = 2, new_start = 1, new_stop = 3\<rparr>, [100, 101])] ! j = [97, 98, 99] ! i
      | None \<Rightarrow> i \<ge> length [97, 98, 99 :: nat] \<or> spliced_over (map fst [(\<lparr>old_start = 1, old_stop = 2, new_start = 1, new_stop = 3\<rparr>, [100 :: nat, 101])]) i)"
  by (rule coordinates_map_unchanged_bytes) (simp_all add: usize_max_def utf8_def)

section \<open>Texts with longer characters\<close>


text \<open>
  An effective batch need not change the text. Deleting the first of two equal characters and inserting one at the end
  leaves the text as it was, yet both splices stay, so the revision advances.
\<close>

theorem unchanged_text_still_effective:
  "(case normalize_edits list_rope (Some [97, 97])
       [DeleteEdit \<lparr>span_uri = ''u'', span_range = SpanRange 0 1\<rparr>, InsertEdit \<lparr>span_uri = ''u'', span_range = SpanPoint 2\<rparr> [97]] of
      Finished b \<Rightarrow> nb_effective b = 2 \<and> apply_splices list_rope [97, 97] (nb_splices b) (nb_inserted b) = Finished [97, 97]
    | Refused e \<Rightarrow> False | Panics \<Rightarrow> False)"
  by (simp add: edit_eval)

end
