(* ===== verification/Hash_Trie.thy ===== *)
theory Hash_Trie
  imports Radix_Map Multiset_Lists
begin

text \<open>
  The hash-array-mapped trie of \<^verbatim>\<open>src/reactive/store.rs\<close> (\<^verbatim>\<open>Hamt\<close>): 32-way branching on five-bit
  fragments of a key's cached hash, least significant first, with buckets of exact entries below. A
  key type is a parameter (\<^verbatim>\<open>TrieKey\<close>): its cached hash and its exact equality; \<open>trie_key_contract\<close> is
  what the trie relies on. The work counters are left out. The outer \<open>None\<close> of an operation is a
  panic: an index out of range, or a shift by 65 bits below the last level.
\<close>

unbundle bit_operations_syntax

section \<open>Keys\<close>

record 'k trie_key =
  trie_hash :: "'k \<Rightarrow> u64"
  trie_eq :: "'k \<Rightarrow> 'k \<Rightarrow> bool"

definition trie_key_contract :: "'k trie_key \<Rightarrow> bool" where
  "trie_key_contract K \<longleftrightarrow> equivp (trie_eq K) \<and> (\<forall>a b. trie_eq K a b \<longrightarrow> trie_hash K a = trie_hash K b)"

lemma trie_key_laws:
  assumes "trie_key_contract K"
  shows "trie_eq K a a" "trie_eq K a b \<Longrightarrow> trie_eq K b a" "trie_eq K a b \<Longrightarrow> trie_eq K b c \<Longrightarrow> trie_eq K a c"
    "trie_eq K a b \<Longrightarrow> trie_hash K a = trie_hash K b"
  using assms by (auto simp: trie_key_contract_def intro: equivp_reflp equivp_symp equivp_transp)

section \<open>The trie\<close>

definition HAMT_FRAGMENT_BITS :: nat where
  "HAMT_FRAGMENT_BITS = 5"

definition HAMT_MAX_DEPTH :: nat where
  "HAMT_MAX_DEPTH = 13"

datatype ('k, 'v) hamt_entry = HEntry (he_hash: u64) (he_key: 'k) (he_value: 'v)

datatype ('k, 'v) hamt_node =
    is_HBucket: HBucket "('k, 'v) hamt_entry list"
  | HBranch "32 word" "('k, 'v) hamt_node list"

record ('k, 'v) hamt =
  hm_root :: "('k, 'v) hamt_node option"
  hm_len :: nat

definition hamt_empty :: "('k, 'v) hamt" where
  "hamt_empty = \<lparr>hm_root = None, hm_len = 0\<rparr>"

definition hamt_is_empty :: "('k, 'v) hamt \<Rightarrow> bool" where
  "hamt_is_empty m \<longleftrightarrow> hm_len m = 0"

definition fragment :: "u64 \<Rightarrow> nat \<Rightarrow> nat" where
  "fragment hash depth = unat (drop_bit (depth * HAMT_FRAGMENT_BITS) hash AND 0x1F)"

text \<open>\<^verbatim>\<open>u32::count_ones\<close>.\<close>

definition count_ones_u32 :: "32 word \<Rightarrow> nat" where
  "count_ones_u32 w = length (filter (bit w) [0..<32])"

definition hamt_rank :: "32 word \<Rightarrow> nat \<Rightarrow> nat" where
  "hamt_rank bm f = count_ones_u32 (bm AND (push_bit f 1 - 1))"

definition entry_matches :: "'k trie_key \<Rightarrow> u64 \<Rightarrow> 'k \<Rightarrow> ('k, 'v) hamt_entry \<Rightarrow> bool" where
  "entry_matches K hash key e \<longleftrightarrow> he_hash e = hash \<and> trie_eq K (he_key e) key"

function hamt_get_at :: "'k trie_key \<Rightarrow> 'k \<Rightarrow> u64 \<Rightarrow> ('k, 'v) hamt_node \<Rightarrow> nat \<Rightarrow> 'v option option" where
  "hamt_get_at K key hash (HBucket entries) depth = Some (map_option he_value (find (entry_matches K hash key) entries))"
| "hamt_get_at K key hash (HBranch bm cs) depth =
     (if HAMT_MAX_DEPTH \<le> depth then None
      else let f = fragment hash depth in
        if bm AND push_bit f 1 = 0 then Some None
        else case nth_opt cs (hamt_rank bm f) of None \<Rightarrow> None | Some c \<Rightarrow> hamt_get_at K key hash c (depth + 1))"
  by pat_completeness auto
termination by (relation "measure (\<lambda>(_, _, _, n, _). size n)") (auto dest: nth_opt_size)

definition hamt_get :: "'k trie_key \<Rightarrow> ('k, 'v) hamt \<Rightarrow> 'k \<Rightarrow> 'v option option" where
  "hamt_get K m key = (case hm_root m of None \<Rightarrow> Some None | Some n \<Rightarrow> hamt_get_at K key (trie_hash K key) n 0)"

fun replace_in_bucket :: "'k trie_key \<Rightarrow> ('k, 'v) hamt_entry \<Rightarrow> ('k, 'v) hamt_entry list \<Rightarrow> ('k, 'v) hamt_entry list option" where
  "replace_in_bucket K entry [] = None"
| "replace_in_bucket K entry (other # entries) =
     (if entry_matches K (he_hash entry) (he_key entry) other then Some (entry # entries)
      else map_option (Cons other) (replace_in_bucket K entry entries))"

text \<open>The groups of a bucket that is split, in the order their fragments first occur.\<close>

fun add_to_group :: "nat \<Rightarrow> 'e \<Rightarrow> (nat \<times> 'e list) list \<Rightarrow> (nat \<times> 'e list) list" where
  "add_to_group f e [] = [(f, [e])]"
| "add_to_group f e ((g, members) # groups) = (if g = f then (g, members @ [e]) # groups else (g, members) # add_to_group f e groups)"

definition split_groups :: "nat \<Rightarrow> ('k, 'v) hamt_entry list \<Rightarrow> (nat \<times> ('k, 'v) hamt_entry list) list" where
  "split_groups depth entries = fold (\<lambda>e. add_to_group (fragment (he_hash e) depth) e) entries []"

definition split_bitmap :: "nat \<Rightarrow> ('k, 'v) hamt_entry list \<Rightarrow> 32 word" where
  "split_bitmap depth entries = fold (\<lambda>e bm. bm OR push_bit (fragment (he_hash e) depth) 1) entries 0"

function hamt_insert_at :: "'k trie_key \<Rightarrow> ('k, 'v) hamt_node \<Rightarrow> ('k, 'v) hamt_entry \<Rightarrow> nat \<Rightarrow> ('k, 'v) hamt_node option" where
  "hamt_insert_at K (HBucket entries) entry depth = (case replace_in_bucket K entry entries of
     Some entries \<Rightarrow> Some (HBucket entries)
   | None \<Rightarrow>
       if (\<forall>e \<in> set entries. he_hash e = he_hash entry) \<or> HAMT_MAX_DEPTH \<le> depth + 1 then Some (HBucket (entries @ [entry]))
       else Some (HBranch (split_bitmap depth (entries @ [entry]))
          (map (HBucket \<circ> snd) (sort_key fst (split_groups depth (entries @ [entry]))))))"
| "hamt_insert_at K (HBranch bm cs) entry depth =
     (if HAMT_MAX_DEPTH \<le> depth then None
      else let f = fragment (he_hash entry) depth; rank = hamt_rank bm f in
        if bm AND push_bit f 1 \<noteq> 0
        then (case nth_opt cs rank of None \<Rightarrow> None
              | Some c \<Rightarrow> map_option (\<lambda>c'. HBranch (bm OR push_bit f 1) (cs[rank := c'])) (hamt_insert_at K c entry (depth + 1)))
        else if rank \<le> length cs then Some (HBranch (bm OR push_bit f 1) (take rank cs @ HBucket [entry] # drop rank cs))
        else None)"
  by pat_completeness auto
termination by (relation "measure (\<lambda>(_, n, _, _). size n)") (auto dest: nth_opt_size)

definition hamt_insert :: "'k trie_key \<Rightarrow> ('k, 'v) hamt \<Rightarrow> 'k \<Rightarrow> 'v \<Rightarrow> ('k, 'v) hamt option" where
  "hamt_insert K m key v = do {
     found \<leftarrow> hamt_get K m key;
     let entry = HEntry (trie_hash K key) key v;
     root \<leftarrow> (case hm_root m of None \<Rightarrow> Some (HBucket [entry]) | Some n \<Rightarrow> hamt_insert_at K n entry 0);
     Some \<lparr>hm_root = Some root, hm_len = (if found = None then hm_len m + 1 else hm_len m)\<rparr> }"

datatype ('k, 'v) remove_outcome = HRemoved "('k, 'v) hamt_node option" | HMissing

function hamt_remove_at :: "'k trie_key \<Rightarrow> ('k, 'v) hamt_node \<Rightarrow> 'k \<Rightarrow> nat \<Rightarrow> ('k, 'v) remove_outcome option" where
  "hamt_remove_at K (HBucket entries) key depth = (case position (entry_matches K (trie_hash K key) key) entries of
     None \<Rightarrow> Some HMissing
   | Some i \<Rightarrow> let next_entries = take i entries @ drop (i + 1) entries in
       Some (HRemoved (if next_entries = [] then None else Some (HBucket next_entries))))"
| "hamt_remove_at K (HBranch bm cs) key depth =
     (if HAMT_MAX_DEPTH \<le> depth then None
      else let f = fragment (trie_hash K key) depth; rank = hamt_rank bm f in
        if bm AND push_bit f 1 = 0 then Some HMissing
        else case nth_opt cs rank of None \<Rightarrow> None
        | Some c \<Rightarrow> (case hamt_remove_at K c key (depth + 1) of
              None \<Rightarrow> None
            | Some HMissing \<Rightarrow> Some HMissing
            | Some (HRemoved replacement) \<Rightarrow>
                let (bm', cs') = (case replacement of
                    Some c' \<Rightarrow> (bm, cs[rank := c'])
                  | None \<Rightarrow> (bm AND NOT (push_bit f 1), take rank cs @ drop (rank + 1) cs))
                in Some (HRemoved (if cs' = [] then None
                     else if length cs' = 1 \<and> is_HBucket (cs' ! 0) then Some (cs' ! 0)
                     else Some (HBranch bm' cs')))))"
  by pat_completeness auto
termination by (relation "measure (\<lambda>(_, n, _, _). size n)") (auto dest: nth_opt_size)

definition hamt_remove :: "'k trie_key \<Rightarrow> ('k, 'v) hamt \<Rightarrow> 'k \<Rightarrow> (bool \<times> ('k, 'v) hamt) option" where
  "hamt_remove K m key = (case hm_root m of
     None \<Rightarrow> Some (False, m)
   | Some n \<Rightarrow> (case hamt_remove_at K n key 0 of
         None \<Rightarrow> None
       | Some HMissing \<Rightarrow> Some (False, m)
       | Some (HRemoved replacement) \<Rightarrow> Some (True, \<lparr>hm_root = replacement, hm_len = hm_len m - 1\<rparr>)))"

text \<open>The iterator: a stack of nodes and of buckets with the position of their next entry.\<close>

datatype ('k, 'v) hamt_frame = NodeFrame "('k, 'v) hamt_node" | BucketFrame "('k, 'v) hamt_entry list" nat

fun node_weight :: "('k, 'v) hamt_node \<Rightarrow> nat" where
  "node_weight (HBucket entries) = length entries + 2"
| "node_weight (HBranch bm cs) = Suc (sum_list (map node_weight cs))"

fun frame_weight :: "('k, 'v) hamt_frame \<Rightarrow> nat" where
  "frame_weight (NodeFrame n) = node_weight n"
| "frame_weight (BucketFrame entries i) = length entries - i + 1"

function hamt_iter :: "('k, 'v) hamt_frame list \<Rightarrow> ('k \<times> 'v) list" where
  "hamt_iter [] = []"
| "hamt_iter (NodeFrame (HBranch bm cs) # stack) = hamt_iter (map NodeFrame cs @ stack)"
| "hamt_iter (NodeFrame (HBucket entries) # stack) = hamt_iter (BucketFrame entries 0 # stack)"
| "hamt_iter (BucketFrame entries i # stack) = (if length entries \<le> i then hamt_iter stack
     else (he_key (entries ! i), he_value (entries ! i)) # hamt_iter (BucketFrame entries (i + 1) # stack))"
  by pat_completeness auto
termination by (relation "measure (\<lambda>stack. sum_list (map frame_weight stack))") (auto simp: comp_def)

definition hamt_entries :: "('k, 'v) hamt \<Rightarrow> ('k \<times> 'v) list" where
  "hamt_entries m = hamt_iter (case hm_root m of None \<Rightarrow> [] | Some n \<Rightarrow> [NodeFrame n])"

section \<open>Fragments and bitmaps\<close>

lemma fragment_div: "fragment hash depth = unat hash div 2 ^ (5 * depth) mod 32"
proof -
  have "x AND 0x1F = take_bit 5 x" for x :: u64
    by (simp add: take_bit_eq_mask mask_eq_exp_minus_1)
  moreover have "unat (take_bit 5 (drop_bit n hash)) = unat hash div 2 ^ n mod 32" for n
    unfolding unsigned_take_bit_eq unat_drop_bit_eq by (simp add: take_bit_eq_mod drop_bit_eq_div)
  ultimately show ?thesis by (simp add: fragment_def HAMT_FRAGMENT_BITS_def mult.commute)
qed

lemma fragment_less [simp]: "fragment hash depth < 32"
  by (simp add: fragment_div)

definition frags :: "32 word \<Rightarrow> nat list" where
  "frags bm = filter (bit bm) [0..<32]"

definition frags_below :: "32 word \<Rightarrow> nat \<Rightarrow> nat list" where
  "frags_below bm f = filter (bit bm) [0..<f]"

definition frags_above :: "32 word \<Rightarrow> nat \<Rightarrow> nat list" where
  "frags_above bm f = filter (bit bm) [Suc f..<32]"

lemma frags_split:
  assumes "f < 32"
  shows "frags bm = frags_below bm f @ (if bit bm f then [f] else []) @ frags_above bm f"
proof -
  have "[0..<32] = [0..<f] @ f # [Suc f..<32]" using assms by (metis less_imp_le_nat upt_conv_Cons upt_split zero_le)
  then show ?thesis by (simp add: frags_def frags_below_def frags_above_def)
qed

lemma bit_two_power_u32: "f < 32 \<Longrightarrow> bit (push_bit f 1 :: 32 word) j \<longleftrightarrow> j = f"
  by (auto simp: bit_simps)

lemma frag_test: "f < 32 \<Longrightarrow> (bm AND push_bit f 1 = 0) \<longleftrightarrow> \<not> bit bm f" for bm :: "32 word"
  by (auto simp: bit_and_iff bit_two_power_u32 dest: arg_cong [where f = "\<lambda>v. bit v f"] intro!: bit_word_eqI simp del: push_bit_of_1)

lemma hamt_rank_frags: "f < 32 \<Longrightarrow> hamt_rank bm f = length (frags_below bm f)"
proof -
  assume f: "f < 32"
  have "push_bit f 1 - 1 = (mask f :: 32 word)" by (simp add: mask_eq_exp_minus_1 push_bit_eq_mult)
  then have "bit (bm AND (push_bit f 1 - 1)) j \<longleftrightarrow> bit bm j \<and> j < f" for j using f by (auto simp: bit_simps)
  then have "filter (bit (bm AND (push_bit f 1 - 1))) [0..<32] = filter (\<lambda>j. bit bm j \<and> j < f) ([0..<f] @ [f..<32])"
    using f by (simp add: upt_split [of 0 f 32] less_imp_le del: upt_conv_Cons_Cons cong: filter_cong)
  also have "\<dots> = filter (bit bm) [0..<f]" by (auto intro: filter_cong)
  finally show ?thesis by (simp add: hamt_rank_def count_ones_u32_def frags_below_def)
qed

lemma bit_set_frag: "f < 32 \<Longrightarrow> bit (bm OR push_bit f 1) j \<longleftrightarrow> bit bm j \<or> j = f" for bm :: "32 word"
  by (simp add: bit_or_iff bit_two_power_u32 del: push_bit_of_1)

lemma bit_clear_frag: "f < 32 \<Longrightarrow> bit (bm AND NOT (push_bit f 1)) j \<longleftrightarrow> bit bm j \<and> j \<noteq> f" for bm :: "32 word"
  by (auto simp: bit_and_iff bit_not_iff bit_two_power_u32 simp del: push_bit_of_1 dest: bit_imp_le_length)

lemma frags_cong: "(\<And>m. m \<noteq> f \<Longrightarrow> bit bm' m = bit bm m) \<Longrightarrow> frags_below bm' f = frags_below bm f \<and> frags_above bm' f = frags_above bm f"
  by (auto simp: frags_below_def frags_above_def intro!: filter_cong)

lemma frags_set: "f < 32 \<Longrightarrow> frags (bm OR push_bit f 1) = frags_below bm f @ [f] @ frags_above bm f"
  using frags_split [of f "bm OR push_bit f 1"] bit_set_frag [of f bm] frags_cong [of f "bm OR push_bit f 1" bm] by simp

lemma frags_clear: "f < 32 \<Longrightarrow> frags (bm AND NOT (push_bit f 1)) = frags_below bm f @ frags_above bm f"
  using frags_split [of f "bm AND NOT (push_bit f 1)"] bit_clear_frag [of f bm] frags_cong [of f "bm AND NOT (push_bit f 1)" bm] by simp

lemma frags_less: "m \<in> set (frags_below bm f) \<Longrightarrow> m < f" "m \<in> set (frags_above bm f) \<Longrightarrow> f < m"
  by (auto simp: frags_below_def frags_above_def)

section \<open>Well-formed tries\<close>

fun hentries :: "('k, 'v) hamt_node \<Rightarrow> ('k, 'v) hamt_entry list" where
  "hentries (HBucket entries) = entries"
| "hentries (HBranch bm cs) = concat (map hentries cs)"

definition in_frags :: "nat \<Rightarrow> nat list \<Rightarrow> ('k, 'v) hamt_node list \<Rightarrow> bool" where
  "in_frags d = list_all2 (\<lambda>f c. \<forall>e \<in> set (hentries c). fragment (he_hash e) d = f)"

text \<open>Entries cache their hash, and no two have equal keys.\<close>

definition entries_ok :: "'k trie_key \<Rightarrow> ('k, 'v) hamt_entry list \<Rightarrow> bool" where
  "entries_ok K es \<longleftrightarrow> (\<forall>e \<in> set es. he_hash e = trie_hash K (he_key e)) \<and> sorted_wrt (\<lambda>a b. \<not> trie_eq K (he_key a) (he_key b)) es"

fun hnode_ok :: "'k trie_key \<Rightarrow> nat \<Rightarrow> ('k, 'v) hamt_node \<Rightarrow> bool" where
  "hnode_ok K d (HBucket es) \<longleftrightarrow> d < HAMT_MAX_DEPTH \<and> es \<noteq> [] \<and> entries_ok K es"
| "hnode_ok K d (HBranch bm cs) \<longleftrightarrow> d < HAMT_MAX_DEPTH \<and> cs \<noteq> [] \<and> in_frags d (frags bm) cs \<and> (\<forall>c \<in> set cs. hnode_ok K (Suc d) c)"

lemma in_frags_append: "length as = length cs \<Longrightarrow> in_frags d (as @ bs) (cs @ ds) \<longleftrightarrow> in_frags d as cs \<and> in_frags d bs ds"
  by (simp add: in_frags_def list_all2_append)

lemma in_frags_simps: "in_frags d (a # as) (c # cs) \<longleftrightarrow> (\<forall>e \<in> set (hentries c). fragment (he_hash e) d = a) \<and> in_frags d as cs" "in_frags d [] []"
  by (simp_all add: in_frags_def)

lemma in_frags_length: "in_frags d as cs \<Longrightarrow> length as = length cs"
  by (simp add: in_frags_def list_all2_lengthD)

lemma in_frags_member: "in_frags d as cs \<Longrightarrow> c \<in> set cs \<Longrightarrow> e \<in> set (hentries c) \<Longrightarrow> fragment (he_hash e) d \<in> set as"
  by (force simp: in_frags_def list_all2_conv_all_nth in_set_conv_nth)

text \<open>The children of a branch around the place of a fragment.\<close>

lemma hamt_branch_split:
  assumes "in_frags d (frags bm) cs" "f < 32"
  obtains lows highs where
    "hamt_rank bm f = length lows" "in_frags d (frags_below bm f) lows" "in_frags d (frags_above bm f) highs"
    "bit bm f \<Longrightarrow> \<exists>c. cs = lows @ c # highs \<and> (\<forall>e \<in> set (hentries c). fragment (he_hash e) d = f)"
    "\<not> bit bm f \<Longrightarrow> cs = lows @ highs"
proof -
  let ?B = "frags_below bm f" and ?A = "frags_above bm f" let ?m = "if bit bm f then [f] else []"
  have sl: "in_frags d (?B @ ?m @ ?A) cs" using assms(1) frags_split [OF assms(2), of bm] by simp
  define lows where "lows = take (length ?B) cs"
  define rest where "rest = drop (length ?B) cs"
  have cs: "cs = lows @ rest" by (simp add: lows_def rest_def)
  have len: "length lows = length ?B" using in_frags_length [OF sl] by (simp add: lows_def)
  then have b: "in_frags d ?B lows" and r: "in_frags d (?m @ ?A) rest"
    using sl in_frags_append [of ?B lows d "?m @ ?A" rest] by (simp_all add: cs)
  have rank: "hamt_rank bm f = length lows" using hamt_rank_frags [OF assms(2)] len by simp
  show thesis
  proof (cases "bit bm f")
    case True
    with r obtain c highs where "rest = c # highs" "\<forall>e \<in> set (hentries c). fragment (he_hash e) d = f" "in_frags d ?A highs"
      by (auto simp: in_frags_def list_all2_Cons1)
    with True b rank cs that [of lows highs] show thesis by simp
  next
    case False
    with b r rank cs that [of lows rest] show thesis by simp
  qed
qed

lemma in_frags_around:
  assumes "in_frags d (frags_below bm f) lows" "in_frags d (frags_above bm f) highs" "\<forall>e \<in> set (hentries c). fragment (he_hash e) d = f"
  shows "in_frags d (frags_below bm f @ [f] @ frags_above bm f) (lows @ c # highs)"
  using assms in_frags_length [OF assms(1)] by (simp add: in_frags_append in_frags_simps)

text \<open>Entries of the other children have another fragment.\<close>

lemma around_off:
  "in_frags d (frags_below bm f) lows \<Longrightarrow> e \<in> set (concat (map hentries lows)) \<Longrightarrow> fragment (he_hash e) d \<noteq> f"
  "in_frags d (frags_above bm f) highs \<Longrightarrow> e \<in> set (concat (map hentries highs)) \<Longrightarrow> fragment (he_hash e) d \<noteq> f"
  using frags_less in_frags_member by fastforce+

lemma concat_entries_ok:
  assumes K: "trie_key_contract K"
  shows "in_frags d fs cs \<Longrightarrow> sorted_wrt (<) fs \<Longrightarrow> \<forall>c \<in> set cs. entries_ok K (hentries c) \<Longrightarrow> entries_ok K (concat (map hentries cs))"
proof (induction fs arbitrary: cs)
  case (Cons f fs)
  then obtain c cs' where cs: "cs = c # cs'" "\<forall>e \<in> set (hentries c). fragment (he_hash e) d = f" "in_frags d fs cs'"
    by (auto simp: in_frags_def list_all2_Cons1)
  have rest: "entries_ok K (concat (map hentries cs'))" using Cons.IH [OF cs(3)] Cons.prems cs(1) by simp
  have "\<not> trie_eq K (he_key a) (he_key b)" if "a \<in> set (hentries c)" "b \<in> set (concat (map hentries cs'))" for a b
  proof
    assume "trie_eq K (he_key a) (he_key b)"
    moreover have "he_hash a = trie_hash K (he_key a)" "he_hash b = trie_hash K (he_key b)"
      using that rest Cons.prems(3) cs(1) by (auto simp: entries_ok_def)
    ultimately have "he_hash a = he_hash b" using trie_key_laws(4) [OF K] by metis
    then have "fragment (he_hash b) d = f" using cs(2) that(1) by metis
    moreover have "fragment (he_hash b) d \<in> set fs" using in_frags_member [OF cs(3)] that(2) by auto
    ultimately show False using Cons.prems(2) by auto
  qed
  then show ?case using rest Cons.prems(3) cs(1) by (auto simp: entries_ok_def sorted_wrt_append)
qed (simp add: in_frags_def entries_ok_def)

lemma hentries_ok: "hnode_ok K d n \<Longrightarrow> trie_key_contract K \<Longrightarrow> entries_ok K (hentries n)"
proof (induction n arbitrary: d)
  case (HBranch bm cs)
  have "sorted_wrt (<) (frags bm)" by (simp add: frags_def sorted_wrt_filter)
  then show ?case using HBranch concat_entries_ok [of K d "frags bm" cs] by auto
qed simp

lemma entries_ok_permuted: "mset es = mset es' \<Longrightarrow> trie_key_contract K \<Longrightarrow> entries_ok K es \<Longrightarrow> entries_ok K es'"
  unfolding entries_ok_def
  by (metis (mono_tags, lifting) mset_eq_setD sorted_wrt_permuted trie_key_laws(2))

lemma entries_ok_append: "entries_ok K (es @ fs) \<longleftrightarrow> entries_ok K es \<and> entries_ok K fs \<and> (\<forall>a \<in> set es. \<forall>b \<in> set fs. \<not> trie_eq K (he_key a) (he_key b))"
  by (auto simp: entries_ok_def sorted_wrt_append)

section \<open>Lookup\<close>

lemma matches_eq: "trie_key_contract K \<Longrightarrow> entries_ok K es \<Longrightarrow> e \<in> set es \<Longrightarrow> entry_matches K (trie_hash K key) key e \<longleftrightarrow> trie_eq K (he_key e) key"
  using trie_key_laws(4) by (fastforce simp: entry_matches_def entries_ok_def)

lemma find_append: "find P (xs @ ys) = (case find P xs of None \<Rightarrow> find P ys | Some x \<Rightarrow> Some x)"
  by (induction xs) auto

lemma find_off: "(\<And>x. x \<in> set xs \<Longrightarrow> \<not> P x) \<Longrightarrow> find P xs = None"
  by (simp add: find_None_iff)

lemma hamt_get_at_correct:
  "hnode_ok K d n \<Longrightarrow> hamt_get_at K key hash n d = Some (map_option he_value (find (entry_matches K hash key) (hentries n)))"
proof (induction n arbitrary: d)
  case (HBranch bm cs)
  let ?f = "fragment hash d"
  have d: "d < HAMT_MAX_DEPTH" using HBranch.prems by simp
  obtain lows highs where sp: "hamt_rank bm ?f = length lows" "in_frags d (frags_below bm ?f) lows" "in_frags d (frags_above bm ?f) highs"
      "bit bm ?f \<Longrightarrow> \<exists>c. cs = lows @ c # highs \<and> (\<forall>e \<in> set (hentries c). fragment (he_hash e) d = ?f)"
      "\<not> bit bm ?f \<Longrightarrow> cs = lows @ highs"
    using hamt_branch_split [OF _ fragment_less] HBranch.prems by (metis hnode_ok.simps(2))
  have off: "find (entry_matches K hash key) (concat (map hentries lows)) = None" "find (entry_matches K hash key) (concat (map hentries highs)) = None"
    using around_off(1) [OF sp(2)] around_off(2) [OF sp(3)] by (auto simp: find_None_iff entry_matches_def simp del: set_concat)
  show ?case
  proof (cases "bit bm ?f")
    case True
    then obtain c where c: "cs = lows @ c # highs" using sp(4) by blast
    have "hamt_get_at K key hash c (Suc d) = Some (map_option he_value (find (entry_matches K hash key) (hentries c)))"
      using HBranch c by simp
    then show ?thesis using d True sp(1) off by (simp add: c frag_test find_append split: option.split del: push_bit_of_1)
  next
    case False
    then show ?thesis using d sp(5) off by (simp add: frag_test find_append del: push_bit_of_1)
  qed
qed simp

section \<open>Insertion\<close>

text \<open>The entries of other keys.\<close>

definition others :: "'k trie_key \<Rightarrow> 'k \<Rightarrow> ('k, 'v) hamt_entry list \<Rightarrow> ('k, 'v) hamt_entry list" where
  "others K key es = filter (\<lambda>e. \<not> trie_eq K (he_key e) key) es"

lemma others_simps [simp]: "others K key [] = []" "others K key (es @ fs) = others K key es @ others K key fs"
    "others K key (e # es) = (if trie_eq K (he_key e) key then others K key es else e # others K key es)"
  by (simp_all add: others_def)

lemma others_off: "(\<And>e. e \<in> set es \<Longrightarrow> \<not> trie_eq K (he_key e) key) \<Longrightarrow> others K key es = es"
  by (simp add: others_def)

lemma others_other_fragment:
  assumes "trie_key_contract K" "entries_ok K es" "\<And>e. e \<in> set es \<Longrightarrow> fragment (he_hash e) d \<noteq> fragment (trie_hash K key) d"
  shows "others K key es = es"
proof (rule others_off)
  show "\<not> trie_eq K (he_key e) key" if "e \<in> set es" for e
    using assms(2,3) that trie_key_laws(4) [OF assms(1)] by (metis entries_ok_def)
qed

lemma replace_in_bucket_correct:
  assumes K: "trie_key_contract K" and e: "he_hash entry = trie_hash K (he_key entry)"
  shows "entries_ok K es \<Longrightarrow> (case replace_in_bucket K entry es of
      Some es' \<Rightarrow> es' \<noteq> [] \<and> entries_ok K es' \<and> mset es' = add_mset entry (mset (others K (he_key entry) es))
    | None \<Rightarrow> others K (he_key entry) es = es)"
proof (induction es)
  case (Cons x es)
  have ok: "entries_ok K es" "he_hash x = trie_hash K (he_key x)" "\<And>y. y \<in> set es \<Longrightarrow> \<not> trie_eq K (he_key x) (he_key y)"
    using Cons.prems by (auto simp: entries_ok_def)
  have hash: "entry_matches K (he_hash entry) (he_key entry) x \<longleftrightarrow> trie_eq K (he_key x) (he_key entry)"
    using matches_eq [OF K Cons.prems, of x "he_key entry"] e by simp
  show ?case
  proof (cases "trie_eq K (he_key x) (he_key entry)")
    case True
    have off: "\<not> trie_eq K (he_key y) (he_key entry)" "\<not> trie_eq K (he_key entry) (he_key y)" if "y \<in> set es" for y
      using ok(3) [OF that] True trie_key_laws(2,3) [OF K] by blast+
    then show ?thesis using True ok(1) e hash others_off [of es K "he_key entry"] by (auto simp: entries_ok_def)
  next
    case False
    then have "entries_ok K (x # es')" if "replace_in_bucket K entry es = Some es'" "entries_ok K es'" "mset es' = add_mset entry (mset (others K (he_key entry) es))" for es'
    proof -
      have "set es' = insert entry (set (others K (he_key entry) es))" using that(3) by (metis set_mset_add_mset_insert set_mset_mset)
      then show ?thesis using that(2) ok(2,3) False by (auto simp: entries_ok_def others_def)
    qed
    then show ?thesis using Cons.IH [OF ok(1)] False hash by (auto split: option.splits)
  qed
qed (simp add: entries_ok_def)

lemma add_to_group_correct:
  assumes "distinct (map fst groups)" "\<forall>(g, members) \<in> set groups. members \<noteq> [] \<and> (\<forall>e \<in> set members. P e = g)" "P e = f"
  shows "distinct (map fst (add_to_group f e groups))" "\<forall>(g, members) \<in> set (add_to_group f e groups). members \<noteq> [] \<and> (\<forall>e \<in> set members. P e = g)"
    "mset (concat (map snd (add_to_group f e groups))) = add_mset e (mset (concat (map snd groups)))"
    "fst ` set (add_to_group f e groups) = insert f (fst ` set groups)"
  using assms by (induction f e groups rule: add_to_group.induct) auto

lemma split_groups_correct:
  fixes es :: "('k, 'v) hamt_entry list" and d :: nat
  defines "groups \<equiv> split_groups d es"
  shows "distinct (map fst groups) \<and> (\<forall>(g, members) \<in> set groups. members \<noteq> [] \<and> (\<forall>e \<in> set members. fragment (he_hash e) d = g)) \<and>
    mset (concat (map snd groups)) = mset es \<and> fst ` set groups = (\<lambda>e. fragment (he_hash e) d) ` set es"
  unfolding groups_def split_groups_def
proof (induction es rule: rev_induct)
  case (snoc e es)
  let ?g = "fold (\<lambda>e. add_to_group (fragment (he_hash e) d) e) es []" and ?h = "fragment (he_hash e) d"
  have g: "distinct (map fst ?g)" "\<forall>(g, members) \<in> set ?g. members \<noteq> [] \<and> (\<forall>e \<in> set members. fragment (he_hash e) d = g)"
      "mset (concat (map snd ?g)) = mset es" "fst ` set ?g = (\<lambda>e. fragment (he_hash e) d) ` set es" using snoc by blast+
  have step: "fold (\<lambda>e. add_to_group (fragment (he_hash e) d) e) (es @ [e]) [] = add_to_group ?h e ?g" by simp
  show ?case unfolding step
  proof (intro conjI)
    show "distinct (map fst (add_to_group ?h e ?g))" "\<forall>(g, members) \<in> set (add_to_group ?h e ?g). members \<noteq> [] \<and> (\<forall>e \<in> set members. fragment (he_hash e) d = g)"
      using add_to_group_correct(1,2) [OF g(1,2) refl] by blast+
    show "mset (concat (map snd (add_to_group ?h e ?g))) = mset (es @ [e])" "fst ` set (add_to_group ?h e ?g) = (\<lambda>e. fragment (he_hash e) d) ` set (es @ [e])"
      unfolding add_to_group_correct(3,4) [OF g(1,2) refl] g(3,4) by simp_all
  qed
qed simp

lemma split_bitmap_bits: "bit (split_bitmap d es) j \<longleftrightarrow> (\<exists>e \<in> set es. fragment (he_hash e) d = j)"
proof -
  have "bit (fold (\<lambda>e bm. bm OR push_bit (fragment (he_hash e) d) 1) es bm) j \<longleftrightarrow> bit bm j \<or> (\<exists>e \<in> set es. fragment (he_hash e) d = j)" for bm :: "32 word"
    by (induction es arbitrary: bm) (auto simp: bit_set_frag simp del: push_bit_of_1)
  then show ?thesis by (simp add: split_bitmap_def)
qed

lemma split_bucket_ok:
  assumes K: "trie_key_contract K" and ok: "entries_ok K es" "es \<noteq> []" "Suc d < HAMT_MAX_DEPTH"
  shows "hnode_ok K d (HBranch (split_bitmap d es) (map (HBucket \<circ> snd) (sort_key fst (split_groups d es)))) \<and>
    mset (concat (map hentries (map (HBucket \<circ> snd) (sort_key fst (split_groups d es))))) = mset es"
proof -
  let ?G = "sort_key fst (split_groups d es)"
  have g: "distinct (map fst (split_groups d es))" "\<forall>(g, members) \<in> set ?G. members \<noteq> [] \<and> (\<forall>e \<in> set members. fragment (he_hash e) d = g)"
      "mset (concat (map snd (split_groups d es))) = mset es" "fst ` set ?G = (\<lambda>e. fragment (he_hash e) d) ` set es"
    using split_groups_correct [of d es] by simp_all
  have perm: "mset (concat (map snd ?G)) = mset es"
  proof -
    have "mset (map snd ?G) = mset (map snd (split_groups d es))" by (simp only: mset_map mset_sort)
    then have "mset (concat (map snd ?G)) = mset (concat (map snd (split_groups d es)))"
      by (simp only: mset_concat mset_map sum_mset_sum_list [symmetric])
    then show ?thesis using g(3) by simp
  qed
  have "mset (map fst ?G) = mset (map fst (split_groups d es))" by (simp only: mset_map mset_sort)
  then have "distinct (map fst ?G)" using g(1) mset_eq_imp_distinct_iff by blast
  moreover have "sorted (map fst ?G)" by simp
  moreover have "set (map fst ?G) = set (frags (split_bitmap d es))"
    using g(4) by (auto simp: frags_def split_bitmap_bits)
  moreover have "sorted_wrt (<) (frags (split_bitmap d es))" by (simp add: frags_def sorted_wrt_filter)
  then have "sorted (frags (split_bitmap d es))" "distinct (frags (split_bitmap d es))" by (simp_all only: strict_sorted_iff)
  ultimately have fr: "map fst ?G = frags (split_bitmap d es)" using sorted_distinct_set_unique by blast
  have inf: "in_frags d (frags (split_bitmap d es)) (map (HBucket \<circ> snd) ?G)"
    unfolding fr [symmetric] using g(2) by (fastforce simp: in_frags_def list_all2_map1 list_all2_map2 list_all2_same)
  have ne: "?G \<noteq> []" using perm ok(2) by (metis concat.simps(1) list.map_disc_iff mset_zero_iff)
  have sub: "entries_ok K members" if mem: "(f, members) \<in> set ?G" for f members
  proof -
    have all: "entries_ok K (concat (map snd ?G))" by (rule entries_ok_permuted [OF perm [symmetric] K ok(1)])
    obtain a b where ab: "?G = a @ (f, members) # b" using split_list [OF mem] by blast
    have "concat (map snd ?G) = concat (map snd a) @ members @ concat (map snd b)" unfolding ab by simp
    then have "entries_ok K (concat (map snd a) @ members @ concat (map snd b))" using all by (simp only:)
    then show ?thesis unfolding entries_ok_append by blast
  qed
  have children: "hnode_ok K (Suc d) c" if c: "c \<in> set (map (HBucket \<circ> snd) ?G)" for c
  proof -
    obtain f members where "(f, members) \<in> set ?G" "c = HBucket members" using c by auto
    then show ?thesis using sub g(2) ok(3) by (simp del: set_sort) blast
  qed
  have "map hentries (map (HBucket \<circ> snd) ?G) = map snd ?G" by simp
  moreover have "d < HAMT_MAX_DEPTH" using ok(3) by simp
  then have "hnode_ok K d (HBranch (split_bitmap d es) (map (HBucket \<circ> snd) ?G))"
    unfolding hnode_ok.simps using inf ne by (intro conjI ballI children) (simp_all only: list.map_disc_iff not_False_eq_True)
  ultimately show ?thesis using perm by (simp only: simp_thms)
qed

lemma children_entries_ok: "\<forall>c \<in> set cs. hnode_ok K d c \<Longrightarrow> trie_key_contract K \<Longrightarrow> c \<in> set cs \<Longrightarrow> entries_ok K (hentries c)"
  using hentries_ok by blast

lemma others_around:
  assumes K: "trie_key_contract K" and ok: "hnode_ok K d (HBranch bm cs)" and cs: "cs = lows @ mid @ highs"
    and lows: "in_frags d (frags_below bm (fragment (trie_hash K key) d)) lows"
    and highs: "in_frags d (frags_above bm (fragment (trie_hash K key) d)) highs"
  shows "others K key (hentries (HBranch bm cs)) = concat (map hentries lows) @ others K key (concat (map hentries mid)) @ concat (map hentries highs)"
proof -
  have all: "entries_ok K (concat (map hentries lows) @ concat (map hentries mid) @ concat (map hentries highs))"
    using hentries_ok [OF ok K] by (simp add: cs)
  then have "entries_ok K (concat (map hentries lows))" "entries_ok K (concat (map hentries highs))" by (simp_all only: entries_ok_append)
  then have "others K key (concat (map hentries lows)) = concat (map hentries lows)" "others K key (concat (map hentries highs)) = concat (map hentries highs)"
    using others_other_fragment [OF K] around_off(1) [OF lows] around_off(2) [OF highs] by blast+
  then show ?thesis by (simp add: cs)
qed

lemma hamt_insert_at_correct:
  assumes K: "trie_key_contract K" and e: "he_hash entry = trie_hash K (he_key entry)"
  shows "hnode_ok K d n \<Longrightarrow> \<exists>n'. hamt_insert_at K n entry d = Some n' \<and> hnode_ok K d n' \<and>
    mset (hentries n') = add_mset entry (mset (others K (he_key entry) (hentries n)))"
proof (induction n arbitrary: d)
  case (HBucket es)
  then have ok: "d < HAMT_MAX_DEPTH" "entries_ok K es" by simp_all
  note rep = replace_in_bucket_correct [OF K e ok(2)]
  show ?case
  proof (cases "replace_in_bucket K entry es")
    case (Some es')
    then show ?thesis using rep ok(1) by simp
  next
    case None
    then have off: "others K (he_key entry) es = es" using rep by simp
    have "\<not> trie_eq K (he_key x) (he_key entry)" if "x \<in> set es" for x
      using off that by (metis (no_types, lifting) filter_id_conv others_def)
    then have more: "entries_ok K (es @ [entry])" using ok(2) e by (auto simp: entries_ok_def sorted_wrt_append)
    show ?thesis
    proof (cases "(\<forall>e \<in> set es. he_hash e = he_hash entry) \<or> HAMT_MAX_DEPTH \<le> d + 1")
      case True
      then show ?thesis using None more ok(1) off by simp
    next
      case False
      have "Suc d < HAMT_MAX_DEPTH" using False by simp
      note split_ok = split_bucket_ok [OF K more _ this]
      have "hamt_insert_at K (HBucket es) entry d = Some (HBranch (split_bitmap d (es @ [entry])) (map (HBucket \<circ> snd) (sort_key fst (split_groups d (es @ [entry])))))"
        using None False by simp
      then show ?thesis using split_ok off by auto
    qed
  qed
next
  case (HBranch bm cs)
  let ?f = "fragment (he_hash entry) d" and ?key = "he_key entry"
  have ok: "d < HAMT_MAX_DEPTH" "in_frags d (frags bm) cs" "\<forall>c \<in> set cs. hnode_ok K (Suc d) c" using HBranch.prems by simp_all
  obtain lows highs where sp: "hamt_rank bm ?f = length lows" "in_frags d (frags_below bm ?f) lows" "in_frags d (frags_above bm ?f) highs"
      "bit bm ?f \<Longrightarrow> \<exists>c. cs = lows @ c # highs \<and> (\<forall>e \<in> set (hentries c). fragment (he_hash e) d = ?f)"
      "\<not> bit bm ?f \<Longrightarrow> cs = lows @ highs"
    using hamt_branch_split [OF ok(2) fragment_less] by metis
  note around = others_around [OF K HBranch.prems, of lows _ highs ?key, folded e, OF _ sp(2,3)]
  show ?case
  proof (cases "bit bm ?f")
    case True
    then obtain c where c: "cs = lows @ c # highs" "\<forall>e \<in> set (hentries c). fragment (he_hash e) d = ?f" using sp(4) by blast
    obtain c' where c': "hamt_insert_at K c entry (Suc d) = Some c'" "hnode_ok K (Suc d) c'"
        "mset (hentries c') = add_mset entry (mset (others K ?key (hentries c)))" using HBranch.IH [of c "Suc d"] ok(3) c(1) by auto
    have "set (hentries c') = insert entry (set (others K ?key (hentries c)))" using c'(3) by (metis set_mset_add_mset_insert set_mset_mset)
    then have "\<forall>e \<in> set (hentries c'). fragment (he_hash e) d = ?f" using c(2) by (auto simp: others_def)
    then have "in_frags d (frags (bm OR push_bit ?f 1)) (lows @ c' # highs)"
      unfolding frags_set [OF fragment_less] by (rule in_frags_around [OF sp(2,3)])
    then have "hnode_ok K d (HBranch (bm OR push_bit ?f 1) (lows @ c' # highs))" using ok c(1) c'(2) by auto
    moreover have "hamt_insert_at K (HBranch bm cs) entry d = Some (HBranch (bm OR push_bit ?f 1) (lows @ c' # highs))"
      using ok(1) sp(1) c(1) c'(1) True by (simp add: frag_test del: push_bit_of_1)
    moreover have "mset (hentries (HBranch (bm OR push_bit ?f 1) (lows @ c' # highs))) = add_mset entry (mset (others K ?key (hentries (HBranch bm cs))))"
      using around [of "[c]"] c(1) c'(3) by simp
    ultimately show ?thesis by blast
  next
    case False
    then have cs: "cs = lows @ highs" using sp(5) by blast
    have "in_frags d (frags (bm OR push_bit ?f 1)) (lows @ HBucket [entry] # highs)"
      unfolding frags_set [OF fragment_less] by (rule in_frags_around [OF sp(2,3)]) simp
    moreover have "Suc d < HAMT_MAX_DEPTH"
    proof -
      obtain c where c: "c \<in> set cs" using HBranch.prems by (cases cs) auto
      then have "hnode_ok K (Suc d) c" using ok(3) by blast
      then show ?thesis by (cases c) simp_all
    qed
    ultimately have "hnode_ok K d (HBranch (bm OR push_bit ?f 1) (lows @ HBucket [entry] # highs))"
      using ok cs e by (auto simp: entries_ok_def)
    moreover have "hamt_insert_at K (HBranch bm cs) entry d = Some (HBranch (bm OR push_bit ?f 1) (lows @ HBucket [entry] # highs))"
      using ok(1) sp(1) cs False by (simp add: frag_test del: push_bit_of_1)
    moreover have "mset (hentries (HBranch (bm OR push_bit ?f 1) (lows @ HBucket [entry] # highs))) = add_mset entry (mset (others K ?key (hentries (HBranch bm cs))))"
      using around [of "[]"] cs by simp
    ultimately show ?thesis by blast
  qed
qed

section \<open>Removal\<close>

definition outcome_ok :: "'k trie_key \<Rightarrow> nat \<Rightarrow> ('k, 'v) hamt_entry list \<Rightarrow> ('k, 'v) hamt_node option \<Rightarrow> bool" where
  "outcome_ok K d es r = (case r of None \<Rightarrow> es = [] | Some n \<Rightarrow> hnode_ok K d n \<and> mset (hentries n) = mset es)"

lemma outcome_ok_simps [simp]: "outcome_ok K d es None \<longleftrightarrow> es = []" "outcome_ok K d es (Some n) \<longleftrightarrow> hnode_ok K d n \<and> mset (hentries n) = mset es"
  by (simp_all add: outcome_ok_def)

lemma collapse_branch_ok:
  assumes "d < HAMT_MAX_DEPTH" "in_frags d (frags bm) cs" "\<forall>c \<in> set cs. hnode_ok K (Suc d) c"
  shows "outcome_ok K d (concat (map hentries cs)) (if cs = [] then None else if length cs = 1 \<and> is_HBucket (cs ! 0) then Some (cs ! 0) else Some (HBranch bm cs))"
proof (cases "length cs = 1 \<and> is_HBucket (cs ! 0)")
  case True
  then obtain es where "cs = [HBucket es]" by (cases cs; cases "cs ! 0") auto
  then show ?thesis using assms by simp
qed (use assms in auto)

lemma remove_position:
  assumes K: "trie_key_contract K" and ok: "entries_ok K es"
  shows "case position (entry_matches K (trie_hash K key) key) es of
      None \<Rightarrow> (\<forall>e \<in> set es. \<not> trie_eq K (he_key e) key)
    | Some i \<Rightarrow> (\<exists>e \<in> set es. trie_eq K (he_key e) key) \<and> take i es @ drop (i + 1) es = others K key es"
proof (cases "position (entry_matches K (trie_hash K key) key) es")
  case None
  then have "\<forall>e \<in> set es. \<not> entry_matches K (trie_hash K key) key e" by (simp add: position_None_iff)
  then show ?thesis using None matches_eq [OF K ok] by simp
next
  case (Some i)
  then have i: "i < length es" "entry_matches K (trie_hash K key) key (es ! i)" using position_Some by blast+
  then have eq: "trie_eq K (he_key (es ! i)) key" using matches_eq [OF K ok, of "es ! i" key] by simp
  have es: "es = take i es @ (es ! i) # drop (Suc i) es" using i(1) by (rule id_take_nth_drop)
  have apart: "\<forall>a \<in> set (take i es). \<forall>b \<in> set ((es ! i) # drop (Suc i) es). \<not> trie_eq K (he_key a) (he_key b)"
      "\<forall>b \<in> set (drop (Suc i) es). \<not> trie_eq K (he_key (es ! i)) (he_key b)"
    using ok es entries_ok_append [of K "take i es" "(es ! i) # drop (Suc i) es"] entries_ok_append [of K "[es ! i]" "drop (Suc i) es"] by auto
  have lo: "\<not> trie_eq K (he_key a) key" if "a \<in> set (take i es)" for a
    using apart(1) that eq trie_key_laws(2,3) [OF K] by (meson list.set_intros(1))
  have hi: "\<not> trie_eq K (he_key b) key" if "b \<in> set (drop (Suc i) es)" for b
    using apart(2) that eq trie_key_laws(2,3) [OF K] by blast
  have "others K key es = others K key (take i es) @ others K key ((es ! i) # drop (Suc i) es)" by (subst es) (simp only: others_simps(2))
  also have "\<dots> = take i es @ drop (i + 1) es" using others_off [OF lo] others_off [OF hi] eq by simp
  finally show ?thesis using Some i(1) eq by auto
qed

lemma hamt_remove_at_correct:
  assumes K: "trie_key_contract K"
  shows "hnode_ok K d n \<Longrightarrow>
    (if \<exists>e \<in> set (hentries n). trie_eq K (he_key e) key
     then \<exists>r. hamt_remove_at K n key d = Some (HRemoved r) \<and> outcome_ok K d (others K key (hentries n)) r
     else hamt_remove_at K n key d = Some HMissing)"
proof (induction n arbitrary: d)
  case (HBucket es)
  then have ok: "d < HAMT_MAX_DEPTH" "entries_ok K es" by simp_all
  note pos = remove_position [OF K ok(2), of key]
  show ?case
  proof (cases "position (entry_matches K (trie_hash K key) key) es")
    case (Some i)
    then have rest: "take i es @ drop (i + 1) es = others K key es" and mem: "\<exists>e \<in> set es. trie_eq K (he_key e) key" using pos by simp_all
    have "entries_ok K (others K key es)" using ok(2) by (auto simp: entries_ok_def others_def sorted_wrt_filter)
    then show ?thesis using Some mem ok(1) by (auto simp: Let_def rest [unfolded Suc_eq_plus1 [symmetric]])
  qed (use pos in simp)
next
  case (HBranch bm cs)
  let ?f = "fragment (trie_hash K key) d"
  have ok: "d < HAMT_MAX_DEPTH" "in_frags d (frags bm) cs" "\<forall>c \<in> set cs. hnode_ok K (Suc d) c" using HBranch.prems by simp_all
  obtain lows highs where sp: "hamt_rank bm ?f = length lows" "in_frags d (frags_below bm ?f) lows" "in_frags d (frags_above bm ?f) highs"
      "bit bm ?f \<Longrightarrow> \<exists>c. cs = lows @ c # highs \<and> (\<forall>e \<in> set (hentries c). fragment (he_hash e) d = ?f)"
      "\<not> bit bm ?f \<Longrightarrow> cs = lows @ highs"
    using hamt_branch_split [OF ok(2) fragment_less] by metis
  note around = others_around [OF K HBranch.prems _ sp(2,3)]
  have all: "entries_ok K (hentries (HBranch bm cs))" by (rule hentries_ok [OF HBranch.prems K])
  have off: "\<not> trie_eq K (he_key e) key" if "e \<in> set (concat (map hentries lows)) \<union> set (concat (map hentries highs))" "cs = lows @ mid @ highs" for e mid
  proof -
    have "he_hash e = trie_hash K (he_key e)" using all that by (auto simp: entries_ok_def)
    moreover have "fragment (he_hash e) d \<noteq> ?f" using that(1) around_off(1) [OF sp(2)] around_off(2) [OF sp(3)] by blast
    ultimately show ?thesis using trie_key_laws(4) [OF K] by metis
  qed
  show ?case
  proof (cases "bit bm ?f")
    case False
    then have cs: "cs = lows @ [] @ highs" using sp(5) by simp
    then have "\<not> (\<exists>e \<in> set (hentries (HBranch bm cs)). trie_eq K (he_key e) key)" using off [OF _ cs] by auto
    then show ?thesis using ok(1) False by (simp add: frag_test del: push_bit_of_1)
  next
    case True
    then obtain c where c: "cs = lows @ [c] @ highs" "\<forall>e \<in> set (hentries c). fragment (he_hash e) d = ?f" using sp(4) by auto
    have keys: "(\<exists>e \<in> set (hentries (HBranch bm cs)). trie_eq K (he_key e) key) \<longleftrightarrow> (\<exists>e \<in> set (hentries c). trie_eq K (he_key e) key)"
      using off [OF _ c(1)] unfolding c(1) by auto
    have IH: "if \<exists>e \<in> set (hentries c). trie_eq K (he_key e) key
      then \<exists>r. hamt_remove_at K c key (Suc d) = Some (HRemoved r) \<and> outcome_ok K (Suc d) (others K key (hentries c)) r
      else hamt_remove_at K c key (Suc d) = Some HMissing" using HBranch.IH [of c "Suc d"] ok(3) c(1) by simp
    have unfold: "hamt_remove_at K (HBranch bm cs) key d = (case hamt_remove_at K c key (Suc d) of
        None \<Rightarrow> None
      | Some HMissing \<Rightarrow> Some HMissing
      | Some (HRemoved replacement) \<Rightarrow>
          let (bm', cs') = (case replacement of Some c' \<Rightarrow> (bm, lows @ c' # highs) | None \<Rightarrow> (bm AND NOT (push_bit ?f 1), lows @ highs))
          in Some (HRemoved (if cs' = [] then None else if length cs' = 1 \<and> is_HBucket (cs' ! 0) then Some (cs' ! 0) else Some (HBranch bm' cs'))))"
      using ok(1) sp(1) c(1) True by (simp add: frag_test Let_def split: option.split remove_outcome.split del: push_bit_of_1)
    show ?thesis
    proof (cases "\<exists>e \<in> set (hentries c). trie_eq K (he_key e) key")
      case False
      then show ?thesis using IH keys unfold by simp
    next
      case True
      then obtain r where r: "hamt_remove_at K c key (Suc d) = Some (HRemoved r)" "outcome_ok K (Suc d) (others K key (hentries c)) r" using IH by auto
      show ?thesis
      proof (cases r)
        case None
        let ?bm = "bm AND NOT (push_bit ?f 1)"
        have "in_frags d (frags ?bm) (lows @ highs)"
          unfolding frags_clear [OF fragment_less] using sp(2,3) in_frags_length [OF sp(2)] by (simp add: in_frags_append)
        then have "outcome_ok K d (concat (map hentries (lows @ highs)))
            (if lows @ highs = [] then None else if length (lows @ highs) = 1 \<and> is_HBucket ((lows @ highs) ! 0) then Some ((lows @ highs) ! 0) else Some (HBranch ?bm (lows @ highs)))"
            (is "outcome_ok K d _ ?r")
          by (rule collapse_branch_ok [OF ok(1)]) (use ok(3) c(1) in auto)
        moreover have "others K key (hentries (HBranch bm cs)) = concat (map hentries (lows @ highs))"
          using around [OF c(1)] r(2) None by simp
        ultimately have "outcome_ok K d (others K key (hentries (HBranch bm cs))) ?r" by (simp only:)
        then obtain r' where "?r = r'" "outcome_ok K d (others K key (hentries (HBranch bm cs))) r'" by blast
        then show ?thesis using True keys unfolding unfold r(1) None by auto
      next
        case (Some c')
        have c': "hnode_ok K (Suc d) c'" "mset (hentries c') = mset (others K key (hentries c))" using r(2) Some by simp_all
        have "set (hentries c') = set (others K key (hentries c))" using c'(2) by (rule mset_eq_setD)
        then have "\<forall>e \<in> set (hentries c'). fragment (he_hash e) d = ?f" using c(2) by (auto simp: others_def)
        then have "in_frags d (frags bm) (lows @ c' # highs)"
          using in_frags_around [OF sp(2,3), of c'] frags_split [OF fragment_less, of bm "trie_hash K key" d] \<open>bit bm ?f\<close> by simp
        then have "outcome_ok K d (concat (map hentries (lows @ c' # highs)))
            (if lows @ c' # highs = [] then None else if length (lows @ c' # highs) = 1 \<and> is_HBucket ((lows @ c' # highs) ! 0) then Some ((lows @ c' # highs) ! 0)
             else Some (HBranch bm (lows @ c' # highs)))"
          by (rule collapse_branch_ok [OF ok(1)]) (use ok(3) c(1) c'(1) in auto)
        moreover have "mset (others K key (hentries (HBranch bm cs))) = mset (concat (map hentries (lows @ c' # highs)))"
          using around [OF c(1)] c'(2) by simp
        ultimately obtain r' where "(if lows @ c' # highs = [] then None else if length (lows @ c' # highs) = 1 \<and> is_HBucket ((lows @ c' # highs) ! 0) then Some ((lows @ c' # highs) ! 0)
             else Some (HBranch bm (lows @ c' # highs))) = r'" "outcome_ok K d (others K key (hentries (HBranch bm cs))) r'" by (auto split: if_splits)
        then show ?thesis using True keys unfolding unfold r(1) Some by auto
      qed
    qed
  qed
qed

section \<open>The map\<close>

definition hamt_list :: "('k, 'v) hamt \<Rightarrow> ('k, 'v) hamt_entry list" where
  "hamt_list m = (case hm_root m of None \<Rightarrow> [] | Some n \<Rightarrow> hentries n)"

definition with_key :: "'k trie_key \<Rightarrow> 'k \<Rightarrow> ('k, 'v) hamt_entry \<Rightarrow> bool" where
  "with_key K key e \<longleftrightarrow> trie_eq K (he_key e) key"

definition hamt_map :: "'k trie_key \<Rightarrow> ('k, 'v) hamt \<Rightarrow> 'k \<rightharpoonup> 'v" where
  "hamt_map K m key = map_option he_value (find (with_key K key) (hamt_list m))"

definition hamt_ok :: "'k trie_key \<Rightarrow> ('k, 'v) hamt \<Rightarrow> bool" where
  "hamt_ok K m \<longleftrightarrow> (case hm_root m of None \<Rightarrow> True | Some n \<Rightarrow> hnode_ok K 0 n) \<and> hm_len m = length (hamt_list m)"

lemma hamt_list_ok: "trie_key_contract K \<Longrightarrow> hamt_ok K m \<Longrightarrow> entries_ok K (hamt_list m)"
  by (auto simp: hamt_ok_def hamt_list_def entries_ok_def [of K "[]"] hentries_ok split: option.splits)

lemma find_with_key:
  assumes K: "trie_key_contract K" and ok: "entries_ok K es" and e: "e \<in> set es" "with_key K key e"
  shows "find (with_key K key) es = Some e"
proof -
  obtain a b where ab: "es = a @ e # b" using split_list [OF e(1)] by blast
  have "\<not> with_key K key x" if "x \<in> set a" for x
  proof
    assume "with_key K key x"
    then have "trie_eq K (he_key x) (he_key e)" using e(2) trie_key_laws(2,3) [OF K] by (metis with_key_def)
    then show False using ok that by (auto simp: ab entries_ok_append)
  qed
  then show ?thesis using e(2) by (simp add: ab find_append find_off)
qed

lemma find_with_key_iff:
  assumes K: "trie_key_contract K" and ok: "entries_ok K es"
  shows "find (with_key K key) es = Some e \<longleftrightarrow> e \<in> set es \<and> with_key K key e"
  using find_with_key [OF assms] by (auto simp: find_Some_iff)

lemma find_permuted:
  assumes K: "trie_key_contract K" and ok: "entries_ok K es" and perm: "mset es = mset es'"
  shows "find (with_key K key) es = find (with_key K key) es'"
proof -
  have "set es = set es'" by (rule mset_eq_setD [OF perm])
  then have "find (with_key K key) es = Some e \<longleftrightarrow> find (with_key K key) es' = Some e" for e
    using find_with_key_iff [OF K ok] find_with_key_iff [OF K entries_ok_permuted [OF perm K ok]] by simp
  then show ?thesis by (metis option.exhaust)
qed

lemma find_others: "trie_key_contract K \<Longrightarrow> find (with_key K k) (others K key es) = (if trie_eq K key k then None else find (with_key K k) es)"
proof (induction es)
  case (Cons e es)
  have wk: "with_key K k e \<longleftrightarrow> trie_eq K (he_key e) k" by (simp add: with_key_def)
  have same: "trie_eq K (he_key e) key \<Longrightarrow> trie_eq K (he_key e) k \<longleftrightarrow> trie_eq K key k" "trie_eq K (he_key e) k \<Longrightarrow> trie_eq K key k \<Longrightarrow> trie_eq K (he_key e) key"
    using trie_key_laws(2,3) [OF Cons.prems] by blast+
  show ?case using Cons.IH [OF Cons.prems] same by (cases "trie_eq K (he_key e) key"; cases "trie_eq K (he_key e) k") (auto simp: wk)
qed simp

lemma find_matches: "trie_key_contract K \<Longrightarrow> entries_ok K es \<Longrightarrow> find (entry_matches K (trie_hash K key) key) es = find (with_key K key) es"
proof (induction es)
  case (Cons e es)
  have "entry_matches K (trie_hash K key) key e \<longleftrightarrow> with_key K key e" using matches_eq [OF Cons.prems, of e key] by (simp add: with_key_def)
  then show ?case using Cons by (simp add: entries_ok_def)
qed simp

lemma hamt_get_map: "trie_key_contract K \<Longrightarrow> hamt_ok K m \<Longrightarrow> hamt_get K m key = Some (hamt_map K m key)"
proof (cases "hm_root m")
  case (Some n)
  assume K: "trie_key_contract K" and ok: "hamt_ok K m"
  then have n: "hnode_ok K 0 n" using Some by (simp add: hamt_ok_def)
  show ?thesis using find_matches [OF K hentries_ok [OF n K]] Some hamt_get_at_correct [OF n]
    by (simp add: hamt_get_def hamt_map_def hamt_list_def)
qed (simp add: hamt_get_def hamt_map_def hamt_list_def)

lemma others_length:
  "trie_key_contract K \<Longrightarrow> entries_ok K es \<Longrightarrow> length (others K key es) = (if find (with_key K key) es = None then length es else length es - 1)"
proof (induction es)
  case (Cons e es)
  have ok: "entries_ok K es" "\<forall>y \<in> set es. \<not> trie_eq K (he_key e) (he_key y)" using Cons.prems by (auto simp: entries_ok_def)
  show ?case
  proof (cases "trie_eq K (he_key e) key")
    case True
    have "\<not> trie_eq K (he_key y) key" if "y \<in> set es" for y
      using ok(2) that True trie_key_laws(2,3) [OF Cons.prems(1)] by blast
    then show ?thesis using True others_off [of es K key] by (simp add: with_key_def)
  next
    case False
    then show ?thesis using Cons.IH [OF Cons.prems(1) ok(1)] by (cases es) (auto simp: with_key_def split: if_splits)
  qed
qed simp

lemma hamt_insert_map:
  assumes K: "trie_key_contract K" and ok: "hamt_ok K m"
  shows "\<exists>m'. hamt_insert K m key v = Some m' \<and> hamt_ok K m' \<and>
    hamt_map K m' = (\<lambda>k. if trie_eq K key k then Some v else hamt_map K m k)"
proof -
  let ?entry = "HEntry (trie_hash K key) key v"
  obtain n where n: "(case hm_root m of None \<Rightarrow> Some (HBucket [?entry]) | Some n \<Rightarrow> hamt_insert_at K n ?entry 0) = Some n"
      "hnode_ok K 0 n" "mset (hentries n) = add_mset ?entry (mset (others K key (hamt_list m)))"
  proof (cases "hm_root m")
    case None
    then show thesis using that by (simp add: hamt_list_def entries_ok_def HAMT_MAX_DEPTH_def)
  next
    case (Some n)
    then have "hnode_ok K 0 n" using ok by (simp add: hamt_ok_def)
    from hamt_insert_at_correct [OF K _ this, of ?entry] show thesis using that Some by (auto simp: hamt_list_def)
  qed
  define m' where "m' = \<lparr>hm_root = Some n, hm_len = (if hamt_map K m key = None then hm_len m + 1 else hm_len m)\<rparr>"
  have list: "hamt_list m' = hentries n" by (simp add: m'_def hamt_list_def)
  have old: "entries_ok K (hamt_list m)" "hm_len m = length (hamt_list m)" using hamt_list_ok [OF K ok] ok by (simp_all add: hamt_ok_def)
  have "length (hentries n) = Suc (length (others K key (hamt_list m)))" using n(3) by (metis size_add_mset size_mset)
  moreover have "hamt_list m \<noteq> []" if "find (with_key K key) (hamt_list m) \<noteq> None" using that by auto
  ultimately have "hm_len m' = length (hentries n)"
    using others_length [OF K old(1)] old(2) by (auto simp: m'_def hamt_map_def)
  then have "hamt_ok K m'" using n(2) list by (simp add: hamt_ok_def m'_def)
  moreover have "hamt_insert K m key v = Some m'" using n(1) hamt_get_map [OF K ok] by (simp add: hamt_insert_def m'_def Let_def)
  moreover have "hamt_map K m' k = (if trie_eq K key k then Some v else hamt_map K m k)" for k
  proof -
    have "find (with_key K k) (hentries n) = find (with_key K k) (?entry # others K key (hamt_list m))"
      by (rule find_permuted [OF K hentries_ok [OF n(2) K]]) (simp add: n(3))
    then show ?thesis by (simp add: hamt_map_def list find_others [OF K]) (simp add: with_key_def)
  qed
  ultimately show ?thesis by (intro exI [of _ m']) auto
qed

lemma hamt_remove_map:
  assumes K: "trie_key_contract K" and ok: "hamt_ok K m"
  shows "\<exists>m'. hamt_remove K m key = Some (hamt_map K m key \<noteq> None, m') \<and> hamt_ok K m' \<and>
    hamt_map K m' = (\<lambda>k. if trie_eq K key k then None else hamt_map K m k)"
proof -
  have old: "entries_ok K (hamt_list m)" "hm_len m = length (hamt_list m)" using hamt_list_ok [OF K ok] ok by (simp_all add: hamt_ok_def)
  have mem: "hamt_map K m key \<noteq> None \<longleftrightarrow> (\<exists>e \<in> set (hamt_list m). trie_eq K (he_key e) key)"
    by (auto simp: hamt_map_def find_None_iff with_key_def)
  show ?thesis
  proof (cases "hamt_map K m key = None")
    case True
    have "hamt_remove K m key = Some (False, m)"
    proof (cases "hm_root m")
      case (Some n)
      then have "hnode_ok K 0 n" "\<not> (\<exists>e \<in> set (hentries n). trie_eq K (he_key e) key)" using ok mem True by (auto simp: hamt_ok_def hamt_list_def)
      then show ?thesis using hamt_remove_at_correct [OF K, of 0 n key] Some by (simp add: hamt_remove_def)
    qed (simp add: hamt_remove_def)
    moreover have "hamt_map K m k = None" if "trie_eq K key k" for k
    proof -
      have "find (with_key K k) (hamt_list m) = find (with_key K k) (others K key (hamt_list m))"
        using others_off [of "hamt_list m" K key] mem True by auto
      then show ?thesis using that by (simp add: hamt_map_def find_others [OF K])
    qed
    ultimately show ?thesis using ok True by (intro exI [of _ m]) auto
  next
    case False
    then obtain n where root: "hm_root m = Some n" by (auto simp: hamt_map_def hamt_list_def split: option.splits)
    then have n: "hnode_ok K 0 n" "hamt_list m = hentries n" using ok by (simp_all add: hamt_ok_def hamt_list_def)
    then obtain r where r: "hamt_remove_at K n key 0 = Some (HRemoved r)" "outcome_ok K 0 (others K key (hamt_list m)) r"
      using hamt_remove_at_correct [OF K n(1), of key] False mem by auto
    define m' where "m' = \<lparr>hm_root = r, hm_len = hm_len m - 1\<rparr>"
    have perm: "mset (hamt_list m') = mset (others K key (hamt_list m))"
      using r(2) by (cases r) (auto simp: m'_def hamt_list_def)
    have ok': "entries_ok K (others K key (hamt_list m))" using old(1) by (auto simp: entries_ok_def others_def sorted_wrt_filter)
    have "length (hamt_list m') = length (others K key (hamt_list m))" using perm by (metis size_mset)
    moreover have "find (with_key K key) (hamt_list m) \<noteq> None" using False by (simp add: hamt_map_def)
    ultimately have "hm_len m' = length (hamt_list m')" using others_length [OF K old(1), of key] old(2) by (simp add: m'_def)
    then have "hamt_ok K m'" using r(2) by (cases r) (auto simp: hamt_ok_def m'_def)
    moreover have "hamt_remove K m key = Some (True, m')" using r(1) root by (simp add: hamt_remove_def m'_def)
    moreover have "hamt_map K m' k = (if trie_eq K key k then None else hamt_map K m k)" for k
    proof -
      have "find (with_key K k) (hamt_list m') = (if trie_eq K key k then None else find (with_key K k) (hamt_list m))"
        unfolding find_permuted [OF K ok' perm [symmetric], symmetric] by (rule find_others [OF K])
      then show ?thesis by (simp add: hamt_map_def)
    qed
    ultimately show ?thesis using False by (intro exI [of _ m']) auto
  qed
qed

lemma hamt_iter_entries:
  "hamt_iter stack = concat (map (\<lambda>frame. map (\<lambda>e. (he_key e, he_value e)) (case frame of NodeFrame n \<Rightarrow> hentries n | BucketFrame es i \<Rightarrow> drop i es)) stack)"
proof (induction stack rule: hamt_iter.induct)
  case (4 es i stack)
  then show ?case by (auto simp: Cons_nth_drop_Suc [symmetric])
qed (simp_all add: map_concat comp_def)

lemma hamt_entries_list: "hamt_entries m = map (\<lambda>e. (he_key e, he_value e)) (hamt_list m)"
  by (simp add: hamt_entries_def hamt_list_def hamt_iter_entries split: option.split)

lemma hamt_empty_map: "hamt_ok K hamt_empty" "hamt_map K hamt_empty = Map.empty"
  by (auto simp: hamt_ok_def hamt_empty_def hamt_map_def hamt_list_def)

section \<open>Owner sets\<close>

text \<open>\<^verbatim>\<open>splitmix\<close> and the set of owner ids, a trie without payload.\<close>

definition splitmix :: "u64 \<Rightarrow> u64" where
  "splitmix x = (let x = x + 0x9E3779B97F4A7C15;
     x = (x XOR drop_bit 30 x) * 0xBF58476D1CE4E5B9;
     x = (x XOR drop_bit 27 x) * 0x94D049BB133111EB
   in x XOR drop_bit 31 x)"

definition owner_key :: "u64 trie_key" where
  "owner_key = \<lparr>trie_hash = splitmix, trie_eq = (=)\<rparr>"

type_synonym owner_set = "(u64, unit) hamt"

definition owner_set_empty :: owner_set where
  "owner_set_empty = hamt_empty"

definition owner_set_insert :: "owner_set \<Rightarrow> u64 \<Rightarrow> owner_set option" where
  "owner_set_insert s owner = hamt_insert owner_key s owner ()"

definition owner_set_remove :: "owner_set \<Rightarrow> u64 \<Rightarrow> owner_set option" where
  "owner_set_remove s owner = map_option snd (hamt_remove owner_key s owner)"

definition owner_set_contains :: "owner_set \<Rightarrow> u64 \<Rightarrow> bool option" where
  "owner_set_contains s owner = map_option (\<lambda>found. found \<noteq> None) (hamt_get owner_key s owner)"

definition owner_set_len :: "owner_set \<Rightarrow> nat" where
  "owner_set_len s = hm_len s"

definition owner_set_is_empty :: "owner_set \<Rightarrow> bool" where
  "owner_set_is_empty s \<longleftrightarrow> hamt_is_empty s"

definition owner_set_iter :: "owner_set \<Rightarrow> u64 list" where
  "owner_set_iter s = map fst (hamt_entries s)"

lemma owner_key_contract: "trie_key_contract owner_key"
  by (auto simp: trie_key_contract_def owner_key_def intro: equivpI reflpI sympI transpI)

lemma owner_key_eq [simp]: "trie_eq owner_key = (=)"
  by (simp add: owner_key_def)

text \<open>Over exact keys the trie provides the contract of a persistent index.\<close>

interpretation owners: persistent_index "hamt_ok owner_key" "hamt_map owner_key" "hamt_get owner_key" "hamt_insert owner_key" "hamt_remove owner_key"
proof (unfold_locales, goal_cases)
  case (2 m k v)
  then show ?case using hamt_insert_map [OF owner_key_contract, of m k v] by (fastforce simp: fun_eq_iff)
next
  case (3 m k)
  then show ?case using hamt_remove_map [OF owner_key_contract, of m k] by (fastforce simp: fun_eq_iff)
qed (simp add: hamt_get_map owner_key_contract)

definition owner_set_ok :: "owner_set \<Rightarrow> bool" where
  "owner_set_ok s \<longleftrightarrow> hamt_ok owner_key s"

definition owner_ids :: "owner_set \<Rightarrow> u64 set" where
  "owner_ids s = dom (hamt_map owner_key s)"

lemma owner_set_empty_ok [simp]: "owner_set_ok owner_set_empty" "owner_ids owner_set_empty = {}"
  by (simp_all add: owner_set_ok_def owner_ids_def owner_set_empty_def hamt_empty_map)

lemma owner_set_insert_ids: "owner_set_ok s \<Longrightarrow> \<exists>s'. owner_set_insert s owner = Some s' \<and> owner_set_ok s' \<and> owner_ids s' = insert owner (owner_ids s)"
  using owners.insert_abs [of s owner "()"] by (auto simp: owner_set_ok_def owner_ids_def owner_set_insert_def)

lemma owner_set_remove_ids: "owner_set_ok s \<Longrightarrow> \<exists>s'. owner_set_remove s owner = Some s' \<and> owner_set_ok s' \<and> owner_ids s' = owner_ids s - {owner}"
  using owners.remove_abs [of s owner] by (auto simp: owner_set_ok_def owner_ids_def owner_set_remove_def)

lemma owner_set_contains_ids: "owner_set_ok s \<Longrightarrow> owner_set_contains s owner = Some (owner \<in> owner_ids s)"
  using owners.lookup_abs [of s owner] by (auto simp: owner_set_ok_def owner_ids_def owner_set_contains_def)

lemma distinct_iff_pairs: "distinct (map f xs) \<longleftrightarrow> sorted_wrt (\<lambda>a b. f a \<noteq> f b) xs"
  by (induction xs) auto

lemma owner_set_iter_ids:
  assumes "owner_set_ok s"
  shows "set (owner_set_iter s) = owner_ids s \<and> distinct (owner_set_iter s) \<and> owner_set_len s = card (owner_ids s)"
proof -
  have es: "entries_ok owner_key (hamt_list s)" "hm_len s = length (hamt_list s)"
    using assms hamt_list_ok [OF owner_key_contract] by (auto simp: owner_set_ok_def hamt_ok_def)
  have iter: "owner_set_iter s = map he_key (hamt_list s)" by (simp add: owner_set_iter_def hamt_entries_list comp_def)
  have "sorted_wrt (\<lambda>a b. he_key a \<noteq> he_key b) (hamt_list s)" using es(1) by (simp add: entries_ok_def)
  then have "distinct (map he_key (hamt_list s))" by (simp only: distinct_iff_pairs)
  moreover have "owner \<in> set (map he_key (hamt_list s)) \<longleftrightarrow> owner \<in> owner_ids s" for owner
    by (auto simp: owner_ids_def hamt_map_def domIff find_None_iff with_key_def)
  then have "set (map he_key (hamt_list s)) = owner_ids s" by blast
  ultimately show ?thesis using es(2) iter by (metis distinct_card length_map owner_set_len_def)
qed

lemma owner_set_is_empty_ids: "owner_set_ok s \<Longrightarrow> owner_set_is_empty s \<longleftrightarrow> owner_ids s = {}"
  using owner_set_iter_ids [of s] by (auto simp: owner_set_is_empty_def hamt_is_empty_def owner_set_len_def owner_set_iter_def)

end
