(* ===== verification/Index_Maps.thy ===== *)
theory Index_Maps
  imports Prelude
begin

text \<open>
  The secondary indexes of the fact store (\<^verbatim>\<open>src/reactive/store.rs\<close>): a \<^verbatim>\<open>BTreeMap\<close> as a list sorted by
  key, a hash map to vectors of slot slot_indexes, and a hash map to such sorted maps. Each update is
  characterised by the relation that the index stands for.
\<close>

section \<open>Sorted maps\<close>

type_synonym ('a, 'b) btree = "('a \<times> 'b) list"

fun btree_insert :: "'a::linorder \<Rightarrow> 'b \<Rightarrow> ('a, 'b) btree \<Rightarrow> ('a, 'b) btree" where
  "btree_insert k v [] = [(k, v)]"
| "btree_insert k v ((a, b) # xs) = (if k < a then (k, v) # (a, b) # xs else if k = a then (k, v) # xs else (a, b) # btree_insert k v xs)"

definition btree_remove :: "'a \<Rightarrow> ('a, 'b) btree \<Rightarrow> ('a, 'b) btree" where
  "btree_remove k xs = filter (\<lambda>(a, b). a \<noteq> k) xs"

abbreviation btree_sorted :: "('a::linorder, 'b) btree \<Rightarrow> bool" where
  "btree_sorted xs \<equiv> sorted_wrt (<) (map fst xs)"

lemma btree_insert_set: "btree_sorted xs \<Longrightarrow> set (btree_insert k v xs) = insert (k, v) {x \<in> set xs. fst x \<noteq> k}"
  by (induction xs rule: btree_insert.induct) auto

lemma btree_insert_sorted: "btree_sorted xs \<Longrightarrow> btree_sorted (btree_insert k v xs)"
  by (induction xs rule: btree_insert.induct) (auto simp: btree_insert_set)

lemma btree_remove_set [simp]: "set (btree_remove k xs) = {x \<in> set xs. fst x \<noteq> k}"
  by (auto simp: btree_remove_def)

lemma btree_remove_sorted: "btree_sorted xs \<Longrightarrow> btree_sorted (btree_remove k xs)"
  by (induction xs) (auto simp: btree_remove_def)

section \<open>Hash maps to sorted maps\<close>

type_synonym 'a multi_index = "'a \<rightharpoonup> (nat, nat) btree"

definition multi_insert :: "'a \<Rightarrow> nat \<Rightarrow> nat \<Rightarrow> 'a multi_index \<Rightarrow> 'a multi_index" where
  "multi_insert v ord i m = m(v \<mapsto> btree_insert ord i (case m v of None \<Rightarrow> [] | Some b \<Rightarrow> b))"

definition multi_remove :: "'a \<Rightarrow> nat \<Rightarrow> 'a multi_index \<Rightarrow> 'a multi_index" where
  "multi_remove v ord m = (case m v of None \<Rightarrow> m | Some b \<Rightarrow> m(v \<mapsto> btree_remove ord b))"

definition multi_rel :: "'a multi_index \<Rightarrow> ('a \<times> nat \<times> nat) set" where
  "multi_rel m = {(v, ord, i). \<exists>b. m v = Some b \<and> (ord, i) \<in> set b}"

definition multi_sorted :: "'a multi_index \<Rightarrow> bool" where
  "multi_sorted m \<longleftrightarrow> (\<forall>v b. m v = Some b \<longrightarrow> btree_sorted b)"

lemma multi_insert_sorted: "multi_sorted m \<Longrightarrow> multi_sorted (multi_insert v ord i m)"
  by (auto simp: multi_sorted_def multi_insert_def btree_insert_sorted split: option.splits)

lemma multi_insert_rel: "multi_sorted m \<Longrightarrow> multi_rel (multi_insert v ord i m) = insert (v, ord, i) {x \<in> multi_rel m. \<not> (fst x = v \<and> fst (snd x) = ord)}"
  by (auto simp: multi_sorted_def multi_insert_def multi_rel_def btree_insert_set split: option.splits if_splits)

lemma multi_remove_sorted: "multi_sorted m \<Longrightarrow> multi_sorted (multi_remove v ord m)"
  by (auto simp: multi_sorted_def multi_remove_def btree_remove_sorted split: option.splits)

lemma multi_remove_rel: "multi_rel (multi_remove v ord m) = {x \<in> multi_rel m. \<not> (fst x = v \<and> fst (snd x) = ord)}"
  by (auto simp: multi_remove_def multi_rel_def split: option.splits if_splits)

lemma multi_insert_all:
  "multi_sorted m \<Longrightarrow> multi_sorted (fold (\<lambda>w. multi_insert w ord i) ws m) \<and>
   multi_rel (fold (\<lambda>w. multi_insert w ord i) ws m) = {(w, ord, i) | w. w \<in> set ws} \<union> {x \<in> multi_rel m. \<not> (fst x \<in> set ws \<and> fst (snd x) = ord)}"
proof (induction ws arbitrary: m)
  case (Cons w ws)
  note IH = Cons.IH [OF multi_insert_sorted [OF Cons.prems, of w ord i]]
  show ?case
  proof (rule conjI)
    show "multi_rel (fold (\<lambda>w. multi_insert w ord i) (w # ws) m) = {(v, ord, i) | v. v \<in> set (w # ws)} \<union> {x \<in> multi_rel m. \<not> (fst x \<in> set (w # ws) \<and> fst (snd x) = ord)}"
      unfolding fold_simps o_apply conjunct2 [OF IH] multi_insert_rel [OF Cons.prems] by force
  qed (use IH in simp)
qed auto

lemma multi_remove_all:
  "multi_sorted m \<Longrightarrow> multi_sorted (fold (\<lambda>w. multi_remove w ord) ws m) \<and>
   multi_rel (fold (\<lambda>w. multi_remove w ord) ws m) = {x \<in> multi_rel m. \<not> (fst x \<in> set ws \<and> fst (snd x) = ord)}"
proof (induction ws arbitrary: m)
  case (Cons w ws)
  then show ?case using Cons.IH [OF multi_remove_sorted [OF Cons.prems, of w ord]] by (auto simp: multi_remove_rel)
qed auto

section \<open>Hash maps to vectors\<close>

type_synonym 'h buckets = "'h \<rightharpoonup> nat list"

definition bucket_push :: "'h \<Rightarrow> nat \<Rightarrow> 'h buckets \<Rightarrow> 'h buckets" where
  "bucket_push h i m = m(h \<mapsto> (case m h of None \<Rightarrow> [] | Some b \<Rightarrow> b) @ [i])"

definition bucket_drop :: "'h \<Rightarrow> nat \<Rightarrow> 'h buckets \<Rightarrow> 'h buckets" where
  "bucket_drop h i m = (case m h of None \<Rightarrow> m
     | Some b \<Rightarrow> let b' = filter (\<lambda>j. j \<noteq> i) b in m(h := if b' = [] then None else Some b'))"

definition bucket_rel :: "'h buckets \<Rightarrow> ('h \<times> nat) set" where
  "bucket_rel m = {(h, i). \<exists>b. m h = Some b \<and> i \<in> set b}"

definition buckets_ok :: "'h buckets \<Rightarrow> bool" where
  "buckets_ok m \<longleftrightarrow> (\<forall>h b. m h = Some b \<longrightarrow> b \<noteq> [] \<and> distinct b)"

lemma bucket_push_rel: "bucket_rel (bucket_push h i m) = insert (h, i) (bucket_rel m)"
  by (auto simp: bucket_push_def bucket_rel_def split: option.splits if_splits)

lemma bucket_push_ok: "buckets_ok m \<Longrightarrow> (h, i) \<notin> bucket_rel m \<Longrightarrow> buckets_ok (bucket_push h i m)"
  by (auto simp: bucket_push_def bucket_rel_def buckets_ok_def split: option.splits)

lemma bucket_drop_rel: "bucket_rel (bucket_drop h i m) = bucket_rel m - {(h, i)}"
  by (auto simp: bucket_drop_def bucket_rel_def Let_def filter_empty_conv split: option.splits if_splits)

lemma bucket_drop_ok: "buckets_ok m \<Longrightarrow> buckets_ok (bucket_drop h i m)"
  by (auto simp: bucket_drop_def buckets_ok_def Let_def split: option.splits)

end
