(* ===== verification/Fact_Store.thy ===== *)
theory Fact_Store
  imports Hash_Trie Index_Maps
begin

text \<open>
  The indexed fact store of \<^verbatim>\<open>src/reactive/store.rs\<close> (\<^verbatim>\<open>PlainState\<close>): an arena of slots with a free
  list, a bucketed index by key and ordinal-ordered slot_indexes by view and by owner. Erased keys and
  values are the type variables \<open>'k\<close> and \<open>'v\<close>; \<open>fact_ops\<close> holds what the store calls of them and
  \<open>fact_contract\<close> what the traits promise. A \<^verbatim>\<open>TypeId\<close> is a number, its standard-library hash is
  \<open>view_bits\<close>. Ordinals are checked additions; \<open>None\<close> is a panic.
\<close>

unbundle bit_operations_syntax

section \<open>Facts, slots and state\<close>

record ('k, 'v) fact_ops =
  view_bits :: "nat \<Rightarrow> u64"
  key_hash :: "'k \<Rightarrow> u64"
  key_eq :: "'k \<Rightarrow> 'k \<Rightarrow> bool"
  value_eq :: "'v \<Rightarrow> 'v \<Rightarrow> bool"

definition fact_contract :: "('k, 'v) fact_ops \<Rightarrow> bool" where
  "fact_contract F \<longleftrightarrow> equivp (key_eq F) \<and> (\<forall>a b. key_eq F a b \<longrightarrow> key_hash F a = key_hash F b) \<and> symp (value_eq F) \<and> transp (value_eq F)"

record ('k, 'v) plain_fact =
  pf_view :: nat
  pf_name :: string
  pf_key :: 'k
  pf_value :: 'v
  pf_writers :: owner_set
  pf_owner_names :: "(u64 \<times> string) list"
  pf_shared :: bool

record ('k, 'v) fact_slot =
  fs_ordinal :: nat
  fs_fact :: "('k, 'v) plain_fact"

record ('k, 'v) plain_state =
  ps_slots :: "('k, 'v) fact_slot option list"
  ps_free :: "nat list"
  ps_by_key :: "u64 buckets"
  ps_by_view :: "nat multi_index"
  ps_by_owner :: "u64 multi_index"
  ps_next_ordinal :: nat

definition plain_state_default :: "('k, 'v) plain_state" where
  "plain_state_default = \<lparr>ps_slots = [], ps_free = [], ps_by_key = Map.empty, ps_by_view = Map.empty, ps_by_owner = Map.empty, ps_next_ordinal = 0\<rparr>"

definition fact_hash :: "('k, 'v) fact_ops \<Rightarrow> nat \<Rightarrow> 'k \<Rightarrow> u64" where
  "fact_hash F view key = splitmix (view_bits F view XOR word_rotl 17 (key_hash F key))"

section \<open>Operations\<close>

definition index_slot :: "('k, 'v) fact_ops \<Rightarrow> nat \<Rightarrow> ('k, 'v) plain_state \<Rightarrow> ('k, 'v) plain_state option" where
  "index_slot F i s = do {
     found \<leftarrow> nth_opt (ps_slots s) i;
     sl \<leftarrow> found;
     let pf = fs_fact sl;
     Some (s\<lparr>ps_by_key := bucket_push (fact_hash F (pf_view pf) (pf_key pf)) i (ps_by_key s),
             ps_by_view := multi_insert (pf_view pf) (fs_ordinal sl) i (ps_by_view s),
             ps_by_owner := fold (\<lambda>owner. multi_insert owner (fs_ordinal sl) i) (owner_set_iter (pf_writers pf)) (ps_by_owner s)\<rparr>) }"

definition unindex_slot :: "('k, 'v) fact_ops \<Rightarrow> nat \<Rightarrow> ('k, 'v) plain_state \<Rightarrow> ('k, 'v) plain_state" where
  "unindex_slot F i s = (case nth_opt (ps_slots s) i of
     Some (Some sl) \<Rightarrow> (let pf = fs_fact sl in
       s\<lparr>ps_by_key := bucket_drop (fact_hash F (pf_view pf) (pf_key pf)) i (ps_by_key s),
         ps_by_view := multi_remove (pf_view pf) (fs_ordinal sl) (ps_by_view s),
         ps_by_owner := fold (\<lambda>owner. multi_remove owner (fs_ordinal sl)) (owner_set_iter (pf_writers pf)) (ps_by_owner s)\<rparr>)
   | _ \<Rightarrow> s)"

definition slot_matches :: "('k, 'v) fact_ops \<Rightarrow> nat \<Rightarrow> 'k \<Rightarrow> ('k, 'v) fact_slot option \<Rightarrow> bool" where
  "slot_matches F view key found = (case found of Some sl \<Rightarrow> pf_view (fs_fact sl) = view \<and> key_eq F (pf_key (fs_fact sl)) key | None \<Rightarrow> False)"

fun find_slot :: "('k, 'v) fact_ops \<Rightarrow> ('k, 'v) plain_state \<Rightarrow> nat \<Rightarrow> 'k \<Rightarrow> nat list \<Rightarrow> nat option option" where
  "find_slot F s view key [] = Some None"
| "find_slot F s view key (i # bucket) = do {
     found \<leftarrow> nth_opt (ps_slots s) i;
     if slot_matches F view key found then Some (Some i) else find_slot F s view key bucket }"

definition slot_index :: "('k, 'v) fact_ops \<Rightarrow> ('k, 'v) plain_state \<Rightarrow> nat \<Rightarrow> 'k \<Rightarrow> nat option option" where
  "slot_index F s view key = (case ps_by_key s (fact_hash F view key) of None \<Rightarrow> Some None | Some bucket \<Rightarrow> find_slot F s view key bucket)"

definition plain_slot :: "('k, 'v) fact_ops \<Rightarrow> ('k, 'v) plain_state \<Rightarrow> nat \<Rightarrow> 'k \<Rightarrow> ('k, 'v) fact_slot option option" where
  "plain_slot F s view key = do {
     i \<leftarrow> slot_index F s view key;
     (case i of None \<Rightarrow> Some None | Some i \<Rightarrow> nth_opt (ps_slots s) i) }"

definition plain_read :: "('k, 'v) fact_ops \<Rightarrow> ('k, 'v) plain_state \<Rightarrow> nat \<Rightarrow> 'k \<Rightarrow> 'v option option" where
  "plain_read F s view key = map_option (map_option (\<lambda>sl. pf_value (fs_fact sl))) (plain_slot F s view key)"

definition view_slots :: "('k, 'v) plain_state \<Rightarrow> nat \<Rightarrow> nat list" where
  "view_slots s view = (case ps_by_view s view of None \<Rightarrow> [] | Some ordinals \<Rightarrow> map snd ordinals)"

definition slot_at :: "('k, 'v) plain_state \<Rightarrow> nat \<Rightarrow> ('k, 'v) fact_slot option" where
  "slot_at s i = Option.bind (nth_opt (ps_slots s) i) id"

text \<open>\<^verbatim>\<open>inputs::<V>\<close>; the downcast to the view's key type is the argument \<open>input\<close>.\<close>

fun collect_inputs :: "('k \<Rightarrow> 'i option) \<Rightarrow> ('k, 'v) plain_state \<Rightarrow> nat list \<Rightarrow> 'i list option" where
  "collect_inputs input s [] = Some []"
| "collect_inputs input s (i # is) = do {
     found \<leftarrow> nth_opt (ps_slots s) i;
     rest \<leftarrow> collect_inputs input s is;
     Some (case Option.bind found (\<lambda>sl. input (pf_key (fs_fact sl))) of None \<Rightarrow> rest | Some k \<Rightarrow> k # rest) }"

definition plain_inputs :: "('k \<Rightarrow> 'i option) \<Rightarrow> ('k, 'v) plain_state \<Rightarrow> nat \<Rightarrow> 'i list option" where
  "plain_inputs input s view = collect_inputs input s (view_slots s view)"

text \<open>\<^verbatim>\<open>len\<close> and \<^verbatim>\<open>is_empty\<close> count the buckets of the key index.\<close>

definition plain_len :: "('k, 'v) plain_state \<Rightarrow> nat" where
  "plain_len s = card (dom (ps_by_key s))"

definition plain_is_empty :: "('k, 'v) plain_state \<Rightarrow> bool" where
  "plain_is_empty s \<longleftrightarrow> plain_len s = 0"

text \<open>Writing a slot in place; the index must be in range.\<close>

definition set_slot :: "nat \<Rightarrow> ('k, 'v) fact_slot option \<Rightarrow> ('k, 'v) plain_state \<Rightarrow> ('k, 'v) plain_state option" where
  "set_slot i found s = (if i < length (ps_slots s) then Some (s\<lparr>ps_slots := (ps_slots s)[i := found]\<rparr>) else None)"

text \<open>\<^verbatim>\<open>free.pop()\<close>, or a new slot at the end.\<close>

definition reserve_slot :: "('k, 'v) plain_state \<Rightarrow> nat \<times> ('k, 'v) plain_state" where
  "reserve_slot s = (if ps_free s = [] then (length (ps_slots s), s\<lparr>ps_slots := ps_slots s @ [None]\<rparr>)
     else (last (ps_free s), s\<lparr>ps_free := butlast (ps_free s)\<rparr>))"

definition insert_fact :: "('k, 'v) fact_ops \<Rightarrow> ('k, 'v) plain_fact \<Rightarrow> ('k, 'v) plain_state \<Rightarrow> ((nat \<times> nat) \<times> ('k, 'v) plain_state) option" where
  "insert_fact F pf s = do {
     let ordinal = ps_next_ordinal s;
     bumped \<leftarrow> checked_add_u64 ordinal 1;
     let (i, s) = reserve_slot (s\<lparr>ps_next_ordinal := bumped\<rparr>);
     s \<leftarrow> set_slot i (Some \<lparr>fs_ordinal = ordinal, fs_fact = pf\<rparr>) s;
     s \<leftarrow> index_slot F i s;
     Some ((i, ordinal), s) }"

definition set_value :: "nat \<Rightarrow> 'v \<Rightarrow> ('k, 'v) plain_state \<Rightarrow> ('k, 'v) plain_state option" where
  "set_value i v s = do {
     found \<leftarrow> nth_opt (ps_slots s) i;
     (case found of None \<Rightarrow> Some s | Some sl \<Rightarrow> set_slot i (Some (sl\<lparr>fs_fact := (fs_fact sl)\<lparr>pf_value := v\<rparr>\<rparr>)) s) }"

definition put_slot :: "('k, 'v) fact_ops \<Rightarrow> nat \<Rightarrow> ('k, 'v) fact_slot option \<Rightarrow> ('k, 'v) plain_state \<Rightarrow> ('k, 'v) plain_state option" where
  "put_slot F i put s = (case put of
     Some sl \<Rightarrow> do { s \<leftarrow> set_slot i (Some sl) (unindex_slot F i s); index_slot F i s }
   | None \<Rightarrow> do {
       let s = unindex_slot F i s;
       was \<leftarrow> nth_opt (ps_slots s) i;
       s \<leftarrow> set_slot i None s;
       Some (if was \<noteq> None then s\<lparr>ps_free := ps_free s @ [i]\<rparr> else s) })"

definition add_writer :: "nat \<Rightarrow> u64 \<Rightarrow> string \<Rightarrow> ('k, 'v) plain_state \<Rightarrow> ('k, 'v) plain_state option" where
  "add_writer i owner name s = do {
     found \<leftarrow> nth_opt (ps_slots s) i;
     (case found of None \<Rightarrow> Some s
      | Some sl \<Rightarrow> do {
          writers \<leftarrow> owner_set_insert (pf_writers (fs_fact sl)) owner;
          s \<leftarrow> set_slot i (Some (sl\<lparr>fs_fact := (fs_fact sl)\<lparr>pf_writers := writers, pf_owner_names := pf_owner_names (fs_fact sl) @ [(owner, name)]\<rparr>\<rparr>)) s;
          Some (s\<lparr>ps_by_owner := multi_insert owner (fs_ordinal sl) i (ps_by_owner s)\<rparr>) }) }"

definition remove_writer :: "('k, 'v) fact_ops \<Rightarrow> nat \<Rightarrow> u64 \<Rightarrow> ('k, 'v) plain_state \<Rightarrow> (bool \<times> ('k, 'v) plain_state) option" where
  "remove_writer F i owner s = do {
     found \<leftarrow> nth_opt (ps_slots s) i;
     (case found of None \<Rightarrow> Some (False, s)
      | Some sl \<Rightarrow> do {
          writers \<leftarrow> owner_set_remove (pf_writers (fs_fact sl)) owner;
          s \<leftarrow> set_slot i (Some (sl\<lparr>fs_fact := (fs_fact sl)\<lparr>pf_writers := writers, pf_owner_names := filter (\<lambda>(id, _). id \<noteq> owner) (pf_owner_names (fs_fact sl))\<rparr>\<rparr>)) s;
          let s = s\<lparr>ps_by_owner := multi_remove owner (fs_ordinal sl) (ps_by_owner s)\<rparr>;
          if owner_set_is_empty writers
          then do { s \<leftarrow> set_slot i None (unindex_slot F i s); Some (True, s\<lparr>ps_free := ps_free s @ [i]\<rparr>) }
          else Some (False, s) }) }"

section \<open>The invariant\<close>

text \<open>The identity of a fact: its view and the class of its key.\<close>

datatype 'k identity = Identity nat "'k set"

definition slot_id :: "('k, 'v) fact_ops \<Rightarrow> ('k, 'v) fact_slot \<Rightarrow> 'k identity" where
  "slot_id F sl = Identity (pf_view (fs_fact sl)) (Collect (key_eq F (pf_key (fs_fact sl))))"

definition fact_id :: "('k, 'v) fact_ops \<Rightarrow> nat \<Rightarrow> 'k \<Rightarrow> 'k identity" where
  "fact_id F view key = Identity view (Collect (key_eq F key))"

abbreviation slot_view :: "('k, 'v) fact_slot \<Rightarrow> nat" where
  "slot_view sl \<equiv> pf_view (fs_fact sl)"

abbreviation slot_owners :: "('k, 'v) fact_slot \<Rightarrow> u64 set" where
  "slot_owners sl \<equiv> owner_ids (pf_writers (fs_fact sl))"

definition slot_hash :: "('k, 'v) fact_ops \<Rightarrow> ('k, 'v) fact_slot \<Rightarrow> u64" where
  "slot_hash F sl = fact_hash F (pf_view (fs_fact sl)) (pf_key (fs_fact sl))"

text \<open>The rows that an index of a property of the slots must have: index, or ordinal and index.\<close>

definition key_rows :: "(('k, 'v) fact_slot \<Rightarrow> 'x) \<Rightarrow> (nat \<rightharpoonup> ('k, 'v) fact_slot) \<Rightarrow> ('x \<times> nat) set" where
  "key_rows p M = {(x, i). \<exists>sl. M i = Some sl \<and> x = p sl}"

definition ordinal_rows :: "(('k, 'v) fact_slot \<Rightarrow> 'x set) \<Rightarrow> (nat \<rightharpoonup> ('k, 'v) fact_slot) \<Rightarrow> ('x \<times> nat \<times> nat) set" where
  "ordinal_rows p M = {(x, ord, i). \<exists>sl. M i = Some sl \<and> ord = fs_ordinal sl \<and> x \<in> p sl}"

definition slot_indexes :: "('k, 'v) fact_ops \<Rightarrow> ('k, 'v) plain_state \<Rightarrow> (nat \<rightharpoonup> ('k, 'v) fact_slot) \<Rightarrow> bool" where
  "slot_indexes F s M \<longleftrightarrow>
     buckets_ok (ps_by_key s) \<and> bucket_rel (ps_by_key s) = key_rows (slot_hash F) M \<and>
     multi_sorted (ps_by_view s) \<and> multi_rel (ps_by_view s) = ordinal_rows (\<lambda>sl. {slot_view sl}) M \<and>
     multi_sorted (ps_by_owner s) \<and> multi_rel (ps_by_owner s) = ordinal_rows slot_owners M"

definition slots_ok :: "('k, 'v) fact_ops \<Rightarrow> nat \<Rightarrow> (nat \<rightharpoonup> ('k, 'v) fact_slot) \<Rightarrow> bool" where
  "slots_ok F n M \<longleftrightarrow> (\<forall>i sl. M i = Some sl \<longrightarrow> owner_set_ok (pf_writers (fs_fact sl)) \<and> fs_ordinal sl < n) \<and>
     (\<forall>i j a b. M i = Some a \<longrightarrow> M j = Some b \<longrightarrow> fs_ordinal a = fs_ordinal b \<or> slot_id F a = slot_id F b \<longrightarrow> i = j)"

definition free_ok :: "('k, 'v) plain_state \<Rightarrow> bool" where
  "free_ok s \<longleftrightarrow> distinct (ps_free s) \<and> set (ps_free s) = {i. i < length (ps_slots s) \<and> ps_slots s ! i = None}"

definition fact_store_ok :: "('k, 'v) fact_ops \<Rightarrow> ('k, 'v) plain_state \<Rightarrow> bool" where
  "fact_store_ok F s \<longleftrightarrow> slot_indexes F s (slot_at s) \<and> slots_ok F (ps_next_ordinal s) (slot_at s) \<and> free_ok s"

text \<open>The store as a map from fact identities to slots.\<close>

definition facts_of :: "('k, 'v) fact_ops \<Rightarrow> (nat \<rightharpoonup> ('k, 'v) fact_slot) \<Rightarrow> 'k identity \<rightharpoonup> ('k, 'v) fact_slot" where
  "facts_of F M x = (if \<exists>i sl. M i = Some sl \<and> slot_id F sl = x then Some (SOME sl. \<exists>i. M i = Some sl \<and> slot_id F sl = x) else None)"

definition live :: "('k, 'v) fact_ops \<Rightarrow> ('k, 'v) plain_state \<Rightarrow> 'k identity \<rightharpoonup> ('k, 'v) fact_slot" where
  "live F s = facts_of F (slot_at s)"

definition same_slots :: "('k, 'v) plain_state \<Rightarrow> ('k, 'v) plain_state \<Rightarrow> bool" where
  "same_slots s t \<longleftrightarrow> ps_slots t = ps_slots s \<and> ps_free t = ps_free s \<and> ps_next_ordinal t = ps_next_ordinal s"

lemma fact_contract_laws:
  assumes "fact_contract F"
  shows "key_eq F a a" "key_eq F a b \<Longrightarrow> key_eq F b a" "key_eq F a b \<Longrightarrow> key_eq F b c \<Longrightarrow> key_eq F a c" "key_eq F a b \<Longrightarrow> key_hash F a = key_hash F b"
  using assms by (auto simp: fact_contract_def intro: equivp_reflp equivp_symp equivp_transp)

lemma key_class: "fact_contract F \<Longrightarrow> Collect (key_eq F a) = Collect (key_eq F b) \<longleftrightarrow> key_eq F a b"
  by (metis (mono_tags, lifting) Collect_cong fact_contract_laws(1-3) mem_Collect_eq)

lemma fact_id_eq: "fact_contract F \<Longrightarrow> slot_id F sl = fact_id F view key \<longleftrightarrow> slot_view sl = view \<and> key_eq F (pf_key (fs_fact sl)) key"
  by (simp add: slot_id_def fact_id_def key_class)

lemma slot_id_fact_id: "slot_id F sl = fact_id F (slot_view sl) (pf_key (fs_fact sl))"
  by (simp add: slot_id_def fact_id_def)

lemma slot_id_hash: "fact_contract F \<Longrightarrow> slot_id F sl = fact_id F view key \<Longrightarrow> slot_hash F sl = fact_hash F view key"
  using fact_contract_laws(4) [of F "pf_key (fs_fact sl)" key] by (simp add: fact_id_eq slot_hash_def fact_hash_def)

lemma slot_at_Some: "slot_at s i = Some sl \<longleftrightarrow> nth_opt (ps_slots s) i = Some (Some sl)"
  by (cases "nth_opt (ps_slots s) i") (simp_all add: slot_at_def)

lemma slot_at_cong: "ps_slots t = ps_slots s \<Longrightarrow> slot_at t = slot_at s"
  unfolding slot_at_def by simp

lemma same_slots_at: "same_slots s t \<Longrightarrow> slot_at t = slot_at s"
  using slot_at_cong [of t s] by (simp add: same_slots_def)

lemma slot_at_update: "i < length (ps_slots s) \<Longrightarrow> slot_at (s\<lparr>ps_slots := (ps_slots s)[i := x]\<rparr>) = (slot_at s)(i := x)"
proof (rule ext)
  fix j assume i: "i < length (ps_slots s)"
  show "slot_at (s\<lparr>ps_slots := (ps_slots s)[i := x]\<rparr>) j = ((slot_at s)(i := x)) j"
    using i by (cases "j < length (ps_slots s)"; cases "j = i") (simp_all add: slot_at_def)
qed

section \<open>Indexing\<close>

lemma key_rows_remove: "M i = Some sl \<Longrightarrow> key_rows p (M(i := None)) = key_rows p M - {(p sl, i)}"
  unfolding key_rows_def by (rule set_eqI, clarify) auto

lemma key_rows_insert: "M i = None \<Longrightarrow> key_rows p (M(i \<mapsto> sl)) = insert (p sl, i) (key_rows p M)"
  unfolding key_rows_def by (rule set_eqI, clarify) auto

lemma ordinal_row: "(x, ord, j) \<in> ordinal_rows p M \<longleftrightarrow> (case M j of None \<Rightarrow> False | Some a \<Rightarrow> ord = fs_ordinal a \<and> x \<in> p a)"
  by (simp add: ordinal_rows_def split: option.split)

lemma ordinal_rows_remove:
  assumes "M i = Some sl" "\<And>j a. M j = Some a \<Longrightarrow> fs_ordinal a = fs_ordinal sl \<Longrightarrow> j = i"
  shows "ordinal_rows p (M(i := None)) = {x \<in> ordinal_rows p M. \<not> (fst x \<in> p sl \<and> fst (snd x) = fs_ordinal sl)}" (is "?L = ?R")
proof -
  have "(x, ord, j) \<in> ?L \<longleftrightarrow> (x, ord, j) \<in> ?R" for x ord j
    using assms(1) assms(2) [of j] by (cases "M j") (auto simp: ordinal_row)
  then show ?thesis by (intro set_eqI) (simp only: split_paired_all)
qed

lemma ordinal_rows_insert:
  assumes "M i = None" "\<And>j a. M j = Some a \<Longrightarrow> fs_ordinal a \<noteq> fs_ordinal sl"
  shows "ordinal_rows p (M(i \<mapsto> sl)) = {(x, fs_ordinal sl, i) | x. x \<in> p sl} \<union> {x \<in> ordinal_rows p M. \<not> (fst x \<in> p sl \<and> fst (snd x) = fs_ordinal sl)}" (is "?L = ?R")
proof -
  have "(x, ord, j) \<in> ?L \<longleftrightarrow> (x, ord, j) \<in> ?R" for x ord j
    using assms(1) assms(2) [of j] by (cases "M j") (auto simp: ordinal_row)
  then show ?thesis by (intro set_eqI) (simp only: split_paired_all)
qed

lemma unindex_slot_ok:
  assumes ix: "slot_indexes F s M" and ok: "slots_ok F n M" and at: "M i = Some sl" "slot_at s i = Some sl"
  shows "slot_indexes F (unindex_slot F i s) (M(i := None)) \<and> same_slots s (unindex_slot F i s)"
proof -
  have other: "M j = Some a \<Longrightarrow> fs_ordinal a = fs_ordinal sl \<Longrightarrow> j = i" for j a using ok at(1) by (auto simp: slots_ok_def)
  have owners: "set (owner_set_iter (pf_writers (fs_fact sl))) = slot_owners sl" using ok at(1) owner_set_iter_ids by (auto simp: slots_ok_def)
  let ?t = "unindex_slot F i s"
  have t: "?t = s\<lparr>ps_by_key := bucket_drop (slot_hash F sl) i (ps_by_key s),
       ps_by_view := multi_remove (slot_view sl) (fs_ordinal sl) (ps_by_view s),
       ps_by_owner := fold (\<lambda>owner. multi_remove owner (fs_ordinal sl)) (owner_set_iter (pf_writers (fs_fact sl))) (ps_by_owner s)\<rparr>"
    using at(2) by (simp add: unindex_slot_def slot_at_Some slot_hash_def Let_def)
  note d = ix [unfolded slot_indexes_def]
  note rows = ordinal_rows_remove [of M i sl, OF at(1) other] key_rows_remove [of M i sl, OF at(1)]
  show ?thesis using d
    by (simp add: slot_indexes_def same_slots_def t bucket_drop_ok bucket_drop_rel multi_remove_sorted multi_remove_rel multi_remove_all owners rows del: fun_upd_apply)
qed

lemma index_slot_ok:
  assumes ix: "slot_indexes F s M" and at: "M i = None" "slot_at s i = Some sl" and fresh: "\<And>j a. M j = Some a \<Longrightarrow> fs_ordinal a \<noteq> fs_ordinal sl"
    and writers: "owner_set_ok (pf_writers (fs_fact sl))"
  shows "\<exists>t. index_slot F i s = Some t \<and> slot_indexes F t (M(i \<mapsto> sl)) \<and> same_slots s t"
proof -
  have owners: "set (owner_set_iter (pf_writers (fs_fact sl))) = slot_owners sl" using writers owner_set_iter_ids by blast
  note d = ix [unfolded slot_indexes_def]
  define t where t: "t = s\<lparr>ps_by_key := bucket_push (slot_hash F sl) i (ps_by_key s),
       ps_by_view := multi_insert (slot_view sl) (fs_ordinal sl) i (ps_by_view s),
       ps_by_owner := fold (\<lambda>owner. multi_insert owner (fs_ordinal sl) i) (owner_set_iter (pf_writers (fs_fact sl))) (ps_by_owner s)\<rparr>"
  have run: "index_slot F i s = Some t" using at(2) by (simp add: index_slot_def slot_at_Some slot_hash_def Let_def t)
  have new: "(slot_hash F sl, i) \<notin> bucket_rel (ps_by_key s)" using d at(1) by (simp add: key_rows_def)
  note rows = ordinal_rows_insert [of M i sl, OF at(1) fresh] key_rows_insert [of M i, OF at(1)]
  have "slot_indexes F t (M(i \<mapsto> sl))" using d
    by (simp add: slot_indexes_def t bucket_push_ok [OF _ new] bucket_push_rel multi_insert_sorted multi_insert_rel multi_insert_all owners rows del: fun_upd_apply)
  moreover have "same_slots s t" by (simp add: same_slots_def t)
  ultimately show ?thesis using run by blast
qed


section \<open>The store as a map\<close>

lemma facts_of_Some: "slots_ok F n M \<Longrightarrow> facts_of F M x = Some sl \<longleftrightarrow> (\<exists>i. M i = Some sl) \<and> slot_id F sl = x"
proof -
  assume ok: "slots_ok F n M"
  have one: "a = b" if "M i = Some a" "M j = Some b" "slot_id F a = slot_id F b" for i j a b
  proof -
    have "i = j" using ok that unfolding slots_ok_def by blast
    then show "a = b" using that by simp
  qed
  show ?thesis
  proof (cases "\<exists>i sl. M i = Some sl \<and> slot_id F sl = x")
    case True
    then obtain i a where a: "M i = Some a" "slot_id F a = x" by blast
    have "(SOME sl. \<exists>i. M i = Some sl \<and> slot_id F sl = x) = a"
    proof (rule some_equality)
      show "\<exists>i. M i = Some a \<and> slot_id F a = x" using a by blast
    next
      fix b assume "\<exists>i. M i = Some b \<and> slot_id F b = x"
      then show "b = a" using one a by metis
    qed
    then have "facts_of F M x = Some a" using True by (simp add: facts_of_def)
    then show ?thesis using a one by (metis option.inject)
  next
    case False
    then have "facts_of F M x = None" by (simp add: facts_of_def)
    then show ?thesis using False by (metis option.distinct(1))
  qed
qed

lemma facts_of_None: "facts_of F M x = None \<longleftrightarrow> (\<forall>i sl. M i = Some sl \<longrightarrow> slot_id F sl \<noteq> x)"
  by (simp add: facts_of_def)

lemma option_eqI: "(\<And>y. a = Some y \<longleftrightarrow> b = Some y) \<Longrightarrow> a = b"
  by (cases a; cases b) auto

lemma map_of_facts: "slots_ok F n M \<Longrightarrow> (\<And>x sl. G x = Some sl \<longleftrightarrow> (\<exists>i. M i = Some sl) \<and> slot_id F sl = x) \<Longrightarrow> facts_of F M = G"
  by (rule ext, rule option_eqI) (simp add: facts_of_Some)

lemma slots_ok_remove: "slots_ok F n M \<Longrightarrow> slots_ok F n (M(i := None))"
  unfolding slots_ok_def by (simp split: if_splits)

lemma facts_of_remove:
  assumes ok: "slots_ok F n M" and at: "M i = Some sl"
  shows "facts_of F (M(i := None)) = (facts_of F M)(slot_id F sl := None)"
proof (rule map_of_facts [OF slots_ok_remove [OF ok]])
  fix x a
  have "M j = Some a \<Longrightarrow> slot_id F a = slot_id F sl \<Longrightarrow> j = i" for j using ok at unfolding slots_ok_def by blast
  then show "((facts_of F M)(slot_id F sl := None)) x = Some a \<longleftrightarrow> (\<exists>j. (M(i := None)) j = Some a) \<and> slot_id F a = x"
    using at by (auto simp: facts_of_Some [OF ok]) (metis option.inject)
qed

definition slot_fits :: "('k, 'v) fact_ops \<Rightarrow> nat \<Rightarrow> ('k, 'v) fact_slot \<Rightarrow> ('k identity \<rightharpoonup> ('k, 'v) fact_slot) \<Rightarrow> bool" where
  "slot_fits F n sl L \<longleftrightarrow> owner_set_ok (pf_writers (fs_fact sl)) \<and> fs_ordinal sl < n \<and> (\<forall>x a. x \<noteq> slot_id F sl \<longrightarrow> L x = Some a \<longrightarrow> fs_ordinal a \<noteq> fs_ordinal sl)"

lemma fits_slots:
  assumes ok: "slots_ok F n M" and slot_fits: "slot_fits F m sl (facts_of F M)" and absent: "facts_of F M (slot_id F sl) = None"
  shows "M j = Some a \<Longrightarrow> fs_ordinal a \<noteq> fs_ordinal sl" "M j = Some a \<Longrightarrow> slot_id F a \<noteq> slot_id F sl"
proof -
  assume a: "M j = Some a"
  show ne: "slot_id F a \<noteq> slot_id F sl" using absent a by (simp add: facts_of_None)
  have "facts_of F M (slot_id F a) = Some a" using facts_of_Some [OF ok] a by blast
  then show "fs_ordinal a \<noteq> fs_ordinal sl" using slot_fits ne by (simp add: slot_fits_def)
qed

lemma slots_ok_insert:
  assumes ok: "slots_ok F n M" and slot_fits: "slot_fits F m sl (facts_of F M)" "n \<le> m" and absent: "facts_of F M (slot_id F sl) = None" and at: "M i = None"
  shows "slots_ok F m (M(i \<mapsto> sl))" "facts_of F (M(i \<mapsto> sl)) = (facts_of F M)(slot_id F sl \<mapsto> sl)"
proof -
  note off = fits_slots [OF ok slot_fits(1) absent]
  show ok': "slots_ok F m (M(i \<mapsto> sl))"
    unfolding slots_ok_def
  proof (intro conjI allI impI)
    fix j a assume "(M(i \<mapsto> sl)) j = Some a"
    then show "owner_set_ok (pf_writers (fs_fact a))" "fs_ordinal a < m"
      using ok slot_fits by (auto simp: slots_ok_def slot_fits_def split: if_splits intro: less_le_trans)
  next
    fix j k a b assume "(M(i \<mapsto> sl)) j = Some a" "(M(i \<mapsto> sl)) k = Some b" "fs_ordinal a = fs_ordinal b \<or> slot_id F a = slot_id F b"
    then show "j = k" using ok off unfolding slots_ok_def by (auto split: if_splits) metis+
  qed
  show "facts_of F (M(i \<mapsto> sl)) = (facts_of F M)(slot_id F sl \<mapsto> sl)"
  proof (rule map_of_facts [OF ok'])
    fix x a
    show "((facts_of F M)(slot_id F sl \<mapsto> sl)) x = Some a \<longleftrightarrow> (\<exists>j. (M(i \<mapsto> sl)) j = Some a) \<and> slot_id F a = x"
      using off(2) at by (auto simp: facts_of_Some [OF ok]) (metis option.distinct(1))
  qed
qed


section \<open>Lookups\<close>

lemma slot_matches_id: "fact_contract F \<Longrightarrow> slot_matches F view key found \<longleftrightarrow> (\<exists>sl. found = Some sl \<and> slot_id F sl = fact_id F view key)"
  by (cases found) (simp_all add: slot_matches_def fact_id_eq)

lemma find_slot_ok:
  "\<forall>i \<in> set bucket. i < length (ps_slots s) \<Longrightarrow> \<exists>r. find_slot F s view key bucket = Some r \<and>
    (case r of None \<Rightarrow> \<forall>i \<in> set bucket. \<not> slot_matches F view key (ps_slots s ! i) | Some i \<Rightarrow> i \<in> set bucket \<and> slot_matches F view key (ps_slots s ! i))"
proof (induction bucket)
  case (Cons i bucket)
  then show ?case by (cases "slot_matches F view key (ps_slots s ! i)") (auto split: option.splits)
qed simp

lemma slot_at_nth: "slot_at s i = Some sl \<longleftrightarrow> i < length (ps_slots s) \<and> ps_slots s ! i = Some sl"
  by (auto simp: slot_at_Some nth_opt_Some_iff)

lemma store_facts: "fact_store_ok F s \<Longrightarrow> live F s x = Some sl \<longleftrightarrow> (\<exists>i. slot_at s i = Some sl) \<and> slot_id F sl = x"
  unfolding live_def fact_store_ok_def using facts_of_Some by blast

lemma slot_index_ok:
  assumes F: "fact_contract F" and ok: "fact_store_ok F s"
  obtains (present) i sl where "slot_index F s view key = Some (Some i)" "slot_at s i = Some sl" "live F s (fact_id F view key) = Some sl" "slot_id F sl = fact_id F view key"
  | (absent) "slot_index F s view key = Some None" "live F s (fact_id F view key) = None"
proof -
  let ?h = "fact_hash F view key"
  have rows: "buckets_ok (ps_by_key s)" "bucket_rel (ps_by_key s) = key_rows (slot_hash F) (slot_at s)" using ok by (auto simp: fact_store_ok_def slot_indexes_def)
  have row: "(\<exists>b. ps_by_key s h = Some b \<and> i \<in> set b) \<longleftrightarrow> (\<exists>sl. slot_at s i = Some sl \<and> h = slot_hash F sl)" for h i
    using arg_cong [OF rows(2), of "\<lambda>R. (h, i) \<in> R"] by (simp add: bucket_rel_def key_rows_def)
  define bucket where "bucket = (case ps_by_key s ?h of None \<Rightarrow> [] | Some b \<Rightarrow> b)"
  have run: "slot_index F s view key = find_slot F s view key bucket" by (simp add: slot_index_def bucket_def split: option.split)
  have mem: "i \<in> set bucket \<longleftrightarrow> (\<exists>sl. slot_at s i = Some sl \<and> ?h = slot_hash F sl)" for i
    using row [of ?h i] by (auto simp: bucket_def split: option.split)
  have "\<forall>i \<in> set bucket. i < length (ps_slots s)" using mem by (auto simp: slot_at_nth)
  from find_slot_ok [OF this, of F view key] obtain r where r: "find_slot F s view key bucket = Some r"
    "case r of None \<Rightarrow> \<forall>i \<in> set bucket. \<not> slot_matches F view key (ps_slots s ! i) | Some i \<Rightarrow> i \<in> set bucket \<and> slot_matches F view key (ps_slots s ! i)"
    by (elim exE conjE)
  show thesis
  proof (cases r)
    case None
    have "live F s (fact_id F view key) = None"
    proof (rule ccontr)
      assume "live F s (fact_id F view key) \<noteq> None"
      then obtain i sl where sl: "slot_at s i = Some sl" "slot_id F sl = fact_id F view key" using store_facts [OF ok] by blast
      then have "i \<in> set bucket" using mem slot_id_hash [OF F, of sl] by metis
      then show False using r(2) None sl by (auto simp: slot_at_nth slot_matches_id [OF F])
    qed
    then show thesis using absent run r(1) None by simp
  next
    case (Some i)
    then obtain sl where sl: "slot_at s i = Some sl" "slot_id F sl = fact_id F view key" using r(2) mem by (auto simp: slot_at_nth slot_matches_id [OF F])
    then have "live F s (fact_id F view key) = Some sl" using store_facts [OF ok] by blast
    then show thesis using present [OF _ sl(1) _ sl(2)] run r(1) Some by simp
  qed
qed

lemma plain_slot_live: "fact_contract F \<Longrightarrow> fact_store_ok F s \<Longrightarrow> plain_slot F s view key = Some (live F s (fact_id F view key))"
  by (erule slot_index_ok [of F s view key], assumption) (simp_all add: plain_slot_def slot_at_Some)

section \<open>Updates\<close>

lemma store_okI:
  "slot_indexes F t M \<Longrightarrow> slots_ok F (ps_next_ordinal t) M \<Longrightarrow> slot_at t = M \<Longrightarrow> free_ok t \<Longrightarrow> fact_store_ok F t"
  by (simp add: fact_store_ok_def)

lemma indexes_cong: "ps_by_key t = ps_by_key s \<Longrightarrow> ps_by_view t = ps_by_view s \<Longrightarrow> ps_by_owner t = ps_by_owner s \<Longrightarrow> slot_indexes F s M \<Longrightarrow> slot_indexes F t M"
  by (simp add: slot_indexes_def)

lemma free_ok_same: "same_slots s t \<Longrightarrow> free_ok s \<Longrightarrow> free_ok t"
  by (simp add: same_slots_def free_ok_def)

lemma live_ordinals:
  assumes ok: "fact_store_ok F s" and "live F s x = Some a" "live F s y = Some b" "fs_ordinal a = fs_ordinal b"
  shows "x = y"
proof -
  obtain i j where "slot_at s i = Some a" "slot_id F a = x" "slot_at s j = Some b" "slot_id F b = y" using assms store_facts [OF ok] by blast
  moreover have "i = j" using calculation assms(4) ok unfolding fact_store_ok_def slots_ok_def by blast
  ultimately show ?thesis by simp
qed

lemma live_slot: "fact_store_ok F s \<Longrightarrow> live F s x = Some a \<Longrightarrow> slot_id F a = x \<and> owner_set_ok (pf_writers (fs_fact a)) \<and> fs_ordinal a < ps_next_ordinal s"
  using store_facts [of F s x a] unfolding fact_store_ok_def slots_ok_def by blast

lemma put_slot_None:
  assumes ok: "fact_store_ok F s" and at: "slot_at s i = Some sl"
  shows "\<exists>t. put_slot F i None s = Some t \<and> fact_store_ok F t \<and> live F t = (live F s)(slot_id F sl := None) \<and> ps_next_ordinal t = ps_next_ordinal s"
proof -
  let ?M = "slot_at s" let ?u = "unindex_slot F i s"
  have s: "slot_indexes F s ?M" "slots_ok F (ps_next_ordinal s) ?M" "free_ok s" using ok by (auto simp: fact_store_ok_def)
  have u: "slot_indexes F ?u (?M(i := None))" "same_slots s ?u" using unindex_slot_ok [OF s(1,2) at at] by auto
  have i: "i < length (ps_slots s)" "ps_slots s ! i = Some sl" using at by (auto simp: slot_at_nth)
  define t where "t = ?u\<lparr>ps_slots := (ps_slots ?u)[i := None], ps_free := ps_free ?u @ [i]\<rparr>"
  have run: "put_slot F i None s = Some t" using i u(2) by (simp add: put_slot_def set_slot_def Let_def t_def same_slots_def)
  have at': "slot_at t = ?M(i := None)" using slot_at_update [of i ?u None] same_slots_at [OF u(2)] slot_at_cong [of t "?u\<lparr>ps_slots := (ps_slots ?u)[i := None]\<rparr>"] i u(2)
    by (simp add: t_def same_slots_def)
  have fr: "free_ok t" using s(3) i u(2) by (auto simp: free_ok_def t_def same_slots_def nth_list_update)
  have "fact_store_ok F t"
    by (rule store_okI [OF indexes_cong [OF _ _ _ u(1)] _ at' fr]) (use slots_ok_remove [OF s(2)] u(2) in \<open>simp_all add: t_def same_slots_def\<close>)
  moreover have "live F t = (live F s)(slot_id F sl := None)" using facts_of_remove [OF s(2) at] at' by (simp add: live_def)
  ultimately show ?thesis using run u(2) by (auto simp: t_def same_slots_def)
qed

lemma place_fact:
  assumes ix: "slot_indexes F s M" and ok: "slots_ok F n M" and fr: "free_ok t" and slot_fits: "slot_fits F n sl (facts_of F M)" "facts_of F M (slot_id F sl) = None"
    and at: "M i = None" "slot_at t = M(i \<mapsto> sl)" "ps_next_ordinal t = n"
    and same: "ps_by_key t = ps_by_key s" "ps_by_view t = ps_by_view s" "ps_by_owner t = ps_by_owner s"
  shows "\<exists>u. index_slot F i t = Some u \<and> fact_store_ok F u \<and> live F u = (facts_of F M)(slot_id F sl \<mapsto> sl) \<and> ps_next_ordinal u = n"
proof -
  have "slot_indexes F t M" by (rule indexes_cong [OF same ix])
  then obtain u where u: "index_slot F i t = Some u" "slot_indexes F u (M(i \<mapsto> sl))" "same_slots t u"
    using index_slot_ok [of F t M i sl] fits_slots(1) [OF ok slot_fits] slot_fits(1) at by (auto simp: slot_fits_def)
  have "slot_at u = M(i \<mapsto> sl)" using same_slots_at [OF u(3)] at(2) by simp
  moreover note slots_ok_insert [OF ok slot_fits(1) order_refl slot_fits(2) at(1)]
  moreover have "free_ok u" "ps_next_ordinal u = n" using free_ok_same [OF u(3) fr] u(3) at(3) by (auto simp: same_slots_def)
  ultimately show ?thesis using u by (auto simp: fact_store_ok_def live_def)
qed

lemma put_slot_Some:
  assumes ok: "fact_store_ok F s" and at: "slot_at s i = Some old" and id: "slot_id F sl = slot_id F old" and slot_fits: "slot_fits F (ps_next_ordinal s) sl (live F s)"
  shows "\<exists>t. put_slot F i (Some sl) s = Some t \<and> fact_store_ok F t \<and> live F t = (live F s)(slot_id F sl \<mapsto> sl) \<and> ps_next_ordinal t = ps_next_ordinal s"
proof -
  let ?M = "slot_at s" let ?u = "unindex_slot F i s"
  have s: "slot_indexes F s ?M" "slots_ok F (ps_next_ordinal s) ?M" "free_ok s" using ok by (auto simp: fact_store_ok_def)
  have u: "slot_indexes F ?u (?M(i := None))" "same_slots s ?u" using unindex_slot_ok [OF s(1,2) at at] by auto
  have i: "i < length (ps_slots s)" "ps_slots s ! i = Some old" using at by (auto simp: slot_at_nth)
  define t where "t = ?u\<lparr>ps_slots := (ps_slots ?u)[i := Some sl]\<rparr>"
  have run: "put_slot F i (Some sl) s = index_slot F i t" using i u(2) by (simp add: put_slot_def set_slot_def t_def same_slots_def)
  have f: "facts_of F (?M(i := None)) = (live F s)(slot_id F sl := None)" using facts_of_remove [OF s(2) at] id by (simp add: live_def)
  have "slot_at t = (?M(i := None))(i \<mapsto> sl)" using slot_at_update [of i ?u "Some sl"] same_slots_at [OF u(2)] i u(2) by (simp add: t_def same_slots_def)
  moreover have "(ps_slots s)[i := Some sl] ! j = None \<longleftrightarrow> ps_slots s ! j = None" for j using i by (cases "j = i") simp_all
  then have "free_ok t" using s(3) u(2) by (simp add: free_ok_def t_def same_slots_def)
  moreover have "slot_fits F (ps_next_ordinal s) sl (facts_of F (?M(i := None)))" using slot_fits by (simp add: f slot_fits_def)
  ultimately show ?thesis
    using place_fact [OF u(1) slots_ok_remove [OF s(2)], of t sl i] u(2) by (simp add: run f t_def same_slots_def)
qed

lemma reserve_place:
  assumes ok: "fact_store_ok F s" and absent: "live F s (slot_id F sl) = None" and slot_fits: "slot_fits F (ps_next_ordinal s) sl (live F s)"
  shows "\<exists>i r t u. reserve_slot s = (i, r) \<and> set_slot i (Some sl) r = Some t \<and> index_slot F i t = Some u \<and> fact_store_ok F u \<and>
    live F u = (live F s)(slot_id F sl \<mapsto> sl) \<and> ps_next_ordinal u = ps_next_ordinal s"
proof -
  let ?M = "slot_at s"
  have s: "slot_indexes F s ?M" "slots_ok F (ps_next_ordinal s) ?M" "free_ok s" using ok by (auto simp: fact_store_ok_def)
  obtain i r where r: "reserve_slot s = (i, r)" by fastforce
  have frm: "ps_by_key r = ps_by_key s" "ps_by_view r = ps_by_view s" "ps_by_owner r = ps_by_owner s" "ps_next_ordinal r = ps_next_ordinal s"
    using r by (auto simp: reserve_slot_def split: if_splits)
  have i: "i < length (ps_slots r)" "?M i = None" and at: "slot_at r = ?M"
    and fr: "distinct (ps_free r)" "set (ps_free r) = {j. j < length (ps_slots r) \<and> ps_slots r ! j = None} - {i}"
  proof -
    have split: "ps_free s = butlast (ps_free s) @ [last (ps_free s)]" if "ps_free s \<noteq> []" using that by simp
    have "i < length (ps_slots r) \<and> ?M i = None \<and> slot_at r = ?M \<and> distinct (ps_free r) \<and> set (ps_free r) = {j. j < length (ps_slots r) \<and> ps_slots r ! j = None} - {i}"
    proof (cases "ps_free s = []")
      case True
      then have none: "j < length (ps_slots s) \<Longrightarrow> ps_slots s ! j \<noteq> None" for j using s(3) by (auto simp: free_ok_def)
      have e: "i = length (ps_slots s)" "r = s\<lparr>ps_slots := ps_slots s @ [None]\<rparr>" using True r by (auto simp: reserve_slot_def)
      have "slot_at r j = ?M j" for j by (cases "j < length (ps_slots s)"; cases "j = length (ps_slots s)") (simp_all add: e slot_at_def)
      moreover from this have "slot_at r = ?M" by (rule ext)
      moreover have "{j. j < length (ps_slots r) \<and> ps_slots r ! j = None} = {i}" by (auto simp: e nth_append less_Suc_eq dest: none)
      ultimately show ?thesis using True by (simp add: e slot_at_def)
    next
      case False
      have e: "i = last (ps_free s)" "r = s\<lparr>ps_free := butlast (ps_free s)\<rparr>" using False r by (auto simp: reserve_slot_def)
      have d: "distinct (butlast (ps_free s) @ [i])" "set (butlast (ps_free s) @ [i]) = {j. j < length (ps_slots s) \<and> ps_slots s ! j = None}"
        using s(3) split [OF False] e(1) unfolding free_ok_def by metis+
      have mem: "i < length (ps_slots s) \<and> ps_slots s ! i = None" using d(2) by auto
      have "slot_at r = ?M" by (rule slot_at_cong) (simp add: e(2))
      then show ?thesis using d mem by (auto simp: e(2) slot_at_def)
    qed
    then show "i < length (ps_slots r)" "?M i = None" "slot_at r = ?M" "distinct (ps_free r)"
      "set (ps_free r) = {j. j < length (ps_slots r) \<and> ps_slots r ! j = None} - {i}" by auto
  qed
  define t where "t = r\<lparr>ps_slots := (ps_slots r)[i := Some sl]\<rparr>"
  have run: "set_slot i (Some sl) r = Some t" using i by (simp add: set_slot_def t_def)
  have at': "slot_at t = ?M(i \<mapsto> sl)" using slot_at_update [OF i(1), of "Some sl"] at by (simp add: t_def)
  have "(ps_slots r)[i := Some sl] ! j = None \<longleftrightarrow> ps_slots r ! j = None \<and> j \<noteq> i" if "j < length (ps_slots r)" for j using that i by (cases "j = i") simp_all
  then have "free_ok t" using fr by (auto simp: free_ok_def t_def)
  then show ?thesis
    using place_fact [OF s(1,2), of t sl i] slot_fits absent i(2) at' frm r run by (simp add: live_def t_def)
qed

lemma bump_ok: "fact_store_ok F s \<Longrightarrow> ps_next_ordinal s \<le> n \<Longrightarrow> fact_store_ok F (s\<lparr>ps_next_ordinal := n\<rparr>) \<and> live F (s\<lparr>ps_next_ordinal := n\<rparr>) = live F s"
proof -
  assume ok: "fact_store_ok F s" and n: "ps_next_ordinal s \<le> n"
  have at: "slot_at (s\<lparr>ps_next_ordinal := n\<rparr>) = slot_at s" by (rule slot_at_cong) simp
  have "slots_ok F n (slot_at s)" using ok n unfolding fact_store_ok_def slots_ok_def by (meson less_le_trans)
  then show ?thesis using ok by (simp add: fact_store_ok_def live_def at slot_indexes_def free_ok_def)
qed

lemma insert_fact_ok:
  assumes ok: "fact_store_ok F s" and absent: "live F s (fact_id F (pf_view pf) (pf_key pf)) = None" and room: "ps_next_ordinal s < usize_max" and writers: "owner_set_ok (pf_writers pf)"
  shows "\<exists>i t. insert_fact F pf s = Some ((i, ps_next_ordinal s), t) \<and> fact_store_ok F t \<and> ps_next_ordinal t = Suc (ps_next_ordinal s) \<and>
    live F t = (live F s)(fact_id F (pf_view pf) (pf_key pf) \<mapsto> \<lparr>fs_ordinal = ps_next_ordinal s, fs_fact = pf\<rparr>)"
proof -
  let ?sl = "\<lparr>fs_ordinal = ps_next_ordinal s, fs_fact = pf\<rparr>" let ?b = "s\<lparr>ps_next_ordinal := Suc (ps_next_ordinal s)\<rparr>"
  have b: "fact_store_ok F ?b" "live F ?b = live F s" using bump_ok [OF ok, of "Suc (ps_next_ordinal s)"] by auto
  have id: "slot_id F ?sl = fact_id F (pf_view pf) (pf_key pf)" by (simp add: slot_id_def fact_id_def)
  have "slot_fits F (ps_next_ordinal ?b) ?sl (live F ?b)" using live_slot [OF ok] writers unfolding slot_fits_def b(2) by (simp, metis less_irrefl)
  from reserve_place [OF b(1) _ this] obtain i r t u where u: "reserve_slot ?b = (i, r)" "set_slot i (Some ?sl) r = Some t" "index_slot F i t = Some u" "fact_store_ok F u"
    "live F u = (live F s)(fact_id F (pf_view pf) (pf_key pf) \<mapsto> ?sl)" "ps_next_ordinal u = Suc (ps_next_ordinal s)"
    using absent by (auto simp: id b(2))
  have "insert_fact F pf s = Some ((i, ps_next_ordinal s), u)" using u(1-3) room by (simp add: insert_fact_def Let_def)
  then show ?thesis using u by blast
qed

section \<open>Updates in place\<close>

lemma slots_ok_replace:
  assumes ok: "slots_ok F n M" and at: "M i = Some sl" and same: "slot_id F sl' = slot_id F sl" "fs_ordinal sl' = fs_ordinal sl" and writers: "owner_set_ok (pf_writers (fs_fact sl'))"
  shows "slots_ok F n (M(i \<mapsto> sl'))" "facts_of F (M(i \<mapsto> sl')) = (facts_of F M)(slot_id F sl \<mapsto> sl')"
proof -
  have f: "facts_of F (M(i := None)) = (facts_of F M)(slot_id F sl := None)" by (rule facts_of_remove [OF ok at])
  have "fs_ordinal a \<noteq> fs_ordinal sl" if "facts_of F M x = Some a" "x \<noteq> slot_id F sl" for x a
    using that facts_of_Some [OF ok] ok at unfolding slots_ok_def by (metis option.inject)
  then have "slot_fits F n sl' (facts_of F (M(i := None)))" using ok at writers by (auto simp: slot_fits_def f same slots_ok_def)
  from slots_ok_insert [OF slots_ok_remove [OF ok, of i] this, of i]
  show "slots_ok F n (M(i \<mapsto> sl'))" "facts_of F (M(i \<mapsto> sl')) = (facts_of F M)(slot_id F sl \<mapsto> sl')" by (simp_all add: f same)
qed

lemma rows_replace:
  assumes "M i = Some sl" "fs_ordinal sl' = fs_ordinal sl"
  shows "p sl' = p sl \<Longrightarrow> key_rows p (M(i \<mapsto> sl')) = key_rows p M" "q sl' = q sl \<Longrightarrow> ordinal_rows q (M(i \<mapsto> sl')) = ordinal_rows q M"
proof -
  show "key_rows p (M(i \<mapsto> sl')) = key_rows p M" if "p sl' = p sl" using assms(1) that by (simp add: key_rows_def set_eq_iff)
  have "(x, ord, j) \<in> ordinal_rows q (M(i \<mapsto> sl')) \<longleftrightarrow> (x, ord, j) \<in> ordinal_rows q M" if "q sl' = q sl" for x ord j
    using assms that by (simp add: ordinal_row)
  then show "ordinal_rows q (M(i \<mapsto> sl')) = ordinal_rows q M" if "q sl' = q sl" using that by (intro set_eqI) (simp only: split_paired_all)
qed

lemma replace_slot_ok:
  assumes ok: "fact_store_ok F s" and at: "slot_at s i = Some sl" and same: "fs_fact sl' = (fs_fact sl)\<lparr>pf_value := v, pf_writers := ws, pf_owner_names := ns\<rparr>" "fs_ordinal sl' = fs_ordinal sl"
    and writers: "owner_set_ok ws" and owners: "multi_sorted bo" "multi_rel bo = ordinal_rows slot_owners ((slot_at s)(i \<mapsto> sl'))"
  shows "\<exists>t. set_slot i (Some sl') s = Some t \<and> fact_store_ok F (t\<lparr>ps_by_owner := bo\<rparr>) \<and> live F (t\<lparr>ps_by_owner := bo\<rparr>) = (live F s)(slot_id F sl \<mapsto> sl') \<and>
    slot_at (t\<lparr>ps_by_owner := bo\<rparr>) i = Some sl' \<and> ps_by_owner t = ps_by_owner s \<and> ps_next_ordinal t = ps_next_ordinal s"
proof -
  have i: "i < length (ps_slots s)" "ps_slots s ! i = Some sl" using at by (auto simp: slot_at_nth)
  define t where "t = s\<lparr>ps_slots := (ps_slots s)[i := Some sl']\<rparr>"
  have at': "slot_at (t\<lparr>ps_by_owner := bo\<rparr>) = (slot_at s)(i \<mapsto> sl')"
    using slot_at_update [OF i(1), of "Some sl'"] slot_at_cong [of "t\<lparr>ps_by_owner := bo\<rparr>" t] by (simp add: t_def)
  have id: "slot_id F sl' = slot_id F sl" "slot_hash F sl' = slot_hash F sl" "slot_view sl' = slot_view sl" by (simp_all add: slot_id_def slot_hash_def same)
  have s: "slot_indexes F s (slot_at s)" "slots_ok F (ps_next_ordinal s) (slot_at s)" "free_ok s" using ok by (auto simp: fact_store_ok_def)
  note R = slots_ok_replace [OF s(2) at id(1) same(2)]
  have "slot_indexes F (t\<lparr>ps_by_owner := bo\<rparr>) ((slot_at s)(i \<mapsto> sl'))"
    using s(1) owners rows_replace(1) [of "slot_at s" i sl sl' "slot_hash F", OF at same(2) id(2)] rows_replace(2) [of "slot_at s" i sl sl' "\<lambda>sl. {slot_view sl}", OF at same(2)] id(3)
    by (simp add: slot_indexes_def t_def)
  moreover have "(ps_slots s)[i := Some sl'] ! j = None \<longleftrightarrow> ps_slots s ! j = None" for j using i by (cases "j = i") simp_all
  then have "free_ok (t\<lparr>ps_by_owner := bo\<rparr>)" using s(3) by (simp add: free_ok_def t_def)
  moreover have "slots_ok F (ps_next_ordinal s) ((slot_at s)(i \<mapsto> sl'))" "facts_of F ((slot_at s)(i \<mapsto> sl')) = (live F s)(slot_id F sl \<mapsto> sl')"
    using R writers by (auto simp: same live_def)
  ultimately have "fact_store_ok F (t\<lparr>ps_by_owner := bo\<rparr>) \<and> live F (t\<lparr>ps_by_owner := bo\<rparr>) = (live F s)(slot_id F sl \<mapsto> sl')"
    by (simp add: fact_store_ok_def live_def at') (simp add: t_def)
  then show ?thesis using i at' by (auto simp: set_slot_def t_def)
qed

lemma set_value_ok:
  assumes ok: "fact_store_ok F s" and at: "slot_at s i = Some sl"
  shows "\<exists>t. set_value i v s = Some t \<and> fact_store_ok F t \<and> live F t = (live F s)(slot_id F sl \<mapsto> sl\<lparr>fs_fact := (fs_fact sl)\<lparr>pf_value := v\<rparr>\<rparr>)"
proof -
  let ?sl = "sl\<lparr>fs_fact := (fs_fact sl)\<lparr>pf_value := v\<rparr>\<rparr>"
  have "multi_rel (ps_by_owner s) = ordinal_rows slot_owners ((slot_at s)(i \<mapsto> ?sl))" "multi_sorted (ps_by_owner s)"
    using ok rows_replace(2) [of "slot_at s" i sl ?sl slot_owners, OF at] by (simp_all add: fact_store_ok_def slot_indexes_def)
  moreover have "owner_set_ok (pf_writers (fs_fact sl))" using ok at unfolding fact_store_ok_def slots_ok_def by blast
  ultimately obtain t where t: "set_slot i (Some ?sl) s = Some t" "fact_store_ok F (t\<lparr>ps_by_owner := ps_by_owner s\<rparr>)"
    "live F (t\<lparr>ps_by_owner := ps_by_owner s\<rparr>) = (live F s)(slot_id F sl \<mapsto> ?sl)" "ps_by_owner t = ps_by_owner s"
    using replace_slot_ok [where sl' = ?sl and v = v and ws = "pf_writers (fs_fact sl)" and ns = "pf_owner_names (fs_fact sl)" and bo = "ps_by_owner s", OF ok at] by auto
  have same: "t\<lparr>ps_by_owner := ps_by_owner s\<rparr> = t" using t(4) by simp
  show ?thesis using t(1) t(2,3) [unfolded same] at by (simp add: set_value_def slot_at_Some)
qed

lemma add_writer_ok:
  assumes ok: "fact_store_ok F s" and at: "slot_at s i = Some sl"
  shows "\<exists>t ws. add_writer i owner name s = Some t \<and> fact_store_ok F t \<and> owner_set_ok ws \<and> owner_ids ws = insert owner (slot_owners sl) \<and>
    live F t = (live F s)(slot_id F sl \<mapsto> sl\<lparr>fs_fact := (fs_fact sl)\<lparr>pf_writers := ws, pf_owner_names := pf_owner_names (fs_fact sl) @ [(owner, name)]\<rparr>\<rparr>)"
proof -
  have "owner_set_ok (pf_writers (fs_fact sl))" using ok at unfolding fact_store_ok_def slots_ok_def by blast
  then obtain ws where ws: "owner_set_insert (pf_writers (fs_fact sl)) owner = Some ws" "owner_set_ok ws" "owner_ids ws = insert owner (slot_owners sl)"
    using owner_set_insert_ids by blast
  let ?sl = "sl\<lparr>fs_fact := (fs_fact sl)\<lparr>pf_writers := ws, pf_owner_names := pf_owner_names (fs_fact sl) @ [(owner, name)]\<rparr>\<rparr>"
  let ?bo = "multi_insert owner (fs_ordinal sl) i (ps_by_owner s)"
  have s: "multi_sorted (ps_by_owner s)" "multi_rel (ps_by_owner s) = ordinal_rows slot_owners (slot_at s)" using ok by (auto simp: fact_store_ok_def slot_indexes_def)
  have uniq: "slot_at s j = Some a \<Longrightarrow> fs_ordinal a = fs_ordinal sl \<Longrightarrow> j = i" for j a using ok at unfolding fact_store_ok_def slots_ok_def by blast
  have "(x, ord, j) \<in> multi_rel ?bo \<longleftrightarrow> (x, ord, j) \<in> ordinal_rows slot_owners ((slot_at s)(i \<mapsto> ?sl))" for x ord j
    using at uniq [of j] by (cases "slot_at s j") (auto simp: multi_insert_rel [OF s(1)] s(2) ordinal_row ws(3))
  then have "multi_rel ?bo = ordinal_rows slot_owners ((slot_at s)(i \<mapsto> ?sl))" by (intro set_eqI) (simp only: split_paired_all)
  from replace_slot_ok [where sl' = ?sl and v = "pf_value (fs_fact sl)" and ws = ws and ns = "pf_owner_names (fs_fact sl) @ [(owner, name)]" and bo = ?bo, OF ok at _ _ ws(2) multi_insert_sorted [OF s(1)] this]
  show ?thesis using ws at by (auto simp: add_writer_def slot_at_Some)
qed

lemma remove_writer_ok:
  assumes ok: "fact_store_ok F s" and at: "slot_at s i = Some sl"
  shows "\<exists>t ws. remove_writer F i owner s = Some (slot_owners sl \<subseteq> {owner}, t) \<and> fact_store_ok F t \<and> owner_set_ok ws \<and> owner_ids ws = slot_owners sl - {owner} \<and>
    live F t = (if slot_owners sl \<subseteq> {owner} then (live F s)(slot_id F sl := None)
      else (live F s)(slot_id F sl \<mapsto> sl\<lparr>fs_fact := (fs_fact sl)\<lparr>pf_writers := ws, pf_owner_names := filter (\<lambda>(id, _). id \<noteq> owner) (pf_owner_names (fs_fact sl))\<rparr>\<rparr>))"
proof -
  have "owner_set_ok (pf_writers (fs_fact sl))" using ok at unfolding fact_store_ok_def slots_ok_def by blast
  then obtain ws where ws: "owner_set_remove (pf_writers (fs_fact sl)) owner = Some ws" "owner_set_ok ws" "owner_ids ws = slot_owners sl - {owner}"
    using owner_set_remove_ids by blast
  let ?ns = "filter (\<lambda>(id, _). id \<noteq> owner) (pf_owner_names (fs_fact sl))"
  let ?sl = "sl\<lparr>fs_fact := (fs_fact sl)\<lparr>pf_writers := ws, pf_owner_names := ?ns\<rparr>\<rparr>"
  let ?bo = "multi_remove owner (fs_ordinal sl) (ps_by_owner s)"
  have s: "multi_sorted (ps_by_owner s)" "multi_rel (ps_by_owner s) = ordinal_rows slot_owners (slot_at s)" using ok by (auto simp: fact_store_ok_def slot_indexes_def)
  have uniq: "slot_at s j = Some a \<Longrightarrow> fs_ordinal a = fs_ordinal sl \<Longrightarrow> j = i" for j a using ok at unfolding fact_store_ok_def slots_ok_def by blast
  have "(x, ord, j) \<in> multi_rel ?bo \<longleftrightarrow> (x, ord, j) \<in> ordinal_rows slot_owners ((slot_at s)(i \<mapsto> ?sl))" for x ord j
    using at uniq [of j] by (cases "slot_at s j") (auto simp: multi_remove_rel s(2) ordinal_row ws(3))
  then have "multi_rel ?bo = ordinal_rows slot_owners ((slot_at s)(i \<mapsto> ?sl))" by (intro set_eqI) (simp only: split_paired_all)
  from replace_slot_ok [where sl' = ?sl and v = "pf_value (fs_fact sl)" and ws = ws and ns = ?ns and bo = ?bo, OF ok at _ _ ws(2) multi_remove_sorted [OF s(1)] this]
  obtain t where t: "set_slot i (Some ?sl) s = Some t" "fact_store_ok F (t\<lparr>ps_by_owner := ?bo\<rparr>)" "live F (t\<lparr>ps_by_owner := ?bo\<rparr>) = (live F s)(slot_id F sl \<mapsto> ?sl)"
    "slot_at (t\<lparr>ps_by_owner := ?bo\<rparr>) i = Some ?sl" "ps_by_owner t = ps_by_owner s" by auto
  let ?t = "t\<lparr>ps_by_owner := ?bo\<rparr>"
  have empty: "owner_set_is_empty ws \<longleftrightarrow> slot_owners sl \<subseteq> {owner}" using owner_set_is_empty_ids [OF ws(2)] ws(3) by auto
  have id: "slot_id F ?sl = slot_id F sl" by (simp add: slot_id_def)
  show ?thesis
  proof (cases "slot_owners sl \<subseteq> {owner}")
    case False
    then have "remove_writer F i owner s = Some (False, ?t)" using ws(1) t(1,5) at empty by (simp add: remove_writer_def slot_at_Some)
    then show ?thesis using False t(2,3) ws(2,3) by auto
  next
    case True
    obtain u where u: "put_slot F i None ?t = Some u" "fact_store_ok F u" "live F u = (live F ?t)(slot_id F ?sl := None)"
      using put_slot_None [OF t(2,4)] by blast
    have "ps_slots (unindex_slot F i ?t) = ps_slots ?t" by (simp add: unindex_slot_def Let_def split: option.split)
    then have "remove_writer F i owner s = Some (True, u)"
      using ws(1) t(1,4,5) at empty True u(1) by (simp add: remove_writer_def slot_at_Some put_slot_def Let_def split: Option.bind_splits)
    then show ?thesis using True u(2,3) t(3) ws(2,3) by (auto simp: id)
  qed
qed

section \<open>Enumeration\<close>

text \<open>The facts of a view, in the order of their ordinals.\<close>

lemma view_slots_live:
  assumes ok: "fact_store_ok F s"
  shows "\<exists>sls. map (slot_at s) (view_slots s v) = map Some sls \<and> sorted_wrt (\<lambda>a b. fs_ordinal a < fs_ordinal b) sls \<and>
    set sls = {sl. \<exists>x. live F s x = Some sl \<and> slot_view sl = v}"
proof -
  define b where "b = (case ps_by_view s v of None \<Rightarrow> [] | Some b \<Rightarrow> b)"
  have ix: "multi_sorted (ps_by_view s)" "multi_rel (ps_by_view s) = ordinal_rows (\<lambda>sl. {slot_view sl}) (slot_at s)" using ok by (auto simp: fact_store_ok_def slot_indexes_def)
  have rows: "(ord, i) \<in> set b \<longleftrightarrow> (\<exists>sl. slot_at s i = Some sl \<and> ord = fs_ordinal sl \<and> slot_view sl = v)" for ord i
    using arg_cong [OF ix(2), of "\<lambda>R. (v, ord, i) \<in> R"] by (auto simp: multi_rel_def ordinal_row b_def split: option.splits)
  have sorted: "btree_sorted b" using ix(1) by (auto simp: multi_sorted_def b_def split: option.split)
  have vs: "view_slots s v = map snd b" by (simp add: view_slots_def b_def split: option.split)
  define sls where "sls = map (\<lambda>(ord, i). the (slot_at s i)) b"
  have at: "slot_at s i = Some (the (slot_at s i)) \<and> fs_ordinal (the (slot_at s i)) = ord" if "(ord, i) \<in> set b" for ord i using that rows by auto
  have "map (slot_at s) (view_slots s v) = map Some sls" using at by (fastforce simp: vs sls_def)
  moreover have "map fs_ordinal sls = map fst b" using at by (fastforce simp: sls_def)
  then have "sorted_wrt (\<lambda>a b. fs_ordinal a < fs_ordinal b) sls" using sorted by (metis sorted_wrt_map)
  moreover have "sl \<in> set sls \<longleftrightarrow> (\<exists>x. live F s x = Some sl \<and> slot_view sl = v)" for sl
  proof -
    have "sl \<in> set sls \<longleftrightarrow> (\<exists>ord i. (ord, i) \<in> set b \<and> sl = the (slot_at s i))" by (auto simp: sls_def image_iff intro: rev_bexI)
    also have "\<dots> \<longleftrightarrow> (\<exists>i. slot_at s i = Some sl \<and> slot_view sl = v)" unfolding rows by (metis option.sel)
    finally show ?thesis using store_facts [OF ok] by blast
  qed
  ultimately show ?thesis by blast
qed

lemma collect_inputs_map:
  "map (slot_at s) is = map Some sls \<Longrightarrow> collect_inputs input s is = Some (concat (map (\<lambda>sl. case input (pf_key (fs_fact sl)) of None \<Rightarrow> [] | Some k \<Rightarrow> [k]) sls))"
proof (induction "is" arbitrary: sls)
  case (Cons i "is")
  then obtain sl rest where "sls = sl # rest" "slot_at s i = Some sl" "map (slot_at s) is = map Some rest" by (cases sls) auto
  then show ?case using Cons.IH [of rest] by (auto simp: slot_at_Some split: option.split)
qed simp

end
