(* ===== verification/Fact_Journal.thy ===== *)
theory Fact_Journal
  imports Fact_Store
begin

text \<open>
  The coalescing command journal of \<^verbatim>\<open>src/reactive/store.rs\<close> (\<^verbatim>\<open>FactJournal\<close>): a command's writes,
  retractions and installed slots go through \<^verbatim>\<open>stage\<close>, which records the slot before the first touch
  and applies the staged slot to the live store at once; a commit reads off the changes and a
  rollback restores the recorded slots in reverse order. The hash map of the journal is a list of
  pairs searched by the keys' own equality. An error is the left of a sum, with the key itself in the
  place of its debug rendering; work counters and tracing are left out.
\<close>

section \<open>Keys, entries and errors\<close>

record 'k erased_key =
  ek_view :: nat
  ek_hash :: u64
  ek_key :: 'k

definition erased_new :: "('k, 'v) fact_ops \<Rightarrow> nat \<Rightarrow> 'k \<Rightarrow> 'k erased_key" where
  "erased_new F view key = \<lparr>ek_view = view, ek_hash = key_hash F key, ek_key = key\<rparr>"

definition erased_eq :: "('k, 'v) fact_ops \<Rightarrow> 'k erased_key \<Rightarrow> 'k erased_key \<Rightarrow> bool" where
  "erased_eq F a b \<longleftrightarrow> ek_view a = ek_view b \<and> ek_hash a = ek_hash b \<and> key_eq F (ek_key a) (ek_key b)"

record ('k, 'v) journal_entry =
  je_key :: "'k erased_key"
  je_first :: "('k, 'v) fact_slot option"
  je_staged :: "('k, 'v) fact_slot option"
  je_reserved :: bool

record ('k, 'v) fact_journal =
  fj_entries :: "('k, 'v) journal_entry list"
  fj_index :: "('k erased_key \<times> nat) list"

record 'k fact_change =
  fc_view :: nat
  fc_key :: 'k
  fc_presence_changed :: bool

datatype 'k store_error = ConflictingWrites (se_view: string) (se_input: 'k) (se_functions: "string list")

definition conflicting_write :: "string \<Rightarrow> 'k \<Rightarrow> string \<Rightarrow> (u64 \<times> string) list \<Rightarrow> 'k store_error" where
  "conflicting_write view key writer owners = ConflictingWrites view key (writer # map snd owners)"

definition journal_default :: "('k, 'v) fact_journal" where
  "journal_default = \<lparr>fj_entries = [], fj_index = []\<rparr>"

definition journal_is_empty :: "('k, 'v) fact_journal \<Rightarrow> bool" where
  "journal_is_empty j \<longleftrightarrow> fj_entries j = []"

definition journal_touched :: "('k, 'v) fact_journal \<Rightarrow> nat" where
  "journal_touched j = length (fj_entries j)"

section \<open>Staging\<close>

definition journal_position :: "('k, 'v) fact_ops \<Rightarrow> ('k, 'v) fact_journal \<Rightarrow> 'k erased_key \<Rightarrow> nat option" where
  "journal_position F j key = map_option snd (find (\<lambda>(k, p). erased_eq F k key) (fj_index j))"

fun index_put :: "('k, 'v) fact_ops \<Rightarrow> 'k erased_key \<Rightarrow> nat \<Rightarrow> ('k erased_key \<times> nat) list \<Rightarrow> ('k erased_key \<times> nat) list" where
  "index_put F key p [] = [(key, p)]"
| "index_put F key p ((k, q) # rows) = (if erased_eq F k key then (k, p) # rows else (k, q) # index_put F key p rows)"

definition first_touch :: "('k, 'v) fact_ops \<Rightarrow> ('k, 'v) plain_state \<Rightarrow> 'k erased_key \<Rightarrow> ('k, 'v) fact_journal \<Rightarrow> (nat \<times> ('k, 'v) fact_journal) option" where
  "first_touch F s key j = (case journal_position F j key of
     Some p \<Rightarrow> Some (p, j)
   | None \<Rightarrow> do {
       before \<leftarrow> plain_slot F s (ek_view key) (ek_key key);
       let p = length (fj_entries j);
       Some (p, j\<lparr>fj_entries := fj_entries j @ [\<lparr>je_key = key, je_first = before, je_staged = before, je_reserved = False\<rparr>],
                  fj_index := index_put F key p (fj_index j)\<rparr>) })"

text \<open>The effective slot: staged if the key was touched, else live.\<close>

definition current_slot :: "('k, 'v) fact_ops \<Rightarrow> ('k, 'v) plain_state \<Rightarrow> ('k, 'v) fact_journal \<Rightarrow> 'k erased_key \<Rightarrow> ('k, 'v) fact_slot option option" where
  "current_slot F s j key = (case journal_position F j key of
     Some p \<Rightarrow> map_option je_staged (nth_opt (fj_entries j) p)
   | None \<Rightarrow> plain_slot F s (ek_view key) (ek_key key))"

definition value_changed :: "('k, 'v) fact_ops \<Rightarrow> ('k, 'v) fact_slot option \<Rightarrow> ('k, 'v) fact_slot option \<Rightarrow> bool" where
  "value_changed F before after = (case (before, after) of
     (None, None) \<Rightarrow> False | (None, Some _) \<Rightarrow> True | (Some _, None) \<Rightarrow> True
   | (Some a, Some b) \<Rightarrow> slot_view a \<noteq> slot_view b \<or> \<not> value_eq F (pf_value (fs_fact a)) (pf_value (fs_fact b)))"

definition presence_changed :: "('k, 'v) fact_slot option \<Rightarrow> ('k, 'v) fact_slot option \<Rightarrow> bool" where
  "presence_changed before after \<longleftrightarrow> (before = None) \<noteq> (after = None)"

definition assign_ordinal :: "('k, 'v) fact_slot option \<Rightarrow> ('k, 'v) fact_slot option \<Rightarrow> ('k, 'v) plain_state \<Rightarrow> (('k, 'v) fact_slot option \<times> ('k, 'v) plain_state) option" where
  "assign_ordinal before after s = (case after of
     Some sl \<Rightarrow> if before = None \<and> fs_ordinal sl = 0
       then do { bumped \<leftarrow> checked_add_u64 (ps_next_ordinal s) 1;
                 Some (Some (sl\<lparr>fs_ordinal := ps_next_ordinal s\<rparr>), s\<lparr>ps_next_ordinal := bumped\<rparr>) }
       else Some (after, s)
   | None \<Rightarrow> Some (after, s))"

definition apply_staged :: "('k, 'v) fact_ops \<Rightarrow> 'k erased_key \<Rightarrow> ('k, 'v) fact_slot option \<Rightarrow> ('k, 'v) fact_slot option \<Rightarrow> ('k, 'v) plain_state \<Rightarrow> ('k, 'v) plain_state option" where
  "apply_staged F key before after s = (case after of
     None \<Rightarrow> do { found \<leftarrow> slot_index F s (ek_view key) (ek_key key);
               (case found of None \<Rightarrow> Some s | Some i \<Rightarrow> put_slot F i None s) }
   | Some sl \<Rightarrow> (case before of
       None \<Rightarrow> map_option snd (insert_fact F (fs_fact sl) s)
     | Some prev \<Rightarrow> do { found \<leftarrow> slot_index F s (ek_view key) (ek_key key);
               (case found of
                  Some i \<Rightarrow> if fs_ordinal prev = fs_ordinal sl then put_slot F i (Some sl) s
                    else do { s \<leftarrow> put_slot F i None s; map_option snd (insert_fact F (fs_fact sl) s) }
                | None \<Rightarrow> map_option snd (insert_fact F (fs_fact sl) s)) }))"

type_synonym ('k, 'v) journaled = "('k, 'v) plain_state \<times> ('k, 'v) fact_journal"

definition stage :: "('k, 'v) fact_ops \<Rightarrow> ('k, 'v) plain_state \<Rightarrow> ('k, 'v) fact_journal \<Rightarrow> 'k erased_key \<Rightarrow> ('k, 'v) fact_slot option \<Rightarrow>
    ('k fact_change option \<times> ('k, 'v) journaled) option" where
  "stage F s j key after = do {
     (p, j) \<leftarrow> first_touch F s key j;
     e \<leftarrow> nth_opt (fj_entries j) p;
     let before = je_staged e;
     let round_change = value_changed F before after;
     let presence = presence_changed before after;
     (after, s) \<leftarrow> assign_ordinal before after s;
     s \<leftarrow> apply_staged F key before after s;
     Some (if round_change then Some \<lparr>fc_view = ek_view key, fc_key = ek_key key, fc_presence_changed = presence\<rparr> else None,
           s, j\<lparr>fj_entries := (fj_entries j)[p := e\<lparr>je_staged := after\<rparr>]\<rparr>) }"

definition staged :: "('k, 'v) fact_ops \<Rightarrow> ('k, 'v) plain_state \<Rightarrow> ('k, 'v) fact_journal \<Rightarrow> 'k erased_key \<Rightarrow> ('k, 'v) fact_slot option \<Rightarrow>
    (('k store_error + 'k fact_change option) \<times> ('k, 'v) journaled) option" where
  "staged F s j key after = map_option (\<lambda>(c, sj). (Inr c, sj)) (stage F s j key after)"

section \<open>Writes, installs and retractions\<close>

definition journal_write :: "('k, 'v) fact_ops \<Rightarrow> nat \<Rightarrow> string \<Rightarrow> 'k \<Rightarrow> 'v option \<Rightarrow> u64 \<Rightarrow> string \<Rightarrow> bool \<Rightarrow> ('k, 'v) journaled \<Rightarrow>
    (('k store_error + 'k fact_change option) \<times> ('k, 'v) journaled) option" where
  "journal_write F view name key v writer writer_name shareable = (\<lambda>(s, j). do {
     let erased = erased_new F view key;
     current \<leftarrow> current_slot F s j erased;
     (case current of
       None \<Rightarrow> (case v of None \<Rightarrow> Some (Inr None, s, j)
         | Some v \<Rightarrow> do {
             (p, j) \<leftarrow> first_touch F s erased j;
             e \<leftarrow> nth_opt (fj_entries j) p;
             let j = j\<lparr>fj_entries := (fj_entries j)[p := e\<lparr>je_reserved := True\<rparr>]\<rparr>;
             writers \<leftarrow> owner_set_insert owner_set_empty writer;
             staged F s j erased (Some \<lparr>fs_ordinal = 0, fs_fact = \<lparr>pf_view = view, pf_name = name, pf_key = key, pf_value = v,
               pf_writers = writers, pf_owner_names = [(writer, writer_name)], pf_shared = shareable\<rparr>\<rparr>) })
     | Some sl \<Rightarrow> do {
         let pf = fs_fact sl;
         owner_present \<leftarrow> owner_set_contains (pf_writers pf) writer;
         if \<not> owner_present \<and> \<not> (pf_shared pf \<and> shareable)
         then Some (Inl (conflicting_write name key writer_name (pf_owner_names pf)), s, j)
         else if \<not> owner_present
         then (case v of None \<Rightarrow> Some (Inr None, s, j)
           | Some v \<Rightarrow> if \<not> value_eq F (pf_value pf) v
               then Some (Inl (conflicting_write name key writer_name (pf_owner_names pf)), s, j)
               else do {
                 writers \<leftarrow> owner_set_insert (pf_writers pf) writer;
                 staged F s j erased (Some (sl\<lparr>fs_fact := pf\<lparr>pf_writers := writers, pf_owner_names := pf_owner_names pf @ [(writer, writer_name)]\<rparr>\<rparr>)) })
         else (case v of
           Some v \<Rightarrow> if value_eq F (pf_value pf) v then Some (Inr None, s, j)
             else if pf_shared pf \<and> owner_set_len (pf_writers pf) > 1
             then Some (Inl (conflicting_write name key writer_name (pf_owner_names pf)), s, j)
             else staged F s j erased (Some (sl\<lparr>fs_fact := pf\<lparr>pf_value := v\<rparr>\<rparr>))
         | None \<Rightarrow> if pf_shared pf \<and> owner_set_len (pf_writers pf) > 1
             then do {
               writers \<leftarrow> owner_set_remove (pf_writers pf) writer;
               staged F s j erased (Some (sl\<lparr>fs_fact := pf\<lparr>pf_writers := writers, pf_owner_names := filter (\<lambda>(id, _). id \<noteq> writer) (pf_owner_names pf)\<rparr>\<rparr>)) }
             else staged F s j erased None) }) })"

text \<open>The writers of an installed slot join those of an equal fact, each with its name.\<close>

definition merge_owner :: "(u64 \<times> string) list \<Rightarrow> u64 \<Rightarrow> ('k, 'v) plain_fact \<Rightarrow> ('k, 'v) plain_fact option" where
  "merge_owner names owner merged = do {
     present \<leftarrow> owner_set_contains (pf_writers merged) owner;
     if present then Some merged
     else do {
       writers \<leftarrow> owner_set_insert (pf_writers merged) owner;
       Some (merged\<lparr>pf_writers := writers,
         pf_owner_names := pf_owner_names merged @ (case find (\<lambda>(id, _). id = owner) names of None \<Rightarrow> [] | Some (_, name) \<Rightarrow> [(owner, name)])\<rparr>) } }"

definition journal_install :: "('k, 'v) fact_ops \<Rightarrow> ('k, 'v) fact_slot \<Rightarrow> ('k, 'v) journaled \<Rightarrow>
    (('k store_error + 'k fact_change option) \<times> ('k, 'v) journaled) option" where
  "journal_install F sl = (\<lambda>(s, j). do {
     let pf = fs_fact sl;
     let erased = erased_new F (pf_view pf) (pf_key pf);
     current \<leftarrow> current_slot F s j erased;
     (case current of
       None \<Rightarrow> staged F s j erased (Some sl)
     | Some existing \<Rightarrow>
         if \<not> value_eq F (pf_value (fs_fact existing)) (pf_value pf) \<or> pf_shared (fs_fact existing) \<noteq> pf_shared pf
         then Some (Inl (ConflictingWrites (pf_name pf) (pf_key pf) (map snd (pf_owner_names pf) @ map snd (pf_owner_names (fs_fact existing)))), s, j)
         else do {
           merged \<leftarrow> fold_opt (merge_owner (pf_owner_names pf)) (owner_set_iter (pf_writers pf)) (fs_fact existing);
           staged F s j erased (Some (existing\<lparr>fs_fact := merged\<rparr>)) }) })"

definition journal_retract :: "('k, 'v) fact_ops \<Rightarrow> nat \<Rightarrow> 'k \<Rightarrow> u64 \<Rightarrow> ('k, 'v) journaled \<Rightarrow>
    (('k store_error + 'k fact_change option) \<times> ('k, 'v) journaled) option" where
  "journal_retract F view key writer = (\<lambda>(s, j). do {
     let erased = erased_new F view key;
     current \<leftarrow> current_slot F s j erased;
     (case current of
       None \<Rightarrow> Some (Inr None, s, j)
     | Some sl \<Rightarrow> do {
         let pf = fs_fact sl;
         owner_present \<leftarrow> owner_set_contains (pf_writers pf) writer;
         if \<not> owner_present then Some (Inr None, s, j)
         else if pf_shared pf \<and> owner_set_len (pf_writers pf) > 1
         then do {
           writers \<leftarrow> owner_set_remove (pf_writers pf) writer;
           staged F s j erased (Some (sl\<lparr>fs_fact := pf\<lparr>pf_writers := writers, pf_owner_names := filter (\<lambda>(id, _). id \<noteq> writer) (pf_owner_names pf)\<rparr>\<rparr>)) }
         else staged F s j erased None }) })"

section \<open>Commit, rollback and previous values\<close>

definition entry_change :: "('k, 'v) journal_entry \<Rightarrow> 'k fact_change" where
  "entry_change e = \<lparr>fc_view = ek_view (je_key e), fc_key = ek_key (je_key e), fc_presence_changed = presence_changed (je_first e) (je_staged e)\<rparr>"

definition commit_changes :: "('k, 'v) fact_ops \<Rightarrow> ('k, 'v) fact_journal \<Rightarrow> 'k fact_change list" where
  "commit_changes F j = map entry_change (filter (\<lambda>e. value_changed F (je_first e) (je_staged e)) (fj_entries j))"

record ('k, 'v) journal_delta =
  jd_view :: nat
  jd_view_name :: string
  jd_key :: 'k
  jd_final :: "(nat \<times> 'k \<times> 'v) option"

definition entry_delta :: "('k, 'v) journal_entry \<Rightarrow> ('k, 'v) journal_delta" where
  "entry_delta e = \<lparr>jd_view = ek_view (je_key e),
     jd_view_name = (case (je_staged e, je_first e) of (Some sl, _) \<Rightarrow> pf_name (fs_fact sl) | (None, Some sl) \<Rightarrow> pf_name (fs_fact sl) | (None, None) \<Rightarrow> []),
     jd_key = ek_key (je_key e),
     jd_final = map_option (\<lambda>sl. (fs_ordinal sl, pf_key (fs_fact sl), pf_value (fs_fact sl))) (je_staged e)\<rparr>"

definition commit_deltas :: "('k, 'v) fact_ops \<Rightarrow> ('k, 'v) fact_journal \<Rightarrow> ('k, 'v) journal_delta list" where
  "commit_deltas F j = map entry_delta (filter (\<lambda>e. value_changed F (je_first e) (je_staged e)) (fj_entries j))"

definition rollback_entry :: "('k, 'v) fact_ops \<Rightarrow> ('k, 'v) journal_entry \<Rightarrow> ('k, 'v) plain_state \<Rightarrow> ('k, 'v) plain_state option" where
  "rollback_entry F e s = (case je_first e of
     Some before \<Rightarrow> do {
       found \<leftarrow> slot_index F s (pf_view (fs_fact before)) (pf_key (fs_fact before));
       (case found of Some i \<Rightarrow> put_slot F i (Some before) s
        | None \<Rightarrow> do { let (i, s) = reserve_slot s; s \<leftarrow> set_slot i (Some before) s; index_slot F i s }) }
   | None \<Rightarrow> do {
       found \<leftarrow> slot_index F s (ek_view (je_key e)) (ek_key (je_key e));
       (case found of Some i \<Rightarrow> put_slot F i None s | None \<Rightarrow> Some s) })"

definition rollback :: "('k, 'v) fact_ops \<Rightarrow> ('k, 'v) fact_journal \<Rightarrow> ('k, 'v) plain_state \<Rightarrow> ('k, 'v) plain_state option" where
  "rollback F j s = fold_opt (rollback_entry F) (rev (fj_entries j)) s"

definition first_value :: "('k, 'v) fact_ops \<Rightarrow> ('k, 'v) fact_journal \<Rightarrow> nat \<Rightarrow> 'k \<Rightarrow> 'v option option" where
  "first_value F j view key = (case journal_position F j (erased_new F view key) of
     None \<Rightarrow> Some None
   | Some p \<Rightarrow> map_option (\<lambda>e. map_option (\<lambda>sl. pf_value (fs_fact sl)) (je_first e)) (nth_opt (fj_entries j) p))"

definition first_present :: "('k, 'v) fact_ops \<Rightarrow> ('k, 'v) fact_journal \<Rightarrow> nat \<Rightarrow> 'k \<Rightarrow> bool option option" where
  "first_present F j view key = (case journal_position F j (erased_new F view key) of
     None \<Rightarrow> Some None
   | Some p \<Rightarrow> map_option (\<lambda>e. Some (je_first e \<noteq> None)) (nth_opt (fj_entries j) p))"

text \<open>\<^verbatim>\<open>previous_read\<close> of \<^verbatim>\<open>plain.rs\<close>: the journal's value of before, or else the live value.\<close>

definition previous_read :: "('k, 'v) fact_ops \<Rightarrow> ('k, 'v) journaled \<Rightarrow> nat \<Rightarrow> 'k \<Rightarrow> 'v option option" where
  "previous_read F = (\<lambda>(s, j) view key. do {
     before \<leftarrow> first_value F j view key;
     (case before of Some v \<Rightarrow> Some (Some v) | None \<Rightarrow> plain_read F s view key) })"

text \<open>The previous inputs of a view: \<open>input\<close> downcasts a key, \<open>render\<close> is its debug rendering.\<close>

definition adjust_inputs :: "('k \<Rightarrow> 'i option) \<Rightarrow> nat \<Rightarrow> ('k, 'v) journal_entry \<Rightarrow> 'i list \<Rightarrow> 'i list" where
  "adjust_inputs input view e keys = (if ek_view (je_key e) \<noteq> view then keys
     else case input (ek_key (je_key e)) of None \<Rightarrow> keys
     | Some k \<Rightarrow> (case (je_first e, je_staged e) of
           (Some _, None) \<Rightarrow> filter (\<lambda>key. key \<noteq> k) keys
         | (None, Some _) \<Rightarrow> keys @ [k]
         | _ \<Rightarrow> keys))"

definition previous_inputs :: "('k \<Rightarrow> 'i option) \<Rightarrow> ('i \<Rightarrow> 's::linorder) \<Rightarrow> ('k, 'v) journaled \<Rightarrow> nat \<Rightarrow> 'i list option" where
  "previous_inputs input render = (\<lambda>(s, j) view. do {
     keys \<leftarrow> plain_inputs input s view;
     Some (remdups_adj (sort_key render (fold (adjust_inputs input view) (fj_entries j) keys))) })"

end
