(* ===== verification/Journal_Correct.thy ===== *)
theory Journal_Correct
  imports Fact_Journal
begin

text \<open>
  Correctness of the command journal. \<open>journal_ok\<close> relates a journal to the live store and to the map
  of facts at the start of the command: the recorded first slots are those of the start, a staged slot
  carries the live fact, untouched facts are unchanged, and no ordinal is ever used for two facts
  (\<open>own\<close>, the fact each ordinal was handed out for). Writing and retracting keep it and follow the
  abstract ownership protocol \<open>write_spec\<close>.
\<close>

section \<open>Positions in the journal\<close>

definition ek_id :: "('k, 'v) fact_ops \<Rightarrow> 'k erased_key \<Rightarrow> 'k identity" where
  "ek_id F k = fact_id F (ek_view k) (ek_key k)"

definition ek_wf :: "('k, 'v) fact_ops \<Rightarrow> 'k erased_key \<Rightarrow> bool" where
  "ek_wf F k \<longleftrightarrow> ek_hash k = key_hash F (ek_key k)"

abbreviation entry_id :: "('k, 'v) fact_ops \<Rightarrow> ('k, 'v) journal_entry \<Rightarrow> 'k identity" where
  "entry_id F e \<equiv> ek_id F (je_key e)"

definition touched_ids :: "('k, 'v) fact_ops \<Rightarrow> ('k, 'v) fact_journal \<Rightarrow> 'k identity set" where
  "touched_ids F j = entry_id F ` set (fj_entries j)"

definition key_index_ok :: "('k, 'v) fact_ops \<Rightarrow> ('k, 'v) fact_journal \<Rightarrow> bool" where
  "key_index_ok F j \<longleftrightarrow> fj_index j = zip (map je_key (fj_entries j)) [0..<length (fj_entries j)] \<and>
     distinct (map (entry_id F) (fj_entries j)) \<and> (\<forall>e \<in> set (fj_entries j). ek_wf F (je_key e))"

lemma erased_new_simps [simp]: "ek_id F (erased_new F view key) = fact_id F view key" "ek_wf F (erased_new F view key)"
  "ek_view (erased_new F view key) = view" "ek_key (erased_new F view key) = key"
  by (simp_all add: ek_id_def ek_wf_def erased_new_def)

lemma erased_eq_id: "fact_contract F \<Longrightarrow> ek_wf F a \<Longrightarrow> ek_wf F b \<Longrightarrow> erased_eq F a b \<longleftrightarrow> ek_id F a = ek_id F b"
  using fact_contract_laws(4) [of F "ek_key a" "ek_key b"] by (auto simp: erased_eq_def ek_id_def ek_wf_def fact_id_def key_class)

lemma find_zip_upt:
  "find (\<lambda>(k, p). P k) (zip ks [m..<m + length ks]) = map_option (\<lambda>i. (ks ! i, m + i)) (position P ks)"
proof (induction ks arbitrary: m)
  case (Cons k ks)
  have "zip (k # ks) [m..<m + length (k # ks)] = (k, m) # zip ks [Suc m..<Suc m + length ks]" using upt_conv_Cons [of m "m + Suc (length ks)"] by (simp del: upt_Suc)
  then show ?case using Cons.IH [of "Suc m"] by (cases "position P ks") auto
qed simp

lemma journal_position_position:
  "key_index_ok F j \<Longrightarrow> journal_position F j key = position (\<lambda>e. erased_eq F (je_key e) key) (fj_entries j)"
proof -
  have pm: "position P (map f xs) = position (\<lambda>x. P (f x)) xs" for P f and xs :: "'z list" by (induction xs) auto
  assume "key_index_ok F j"
  then show ?thesis
    using find_zip_upt [of "\<lambda>k. erased_eq F k key" "map je_key (fj_entries j)" 0]
    by (simp add: journal_position_def key_index_ok_def pm option.map_comp comp_def option.map_ident)
qed

lemma journal_position_ok:
  assumes F: "fact_contract F" and ok: "key_index_ok F j" and wf: "ek_wf F key"
  obtains (untouched) "journal_position F j key = None" "ek_id F key \<notin> touched_ids F j"
  | (known) p where "journal_position F j key = Some p" "p < length (fj_entries j)" "entry_id F (fj_entries j ! p) = ek_id F key" "ek_id F key \<in> touched_ids F j"
proof -
  have eq: "e \<in> set (fj_entries j) \<Longrightarrow> erased_eq F (je_key e) key \<longleftrightarrow> entry_id F e = ek_id F key" for e
    using ok wf erased_eq_id [OF F] by (auto simp: key_index_ok_def)
  show thesis
  proof (cases "journal_position F j key")
    case None
    then have "ek_id F key \<notin> touched_ids F j"
      using eq by (force simp: journal_position_position [OF ok] position_None_iff touched_ids_def)
    then show thesis using untouched None by blast
  next
    case (Some p)
    then have p: "p < length (fj_entries j)" "erased_eq F (je_key (fj_entries j ! p)) key"
      using position_Some [of "\<lambda>e. erased_eq F (je_key e) key" "fj_entries j" p] by (simp_all add: journal_position_position [OF ok])
    then have id: "entry_id F (fj_entries j ! p) = ek_id F key" using eq [OF nth_mem] by blast
    then have "ek_id F key \<in> touched_ids F j" unfolding touched_ids_def using p(1) by (metis imageI nth_mem)
    then show thesis using known Some p(1) id by blast
  qed
qed

lemma index_put_absent: "\<forall>(k, p) \<in> set rows. \<not> erased_eq F k key \<Longrightarrow> index_put F key p rows = rows @ [(key, p)]"
  by (induction F key p rows rule: index_put.induct) auto

lemma index_ok_update:
  assumes "key_index_ok F j" "p < length (fj_entries j)" "je_key e = je_key (fj_entries j ! p)"
  shows "key_index_ok F (j\<lparr>fj_entries := (fj_entries j)[p := e]\<rparr>)" "touched_ids F (j\<lparr>fj_entries := (fj_entries j)[p := e]\<rparr>) = touched_ids F j"
    "journal_position F (j\<lparr>fj_entries := (fj_entries j)[p := e]\<rparr>) key = journal_position F j key"
proof -
  have keys: "map je_key ((fj_entries j)[p := e]) = map je_key (fj_entries j)" using assms(2,3) by (metis list_update_id map_update)
  have ids: "map (entry_id F) ((fj_entries j)[p := e]) = map (entry_id F) (fj_entries j)"
    using arg_cong [OF keys, of "map (ek_id F)"] unfolding map_map comp_def .
  show "touched_ids F (j\<lparr>fj_entries := (fj_entries j)[p := e]\<rparr>) = touched_ids F j"
    using arg_cong [OF ids, of set] by (simp add: touched_ids_def image_set del: set_map)
  have "\<forall>e' \<in> set ((fj_entries j)[p := e]). ek_wf F (je_key e')" using assms set_update_subset_insert [of "fj_entries j" p e] by (auto simp: key_index_ok_def)
  then show "key_index_ok F (j\<lparr>fj_entries := (fj_entries j)[p := e]\<rparr>)" using assms(1) keys ids by (simp add: key_index_ok_def)
  show "journal_position F (j\<lparr>fj_entries := (fj_entries j)[p := e]\<rparr>) key = journal_position F j key" by (simp add: journal_position_def)
qed

section \<open>The invariant\<close>

definition fact_good :: "('k, 'v) plain_fact \<Rightarrow> bool" where
  "fact_good pf \<longleftrightarrow> owner_set_ok (pf_writers pf) \<and> owner_ids (pf_writers pf) \<noteq> {} \<and> (\<not> pf_shared pf \<longrightarrow> card (owner_ids (pf_writers pf)) = 1)"

definition owned :: "(nat \<Rightarrow> 'k identity) \<Rightarrow> nat \<Rightarrow> ('k, 'v) fact_slot \<Rightarrow> 'k identity \<Rightarrow> bool" where
  "owned own n sl x \<longleftrightarrow> own (fs_ordinal sl) = x \<and> fs_ordinal sl < n"

definition owned_map :: "('k, 'v) fact_ops \<Rightarrow> (nat \<Rightarrow> 'k identity) \<Rightarrow> nat \<Rightarrow> ('k identity \<rightharpoonup> ('k, 'v) fact_slot) \<Rightarrow> bool" where
  "owned_map F own n L \<longleftrightarrow> (\<forall>x sl. L x = Some sl \<longrightarrow> slot_id F sl = x \<and> owned own n sl x \<and> fact_good (fs_fact sl))"

definition entry_ok :: "('k, 'v) fact_ops \<Rightarrow> (nat \<Rightarrow> 'k identity) \<Rightarrow> ('k identity \<rightharpoonup> ('k, 'v) fact_slot) \<Rightarrow> ('k, 'v) plain_state \<Rightarrow> ('k, 'v) journal_entry \<Rightarrow> bool" where
  "entry_ok F own L0 s e \<longleftrightarrow> je_first e = L0 (entry_id F e) \<and>
     (case je_staged e of None \<Rightarrow> live F s (entry_id F e) = None
      | Some st \<Rightarrow> (\<exists>sl. live F s (entry_id F e) = Some sl \<and> fs_fact sl = fs_fact st) \<and> owned own (ps_next_ordinal s) st (entry_id F e))"

definition journal_ok :: "('k, 'v) fact_ops \<Rightarrow> (nat \<Rightarrow> 'k identity) \<Rightarrow> ('k identity \<rightharpoonup> ('k, 'v) fact_slot) \<Rightarrow> ('k, 'v) journaled \<Rightarrow> bool" where
  "journal_ok F own L0 = (\<lambda>(s, j). fact_store_ok F s \<and> key_index_ok F j \<and> (\<forall>e \<in> set (fj_entries j). entry_ok F own L0 s e) \<and>
     (\<forall>x. x \<notin> touched_ids F j \<longrightarrow> live F s x = L0 x) \<and>
     owned_map F own (ps_next_ordinal s) L0 \<and> owned_map F own (ps_next_ordinal s) (live F s))"

lemma owned_mono: "owned own n sl x \<Longrightarrow> (\<forall>i < n. own' i = own i) \<Longrightarrow> n \<le> m \<Longrightarrow> owned own' m sl x"
  by (auto simp: owned_def)

lemma owned_map_mono: "owned_map F own n L \<Longrightarrow> (\<forall>i < n. own' i = own i) \<Longrightarrow> n \<le> m \<Longrightarrow> owned_map F own' m L"
  unfolding owned_map_def using owned_mono by blast

lemma owned_map_fits:
  assumes "owned_map F own n L" "owned own n sl (slot_id F sl)" "fact_good (fs_fact sl)"
  shows "slot_fits F n sl L"
  unfolding slot_fits_def
proof (intro conjI allI impI)
  fix x a assume "x \<noteq> slot_id F sl" "L x = Some a"
  then show "fs_ordinal a \<noteq> fs_ordinal sl" using assms(1,2) unfolding owned_map_def owned_def by metis
qed (use assms in \<open>auto simp: owned_def fact_good_def\<close>)

lemma current_slot_ok:
  assumes F: "fact_contract F" and ok: "journal_ok F own L0 (s, j)" and wf: "ek_wf F key"
  shows "\<exists>cur. current_slot F s j key = Some cur \<and>
    (case cur of None \<Rightarrow> live F s (ek_id F key) = None
     | Some st \<Rightarrow> (\<exists>sl. live F s (ek_id F key) = Some sl \<and> fs_fact sl = fs_fact st) \<and> owned own (ps_next_ordinal s) st (ek_id F key) \<and> slot_id F st = ek_id F key)"
proof -
  have sok: "fact_store_ok F s" and iok: "key_index_ok F j" using ok by (auto simp: journal_ok_def)
  have sid: "slot_id F st = x" if "live F s x = Some sl" "fs_fact sl = fs_fact st" for st sl x
    using live_slot [OF sok that(1)] that(2) by (simp add: slot_id_def)
  show ?thesis
    using F iok wf
  proof (cases rule: journal_position_ok)
    case untouched
    have "current_slot F s j key = Some (live F s (ek_id F key))" using plain_slot_live [OF F sok] by (simp add: current_slot_def untouched(1) ek_id_def)
    moreover have "owned_map F own (ps_next_ordinal s) (live F s)" using ok by (simp add: journal_ok_def)
    ultimately show ?thesis by (auto simp: owned_map_def split: option.split)
  next
    case (known p)
    have "entry_ok F own L0 s (fj_entries j ! p)" using ok known(2) by (simp add: journal_ok_def)
    then show ?thesis using known sid by (auto simp: current_slot_def entry_ok_def split: option.splits)
  qed
qed


section \<open>Staging\<close>

lemma journal_step:
  assumes ok: "journal_ok F own L0 (s, j)" and p: "p < length (fj_entries j)" "e = fj_entries j ! p" and e': "je_key e' = je_key e" "je_first e' = je_first e"
    and sok: "fact_store_ok F s'" and own: "\<forall>i < ps_next_ordinal s. own' i = own i" "ps_next_ordinal s \<le> ps_next_ordinal s'"
    and live: "live F s' = (live F s)(entry_id F e := l')"
    and after: "case je_staged e' of None \<Rightarrow> l' = None
      | Some st \<Rightarrow> \<exists>sl. l' = Some sl \<and> fs_fact sl = fs_fact st \<and> owned own' (ps_next_ordinal s') st (entry_id F e) \<and> owned own' (ps_next_ordinal s') sl (entry_id F e) \<and> fact_good (fs_fact sl)"
  shows "journal_ok F own' L0 (s', j\<lparr>fj_entries := (fj_entries j)[p := e']\<rparr>)"
proof -
  let ?j = "j\<lparr>fj_entries := (fj_entries j)[p := e']\<rparr>"
  have o: "key_index_ok F j" "\<forall>e \<in> set (fj_entries j). entry_ok F own L0 s e" "\<And>x. x \<notin> touched_ids F j \<Longrightarrow> live F s x = L0 x"
    "owned_map F own (ps_next_ordinal s) L0" "owned_map F own (ps_next_ordinal s) (live F s)" using ok by (auto simp: journal_ok_def)
  note upd = index_ok_update [OF o(1) p(1), of e'] e'(1)
  have t: "entry_id F e \<in> touched_ids F j" using p by (auto simp: touched_ids_def)
  have other: "entry_id F (fj_entries j ! q) \<noteq> entry_id F e" if "q < length (fj_entries j)" "q \<noteq> p" for q
  proof
    assume "entry_id F (fj_entries j ! q) = entry_id F e"
    then have "map (entry_id F) (fj_entries j) ! q = map (entry_id F) (fj_entries j) ! p" using that p by simp
    moreover have "distinct (map (entry_id F) (fj_entries j))" using o(1) by (simp add: key_index_ok_def)
    ultimately show False using that p(1) by (simp only: nth_eq_iff_index_eq length_map)
  qed
  have entries: "entry_ok F own' L0 s' (fj_entries ?j ! q)" if q: "q < length (fj_entries j)" for q
  proof (cases "q = p")
    case True
    have "entry_ok F own L0 s e" using o(2) p by simp
    then show ?thesis using True p after e' by (auto simp: entry_ok_def live split: option.splits)
  next
    case False
    have "entry_ok F own L0 s (fj_entries j ! q)" using o(2) q by simp
    then show ?thesis using False other [OF q False] owned_mono [OF _ own] by (auto simp: entry_ok_def live split: option.splits)
  qed
  have "entry_ok F own' L0 s' a" if "a \<in> set (fj_entries ?j)" for a using that entries by (auto simp: in_set_conv_nth)
  moreover have "key_index_ok F ?j" "touched_ids F ?j = touched_ids F j" using upd p(2) by auto
  moreover have "owned_map F own' (ps_next_ordinal s') L0" by (rule owned_map_mono [OF o(4) own])
  moreover have "owned_map F own' (ps_next_ordinal s') (live F s')"
    unfolding owned_map_def
  proof (intro allI impI)
    fix x sl assume x: "live F s' x = Some sl"
    have sid: "slot_id F sl = x" using live_slot [OF sok x] by simp
    show "slot_id F sl = x \<and> owned own' (ps_next_ordinal s') sl x \<and> fact_good (fs_fact sl)"
    proof (cases "x = entry_id F e")
      case True
      then show ?thesis using x after sid by (auto simp: live split: option.splits)
    next
      case False
      then show ?thesis using x owned_map_mono [OF o(5) own] by (auto simp: live owned_map_def)
    qed
  qed
  ultimately show ?thesis using sok o(3) t by (auto simp: journal_ok_def live)
qed

lemma journal_step_same:
  assumes ok: "journal_ok F own L0 (s, j)" and p: "p < length (fj_entries j)"
  shows "journal_ok F own L0 (s, j\<lparr>fj_entries := (fj_entries j)[p := (fj_entries j ! p)\<lparr>je_reserved := r\<rparr>]\<rparr>)"
proof (rule journal_step [OF ok p refl, where l' = "live F s (entry_id F (fj_entries j ! p))"])
  have "entry_ok F own L0 s (fj_entries j ! p)" "owned_map F own (ps_next_ordinal s) (live F s)" using ok p by (auto simp: journal_ok_def)
  then show "case je_staged ((fj_entries j ! p)\<lparr>je_reserved := r\<rparr>) of None \<Rightarrow> live F s (entry_id F (fj_entries j ! p)) = None
    | Some st \<Rightarrow> \<exists>sl. live F s (entry_id F (fj_entries j ! p)) = Some sl \<and> fs_fact sl = fs_fact st \<and> owned own (ps_next_ordinal s) st (entry_id F (fj_entries j ! p)) \<and>
        owned own (ps_next_ordinal s) sl (entry_id F (fj_entries j ! p)) \<and> fact_good (fs_fact sl)"
    by (auto simp: entry_ok_def owned_map_def split: option.splits)
qed (use ok in \<open>auto simp: journal_ok_def\<close>)

lemma first_touch_ok:
  assumes F: "fact_contract F" and ok: "journal_ok F own L0 (s, j)" and wf: "ek_wf F key"
  shows "\<exists>p j'. first_touch F s key j = Some (p, j') \<and> journal_ok F own L0 (s, j') \<and> p < length (fj_entries j') \<and> entry_id F (fj_entries j' ! p) = ek_id F key \<and>
    journal_position F j' key = Some p \<and> current_slot F s j key = Some (je_staged (fj_entries j' ! p)) \<and> touched_ids F j' = insert (ek_id F key) (touched_ids F j)"
proof -
  have sok: "fact_store_ok F s" and iok: "key_index_ok F j" using ok by (auto simp: journal_ok_def)
  show ?thesis
    using F iok wf
  proof (cases rule: journal_position_ok)
    case (known p)
    then show ?thesis using ok by (auto simp: first_touch_def current_slot_def)
  next
    case untouched
    let ?e = "\<lparr>je_key = key, je_first = live F s (ek_id F key), je_staged = live F s (ek_id F key), je_reserved = False\<rparr>"
    define j' where "j' = j\<lparr>fj_entries := fj_entries j @ [?e], fj_index := fj_index j @ [(key, length (fj_entries j))]\<rparr>"
    have "\<not> erased_eq F k key" if "(k, p) \<in> set (fj_index j)" for k p
    proof -
      have "k \<in> set (map je_key (fj_entries j))" using that iok unfolding key_index_ok_def by (metis set_zip_leftD)
      then obtain e where e: "k = je_key e" "e \<in> set (fj_entries j)" by auto
      then have "ek_id F k \<noteq> ek_id F key" using untouched(2) unfolding touched_ids_def by (metis imageI)
      moreover have "ek_wf F k" using iok e by (simp add: key_index_ok_def)
      ultimately show ?thesis using erased_eq_id [OF F _ wf] by blast
    qed
    then have "index_put F key (length (fj_entries j)) (fj_index j) = fj_index j @ [(key, length (fj_entries j))]" by (intro index_put_absent) auto
    moreover have "plain_slot F s (ek_view key) (ek_key key) = Some (live F s (ek_id F key))" using plain_slot_live [OF F sok] by (simp add: ek_id_def)
    ultimately have run: "first_touch F s key j = Some (length (fj_entries j), j')" "current_slot F s j key = Some (live F s (ek_id F key))"
      by (simp_all add: first_touch_def current_slot_def untouched(1) Let_def j'_def)
    have iok': "key_index_ok F j'" using iok untouched(2) wf by (auto simp: key_index_ok_def j'_def touched_ids_def)
    have t: "touched_ids F j' = insert (ek_id F key) (touched_ids F j)" by (auto simp: touched_ids_def j'_def)
    have own: "owned_map F own (ps_next_ordinal s) (live F s)" and L0: "L0 (ek_id F key) = live F s (ek_id F key)" using ok untouched(2) by (auto simp: journal_ok_def)
    have "entry_ok F own L0 s ?e" using own L0 by (auto simp: entry_ok_def owned_map_def split: option.split)
    then have "journal_ok F own L0 (s, j')" using ok iok' t by (auto simp: journal_ok_def j'_def)
    moreover have "journal_position F j' key = Some (length (fj_entries j))"
      using F iok' wf
    proof (cases rule: journal_position_ok)
      case (known q)
      moreover have "q = length (fj_entries j)"
      proof (rule ccontr)
        assume "q \<noteq> length (fj_entries j)"
        then have "q < length (fj_entries j)" "fj_entries j' ! q = fj_entries j ! q" using known(2) by (simp_all add: j'_def nth_append)
        then show False using known(3) untouched(2) unfolding touched_ids_def by (metis imageI nth_mem)
      qed
      ultimately show ?thesis by simp
    qed (simp add: t)
    ultimately show ?thesis using run t by (simp add: j'_def)
  qed
qed

lemma stage_ok:
  assumes F: "fact_contract F" and ok: "journal_ok F own L0 (s, j)" and wf: "ek_wf F key" and room: "ps_next_ordinal s + 2 \<le> usize_max"
    and cur: "current_slot F s j key = Some cur"
    and after: "case after of None \<Rightarrow> True | Some sl \<Rightarrow> fact_good (fs_fact sl) \<and> slot_id F sl = ek_id F key \<and> fs_ordinal sl = (case cur of None \<Rightarrow> 0 | Some prev \<Rightarrow> fs_ordinal prev)"
  shows "\<exists>own' s' j'. stage F s j key after = Some (if value_changed F cur after then Some \<lparr>fc_view = ek_view key, fc_key = ek_key key, fc_presence_changed = presence_changed cur after\<rparr> else None, s', j') \<and>
    journal_ok F own' L0 (s', j') \<and> (\<forall>i < ps_next_ordinal s. own' i = own i) \<and> ps_next_ordinal s \<le> ps_next_ordinal s' \<and> ps_next_ordinal s' \<le> ps_next_ordinal s + 2 \<and>
    (\<forall>x. x \<noteq> ek_id F key \<longrightarrow> live F s' x = live F s x) \<and> map_option fs_fact (live F s' (ek_id F key)) = map_option fs_fact after"
proof -
  let ?x = "ek_id F key" let ?n = "ps_next_ordinal s"
  obtain p j1 where j1: "first_touch F s key j = Some (p, j1)" "journal_ok F own L0 (s, j1)" "p < length (fj_entries j1)" "entry_id F (fj_entries j1 ! p) = ?x"
    "je_staged (fj_entries j1 ! p) = cur" using first_touch_ok [OF F ok wf] cur by auto
  define e where "e = fj_entries j1 ! p"
  have e: "entry_id F e = ?x" "je_staged e = cur" using j1 by (auto simp: e_def)
  have sok: "fact_store_ok F s" and own: "owned_map F own ?n (live F s)" using ok by (auto simp: journal_ok_def)
  have eok: "entry_ok F own L0 s e" using j1(2,3) by (simp add: journal_ok_def e_def)
  have curl: "case cur of None \<Rightarrow> live F s ?x = None | Some st \<Rightarrow> (\<exists>sl. live F s ?x = Some sl \<and> fs_fact sl = fs_fact st) \<and> owned own ?n st ?x"
    using eok unfolding entry_ok_def e by blast
  have key: "fact_id F (ek_view key) (ek_key key) = ?x" by (simp add: ek_id_def)
  have "\<exists>own' after' s1 s'. assign_ordinal cur after s = Some (after', s1) \<and> apply_staged F key cur after' s1 = Some s' \<and> fact_store_ok F s' \<and> (\<forall>i < ?n. own' i = own i) \<and>
      ?n \<le> ps_next_ordinal s' \<and> ps_next_ordinal s' \<le> ?n + 2 \<and> (\<exists>l'. live F s' = (live F s)(?x := l') \<and> map_option fs_fact l' = map_option fs_fact after \<and>
      (case after' of None \<Rightarrow> l' = None | Some st \<Rightarrow> \<exists>sl. l' = Some sl \<and> fs_fact sl = fs_fact st \<and> owned own' (ps_next_ordinal s') st ?x \<and> owned own' (ps_next_ordinal s') sl ?x \<and> fact_good (fs_fact sl)))"
  proof (cases after)
    case None
    have "\<exists>s'. apply_staged F key cur None s = Some s' \<and> fact_store_ok F s' \<and> live F s' = (live F s)(?x := None) \<and> ps_next_ordinal s' = ?n"
      using F sok
    proof (cases rule: slot_index_ok [of F s "ek_view key" "ek_key key"])
      case (present i sl)
      then show ?thesis using put_slot_None [OF sok present(2)] by (auto simp: apply_staged_def key)
    next
      case absent
      then have "(live F s)(?x := None) = live F s" by (simp add: fun_upd_idem key)
      then show ?thesis using absent sok by (simp add: apply_staged_def)
    qed
    then show ?thesis using None by (intro exI [of _ own]) (auto simp: assign_ordinal_def)
  next
    case (Some sl)
    have sl: "fact_good (fs_fact sl)" "slot_id F sl = ?x" "fs_ordinal sl = (case cur of None \<Rightarrow> 0 | Some prev \<Rightarrow> fs_ordinal prev)" using after Some by auto
    have slk: "fact_id F (slot_view sl) (pf_key (fs_fact sl)) = ?x" using sl(2) by (simp add: slot_id_fact_id)
    show ?thesis
    proof (cases cur)
      case None
      let ?s1 = "s\<lparr>ps_next_ordinal := Suc ?n\<rparr>" let ?st = "sl\<lparr>fs_ordinal := ?n\<rparr>"
      have b: "fact_store_ok F ?s1" "live F ?s1 = live F s" using bump_ok [OF sok, of "Suc ?n"] by auto
      obtain i t where t: "insert_fact F (fs_fact sl) ?s1 = Some ((i, Suc ?n), t)" "fact_store_ok F t" "ps_next_ordinal t = Suc (Suc ?n)"
        "live F t = (live F s)(?x \<mapsto> \<lparr>fs_ordinal = Suc ?n, fs_fact = fs_fact sl\<rparr>)"
        using insert_fact_ok [OF b(1), of "fs_fact sl"] curl None room sl(1) by (auto simp: b(2) slk fact_good_def)
      have "assign_ordinal cur after s = Some (Some ?st, ?s1)" "apply_staged F key cur (Some ?st) ?s1 = Some t"
        using None Some sl(3) room t(1) by (simp_all add: assign_ordinal_def apply_staged_def)
      moreover have "owned (own(?n := ?x, Suc ?n := ?x)) (ps_next_ordinal t) ?st ?x" "owned (own(?n := ?x, Suc ?n := ?x)) (ps_next_ordinal t) \<lparr>fs_ordinal = Suc ?n, fs_fact = fs_fact sl\<rparr> ?x"
        by (simp_all add: owned_def t(3))
      ultimately show ?thesis using t sl(1) Some by (intro exI [of _ "own(?n := ?x, Suc ?n := ?x)"]) auto
    next
      case prev: (Some prev)
      then obtain old where old: "live F s ?x = Some old" "owned own ?n prev ?x" using curl by auto
      have o: "owned own ?n sl ?x" using old(2) sl(3) prev by (simp add: owned_def)
      have run: "assign_ordinal cur after s = Some (after, s)" using Some prev by (simp add: assign_ordinal_def)
      show ?thesis
        using F sok
      proof (cases rule: slot_index_ok [of F s "ek_view key" "ek_key key"])
        case (present i old)
        have "slot_fits F ?n sl (live F s)" by (rule owned_map_fits [OF own]) (use o sl in auto)
        then obtain t where t: "put_slot F i (Some sl) s = Some t" "fact_store_ok F t" "live F t = (live F s)(?x \<mapsto> sl)" "ps_next_ordinal t = ?n"
          using put_slot_Some [OF sok present(2), of sl] present(4) sl(2) key by auto
        have "apply_staged F key cur after s = Some t" using Some prev present(1) t(1) sl(3) by (simp add: apply_staged_def)
        then show ?thesis using run t o sl(1) Some by (intro exI [of _ own]) auto
      next
        case absent
        then show ?thesis using old key by simp
      qed
    qed
  qed
  then obtain own' after' s1 s' l' where R: "assign_ordinal cur after s = Some (after', s1)" "apply_staged F key cur after' s1 = Some s'" "fact_store_ok F s'" "\<forall>i < ?n. own' i = own i"
    "?n \<le> ps_next_ordinal s'" "ps_next_ordinal s' \<le> ?n + 2" "live F s' = (live F s)(?x := l')" "map_option fs_fact l' = map_option fs_fact after"
    "case after' of None \<Rightarrow> l' = None | Some st \<Rightarrow> \<exists>sl. l' = Some sl \<and> fs_fact sl = fs_fact st \<and> owned own' (ps_next_ordinal s') st ?x \<and> owned own' (ps_next_ordinal s') sl ?x \<and> fact_good (fs_fact sl)"
    by (elim exE conjE)
  have J: "journal_ok F own' L0 (s', j1\<lparr>fj_entries := (fj_entries j1)[p := e\<lparr>je_staged := after'\<rparr>]\<rparr>)"
    by (rule journal_step [OF j1(2,3) e_def _ _ R(3-5)]) (use R(7,9) [folded e(1)] in auto)
  have "stage F s j key after = Some (if value_changed F cur after then Some \<lparr>fc_view = ek_view key, fc_key = ek_key key, fc_presence_changed = presence_changed cur after\<rparr> else None,
      s', j1\<lparr>fj_entries := (fj_entries j1)[p := e\<lparr>je_staged := after'\<rparr>]\<rparr>)"
    using j1(1,3,5) R(1,2) by (simp add: stage_def e_def)
  then show ?thesis using J R(4-8) by (intro exI [of _ own'] exI) auto
qed

end
