(* ===== verification/Journal_Protocol.thy ===== *)
theory Journal_Protocol
  imports Journal_Correct
begin

text \<open>
  The ownership protocol that the journal's writes and retractions implement: \<open>write_spec\<close> and
  \<open>retract_spec\<close> over a value, its set of writers and its shared flag. An exclusive fact has one
  writer, a shared fact may have several that all wrote an equal value.
\<close>

section \<open>The protocol\<close>

type_synonym 'v owned_value = "'v \<times> u64 set \<times> bool"

definition owned_value :: "('k, 'v) plain_fact \<Rightarrow> 'v owned_value" where
  "owned_value pf = (pf_value pf, owner_ids (pf_writers pf), pf_shared pf)"

definition owned_at :: "('k, 'v) fact_ops \<Rightarrow> ('k, 'v) plain_state \<Rightarrow> 'k identity \<Rightarrow> 'v owned_value option" where
  "owned_at F s x = map_option (owned_value \<circ> fs_fact) (live F s x)"

text \<open>The left of the result is a conflict.\<close>

definition write_spec :: "('v \<Rightarrow> 'v \<Rightarrow> bool) \<Rightarrow> 'v option \<Rightarrow> u64 \<Rightarrow> bool \<Rightarrow> 'v owned_value option \<Rightarrow> unit + 'v owned_value option" where
  "write_spec eq v w shareable cur = (case cur of
     None \<Rightarrow> Inr (map_option (\<lambda>v. (v, {w}, shareable)) v)
   | Some (u, ws, shared) \<Rightarrow>
       if w \<in> ws then (case v of
           None \<Rightarrow> Inr (if shared \<and> 1 < card ws then Some (u, ws - {w}, shared) else None)
         | Some v \<Rightarrow> if eq u v then Inr cur else if shared \<and> 1 < card ws then Inl () else Inr (Some (v, ws, shared)))
       else if shared \<and> shareable then (case v of
           None \<Rightarrow> Inr cur
         | Some v \<Rightarrow> if eq u v then Inr (Some (u, insert w ws, shared)) else Inl ())
       else Inl ())"

definition retract_spec :: "u64 \<Rightarrow> 'v owned_value option \<Rightarrow> 'v owned_value option" where
  "retract_spec w cur = (case cur of
     Some (u, ws, shared) \<Rightarrow> if w \<notin> ws then cur else if shared \<and> 1 < card ws then Some (u, ws - {w}, shared) else None
   | None \<Rightarrow> None)"

section \<open>Refinement\<close>

definition runs_to :: "('k, 'v) fact_ops \<Rightarrow> (nat \<Rightarrow> 'k identity) \<Rightarrow> ('k identity \<rightharpoonup> ('k, 'v) fact_slot) \<Rightarrow> ('k, 'v) plain_state \<Rightarrow> 'k identity \<Rightarrow> 'v owned_value option \<Rightarrow>
    (('k store_error + 'k fact_change option) \<times> ('k, 'v) journaled) option \<Rightarrow> bool" where
  "runs_to F own L0 s x a res \<longleftrightarrow> (\<exists>c own' s' j'. res = Some (Inr c, s', j') \<and> journal_ok F own' L0 (s', j') \<and> (\<forall>i < ps_next_ordinal s. own' i = own i) \<and>
     ps_next_ordinal s \<le> ps_next_ordinal s' \<and> ps_next_ordinal s' \<le> ps_next_ordinal s + 2 \<and> owned_at F s' = (owned_at F s)(x := a))"

lemma runs_to_same: "journal_ok F own L0 (s, j) \<Longrightarrow> owned_at F s x = a \<Longrightarrow> runs_to F own L0 s x a (Some (Inr None, s, j))"
  unfolding runs_to_def by (intro exI conjI) (auto simp: fun_upd_idem)

lemma staged_runs:
  assumes "fact_contract F" "journal_ok F own L0 (s, j)" "ek_wf F key" "ps_next_ordinal s + 2 \<le> usize_max" "current_slot F s j key = Some cur"
    "case after of None \<Rightarrow> True | Some sl \<Rightarrow> fact_good (fs_fact sl) \<and> slot_id F sl = ek_id F key \<and> fs_ordinal sl = (case cur of None \<Rightarrow> 0 | Some prev \<Rightarrow> fs_ordinal prev)"
    and a: "a = map_option (owned_value \<circ> fs_fact) after"
  shows "runs_to F own L0 s (ek_id F key) a (staged F s j key after)"
proof -
  from stage_ok [OF assms(1-6)] obtain c own' s' j' where R: "stage F s j key after = Some (c, s', j')" "journal_ok F own' L0 (s', j')" "\<forall>i < ps_next_ordinal s. own' i = own i"
    "ps_next_ordinal s \<le> ps_next_ordinal s'" "ps_next_ordinal s' \<le> ps_next_ordinal s + 2" "\<And>x. x \<noteq> ek_id F key \<Longrightarrow> live F s' x = live F s x"
    "map_option fs_fact (live F s' (ek_id F key)) = map_option fs_fact after" by blast
  have "owned_at F s' x = ((owned_at F s)(ek_id F key := a)) x" for x
    using R(6) [of x] arg_cong [OF R(7), of "map_option owned_value"] by (simp add: owned_at_def a option.map_comp comp_def)
  then show ?thesis unfolding runs_to_def staged_def using R(1-5) by (intro exI [of _ c] exI [of _ own']) auto
qed

lemma staged_key_runs:
  assumes "fact_contract F" "journal_ok F own L0 (s, j)" "ps_next_ordinal s + 2 \<le> usize_max" "current_slot F s j (erased_new F view key) = Some cur"
  shows "runs_to F own L0 s (fact_id F view key) None (staged F s j (erased_new F view key) None)"
    "fact_good (fs_fact sl) \<Longrightarrow> slot_id F sl = fact_id F view key \<Longrightarrow> fs_ordinal sl = (case cur of None \<Rightarrow> 0 | Some prev \<Rightarrow> fs_ordinal prev) \<Longrightarrow>
      runs_to F own L0 s (fact_id F view key) (Some (owned_value (fs_fact sl))) (staged F s j (erased_new F view key) (Some sl))"
  using staged_runs [OF assms(1,2) _ assms(3,4), of None None] staged_runs [OF assms(1,2) _ assms(3,4), of "Some sl" "Some (owned_value (fs_fact sl))"] by simp_all

lemma owner_sets:
  assumes "owner_set_ok ws"
  shows "owner_set_contains ws w = Some (w \<in> owner_ids ws)" "owner_set_len ws = card (owner_ids ws)"
  using owner_set_contains_ids [OF assms] owner_set_iter_ids [OF assms] by auto

text \<open>The effective slot of the journal carries the live fact.\<close>

lemma current_owned:
  assumes F: "fact_contract F" and ok: "journal_ok F own L0 (s, j)"
  obtains (absent) "current_slot F s j (erased_new F view key) = Some None" "owned_at F s (fact_id F view key) = None"
  | (present) sl where "current_slot F s j (erased_new F view key) = Some (Some sl)" "owned_at F s (fact_id F view key) = Some (owned_value (fs_fact sl))"
    "fact_good (fs_fact sl)" "slot_id F sl = fact_id F view key"
proof -
  obtain cur where cur: "current_slot F s j (erased_new F view key) = Some cur" "case cur of None \<Rightarrow> live F s (fact_id F view key) = None
     | Some st \<Rightarrow> (\<exists>sl. live F s (fact_id F view key) = Some sl \<and> fs_fact sl = fs_fact st) \<and> owned own (ps_next_ordinal s) st (fact_id F view key) \<and> slot_id F st = fact_id F view key"
    using current_slot_ok [OF F ok erased_new_simps(2), of view key, unfolded erased_new_simps(1)] by blast
  have good: "live F s x = Some sl \<Longrightarrow> fact_good (fs_fact sl)" for x sl using ok by (auto simp: journal_ok_def owned_map_def)
  show thesis
  proof (cases cur)
    case None
    then show thesis using absent cur by (simp add: owned_at_def)
  next
    case (Some st)
    then obtain sl where sl: "live F s (fact_id F view key) = Some sl" "fs_fact sl = fs_fact st" "slot_id F st = fact_id F view key" using cur(2) by auto
    then show thesis using present [of st] cur(1) Some good [OF sl(1)] by (simp add: owned_at_def)
  qed
qed

lemma touch_reserved:
  assumes F: "fact_contract F" and ok: "journal_ok F own L0 (s, j)" and cur: "current_slot F s j (erased_new F view key) = Some None"
  shows "\<exists>p j1. first_touch F s (erased_new F view key) j = Some (p, j1) \<and> p < length (fj_entries j1) \<and>
    (let j2 = j1\<lparr>fj_entries := (fj_entries j1)[p := (fj_entries j1 ! p)\<lparr>je_reserved := True\<rparr>]\<rparr>
     in journal_ok F own L0 (s, j2) \<and> current_slot F s j2 (erased_new F view key) = Some None)"
proof -
  let ?key = "erased_new F view key"
  obtain p j1 where j1: "first_touch F s ?key j = Some (p, j1)" "journal_ok F own L0 (s, j1)" "p < length (fj_entries j1)" "journal_position F j1 ?key = Some p" "je_staged (fj_entries j1 ! p) = None"
    using first_touch_ok [OF F ok, of ?key] cur by auto
  let ?j2 = "j1\<lparr>fj_entries := (fj_entries j1)[p := (fj_entries j1 ! p)\<lparr>je_reserved := True\<rparr>]\<rparr>"
  have "key_index_ok F j1" using j1(2) by (simp add: journal_ok_def)
  then have "journal_position F ?j2 ?key = Some p" using index_ok_update(3) [of F j1 p "(fj_entries j1 ! p)\<lparr>je_reserved := True\<rparr>"] j1(3,4) by simp
  then have "current_slot F s ?j2 ?key = Some None" using j1(3,5) by (simp add: current_slot_def)
  then show ?thesis using j1 journal_step_same [OF j1(2,3), of True] by auto
qed

lemma left_over: "ids' = ids - {w} \<Longrightarrow> 1 < card ids \<Longrightarrow> ids' \<noteq> {}"
proof
  assume "ids' = ids - {w}" "1 < card ids" "ids' = {}"
  then show False using card_mono [of "{w}" ids] by auto
qed

lemma journal_write_ok:
  assumes F: "fact_contract F" and ok: "journal_ok F own L0 (s, j)" and room: "ps_next_ordinal s + 2 \<le> usize_max"
  shows "case write_spec (value_eq F) v w shareable (owned_at F s (fact_id F view key)) of
      Inl _ \<Rightarrow> \<exists>e. journal_write F view name key v w wname shareable (s, j) = Some (Inl e, s, j)
    | Inr a \<Rightarrow> runs_to F own L0 s (fact_id F view key) a (journal_write F view name key v w wname shareable (s, j))"
proof -
  let ?x = "fact_id F view key" let ?key = "erased_new F view key"
  note stg = staged_key_runs [OF F ok room]
  show ?thesis
    using F ok
  proof (cases rule: current_owned [where view = view and key = key])
    case absent
    show ?thesis
    proof (cases v)
      case None
      then show ?thesis using absent runs_to_same [OF ok absent(2)] by (simp add: journal_write_def write_spec_def Let_def)
    next
      case (Some u)
      obtain p j1 where j1: "first_touch F s ?key j = Some (p, j1)" "p < length (fj_entries j1)"
        and j2: "journal_ok F own L0 (s, j1\<lparr>fj_entries := (fj_entries j1)[p := (fj_entries j1 ! p)\<lparr>je_reserved := True\<rparr>]\<rparr>)"
          "current_slot F s (j1\<lparr>fj_entries := (fj_entries j1)[p := (fj_entries j1 ! p)\<lparr>je_reserved := True\<rparr>]\<rparr>) ?key = Some None"
        using touch_reserved [OF F ok absent(1)] by (auto simp: Let_def)
      obtain ws where ws: "owner_set_insert owner_set_empty w = Some ws" "owner_set_ok ws" "owner_ids ws = {w}" using owner_set_insert_ids [of owner_set_empty w] by auto
      let ?pf = "\<lparr>pf_view = view, pf_name = name, pf_key = key, pf_value = u, pf_writers = ws, pf_owner_names = [(w, wname)], pf_shared = shareable\<rparr>"
      have "fact_good ?pf" using ws by (simp add: fact_good_def)
      then show ?thesis using Some absent j1 ws staged_key_runs(2) [OF F j2(1) room j2(2), of "\<lparr>fs_ordinal = 0, fs_fact = ?pf\<rparr>"]
        by (simp add: journal_write_def write_spec_def Let_def slot_id_fact_id owned_value_def)
    qed
  next
    case (present sl)
    let ?pf = "fs_fact sl"
    have good: "owner_set_ok (pf_writers ?pf)" "owner_ids (pf_writers ?pf) \<noteq> {}" "\<not> pf_shared ?pf \<Longrightarrow> card (owner_ids (pf_writers ?pf)) = 1" using present(3) by (auto simp: fact_good_def)
    note sets = owner_sets [OF good(1)]
    obtain ws where ws: "owner_set_insert (pf_writers ?pf) w = Some ws" "owner_set_ok ws" "owner_ids ws = insert w (owner_ids (pf_writers ?pf))" using owner_set_insert_ids [OF good(1)] by blast
    obtain rs where rs: "owner_set_remove (pf_writers ?pf) w = Some rs" "owner_set_ok rs" "owner_ids rs = owner_ids (pf_writers ?pf) - {w}" using owner_set_remove_ids [OF good(1)] by blast
    note left = left_over [OF rs(3)]
    have id: "slot_id F (sl\<lparr>fs_fact := ?pf\<lparr>pf_writers := ws', pf_owner_names := ns\<rparr>\<rparr>) = ?x" "slot_id F (sl\<lparr>fs_fact := ?pf\<lparr>pf_value := u\<rparr>\<rparr>) = ?x" for ws' ns u
      using present(4) by (simp_all add: slot_id_def)
    note run = journal_write_def write_spec_def Let_def present(1,2) sets owned_value_def ws rs
    note same = runs_to_same [OF ok present(2)]
    show ?thesis
    proof (cases "w \<in> owner_ids (pf_writers ?pf)")
      case False
      show ?thesis
      proof (cases v)
        case None
        then show ?thesis using False same by (cases "pf_shared ?pf") (simp_all add: run)
      next
        case (Some u)
        have "fact_good (?pf\<lparr>pf_writers := ws, pf_owner_names := ns\<rparr>)" if "pf_shared ?pf" for ns using that ws by (simp add: fact_good_def)
        then show ?thesis using False Some same stg(2) [OF present(1), of "sl\<lparr>fs_fact := ?pf\<lparr>pf_writers := ws, pf_owner_names := pf_owner_names ?pf @ [(w, wname)]\<rparr>\<rparr>"] id by (cases "pf_shared ?pf") (simp_all add: run)
      qed
    next
      case True
      show ?thesis
      proof (cases v)
        case None
        have "fact_good (?pf\<lparr>pf_writers := rs, pf_owner_names := ns\<rparr>)" if "pf_shared ?pf" "1 < card (owner_ids (pf_writers ?pf))" for ns using that rs left by (simp add: fact_good_def)
        then show ?thesis using True None stg(1) [OF present(1)] stg(2) [OF present(1), of "sl\<lparr>fs_fact := ?pf\<lparr>pf_writers := rs, pf_owner_names := filter (\<lambda>(id, _). id \<noteq> w) (pf_owner_names ?pf)\<rparr>\<rparr>"] id by (cases "pf_shared ?pf") (simp_all add: run)
      next
        case (Some u)
        have "fact_good (?pf\<lparr>pf_value := u\<rparr>)" using present(3) by (simp add: fact_good_def)
        then show ?thesis using True Some same stg(2) [OF present(1), of "sl\<lparr>fs_fact := ?pf\<lparr>pf_value := u\<rparr>\<rparr>"] id by (cases "pf_shared ?pf") (simp_all add: run)
      qed
    qed
  qed
qed

lemma journal_retract_ok:
  assumes F: "fact_contract F" and ok: "journal_ok F own L0 (s, j)" and room: "ps_next_ordinal s + 2 \<le> usize_max"
  shows "runs_to F own L0 s (fact_id F view key) (retract_spec w (owned_at F s (fact_id F view key))) (journal_retract F view key w (s, j))"
  using F ok
proof (cases rule: current_owned [where view = view and key = key])
  case absent
  then show ?thesis using runs_to_same [OF ok absent(2)] by (simp add: journal_retract_def retract_spec_def Let_def)
next
  case (present sl)
  let ?pf = "fs_fact sl"
  have good: "owner_set_ok (pf_writers ?pf)" using present(3) by (auto simp: fact_good_def)
  note sets = owner_sets [OF good]
  obtain rs where rs: "owner_set_remove (pf_writers ?pf) w = Some rs" "owner_set_ok rs" "owner_ids rs = owner_ids (pf_writers ?pf) - {w}" using owner_set_remove_ids [OF good] by blast
  have "fact_good (?pf\<lparr>pf_writers := rs, pf_owner_names := ns\<rparr>)" if "pf_shared ?pf" "1 < card (owner_ids (pf_writers ?pf))" for ns
    using that rs left_over [OF rs(3) that(2)] by (simp add: fact_good_def)
  moreover have "slot_id F (sl\<lparr>fs_fact := ?pf\<lparr>pf_writers := rs, pf_owner_names := ns\<rparr>\<rparr>) = fact_id F view key" for ns
    using present(4) by (simp add: slot_id_def)
  ultimately show ?thesis using staged_key_runs(1) [OF F ok room present(1)] staged_key_runs(2) [OF F ok room present(1), of "sl\<lparr>fs_fact := ?pf\<lparr>pf_writers := rs, pf_owner_names := filter (\<lambda>(id, _). id \<noteq> w) (pf_owner_names ?pf)\<rparr>\<rparr>"] runs_to_same [OF ok present(2)]
    by (cases "pf_shared ?pf") (simp_all add: journal_retract_def retract_spec_def Let_def present(1,2) sets owned_value_def rs)
qed

end
