(* ===== verification/Fact_Snapshot.thy ===== *)
theory Fact_Snapshot
  imports Fact_Journal
begin

text \<open>
  The committed snapshot of \<^verbatim>\<open>src/reactive/store.rs\<close> (\<^verbatim>\<open>SnapshotView\<close>, \<^verbatim>\<open>SnapshotRoot\<close>): per view a
  hash trie from keys to ordinals and a radix map from ordinals to entries, updated by a journal's
  deltas at commit. A \<^verbatim>\<open>SnapshotKey\<close> is its key: the hash it caches is that of the key. The lookups
  of a view are a map up to key equality as long as no ordinal is given to two keys.
\<close>

section \<open>Views and the root\<close>

record ('k, 'v) snapshot_entry =
  sn_key :: 'k
  sn_value :: 'v

record ('k, 'v) snapshot_view =
  sv_name :: string
  sv_by_key :: "('k, u64) hamt"
  sv_by_ordinal :: "('k, 'v) snapshot_entry radix_map"

definition snapshot_trie :: "('k, 'v) fact_ops \<Rightarrow> 'k trie_key" where
  "snapshot_trie F = \<lparr>trie_hash = key_hash F, trie_eq = key_eq F\<rparr>"

definition snapshot_view_default :: "('k, 'v) snapshot_view" where
  "snapshot_view_default = \<lparr>sv_name = [], sv_by_key = hamt_empty, sv_by_ordinal = radix_empty\<rparr>"

definition sv_lookup :: "('k, 'v) fact_ops \<Rightarrow> ('k, 'v) snapshot_view \<Rightarrow> 'k \<Rightarrow> ('k, 'v) snapshot_entry option option" where
  "sv_lookup F v key = do {
     found \<leftarrow> hamt_get (snapshot_trie F) (sv_by_key v) key;
     (case found of None \<Rightarrow> Some None | Some ordinal \<Rightarrow> radix_get (sv_by_ordinal v) ordinal) }"

definition sv_insert :: "('k, 'v) fact_ops \<Rightarrow> u64 \<Rightarrow> ('k, 'v) snapshot_entry \<Rightarrow> ('k, 'v) snapshot_view \<Rightarrow> ('k, 'v) snapshot_view option" where
  "sv_insert F ordinal entry v = do {
     found \<leftarrow> hamt_get (snapshot_trie F) (sv_by_key v) (sn_key entry);
     cleared \<leftarrow> (case found of
         Some old \<Rightarrow> if old \<noteq> ordinal then map_option snd (radix_remove (sv_by_ordinal v) old) else Some (sv_by_ordinal v)
       | None \<Rightarrow> Some (sv_by_ordinal v));
     by_key \<leftarrow> hamt_insert (snapshot_trie F) (sv_by_key v) (sn_key entry) ordinal;
     by_ordinal \<leftarrow> radix_insert cleared ordinal entry;
     Some (v\<lparr>sv_by_key := by_key, sv_by_ordinal := by_ordinal\<rparr>) }"

definition sv_remove :: "('k, 'v) fact_ops \<Rightarrow> 'k \<Rightarrow> ('k, 'v) snapshot_view \<Rightarrow> ('k, 'v) snapshot_view option" where
  "sv_remove F key v = do {
     found \<leftarrow> hamt_get (snapshot_trie F) (sv_by_key v) key;
     (case found of None \<Rightarrow> Some v
      | Some ordinal \<Rightarrow> do {
          (_, by_key) \<leftarrow> hamt_remove (snapshot_trie F) (sv_by_key v) key;
          (_, by_ordinal) \<leftarrow> radix_remove (sv_by_ordinal v) ordinal;
          Some (v\<lparr>sv_by_key := by_key, sv_by_ordinal := by_ordinal\<rparr>) }) }"

definition sv_entries :: "('k, 'v) snapshot_view \<Rightarrow> ('k, 'v) snapshot_entry list" where
  "sv_entries v = map snd (radix_entries (sv_by_ordinal v))"

definition sv_len :: "('k, 'v) snapshot_view \<Rightarrow> nat" where
  "sv_len v = rm_len (sv_by_ordinal v)"

type_synonym ('k, 'v) snapshot_root = "nat \<rightharpoonup> ('k, 'v) snapshot_view"

definition apply_delta :: "('k, 'v) fact_ops \<Rightarrow> ('k, 'v) journal_delta \<Rightarrow> ('k, 'v) snapshot_root \<Rightarrow> ('k, 'v) snapshot_root option" where
  "apply_delta F d views = do {
     let v = (case views (jd_view d) of None \<Rightarrow> snapshot_view_default | Some v \<Rightarrow> v);
     let v = (if jd_view_name d \<noteq> [] then v\<lparr>sv_name := jd_view_name d\<rparr> else v);
     v \<leftarrow> (case jd_final d of
         Some (ordinal, key, value) \<Rightarrow> sv_insert F (of_nat ordinal) \<lparr>sn_key = key, sn_value = value\<rparr> v
       | None \<Rightarrow> sv_remove F (jd_key d) v);
     Some (views(jd_view d \<mapsto> v)) }"

definition snapshot_apply :: "('k, 'v) fact_ops \<Rightarrow> ('k, 'v) journal_delta list \<Rightarrow> ('k, 'v) snapshot_root \<Rightarrow> ('k, 'v) snapshot_root option" where
  "snapshot_apply F deltas root = fold_opt (apply_delta F) deltas root"

text \<open>A read of the committed root: \<^verbatim>\<open>view\<close> and \<^verbatim>\<open>lookup\<close>.\<close>

definition snapshot_read :: "('k, 'v) fact_ops \<Rightarrow> ('k, 'v) snapshot_root \<Rightarrow> nat \<Rightarrow> 'k \<Rightarrow> 'v option option" where
  "snapshot_read F root view key = (case root view of None \<Rightarrow> Some None | Some v \<Rightarrow> map_option (map_option sn_value) (sv_lookup F v key))"

section \<open>A view as a map\<close>

lemma snapshot_trie_contract: "fact_contract F \<Longrightarrow> trie_key_contract (snapshot_trie F)"
  by (simp add: fact_contract_def trie_key_contract_def snapshot_trie_def)

lemma snapshot_trie_eq [simp]: "trie_eq (snapshot_trie F) = key_eq F"
  by (simp add: snapshot_trie_def)

abbreviation sv_keys :: "('k, 'v) fact_ops \<Rightarrow> ('k, 'v) snapshot_view \<Rightarrow> 'k \<rightharpoonup> u64" where
  "sv_keys F v \<equiv> hamt_map (snapshot_trie F) (sv_by_key v)"

abbreviation sv_ordinals :: "('k, 'v) snapshot_view \<Rightarrow> u64 \<rightharpoonup> ('k, 'v) snapshot_entry" where
  "sv_ordinals v \<equiv> radix_map_of (sv_by_ordinal v)"

definition sv_ok :: "('k, 'v) fact_ops \<Rightarrow> ('k, 'v) snapshot_view \<Rightarrow> bool" where
  "sv_ok F v \<longleftrightarrow> hamt_ok (snapshot_trie F) (sv_by_key v) \<and> radix_ok (sv_by_ordinal v) \<and>
     (\<forall>k ord. sv_keys F v k = Some ord \<longrightarrow> (\<exists>e. sv_ordinals v ord = Some e \<and> key_eq F (sn_key e) k)) \<and>
     (\<forall>ord e k. sv_ordinals v ord = Some e \<longrightarrow> key_eq F (sn_key e) k \<longrightarrow> sv_keys F v k = Some ord)"

definition sv_map :: "('k, 'v) fact_ops \<Rightarrow> ('k, 'v) snapshot_view \<Rightarrow> 'k \<rightharpoonup> ('k, 'v) snapshot_entry" where
  "sv_map F v k = Option.bind (sv_keys F v k) (sv_ordinals v)"

lemma sv_default_ok: "sv_ok F snapshot_view_default" "sv_map F snapshot_view_default = Map.empty" "sv_ordinals snapshot_view_default = Map.empty"
  by (auto simp: sv_ok_def sv_map_def snapshot_view_default_def hamt_empty_map radix_empty_map)

lemma sv_name_ok: "sv_ok F (v\<lparr>sv_name := n\<rparr>) = sv_ok F v" "sv_map F (v\<lparr>sv_name := n\<rparr>) = sv_map F v"
  by (auto simp: sv_ok_def sv_map_def fun_eq_iff)

lemma sv_lookup_map: "fact_contract F \<Longrightarrow> sv_ok F v \<Longrightarrow> sv_lookup F v key = Some (sv_map F v key)"
  using hamt_get_map [OF snapshot_trie_contract, of F "sv_by_key v" key]
  by (auto simp: sv_lookup_def sv_ok_def sv_map_def radix_get_map split: option.split)

lemma sv_map_Some: "sv_ok F v \<Longrightarrow> sv_map F v k = Some e \<longleftrightarrow> (\<exists>ord. sv_ordinals v ord = Some e) \<and> key_eq F (sn_key e) k"
  unfolding sv_ok_def sv_map_def by (cases "sv_keys F v k") (fastforce split: Option.bind_splits)+

lemma sv_insert_ok:
  assumes F: "fact_contract F" and ok: "sv_ok F v" and free: "\<And>e. sv_ordinals v ord = Some e \<Longrightarrow> key_eq F (sn_key e) (sn_key entry)"
  shows "\<exists>v'. sv_insert F ord entry v = Some v' \<and> sv_ok F v' \<and> sv_map F v' = (\<lambda>k. if key_eq F (sn_key entry) k then Some entry else sv_map F v k) \<and>
    (\<forall>i e. sv_ordinals v' i = Some e \<longrightarrow> i = ord \<and> e = entry \<or> sv_ordinals v i = Some e)"
proof -
  let ?K = "snapshot_trie F"
  note K = snapshot_trie_contract [OF F]
  note eq = fact_contract_laws [OF F]
  have v: "hamt_ok ?K (sv_by_key v)" "radix_ok (sv_by_ordinal v)" and fwd: "sv_keys F v k = Some i \<Longrightarrow> \<exists>e. sv_ordinals v i = Some e \<and> key_eq F (sn_key e) k"
    and bwd: "sv_ordinals v i = Some e \<Longrightarrow> key_eq F (sn_key e) k \<Longrightarrow> sv_keys F v k = Some i" for k i e using ok by (auto simp: sv_ok_def)
  obtain bk where bk: "hamt_insert ?K (sv_by_key v) (sn_key entry) ord = Some bk" "hamt_ok ?K bk"
    "hamt_map ?K bk = (\<lambda>k. if key_eq F (sn_key entry) k then Some ord else sv_keys F v k)" using hamt_insert_map [OF K v(1)] by fastforce
  define old where "old = sv_keys F v (sn_key entry)"
  have "\<exists>c. (case old of Some i \<Rightarrow> if i \<noteq> ord then map_option snd (radix_remove (sv_by_ordinal v) i) else Some (sv_by_ordinal v) | None \<Rightarrow> Some (sv_by_ordinal v)) = Some c \<and>
      radix_ok c \<and> (\<forall>i. i \<noteq> ord \<longrightarrow> radix_map_of c i = (if old = Some i then None else sv_ordinals v i))"
    using radix_remove_map [OF v(2)] v(2) by (cases old) fastforce+
  then obtain c where c: "(case old of Some i \<Rightarrow> if i \<noteq> ord then map_option snd (radix_remove (sv_by_ordinal v) i) else Some (sv_by_ordinal v) | None \<Rightarrow> Some (sv_by_ordinal v)) = Some c"
      "radix_ok c" "\<And>i. i \<noteq> ord \<Longrightarrow> radix_map_of c i = (if old = Some i then None else sv_ordinals v i)" by blast
  obtain bo where bo: "radix_insert c ord entry = Some bo" "radix_ok bo" "radix_map_of bo = (radix_map_of c)(ord \<mapsto> entry)" using radix_insert_map [OF c(2)] by blast
  define v' where "v' = v\<lparr>sv_by_key := bk, sv_by_ordinal := bo\<rparr>"
  have run: "sv_insert F ord entry v = Some v'" using c(1) bk(1) bo(1) hamt_get_map [OF K v(1), of "sn_key entry"] by (simp add: sv_insert_def v'_def old_def)
  have keys: "sv_keys F v' k = (if key_eq F (sn_key entry) k then Some ord else sv_keys F v k)" for k by (simp add: v'_def bk(3))
  have ords: "sv_ordinals v' i = (if i = ord then Some entry else if old = Some i then None else sv_ordinals v i)" for i using c(3) by (simp add: v'_def bo(3))
  have off: "i \<noteq> ord" if k: "sv_keys F v k = Some i" "\<not> key_eq F (sn_key entry) k" for k i
  proof
    assume "i = ord"
    then obtain e where "sv_ordinals v ord = Some e" "key_eq F (sn_key e) k" using fwd [OF k(1)] by blast
    then show False using free eq(2,3) k(2) by blast
  qed
  have off': "old \<noteq> Some i" if k: "sv_keys F v k = Some i" "\<not> key_eq F (sn_key entry) k" for k i
  proof
    assume "old = Some i"
    then obtain e where "sv_ordinals v i = Some e" "key_eq F (sn_key e) (sn_key entry)" using fwd unfolding old_def by blast
    moreover obtain e' where "sv_ordinals v i = Some e'" "key_eq F (sn_key e') k" using fwd [OF k(1)] by blast
    ultimately show False using eq(2,3) k(2) by (metis option.inject)
  qed
  have "sv_ok F v'"
    unfolding sv_ok_def
  proof (intro conjI allI impI)
    show "hamt_ok ?K (sv_by_key v')" "radix_ok (sv_by_ordinal v')" using bk(2) bo(2) by (simp_all add: v'_def)
  next
    fix k i assume k: "sv_keys F v' k = Some i"
    show "\<exists>e. sv_ordinals v' i = Some e \<and> key_eq F (sn_key e) k"
    proof (cases "key_eq F (sn_key entry) k")
      case True
      then show ?thesis using k by (simp add: keys ords)
    next
      case False
      then show ?thesis using k fwd [of k i] off [of k i] off' [of k i] by (auto simp: keys ords)
    qed
  next
    fix i e k assume e: "sv_ordinals v' i = Some e" "key_eq F (sn_key e) k"
    show "sv_keys F v' k = Some i"
    proof (cases "i = ord")
      case True
      then show ?thesis using e by (simp add: keys ords)
    next
      case False
      then have *: "sv_ordinals v i = Some e" "old \<noteq> Some i" using e(1) by (auto simp: ords split: if_splits)
      have "\<not> key_eq F (sn_key entry) k"
      proof
        assume "key_eq F (sn_key entry) k"
        then have "key_eq F (sn_key e) (sn_key entry)" using e(2) eq(2,3) by blast
        then show False using bwd [OF *(1)] *(2) by (simp add: old_def)
      qed
      then show ?thesis using bwd [OF *(1) e(2)] by (simp add: keys)
    qed
  qed
  moreover have "sv_map F v' k = (if key_eq F (sn_key entry) k then Some entry else sv_map F v k)" for k
    using off [of k] off' [of k] by (cases "sv_keys F v k") (auto simp: sv_map_def keys ords)
  moreover have "i = ord \<and> e = entry \<or> sv_ordinals v i = Some e" if "sv_ordinals v' i = Some e" for i e using that by (auto simp: ords split: if_splits)
  ultimately show ?thesis using run by blast
qed

lemma sv_remove_ok:
  assumes F: "fact_contract F" and ok: "sv_ok F v"
  shows "\<exists>v'. sv_remove F key v = Some v' \<and> sv_ok F v' \<and> sv_map F v' = (\<lambda>k. if key_eq F key k then None else sv_map F v k) \<and>
    (\<forall>i e. sv_ordinals v' i = Some e \<longrightarrow> sv_ordinals v i = Some e)"
proof -
  let ?K = "snapshot_trie F"
  note K = snapshot_trie_contract [OF F]
  note eq = fact_contract_laws [OF F]
  have v: "hamt_ok ?K (sv_by_key v)" "radix_ok (sv_by_ordinal v)" and fwd: "sv_keys F v k = Some i \<Longrightarrow> \<exists>e. sv_ordinals v i = Some e \<and> key_eq F (sn_key e) k"
    and bwd: "sv_ordinals v i = Some e \<Longrightarrow> key_eq F (sn_key e) k \<Longrightarrow> sv_keys F v k = Some i" for k i e using ok by (auto simp: sv_ok_def)
  note get = hamt_get_map [OF K v(1), of key]
  show ?thesis
  proof (cases "sv_keys F v key")
    case None
    have "sv_map F v k = None" if "key_eq F key k" for k
    proof (rule ccontr)
      assume "sv_map F v k \<noteq> None"
      then obtain e i where "sv_ordinals v i = Some e" "key_eq F (sn_key e) k" using sv_map_Some [OF ok, of k] by blast
      then show False using bwd [of i e key] eq(2,3) that None by (metis option.distinct(1))
    qed
    then show ?thesis using None ok get by (auto simp: sv_remove_def fun_eq_iff)
  next
    case (Some ord)
    obtain bk where bk: "hamt_remove ?K (sv_by_key v) key = Some (True, bk)" "hamt_ok ?K bk" "hamt_map ?K bk = (\<lambda>k. if key_eq F key k then None else sv_keys F v k)"
      using hamt_remove_map [OF K v(1), of key] Some by auto
    obtain e0 where e0: "sv_ordinals v ord = Some e0" "key_eq F (sn_key e0) key" using fwd [OF Some] by blast
    obtain bo where bo: "radix_remove (sv_by_ordinal v) ord = Some (True, bo)" "radix_ok bo" "radix_map_of bo = (sv_ordinals v)(ord := None)"
      using radix_remove_map [OF v(2), of ord] e0(1) by auto
    define v' where "v' = v\<lparr>sv_by_key := bk, sv_by_ordinal := bo\<rparr>"
    have run: "sv_remove F key v = Some v'" using bk(1) bo(1) get Some by (simp add: sv_remove_def v'_def)
    have keys: "sv_keys F v' k = (if key_eq F key k then None else sv_keys F v k)" for k by (simp add: v'_def bk(3))
    have ords: "sv_ordinals v' = (sv_ordinals v)(ord := None)" by (simp add: v'_def bo(3))
    have same: "i = ord \<longleftrightarrow> key_eq F key k" if k: "sv_keys F v k = Some i" for k i
    proof
      assume "i = ord"
      then obtain e where "sv_ordinals v ord = Some e" "key_eq F (sn_key e) k" using fwd [OF k] by blast
      then show "key_eq F key k" using e0 eq(2,3) by (metis option.inject)
    next
      assume "key_eq F key k"
      then have "sv_keys F v k = Some ord" using bwd [OF e0(1)] e0(2) eq(3) by blast
      then show "i = ord" using k by simp
    qed
    have "sv_ok F v'"
      unfolding sv_ok_def
    proof (intro conjI allI impI)
      show "hamt_ok ?K (sv_by_key v')" "radix_ok (sv_by_ordinal v')" using bk(2) bo(2) by (simp_all add: v'_def)
    next
      fix k i assume "sv_keys F v' k = Some i"
      then have k: "\<not> key_eq F key k" "sv_keys F v k = Some i" by (auto simp: keys split: if_splits)
      then show "\<exists>e. sv_ordinals v' i = Some e \<and> key_eq F (sn_key e) k" using fwd [OF k(2)] same [OF k(2)] by (auto simp: ords)
    next
      fix i e k assume "sv_ordinals v' i = Some e" and e: "key_eq F (sn_key e) k"
      then have i: "i \<noteq> ord" "sv_ordinals v i = Some e" by (auto simp: ords split: if_splits)
      then show "sv_keys F v' k = Some i" using bwd [OF i(2) e] same by (auto simp: keys)
    qed
    moreover have "sv_map F v' k = (if key_eq F key k then None else sv_map F v k)" for k
      using same [of k] by (cases "sv_keys F v k") (auto simp: sv_map_def keys ords)
    ultimately show ?thesis using run by (auto simp: ords split: if_splits)
  qed
qed

lemma sv_entries_ok:
  assumes F: "fact_contract F" and ok: "sv_ok F v"
  shows "(\<exists>e \<in> set (sv_entries v). key_eq F (sn_key e) k) \<longleftrightarrow> sv_map F v k \<noteq> None"
    "sorted_wrt (\<lambda>a b. \<not> key_eq F (sn_key a) (sn_key b)) (sv_entries v)" "sv_len v = length (sv_entries v)"
proof -
  let ?xs = "radix_list (sv_by_ordinal v)"
  have r: "radix_ok (sv_by_ordinal v)" using ok by (simp add: sv_ok_def)
  have d: "distinct (map fst ?xs)" by (rule radix_list_distinct [OF r])
  have at: "(i, e) \<in> set ?xs \<longleftrightarrow> sv_ordinals v i = Some e" for i e using d by (simp add: radix_map_of_def)
  have "e \<in> set (sv_entries v) \<longleftrightarrow> (\<exists>i. sv_ordinals v i = Some e)" for e by (force simp: sv_entries_def radix_entries_list at [symmetric])
  then show "(\<exists>e \<in> set (sv_entries v). key_eq F (sn_key e) k) \<longleftrightarrow> sv_map F v k \<noteq> None" using sv_map_Some [OF ok, of k] by auto
  have "sorted_wrt (\<lambda>a b. \<not> key_eq F (sn_key (snd a)) (sn_key (snd b))) ?xs"
  proof (rule sorted_wrt_mono_rel)
    show "sorted_wrt (\<lambda>a b. fst a \<noteq> fst b) ?xs" using d by (simp add: distinct_iff_pairs)
    fix a b assume ab: "a \<in> set ?xs" "b \<in> set ?xs" "fst a \<noteq> fst b"
    show "\<not> key_eq F (sn_key (snd a)) (sn_key (snd b))"
    proof
      assume eq: "key_eq F (sn_key (snd a)) (sn_key (snd b))"
      have "sv_ordinals v (fst a) = Some (snd a)" "sv_ordinals v (fst b) = Some (snd b)" using ab(1,2) at by (metis prod.collapse)+
      then have "sv_keys F v (sn_key (snd b)) = Some (fst a)" "sv_keys F v (sn_key (snd b)) = Some (fst b)"
        using ok eq fact_contract_laws(1) [OF F] unfolding sv_ok_def by blast+
      then show False using ab(3) by simp
    qed
  qed
  then show "sorted_wrt (\<lambda>a b. \<not> key_eq F (sn_key a) (sn_key b)) (sv_entries v)" by (simp add: sv_entries_def radix_entries_list sorted_wrt_map)
  show "sv_len v = length (sv_entries v)" using r by (simp add: sv_len_def sv_entries_def radix_entries_list radix_ok_def)
qed

end
