(* ===== verification/Journal_Commit.thy ===== *)
theory Journal_Commit
  imports Journal_Protocol Fact_Snapshot
begin

text \<open>
  What the end of a command does: a rollback gives back the facts of the start, a commit brings the
  snapshot to the live facts, up to the values' own equality. Histories of commands refine the
  ownership protocol on a map from fact identities to values and writers.
\<close>

section \<open>Rollback\<close>

lemma rollback_entry_ok:
  assumes F: "fact_contract F" and sok: "fact_store_ok F s" and own: "owned_map F own (ps_next_ordinal s) L0" "owned_map F own (ps_next_ordinal s) (live F s)"
    and e: "je_first e = L0 (entry_id F e)"
  shows "\<exists>t. rollback_entry F e s = Some t \<and> fact_store_ok F t \<and> live F t = (live F s)(entry_id F e := L0 (entry_id F e)) \<and> ps_next_ordinal t = ps_next_ordinal s"
proof (cases "L0 (entry_id F e)")
  case None
  show ?thesis
    using F sok
  proof (cases rule: slot_index_ok [of F s "ek_view (je_key e)" "ek_key (je_key e)"])
    case (present i sl)
    then show ?thesis using put_slot_None [OF sok present(2)] None e by (auto simp: rollback_entry_def ek_id_def)
  next
    case absent
    then have "(live F s)(entry_id F e := None) = live F s" by (simp add: fun_upd_idem ek_id_def)
    then show ?thesis using absent sok None e by (simp add: rollback_entry_def)
  qed
next
  case (Some before)
  then have b: "slot_id F before = entry_id F e" "owned own (ps_next_ordinal s) before (entry_id F e)" "fact_good (fs_fact before)" using own(1) by (auto simp: owned_map_def)
  have slot_fits: "slot_fits F (ps_next_ordinal s) before (live F s)" by (rule owned_map_fits [OF own(2)]) (use b in auto)
  have id: "fact_id F (slot_view before) (pf_key (fs_fact before)) = entry_id F e" using b(1) by (simp add: slot_id_fact_id)
  show ?thesis
    using F sok
  proof (cases rule: slot_index_ok [of F s "slot_view before" "pf_key (fs_fact before)"])
    case (present i sl)
    have "slot_id F before = slot_id F sl" using present(4) id b(1) by simp
    then show ?thesis using put_slot_Some [OF sok present(2) _ slot_fits] present(1) Some e b(1) by (auto simp: rollback_entry_def)
  next
    case absent
    then show ?thesis using reserve_place [OF sok _ slot_fits] Some e b(1) id by (auto simp: rollback_entry_def Let_def)
  qed
qed

lemma rollback_entries:
  assumes F: "fact_contract F" and L0: "owned_map F own n L0"
  shows "fact_store_ok F s \<Longrightarrow> ps_next_ordinal s = n \<Longrightarrow> owned_map F own n (live F s) \<Longrightarrow> \<forall>e \<in> set es. je_first e = L0 (entry_id F e) \<Longrightarrow>
    \<exists>t. fold_opt (rollback_entry F) es s = Some t \<and> fact_store_ok F t \<and> ps_next_ordinal t = n \<and>
      live F t = (\<lambda>x. if x \<in> entry_id F ` set es then L0 x else live F s x)"
proof (induction es arbitrary: s)
  case (Cons e es)
  obtain t where t: "rollback_entry F e s = Some t" "fact_store_ok F t" "live F t = (live F s)(entry_id F e := L0 (entry_id F e))" "ps_next_ordinal t = n"
    using rollback_entry_ok [OF F Cons.prems(1), of own L0 e] Cons.prems(2-4) L0 by auto
  have "owned_map F own n (live F t)" using Cons.prems(3) L0 by (auto simp: t(3) owned_map_def)
  then obtain u where u: "fold_opt (rollback_entry F) es t = Some u" "fact_store_ok F u" "ps_next_ordinal u = n"
    "live F u = (\<lambda>x. if x \<in> entry_id F ` set es then L0 x else live F t x)" using Cons.IH [OF t(2,4)] Cons.prems(4) by auto
  then show ?case using t(1) by (auto simp: t(3) fun_eq_iff)
qed simp

lemma rollback_ok:
  assumes F: "fact_contract F" and ok: "journal_ok F own L0 (s, j)"
  shows "\<exists>t. rollback F j s = Some t \<and> fact_store_ok F t \<and> live F t = L0 \<and> ps_next_ordinal t = ps_next_ordinal s"
proof -
  have o: "fact_store_ok F s" "owned_map F own (ps_next_ordinal s) L0" "owned_map F own (ps_next_ordinal s) (live F s)" "\<And>x. x \<notin> touched_ids F j \<Longrightarrow> live F s x = L0 x"
    "\<forall>e \<in> set (rev (fj_entries j)). je_first e = L0 (entry_id F e)" using ok by (auto simp: journal_ok_def entry_ok_def)
  from rollback_entries [OF F o(2,1) refl o(3,5)] obtain t where "rollback F j s = Some t" "fact_store_ok F t" "ps_next_ordinal t = ps_next_ordinal s"
    "live F t = (\<lambda>x. if x \<in> touched_ids F j then L0 x else live F s x)" by (auto simp: rollback_def touched_ids_def)
  then show ?thesis using o(4) by (auto simp: fun_eq_iff)
qed

section \<open>Commit\<close>

definition view_root_ok :: "('k, 'v) fact_ops \<Rightarrow> (nat \<Rightarrow> 'k identity) \<Rightarrow> nat \<Rightarrow> ('k, 'v) snapshot_root \<Rightarrow> bool" where
  "view_root_ok F own n root \<longleftrightarrow> (\<forall>view v. root view = Some v \<longrightarrow> sv_ok F v \<and>
     (\<forall>ord e. sv_ordinals v ord = Some e \<longrightarrow> own (unat ord) = fact_id F view (sn_key e) \<and> unat ord < n))"

definition committed :: "('k, 'v) fact_ops \<Rightarrow> ('k, 'v) snapshot_root \<Rightarrow> nat \<Rightarrow> 'k \<Rightarrow> ('k, 'v) snapshot_entry option" where
  "committed F root view key = (case root view of None \<Rightarrow> None | Some v \<Rightarrow> sv_map F v key)"

lemma fact_ids: "fact_contract F \<Longrightarrow> fact_id F v k = fact_id F w l \<longleftrightarrow> v = w \<and> key_eq F k l"
  by (simp add: fact_id_def key_class)

lemma root_ok_mono: "view_root_ok F own n root \<Longrightarrow> (\<forall>i < n. own' i = own i) \<Longrightarrow> n \<le> m \<Longrightarrow> view_root_ok F own' m root"
proof -
  assume ok: "view_root_ok F own n root" and own: "\<forall>i < n. own' i = own i" "n \<le> m"
  have "own' (unat ord) = fact_id F view (sn_key e) \<and> unat ord < m" if "root view = Some v" "sv_ordinals v ord = Some e" for view v ord e
  proof -
    have "own (unat ord) = fact_id F view (sn_key e)" "unat ord < n" using ok that unfolding view_root_ok_def by blast+
    then show ?thesis using own by simp
  qed
  then show ?thesis using ok unfolding view_root_ok_def by blast
qed

lemma apply_delta_ok:
  assumes F: "fact_contract F" and ok: "view_root_ok F own n root" and n: "n \<le> usize_max"
    and final: "case jd_final d of None \<Rightarrow> True | Some (ord, k, v) \<Rightarrow> own ord = fact_id F (jd_view d) k \<and> ord < n \<and> key_eq F k (jd_key d)"
  shows "\<exists>root'. apply_delta F d root = Some root' \<and> view_root_ok F own n root' \<and>
    (\<forall>view key. committed F root' view key = (if fact_id F view key = fact_id F (jd_view d) (jd_key d)
       then map_option (\<lambda>(_, k, v). \<lparr>sn_key = k, sn_value = v\<rparr>) (jd_final d) else committed F root view key))"
proof -
  note eq = fact_contract_laws [OF F]
  define v0 where "v0 = (case root (jd_view d) of None \<Rightarrow> snapshot_view_default | Some v \<Rightarrow> v)"
  define v where "v = (if jd_view_name d \<noteq> [] then v0\<lparr>sv_name := jd_view_name d\<rparr> else v0)"
  have v0: "sv_ok F v0" "sv_map F v0 k = committed F root (jd_view d) k"
    "sv_ordinals v0 ord = Some e \<Longrightarrow> own (unat ord) = fact_id F (jd_view d) (sn_key e) \<and> unat ord < n" for k ord e
    using ok by (auto simp: v0_def view_root_ok_def committed_def sv_default_ok split: option.split_asm option.split)
  have v: "sv_ok F v" "sv_map F v k = committed F root (jd_view d) k" "sv_ordinals v ord = Some e \<Longrightarrow> own (unat ord) = fact_id F (jd_view d) (sn_key e) \<and> unat ord < n" for k ord e
    using v0 by (cases "jd_view_name d = []"; auto simp: v_def sv_name_ok)+
  have sym: "key_eq F k key \<longleftrightarrow> key_eq F key k" for k key using eq(2) by blast
  have "\<exists>v'. (case jd_final d of Some (ordinal, key, value) \<Rightarrow> sv_insert F (of_nat ordinal) \<lparr>sn_key = key, sn_value = value\<rparr> v | None \<Rightarrow> sv_remove F (jd_key d) v) = Some v' \<and>
     sv_ok F v' \<and> sv_map F v' = (\<lambda>k. if key_eq F (jd_key d) k then map_option (\<lambda>(_, k, v). \<lparr>sn_key = k, sn_value = v\<rparr>) (jd_final d) else sv_map F v k) \<and>
     (\<forall>ord e. sv_ordinals v' ord = Some e \<longrightarrow> own (unat ord) = fact_id F (jd_view d) (sn_key e) \<and> unat ord < n)"
  proof (cases "jd_final d")
    case None
    then show ?thesis using sv_remove_ok [OF F v(1), of "jd_key d"] v(3) by fastforce
  next
    case (Some f)
    obtain ord k w where f: "f = (ord, k, w)" by (cases f)
    have o: "own ord = fact_id F (jd_view d) k" "ord < n" "key_eq F k (jd_key d)" using final Some f by auto
    have u: "unat (of_nat ord :: u64) = ord" using o(2) n by (simp add: usize_max_def unsigned_of_nat take_bit_nat_eq_self)
    have "key_eq F (sn_key e) k" if "sv_ordinals v (of_nat ord) = Some e" for e using v(3) [OF that] o(1) by (auto simp: u fact_ids [OF F] intro: eq(2))
    then obtain v' where v': "sv_insert F (of_nat ord) \<lparr>sn_key = k, sn_value = w\<rparr> v = Some v'" "sv_ok F v'"
      "sv_map F v' = (\<lambda>x. if key_eq F k x then Some \<lparr>sn_key = k, sn_value = w\<rparr> else sv_map F v x)"
      "\<And>i e. sv_ordinals v' i = Some e \<Longrightarrow> i = of_nat ord \<and> e = \<lparr>sn_key = k, sn_value = w\<rparr> \<or> sv_ordinals v i = Some e"
      using sv_insert_ok [OF F v(1), of "of_nat ord" "\<lparr>sn_key = k, sn_value = w\<rparr>"] by auto
    have "key_eq F k x \<longleftrightarrow> key_eq F (jd_key d) x" for x using o(3) eq(2,3) by blast
    moreover have "own (unat i) = fact_id F (jd_view d) (sn_key e) \<and> unat i < n" if "sv_ordinals v' i = Some e" for i e using v'(4) [OF that] v(3) o u by auto
    ultimately show ?thesis using v'(1-3) Some f by auto
  qed
  moreover have "apply_delta F d root = Option.bind (case jd_final d of Some (ordinal, key, value) \<Rightarrow> sv_insert F (of_nat ordinal) \<lparr>sn_key = key, sn_value = value\<rparr> v | None \<Rightarrow> sv_remove F (jd_key d) v)
      (\<lambda>v. Some (root(jd_view d \<mapsto> v)))" unfolding apply_delta_def v_def v0_def Let_def ..
  ultimately obtain v' where v': "apply_delta F d root = Some (root(jd_view d \<mapsto> v'))" "sv_ok F v'"
    "sv_map F v' = (\<lambda>k. if key_eq F (jd_key d) k then map_option (\<lambda>(_, k, v). \<lparr>sn_key = k, sn_value = v\<rparr>) (jd_final d) else sv_map F v k)"
    "\<And>ord e. sv_ordinals v' ord = Some e \<Longrightarrow> own (unat ord) = fact_id F (jd_view d) (sn_key e) \<and> unat ord < n"
    by fastforce
  moreover have "view_root_ok F own n (root(jd_view d \<mapsto> v'))" using ok v'(2,4) by (auto simp: view_root_ok_def)
  moreover have "committed F (root(jd_view d \<mapsto> v')) view key = (if fact_id F view key = fact_id F (jd_view d) (jd_key d)
       then map_option (\<lambda>(_, k, v). \<lparr>sn_key = k, sn_value = v\<rparr>) (jd_final d) else committed F root view key)" for view key
    using v(2) v'(3) sym [of key "jd_key d"] by (auto simp: committed_def fact_ids [OF F])
  ultimately show ?thesis by blast
qed

definition staged_entry :: "('k, 'v) journal_entry \<Rightarrow> ('k, 'v) snapshot_entry option" where
  "staged_entry e = map_option (\<lambda>sl. \<lparr>sn_key = pf_key (fs_fact sl), sn_value = pf_value (fs_fact sl)\<rparr>) (je_staged e)"

lemma apply_entries:
  assumes F: "fact_contract F" and n: "n \<le> usize_max"
  shows "view_root_ok F own n root \<Longrightarrow> distinct (map (entry_id F) es) \<Longrightarrow>
    \<forall>e \<in> set es. case je_staged e of None \<Rightarrow> True | Some st \<Rightarrow> slot_id F st = entry_id F e \<and> owned own n st (entry_id F e) \<Longrightarrow>
    \<exists>root'. fold_opt (apply_delta F) (map entry_delta es) root = Some root' \<and> view_root_ok F own n root' \<and>
      (\<forall>view key. (\<forall>e \<in> set es. entry_id F e = fact_id F view key \<longrightarrow> committed F root' view key = staged_entry e) \<and>
        (fact_id F view key \<notin> entry_id F ` set es \<longrightarrow> committed F root' view key = committed F root view key))"
proof (induction es arbitrary: root)
  case (Cons e es)
  let ?d = "entry_delta e"
  have id: "entry_id F e = fact_id F (jd_view ?d) (jd_key ?d)" by (simp add: entry_delta_def ek_id_def)
  have fin: "map_option (\<lambda>(_, k, v). \<lparr>sn_key = k, sn_value = v\<rparr>) (jd_final ?d) = staged_entry e" by (simp add: entry_delta_def staged_entry_def option.map_comp comp_def)
  have "case jd_final ?d of None \<Rightarrow> True | Some (ord, k, v) \<Rightarrow> own ord = fact_id F (jd_view ?d) k \<and> ord < n \<and> key_eq F k (jd_key ?d)"
  proof (cases "je_staged e")
    case (Some st)
    then have "slot_id F st = fact_id F (jd_view ?d) (jd_key ?d)" "own (fs_ordinal st) = slot_id F st" "fs_ordinal st < n" using Cons.prems(3) id by (auto simp: owned_def)
    moreover have "slot_view st = jd_view ?d" "key_eq F (pf_key (fs_fact st)) (jd_key ?d)" using calculation(1) by (simp_all add: fact_id_eq [OF F])
    ultimately show ?thesis using Some by (simp add: entry_delta_def slot_id_fact_id)
  qed (simp add: entry_delta_def)
  from apply_delta_ok [OF F Cons.prems(1) n this] obtain r where r: "apply_delta F ?d root = Some r" "view_root_ok F own n r"
    "\<And>view key. committed F r view key = (if fact_id F view key = entry_id F e then staged_entry e else committed F root view key)"
    unfolding id fin by blast
  from Cons.IH [OF r(2)] Cons.prems(2,3) obtain r' where r': "fold_opt (apply_delta F) (map entry_delta es) r = Some r'" "view_root_ok F own n r'"
    "\<And>view key e'. e' \<in> set es \<Longrightarrow> entry_id F e' = fact_id F view key \<Longrightarrow> committed F r' view key = staged_entry e'"
    "\<And>view key. fact_id F view key \<notin> entry_id F ` set es \<Longrightarrow> committed F r' view key = committed F r view key" by auto
  have new: "entry_id F e \<notin> entry_id F ` set es" using Cons.prems(2) by simp
  have "committed F r' view key = staged_entry e'" if "e' \<in> set (e # es)" "entry_id F e' = fact_id F view key" for view key e'
    using that r'(3) [of e' view key] r'(4) [of view key] r(3) [of view key] new by (cases "e' = e") auto
  moreover have "committed F r' view key = committed F root view key" if "fact_id F view key \<notin> entry_id F ` set (e # es)" for view key
    using that r'(4) [of view key] r(3) [of view key] by auto
  ultimately show ?case using r(1) r'(1,2) by auto
qed simp

text \<open>The snapshot holds every live fact, with the live value or one equal to it.\<close>

definition same_value :: "('k, 'v) fact_ops \<Rightarrow> 'v \<Rightarrow> 'v \<Rightarrow> bool" where
  "same_value F u v \<longleftrightarrow> u = v \<or> value_eq F u v"

definition holds_fact :: "('k, 'v) fact_ops \<Rightarrow> ('k, 'v) snapshot_entry option \<Rightarrow> ('k, 'v) fact_slot option \<Rightarrow> bool" where
  "holds_fact F e sl = rel_option (\<lambda>e sl. same_value F (sn_value e) (pf_value (fs_fact sl))) e sl"

definition snapshot_in_step :: "('k, 'v) fact_ops \<Rightarrow> ('k, 'v) snapshot_root \<Rightarrow> ('k identity \<rightharpoonup> ('k, 'v) fact_slot) \<Rightarrow> bool" where
  "snapshot_in_step F root L \<longleftrightarrow> (\<forall>view key. holds_fact F (committed F root view key) (L (fact_id F view key)))"

lemma same_value_trans: "fact_contract F \<Longrightarrow> same_value F u v \<Longrightarrow> same_value F v w \<Longrightarrow> same_value F u w"
  by (auto simp: same_value_def fact_contract_def dest: transpD)

lemma commit_ok:
  assumes F: "fact_contract F" and ok: "journal_ok F own L0 (s, j)" and n: "ps_next_ordinal s \<le> usize_max" and root: "view_root_ok F own (ps_next_ordinal s) root" "snapshot_in_step F root L0"
  shows "\<exists>root'. snapshot_apply F (commit_deltas F j) root = Some root' \<and> view_root_ok F own (ps_next_ordinal s) root' \<and> snapshot_in_step F root' (live F s)"
proof -
  have o: "fact_store_ok F s" "distinct (map (entry_id F) (fj_entries j))" "\<And>e. e \<in> set (fj_entries j) \<Longrightarrow> entry_ok F own L0 s e" "\<And>x. x \<notin> touched_ids F j \<Longrightarrow> live F s x = L0 x"
    using ok by (auto simp: journal_ok_def key_index_ok_def)
  let ?es = "filter (\<lambda>e. value_changed F (je_first e) (je_staged e)) (fj_entries j)"
  have staged: "live F s (entry_id F e) = Some sl \<Longrightarrow> fs_fact sl = fs_fact st \<Longrightarrow> slot_id F st = entry_id F e" for e sl st
    using live_slot [OF o(1)] by (metis slot_id_def)
  have "\<forall>e \<in> set ?es. case je_staged e of None \<Rightarrow> True | Some st \<Rightarrow> slot_id F st = entry_id F e \<and> owned own (ps_next_ordinal s) st (entry_id F e)"
    using o(3) staged by (fastforce simp: entry_ok_def split: option.splits)
  from apply_entries [OF F n root(1) distinct_map_filter [OF o(2)] this] obtain root' where r: "snapshot_apply F (commit_deltas F j) root = Some root'" "view_root_ok F own (ps_next_ordinal s) root'"
    "\<And>view key e. e \<in> set ?es \<Longrightarrow> entry_id F e = fact_id F view key \<Longrightarrow> committed F root' view key = staged_entry e"
    "\<And>view key. fact_id F view key \<notin> entry_id F ` set ?es \<Longrightarrow> committed F root' view key = committed F root view key"
    unfolding snapshot_apply_def commit_deltas_def by blast
  have "holds_fact F (committed F root' view key) (live F s (fact_id F view key))" for view key
  proof (cases "fact_id F view key \<in> touched_ids F j")
    case False
    then have "fact_id F view key \<notin> entry_id F ` set ?es" by (auto simp: touched_ids_def)
    then show ?thesis using r(4) o(4) [OF False] root(2) by (simp add: snapshot_in_step_def)
  next
    case True
    then obtain e where e: "e \<in> set (fj_entries j)" "entry_id F e = fact_id F view key" by (auto simp: touched_ids_def)
    note eok = o(3) [OF e(1), unfolded entry_ok_def e(2)]
    show ?thesis
    proof (cases "value_changed F (je_first e) (je_staged e)")
      case True
      then have "committed F root' view key = staged_entry e" using r(3) e by simp
      then show ?thesis using eok by (auto simp: holds_fact_def staged_entry_def same_value_def split: option.splits)
    next
      case False
      have "e' = e" if "e' \<in> set (fj_entries j)" "entry_id F e' = entry_id F e" for e'
        using o(2) that e(1) by (simp add: distinct_map inj_on_def)
      then have "fact_id F view key \<notin> entry_id F ` set ?es" using False e(2) by auto
      then have c: "committed F root' view key = committed F root view key" by (rule r(4))
      have h: "holds_fact F (committed F root view key) (L0 (fact_id F view key))" using root(2) by (simp add: snapshot_in_step_def)
      show ?thesis
      proof (cases "je_staged e")
        case None
        then show ?thesis using False eok h by (auto simp: c value_changed_def split: option.splits)
      next
        case (Some st)
        then obtain before sl where b: "L0 (fact_id F view key) = Some before" "value_eq F (pf_value (fs_fact before)) (pf_value (fs_fact st))"
          "live F s (fact_id F view key) = Some sl" "fs_fact sl = fs_fact st" using False eok by (auto simp: value_changed_def split: option.splits)
        then have "same_value F (pf_value (fs_fact before)) (pf_value (fs_fact sl))" by (simp add: same_value_def)
        then show ?thesis using h b(1,3) same_value_trans [OF F] by (auto simp: c holds_fact_def option_rel_Some2)
      qed
    qed
  qed
  then show ?thesis using r(1,2) by (auto simp: snapshot_in_step_def)
qed

end
