(* ===== verification/Store_History.thy ===== *)
theory Store_History
  imports Journal_Commit
begin

text \<open>
  Histories of commands on the fact store: each command writes and retracts through a fresh journal,
  and ends with the commit to the snapshot or, at the first conflict, with the rollback. They refine
  the ownership protocol on a map from fact identities.
\<close>

section \<open>Commands\<close>

datatype ('k, 'v) fact_op =
    FactWrite nat string 'k "'v option" u64 string bool
  | FactRetract nat 'k u64

fun run_fact_op :: "('k, 'v) fact_ops \<Rightarrow> ('k, 'v) fact_op \<Rightarrow> ('k, 'v) journaled \<Rightarrow> (('k store_error + 'k fact_change option) \<times> ('k, 'v) journaled) option" where
  "run_fact_op F (FactWrite view name key v writer writer_name shareable) sj = journal_write F view name key v writer writer_name shareable sj"
| "run_fact_op F (FactRetract view key writer) sj = journal_retract F view key writer sj"

fun run_fact_ops :: "('k, 'v) fact_ops \<Rightarrow> ('k, 'v) fact_op list \<Rightarrow> ('k, 'v) journaled \<Rightarrow> ('k store_error option \<times> ('k, 'v) journaled) option" where
  "run_fact_ops F [] sj = Some (None, sj)"
| "run_fact_ops F (x # ops) sj = do {
     (r, sj) \<leftarrow> run_fact_op F x sj;
     (case r of Inl e \<Rightarrow> Some (Some e, sj) | Inr _ \<Rightarrow> run_fact_ops F ops sj) }"

type_synonym ('k, 'v) store_system = "('k, 'v) plain_state \<times> ('k, 'v) snapshot_root"

definition run_command :: "('k, 'v) fact_ops \<Rightarrow> ('k, 'v) fact_op list \<Rightarrow> ('k, 'v) store_system \<Rightarrow> ('k store_error option \<times> ('k, 'v) store_system) option" where
  "run_command F ops = (\<lambda>(s, root). do {
     (r, s, j) \<leftarrow> run_fact_ops F ops (s, journal_default);
     (case r of
        Some e \<Rightarrow> do { s \<leftarrow> rollback F j s; Some (Some e, s, root) }
      | None \<Rightarrow> do { root \<leftarrow> snapshot_apply F (commit_deltas F j) root; Some (None, s, root) }) })"

fun run_commands :: "('k, 'v) fact_ops \<Rightarrow> ('k, 'v) fact_op list list \<Rightarrow> ('k, 'v) store_system \<Rightarrow> ('k store_error option list \<times> ('k, 'v) store_system) option" where
  "run_commands F [] sr = Some ([], sr)"
| "run_commands F (c # cs) sr = do {
     (r, sr) \<leftarrow> run_command F c sr;
     (rs, sr) \<leftarrow> run_commands F cs sr;
     Some (r # rs, sr) }"

definition store_start :: "('k, 'v) store_system" where
  "store_start = (plain_state_default, Map.empty)"

section \<open>The abstract store\<close>

type_synonym ('k, 'v) owned_facts = "'k identity \<rightharpoonup> 'v owned_value"

fun spec_op :: "('k, 'v) fact_ops \<Rightarrow> ('k, 'v) fact_op \<Rightarrow> ('k, 'v) owned_facts \<Rightarrow> ('k, 'v) owned_facts option" where
  "spec_op F (FactWrite view name key v writer writer_name shareable) A =
     (case write_spec (value_eq F) v writer shareable (A (fact_id F view key)) of Inl _ \<Rightarrow> None | Inr a \<Rightarrow> Some (A(fact_id F view key := a)))"
| "spec_op F (FactRetract view key writer) A = Some (A(fact_id F view key := retract_spec writer (A (fact_id F view key))))"

text \<open>A command that conflicts changes nothing.\<close>

definition spec_command :: "('k, 'v) fact_ops \<Rightarrow> ('k, 'v) fact_op list \<Rightarrow> ('k, 'v) owned_facts \<Rightarrow> ('k, 'v) owned_facts" where
  "spec_command F ops A = (case fold_opt (spec_op F) ops A of None \<Rightarrow> A | Some A' \<Rightarrow> A')"

definition system_ok :: "('k, 'v) fact_ops \<Rightarrow> (nat \<Rightarrow> 'k identity) \<Rightarrow> ('k, 'v) store_system \<Rightarrow> bool" where
  "system_ok F own = (\<lambda>(s, root). fact_store_ok F s \<and> owned_map F own (ps_next_ordinal s) (live F s) \<and> view_root_ok F own (ps_next_ordinal s) root \<and> snapshot_in_step F root (live F s))"

lemma store_start_ok: "system_ok F own store_start" "owned_at F (fst store_start) = Map.empty" "ps_next_ordinal (fst store_start) = 0"
proof -
  have at: "slot_at plain_state_default i = None" for i :: nat by (simp add: slot_at_def plain_state_default_def)
  have live: "live F plain_state_default x = None" for x by (simp add: live_def facts_of_def at)
  have "fact_store_ok F plain_state_default"
    by (simp add: fact_store_ok_def slot_indexes_def slots_ok_def free_ok_def at key_rows_def ordinal_rows_def)
      (simp add: plain_state_default_def buckets_ok_def bucket_rel_def multi_sorted_def multi_rel_def)
  then show "system_ok F own store_start" using live by (simp add: system_ok_def store_start_def owned_map_def view_root_ok_def snapshot_in_step_def committed_def holds_fact_def)
  show "owned_at F (fst store_start) = Map.empty" by (rule ext) (simp add: owned_at_def live store_start_def)
  show "ps_next_ordinal (fst store_start) = 0" by (simp add: store_start_def plain_state_default_def)
qed

lemma journal_start: "fact_store_ok F s \<Longrightarrow> owned_map F own (ps_next_ordinal s) (live F s) \<Longrightarrow> journal_ok F own (live F s) (s, journal_default)"
  by (simp add: journal_ok_def key_index_ok_def journal_default_def)

definition own_extends :: "nat \<Rightarrow> (nat \<Rightarrow> 'k identity) \<Rightarrow> (nat \<Rightarrow> 'k identity) \<Rightarrow> bool" where
  "own_extends n own own' \<longleftrightarrow> (\<forall>i < n. own' i = own i)"

lemma own_extends_trans: "own_extends n a b \<Longrightarrow> own_extends m b c \<Longrightarrow> n \<le> m \<Longrightarrow> own_extends n a c"
  by (simp add: own_extends_def)

lemma fact_op_ok:
  assumes F: "fact_contract F" and ok: "journal_ok F own L0 (s, j)" and room: "ps_next_ordinal s + 2 \<le> usize_max"
  shows "case spec_op F x (owned_at F s) of
      None \<Rightarrow> \<exists>e. run_fact_op F x (s, j) = Some (Inl e, s, j)
    | Some A \<Rightarrow> \<exists>c own' s' j'. run_fact_op F x (s, j) = Some (Inr c, s', j') \<and> journal_ok F own' L0 (s', j') \<and> own_extends (ps_next_ordinal s) own own' \<and>
        ps_next_ordinal s \<le> ps_next_ordinal s' \<and> ps_next_ordinal s' \<le> ps_next_ordinal s + 2 \<and> owned_at F s' = A"
proof (cases x)
  case (FactWrite view name key v writer writer_name shareable)
  then show ?thesis using journal_write_ok [OF F ok room, where v = v and w = writer and shareable = shareable and view = view and key = key and name = name and wname = writer_name]
    by (auto simp: runs_to_def own_extends_def split: sum.splits)
next
  case (FactRetract view key writer)
  then show ?thesis using journal_retract_ok [OF F ok room, of view key writer] by (auto simp: runs_to_def own_extends_def)
qed

lemma fact_ops_ok:
  assumes F: "fact_contract F"
  shows "journal_ok F own L0 (s, j) \<Longrightarrow> ps_next_ordinal s + 2 * length ops \<le> usize_max \<Longrightarrow>
    \<exists>r own' s' j'. run_fact_ops F ops (s, j) = Some (r, s', j') \<and> journal_ok F own' L0 (s', j') \<and> own_extends (ps_next_ordinal s) own own' \<and>
      ps_next_ordinal s \<le> ps_next_ordinal s' \<and> ps_next_ordinal s' \<le> ps_next_ordinal s + 2 * length ops \<and>
      (case fold_opt (spec_op F) ops (owned_at F s) of None \<Rightarrow> r \<noteq> None | Some A \<Rightarrow> r = None \<and> owned_at F s' = A)"
proof (induction ops arbitrary: own s j)
  case Nil
  then show ?case by (auto simp: own_extends_def)
next
  case (Cons x ops)
  have room: "ps_next_ordinal s + 2 \<le> usize_max" using Cons.prems(2) by simp
  show ?case
  proof (cases "spec_op F x (owned_at F s)")
    case None
    then obtain e where "run_fact_op F x (s, j) = Some (Inl e, s, j)" using fact_op_ok [OF F Cons.prems(1) room, of x] by auto
    then show ?thesis using Cons.prems(1) None by (auto simp: own_extends_def)
  next
    case (Some A)
    then obtain c own1 s1 j1 where s1: "run_fact_op F x (s, j) = Some (Inr c, s1, j1)" "journal_ok F own1 L0 (s1, j1)" "own_extends (ps_next_ordinal s) own own1"
      "ps_next_ordinal s \<le> ps_next_ordinal s1" "ps_next_ordinal s1 \<le> ps_next_ordinal s + 2" "owned_at F s1 = A"
      using fact_op_ok [OF F Cons.prems(1) room, of x] by auto
    have "ps_next_ordinal s1 + 2 * length ops \<le> usize_max" using Cons.prems(2) s1(5) by simp
    from Cons.IH [OF s1(2) this] obtain r own2 s2 j2 where s2: "run_fact_ops F ops (s1, j1) = Some (r, s2, j2)" "journal_ok F own2 L0 (s2, j2)" "own_extends (ps_next_ordinal s1) own1 own2"
      "ps_next_ordinal s1 \<le> ps_next_ordinal s2" "ps_next_ordinal s2 \<le> ps_next_ordinal s1 + 2 * length ops"
      "case fold_opt (spec_op F) ops A of None \<Rightarrow> r \<noteq> None | Some A' \<Rightarrow> r = None \<and> owned_at F s2 = A'" unfolding s1(6) by blast
    have "run_fact_ops F (x # ops) (s, j) = Some (r, s2, j2)" using s1(1) s2(1) by simp
    moreover have "own_extends (ps_next_ordinal s) own own2" by (rule own_extends_trans [OF s1(3) s2(3) s1(4)])
    moreover have "ps_next_ordinal s \<le> ps_next_ordinal s2" "ps_next_ordinal s2 \<le> ps_next_ordinal s + 2 * length (x # ops)" using s1(4,5) s2(4,5) by simp_all
    ultimately show ?thesis using s2(2,6) Some by auto
  qed
qed

lemma owned_at_cong: "live F s = live F t \<Longrightarrow> owned_at F s = owned_at F t"
  by (simp add: owned_at_def fun_eq_iff)

lemma command_ok:
  assumes F: "fact_contract F" and ok: "system_ok F own (s, root)" and room: "ps_next_ordinal s + 2 * length ops \<le> usize_max"
  shows "\<exists>r own' s' root'. run_command F ops (s, root) = Some (r, s', root') \<and> system_ok F own' (s', root') \<and>
    ps_next_ordinal s' \<le> ps_next_ordinal s + 2 * length ops \<and> owned_at F s' = spec_command F ops (owned_at F s) \<and>
    (r = None \<longleftrightarrow> fold_opt (spec_op F) ops (owned_at F s) \<noteq> None) \<and> (r \<noteq> None \<longrightarrow> live F s' = live F s \<and> root' = root)"
proof -
  have o: "fact_store_ok F s" "owned_map F own (ps_next_ordinal s) (live F s)" "view_root_ok F own (ps_next_ordinal s) root" "snapshot_in_step F root (live F s)" using ok by (auto simp: system_ok_def)
  from fact_ops_ok [OF F journal_start [OF o(1,2)] room] obtain r own' s1 j where R: "run_fact_ops F ops (s, journal_default) = Some (r, s1, j)" "journal_ok F own' (live F s) (s1, j)"
    "own_extends (ps_next_ordinal s) own own'" "ps_next_ordinal s \<le> ps_next_ordinal s1" "ps_next_ordinal s1 \<le> ps_next_ordinal s + 2 * length ops"
    "case fold_opt (spec_op F) ops (owned_at F s) of None \<Rightarrow> r \<noteq> None | Some A \<Rightarrow> r = None \<and> owned_at F s1 = A" by blast
  have root1: "view_root_ok F own' (ps_next_ordinal s1) root" by (rule root_ok_mono [OF o(3) R(3) [unfolded own_extends_def] R(4)])
  have jk: "owned_map F own' (ps_next_ordinal s1) (live F s)" "owned_map F own' (ps_next_ordinal s1) (live F s1)" "fact_store_ok F s1" using R(2) by (auto simp: journal_ok_def)
  show ?thesis
  proof (cases r)
    case None
    then have spec: "fold_opt (spec_op F) ops (owned_at F s) = Some (owned_at F s1)" using R(6) by (auto split: option.splits)
    obtain root' where "snapshot_apply F (commit_deltas F j) root = Some root'" "view_root_ok F own' (ps_next_ordinal s1) root'" "snapshot_in_step F root' (live F s1)"
      using commit_ok [OF F R(2) _ root1 o(4)] R(5) room by auto
    then show ?thesis using R(1,5) None jk spec by (auto simp: run_command_def system_ok_def spec_command_def intro!: exI [of _ own'])
  next
    case (Some e)
    then have spec: "fold_opt (spec_op F) ops (owned_at F s) = None" using R(6) by (auto split: option.splits)
    obtain t where t: "rollback F j s1 = Some t" "fact_store_ok F t" "live F t = live F s" "ps_next_ordinal t = ps_next_ordinal s1" using rollback_ok [OF F R(2)] by blast
    then have "system_ok F own' (t, root)" using jk(1) root1 o(4) by (simp add: system_ok_def)
    then show ?thesis using R(1,5) Some t spec owned_at_cong [OF t(3)] by (auto simp: run_command_def spec_command_def)
  qed
qed

lemma commands_ok:
  assumes F: "fact_contract F"
  shows "system_ok F own (s, root) \<Longrightarrow> ps_next_ordinal s + 2 * length (concat cmds) \<le> usize_max \<Longrightarrow>
    \<exists>rs own' s' root'. run_commands F cmds (s, root) = Some (rs, s', root') \<and> system_ok F own' (s', root') \<and> length rs = length cmds \<and>
      ps_next_ordinal s' \<le> ps_next_ordinal s + 2 * length (concat cmds) \<and> owned_at F s' = fold (spec_command F) cmds (owned_at F s)"
proof (induction cmds arbitrary: own s root)
  case (Cons c cmds)
  have "ps_next_ordinal s + 2 * length c \<le> usize_max" using Cons.prems(2) by simp
  from command_ok [OF F Cons.prems(1) this] obtain r own1 s1 root1 where s1: "run_command F c (s, root) = Some (r, s1, root1)" "system_ok F own1 (s1, root1)"
    "ps_next_ordinal s1 \<le> ps_next_ordinal s + 2 * length c" "owned_at F s1 = spec_command F c (owned_at F s)" by blast
  have "ps_next_ordinal s1 + 2 * length (concat cmds) \<le> usize_max" using Cons.prems(2) s1(3) by simp
  from Cons.IH [OF s1(2) this] s1 show ?case by fastforce
qed auto

end
