(* ===== verification/Store_Properties.thy ===== *)
theory Store_Properties
  imports Store_History
begin

text \<open>
  The properties of the fact store: the hash trie against a map up to key equality, histories of
  commands against the ownership protocol, rollback, the committed snapshot, the previous values of a
  command.
\<close>

datatype ('k, 'v) hamt_op = HamtInsert 'k 'v | HamtRemove 'k

fun hamt_step :: "'k trie_key \<Rightarrow> ('k, 'v) hamt_op \<Rightarrow> ('k, 'v) hamt \<Rightarrow> ('k, 'v) hamt option" where
  "hamt_step K (HamtInsert k v) m = hamt_insert K m k v"
| "hamt_step K (HamtRemove k) m = map_option snd (hamt_remove K m k)"

fun trie_map_step :: "'k trie_key \<Rightarrow> ('k, 'v) hamt_op \<Rightarrow> ('k \<rightharpoonup> 'v) \<Rightarrow> ('k \<rightharpoonup> 'v)" where
  "trie_map_step K (HamtInsert k v) M = (\<lambda>x. if trie_eq K k x then Some v else M x)"
| "trie_map_step K (HamtRemove k) M = (\<lambda>x. if trie_eq K k x then None else M x)"

lemma hamt_run_map:
  assumes K: "trie_key_contract K"
  shows "hamt_ok K m \<Longrightarrow> \<exists>m'. fold_opt (hamt_step K) ops m = Some m' \<and> hamt_ok K m' \<and> hamt_map K m' = fold (trie_map_step K) ops (hamt_map K m)"
proof (induction ops arbitrary: m)
  case (Cons x ops)
  have "\<exists>m'. hamt_step K x m = Some m' \<and> hamt_ok K m' \<and> hamt_map K m' = trie_map_step K x (hamt_map K m)"
    using hamt_insert_map [OF K Cons.prems] hamt_remove_map [OF K Cons.prems] by (cases x) fastforce+
  then show ?case using Cons.IH by fastforce
qed simp

lemma hamt_entries_map:
  assumes K: "trie_key_contract K" and ok: "hamt_ok K m"
  shows "hamt_map K m k = Some v \<longleftrightarrow> (\<exists>k'. trie_eq K k' k \<and> (k', v) \<in> set (hamt_entries m))"
    "sorted_wrt (\<lambda>a b. \<not> trie_eq K (fst a) (fst b)) (hamt_entries m)" "hm_len m = length (hamt_entries m)"
proof -
  have es: "entries_ok K (hamt_list m)" by (rule hamt_list_ok [OF K ok])
  show "hamt_map K m k = Some v \<longleftrightarrow> (\<exists>k'. trie_eq K k' k \<and> (k', v) \<in> set (hamt_entries m))"
    by (force simp: hamt_map_def find_with_key_iff [OF K es] hamt_entries_list with_key_def)
  show "sorted_wrt (\<lambda>a b. \<not> trie_eq K (fst a) (fst b)) (hamt_entries m)"
    using es by (simp add: hamt_entries_list entries_ok_def sorted_wrt_map)
  show "hm_len m = length (hamt_entries m)" using ok by (simp add: hamt_ok_def hamt_entries_list)
qed

text \<open>C11: any history of insertions and removals on the hash trie, over any key type whose equality is
  an equivalence that respects the cached hash, runs without a panic; lookups then give what a map up
  to key equality gives, the length is the number of entries, and iteration lists every entry once,
  also when all hashes collide.\<close>

theorem hamt_run_correct:
  assumes "trie_key_contract K"
  shows "\<exists>m. fold_opt (hamt_step K) ops hamt_empty = Some m \<and>
    (\<forall>k. hamt_get K m k = Some (fold (trie_map_step K) ops Map.empty k)) \<and>
    (\<forall>k v. fold (trie_map_step K) ops Map.empty k = Some v \<longleftrightarrow> (\<exists>k'. trie_eq K k' k \<and> (k', v) \<in> set (hamt_entries m))) \<and>
    sorted_wrt (\<lambda>a b. \<not> trie_eq K (fst a) (fst b)) (hamt_entries m) \<and> hm_len m = length (hamt_entries m)"
proof -
  obtain m where m: "fold_opt (hamt_step K) ops hamt_empty = Some m" "hamt_ok K m" "hamt_map K m = fold (trie_map_step K) ops Map.empty"
    using hamt_run_map [OF assms hamt_empty_map(1), of ops] by (auto simp: hamt_empty_map(2))
  then show ?thesis using hamt_get_map [OF assms m(2)] hamt_entries_map [OF assms m(2)] by (auto simp flip: m(3))
qed

definition colliding_key :: "nat trie_key" where
  "colliding_key = \<lparr>trie_hash = \<lambda>_. 42, trie_eq = (=)\<rparr>"

lemma colliding_key_contract: "trie_key_contract colliding_key"
  by (auto simp: colliding_key_def trie_key_contract_def intro: equivpI reflpI sympI transpI)

theorem hamt_run_correct_witness:
  "\<exists>m. fold_opt (hamt_step colliding_key) [HamtInsert 1 (10 :: nat), HamtInsert 2 20, HamtInsert 1 11, HamtRemove 2] hamt_empty = Some m \<and>
    hamt_get colliding_key m 1 = Some (Some 11) \<and> hamt_get colliding_key m 2 = Some None \<and> hm_len m = length (hamt_entries m)"
  using hamt_run_correct [OF colliding_key_contract, of "[HamtInsert 1 (10 :: nat), HamtInsert 2 20, HamtInsert 1 11, HamtRemove 2]"]
  by (auto simp: colliding_key_def)

section \<open>Histories of commands\<close>

text \<open>A key type of numbers whose hashes all collide, for the witnesses.\<close>

definition nat_facts :: "(nat, nat) fact_ops" where
  "nat_facts = \<lparr>view_bits = \<lambda>_. 0, key_hash = \<lambda>_. 7, key_eq = (=), value_eq = (=)\<rparr>"

lemma nat_facts_contract: "fact_contract nat_facts"
  by (auto simp: fact_contract_def nat_facts_def symp_def transp_def intro: equivpI reflpI sympI transpI)

lemma nat_facts_ids: "fact_id nat_facts v k = fact_id nat_facts w l \<longleftrightarrow> v = w \<and> k = l"
  by (simp add: fact_ids [OF nat_facts_contract]) (simp add: nat_facts_def)

lemma nat_facts_value_eq [simp]: "value_eq nat_facts = (=)"
  by (simp add: nat_facts_def)

definition demo_commands :: "(nat, nat) fact_op list list" where
  "demo_commands = [[FactWrite 0 ''v'' 1 (Some 10) 1 ''f'' False, FactWrite 0 ''v'' 2 (Some 20) 1 ''f'' True],
     [FactWrite 0 ''v'' 2 None 1 ''f'' True, FactWrite 0 ''v'' 1 (Some 11) 2 ''g'' False]]"

lemma demo_room: "2 * length (concat demo_commands) \<le> usize_max"
  by (simp add: demo_commands_def usize_max_def)

lemma demo_spec: "fold (spec_command nat_facts) demo_commands Map.empty = [fact_id nat_facts 0 1 \<mapsto> (10, {1}, False), fact_id nat_facts 0 2 \<mapsto> (20, {1}, True)]"
  by (simp add: demo_commands_def spec_command_def write_spec_def nat_facts_ids)

lemma commands_from_start:
  assumes "fact_contract F" "2 * length (concat cmds) \<le> usize_max"
  shows "\<exists>rs own s root. run_commands F cmds store_start = Some (rs, s, root) \<and> system_ok F own (s, root) \<and> length rs = length cmds \<and>
    ps_next_ordinal s \<le> 2 * length (concat cmds) \<and> owned_at F s = fold (spec_command F) cmds Map.empty"
proof -
  note start = store_start_ok(1) [of F "\<lambda>_. undefined"] store_start_ok(2) [of F]
  have "system_ok F (\<lambda>_. undefined) (fst store_start, snd store_start)" "ps_next_ordinal (fst store_start) + 2 * length (concat cmds) \<le> usize_max"
    using start(1) assms(2) by (simp_all add: store_start_ok(3))
  from commands_ok [OF assms(1) this] show ?thesis unfolding prod.collapse start(2) store_start_ok(3) add_0 by blast
qed

text \<open>C3: any history of commands of writes and retractions, from the empty store, runs without a
  panic, and the store then holds exactly the facts, values, writers and shared flags that the
  ownership protocol gives on a map, a conflicting command leaving it as it was; every read by key
  answers from that map, also when all the hashes collide.\<close>

theorem commands_refine_ownership:
  assumes "fact_contract F" "2 * length (concat cmds) \<le> usize_max"
  shows "\<exists>rs s root. run_commands F cmds store_start = Some (rs, s, root) \<and> owned_at F s = fold (spec_command F) cmds Map.empty \<and>
    (\<forall>view key. plain_read F s view key = Some (map_option fst (fold (spec_command F) cmds Map.empty (fact_id F view key))))"
proof -
  obtain rs own s root where R: "run_commands F cmds store_start = Some (rs, s, root)" "system_ok F own (s, root)" "owned_at F s = fold (spec_command F) cmds Map.empty"
    using commands_from_start [OF assms] by blast
  have "fact_store_ok F s" using R(2) by (simp add: system_ok_def)
  then have "plain_read F s view key = Some (map_option fst (owned_at F s (fact_id F view key)))" for view key
    by (simp add: plain_read_def plain_slot_live [OF assms(1)] owned_at_def option.map_comp comp_def owned_value_def)
  then show ?thesis using R(1,3) by auto
qed

theorem commands_refine_ownership_witness:
  "\<exists>rs s root. run_commands nat_facts demo_commands store_start = Some (rs, s, root) \<and> plain_read nat_facts s 0 1 = Some (Some 10) \<and> plain_read nat_facts s 0 3 = Some None"
  using commands_refine_ownership [OF nat_facts_contract demo_room] by (auto simp: demo_spec nat_facts_ids)



section \<open>The committed snapshot\<close>

text \<open>C5: after any history of commands the committed snapshot answers every read as the ownership
  protocol does, up to the values' own equality, and each of its views lists exactly the keys that the
  protocol holds in it, each once, whatever ordinals the facts were given on the way.\<close>

theorem snapshot_agrees:
  assumes "fact_contract F" "2 * length (concat cmds) \<le> usize_max"
  shows "\<exists>rs s root. run_commands F cmds store_start = Some (rs, s, root) \<and>
    (\<forall>view key. \<exists>u. snapshot_read F root view key = Some u \<and> rel_option (same_value F) u (map_option fst (fold (spec_command F) cmds Map.empty (fact_id F view key)))) \<and>
    (\<forall>view v. root view = Some v \<longrightarrow> sv_len v = length (sv_entries v) \<and> sorted_wrt (\<lambda>a b. \<not> key_eq F (sn_key a) (sn_key b)) (sv_entries v) \<and>
      (\<forall>key. (\<exists>e \<in> set (sv_entries v). key_eq F (sn_key e) key) \<longleftrightarrow> fold (spec_command F) cmds Map.empty (fact_id F view key) \<noteq> None))"
proof -
  obtain rs own s root where R: "run_commands F cmds store_start = Some (rs, s, root)" "system_ok F own (s, root)" "owned_at F s = fold (spec_command F) cmds Map.empty"
    using commands_from_start [OF assms] by blast
  have root: "view_root_ok F own (ps_next_ordinal s) root" "\<And>view key. holds_fact F (committed F root view key) (live F s (fact_id F view key))" using R(2) by (auto simp: system_ok_def snapshot_in_step_def)
  have sv: "root view = Some v \<Longrightarrow> sv_ok F v" for view v using root(1) by (auto simp: view_root_ok_def)
  have "snapshot_read F root view key = Some (map_option sn_value (committed F root view key))" for view key
    using sv by (auto simp: snapshot_read_def committed_def sv_lookup_map [OF assms(1)] split: option.split)
  moreover have "rel_option (same_value F) (map_option sn_value (committed F root view key)) (map_option fst (owned_at F s (fact_id F view key)))" for view key
    using root(2) [of view key] by (auto simp: holds_fact_def owned_at_def owned_value_def option.rel_map option.map_comp comp_def)
  moreover have "sv_len v = length (sv_entries v) \<and> sorted_wrt (\<lambda>a b. \<not> key_eq F (sn_key a) (sn_key b)) (sv_entries v) \<and>
      (\<forall>key. (\<exists>e \<in> set (sv_entries v). key_eq F (sn_key e) key) \<longleftrightarrow> owned_at F s (fact_id F view key) \<noteq> None)" if v: "root view = Some v" for view v
  proof -
    have "sv_map F v key \<noteq> None \<longleftrightarrow> owned_at F s (fact_id F view key) \<noteq> None" for key
      using root(2) [of view key] v by (auto simp: holds_fact_def committed_def owned_at_def option_rel_Some1 option_rel_Some2)
    then show ?thesis using sv_entries_ok [OF assms(1) sv [OF v]] by auto
  qed
  ultimately show ?thesis using R(1) by (intro exI [of _ rs] exI [of _ s] exI [of _ root]) (simp add: R(3) [symmetric])
qed

theorem snapshot_agrees_witness:
  "\<exists>rs s root. run_commands nat_facts demo_commands store_start = Some (rs, s, root) \<and> snapshot_read nat_facts root 0 1 = Some (Some 10) \<and> snapshot_read nat_facts root 0 3 = Some None"
proof -
  from snapshot_agrees [OF nat_facts_contract demo_room] obtain rs s root where R: "run_commands nat_facts demo_commands store_start = Some (rs, s, root)"
    and u: "\<And>view key. \<exists>u. snapshot_read nat_facts root view key = Some u \<and> rel_option (same_value nat_facts) u (map_option fst (fold (spec_command nat_facts) demo_commands Map.empty (fact_id nat_facts view key)))" by blast
  then show ?thesis using u [of 0 1] u [of 0 3] by (auto simp: demo_spec nat_facts_ids same_value_def option_rel_Some2)
qed

section \<open>Rollback\<close>

lemma sorted_same_set: "sorted_wrt (\<lambda>a b. f a < f b) xs \<Longrightarrow> sorted_wrt (\<lambda>a b. f a < f b) ys \<Longrightarrow> set xs = set ys \<Longrightarrow> xs = ys"
  for f :: "'a \<Rightarrow> nat"
proof (induction xs arbitrary: ys)
  case (Cons x xs)
  then obtain y ys' where ys: "ys = y # ys'" by (cases ys) auto
  have y: "\<forall>z \<in> set ys'. f y < f z" "\<forall>z \<in> set xs. f x < f z" using Cons.prems(1,2) ys by auto
  have "x = y"
  proof (rule ccontr)
    assume "x \<noteq> y"
    then have "x \<in> set ys'" "y \<in> set xs" using Cons.prems(3) ys by auto
    then show False using y by (metis less_asym)
  qed
  moreover have "set xs = set ys'" using Cons.prems(3) ys calculation y by fastforce
  ultimately show ?case using Cons.IH [of ys'] Cons.prems(1,2) ys by simp
qed simp

lemma same_facts_same_reads:
  assumes F: "fact_contract F" and ok: "fact_store_ok F s" "fact_store_ok F t" and live: "live F t = live F s"
  shows "plain_slot F t v k = plain_slot F s v k" "map (slot_at t) (view_slots t v) = map (slot_at s) (view_slots s v)" "plain_inputs input t v = plain_inputs input s v"
proof -
  show "plain_slot F t v k = plain_slot F s v k" by (simp add: plain_slot_live [OF F] ok live)
  obtain xs ys where xs: "map (slot_at s) (view_slots s v) = map Some xs" "sorted_wrt (\<lambda>a b. fs_ordinal a < fs_ordinal b) xs" "set xs = {sl. \<exists>x. live F s x = Some sl \<and> slot_view sl = v}"
    and ys: "map (slot_at t) (view_slots t v) = map Some ys" "sorted_wrt (\<lambda>a b. fs_ordinal a < fs_ordinal b) ys" "set ys = {sl. \<exists>x. live F t x = Some sl \<and> slot_view sl = v}"
    using view_slots_live [OF ok(1), of v] view_slots_live [OF ok(2), of v] by blast
  have "xs = ys" using sorted_same_set [OF xs(2) ys(2)] xs(3) ys(3) live by simp
  then show "map (slot_at t) (view_slots t v) = map (slot_at s) (view_slots s v)" "plain_inputs input t v = plain_inputs input s v"
    using xs(1) ys(1) by (simp_all add: plain_inputs_def collect_inputs_map)
qed

text \<open>C9: a command that ends in a conflict, after any history, is rolled back: every slot, with its
  ordinal, its value, its writers and their names, reads as before the command, every view enumerates the
  same facts in the same order, and the snapshot is the old one; and a command fails exactly where the
  ownership protocol has a conflict.\<close>

theorem failed_command_restores:
  assumes F: "fact_contract F" and room: "2 * length (concat cmds) + 2 * length c \<le> usize_max"
  shows "\<exists>rs s root r s' root'. run_commands F cmds store_start = Some (rs, s, root) \<and> run_command F c (s, root) = Some (r, s', root') \<and>
    (r \<noteq> None \<longleftrightarrow> fold_opt (spec_op F) c (fold (spec_command F) cmds Map.empty) = None) \<and>
    (r \<noteq> None \<longrightarrow> root' = root \<and> (\<forall>view key. plain_slot F s' view key = plain_slot F s view key) \<and>
      (\<forall>view. map (slot_at s') (view_slots s' view) = map (slot_at s) (view_slots s view)))"
proof -
  have "2 * length (concat cmds) \<le> usize_max" using room by simp
  from commands_from_start [OF F this] obtain rs own s root where R: "run_commands F cmds store_start = Some (rs, s, root)" "system_ok F own (s, root)"
    "ps_next_ordinal s \<le> 2 * length (concat cmds)" "owned_at F s = fold (spec_command F) cmds Map.empty" by blast
  have "ps_next_ordinal s + 2 * length c \<le> usize_max" using R(3) room by simp
  from command_ok [OF F R(2) this] obtain r own' s' root' where C: "run_command F c (s, root) = Some (r, s', root')" "system_ok F own' (s', root')"
    "r = None \<longleftrightarrow> fold_opt (spec_op F) c (owned_at F s) \<noteq> None" "r \<noteq> None \<Longrightarrow> live F s' = live F s \<and> root' = root" by blast
  have ok: "fact_store_ok F s" "fact_store_ok F s'" using R(2) C(2) by (auto simp: system_ok_def)
  show ?thesis
  proof (intro exI conjI impI)
    show "run_commands F cmds store_start = Some (rs, s, root)" by (rule R(1))
    show "run_command F c (s, root) = Some (r, s', root')" by (rule C(1))
    show "r \<noteq> None \<longleftrightarrow> fold_opt (spec_op F) c (fold (spec_command F) cmds Map.empty) = None" using C(3) R(4) by auto
    assume r: "r \<noteq> None"
    note same = same_facts_same_reads [OF F ok, OF conjunct1 [OF C(4) [OF r]]]
    show "root' = root" using C(4) r by blast
    show "\<forall>view key. plain_slot F s' view key = plain_slot F s view key" "\<forall>view. map (slot_at s') (view_slots s' view) = map (slot_at s) (view_slots s view)"
      using same by blast+
  qed
qed

theorem failed_command_restores_witness:
  "\<exists>rs s root e s' root'. run_commands nat_facts demo_commands store_start = Some (rs, s, root) \<and>
    run_command nat_facts [FactWrite 0 ''v'' 3 (Some 30) 2 ''g'' False, FactWrite 0 ''v'' 1 (Some 11) 2 ''g'' False] (s, root) = Some (Some e, s', root') \<and>
    root' = root \<and> plain_slot nat_facts s' 0 3 = plain_slot nat_facts s 0 3"
proof -
  have "2 * length (concat demo_commands) + 2 * length [FactWrite 0 ''v'' (3 :: nat) (Some (30 :: nat)) 2 ''g'' False, FactWrite 0 ''v'' 1 (Some 11) 2 ''g'' False] \<le> usize_max"
    by (simp add: demo_commands_def usize_max_def)
  from failed_command_restores [OF nat_facts_contract this] show ?thesis by (auto simp: demo_spec nat_facts_ids write_spec_def)
qed

section \<open>Previous values\<close>

lemma first_value_ok:
  assumes F: "fact_contract F" and ok: "journal_ok F own L0 (s, j)"
  shows "first_value F j view key = Some (if fact_id F view key \<in> touched_ids F j then map_option (\<lambda>sl. pf_value (fs_fact sl)) (L0 (fact_id F view key)) else None)"
proof -
  have iok: "key_index_ok F j" using ok by (simp add: journal_ok_def)
  show ?thesis
    using F iok erased_new_simps(2) [of F view key]
  proof (cases rule: journal_position_ok)
    case untouched
    then show ?thesis by (simp add: first_value_def)
  next
    case (known p)
    have "entry_ok F own L0 s (fj_entries j ! p)" using ok known(2) by (simp add: journal_ok_def)
    then show ?thesis using known by (simp add: first_value_def entry_ok_def)
  qed
qed

lemma plain_read_owned: "fact_contract F \<Longrightarrow> fact_store_ok F s \<Longrightarrow> plain_read F s view key = Some (map_option fst (owned_at F s (fact_id F view key)))"
  by (simp add: plain_read_def plain_slot_live owned_at_def owned_value_def option.map_comp comp_def)

text \<open>A command that has run its operations and has neither committed nor been rolled back.\<close>

lemma running_command:
  assumes F: "fact_contract F" and room: "2 * length (concat cmds) + 2 * length ops \<le> usize_max"
    and spec: "fold_opt (spec_op F) ops (fold (spec_command F) cmds Map.empty) = Some A"
  shows "\<exists>rs s root own s' j. run_commands F cmds store_start = Some (rs, s, root) \<and> run_fact_ops F ops (s, journal_default) = Some (None, s', j) \<and>
    fact_store_ok F s' \<and> journal_ok F own (live F s) (s', j) \<and> owned_at F s = fold (spec_command F) cmds Map.empty \<and> owned_at F s' = A"
proof -
  have "2 * length (concat cmds) \<le> usize_max" using room by simp
  from commands_from_start [OF F this] obtain rs own s root where R: "run_commands F cmds store_start = Some (rs, s, root)" "system_ok F own (s, root)"
    "ps_next_ordinal s \<le> 2 * length (concat cmds)" "owned_at F s = fold (spec_command F) cmds Map.empty" by blast
  have o: "fact_store_ok F s" "owned_map F own (ps_next_ordinal s) (live F s)" using R(2) by (auto simp: system_ok_def)
  have "ps_next_ordinal s + 2 * length ops \<le> usize_max" using R(3) room by simp
  from fact_ops_ok [OF F journal_start [OF o] this] R(4) spec obtain own' s' j where "run_fact_ops F ops (s, journal_default) = Some (None, s', j)" "journal_ok F own' (live F s) (s', j)"
    "owned_at F s' = A" by auto
  then show ?thesis using R(1,4) by (auto simp: journal_ok_def)
qed

text \<open>C28: a read of a previous value inside a running command gives the value before the command for every
  fact that existed then. For a fact that did not exist it gives what a current read gives, so a fact
  written by the running command is visible as a previous value.\<close>

theorem previous_read_of_command:
  assumes F: "fact_contract F" and room: "2 * length (concat cmds) + 2 * length ops \<le> usize_max"
    and spec: "fold_opt (spec_op F) ops (fold (spec_command F) cmds Map.empty) = Some A"
  shows "\<exists>rs s root s' j. run_commands F cmds store_start = Some (rs, s, root) \<and> run_fact_ops F ops (s, journal_default) = Some (None, s', j) \<and>
    (\<forall>view key. previous_read F (s', j) view key =
      Some (map_option fst (case fold (spec_command F) cmds Map.empty (fact_id F view key) of Some a \<Rightarrow> Some a | None \<Rightarrow> A (fact_id F view key))))"
proof -
  from running_command [OF assms] obtain rs s root own s' j where R: "run_commands F cmds store_start = Some (rs, s, root)" "run_fact_ops F ops (s, journal_default) = Some (None, s', j)"
    "fact_store_ok F s'" "journal_ok F own (live F s) (s', j)" "owned_at F s = fold (spec_command F) cmds Map.empty" "owned_at F s' = A" by blast
  have L: "map_option (\<lambda>sl. pf_value (fs_fact sl)) (live F s x) = map_option fst (owned_at F s x)" for x by (simp add: owned_at_def owned_value_def option.map_comp comp_def)
  have "previous_read F (s', j) view key = Some (map_option fst (case owned_at F s (fact_id F view key) of Some a \<Rightarrow> Some a | None \<Rightarrow> A (fact_id F view key)))" for view key
  proof (cases "fact_id F view key \<in> touched_ids F j")
    case True
    then show ?thesis by (simp add: previous_read_def first_value_ok [OF F R(4)] plain_read_owned [OF F R(3)] R(6) L split: option.split)
  next
    case False
    then have "live F s' (fact_id F view key) = live F s (fact_id F view key)" using R(4) by (simp add: journal_ok_def)
    then have "A (fact_id F view key) = owned_at F s (fact_id F view key)" by (simp add: owned_at_def flip: R(6))
    then show ?thesis using False by (simp add: previous_read_def first_value_ok [OF F R(4)] plain_read_owned [OF F R(3)] R(6) split: option.split)
  qed
  then show ?thesis using R(1,2,5) by auto
qed

definition demo_ops :: "(nat, nat) fact_op list" where
  "demo_ops = [FactWrite 0 ''v'' 1 (Some 11) 1 ''f'' False, FactWrite 0 ''v'' 3 (Some 30) 1 ''f'' False, FactRetract 0 2 1]"

lemma demo_ops_room: "2 * length (concat demo_commands) + 2 * length demo_ops \<le> usize_max"
  by (simp add: demo_commands_def demo_ops_def usize_max_def)

lemma demo_ops_spec: "fold_opt (spec_op nat_facts) demo_ops (fold (spec_command nat_facts) demo_commands Map.empty) =
    Some [fact_id nat_facts 0 1 \<mapsto> (11, {1}, False), fact_id nat_facts 0 3 \<mapsto> (30, {1}, False)]"
  by (auto simp: demo_spec demo_ops_def write_spec_def retract_spec_def nat_facts_ids fun_eq_iff)

theorem previous_read_of_command_witness:
  "\<exists>rs s root s' j. run_commands nat_facts demo_commands store_start = Some (rs, s, root) \<and> run_fact_ops nat_facts demo_ops (s, journal_default) = Some (None, s', j) \<and>
    previous_read nat_facts (s', j) 0 1 = Some (Some 10) \<and> previous_read nat_facts (s', j) 0 2 = Some (Some 20) \<and> previous_read nat_facts (s', j) 0 3 = Some (Some 30)"
  using previous_read_of_command [OF nat_facts_contract demo_ops_room demo_ops_spec] by (auto simp: demo_spec nat_facts_ids)

text \<open>The inputs of a view, as a set.\<close>

definition input_lawful :: "('k, 'v) fact_ops \<Rightarrow> ('k \<Rightarrow> 'i option) \<Rightarrow> bool" where
  "input_lawful F input \<longleftrightarrow> (\<forall>a b i. input a = Some i \<longrightarrow> (input b = Some i \<longleftrightarrow> key_eq F a b))"

lemma plain_inputs_set:
  assumes ok: "fact_store_ok F s"
  shows "\<exists>ks. plain_inputs input s view = Some ks \<and> set ks = {k. \<exists>x sl. live F s x = Some sl \<and> slot_view sl = view \<and> input (pf_key (fs_fact sl)) = Some k}"
proof -
  obtain sls where sls: "map (slot_at s) (view_slots s view) = map Some sls" "set sls = {sl. \<exists>x. live F s x = Some sl \<and> slot_view sl = view}"
    using view_slots_live [OF ok, of view] by blast
  let ?ks = "concat (map (\<lambda>sl. case input (pf_key (fs_fact sl)) of None \<Rightarrow> [] | Some k \<Rightarrow> [k]) sls)"
  have one: "k \<in> set (case i of None \<Rightarrow> [] | Some k' \<Rightarrow> [k']) \<longleftrightarrow> i = Some k" for i and k :: 'c by (cases i) auto
  have "k \<in> set ?ks \<longleftrightarrow> (\<exists>sl \<in> set sls. input (pf_key (fs_fact sl)) = Some k)" for k by (simp add: one) (rule bex_cong [OF refl], rule eq_commute)
  then have "set ?ks = {k. \<exists>sl \<in> set sls. input (pf_key (fs_fact sl)) = Some k}" by blast
  also have "\<dots> = {k. \<exists>x sl. live F s x = Some sl \<and> slot_view sl = view \<and> input (pf_key (fs_fact sl)) = Some k}" unfolding sls(2) by (rule Collect_cong) (simp only: bex_simps mem_Collect_eq, metis)
  finally show ?thesis by (simp add: plain_inputs_def collect_inputs_map [OF sls(1)])
qed

lemma adjust_inputs_live:
  assumes F: "fact_contract F" and law: "input_lawful F input" and ok: "entry_ok F own L0 s e" and sok: "fact_store_ok F s"
    and keys: "set keys = {k. \<exists>x sl. live F s x = Some sl \<and> slot_view sl = view \<and> input (pf_key (fs_fact sl)) = Some k}"
  shows "set (adjust_inputs input view e keys) = set keys"
proof (cases "ek_view (je_key e) = view")
  case True
  show ?thesis
  proof (cases "input (ek_key (je_key e))")
    case (Some k)
    have id: "entry_id F e = fact_id F view (ek_key (je_key e))" by (simp add: ek_id_def True)
    have same: "slot_id F sl = entry_id F e \<longleftrightarrow> slot_view sl = view \<and> input (pf_key (fs_fact sl)) = Some k" for sl
      using law Some fact_contract_laws(2) [OF F] unfolding id fact_id_eq [OF F] input_lawful_def by blast
    show ?thesis
    proof (cases "je_staged e")
      case None
      then have "live F s (entry_id F e) = None" using ok by (simp add: entry_ok_def)
      have "k \<notin> set keys"
      proof
        assume "k \<in> set keys"
        then obtain x sl where sl: "live F s x = Some sl" "slot_view sl = view" "input (pf_key (fs_fact sl)) = Some k" unfolding keys by (elim CollectE exE conjE)
        then have "x = entry_id F e" using same live_slot [OF sok sl(1)] by metis
        then show False using sl(1) \<open>live F s (entry_id F e) = None\<close> by simp
      qed
      then show ?thesis using None Some True by (auto simp: adjust_inputs_def split: option.split)
    next
      case (Some st)
      then obtain sl where sl: "live F s (entry_id F e) = Some sl" using ok by (auto simp: entry_ok_def)
      then have "slot_view sl = view \<and> input (pf_key (fs_fact sl)) = Some k" using same live_slot [OF sok] by blast
      then have "k \<in> set keys" unfolding keys using sl by blast
      then show ?thesis using Some \<open>input (ek_key (je_key e)) = Some k\<close> True by (auto simp: adjust_inputs_def split: option.split)
    qed
  qed (simp add: adjust_inputs_def)
qed (simp add: adjust_inputs_def)

text \<open>C29: the enumeration of a view's previous inputs inside a running command gives, as a set, the
  current inputs and not those of before the command.\<close>

theorem previous_inputs_of_command:
  assumes F: "fact_contract F" and room: "2 * length (concat cmds) + 2 * length ops \<le> usize_max"
    and spec: "fold_opt (spec_op F) ops (fold (spec_command F) cmds Map.empty) = Some A" and law: "input_lawful F input"
  shows "\<exists>rs s root s' j. run_commands F cmds store_start = Some (rs, s, root) \<and> run_fact_ops F ops (s, journal_default) = Some (None, s', j) \<and>
    (\<forall>view. \<exists>ks. previous_inputs input render (s', j) view = Some ks \<and>
      (\<forall>key k. input key = Some k \<longrightarrow> (k \<in> set ks \<longleftrightarrow> A (fact_id F view key) \<noteq> None)))"
proof -
  from running_command [OF assms(1-3)] obtain rs s root own s' j where R: "run_commands F cmds store_start = Some (rs, s, root)" "run_fact_ops F ops (s, journal_default) = Some (None, s', j)"
    "fact_store_ok F s'" "journal_ok F own (live F s) (s', j)" "owned_at F s' = A" by blast
  have entries: "\<forall>e \<in> set (fj_entries j). entry_ok F own (live F s) s' e" using R(4) by (simp add: journal_ok_def)
  have "\<exists>ks. previous_inputs input render (s', j) view = Some ks \<and> (\<forall>key k. input key = Some k \<longrightarrow> (k \<in> set ks \<longleftrightarrow> A (fact_id F view key) \<noteq> None))" for view
  proof -
    obtain ks where ks: "plain_inputs input s' view = Some ks" "set ks = {k. \<exists>x sl. live F s' x = Some sl \<and> slot_view sl = view \<and> input (pf_key (fs_fact sl)) = Some k}"
      using plain_inputs_set [OF R(3), of input view] by (elim exE conjE)
    have "set (fold (adjust_inputs input view) es keys) = set keys" if "set es \<subseteq> set (fj_entries j)" "set keys = set ks" for es keys
      using that
    proof (induction es arbitrary: keys)
      case (Cons e es)
      have "set (adjust_inputs input view e keys) = set keys" by (rule adjust_inputs_live [OF F law _ R(3)]) (use Cons.prems entries ks(2) in auto)
      then show ?case using Cons.IH [of "adjust_inputs input view e keys"] Cons.prems by simp
    qed simp
    then have fold: "set (fold (adjust_inputs input view) (fj_entries j) ks) = set ks" by simp
    let ?ks = "remdups_adj (sort_key render (fold (adjust_inputs input view) (fj_entries j) ks))"
    have "k \<in> set ks \<longleftrightarrow> A (fact_id F view key) \<noteq> None" if k: "input key = Some k" for key k
    proof -
      have same: "slot_id F sl = fact_id F view key \<longleftrightarrow> slot_view sl = view \<and> input (pf_key (fs_fact sl)) = Some k" for sl
        using law k fact_contract_laws(2) [OF F] unfolding fact_id_eq [OF F] input_lawful_def by blast
      have "k \<in> set ks \<longleftrightarrow> (\<exists>x sl. live F s' x = Some sl \<and> slot_id F sl = fact_id F view key)" unfolding ks(2) same by simp
      also have "\<dots> \<longleftrightarrow> live F s' (fact_id F view key) \<noteq> None" using live_slot [OF R(3)] by (metis not_None_eq)
      finally show ?thesis by (simp add: owned_at_def flip: R(5))
    qed
    then show ?thesis using ks(1) fold by (intro exI [of _ ?ks]) (simp add: previous_inputs_def)
  qed
  then show ?thesis using R(1,2) by blast
qed

theorem previous_inputs_of_command_witness:
  "\<exists>rs s root s' j ks. run_commands nat_facts demo_commands store_start = Some (rs, s, root) \<and> run_fact_ops nat_facts demo_ops (s, journal_default) = Some (None, s', j) \<and>
    previous_inputs Some id (s', j) 0 = Some ks \<and> 3 \<in> set ks \<and> 2 \<notin> set ks"
proof -
  have "input_lawful nat_facts Some" by (auto simp: input_lawful_def nat_facts_def)
  from previous_inputs_of_command [OF nat_facts_contract demo_ops_room demo_ops_spec this, of id] obtain rs s root s' j where
    R: "run_commands nat_facts demo_commands store_start = Some (rs, s, root)" "run_fact_ops nat_facts demo_ops (s, journal_default) = Some (None, s', j)"
    and P: "\<forall>view. \<exists>ks. previous_inputs Some id (s', j) view = Some ks \<and> (\<forall>key k. Some key = Some k \<longrightarrow>
      (k \<in> set ks \<longleftrightarrow> [fact_id nat_facts 0 1 \<mapsto> (11 :: nat, {1 :: u64}, False), fact_id nat_facts 0 3 \<mapsto> (30, {1}, False)] (fact_id nat_facts view key) \<noteq> None))" by blast
  obtain ks where ks: "previous_inputs Some id (s', j) 0 = Some ks" "\<forall>key k. Some key = Some k \<longrightarrow>
      (k \<in> set ks \<longleftrightarrow> [fact_id nat_facts 0 1 \<mapsto> (11 :: nat, {1 :: u64}, False), fact_id nat_facts 0 3 \<mapsto> (30, {1}, False)] (fact_id nat_facts 0 key) \<noteq> None)"
    using P by blast
  have "3 \<in> set ks" "2 \<notin> set ks" using ks(2) by (simp_all add: nat_facts_ids del: not_None_eq)
  then show ?thesis using R ks(1) by blast
qed

end
