(* ===== verification/Dependency_Index.thy ===== *)
theory Dependency_Index
  imports Fact_Store
begin

text \<open>
  The reverse-dependency index and the dirty queue of \<^verbatim>\<open>src/reactive/store.rs\<close>. The six maps of
  \<^verbatim>\<open>DependencyIndex\<close> are grouped as those for current and those for previous reads; \<^verbatim>\<open>mark_current\<close> and
  \<^verbatim>\<open>mark_previous\<close> are the same marking on the two groups, with the visited invocations as a list.
  The reference for both is the scan of all reads with \<^verbatim>\<open>ReadDep::matches\<close> of \<^verbatim>\<open>plain.rs\<close>.
\<close>

section \<open>The index\<close>

type_synonym 'k dep_read = "nat \<times> 'k option \<times> bool \<times> bool"

record 'k dep_row =
  dr_invocation :: nat
  dr_key_hash :: "(u64 \<times> nat) option"
  dr_exact_key :: "'k option"

record 'k dep_maps =
  dm_exact :: "(u64 \<times> nat) \<rightharpoonup> 'k dep_row list"
  dm_wildcard :: "nat \<rightharpoonup> nat list"
  dm_keyset :: "nat \<rightharpoonup> nat list"

record 'k dependency_index =
  di_current :: "'k dep_maps"
  di_previous :: "'k dep_maps"

definition dep_maps_default :: "'k dep_maps" where
  "dep_maps_default = \<lparr>dm_exact = Map.empty, dm_wildcard = Map.empty, dm_keyset = Map.empty\<rparr>"

definition dependency_default :: "'k dependency_index" where
  "dependency_default = \<lparr>di_current = dep_maps_default, di_previous = dep_maps_default\<rparr>"

definition dep_hash :: "('k, 'v) fact_ops \<Rightarrow> nat \<Rightarrow> 'k \<Rightarrow> u64 \<times> nat" where
  "dep_hash F view key = (key_hash F key, view)"

definition update_rows :: "('r list \<Rightarrow> 'r list) \<Rightarrow> 'a \<Rightarrow> ('a \<rightharpoonup> 'r list) \<Rightarrow> ('a \<rightharpoonup> 'r list)" where
  "update_rows f k m = (case m k of None \<Rightarrow> m | Some rows \<Rightarrow> m(k \<mapsto> f rows))"

definition rows_at :: "('a \<rightharpoonup> 'r list) \<Rightarrow> 'a \<Rightarrow> 'r list" where
  "rows_at m k = (case m k of None \<Rightarrow> [] | Some rows \<Rightarrow> rows)"

definition dep_insert_row :: "'k dep_row \<Rightarrow> 'k dep_row list \<Rightarrow> 'k dep_row list" where
  "dep_insert_row row rows = (if \<exists>other \<in> set rows. dr_invocation other = dr_invocation row \<and> dr_key_hash other = dr_key_hash row then rows else rows @ [row])"

definition push_new :: "nat \<Rightarrow> nat list \<Rightarrow> nat list" where
  "push_new invocation rows = (if invocation \<in> set rows then rows else rows @ [invocation])"

definition remove_read :: "('k, 'v) fact_ops \<Rightarrow> nat \<Rightarrow> nat \<Rightarrow> 'k option \<Rightarrow> bool \<Rightarrow> 'k dep_maps \<Rightarrow> 'k dep_maps" where
  "remove_read F invocation view key keyset m = (case key of
     Some key \<Rightarrow> m\<lparr>dm_exact := update_rows (filter (\<lambda>row. dr_invocation row \<noteq> invocation)) (dep_hash F view key) (dm_exact m)\<rparr>
   | None \<Rightarrow> if keyset then m\<lparr>dm_keyset := update_rows (filter (\<lambda>row. row \<noteq> invocation)) view (dm_keyset m)\<rparr>
       else m\<lparr>dm_wildcard := update_rows (filter (\<lambda>row. row \<noteq> invocation)) view (dm_wildcard m)\<rparr>)"

definition insert_read :: "('k, 'v) fact_ops \<Rightarrow> nat \<Rightarrow> nat \<Rightarrow> 'k option \<Rightarrow> bool \<Rightarrow> 'k dep_maps \<Rightarrow> 'k dep_maps" where
  "insert_read F invocation view key keyset m = (case key of
     Some key \<Rightarrow> (let h = dep_hash F view key in
       m\<lparr>dm_exact := (dm_exact m)(h \<mapsto> dep_insert_row \<lparr>dr_invocation = invocation, dr_key_hash = Some h, dr_exact_key = Some key\<rparr> (rows_at (dm_exact m) h))\<rparr>)
   | None \<Rightarrow> if keyset then m\<lparr>dm_keyset := (dm_keyset m)(view \<mapsto> push_new invocation (rows_at (dm_keyset m) view))\<rparr>
       else m\<lparr>dm_wildcard := (dm_wildcard m)(view \<mapsto> push_new invocation (rows_at (dm_wildcard m) view))\<rparr>)"

definition on_half :: "bool \<Rightarrow> ('k dep_maps \<Rightarrow> 'k dep_maps) \<Rightarrow> 'k dependency_index \<Rightarrow> 'k dependency_index" where
  "on_half temporal f idx = (if temporal then idx\<lparr>di_previous := f (di_previous idx)\<rparr> else idx\<lparr>di_current := f (di_current idx)\<rparr>)"

definition half :: "bool \<Rightarrow> 'k dependency_index \<Rightarrow> 'k dep_maps" where
  "half temporal idx = (if temporal then di_previous idx else di_current idx)"

definition dep_replace :: "('k, 'v) fact_ops \<Rightarrow> 'k dep_read list \<Rightarrow> 'k dep_read list \<Rightarrow> nat \<Rightarrow> 'k dependency_index \<Rightarrow> 'k dependency_index" where
  "dep_replace F view_reads old invocation idx =
     fold (\<lambda>(view, key, temporal, keyset). on_half temporal (insert_read F invocation view key keyset)) view_reads
       (fold (\<lambda>(view, key, temporal, keyset). on_half temporal (remove_read F invocation view key keyset)) old idx)"

definition dep_remove_all :: "('k, 'v) fact_ops \<Rightarrow> 'k dep_read list \<Rightarrow> nat \<Rightarrow> 'k dependency_index \<Rightarrow> 'k dependency_index" where
  "dep_remove_all F reads invocation idx = dep_replace F [] reads invocation idx"

text \<open>Marking: an invocation is visited once; the result is the visits in order.\<close>

type_synonym 'k dep_change = "nat \<times> 'k option \<times> bool"

definition mark_row :: "('k, 'v) fact_ops \<Rightarrow> 'k \<Rightarrow> 'k dep_row \<Rightarrow> nat list \<Rightarrow> nat list" where
  "mark_row F key row visited = (if (case dr_exact_key row of None \<Rightarrow> False | Some stored \<Rightarrow> key_eq F stored key) then push_new (dr_invocation row) visited else visited)"

definition mark_change :: "('k, 'v) fact_ops \<Rightarrow> 'k dep_maps \<Rightarrow> 'k dep_change \<Rightarrow> nat list \<Rightarrow> nat list" where
  "mark_change F m = (\<lambda>(view, key, presence) visited.
     let visited = (case key of None \<Rightarrow> visited | Some key \<Rightarrow> fold (mark_row F key) (rows_at (dm_exact m) (dep_hash F view key)) visited);
         visited = (if presence then fold push_new (rows_at (dm_keyset m) view) visited else visited)
     in fold push_new (rows_at (dm_wildcard m) view) visited)"

definition mark_changes :: "('k, 'v) fact_ops \<Rightarrow> 'k dep_maps \<Rightarrow> 'k dep_change list \<Rightarrow> nat list" where
  "mark_changes F m changes = fold (mark_change F m) changes []"

definition mark_current :: "('k, 'v) fact_ops \<Rightarrow> 'k dependency_index \<Rightarrow> 'k dep_change list \<Rightarrow> nat list" where
  "mark_current F idx changes = mark_changes F (di_current idx) changes"

definition mark_previous :: "('k, 'v) fact_ops \<Rightarrow> 'k dependency_index \<Rightarrow> 'k dep_change list \<Rightarrow> nat list" where
  "mark_previous F idx changes = mark_changes F (di_previous idx) changes"

definition contains_row :: "('k, 'v) fact_ops \<Rightarrow> 'k dependency_index \<Rightarrow> nat \<Rightarrow> 'k option \<Rightarrow> bool \<Rightarrow> bool \<Rightarrow> nat \<Rightarrow> bool" where
  "contains_row F idx view key temporal keyset invocation = (case key of
     Some key \<Rightarrow> (\<exists>row \<in> set (rows_at (dm_exact (half temporal idx)) (dep_hash F view key)). dr_invocation row = invocation)
   | None \<Rightarrow> if keyset then invocation \<in> set (rows_at (dm_keyset (half temporal idx)) view) else invocation \<in> set (rows_at (dm_wildcard (half temporal idx)) view))"

text \<open>\<^verbatim>\<open>ReadDep::matches\<close>, on a read and a change with its key.\<close>

definition read_matches :: "('k, 'v) fact_ops \<Rightarrow> 'k dep_read \<Rightarrow> nat \<Rightarrow> 'k \<Rightarrow> bool \<Rightarrow> bool \<Rightarrow> bool" where
  "read_matches F = (\<lambda>(view, key, temporal, keyset) change_view change_key presence change_temporal.
     if temporal \<noteq> change_temporal \<or> view \<noteq> change_view then False
     else if keyset \<and> \<not> presence then False
     else (case key of None \<Rightarrow> True | Some key \<Rightarrow> key_eq F key change_key))"

section \<open>Rows of the index\<close>

lemma rows_at_upd [simp]: "rows_at (m(k \<mapsto> rows)) l = (if l = k then rows else rows_at m l)"
  by (simp add: rows_at_def)

lemma rows_at_update [simp]: "f [] = [] \<Longrightarrow> rows_at (update_rows f k m) l = (if l = k then f (rows_at m l) else rows_at m l)"
  by (auto simp: rows_at_def update_rows_def split: option.split)

lemma push_new_set [simp]: "set (push_new i rows) = insert i (set rows)" "distinct (push_new i rows) \<longleftrightarrow> distinct rows"
  by (auto simp: push_new_def)

lemma half_on_half [simp]: "half t (on_half u f idx) = (if t = u then f (half t idx) else half t idx)"
  by (auto simp: half_def on_half_def)

text \<open>What the index must hold for the reads of each invocation. An exact row stands for the reads of its
  invocation with its hash, and carries the key of one of them.\<close>

definition exact_ok :: "('k, 'v) fact_ops \<Rightarrow> (nat \<Rightarrow> 'k dep_read set) \<Rightarrow> 'k dependency_index \<Rightarrow> bool" where
  "exact_ok F R idx \<longleftrightarrow> (\<forall>t h view.
     (\<forall>row \<in> set (rows_at (dm_exact (half t idx)) (h, view)). dr_key_hash row = Some (h, view) \<and>
        (\<exists>key ks. dr_exact_key row = Some key \<and> key_hash F key = h \<and> (view, Some key, t, ks) \<in> R (dr_invocation row))) \<and>
     (\<forall>i key ks. (view, Some key, t, ks) \<in> R i \<longrightarrow> key_hash F key = h \<longrightarrow> (\<exists>row \<in> set (rows_at (dm_exact (half t idx)) (h, view)). dr_invocation row = i)))"

definition plain_rows_ok :: "(nat \<Rightarrow> 'k dep_read set) \<Rightarrow> 'k dependency_index \<Rightarrow> bool" where
  "plain_rows_ok R idx \<longleftrightarrow> (\<forall>t view i. (i \<in> set (rows_at (dm_keyset (half t idx)) view) \<longleftrightarrow> (view, None, t, True) \<in> R i) \<and>
     (i \<in> set (rows_at (dm_wildcard (half t idx)) view) \<longleftrightarrow> (view, None, t, False) \<in> R i))"

lemma insert_read_ok:
  assumes "exact_ok F R idx" "plain_rows_ok R idx"
  shows "exact_ok F (R(i := insert (view, key, t, ks) (R i))) (on_half t (insert_read F i view key ks) idx)"
    "plain_rows_ok (R(i := insert (view, key, t, ks) (R i))) (on_half t (insert_read F i view key ks) idx)"
proof -
  let ?R = "R(i := insert (view, key, t, ks) (R i))" let ?idx = "on_half t (insert_read F i view key ks) idx"
  show "plain_rows_ok ?R ?idx" using assms(2) by (auto simp: plain_rows_ok_def insert_read_def Let_def split: option.split)
  show "exact_ok F ?R ?idx"
  proof (cases key)
    case None
    then show ?thesis using assms(1) by (auto simp: exact_ok_def insert_read_def)
  next
    case (Some k)
    let ?h = "key_hash F k" let ?rows = "rows_at (dm_exact (half t idx)) (?h, view)"
    let ?row = "\<lparr>dr_invocation = i, dr_key_hash = Some (?h, view), dr_exact_key = Some k\<rparr>"
    have rows: "rows_at (dm_exact (half t' ?idx)) (h, v) = (if t' = t \<and> (h, v) = (?h, view) then dep_insert_row ?row ?rows else rows_at (dm_exact (half t' idx)) (h, v))" for t' h v
      by (simp add: Some insert_read_def dep_hash_def Let_def)
    have sub: "row \<in> set (dep_insert_row ?row ?rows) \<Longrightarrow> row = ?row \<or> row \<in> set ?rows" "set ?rows \<subseteq> set (dep_insert_row ?row ?rows)" for row by (auto simp: dep_insert_row_def split: if_splits)
    have mine: "\<exists>row \<in> set (dep_insert_row ?row ?rows). dr_invocation row = i" by (auto simp: dep_insert_row_def)
    have "R i' \<subseteq> ?R i'" for i' by auto
    then show ?thesis
      unfolding exact_ok_def
    proof (intro allI conjI ballI impI)
      fix t' h v row assume "row \<in> set (rows_at (dm_exact (half t' ?idx)) (h, v))"
      from this [unfolded rows] have "row = ?row \<and> t' = t \<and> h = ?h \<and> v = view \<or> row \<in> set (rows_at (dm_exact (half t' idx)) (h, v))"
        using sub(1) [of row] by (cases "t' = t \<and> (h, v) = (?h, view)") auto
      then have "dr_key_hash row = Some (h, v) \<and> (\<exists>key ks. dr_exact_key row = Some key \<and> key_hash F key = h \<and> (v, Some key, t', ks) \<in> ?R (dr_invocation row))"
      proof
        assume "row = ?row \<and> t' = t \<and> h = ?h \<and> v = view"
        then show ?thesis using Some by auto
      next
        assume "row \<in> set (rows_at (dm_exact (half t' idx)) (h, v))"
        then show ?thesis using assms(1) \<open>\<And>i'. R i' \<subseteq> ?R i'\<close> unfolding exact_ok_def by blast
      qed
      then show "dr_key_hash row = Some (h, v)" "\<exists>key ks. dr_exact_key row = Some key \<and> key_hash F key = h \<and> (v, Some key, t', ks) \<in> ?R (dr_invocation row)" by auto
    next
      fix t' h v i' k' ks' assume r: "(v, Some k', t', ks') \<in> ?R i'" "key_hash F k' = h"
      show "\<exists>row \<in> set (rows_at (dm_exact (half t' ?idx)) (h, v)). dr_invocation row = i'"
      proof (cases "(v, Some k', t', ks') \<in> R i'")
        case True
        then have "\<exists>row \<in> set (rows_at (dm_exact (half t' idx)) (h, v)). dr_invocation row = i'" using assms(1) r(2) unfolding exact_ok_def by blast
        then show ?thesis unfolding rows using sub(2) by auto
      next
        case False
        then have "i' = i" "v = view" "k' = k" "t' = t" using r(1) Some by (auto split: if_splits)
        then show ?thesis unfolding rows using mine r(2) by auto
      qed
    qed
  qed
qed

lemma insert_reads_ok:
  "exact_ok F R idx \<Longrightarrow> plain_rows_ok R idx \<Longrightarrow>
    exact_ok F (R(i := set reads \<union> R i)) (fold (\<lambda>(view, key, temporal, keyset). on_half temporal (insert_read F i view key keyset)) reads idx) \<and>
    plain_rows_ok (R(i := set reads \<union> R i)) (fold (\<lambda>(view, key, temporal, keyset). on_half temporal (insert_read F i view key keyset)) reads idx)"
proof (induction reads arbitrary: R idx)
  case (Cons r reads)
  obtain view key t ks where r: "r = (view, key, t, ks)" by (cases r)
  show ?case using Cons.IH [OF insert_read_ok [OF Cons.prems, of i view key t ks]] by (simp add: r fun_upd_same fun_upd_upd del: fun_upd_apply)
qed simp

text \<open>Removing reads filters the invocation out of the rows at their coordinates.\<close>

lemma remove_reads_rows:
  fixes F :: "('k, 'v) fact_ops"
  defines "rem i \<equiv> \<lambda>(view, key, temporal, keyset). on_half temporal (remove_read F i view key keyset)"
  shows "rows_at (dm_exact (half t (fold (rem i) old idx))) (h, view) =
      (if \<exists>key ks. (view, Some key, t, ks) \<in> set old \<and> key_hash F key = h then filter (\<lambda>row. dr_invocation row \<noteq> i) else id) (rows_at (dm_exact (half t idx)) (h, view))"
    "rows_at (dm_keyset (half t (fold (rem i) old idx))) view = (if (view, None, t, True) \<in> set old then filter (\<lambda>row. row \<noteq> i) else id) (rows_at (dm_keyset (half t idx)) view)"
    "rows_at (dm_wildcard (half t (fold (rem i) old idx))) view = (if (view, None, t, False) \<in> set old then filter (\<lambda>row. row \<noteq> i) else id) (rows_at (dm_wildcard (half t idx)) view)"
proof -
  have one: "rows_at (dm_exact (half t (rem i (v, k, u, ks) idx))) (h, view) =
      (if v = view \<and> u = t \<and> (\<exists>key. k = Some key \<and> key_hash F key = h) then filter (\<lambda>row. dr_invocation row \<noteq> i) else id) (rows_at (dm_exact (half t idx)) (h, view))"
    "rows_at (dm_keyset (half t (rem i (v, k, u, ks) idx))) view = (if v = view \<and> u = t \<and> k = None \<and> ks then filter (\<lambda>row. row \<noteq> i) else id) (rows_at (dm_keyset (half t idx)) view)"
    "rows_at (dm_wildcard (half t (rem i (v, k, u, ks) idx))) view = (if v = view \<and> u = t \<and> k = None \<and> \<not> ks then filter (\<lambda>row. row \<noteq> i) else id) (rows_at (dm_wildcard (half t idx)) view)"
    for v k u ks idx by (auto simp: rem_def remove_read_def dep_hash_def split: option.split)
  show "rows_at (dm_exact (half t (fold (rem i) old idx))) (h, view) =
      (if \<exists>key ks. (view, Some key, t, ks) \<in> set old \<and> key_hash F key = h then filter (\<lambda>row. dr_invocation row \<noteq> i) else id) (rows_at (dm_exact (half t idx)) (h, view))"
  proof (induction old arbitrary: idx)
    case (Cons r old)
    obtain v k u ks where r: "r = (v, k, u, ks)" by (cases r)
    show ?case unfolding fold_simps Cons.IH o_apply r one by auto
  qed simp
  show "rows_at (dm_keyset (half t (fold (rem i) old idx))) view = (if (view, None, t, True) \<in> set old then filter (\<lambda>row. row \<noteq> i) else id) (rows_at (dm_keyset (half t idx)) view)"
  proof (induction old arbitrary: idx)
    case (Cons r old)
    obtain v k u ks where r: "r = (v, k, u, ks)" by (cases r)
    show ?case unfolding fold_simps Cons.IH o_apply r one by auto
  qed simp
  show "rows_at (dm_wildcard (half t (fold (rem i) old idx))) view = (if (view, None, t, False) \<in> set old then filter (\<lambda>row. row \<noteq> i) else id) (rows_at (dm_wildcard (half t idx)) view)"
  proof (induction old arbitrary: idx)
    case (Cons r old)
    obtain v k u ks where r: "r = (v, k, u, ks)" by (cases r)
    show ?case unfolding fold_simps Cons.IH o_apply r one by auto
  qed simp
qed

lemma remove_reads_ok:
  assumes ok: "exact_ok F R idx" "plain_rows_ok R idx" and old: "set old = R i"
  shows "exact_ok F (R(i := {})) (fold (\<lambda>(view, key, temporal, keyset). on_half temporal (remove_read F i view key keyset)) old idx)"
    "plain_rows_ok (R(i := {})) (fold (\<lambda>(view, key, temporal, keyset). on_half temporal (remove_read F i view key keyset)) old idx)"
proof -
  let ?idx = "fold (\<lambda>(view, key, temporal, keyset). on_half temporal (remove_read F i view key keyset)) old idx"
  show "plain_rows_ok (R(i := {})) ?idx" using ok(2) by (auto simp: plain_rows_ok_def remove_reads_rows old)
  have rows: "row \<in> set (rows_at (dm_exact (half t ?idx)) (h, view)) \<longleftrightarrow> row \<in> set (rows_at (dm_exact (half t idx)) (h, view)) \<and> dr_invocation row \<noteq> i" for row t h view
  proof -
    have "\<exists>key ks. (view, Some key, t, ks) \<in> R i \<and> key_hash F key = h" if "row \<in> set (rows_at (dm_exact (half t idx)) (h, view))" "dr_invocation row = i"
      using ok(1) that unfolding exact_ok_def by metis
    then show ?thesis by (auto simp: remove_reads_rows(1) old)
  qed
  show "exact_ok F (R(i := {})) ?idx"
    unfolding exact_ok_def
  proof (intro allI conjI ballI impI)
    fix t h view row assume "row \<in> set (rows_at (dm_exact (half t ?idx)) (h, view))"
    then have r: "row \<in> set (rows_at (dm_exact (half t idx)) (h, view))" "dr_invocation row \<noteq> i" by (simp_all add: rows)
    then show "dr_key_hash row = Some (h, view)" "\<exists>key ks. dr_exact_key row = Some key \<and> key_hash F key = h \<and> (view, Some key, t, ks) \<in> (R(i := {})) (dr_invocation row)"
      using ok(1) unfolding exact_ok_def by (metis, metis fun_upd_other)
  next
    fix t h view i' key ks assume "(view, Some key, t, ks) \<in> (R(i := {})) i'" "key_hash F key = h"
    then have "i' \<noteq> i" "(view, Some key, t, ks) \<in> R i'" "key_hash F key = h" by (auto split: if_splits)
    then show "\<exists>row \<in> set (rows_at (dm_exact (half t ?idx)) (h, view)). dr_invocation row = i'"
      using ok(1) unfolding exact_ok_def by (metis rows)
  qed
qed

lemma dep_replace_ok:
  assumes "exact_ok F R idx" "plain_rows_ok R idx" "set old = R i"
  shows "exact_ok F (R(i := set reads)) (dep_replace F reads old i idx)" "plain_rows_ok (R(i := set reads)) (dep_replace F reads old i idx)"
  using insert_reads_ok [OF remove_reads_ok [OF assms], of i reads] by (simp_all add: dep_replace_def)

lemma dependency_default_ok: "exact_ok F (\<lambda>_. {}) dependency_default" "plain_rows_ok (\<lambda>_. {}) dependency_default"
  by (simp_all add: exact_ok_def plain_rows_ok_def dependency_default_def dep_maps_default_def half_def rows_at_def)

section \<open>Marking\<close>

lemma fold_push_new: "set (fold push_new is visited) = set is \<union> set visited" "distinct (fold push_new is visited) \<longleftrightarrow> distinct visited"
  by (induction "is" arbitrary: visited) auto

lemma fold_mark_row:
  "set (fold (mark_row F key) rows visited) = {dr_invocation row | row k. row \<in> set rows \<and> dr_exact_key row = Some k \<and> key_eq F k key} \<union> set visited"
  "distinct (fold (mark_row F key) rows visited) \<longleftrightarrow> distinct visited"
proof (induction rows arbitrary: visited)
  case (Cons row rows)
  { case 1
    have "set (mark_row F key row visited) = {dr_invocation row | k. dr_exact_key row = Some k \<and> key_eq F k key} \<union> set visited" by (auto simp: mark_row_def split: option.splits)
    then show ?case by (simp add: Cons.IH(1)) auto }
  { case 2 show ?case by (simp add: Cons.IH(2)) (simp add: mark_row_def) }
qed simp_all

lemma mark_change_ok:
  "set (mark_change F m (view, Some key, presence) visited) = set visited \<union>
     {dr_invocation row | row k. row \<in> set (rows_at (dm_exact m) (dep_hash F view key)) \<and> dr_exact_key row = Some k \<and> key_eq F k key} \<union>
     (if presence then set (rows_at (dm_keyset m) view) else {}) \<union> set (rows_at (dm_wildcard m) view)"
  "distinct (mark_change F m c visited) \<longleftrightarrow> distinct visited"
  by (auto simp: mark_change_def Let_def fold_push_new fold_mark_row split: option.split prod.split)

lemma mark_changes_distinct: "distinct (mark_changes F m changes)"
proof -
  have "distinct visited \<Longrightarrow> distinct (fold (mark_change F m) changes visited)" for visited
    by (induction changes arbitrary: visited) (simp_all add: mark_change_ok(2))
  then show ?thesis by (simp add: mark_changes_def)
qed

text \<open>The invocations with a read that a change matches.\<close>

definition readers :: "('k, 'v) fact_ops \<Rightarrow> (nat \<Rightarrow> 'k dep_read set) \<Rightarrow> bool \<Rightarrow> (nat \<times> 'k \<times> bool) list \<Rightarrow> nat set" where
  "readers F R t changes = {i. \<exists>r \<in> R i. \<exists>(view, key, presence) \<in> set changes. read_matches F r view key presence t}"

text \<open>No invocation reads, in one half and view, two different keys with one hash; a read by key is no keyset read.\<close>

definition reads_clear :: "('k, 'v) fact_ops \<Rightarrow> 'k dep_read set \<Rightarrow> bool" where
  "reads_clear F rs \<longleftrightarrow> (\<forall>view k l t a b. (view, Some k, t, a) \<in> rs \<longrightarrow> \<not> a \<and> ((view, Some l, t, b) \<in> rs \<longrightarrow> key_hash F k = key_hash F l \<longrightarrow> key_eq F k l))"

lemma mark_one_readers:
  assumes F: "fact_contract F" and ok: "exact_ok F R idx" "plain_rows_ok R idx" and clear: "\<And>i. reads_clear F (R i)"
  shows "set (mark_change F (half t idx) (view, Some key, presence) visited) = set visited \<union> readers F R t [(view, key, presence)]"
proof -
  let ?rows = "rows_at (dm_exact (half t idx)) (key_hash F key, view)"
  note eq = fact_contract_laws [OF F]
  have exact: "(\<exists>row k. i = dr_invocation row \<and> row \<in> set ?rows \<and> dr_exact_key row = Some k \<and> key_eq F k key) \<longleftrightarrow> (\<exists>k ks. (view, Some k, t, ks) \<in> R i \<and> key_eq F k key)" for i
  proof
    assume "\<exists>row k. i = dr_invocation row \<and> row \<in> set ?rows \<and> dr_exact_key row = Some k \<and> key_eq F k key"
    then obtain row k where row: "i = dr_invocation row" "row \<in> set ?rows" "dr_exact_key row = Some k" "key_eq F k key" by blast
    obtain k' ks where "dr_exact_key row = Some k'" "(view, Some k', t, ks) \<in> R (dr_invocation row)" using ok(1) row(2) unfolding exact_ok_def by metis
    then show "\<exists>k ks. (view, Some k, t, ks) \<in> R i \<and> key_eq F k key" using row by auto
  next
    assume "\<exists>k ks. (view, Some k, t, ks) \<in> R i \<and> key_eq F k key"
    then obtain k ks where k: "(view, Some k, t, ks) \<in> R i" "key_eq F k key" by blast
    have h: "key_hash F k = key_hash F key" by (rule eq(4) [OF k(2)])
    then obtain row where row: "row \<in> set ?rows" "dr_invocation row = i" using ok(1) k(1) unfolding exact_ok_def by metis
    then obtain k' ks' where k': "dr_exact_key row = Some k'" "key_hash F k' = key_hash F key" "(view, Some k', t, ks') \<in> R i" using ok(1) unfolding exact_ok_def by metis
    have "key_eq F k' k" using clear [of i] k(1) k'(2,3) h unfolding reads_clear_def by metis
    then show "\<exists>row k. i = dr_invocation row \<and> row \<in> set ?rows \<and> dr_exact_key row = Some k \<and> key_eq F k key" using row k'(1) k(2) eq(3) by blast
  qed
  have "i \<in> set (mark_change F (half t idx) (view, Some key, presence) visited) \<longleftrightarrow> i \<in> set visited \<or> (\<exists>k ks. (view, Some k, t, ks) \<in> R i \<and> key_eq F k key) \<or>
      presence \<and> (view, None, t, True) \<in> R i \<or> (view, None, t, False) \<in> R i" for i
    unfolding mark_change_ok(1) using exact [of i] ok(2) by (auto simp: plain_rows_ok_def dep_hash_def)
  moreover have "i \<in> readers F R t [(view, key, presence)] \<longleftrightarrow> (\<exists>k ks. (view, Some k, t, ks) \<in> R i \<and> key_eq F k key) \<or>
      presence \<and> (view, None, t, True) \<in> R i \<or> (view, None, t, False) \<in> R i" for i
  proof -
    have "(\<exists>r \<in> R i. read_matches F r view key presence t) \<longleftrightarrow> (\<exists>k ks. (view, k, t, ks) \<in> R i \<and> (ks \<longrightarrow> presence) \<and> (case k of None \<Rightarrow> True | Some k \<Rightarrow> key_eq F k key))"
    proof -
      have "(\<exists>r \<in> R i. read_matches F r view key presence t) \<longleftrightarrow> (\<exists>v k u ks. (v, k, u, ks) \<in> R i \<and> read_matches F (v, k, u, ks) view key presence t)" by (metis prod_cases4)
      moreover have "read_matches F (v, k, u, ks) view key presence t \<longleftrightarrow> v = view \<and> u = t \<and> (ks \<longrightarrow> presence) \<and> (case k of None \<Rightarrow> True | Some k \<Rightarrow> key_eq F k key)" for v k u ks
        by (auto simp: read_matches_def)
      ultimately show ?thesis by simp
    qed
    also have "\<dots> \<longleftrightarrow> (\<exists>k ks. (view, Some k, t, ks) \<in> R i \<and> key_eq F k key) \<or> presence \<and> (view, None, t, True) \<in> R i \<or> (view, None, t, False) \<in> R i"
      using clear [of i] unfolding reads_clear_def split_option_ex by (simp, metis)
    finally show ?thesis by (simp add: readers_def)
  qed
  ultimately show ?thesis by blast
qed

lemma mark_changes_readers:
  assumes "fact_contract F" "exact_ok F R idx" "plain_rows_ok R idx" "\<And>i. reads_clear F (R i)"
  shows "set (mark_changes F (half t idx) (map (\<lambda>(view, key, presence). (view, Some key, presence)) changes)) = readers F R t changes"
proof -
  have "set (fold (mark_change F (half t idx)) (map (\<lambda>(view, key, presence). (view, Some key, presence)) changes) visited) = set visited \<union> readers F R t changes" for visited
  proof (induction changes arbitrary: visited)
    case (Cons c changes)
    obtain view key presence where c: "c = (view, key, presence)" by (cases c)
    have "readers F R t (c # changes) = readers F R t [c] \<union> readers F R t changes" unfolding readers_def list.set by blast
    then show ?case using Cons.IH mark_one_readers [OF assms, of t view key presence visited] by (auto simp: c)
  qed (simp add: readers_def)
  then show ?thesis by (simp add: mark_changes_def)
qed

end
