(* ===== verification/Store_Wakeups.thy ===== *)
theory Store_Wakeups
  imports Store_Properties Dependency_Index
begin

text \<open>
  Root promotion (\<^verbatim>\<open>promote_plan\<close> of \<^verbatim>\<open>plain.rs\<close>): every occupied slot of a captured store is installed
  through the journal of the running command, which then commits.
\<close>

fun install_slots :: "('k, 'v) fact_ops \<Rightarrow> ('k, 'v) fact_slot option list \<Rightarrow> ('k, 'v) journaled \<Rightarrow> ('k store_error option \<times> ('k, 'v) journaled) option" where
  "install_slots F [] sj = Some (None, sj)"
| "install_slots F (None # rest) sj = install_slots F rest sj"
| "install_slots F (Some sl # rest) sj = do {
     (r, sj) \<leftarrow> journal_install F sl sj;
     (case r of Inl e \<Rightarrow> Some (Some e, sj) | Inr _ \<Rightarrow> install_slots F rest sj) }"

definition run_install :: "('k, 'v) fact_ops \<Rightarrow> ('k, 'v) plain_state \<Rightarrow> ('k, 'v) store_system \<Rightarrow> ('k store_error option \<times> ('k, 'v) store_system) option" where
  "run_install F captured = (\<lambda>(s, root). do {
     (r, s, j) \<leftarrow> install_slots F (ps_slots captured) (s, journal_default);
     (case r of
        Some e \<Rightarrow> do { s \<leftarrow> rollback F j s; Some (Some e, s, root) }
      | None \<Rightarrow> do { root \<leftarrow> snapshot_apply F (commit_deltas F j) root; Some (None, s, root) }) })"

lemmas store_eval = store_start_def plain_state_default_def journal_default_def
  journal_write_def journal_install_def current_slot_def journal_position_def erased_new_def erased_eq_def first_touch_def
  staged_def stage_def assign_ordinal_def apply_staged_def value_changed_def presence_changed_def insert_fact_def reserve_slot_def set_slot_def index_slot_def unindex_slot_def put_slot_def
  slot_index_def plain_slot_def slot_matches_def plain_read_def fact_hash_def bucket_push_def bucket_drop_def multi_insert_def multi_remove_def
  owner_set_insert_def owner_set_empty_def owner_set_iter_def hamt_entries_def hamt_insert_def hamt_get_def hamt_empty_def owner_key_def
  nat_facts_def checked_add_u64_def usize_max_def nth_opt_def Let_def entry_matches_def

lemmas snapshot_eval = snapshot_apply_def commit_deltas_def entry_delta_def apply_delta_def snapshot_view_default_def snapshot_trie_def sv_insert_def sv_lookup_def snapshot_read_def
  radix_empty_def radix_get_def radix_insert_def radix_remove_def


section \<open>Waking the readers\<close>

text \<open>Histories of evaluations: each replaces the rows of an invocation's old reads by those of its new ones.\<close>

fun dep_step :: "('k, 'v) fact_ops \<Rightarrow> nat \<times> 'k dep_read list \<Rightarrow> 'k dependency_index \<times> (nat \<Rightarrow> 'k dep_read list) \<Rightarrow> 'k dependency_index \<times> (nat \<Rightarrow> 'k dep_read list)" where
  "dep_step F (i, reads) (idx, R) = (dep_replace F reads (R i) i idx, R(i := reads))"

definition dep_run :: "('k, 'v) fact_ops \<Rightarrow> (nat \<times> 'k dep_read list) list \<Rightarrow> 'k dependency_index \<times> (nat \<Rightarrow> 'k dep_read list)" where
  "dep_run F evals = fold (dep_step F) evals (dependency_default, \<lambda>_. [])"

lemma dep_run_ok:
  assumes "dep_run F evals = (idx, R)"
  shows "exact_ok F (\<lambda>i. set (R i)) idx" "plain_rows_ok (\<lambda>i. set (R i)) idx" "R i = [] \<or> (i, R i) \<in> set evals"
proof -
  have "exact_ok F (\<lambda>i. set (snd s i)) (fst s) \<and> plain_rows_ok (\<lambda>i. set (snd s i)) (fst s) \<Longrightarrow>
      exact_ok F (\<lambda>i. set (snd (fold (dep_step F) es s) i)) (fst (fold (dep_step F) es s)) \<and> plain_rows_ok (\<lambda>i. set (snd (fold (dep_step F) es s) i)) (fst (fold (dep_step F) es s)) \<and>
      (snd (fold (dep_step F) es s) i = snd s i \<or> (i, snd (fold (dep_step F) es s) i) \<in> set es)" for es s i
  proof (induction es arbitrary: s)
    case (Cons e es)
    obtain j reads idx R where es: "e = (j, reads)" "s = (idx, R)" by (cases e; cases s)
    have "(\<lambda>i. set ((R(j := reads)) i)) = (\<lambda>i. set (R i))(j := set reads)" by (rule ext) simp
    then have "exact_ok F (\<lambda>i. set (snd (dep_step F e s) i)) (fst (dep_step F e s)) \<and> plain_rows_ok (\<lambda>i. set (snd (dep_step F e s) i)) (fst (dep_step F e s))"
      using dep_replace_ok [of F "\<lambda>i. set (R i)" idx "R j" j reads] Cons.prems by (simp add: es)
    from Cons.IH [OF this] show ?case by (auto simp: es split: if_splits)
  qed simp
  from this [of "(dependency_default, \<lambda>_. [])" evals i] dependency_default_ok(1) [of F] dependency_default_ok(2) assms
  show "exact_ok F (\<lambda>i. set (R i)) idx" "plain_rows_ok (\<lambda>i. set (R i)) idx" "R i = [] \<or> (i, R i) \<in> set evals" by (auto simp: dep_run_def)
qed

text \<open>C27: after any history of evaluations the index has a row for exactly the reads that each invocation
  made in its last evaluation, a read by key up to its hash: the rows of earlier evaluations are gone.\<close>

theorem dependency_rows_complete:
  "let (idx, R) = dep_run F evals in contains_row F idx view key t ks i \<longleftrightarrow>
    (case key of Some k \<Rightarrow> \<exists>k' ks'. (view, Some k', t, ks') \<in> set (R i) \<and> key_hash F k' = key_hash F k | None \<Rightarrow> (view, None, t, ks) \<in> set (R i))"
proof -
  obtain idx R where R: "dep_run F evals = (idx, R)" by fastforce
  note ok = dep_run_ok(1,2) [OF R]
  show ?thesis
  proof (cases key)
    case None
    then show ?thesis using ok(2) by (simp add: R contains_row_def plain_rows_ok_def)
  next
    case (Some k)
    have "(\<exists>row \<in> set (rows_at (dm_exact (half t idx)) (key_hash F k, view)). dr_invocation row = i) \<longleftrightarrow> (\<exists>k' ks'. (view, Some k', t, ks') \<in> set (R i) \<and> key_hash F k' = key_hash F k)"
      using ok(1) unfolding exact_ok_def by metis
    then show ?thesis by (simp add: R Some contains_row_def dep_hash_def)
  qed
qed

text \<open>C13: where no invocation reads two different keys of one view with one hash, marking visits each
  invocation once, and exactly those with a current (or previous) read that one of the changes matches,
  as the scan of all reads does.\<close>

theorem dependency_marks_readers:
  assumes F: "fact_contract F" and clear: "\<forall>(i, reads) \<in> set evals. reads_clear F (set reads)"
  shows "let (idx, R) = dep_run F evals; cs = map (\<lambda>(view, key, presence). (view, Some key, presence)) changes in
    distinct (mark_current F idx cs) \<and> set (mark_current F idx cs) = readers F (\<lambda>i. set (R i)) False changes \<and>
    distinct (mark_previous F idx cs) \<and> set (mark_previous F idx cs) = readers F (\<lambda>i. set (R i)) True changes"
proof -
  obtain idx R where R: "dep_run F evals = (idx, R)" by fastforce
  have "reads_clear F (set (R i))" for i
  proof (cases "R i = []")
    case False
    then have "(i, R i) \<in> set evals" using dep_run_ok(3) [OF R] by blast
    then show ?thesis using clear by blast
  qed (simp add: reads_clear_def)
  then show ?thesis using mark_changes_readers [OF F dep_run_ok(1,2) [OF R], of False changes] mark_changes_readers [OF F dep_run_ok(1,2) [OF R], of True changes]
    by (simp add: R mark_current_def mark_previous_def mark_changes_distinct half_def)
qed

theorem dependency_marks_readers_witness:
  "let (idx, R) = dep_run nat_facts [(5, [(0, Some 1, False, False)]), (6, [(0, None, False, True)])] in
    set (mark_current nat_facts idx [(0, Some 1, False)]) = readers nat_facts (\<lambda>i. set (R i)) False [(0, 1, False)]"
proof -
  have "\<forall>(i, reads) \<in> set [(5 :: nat, [(0, Some 1, False, False)]), (6, [(0, None, False, True)])]. reads_clear nat_facts (set reads)"
    by (simp add: reads_clear_def nat_facts_def)
  from dependency_marks_readers [OF nat_facts_contract this, of "[(0, 1, False)]"] show ?thesis by (auto simp: Let_def split: prod.splits)
qed


end
