(* ===== verification/Dirty_Queue.thy ===== *)
theory Dirty_Queue
  imports Prelude
begin

text \<open>
  The dirty queue of \<^verbatim>\<open>src/reactive/store.rs\<close> (\<^verbatim>\<open>DirtyKey\<close>, \<^verbatim>\<open>DirtyQueue\<close>): an ordered set of keys, a
  sorted list here, with the set of the invocations in it. Work counters are left out.
\<close>

section \<open>Keys\<close>

datatype dirty_key = DirtyKey (root_install_ordinal: nat) (invocation_ordinal: nat) (dirty_root: nat) (dirty_invocation: nat)

text \<open>The derived order: field by field.\<close>

fun dirty_tuple :: "dirty_key \<Rightarrow> nat list" where
  "dirty_tuple (DirtyKey a b c d) = [a, b, c, d]"

fun lex_less :: "nat list \<Rightarrow> nat list \<Rightarrow> bool" where
  "lex_less (x # xs) (y # ys) \<longleftrightarrow> x < y \<or> x = y \<and> lex_less xs ys"
| "lex_less xs ys \<longleftrightarrow> False"

lemma lex_less_irrefl: "\<not> lex_less xs xs"
  by (induction xs) auto

lemma lex_less_trans: "lex_less xs ys \<Longrightarrow> lex_less ys zs \<Longrightarrow> lex_less xs zs"
proof (induction xs ys arbitrary: zs rule: lex_less.induct)
  case (1 x xs y ys)
  then show ?case by (cases zs) auto
qed auto

lemma lex_less_total: "length xs = length ys \<Longrightarrow> xs \<noteq> ys \<Longrightarrow> lex_less xs ys \<or> lex_less ys xs"
  by (induction xs ys rule: list_induct2) auto

lemma dirty_tuple_eq: "length (dirty_tuple a) = 4" "dirty_tuple a = dirty_tuple b \<longleftrightarrow> a = b"
  by (cases a; simp) (cases a; cases b; simp)

instantiation dirty_key :: linorder
begin

definition less_dirty_key :: "dirty_key \<Rightarrow> dirty_key \<Rightarrow> bool" where
  "less_dirty_key a b \<longleftrightarrow> lex_less (dirty_tuple a) (dirty_tuple b)"

definition less_eq_dirty_key :: "dirty_key \<Rightarrow> dirty_key \<Rightarrow> bool" where
  "less_eq_dirty_key a b \<longleftrightarrow> lex_less (dirty_tuple a) (dirty_tuple b) \<or> a = b"

instance
proof
  fix a b c :: dirty_key
  note laws = lex_less_irrefl [of "dirty_tuple a"] lex_less_trans [of "dirty_tuple a" "dirty_tuple b"]
  show "a < b \<longleftrightarrow> a \<le> b \<and> \<not> b \<le> a" using laws by (auto simp: less_dirty_key_def less_eq_dirty_key_def)
  show "a \<le> a" by (simp add: less_eq_dirty_key_def)
  show "a \<le> b \<Longrightarrow> b \<le> c \<Longrightarrow> a \<le> c" using laws by (auto simp: less_eq_dirty_key_def)
  show "a \<le> b \<Longrightarrow> b \<le> a \<Longrightarrow> a = b" using laws by (auto simp: less_eq_dirty_key_def)
  show "a \<le> b \<or> b \<le> a" using lex_less_total [of "dirty_tuple a" "dirty_tuple b"] dirty_tuple_eq by (auto simp: less_eq_dirty_key_def)
qed

end

section \<open>The queue\<close>

record dirty_queue =
  dq_ordered :: "dirty_key list"
  dq_present :: "nat set"

definition dirty_default :: dirty_queue where
  "dirty_default = \<lparr>dq_ordered = [], dq_present = {}\<rparr>"

fun ordered_insert :: "'a::linorder \<Rightarrow> 'a list \<Rightarrow> 'a list" where
  "ordered_insert k [] = [k]"
| "ordered_insert k (x # xs) = (if k < x then k # x # xs else if k = x then x # xs else x # ordered_insert k xs)"

definition dirty_insert :: "dirty_key \<Rightarrow> dirty_queue \<Rightarrow> dirty_queue" where
  "dirty_insert key q = (if dirty_invocation key \<in> dq_present q then q
     else q\<lparr>dq_present := insert (dirty_invocation key) (dq_present q), dq_ordered := ordered_insert key (dq_ordered q)\<rparr>)"

definition dirty_pop :: "dirty_queue \<Rightarrow> (dirty_key \<times> dirty_queue) option" where
  "dirty_pop q = (case dq_ordered q of [] \<Rightarrow> None
     | key # rest \<Rightarrow> Some (key, q\<lparr>dq_ordered := rest, dq_present := dq_present q - {dirty_invocation key}\<rparr>))"

definition dirty_clear :: "dirty_queue \<Rightarrow> dirty_queue" where
  "dirty_clear q = q\<lparr>dq_ordered := [], dq_present := {}\<rparr>"

definition dirty_len :: "dirty_queue \<Rightarrow> nat" where
  "dirty_len q = length (dq_ordered q)"

definition dirty_is_empty :: "dirty_queue \<Rightarrow> bool" where
  "dirty_is_empty q \<longleftrightarrow> dq_ordered q = []"

section \<open>The invariant\<close>

definition dirty_ok :: "dirty_queue \<Rightarrow> bool" where
  "dirty_ok q \<longleftrightarrow> sorted_wrt (<) (dq_ordered q) \<and> distinct (map dirty_invocation (dq_ordered q)) \<and> dq_present q = dirty_invocation ` set (dq_ordered q)"

lemma ordered_insert_set [simp]: "set (ordered_insert k xs) = insert k (set xs)"
  by (induction k xs rule: ordered_insert.induct) auto

lemma ordered_insert_sorted: "sorted_wrt (<) xs \<Longrightarrow> sorted_wrt (<) (ordered_insert k xs)"
  by (induction k xs rule: ordered_insert.induct) auto

lemma strict_sorted_distinct: "sorted_wrt (<) xs \<Longrightarrow> distinct xs" for xs :: "'a::linorder list"
  by (induction xs) auto

lemma dirty_insert_ok: "dirty_ok q \<Longrightarrow> dirty_ok (dirty_insert key q)"
proof -
  assume ok: "dirty_ok q"
  have "inj_on dirty_invocation (set (ordered_insert key (dq_ordered q)))" if "dirty_invocation key \<notin> dq_present q"
    using ok that by (auto simp: dirty_ok_def distinct_map)
  then show ?thesis using ok ordered_insert_sorted [of "dq_ordered q" key] strict_sorted_distinct [OF ordered_insert_sorted, of "dq_ordered q" key]
    by (auto simp: dirty_ok_def dirty_insert_def distinct_map)
qed

lemma dirty_pop_ok:
  assumes "dirty_ok q" "dirty_pop q = Some (key, q')"
  shows "dirty_ok q'" "dq_ordered q = key # dq_ordered q'"
  using assms by (auto simp: dirty_ok_def dirty_pop_def split: list.splits)

fun dirty_drain :: "nat \<Rightarrow> dirty_queue \<Rightarrow> dirty_key list" where
  "dirty_drain 0 q = []"
| "dirty_drain (Suc fuel) q = (case dirty_pop q of None \<Rightarrow> [] | Some (key, q) \<Rightarrow> key # dirty_drain fuel q)"

lemma dirty_drain_ordered: "dirty_len q \<le> fuel \<Longrightarrow> dirty_drain fuel q = dq_ordered q"
  by (induction fuel q rule: dirty_drain.induct) (auto simp: dirty_len_def dirty_pop_def split: list.splits)

text \<open>The first key of each invocation, in the order of insertion.\<close>

definition first_keys :: "dirty_key list \<Rightarrow> dirty_key list" where
  "first_keys keys = fold (\<lambda>k acc. if dirty_invocation k \<in> dirty_invocation ` set acc then acc else acc @ [k]) keys []"

lemma dirty_inserts:
  "dirty_ok q \<Longrightarrow> set (dq_ordered q) = set acc \<Longrightarrow>
    dirty_ok (fold dirty_insert keys q) \<and> set (dq_ordered (fold dirty_insert keys q)) = set (fold (\<lambda>k acc. if dirty_invocation k \<in> dirty_invocation ` set acc then acc else acc @ [k]) keys acc)"
proof (induction keys arbitrary: q acc)
  case (Cons k keys)
  let ?acc = "if dirty_invocation k \<in> dirty_invocation ` set acc then acc else acc @ [k]"
  have "set (dq_ordered (dirty_insert k q)) = set ?acc" using Cons.prems by (auto simp: dirty_insert_def dirty_ok_def)
  from Cons.IH [OF dirty_insert_ok [OF Cons.prems(1)] this] show ?case by simp
qed simp

lemma first_keys_length: "length (fold (\<lambda>k acc. if dirty_invocation k \<in> dirty_invocation ` set acc then acc else acc @ [k]) keys acc) \<le> length keys + length acc"
proof (induction keys arbitrary: acc)
  case (Cons k keys)
  show ?case using Cons.IH [of acc] Cons.IH [of "acc @ [k]"] by simp
qed simp


end
