(* ===== verification/Spec2Isabelle.thy ===== *)
theory Spec2Isabelle
  imports Persistent_Seq Radix_Map Tape_Limits Session_Properties Scope_Resolve Source_Properties Store_Wakeups Dirty_Queue
begin

text \<open>
  A verification library for Plingo, an incremental language workbench written in Rust.

  \<^bold>\<open>The program.\<close> Plingo keeps the text of a document in a rope (\<^verbatim>\<open>src/framework/source.rs\<close>),
  lexes it incrementally (\<^verbatim>\<open>src/framework/lex\<close>), parses it with a generated LR(1) automaton and a
  graph-structured stack (\<^verbatim>\<open>src/framework/parse\<close>) and runs typed reactive computations over the
  result (\<^verbatim>\<open>src/reactive\<close>). What makes the pipeline incremental is a set of persistent data
  structures: an edit rebuilds the paths it touches and shares the rest, and stable ids find an
  old occurrence in a new revision.

  \<^bold>\<open>The theories.\<close>
  \<^item> \<open>Prelude\<close>: machine bounds, checked and saturating additions, chunking, list lemmas.
  \<^item> \<open>Sequence_Spec\<close>: the interface of an editable sequence, as the locales \<open>sequence\<close> and
    \<open>cuttable_sequence\<close>: reads agree with a list, cutting and joining are inverse, and a splice made
    of two cuts and two joins is the splice of lists.
  \<^item> \<open>Persistent_Seq\<close> (\<^verbatim>\<open>src/utils/persistent_seq.rs\<close>): the measured rope of values.
  \<^item> \<open>Radix_Map\<close> (\<^verbatim>\<open>src/reactive/store.rs\<close>, \<^verbatim>\<open>RadixMap\<close>): the 256-way trie from 64-bit ids to
    values, and the locale \<open>persistent_index\<close> that it provides.
  \<^item> \<open>Leaf_Order\<close>, \<open>Tape_Node\<close>, \<open>Tape_Reads\<close>, \<open>Tape_Ops\<close>, \<open>Tape_Splice\<close>, \<open>Tape_Cursor\<close>,
    \<open>Tape_Index\<close> (\<^verbatim>\<open>src/framework/tape.rs\<close>): the dyadic labels of the leaves, nodes with metrics
    and fresh ids, reads, construction and cutting, the correctness of \<^verbatim>\<open>splice\<close>, cursors, and the
    index from stable ids to leaf labels. \<open>Tape_Properties\<close> states what they promise and
    \<open>Tape_Limits\<close> where they fall short of their comments.

  \<^item> \<open>Grammar\<close>, \<open>Derivation\<close>, \<open>Grammar_Analysis\<close>, \<open>Analysis_Correct\<close>
    (\<^verbatim>\<open>src/framework/parse/grammar.rs\<close>, \<^verbatim>\<open>analyze.rs\<close>): the grammar and its builder, derivations as
    the specification, the nullable and FIRST fixpoints and their exactness. \<open>LR_Build\<close>,
    \<open>LR_Closure\<close>, \<open>LR_States\<close>, \<open>LR_Tables\<close> (\<^verbatim>\<open>build.rs\<close>): closure, goto, the breadth-first
    construction of the states, the tables and the conflict report, against the canonical collection
    of item sets. \<open>LR_Language\<close> and \<open>LR_Complete\<close> define the machine that reads the tables
    nondeterministically (\<open>lr_step\<close>, a specification of what the parser session explores) and show
    that it accepts the derivable strings and no others. \<open>Grammar_Properties\<close> states the results
    from a script of builder calls on (the generated \<^verbatim>\<open>register\<close> function is such a script).
  \<^item> \<open>Sealed_Arena\<close>, \<open>Parse_Arenas\<close>, \<open>Gss_Arena\<close> (\<^verbatim>\<open>src/framework/parse/data\<close>): append-only arenas in
    sealed generations, as the locales \<open>arena\<close> and \<open>interning_arena\<close>; the arenas of products, green
    trees and AST records, and the graph-structured stack. \<open>Build_Context\<close> (\<^verbatim>\<open>BuildCx\<close> of
    \<^verbatim>\<open>grammar.rs\<close>) is what a reduction may do with them.
  \<^item> \<open>Parse_Session\<close> (\<^verbatim>\<open>parsing/session.rs\<close>, \<^verbatim>\<open>state.rs\<close>, the replay loop of \<^verbatim>\<open>incremental.rs\<close>): the columns,
    reductions to a fixpoint, shifts, deletions and the cold parse, as steps that return a value or a
    reason to stop together with the state they leave. \<open>Session_Graph\<close> holds the outcome calculus and
    the invariant of the graph; \<open>Session_Steps\<close> shows that a pass is a sequence of single reductions
    (\<open>session_step\<close>) and that an unchanged pass leaves every active node settled; \<open>Session_Returns\<close>
    that the loop ends for a grammar without cycles; \<open>Session_Shift\<close> and \<open>Session_Tokens\<close> what one token
    does; \<open>Session_Sound\<close> and \<open>Session_Language\<close> that the graph represents exactly the stacks of the
    machine \<open>lr_step\<close>. \<open>Session_Properties\<close> states the results. The loop of \<^verbatim>\<open>reduce_until_stable\<close> is a
    partial function; \<open>passes\<close> is the same loop cut off after a number of passes, used to show that it
    ends. A vector holds at most \<open>isize_max\<close> elements; a push beyond that stops the session.
  \<^item> \<open>Scope_Path\<close>, \<open>Path_Order\<close>, \<open>Scope_Resolve\<close> (\<^verbatim>\<open>src/framework/scope.rs\<close>): path expressions and
    their derivatives against the language of an expression, label preferences and the visibility of
    paths, and resolution against the routes of the graph, with its termination and where it fails.

  \<^item> \<open>Source_Text\<close>, \<open>Source_Edits\<close>, \<open>Source_Coordinates\<close>, \<open>Source_Workspace\<close> (\<^verbatim>\<open>src/framework/source.rs\<close>,
    \<^verbatim>\<open>workspace.rs\<close>, the spans of \<^verbatim>\<open>src/utils.rs\<close>): UTF-8 texts and the operations of a rope, the normalisation of a
    batch of edits and its application, the maps of unchanged offsets, and the commands of a workspace. The rope is
    the \<^verbatim>\<open>ropey\<close> crate: a record of operations, with what its documentation says of them as the hypothesis
    \<open>rope_contract\<close>, met by \<open>list_rope\<close>. \<open>Source_Correct\<close> says what a batch means, \<open>Source_Apply\<close> and
    \<open>Source_Normalize\<close> show that the code computes it on ASCII texts, \<open>Source_Refines\<close> carries this to the
    workspace as a map from URIs to bytes, and \<open>Source_Properties\<close> states the results, and where
    the code goes wrong beyond ASCII.

  \<^item> \<open>Multiset_Lists\<close>, \<open>Hash_Trie\<close>, \<open>Index_Maps\<close>, \<open>Fact_Store\<close>, \<open>Fact_Journal\<close>, \<open>Fact_Snapshot\<close>
    (\<^verbatim>\<open>src/reactive/store.rs\<close>): the hash trie over any key type and the owner sets on it, the ordered and
    bucketed indexes, the slots of facts with their three indexes, the journal of a command (writes,
    installs, retractions, commit and rollback), and the committed snapshot. The equality, the hash and
    the downcast of a key or value are parameters; \<open>fact_contract\<close> says that equality is an equivalence
    that respects the hash, and the hashes may collide at will. \<open>Journal_Correct\<close>, \<open>Journal_Protocol\<close> and
    \<open>Journal_Commit\<close> follow one operation of a command and its commit; \<open>Store_History\<close> runs histories of
    commands and states the ownership protocol on a map (\<open>spec_op\<close>, \<open>spec_command\<close>);
    \<open>Store_Properties\<close> shows that the store refines it, that the snapshot agrees and that a failed
    command is undone. The bound on the length of a history keeps the ordinals, two for each new fact,
    within 64 bits.
  \<^item> \<open>Dependency_Index\<close>, \<open>Dirty_Queue\<close>, \<open>Store_Wakeups\<close> (\<^verbatim>\<open>src/reactive/store.rs\<close>, \<^verbatim>\<open>ReadDep\<close> and the root
    promotion of \<^verbatim>\<open>plain.rs\<close>): the reverse index from facts to the invocations that read them, against the
    scan of all reads, the queue of dirty invocations, and installing a captured store.

  \<^bold>\<open>Conventions.\<close> \<^verbatim>\<open>usize\<close> and counters are naturals with the checked or saturating addition
  written out; the 64-bit keys of the radix map and the hashes are words. A panic (an index out
  of range, a failed \<^verbatim>\<open>expect\<close>, \<^verbatim>\<open>unreachable!\<close> or debug assertion) is \<open>None\<close>; the theorems show
  that it does not happen under the stated bounds. \<^verbatim>\<open>Arc\<close> is dropped: a shared node is its value,
  and where the code compares pointers the comparison is a parameter that may hold only of
  equal values. Recursion is structural or carries a termination proof; the two loops of
  \<^verbatim>\<open>LeafOrderKey\<close> that search for a label and the loop over the LR(1) states are partial
  functions, and are shown to return; the fixpoint passes count the bits still unset, the closure
  loop the items that can still be added.

  \<^bold>\<open>Not modelled.\<close> Reference counts and sharing of \<^verbatim>\<open>Arc\<close>, debug formatting, the path-work
  counters (\<^verbatim>\<open>src/reactive/pathwork.rs\<close>), the macro crates (they rewrite token streams with
  libraries outside the repository), examples, benches and tests. Of the parser session the
  reuse of an old parse (suffix segments, checkpoints, recovery journals) and the recovery search are
  left out. Of the workspace the work counters and reports are left out, and the engine is seen as a transaction.
\<close>

end
